(* ===== verification/Prelude.thy ===== *)
theory Prelude
  imports Main "HOL-Library.Word"
begin

text \<open>
  Shared vocabulary of the development: the machine integers of \<^verbatim>\<open>e32def.h\<close>
  (\<open>TInt\<close> is an \<open>int\<close> kept in the signed 32-bit range, \<open>TUint\<close> casts and the
  wrap-around are written out, bit patterns are \<open>32 word\<close>), the error codes of
  \<^verbatim>\<open>e32err.h\<close>, the ways an operation can fail other than by returning an error code
  (a panic or kernel fault, or a memory access outside the object), and the generic list and
  bit lemmas the components share.
\<close>

unbundle bit_operations_syntax

section \<open>Machine integers\<close>

type_synonym TUint32 = "32 word"

abbreviation (input) KMaxTInt :: int where "KMaxTInt \<equiv> 0x7fffffff"

definition is_TInt :: "int \<Rightarrow> bool" where
  "is_TInt x \<longleftrightarrow> - 0x80000000 \<le> x \<and> x < 0x80000000"

definition to_TUint :: "int \<Rightarrow> int" where
  "to_TUint x = x mod 0x100000000"

definition to_TInt :: "int \<Rightarrow> int" where
  "to_TInt x = (x + 0x80000000) mod 0x100000000 - 0x80000000"

lemma to_TInt_id [simp]: "is_TInt x \<Longrightarrow> to_TInt x = x"
  by (simp add: is_TInt_def to_TInt_def)

lemma is_TInt_to_TInt [simp]: "is_TInt (to_TInt x)"
  by (simp add: is_TInt_def to_TInt_def)

lemma to_TUint_id: "0 \<le> x \<Longrightarrow> x < 0x100000000 \<Longrightarrow> to_TUint x = x"
  by (simp add: to_TUint_def)

section \<open>Error codes\<close>

abbreviation (input) KErrNone :: int where "KErrNone \<equiv> 0"
abbreviation (input) KErrNotFound :: int where "KErrNotFound \<equiv> -1"
abbreviation (input) KErrGeneral :: int where "KErrGeneral \<equiv> -2"
abbreviation (input) KErrCancel :: int where "KErrCancel \<equiv> -3"
abbreviation (input) KErrNoMemory :: int where "KErrNoMemory \<equiv> -4"
abbreviation (input) KErrOverflow :: int where "KErrOverflow \<equiv> -9"
abbreviation (input) KErrUnderflow :: int where "KErrUnderflow \<equiv> -10"
abbreviation (input) KErrAlreadyExists :: int where "KErrAlreadyExists \<equiv> -11"

section \<open>Abnormal outcomes\<close>

text \<open>
  \<open>Panic cat\<close> is a panic, a kernel fault or a failed always-on assertion; \<open>BadMemory\<close>
  is an access outside the object, which C++ leaves undefined: a theorem that an operation
  returns a value says in particular that it is not reached.
\<close>

datatype fault = Panic string | BadMemory

definition ebind :: "fault + 'a \<Rightarrow> ('a \<Rightarrow> fault + 'b) \<Rightarrow> fault + 'b" where
  "ebind r f = (case r of Inl e \<Rightarrow> Inl e | Inr v \<Rightarrow> f v)"

lemma ebind_simps [simp]: "ebind (Inl e) f = Inl e" "ebind (Inr v) f = f v"
  by (simp_all add: ebind_def)

lemma ebind_Inr_iff: "ebind r f = Inr b \<longleftrightarrow> (\<exists>a. r = Inr a \<and> f a = Inr b)"
  by (cases r) auto

lemma ebindE [elim]:
  assumes "ebind r f = Inr b"
  obtains a where "r = Inr a" "f a = Inr b"
  using assms by (cases r) auto

definition assert_always :: "string \<Rightarrow> bool \<Rightarrow> fault + 'a \<Rightarrow> fault + 'a" where
  "assert_always cat c k = (if c then k else Inl (Panic cat))"

lemma assert_always_simps [simp]:
  "c \<Longrightarrow> assert_always cat c k = k"
  "\<not> c \<Longrightarrow> assert_always cat c k = Inl (Panic cat)"
  by (simp_all add: assert_always_def)

lemma assert_always_Inr: "assert_always cat c k = Inr v \<longleftrightarrow> c \<and> k = Inr v"
  by (simp add: assert_always_def)

section \<open>Checked list access\<close>

definition rd :: "'a list \<Rightarrow> nat \<Rightarrow> fault + 'a" where
  "rd xs i = (if i < length xs then Inr (xs ! i) else Inl BadMemory)"

definition wr :: "'a list \<Rightarrow> nat \<Rightarrow> 'a \<Rightarrow> fault + 'a list" where
  "wr xs i v = (if i < length xs then Inr (xs[i := v]) else Inl BadMemory)"

lemma rd_ok [simp]: "i < length xs \<Longrightarrow> rd xs i = Inr (xs ! i)"
  by (simp add: rd_def)

lemma wr_ok [simp]: "i < length xs \<Longrightarrow> wr xs i v = Inr (xs[i := v])"
  by (simp add: wr_def)

lemma rd_Inr_iff: "rd xs i = Inr v \<longleftrightarrow> i < length xs \<and> v = xs ! i"
  by (auto simp: rd_def)

lemma wr_Inr_iff: "wr xs i v = Inr ys \<longleftrightarrow> i < length xs \<and> ys = xs[i := v]"
  by (auto simp: wr_def)

section \<open>Bit primitives\<close>

text \<open>
  \<open>__e32_find_ms1_32\<close> and \<open>__e32_bit_count_32\<close> are assembler in the source; these
  definitions are their documented contract (most significant 1 bit, -1 for the zero word;
  number of 1 bits).
\<close>

fun ms1_below :: "nat \<Rightarrow> TUint32 \<Rightarrow> int" where
  "ms1_below 0 w = -1"
| "ms1_below (Suc n) w = (if bit w n then int n else ms1_below n w)"

definition find_ms1_32 :: "TUint32 \<Rightarrow> int" where
  "find_ms1_32 w = ms1_below 32 w"

definition bit_count_32 :: "TUint32 \<Rightarrow> nat" where
  "bit_count_32 w = length (filter (bit w) [0..<32])"

lemma ms1_below_zero: "(\<forall>i<n. \<not> bit w i) \<Longrightarrow> ms1_below n w = -1"
  by (induction n) auto

lemma ms1_below_nonzero:
  assumes "\<exists>i<n. bit w i"
  shows "\<exists>k<n. ms1_below n w = int k \<and> bit w k \<and> (\<forall>j<n. k < j \<longrightarrow> \<not> bit w j)"
  using assms
proof (induction n)
  case 0
  then show ?case by simp
next
  case (Suc n)
  show ?case
  proof (cases "bit w n")
    case True
    then show ?thesis by auto
  next
    case False
    with Suc.prems have "\<exists>i<n. bit w i" by (auto simp: less_Suc_eq)
    from Suc.IH [OF this] False show ?thesis by (auto simp: less_Suc_eq)
  qed
qed

lemma word32_nonzero_bit: "(w :: TUint32) \<noteq> 0 \<longleftrightarrow> (\<exists>i<32. bit w i)"
proof
  assume "w \<noteq> 0"
  show "\<exists>i<32. bit w i"
  proof (rule ccontr)
    assume none: "\<not> (\<exists>i<32. bit w i)"
    have "w = 0"
      by (rule bit_word_eqI) (use none in simp)
    with \<open>w \<noteq> 0\<close> show False ..
  qed
next
  assume "\<exists>i<32. bit w i"
  then show "w \<noteq> 0" by auto
qed

lemma find_ms1_32_spec:
  assumes "w \<noteq> 0"
  shows "\<exists>k<32. find_ms1_32 w = int k \<and> bit w k \<and> (\<forall>j. k < j \<longrightarrow> \<not> bit w j)"
proof -
  obtain k where k: "k < 32" "ms1_below 32 w = int k" "bit w k" "\<forall>j<32. k < j \<longrightarrow> \<not> bit w j"
    using ms1_below_nonzero [of 32 w] assms word32_nonzero_bit by auto
  moreover have "\<not> bit w j" if "k < j" for j
    using k(4) that bit_imp_le_length [of w j] by auto
  ultimately show ?thesis by (auto simp: find_ms1_32_def)
qed

lemma bit_count_32_card: "bit_count_32 w = card {i. i < 32 \<and> bit w i}"
proof -
  have "distinct (filter (bit w) [0..<32])" by simp
  then have "bit_count_32 w = card (set (filter (bit w) [0..<32]))"
    unfolding bit_count_32_def by (rule distinct_card [symmetric])
  also have "set (filter (bit w) [0..<32]) = {i. i < 32 \<and> bit w i}" by auto
  finally show ?thesis .
qed

end
