(* ===== verification/Pool.thy ===== *)
theory Pool
  imports Prelude
begin

text \<open>
  The interface of an allocator of numbered positions, as its clients use it: take some
  free position, give one back. The locale states what a provider promises; the lemma proved
  inside is what every client needs: over any history of calls the positions held are distinct
  and never free, and no position is lost.
\<close>

datatype pool_op = Take | Give nat

text \<open>
  A client's history: \<open>Give k\<close> returns the \<open>k\<close>-th of the positions held. A fault of either
  operation ends it.
\<close>

fun pool_run ::
    "('s \<Rightarrow> fault + (nat \<times> 's) option) \<Rightarrow> ('s \<Rightarrow> nat \<Rightarrow> fault + 's) \<Rightarrow>
     pool_op list \<Rightarrow> 's \<times> nat list \<Rightarrow> fault + 's \<times> nat list" where
  "pool_run tk gv [] sh = Inr sh"
| "pool_run tk gv (Take # ops) (s, held) =
     ebind (tk s) (\<lambda>r. case r of
       None \<Rightarrow> pool_run tk gv ops (s, held)
     | Some (i, s') \<Rightarrow> pool_run tk gv ops (s', i # held))"
| "pool_run tk gv (Give k # ops) (s, held) =
     (if k < length held
      then ebind (gv s (held ! k)) (\<lambda>s'.
           pool_run tk gv ops (s', take k held @ drop (Suc k) held))
      else pool_run tk gv ops (s, held))"

lemma set_without_nth:
  assumes "distinct xs" "k < length xs"
  shows "distinct (take k xs @ drop (Suc k) xs)"
    "set (take k xs @ drop (Suc k) xs) = set xs - {xs ! k}"
proof -
  note split = id_take_nth_drop [OF assms(2)]
  have "distinct (take k xs @ xs ! k # drop (Suc k) xs)" "set xs = set (take k xs @ xs ! k # drop (Suc k) xs)"
    by (simp_all only: split [symmetric] assms(1))
  then show "distinct (take k xs @ drop (Suc k) xs)"
    "set (take k xs @ drop (Suc k) xs) = set xs - {xs ! k}" by auto
qed

locale position_pool =
  fixes ok :: "'s \<Rightarrow> bool"
    and avail :: "'s \<Rightarrow> nat set"
    and span :: "'s \<Rightarrow> nat set"
    and tk :: "'s \<Rightarrow> fault + (nat \<times> 's) option"
    and gv :: "'s \<Rightarrow> nat \<Rightarrow> fault + 's"
  assumes take_none: "ok s \<Longrightarrow> avail s = {} \<Longrightarrow> tk s = Inr None"
    and take_some: "ok s \<Longrightarrow> avail s \<noteq> {} \<Longrightarrow>
      \<exists>i s'. tk s = Inr (Some (i, s')) \<and> i \<in> avail s \<and> ok s' \<and> avail s' = avail s - {i} \<and> span s' = span s"
    and give_ok: "ok s \<Longrightarrow> i \<in> span s \<Longrightarrow> i \<notin> avail s \<Longrightarrow>
      \<exists>s'. gv s i = Inr s' \<and> ok s' \<and> avail s' = insert i (avail s) \<and> span s' = span s"
begin

definition pool_inv :: "nat set \<Rightarrow> 's \<times> nat list \<Rightarrow> bool" where
  "pool_inv U sh \<longleftrightarrow>
     ok (fst sh) \<and> span (fst sh) = U \<and> distinct (snd sh) \<and>
     set (snd sh) \<inter> avail (fst sh) = {} \<and> set (snd sh) \<union> avail (fst sh) = U"

lemma pool_inv_take:
  assumes "pool_inv U (s, held)" "i \<in> avail s" "ok s'" "avail s' = avail s - {i}" "span s' = span s"
  shows "pool_inv U (s', i # held)"
proof -
  have "i \<notin> set held" using assms(1,2) unfolding pool_inv_def fst_conv snd_conv by blast
  moreover have "set (i # held) \<inter> avail s' = {}"
    using assms(1,4) unfolding pool_inv_def fst_conv snd_conv by force
  moreover have "set (i # held) \<union> avail s' = U"
    using assms(1,2,4) unfolding pool_inv_def fst_conv snd_conv by force
  ultimately show ?thesis using assms(1,3,5) by (simp add: pool_inv_def)
qed

lemma pool_inv_give:
  assumes I: "pool_inv U (s, held)" and k: "k < length held"
    and s': "ok s'" "avail s' = insert (held ! k) (avail s)" "span s' = span s"
  shows "pool_inv U (s', take k held @ drop (Suc k) held)"
proof -
  have d: "distinct held" using I by (simp add: pool_inv_def)
  note w = set_without_nth [OF d k]
  have "held ! k \<in> set held" using k by simp
  then have "(set held - {held ! k}) \<inter> avail s' = {}" "(set held - {held ! k}) \<union> avail s' = U"
    using I s'(2) unfolding pool_inv_def fst_conv snd_conv by (blast, force)
  then show ?thesis
    using I s'(1,3) w(1) unfolding pool_inv_def fst_conv snd_conv w(2) by simp
qed

lemma history: "pool_inv U (s, held) \<Longrightarrow> \<exists>sh'. pool_run tk gv ops (s, held) = Inr sh' \<and> pool_inv U sh'"
proof (induction ops arbitrary: s held)
  case Nil
  then show ?case by simp
next
  case (Cons op ops)
  note inv = Cons.prems [unfolded pool_inv_def fst_conv snd_conv]
  note same = Cons.IH [OF Cons.prems]
  show ?case
  proof (cases op)
    case Take
    show ?thesis
    proof (cases "avail s = {}")
      case True
      then show ?thesis using take_none [OF conjunct1 [OF inv] True] same Take by simp
    next
      case False
      then obtain i s' where i: "tk s = Inr (Some (i, s'))" "i \<in> avail s" "ok s'"
        "avail s' = avail s - {i}" "span s' = span s"
        using take_some [OF conjunct1 [OF inv] False] by blast
      have "pool_inv U (s', i # held)" by (rule pool_inv_take [OF Cons.prems i(2-5)])
      from Cons.IH [OF this] show ?thesis using Take i by simp
    qed
  next
    case (Give k)
    show ?thesis
    proof (cases "k < length held")
      case True
      then have "held ! k \<in> set held" by simp
      then have "held ! k \<in> span s" "held ! k \<notin> avail s" using inv by (blast, blast)
      then obtain s' where s': "gv s (held ! k) = Inr s'" "ok s'"
        "avail s' = insert (held ! k) (avail s)" "span s' = span s"
        using give_ok [OF conjunct1 [OF inv]] by blast
      have "pool_inv U (s', take k held @ drop (Suc k) held)"
        by (rule pool_inv_give [OF Cons.prems True s'(2-4)])
      from Cons.IH [OF this] show ?thesis using Give True s' by simp
    qed (use Give same in simp)
  qed
qed

end

end
