(* ===== verification/Bma.thy ===== *)
theory Bma
  imports Prelude
begin

text \<open>
  The kernel's bitmap allocator, \<^verbatim>\<open>kernel/eka/klib/bma.cpp\<close> (class
  \<open>TBitMapAllocator\<close> of \<^verbatim>\<open>include/kernel/kbma.h\<close>). A position is free when its bit is
  1; position \<open>p\<close> is bit \<open>31 - p mod 32\<close> of word \<open>p div 32\<close>. This theory holds the state,
  the operations other than the searches for runs (theory \<open>Bma_Runs\<close>), the representation
  invariant and the specification of each operation on the set of free positions.
\<close>

section \<open>State\<close>

text \<open>
  \<open>iCheckFirst\<close> is a pointer into \<open>iMap\<close> in the source and a word index here; \<open>iMap\<close> is the
  array that extends past the end of the object.
\<close>

record TBitMapAllocator =
  iAvail :: int
  iCheckFirst :: nat
  iSize :: int
  iMap :: "TUint32 list"

abbreviation all_ones :: TUint32 where "all_ones \<equiv> 0xffffffff"

abbreviation TBMA :: string where "TBMA \<equiv> ''TBMA''"

section \<open>Construction\<close>

definition nmapw :: "int \<Rightarrow> int" where
  "nmapw aSize = to_TInt (aSize + 31) div 32"

function fill_free :: "int \<Rightarrow> TUint32 list" where
  "fill_free aSize =
     (if aSize \<ge> 32 then all_ones # fill_free (aSize - 32)
      else if aSize \<noteq> 0 then [push_bit (nat (32 - aSize)) all_ones]
      else [])"
  by pat_completeness auto
termination
  by (relation "measure nat") auto

definition Bma_ctor :: "int \<Rightarrow> bool \<Rightarrow> fault + TBitMapAllocator" where
  "Bma_ctor aSize aState =
     assert_always TBMA (aSize > 0)
      (if aState
       then Inr \<lparr>iAvail = aSize, iCheckFirst = 0, iSize = aSize, iMap = fill_free aSize\<rparr>
       else Inr \<lparr>iAvail = 0, iCheckFirst = nat (nmapw aSize - 1), iSize = aSize,
                 iMap = replicate (nat (nmapw aSize)) 0\<rparr>)"

text \<open>
  \<open>New\<close> first asks the kernel heap for the object; \<open>alloc_ok\<close> tells whether a request of so
  many bytes succeeds (the object header is 12 bytes, then one word of \<open>iMap\<close> is part of the
  class). \<open>None\<close> is the NULL pointer.
\<close>

definition Bma_New :: "(int \<Rightarrow> bool) \<Rightarrow> int \<Rightarrow> bool \<Rightarrow> fault + TBitMapAllocator option" where
  "Bma_New alloc_ok aSize aState =
     (let memsz = 16 + (nmapw aSize - 1) * 4
      in if alloc_ok memsz
         then ebind (Bma_ctor aSize aState) (\<lambda>pA. Inr (Some pA))
         else Inr None)"

section \<open>Single positions\<close>

function al_scan :: "TUint32 list \<Rightarrow> nat \<Rightarrow> fault + nat" where
  "al_scan m pW =
     (if pW < length m
      then if m ! pW = 0 then al_scan m (Suc pW) else Inr pW
      else Inl BadMemory)"
  by pat_completeness auto
termination
  by (relation "measure (\<lambda>(m, pW). length m - pW)") auto

declare al_scan.simps [simp del]

definition Bma_Alloc :: "TBitMapAllocator \<Rightarrow> fault + int \<times> TBitMapAllocator" where
  "Bma_Alloc b =
     (if iAvail b = 0 then Inr (-1, b)
      else ebind (al_scan (iMap b) (iCheckFirst b)) (\<lambda>pW.
        let w = iMap b ! pW;
            n = find_ms1_32 w
        in Inr ((31 - n) + int pW * 32,
                b\<lparr>iAvail := iAvail b - 1, iCheckFirst := pW,
                  iMap := (iMap b)[pW := w AND NOT (push_bit (nat n) 1)]\<rparr>)))"

text \<open>
  The search of \<open>AllocFrom\<close> goes round the map until it meets a word that is not zero, so it is
  a partial function: \<open>None\<close> is "does not return".
\<close>

partial_function (option) af_scan ::
    "TUint32 list \<Rightarrow> nat \<Rightarrow> nat \<Rightarrow> TUint32 \<Rightarrow> (fault + nat \<times> TUint32) option" where
  "af_scan m pEnd pW word =
     (if word = 0
      then let p1 = Suc pW; p2 = (if p1 \<ge> pEnd then 0 else p1)
           in if p2 < length m then af_scan m pEnd p2 (m ! p2) else Some (Inl BadMemory)
      else Some (Inr (pW, word)))"

definition Bma_AllocFrom ::
    "TBitMapAllocator \<Rightarrow> int \<Rightarrow> (fault + int \<times> TBitMapAllocator) option" where
  "Bma_AllocFrom b aOffset =
     (if \<not> aOffset < to_TUint (iSize b) then Some (Inl (Panic TBMA))
      else if iAvail b = 0 then Some (Inr (-1, b))
      else let pEnd = nat (nmapw (iSize b));
               pW = nat (aOffset div 32);
               wordMask = drop_bit (nat (aOffset mod 32)) all_ones
           in if \<not> pW < length (iMap b) then Some (Inl BadMemory)
              else map_option (\<lambda>r. ebind r (\<lambda>(pW', word).
                     let n = find_ms1_32 word
                     in Inr ((31 - n) + int pW' * 32,
                             b\<lparr>iAvail := iAvail b - 1,
                               iMap := (iMap b)[pW' := (iMap b ! pW') AND NOT (push_bit (nat n) 1)]\<rparr>)))
                   (af_scan (iMap b) pEnd pW ((iMap b ! pW) AND wordMask)))"

definition Bma_Free :: "TBitMapAllocator \<Rightarrow> int \<Rightarrow> fault + TBitMapAllocator" where
  "Bma_Free b aPos =
     assert_always TBMA (to_TUint aPos < to_TUint (iSize b))
      (let pW = nat (aPos div 32);
           bt = drop_bit (nat (aPos mod 32)) (0x80000000 :: TUint32)
       in ebind (rd (iMap b) pW) (\<lambda>w.
          assert_always TBMA (w AND bt = 0)
           (Inr (b\<lparr>iMap := (iMap b)[pW := w OR bt], iAvail := iAvail b + 1,
                   iCheckFirst := (if pW < iCheckFirst b then pW else iCheckFirst b)\<rparr>))))"

fun al_list :: "nat \<Rightarrow> TBitMapAllocator \<Rightarrow> fault + int list \<times> TBitMapAllocator" where
  "al_list 0 b = Inr ([], b)"
| "al_list (Suc c) b =
     ebind (Bma_Alloc b) (\<lambda>(n, b').
     ebind (al_list c b') (\<lambda>(ns, b''). Inr (n # ns, b'')))"

definition Bma_AllocList ::
    "TBitMapAllocator \<Rightarrow> int \<Rightarrow> fault + int \<times> int list \<times> TBitMapAllocator" where
  "Bma_AllocList b aLength =
     assert_always TBMA (aLength > 0)
      (let aLength' = (if aLength > iAvail b then iAvail b else aLength)
       in ebind (al_list (nat aLength') b) (\<lambda>(aList, b'). Inr (aLength', aList, b')))"

section \<open>Ranges of positions\<close>

text \<open>
  The range operations share their guards and their loop over the words of the range: a mask
  \<open>b\<close> of the positions of the current word that lie in the range, and \<open>ebit\<close>, the end of the
  range counted from the start of the current word. Each operation supplies what it does to a
  word under a mask (\<open>step\<close>), threading an accumulator.
\<close>

function range_walk ::
    "(TUint32 \<Rightarrow> TUint32 \<Rightarrow> 'a \<Rightarrow> fault + TUint32 \<times> 'a) \<Rightarrow> TUint32 \<Rightarrow> int \<Rightarrow> nat \<Rightarrow>
     TUint32 list \<Rightarrow> 'a \<Rightarrow> fault + TUint32 list \<times> 'a" where
  "range_walk step b ebit pW m acc =
     (if ebit > 0
      then ebind (rd m pW) (\<lambda>w.
           ebind (step b w acc) (\<lambda>(w', acc').
           let ebit' = ebit - 32;
               b' = (if ebit' < 32 then NOT (drop_bit (nat ebit') all_ones) else all_ones)
           in range_walk step b' ebit' (Suc pW) (m[pW := w']) acc'))
      else Inr (m, acc))"
  by pat_completeness auto
termination
  by (relation "measure (\<lambda>(step, b, ebit, pW, m, acc). nat ebit)") auto

declare range_walk.simps [simp del]

definition range_guard :: "TBitMapAllocator \<Rightarrow> int \<Rightarrow> int \<Rightarrow> bool" where
  "range_guard b aStart aLength \<longleftrightarrow>
     to_TUint aStart < to_TUint (iSize b) \<and>
     to_TUint (aStart + aLength) \<ge> to_TUint aStart \<and>
     to_TUint (aStart + aLength) \<le> to_TUint (iSize b)"

definition range_op ::
    "(TUint32 \<Rightarrow> TUint32 \<Rightarrow> 'a \<Rightarrow> fault + TUint32 \<times> 'a) \<Rightarrow> int \<Rightarrow> int \<Rightarrow>
     TUint32 list \<Rightarrow> 'a \<Rightarrow> fault + TUint32 list \<times> 'a" where
  "range_op step aStart aLength m acc =
     (let wix = nat (aStart div 32);
          sbit = aStart mod 32;
          ebit = sbit + aLength
      in if ebit < 32
         then let b = drop_bit (nat sbit) (NOT (drop_bit (nat aLength) all_ones))
              in ebind (rd m wix) (\<lambda>w.
                 ebind (step b w acc) (\<lambda>(w', acc'). Inr (m[wix := w'], acc')))
         else range_walk step (drop_bit (nat sbit) all_ones) ebit wix m acc)"

definition alloc_step :: "TUint32 \<Rightarrow> TUint32 \<Rightarrow> unit \<Rightarrow> fault + TUint32 \<times> unit" where
  "alloc_step b w acc = assert_always TBMA (w OR b = w) (Inr (w AND NOT b, ()))"

definition Bma_AllocRange :: "TBitMapAllocator \<Rightarrow> int \<Rightarrow> int \<Rightarrow> fault + TBitMapAllocator" where
  "Bma_AllocRange b aStart aLength =
     assert_always TBMA (range_guard b aStart aLength)
      (ebind (range_op alloc_step aStart aLength (iMap b) ()) (\<lambda>(m, _).
       Inr (b\<lparr>iAvail := iAvail b - aLength, iMap := m\<rparr>)))"

definition check_first_down :: "TBitMapAllocator \<Rightarrow> int \<Rightarrow> nat" where
  "check_first_down b aStart =
     (let pW = nat (aStart div 32)
      in if iAvail b = 0 \<or> pW < iCheckFirst b then pW else iCheckFirst b)"

definition free_step :: "TUint32 \<Rightarrow> TUint32 \<Rightarrow> unit \<Rightarrow> fault + TUint32 \<times> unit" where
  "free_step b w acc = assert_always TBMA (w AND b = 0) (Inr (w OR b, ()))"

definition Bma_FreeRange :: "TBitMapAllocator \<Rightarrow> int \<Rightarrow> int \<Rightarrow> fault + TBitMapAllocator" where
  "Bma_FreeRange b aStart aLength =
     assert_always TBMA (range_guard b aStart aLength)
      (ebind (range_op free_step aStart aLength (iMap b) ()) (\<lambda>(m, _).
       Inr (b\<lparr>iCheckFirst := check_first_down b aStart, iAvail := iAvail b + aLength,
              iMap := m\<rparr>)))"

text \<open>\<open>SelectiveFree\<close>: the accumulator is \<open>iAvail\<close>, already increased by \<open>aLength\<close>.\<close>

definition selfree_step :: "TUint32 \<Rightarrow> TUint32 \<Rightarrow> int \<Rightarrow> fault + TUint32 \<times> int" where
  "selfree_step b w avail = Inr (w OR b, avail - int (bit_count_32 (w AND b)))"

definition Bma_SelectiveFree :: "TBitMapAllocator \<Rightarrow> int \<Rightarrow> int \<Rightarrow> fault + TBitMapAllocator" where
  "Bma_SelectiveFree b aStart aLength =
     assert_always TBMA (range_guard b aStart aLength)
      (ebind (range_op selfree_step aStart aLength (iMap b) (iAvail b + aLength)) (\<lambda>(m, avail).
       Inr (b\<lparr>iCheckFirst := check_first_down b aStart, iAvail := avail, iMap := m\<rparr>)))"

text \<open>
  \<open>SelectiveAlloc\<close> keeps the complement of the mask (1 where the word is left alone), so it has
  a loop of its own; the accumulators are \<open>iAvail\<close>, already decreased by \<open>aLength\<close>, and
  \<open>aLength\<close>, from which the positions that were allocated before are taken off.
\<close>

function selalloc_walk ::
    "TUint32 \<Rightarrow> int \<Rightarrow> nat \<Rightarrow> TUint32 list \<Rightarrow> int \<times> int \<Rightarrow> fault + TUint32 list \<times> int \<times> int" where
  "selalloc_walk b ebit pW m acc =
     (if ebit > 0
      then ebind (rd m pW) (\<lambda>w.
           let allocated = int (bit_count_32 (NOT w AND NOT b));
               ebit' = ebit - 32;
               b' = (if ebit' \<ge> 32 then 0 else drop_bit (nat ebit') all_ones)
           in selalloc_walk b' ebit' (Suc pW) (m[pW := w AND b])
                (fst acc + allocated, snd acc - allocated))
      else Inr (m, acc))"
  by pat_completeness auto
termination
  by (relation "measure (\<lambda>(b, ebit, pW, m, acc). nat ebit)") auto

declare selalloc_walk.simps [simp del]

definition Bma_SelectiveAlloc ::
    "TBitMapAllocator \<Rightarrow> int \<Rightarrow> int \<Rightarrow> fault + int \<times> TBitMapAllocator" where
  "Bma_SelectiveAlloc b aStart aLength =
     assert_always TBMA (range_guard b aStart aLength)
      (let wix = nat (aStart div 32);
           sbit = aStart mod 32;
           avail = iAvail b - aLength;
           ebit = sbit + aLength
       in if ebit < 32
          then let k = drop_bit (nat sbit) (drop_bit (nat aLength) all_ones) OR
                       NOT (drop_bit (nat sbit) all_ones)
               in ebind (rd (iMap b) wix) (\<lambda>w.
                  let allocated = int (bit_count_32 (NOT w AND NOT k))
                  in Inr (aLength - allocated,
                          b\<lparr>iAvail := avail + allocated, iMap := (iMap b)[wix := w AND k]\<rparr>))
          else ebind (selalloc_walk (NOT (drop_bit (nat sbit) all_ones)) ebit wix (iMap b)
                        (avail, aLength)) (\<lambda>(m, avail', len').
               Inr (len', b\<lparr>iAvail := avail', iMap := m\<rparr>)))"

text \<open>
  The two tests accumulate in \<open>r\<close> the positions of the range that are not free (not
  allocated); they return a C truth value, zero exactly when there is none.
\<close>

definition notfree_step :: "TUint32 \<Rightarrow> TUint32 \<Rightarrow> TUint32 \<Rightarrow> fault + TUint32 \<times> TUint32" where
  "notfree_step b w r = Inr (w, r OR ((w XOR b) AND b))"

definition Bma_NotFree :: "TBitMapAllocator \<Rightarrow> int \<Rightarrow> int \<Rightarrow> fault + bool" where
  "Bma_NotFree b aStart aLength =
     assert_always TBMA (range_guard b aStart aLength)
      (ebind (range_op notfree_step aStart aLength (iMap b) 0) (\<lambda>(_, r). Inr (r \<noteq> 0)))"

definition notalloc_step :: "TUint32 \<Rightarrow> TUint32 \<Rightarrow> TUint32 \<Rightarrow> fault + TUint32 \<times> TUint32" where
  "notalloc_step b w r = Inr (w, r OR (w AND b))"

definition Bma_NotAllocated :: "TBitMapAllocator \<Rightarrow> int \<Rightarrow> int \<Rightarrow> fault + bool" where
  "Bma_NotAllocated b aStart aLength =
     assert_always TBMA (range_guard b aStart aLength)
      (ebind (range_op notalloc_step aStart aLength (iMap b) 0) (\<lambda>(_, r). Inr (r \<noteq> 0)))"

end
