(* ===== verification/Bma_Range.thy ===== *)
theory Bma_Range
  imports Bma
begin

text \<open>
  The bitmap allocator's range loop: bits of the masks against positions, a proof rule for the
  loop that the range operations share, the representation invariant, and the specification of
  \<open>Alloc\<close> and \<open>Free\<close> of a range on the set of free positions.
\<close>

section \<open>The set of free positions\<close>

definition pbit :: "TUint32 list \<Rightarrow> nat \<Rightarrow> bool" where
  "pbit m p \<longleftrightarrow> bit (m ! (p div 32)) (31 - p mod 32)"

definition free_set :: "TBitMapAllocator \<Rightarrow> nat set" where
  "free_set b = {p. p < nat (iSize b) \<and> pbit (iMap b) p}"

text \<open>
  The representation invariant. The size bound keeps \<open>aSize + 31\<close> from overflowing.
\<close>

definition bma_inv :: "TBitMapAllocator \<Rightarrow> bool" where
  "bma_inv b \<longleftrightarrow>
     0 < iSize b \<and> iSize b \<le> KMaxTInt - 31 \<and>
     length (iMap b) = nat ((iSize b + 31) div 32) \<and>
     iAvail b = int (card (free_set b)) \<and>
     (\<forall>p. nat (iSize b) \<le> p \<and> p < 32 * length (iMap b) \<longrightarrow> \<not> pbit (iMap b) p) \<and>
     iCheckFirst b < length (iMap b) \<and>
     (\<forall>k < iCheckFirst b. iMap b ! k = 0)"

named_theorems bits_simp \<open>bits of the masks the range operations build\<close>

lemma bit_all_ones [bits_simp]: "bit all_ones i \<longleftrightarrow> i < 32"
proof -
  have "all_ones = (-1 :: TUint32)" by simp
  then show ?thesis by (simp only: bit_minus_1_iff possible_bit_word) simp
qed

lemma bit_drop_all_ones [bits_simp]: "bit (drop_bit n all_ones) i \<longleftrightarrow> n + i < 32"
  by (simp only: bit_drop_bit_eq comp_apply bit_all_ones)

lemma bit_push_1 [bits_simp]: "bit (push_bit n (1 :: TUint32)) i \<longleftrightarrow> i = n \<and> n < 32"
  by (auto simp: bit_exp_iff)

lemma bit_drop_msb [bits_simp]: "bit (drop_bit n (0x80000000 :: TUint32)) i \<longleftrightarrow> n + i = 31"
proof -
  have "(0x80000000 :: TUint32) = push_bit 31 1" by simp
  then have "bit (0x80000000 :: TUint32) j \<longleftrightarrow> j = 31" for j
    by (simp only: bit_push_1) simp
  then show ?thesis by (simp only: bit_drop_bit_eq comp_apply)
qed

lemma bit_not_word32 [bits_simp]: "bit (NOT (w :: TUint32)) i \<longleftrightarrow> i < 32 \<and> \<not> bit w i"
  by (simp add: bit_not_iff)

text \<open>The position of bit \<open>i\<close> of word \<open>k\<close>.\<close>

definition wpos :: "nat \<Rightarrow> nat \<Rightarrow> nat" where
  "wpos k i = 32 * k + (31 - i)"

lemma wpos_div [simp]: "wpos k i div 32 = k"
  by (simp add: wpos_def)

lemma wpos_mod [simp]: "i < 32 \<Longrightarrow> wpos k i mod 32 = 31 - i"
  unfolding wpos_def mod_mult_self4 by (rule mod_less) simp

lemma wpos_eq: "p = wpos (p div 32) (31 - p mod 32)"
  using div_mult_mod_eq [of p 32] mod_less_divisor [of 32 p] unfolding wpos_def by linarith

lemma wpos_bounds: "32 * k \<le> wpos k i" "wpos k i < 32 * k + 32"
  unfolding wpos_def by linarith+

lemma wpos_surj:
  assumes "32 * k \<le> p" "p < 32 * k + 32"
  obtains i where "i < 32" "p = wpos k i"
proof -
  have k: "p div 32 = k" using assms by linarith
  have "31 - p mod 32 < (32 :: nat)" by linarith
  then show ?thesis using wpos_eq [of p] k by (intro that) auto
qed

lemma wpos_inj: "i < 32 \<Longrightarrow> j < 32 \<Longrightarrow> wpos k i = wpos k j \<longleftrightarrow> i = j"
  unfolding wpos_def by linarith

lemma div32_bounds: "32 * (a div 32) \<le> (a :: nat)" "(a :: nat) < 32 * (a div 32) + 32"
  using div_mult_mod_eq [of a 32] mod_less_divisor [of 32 a] by linarith+

text \<open>The mask of the range from \<open>a\<close>, \<open>l\<close> positions long, in word \<open>k\<close>.\<close>

definition rmask :: "nat \<Rightarrow> nat \<Rightarrow> nat \<Rightarrow> TUint32 \<Rightarrow> bool" where
  "rmask a l k b \<longleftrightarrow> (\<forall>i<32. bit b i \<longleftrightarrow> a \<le> wpos k i \<and> wpos k i < a + l)"

lemma rmask_short:
  assumes "a mod 32 + l < 32"
  shows "rmask a l (a div 32) (drop_bit (a mod 32) (NOT (drop_bit l all_ones)))"
  unfolding rmask_def
proof (intro allI impI)
  fix i :: nat assume "i < 32"
  have "bit (drop_bit (a mod 32) (NOT (drop_bit l all_ones))) i \<longleftrightarrow>
        a mod 32 + i < 32 \<and> \<not> l + (a mod 32 + i) < 32"
    by (simp only: bit_drop_bit_eq comp_apply bits_simp)
  also have "\<dots> \<longleftrightarrow> a \<le> wpos (a div 32) i \<and> wpos (a div 32) i < a + l"
    using div_mult_mod_eq [of a 32] \<open>i < 32\<close> unfolding wpos_def by linarith
  finally show "bit (drop_bit (a mod 32) (NOT (drop_bit l all_ones))) i \<longleftrightarrow>
      a \<le> wpos (a div 32) i \<and> wpos (a div 32) i < a + l" .
qed

lemma rmask_first:
  assumes "32 \<le> a mod 32 + l"
  shows "rmask a l (a div 32) (drop_bit (a mod 32) all_ones)"
  unfolding rmask_def
proof (intro allI impI)
  fix i :: nat assume "i < 32"
  have "bit (drop_bit (a mod 32) all_ones) i \<longleftrightarrow> a mod 32 + i < 32"
    by (simp only: bits_simp)
  also have "\<dots> \<longleftrightarrow> a \<le> wpos (a div 32) i \<and> wpos (a div 32) i < a + l"
    using div_mult_mod_eq [of a 32] \<open>i < 32\<close> assms unfolding wpos_def by linarith
  finally show "bit (drop_bit (a mod 32) all_ones) i \<longleftrightarrow>
      a \<le> wpos (a div 32) i \<and> wpos (a div 32) i < a + l" .
qed

lemma rmask_next:
  assumes "a < 32 * k + 32" and "ebit = int (a + l) - 32 * int (Suc k)" and "0 < ebit"
  shows "rmask a l (Suc k)
           (if ebit < 32 then NOT (drop_bit (nat ebit) all_ones) else all_ones)"
  unfolding rmask_def
proof (intro allI impI)
  fix i :: nat assume "i < 32"
  have "bit (if ebit < 32 then NOT (drop_bit (nat ebit) all_ones) else all_ones) i \<longleftrightarrow>
        int 31 - int i < ebit"
  proof (cases "ebit < 32")
    case True
    then show ?thesis using \<open>i < 32\<close> assms(3) by (simp only: if_True bits_simp simp_thms) linarith
  next
    case False
    then show ?thesis using \<open>i < 32\<close> by (simp only: if_False bits_simp simp_thms)
  qed
  also have "\<dots> \<longleftrightarrow> a \<le> wpos (Suc k) i \<and> wpos (Suc k) i < a + l"
    using assms \<open>i < 32\<close> by (simp add: wpos_def) linarith
  finally show "bit (if ebit < 32 then NOT (drop_bit (nat ebit) all_ones) else all_ones) i \<longleftrightarrow>
      a \<le> wpos (Suc k) i \<and> wpos (Suc k) i < a + l" .
qed

section \<open>The range loop\<close>

text \<open>
  A proof rule for the operations on a range of \<open>l\<close> positions from \<open>a\<close>: \<open>I k m' acc\<close> is an
  invariant after the words below \<open>k\<close> have been processed, \<open>E\<close> what is known when a step fails.
\<close>

definition step_ok ::
    "(TUint32 \<Rightarrow> TUint32 \<Rightarrow> 'a \<Rightarrow> fault + TUint32 \<times> 'a) \<Rightarrow> nat \<Rightarrow> nat \<Rightarrow> TUint32 list \<Rightarrow>
     (nat \<Rightarrow> TUint32 list \<Rightarrow> 'a \<Rightarrow> bool) \<Rightarrow> (fault \<Rightarrow> bool) \<Rightarrow> bool" where
  "step_ok step a l m I E \<longleftrightarrow>
     (\<forall>k b m' acc. rmask a l k b \<and> a div 32 \<le> k \<and> k < length m \<and> length m' = length m \<and>
        (\<forall>k' \<ge> k. m' ! k' = m ! k') \<and> I k m' acc \<longrightarrow>
        (case step b (m ! k) acc of Inl e \<Rightarrow> E e
         | Inr (w', acc') \<Rightarrow> I (Suc k) (m'[k := w']) acc'))"

definition range_result ::
    "TUint32 list \<Rightarrow> nat \<Rightarrow> (nat \<Rightarrow> TUint32 list \<Rightarrow> 'a \<Rightarrow> bool) \<Rightarrow> (fault \<Rightarrow> bool) \<Rightarrow>
     fault + TUint32 list \<times> 'a \<Rightarrow> bool" where
  "range_result m e I E r \<longleftrightarrow>
     (case r of Inl x \<Rightarrow> E x
      | Inr (m', acc) \<Rightarrow> length m' = length m \<and> (\<exists>k. e \<le> 32 * k \<and> I k m' acc))"

lemma range_walk_rule:
  assumes step: "step_ok step a l m I E"
    and bounds: "a + l \<le> 32 * length m" "a div 32 \<le> k" "a < 32 * k + 32"
    and mask: "0 < ebit \<Longrightarrow> rmask a l k b"
    and ebit: "ebit = int (a + l) - 32 * int k"
    and m': "length m' = length m" "\<forall>k' \<ge> k. m' ! k' = m ! k'"
    and I: "I k m' acc"
  shows "range_result m (a + l) I E (range_walk step b ebit k m' acc)"
  using bounds mask ebit m' I
proof (induction "nat ebit" arbitrary: b ebit k m' acc rule: less_induct)
  case less
  show ?case
  proof (cases "0 < ebit")
    case False
    then have "a + l \<le> 32 * k" using less.prems by linarith
    then show ?thesis
      using False less.prems
      by (auto simp: range_walk.simps [of step b] range_result_def intro!: exI [of _ k])
  next
    case True
    have k: "k < length m" using True less.prems by linarith
    have wk: "m' ! k = m ! k" and len: "length m' = length m" using less.prems by simp_all
    from step less.prems True k
    have st: "case step b (m ! k) acc of Inl e \<Rightarrow> E e
              | Inr (w', acc') \<Rightarrow> I (Suc k) (m'[k := w']) acc'"
      by (auto simp: step_ok_def)
    show ?thesis
    proof (cases "step b (m ! k) acc")
      case (Inl e)
      then show ?thesis
        using st True k wk less.prems
        by (simp add: range_walk.simps [of step b] range_result_def)
    next
      case (Inr r)
      obtain w' acc' where r: "r = (w', acc')" by (cases r)
      let ?b = "if ebit - 32 < 32 then NOT (drop_bit (nat (ebit - 32)) all_ones) else all_ones"
      have eq: "range_walk step b ebit k m' acc =
                range_walk step ?b (ebit - 32) (Suc k) (m'[k := w']) acc'"
        by (subst range_walk.simps) (simp add: True k wk len Inr r Let_def)
      have "range_result m (a + l) I E
              (range_walk step ?b (ebit - 32) (Suc k) (m'[k := w']) acc')"
      proof (rule less.hyps)
        show "nat (ebit - 32) < nat ebit" using True by simp
        show "0 < ebit - 32 \<Longrightarrow> rmask a l (Suc k) ?b"
          using less.prems by (intro rmask_next) auto
        show "\<forall>k'\<ge>Suc k. m'[k := w'] ! k' = m ! k'" using less.prems by simp
        show "I (Suc k) (m'[k := w']) acc'" using st Inr r by simp
      qed (use less.prems in auto)
      then show ?thesis by (simp only: eq)
    qed
  qed
qed

lemma range_op_rule:
  assumes step: "step_ok step a l m I E"
    and bounds: "a + l \<le> 32 * length m" "a < 32 * length m"
    and I: "I (a div 32) m acc"
  shows "range_result m (a + l) I E (range_op step (int a) (int l) m acc)"
proof -
  have wix: "nat (int a div 32) = a div 32" "nat (int a mod 32) = a mod 32"
    by (simp_all add: nat_div_distrib nat_mod_distrib)
  have im: "int a mod 32 = int (a mod 32)" by (simp add: zmod_int)
  have ebit: "int a mod 32 + int l = int (a + l) - 32 * int (a div 32)"
    by (simp add: zmod_int [symmetric] zdiv_int [symmetric]) (simp add: minus_div_mult_eq_mod [symmetric])
  have k: "a div 32 < length m" "a < 32 * (a div 32) + 32"
    using bounds(2) div32_bounds [of a] by linarith+
  show ?thesis
  proof (cases "int a mod 32 + int l < 32")
    case True
    then have short: "a mod 32 + l < 32" unfolding im by linarith
    let ?b = "drop_bit (a mod 32) (NOT (drop_bit l all_ones))"
    have op: "range_op step (int a) (int l) m acc =
        ebind (step ?b (m ! (a div 32)) acc) (\<lambda>(w', acc'). Inr (m[a div 32 := w'], acc'))"
      using True k by (simp add: range_op_def Let_def wix)
    have st: "case step ?b (m ! (a div 32)) acc of Inl e \<Rightarrow> E e
              | Inr (w', acc') \<Rightarrow> I (Suc (a div 32)) (m[a div 32 := w']) acc'"
      using step rmask_short [OF short] k I by (auto simp: step_ok_def)
    have "a + l \<le> 32 * Suc (a div 32)"
      unfolding mult_Suc_right using short div_mult_mod_eq [of a 32] by linarith
    then show ?thesis
      using st by (auto simp: op range_result_def split: sum.splits prod.splits
                     intro!: exI [of _ "Suc (a div 32)"])
  next
    case False
    then have "32 \<le> a mod 32 + l" unfolding im by linarith
    then have "rmask a l (a div 32) (drop_bit (a mod 32) all_ones)" by (rule rmask_first)
    then have "range_result m (a + l) I E
        (range_walk step (drop_bit (a mod 32) all_ones) (int a mod 32 + int l) (a div 32) m acc)"
      using bounds k I by (intro range_walk_rule [OF step]) (auto simp: ebit)
    with False show ?thesis by (simp add: range_op_def Let_def wix)
  qed
qed

section \<open>Effect of the range operations on the map\<close>

lemma pbit_upd:
  assumes "k < length m"
  shows "pbit (m[k := w]) p \<longleftrightarrow> (if p div 32 = k then bit w (31 - p mod 32) else pbit m p)"
  using assms by (simp add: pbit_def)

lemma words_zero_iff:
  assumes "c \<le> length m"
  shows "(\<forall>k<c. m ! k = 0) \<longleftrightarrow> (\<forall>p < 32 * c. \<not> pbit m p)"
proof
  assume "\<forall>k<c. m ! k = 0"
  then show "\<forall>p < 32 * c. \<not> pbit m p" by (auto simp: pbit_def less_mult_imp_div_less mult.commute)
next
  assume z: "\<forall>p < 32 * c. \<not> pbit m p"
  show "\<forall>k<c. m ! k = 0"
  proof (intro allI impI, rule ccontr)
    fix k assume "k < c" and "m ! k \<noteq> 0"
    then obtain i where i: "i < 32" "bit (m ! k) i" using word32_nonzero_bit by blast
    have "pbit m (wpos k i)" using i by (simp add: pbit_def)
    moreover have "wpos k i < 32 * c" using \<open>k < c\<close> wpos_bounds [of k i] by linarith
    ultimately show False using z by blast
  qed
qed

text \<open>The map \<open>m'\<close> is \<open>m\<close> with the positions of the range below word \<open>k\<close> set to \<open>v\<close>.\<close>

definition map_upto :: "nat \<Rightarrow> nat \<Rightarrow> nat \<Rightarrow> bool \<Rightarrow> TUint32 list \<Rightarrow> TUint32 list \<Rightarrow> bool" where
  "map_upto a l k v m m' \<longleftrightarrow>
     (\<forall>p < 32 * length m.
        pbit m' p = (if a \<le> p \<and> p < a + l \<and> p < 32 * k then v else pbit m p))"

lemma map_upto_start: "map_upto a l (a div 32) v m m"
  using div32_bounds [of a] unfolding map_upto_def by force

lemma map_upto_step:
  assumes "rmask a l k b" "k < length m" "length m' = length m"
    and w: "\<forall>i<32. bit w' i = (if bit b i then v else bit (m ! k) i)"
    and m': "map_upto a l k v m m'"
  shows "map_upto a l (Suc k) v m (m'[k := w'])"
  unfolding map_upto_def
proof (intro allI impI)
  fix p assume p: "p < 32 * length m"
  show "pbit (m'[k := w']) p =
          (if a \<le> p \<and> p < a + l \<and> p < 32 * Suc k then v else pbit m p)"
  proof (cases "p div 32 = k")
    case True
    have pk: "p = wpos k (31 - p mod 32)" using wpos_eq [of p] True by simp
    then have "p < 32 * Suc k" using wpos_bounds(2) [of k "31 - p mod 32"] by simp
    moreover have "bit b (31 - p mod 32) \<longleftrightarrow> a \<le> p \<and> p < a + l"
      using assms(1) pk by (simp add: rmask_def)
    ultimately show ?thesis
      using True w assms(2,3) by (simp add: pbit_upd pbit_def)
  next
    case False
    then have "p < 32 * Suc k \<longleftrightarrow> p < 32 * k" using div32_bounds [of p] by auto
    then show ?thesis
      using False m' p assms(2,3) by (simp add: pbit_upd map_upto_def)
  qed
qed

lemma map_upto_end:
  "map_upto a l k v m m' \<Longrightarrow> a + l \<le> 32 * k \<Longrightarrow> p < 32 * length m \<Longrightarrow>
   pbit m' p = (if a \<le> p \<and> p < a + l then v else pbit m p)"
  by (auto simp: map_upto_def)

lemma pbit_wpos [simp]: "i < 32 \<Longrightarrow> pbit m (wpos k i) \<longleftrightarrow> bit (m ! k) i"
  by (simp add: pbit_def)

lemma bit_count_word:
  assumes "rmask a l k b"
  shows "bit_count_32 (m ! k AND b) =
         card {p. 32 * k \<le> p \<and> p < 32 * k + 32 \<and> a \<le> p \<and> p < a + l \<and> pbit m p}"
    (is "_ = card ?P")
proof -
  let ?I = "{i. i < 32 \<and> bit (m ! k AND b) i}"
  have inj: "inj_on (wpos k) ?I" by (auto simp: inj_on_def wpos_inj)
  have img: "wpos k ` ?I = ?P"
  proof (intro set_eqI iffI)
    fix p assume "p \<in> wpos k ` ?I"
    then obtain i where i: "i < 32" "bit (m ! k) i" "bit b i" "p = wpos k i"
      by (auto simp: bit_and_iff)
    then show "p \<in> ?P" using assms wpos_bounds [of k i] by (simp add: rmask_def)
  next
    fix p assume p: "p \<in> ?P"
    then obtain i where i: "i < 32" "p = wpos k i" using wpos_surj [of k p] by blast
    then have "bit (m ! k) i" "bit b i" using p assms by (simp_all add: rmask_def)
    then show "p \<in> wpos k ` ?I" using i by (auto simp: bit_and_iff)
  qed
  show ?thesis unfolding bit_count_32_card img [symmetric] by (rule card_image [OF inj, symmetric])
qed

section \<open>The range operations on the free set\<close>

definition valid_range :: "TBitMapAllocator \<Rightarrow> int \<Rightarrow> int \<Rightarrow> bool" where
  "valid_range b aStart aLength \<longleftrightarrow>
     0 \<le> aStart \<and> aStart < iSize b \<and> 0 \<le> aLength \<and> aStart + aLength \<le> iSize b"

definition range_set :: "int \<Rightarrow> int \<Rightarrow> nat set" where
  "range_set aStart aLength = {nat aStart ..< nat (aStart + aLength)}"

lemma range_guard_iff:
  assumes "bma_inv b" "is_TInt aStart" "is_TInt aLength"
  shows "range_guard b aStart aLength \<longleftrightarrow> valid_range b aStart aLength"
proof -
  have s: "to_TUint (iSize b) = iSize b" "0 < iSize b" "iSize b \<le> KMaxTInt - 31"
    using assms(1) by (simp_all add: bma_inv_def to_TUint_id)
  have t: "to_TUint x = (if x < 0 then x + 0x100000000 else x)"
    if "- 0x100000000 \<le> x" "x < 0x100000000" for x
    using that mod_pos_pos_trivial [of "x + 0x100000000" "0x100000000"]
    unfolding to_TUint_def by (auto simp: mod_pos_pos_trivial)
  have t1: "to_TUint aStart = (if aStart < 0 then aStart + 0x100000000 else aStart)"
    and t2: "to_TUint (aStart + aLength) =
      (if aStart + aLength < 0 then aStart + aLength + 0x100000000 else aStart + aLength)"
    using assms(2,3) by (intro t; simp add: is_TInt_def)+
  show ?thesis
    using assms(2,3) s(2,3) unfolding range_guard_def valid_range_def t1 t2 s(1)
    by (auto simp: is_TInt_def)
qed

lemma valid_range_nat:
  assumes "bma_inv b" "valid_range b aStart aLength"
  obtains a l where "aStart = int a" "aLength = int l" "a + l \<le> nat (iSize b)" "a < nat (iSize b)"
    "a + l \<le> 32 * length (iMap b)" "a < 32 * length (iMap b)" "range_set aStart aLength = {a ..< a + l}"
proof -
  have "iSize b \<le> 32 * int (length (iMap b))" using assms(1) by (auto simp: bma_inv_def)
  then show ?thesis
    using assms(2) that [of "nat aStart" "nat aLength"]
    by (auto simp: valid_range_def range_set_def nat_add_distrib)
qed

text \<open>Setting a range to \<open>v\<close> in the map: what becomes of the free set and the invariant.\<close>

lemma free_set_range:
  assumes inv: "bma_inv b" and "a + l \<le> nat (iSize b)" "a + l \<le> 32 * k"
    and m: "map_upto a l k v (iMap b) m'"
    and b': "iMap b' = m'" "iSize b' = iSize b"
  shows "free_set b' = (if v then free_set b \<union> {a ..< a + l} else free_set b - {a ..< a + l})"
proof -
  have len: "nat (iSize b) \<le> 32 * length (iMap b)" using inv by (auto simp: bma_inv_def)
  have "pbit m' p = (if a \<le> p \<and> p < a + l then v else pbit (iMap b) p)"
    if "p < nat (iSize b)" for p
    using map_upto_end [OF m] assms(3) that len by simp
  then show ?thesis using assms(2) b' by (auto simp: free_set_def split: if_splits)
qed

lemma bma_inv_range:
  assumes inv: "bma_inv b" and a: "a + l \<le> nat (iSize b)" "a + l \<le> 32 * k"
    and m: "map_upto a l k v (iMap b) m'" "length m' = length (iMap b)"
    and b': "iMap b' = m'" "iSize b' = iSize b" "iAvail b' = int (card (free_set b'))"
    and cf: "iCheckFirst b' \<le> iCheckFirst b \<or> iAvail b = 0" "iCheckFirst b' < length (iMap b)"
    and cv: "v \<Longrightarrow> iCheckFirst b' \<le> a div 32"
  shows "bma_inv b'"
proof -
  note upd = map_upto_end [OF m(1) a(2)]
  have sz: "nat (iSize b) \<le> 32 * length (iMap b)" using inv by (auto simp: bma_inv_def)
  have old: "\<not> pbit (iMap b) p" if "p < 32 * iCheckFirst b'" for p
  proof (cases "iAvail b = 0")
    case True
    then have "free_set b = {}" using inv by (auto simp: bma_inv_def free_set_def)
    then show ?thesis using inv that cf(2) by (auto simp: bma_inv_def free_set_def not_less)
  next
    case False
    then have "\<forall>k < iCheckFirst b'. iMap b ! k = 0" using cf(1) inv by (auto simp: bma_inv_def)
    then show ?thesis using words_zero_iff [of "iCheckFirst b'" "iMap b"] cf(2) that by simp
  qed
  have "\<not> pbit m' p" if p: "p < 32 * iCheckFirst b'" for p
  proof -
    have "p < 32 * length (iMap b)" using p cf(2) by linarith
    moreover have "\<not> (v \<and> a \<le> p)" using cv p div32_bounds(1) [of a] by auto
    ultimately show ?thesis using upd old [OF p] by auto
  qed
  then have "\<forall>k < iCheckFirst b'. m' ! k = 0"
    using words_zero_iff [of "iCheckFirst b'" m'] cf(2) m(2) by simp
  moreover have "\<not> pbit m' p" if "nat (iSize b) \<le> p" "p < 32 * length (iMap b)" for p
    using upd [OF that(2)] that a(1) inv by (auto simp: bma_inv_def)
  ultimately show ?thesis
    using inv b' m(2) cf(2) unfolding bma_inv_def by simp
qed

lemma finite_free_set [simp]: "finite (free_set b)"
  by (rule finite_subset [of _ "{..<nat (iSize b)}"]) (auto simp: free_set_def)

lemma card_free_range_diff:
  "{a ..< a + l} \<subseteq> free_set b \<Longrightarrow> int (card (free_set b - {a ..< a + l})) = int (card (free_set b)) - int l"
  using card_mono [of "free_set b" "{a ..< a + l}"]
  by (simp add: card_Diff_subset of_nat_diff)

lemma card_free_range_union:
  "{a ..< a + l} \<inter> free_set b = {} \<Longrightarrow> int (card (free_set b \<union> {a ..< a + l})) = int (card (free_set b)) + int l"
  by (subst card_Un_disjoint) auto

subsection \<open>Alloc and Free of a range\<close>

lemma word_or_self_iff: "(w :: TUint32) OR b = w \<longleftrightarrow> (\<forall>i<32. bit b i \<longrightarrow> bit w i)"
  by (auto simp: bit_eq_iff bit_or_iff)

lemma word_and_zero_iff: "(w :: TUint32) AND b = 0 \<longleftrightarrow> (\<forall>i<32. bit b i \<longrightarrow> \<not> bit w i)"
  by (auto simp: bit_eq_iff bit_and_iff)

definition upd_inv ::
    "nat \<Rightarrow> nat \<Rightarrow> bool \<Rightarrow> TUint32 list \<Rightarrow> nat \<Rightarrow> TUint32 list \<Rightarrow> unit \<Rightarrow> bool" where
  "upd_inv a l v m k m' acc \<longleftrightarrow>
     map_upto a l k v m m' \<and>
     (\<forall>p < 32 * length m. a \<le> p \<and> p < a + l \<and> p < 32 * k \<longrightarrow> pbit m p \<noteq> v)"

definition upd_err :: "nat \<Rightarrow> nat \<Rightarrow> bool \<Rightarrow> TUint32 list \<Rightarrow> fault \<Rightarrow> bool" where
  "upd_err a l v m e \<longleftrightarrow> e = Panic TBMA \<and> (\<exists>p. a \<le> p \<and> p < a + l \<and> pbit m p = v)"

lemma upd_inv_start: "upd_inv a l v m (a div 32) m acc"
  using map_upto_start [of a l v m] div32_bounds(1) [of a] by (auto simp: upd_inv_def)

text \<open>The checked update of one word, for both directions.\<close>

lemma upd_inv_step:
  assumes r: "rmask a l k b" "k < length m" "length m' = length m" "upd_inv a l v m k m' acc"
    and chk: "\<forall>i<32. bit b i \<longrightarrow> bit (m ! k) i \<noteq> v"
    and w: "\<forall>i<32. bit w' i = (if bit b i then v else bit (m ! k) i)"
  shows "upd_inv a l v m (Suc k) (m'[k := w']) acc'"
proof -
  have "pbit m p \<noteq> v" if p: "a \<le> p" "p < a + l" "p < 32 * Suc k" "\<not> p < 32 * k" for p
  proof -
    obtain i where "i < 32" "p = wpos k i" using wpos_surj [of k p] p by auto
    then show ?thesis using chk r(1) p by (simp add: rmask_def)
  qed
  then show ?thesis
    using r(4) map_upto_step [OF r(1-3) w] by (auto simp: upd_inv_def)
qed

lemma upd_err_step:
  assumes "rmask a l k b" and "\<exists>i<32. bit b i \<and> bit (m ! k) i = v"
  shows "upd_err a l v m (Panic TBMA)"
proof -
  obtain i where "i < 32" "bit b i" "bit (m ! k) i = v" using assms(2) by blast
  then have "a \<le> wpos k i" "wpos k i < a + l" "pbit m (wpos k i) = v"
    using assms(1) by (simp_all add: rmask_def)
  then show ?thesis by (auto simp: upd_err_def)
qed

lemma alloc_step_ok: "step_ok alloc_step a l m (upd_inv a l False m) (upd_err a l False m)"
  unfolding step_ok_def
proof (intro allI impI, elim conjE)
  fix k b m' acc
  assume h: "rmask a l k b" "k < length m" "length m' = length m" "upd_inv a l False m k m' acc"
  show "case alloc_step b (m ! k) acc of Inl e \<Rightarrow> upd_err a l False m e
        | Inr (w', acc') \<Rightarrow> upd_inv a l False m (Suc k) (m'[k := w']) acc'"
  proof (cases "m ! k OR b = m ! k")
    case True
    then show ?thesis
      using upd_inv_step [OF h, of "m ! k AND NOT b"]
      by (simp add: alloc_step_def word_or_self_iff bit_and_iff bit_not_iff)
  next
    case False
    then show ?thesis
      using upd_err_step [OF h(1), of m False] by (auto simp: alloc_step_def word_or_self_iff)
  qed
qed

lemma free_step_ok: "step_ok free_step a l m (upd_inv a l True m) (upd_err a l True m)"
  unfolding step_ok_def
proof (intro allI impI, elim conjE)
  fix k b m' acc
  assume h: "rmask a l k b" "k < length m" "length m' = length m" "upd_inv a l True m k m' acc"
  show "case free_step b (m ! k) acc of Inl e \<Rightarrow> upd_err a l True m e
        | Inr (w', acc') \<Rightarrow> upd_inv a l True m (Suc k) (m'[k := w']) acc'"
  proof (cases "m ! k AND b = 0")
    case True
    then show ?thesis
      using upd_inv_step [OF h, of "m ! k OR b"]
      by (simp add: free_step_def word_and_zero_iff bit_or_iff)
  next
    case False
    then show ?thesis
      using upd_err_step [OF h(1), of m True] by (auto simp: free_step_def word_and_zero_iff)
  qed
qed

lemma upd_inv_free_set:
  assumes "upd_inv a l v (iMap b) k m' acc" "a + l \<le> 32 * k" "a + l \<le> nat (iSize b)"
    "a + l \<le> 32 * length (iMap b)"
  shows "{a ..< a + l} \<subseteq> (if v then - free_set b else free_set b)"
  using assms by (auto simp: upd_inv_def free_set_def)

lemma upd_err_free_set:
  assumes "upd_err a l v (iMap b) e" "a + l \<le> nat (iSize b)"
  shows "e = Panic TBMA \<and> \<not> {a ..< a + l} \<subseteq> (if v then - free_set b else free_set b)"
proof -
  obtain p where "e = Panic TBMA" "a \<le> p" "p < a + l" "pbit (iMap b) p = v"
    using assms(1) by (auto simp: upd_err_def)
  moreover have "p \<in> free_set b \<longleftrightarrow> pbit (iMap b) p"
    using \<open>p < a + l\<close> assms(2) by (simp add: free_set_def)
  ultimately show ?thesis by (auto intro: bexI [of _ p])
qed

lemma update_range_result:
  assumes inv: "bma_inv b" and v: "valid_range b aStart aLength"
    and step: "\<And>a l m. step_ok step a l m (upd_inv a l val m) (upd_err a l val m)"
    and c: "c \<le> iCheckFirst b \<or> iAvail b = 0" "c < length (iMap b)"
      "val \<Longrightarrow> c \<le> nat aStart div 32"
  shows "case range_op step aStart aLength (iMap b) () of
           Inl e \<Rightarrow> e = Panic TBMA \<and>
             \<not> range_set aStart aLength \<subseteq> (if val then - free_set b else free_set b)
         | Inr (m, _) \<Rightarrow>
             let b' = b\<lparr>iAvail := iAvail b + (if val then aLength else - aLength),
                         iCheckFirst := c, iMap := m\<rparr>
             in range_set aStart aLength \<subseteq> (if val then - free_set b else free_set b) \<and>
                bma_inv b' \<and>
                free_set b' = (if val then free_set b \<union> range_set aStart aLength
                               else free_set b - range_set aStart aLength)"
proof -
  obtain a l where al: "aStart = int a" "aLength = int l" "a + l \<le> nat (iSize b)"
    "a + l \<le> 32 * length (iMap b)" "a < 32 * length (iMap b)"
    "range_set aStart aLength = {a ..< a + l}"
    using valid_range_nat [OF inv v] by metis
  have res: "range_result (iMap b) (a + l) (upd_inv a l val (iMap b)) (upd_err a l val (iMap b))
      (range_op step (int a) (int l) (iMap b) ())"
    by (rule range_op_rule [OF step al(4,5) upd_inv_start])
  show ?thesis
  proof (cases "range_op step (int a) (int l) (iMap b) ()")
    case (Inl e)
    with res have "upd_err a l val (iMap b) e" by (simp add: range_result_def)
    from upd_err_free_set [OF this al(3)] show ?thesis using Inl al(1,2,6) by simp
  next
    case (Inr r)
    obtain m where r: "r = (m, ())" by (cases r) auto
    obtain k where k: "length m = length (iMap b)" "a + l \<le> 32 * k"
      "upd_inv a l val (iMap b) k m ()"
      using res Inr r by (auto simp: range_result_def)
    let ?b' = "b\<lparr>iAvail := iAvail b + (if val then aLength else - aLength),
                 iCheckFirst := c, iMap := m\<rparr>"
    have sub: "{a ..< a + l} \<subseteq> (if val then - free_set b else free_set b)"
      by (rule upd_inv_free_set [OF k(3,2) al(3,4)])
    have m: "map_upto a l k val (iMap b) m" using k(3) by (simp add: upd_inv_def)
    have fs: "free_set ?b' = (if val then free_set b \<union> {a ..< a + l} else free_set b - {a ..< a + l})"
      by (rule free_set_range [OF inv al(3) k(2) m]) simp_all
    have "bma_inv ?b'"
    proof (rule bma_inv_range [OF inv al(3) k(2) m k(1)])
      have "val \<Longrightarrow> {a ..< a + l} \<inter> free_set b = {}" using sub by auto
      then have "int (card (free_set ?b')) =
          int (card (free_set b)) + (if val then int l else - int l)"
        using card_free_range_diff [of a l b] card_free_range_union [of a l b] sub fs
        by (cases val) simp_all
      then show "iAvail ?b' = int (card (free_set ?b'))"
        using inv al(2) by (simp add: bma_inv_def)
    qed (use c al(1) in auto)
    then show ?thesis using Inr r al sub fs by (simp add: Let_def)
  qed
qed

lemma AllocRange_spec:
  assumes inv: "bma_inv b" and t: "is_TInt aStart" "is_TInt aLength"
  shows "case Bma_AllocRange b aStart aLength of
           Inl e \<Rightarrow> e = Panic TBMA \<and>
             \<not> (valid_range b aStart aLength \<and> range_set aStart aLength \<subseteq> free_set b)
         | Inr b' \<Rightarrow> valid_range b aStart aLength \<and> range_set aStart aLength \<subseteq> free_set b \<and>
             bma_inv b' \<and> free_set b' = free_set b - range_set aStart aLength"
proof (cases "valid_range b aStart aLength")
  case True
  have c: "iCheckFirst b < length (iMap b)" using inv by (simp add: bma_inv_def)
  have eq: "b\<lparr>iAvail := x, iCheckFirst := iCheckFirst b, iMap := m\<rparr> = b\<lparr>iAvail := x, iMap := m\<rparr>" for x m
    by simp
  from update_range_result [OF inv True alloc_step_ok disjI1 [OF order_refl] c] True
  show ?thesis
    unfolding Bma_AllocRange_def
    by (simp add: range_guard_iff [OF inv t] eq Let_def split: sum.splits prod.splits)
next
  case False
  then show ?thesis by (simp add: Bma_AllocRange_def range_guard_iff [OF inv t])
qed

lemma check_first_down_ok:
  assumes "bma_inv b" "valid_range b aStart aLength"
  shows "check_first_down b aStart \<le> iCheckFirst b \<or> iAvail b = 0"
    "check_first_down b aStart < length (iMap b)"
    "check_first_down b aStart \<le> nat aStart div 32"
proof -
  have "nat (aStart div 32) = nat aStart div 32"
    using assms(2) by (simp add: valid_range_def nat_div_distrib)
  moreover have "nat aStart div 32 < length (iMap b)"
    using assms by (auto simp: bma_inv_def valid_range_def)
  ultimately show "check_first_down b aStart \<le> iCheckFirst b \<or> iAvail b = 0"
    "check_first_down b aStart < length (iMap b)"
    "check_first_down b aStart \<le> nat aStart div 32"
    using assms(1) by (auto simp: check_first_down_def bma_inv_def Let_def)
qed

lemma FreeRange_spec:
  assumes inv: "bma_inv b" and t: "is_TInt aStart" "is_TInt aLength"
  shows "case Bma_FreeRange b aStart aLength of
           Inl e \<Rightarrow> e = Panic TBMA \<and>
             \<not> (valid_range b aStart aLength \<and> range_set aStart aLength \<inter> free_set b = {})
         | Inr b' \<Rightarrow> valid_range b aStart aLength \<and> range_set aStart aLength \<inter> free_set b = {} \<and>
             bma_inv b' \<and> free_set b' = free_set b \<union> range_set aStart aLength"
proof (cases "valid_range b aStart aLength")
  case True
  have eq: "b\<lparr>iAvail := x, iCheckFirst := c, iMap := m\<rparr> = b\<lparr>iCheckFirst := c, iAvail := x, iMap := m\<rparr>" for x c m
    by simp
  from update_range_result [OF inv True free_step_ok check_first_down_ok [OF inv True]] True
  show ?thesis
    unfolding Bma_FreeRange_def
    by (simp add: range_guard_iff [OF inv t] eq Let_def disjoint_eq_subset_Compl split: sum.splits prod.splits)
next
  case False
  then show ?thesis by (simp add: Bma_FreeRange_def range_guard_iff [OF inv t])
qed

end
