(* ===== verification/Bma_Spec.thy ===== *)
theory Bma_Spec
  imports Bma_Range
begin

text \<open>
  Specifications of the remaining operations of the bitmap allocator on the set of free
  positions.
\<close>

subsection \<open>The selective operations\<close>

text \<open>Positions of the range below word \<open>k\<close> whose bit is \<open>v\<close>.\<close>

definition cnt_upto :: "nat \<Rightarrow> nat \<Rightarrow> bool \<Rightarrow> TUint32 list \<Rightarrow> nat \<Rightarrow> int" where
  "cnt_upto a l v m k = int (card {p. a \<le> p \<and> p < a + l \<and> p < 32 * k \<and> pbit m p = v})"

lemma cnt_upto_start [simp]: "cnt_upto a l v m (a div 32) = 0"
proof -
  have "{p. a \<le> p \<and> p < a + l \<and> p < 32 * (a div 32) \<and> pbit m p = v} = {}"
    using div32_bounds(1) [of a] by auto
  then show ?thesis by (simp only: cnt_upto_def card.empty)
qed

lemma cnt_upto_step:
  "cnt_upto a l v m (Suc k) = cnt_upto a l v m k +
     int (card {p. 32 * k \<le> p \<and> p < 32 * k + 32 \<and> a \<le> p \<and> p < a + l \<and> pbit m p = v})"
proof -
  let ?A = "{p. a \<le> p \<and> p < a + l \<and> p < 32 * k \<and> pbit m p = v}"
  let ?B = "{p. 32 * k \<le> p \<and> p < 32 * k + 32 \<and> a \<le> p \<and> p < a + l \<and> pbit m p = v}"
  have "{p. a \<le> p \<and> p < a + l \<and> p < 32 * Suc k \<and> pbit m p = v} = ?A \<union> ?B" by auto
  moreover have "finite ?A" "finite ?B" "?A \<inter> ?B = {}"
    by (auto intro: finite_subset [of _ "{..<a + l}"])
  ultimately show ?thesis by (simp only: cnt_upto_def card_Un_disjoint of_nat_add)
qed

lemma bit_count_word_not:
  assumes "rmask a l k b"
  shows "bit_count_32 (NOT (m ! k) AND b) =
         card {p. 32 * k \<le> p \<and> p < 32 * k + 32 \<and> a \<le> p \<and> p < a + l \<and> pbit m p = False}"
proof -
  let ?n = "replicate (Suc k) (NOT (m ! k))"
  have "pbit ?n p \<longleftrightarrow> \<not> pbit m p" if "32 * k \<le> p" "p < 32 * k + 32" for p
  proof -
    have "p div 32 = k" using that by linarith
    then show ?thesis by (auto simp: pbit_def bit_not_iff simp del: replicate.simps)
  qed
  then have "{p. 32 * k \<le> p \<and> p < 32 * k + 32 \<and> a \<le> p \<and> p < a + l \<and> pbit ?n p} =
      {p. 32 * k \<le> p \<and> p < 32 * k + 32 \<and> a \<le> p \<and> p < a + l \<and> pbit m p = False}" by auto
  then show ?thesis using bit_count_word [OF assms, of ?n] by (simp del: replicate.simps)
qed

definition sel_inv ::
    "nat \<Rightarrow> nat \<Rightarrow> bool \<Rightarrow> int \<Rightarrow> TUint32 list \<Rightarrow> nat \<Rightarrow> TUint32 list \<Rightarrow> int \<Rightarrow> bool" where
  "sel_inv a l v d m k m' n \<longleftrightarrow> map_upto a l k v m m' \<and> n = d - cnt_upto a l v m k"

lemma sel_inv_start: "sel_inv a l v d m (a div 32) m d"
  by (simp add: sel_inv_def map_upto_start)

lemma selfree_step_ok: "step_ok selfree_step a l m (sel_inv a l True d m) (\<lambda>_. False)"
  unfolding step_ok_def
proof (intro allI impI, elim conjE)
  fix k b m' acc
  assume h: "rmask a l k b" "k < length m" "length m' = length m" "sel_inv a l True d m k m' acc"
  have "map_upto a l (Suc k) True m (m'[k := m ! k OR b])"
    by (rule map_upto_step [OF h(1-3)]) (use h(4) in \<open>auto simp: sel_inv_def bit_or_iff\<close>)
  then show "case selfree_step b (m ! k) acc of Inl e \<Rightarrow> False
      | Inr (w', acc') \<Rightarrow> sel_inv a l True d m (Suc k) (m'[k := w']) acc'"
    using h(4) bit_count_word [OF h(1), of m]
    by (simp add: selfree_step_def sel_inv_def cnt_upto_step)
qed

text \<open>\<open>SelectiveAlloc\<close> in the form of the shared loop: its mask is the complement.\<close>

definition selalloc_step ::
    "TUint32 \<Rightarrow> TUint32 \<Rightarrow> int \<times> int \<Rightarrow> fault + TUint32 \<times> int \<times> int" where
  "selalloc_step b w acc =
     (let allocated = int (bit_count_32 (NOT w AND b))
      in Inr (w AND NOT b, fst acc + allocated, snd acc - allocated))"

lemma selalloc_walk_eq:
  "selalloc_walk (NOT b) ebit k m acc = range_walk selalloc_step b ebit k m acc"
proof (induction "nat ebit" arbitrary: b ebit k m acc rule: less_induct)
  case less
  let ?b = "if ebit - 32 < 32 then NOT (drop_bit (nat (ebit - 32)) all_ones) else all_ones"
  have nb: "(if 32 \<le> ebit - 32 then 0 else drop_bit (nat (ebit - 32)) all_ones) = NOT ?b"
    by auto
  show ?case
  proof (cases "0 < ebit \<and> k < length m")
    case True
    let ?m = "m[k := m ! k AND NOT b]"
    let ?n = "int (bit_count_32 (NOT (m ! k) AND b))"
    let ?acc = "(fst acc + ?n, snd acc - ?n)"
    have "selalloc_walk (NOT b) ebit k m acc = selalloc_walk (NOT ?b) (ebit - 32) (Suc k) ?m ?acc"
      by (subst selalloc_walk.simps) (simp only: True if_True rd_ok ebind_simps Let_def nb bit.double_compl simp_thms)
    also have "\<dots> = range_walk selalloc_step ?b (ebit - 32) (Suc k) ?m ?acc"
      by (rule less) (use True in simp)
    also have "\<dots> = range_walk selalloc_step b ebit k m acc"
      by (subst (2) range_walk.simps) (simp only: True if_True rd_ok ebind_simps Let_def selalloc_step_def prod.case simp_thms)
    finally show ?thesis .
  next
    case False
    then show ?thesis
      by (subst selalloc_walk.simps, subst range_walk.simps) (auto simp: rd_def)
  qed
qed

lemma selalloc_short_mask:
  "drop_bit s (drop_bit l all_ones) OR NOT (drop_bit s all_ones) =
   NOT (drop_bit s (NOT (drop_bit l all_ones)))"
proof (rule bit_word_eqI)
  fix i assume "i < LENGTH(32)"
  then show "bit (drop_bit s (drop_bit l all_ones) OR NOT (drop_bit s all_ones)) i \<longleftrightarrow>
             bit (NOT (drop_bit s (NOT (drop_bit l all_ones)))) i"
    by (simp only: bit_or_iff bits_simp bit_drop_bit_eq comp_apply) auto
qed

lemma SelectiveAlloc_eq:
  "Bma_SelectiveAlloc b aStart aLength =
     assert_always TBMA (range_guard b aStart aLength)
      (ebind (range_op selalloc_step aStart aLength (iMap b) (iAvail b - aLength, aLength))
        (\<lambda>(m, avail', len'). Inr (len', b\<lparr>iAvail := avail', iMap := m\<rparr>)))"
proof -
  have "selalloc_walk (NOT b) e k m acc = range_walk selalloc_step b e k m acc" for b e k m acc
    by (rule selalloc_walk_eq)
  then show ?thesis
    unfolding Bma_SelectiveAlloc_def range_op_def Let_def selalloc_walk_eq selalloc_short_mask
      bit.double_compl
    by (simp add: selalloc_step_def ebind_def Let_def split: sum.split)
qed

lemma selalloc_step_ok:
  "step_ok selalloc_step a l m
     (\<lambda>k m' acc. sel_inv a l False (snd acc + cnt_upto a l False m k) m k m' (snd acc) \<and>
        fst acc = d + cnt_upto a l False m k \<and> snd acc = e - cnt_upto a l False m k)
     (\<lambda>_. False)"
  unfolding step_ok_def
proof (intro allI impI, elim conjE)
  fix k b m' acc
  assume h: "rmask a l k b" "k < length m" "length m' = length m"
    "sel_inv a l False (snd acc + cnt_upto a l False m k) m k m' (snd acc)"
    "fst acc = d + cnt_upto a l False m k" "snd acc = e - cnt_upto a l False m k"
  have "map_upto a l (Suc k) False m (m'[k := m ! k AND NOT b])"
    by (rule map_upto_step [OF h(1-3)])
      (use h(4) in \<open>auto simp: sel_inv_def bit_and_iff bit_not_iff\<close>)
  then show "case selalloc_step b (m ! k) acc of Inl e \<Rightarrow> False
      | Inr (w', acc') \<Rightarrow>
          sel_inv a l False (snd acc' + cnt_upto a l False m (Suc k)) m (Suc k) (m'[k := w']) (snd acc') \<and>
          fst acc' = d + cnt_upto a l False m (Suc k) \<and> snd acc' = e - cnt_upto a l False m (Suc k)"
    using h(4-6) bit_count_word_not [OF h(1), of m]
    by (simp add: selalloc_step_def sel_inv_def cnt_upto_step Let_def)
qed

text \<open>The count over a whole range, on the free set.\<close>

lemma cnt_upto_range:
  assumes "a + l \<le> nat (iSize b)" "a + l \<le> 32 * k"
  shows "cnt_upto a l True (iMap b) k = int (card ({a ..< a + l} \<inter> free_set b))"
    "cnt_upto a l False (iMap b) k = int l - int (card ({a ..< a + l} \<inter> free_set b))"
proof -
  have "{p. a \<le> p \<and> p < a + l \<and> p < 32 * k \<and> pbit (iMap b) p = True} = {a ..< a + l} \<inter> free_set b"
    using assms by (auto simp: free_set_def)
  then show "cnt_upto a l True (iMap b) k = int (card ({a ..< a + l} \<inter> free_set b))"
    by (simp only: cnt_upto_def)
  have "{p. a \<le> p \<and> p < a + l \<and> p < 32 * k \<and> pbit (iMap b) p = False} = {a ..< a + l} - free_set b"
    using assms by (auto simp: free_set_def)
  then have "cnt_upto a l False (iMap b) k = int (card ({a ..< a + l} - free_set b))"
    by (simp only: cnt_upto_def)
  moreover have "card ({a ..< a + l} - free_set b) + card ({a ..< a + l} \<inter> free_set b) = l"
    using card_Int_Diff [of "{a ..< a + l}" "free_set b"] by simp
  ultimately show "cnt_upto a l False (iMap b) k = int l - int (card ({a ..< a + l} \<inter> free_set b))"
    by linarith
qed

lemma card_union_range:
  "int (card (free_set b \<union> {a ..< a + l})) = int (card (free_set b)) + int l - int (card ({a ..< a + l} \<inter> free_set b))"
  using card_Un_Int [of "free_set b" "{a ..< a + l}"] by (simp add: Int_commute)

lemma card_diff_range:
  "int (card (free_set b - {a ..< a + l})) = int (card (free_set b)) - int (card ({a ..< a + l} \<inter> free_set b))"
  using card_Int_Diff [of "free_set b" "{a ..< a + l}"] by (simp add: Int_commute)

lemma SelectiveFree_spec:
  assumes inv: "bma_inv b" and t: "is_TInt aStart" "is_TInt aLength"
  shows "case Bma_SelectiveFree b aStart aLength of
           Inl e \<Rightarrow> e = Panic TBMA \<and> \<not> valid_range b aStart aLength
         | Inr b' \<Rightarrow> valid_range b aStart aLength \<and> bma_inv b' \<and>
             free_set b' = free_set b \<union> range_set aStart aLength"
proof (cases "valid_range b aStart aLength")
  case False
  then show ?thesis by (simp add: Bma_SelectiveFree_def range_guard_iff [OF inv t])
next
  case v: True
  obtain a l where al: "aStart = int a" "aLength = int l" "a + l \<le> nat (iSize b)"
    "a + l \<le> 32 * length (iMap b)" "a < 32 * length (iMap b)"
    "range_set aStart aLength = {a ..< a + l}"
    using valid_range_nat [OF inv v] by metis
  let ?d = "iAvail b + int l"
  have res: "range_result (iMap b) (a + l) (sel_inv a l True ?d (iMap b)) (\<lambda>_. False)
      (range_op selfree_step (int a) (int l) (iMap b) ?d)"
    by (rule range_op_rule [OF selfree_step_ok al(4,5) sel_inv_start])
  then obtain m n k where r: "range_op selfree_step (int a) (int l) (iMap b) ?d = Inr (m, n)"
    and k: "length m = length (iMap b)" "a + l \<le> 32 * k" "sel_inv a l True ?d (iMap b) k m n"
    by (auto simp: range_result_def split: sum.splits)
  let ?b' = "b\<lparr>iCheckFirst := check_first_down b aStart, iAvail := n, iMap := m\<rparr>"
  have m: "map_upto a l k True (iMap b) m" using k(3) by (simp add: sel_inv_def)
  have fs: "free_set ?b' = free_set b \<union> {a ..< a + l}"
    using free_set_range [OF inv al(3) k(2) m, of ?b'] by simp
  have "bma_inv ?b'"
  proof (rule bma_inv_range [OF inv al(3) k(2) m k(1)])
    have "n = int (card (free_set b)) + int l - int (card ({a ..< a + l} \<inter> free_set b))"
      using k(3) inv cnt_upto_range(1) [OF al(3) k(2)] by (simp add: sel_inv_def bma_inv_def)
    then show "iAvail ?b' = int (card (free_set ?b'))"
      unfolding fs card_union_range by simp
  qed (use check_first_down_ok [OF inv v] al(1) in auto)
  moreover have "range_guard b aStart aLength" using range_guard_iff [OF inv t] v by simp
  ultimately show ?thesis using v r al fs by (simp add: Bma_SelectiveFree_def)
qed

lemma SelectiveAlloc_spec:
  assumes inv: "bma_inv b" and t: "is_TInt aStart" "is_TInt aLength"
  shows "case Bma_SelectiveAlloc b aStart aLength of
           Inl e \<Rightarrow> e = Panic TBMA \<and> \<not> valid_range b aStart aLength
         | Inr (n, b') \<Rightarrow> valid_range b aStart aLength \<and> bma_inv b' \<and>
             n = int (card (range_set aStart aLength \<inter> free_set b)) \<and>
             free_set b' = free_set b - range_set aStart aLength"
proof (cases "valid_range b aStart aLength")
  case False
  then show ?thesis by (simp add: SelectiveAlloc_eq range_guard_iff [OF inv t])
next
  case v: True
  obtain a l where al: "aStart = int a" "aLength = int l" "a + l \<le> nat (iSize b)"
    "a + l \<le> 32 * length (iMap b)" "a < 32 * length (iMap b)"
    "range_set aStart aLength = {a ..< a + l}"
    using valid_range_nat [OF inv v] by metis
  let ?m = "iMap b" and ?d = "iAvail b - int l"
  let ?I = "\<lambda>k m' acc. sel_inv a l False (snd acc + cnt_upto a l False ?m k) ?m k m' (snd acc) \<and>
        fst acc = ?d + cnt_upto a l False ?m k \<and> snd acc = int l - cnt_upto a l False ?m k"
  have "range_result ?m (a + l) ?I (\<lambda>_. False)
      (range_op selalloc_step (int a) (int l) ?m (?d, int l))"
    by (rule range_op_rule [OF selalloc_step_ok al(4,5)]) (simp add: sel_inv_def map_upto_start)
  then obtain m av n k
    where r: "range_op selalloc_step (int a) (int l) ?m (?d, int l) = Inr (m, av, n)"
    and k: "length m = length ?m" "a + l \<le> 32 * k" "?I k m (av, n)"
    by (auto simp: range_result_def split: sum.splits)
  let ?b' = "b\<lparr>iAvail := av, iMap := m\<rparr>"
  have m: "map_upto a l k False ?m m" using k(3) by (simp add: sel_inv_def)
  have fs: "free_set ?b' = free_set b - {a ..< a + l}"
    using free_set_range [OF inv al(3) k(2) m, of ?b'] by simp
  have n: "n = int (card ({a ..< a + l} \<inter> free_set b))"
    using k(3) cnt_upto_range(2) [OF al(3) k(2)] by simp
  have "bma_inv ?b'"
  proof (rule bma_inv_range [OF inv al(3) k(2) m k(1)])
    have "av = int (card (free_set b)) - int (card ({a ..< a + l} \<inter> free_set b))"
      using k(3) inv cnt_upto_range(2) [OF al(3) k(2)] by (simp add: bma_inv_def)
    then show "iAvail ?b' = int (card (free_set ?b'))"
      unfolding fs card_diff_range by simp
  qed (use inv in \<open>auto simp: bma_inv_def\<close>)
  moreover have "range_guard b aStart aLength" using range_guard_iff [OF inv t] v by simp
  ultimately show ?thesis using v r al fs n by (simp add: SelectiveAlloc_eq)
qed

subsection \<open>The range tests\<close>

definition test_inv ::
    "nat \<Rightarrow> nat \<Rightarrow> bool \<Rightarrow> TUint32 list \<Rightarrow> nat \<Rightarrow> TUint32 list \<Rightarrow> TUint32 \<Rightarrow> bool" where
  "test_inv a l v m k m' r \<longleftrightarrow>
     m' = m \<and> (r \<noteq> 0 \<longleftrightarrow> (\<exists>p < 32 * k. a \<le> p \<and> p < a + l \<and> pbit m p = v))"

lemma test_inv_start: "test_inv a l v m (a div 32) m 0"
  using div32_bounds(1) [of a] by (auto simp: test_inv_def)

lemma test_inv_step:
  assumes "rmask a l k b" "k < length m" "test_inv a l v m k m' r"
    and c: "\<forall>i<32. bit c i \<longleftrightarrow> bit b i \<and> bit (m ! k) i = v"
  shows "test_inv a l v m (Suc k) (m'[k := m ! k]) (r OR c)"
proof -
  have "(\<exists>i<32. bit c i) \<longleftrightarrow>
      (\<exists>p. 32 * k \<le> p \<and> p < 32 * Suc k \<and> a \<le> p \<and> p < a + l \<and> pbit m p = v)" (is "?L \<longleftrightarrow> ?R")
  proof
    assume ?L
    then obtain i where "i < 32" "bit b i" "bit (m ! k) i = v" using c by blast
    then show ?R
      using assms(1) wpos_bounds [of k i] by (intro exI [of _ "wpos k i"]) (simp add: rmask_def)
  next
    assume ?R
    then obtain p where p: "32 * k \<le> p" "p < 32 * k + 32" "a \<le> p" "p < a + l" "pbit m p = v"
      by auto
    then obtain i where "i < 32" "p = wpos k i" using wpos_surj [of k p] by blast
    then show ?L using assms(1) c p by (auto simp: rmask_def)
  qed
  moreover have "r OR c \<noteq> 0 \<longleftrightarrow> r \<noteq> 0 \<or> (\<exists>i<32. bit c i)"
    using word32_nonzero_bit [of r] word32_nonzero_bit [of "r OR c"] by (auto simp: bit_or_iff)
  moreover have "(\<exists>p < 32 * Suc k. a \<le> p \<and> p < a + l \<and> pbit m p = v) \<longleftrightarrow>
      (\<exists>p < 32 * k. a \<le> p \<and> p < a + l \<and> pbit m p = v) \<or>
      (\<exists>p. 32 * k \<le> p \<and> p < 32 * Suc k \<and> a \<le> p \<and> p < a + l \<and> pbit m p = v)"
    by (meson not_less less_le_trans mult_le_mono2 lessI less_imp_le)
  ultimately show ?thesis using assms(3) by (simp add: test_inv_def) blast
qed

lemma notfree_step_ok: "step_ok notfree_step a l m (test_inv a l False m) (\<lambda>_. False)"
  unfolding step_ok_def
proof (intro allI impI, elim conjE)
  fix k b m' acc
  assume h: "rmask a l k b" "k < length m" "test_inv a l False m k m' acc"
  show "case notfree_step b (m ! k) acc of Inl e \<Rightarrow> False
      | Inr (w', acc') \<Rightarrow> test_inv a l False m (Suc k) (m'[k := w']) acc'"
    using test_inv_step [OF h, of "(m ! k XOR b) AND b"]
    by (auto simp: notfree_step_def bit_and_iff bit_xor_iff)
qed

lemma notalloc_step_ok: "step_ok notalloc_step a l m (test_inv a l True m) (\<lambda>_. False)"
  unfolding step_ok_def
proof (intro allI impI, elim conjE)
  fix k b m' acc
  assume h: "rmask a l k b" "k < length m" "test_inv a l True m k m' acc"
  show "case notalloc_step b (m ! k) acc of Inl e \<Rightarrow> False
      | Inr (w', acc') \<Rightarrow> test_inv a l True m (Suc k) (m'[k := w']) acc'"
    using test_inv_step [OF h, of "m ! k AND b"]
    by (auto simp: notalloc_step_def bit_and_iff)
qed

lemma test_range_result:
  assumes inv: "bma_inv b" and v: "valid_range b aStart aLength"
    and step: "\<And>a l m. step_ok step a l m (test_inv a l val m) (\<lambda>_. False)"
  shows "\<exists>m r. range_op step aStart aLength (iMap b) 0 = Inr (m, r) \<and>
           (r \<noteq> 0 \<longleftrightarrow> (\<exists>p \<in> range_set aStart aLength. p \<in> free_set b \<longleftrightarrow> val))"
proof -
  obtain a l where al: "aStart = int a" "aLength = int l" "a + l \<le> nat (iSize b)"
    "a + l \<le> 32 * length (iMap b)" "a < 32 * length (iMap b)"
    "range_set aStart aLength = {a ..< a + l}"
    using valid_range_nat [OF inv v] by metis
  have "range_result (iMap b) (a + l) (test_inv a l val (iMap b)) (\<lambda>_. False)
      (range_op step (int a) (int l) (iMap b) 0)"
    by (rule range_op_rule [OF step al(4,5) test_inv_start])
  then obtain m r k where r: "range_op step (int a) (int l) (iMap b) 0 = Inr (m, r)"
    and k: "a + l \<le> 32 * k" "test_inv a l val (iMap b) k m r"
    by (auto simp: range_result_def split: sum.splits)
  have "r \<noteq> 0 \<longleftrightarrow> (\<exists>p \<in> {a ..< a + l}. p \<in> free_set b \<longleftrightarrow> val)"
    using k al(3) by (auto simp: test_inv_def free_set_def)
  then show ?thesis using r al by simp
qed

lemma NotFree_spec:
  assumes inv: "bma_inv b" and t: "is_TInt aStart" "is_TInt aLength"
  shows "Bma_NotFree b aStart aLength =
           (if valid_range b aStart aLength
            then Inr (\<not> range_set aStart aLength \<subseteq> free_set b) else Inl (Panic TBMA))"
proof (cases "valid_range b aStart aLength")
  case True
  have "(\<exists>p \<in> range_set aStart aLength. p \<in> free_set b \<longleftrightarrow> False) \<longleftrightarrow> \<not> range_set aStart aLength \<subseteq> free_set b" by blast
  then show ?thesis
    using test_range_result [OF inv True notfree_step_ok] True
    by (auto simp: Bma_NotFree_def range_guard_iff [OF inv t] simp del: ex_simps)
qed (simp add: Bma_NotFree_def range_guard_iff [OF inv t])

lemma NotAllocated_spec:
  assumes inv: "bma_inv b" and t: "is_TInt aStart" "is_TInt aLength"
  shows "Bma_NotAllocated b aStart aLength =
           (if valid_range b aStart aLength
            then Inr (range_set aStart aLength \<inter> free_set b \<noteq> {}) else Inl (Panic TBMA))"
proof (cases "valid_range b aStart aLength")
  case True
  have "(\<exists>p \<in> range_set aStart aLength. p \<in> free_set b \<longleftrightarrow> True) \<longleftrightarrow> range_set aStart aLength \<inter> free_set b \<noteq> {}" by blast
  then show ?thesis
    using test_range_result [OF inv True notalloc_step_ok] True
    by (auto simp: Bma_NotAllocated_def range_guard_iff [OF inv t] simp del: ex_simps)
qed (simp add: Bma_NotAllocated_def range_guard_iff [OF inv t])

end
