(* ===== verification/Bma_Single.thy ===== *)
theory Bma_Single
  imports Bma_Spec
begin

text \<open>
  Specifications of the bitmap allocator's operations on single positions (\<open>Alloc\<close>,
  \<open>AllocFrom\<close>, \<open>Free\<close>, \<open>AllocList\<close>) and of its constructor, on the set of free positions.
\<close>

section \<open>Changing one position\<close>

lemma bma_inv_single:
  assumes inv: "bma_inv b" and p: "p < nat (iSize b)"
    and m: "length m' = length (iMap b)"
      "\<And>q. q < 32 * length (iMap b) \<Longrightarrow> pbit m' q = (if q = p then v else pbit (iMap b) q)"
    and old: "pbit (iMap b) p \<noteq> v"
    and b': "iMap b' = m'" "iSize b' = iSize b" "iAvail b' = (if v then iAvail b + 1 else iAvail b - 1)"
    and cf: "iCheckFirst b' \<le> iCheckFirst b" "v \<Longrightarrow> iCheckFirst b' \<le> p div 32"
  shows "bma_inv b' \<and> free_set b' = (if v then insert p (free_set b) else free_set b - {p})"
proof -
  have k: "p + 1 \<le> 32 * Suc (p div 32)" using div32_bounds(2) [of p] by simp
  have a: "p + 1 \<le> nat (iSize b)" using p by simp
  have mu: "map_upto p 1 (Suc (p div 32)) v (iMap b) m'"
    using m(2) div32_bounds(2) [of p] by (auto simp: map_upto_def)
  have fs: "free_set b' = (if v then free_set b \<union> {p ..< p + 1} else free_set b - {p ..< p + 1})"
    by (rule free_set_range [OF inv a k mu b'(1,2)])
  have "p \<in> free_set b \<longleftrightarrow> \<not> v" using p old by (auto simp: free_set_def)
  then have card: "iAvail b' = int (card (free_set b'))"
    using inv b'(3) fs card_free_range_diff [of p 1 b] card_free_range_union [of p 1 b]
    by (cases v) (simp_all add: bma_inv_def)
  have cf': "iCheckFirst b' < length (iMap b)" using cf(1) inv by (simp add: bma_inv_def)
  have "bma_inv b'"
    by (rule bma_inv_range [OF inv a k mu m(1) b'(1,2) card disjI1 [OF cf(1)] cf' cf(2)])
  then show ?thesis using fs by simp
qed

lemma bma_inv_raise:
  "bma_inv b \<Longrightarrow> c < length (iMap b) \<Longrightarrow> \<forall>k<c. iMap b ! k = 0 \<Longrightarrow> bma_inv (b\<lparr>iCheckFirst := c\<rparr>)"
  by (simp add: bma_inv_def free_set_def)

lemma free_set_cf [simp]: "free_set (b\<lparr>iCheckFirst := c\<rparr>) = free_set b"
  by (simp add: free_set_def)

lemma bit_clear:
  "j < 32 \<Longrightarrow> bit ((w :: TUint32) AND NOT (push_bit i 1)) j \<longleftrightarrow> bit w j \<and> j \<noteq> i"
  by (simp only: bit_and_iff bits_simp) auto

lemma pbit_clear:
  assumes "k < length m" "i < 32"
  shows "pbit (m[k := m ! k AND NOT (push_bit i 1)]) q = (if q = wpos k i then False else pbit m q)"
proof (cases "q div 32 = k")
  case True
  then have "q = wpos k (31 - q mod 32)" using wpos_eq [of q] by simp
  then have qi: "q = wpos k i \<longleftrightarrow> 31 - q mod 32 = i"
    using assms(2) wpos_inj [of "31 - q mod 32" i k] by auto
  have lt: "31 - q mod 32 < 32" by simp
  show ?thesis
    unfolding pbit_upd [OF assms(1)] bit_clear [OF lt] qi
    using True by (simp add: pbit_def)
next
  case False
  then have "q \<noteq> wpos k i" by auto
  then show ?thesis unfolding pbit_upd [OF assms(1)] using False by simp
qed

lemma free_in_map:
  assumes "bma_inv b" "p < 32 * length (iMap b)" "pbit (iMap b) p"
  shows "p < nat (iSize b)"
  using assms by (meson bma_inv_def not_less)

lemma free_set_bits:
  assumes "bma_inv b"
  shows "free_set b = {p. p < 32 * length (iMap b) \<and> pbit (iMap b) p}"
proof -
  have "nat (iSize b) \<le> 32 * length (iMap b)" using assms by (auto simp: bma_inv_def)
  then show ?thesis using free_in_map [OF assms] by (auto simp: free_set_def)
qed

text \<open>Taking a free position: what \<open>Alloc\<close> and \<open>AllocFrom\<close> do once they have found it.\<close>

lemma take_position:
  assumes inv: "bma_inv b" and k: "k < length (iMap b)" and i: "i < 32" "bit (iMap b ! k) i"
    and b': "iMap b' = (iMap b)[k := iMap b ! k AND NOT (push_bit i 1)]" "iSize b' = iSize b"
      "iAvail b' = iAvail b - 1" "iCheckFirst b' \<le> iCheckFirst b"
  shows "bma_inv b' \<and> free_set b' = free_set b - {wpos k i} \<and> wpos k i \<in> free_set b"
proof -
  have p: "wpos k i < 32 * length (iMap b)" using k wpos_bounds(2) [of k i] by linarith
  have pb: "pbit (iMap b) (wpos k i)" using i by simp
  have "wpos k i < nat (iSize b)" by (rule free_in_map [OF inv p pb])
  moreover have "pbit (iMap b') q = (if q = wpos k i then False else pbit (iMap b) q)" for q
    unfolding b'(1) by (rule pbit_clear [OF k i(1)])
  moreover have "length (iMap b') = length (iMap b)" by (simp add: b'(1))
  ultimately show ?thesis
    using bma_inv_single [OF inv, of "wpos k i" "iMap b'" False b'] pb b'(2-4)
    by (simp add: free_set_def)
qed

section \<open>Alloc\<close>

lemma al_scan_least:
  assumes "pW \<le> k" "k < length m" "m ! k \<noteq> 0" "\<forall>j. pW \<le> j \<and> j < k \<longrightarrow> m ! j = 0"
  shows "al_scan m pW = Inr k"
  using assms
proof (induction "k - pW" arbitrary: pW)
  case 0
  then show ?case by (simp add: al_scan.simps [of m pW])
next
  case (Suc n)
  then have "al_scan m (Suc pW) = Inr k" by auto
  moreover have "pW < k" using Suc(2) by simp
  ultimately show ?case using Suc.prems by (simp add: al_scan.simps [of m pW])
qed

lemma free_set_nonempty_word:
  assumes "bma_inv b" "free_set b \<noteq> {}"
  shows "\<exists>k < length (iMap b). iMap b ! k \<noteq> 0"
proof -
  obtain p where p: "p < 32 * length (iMap b)" "pbit (iMap b) p"
    using assms by (auto simp: free_set_bits)
  then show ?thesis
    by (intro exI [of _ "p div 32"]) (auto simp: pbit_def less_mult_imp_div_less mult.commute)
qed

lemma iAvail_zero_iff: "bma_inv b \<Longrightarrow> iAvail b = 0 \<longleftrightarrow> free_set b = {}"
  by (auto simp: bma_inv_def)

lemma ms1_position:
  assumes "find_ms1_32 w = int i" "i < 32"
  shows "(31 - find_ms1_32 w) + int k * 32 = int (wpos k i)"
  using assms by (simp add: wpos_def of_nat_diff)

lemma word_first_min:
  assumes "bit (m ! k) i" "\<forall>j. i < j \<longrightarrow> \<not> bit (m ! k) j" "i < 32"
    and "pbit m q" "q div 32 = k"
  shows "wpos k i \<le> q"
proof -
  have "bit (m ! k) (31 - q mod 32)" using assms(4,5) by (simp add: pbit_def)
  then have "31 - q mod 32 \<le> i" using assms(2) not_less by blast
  then show ?thesis using assms(5) div_mult_mod_eq [of q 32] by (simp add: wpos_def)
qed

lemma least_word:
  assumes "\<exists>k. lo \<le> k \<and> k < length m \<and> (m :: TUint32 list) ! k \<noteq> 0"
  obtains k i where "lo \<le> k" "k < length m" "m ! k \<noteq> 0" "\<forall>j. lo \<le> j \<and> j < k \<longrightarrow> m ! j = 0"
    "i < 32" "find_ms1_32 (m ! k) = int i" "bit (m ! k) i" "\<forall>j. i < j \<longrightarrow> \<not> bit (m ! k) j"
proof -
  let ?P = "\<lambda>k. lo \<le> k \<and> k < length m \<and> m ! k \<noteq> 0"
  define k where "k = Least ?P"
  have k: "?P k" unfolding k_def by (rule LeastI_ex [OF assms])
  have "m ! j = 0" if "lo \<le> j" "j < k" for j
    using not_less_Least [of j ?P] that k by (auto simp: k_def)
  moreover obtain i where "i < 32" "find_ms1_32 (m ! k) = int i" "bit (m ! k) i"
    "\<forall>j. i < j \<longrightarrow> \<not> bit (m ! k) j"
    using find_ms1_32_spec [of "m ! k"] k by blast
  ultimately show ?thesis using k by (intro that [of k i]) auto
qed

lemma free_word:
  assumes "bma_inv b" "q \<in> free_set b"
  shows "iMap b ! (q div 32) \<noteq> 0" "q div 32 < length (iMap b)"
    "bit (iMap b ! (q div 32)) (31 - q mod 32)"
  using assms by (auto simp: free_set_bits pbit_def less_mult_imp_div_less mult.commute)

lemma word_free:
  assumes "bma_inv b" "k < length (iMap b)" "i < 32" "bit (iMap b ! k) i"
  shows "wpos k i \<in> free_set b"
  using assms wpos_bounds(2) [of k i] by (simp add: free_set_bits)

lemma least_word_min:
  assumes inv: "bma_inv b" and i: "i < 32" "bit (iMap b ! k) i" "\<forall>j. i < j \<longrightarrow> \<not> bit (iMap b ! k) j"
    and zero: "\<forall>j. lo \<le> j \<and> j < k \<longrightarrow> iMap b ! j = 0"
    and q: "q \<in> free_set b" "lo \<le> q div 32"
  shows "wpos k i \<le> q"
proof -
  have "k \<le> q div 32" using zero free_word(1) [OF inv q(1)] q(2) not_less by blast
  then consider "q div 32 = k" | "k < q div 32" by linarith
  then show ?thesis
  proof cases
    case 1
    have "pbit (iMap b) q" using q(1) by (simp add: free_set_def)
    then show ?thesis using word_first_min [OF i(2,3,1) _ 1] by simp
  next
    case 2
    then show ?thesis using wpos_bounds(2) [of k i] div32_bounds(1) [of q] by linarith
  qed
qed

lemma Alloc_spec:
  assumes inv: "bma_inv b"
  shows "if free_set b = {} then Bma_Alloc b = Inr (-1, b)
         else \<exists>b'. Bma_Alloc b = Inr (int (Min (free_set b)), b') \<and> bma_inv b' \<and>
                free_set b' = free_set b - {Min (free_set b)}"
proof (cases "free_set b = {}")
  case True
  then show ?thesis using iAvail_zero_iff [OF inv] by (simp add: Bma_Alloc_def)
next
  case False
  let ?m = "iMap b"
  have "\<exists>k. 0 \<le> k \<and> k < length ?m \<and> ?m ! k \<noteq> 0"
    using free_set_nonempty_word [OF inv False] by auto
  then obtain k i where k: "k < length ?m" "?m ! k \<noteq> 0" "\<forall>j. 0 \<le> j \<and> j < k \<longrightarrow> ?m ! j = 0"
    and i: "i < 32" "find_ms1_32 (?m ! k) = int i" "bit (?m ! k) i" "\<forall>j. i < j \<longrightarrow> \<not> bit (?m ! k) j"
    by (rule least_word)
  have "iCheckFirst b \<le> k" using k inv by (auto simp: bma_inv_def not_le [symmetric])
  then have scan: "al_scan ?m (iCheckFirst b) = Inr k" using al_scan_least k by simp
  let ?b' = "b\<lparr>iAvail := iAvail b - 1, iCheckFirst := k, iMap := ?m[k := ?m ! k AND NOT (push_bit i 1)]\<rparr>"
  have inv': "bma_inv (b\<lparr>iCheckFirst := k\<rparr>)" by (rule bma_inv_raise [OF inv k(1)]) (simp add: k)
  have tk: "bma_inv ?b' \<and> free_set ?b' = free_set b - {wpos k i} \<and> wpos k i \<in> free_set b"
    using take_position [OF inv', of k i ?b'] k(1) i by simp
  have "Min (free_set b) = wpos k i"
    using tk least_word_min [OF inv i(1,3,4) k(3)] by (intro Min_eqI) auto
  then show ?thesis
    using False iAvail_zero_iff [OF inv] scan tk i ms1_position [OF i(2,1), of k]
    by (simp add: Bma_Alloc_def Let_def)
qed

section \<open>AllocFrom\<close>

lemma af_scan_found [simp]: "w \<noteq> 0 \<Longrightarrow> af_scan m pEnd pW w = Some (Inr (pW, w))"
  by (simp add: af_scan.simps)

lemma af_scan_forward:
  assumes "pW < k" "k < length m" "m ! k \<noteq> 0" "\<forall>j. pW < j \<and> j < k \<longrightarrow> m ! j = 0"
  shows "af_scan m (length m) pW 0 = Some (Inr (k, m ! k))"
  using assms
proof (induction "k - pW" arbitrary: pW)
  case 0
  then show ?case by simp
next
  case (Suc n)
  have step: "af_scan m (length m) pW 0 = af_scan m (length m) (Suc pW) (m ! Suc pW)"
    using Suc.prems by (subst af_scan.simps) (simp add: Let_def)
  show ?case
  proof (cases "Suc pW = k")
    case True
    then show ?thesis using step Suc.prems by simp
  next
    case False
    then have "m ! Suc pW = 0" "Suc pW < k" using Suc.prems by simp_all
    moreover have "af_scan m (length m) (Suc pW) 0 = Some (Inr (k, m ! k))"
      by (rule Suc.hyps(1)) (use Suc.hyps(2) Suc.prems \<open>Suc pW < k\<close> in auto)
    ultimately show ?thesis using step by simp
  qed
qed

lemma af_scan_wrap:
  assumes "pW < length m" "\<forall>j. pW < j \<and> j < length m \<longrightarrow> m ! j = 0"
    and k: "k < length m" "m ! k \<noteq> 0" "\<forall>j<k. m ! j = 0"
  shows "af_scan m (length m) pW 0 = Some (Inr (k, m ! k))"
  using assms(1,2)
proof (induction "length m - pW" arbitrary: pW)
  case 0
  then show ?case by simp
next
  case (Suc n)
  show ?case
  proof (cases "Suc pW = length m")
    case True
    then have step: "af_scan m (length m) pW 0 = af_scan m (length m) 0 (m ! 0)"
      by (subst af_scan.simps) (use k in auto)
    show ?thesis
    proof (cases "k = 0")
      case True
      then show ?thesis using step k by simp
    next
      case False
      then have "m ! 0 = 0" "af_scan m (length m) 0 0 = Some (Inr (k, m ! k))"
        using k by (auto intro: af_scan_forward)
      then show ?thesis using step by simp
    qed
  next
    case False
    then have lt: "Suc pW < length m" "m ! Suc pW = 0" using Suc.prems by simp_all
    have "af_scan m (length m) pW 0 = af_scan m (length m) (Suc pW) (m ! Suc pW)"
      using lt by (subst af_scan.simps) (simp add: Let_def)
    moreover have "af_scan m (length m) (Suc pW) 0 = Some (Inr (k, m ! k))"
      by (rule Suc.hyps(1)) (use Suc.hyps(2) Suc.prems lt in auto)
    ultimately show ?thesis using lt by simp
  qed
qed

text \<open>The position \<open>AllocFrom\<close> takes: the next free one from the offset, else the first.\<close>

definition next_free :: "nat set \<Rightarrow> nat \<Rightarrow> nat" where
  "next_free F off = (if \<exists>q \<in> F. off \<le> q then Min {q \<in> F. off \<le> q} else Min F)"

lemma next_free_eqI:
  assumes "finite F" "p \<in> F"
    and "off \<le> p \<Longrightarrow> \<forall>q \<in> F. off \<le> q \<longrightarrow> p \<le> q"
    and "p < off \<Longrightarrow> \<forall>q \<in> F. q < off \<and> p \<le> q"
  shows "next_free F off = p"
proof (cases "off \<le> p")
  case True
  then have "Min {q \<in> F. off \<le> q} = p" using assms by (intro Min_eqI) auto
  then show ?thesis using True assms(2) by (auto simp: next_free_def)
next
  case False
  then have "p < off" by simp
  with assms(4) have all: "\<forall>q \<in> F. q < off \<and> p \<le> q" by blast
  then have "Min F = p" using assms(1,2) by (intro Min_eqI) auto
  then show ?thesis using all by (auto simp: next_free_def not_le [symmetric])
qed

text \<open>The words \<open>AllocFrom\<close> meets, and the word it stops at, by where the next free position is.\<close>

lemma mask_from_offset:
  assumes "i < 32"
  shows "bit (w AND drop_bit (off mod 32) all_ones) i \<longleftrightarrow> bit w i \<and> off \<le> wpos (off div 32) i"
proof -
  have "bit (w AND drop_bit (off mod 32) all_ones) i \<longleftrightarrow> bit w i \<and> off mod 32 + i < 32"
    by (simp only: bit_and_iff bits_simp)
  also have "off mod 32 + i < 32 \<longleftrightarrow> off \<le> wpos (off div 32) i"
    using div_mult_mod_eq [of off 32] assms unfolding wpos_def by linarith
  finally show ?thesis .
qed

text \<open>The mask keeps the free positions of the first word that are not below the offset.\<close>

definition first_word :: "TBitMapAllocator \<Rightarrow> nat \<Rightarrow> TUint32" where
  "first_word b off = (iMap b ! (off div 32)) AND drop_bit (off mod 32) all_ones"

lemma first_word_bit:
  assumes "bma_inv b" "q \<in> free_set b" "off \<le> q" "q div 32 = off div 32"
  shows "bit (first_word b off) (31 - q mod 32)"
proof -
  have "wpos (off div 32) (31 - q mod 32) = q" using wpos_eq [of q] assms(4) by simp
  then show ?thesis
    using mask_from_offset [of "31 - q mod 32" "iMap b ! (off div 32)" off]
      free_word(3) [OF assms(1,2)] assms(3,4) by (simp add: first_word_def)
qed

lemma first_word_min:
  assumes inv: "bma_inv b" and i: "i < 32" "\<forall>j. i < j \<longrightarrow> \<not> bit (first_word b off) j"
    and q: "q \<in> free_set b" "off \<le> q"
  shows "wpos (off div 32) i \<le> q"
proof (cases "q div 32 = off div 32")
  case True
  have "31 - q mod 32 \<le> i"
    using first_word_bit [OF inv q True] i(2) not_less by blast
  then show ?thesis using True div_mult_mod_eq [of q 32] by (simp add: wpos_def)
next
  case False
  then have "off div 32 < q div 32" using div_le_mono [OF q(2), of 32] by simp
  then show ?thesis using wpos_bounds(2) [of "off div 32" i] div32_bounds(1) [of q] by linarith
qed

definition af_result :: "TBitMapAllocator \<Rightarrow> nat \<Rightarrow> nat \<Rightarrow> nat \<Rightarrow> TUint32 \<Rightarrow> bool" where
  "af_result b off k i w \<longleftrightarrow>
     k < length (iMap b) \<and> i < 32 \<and> find_ms1_32 w = int i \<and> bit (iMap b ! k) i \<and>
     wpos k i = next_free (free_set b) off \<and>
     af_scan (iMap b) (length (iMap b)) (off div 32) (first_word b off) = Some (Inr (k, w))"

lemma af_result_here:
  assumes inv: "bma_inv b" and off: "off div 32 < length (iMap b)" and w: "first_word b off \<noteq> 0"
  shows "\<exists>k i w. af_result b off k i w"
proof -
  let ?k = "off div 32" and ?w = "first_word b off"
  obtain i where i: "i < 32" "find_ms1_32 ?w = int i" "bit ?w i" "\<forall>j. i < j \<longrightarrow> \<not> bit ?w j"
    using find_ms1_32_spec [OF w] by blast
  have bi: "bit (iMap b ! ?k) i" "off \<le> wpos ?k i"
    using i(3) mask_from_offset [OF i(1)] by (auto simp: first_word_def)
  have "next_free (free_set b) off = wpos ?k i"
    using first_word_min [OF inv i(1,4)] word_free [OF inv off i(1) bi(1)] bi(2)
    by (intro next_free_eqI) auto
  then have "af_result b off ?k i ?w" using off i bi(1) w by (simp add: af_result_def)
  then show ?thesis by blast
qed

lemma af_result_later:
  assumes inv: "bma_inv b" and w: "first_word b off = 0"
    and later: "\<exists>k. Suc (off div 32) \<le> k \<and> k < length (iMap b) \<and> iMap b ! k \<noteq> 0"
  shows "\<exists>k i w. af_result b off k i w"
proof -
  obtain k i where k: "Suc (off div 32) \<le> k" "k < length (iMap b)" "iMap b ! k \<noteq> 0"
      "\<forall>j. Suc (off div 32) \<le> j \<and> j < k \<longrightarrow> iMap b ! j = 0"
    and i: "i < 32" "find_ms1_32 (iMap b ! k) = int i" "bit (iMap b ! k) i"
      "\<forall>j. i < j \<longrightarrow> \<not> bit (iMap b ! k) j"
    using later by (rule least_word)
  have ge: "off \<le> wpos k i" using k(1) wpos_bounds(1) [of k i] div32_bounds(2) [of off] by linarith
  have "wpos k i \<le> q" if q: "q \<in> free_set b" "off \<le> q" for q
  proof -
    have "q div 32 \<noteq> off div 32" using first_word_bit [OF inv q] w by auto
    then have "Suc (off div 32) \<le> q div 32" using div_le_mono [OF q(2), of 32] by simp
    then show ?thesis by (rule least_word_min [OF inv i(1,3,4) k(4) q(1)])
  qed
  then have "next_free (free_set b) off = wpos k i"
    using word_free [OF inv k(2) i(1,3)] ge by (intro next_free_eqI) auto
  moreover have "af_scan (iMap b) (length (iMap b)) (off div 32) 0 = Some (Inr (k, iMap b ! k))"
    using k by (intro af_scan_forward) auto
  ultimately have "af_result b off k i (iMap b ! k)" using k(2) i w by (simp add: af_result_def)
  then show ?thesis by blast
qed

lemma af_result_wrap:
  assumes inv: "bma_inv b" and off: "off div 32 < length (iMap b)" and w: "first_word b off = 0"
    and F: "free_set b \<noteq> {}"
    and none: "\<forall>k. off div 32 < k \<and> k < length (iMap b) \<longrightarrow> iMap b ! k = 0"
  shows "\<exists>k i w. af_result b off k i w"
proof -
  have "\<exists>k. 0 \<le> k \<and> k < length (iMap b) \<and> iMap b ! k \<noteq> 0"
    using free_set_nonempty_word [OF inv F] by auto
  then obtain k i where k: "k < length (iMap b)" "iMap b ! k \<noteq> 0"
      "\<forall>j. 0 \<le> j \<and> j < k \<longrightarrow> iMap b ! j = 0"
    and i: "i < 32" "find_ms1_32 (iMap b ! k) = int i" "bit (iMap b ! k) i"
      "\<forall>j. i < j \<longrightarrow> \<not> bit (iMap b ! k) j"
    by (rule least_word)
  have below: "q < off" if q: "q \<in> free_set b" for q
  proof (rule ccontr)
    assume "\<not> q < off"
    then have le: "off \<le> q" by simp
    have "\<not> off div 32 < q div 32" using none free_word(1,2) [OF inv q] by blast
    then have "q div 32 = off div 32" using div_le_mono [OF le, of 32] by simp
    then show False using first_word_bit [OF inv q le] w by simp
  qed
  have first: "wpos k i \<le> q" if "q \<in> free_set b" for q
    by (rule least_word_min [OF inv i(1,3,4) k(3) that]) simp
  have "next_free (free_set b) off = wpos k i"
    using word_free [OF inv k(1) i(1,3)] below first by (intro next_free_eqI) auto
  moreover have "af_scan (iMap b) (length (iMap b)) (off div 32) 0 = Some (Inr (k, iMap b ! k))"
    using k by (intro af_scan_wrap [OF off none]) auto
  ultimately have "af_result b off k i (iMap b ! k)" using k(1) i w by (simp add: af_result_def)
  then show ?thesis by blast
qed

lemma af_result_ex:
  assumes "bma_inv b" "off div 32 < length (iMap b)" "free_set b \<noteq> {}"
  shows "\<exists>k i w. af_result b off k i w"
proof (cases "first_word b off = 0")
  case True
  then show ?thesis
    using af_result_later [OF assms(1) True] af_result_wrap [OF assms(1,2) True assms(3)]
    by (meson Suc_le_eq)
next
  case False
  then show ?thesis by (rule af_result_here [OF assms(1,2)])
qed

lemma AllocFrom_spec:
  assumes inv: "bma_inv b" and off: "0 \<le> aOffset"
  shows "if iSize b \<le> aOffset then Bma_AllocFrom b aOffset = Some (Inl (Panic TBMA))
         else if free_set b = {} then Bma_AllocFrom b aOffset = Some (Inr (-1, b))
         else \<exists>b'. Bma_AllocFrom b aOffset = Some (Inr (int (next_free (free_set b) (nat aOffset)), b')) \<and>
                bma_inv b' \<and> free_set b' = free_set b - {next_free (free_set b) (nat aOffset)} \<and>
                next_free (free_set b) (nat aOffset) \<in> free_set b"
proof -
  have sz: "to_TUint (iSize b) = iSize b" "nat (nmapw (iSize b)) = length (iMap b)"
    using inv by (simp_all add: bma_inv_def to_TUint_id nmapw_def is_TInt_def)
  show ?thesis
  proof (cases "iSize b \<le> aOffset \<or> free_set b = {}")
    case True
    then show ?thesis using iAvail_zero_iff [OF inv] sz(1) by (auto simp: Bma_AllocFrom_def)
  next
    case False
    obtain o' where o': "aOffset = int o'" using off by (metis nat_0_le)
    have len: "o' div 32 < length (iMap b)" using False o' inv by (auto simp: bma_inv_def)
    obtain k i w where r: "af_result b o' k i w" using af_result_ex [OF inv len] False by blast
    let ?b' = "b\<lparr>iAvail := iAvail b - 1, iMap := (iMap b)[k := iMap b ! k AND NOT (push_bit i 1)]\<rparr>"
    have tk: "bma_inv ?b' \<and> free_set ?b' = free_set b - {wpos k i} \<and> wpos k i \<in> free_set b"
      by (rule take_position [OF inv]) (use r in \<open>auto simp: af_result_def\<close>)
    have "Bma_AllocFrom b aOffset = Some (Inr (int (wpos k i), ?b'))"
      using r False sz len o' iAvail_zero_iff [OF inv] ms1_position [of w i k]
      by (simp add: Bma_AllocFrom_def af_result_def first_word_def Let_def nat_div_distrib nat_mod_distrib)
    then show ?thesis using r False tk o' by (simp add: af_result_def)
  qed
qed

section \<open>Free\<close>

lemma to_TUint_lt_size:
  assumes "bma_inv b" "is_TInt x"
  shows "to_TUint x < to_TUint (iSize b) \<longleftrightarrow> 0 \<le> x \<and> x < iSize b"
proof -
  have "to_TUint x = (if x < 0 then x + 0x100000000 else x)"
    using assms(2) mod_pos_pos_trivial [of "x + 0x100000000" "0x100000000"]
    unfolding to_TUint_def is_TInt_def by (auto simp: mod_pos_pos_trivial)
  moreover have "to_TUint (iSize b) = iSize b" "iSize b \<le> KMaxTInt"
    using assms(1) by (simp_all add: bma_inv_def to_TUint_id)
  ultimately show ?thesis using assms(2) by (auto simp: is_TInt_def)
qed

lemma pbit_set:
  assumes "p div 32 < length m"
  shows "pbit (m[p div 32 := m ! (p div 32) OR drop_bit (p mod 32) 0x80000000]) q =
         (if q = p then True else pbit m q)"
proof (cases "q div 32 = p div 32")
  case True
  then have qp: "q = p \<longleftrightarrow> q mod 32 = p mod 32"
    using div_mult_mod_eq [of q 32] div_mult_mod_eq [of p 32] by auto
  have "bit (drop_bit (p mod 32) (0x80000000 :: TUint32)) (31 - q mod 32) \<longleftrightarrow> q mod 32 = p mod 32"
    unfolding bit_drop_msb using mod_less_divisor [of 32 q] mod_less_divisor [of 32 p] by linarith
  then show ?thesis
    unfolding pbit_upd [OF assms] bit_or_iff using True qp by (simp add: pbit_def)
next
  case False
  then show ?thesis unfolding pbit_upd [OF assms] by auto
qed

lemma free_test:
  "(m ! (p div 32)) AND drop_bit (p mod 32) (0x80000000 :: TUint32) = 0 \<longleftrightarrow> \<not> pbit m p"
proof -
  have "i + p mod 32 = 31 \<longleftrightarrow> i = 31 - p mod 32" for i
    using mod_less_divisor [of 32 p] by linarith
  then show ?thesis
    unfolding word_and_zero_iff bit_drop_msb pbit_def by (auto simp: add.commute)
qed

lemma Free_spec:
  assumes inv: "bma_inv b" and t: "is_TInt aPos"
  shows "if 0 \<le> aPos \<and> aPos < iSize b \<and> nat aPos \<notin> free_set b
         then \<exists>b'. Bma_Free b aPos = Inr b' \<and> bma_inv b' \<and> free_set b' = insert (nat aPos) (free_set b)
         else Bma_Free b aPos = Inl (Panic TBMA)"
proof (cases "0 \<le> aPos \<and> aPos < iSize b")
  case False
  then have "Bma_Free b aPos = Inl (Panic TBMA)"
    by (simp add: Bma_Free_def to_TUint_lt_size [OF inv t])
  then show ?thesis using False by auto
next
  case True
  obtain p where p: "aPos = int p" using True by (metis nat_0_le)
  have lt: "p < nat (iSize b)" using True p by simp
  have g: "to_TUint aPos < to_TUint (iSize b)" using True to_TUint_lt_size [OF inv t] by simp
  have len: "p div 32 < length (iMap b)" using lt inv by (auto simp: bma_inv_def)
  have free: "p \<in> free_set b \<longleftrightarrow> pbit (iMap b) p" using lt by (simp add: free_set_def)
  have ix: "nat (int p div 32) = p div 32" "nat (int p mod 32) = p mod 32"
    by (simp_all add: nat_div_distrib nat_mod_distrib)
  let ?m = "(iMap b)[p div 32 := iMap b ! (p div 32) OR drop_bit (p mod 32) 0x80000000]"
  let ?b' = "b\<lparr>iMap := ?m, iAvail := iAvail b + 1,
               iCheckFirst := (if p div 32 < iCheckFirst b then p div 32 else iCheckFirst b)\<rparr>"
  have "\<not> pbit (iMap b) p \<Longrightarrow> bma_inv ?b' \<and> free_set ?b' = insert p (free_set b)"
    using bma_inv_single [OF inv lt, of ?m True ?b'] pbit_set [OF len] by simp
  moreover have "Bma_Free b aPos = assert_always TBMA (\<not> pbit (iMap b) p) (Inr ?b')"
    using g len p ix free_test [of "iMap b" p] by (simp add: Bma_Free_def Let_def)
  ultimately show ?thesis using True p free by auto
qed

section \<open>AllocList\<close>

lemma al_list_spec:
  assumes "bma_inv b" "c \<le> card (free_set b)"
  shows "\<exists>b'. al_list c b = Inr (map int (take c (sorted_list_of_set (free_set b))), b') \<and> bma_inv b' \<and>
           free_set b' = free_set b - set (take c (sorted_list_of_set (free_set b)))"
  using assms
proof (induction c arbitrary: b)
  case 0
  then show ?case by simp
next
  case (Suc c)
  let ?F = "free_set b"
  have ne: "?F \<noteq> {}" using Suc.prems(2) by auto
  then obtain b1 where b1: "Bma_Alloc b = Inr (int (Min ?F), b1)" "bma_inv b1"
    "free_set b1 = ?F - {Min ?F}"
    using Alloc_spec [OF Suc.prems(1)] by auto
  have "c \<le> card (free_set b1)" using Suc.prems(2) ne b1(3) by simp
  from Suc.IH [OF b1(2) this] b1(3) obtain b2 where b2:
    "al_list c b1 = Inr (map int (take c (sorted_list_of_set (?F - {Min ?F}))), b2)" "bma_inv b2"
    "free_set b2 = ?F - {Min ?F} - set (take c (sorted_list_of_set (?F - {Min ?F})))"
    by auto
  have "sorted_list_of_set ?F = Min ?F # sorted_list_of_set (?F - {Min ?F})"
    by (rule sorted_list_of_set_nonempty [OF finite_free_set ne])
  then show ?case using b1 b2 by (simp add: Diff_insert2 [of ?F "Min ?F", symmetric])
qed

lemma AllocList_spec:
  assumes inv: "bma_inv b"
  shows "if aLength \<le> 0 then Bma_AllocList b aLength = Inl (Panic TBMA)
         else let c = min (nat aLength) (card (free_set b));
                  ps = take c (sorted_list_of_set (free_set b))
              in \<exists>b'. Bma_AllocList b aLength = Inr (int c, map int ps, b') \<and> bma_inv b' \<and>
                   free_set b' = free_set b - set ps"
proof (cases "aLength \<le> 0")
  case True
  then show ?thesis by (simp add: Bma_AllocList_def)
next
  case False
  let ?c = "min (nat aLength) (card (free_set b))"
  have avail: "iAvail b = int (card (free_set b))" using inv by (simp add: bma_inv_def)
  have c: "(if aLength > iAvail b then iAvail b else aLength) = int ?c"
    unfolding avail using False by (auto simp: min_def)
  show ?thesis
    using al_list_spec [OF inv, of ?c] False by (auto simp: Bma_AllocList_def Let_def c)
qed

section \<open>Construction\<close>

declare fill_free.simps [simp del]

lemma length_fill_free: "0 \<le> n \<Longrightarrow> length (fill_free n) = nat ((n + 31) div 32)"
proof (induction n rule: fill_free.induct)
  case (1 n)
  show ?case
  proof (cases "n \<ge> 32")
    case True
    have "(n - 32 + 31) div 32 = (n + 31) div 32 - 1"
      using div_add_self2 [of 32 "n - 32 + 31"] by simp
    moreover have "0 < (n + 31) div 32" using True by (simp add: pos_imp_zdiv_pos_iff)
    ultimately show ?thesis
      using "1.IH" [OF True] True by (subst fill_free.simps) (simp add: nat_diff_distrib Suc_nat_eq_nat_zadd1)
  next
    case False
    then show ?thesis using "1.prems" by (subst fill_free.simps) auto
  qed
qed

lemma pbit_fill_free:
  "0 \<le> n \<Longrightarrow> p < 32 * length (fill_free n) \<Longrightarrow> pbit (fill_free n) p \<longleftrightarrow> int p < n"
proof (induction n arbitrary: p rule: fill_free.induct)
  case (1 n)
  show ?case
  proof (cases "n \<ge> 32")
    case True
    have eq: "fill_free n = all_ones # fill_free (n - 32)" using True by (subst fill_free.simps) simp
    show ?thesis
    proof (cases "p < 32")
      case True
      then show ?thesis using eq \<open>n \<ge> 32\<close> bit_all_ones [of "31 - p"] by (simp add: pbit_def)
    next
      case False
      then have "pbit (fill_free n) p \<longleftrightarrow> pbit (fill_free (n - 32)) (p - 32)"
        using le_div_geq [of 32 p] le_mod_geq [of 32 p] by (simp add: eq pbit_def)
      also have "\<dots> \<longleftrightarrow> int (p - 32) < n - 32"
        by (rule "1.IH" [OF \<open>n \<ge> 32\<close>]) (use "1.prems" eq \<open>n \<ge> 32\<close> False in auto)
      finally show ?thesis using False by (simp add: of_nat_diff)
    qed
  next
    case False
    show ?thesis
    proof (cases "n = 0")
      case True
      then show ?thesis using "1.prems" by (simp add: fill_free.simps)
    next
      case nz: False
      then have eq: "fill_free n = [push_bit (nat (32 - n)) all_ones]"
        using False by (subst fill_free.simps) simp
      then have p: "p < 32" using "1.prems" by simp
      have "bit (push_bit (nat (32 - n)) all_ones) (31 - p) \<longleftrightarrow> nat (32 - n) \<le> 31 - p"
        unfolding bit_push_bit_iff using bit_all_ones [of "31 - p - nat (32 - n)"] by auto
      then show ?thesis using eq p False by (simp add: pbit_def) linarith
    qed
  qed
qed

lemma ctor_spec:
  assumes "aSize \<le> KMaxTInt - 31"
  shows "if aSize \<le> 0 then Bma_ctor aSize aState = Inl (Panic TBMA)
         else \<exists>b. Bma_ctor aSize aState = Inr b \<and> bma_inv b \<and> iSize b = aSize \<and>
                free_set b = (if aState then {..< nat aSize} else {})"
proof (cases "aSize \<le> 0")
  case True
  then show ?thesis by (simp add: Bma_ctor_def)
next
  case False
  have n: "nmapw aSize = (aSize + 31) div 32" using assms False by (simp add: nmapw_def is_TInt_def)
  have pos: "0 < (aSize + 31) div 32" using False by (simp add: pos_imp_zdiv_pos_iff)
  have sz: "nat aSize \<le> 32 * nat ((aSize + 31) div 32)" using False by linarith
  show ?thesis
  proof (cases aState)
    case True
    let ?b = "\<lparr>iAvail = aSize, iCheckFirst = 0, iSize = aSize, iMap = fill_free aSize\<rparr>"
    have fs: "free_set ?b = {..< nat aSize}"
      using pbit_fill_free [of aSize] length_fill_free [of aSize] False sz
      by (auto simp: free_set_def zless_nat_eq_int_zless)
    have "bma_inv ?b"
      using fs assms False pos length_fill_free [of aSize] pbit_fill_free [of aSize]
      by (auto simp: bma_inv_def)
    then show ?thesis using fs False True by (simp add: Bma_ctor_def)
  next
    case False
    let ?b = "\<lparr>iAvail = 0, iCheckFirst = nat (nmapw aSize - 1), iSize = aSize,
               iMap = replicate (nat (nmapw aSize)) 0\<rparr>"
    have z: "\<not> pbit (iMap ?b) p" if "p < 32 * nat (nmapw aSize)" for p
      using that by (simp add: pbit_def less_mult_imp_div_less mult.commute)
    have fs: "free_set ?b = {}"
      using z sz \<open>\<not> aSize \<le> 0\<close> by (auto simp: free_set_def n)
    have "bma_inv ?b"
      using fs assms \<open>\<not> aSize \<le> 0\<close> pos z by (auto simp: bma_inv_def n)
    then show ?thesis using fs False \<open>\<not> aSize \<le> 0\<close> by (simp add: Bma_ctor_def)
  qed
qed

end
