(* ===== verification/Bma_Pool.thy ===== *)
theory Bma_Pool
  imports Pool Bma_Single
begin

text \<open>
  The bitmap allocator as a provider of the position pool interface, once through \<open>Alloc\<close> and
  once through \<open>AllocFrom\<close>.
\<close>

definition bma_take :: "TBitMapAllocator \<Rightarrow> fault + (nat \<times> TBitMapAllocator) option" where
  "bma_take b = ebind (Bma_Alloc b) (\<lambda>(p, b'). Inr (if p < 0 then None else Some (nat p, b')))"

text \<open>\<open>AllocFrom\<close> from a fixed offset; a search that does not return counts as a fault.\<close>

definition bma_take_from :: "nat \<Rightarrow> TBitMapAllocator \<Rightarrow> fault + (nat \<times> TBitMapAllocator) option" where
  "bma_take_from off b =
     (case Bma_AllocFrom b (int off) of
        None \<Rightarrow> Inl (Panic ''loop'')
      | Some r \<Rightarrow> ebind r (\<lambda>(p, b'). Inr (if p < 0 then None else Some (nat p, b'))))"

definition bma_give :: "TBitMapAllocator \<Rightarrow> nat \<Rightarrow> fault + TBitMapAllocator" where
  "bma_give b i = Bma_Free b (int i)"

definition bma_span :: "TBitMapAllocator \<Rightarrow> nat set" where
  "bma_span b = {..< nat (iSize b)}"

lemma Alloc_size: "Bma_Alloc b = Inr (p, b') \<Longrightarrow> iSize b' = iSize b"
  by (auto simp: Bma_Alloc_def Let_def split: if_splits)

lemma AllocFrom_size: "Bma_AllocFrom b off = Some (Inr (p, b')) \<Longrightarrow> iSize b' = iSize b"
  by (auto simp: Bma_AllocFrom_def Let_def ebind_Inr_iff split: if_splits)

lemma Free_size: "Bma_Free b p = Inr b' \<Longrightarrow> iSize b' = iSize b"
  by (auto simp: Bma_Free_def Let_def ebind_Inr_iff assert_always_Inr)

lemma bma_give_ok:
  assumes "bma_inv b" "i \<in> bma_span b" "i \<notin> free_set b"
  shows "\<exists>b'. bma_give b i = Inr b' \<and> bma_inv b' \<and> free_set b' = insert i (free_set b) \<and> bma_span b' = bma_span b"
proof -
  have i: "int i < iSize b" "is_TInt (int i)"
    using assms(1,2) by (auto simp: bma_span_def is_TInt_def bma_inv_def)
  then obtain b' where "Bma_Free b (int i) = Inr b'" "bma_inv b'" "free_set b' = insert i (free_set b)"
    using Free_spec [OF assms(1) i(2)] assms(3) by auto
  then show ?thesis using Free_size by (auto simp: bma_give_def bma_span_def)
qed

interpretation bma: position_pool bma_inv free_set bma_span bma_take bma_give
proof (unfold_locales, goal_cases)
  case (1 s)
  then show ?case using Alloc_spec [of s] by (simp add: bma_take_def)
next
  case (2 s)
  then obtain b' where "Bma_Alloc s = Inr (int (Min (free_set s)), b')" "bma_inv b'"
    "free_set b' = free_set s - {Min (free_set s)}"
    using Alloc_spec [of s] by auto
  then show ?case using 2 Alloc_size by (auto simp: bma_take_def bma_span_def)
next
  case (3 s i)
  then show ?case by (rule bma_give_ok)
qed

interpretation bma_from: position_pool
  "\<lambda>b. bma_inv b \<and> int off < iSize b" free_set bma_span "bma_take_from off" bma_give for off
proof (unfold_locales, goal_cases)
  case (1 s)
  then show ?case using AllocFrom_spec [of s "int off"] by (simp add: bma_take_from_def)
next
  case (2 s)
  then obtain b' where "Bma_AllocFrom s (int off) = Some (Inr (int (next_free (free_set s) off), b'))"
    "bma_inv b'" "free_set b' = free_set s - {next_free (free_set s) off}"
    "next_free (free_set s) off \<in> free_set s"
    using AllocFrom_spec [of s "int off"] by auto
  then show ?case using 2 AllocFrom_size by (auto simp: bma_take_from_def bma_span_def)
next
  case (3 s i)
  then show ?case using bma_give_ok [of s i] Free_size by (fastforce simp: bma_give_def)
qed

end
