(* ===== verification/Bma_Runs.thy ===== *)
theory Bma_Runs
  imports Bma
begin

text \<open>
  The searches of the bitmap allocator for runs of consecutive free positions
  (\<open>AllocAligned\<close> in its two forms, \<open>AllocConsecutive\<close>) and \<open>CopyAlignedRange\<close>. The
  searches do not change the allocator: they return a position, and the form with \<open>aCarry\<close> and
  \<open>aRunLength\<close> also returns these two.
\<close>

section \<open>Aligning a position\<close>

text \<open>
  \<open>((q + aBase + alignmask) & ~alignmask) - aBase\<close>, computed in 32-bit arithmetic: unsigned for
  \<open>aOffset\<close>, read back as a \<open>TInt\<close> elsewhere.
\<close>

definition alignmask :: "int \<Rightarrow> TUint32" where
  "alignmask aAlign = push_bit (nat aAlign) 1 - 1"

definition align_word :: "int \<Rightarrow> int \<Rightarrow> int \<Rightarrow> TUint32" where
  "align_word q aBase aAlign =
     ((word_of_int q + word_of_int aBase + alignmask aAlign) AND NOT (alignmask aAlign)) - word_of_int aBase"

definition alignedPos :: "int \<Rightarrow> int \<Rightarrow> int \<Rightarrow> int" where
  "alignedPos q aBase aAlign = sint (align_word q aBase aAlign)"

definition mask_base :: "int \<Rightarrow> int \<Rightarrow> int" where
  "mask_base aBase aAlign = sint (word_of_int aBase AND alignmask aAlign)"

section \<open>The search loop\<close>

text \<open>
  The arguments that stay fixed, the loop's variables (\<open>aa_s\<close> is the search word \<open>s\<close>: false for
  0, true for 0xFFFFFFFF) and the ways the loop goes on: to the next word, or a \<open>return\<close> with
  the result, \<open>aCarry\<close> and \<open>aRunLength\<close>.
\<close>

record aa_args =
  aa_length :: int
  aa_align :: int
  aa_base :: int
  aa_best :: bool
  aa_carry :: int
  aa_size :: int

record aa_state =
  aa_n :: int
  aa_p :: int
  aa_q :: int
  aa_s :: bool
  aa_minrl :: int

datatype aa_out = AA_go aa_state | AA_ret int int int

definition aa_sword :: "bool \<Rightarrow> TUint32" where
  "aa_sword s = (if s then all_ones else 0)"

text \<open>The \<open>for\<close> loop over the bits of a word, most significant first.\<close>

fun aa_bits :: "aa_args \<Rightarrow> nat \<Rightarrow> TUint32 \<Rightarrow> aa_state \<Rightarrow> aa_out" where
  "aa_bits A 0 word st = AA_go st"
| "aa_bits A (Suc i) word st =
     (if bit (word XOR aa_sword (aa_s st)) i
      then if aa_s st \<and> aa_n st = aa_size A then AA_go st
           else if \<not> aa_s st
           then aa_bits A i word (st\<lparr>aa_s := True, aa_q := aa_n st, aa_n := aa_n st + 1\<rparr>)
           else let rl = aa_n st - aa_q st;
                    alignedStartPos = alignedPos (aa_q st) (aa_base A) (aa_align A);
                    lost = alignedStartPos - aa_q st;
                    st' = st\<lparr>aa_s := False, aa_n := aa_n st + 1\<rparr>
                in if rl - lost \<ge> aa_length A
                   then if \<not> aa_best A \<or> rl = aa_length A
                        then AA_ret (if alignedStartPos \<ge> 0 then alignedStartPos else 0)
                               (if alignedStartPos \<ge> 0 then 0 else aa_carry A) rl
                        else if rl < aa_minrl st
                        then aa_bits A i word
                               (st'\<lparr>aa_minrl := rl,
                                    aa_p := (if alignedStartPos \<ge> 0 then alignedStartPos else 0)\<rparr>)
                        else aa_bits A i word st'
                   else aa_bits A i word st'
      else aa_bits A i word (st\<lparr>aa_n := aa_n st + 1\<rparr>))"

text \<open>
  The \<open>while\<close> loop over the words from \<open>pW\<close> to \<open>pE\<close>; \<open>offsetMask\<close> is not zero only for the
  first word.
\<close>

fun aa_words :: "aa_args \<Rightarrow> TUint32 list \<Rightarrow> TUint32 \<Rightarrow> aa_state \<Rightarrow> aa_out" where
  "aa_words A [] offsetMask st = AA_go st"
| "aa_words A (w # ws) offsetMask st =
     (let word = (if offsetMask \<noteq> 0 then w AND offsetMask else w)
      in if word = aa_sword (aa_s st)
         then aa_words A ws 0 (st\<lparr>aa_n := aa_n st + 32\<rparr>)
         else case aa_bits A 32 word st of
                AA_go st' \<Rightarrow> aa_words A ws 0 st'
              | AA_ret r c l \<Rightarrow> AA_ret r c l)"

section \<open>AllocAligned with carry and offset\<close>

text \<open>The case of an allocator with every position free.\<close>

definition aa_all_free ::
    "TBitMapAllocator \<Rightarrow> int \<Rightarrow> int \<Rightarrow> int \<Rightarrow> bool \<Rightarrow> int \<Rightarrow> int \<Rightarrow> int \<times> int \<times> int" where
  "aa_all_free b aLength aAlign aBase aBestFit aCarry aOffset0 =
     (let aOffset = (if aOffset0 = 0 then 0 else uint (align_word aOffset0 aBase aAlign));
          runLength = (if aOffset < to_TUint (iSize b) then iSize b - aOffset else 0);
          alignedStartPos = alignedPos (aOffset - aCarry) aBase aAlign;
          lost = to_TInt (alignedStartPos - (aOffset - aCarry))
      in if \<not> aBestFit \<and> runLength + aCarry - lost \<ge> aLength
         then (if alignedStartPos \<ge> 0 then alignedStartPos else 0,
               if alignedStartPos \<ge> 0 then 0 else aCarry, runLength)
         else (KErrOverflow, if aOffset \<noteq> 0 then runLength else aCarry + iAvail b, KMaxTInt))"

definition aa_finish :: "aa_args \<Rightarrow> aa_out \<Rightarrow> int \<times> int \<times> int" where
  "aa_finish A out =
     (case out of
        AA_ret r c l \<Rightarrow> (r, c, l)
      | AA_go st \<Rightarrow>
          if aa_minrl st \<noteq> aa_length A
          then let rl = (if aa_s st then aa_n st - aa_q st else 0);
                   alignedStartPos = alignedPos (aa_q st) (aa_base A) (aa_align A);
                   lost = alignedStartPos - aa_q st
               in if aa_s st \<and> \<not> aa_best A \<and> rl - lost \<ge> aa_length A
                  then (alignedStartPos, 0, rl)
                  else (aa_p st, rl, aa_minrl st)
          else (aa_p st, aa_carry A, aa_minrl st))"

definition Bma_AllocAligned_offset ::
    "TBitMapAllocator \<Rightarrow> int \<Rightarrow> int \<Rightarrow> int \<Rightarrow> bool \<Rightarrow> int \<Rightarrow> int \<Rightarrow> fault + int \<times> int \<times> int" where
  "Bma_AllocAligned_offset b aLength aAlign aBase0 aBestFit aCarry aOffset0 =
     assert_always TBMA (aLength > 0)
     (assert_always TBMA (to_TUint aAlign < 31)
     (assert_always TBMA (aOffset0 < to_TUint (iSize b))
     (assert_always TBMA (aCarry = 0 \<or> aOffset0 = 0)
      (let aBase = mask_base aBase0 aAlign
       in if iAvail b = iSize b
          then Inr (aa_all_free b aLength aAlign aBase aBestFit aCarry aOffset0)
          else
            let pW0 = (if aCarry \<noteq> 0 then 0 else iCheckFirst b);
                aOffset = (if aOffset0 = 0 then 0 else uint (align_word aOffset0 aBase aAlign));
                offsetWord = nat (aOffset div 32);
                useOffset = (aOffset0 \<noteq> 0 \<and> offsetWord \<ge> pW0);
                pW = (if useOffset then offsetWord else pW0);
                n = (if useOffset then aOffset - aOffset mod 32 else int pW0 * 32);
                offsetMask = (if useOffset then drop_bit (nat (aOffset mod 32)) all_ones else 0);
                A = \<lparr>aa_length = aLength, aa_align = aAlign, aa_base = aBase, aa_best = aBestFit,
                     aa_carry = aCarry, aa_size = iSize b\<rparr>;
                st = \<lparr>aa_n = n, aa_p = -1, aa_q = - aCarry, aa_s = (aCarry \<noteq> 0), aa_minrl = KMaxTInt\<rparr>
            in Inr (aa_finish A (aa_words A (drop pW (iMap b)) offsetMask st))))))"

definition Bma_AllocAligned_carry ::
    "TBitMapAllocator \<Rightarrow> int \<Rightarrow> int \<Rightarrow> int \<Rightarrow> bool \<Rightarrow> int \<Rightarrow> fault + int \<times> int \<times> int" where
  "Bma_AllocAligned_carry b aLength aAlign aBase aBestFit aCarry =
     Bma_AllocAligned_offset b aLength aAlign aBase aBestFit aCarry 0"

section \<open>AllocConsecutive and AllocAligned\<close>

definition Bma_AllocConsecutive :: "TBitMapAllocator \<Rightarrow> int \<Rightarrow> bool \<Rightarrow> fault + int" where
  "Bma_AllocConsecutive b aLength aBestFit =
     ebind (Bma_AllocAligned_carry b aLength 0 0 aBestFit 0) (\<lambda>(r, carry, l).
       let r' = (if aBestFit \<and> carry \<ge> aLength \<and> carry < l then iSize b - carry else r)
       in Inr (if r' < 0 then KErrNotFound else r'))"

definition Bma_AllocAligned :: "TBitMapAllocator \<Rightarrow> int \<Rightarrow> int \<Rightarrow> int \<Rightarrow> bool \<Rightarrow> fault + int" where
  "Bma_AllocAligned b aLength aAlign aBase0 aBestFit =
     (let aBase = mask_base aBase0 aAlign
      in ebind (Bma_AllocAligned_carry b aLength aAlign aBase aBestFit 0) (\<lambda>(r, carry, l).
           let fpos = iSize b - carry;
               lost = alignedPos fpos aBase aAlign - fpos;
               r' = (if aBestFit \<and> carry - lost \<ge> aLength \<and> carry < l then fpos + lost else r)
           in Inr (if r' < 0 then KErrNotFound else alignedPos r' aBase aAlign)))"

section \<open>CopyAlignedRange\<close>

text \<open>
  \<open>len\<close> is in bytes, as in the source, and so is compared with \<open>iSize\<close>, which counts bits.
  The copy (\<open>wordmove\<close>) and the clear (\<open>memclr\<close>) fail with \<open>BadMemory\<close> when they run past either map.
\<close>

fun car_scan :: "nat \<Rightarrow> TUint32 list \<Rightarrow> nat \<Rightarrow> int \<Rightarrow> nat \<times> int" where
  "car_scan p [] cf avail = (cf, avail)"
| "car_scan p (x # xs) cf avail =
     (if x \<noteq> 0
      then car_scan (Suc p) xs (if p < cf then p else cf) (avail + int (bit_count_32 x))
      else car_scan (Suc p) xs cf avail)"

definition Bma_CopyAlignedRange ::
    "TBitMapAllocator \<Rightarrow> TBitMapAllocator \<Rightarrow> int \<Rightarrow> int \<Rightarrow> fault + TBitMapAllocator" where
  "Bma_CopyAlignedRange b aA aFirst aLen =
     (let src = nat (aFirst div 32);
          last = aFirst + aLen - 1;
          len = (((last + 32) div 32) * 32 - (aFirst div 32) * 32) div 8;
          n = nat (len div 4)
      in assert_always TBMA (len \<le> iSize b)
         (let remain = ((iSize b + 31) div 32) * 32 - len * 8;
              z = nat (remain div 8 div 4)
          in if aFirst < 0 \<or> len \<le> 0 \<or> src + n > length (iMap aA) \<or> n + z > length (iMap b) \<or> remain < 0
             then Inl BadMemory
             else
               let m0 = take n (drop src (iMap aA)) @ replicate z 0 @ drop (n + z) (iMap b);
                   m1 = m0[0 := (m0 ! 0) AND drop_bit (nat (aFirst mod 32)) all_ones];
                   m2 = m1[n - 1 := (m1 ! (n - 1)) AND push_bit (nat (31 - last mod 32)) all_ones];
                   (cf, avail) = car_scan 0 (take n m2) (n - 1) 0
               in Inr (b\<lparr>iMap := m2, iCheckFirst := cf, iAvail := avail\<rparr>)))"

end
