(* ===== verification/Bma_Fit.thy ===== *)
theory Bma_Fit
  imports Bma_Runs Bma_Single
begin

text \<open>
  Correctness of the bitmap allocator's first-fit searches: \<open>AllocAligned\<close> and
  \<open>AllocConsecutive\<close> return the least aligned start of a free run of the requested length,
  and \<open>KErrNotFound\<close> only when there is none.
\<close>

section \<open>Alignment arithmetic\<close>

definition align_up :: "int \<Rightarrow> int \<Rightarrow> nat \<Rightarrow> int" where
  "align_up q base al = ((q + base + 2 ^ al - 1) div 2 ^ al) * 2 ^ al - base"

lemma and_not_mask: "(w :: TUint32) AND NOT (mask n) = push_bit n (drop_bit n w)"
  by (rule bit_eqI)
    (auto simp: bit_and_iff bit_not_iff bit_mask_iff bit_push_bit_iff bit_drop_bit_eq)

lemma alignmask_mask: "alignmask (int al) = mask al"
  by (simp add: alignmask_def mask_eq_exp_minus_1)

lemma uint_clear_low: "uint ((w :: TUint32) AND NOT (mask n)) = (uint w div 2 ^ n) * 2 ^ n"
proof -
  have le: "(uint w div 2 ^ n) * 2 ^ n \<le> uint w"
    by (metis add.commute le_add_same_cancel2 minus_mod_eq_div_mult mult.commute pos_mod_sign
        diff_ge_0_iff_ge minus_div_mult_eq_mod zero_less_numeral zero_less_power)
  have tb: "take_bit 32 (uint w) = uint w"
    by (rule take_bit_int_eq_self) (use uint_lt2p [of w] in auto)
  have "uint (push_bit n (drop_bit n w)) = take_bit 32 (push_bit n (drop_bit n (uint w)))"
    by (simp add: unsigned_push_bit_eq unsigned_drop_bit_eq tb)
  also have "\<dots> = (uint w div 2 ^ n) * 2 ^ n"
    using le pos_imp_zdiv_nonneg_iff [of "2 ^ n" "uint w"] uint_lt2p [of w] uint_ge_0 [of w]
    by (simp add: push_bit_eq_mult drop_bit_eq_div take_bit_int_eq_self_iff)
  finally show ?thesis by (simp add: and_not_mask)
qed

lemma uint_woi: "0 \<le> x \<Longrightarrow> x < 2 ^ 32 \<Longrightarrow> uint (word_of_int x :: TUint32) = x"
  by (simp add: uint_word_of_int)

lemma align_word_eq:
  assumes "0 \<le> q + base" "q + base + 2 ^ al \<le> 2 ^ 32" "al < 32"
  shows "align_word q base (int al) = word_of_int (align_up q base al)"
proof -
  let ?x = "q + base + 2 ^ al - 1"
  have pos: "(1 :: int) \<le> 2 ^ al" by simp
  have x: "0 \<le> ?x" "?x < 2 ^ 32" using assms pos by linarith+
  have "mask al = (word_of_int (2 ^ al - 1) :: TUint32)"
    by (simp add: mask_eq_exp_minus_1 of_int_mask_eq)
  then have sum: "word_of_int q + word_of_int base + mask al = (word_of_int ?x :: TUint32)"
    by simp
  have ux: "uint (word_of_int ?x :: TUint32) = ?x"
    using x by (rule uint_woi)
  have "uint ((word_of_int ?x :: TUint32) AND NOT (mask al)) = (?x div 2 ^ al) * 2 ^ al"
    by (simp only: uint_clear_low ux)
  then have "((word_of_int ?x :: TUint32) AND NOT (mask al)) = word_of_int ((?x div 2 ^ al) * 2 ^ al)"
    by (metis word_of_int_uint)
  then show ?thesis
    by (simp add: align_word_def alignmask_mask sum align_up_def)
qed

lemma align_up_bounds: "q \<le> align_up q base al" "align_up q base al < q + 2 ^ al"
proof -
  let ?A = "2 ^ al :: int"
  have "?A * ((q + base + ?A - 1) div ?A) + (q + base + ?A - 1) mod ?A = q + base + ?A - 1"
    by (rule mult_div_mod_eq)
  moreover have "0 \<le> (q + base + ?A - 1) mod ?A" "(q + base + ?A - 1) mod ?A < ?A" by simp_all
  ultimately show "q \<le> align_up q base al" "align_up q base al < q + ?A"
    unfolding align_up_def mult.commute [of _ "?A"] by linarith+
qed

lemma align_up_dvd: "2 ^ al dvd align_up q base al + base"
  by (simp add: align_up_def)

lemma align_up_least:
  assumes "q \<le> r" "2 ^ al dvd r + base"
  shows "align_up q base al \<le> r"
proof (rule ccontr)
  assume "\<not> align_up q base al \<le> r"
  then have lt: "r + base < align_up q base al + base" by simp
  have "2 ^ al dvd (align_up q base al + base) - (r + base)"
    using align_up_dvd assms(2) by (rule dvd_diff)
  then have "2 ^ al \<le> (align_up q base al + base) - (r + base)"
    using lt by (intro zdvd_imp_le) auto
  then show False using align_up_bounds(2) [of q base al] assms(1) by linarith
qed

lemma alignedPos_eq:
  assumes "0 \<le> q" "0 \<le> base" "q + base + 2 ^ al < 2 ^ 31" "al < 31"
  shows "alignedPos q base (int al) = align_up q base al"
proof -
  have "align_word q base (int al) = word_of_int (align_up q base al)"
    using assms by (intro align_word_eq) auto
  moreover have "sint (word_of_int x :: TUint32) = x" if "0 \<le> x" "x < 2 ^ 31" for x
    using that by (simp add: sint_sbintrunc' signed_take_bit_int_eq_self_iff)
  ultimately show ?thesis
    using align_up_bounds [of q base al] assms by (simp add: alignedPos_def)
qed

lemma mask_base_bounds:
  assumes "al < 31"
  shows "0 \<le> mask_base aBase (int al)" "mask_base aBase (int al) < 2 ^ al"
proof -
  let ?w = "word_of_int aBase AND alignmask (int al) :: TUint32"
  have "?w = take_bit al (word_of_int aBase)"
    by (simp add: alignmask_mask take_bit_eq_mask)
  then have u: "uint ?w = take_bit al (uint (word_of_int aBase :: TUint32))"
    by (simp only: unsigned_take_bit_eq)
  have "uint ?w < 2 ^ al" unfolding u by simp
  moreover have "(2 :: int) ^ al \<le> 2 ^ 30" using assms by (intro power_increasing) auto
  ultimately have "uint ?w < 2 ^ 31" by simp
  moreover have "- (2 ^ 31) \<le> uint ?w" by (rule order_trans [OF _ uint_ge_0]) simp
  ultimately have "sint ?w = uint ?w"
    by (simp add: sint_uint signed_take_bit_int_eq_self_iff)
  then show "0 \<le> mask_base aBase (int al)" "mask_base aBase (int al) < 2 ^ al"
    using \<open>uint ?w < 2 ^ al\<close> by (simp_all add: mask_base_def)
qed

section \<open>Fitting positions and the loop invariant\<close>

text \<open>
  \<open>fits f base al len r\<close>: position \<open>r\<close> is aligned and starts \<open>len\<close> positions that are free.
\<close>

definition fits :: "(int \<Rightarrow> bool) \<Rightarrow> int \<Rightarrow> nat \<Rightarrow> int \<Rightarrow> int \<Rightarrow> bool" where
  "fits f base al len r \<longleftrightarrow>
     0 \<le> r \<and> 2 ^ al dvd r + base \<and> (\<forall>p. r \<le> p \<and> p < r + len \<longrightarrow> f p)"

definition least_fit :: "(int \<Rightarrow> bool) \<Rightarrow> int \<Rightarrow> nat \<Rightarrow> int \<Rightarrow> int \<Rightarrow> bool" where
  "least_fit f base al len r \<longleftrightarrow>
     fits f base al len r \<and> (\<forall>r'. fits f base al len r' \<longrightarrow> r \<le> r')"

definition ff_args :: "aa_args \<Rightarrow> nat \<Rightarrow> bool" where
  "ff_args A al \<longleftrightarrow>
     \<not> aa_best A \<and> aa_align A = int al \<and> al < 31 \<and> 0 \<le> aa_base A \<and> 0 < aa_length A \<and>
     aa_size A + aa_base A + 2 ^ al < 2 ^ 31"

definition ff_inv :: "aa_args \<Rightarrow> nat \<Rightarrow> (int \<Rightarrow> bool) \<Rightarrow> aa_state \<Rightarrow> int \<Rightarrow> bool" where
  "ff_inv A al f st n \<longleftrightarrow>
     aa_n st = n \<and> aa_minrl st = KMaxTInt \<and> aa_p st = -1 \<and>
     (if aa_s st
      then 0 \<le> aa_q st \<and> aa_q st < n \<and> (\<forall>p. aa_q st \<le> p \<and> p < n \<longrightarrow> f p) \<and>
           (\<forall>r. r < aa_q st \<longrightarrow> \<not> fits f (aa_base A) al (aa_length A) r)
      else (\<forall>r. r < n \<longrightarrow> \<not> fits f (aa_base A) al (aa_length A) r))"

lemma not_fits_at: "\<not> f r \<Longrightarrow> 0 < len \<Longrightarrow> \<not> fits f base al len r"
  by (auto simp: fits_def)

text \<open>A maximal run from \<open>q\<close> to \<open>n\<close>: it holds a fit exactly when the aligned start fits.\<close>

lemma run_fit:
  assumes run: "0 \<le> q" "\<forall>p. q \<le> p \<and> p < n \<longrightarrow> f p" "\<not> f n"
    and before: "\<forall>r. r < q \<longrightarrow> \<not> fits f base al len r"
    and len: "0 < len"
  shows "len \<le> n - q - (align_up q base al - q) \<Longrightarrow> least_fit f base al len (align_up q base al)"
    "\<not> len \<le> n - q - (align_up q base al - q) \<Longrightarrow> \<forall>r. r < n + 1 \<longrightarrow> \<not> fits f base al len r"
proof -
  let ?a = "align_up q base al"
  have a: "q \<le> ?a" "2 ^ al dvd ?a + base" using align_up_bounds align_up_dvd by auto
  have least: "?a \<le> r" if "fits f base al len r" for r
  proof -
    have "q \<le> r" using before that by (meson not_le)
    then show ?thesis using that by (intro align_up_least) (auto simp: fits_def)
  qed
  show "least_fit f base al len ?a" if "len \<le> n - q - (?a - q)"
    using that a run least by (auto simp: least_fit_def fits_def)
  show "\<forall>r. r < n + 1 \<longrightarrow> \<not> fits f base al len r" if no: "\<not> len \<le> n - q - (?a - q)"
  proof (intro allI impI notI)
    fix r assume r: "r < n + 1" and fit: "fits f base al len r"
    have "n < r + len" using no least [OF fit] by linarith
    then have "f n" using fit r by (auto simp: fits_def)
    then show False using run(3) by simp
  qed
qed

definition ff_result :: "aa_args \<Rightarrow> nat \<Rightarrow> (int \<Rightarrow> bool) \<Rightarrow> int \<Rightarrow> aa_out \<Rightarrow> bool" where
  "ff_result A al f n out \<longleftrightarrow>
     (case out of
        AA_ret r c l \<Rightarrow> c = 0 \<and> least_fit f (aa_base A) al (aa_length A) r
      | AA_go st' \<Rightarrow> ff_inv A al f st' n \<or> (n > aa_size A \<and> ff_inv A al f st' (aa_size A)))"

lemma ff_inv_skip:
  assumes I: "ff_inv A al f st n" and sf: "aa_s st = f n" and len: "0 < aa_length A"
  shows "ff_inv A al f (st\<lparr>aa_n := n + 1\<rparr>) (n + 1)"
proof (cases "aa_s st")
  case True
  then have "f p" if "aa_q st \<le> p" "p < n + 1" for p
    using I sf that by (cases "p = n") (simp_all add: ff_inv_def)
  then show ?thesis using I True by (simp add: ff_inv_def)
next
  case False
  then have "\<not> fits f (aa_base A) al (aa_length A) r" if "r < n + 1" for r
    using I sf that not_fits_at [OF _ len, of f n] by (cases "r = n") (simp_all add: ff_inv_def)
  then show ?thesis using I False by (simp add: ff_inv_def)
qed

lemma ff_inv_begin:
  assumes "ff_inv A al f st n" "\<not> aa_s st" "f n" "0 \<le> n"
  shows "ff_inv A al f (st\<lparr>aa_s := True, aa_q := n, aa_n := n + 1\<rparr>) (n + 1)"
proof -
  have "p = n" if "n \<le> p" "p < n + 1" for p :: int using that by linarith
  then show ?thesis using assms by (auto simp: ff_inv_def)
qed

lemma ff_inv_end:
  assumes "ff_inv A al f st n" "\<forall>r. r < n + 1 \<longrightarrow> \<not> fits f (aa_base A) al (aa_length A) r"
  shows "ff_inv A al f (st\<lparr>aa_s := False, aa_n := n + 1\<rparr>) (n + 1)"
  using assms by (simp add: ff_inv_def)

lemma ff_run:
  assumes "ff_inv A al f st n" "aa_s st" "\<not> f n" "ff_args A al" "n \<le> aa_size A"
  shows "alignedPos (aa_q st) (aa_base A) (aa_align A) = align_up (aa_q st) (aa_base A) al"
    "0 \<le> align_up (aa_q st) (aa_base A) al"
    "aa_length A \<le> n - aa_q st - (align_up (aa_q st) (aa_base A) al - aa_q st) \<Longrightarrow>
       least_fit f (aa_base A) al (aa_length A) (align_up (aa_q st) (aa_base A) al)"
    "\<not> aa_length A \<le> n - aa_q st - (align_up (aa_q st) (aa_base A) al - aa_q st) \<Longrightarrow>
       \<forall>r. r < n + 1 \<longrightarrow> \<not> fits f (aa_base A) al (aa_length A) r"
proof -
  have q: "0 \<le> aa_q st" "aa_q st < n" "\<forall>p. aa_q st \<le> p \<and> p < n \<longrightarrow> f p"
    "\<forall>r. r < aa_q st \<longrightarrow> \<not> fits f (aa_base A) al (aa_length A) r" and len: "0 < aa_length A"
    using assms by (auto simp: ff_inv_def ff_args_def)
  show "alignedPos (aa_q st) (aa_base A) (aa_align A) = align_up (aa_q st) (aa_base A) al"
    using assms(4,5) q(1,2) alignedPos_eq [of "aa_q st" "aa_base A" al] by (simp add: ff_args_def)
  show "0 \<le> align_up (aa_q st) (aa_base A) al"
    using q(1) align_up_bounds(1) [of "aa_q st" "aa_base A" al] by linarith
  show "aa_length A \<le> n - aa_q st - (align_up (aa_q st) (aa_base A) al - aa_q st) \<Longrightarrow>
       least_fit f (aa_base A) al (aa_length A) (align_up (aa_q st) (aa_base A) al)"
    "\<not> aa_length A \<le> n - aa_q st - (align_up (aa_q st) (aa_base A) al - aa_q st) \<Longrightarrow>
       \<forall>r. r < n + 1 \<longrightarrow> \<not> fits f (aa_base A) al (aa_length A) r"
    by (rule run_fit [OF q(1,3) assms(3) q(4) len]; assumption)+
qed

lemma aa_bits_ff:
  assumes A: "ff_args A al" and f: "\<forall>p \<ge> aa_size A. \<not> f p" and "i \<le> 32" "0 \<le> n"
    and bits: "\<forall>j<i. bit word j \<longleftrightarrow> f (n + int (i - 1 - j))"
    and I: "ff_inv A al f st n"
  shows "ff_result A al f (n + int i) (aa_bits A i word st)"
  using assms(3-)
proof (induction i arbitrary: n st)
  case 0
  then show ?case by (simp add: ff_result_def)
next
  case (Suc i)
  have later: "\<forall>j<i. bit word j \<longleftrightarrow> f (n + 1 + int (i - 1 - j))"
  proof (intro allI impI)
    fix j assume "j < i"
    then have "int (Suc i - 1 - j) = 1 + int (i - 1 - j)" by linarith
    then show "bit word j \<longleftrightarrow> f (n + 1 + int (i - 1 - j))"
      using Suc.prems(3) \<open>j < i\<close> by (simp add: add.assoc)
  qed
  have IH: "ff_inv A al f st' (n + 1) \<Longrightarrow> ff_result A al f (n + int (Suc i)) (aa_bits A i word st')" for st'
    using Suc.IH [OF _ _ later, of st'] Suc.prems(1,2) by (simp add: add.commute add.left_commute)
  have n: "aa_n st = n" using Suc.prems(4) by (simp add: ff_inv_def)
  have fn: "bit word i \<longleftrightarrow> f n" using Suc.prems(3) by auto
  have sw: "bit (word XOR aa_sword (aa_s st)) i \<longleftrightarrow> aa_s st \<noteq> f n"
    using Suc.prems(1) fn bit_all_ones [of i] by (auto simp: bit_xor_iff aa_sword_def)
  consider (skip) "aa_s st = f n" | (start) "\<not> aa_s st" "f n"
    | (stop) "aa_s st" "\<not> f n" "n < aa_size A" | (break) "aa_s st" "\<not> f n" "n \<ge> aa_size A"
    by fastforce
  then show ?case
  proof cases
    case skip
    then show ?thesis
      using IH [OF ff_inv_skip [OF Suc.prems(4) skip]] A sw n by (simp add: ff_args_def)
  next
    case start
    then show ?thesis
      using IH [OF ff_inv_begin [OF Suc.prems(4) start Suc.prems(2)]] sw n by simp
  next
    case stop
    note run = ff_run [OF Suc.prems(4) stop(1,2) A less_imp_le [OF stop(3)]]
    have best: "\<not> aa_best A" using A by (simp add: ff_args_def)
    show ?thesis
    proof (cases "aa_length A \<le> n - aa_q st - (align_up (aa_q st) (aa_base A) al - aa_q st)")
      case True
      then show ?thesis
        using stop sw n run(1,2) run(3) [OF True] best by (simp add: ff_result_def Let_def)
    next
      case False
      have "ff_result A al f (n + int (Suc i)) (aa_bits A i word (st\<lparr>aa_s := False, aa_n := n + 1\<rparr>))"
        by (rule IH, rule ff_inv_end [OF Suc.prems(4) run(4) [OF False]])
      then show ?thesis using stop sw n run(1) False by (simp add: Let_def)
    qed
  next
    case break
    have "f (n - 1)" using Suc.prems(4) break(1) by (simp add: ff_inv_def)
    then have "n = aa_size A" using f break(3) by (cases "aa_size A \<le> n - 1") auto
    then show ?thesis using break sw n Suc.prems(4) by (simp add: ff_result_def)
  qed
qed

section \<open>The loop over the words\<close>

definition map_is :: "TUint32 list \<Rightarrow> (int \<Rightarrow> bool) \<Rightarrow> int \<Rightarrow> bool" where
  "map_is m f sz \<longleftrightarrow>
     (\<forall>k i. k < length m \<and> i < 32 \<longrightarrow> (bit (m ! k) i \<longleftrightarrow> f (int (wpos k i)))) \<and>
     (\<forall>p \<ge> sz. \<not> f p) \<and> sz \<le> 32 * int (length m) \<and> 32 * int (length m) < sz + 32"

lemma ff_inv_word:
  assumes A: "ff_args A al" and I: "ff_inv A al f st n" and "0 \<le> n"
    and w: "\<forall>p. n \<le> p \<and> p < n + 32 \<longrightarrow> (f p \<longleftrightarrow> aa_s st)"
  shows "ff_inv A al f (st\<lparr>aa_n := aa_n st + 32\<rparr>) (n + 32)"
proof (cases "aa_s st")
  case True
  then have "f p" if "aa_q st \<le> p" "p < n + 32" for p
    using I w that by (cases "p < n") (simp_all add: ff_inv_def)
  then show ?thesis using I True by (simp add: ff_inv_def)
next
  case False
  have "\<not> fits f (aa_base A) al (aa_length A) r" if "r < n + 32" for r
  proof (cases "r < n")
    case True
    then show ?thesis using I False by (simp add: ff_inv_def)
  next
    case ge: False
    then have "\<not> f r" using w that False by simp
    then show ?thesis using A by (intro not_fits_at) (auto simp: ff_args_def)
  qed
  then show ?thesis using I False by (simp add: ff_inv_def)
qed

lemma word_positions:
  assumes m: "map_is m f sz" and k: "k < length m"
    and w: "m ! k = aa_sword s"
  shows "\<forall>p. 32 * int k \<le> p \<and> p < 32 * int k + 32 \<longrightarrow> (f p \<longleftrightarrow> s)"
proof (intro allI impI)
  fix p :: int assume p: "32 * int k \<le> p \<and> p < 32 * int k + 32"
  then have "32 * k \<le> nat p" "nat p < 32 * k + 32" by linarith+
  then obtain i where i: "i < 32" "nat p = wpos k i" by (rule wpos_surj)
  then have "f p \<longleftrightarrow> bit (m ! k) i"
    using m k p by (metis map_is_def nat_0_le of_nat_0_le_iff order_trans zero_le_mult_iff zero_le_numeral)
  also have "\<dots> \<longleftrightarrow> s" using w bit_all_ones [of i] i(1) by (simp add: aa_sword_def)
  finally show "f p \<longleftrightarrow> s" .
qed

lemma word_bits:
  assumes "map_is m f sz" "k < length m"
  shows "\<forall>j<32. bit (m ! k) j \<longleftrightarrow> f (32 * int k + int (32 - 1 - j))"
proof (intro allI impI)
  fix j :: nat assume j: "j < 32"
  then have "int (wpos k j) = 32 * int k + int (32 - 1 - j)" by (simp add: wpos_def of_nat_diff)
  then show "bit (m ! k) j \<longleftrightarrow> f (32 * int k + int (32 - 1 - j))"
    using assms j unfolding map_is_def by metis
qed

definition ff_done :: "aa_args \<Rightarrow> nat \<Rightarrow> (int \<Rightarrow> bool) \<Rightarrow> aa_out \<Rightarrow> bool" where
  "ff_done A al f out \<longleftrightarrow>
     (case out of
        AA_ret r c l \<Rightarrow> c = 0 \<and> least_fit f (aa_base A) al (aa_length A) r
      | AA_go st' \<Rightarrow> \<exists>n \<ge> aa_size A. ff_inv A al f st' n)"

lemma aa_words_ff:
  assumes A: "ff_args A al" and m: "map_is m f (aa_size A)" and k: "k \<le> length m"
    and I: "ff_inv A al f st (32 * int k)"
  shows "ff_done A al f (aa_words A (drop k m) 0 st)"
  using k I
proof (induction "length m - k" arbitrary: k st)
  case 0
  then have "k = length m" by simp
  then show ?case using 0 m by (auto simp: ff_done_def map_is_def)
next
  case (Suc d)
  have k: "k < length m" using Suc.hyps(2) by simp
  have next_word: "drop k m = m ! k # drop (Suc k) m" by (rule Cons_nth_drop_Suc [OF k, symmetric])
  have IH: "ff_inv A al f st' (32 * int k + 32) \<Longrightarrow> ff_done A al f (aa_words A (drop (Suc k) m) 0 st')" for st'
    using Suc.hyps(1) [of "Suc k" st'] Suc.hyps(2) k by (simp add: add.commute)
  show ?case
  proof (cases "m ! k = aa_sword (aa_s st)")
    case True
    then show ?thesis
      using IH [OF ff_inv_word [OF A Suc.prems(2) _ word_positions [OF m k True]]]
      by (simp add: next_word)
  next
    case False
    have f: "\<forall>p \<ge> aa_size A. \<not> f p" using m by (simp add: map_is_def)
    have res: "ff_result A al f (32 * int k + int 32) (aa_bits A 32 (m ! k) st)"
      by (rule aa_bits_ff [OF A f _ _ word_bits [OF m k] Suc.prems(2)]) simp_all
    show ?thesis
    proof (cases "aa_bits A 32 (m ! k) st")
      case (AA_ret r c l)
      then show ?thesis using False res by (simp add: next_word ff_done_def ff_result_def)
    next
      case (AA_go st')
      then consider "ff_inv A al f st' (32 * int k + 32)"
        | "aa_size A < 32 * int k + 32" "ff_inv A al f st' (aa_size A)"
        using res by (auto simp: ff_result_def)
      then show ?thesis
      proof cases
        case 1
        then show ?thesis using IH AA_go False by (simp add: next_word)
      next
        case 2
        then have "Suc k = length m" using m k by (auto simp: map_is_def)
        then show ?thesis using 2 AA_go False by (auto simp: next_word ff_done_def)
      qed
    qed
  qed
qed

text \<open>What the search returns when the loop is over.\<close>

lemma no_fit_beyond:
  assumes "\<forall>p \<ge> sz. \<not> f p" "\<forall>r. r < sz \<longrightarrow> \<not> fits f base al len r" "0 < len"
  shows "\<not> fits f base al len r"
  using assms not_fits_at [of f r len base al] by (cases "r < sz") auto

lemma fit_length:
  assumes "\<forall>p \<ge> sz. \<not> f p" "fits f base al len r" "0 < len"
  shows "len \<le> sz"
proof -
  have "f (r + len - 1)" using assms(2,3) by (simp add: fits_def)
  then have "r + len - 1 < sz" using assms(1) not_le by blast
  then show ?thesis using assms(2) by (simp add: fits_def)
qed

definition ff_answer :: "(int \<Rightarrow> bool) \<Rightarrow> int \<Rightarrow> nat \<Rightarrow> int \<Rightarrow> int \<Rightarrow> bool" where
  "ff_answer f base al len r \<longleftrightarrow>
     (if \<exists>r'. fits f base al len r' then least_fit f base al len r else r < 0)"

lemma least_fit_answer: "least_fit f base al len r \<Longrightarrow> ff_answer f base al len r"
  by (auto simp: ff_answer_def least_fit_def)

lemma aa_finish_ff:
  assumes A: "ff_args A al" and f: "\<forall>p \<ge> aa_size A. \<not> f p" and sz: "aa_size A < KMaxTInt"
    and dn: "ff_done A al f out"
  shows "ff_answer f (aa_base A) al (aa_length A) (fst (aa_finish A out))"
proof (cases out)
  case (AA_ret r c l)
  then show ?thesis using dn by (auto simp: ff_done_def aa_finish_def intro: least_fit_answer)
next
  case (AA_go st)
  then obtain n where n: "aa_size A \<le> n" "ff_inv A al f st n" using dn by (auto simp: ff_done_def)
  have len: "0 < aa_length A" and best: "\<not> aa_best A" using A by (simp_all add: ff_args_def)
  have fields: "aa_n st = n" "aa_p st = -1" "aa_minrl st = KMaxTInt" using n(2) by (simp_all add: ff_inv_def)
  have none: "ff_answer f (aa_base A) al (aa_length A) (-1)"
    if "\<forall>r. \<not> fits f (aa_base A) al (aa_length A) r" using that by (simp add: ff_answer_def)
  show ?thesis
  proof (cases "aa_s st \<and> aa_length A \<noteq> KMaxTInt")
    case True
    have "f (n - 1)" using n(2) True by (simp add: ff_inv_def)
    then have "n \<le> aa_size A" using f by (cases "aa_size A \<le> n - 1") auto
    then have n': "n = aa_size A" using n(1) by simp
    have fn: "\<not> f n" using f n' by simp
    note run = ff_run [OF n(2) conjunct1 [OF True] fn A \<open>n \<le> aa_size A\<close>]
    show ?thesis
    proof (cases "aa_length A \<le> n - aa_q st - (align_up (aa_q st) (aa_base A) al - aa_q st)")
      case fit: True
      then show ?thesis
        using True AA_go fields best run(1) least_fit_answer [OF run(3) [OF fit]]
        by (simp add: aa_finish_def Let_def)
    next
      case False
      have "\<forall>r. \<not> fits f (aa_base A) al (aa_length A) r"
        using no_fit_beyond [OF f _ len] run(4) [OF False] n' by auto
      then show ?thesis
        using False True AA_go fields run(1) none by (simp add: aa_finish_def Let_def)
    qed
  next
    case False
    have "\<forall>r. \<not> fits f (aa_base A) al (aa_length A) r"
    proof (cases "aa_s st")
      case True
      then show ?thesis using False fit_length [OF f _ len] sz by fastforce
    next
      case ns: False
      then show ?thesis using n no_fit_beyond [OF f _ len] by (auto simp: ff_inv_def)
    qed
    then show ?thesis using False AA_go fields none by (auto simp: aa_finish_def Let_def)
  qed
qed

section \<open>The allocator's operations\<close>

definition is_free :: "TBitMapAllocator \<Rightarrow> int \<Rightarrow> bool" where
  "is_free b p \<longleftrightarrow> 0 \<le> p \<and> nat p \<in> free_set b"

lemma fits_range:
  assumes "bma_inv b" "0 < len"
  shows "fits (is_free b) base al len r \<longleftrightarrow>
    0 \<le> r \<and> 2 ^ al dvd r + base \<and> r + len \<le> iSize b \<and> {nat r ..< nat (r + len)} \<subseteq> free_set b"
proof (intro iffI)
  assume fit: "fits (is_free b) base al len r"
  have "is_free b (r + len - 1)" using fit assms(2) by (simp add: fits_def)
  then have "r + len \<le> iSize b" by (simp add: is_free_def free_set_def nat_less_iff)
  moreover have "p \<in> free_set b" if "p \<in> {nat r ..< nat (r + len)}" for p
  proof -
    have "r \<le> int p" "int p < r + len" using fit that by (auto simp: fits_def)
    then have "is_free b (int p)" using fit by (simp add: fits_def)
    then show ?thesis by (simp add: is_free_def)
  qed
  ultimately show "0 \<le> r \<and> 2 ^ al dvd r + base \<and> r + len \<le> iSize b \<and> {nat r ..< nat (r + len)} \<subseteq> free_set b"
    using fit by (auto simp: fits_def)
next
  assume r: "0 \<le> r \<and> 2 ^ al dvd r + base \<and> r + len \<le> iSize b \<and> {nat r ..< nat (r + len)} \<subseteq> free_set b"
  have "is_free b p" if "r \<le> p" "p < r + len" for p
  proof -
    have "nat p \<in> {nat r ..< nat (r + len)}" using that r by auto
    then have "nat p \<in> free_set b" using r by blast
    then show ?thesis using r that(1) by (simp add: is_free_def)
  qed
  then show "fits (is_free b) base al len r" using r by (simp add: fits_def)
qed

lemma mask_base_mod:
  assumes "al < 31"
  shows "mask_base aBase (int al) = aBase mod 2 ^ al"
proof -
  let ?w = "word_of_int aBase AND alignmask (int al) :: TUint32"
  have u: "uint ?w = take_bit al (take_bit 32 aBase)"
    by (simp only: alignmask_mask take_bit_eq_mask [symmetric] unsigned_take_bit_eq)
      (simp add: uint_word_of_int take_bit_eq_mod)
  also have "\<dots> = aBase mod 2 ^ al" using assms by (simp add: take_bit_eq_mod [symmetric])
  finally have u: "uint ?w = aBase mod 2 ^ al" .
  have "(2 :: int) ^ al \<le> 2 ^ 30" using assms by (intro power_increasing) auto
  then have "0 \<le> sint ?w" "sint ?w < 2 ^ 32"
    using mask_base_bounds [OF assms, of aBase] by (simp_all add: mask_base_def)
  then have "sint ?w = uint ?w" by (simp add: uint_sint take_bit_eq_mod)
  then show ?thesis using u by (simp add: mask_base_def)
qed

lemma fits_mod_base: "fits f (aBase mod 2 ^ al) al len r \<longleftrightarrow> fits f aBase al len r"
proof -
  have "(2 ^ al dvd r + aBase mod 2 ^ al) \<longleftrightarrow> (2 ^ al :: int) dvd r + aBase"
    by (metis dvd_eq_mod_eq_0 mod_add_right_eq)
  then show ?thesis by (simp add: fits_def)
qed

lemma least_fit_mod_base: "least_fit f (aBase mod 2 ^ al) al len r \<longleftrightarrow> least_fit f aBase al len r"
  by (simp add: least_fit_def fits_mod_base)

lemma map_is_free:
  assumes "bma_inv b"
  shows "map_is (iMap b) (is_free b) (iSize b)"
proof -
  have len: "int (length (iMap b)) = (iSize b + 31) div 32" "0 < iSize b"
    using assms by (auto simp: bma_inv_def)
  have "bit (iMap b ! k) i \<longleftrightarrow> is_free b (int (wpos k i))" if "k < length (iMap b)" "i < 32" for k i
    using that wpos_bounds [of k i] assms by (auto simp: is_free_def free_set_bits)
  moreover have "\<not> is_free b p" if "iSize b \<le> p" for p
    using that by (auto simp: is_free_def free_set_def)
  moreover have "iSize b \<le> 32 * int (length (iMap b))" "32 * int (length (iMap b)) < iSize b + 32"
    using len by linarith+
  ultimately show ?thesis by (auto simp: map_is_def)
qed

lemma below_check_first:
  assumes "bma_inv b" "r < 32 * int (iCheckFirst b)"
  shows "\<not> is_free b r"
proof
  assume "is_free b r"
  then have r: "nat r \<in> free_set b" "0 \<le> r" by (auto simp: is_free_def)
  have "nat r div 32 < iCheckFirst b" using assms(2) r(2) by (simp add: div_less_iff_less_mult)
  then have "iMap b ! (nat r div 32) = 0" using assms(1) by (auto simp: bma_inv_def)
  then show False using r by (simp add: free_set_def pbit_def)
qed

lemma all_free_iff:
  assumes "bma_inv b"
  shows "iAvail b = iSize b \<longleftrightarrow> free_set b = {..<nat (iSize b)}"
proof
  assume "iAvail b = iSize b"
  then have "card (free_set b) = card {..<nat (iSize b)}" using assms by (simp add: bma_inv_def)
  then show "free_set b = {..<nat (iSize b)}"
    by (intro card_subset_eq) (auto simp: free_set_def)
next
  assume "free_set b = {..<nat (iSize b)}"
  then show "iAvail b = iSize b" using assms by (simp add: bma_inv_def)
qed

lemma aa_all_free_ff:
  assumes inv: "bma_inv b" and all: "iAvail b = iSize b" and len: "0 < aLength"
    and base: "0 \<le> base" "al < 31" "iSize b + base + 2 ^ al < 2 ^ 31"
  shows "ff_answer (is_free b) base al aLength (fst (aa_all_free b aLength (int al) base False 0 0))"
proof -
  have size: "0 < iSize b" using inv by (simp add: bma_inv_def)
  have free: "is_free b p \<longleftrightarrow> 0 \<le> p \<and> p < iSize b" for p
    using inv all size by (auto simp: is_free_def all_free_iff nat_less_iff)
  let ?a = "align_up 0 base al"
  have a: "alignedPos 0 base (int al) = ?a" using base size by (intro alignedPos_eq) auto
  have bounds: "0 \<le> ?a" "?a < 2 ^ al" using align_up_bounds [of 0 base al] by auto
  then have "is_TInt ?a" using base size by (auto simp: is_TInt_def)
  then have res: "fst (aa_all_free b aLength (int al) base False 0 0) =
      (if aLength \<le> iSize b - ?a then ?a else KErrOverflow)"
    using a bounds size inv by (simp add: aa_all_free_def Let_def to_TUint_id bma_inv_def)
  note run = run_fit [of 0 "iSize b" "is_free b" base al aLength]
  have before: "\<forall>r. r < 0 \<longrightarrow> \<not> fits (is_free b) base al aLength r" by (simp add: fits_def)
  show ?thesis
  proof (cases "aLength \<le> iSize b - ?a")
    case True
    then show ?thesis using res run(1) free len before by (auto intro!: least_fit_answer)
  next
    case False
    then have "\<forall>r. r < iSize b + 1 \<longrightarrow> \<not> fits (is_free b) base al aLength r"
      using run(2) free len before by simp
    then have "\<forall>r. \<not> fits (is_free b) base al aLength r"
      using no_fit_beyond [of "iSize b" "is_free b" base al aLength] free len by auto
    then show ?thesis using False res by (auto simp: ff_answer_def)
  qed
qed

lemma AllocAligned_carry_ff:
  assumes inv: "bma_inv b" and len: "0 < aLength" and al: "al < 31"
    and size: "iSize b + 2 * 2 ^ al < 2 ^ 31"
  shows "\<exists>r c l. Bma_AllocAligned_carry b aLength (int al) aBase False 0 = Inr (r, c, l) \<and>
           ff_answer (is_free b) (aBase mod 2 ^ al) al aLength r"
proof -
  let ?base = "aBase mod 2 ^ al"
  have base: "0 \<le> ?base" "?base < 2 ^ al" by simp_all
  then have fit31: "iSize b + ?base + 2 ^ al < 2 ^ 31" using size by linarith
  have sz: "0 < iSize b" "to_TUint (iSize b) = iSize b" "iSize b < KMaxTInt"
    using inv by (auto simp: bma_inv_def to_TUint_id)
  have guard: "to_TUint (int al) < 31" using al by (simp add: to_TUint_id)
  show ?thesis
  proof (cases "iAvail b = iSize b")
    case True
    have "ff_answer (is_free b) ?base al aLength (fst (aa_all_free b aLength (int al) ?base False 0 0))"
      by (rule aa_all_free_ff [OF inv True len base(1) al fit31])
    then show ?thesis
      using True len sz guard
      by (cases "aa_all_free b aLength (int al) ?base False 0 0")
        (simp add: Bma_AllocAligned_carry_def Bma_AllocAligned_offset_def mask_base_mod [OF al])
  next
    case False
    let ?A = "\<lparr>aa_length = aLength, aa_align = int al, aa_base = ?base, aa_best = False,
      aa_carry = 0, aa_size = iSize b\<rparr>"
    let ?st = "\<lparr>aa_n = int (iCheckFirst b) * 32, aa_p = -1, aa_q = 0, aa_s = False, aa_minrl = KMaxTInt\<rparr>"
    have A: "ff_args ?A al" using len al base(1) fit31 by (simp add: ff_args_def)
    have m: "map_is (iMap b) (is_free b) (aa_size ?A)" using map_is_free [OF inv] by simp
    have "ff_inv ?A al (is_free b) ?st (32 * int (iCheckFirst b))"
      using not_fits_at [OF below_check_first [OF inv] len] by (simp add: ff_inv_def)
    then have "ff_done ?A al (is_free b) (aa_words ?A (drop (iCheckFirst b) (iMap b)) 0 ?st)"
      using inv by (intro aa_words_ff [OF A m]) (simp_all add: bma_inv_def)
    then have "ff_answer (is_free b) ?base al aLength
        (fst (aa_finish ?A (aa_words ?A (drop (iCheckFirst b) (iMap b)) 0 ?st)))"
      using aa_finish_ff [OF A, of "is_free b"] m sz(3) by (simp add: map_is_def)
    then show ?thesis
      using False len sz guard
      by (cases "aa_finish ?A (aa_words ?A (drop (iCheckFirst b) (iMap b)) 0 ?st)")
        (simp add: Bma_AllocAligned_carry_def Bma_AllocAligned_offset_def mask_base_mod [OF al] Let_def)
  qed
qed

lemma ff_answer_fit: "ff_answer f base al len r \<Longrightarrow> 0 \<le> r \<Longrightarrow> least_fit f base al len r"
  by (auto simp: ff_answer_def split: if_splits)

lemma ff_answer_none: "ff_answer f base al len r \<Longrightarrow> r < 0 \<Longrightarrow> \<nexists>r'. fits f base al len r'"
  by (auto simp: ff_answer_def least_fit_def fits_def split: if_splits)

text \<open>A position that is aligned already is not moved.\<close>

lemma alignedPos_fit:
  assumes "fits (is_free b) base al len r" "0 < len" "0 \<le> base" "al < 31"
    and "iSize b + base + 2 ^ al < 2 ^ 31"
  shows "alignedPos r base (int al) = r"
proof -
  have r: "0 \<le> r" "is_free b r" "2 ^ al dvd r + base" using assms(1,2) by (auto simp: fits_def)
  then have "r < iSize b" by (simp add: is_free_def free_set_def nat_less_iff)
  then have "alignedPos r base (int al) = align_up r base al"
    using r(1) assms by (intro alignedPos_eq) linarith+
  moreover have "align_up r base al = r"
    using align_up_bounds(1) [of r base al] align_up_least [OF order_refl r(3)] by linarith
  ultimately show ?thesis by simp
qed

lemma AllocAligned_first_fit:
  assumes inv: "bma_inv b" and len: "0 < aLength" and al: "al < 31"
    and size: "iSize b + 2 * 2 ^ al < 2 ^ 31"
  shows "if \<exists>r. fits (is_free b) aBase al aLength r
         then \<exists>r. Bma_AllocAligned b aLength (int al) aBase False = Inr r \<and>
                  least_fit (is_free b) aBase al aLength r
         else Bma_AllocAligned b aLength (int al) aBase False = Inr KErrNotFound"
proof -
  let ?base = "aBase mod 2 ^ al"
  have base: "0 \<le> ?base" "?base < 2 ^ al" by simp_all
  then have fit31: "iSize b + ?base + 2 ^ al < 2 ^ 31" using size by linarith
  obtain r c l where r: "Bma_AllocAligned_carry b aLength (int al) ?base False 0 = Inr (r, c, l)"
    and ans: "ff_answer (is_free b) ?base al aLength r"
    using AllocAligned_carry_ff [OF assms, of ?base] by auto
  have res: "Bma_AllocAligned b aLength (int al) aBase False =
      Inr (if r < 0 then KErrNotFound else alignedPos r ?base (int al))"
    using r by (simp add: Bma_AllocAligned_def mask_base_mod [OF al])
  show ?thesis
  proof (cases "r < 0")
    case True
    then show ?thesis using ff_answer_none [OF ans True] res by (simp add: fits_mod_base)
  next
    case False
    then have lf: "least_fit (is_free b) ?base al aLength r" using ff_answer_fit [OF ans] by simp
    then have "alignedPos r ?base (int al) = r"
      using alignedPos_fit [OF _ len base(1) al fit31] by (simp add: least_fit_def)
    then show ?thesis using lf res False by (auto simp: fits_mod_base least_fit_def)
  qed
qed

text \<open>\<open>AllocConsecutive\<close>: no alignment.\<close>

lemma AllocConsecutive_first_fit:
  assumes inv: "bma_inv b" and len: "0 < aLength"
  shows "if \<exists>r. fits (is_free b) 0 0 aLength r
         then \<exists>r. Bma_AllocConsecutive b aLength False = Inr r \<and> least_fit (is_free b) 0 0 aLength r
         else Bma_AllocConsecutive b aLength False = Inr KErrNotFound"
proof -
  have "iSize b + 2 * 2 ^ 0 < 2 ^ 31" using inv by (simp add: bma_inv_def)
  then obtain r c l where r: "Bma_AllocAligned_carry b aLength 0 0 False 0 = Inr (r, c, l)"
    and ans: "ff_answer (is_free b) 0 0 aLength r"
    using AllocAligned_carry_ff [OF inv len, of 0 0] by auto
  have res: "Bma_AllocConsecutive b aLength False = Inr (if r < 0 then KErrNotFound else r)"
    using r by (simp add: Bma_AllocConsecutive_def)
  show ?thesis
  proof (cases "r < 0")
    case True
    then show ?thesis using ff_answer_none [OF ans True] res by simp
  next
    case False
    then show ?thesis using ff_answer_fit [OF ans] res by (auto simp: least_fit_def)
  qed
qed

end
