(* ===== verification/Bma_Copy.thy ===== *)
theory Bma_Copy
  imports Bma_Runs Bma_Single
begin

text \<open>
  \<open>CopyAlignedRange\<close>: what it does when the copied words fit the destination.
\<close>

lemma card_words:
  "card {p. p < 32 * c \<and> pbit m p} = sum_list (map (\<lambda>k. bit_count_32 (m ! k)) [0..<c])"
proof (induction c)
  case 0
  then show ?case by simp
next
  case (Suc c)
  have full: "rmask 0 (32 * Suc c) c all_ones"
    using wpos_bounds [of c] unfolding rmask_def bit_all_ones by (auto simp: add.commute)
  have "m ! c AND all_ones = m ! c" by (rule bit_word_eqI) (simp only: bit_and_iff bit_all_ones, simp)
  then have new: "bit_count_32 (m ! c) = card {p. 32 * c \<le> p \<and> p < 32 * Suc c \<and> pbit m p}"
    using bit_count_word [OF full, of m] by (simp add: conj_ac add.commute [of 32])
  have "{p. p < 32 * Suc c \<and> pbit m p} =
      {p. p < 32 * c \<and> pbit m p} \<union> {p. 32 * c \<le> p \<and> p < 32 * Suc c \<and> pbit m p}" by auto
  moreover have "card ({p. p < 32 * c \<and> pbit m p} \<union> {p. 32 * c \<le> p \<and> p < 32 * Suc c \<and> pbit m p}) =
      card {p. p < 32 * c \<and> pbit m p} + card {p. 32 * c \<le> p \<and> p < 32 * Suc c \<and> pbit m p}"
    by (rule card_Un_disjoint) auto
  ultimately show ?case using Suc new by simp
qed

lemma car_scan_spec:
  assumes "car_scan p xs cf avail = (cf', avail')"
  shows "cf' \<le> cf" "\<forall>k < length xs. p + k < cf' \<longrightarrow> xs ! k = 0"
    "avail' = avail + int (sum_list (map bit_count_32 xs))"
proof -
  have zero: "bit_count_32 0 = 0" by (simp add: bit_count_32_def)
  have "cf' \<le> cf \<and> (\<forall>k < length xs. p + k < cf' \<longrightarrow> xs ! k = 0) \<and>
      avail' = avail + int (sum_list (map bit_count_32 xs))"
    using assms
  proof (induction p xs cf avail rule: car_scan.induct)
    case (2 p x xs cf avail)
    show ?case
    proof (cases "x = 0")
      case True
      then show ?thesis using 2 zero by (auto simp: nth_Cons split: nat.splits)
    next
      case False
      then have "cf' \<le> (if p < cf then p else cf)" "\<forall>k<length xs. Suc p + k < cf' \<longrightarrow> xs ! k = 0"
        "avail' = avail + int (bit_count_32 x) + int (sum_list (map bit_count_32 xs))"
        using 2 by auto
      then show ?thesis by (auto simp: nth_Cons split: nat.splits if_splits)
    qed
  qed simp
  then show "cf' \<le> cf" "\<forall>k < length xs. p + k < cf' \<longrightarrow> xs ! k = 0"
    "avail' = avail + int (sum_list (map bit_count_32 xs))" by simp_all
qed

text \<open>The map after the copy, and which of its positions are set.\<close>

definition car_map :: "TUint32 list \<Rightarrow> nat \<Rightarrow> nat \<Rightarrow> nat \<Rightarrow> nat \<Rightarrow> nat \<Rightarrow> TUint32 list" where
  "car_map src q n z lo hi =
     (let m0 = take n (drop q src) @ replicate z 0;
          m1 = m0[0 := (m0 ! 0) AND drop_bit lo all_ones]
      in m1[n - 1 := (m1 ! (n - 1)) AND push_bit hi all_ones])"

lemma bit_nth_and:
  assumes "j < length m"
  shows "bit (m[j := m ! j AND w] ! k) i \<longleftrightarrow> bit (m ! k :: TUint32) i \<and> (k = j \<longrightarrow> bit w i)"
  using assms by (cases "k = j") (auto simp: bit_and_iff)

lemma car_map_nth:
  assumes "0 < n" "q + n \<le> length src" "k < n + z" "i < 32"
  shows "bit (car_map src q n z lo hi ! k) i \<longleftrightarrow>
    k < n \<and> bit (src ! (q + k)) i \<and> (k = 0 \<longrightarrow> lo + i < 32) \<and> (k = n - 1 \<longrightarrow> hi \<le> i)"
proof -
  have hib: "bit (push_bit hi all_ones) i \<longleftrightarrow> hi \<le> i"
    unfolding bit_push_bit_iff using assms(4) bit_all_ones [of "i - hi"] by auto
  have m0: "bit ((take n (drop q src) @ replicate z (0 :: TUint32)) ! k) i \<longleftrightarrow> k < n \<and> bit (src ! (q + k)) i"
    using assms by (auto simp: nth_append)
  have len: "length (take n (drop q src) @ replicate z (0 :: TUint32)) = n + z" using assms by simp
  have ix: "0 < length (take n (drop q src) @ replicate z (0 :: TUint32))"
    "n - 1 < length ((take n (drop q src) @ replicate z (0 :: TUint32))[0 := w])" for w
    unfolding length_list_update len using assms(1) by auto
  show ?thesis
    unfolding car_map_def Let_def bit_nth_and [OF ix(2)] bit_nth_and [OF ix(1)] m0 hib bit_drop_all_ones
    by blast
qed

lemma pbit_car_map:
  assumes n: "32 * (n - 1) < s + l" "s + l \<le> 32 * n" "s < 32" "0 < l"
    and q: "q + n \<le> length src" and p: "p < 32 * (n + z)"
  shows "pbit (car_map src q n z s (31 - (s + l - 1) mod 32)) p \<longleftrightarrow>
    s \<le> p \<and> p < s + l \<and> pbit src (32 * q + p)"
proof -
  let ?k = "p div 32" and ?i = "31 - p mod 32"
  have pos: "0 < n" using n by (cases n) auto
  have k: "?k < n + z" using p by (simp add: less_mult_imp_div_less mult.commute)
  have lastw: "(s + l - 1) div 32 = n - 1"
    using n pos by (intro div_nat_eqI) (auto simp: algebra_simps)
  have pd: "p = 32 * ?k + p mod 32" by simp
  have ld: "s + l - 1 = 32 * (n - 1) + (s + l - 1) mod 32"
    using lastw by (metis mult_div_mod_eq)
  have lo: "(?k = 0 \<longrightarrow> s + ?i < 32) \<longleftrightarrow> s \<le> p"
    using n(3) pd by (cases "?k = 0") auto
  have "?k < n \<and> (?k = n - 1 \<longrightarrow> 31 - (s + l - 1) mod 32 \<le> ?i) \<longleftrightarrow> p < s + l"
  proof -
    have lt: "p mod 32 < 32" "(s + l - 1) mod 32 < 32" by simp_all
    consider "?k < n - 1" | "?k = n - 1" | "n - 1 < ?k" by linarith
    then show ?thesis
    proof cases
      case 1
      then have "32 * ?k + 32 \<le> 32 * (n - 1)" by simp
      then show ?thesis using 1 pd ld lt n(4) by linarith
    next
      case 2
      then show ?thesis using pd ld lt n(4) pos by linarith
    next
      case 3
      then have "32 * n \<le> 32 * ?k" by simp
      then show ?thesis using 3 pd n(2) by linarith
    qed
  qed
  moreover have "pbit src (32 * q + p) \<longleftrightarrow> bit (src ! (q + ?k)) ?i"
    by (simp add: pbit_def)
  ultimately show ?thesis
    unfolding pbit_def [of "car_map _ _ _ _ _ _"]
    using car_map_nth [OF pos q k, of ?i s "31 - (s + l - 1) mod 32"] lo by auto
qed

text \<open>The sizes computed by \<open>CopyAlignedRange\<close>, with \<open>s\<close> the bit offset and \<open>l\<close> the length.\<close>

lemma car_sizes:
  assumes "bma_inv b" "4 \<le> iSize b" "0 < l" "a mod 32 + l \<le> nat (iSize b)"
  defines "n \<equiv> (a mod 32 + l - 1) div 32 + 1"
  defines "len \<equiv> (((int a + int l - 1 + 32) div 32) * 32 - (int a div 32) * 32) div 8"
  shows "len = 4 * int n" "len \<le> iSize b" "n \<le> length (iMap b)"
    "((iSize b + 31) div 32) * 32 - len * 8 = 32 * (int (length (iMap b)) - int n)"
    "32 * (n - 1) < a mod 32 + l" "a mod 32 + l \<le> 32 * n"
proof -
  let ?s = "a mod 32"
  have a: "a = 32 * (a div 32) + ?s" by simp
  have "(a + l - 1) div 32 = a div 32 + (?s + l - 1) div 32"
  proof -
    have "a + l - 1 = (?s + l - 1) + (a div 32) * 32" using a assms(3) by linarith
    then show ?thesis by simp
  qed
  moreover have "(int a + int l - 1 + 32) div 32 = int ((a + l - 1) div 32) + 1"
    using assms(3) by (simp add: zdiv_int of_nat_diff)
  ultimately show len: "len = 4 * int n" by (simp add: len_def n_def zdiv_int)
  show b: "32 * (n - 1) < ?s + l" "?s + l \<le> 32 * n"
  proof -
    obtain d where d: "n = d + 1" "32 * d \<le> ?s + l - 1" "?s + l - 1 < 32 * d + 32"
      using div32_bounds [of "?s + l - 1"] n_def by blast
    then show "32 * (n - 1) < ?s + l" "?s + l \<le> 32 * n" using assms(3) by simp_all
  qed
  have words: "int (length (iMap b)) = (iSize b + 31) div 32" using assms(1) by (auto simp: bma_inv_def)
  have t: "int (?s + l) \<le> iSize b" using assms(2,4) by linarith
  then show "n \<le> length (iMap b)" using words b(1) by linarith
  have "4 * int n' \<le> z" if "32 * (n' - 1) < t" "int t \<le> z" "4 \<le> z" for n' t :: nat and z
    using that by (cases "n' \<le> 1") linarith+
  then show "len \<le> iSize b" using len b(1) t assms(2) by blast
  show "((iSize b + 31) div 32) * 32 - len * 8 = 32 * (int (length (iMap b)) - int n)"
    using len words by simp
qed

lemma CopyAlignedRange_map:
  assumes inv: "bma_inv b" "bma_inv aA" and small: "4 \<le> iSize b" "0 < l" "a mod 32 + l \<le> nat (iSize b)"
    and src: "a + l \<le> nat (iSize aA)"
  defines "n \<equiv> (a mod 32 + l - 1) div 32 + 1"
  defines "m \<equiv> car_map (iMap aA) (a div 32) n (length (iMap b) - n) (a mod 32) (31 - (a mod 32 + l - 1) mod 32)"
  shows "Bma_CopyAlignedRange b aA (int a) (int l) =
      (let (cf, avail) = car_scan 0 (take n m) (n - 1) 0
       in Inr (b\<lparr>iMap := m, iCheckFirst := cf, iAvail := avail\<rparr>))"
    "a div 32 + n \<le> length (iMap aA)"
proof -
  note sizes = car_sizes [OF inv(1) small, folded n_def]
  have srcw: "int (length (iMap aA)) = (iSize aA + 31) div 32" using inv(2) by (auto simp: bma_inv_def)
  have ad: "a = 32 * (a div 32) + a mod 32" by simp
  show fits: "a div 32 + n \<le> length (iMap aA)"
    using src sizes(5) srcw ad n_def by linarith
  have ix: "nat (int a div 32) = a div 32" "nat (int a mod 32) = a mod 32"
    by (simp_all add: nat_div_distrib nat_mod_distrib)
  have "int a + int l - 1 = int (a mod 32 + l - 1) + int (a div 32) * 32"
    using ad small(2) by linarith
  then have lm: "(int a + int l - 1) mod 32 = int ((a mod 32 + l - 1) mod 32)"
    by (simp add: zmod_int)
  have hi: "nat (31 - (int a + int l - 1) mod 32) = 31 - (a mod 32 + l - 1) mod 32"
    unfolding lm by (simp add: nat_diff_distrib)
  have n4: "nat (4 * int n div 4) = n" and np: "0 < n" by (simp_all add: n_def)
  have z: "nat (32 * (int (length (iMap b)) - int n) div 8 div 4) = length (iMap b) - n"
  proof -
    have "(x * 32) div 8 div 4 = x" for x :: int by (simp add: zdiv_zmult2_eq [symmetric])
    then show ?thesis using sizes(3) by (simp add: mult.commute nat_diff_distrib)
  qed
  have tail: "replicate (length (iMap b) - n) 0 @ drop (n + (length (iMap b) - n)) (iMap b) =
      replicate (length (iMap b) - n) 0"
    using sizes(3) by simp
  have guard: "\<not> (int a < 0 \<or> 4 * int n \<le> 0 \<or> a div 32 + n > length (iMap aA) \<or>
      n + (length (iMap b) - n) > length (iMap b) \<or> 32 * (int (length (iMap b)) - int n) < 0)"
    using sizes(3) np fits by auto
  note enough = assert_always_simps(1) [OF sizes(2) [unfolded sizes(1)]]
  show "Bma_CopyAlignedRange b aA (int a) (int l) =
      (let (cf, avail) = car_scan 0 (take n m) (n - 1) 0
       in Inr (b\<lparr>iMap := m, iCheckFirst := cf, iAvail := avail\<rparr>))"
    unfolding Bma_CopyAlignedRange_def Let_def sizes(1) sizes(4) [unfolded sizes(1)] hi ix n4 z if_not_P [OF guard] enough
      tail m_def car_map_def
    by (rule refl)
qed

lemma CopyAlignedRange_spec:
  assumes inv: "bma_inv b" "bma_inv aA" and small: "4 \<le> iSize b" "0 < l" "a mod 32 + l \<le> nat (iSize b)"
    and src: "a + l \<le> nat (iSize aA)"
  shows "\<exists>b'. Bma_CopyAlignedRange b aA (int a) (int l) = Inr b' \<and> bma_inv b' \<and> iSize b' = iSize b \<and>
    free_set b' = {p. a mod 32 \<le> p \<and> p < a mod 32 + l \<and> 32 * (a div 32) + p \<in> free_set aA}"
proof -
  define n where "n = (a mod 32 + l - 1) div 32 + 1"
  define m where "m = car_map (iMap aA) (a div 32) n (length (iMap b) - n) (a mod 32) (31 - (a mod 32 + l - 1) mod 32)"
  note res = CopyAlignedRange_map [OF inv small src, folded n_def m_def]
  note sizes = car_sizes [OF inv(1) small, folded n_def]
  obtain cf av where scan: "car_scan 0 (take n m) (n - 1) 0 = (cf, av)" by fastforce
  note spec = car_scan_spec [OF scan]
  let ?b' = "b\<lparr>iMap := m, iCheckFirst := cf, iAvail := av\<rparr>"
  have nlen: "n + (length (iMap b) - n) = length (iMap b)" using sizes(3) by simp
  have len: "length m = length (iMap b)"
    using res(2) nlen by (simp add: m_def car_map_def Let_def)
  have bits: "pbit m p \<longleftrightarrow> a mod 32 \<le> p \<and> p < a mod 32 + l \<and> pbit (iMap aA) (32 * (a div 32) + p)"
    if "p < 32 * length (iMap b)" for p
    unfolding m_def
    by (rule pbit_car_map [OF sizes(5,6) _ small(2) res(2)]) (use that nlen in simp_all)
  have covers: "nat (iSize b) \<le> 32 * length (iMap b)" using inv(1) by (auto simp: bma_inv_def)
  have below: "32 * (a div 32) + p < nat (iSize aA)" if "p < a mod 32 + l" for p
    using that src mult_div_mod_eq [of 32 a] by linarith
  have free: "free_set ?b' = {p. a mod 32 \<le> p \<and> p < a mod 32 + l \<and> 32 * (a div 32) + p \<in> free_set aA}"
    using bits small(3) src covers below by (auto simp: free_set_def)
  have take_nth: "take n m = map (\<lambda>k. m ! k) [0..<n]"
    using sizes(3) len by (simp add: list_eq_iff_nth_eq)
  have "free_set ?b' = {p. p < 32 * n \<and> pbit m p}"
    using bits small(3) sizes(3,6) covers by (auto simp: free_set_def)
  then have "av = int (card (free_set ?b'))"
    using spec(3) take_nth by (simp add: card_words comp_def)
  moreover have "m ! k = 0" if "k < cf" for k
    using that spec(1,2) sizes(3) len by auto
  moreover have "cf < length m" using spec(1) sizes(3) len by (simp add: n_def)
  moreover have "\<not> pbit m p" if "nat (iSize b) \<le> p" "p < 32 * length m" for p
    using bits [of p] that small(3) len by simp
  ultimately have "bma_inv ?b'" using inv(1) len by (simp add: bma_inv_def)
  then show ?thesis using res(1) scan free by (intro exI [of _ ?b']) simp
qed

end
