(* ===== verification/Bma_Props.thy ===== *)
theory Bma_Props
  imports Bma_Pool Bma_Fit Bma_Copy
begin

text \<open>
  The properties of the bitmap allocator, on the set of free positions, with an instance of each
  on two small allocators: one of 40 positions with all of them free and one with positions 3 to 7
  taken.
\<close>

section \<open>Two small allocators\<close>

definition bma40 :: TBitMapAllocator where
  "bma40 = \<lparr>iAvail = 40, iCheckFirst = 0, iSize = 40, iMap = [0xffffffff, 0xff000000]\<rparr>"

definition bma35 :: TBitMapAllocator where
  "bma35 = \<lparr>iAvail = 35, iCheckFirst = 0, iSize = 40, iMap = [0xe0ffffff, 0xff000000]\<rparr>"

lemma bma40_ctor: "Bma_ctor 40 True = Inr bma40"
  by (simp add: Bma_ctor_def bma40_def fill_free.simps)

lemma bma40_ok: "bma_inv bma40" "free_set bma40 = {..<40}" "iSize bma40 = 40"
  using ctor_spec [of 40 True] by (simp_all add: bma40_ctor)

lemma bma35_alloc: "Bma_AllocRange bma40 3 5 = Inr bma35"
  by (simp add: Bma_AllocRange_def range_guard_def to_TUint_def range_op_def alloc_step_def bma40_def bma35_def)

lemma bma35_ok: "bma_inv bma35" "free_set bma35 = {..<40} - {3..<8}" "iSize bma35 = 40"
  using AllocRange_spec [OF bma40_ok(1), of 3 5]
  by (simp_all add: bma35_alloc is_TInt_def bma40_ok range_set_def) (simp add: bma35_def)

section \<open>Single positions\<close>

text \<open>
  C1. Over any history of Alloc and of Free of positions held, from a new allocator with every
  position free, no call faults, the positions held are distinct and never free, every
  position is either held or free, and the invariant (iAvail counts the free positions, no free
  position before iCheckFirst) holds.
\<close>

theorem Bma_history:
  assumes "0 < aSize" "aSize \<le> KMaxTInt - 31"
  shows "\<exists>b s held. Bma_ctor aSize True = Inr b \<and> pool_run bma_take bma_give ops (b, []) = Inr (s, held) \<and>
    bma_inv s \<and> distinct held \<and> set held \<inter> free_set s = {} \<and> set held \<union> free_set s = {..< nat aSize}"
proof -
  obtain b where b: "Bma_ctor aSize True = Inr b" "bma_inv b" "iSize b = aSize" "free_set b = {..< nat aSize}"
    using ctor_spec [of aSize True] assms by auto
  have "bma.pool_inv {..< nat aSize} (b, [])" using b by (simp add: bma.pool_inv_def bma_span_def)
  from bma.history [OF this, of ops] show ?thesis using b by (auto simp: bma.pool_inv_def)
qed

theorem Bma_history_witness:
  "\<exists>b s held. Bma_ctor 40 True = Inr b \<and>
    pool_run bma_take bma_give [Take, Take, Give 0, Take] (b, []) = Inr (s, held) \<and>
    bma_inv s \<and> distinct held \<and> set held \<inter> free_set s = {} \<and> set held \<union> free_set s = {..<40}"
  using Bma_history [of 40 "[Take, Take, Give 0, Take]"] by simp

text \<open>
  AllocFrom always returns: it panics for an offset outside the map, returns -1 when nothing is
  free, and otherwise takes the first free position at or after the offset, going round to the
  start of the map when there is none.
\<close>

theorem Bma_AllocFrom_next:
  assumes "bma_inv b" "0 \<le> aOffset"
  shows "\<exists>r. Bma_AllocFrom b aOffset = Some r \<and>
    (if iSize b \<le> aOffset then r = Inl (Panic TBMA)
     else if free_set b = {} then r = Inr (-1, b)
     else let p = (if \<exists>p \<in> free_set b. nat aOffset \<le> p then Min {p \<in> free_set b. nat aOffset \<le> p}
                   else Min (free_set b))
          in \<exists>b'. r = Inr (int p, b') \<and> bma_inv b' \<and> p \<in> free_set b \<and> free_set b' = free_set b - {p})"
proof (cases "iSize b \<le> aOffset \<or> free_set b = {}")
  case True
  then show ?thesis using AllocFrom_spec [OF assms] by (cases "iSize b \<le> aOffset") auto
next
  case False
  let ?p = "next_free (free_set b) (nat aOffset)"
  obtain b' where b': "Bma_AllocFrom b aOffset = Some (Inr (int ?p, b'))" "bma_inv b'"
    "free_set b' = free_set b - {?p}" "?p \<in> free_set b"
    using AllocFrom_spec [OF assms] False by auto
  have p: "?p = (if \<exists>p \<in> free_set b. nat aOffset \<le> p
      then Min {p \<in> free_set b. nat aOffset \<le> p} else Min (free_set b))"
    by (simp add: next_free_def)
  show ?thesis
    unfolding p [symmetric] Let_def using False b' by (intro exI [of _ "Inr (int ?p, b')"]) simp
qed

theorem Bma_AllocFrom_next_witness: "\<exists>b'. Bma_AllocFrom bma35 4 = Some (Inr (8, b')) \<and> free_set b' = {..<40} - {3..<9}"
proof -
  have ex: "\<exists>p \<in> {..<40} - {3..<8}. (4 :: nat) \<le> p" by (rule bexI [of _ 8]) auto
  have ne: "{..<40} - {3..<8} \<noteq> ({} :: nat set)" using ex by blast
  have least: "Min {p \<in> {..<40} - {3..<8}. (4 :: nat) \<le> p} = 8" by (rule Min_eqI) auto
  have "{..<40} - {3..<8} - {8} = {..<40} - {3..<9 :: nat}" by auto
  then show ?thesis
    using Bma_AllocFrom_next [OF bma35_ok(1), of 4] unfolding bma35_ok Let_def nat_numeral if_P [OF ex] least
      if_not_P [OF ne] by auto
qed

text \<open>
  AllocList takes the lowest free positions, as many as asked for or as there are, and lists
  them in increasing order.
\<close>

theorem Bma_AllocList_lowest:
  assumes "bma_inv b" "0 < aLength"
  shows "\<exists>b' ps. Bma_AllocList b aLength = Inr (int (length ps), map int ps, b') \<and>
    ps = take (nat aLength) (sorted_list_of_set (free_set b)) \<and>
    bma_inv b' \<and> free_set b' = free_set b - set ps"
proof -
  have "take (min (nat aLength) (card (free_set b))) (sorted_list_of_set (free_set b)) =
      take (nat aLength) (sorted_list_of_set (free_set b))"
    by (cases "nat aLength \<le> card (free_set b)") (simp_all add: min_def)
  then show ?thesis using AllocList_spec [OF assms(1), of aLength] assms(2) by (auto simp: Let_def min.commute)
qed

theorem Bma_AllocList_lowest_witness:
  "\<exists>b' ps. Bma_AllocList bma35 3 = Inr (int (length ps), map int ps, b') \<and>
    ps = take 3 (sorted_list_of_set ({..<40} - {3..<8})) \<and>
    bma_inv b' \<and> free_set b' = ({..<40} - {3..<8}) - set ps"
  using Bma_AllocList_lowest [OF bma35_ok(1), of 3] by (simp add: bma35_ok)

section \<open>Ranges\<close>

text \<open>
  C3. Alloc of a range succeeds exactly when the range lies in the map and is free (and panics
  otherwise); it takes exactly these positions, and Free of the same range gives back the set of
  free positions there was. Free of a range panics when any position of it is free already.
\<close>

theorem Bma_range_roundtrip:
  assumes inv: "bma_inv b" and t: "is_TInt aStart" "is_TInt aLength"
  shows "(if valid_range b aStart aLength \<and> range_set aStart aLength \<subseteq> free_set b
    then \<exists>b1 b2. Bma_AllocRange b aStart aLength = Inr b1 \<and> bma_inv b1 \<and>
           free_set b1 = free_set b - range_set aStart aLength \<and>
           Bma_FreeRange b1 aStart aLength = Inr b2 \<and> bma_inv b2 \<and> free_set b2 = free_set b
    else Bma_AllocRange b aStart aLength = Inl (Panic TBMA)) \<and>
    (range_set aStart aLength \<inter> free_set b \<noteq> {} \<longrightarrow>
           Bma_FreeRange b aStart aLength = Inl (Panic TBMA))"
proof (rule conjI [rotated])
  show "range_set aStart aLength \<inter> free_set b \<noteq> {} \<longrightarrow>
           Bma_FreeRange b aStart aLength = Inl (Panic TBMA)"
    using FreeRange_spec [OF assms] by (cases "Bma_FreeRange b aStart aLength") auto
  show "if valid_range b aStart aLength \<and> range_set aStart aLength \<subseteq> free_set b
    then \<exists>b1 b2. Bma_AllocRange b aStart aLength = Inr b1 \<and> bma_inv b1 \<and>
           free_set b1 = free_set b - range_set aStart aLength \<and>
           Bma_FreeRange b1 aStart aLength = Inr b2 \<and> bma_inv b2 \<and> free_set b2 = free_set b
    else Bma_AllocRange b aStart aLength = Inl (Panic TBMA)"
  proof (cases "Bma_AllocRange b aStart aLength")
    case (Inl e)
    then show ?thesis using AllocRange_spec [OF assms] by auto
  next
    case (Inr b1)
    then have b1: "valid_range b aStart aLength" "range_set aStart aLength \<subseteq> free_set b" "bma_inv b1"
      "free_set b1 = free_set b - range_set aStart aLength"
      using AllocRange_spec [OF assms] by auto
    have "iSize b1 = iSize b"
      using Inr by (auto simp: Bma_AllocRange_def assert_always_Inr ebind_Inr_iff)
    then have "valid_range b1 aStart aLength" using b1(1) by (simp add: valid_range_def)
    then show ?thesis
      using FreeRange_spec [OF b1(3) t] b1 Inr by (auto split: sum.splits)
  qed
qed

theorem Bma_range_roundtrip_witness:
  "\<exists>b1 b2. Bma_AllocRange bma35 10 25 = Inr b1 \<and> free_set b1 = {..<40} - {3..<8} - {10..<35} \<and>
    Bma_FreeRange b1 10 25 = Inr b2 \<and> free_set b2 = {..<40} - {3..<8}"
proof -
  have "{10..<35} \<subseteq> {..<40} - {3..<8 :: nat}" by auto
  then have ok: "valid_range bma35 10 25 \<and> range_set 10 25 \<subseteq> free_set bma35"
    by (simp add: bma35_ok range_set_def valid_range_def)
  have "range_set 10 25 = {10..<35}" by (simp add: range_set_def)
  then show ?thesis
    using conjunct1 [OF Bma_range_roundtrip [OF bma35_ok(1), of 10 25]] unfolding if_P [OF ok]
    by (simp add: is_TInt_def bma35_ok) metis
qed

text \<open>
  SelectiveAlloc takes whatever is free in a range and returns how many positions that was;
  SelectiveFree then frees the whole range. Outside the map both panic.
\<close>

theorem Bma_selective:
  assumes inv: "bma_inv b" and t: "is_TInt aStart" "is_TInt aLength"
  shows "if valid_range b aStart aLength
    then \<exists>b1 b2. Bma_SelectiveAlloc b aStart aLength =
             Inr (int (card (range_set aStart aLength \<inter> free_set b)), b1) \<and> bma_inv b1 \<and>
           free_set b1 = free_set b - range_set aStart aLength \<and>
           Bma_SelectiveFree b1 aStart aLength = Inr b2 \<and> bma_inv b2 \<and>
           free_set b2 = free_set b \<union> range_set aStart aLength
    else Bma_SelectiveAlloc b aStart aLength = Inl (Panic TBMA) \<and>
         Bma_SelectiveFree b aStart aLength = Inl (Panic TBMA)"
proof (cases "Bma_SelectiveAlloc b aStart aLength")
  case (Inl e)
  then have "e = Panic TBMA" "\<not> valid_range b aStart aLength" using SelectiveAlloc_spec [OF assms] by auto
  then show ?thesis
    using Inl SelectiveFree_spec [OF assms] by (cases "Bma_SelectiveFree b aStart aLength") auto
next
  case (Inr nb)
  then obtain b1 where nb: "nb = (int (card (range_set aStart aLength \<inter> free_set b)), b1)"
    and b1: "valid_range b aStart aLength" "bma_inv b1" "free_set b1 = free_set b - range_set aStart aLength"
    using SelectiveAlloc_spec [OF assms] by (auto split: prod.splits)
  have "iSize b1 = iSize b"
    using Inr nb by (auto simp: Bma_SelectiveAlloc_def assert_always_Inr Let_def ebind_Inr_iff split: if_splits)
  then have "valid_range b1 aStart aLength" using b1(1) by (simp add: valid_range_def)
  then obtain b2 where "Bma_SelectiveFree b1 aStart aLength = Inr b2" "bma_inv b2"
    "free_set b2 = free_set b1 \<union> range_set aStart aLength"
    using SelectiveFree_spec [OF b1(2) t] by (cases "Bma_SelectiveFree b1 aStart aLength") auto
  then show ?thesis using Inr nb b1 by auto
qed

theorem Bma_selective_witness:
  "\<exists>b1 b2. Bma_SelectiveAlloc bma35 5 30 = Inr (27, b1) \<and> free_set b1 = {..<40} - {3..<8} - {5..<35} \<and>
    Bma_SelectiveFree b1 5 30 = Inr b2 \<and> free_set b2 = ({..<40} - {3..<8}) \<union> {5..<35}"
proof -
  have v: "valid_range bma35 5 30" by (simp add: bma35_ok valid_range_def)
  have r: "range_set 5 30 = {5..<35}" by (simp add: range_set_def)
  have "{5..<35} \<inter> ({..<40} - {3..<8}) = {8..<35 :: nat}" by auto
  then have c: "int (card ({5..<35} \<inter> ({..<40} - {3..<8 :: nat}))) = 27" by simp
  show ?thesis
    using Bma_selective [OF bma35_ok(1), of 5 30] unfolding if_P [OF v] r bma35_ok c
    by (simp add: is_TInt_def) metis
qed

text \<open>
  The two tests predict the two range operations: NotFree is false exactly when Alloc of the
  range would succeed, NotAllocated is false exactly when Free of the range would succeed, and they
  panic only for ranges outside the map.
\<close>

theorem Bma_tests:
  assumes inv: "bma_inv b" and t: "is_TInt aStart" "is_TInt aLength"
  shows "(Bma_NotFree b aStart aLength = Inr False \<longleftrightarrow> (\<exists>b'. Bma_AllocRange b aStart aLength = Inr b')) \<and>
    (Bma_NotAllocated b aStart aLength = Inr False \<longleftrightarrow> (\<exists>b'. Bma_FreeRange b aStart aLength = Inr b')) \<and>
    (\<forall>e. Bma_NotFree b aStart aLength = Inl e \<or> Bma_NotAllocated b aStart aLength = Inl e \<longrightarrow>
       e = Panic TBMA \<and> \<not> valid_range b aStart aLength)"
proof -
  note a = AllocRange_spec [OF assms] and f = FreeRange_spec [OF assms]
  have A: "(\<exists>b'. Bma_AllocRange b aStart aLength = Inr b') \<longleftrightarrow>
      valid_range b aStart aLength \<and> range_set aStart aLength \<subseteq> free_set b"
    using a by (cases "Bma_AllocRange b aStart aLength") auto
  have F: "(\<exists>b'. Bma_FreeRange b aStart aLength = Inr b') \<longleftrightarrow>
      valid_range b aStart aLength \<and> range_set aStart aLength \<inter> free_set b = {}"
    using f by (cases "Bma_FreeRange b aStart aLength") auto
  show ?thesis unfolding A F by (simp add: NotFree_spec [OF assms] NotAllocated_spec [OF assms])
qed

theorem Bma_tests_witness:
  "Bma_NotFree bma35 8 32 = Inr False \<and> (\<exists>b'. Bma_AllocRange bma35 8 32 = Inr b') \<and>
   Bma_NotAllocated bma35 8 32 = Inr True \<and> (\<nexists>b'. Bma_FreeRange bma35 8 32 = Inr b')"
proof -
  have "Bma_NotFree bma35 8 32 = Inr False" "Bma_NotAllocated bma35 8 32 = Inr True"
    unfolding Bma_NotFree_def Bma_NotAllocated_def range_guard_def to_TUint_def range_op_def
      notfree_step_def notalloc_step_def
    by (simp_all add: bma35_def range_walk.simps)
  then show ?thesis
    using Bma_tests [OF bma35_ok(1), of 8 32] by (auto simp: is_TInt_def)
qed

section \<open>Searches for runs\<close>

definition free_run :: "TBitMapAllocator \<Rightarrow> nat \<Rightarrow> int \<Rightarrow> int \<Rightarrow> int \<Rightarrow> bool" where
  "free_run b al aBase aLength r \<longleftrightarrow>
     0 \<le> r \<and> 2 ^ al dvd r + aBase \<and> r + aLength \<le> iSize b \<and>
     {nat r ..< nat (r + aLength)} \<subseteq> free_set b"

text \<open>
  C2. AllocAligned without best fit returns the lowest position that has the alignment asked for
  (counted with aBase) and starts a run of aLength free positions; KErrNotFound exactly when
  there is no such position.
\<close>

theorem Bma_AllocAligned_lowest:
  assumes "bma_inv b" "0 < aLength" "al < 31" "iSize b + 2 * 2 ^ al < 2 ^ 31"
  shows "\<exists>r. Bma_AllocAligned b aLength (int al) aBase False = Inr r \<and>
    (if \<exists>r'. free_run b al aBase aLength r'
     then free_run b al aBase aLength r \<and> (\<forall>r'. free_run b al aBase aLength r' \<longrightarrow> r \<le> r')
     else r = KErrNotFound)"
proof -
  have run: "fits (is_free b) aBase al aLength r \<longleftrightarrow> free_run b al aBase aLength r" for r
    unfolding free_run_def by (rule fits_range [OF assms(1,2)])
  then show ?thesis
    using AllocAligned_first_fit [OF assms, of aBase]
    by (cases "\<exists>r. free_run b al aBase aLength r") (auto simp: least_fit_def)
qed

theorem Bma_AllocAligned_lowest_witness: "Bma_AllocAligned bma35 4 2 0 False = Inr 8"
proof -
  obtain r where r: "Bma_AllocAligned bma35 4 2 0 False = Inr r"
    using Bma_AllocAligned_lowest [OF bma35_ok(1), of 4 2 0] by (auto simp: bma35_ok)
  have "Bma_AllocAligned bma35 4 2 0 False = Inr 8" by code_simp
  then show ?thesis using r by simp
qed

text \<open>
  C4. CopyAlignedRange: when the copied range fits the destination (of four positions at least),
  the destination's free positions are those of the source's range, from position aFirst mod 32 on,
  and every other position is occupied; the invariant holds again.
\<close>

theorem Bma_CopyAlignedRange_copies:
  assumes "bma_inv b" "bma_inv aA" "4 \<le> iSize b" "0 < aLen" "aFirst mod 32 + aLen \<le> iSize b"
    and "0 \<le> aFirst" "aFirst + aLen \<le> iSize aA"
  shows "\<exists>b'. Bma_CopyAlignedRange b aA aFirst aLen = Inr b' \<and> bma_inv b' \<and> iSize b' = iSize b \<and>
    free_set b' = {p. aFirst mod 32 \<le> int p \<and> int p < aFirst mod 32 + aLen \<and>
                      nat (aFirst - aFirst mod 32) + p \<in> free_set aA}"
proof -
  obtain a l where al: "aFirst = int a" "aLen = int l" using assms(4,6) by (metis nat_0_le less_imp_le)
  have zmod_int32: "int a mod 32 = int (a mod 32)" by (simp add: zmod_int)
  have "nat (int a - int (a mod 32)) = 32 * (a div 32)"
    unfolding zmod_int32 [symmetric]
    by (simp add: minus_mod_eq_mult_div nat_mult_distrib nat_div_distrib)
  moreover have len: "0 < l" "a mod 32 + l \<le> nat (iSize b)" "a + l \<le> nat (iSize aA)"
    using assms(4,5,7) unfolding al zmod_int32 by linarith+
  ultimately show ?thesis
    using CopyAlignedRange_spec [OF assms(1-3) len] unfolding al zmod_int32 of_nat_add [symmetric] of_nat_le_iff of_nat_less_iff
    by simp
qed

theorem Bma_CopyAlignedRange_copies_witness:
  "\<exists>b'. Bma_CopyAlignedRange bma40 bma35 33 7 = Inr b' \<and> bma_inv b' \<and> free_set b' = {1..<8}"
proof -
  have "{p. 1 \<le> int p \<and> int p < 8 \<and> nat 32 + p \<in> {..<40} - {3..<8}} = {1..<8}" by auto
  then show ?thesis
    using Bma_CopyAlignedRange_copies [OF bma40_ok(1) bma35_ok(1), of 7 33] by (simp add: bma40_ok bma35_ok) metis
qed

text \<open>
  C5. The assertion of CopyAlignedRange compares a number of bytes with a number of bits: it lets
  a copy of 512 positions into an allocator of 64 positions pass, and the copy then runs past the
  end of the map; and it fails for a copy of one position into an allocator of one.
\<close>

theorem Bma_CopyAlignedRange_overrun:
  "(\<exists>b aA. Bma_ctor 64 False = Inr b \<and> Bma_ctor 512 True = Inr aA \<and>
      Bma_CopyAlignedRange b aA 0 512 = Inl BadMemory) \<and>
   (\<exists>b aA. Bma_ctor 1 False = Inr b \<and> Bma_ctor 1 True = Inr aA \<and>
      Bma_CopyAlignedRange b aA 0 1 = Inl (Panic TBMA))"
proof -
  have "nmapw 64 = 2" "nmapw 1 = 1" by (simp_all add: nmapw_def is_TInt_def)
  then show ?thesis
    by (simp add: Bma_ctor_def Bma_CopyAlignedRange_def Let_def length_fill_free)
qed

end
