(* ===== verification/Arr.thy ===== *)
theory Arr
  imports Prelude
begin

text \<open>
  The growable arrays of \<^verbatim>\<open>kernel/eka/common/array.cpp\<close>: \<open>RPointerArrayBase\<close> (entries
  are 32-bit words) and \<open>RArrayBase\<close> (entries are blocks of \<open>iEntrySize\<close> bytes, lists of
  words here, with a key at \<open>iKeyOffset\<close>). The two classes share their algorithms, so most
  operations are written once over the type of the entries and instantiated for each class with its
  own limits, entry size and comparison.
\<close>

section \<open>State\<close>

text \<open>
  \<open>iEntries\<close> is the block of memory owned by the array, \<open>iAllocated\<close> cells of which the
  first \<open>iCount\<close> are in use.
\<close>

record 'a arr =
  iCount :: int
  iEntries :: "'a list"
  iAllocated :: int
  iGranularity :: int

type_synonym RPointerArrayBase = "TUint32 arr"

record RArrayBase = "TUint32 list arr" +
  iKeyOffset :: int
  iEntrySize :: int

text \<open>
  The heap: which requests for so many bytes succeed, and what a new cell holds before it is
  written.
\<close>

record 'a heap_env =
  alloc_ok :: "int \<Rightarrow> bool"
  junk :: "nat \<Rightarrow> 'a"

abbreviation (input) KDefaultPtrArrayGranularity :: int where "KDefaultPtrArrayGranularity \<equiv> 8"
abbreviation (input) KPtrArrayMaxGranularity :: int where "KPtrArrayMaxGranularity \<equiv> 0x10000000"
abbreviation (input) KDefaultSimpleArrayGranularity :: int where "KDefaultSimpleArrayGranularity \<equiv> 8"
abbreviation (input) KSimpleArrayMaxGranularity :: int where "KSimpleArrayMaxGranularity \<equiv> 0x10000000"
abbreviation (input) KSimpleArrayMaxEntrySize :: int where "KSimpleArrayMaxEntrySize \<equiv> 640"
abbreviation (input) KMaxArrayGrowBy :: int where "KMaxArrayGrowBy \<equiv> 65535"
abbreviation (input) KMinArrayFactor :: int where "KMinArrayFactor \<equiv> 257"
abbreviation (input) KMaxArrayFactor :: int where "KMaxArrayFactor \<equiv> 32767"

section \<open>Constructors\<close>

definition exp_granularity :: "int \<Rightarrow> int \<Rightarrow> int" where
  "exp_granularity aMinGrowBy aFactor = to_TInt (aMinGrowBy OR push_bit 16 aFactor OR 0x80000000)"

definition RPA_ctor :: RPointerArrayBase where
  "RPA_ctor = \<lparr>iCount = 0, iEntries = [], iAllocated = 0, iGranularity = KDefaultPtrArrayGranularity\<rparr>"

definition RPA_ctor_gran :: "int \<Rightarrow> fault + RPointerArrayBase" where
  "RPA_ctor_gran aGranularity =
     assert_always ''EBadArrayGranularity'' (aGranularity > 0 \<and> aGranularity \<le> KPtrArrayMaxGranularity)
      (Inr \<lparr>iCount = 0, iEntries = [], iAllocated = 0, iGranularity = aGranularity\<rparr>)"

definition RPA_ctor_exp :: "int \<Rightarrow> int \<Rightarrow> fault + RPointerArrayBase" where
  "RPA_ctor_exp aMinGrowBy aFactor =
     assert_always ''EBadArrayMinGrowBy'' (aMinGrowBy > 0 \<and> aMinGrowBy \<le> KMaxArrayGrowBy)
     (assert_always ''EBadArrayFactor'' (aFactor \<ge> KMinArrayFactor \<and> aFactor \<le> KMaxArrayFactor)
      (Inr \<lparr>iCount = 0, iEntries = [], iAllocated = 0, iGranularity = exp_granularity aMinGrowBy aFactor\<rparr>))"

definition RPA_ctor_entries :: "TUint32 list \<Rightarrow> int \<Rightarrow> fault + RPointerArrayBase" where
  "RPA_ctor_entries aEntries aCount =
     assert_always ''EBadArrayCount'' (aCount > 0)
      (Inr \<lparr>iCount = aCount, iEntries = aEntries, iAllocated = aCount, iGranularity = aCount\<rparr>)"

definition round_entry :: "int \<Rightarrow> int" where
  "round_entry anEntrySize = (anEntrySize + 3) AND NOT 3"

definition entry_size_ok :: "int \<Rightarrow> bool" where
  "entry_size_ok anEntrySize \<longleftrightarrow> anEntrySize > 0 \<and> anEntrySize \<le> KSimpleArrayMaxEntrySize"

text \<open>The product is a \<open>TInt\<close>, so it wraps round.\<close>

definition simple_granularity_ok :: "int \<Rightarrow> int \<Rightarrow> bool" where
  "simple_granularity_ok aGranularity anEntrySize \<longleftrightarrow>
     aGranularity > 0 \<and> to_TInt (aGranularity * anEntrySize) \<le> KSimpleArrayMaxGranularity"

definition key_offset_ok :: "int \<Rightarrow> int \<Rightarrow> bool" where
  "key_offset_ok aKeyOffset anEntrySize \<longleftrightarrow>
     aKeyOffset \<ge> 0 \<and> aKeyOffset AND 3 = 0 \<and> aKeyOffset < anEntrySize"

definition RA_ctor :: "int \<Rightarrow> fault + RArrayBase" where
  "RA_ctor anEntrySize =
     assert_always ''EBadArrayEntrySize'' (entry_size_ok anEntrySize)
      (Inr \<lparr>iCount = 0, iEntries = [], iAllocated = 0, iGranularity = KDefaultSimpleArrayGranularity,
            iKeyOffset = 0, iEntrySize = round_entry anEntrySize\<rparr>)"

definition RA_ctor_gran :: "int \<Rightarrow> int \<Rightarrow> fault + RArrayBase" where
  "RA_ctor_gran anEntrySize aGranularity =
     assert_always ''EBadArrayEntrySize'' (entry_size_ok anEntrySize)
     (assert_always ''EBadArrayGranularity'' (simple_granularity_ok aGranularity anEntrySize)
      (Inr \<lparr>iCount = 0, iEntries = [], iAllocated = 0, iGranularity = aGranularity,
            iKeyOffset = 0, iEntrySize = round_entry anEntrySize\<rparr>))"

definition RA_ctor_entries :: "int \<Rightarrow> TUint32 list list \<Rightarrow> int \<Rightarrow> fault + RArrayBase" where
  "RA_ctor_entries aEntrySize aEntries aCount =
     assert_always ''EBadArrayEntrySize'' (entry_size_ok aEntrySize)
     (assert_always ''EBadArrayCount'' (aCount > 0)
      (Inr \<lparr>iCount = aCount, iEntries = aEntries, iAllocated = aCount,
            iGranularity = KDefaultSimpleArrayGranularity,
            iKeyOffset = 0, iEntrySize = round_entry aEntrySize\<rparr>))"

definition RA_ctor_key :: "int \<Rightarrow> int \<Rightarrow> int \<Rightarrow> fault + RArrayBase" where
  "RA_ctor_key anEntrySize aGranularity aKeyOffset =
     assert_always ''EBadArrayEntrySize'' (entry_size_ok anEntrySize)
     (assert_always ''EBadArrayGranularity'' (simple_granularity_ok aGranularity anEntrySize)
     (assert_always ''EBadArrayKeyOffset'' (key_offset_ok aKeyOffset anEntrySize)
      (Inr \<lparr>iCount = 0, iEntries = [], iAllocated = 0, iGranularity = aGranularity,
            iKeyOffset = aKeyOffset, iEntrySize = round_entry anEntrySize\<rparr>)))"

definition RA_ctor_exp :: "int \<Rightarrow> int \<Rightarrow> int \<Rightarrow> int \<Rightarrow> fault + RArrayBase" where
  "RA_ctor_exp aEntrySize aMinGrowBy aKeyOffset aFactor =
     assert_always ''EBadArrayEntrySize'' (entry_size_ok aEntrySize)
     (assert_always ''EBadArrayKeyOffset'' (key_offset_ok aKeyOffset aEntrySize)
     (assert_always ''EBadArrayMinGrowBy'' (aMinGrowBy > 0 \<and> aMinGrowBy \<le> KMaxArrayGrowBy)
     (assert_always ''EBadArrayFactor'' (aFactor \<ge> KMinArrayFactor \<and> aFactor \<le> KMaxArrayFactor)
      (Inr \<lparr>iCount = 0, iEntries = [], iAllocated = 0, iGranularity = exp_granularity aMinGrowBy aFactor,
            iKeyOffset = aKeyOffset, iEntrySize = round_entry aEntrySize\<rparr>))))"

definition RA_SetKeyOffset :: "RArrayBase \<Rightarrow> int \<Rightarrow> fault + RArrayBase" where
  "RA_SetKeyOffset a aKeyOffset =
     assert_always ''EBadArrayKeyOffset''
      (to_TUint aKeyOffset < to_TUint (iEntrySize a) \<and> aKeyOffset AND 3 = 0)
      (Inr (a\<lparr>iKeyOffset := aKeyOffset\<rparr>))"

section \<open>Sizes\<close>

definition CalculateArraySizeAfterGrow :: "int \<Rightarrow> int \<Rightarrow> int \<Rightarrow> int" where
  "CalculateArraySizeAfterGrow aOrigSize aGranularity aLimit =
     (if aGranularity \<ge> 0
      then if aOrigSize > aLimit - aGranularity then KErrNoMemory else aOrigSize + aGranularity
      else let minStep = aGranularity AND 65535;
               factor = drop_bit 16 (aGranularity AND 0x7fff0000);
               na64 = (aOrigSize * factor + 128) div 256;
               min_na64 = aOrigSize + minStep;
               na64' = (if min_na64 > na64 then min_na64 else na64)
           in if na64' > aLimit then KErrNoMemory else na64')"

definition CalculateArraySizeAfterShrink :: "int \<Rightarrow> int \<Rightarrow> int \<Rightarrow> int" where
  "CalculateArraySizeAfterShrink aOrigSize aGranularity aUsed =
     (let step = (if aGranularity < 0 then aGranularity AND 65535 else aGranularity)
      in if aOrigSize - aUsed < step then aOrigSize
         else ((aUsed + (step - 1)) div step) * step)"

section \<open>Memory\<close>

text \<open>
  \<open>ReAlloc\<close> to \<open>n\<close> cells keeps what fits; \<open>wordmove\<close> copies \<open>n\<close> cells from
  \<open>src\<close> to \<open>dst\<close>, the two may overlap.
\<close>

definition resize :: "'a heap_env \<Rightarrow> nat \<Rightarrow> 'a list \<Rightarrow> 'a list" where
  "resize heap n xs = take n xs @ map (junk heap) [length xs ..< n]"

definition wordmove :: "nat \<Rightarrow> nat \<Rightarrow> nat \<Rightarrow> 'a list \<Rightarrow> fault + 'a list" where
  "wordmove dst src n xs =
     (if dst + n \<le> length xs \<and> src + n \<le> length xs
      then Inr (take dst xs @ take n (drop src xs) @ drop (dst + n) xs)
      else Inl BadMemory)"

section \<open>Operations shared by the two classes\<close>

text \<open>
  \<open>limit\<close> bounds the number of entries, \<open>esz\<close> is the size of an entry in bytes. An
  operation that can run out of memory returns an error code beside the array.
\<close>

definition arr_Grow ::
    "'a heap_env \<Rightarrow> int \<Rightarrow> int \<Rightarrow> ('a, 'z) arr_scheme \<Rightarrow> int \<times> ('a, 'z) arr_scheme" where
  "arr_Grow heap limit esz a =
     (let newAlloc = CalculateArraySizeAfterGrow (iAllocated a) (iGranularity a) limit
      in if newAlloc < 0 then (newAlloc, a)
         else if \<not> alloc_ok heap (newAlloc * esz) then (KErrNoMemory, a)
         else (KErrNone, a\<lparr>iEntries := resize heap (nat newAlloc) (iEntries a), iAllocated := newAlloc\<rparr>))"

definition arr_At :: "('a, 'z) arr_scheme \<Rightarrow> int \<Rightarrow> fault + 'a" where
  "arr_At a anIndex =
     assert_always ''EBadArrayIndex'' (anIndex \<ge> 0 \<and> anIndex < iCount a) (rd (iEntries a) (nat anIndex))"

definition arr_Append ::
    "'a heap_env \<Rightarrow> int \<Rightarrow> int \<Rightarrow> ('a, 'z) arr_scheme \<Rightarrow> 'a \<Rightarrow> fault + int \<times> ('a, 'z) arr_scheme" where
  "arr_Append heap limit esz a anEntry =
     (let (r, a') = (if iCount a = iAllocated a then arr_Grow heap limit esz a else (KErrNone, a))
      in if r \<noteq> KErrNone then Inr (r, a')
         else ebind (wr (iEntries a') (nat (iCount a')) anEntry) (\<lambda>es.
              Inr (KErrNone, a'\<lparr>iEntries := es, iCount := iCount a' + 1\<rparr>)))"

definition arr_Insert ::
    "'a heap_env \<Rightarrow> int \<Rightarrow> int \<Rightarrow> ('a, 'z) arr_scheme \<Rightarrow> 'a \<Rightarrow> int \<Rightarrow> fault + int \<times> ('a, 'z) arr_scheme" where
  "arr_Insert heap limit esz a anEntry aPos =
     assert_always ''EBadArrayPosition'' (aPos \<ge> 0 \<and> aPos \<le> iCount a)
      (let (r, a') = (if iCount a = iAllocated a then arr_Grow heap limit esz a else (KErrNone, a))
       in if r \<noteq> KErrNone then Inr (r, a')
          else let entries = iCount a' - aPos
               in ebind (if entries \<noteq> 0
                         then wordmove (nat (aPos + 1)) (nat aPos) (nat entries) (iEntries a')
                         else Inr (iEntries a')) (\<lambda>es.
                  ebind (wr es (nat aPos) anEntry) (\<lambda>es'.
                  Inr (KErrNone, a'\<lparr>iEntries := es', iCount := iCount a' + 1\<rparr>))))"

definition arr_Remove :: "('a, 'z) arr_scheme \<Rightarrow> int \<Rightarrow> fault + ('a, 'z) arr_scheme" where
  "arr_Remove a anIndex =
     assert_always ''EBadArrayIndex'' (anIndex \<ge> 0 \<and> anIndex < iCount a)
      (let entries = iCount a - anIndex - 1
       in ebind (if entries \<noteq> 0
                 then wordmove (nat anIndex) (nat (anIndex + 1)) (nat entries) (iEntries a)
                 else Inr (iEntries a)) (\<lambda>es.
          Inr (a\<lparr>iEntries := es, iCount := iCount a - 1\<rparr>)))"

text \<open>\<open>Close\<close> and \<open>Reset\<close> have the same body.\<close>

definition arr_Reset :: "('a, 'z) arr_scheme \<Rightarrow> ('a, 'z) arr_scheme" where
  "arr_Reset a = a\<lparr>iCount := 0, iEntries := [], iAllocated := 0\<rparr>"

text \<open>The requests of the two compressions ask for less memory and cannot fail.\<close>

definition arr_Compress :: "'a heap_env \<Rightarrow> ('a, 'z) arr_scheme \<Rightarrow> ('a, 'z) arr_scheme" where
  "arr_Compress heap a =
     a\<lparr>iEntries := (if iCount a \<noteq> 0 then resize heap (nat (iCount a)) (iEntries a) else []),
       iAllocated := iCount a\<rparr>"

definition arr_GranularCompress :: "'a heap_env \<Rightarrow> ('a, 'z) arr_scheme \<Rightarrow> ('a, 'z) arr_scheme" where
  "arr_GranularCompress heap a =
     (let newAlloc = CalculateArraySizeAfterShrink (iAllocated a) (iGranularity a) (iCount a)
      in if newAlloc = iAllocated a then a
         else a\<lparr>iEntries := (if newAlloc \<noteq> 0 then resize heap (nat newAlloc) (iEntries a) else []),
                iAllocated := newAlloc\<rparr>)"

text \<open>\<open>too_big\<close> is the class's own test of the request.\<close>

definition arr_DoReserve ::
    "'a heap_env \<Rightarrow> (int \<Rightarrow> bool) \<Rightarrow> int \<Rightarrow> ('a, 'z) arr_scheme \<Rightarrow> int \<Rightarrow> fault + int \<times> ('a, 'z) arr_scheme" where
  "arr_DoReserve heap too_big esz a aCount =
     assert_always ''EArrayBadReserveCount'' (aCount \<ge> 0)
      (Inr (if aCount \<le> iAllocated a then (KErrNone, a)
            else if too_big aCount then (KErrNoMemory, a)
            else if \<not> alloc_ok heap (aCount * esz) then (KErrNoMemory, a)
            else (KErrNone, a\<lparr>iEntries := resize heap (nat aCount) (iEntries a), iAllocated := aCount\<rparr>)))"

end
