(* ===== verification/Arr_Search.thy ===== *)
theory Arr_Search
  imports Arr
begin

text \<open>
  The searches of the arrays: linear in both directions, and binary in the three modes. The
  binary search is written once over the outcome of comparing the entry sought with cell
  \<open>m\<close> (positive when the entry is greater); a locale states what it needs of the outcomes, and
  is interpreted on every comparison the classes use, on sorted contents.
\<close>

section \<open>Definitions\<close>

datatype find_mode = EArrayFindMode_Any | EArrayFindMode_First | EArrayFindMode_Last

function find_up :: "('a \<Rightarrow> bool) \<Rightarrow> 'a list \<Rightarrow> nat \<Rightarrow> nat \<Rightarrow> int" where
  "find_up P es n i =
     (if i < n then if P (es ! i) then int i else find_up P es n (Suc i) else KErrNotFound)"
  by pat_completeness auto
termination
  by (relation "measure (\<lambda>(P, es, n, i). n - i)") auto

declare find_up.simps [simp del]

fun find_down :: "('a \<Rightarrow> bool) \<Rightarrow> 'a list \<Rightarrow> nat \<Rightarrow> int" where
  "find_down P es 0 = KErrNotFound"
| "find_down P es (Suc i) = (if P (es ! i) then int i else find_down P es i)"

definition arr_Find :: "('a, 'z) arr_scheme \<Rightarrow> ('a \<Rightarrow> bool) \<Rightarrow> int" where
  "arr_Find a match = find_up match (iEntries a) (nat (iCount a)) 0"

definition arr_FindReverse :: "('a, 'z) arr_scheme \<Rightarrow> ('a \<Rightarrow> bool) \<Rightarrow> int" where
  "arr_FindReverse a match = find_down match (iEntries a) (nat (iCount a))"

text \<open>The loop returns the error code and \<open>anIndex\<close>.\<close>

function bs_loop :: "(nat \<Rightarrow> int) \<Rightarrow> find_mode \<Rightarrow> nat \<Rightarrow> nat \<Rightarrow> int \<Rightarrow> int \<times> nat" where
  "bs_loop order mode l r ret =
     (if r > l
      then let m = (l + r) div 2; k = order m
           in if k = 0
              then if mode = EArrayFindMode_Any then (KErrNone, m)
                   else if mode = EArrayFindMode_First then bs_loop order mode l m KErrNone
                   else bs_loop order mode (m + 1) r KErrNone
              else if k > 0 then bs_loop order mode (m + 1) r ret
              else bs_loop order mode l m ret
      else (ret, r))"
  by pat_completeness auto
termination
  by (relation "measure (\<lambda>(order, mode, l, r, ret). r - l)") auto

declare bs_loop.simps [simp del]

lemma bs_loop_stop: "r \<le> l \<Longrightarrow> bs_loop order mode l r ret = (ret, r)"
  by (simp add: bs_loop.simps)

lemma bs_loop_step:
  "l < r \<Longrightarrow> bs_loop order mode l r ret =
     (if order ((l + r) div 2) = 0
      then if mode = EArrayFindMode_Any then (KErrNone, (l + r) div 2)
           else if mode = EArrayFindMode_First then bs_loop order mode l ((l + r) div 2) KErrNone
           else bs_loop order mode ((l + r) div 2 + 1) r KErrNone
      else if order ((l + r) div 2) > 0 then bs_loop order mode ((l + r) div 2 + 1) r ret
      else bs_loop order mode l ((l + r) div 2) ret)"
  by (subst bs_loop.simps) (simp add: Let_def)

definition arr_BinarySearch :: "('a, 'z) arr_scheme \<Rightarrow> ('a \<Rightarrow> int) \<Rightarrow> find_mode \<Rightarrow> int \<times> nat" where
  "arr_BinarySearch a order aMode =
     bs_loop (\<lambda>m. order (iEntries a ! m)) aMode 0 (nat (iCount a)) KErrNotFound"

definition arr_FindIsq :: "('a, 'z) arr_scheme \<Rightarrow> ('a \<Rightarrow> int) \<Rightarrow> find_mode \<Rightarrow> int" where
  "arr_FindIsq a order aMode =
     (let (r, i) = arr_BinarySearch a order aMode in if r = KErrNone then int i else r)"

definition arr_InsertIsq ::
    "'a heap_env \<Rightarrow> int \<Rightarrow> int \<Rightarrow> ('a, 'z) arr_scheme \<Rightarrow> 'a \<Rightarrow> ('a \<Rightarrow> int) \<Rightarrow> bool \<Rightarrow> fault + int \<times> ('a, 'z) arr_scheme" where
  "arr_InsertIsq heap limit esz a anEntry order aAllowRepeats =
     (let mode = (if aAllowRepeats then EArrayFindMode_Last else EArrayFindMode_Any);
          (r, i) = arr_BinarySearch a order mode
      in if r = KErrNotFound \<or> aAllowRepeats then arr_Insert heap limit esz a anEntry (int i)
         else Inr (KErrAlreadyExists, a))"

text \<open>The comparisons of the signed and unsigned forms.\<close>

definition cmp3 :: "int \<Rightarrow> int \<Rightarrow> int" where
  "cmp3 a h = (if a = h then 0 else if a > h then 1 else -1)"

section \<open>Linear search\<close>

lemma find_up_spec:
  "(find_up P es n i = KErrNotFound \<and> (\<forall>j. i \<le> j \<and> j < n \<longrightarrow> \<not> P (es ! j))) \<or>
   (\<exists>k. i \<le> k \<and> k < n \<and> find_up P es n i = int k \<and> P (es ! k) \<and> (\<forall>j. i \<le> j \<and> j < k \<longrightarrow> \<not> P (es ! j)))"
proof (induction P es n i rule: find_up.induct)
  case (1 P es n i)
  have split: "i \<le> j \<longleftrightarrow> j = i \<or> Suc i \<le> j" for j by auto
  show ?case
  proof (cases "i < n \<and> \<not> P (es ! i)")
    case True
    then show ?thesis using "1.IH" by (subst (1 2) find_up.simps) (auto simp: split)
  next
    case False
    then show ?thesis by (auto simp: find_up.simps [of P es n i])
  qed
qed

lemma find_down_spec:
  "(find_down P es n = KErrNotFound \<and> (\<forall>j<n. \<not> P (es ! j))) \<or>
   (\<exists>i<n. find_down P es n = int i \<and> P (es ! i) \<and> (\<forall>j. i < j \<and> j < n \<longrightarrow> \<not> P (es ! j)))"
proof (induction n)
  case (Suc n)
  then show ?case by (auto simp: less_Suc_eq)
qed simp

section \<open>Binary search\<close>

locale sorted_outcomes =
  fixes order :: "nat \<Rightarrow> int" and n :: nat
  assumes down: "i < j \<Longrightarrow> j < n \<Longrightarrow> order j > 0 \<Longrightarrow> order i > 0"
    and down0: "i < j \<Longrightarrow> j < n \<Longrightarrow> order j = 0 \<Longrightarrow> order i \<ge> 0"
begin

definition bs_inv :: "find_mode \<Rightarrow> nat \<Rightarrow> nat \<Rightarrow> int \<Rightarrow> bool" where
  "bs_inv mode l r ret \<longleftrightarrow>
     l \<le> r \<and> r \<le> n \<and>
     (\<forall>i<l. order i > 0 \<or> (mode = EArrayFindMode_Last \<and> order i = 0)) \<and>
     (\<forall>i. r \<le> i \<and> i < n \<longrightarrow> order i < 0 \<or> (mode = EArrayFindMode_First \<and> order i = 0)) \<and>
     (if ret = KErrNone
      then (mode = EArrayFindMode_First \<and> r < n \<and> order r = 0) \<or>
           (mode = EArrayFindMode_Last \<and> 0 < l \<and> order (l - 1) = 0)
      else ret = KErrNotFound \<and> (\<forall>i < n. order i = 0 \<longrightarrow> l \<le> i \<and> i < r))"

definition bs_post :: "find_mode \<Rightarrow> int \<times> nat \<Rightarrow> bool" where
  "bs_post mode res \<longleftrightarrow>
     (let (ret, i) = res
      in i \<le> n \<and>
         (if \<exists>j<n. order j = 0
          then ret = KErrNone \<and>
               (case mode of
                  EArrayFindMode_Any \<Rightarrow> i < n \<and> order i = 0
                | EArrayFindMode_First \<Rightarrow> i < n \<and> order i = 0 \<and> (\<forall>j<i. order j > 0)
                | EArrayFindMode_Last \<Rightarrow> (\<forall>j<i. order j \<ge> 0) \<and> (\<forall>j. i \<le> j \<and> j < n \<longrightarrow> order j < 0) \<and>
                                        0 < i \<and> order (i - 1) = 0)
          else ret = KErrNotFound \<and> (\<forall>j<i. order j > 0) \<and> (\<forall>j. i \<le> j \<and> j < n \<longrightarrow> order j < 0)))"

lemma below: "order m \<ge> 0 \<Longrightarrow> m < n \<Longrightarrow> i \<le> m \<Longrightarrow> order i \<ge> 0"
  by (metis down down0 le_neq_implies_less less_imp_le order.order_iff_strict)

lemma above: "order m < 0 \<Longrightarrow> i < n \<Longrightarrow> m \<le> i \<Longrightarrow> order i < 0"
  by (metis below not_le)

lemma below_pos: "order m > 0 \<Longrightarrow> m < n \<Longrightarrow> i \<le> m \<Longrightarrow> order i > 0"
  by (metis down le_neq_implies_less)

lemma above_le: "order m = 0 \<Longrightarrow> i < n \<Longrightarrow> m \<le> i \<Longrightarrow> order i \<le> 0"
  by (metis below_pos le_less_linear less_irrefl)

lemma bs_end: "bs_inv mode l l ret \<Longrightarrow> bs_post mode (ret, l)"
proof (cases "ret = KErrNone")
  case True
  assume I: "bs_inv mode l l ret"
  have ex: "\<exists>j<n. order j = 0"
  proof (cases mode)
    case EArrayFindMode_Last
    then show ?thesis using I True by (intro exI [of _ "l - 1"]) (auto simp: bs_inv_def)
  qed (use I True in \<open>auto simp: bs_inv_def\<close>)
  show ?thesis
    using I True unfolding bs_post_def if_P [OF ex] by (cases mode) (auto simp: bs_inv_def le_less)
next
  case False
  assume I: "bs_inv mode l l ret"
  have none: "\<not> (\<exists>j<n. order j = 0)" using I False by (auto simp: bs_inv_def)
  then have "\<forall>j<l. order j > 0" "\<forall>j. l \<le> j \<and> j < n \<longrightarrow> order j < 0"
    using I by (auto simp: bs_inv_def)
  then show ?thesis using I False none by (simp add: bs_inv_def bs_post_def)
qed

lemma bs_first:
  assumes I: "bs_inv EArrayFindMode_First l r ret" and m: "l \<le> m" "m < r" "order m = 0"
  shows "bs_inv EArrayFindMode_First l m KErrNone"
proof -
  have "order i < 0 \<or> order i = 0" if "m \<le> i" "i < n" for i
    using above_le [OF m(3) that(2,1)] by linarith
  then show ?thesis using I m by (auto simp: bs_inv_def)
qed

lemma bs_last:
  assumes I: "bs_inv EArrayFindMode_Last l r ret" and m: "l \<le> m" "m < r" "order m = 0"
  shows "bs_inv EArrayFindMode_Last (m + 1) r KErrNone"
proof -
  have "m < n" using I m(2) by (simp add: bs_inv_def)
  then have "order i > 0 \<or> order i = 0" if "i < m + 1" for i
    using below [of m i] m(3) that by (simp add: less_Suc_eq_le le_less)
  then show ?thesis using I m by (auto simp: bs_inv_def)
qed

lemma bs_right:
  assumes I: "bs_inv mode l r ret" and m: "l \<le> m" "m < r" "order m > 0"
  shows "bs_inv mode (m + 1) r ret"
proof -
  have n: "m < n" using I m(2) by (simp add: bs_inv_def)
  have pos: "order i > 0" if "i < m + 1" for i using below_pos [OF m(3) n, of i] that by simp
  have z: "m < i" if "order i = 0" for i using pos [of i] that by (cases "i < m + 1") auto
  have "order (l - 1) \<noteq> 0" using m(1) pos [of "l - 1"] by force
  then show ?thesis using I m pos z by (auto simp: bs_inv_def Suc_le_eq)
qed

lemma bs_left:
  assumes I: "bs_inv mode l r ret" and m: "l \<le> m" "m < r" "order m < 0"
  shows "bs_inv mode l m ret"
proof -
  have neg: "order i < 0" if "m \<le> i" "i < n" for i using above [OF m(3) that(2,1)] .
  have z: "i < m" if "order i = 0" "i < n" for i using neg [of i] that by (cases "m \<le> i") auto
  have "r < n \<Longrightarrow> order r \<noteq> 0" using m(2) neg [of r] by auto
  then show ?thesis using I m neg z by (auto simp: bs_inv_def)
qed

lemma bs_loop_correct: "bs_inv mode l r ret \<Longrightarrow> bs_post mode (bs_loop order mode l r ret)"
proof (induction "r - l" arbitrary: l r ret rule: less_induct)
  case less
  show ?case
  proof (cases "r > l")
    case False
    then have "l = r" using less.prems by (simp add: bs_inv_def)
    then show ?thesis using bs_end less.prems by (simp add: bs_loop.simps)
  next
    case True
    define m where "m = (l + r) div 2"
    have m: "l \<le> m" "m < r" using True by (auto simp: m_def)
    have n: "m < n" using m less.prems by (simp add: bs_inv_def)
    note IH = less.hyps and step = bs_loop.simps [of order mode l r ret, folded m_def]
    consider "order m > 0" | "order m < 0" | "order m = 0" by linarith
    then show ?thesis
    proof cases
      case 1
      then show ?thesis using IH [OF _ bs_right [OF less.prems m 1]] m True step by simp
    next
      case 2
      then show ?thesis using IH [OF _ bs_left [OF less.prems m 2]] m True step by simp
    next
      case 3
      show ?thesis
      proof (cases mode)
        case EArrayFindMode_Any
        then show ?thesis using 3 n True step by (auto simp: bs_post_def)
      next
        case EArrayFindMode_First
        then have "bs_inv mode l m KErrNone" using bs_first [OF _ m 3] less.prems by simp
        then show ?thesis using IH [of m l] EArrayFindMode_First m True step 3 by simp
      next
        case EArrayFindMode_Last
        then have "bs_inv mode (m + 1) r KErrNone" using bs_last [OF _ m 3] less.prems by simp
        then show ?thesis using IH [of r "m + 1"] EArrayFindMode_Last m True step 3 by simp
      qed
    qed
  qed
qed

lemma bs_search: "bs_post mode (bs_loop order mode 0 n KErrNotFound)"
  by (rule bs_loop_correct) (simp add: bs_inv_def)

end

end
