(* ===== verification/Arr_Ops.thy ===== *)
theory Arr_Ops
  imports Arr_Search
begin

text \<open>
  The operations of the growable arrays against lists: the invariant of the memory block, the list
  an array stands for, and what each operation does to it.
\<close>

section \<open>Bit-level granularity against arithmetic\<close>

lemma and_65535: "x AND 65535 = x mod (65536 :: int)"
  using take_bit_eq_mask [of 16 x] by (simp add: take_bit_eq_mod mask_eq_exp_minus_1)

lemma and_32767: "x AND 32767 = x mod (32768 :: int)"
  using take_bit_eq_mask [of 15 x] by (simp add: take_bit_eq_mod mask_eq_exp_minus_1)

lemma factor_bits: "drop_bit 16 (g AND 0x7fff0000) = (g div 65536) mod (32768 :: int)"
proof -
  have "drop_bit 16 (g AND 0x7fff0000) = drop_bit 16 g AND drop_bit 16 (0x7fff0000 :: int)"
    by (rule drop_bit_and)
  then show ?thesis by (simp add: drop_bit_eq_div and_32767)
qed

lemma exp_granularity_eq:
  assumes "0 \<le> m" "m < 65536" "0 \<le> f" "f < 32768"
  shows "exp_granularity m f = m + f * 65536 - 0x80000000"
proof -
  have b: "bit (65536 * f) n \<longleftrightarrow> 16 \<le> n \<and> bit f (n - 16)" for n
    using bit_push_bit_iff_int [of 16 f n] by (simp add: push_bit_eq_mult mult.commute)
  have small: "bit m n \<Longrightarrow> n < 16" for n
    using assms(1,2) take_bit_int_eq_self [of m 16] bit_take_bit_iff [of 16 m n] by auto
  have smallf: "bit f n \<Longrightarrow> n < 15" for n
    using assms(3,4) take_bit_int_eq_self [of f 15] bit_take_bit_iff [of 15 f n] by auto
  have "m OR push_bit 16 f = m + push_bit 16 f"
    by (rule disjunctive_add [symmetric]) (use small in \<open>force simp: bit_push_bit_iff_int\<close>)
  moreover have b31: "bit (push_bit 31 (1 :: int)) n \<longleftrightarrow> n = 31" for n
    by (simp only: push_bit_of_1 bit_exp_iff) auto
  moreover have no31: "\<not> bit (m OR push_bit 16 f) 31"
    using small [of 31] smallf [of 15] by (auto simp: bit_or_iff bit_push_bit_iff_int)
  moreover have "(m OR push_bit 16 f) OR push_bit 31 1 = (m OR push_bit 16 f) + push_bit 31 1"
    by (rule disjunctive_add [symmetric])
      (use no31 in \<open>auto simp: b31 simp del: push_bit_of_1\<close>)
  ultimately have "(m OR push_bit 16 f) OR push_bit 31 1 = m + push_bit 16 f + push_bit 31 1" by simp
  then have "m OR push_bit 16 f OR 0x80000000 = m + f * 65536 + 0x80000000"
    unfolding or.assoc by (simp add: push_bit_eq_mult)
  then show ?thesis using assms by (simp add: exp_granularity_def to_TInt_def)
qed

section \<open>Sizes\<close>

definition gran_ok :: "int \<Rightarrow> bool" where
  "gran_ok g \<longleftrightarrow> 0 < g \<or> (g < 0 \<and> 0 < g mod 65536 \<and> 256 < (g div 65536) mod 32768)"

lemma gran_ok_exp:
  assumes "0 < m" "m \<le> KMaxArrayGrowBy" "KMinArrayFactor \<le> f" "f \<le> KMaxArrayFactor"
  shows "gran_ok (exp_granularity m f)"
proof -
  have e: "exp_granularity m f = m + (f - 32768) * 65536" using assms by (simp add: exp_granularity_eq)
  have "(m + (f - 32768) * 65536) mod 65536 = m" "(m + (f - 32768) * 65536) div 65536 = f - 32768"
    using assms by (simp_all only: mod_mult_self1 div_mult_self1) simp_all
  moreover have "(f - 32768) mod 32768 = f"
    using assms mod_add_self2 [of "f - 32768" 32768] by simp
  ultimately show ?thesis using assms unfolding gran_ok_def e by simp
qed

lemma grow_size:
  assumes "gran_ok g" "0 \<le> n" "n \<le> limit"
  shows "CalculateArraySizeAfterGrow n g limit = KErrNoMemory \<or>
    (n < CalculateArraySizeAfterGrow n g limit \<and> CalculateArraySizeAfterGrow n g limit \<le> limit)"
  using assms by (auto simp: CalculateArraySizeAfterGrow_def gran_ok_def and_65535 factor_bits Let_def)

lemma shrink_size:
  assumes "gran_ok g" "0 \<le> u" "u \<le> n"
  shows "u \<le> CalculateArraySizeAfterShrink n g u" "CalculateArraySizeAfterShrink n g u \<le> n"
proof -
  define step where "step = (if g < 0 then g mod 65536 else g)"
  have pos: "0 < step" using assms(1) by (auto simp: step_def gran_ok_def)
  have r: "u \<le> ((u + (step - 1)) div step) * step" "((u + (step - 1)) div step) * step \<le> u + (step - 1)"
    using pos mult_div_mod_eq [of step "u + (step - 1)"] pos_mod_bound [OF pos, of "u + (step - 1)"]
      pos_mod_sign [OF pos, of "u + (step - 1)"] unfolding mult.commute [of _ step] by linarith+
  have eq: "CalculateArraySizeAfterShrink n g u =
      (if n - u < step then n else ((u + (step - 1)) div step) * step)"
    by (simp add: CalculateArraySizeAfterShrink_def step_def and_65535 Let_def)
  show "u \<le> CalculateArraySizeAfterShrink n g u" "CalculateArraySizeAfterShrink n g u \<le> n"
    using r assms unfolding eq by auto
qed

section \<open>The invariant and the list\<close>

definition arr_inv :: "int \<Rightarrow> ('a, 'z) arr_scheme \<Rightarrow> bool" where
  "arr_inv limit a \<longleftrightarrow>
     0 \<le> iCount a \<and> iCount a \<le> iAllocated a \<and> iAllocated a \<le> limit \<and>
     length (iEntries a) = nat (iAllocated a) \<and> gran_ok (iGranularity a)"

definition elems :: "('a, 'z) arr_scheme \<Rightarrow> 'a list" where
  "elems a = take (nat (iCount a)) (iEntries a)"

lemma length_elems: "arr_inv limit a \<Longrightarrow> length (elems a) = nat (iCount a)"
  by (auto simp: arr_inv_def elems_def)

lemma elems_nth: "i < nat (iCount a) \<Longrightarrow> elems a ! i = iEntries a ! i"
  by (simp add: elems_def)

lemma length_resize [simp]: "length (resize heap n xs) = n"
  by (simp add: resize_def)

lemma take_resize: "k \<le> n \<Longrightarrow> k \<le> length xs \<Longrightarrow> take k (resize heap n xs) = take k xs"
  by (simp add: resize_def)

lemma resized:
  assumes "arr_inv limit a" "iCount a \<le> n" "n \<le> limit"
  shows "arr_inv limit (a\<lparr>iEntries := resize heap (nat n) (iEntries a), iAllocated := n\<rparr>)"
    "elems (a\<lparr>iEntries := resize heap (nat n) (iEntries a), iAllocated := n\<rparr>) = elems a"
  using assms by (simp_all add: arr_inv_def elems_def take_resize nat_mono)

definition room :: "'a heap_env \<Rightarrow> int \<Rightarrow> int \<Rightarrow> ('a, 'z) arr_scheme \<Rightarrow> int \<times> ('a, 'z) arr_scheme" where
  "room heap limit esz a = (if iCount a = iAllocated a then arr_Grow heap limit esz a else (KErrNone, a))"

lemma room_cases:
  assumes inv: "arr_inv limit a"
  obtains (full) "room heap limit esz a = (KErrNoMemory, a)" "iCount a = iAllocated a"
    | (ok) a' where "room heap limit esz a = (KErrNone, a')" "arr_inv limit a'" "elems a' = elems a"
      "iCount a' = iCount a" "iCount a < iAllocated a'" "arr.more a' = arr.more a" "iGranularity a' = iGranularity a"
proof (cases "iCount a = iAllocated a")
  case False
  then show ?thesis using inv ok [of a] by (simp add: room_def arr_inv_def)
next
  case True
  let ?n = "CalculateArraySizeAfterGrow (iAllocated a) (iGranularity a) limit"
  have n: "?n = KErrNoMemory \<or> iAllocated a < ?n \<and> ?n \<le> limit"
    using inv by (intro grow_size) (auto simp: arr_inv_def)
  show ?thesis
  proof (cases "?n < 0 \<or> \<not> alloc_ok heap (?n * esz)")
    case bad: True
    then have "room heap limit esz a = (KErrNoMemory, a)"
      using n True inv by (auto simp: room_def arr_Grow_def Let_def arr_inv_def)
    then show ?thesis using full True by blast
  next
    case False
    then have "iCount a \<le> ?n" "?n \<le> limit" using n True by auto
    then show ?thesis
      using False n True resized [OF inv, of ?n heap]
        ok [of "a\<lparr>iEntries := resize heap (nat ?n) (iEntries a), iAllocated := ?n\<rparr>"]
      by (auto simp: room_def arr_Grow_def Let_def)
  qed
qed

section \<open>Append, Insert, Remove\<close>

lemma arr_Append_room:
  "arr_Append heap limit esz a x =
     (let (r, a') = room heap limit esz a
      in if r \<noteq> KErrNone then Inr (r, a')
         else ebind (wr (iEntries a') (nat (iCount a')) x) (\<lambda>es.
              Inr (KErrNone, a'\<lparr>iEntries := es, iCount := iCount a' + 1\<rparr>)))"
  by (simp add: arr_Append_def room_def)

lemma arr_Append_list:
  assumes inv: "arr_inv limit a"
  shows "(arr_Append heap limit esz a x = Inr (KErrNoMemory, a) \<and> iCount a = iAllocated a) \<or>
    (\<exists>a'. arr_Append heap limit esz a x = Inr (KErrNone, a') \<and> arr_inv limit a' \<and> elems a' = elems a @ [x])"
  using inv
proof (cases rule: room_cases [of limit a heap esz])
  case full
  then show ?thesis by (simp add: arr_Append_room)
next
  case (ok a')
  let ?b = "a'\<lparr>iEntries := (iEntries a')[nat (iCount a') := x], iCount := iCount a' + 1\<rparr>"
  have lt: "nat (iCount a') < length (iEntries a')" using ok(2,4,5) by (auto simp: arr_inv_def)
  have "elems ?b = elems a' @ [x]"
    using ok(2) lt by (simp add: elems_def arr_inv_def nat_add_distrib take_Suc_conv_app_nth)
  moreover have "arr_inv limit ?b" using ok(2,4,5) by (simp add: arr_inv_def)
  ultimately show ?thesis using ok(1,3) lt by (simp add: arr_Append_room)
qed

lemma wordmove_up:
  assumes "p \<le> c" "c < length xs"
  shows "wordmove (Suc p) p (c - p) xs = Inr (take (Suc p) xs @ take (c - p) (drop p xs) @ drop (Suc c) xs)"
  using assms by (simp add: wordmove_def)

lemma insert_cells:
  assumes "p \<le> c" "c < length xs"
  shows "take (Suc c) ((take (Suc p) xs @ take (c - p) (drop p xs) @ drop (Suc c) xs)[p := x]) =
    take p (take c xs) @ x # drop p (take c xs)"
proof -
  have "(take (Suc p) xs @ ys)[p := x] = take p xs @ x # ys" for ys
    using assms by (simp add: take_Suc_conv_app_nth list_update_append)
  moreover have "min (length xs - p) (c - p) = c - p" "min (length xs) p = p" using assms by auto
  ultimately show ?thesis using assms by (simp add: drop_take Suc_diff_le)
qed

lemma arr_Insert_room:
  "arr_Insert heap limit esz a x aPos =
     assert_always ''EBadArrayPosition'' (aPos \<ge> 0 \<and> aPos \<le> iCount a)
      (let (r, a') = room heap limit esz a
       in if r \<noteq> KErrNone then Inr (r, a')
          else let entries = iCount a' - aPos
               in ebind (if entries \<noteq> 0
                         then wordmove (nat (aPos + 1)) (nat aPos) (nat entries) (iEntries a')
                         else Inr (iEntries a')) (\<lambda>es.
                  ebind (wr es (nat aPos) x) (\<lambda>es'.
                  Inr (KErrNone, a'\<lparr>iEntries := es', iCount := iCount a' + 1\<rparr>))))"
  by (simp add: arr_Insert_def room_def)

lemma arr_Insert_list:
  assumes inv: "arr_inv limit a"
  shows "if 0 \<le> aPos \<and> aPos \<le> iCount a
    then (arr_Insert heap limit esz a x aPos = Inr (KErrNoMemory, a) \<and> iCount a = iAllocated a) \<or>
         (\<exists>a'. arr_Insert heap limit esz a x aPos = Inr (KErrNone, a') \<and> arr_inv limit a' \<and>
            elems a' = take (nat aPos) (elems a) @ x # drop (nat aPos) (elems a))
    else arr_Insert heap limit esz a x aPos = Inl (Panic ''EBadArrayPosition'')"
proof (cases "0 \<le> aPos \<and> aPos \<le> iCount a")
  case False
  then show ?thesis by (auto simp: arr_Insert_def)
next
  case pos: True
  show ?thesis
    using inv
  proof (cases rule: room_cases [of limit a heap esz])
    case full
    then show ?thesis using pos by (simp add: arr_Insert_room)
  next
    case (ok a')
    let ?p = "nat aPos" and ?c = "nat (iCount a)" and ?xs = "iEntries a'"
    let ?es = "(take (Suc ?p) ?xs @ take (?c - ?p) (drop ?p ?xs) @ drop (Suc ?c) ?xs)[?p := x]"
    have c: "?p \<le> ?c" "?c < length ?xs" using pos ok(2,5) by (auto simp: arr_inv_def)
    have move: "(if iCount a' - aPos \<noteq> 0 then wordmove (nat (aPos + 1)) ?p (nat (iCount a' - aPos)) ?xs else Inr ?xs) =
        Inr (take (Suc ?p) ?xs @ take (?c - ?p) (drop ?p ?xs) @ drop (Suc ?c) ?xs)"
      using wordmove_up [OF c] pos ok(4) by (simp add: nat_diff_distrib nat_add_distrib)
    have "arr_Insert heap limit esz a x aPos = Inr (KErrNone, a'\<lparr>iEntries := ?es, iCount := iCount a' + 1\<rparr>)"
      using pos ok(1) c move by (simp add: arr_Insert_room Let_def)
    moreover have "arr_inv limit (a'\<lparr>iEntries := ?es, iCount := iCount a' + 1\<rparr>)"
      using ok(2,4,5) c by (auto simp: arr_inv_def)
    moreover have "elems (a'\<lparr>iEntries := ?es, iCount := iCount a' + 1\<rparr>) =
        take ?p (elems a) @ x # drop ?p (elems a)"
    proof -
      have "take ?c ?xs = elems a" "nat (iCount a' + 1) = Suc ?c"
        using ok(3,4) pos by (simp_all add: elems_def nat_add_distrib)
      then show ?thesis using insert_cells [OF c, of x] by (simp add: elems_def)
    qed
    ultimately show ?thesis using pos by simp
  qed
qed

lemma remove_cells:
  assumes "i < c" "c \<le> length xs"
  shows "take (c - 1) (take i xs @ take (c - Suc i) (drop (Suc i) xs) @ zs) =
    take i (take c xs) @ drop (Suc i) (take c xs)"
proof -
  have "length (take i xs) = i" "length (take (c - Suc i) (drop (Suc i) xs)) = c - Suc i"
    "c - 1 - i = c - Suc i" "c - 1 - i - (c - Suc i) = 0" "min i (c - 1) = i" "min i c = i"
    using assms by auto
  then show ?thesis by (simp add: drop_take)
qed

lemma arr_Remove_list:
  assumes inv: "arr_inv limit a"
  shows "if 0 \<le> i \<and> i < iCount a
    then \<exists>a'. arr_Remove a i = Inr a' \<and> arr_inv limit a' \<and>
           elems a' = take (nat i) (elems a) @ drop (Suc (nat i)) (elems a)
    else arr_Remove a i = Inl (Panic ''EBadArrayIndex'')"
proof (cases "0 \<le> i \<and> i < iCount a")
  case False
  then show ?thesis by (auto simp: arr_Remove_def)
next
  case True
  let ?i = "nat i" and ?c = "nat (iCount a)" and ?xs = "iEntries a"
  have c: "?i < ?c" "?c \<le> length ?xs" using True inv by (auto simp: arr_inv_def)
  let ?es = "take ?i ?xs @ take (?c - Suc ?i) (drop (Suc ?i) ?xs) @ drop (?i + (?c - Suc ?i)) ?xs"
  have n: "nat (iCount a - i - 1) = ?c - Suc ?i" using True by linarith
  have "(if iCount a - i - 1 \<noteq> 0 then wordmove ?i (nat (i + 1)) (nat (iCount a - i - 1)) ?xs else Inr ?xs) = Inr ?es"
  proof (cases "iCount a - i - 1 = 0")
    case True
    then show ?thesis using n by simp
  next
    case False
    have "?i + (?c - Suc ?i) \<le> length ?xs" "Suc ?i + (?c - Suc ?i) \<le> length ?xs" using c by auto
    then show ?thesis using False True n by (simp add: wordmove_def nat_add_distrib)
  qed
  then have "arr_Remove a i = Inr (a\<lparr>iEntries := ?es, iCount := iCount a - 1\<rparr>)"
    using True by (simp add: arr_Remove_def Let_def)
  moreover have "arr_inv limit (a\<lparr>iEntries := ?es, iCount := iCount a - 1\<rparr>)"
    using inv c True by (auto simp: arr_inv_def)
  moreover have "elems (a\<lparr>iEntries := ?es, iCount := iCount a - 1\<rparr>) =
      take ?i (elems a) @ drop (Suc ?i) (elems a)"
    using remove_cells [OF c] True by (simp add: elems_def nat_diff_distrib)
  ultimately show ?thesis using True by simp
qed

end
