(* ===== verification/Arr_Sort.thy ===== *)
theory Arr_Sort
  imports Arr "HOL-Library.Multiset"
begin

text \<open>
  The heap sorts of the arrays. The loop is written once over the test "is greater than"; a
  locale states that the test comes from a total preorder, and is interpreted on the signed and
  unsigned comparison of words, on the keys of \<open>RArrayBase\<close> entries and on a client's
  \<open>TGeneralLinearOrder\<close>.
\<close>

section \<open>Definitions\<close>

text \<open>
  The inner loop carries the entry \<open>si\<close> down from the hole at \<open>ii\<close>, past the greater child
  \<open>j\<close> of each position; the store of \<open>si\<close> that follows the loop is its last step here.
\<close>

definition bigger_child :: "('a \<Rightarrow> 'a \<Rightarrow> bool) \<Rightarrow> nat \<Rightarrow> nat \<Rightarrow> 'a list \<Rightarrow> nat" where
  "bigger_child gt ss jj xs =
     (let j2 = (jj + 1) * 2
      in if j2 \<ge> ss \<or> gt (xs ! (j2 - 1)) (xs ! j2) then j2 - 1 else j2)"

lemma bigger_child_less: "jj < bigger_child gt ss jj xs"
  by (simp add: bigger_child_def Let_def)

function sift :: "('a \<Rightarrow> 'a \<Rightarrow> bool) \<Rightarrow> nat \<Rightarrow> 'a \<Rightarrow> nat \<Rightarrow> nat \<Rightarrow> 'a list \<Rightarrow> 'a list" where
  "sift gt ss si ii jj xs =
     (let j = bigger_child gt ss jj xs
      in if j \<ge> ss \<or> \<not> gt (xs ! j) si then xs[ii := si]
         else sift gt ss si j j (xs[ii := xs ! j]))"
  by pat_completeness auto
termination
  by (relation "measure (\<lambda>(gt, ss, si, ii, jj, xs). ss - jj)")
    (auto simp: not_le intro!: diff_less_mono2 bigger_child_less intro: less_trans [OF bigger_child_less])

declare sift.simps [simp del]

lemma sift_stop:
  "bigger_child gt ss jj xs \<ge> ss \<or> \<not> gt (xs ! bigger_child gt ss jj xs) si \<Longrightarrow>
   sift gt ss si ii jj xs = xs[ii := si]"
  by (subst sift.simps) (simp add: Let_def)

lemma sift_go:
  "\<not> (bigger_child gt ss jj xs \<ge> ss \<or> \<not> gt (xs ! bigger_child gt ss jj xs) si) \<Longrightarrow>
   sift gt ss si ii jj xs =
   sift gt ss si (bigger_child gt ss jj xs) (bigger_child gt ss jj xs) (xs[ii := xs ! bigger_child gt ss jj xs])"
  by (subst sift.simps) (simp add: Let_def)

text \<open>
  The outer loop: while \<open>sh\<close> counts down the heap is built, then \<open>ss\<close> counts down and the
  greatest entry is moved to the end. The test of \<open>ss\<close> is made once, before the loop, in the
  source; inside the loop it always holds.
\<close>

function hs_loop :: "('a \<Rightarrow> 'a \<Rightarrow> bool) \<Rightarrow> nat \<Rightarrow> nat \<Rightarrow> 'a list \<Rightarrow> 'a list" where
  "hs_loop gt sh ss xs =
     (if ss > 1
      then if sh \<noteq> 0
           then hs_loop gt (sh - 1) ss (sift gt ss (xs ! (sh - 1)) (sh - 1) (sh - 1) xs)
           else let ss' = ss - 1; si = xs ! ss'; xs' = xs[ss' := xs ! 0]
                in if ss' = 1 then xs'[0 := si]
                   else hs_loop gt 0 ss' (sift gt ss' si 0 0 xs')
      else xs)"
  by pat_completeness auto
termination
  by (relation "measure (\<lambda>(gt, sh, ss, xs). sh + ss)") auto

declare hs_loop.simps [simp del]

definition heap_sort :: "('a \<Rightarrow> 'a \<Rightarrow> bool) \<Rightarrow> nat \<Rightarrow> 'a list \<Rightarrow> 'a list" where
  "heap_sort gt n xs = hs_loop gt (n div 2) n xs"

definition arr_HeapSort :: "('a \<Rightarrow> 'a \<Rightarrow> bool) \<Rightarrow> ('a, 'z) arr_scheme \<Rightarrow> ('a, 'z) arr_scheme" where
  "arr_HeapSort gt a = a\<lparr>iEntries := heap_sort gt (nat (iCount a)) (iEntries a)\<rparr>"

section \<open>Cells beyond the ones sorted\<close>

lemma length_sift [simp]: "length (sift gt ss si ii jj xs) = length xs"
proof (induction gt ss si ii jj xs rule: sift.induct)
  case (1 gt ss si ii jj xs)
  then show ?case by (subst sift.simps) (auto simp: Let_def)
qed

lemma bigger_child_append: "ss \<le> length us \<Longrightarrow> bigger_child gt ss jj (us @ vs) = bigger_child gt ss jj us"
  by (auto simp: bigger_child_def Let_def nth_append)

lemma sift_append:
  "ii < length us \<Longrightarrow> ss \<le> length us \<Longrightarrow> sift gt ss si ii jj (us @ vs) = sift gt ss si ii jj us @ vs"
proof (induction gt ss si ii jj us rule: sift.induct)
  case (1 gt ss si ii jj us)
  let ?j = "bigger_child gt ss jj us"
  note j = bigger_child_append [OF "1.prems"(2), of gt jj vs]
  show ?case
  proof (cases "?j \<ge> ss \<or> \<not> gt (us ! ?j) si")
    case True
    then have "?j \<ge> ss \<or> \<not> gt ((us @ vs) ! ?j) si" using "1.prems" by (auto simp: nth_append)
    then show ?thesis
      using sift_stop [OF True] sift_stop [of ss gt jj "us @ vs" si] "1.prems"
      by (simp add: j list_update_append)
  next
    case False
    then have nj: "(us @ vs) ! ?j = us ! ?j" using "1.prems" by (simp add: nth_append)
    show ?thesis
      using sift_go [OF False] sift_go [of ss gt jj "us @ vs" si] "1.IH" [OF refl False] False "1.prems"
      by (simp add: j nj list_update_append)
  qed
qed

lemma hs_loop_append:
  "ss \<le> length us \<Longrightarrow> sh \<le> length us \<Longrightarrow> hs_loop gt sh ss (us @ vs) = hs_loop gt sh ss us @ vs"
proof (induction gt sh ss us rule: hs_loop.induct)
  case (1 gt sh ss us)
  show ?case
  proof (cases "ss > 1")
    case False
    then show ?thesis by (simp add: hs_loop.simps)
  next
    case ss: True
    show ?thesis
    proof (cases "sh = 0")
      case False
      then have "sh - 1 < length us" using "1.prems" by simp
      then show ?thesis
        using False ss 1 by (subst (1 2) hs_loop.simps) (simp add: sift_append nth_append)
    next
      case True
      have us: "us \<noteq> []" "ss - 1 < length us" using ss "1.prems" by auto
      show ?thesis
        using True us ss 1 by (subst (1 2) hs_loop.simps) (simp add: sift_append nth_append list_update_append Let_def)
    qed
  qed
qed

section \<open>Correctness\<close>

locale sort_order =
  fixes gt :: "'a \<Rightarrow> 'a \<Rightarrow> bool"
  assumes gt_asym: "gt a b \<Longrightarrow> \<not> gt b a"
    and le_trans: "\<not> gt a b \<Longrightarrow> \<not> gt b c \<Longrightarrow> \<not> gt a c"
begin

lemma le_refl: "\<not> gt a a"
  using gt_asym by blast

text \<open>\<open>heap_on lo ss xs\<close>: no cell below \<open>ss\<close> is greater than its parent, if the parent is at \<open>lo\<close> or later.\<close>

definition heap_on :: "nat \<Rightarrow> nat \<Rightarrow> 'a list \<Rightarrow> bool" where
  "heap_on lo ss xs \<longleftrightarrow> (\<forall>k < ss. 0 < k \<and> lo \<le> (k - 1) div 2 \<longrightarrow> \<not> gt (xs ! k) (xs ! ((k - 1) div 2)))"

text \<open>The same except below position \<open>h\<close>, whose children are not greater than its parent.\<close>

definition hole_at :: "nat \<Rightarrow> nat \<Rightarrow> nat \<Rightarrow> 'a list \<Rightarrow> bool" where
  "hole_at lo ss h xs \<longleftrightarrow>
     (\<forall>k < ss. 0 < k \<and> lo \<le> (k - 1) div 2 \<and> (k - 1) div 2 \<noteq> h \<longrightarrow> \<not> gt (xs ! k) (xs ! ((k - 1) div 2))) \<and>
     (\<forall>k < ss. 0 < k \<and> (k - 1) div 2 = h \<and> 0 < h \<and> lo \<le> (h - 1) div 2 \<longrightarrow> \<not> gt (xs ! k) (xs ! ((h - 1) div 2)))"

lemma child_cases: "0 < k \<Longrightarrow> (k - 1) div 2 = h \<longleftrightarrow> k = 2 * h + 1 \<or> k = 2 * h + (2 :: nat)"
  by auto

lemma bigger_child_max:
  assumes "k < ss" "0 < k" "(k - 1) div 2 = h"
  shows "\<not> gt (xs ! k) (xs ! bigger_child gt ss h xs)" "bigger_child gt ss h xs < ss"
proof -
  have k: "k = 2 * h + 1 \<or> k = 2 * h + 2" using assms child_cases by simp
  have c: "bigger_child gt ss h xs =
      (if 2 * h + 2 \<ge> ss \<or> gt (xs ! (2 * h + 1)) (xs ! (2 * h + 2)) then 2 * h + 1 else 2 * h + 2)"
    by (simp add: bigger_child_def Let_def mult.commute)
  show "bigger_child gt ss h xs < ss" using assms(1) k unfolding c by auto
  show "\<not> gt (xs ! k) (xs ! bigger_child gt ss h xs)"
    using assms(1) k gt_asym le_refl unfolding c by auto
qed

lemma bigger_child_parent: "(bigger_child gt ss h xs - 1) div 2 = h" "0 < bigger_child gt ss h xs"
  by (auto simp: bigger_child_def Let_def)

lemma hole_stop:
  assumes hole: "hole_at lo ss h ys"
    and stop: "bigger_child gt ss h ys \<ge> ss \<or> \<not> gt (ys ! bigger_child gt ss h ys) (ys ! h)"
  shows "heap_on lo ss ys"
  unfolding heap_on_def
proof (intro allI impI)
  fix k assume k: "k < ss" "0 < k \<and> lo \<le> (k - 1) div 2"
  show "\<not> gt (ys ! k) (ys ! ((k - 1) div 2))"
  proof (cases "(k - 1) div 2 = h")
    case True
    then have "\<not> gt (ys ! bigger_child gt ss h ys) (ys ! h)"
      using stop bigger_child_max(2) [OF k(1) _ True, of ys] k(2) by auto
    then show ?thesis using bigger_child_max(1) [OF k(1) _ True, of ys] k(2) le_trans True by blast
  next
    case False
    then show ?thesis using hole k by (simp add: hole_at_def)
  qed
qed

lemma hole_go:
  assumes hole: "hole_at lo ss h ys" and len: "ss \<le> length ys" "h < ss"
    and j: "j = bigger_child gt ss h ys" "j < ss" "gt (ys ! j) (ys ! h)" and lo: "lo \<le> h"
  shows "hole_at lo ss j (ys[h := ys ! j, j := ys ! h])"
proof -
  let ?zs = "ys[h := ys ! j, j := ys ! h]"
  have pj: "(j - 1) div 2 = h" "0 < j" using bigger_child_parent j(1) by auto
  have hj: "h < j" unfolding j(1) by (rule bigger_child_less)
  have z: "?zs ! k = (if k = j then ys ! h else if k = h then ys ! j else ys ! k)" if "k < ss" for k
    using that len j(2) by (auto simp: nth_list_update)
  have par: "(k - 1) div 2 < ss" if "k < ss" for k using that by (auto intro: le_less_trans)
  have "\<not> gt (?zs ! k) (?zs ! ((k - 1) div 2))"
    if k: "k < ss" "0 < k" "lo \<le> (k - 1) div 2" "(k - 1) div 2 \<noteq> j" for k
  proof -
    consider "k = j" | "k = h" | "k \<noteq> j" "k \<noteq> h" "(k - 1) div 2 = h" | "k \<noteq> j" "k \<noteq> h" "(k - 1) div 2 \<noteq> h"
      by blast
    then show ?thesis
    proof cases
      case 1
      then show ?thesis using z [OF k(1)] z [OF len(2)] pj hj gt_asym [OF j(3)] by simp
    next
      case 2
      have "\<not> gt (ys ! j) (ys ! ((h - 1) div 2))" using hole pj j(2) k 2 by (auto simp: hole_at_def)
      moreover have "(k - 1) div 2 < h" using 2 k(2) by linarith
      ultimately show ?thesis using 2 hj z [OF k(1)] z [OF par [OF k(1)]] by simp
    next
      case 3
      then show ?thesis
        using bigger_child_max(1) [OF k(1,2) 3(3), of ys] z [OF k(1)] z [OF par [OF k(1)]] hj j(1) by simp
    next
      case 4
      then have "\<not> gt (ys ! k) (ys ! ((k - 1) div 2))" using hole k by (simp add: hole_at_def)
      then show ?thesis using 4 k(4) z [OF k(1)] z [OF par [OF k(1)]] by simp
    qed
  qed
  moreover have "\<not> gt (?zs ! k) (?zs ! h)" if k: "k < ss" "0 < k" "(k - 1) div 2 = j" for k
  proof -
    have "j < k" using k(2,3) by linarith
    have "\<not> gt (ys ! k) (ys ! j)" using hole k hj lo by (auto simp: hole_at_def)
    then show ?thesis using z [OF k(1)] z [OF len(2)] \<open>j < k\<close> hj by simp
  qed
  ultimately show ?thesis unfolding hole_at_def pj(1) by blast
qed

lemma bigger_child_hole: "bigger_child gt ss h (xs[h := v]) = bigger_child gt ss h xs"
  by (simp add: bigger_child_def Let_def)

lemma mset_take_swap:
  assumes "i < n" "j < n" "n \<le> length xs"
  shows "mset (take n (xs[i := xs ! j, j := xs ! i])) = mset (take n xs)"
proof -
  have "take n (xs[i := xs ! j, j := xs ! i]) = (take n xs)[i := take n xs ! j, j := take n xs ! i]"
    using assms by (simp add: take_update_swap)
  then show ?thesis using assms mset_swap [of j "take n xs" i] by simp
qed

lemma sift_correct:
  assumes "hole_at lo ss ii (xs[ii := si])" "ii < ss" "ss \<le> length xs" "lo \<le> ii"
  shows "heap_on lo ss (sift gt ss si ii ii xs) \<and>
    mset (take ss (sift gt ss si ii ii xs)) = mset (take ss (xs[ii := si])) \<and>
    drop ss (sift gt ss si ii ii xs) = drop ss xs"
  using assms
proof (induction "ss - ii" arbitrary: ii xs rule: less_induct)
  case less
  let ?j = "bigger_child gt ss ii xs" and ?ys = "xs[ii := si]"
  note bc = bigger_child_hole [of ss ii xs si]
  have ij: "ii < ?j" by (rule bigger_child_less)
  have ys: "?ys ! ii = si" "?ys ! ?j = xs ! ?j" using less.prems ij by simp_all
  show ?case
  proof (cases "?j \<ge> ss \<or> \<not> gt (xs ! ?j) si")
    case True
    then have "heap_on lo ss ?ys" using hole_stop [OF less.prems(1)] bc ys by simp
    then show ?thesis using sift_stop [OF True] less.prems(2) by simp
  next
    case False
    let ?zs = "xs[ii := xs ! ?j]"
    have lt: "ss - ?j < ss - ii" using ij False by (intro diff_less_mono2) auto
    have zs: "?zs[?j := si] = ?ys[ii := ?ys ! ?j, ?j := ?ys ! ii]" using ys by simp
    have "hole_at lo ss ?j (?zs[?j := si])"
      unfolding zs by (rule hole_go [OF less.prems(1)]) (use less.prems False ys bc in auto)
    then have "heap_on lo ss (sift gt ss si ?j ?j ?zs) \<and>
        mset (take ss (sift gt ss si ?j ?j ?zs)) = mset (take ss (?zs[?j := si])) \<and>
        drop ss (sift gt ss si ?j ?j ?zs) = drop ss ?zs"
      using less.hyps [OF lt] less.prems ij False by simp
    moreover have "mset (take ss (?zs[?j := si])) = mset (take ss ?ys)"
      unfolding zs by (rule mset_take_swap) (use less.prems False in auto)
    ultimately show ?thesis using sift_go [OF False] less.prems(2) by simp
  qed
qed

lemma heap_root:
  assumes "heap_on 0 ss xs" "k < ss"
  shows "\<not> gt (xs ! k) (xs ! 0)"
  using assms(2)
proof (induction k rule: less_induct)
  case (less k)
  show ?case
  proof (cases "k = 0")
    case True
    then show ?thesis by (simp add: le_refl)
  next
    case False
    then have "\<not> gt (xs ! k) (xs ! ((k - 1) div 2))" using assms(1) less.prems by (simp add: heap_on_def)
    moreover have "\<not> gt (xs ! ((k - 1) div 2)) (xs ! 0)" using False less by (intro less.IH) auto
    ultimately show ?thesis by (rule le_trans)
  qed
qed

definition hs_inv :: "nat \<Rightarrow> nat \<Rightarrow> 'a list \<Rightarrow> bool" where
  "hs_inv sh ss xs \<longleftrightarrow>
     sh \<le> ss \<and> ss \<le> length xs \<and> heap_on sh ss xs \<and> (0 < sh \<longrightarrow> ss = length xs) \<and>
     sorted_wrt (\<lambda>a b. \<not> gt a b) (drop ss xs) \<and>
     (\<forall>x \<in> set (take ss xs). \<forall>y \<in> set (drop ss xs). \<not> gt x y)"

lemma hs_build:
  assumes I: "hs_inv sh ss xs" and "0 < sh" "1 < ss"
  shows "hs_inv (sh - 1) ss (sift gt ss (xs ! (sh - 1)) (sh - 1) (sh - 1) xs)"
    "mset (sift gt ss (xs ! (sh - 1)) (sh - 1) (sh - 1) xs) = mset xs"
proof -
  let ?h = "sh - 1" and ?r = "sift gt ss (xs ! (sh - 1)) (sh - 1) (sh - 1) xs"
  have ss: "ss = length xs" "?h < ss" using I assms(2) by (auto simp: hs_inv_def)
  have "hole_at ?h ss ?h (xs[?h := xs ! ?h])"
    using I assms(2) unfolding hole_at_def hs_inv_def heap_on_def list_update_id by auto
  then have "heap_on ?h ss ?r \<and> mset (take ss ?r) = mset (take ss xs)"
    using sift_correct [of ?h ss ?h xs "xs ! ?h"] ss by simp
  then show "hs_inv ?h ss ?r" "mset ?r = mset xs" using ss by (simp_all add: hs_inv_def)
qed

text \<open>Moving the root to the end of the heap, whatever order the rest is put in.\<close>

lemma hs_extract:
  assumes I: "hs_inv 0 ss xs" and ss: "1 < ss"
  defines "ys \<equiv> xs[ss - 1 := xs ! 0, 0 := xs ! (ss - 1)]"
  assumes r: "heap_on 0 (ss - 1) r" "mset (take (ss - 1) r) = mset (take (ss - 1) ys)"
    "drop (ss - 1) r = drop (ss - 1) ys" "length r = length xs"
  shows "hs_inv 0 (ss - 1) r" "mset r = mset xs"
proof -
  have len: "ss \<le> length xs" using I by (simp add: hs_inv_def)
  have "mset ys = mset xs" unfolding ys_def by (rule mset_swap) (use ss len in auto)
  moreover have "mset r = mset (take (ss - 1) r) + mset (drop (ss - 1) r)" for r :: "'a list"
    by (metis append_take_drop_id mset_append)
  ultimately show "mset r = mset xs" using r by metis
  have root: "\<not> gt x (xs ! 0)" if "x \<in> set (take ss xs)" for x
    using that I heap_root [of ss xs] by (auto simp: hs_inv_def in_set_conv_nth)
  have "take (ss - 1) ys = (take (ss - 1) xs)[0 := xs ! (ss - 1)]"
    using ss by (simp add: ys_def take_update_swap list_update_beyond)
  then have "set (take (ss - 1) ys) \<subseteq> insert (xs ! (ss - 1)) (set (take (ss - 1) xs))"
    by (simp add: set_update_subset_insert)
  also have "\<dots> \<subseteq> set (take ss xs)"
    using ss len set_take_subset_set_take [of "ss - 1" ss xs] by (auto simp: in_set_conv_nth intro!: exI [of _ "ss - 1"])
  finally have sub: "set (take (ss - 1) r) \<subseteq> set (take ss xs)"
    using r(2) by (metis set_mset_mset)
  have "drop (ss - 1) ys = xs ! 0 # drop ss xs"
    using ss len by (simp add: ys_def Cons_nth_drop_Suc [symmetric] drop_update_swap)
  then have dr: "drop (ss - 1) r = xs ! 0 # drop ss xs" using r(3) by simp
  have "xs ! 0 \<in> set (take ss xs)" using ss len by (auto simp: in_set_conv_nth intro!: exI [of _ 0])
  then show "hs_inv 0 (ss - 1) r"
    using I sub root r(1,4) len unfolding hs_inv_def dr by (auto simp: subset_iff)
qed

lemma hs_inv_sorted: "hs_inv 0 1 xs \<Longrightarrow> sorted_wrt (\<lambda>a b. \<not> gt a b) xs"
  by (cases xs) (auto simp: hs_inv_def)

lemma hs_loop_correct:
  "hs_inv sh ss xs \<Longrightarrow> 1 < ss \<Longrightarrow>
   sorted_wrt (\<lambda>a b. \<not> gt a b) (hs_loop gt sh ss xs) \<and> mset (hs_loop gt sh ss xs) = mset xs"
proof (induction "sh + ss" arbitrary: sh ss xs rule: less_induct)
  case less
  show ?case
  proof (cases "sh = 0")
    case False
    note b = hs_build [OF less.prems(1) _ less.prems(2)]
    have "sh - 1 + ss < sh + ss" using False by simp
    from less.hyps [OF this b(1) less.prems(2)] show ?thesis
      using False less.prems(2) b(2) by (simp add: hs_loop.simps [of gt sh ss xs])
  next
    case True
    let ?ys = "xs[ss - 1 := xs ! 0, 0 := xs ! (ss - 1)]"
    note I = less.prems(1) [unfolded True] and ext = hs_extract [OF less.prems(1) [unfolded True] less.prems(2)]
    have len: "ss \<le> length xs" using I by (simp add: hs_inv_def)
    show ?thesis
    proof (cases "ss - 1 = 1")
      case one: True
      have "hs_inv 0 1 ?ys" "mset ?ys = mset xs"
        using ext [of ?ys] one by (auto simp: heap_on_def)
      then show ?thesis
        using hs_inv_sorted True one less.prems(2) by (simp add: hs_loop.simps [of gt 0 ss xs] Let_def)
    next
      case False
      let ?xs = "xs[ss - 1 := xs ! 0]"
      let ?r = "sift gt (ss - 1) (xs ! (ss - 1)) 0 0 ?xs"
      have "hole_at 0 (ss - 1) 0 ?ys"
        using I less.prems(2) by (auto simp: hole_at_def hs_inv_def heap_on_def nth_list_update)
      then have s: "heap_on 0 (ss - 1) ?r \<and> mset (take (ss - 1) ?r) = mset (take (ss - 1) ?ys) \<and>
          drop (ss - 1) ?r = drop (ss - 1) ?xs"
        using sift_correct [of 0 "ss - 1" 0 ?xs "xs ! (ss - 1)"] less.prems(2) len by simp
      have d: "drop (ss - 1) ?xs = drop (ss - 1) ?ys" using less.prems(2) by simp
      have "hs_inv 0 (ss - 1) ?r" "mset ?r = mset xs"
        using ext [of ?r] s d by auto
      moreover have "0 + (ss - 1) < sh + ss" "1 < ss - 1" using less.prems(2) False by auto
      ultimately show ?thesis
        using less.hyps [of 0 "ss - 1" ?r] True False less.prems(2)
        by (simp add: hs_loop.simps [of gt 0 ss xs] Let_def)
    qed
  qed
qed

lemma heap_sort_correct:
  assumes "n \<le> length xs"
  shows "sorted_wrt (\<lambda>a b. \<not> gt a b) (take n (heap_sort gt n xs))"
    "mset (take n (heap_sort gt n xs)) = mset (take n xs)"
    "drop n (heap_sort gt n xs) = drop n xs"
    "length (heap_sort gt n xs) = length xs"
proof -
  have split: "heap_sort gt n xs = heap_sort gt n (take n xs) @ drop n xs"
    using hs_loop_append [of n "take n xs" "n div 2" gt "drop n xs"] assms by (simp add: heap_sort_def)
  have main: "sorted_wrt (\<lambda>a b. \<not> gt a b) (heap_sort gt n (take n xs)) \<and>
      mset (heap_sort gt n (take n xs)) = mset (take n xs)"
  proof (cases "1 < n")
    case True
    have "hs_inv (n div 2) n (take n xs)" using assms by (auto simp: hs_inv_def heap_on_def)
    then show ?thesis using hs_loop_correct True by (simp add: heap_sort_def)
  next
    case False
    then have "length (take n xs) \<le> 1" by simp
    then have "sorted_wrt (\<lambda>a b. \<not> gt a b) (take n xs)" by (cases "take n xs") auto
    then show ?thesis using False by (simp add: heap_sort_def hs_loop.simps)
  qed
  have len: "length (heap_sort gt n (take n xs)) = n" using main assms by (metis length_take min.absorb2 size_mset)
  show "sorted_wrt (\<lambda>a b. \<not> gt a b) (take n (heap_sort gt n xs))"
    "mset (take n (heap_sort gt n xs)) = mset (take n xs)"
    "drop n (heap_sort gt n xs) = drop n xs"
    "length (heap_sort gt n xs) = length xs"
    unfolding split using main len assms by simp_all
qed

end

end
