(* ===== verification/Arr_Class.thy ===== *)
theory Arr_Class
  imports Arr_Ops Arr_Sort
begin

text \<open>
  The two array classes as instances of the shared operations: \<open>RPointerArrayBase\<close> (entries of
  4 bytes, at most \<open>KMaxTInt >> 2\<close> of them) and \<open>RArrayBase\<close> (entries of \<open>iEntrySize\<close> bytes, at
  most \<open>KMaxTInt / iEntrySize\<close> of them, compared by the word at \<open>iKeyOffset\<close>). Then what their
  searches, sorted insertion, sorts and memory operations do, over any order that meets the
  contract of \<open>TGeneralLinearOrder\<close>.
\<close>

section \<open>RPointerArrayBase\<close>

abbreviation (input) ptr_limit :: int where "ptr_limit \<equiv> 0x1fffffff"

definition RPA_Append :: "TUint32 heap_env \<Rightarrow> RPointerArrayBase \<Rightarrow> TUint32 \<Rightarrow> fault + int \<times> RPointerArrayBase" where
  "RPA_Append heap a anEntry = arr_Append heap (KMaxTInt div 4) 4 a anEntry"

definition RPA_Insert :: "TUint32 heap_env \<Rightarrow> RPointerArrayBase \<Rightarrow> TUint32 \<Rightarrow> int \<Rightarrow> fault + int \<times> RPointerArrayBase" where
  "RPA_Insert heap a anEntry aPos = arr_Insert heap (KMaxTInt div 4) 4 a anEntry aPos"

definition RPA_DoReserve :: "TUint32 heap_env \<Rightarrow> RPointerArrayBase \<Rightarrow> int \<Rightarrow> fault + int \<times> RPointerArrayBase" where
  "RPA_DoReserve heap a aCount = arr_DoReserve heap (\<lambda>n. n \<ge> 0x80000000 div 4) 4 a aCount"

definition RPA_Grow :: "TUint32 heap_env \<Rightarrow> RPointerArrayBase \<Rightarrow> int \<times> RPointerArrayBase" where
  "RPA_Grow heap a = arr_Grow heap (KMaxTInt div 4) 4 a"

definition RPA_At :: "RPointerArrayBase \<Rightarrow> int \<Rightarrow> fault + TUint32" where
  "RPA_At a anIndex = arr_At a anIndex"

definition RPA_Remove :: "RPointerArrayBase \<Rightarrow> int \<Rightarrow> fault + RPointerArrayBase" where
  "RPA_Remove a anIndex = arr_Remove a anIndex"

definition RPA_Compress :: "TUint32 heap_env \<Rightarrow> RPointerArrayBase \<Rightarrow> RPointerArrayBase" where
  "RPA_Compress heap a = arr_Compress heap a"

definition RPA_GranularCompress :: "TUint32 heap_env \<Rightarrow> RPointerArrayBase \<Rightarrow> RPointerArrayBase" where
  "RPA_GranularCompress heap a = arr_GranularCompress heap a"

definition RPA_Reset :: "RPointerArrayBase \<Rightarrow> RPointerArrayBase" where
  "RPA_Reset a = arr_Reset a"

definition RPA_Close :: "RPointerArrayBase \<Rightarrow> RPointerArrayBase" where
  "RPA_Close a = arr_Reset a"

definition RPA_Find :: "RPointerArrayBase \<Rightarrow> TUint32 \<Rightarrow> int" where
  "RPA_Find a anEntry = arr_Find a (\<lambda>e. e = anEntry)"

definition RPA_FindReverse :: "RPointerArrayBase \<Rightarrow> TUint32 \<Rightarrow> int" where
  "RPA_FindReverse a anEntry = arr_FindReverse a (\<lambda>e. e = anEntry)"

definition RPA_Find_by :: "RPointerArrayBase \<Rightarrow> TUint32 \<Rightarrow> (TUint32 \<Rightarrow> TUint32 \<Rightarrow> bool) \<Rightarrow> int" where
  "RPA_Find_by a anEntry anIdentity = arr_Find a (anIdentity anEntry)"

definition RPA_FindReverse_by :: "RPointerArrayBase \<Rightarrow> TUint32 \<Rightarrow> (TUint32 \<Rightarrow> TUint32 \<Rightarrow> bool) \<Rightarrow> int" where
  "RPA_FindReverse_by a anEntry anIdentity = arr_FindReverse a (anIdentity anEntry)"

definition RPA_BinarySearchSigned :: "RPointerArrayBase \<Rightarrow> int \<Rightarrow> find_mode \<Rightarrow> int \<times> nat" where
  "RPA_BinarySearchSigned a anEntry aMode = arr_BinarySearch a (\<lambda>e. cmp3 anEntry (sint e)) aMode"

definition RPA_BinarySearchUnsigned :: "RPointerArrayBase \<Rightarrow> int \<Rightarrow> find_mode \<Rightarrow> int \<times> nat" where
  "RPA_BinarySearchUnsigned a anEntry aMode = arr_BinarySearch a (\<lambda>e. cmp3 anEntry (uint e)) aMode"

definition RPA_BinarySearch ::
    "RPointerArrayBase \<Rightarrow> TUint32 \<Rightarrow> (TUint32 \<Rightarrow> TUint32 \<Rightarrow> int) \<Rightarrow> find_mode \<Rightarrow> int \<times> nat" where
  "RPA_BinarySearch a anEntry anOrder aMode = arr_BinarySearch a (anOrder anEntry) aMode"

definition RPA_FindIsqSigned :: "RPointerArrayBase \<Rightarrow> int \<Rightarrow> find_mode \<Rightarrow> int" where
  "RPA_FindIsqSigned a anEntry aMode = arr_FindIsq a (\<lambda>e. cmp3 anEntry (sint e)) aMode"

definition RPA_FindIsqUnsigned :: "RPointerArrayBase \<Rightarrow> int \<Rightarrow> find_mode \<Rightarrow> int" where
  "RPA_FindIsqUnsigned a anEntry aMode = arr_FindIsq a (\<lambda>e. cmp3 anEntry (uint e)) aMode"

definition RPA_FindIsq ::
    "RPointerArrayBase \<Rightarrow> TUint32 \<Rightarrow> (TUint32 \<Rightarrow> TUint32 \<Rightarrow> int) \<Rightarrow> find_mode \<Rightarrow> int" where
  "RPA_FindIsq a anEntry anOrder aMode = arr_FindIsq a (anOrder anEntry) aMode"

definition RPA_InsertIsqSigned ::
    "TUint32 heap_env \<Rightarrow> RPointerArrayBase \<Rightarrow> int \<Rightarrow> bool \<Rightarrow> fault + int \<times> RPointerArrayBase" where
  "RPA_InsertIsqSigned heap a anEntry aAllowRepeats =
     arr_InsertIsq heap (KMaxTInt div 4) 4 a (word_of_int anEntry) (\<lambda>e. cmp3 anEntry (sint e)) aAllowRepeats"

definition RPA_InsertIsqUnsigned ::
    "TUint32 heap_env \<Rightarrow> RPointerArrayBase \<Rightarrow> int \<Rightarrow> bool \<Rightarrow> fault + int \<times> RPointerArrayBase" where
  "RPA_InsertIsqUnsigned heap a anEntry aAllowRepeats =
     arr_InsertIsq heap (KMaxTInt div 4) 4 a (word_of_int anEntry) (\<lambda>e. cmp3 anEntry (uint e)) aAllowRepeats"

definition RPA_InsertIsq ::
    "TUint32 heap_env \<Rightarrow> RPointerArrayBase \<Rightarrow> TUint32 \<Rightarrow> (TUint32 \<Rightarrow> TUint32 \<Rightarrow> int) \<Rightarrow> bool \<Rightarrow>
     fault + int \<times> RPointerArrayBase" where
  "RPA_InsertIsq heap a anEntry anOrder aAllowRepeats =
     arr_InsertIsq heap (KMaxTInt div 4) 4 a anEntry (anOrder anEntry) aAllowRepeats"

definition RPA_HeapSortSigned :: "RPointerArrayBase \<Rightarrow> RPointerArrayBase" where
  "RPA_HeapSortSigned a = arr_HeapSort (\<lambda>x y. sint x > sint y) a"

definition RPA_HeapSortUnsigned :: "RPointerArrayBase \<Rightarrow> RPointerArrayBase" where
  "RPA_HeapSortUnsigned a = arr_HeapSort (\<lambda>x y. uint x > uint y) a"

definition RPA_HeapSort :: "RPointerArrayBase \<Rightarrow> (TUint32 \<Rightarrow> TUint32 \<Rightarrow> int) \<Rightarrow> RPointerArrayBase" where
  "RPA_HeapSort a anOrder = arr_HeapSort (\<lambda>x y. anOrder x y > 0) a"

section \<open>RArrayBase\<close>

text \<open>The word of an entry at the key offset.\<close>

definition entry_key :: "RArrayBase \<Rightarrow> TUint32 list \<Rightarrow> TUint32" where
  "entry_key a e = e ! nat (iKeyOffset a div 4)"

definition RA_Append :: "TUint32 list heap_env \<Rightarrow> RArrayBase \<Rightarrow> TUint32 list \<Rightarrow> fault + int \<times> RArrayBase" where
  "RA_Append heap a anEntry = arr_Append heap (KMaxTInt div iEntrySize a) (iEntrySize a) a anEntry"

definition RA_Insert :: "TUint32 list heap_env \<Rightarrow> RArrayBase \<Rightarrow> TUint32 list \<Rightarrow> int \<Rightarrow> fault + int \<times> RArrayBase" where
  "RA_Insert heap a anEntry aPos = arr_Insert heap (KMaxTInt div iEntrySize a) (iEntrySize a) a anEntry aPos"

definition RA_DoReserve :: "TUint32 list heap_env \<Rightarrow> RArrayBase \<Rightarrow> int \<Rightarrow> fault + int \<times> RArrayBase" where
  "RA_DoReserve heap a aCount =
     arr_DoReserve heap (\<lambda>n. n * iEntrySize a > KMaxTInt) (iEntrySize a) a aCount"

definition RA_Grow :: "TUint32 list heap_env \<Rightarrow> RArrayBase \<Rightarrow> int \<times> RArrayBase" where
  "RA_Grow heap a = arr_Grow heap (KMaxTInt div iEntrySize a) (iEntrySize a) a"

text \<open>\<open>At\<close> returns the address of the entry in the source; this is the entry.\<close>

definition RA_At :: "RArrayBase \<Rightarrow> int \<Rightarrow> fault + TUint32 list" where
  "RA_At a anIndex = arr_At a anIndex"

definition RA_Remove :: "RArrayBase \<Rightarrow> int \<Rightarrow> fault + RArrayBase" where
  "RA_Remove a anIndex = arr_Remove a anIndex"

definition RA_Compress :: "TUint32 list heap_env \<Rightarrow> RArrayBase \<Rightarrow> RArrayBase" where
  "RA_Compress heap a = arr_Compress heap a"

definition RA_GranularCompress :: "TUint32 list heap_env \<Rightarrow> RArrayBase \<Rightarrow> RArrayBase" where
  "RA_GranularCompress heap a = arr_GranularCompress heap a"

definition RA_Reset :: "RArrayBase \<Rightarrow> RArrayBase" where
  "RA_Reset a = arr_Reset a"

definition RA_Close :: "RArrayBase \<Rightarrow> RArrayBase" where
  "RA_Close a = arr_Reset a"

definition RA_Find :: "RArrayBase \<Rightarrow> TUint32 list \<Rightarrow> int" where
  "RA_Find a anEntry = arr_Find a (\<lambda>e. entry_key a e = entry_key a anEntry)"

definition RA_FindReverse :: "RArrayBase \<Rightarrow> TUint32 list \<Rightarrow> int" where
  "RA_FindReverse a anEntry = arr_FindReverse a (\<lambda>e. entry_key a e = entry_key a anEntry)"

definition RA_Find_by :: "RArrayBase \<Rightarrow> TUint32 list \<Rightarrow> (TUint32 list \<Rightarrow> TUint32 list \<Rightarrow> bool) \<Rightarrow> int" where
  "RA_Find_by a anEntry anIdentity = arr_Find a (anIdentity anEntry)"

definition RA_FindReverse_by :: "RArrayBase \<Rightarrow> TUint32 list \<Rightarrow> (TUint32 list \<Rightarrow> TUint32 list \<Rightarrow> bool) \<Rightarrow> int" where
  "RA_FindReverse_by a anEntry anIdentity = arr_FindReverse a (anIdentity anEntry)"

definition RA_order_signed :: "RArrayBase \<Rightarrow> TUint32 list \<Rightarrow> TUint32 list \<Rightarrow> int" where
  "RA_order_signed a x y = cmp3 (sint (entry_key a x)) (sint (entry_key a y))"

definition RA_order_unsigned :: "RArrayBase \<Rightarrow> TUint32 list \<Rightarrow> TUint32 list \<Rightarrow> int" where
  "RA_order_unsigned a x y = cmp3 (uint (entry_key a x)) (uint (entry_key a y))"

definition RA_BinarySearchSigned :: "RArrayBase \<Rightarrow> TUint32 list \<Rightarrow> find_mode \<Rightarrow> int \<times> nat" where
  "RA_BinarySearchSigned a anEntry aMode = arr_BinarySearch a (RA_order_signed a anEntry) aMode"

definition RA_BinarySearchUnsigned :: "RArrayBase \<Rightarrow> TUint32 list \<Rightarrow> find_mode \<Rightarrow> int \<times> nat" where
  "RA_BinarySearchUnsigned a anEntry aMode = arr_BinarySearch a (RA_order_unsigned a anEntry) aMode"

definition RA_BinarySearch ::
    "RArrayBase \<Rightarrow> TUint32 list \<Rightarrow> (TUint32 list \<Rightarrow> TUint32 list \<Rightarrow> int) \<Rightarrow> find_mode \<Rightarrow> int \<times> nat" where
  "RA_BinarySearch a anEntry anOrder aMode = arr_BinarySearch a (anOrder anEntry) aMode"

definition RA_FindIsqSigned :: "RArrayBase \<Rightarrow> TUint32 list \<Rightarrow> find_mode \<Rightarrow> int" where
  "RA_FindIsqSigned a anEntry aMode = arr_FindIsq a (RA_order_signed a anEntry) aMode"

definition RA_FindIsqUnsigned :: "RArrayBase \<Rightarrow> TUint32 list \<Rightarrow> find_mode \<Rightarrow> int" where
  "RA_FindIsqUnsigned a anEntry aMode = arr_FindIsq a (RA_order_unsigned a anEntry) aMode"

definition RA_FindIsq ::
    "RArrayBase \<Rightarrow> TUint32 list \<Rightarrow> (TUint32 list \<Rightarrow> TUint32 list \<Rightarrow> int) \<Rightarrow> find_mode \<Rightarrow> int" where
  "RA_FindIsq a anEntry anOrder aMode = arr_FindIsq a (anOrder anEntry) aMode"

definition RA_InsertIsq ::
    "TUint32 list heap_env \<Rightarrow> RArrayBase \<Rightarrow> TUint32 list \<Rightarrow> (TUint32 list \<Rightarrow> TUint32 list \<Rightarrow> int) \<Rightarrow> bool \<Rightarrow>
     fault + int \<times> RArrayBase" where
  "RA_InsertIsq heap a anEntry anOrder aAllowRepeats =
     arr_InsertIsq heap (KMaxTInt div iEntrySize a) (iEntrySize a) a anEntry (anOrder anEntry) aAllowRepeats"

definition RA_InsertIsqSigned ::
    "TUint32 list heap_env \<Rightarrow> RArrayBase \<Rightarrow> TUint32 list \<Rightarrow> bool \<Rightarrow> fault + int \<times> RArrayBase" where
  "RA_InsertIsqSigned heap a anEntry aAllowRepeats = RA_InsertIsq heap a anEntry (RA_order_signed a) aAllowRepeats"

definition RA_InsertIsqUnsigned ::
    "TUint32 list heap_env \<Rightarrow> RArrayBase \<Rightarrow> TUint32 list \<Rightarrow> bool \<Rightarrow> fault + int \<times> RArrayBase" where
  "RA_InsertIsqUnsigned heap a anEntry aAllowRepeats = RA_InsertIsq heap a anEntry (RA_order_unsigned a) aAllowRepeats"

definition RA_HeapSortSigned :: "RArrayBase \<Rightarrow> RArrayBase" where
  "RA_HeapSortSigned a = arr_HeapSort (\<lambda>x y. sint (entry_key a x) > sint (entry_key a y)) a"

definition RA_HeapSortUnsigned :: "RArrayBase \<Rightarrow> RArrayBase" where
  "RA_HeapSortUnsigned a = arr_HeapSort (\<lambda>x y. uint (entry_key a x) > uint (entry_key a y)) a"

definition RA_HeapSort :: "RArrayBase \<Rightarrow> (TUint32 list \<Rightarrow> TUint32 list \<Rightarrow> int) \<Rightarrow> RArrayBase" where
  "RA_HeapSort a anOrder = arr_HeapSort (\<lambda>x y. anOrder x y > 0) a"

section \<open>Orders\<close>

text \<open>The contract of a \<open>TGeneralLinearOrder\<close> function.\<close>

locale general_linear_order =
  fixes order :: "'a \<Rightarrow> 'a \<Rightarrow> int"
  assumes swap: "order a b > 0 \<longleftrightarrow> order b a < 0"
    and trans: "order a b \<le> 0 \<Longrightarrow> order b c \<le> 0 \<Longrightarrow> order a c \<le> 0"
begin

lemma greater_asym: "order a b > 0 \<Longrightarrow> \<not> order b a > 0"
  using swap [of a b] by linarith

lemma not_greater_trans: "\<not> order a b > 0 \<Longrightarrow> \<not> order b c > 0 \<Longrightarrow> \<not> order a c > 0"
  using trans [of a b c] by linarith

end

sublocale general_linear_order \<subseteq> sort_order "\<lambda>a b. order a b > 0"
  by unfold_locales (fact greater_asym, fact not_greater_trans)

context general_linear_order
begin

definition ordered :: "'a list \<Rightarrow> bool" where
  "ordered xs \<longleftrightarrow> sorted_wrt (\<lambda>a b. order a b \<le> 0) xs"

lemma zero_swap: "order a b = 0 \<longleftrightarrow> order b a = 0"
  using swap [of a b] swap [of b a] by linarith

lemma outcomes:
  assumes "ordered xs"
  shows "sorted_outcomes (\<lambda>m. order x (xs ! m)) (length xs)"
proof
  fix i j assume ij: "i < j" "j < length xs"
  have le: "order (xs ! i) (xs ! j) \<le> 0" using assms ij by (simp add: ordered_def sorted_wrt_iff_nth_less)
  show "order x (xs ! i) > 0" if "order x (xs ! j) > 0" using trans [OF _ le, of x] that by (meson not_le)
  show "order x (xs ! i) \<ge> 0" if z: "order x (xs ! j) = 0"
  proof (rule ccontr)
    assume "\<not> order x (xs ! i) \<ge> 0"
    then have "order (xs ! i) x > 0" using swap by simp
    moreover have "order (xs ! i) x \<le> 0" using trans [OF le] z zero_swap [of x "xs ! j"] by simp
    ultimately show False by simp
  qed
qed

lemma ordered_insert:
  assumes "ordered xs" "\<forall>j<i. order x (xs ! j) \<ge> 0" "\<forall>j. i \<le> j \<and> j < length xs \<longrightarrow> order x (xs ! j) \<le> 0" "i \<le> length xs"
  shows "ordered (take i xs @ x # drop i xs)"
proof -
  have before: "order y x \<le> 0" if "y \<in> set (take i xs)" for y
    using that assms(2) swap [of y x] by (auto simp: in_set_conv_nth not_less [symmetric])
  have after: "order x y \<le> 0" if y: "y \<in> set (drop i xs)" for y
  proof -
    obtain k where k: "k < length xs - i" "y = drop i xs ! k"
      using y unfolding in_set_conv_nth length_drop by blast
    then have "i + k < length xs" "y = xs ! (i + k)" using assms(4) by auto
    then show ?thesis using assms(3) by simp
  qed
  have across: "order y z \<le> 0" if "y \<in> set (take i xs)" "z \<in> set (drop i xs)" for y z
    using assms(1) that unfolding ordered_def by (metis append_take_drop_id sorted_wrt_append)
  have "sorted_wrt (\<lambda>a b. order a b \<le> 0) (take i xs)" "sorted_wrt (\<lambda>a b. order a b \<le> 0) (drop i xs)"
    using assms(1) by (simp_all only: ordered_def sorted_wrt_take sorted_wrt_drop)
  then show ?thesis
    using before after across unfolding ordered_def sorted_wrt_append sorted_wrt.simps by simp
qed

end

interpretation by_key: general_linear_order "\<lambda>a b. cmp3 (key a) (key b)" for key
  by unfold_locales (auto simp: cmp3_def split: if_splits)

section \<open>Sorted contents\<close>

context general_linear_order
begin

lemma array_outcomes:
  assumes "arr_inv limit a" "ordered (elems a)"
  shows "sorted_outcomes (\<lambda>m. order x (iEntries a ! m)) (nat (iCount a))"
proof -
  have "sorted_outcomes (\<lambda>m. order x (elems a ! m)) (nat (iCount a))"
    using outcomes [OF assms(2), of x] length_elems [OF assms(1)] by simp
  then show ?thesis unfolding sorted_outcomes_def by (simp add: elems_nth)
qed

lemma array_search:
  assumes "arr_inv limit a" "ordered (elems a)" "arr_BinarySearch a (order x) mode = (ret, i)"
  shows "i \<le> length (elems a)"
    "ret = (if \<exists>e \<in> set (elems a). order x e = 0 then KErrNone else KErrNotFound)"
    "mode = EArrayFindMode_Any \<Longrightarrow> ret = KErrNone \<Longrightarrow> i < length (elems a) \<and> order x (elems a ! i) = 0"
    "mode = EArrayFindMode_First \<Longrightarrow> ret = KErrNone \<Longrightarrow>
       i < length (elems a) \<and> order x (elems a ! i) = 0 \<and> (\<forall>j<i. order x (elems a ! j) > 0)"
    "mode = EArrayFindMode_Last \<Longrightarrow> ret = KErrNone \<Longrightarrow>
       0 < i \<and> order x (elems a ! (i - 1)) = 0 \<and> (\<forall>j<i. order x (elems a ! j) \<ge> 0) \<and>
       (\<forall>j. i \<le> j \<and> j < length (elems a) \<longrightarrow> order x (elems a ! j) < 0)"
    "ret = KErrNotFound \<Longrightarrow>
       (\<forall>j<i. order x (elems a ! j) > 0) \<and> (\<forall>j. i \<le> j \<and> j < length (elems a) \<longrightarrow> order x (elems a ! j) < 0)"
proof -
  let ?n = "nat (iCount a)" and ?o = "\<lambda>m. order x (iEntries a ! m)"
  have n: "length (elems a) = ?n" using assms(1) by (rule length_elems)
  have "sorted_outcomes.bs_post ?o ?n mode (ret, i)"
    using sorted_outcomes.bs_search [OF array_outcomes [OF assms(1,2)], of x mode] assms(3)
    by (simp add: arr_BinarySearch_def)
  note post = this [unfolded sorted_outcomes.bs_post_def [OF array_outcomes [OF assms(1,2)]] Let_def prod.case]
  show le: "i \<le> length (elems a)" using post n by simp
  have ex: "(\<exists>e \<in> set (elems a). order x e = 0) \<longleftrightarrow> (\<exists>j<?n. ?o j = 0)"
    by (simp add: in_set_conv_nth n Bex_def) (metis elems_nth)
  show ret: "ret = (if \<exists>e \<in> set (elems a). order x e = 0 then KErrNone else KErrNotFound)"
    using post unfolding ex by (auto split: if_splits)
  have eq: "elems a ! j = iEntries a ! j" if "j < ?n" for j using that by (rule elems_nth)
  show "mode = EArrayFindMode_Any \<Longrightarrow> ret = KErrNone \<Longrightarrow> i < length (elems a) \<and> order x (elems a ! i) = 0"
    using post n eq by (auto split: if_splits)
  show "mode = EArrayFindMode_First \<Longrightarrow> ret = KErrNone \<Longrightarrow>
       i < length (elems a) \<and> order x (elems a ! i) = 0 \<and> (\<forall>j<i. order x (elems a ! j) > 0)"
    using post n eq by (auto split: if_splits)
  show "mode = EArrayFindMode_Last \<Longrightarrow> ret = KErrNone \<Longrightarrow>
       0 < i \<and> order x (elems a ! (i - 1)) = 0 \<and> (\<forall>j<i. order x (elems a ! j) \<ge> 0) \<and>
       (\<forall>j. i \<le> j \<and> j < length (elems a) \<longrightarrow> order x (elems a ! j) < 0)"
    using post n eq by (auto split: if_splits)
  show "ret = KErrNotFound \<Longrightarrow>
       (\<forall>j<i. order x (elems a ! j) > 0) \<and> (\<forall>j. i \<le> j \<and> j < length (elems a) \<longrightarrow> order x (elems a ! j) < 0)"
    using post n eq by (auto split: if_splits)
qed

lemma insert_isq:
  assumes inv: "arr_inv limit a" and srt: "ordered (elems a)"
  shows "if \<not> rep \<and> (\<exists>e \<in> set (elems a). order x e = 0)
    then arr_InsertIsq heap limit esz a x (order x) rep = Inr (KErrAlreadyExists, a)
    else (arr_InsertIsq heap limit esz a x (order x) rep = Inr (KErrNoMemory, a) \<and> iCount a = iAllocated a) \<or>
      (\<exists>a' i. arr_InsertIsq heap limit esz a x (order x) rep = Inr (KErrNone, a') \<and> arr_inv limit a' \<and>
         i \<le> length (elems a) \<and> elems a' = take i (elems a) @ x # drop i (elems a) \<and> ordered (elems a') \<and>
         (\<forall>e \<in> set (drop i (elems a)). order x e < 0))"
proof -
  let ?mode = "if rep then EArrayFindMode_Last else EArrayFindMode_Any"
  obtain r i where ri: "arr_BinarySearch a (order x) ?mode = (r, i)" by fastforce
  note post = array_search [OF inv srt ri]
  have len: "length (elems a) = nat (iCount a)" using inv by (rule length_elems)
  show ?thesis
  proof (cases "\<not> rep \<and> (\<exists>e \<in> set (elems a). order x e = 0)")
    case True
    then show ?thesis using ri post(2) by (simp add: arr_InsertIsq_def Let_def)
  next
    case False
    then have go: "r = KErrNotFound \<or> rep" using post(2) by auto
    have place: "\<forall>j<i. order x (elems a ! j) \<ge> 0"
      "\<forall>j. i \<le> j \<and> j < length (elems a) \<longrightarrow> order x (elems a ! j) < 0"
      using False post(2,5,6) by (auto split: if_splits intro: less_imp_le)
    have srt': "ordered (take i (elems a) @ x # drop i (elems a))"
      using place by (intro ordered_insert [OF srt place(1) _ post(1)]) (auto intro: less_imp_le)
    have after: "\<forall>e \<in> set (drop i (elems a)). order x e < 0"
      using place(2) post(1) by (auto simp: in_set_conv_nth)
    have eq: "arr_InsertIsq heap limit esz a x (order x) rep = arr_Insert heap limit esz a x (int i)"
      using ri go by (simp add: arr_InsertIsq_def Let_def)
    have pos: "0 \<le> int i \<and> int i \<le> iCount a" using post(1) len inv by (auto simp: arr_inv_def)
    from arr_Insert_list [OF inv, of "int i" heap esz x, unfolded if_P [OF pos] nat_int]
    consider "arr_Insert heap limit esz a x (int i) = Inr (KErrNoMemory, a)" "iCount a = iAllocated a"
      | a' where "arr_Insert heap limit esz a x (int i) = Inr (KErrNone, a')" "arr_inv limit a'"
        "elems a' = take i (elems a) @ x # drop i (elems a)"
      by blast
    then show ?thesis
    proof cases
      case 1
      then show ?thesis unfolding if_not_P [OF False] eq by simp
    next
      case 2
      then show ?thesis
        unfolding if_not_P [OF False] eq using post(1) srt' after
        by (intro disjI2 exI [of _ a'] exI [of _ i]) simp
    qed
  qed
qed

end

lemma heap_sort_array:
  assumes "sort_order gt" "arr_inv limit a"
  shows "sorted_wrt (\<lambda>x y. \<not> gt x y) (elems (arr_HeapSort gt a))"
    "mset (elems (arr_HeapSort gt a)) = mset (elems a)" "arr_inv limit (arr_HeapSort gt a)"
proof -
  have n: "nat (iCount a) \<le> length (iEntries a)" using assms(2) by (auto simp: arr_inv_def)
  note s = sort_order.heap_sort_correct [OF assms(1) n]
  show "sorted_wrt (\<lambda>x y. \<not> gt x y) (elems (arr_HeapSort gt a))"
    "mset (elems (arr_HeapSort gt a)) = mset (elems a)" "arr_inv limit (arr_HeapSort gt a)"
    using s assms(2) by (simp_all add: arr_HeapSort_def elems_def arr_inv_def)
qed

text \<open>What a heap sort leaves can be searched.\<close>

interpretation sorted_entries: sorted_outcomes
  "\<lambda>m. cmp3 (key x) (key (heap_sort (\<lambda>a b. cmp3 (key a) (key b) > 0) (length es) es ! m))" "length es" for key x es
proof -
  note s = by_key.heap_sort_correct [of "length es" es key]
  have len: "length (heap_sort (\<lambda>a b. cmp3 (key a) (key b) > 0) (length es) es) = length es"
    using s by (metis size_mset take_all order_refl)
  have "by_key.ordered key (heap_sort (\<lambda>a b. cmp3 (key a) (key b) > 0) (length es) es)"
    using s len by (simp add: by_key.ordered_def not_less)
  from by_key.outcomes [OF this, of x] show "sorted_outcomes
      (\<lambda>m. cmp3 (key x) (key (heap_sort (\<lambda>a b. cmp3 (key a) (key b) > 0) (length es) es ! m))) (length es)"
    unfolding len .
qed

end
