(* ===== verification/Arr_Store.thy ===== *)
theory Arr_Store
  imports Arr_Class
begin

text \<open>
  The growable array as a list with commands: an interface that both classes provide, with the
  simulation of every command, and its consequence for whole histories of commands.
\<close>

datatype 'a arr_cmd =
    CAppend 'a
  | CInsert 'a int
  | CRemove int
  | CCompress
  | CGranularCompress
  | CReserve int
  | CReset

fun list_cmd :: "'a arr_cmd \<Rightarrow> 'a list \<Rightarrow> fault + 'a list" where
  "list_cmd (CAppend x) xs = Inr (xs @ [x])"
| "list_cmd (CInsert x p) xs =
     (if 0 \<le> p \<and> p \<le> int (length xs) then Inr (take (nat p) xs @ x # drop (nat p) xs)
      else Inl (Panic ''EBadArrayPosition''))"
| "list_cmd (CRemove i) xs =
     (if 0 \<le> i \<and> i < int (length xs) then Inr (take (nat i) xs @ drop (Suc (nat i)) xs)
      else Inl (Panic ''EBadArrayIndex''))"
| "list_cmd CCompress xs = Inr xs"
| "list_cmd CGranularCompress xs = Inr xs"
| "list_cmd (CReserve n) xs = (if 0 \<le> n then Inr xs else Inl (Panic ''EArrayBadReserveCount''))"
| "list_cmd CReset xs = Inr []"

text \<open>A history of commands: the error codes, and the array left.\<close>

fun run_cmds :: "('s \<Rightarrow> 'a arr_cmd \<Rightarrow> fault + int \<times> 's) \<Rightarrow> 'a arr_cmd list \<Rightarrow> 's \<Rightarrow> fault + int list \<times> 's" where
  "run_cmds step [] s = Inr ([], s)"
| "run_cmds step (c # cs) s =
     ebind (step s c) (\<lambda>(r, s'). ebind (run_cmds step cs s') (\<lambda>(rs, s''). Inr (r # rs, s'')))"

text \<open>The list after the commands that returned \<open>KErrNone\<close>.\<close>

fun list_run :: "'a arr_cmd list \<Rightarrow> int list \<Rightarrow> 'a list \<Rightarrow> fault + 'a list" where
  "list_run (c # cs) (r # rs) xs =
     (if r = KErrNone then ebind (list_cmd c xs) (list_run cs rs) else list_run cs rs xs)"
| "list_run _ _ xs = Inr xs"

locale array_store =
  fixes ok :: "'s \<Rightarrow> bool" and abs :: "'s \<Rightarrow> 'a list"
    and step :: "'s \<Rightarrow> 'a arr_cmd \<Rightarrow> fault + int \<times> 's"
  assumes fault: "ok s \<Longrightarrow> step s c = Inl e \<Longrightarrow> list_cmd c (abs s) = Inl e"
    and done_: "ok s \<Longrightarrow> step s c = Inr (KErrNone, s') \<Longrightarrow> ok s' \<and> list_cmd c (abs s) = Inr (abs s')"
    and failed: "ok s \<Longrightarrow> step s c = Inr (r, s') \<Longrightarrow> r \<noteq> KErrNone \<Longrightarrow>
      r = KErrNoMemory \<and> s' = s \<and> (\<exists>ys. list_cmd c (abs s) = Inr ys)"
begin

lemma history:
  "ok s \<Longrightarrow> run_cmds step cs s = Inr (rs, s') \<Longrightarrow>
   ok s' \<and> length rs = length cs \<and> set rs \<subseteq> {KErrNone, KErrNoMemory} \<and> list_run cs rs (abs s) = Inr (abs s')"
proof (induction cs arbitrary: s rs)
  case (Cons c cs)
  obtain r s1 rs1 where r: "step s c = Inr (r, s1)" "run_cmds step cs s1 = Inr (rs1, s')" "rs = r # rs1"
    using Cons.prems(2) by (auto simp: ebind_Inr_iff split: prod.splits)
  show ?case
  proof (cases "r = KErrNone")
    case True
    then have s1: "ok s1" "list_cmd c (abs s) = Inr (abs s1)" using done_ [OF Cons.prems(1)] r(1) by auto
    then show ?thesis using Cons.IH [OF s1(1) r(2)] r(3) True by simp
  next
    case False
    then have s1: "r = KErrNoMemory" "s1 = s" using failed [OF Cons.prems(1) r(1)] by auto
    then show ?thesis using Cons.IH [OF Cons.prems(1), of rs1] r(2,3) by simp
  qed
qed simp

lemma history_fault:
  "ok s \<Longrightarrow> run_cmds step cs s = Inl e \<Longrightarrow>
   \<exists>cs1 c cs2 rs s'. cs = cs1 @ c # cs2 \<and> run_cmds step cs1 s = Inr (rs, s') \<and> list_cmd c (abs s') = Inl e"
proof (induction cs arbitrary: s)
  case (Cons c cs)
  show ?case
  proof (cases "step s c")
    case (Inl e')
    then have "list_cmd c (abs s) = Inl e" using fault [OF Cons.prems(1)] Cons.prems(2) by simp
    then show ?thesis by (intro exI [of _ "[]"] exI [of _ c] exI [of _ cs]) simp
  next
    case (Inr p)
    obtain r s1 where p: "p = (r, s1)" by fastforce
    have run: "run_cmds step cs s1 = Inl e"
      using Cons.prems(2) Inr p by (cases "run_cmds step cs s1") auto
    have "ok s1"
      using done_ [OF Cons.prems(1), of c s1] failed [OF Cons.prems(1), of c r s1] Inr p Cons.prems(1)
      by (cases "r = KErrNone") auto
    then obtain cs1 c' cs2 rs s' where ih: "cs = cs1 @ c' # cs2" "run_cmds step cs1 s1 = Inr (rs, s')"
      "list_cmd c' (abs s') = Inl e"
      using Cons.IH run by blast
    then have "run_cmds step (c # cs1) s = Inr (r # rs, s')" using Inr p by simp
    then show ?thesis
      using ih(1,3) by (intro exI [of _ "c # cs1"] exI [of _ c'] exI [of _ cs2] exI [of _ "r # rs"] exI [of _ s']) simp
  qed
qed simp

end

section \<open>Both classes\<close>

fun arr_step ::
    "'a heap_env \<Rightarrow> int \<Rightarrow> (int \<Rightarrow> bool) \<Rightarrow> int \<Rightarrow> ('a, 'z) arr_scheme \<Rightarrow> 'a arr_cmd \<Rightarrow> fault + int \<times> ('a, 'z) arr_scheme" where
  "arr_step heap limit too_big esz a (CAppend x) = arr_Append heap limit esz a x"
| "arr_step heap limit too_big esz a (CInsert x p) = arr_Insert heap limit esz a x p"
| "arr_step heap limit too_big esz a (CRemove i) = ebind (arr_Remove a i) (\<lambda>a'. Inr (KErrNone, a'))"
| "arr_step heap limit too_big esz a CCompress = Inr (KErrNone, arr_Compress heap a)"
| "arr_step heap limit too_big esz a CGranularCompress = Inr (KErrNone, arr_GranularCompress heap a)"
| "arr_step heap limit too_big esz a (CReserve n) = arr_DoReserve heap too_big esz a n"
| "arr_step heap limit too_big esz a CReset = Inr (KErrNone, arr_Reset a)"

lemma arr_Compress_list:
  assumes "arr_inv limit a"
  shows "arr_inv limit (arr_Compress heap a) \<and> elems (arr_Compress heap a) = elems a"
  using assms resized [OF assms, of "iCount a" heap]
  by (cases "iCount a = 0") (auto simp: arr_Compress_def arr_inv_def elems_def)

lemma arr_GranularCompress_list:
  assumes inv: "arr_inv limit a"
  shows "arr_inv limit (arr_GranularCompress heap a) \<and> elems (arr_GranularCompress heap a) = elems a"
proof -
  let ?n = "CalculateArraySizeAfterShrink (iAllocated a) (iGranularity a) (iCount a)"
  have n: "iCount a \<le> ?n" "?n \<le> iAllocated a"
    using inv shrink_size [of "iGranularity a" "iCount a" "iAllocated a"] by (auto simp: arr_inv_def)
  then have "?n \<le> limit" using inv by (simp add: arr_inv_def)
  show ?thesis
  proof (cases "?n = 0")
    case True
    then have "iCount a = 0" using n inv by (simp add: arr_inv_def)
    then show ?thesis using True inv by (auto simp: arr_GranularCompress_def arr_inv_def elems_def Let_def)
  next
    case False
    then show ?thesis using resized [OF inv n(1) \<open>?n \<le> limit\<close>, of heap] inv by (auto simp: arr_GranularCompress_def Let_def)
  qed
qed

lemma arr_DoReserve_list:
  assumes inv: "arr_inv limit a" and big: "\<And>n. 0 \<le> n \<Longrightarrow> \<not> too_big n \<Longrightarrow> n \<le> limit"
  shows "if 0 \<le> n
    then arr_DoReserve heap too_big esz a n = Inr (KErrNoMemory, a) \<or>
         (\<exists>a'. arr_DoReserve heap too_big esz a n = Inr (KErrNone, a') \<and> arr_inv limit a' \<and> elems a' = elems a \<and>
            n \<le> iAllocated a')
    else arr_DoReserve heap too_big esz a n = Inl (Panic ''EArrayBadReserveCount'')"
proof (cases "0 \<le> n \<and> iAllocated a < n \<and> \<not> too_big n \<and> alloc_ok heap (n * esz)")
  case True
  have "iCount a \<le> n" using True inv by (auto simp: arr_inv_def)
  then show ?thesis using True resized [OF inv _ big, of n heap] by (simp add: arr_DoReserve_def)
next
  case False
  then show ?thesis using inv by (auto simp: arr_DoReserve_def)
qed

lemma arr_step_sim:
  assumes inv: "arr_inv limit a" and big: "\<And>n. 0 \<le> n \<Longrightarrow> \<not> too_big n \<Longrightarrow> n \<le> limit"
  shows "case arr_step heap limit too_big esz a c of
      Inl e \<Rightarrow> list_cmd c (elems a) = Inl e
    | Inr (r, a') \<Rightarrow>
        (r = KErrNone \<and> arr_inv limit a' \<and> list_cmd c (elems a) = Inr (elems a')) \<or>
        (r = KErrNoMemory \<and> a' = a \<and> (\<exists>ys. list_cmd c (elems a) = Inr ys))"
proof (cases c)
  case (CAppend x)
  then show ?thesis using arr_Append_list [OF inv, of heap esz x] by auto
next
  case (CInsert x p)
  have len: "0 \<le> p \<and> p \<le> iCount a \<longleftrightarrow> 0 \<le> p \<and> p \<le> int (length (elems a))"
    using inv length_elems [OF inv] by (auto simp: arr_inv_def)
  show ?thesis
    using arr_Insert_list [OF inv, of p heap esz x] CInsert unfolding len by (auto split: if_splits)
next
  case (CRemove i)
  have len: "0 \<le> i \<and> i < iCount a \<longleftrightarrow> 0 \<le> i \<and> i < int (length (elems a))"
    using inv length_elems [OF inv] by (auto simp: arr_inv_def)
  show ?thesis
    using arr_Remove_list [OF inv, of i] CRemove unfolding len by (auto split: if_splits)
next
  case CCompress
  then show ?thesis using arr_Compress_list [OF inv] by simp
next
  case CGranularCompress
  then show ?thesis using arr_GranularCompress_list [OF inv] by simp
next
  case (CReserve n)
  have "if 0 \<le> n
    then arr_DoReserve heap too_big esz a n = Inr (KErrNoMemory, a) \<or>
         (\<exists>a'. arr_DoReserve heap too_big esz a n = Inr (KErrNone, a') \<and> arr_inv limit a' \<and> elems a' = elems a \<and>
            n \<le> iAllocated a')
    else arr_DoReserve heap too_big esz a n = Inl (Panic ''EArrayBadReserveCount'')"
    by (rule arr_DoReserve_list [OF inv]) (rule big)
  then show ?thesis using CReserve by (auto split: if_splits)
next
  case CReset
  then show ?thesis using inv by (auto simp: arr_Reset_def arr_inv_def elems_def)
qed

definition RPA_step :: "TUint32 heap_env \<Rightarrow> RPointerArrayBase \<Rightarrow> TUint32 arr_cmd \<Rightarrow> fault + int \<times> RPointerArrayBase" where
  "RPA_step heap a c =
     (case c of
        CAppend x \<Rightarrow> RPA_Append heap a x
      | CInsert x p \<Rightarrow> RPA_Insert heap a x p
      | CReserve n \<Rightarrow> RPA_DoReserve heap a n
      | CRemove i \<Rightarrow> ebind (RPA_Remove a i) (\<lambda>a'. Inr (KErrNone, a'))
      | CCompress \<Rightarrow> Inr (KErrNone, RPA_Compress heap a)
      | CGranularCompress \<Rightarrow> Inr (KErrNone, RPA_GranularCompress heap a)
      | CReset \<Rightarrow> Inr (KErrNone, RPA_Reset a))"

definition RA_step :: "TUint32 list heap_env \<Rightarrow> RArrayBase \<Rightarrow> TUint32 list arr_cmd \<Rightarrow> fault + int \<times> RArrayBase" where
  "RA_step heap a c =
     (case c of
        CAppend x \<Rightarrow> RA_Append heap a x
      | CInsert x p \<Rightarrow> RA_Insert heap a x p
      | CReserve n \<Rightarrow> RA_DoReserve heap a n
      | CRemove i \<Rightarrow> ebind (RA_Remove a i) (\<lambda>a'. Inr (KErrNone, a'))
      | CCompress \<Rightarrow> Inr (KErrNone, RA_Compress heap a)
      | CGranularCompress \<Rightarrow> Inr (KErrNone, RA_GranularCompress heap a)
      | CReset \<Rightarrow> Inr (KErrNone, RA_Reset a))"

lemma RPA_step_eq: "RPA_step heap a c = arr_step heap (KMaxTInt div 4) (\<lambda>n. n \<ge> 0x80000000 div 4) 4 a c"
  by (cases c) (simp_all add: RPA_step_def RPA_Append_def RPA_Insert_def RPA_DoReserve_def
      RPA_Remove_def RPA_Compress_def RPA_GranularCompress_def RPA_Reset_def)

lemma RA_step_eq: "RA_step heap a c =
    arr_step heap (KMaxTInt div iEntrySize a) (\<lambda>n. n * iEntrySize a > KMaxTInt) (iEntrySize a) a c"
  by (cases c) (simp_all add: RA_step_def RA_Append_def RA_Insert_def RA_DoReserve_def
      RA_Remove_def RA_Compress_def RA_GranularCompress_def RA_Reset_def)

text \<open>The invariants of the two classes, with the class's own limit.\<close>

definition RPA_inv :: "RPointerArrayBase \<Rightarrow> bool" where
  "RPA_inv a \<longleftrightarrow> arr_inv (KMaxTInt div 4) a"

definition RA_inv :: "RArrayBase \<Rightarrow> bool" where
  "RA_inv a \<longleftrightarrow> arr_inv (KMaxTInt div iEntrySize a) a \<and> 0 < iEntrySize a"

text \<open>No operation changes the entry size.\<close>

lemma RA_step_size:
  assumes "RA_step heap a c = Inr (r, a')"
  shows "iEntrySize a' = iEntrySize a"
  using assms unfolding RA_step_eq
  by (cases c)
    (auto simp: arr_Append_def arr_Insert_def arr_Remove_def arr_Grow_def arr_Reset_def arr_Compress_def
      arr_GranularCompress_def arr_DoReserve_def ebind_Inr_iff assert_always_Inr Let_def split: if_splits)

lemma RPA_sim:
  assumes "RPA_inv a"
  shows "case RPA_step heap a c of
      Inl e \<Rightarrow> list_cmd c (elems a) = Inl e
    | Inr (r, a') \<Rightarrow>
        (r = KErrNone \<and> RPA_inv a' \<and> list_cmd c (elems a) = Inr (elems a')) \<or>
        (r = KErrNoMemory \<and> a' = a \<and> (\<exists>ys. list_cmd c (elems a) = Inr ys))"
  unfolding RPA_step_eq RPA_inv_def by (rule arr_step_sim) (use assms in \<open>auto simp: RPA_inv_def\<close>)

interpretation ptr: array_store RPA_inv elems "RPA_step heap" for heap
proof (unfold_locales, goal_cases)
  case (1 s c e)
  then show ?case
    using RPA_sim [of s c heap] by simp
next
  case (2 s c s')
  then show ?case
    using RPA_sim [of s c heap] by simp
next
  case (3 s c r s')
  then show ?case
    using RPA_sim [of s c heap] by auto
qed

lemma RA_sim:
  assumes "RA_inv a"
  shows "case RA_step heap a c of
      Inl e \<Rightarrow> list_cmd c (elems a) = Inl e
    | Inr (r, a') \<Rightarrow>
        (r = KErrNone \<and> RA_inv a' \<and> list_cmd c (elems a) = Inr (elems a')) \<or>
        (r = KErrNoMemory \<and> a' = a \<and> (\<exists>ys. list_cmd c (elems a) = Inr ys))"
proof -
  have inv: "arr_inv (KMaxTInt div iEntrySize a) a" and pos: "0 < iEntrySize a"
    using assms by (auto simp: RA_inv_def)
  have "n \<le> KMaxTInt div iEntrySize a" if "\<not> n * iEntrySize a > KMaxTInt" for n
    using that pos zdiv_mono1 [of "n * iEntrySize a" KMaxTInt "iEntrySize a"] by simp
  then have "case RA_step heap a c of
      Inl e \<Rightarrow> list_cmd c (elems a) = Inl e
    | Inr (r, a') \<Rightarrow>
        (r = KErrNone \<and> arr_inv (KMaxTInt div iEntrySize a) a' \<and> list_cmd c (elems a) = Inr (elems a')) \<or>
        (r = KErrNoMemory \<and> a' = a \<and> (\<exists>ys. list_cmd c (elems a) = Inr ys))"
    unfolding RA_step_eq by (intro arr_step_sim [OF inv]) auto
  then show ?thesis
    using RA_step_size [of heap a c] pos by (auto simp: RA_inv_def split: sum.splits)
qed

interpretation simple: array_store RA_inv elems "RA_step heap" for heap
proof (unfold_locales, goal_cases)
  case (1 s c e)
  then show ?case using RA_sim [of s c heap] by simp
next
  case (2 s c s')
  then show ?case using RA_sim [of s c heap] by simp
next
  case (3 s c r s')
  then show ?case using RA_sim [of s c heap] by auto
qed

end
