(* ===== verification/Arr_Props.thy ===== *)
theory Arr_Props
  imports Arr_Store
begin

text \<open>
  The properties of the growable arrays, each with an instance on a small array.
\<close>

section \<open>Histories of commands\<close>

lemma RPA_ctor_gran_inv: "RPA_ctor_gran g = Inr a \<Longrightarrow> RPA_inv a \<and> elems a = []"
  by (auto simp: RPA_ctor_gran_def assert_always_Inr RPA_inv_def arr_inv_def gran_ok_def elems_def)

lemma round_entry_eq: "round_entry s = ((s + 3) div 4) * 4"
proof -
  have "x AND NOT (mask n) = push_bit n (drop_bit n x)" for x :: int and n
    by (rule bit_eqI)
      (auto simp: bit_and_iff bit_not_iff bit_mask_iff bit_push_bit_iff bit_drop_bit_eq)
  moreover have "(3 :: int) = mask 2" by (simp add: mask_eq_exp_minus_1)
  ultimately show ?thesis by (simp only: round_entry_def) (simp add: push_bit_eq_mult drop_bit_eq_div)
qed

lemma RA_ctor_exp_inv: "RA_ctor_exp s m k f = Inr a \<Longrightarrow> RA_inv a \<and> elems a = []"
  by (auto simp: RA_ctor_exp_def assert_always_Inr RA_inv_def arr_inv_def elems_def entry_size_ok_def
      round_entry_eq gran_ok_exp pos_imp_zdiv_pos_iff intro!: gran_ok_exp pos_imp_zdiv_nonneg_iff [THEN iffD2])

text \<open>
  C6. A pointer array behaves as a list over any history of Append, Insert, Remove, Compress,
  GranularCompress, Reserve and Reset: the error codes are KErrNone or KErrNoMemory, a command that
  fails for lack of memory changes nothing, the entries are those of the list after the commands that
  succeeded, the memory invariant holds, and the only faults are the list's index and position
  panics (so no access leaves the block of memory).
\<close>

theorem RPA_history:
  assumes "RPA_ctor_gran g = Inr a"
  shows "case run_cmds (RPA_step heap) cs a of
      Inr (rs, a') \<Rightarrow> RPA_inv a' \<and> length rs = length cs \<and> set rs \<subseteq> {KErrNone, KErrNoMemory} \<and>
        list_run cs rs [] = Inr (elems a')
    | Inl e \<Rightarrow> \<exists>cs1 c cs2 rs a'. cs = cs1 @ c # cs2 \<and> run_cmds (RPA_step heap) cs1 a = Inr (rs, a') \<and>
        list_cmd c (elems a') = Inl e"
proof (cases "run_cmds (RPA_step heap) cs a")
  case (Inl e)
  then show ?thesis using ptr.history_fault [of a heap cs e] RPA_ctor_gran_inv [OF assms] by simp
next
  case (Inr r)
  then show ?thesis
    using ptr.history [of a heap cs "fst r" "snd r"] RPA_ctor_gran_inv [OF assms] by (cases r) simp
qed

definition small_heap :: "'a \<Rightarrow> 'a heap_env" where
  "small_heap x = \<lparr>alloc_ok = (\<lambda>n. n \<le> 16), junk = (\<lambda>_. x)\<rparr>"

theorem RPA_history_witness:
  "\<exists>a rs a'. RPA_ctor_gran 2 = Inr a \<and>
     run_cmds (RPA_step (small_heap 0)) [CAppend 5, CAppend 6, CInsert 4 0, CAppend 9, CAppend 7, CRemove 1, CGranularCompress] a
       = Inr (rs, a') \<and>
     rs = [0, 0, 0, 0, -4, 0, 0] \<and> elems a' = [4, 6, 9]"
proof -
  let ?cs = "[CAppend 5, CAppend 6, CInsert 4 0, CAppend 9, CAppend 7, CRemove 1, CGranularCompress :: TUint32 arr_cmd]"
  obtain a where a: "RPA_ctor_gran 2 = Inr a" by (simp add: RPA_ctor_gran_def)
  have "a = \<lparr>iCount = 0, iEntries = [], iAllocated = 0, iGranularity = 2\<rparr>"
    using a by (simp add: RPA_ctor_gran_def)
  moreover have "map_sum id fst (run_cmds (RPA_step (small_heap 0)) ?cs
      \<lparr>iCount = 0, iEntries = [], iAllocated = 0, iGranularity = 2\<rparr>) = Inr [0, 0, 0, 0, -4, 0, 0]"
    by code_simp
  ultimately obtain rs a' where r: "run_cmds (RPA_step (small_heap 0)) ?cs a = Inr (rs, a')"
    "rs = [0, 0, 0, 0, -4, 0, 0]"
    by (cases "run_cmds (RPA_step (small_heap 0)) ?cs a") auto
  then show ?thesis using RPA_history [OF a, where heap = "small_heap 0" and cs = ?cs] a by auto
qed

text \<open>
  C7. The same for RArray, with exponential growth and entries of any size.
\<close>

theorem RA_history:
  assumes "RA_ctor_exp aEntrySize aMinGrowBy aKeyOffset aFactor = Inr a"
  shows "case run_cmds (RA_step heap) cs a of
      Inr (rs, a') \<Rightarrow> RA_inv a' \<and> length rs = length cs \<and> set rs \<subseteq> {KErrNone, KErrNoMemory} \<and>
        list_run cs rs [] = Inr (elems a')
    | Inl e \<Rightarrow> \<exists>cs1 c cs2 rs a'. cs = cs1 @ c # cs2 \<and> run_cmds (RA_step heap) cs1 a = Inr (rs, a') \<and>
        list_cmd c (elems a') = Inl e"
proof (cases "run_cmds (RA_step heap) cs a")
  case (Inl e)
  then show ?thesis using simple.history_fault [of a heap cs e] RA_ctor_exp_inv [OF assms] by simp
next
  case (Inr r)
  then show ?thesis
    using simple.history [of a heap cs "fst r" "snd r"] RA_ctor_exp_inv [OF assms] by (cases r) simp
qed

theorem RA_history_witness:
  "\<exists>a rs a'. RA_ctor_exp 7 1 4 512 = Inr a \<and>
     run_cmds (RA_step (small_heap [])) [CAppend [5, 1], CInsert [4, 2] 0, CAppend [9, 3], CRemove 0] a = Inr (rs, a') \<and>
     rs = [0, 0, -4, 0] \<and> elems a' = [[5, 1]]"
proof -
  let ?cs = "[CAppend [5, 1], CInsert [4, 2] 0, CAppend [9, 3], CRemove 0 :: TUint32 list arr_cmd]"
  let ?a = "\<lparr>iCount = 0, iEntries = [], iAllocated = 0, iGranularity = -2113929215, iKeyOffset = 4, iEntrySize = 8\<rparr> :: RArrayBase"
  have a: "RA_ctor_exp 7 1 4 512 = Inr ?a" by code_simp
  have "map_sum id fst (run_cmds (RA_step (small_heap [])) ?cs ?a) = Inr [0, 0, -4, 0]" by code_simp
  then obtain rs a' where r: "run_cmds (RA_step (small_heap [])) ?cs ?a = Inr (rs, a')" "rs = [0, 0, -4, 0]"
    by (cases "run_cmds (RA_step (small_heap [])) ?cs ?a") auto
  then show ?thesis using RA_history [OF a, where heap = "small_heap []" and cs = ?cs] a by auto
qed

section \<open>Growth\<close>

text \<open>
  Growth is geometric and bounded: with minimum step m and factor f/256 (as the constructor
  packs them into iGranularity) a full array of n entries grows to the greater of n+m and
  n*f/256 rounded, at most to the limit, or fails with KErrNoMemory exactly when that is beyond the
  limit; shrinking gives back a whole number of steps and never drops an entry.
\<close>

theorem array_growth:
  assumes "0 < m" "m \<le> KMaxArrayGrowBy" "KMinArrayFactor \<le> f" "f \<le> KMaxArrayFactor"
    and "0 \<le> used" "used \<le> n" "n \<le> limit"
  shows "CalculateArraySizeAfterGrow n (exp_granularity m f) limit =
      (if max (n + m) ((n * f + 128) div 256) \<le> limit then max (n + m) ((n * f + 128) div 256) else KErrNoMemory) \<and>
    (let n' = CalculateArraySizeAfterShrink n (exp_granularity m f) used
     in used \<le> n' \<and> n' \<le> n \<and> (n' = n \<or> (m dvd n' \<and> n' < used + m)))"
proof -
  let ?g = "exp_granularity m f"
  have e: "?g = m + (f - 32768) * 65536" using assms by (simp add: exp_granularity_eq)
  have neg: "?g < 0" using assms unfolding e by simp
  have m: "?g AND 65535 = m" unfolding and_65535 e using assms by (simp only: mod_mult_self1) simp
  have "?g div 65536 = f - 32768" unfolding e using assms by simp
  moreover have "(f - 32768) mod 32768 = f" using assms mod_add_self2 [of "f - 32768" 32768] by simp
  ultimately have f: "drop_bit 16 (?g AND 0x7fff0000) = f" unfolding factor_bits by simp
  have grow: "CalculateArraySizeAfterGrow n ?g limit =
      (if max (n + m) ((n * f + 128) div 256) \<le> limit then max (n + m) ((n * f + 128) div 256) else KErrNoMemory)"
    unfolding CalculateArraySizeAfterGrow_def Let_def m f using neg by (simp add: max_def)
  have "used \<le> CalculateArraySizeAfterShrink n ?g used" "CalculateArraySizeAfterShrink n ?g used \<le> n"
    by (rule shrink_size [OF gran_ok_exp [OF assms(1-4)] assms(5,6)])+
  moreover have "CalculateArraySizeAfterShrink n ?g used = n \<or>
      (m dvd CalculateArraySizeAfterShrink n ?g used \<and> CalculateArraySizeAfterShrink n ?g used < used + m)"
  proof -
    have "((used + (m - 1)) div m) * m \<le> used + (m - 1)"
      using assms(1) pos_mod_sign [of m "used + (m - 1)"] minus_mod_eq_div_mult [of "used + (m - 1)" m] by linarith
    then show ?thesis unfolding CalculateArraySizeAfterShrink_def Let_def m using neg by auto
  qed
  ultimately show ?thesis using grow by (simp add: Let_def)
qed

theorem array_growth_witness:
  "CalculateArraySizeAfterGrow 100 (exp_granularity 8 384) 1000 = 150 \<and>
   CalculateArraySizeAfterGrow 4 (exp_granularity 8 384) 1000 = 12 \<and>
   CalculateArraySizeAfterGrow 900 (exp_granularity 8 384) 1000 = KErrNoMemory"
  using array_growth [of 8 384 0 100 1000] array_growth [of 8 384 0 4 1000] array_growth [of 8 384 0 900 1000] by simp




section \<open>Searching and sorting\<close>

text \<open>
  C9. Binary search of sorted entries finds an equal entry when there is one, in mode First the
  first one and in mode Last the position just after the last one, and otherwise returns
  KErrNotFound with the position where the entry belongs.
\<close>

theorem RPA_BinarySearchSigned_correct:
  assumes "RPA_inv a" "is_TInt x" "sorted (map sint (elems a))" "RPA_BinarySearchSigned a x mode = (ret, i)"
  shows "i \<le> length (elems a) \<and>
    (if x \<in> sint ` set (elems a)
     then ret = KErrNone \<and>
       (case mode of
          EArrayFindMode_Any \<Rightarrow> i < length (elems a) \<and> sint (elems a ! i) = x
        | EArrayFindMode_First \<Rightarrow> i < length (elems a) \<and> sint (elems a ! i) = x \<and> (\<forall>j<i. sint (elems a ! j) < x)
        | EArrayFindMode_Last \<Rightarrow> 0 < i \<and> sint (elems a ! (i - 1)) = x \<and>
            (\<forall>j. i \<le> j \<and> j < length (elems a) \<longrightarrow> x < sint (elems a ! j)))
     else ret = KErrNotFound \<and> (\<forall>j<i. sint (elems a ! j) < x) \<and>
       (\<forall>j. i \<le> j \<and> j < length (elems a) \<longrightarrow> x < sint (elems a ! j)))"
proof -
  let ?o = "\<lambda>(a :: TUint32) (b :: TUint32). cmp3 (sint a) (sint b)"
  have x: "sint (word_of_int x :: TUint32) = x"
    using assms(2) by (simp add: is_TInt_def sint_sbintrunc' signed_take_bit_int_eq_self_iff)
  have srt: "by_key.ordered sint (elems a)"
    using assms(3) unfolding by_key.ordered_def sorted_map
    by (rule sorted_wrt_mono_rel [rotated]) (simp add: cmp3_def)
  have res: "arr_BinarySearch a (?o (word_of_int x)) mode = (ret, i)"
    using assms(4) unfolding RPA_BinarySearchSigned_def x by simp
  note post = by_key.array_search [OF assms(1) [unfolded RPA_inv_def] srt res, unfolded x]
  have c: "cmp3 x y = 0 \<longleftrightarrow> y = x" "cmp3 x y > 0 \<longleftrightarrow> y < x" "cmp3 x y < 0 \<longleftrightarrow> x < y" for y
    by (auto simp: cmp3_def)
  have mem: "x \<in> sint ` set (elems a) \<longleftrightarrow> (\<exists>e \<in> set (elems a). cmp3 x (sint e) = 0)"
    unfolding c by auto
  show ?thesis
  proof (cases "\<exists>e \<in> set (elems a). cmp3 x (sint e) = 0")
    case True
    then have "ret = KErrNone" using post(2) by simp
    then show ?thesis using post(1,3-5) mem True unfolding c by (cases mode) auto
  next
    case False
    then have "ret = KErrNotFound" using post(2) by simp
    then show ?thesis using post(1,6) mem False unfolding c by auto
  qed
qed

definition sorted5 :: RPointerArrayBase where
  "sorted5 = \<lparr>iCount = 5, iEntries = [0xfffffffb, 1, 1, 1, 7, 0, 0, 0], iAllocated = 8, iGranularity = 8\<rparr>"

lemma sorted5_ok: "RPA_inv sorted5" "elems sorted5 = [0xfffffffb, 1, 1, 1, 7]"
  by (simp_all add: RPA_inv_def arr_inv_def sorted5_def gran_ok_def elems_def)

lemma sint_small: "sint (0xfffffffb :: TUint32) = -5" "sint (7 :: TUint32) = 7" "sint (1 :: TUint32) = 1"
  by code_simp+

theorem RPA_BinarySearchSigned_correct_witness:
  "RPA_BinarySearchSigned sorted5 1 EArrayFindMode_First = (0, 1) \<and>
   RPA_BinarySearchSigned sorted5 1 EArrayFindMode_Last = (0, 4) \<and>
   RPA_BinarySearchSigned sorted5 3 EArrayFindMode_Any = (-1, 4) \<and>
   sint (elems sorted5 ! 0) < 1"
proof -
  have run: "RPA_BinarySearchSigned sorted5 1 EArrayFindMode_First = (0, 1)"
    "RPA_BinarySearchSigned sorted5 1 EArrayFindMode_Last = (0, 4)"
    "RPA_BinarySearchSigned sorted5 3 EArrayFindMode_Any = (-1, 4)"
    by (simp_all add: RPA_BinarySearchSigned_def arr_BinarySearch_def sorted5_def bs_loop_step bs_loop_stop cmp3_def sint_small)
  have srt: "sorted (map sint (elems sorted5))" by (simp add: sorted5_ok sint_small)
  have mem: "1 \<in> sint ` set (elems sorted5)" by (simp add: sorted5_ok)
  have "is_TInt 1" by (simp add: is_TInt_def)
  from RPA_BinarySearchSigned_correct [OF sorted5_ok(1) this srt run(1), unfolded if_P [OF mem]]
  show ?thesis using run by (simp add: sorted5_ok sint_small)
qed

text \<open>
  InsertIsq keeps the entries of an RArray sorted by the caller's order: without repeats
  it refuses an entry equal to one there is with KErrAlreadyExists, otherwise it puts the new entry
  after every entry not greater than it, or fails with KErrNoMemory when a full array cannot grow;
  a failure changes nothing.
\<close>

theorem RA_InsertIsq_sorted:
  assumes "RA_inv a" "general_linear_order order" "sorted_wrt (\<lambda>x y. order x y \<le> 0) (elems a)"
  shows "if \<not> aAllowRepeats \<and> (\<exists>e \<in> set (elems a). order x e = 0)
    then RA_InsertIsq heap a x order aAllowRepeats = Inr (KErrAlreadyExists, a)
    else (RA_InsertIsq heap a x order aAllowRepeats = Inr (KErrNoMemory, a) \<and> iCount a = iAllocated a) \<or>
      (\<exists>a' xs ys. RA_InsertIsq heap a x order aAllowRepeats = Inr (KErrNone, a') \<and>
         arr_inv (KMaxTInt div iEntrySize a) a' \<and> elems a = xs @ ys \<and> elems a' = xs @ x # ys \<and>
         sorted_wrt (\<lambda>x y. order x y \<le> 0) (elems a') \<and> (\<forall>e \<in> set ys. order x e < 0))"
proof -
  have inv: "arr_inv (KMaxTInt div iEntrySize a) a" using assms(1) by (simp add: RA_inv_def)
  have srt: "general_linear_order.ordered order (elems a)"
    using assms(3) by (simp add: general_linear_order.ordered_def [OF assms(2)])
  note ins = general_linear_order.insert_isq [OF assms(2) inv srt, where x = x and rep = aAllowRepeats
      and heap = heap and esz = "iEntrySize a", folded RA_InsertIsq_def]
  show ?thesis
  proof (cases "\<not> aAllowRepeats \<and> (\<exists>e \<in> set (elems a). order x e = 0)")
    case True
    then show ?thesis using ins by simp
  next
    case False
    show ?thesis
      using ins unfolding if_not_P [OF False] general_linear_order.ordered_def [OF assms(2)]
      by (metis append_take_drop_id)
  qed
qed

definition keyed3 :: RArrayBase where
  "keyed3 = \<lparr>iCount = 3, iEntries = [[9, 1], [8, 4], [7, 4], []], iAllocated = 4, iGranularity = 4,
             iKeyOffset = 4, iEntrySize = 8\<rparr>"

lemma keyed3_ok: "RA_inv keyed3" "elems keyed3 = [[9, 1], [8, 4], [7, 4]]"
  by (simp_all add: RA_inv_def arr_inv_def keyed3_def gran_ok_def elems_def)

lemma RA_order_signed_linear: "general_linear_order (RA_order_signed a)"
  unfolding RA_order_signed_def by (rule by_key.general_linear_order_axioms)

theorem RA_InsertIsq_sorted_witness:
  "RA_InsertIsq (small_heap []) keyed3 [5, 4] (RA_order_signed keyed3) False = Inr (KErrAlreadyExists, keyed3) \<and>
   (\<exists>a'. RA_InsertIsq (small_heap []) keyed3 [5, 4] (RA_order_signed keyed3) True = Inr (KErrNone, a') \<and>
      sorted_wrt (\<lambda>x y. RA_order_signed keyed3 x y \<le> 0) (elems a'))"
proof -
  have ord: "RA_order_signed keyed3 [a, b] [c, d] = cmp3 (sint b) (sint d)" for a b c d
    by (simp add: RA_order_signed_def entry_key_def keyed3_def)
  have s4: "sint (4 :: TUint32) = 4" by code_simp
  have srt: "sorted_wrt (\<lambda>x y. RA_order_signed keyed3 x y \<le> 0) (elems keyed3)"
    by (simp add: keyed3_ok ord cmp3_def s4)
  have "\<exists>e \<in> set (elems keyed3). RA_order_signed keyed3 [5, 4] e = 0"
    by (simp add: keyed3_ok ord cmp3_def)
  then show ?thesis
    using RA_InsertIsq_sorted [OF keyed3_ok(1) RA_order_signed_linear srt, where x = "[5, 4]" and heap = "small_heap []" and aAllowRepeats = False]
      RA_InsertIsq_sorted [OF keyed3_ok(1) RA_order_signed_linear srt, where x = "[5, 4]" and heap = "small_heap []" and aAllowRepeats = True]
    by (auto simp: keyed3_def)
qed

text \<open>
  C8. The six heap sorts, three of each class, sort the entries and permute them: by the signed or the
  unsigned value of the words or of the keys, or by the caller's order.
\<close>

theorem HeapSort_sorts:
  assumes "RPA_inv p" "RA_inv a" "general_linear_order order" "general_linear_order porder"
  shows "sorted (map sint (elems (RPA_HeapSortSigned p))) \<and> mset (elems (RPA_HeapSortSigned p)) = mset (elems p) \<and>
    sorted (map uint (elems (RPA_HeapSortUnsigned p))) \<and> mset (elems (RPA_HeapSortUnsigned p)) = mset (elems p) \<and>
    sorted_wrt (\<lambda>x y. porder x y \<le> 0) (elems (RPA_HeapSort p porder)) \<and> mset (elems (RPA_HeapSort p porder)) = mset (elems p) \<and>
    sorted (map (\<lambda>e. sint (entry_key a e)) (elems (RA_HeapSortSigned a))) \<and>
    mset (elems (RA_HeapSortSigned a)) = mset (elems a) \<and>
    sorted (map (\<lambda>e. uint (entry_key a e)) (elems (RA_HeapSortUnsigned a))) \<and>
    mset (elems (RA_HeapSortUnsigned a)) = mset (elems a) \<and>
    sorted_wrt (\<lambda>x y. order x y \<le> 0) (elems (RA_HeapSort a order)) \<and>
    mset (elems (RA_HeapSort a order)) = mset (elems a)"
proof -
  have key: "sort_order (\<lambda>x y. k x > k y)" for k :: "'b \<Rightarrow> int"
    by unfold_locales auto
  have by_int: "sorted (map k (elems (arr_HeapSort (\<lambda>x y. k x > k y) b))) \<and>
      mset (elems (arr_HeapSort (\<lambda>x y. k x > k y) b)) = mset (elems b)"
    if "arr_inv limit b" for k :: "'b \<Rightarrow> int" and b :: "('b, 'z) arr_scheme" and limit
    using heap_sort_array [OF key [of k] that] by (simp add: sorted_map not_less)
  have ra: "arr_inv (KMaxTInt div iEntrySize a) a" and rp: "arr_inv (KMaxTInt div 4) p"
    using assms(1,2) by (simp_all add: RA_inv_def RPA_inv_def)
  have gen: "sort_order (\<lambda>x y. o1 x y > 0)" if "general_linear_order o1" for o1 :: "'c \<Rightarrow> 'c \<Rightarrow> int"
    by (rule sort_order.intro)
      (fact general_linear_order.greater_asym [OF that] general_linear_order.not_greater_trans [OF that])+
  show ?thesis
    unfolding RPA_HeapSortSigned_def RPA_HeapSortUnsigned_def RPA_HeapSort_def RA_HeapSortSigned_def RA_HeapSortUnsigned_def RA_HeapSort_def
    using by_int [OF rp] by_int [OF ra] heap_sort_array [OF gen [OF assms(3)] ra] heap_sort_array [OF gen [OF assms(4)] rp] by (simp add: not_less)
qed

definition shuffled5 :: RPointerArrayBase where
  "shuffled5 = \<lparr>iCount = 5, iEntries = [7, 1, 0xfffffffb, 3, 1, 0], iAllocated = 6, iGranularity = 8\<rparr>"

lemma shuffled5_ok: "RPA_inv shuffled5" "elems shuffled5 = [7, 1, 0xfffffffb, 3, 1]"
  by (simp_all add: RPA_inv_def arr_inv_def shuffled5_def gran_ok_def elems_def)

lemma falling_linear: "general_linear_order (\<lambda>x y. cmp3 (uint (y :: TUint32)) (uint x))"
  by unfold_locales (auto simp: cmp3_def split: if_splits)

theorem HeapSort_sorts_witness:
  "sorted (map sint (elems (RPA_HeapSortSigned shuffled5))) \<and>
   mset (elems (RPA_HeapSortSigned shuffled5)) = {#0xfffffffb, 1, 1, 3, 7#} \<and>
   sorted_wrt (\<lambda>x y. cmp3 (uint y) (uint x) \<le> 0) (elems (RPA_HeapSort shuffled5 (\<lambda>x y. cmp3 (uint y) (uint x)))) \<and>
   mset (elems (RA_HeapSort keyed3 (RA_order_signed keyed3))) = {#[9, 1], [8, 4], [7, 4]#}"
  using HeapSort_sorts [OF shuffled5_ok(1) keyed3_ok(1) RA_order_signed_linear [of keyed3] falling_linear]
  by (simp add: shuffled5_ok keyed3_ok ac_simps)

end
