(* ===== verification/ClientReq.thy ===== *)
theory ClientReq
  imports Prelude
begin

text \<open>
  The client request object of the kernel, \<open>TClientRequest\<close> in
  \<^verbatim>\<open>kernel/eka/kernel/sutils.cpp\<close>: one word that holds the address of the client's
  \<open>TRequestStatus\<close> and two flag bits, and its life cycle. The atomic operations are single
  steps. The abstract machine is the table in the source's comment; the theory shows that the
  word-level operations implement it, for every sequence of calls.
\<close>

section \<open>The object\<close>

record TClientRequest =
  iStatus :: TUint32
  iResult :: int

datatype TState = EFree | EReady | EInUse | EClosing | EBad

abbreviation KClientRequestFlagClosing :: TUint32 where "KClientRequestFlagClosing \<equiv> 1"
abbreviation KClientRequestFlagInUse :: TUint32 where "KClientRequestFlagInUse \<equiv> 2"
abbreviation KClientRequestFlagMask :: TUint32 where "KClientRequestFlagMask \<equiv> 3"
abbreviation KClientRequestNullStatus :: TUint32 where "KClientRequestNullStatus \<equiv> 4"

abbreviation (input) KRequestPending :: int where "KRequestPending \<equiv> - KMaxTInt"
abbreviation (input) KErrArgument :: int where "KErrArgument \<equiv> -6"
abbreviation (input) KErrInUse :: int where "KErrInUse \<equiv> -14"

definition TClientRequest_ctor :: TClientRequest where
  "TClientRequest_ctor = \<lparr>iStatus = 0, iResult = KRequestPending\<rparr>"

definition IsReady :: "TClientRequest \<Rightarrow> bool" where
  "IsReady req \<longleftrightarrow> iStatus req \<noteq> 0 \<and> iStatus req AND KClientRequestFlagMask = 0"

definition GetState :: "TUint32 \<Rightarrow> TState" where
  "GetState aStatus =
     (if aStatus = 0 then EFree
      else if aStatus AND KClientRequestFlagMask = 0 then EReady
      else if aStatus AND KClientRequestFlagMask = KClientRequestFlagInUse then EInUse
      else if aStatus AND KClientRequestFlagMask = (KClientRequestFlagInUse OR KClientRequestFlagClosing) then EClosing
      else EBad)"

definition req_State :: "TClientRequest \<Rightarrow> TState" where
  "req_State req = GetState (iStatus req)"

definition StatusPtr :: "TClientRequest \<Rightarrow> TUint32" where
  "StatusPtr req = iStatus req AND NOT KClientRequestFlagMask"

section \<open>Operations\<close>

definition SetStatus :: "TClientRequest \<Rightarrow> TUint32 \<Rightarrow> int \<times> TClientRequest" where
  "SetStatus req aStatus =
     (if aStatus AND KClientRequestFlagMask \<noteq> 0 \<or> aStatus = KClientRequestNullStatus then (KErrArgument, req)
      else let newStatus = (if aStatus \<noteq> 0 then aStatus else KClientRequestNullStatus)
           in if iStatus req = 0 then (KErrNone, req\<lparr>iStatus := newStatus\<rparr>) else (KErrInUse, req))"

definition Reset :: "TClientRequest \<Rightarrow> TClientRequest" where
  "Reset req = req\<lparr>iStatus := 0\<rparr>"

definition StartComplete :: "TClientRequest \<Rightarrow> int \<Rightarrow> bool \<times> TClientRequest" where
  "StartComplete req aReason =
     (let status = iStatus req
      in if status = 0 \<or> status AND KClientRequestFlagMask \<noteq> 0 then (False, req)
         else (True, req\<lparr>iStatus := status OR KClientRequestFlagInUse, iResult := aReason\<rparr>))"

text \<open>
  \<open>EndComplete\<close> queues the callback on the thread, or on the supervisor when the thread is
  exiting, and signals the thread: the effects returned are which queue, and the signal.
  \<open>accepts\<close> tells whether \<open>NKern::QueueUserModeCallback\<close> accepts callbacks for the thread.
\<close>

definition EndComplete :: "TClientRequest \<Rightarrow> bool \<Rightarrow> bool \<times> bool" where
  "EndComplete req accepts =
     (if accepts
      then (True, iStatus req AND NOT KClientRequestFlagInUse \<noteq> KClientRequestNullStatus)
      else (False, False))"

text \<open>\<open>Close\<close> and \<open>MakeFree\<close> also tell whether they free the object.\<close>

definition req_Close :: "TClientRequest \<Rightarrow> bool \<times> TClientRequest" where
  "req_Close req =
     (let status = iStatus req
      in (status AND KClientRequestFlagInUse = 0, req\<lparr>iStatus := status OR KClientRequestFlagClosing\<rparr>))"

definition MakeFree :: "TClientRequest \<Rightarrow> TUint32 \<times> bool \<times> TClientRequest" where
  "MakeFree req =
     (let oldStatus = iStatus req
      in (oldStatus, oldStatus AND KClientRequestFlagClosing \<noteq> 0,
          req\<lparr>iStatus := oldStatus AND KClientRequestFlagClosing, iResult := KRequestPending\<rparr>))"

text \<open>
  The callback in the client thread: what it writes to user memory (address and value), whether the
  object is freed, and the object. \<open>run\<close> is false for \<open>EUserModeCallbackCancel\<close>.
\<close>

definition CallbackFunc :: "TClientRequest \<Rightarrow> bool \<Rightarrow> (TUint32 \<times> int) option \<times> bool \<times> TClientRequest" where
  "CallbackFunc req run =
     (let result = iResult req;
          (old, freed, req') = MakeFree req;
          statusPtr = old AND NOT KClientRequestFlagMask
      in (if run \<and> statusPtr \<noteq> KClientRequestNullStatus then Some (statusPtr, result) else None, freed, req'))"

section \<open>The documented life cycle\<close>

text \<open>
  The abstract machine of the comment at line 3289: the object is free, ready with the client's
  status address (\<open>None\<close> for a null address), in use with the reason to deliver, closing, or dead.
\<close>

datatype req_abs =
    Free
  | Ready "TUint32 option"
  | InUse "TUint32 option" int
  | Closing "TUint32 option" int
  | Dead

datatype req_op = OSetStatus TUint32 | OReset | OQueue int | OCallback bool | OClose

text \<open>When a client may make each call: the callback runs only for a queued object, and so on.\<close>

fun op_allowed :: "req_op \<Rightarrow> req_abs \<Rightarrow> bool" where
  "op_allowed (OSetStatus s) a \<longleftrightarrow> a \<noteq> Dead \<and> (\<nexists>p r. a = Closing p r)"
| "op_allowed OReset a \<longleftrightarrow> a = Free \<or> (\<exists>p. a = Ready p)"
| "op_allowed (OQueue r) a \<longleftrightarrow> a \<noteq> Dead"
| "op_allowed (OCallback run) a \<longleftrightarrow> (\<exists>p r. a = InUse p r \<or> a = Closing p r)"
| "op_allowed OClose a \<longleftrightarrow> a \<noteq> Dead \<and> (\<nexists>p r. a = Closing p r)"

definition bad_address :: "TUint32 \<Rightarrow> bool" where
  "bad_address s \<longleftrightarrow> s AND 3 \<noteq> 0 \<or> s = 4"

definition abs_address :: "TUint32 \<Rightarrow> TUint32 option" where
  "abs_address s = (if s = 0 then None else Some s)"

text \<open>One step: the new state, and what is written to user memory.\<close>

fun abs_step :: "req_op \<Rightarrow> req_abs \<Rightarrow> req_abs \<times> (TUint32 \<times> int) option" where
  "abs_step (OSetStatus s) Free = (if bad_address s then Free else Ready (abs_address s), None)"
| "abs_step (OSetStatus s) a = (a, None)"
| "abs_step OReset (Ready p) = (Free, None)"
| "abs_step OReset a = (a, None)"
| "abs_step (OQueue r) (Ready p) = (InUse p r, None)"
| "abs_step (OQueue r) a = (a, None)"
| "abs_step (OCallback run) (InUse p r) = (Free, if run then map_option (\<lambda>s. (s, r)) p else None)"
| "abs_step (OCallback run) (Closing p r) = (Dead, if run then map_option (\<lambda>s. (s, r)) p else None)"
| "abs_step (OCallback run) a = (a, None)"
| "abs_step OClose Free = (Dead, None)"
| "abs_step OClose (Ready p) = (Dead, None)"
| "abs_step OClose (InUse p r) = (Closing p r, None)"
| "abs_step OClose a = (a, None)"

text \<open>The same step on the object; \<open>None\<close> once it is freed.\<close>

fun req_step :: "req_op \<Rightarrow> TClientRequest \<Rightarrow> TClientRequest option \<times> (TUint32 \<times> int) option" where
  "req_step (OSetStatus s) req = (Some (snd (SetStatus req s)), None)"
| "req_step OReset req = (Some (Reset req), None)"
| "req_step (OQueue r) req = (Some (snd (StartComplete req r)), None)"
| "req_step (OCallback run) req =
     (let (w, freed, req') = CallbackFunc req run in (if freed then None else Some req', w))"
| "req_step OClose req = (let (freed, req') = req_Close req in (if freed then None else Some req', None))"

fun req_run :: "req_op list \<Rightarrow> TClientRequest option \<Rightarrow> TClientRequest option \<times> (TUint32 \<times> int) list" where
  "req_run [] r = (r, [])"
| "req_run (x # xs) None = (None, [])"
| "req_run (x # xs) (Some r) =
     (let (r', w) = req_step x r; (r'', ws) = req_run xs r'
      in (r'', (case w of None \<Rightarrow> ws | Some p \<Rightarrow> p # ws)))"

fun abs_run :: "req_op list \<Rightarrow> req_abs \<Rightarrow> req_abs \<times> (TUint32 \<times> int) list" where
  "abs_run [] a = (a, [])"
| "abs_run (x # xs) a =
     (let (a', w) = abs_step x a; (a'', ws) = abs_run xs a'
      in (a'', (case w of None \<Rightarrow> ws | Some p \<Rightarrow> p # ws)))"

fun run_allowed :: "req_op list \<Rightarrow> req_abs \<Rightarrow> bool" where
  "run_allowed [] a \<longleftrightarrow> True"
| "run_allowed (x # xs) a \<longleftrightarrow> op_allowed x a \<and> run_allowed xs (fst (abs_step x a))"

text \<open>The words that stand for each abstract state.\<close>

definition word_of_address :: "TUint32 option \<Rightarrow> TUint32" where
  "word_of_address p = (case p of None \<Rightarrow> 4 | Some s \<Rightarrow> s)"

definition good_address :: "TUint32 option \<Rightarrow> bool" where
  "good_address p \<longleftrightarrow> (case p of None \<Rightarrow> True | Some s \<Rightarrow> s \<noteq> 0 \<and> \<not> bad_address s)"

fun represents :: "TClientRequest option \<Rightarrow> req_abs \<Rightarrow> bool" where
  "represents (Some req) Free \<longleftrightarrow> iStatus req = 0"
| "represents (Some req) (Ready p) \<longleftrightarrow> good_address p \<and> iStatus req = word_of_address p"
| "represents (Some req) (InUse p r) \<longleftrightarrow> good_address p \<and> iStatus req = word_of_address p OR 2 \<and> iResult req = r"
| "represents (Some req) (Closing p r) \<longleftrightarrow> good_address p \<and> iStatus req = word_of_address p OR 3 \<and> iResult req = r"
| "represents None a \<longleftrightarrow> a = Dead"
| "represents (Some req) Dead \<longleftrightarrow> False"

section \<open>The object implements the life cycle\<close>

named_theorems req_defs \<open>definitions of the operations on requests\<close>

declare SetStatus_def [req_defs] Reset_def [req_defs] StartComplete_def [req_defs] CallbackFunc_def [req_defs]
  MakeFree_def [req_defs] req_Close_def [req_defs] Let_def [req_defs]

lemma address_word:
  assumes "good_address p"
  shows "word_of_address p AND 3 = 0" "word_of_address p \<noteq> 0" "word_of_address p = 4 \<longleftrightarrow> p = None"
    "p \<noteq> None \<Longrightarrow> p = Some (word_of_address p)"
  using assms by (cases p; simp add: good_address_def word_of_address_def bad_address_def)+

lemma flag_bits:
  assumes "(w :: TUint32) AND 3 = 0"
  shows "(w OR 2) AND 3 = 2" "(w OR 3) AND 3 = 3" "(w OR 2) AND NOT 3 = w" "(w OR 3) AND NOT 3 = w"
    "(w OR 2) AND 1 = 0" "(w OR 3) AND 1 = 1" "(w OR 2) OR 1 = w OR 3" "(w OR 2) AND 2 = 2" "w AND 2 = 0"
    "w OR 2 \<noteq> 0" "w OR 3 \<noteq> 0"
proof -
  have w1: "w AND 1 = 0"
  proof -
    have "w AND 1 = (w AND 3) AND 1" by (simp add: and.assoc)
    then show ?thesis using assms by simp
  qed
  show w2: "w AND 2 = 0"
  proof -
    have "w AND 2 = (w AND 3) AND 2" by (simp add: and.assoc)
    then show ?thesis using assms by simp
  qed
  have "w = (w AND 3) OR (w AND NOT 3)" by (simp add: bit.conj_disj_distrib [symmetric])
  then have wn: "w AND NOT 3 = w" using assms by simp
  show m2: "(w OR 2) AND 3 = 2" and m3: "(w OR 3) AND 3 = 3"
    using assms by (simp_all add: bit.conj_disj_distrib2)
  show "(w OR 2) AND NOT 3 = w" "(w OR 3) AND NOT 3 = w"
    using wn by (simp_all add: bit.conj_disj_distrib2)
  show "(w OR 2) AND 1 = 0" "(w OR 3) AND 1 = 1" "(w OR 2) AND 2 = 2"
    using w1 w2 by (simp_all add: bit.conj_disj_distrib2)
  show "(w OR 2) OR 1 = w OR 3" by (simp add: or.assoc)
  show "w OR 2 \<noteq> 0" using m2 by auto
  show "w OR 3 \<noteq> 0"
  proof
    assume z: "w OR 3 = 0"
    show False using m3 unfolding z by simp
  qed
qed

lemma req_step_refines:
  assumes "represents (Some req) a" "op_allowed x a"
  shows "represents (fst (req_step x req)) (fst (abs_step x a)) \<and> snd (req_step x req) = snd (abs_step x a)"
proof (cases a)
  case Free
  then show ?thesis
    using assms by (cases x) (auto simp: req_defs bad_address_def good_address_def abs_address_def word_of_address_def)
next
  case (Ready p)
  then have p: "good_address p" "iStatus req = word_of_address p" using assms(1) by auto
  note w = address_word [OF p(1)]
  then show ?thesis
    using assms Ready p flag_bits [OF w(1)] by (cases x) (auto simp: req_defs)
next
  case (InUse p r)
  then have p: "good_address p" "iStatus req = word_of_address p OR 2" "iResult req = r" using assms(1) by auto
  note w = address_word [OF p(1)]
  show ?thesis
    using assms InUse p flag_bits [OF w(1)] w(3,4) by (cases x; cases p) (auto simp: req_defs)
next
  case (Closing p r)
  then have p: "good_address p" "iStatus req = word_of_address p OR 3" "iResult req = r" using assms(1) by auto
  note w = address_word [OF p(1)]
  show ?thesis
    using assms Closing p flag_bits [OF w(1)] w(3,4) by (cases x; cases p) (auto simp: req_defs)
next
  case Dead
  then show ?thesis using assms by simp
qed

lemma dead_nothing: "run_allowed xs Dead \<Longrightarrow> xs = []"
  by (cases xs; cases "hd xs") auto

lemma req_run_refines:
  "represents (Some req) a \<Longrightarrow> run_allowed xs a \<Longrightarrow>
   represents (fst (req_run xs (Some req))) (fst (abs_run xs a)) \<and>
   snd (req_run xs (Some req)) = snd (abs_run xs a)"
proof (induction xs arbitrary: req a)
  case (Cons x xs)
  note one = req_step_refines [OF Cons.prems(1), of x] and later = Cons.prems(2)
  obtain r' w where r': "req_step x req = (r', w)" by fastforce
  obtain a' w' where a': "abs_step x a = (a', w')" by fastforce
  have rep: "represents r' a'" "w = w'" using one later r' a' by auto
  show ?case
  proof (cases r')
    case None
    then have "xs = []" using rep(1) later a' dead_nothing by simp
    then show ?thesis using r' a' rep by simp
  next
    case (Some req')
    then have "represents (fst (req_run xs (Some req'))) (fst (abs_run xs a')) \<and>
        snd (req_run xs (Some req')) = snd (abs_run xs a')"
      using Cons.IH [of req' a'] rep later a' by simp
    then show ?thesis using r' a' rep Some by (auto split: prod.splits option.splits)
  qed
qed simp

lemma ctor_represents: "represents (Some TClientRequest_ctor) Free"
  by (simp add: TClientRequest_ctor_def)

text \<open>Facts the clients of a request use.\<close>

lemma SetStatus_ready: "SetStatus req s = (KErrNone, req') \<Longrightarrow> IsReady req'"
  by (auto simp: SetStatus_def IsReady_def Let_def split: if_splits)

lemma SetStatus_failed: "SetStatus req s = (r, req') \<Longrightarrow> r \<noteq> KErrNone \<Longrightarrow> req' = req"
  by (auto simp: SetStatus_def Let_def split: if_splits)

lemma Reset_not_ready [simp]: "\<not> IsReady (Reset req)"
  by (simp add: IsReady_def Reset_def)

lemma StartComplete_ready:
  assumes "IsReady req"
  shows "fst (StartComplete req r)" "\<not> IsReady (snd (StartComplete req r))"
proof -
  have w: "iStatus req AND 3 = 0" "iStatus req \<noteq> 0" using assms by (auto simp: IsReady_def)
  show "fst (StartComplete req r)" "\<not> IsReady (snd (StartComplete req r))"
    using w flag_bits(1) [OF w(1)] by (simp_all add: StartComplete_def IsReady_def Let_def)
qed

lemma MakeFree_not_ready [simp]: "\<not> IsReady (snd (snd (MakeFree req)))"
proof -
  have "((w :: TUint32) AND 1) AND 3 = w AND 1" for w by (simp add: and.assoc)
  then have "\<not> (x \<noteq> 0 \<and> x AND 3 = 0)" if "x = w AND 1" for x w :: TUint32
    using that by metis
  then show ?thesis by (simp only: MakeFree_def IsReady_def Let_def snd_conv) simp
qed

section \<open>Properties\<close>

text \<open>
  C11. For every sequence of calls a client may make, from a new request, the request object goes
  through the states of the documented life cycle and the same completions are written to the
  client: the object is freed exactly in state DEAD, and never written to after that.
\<close>

theorem request_life_cycle:
  assumes "run_allowed ops Free"
  shows "case req_run ops (Some TClientRequest_ctor) of
      (r, writes) \<Rightarrow> represents r (fst (abs_run ops Free)) \<and> writes = snd (abs_run ops Free)"
  using req_run_refines [OF ctor_represents assms]
  by (cases "req_run ops (Some TClientRequest_ctor)") simp

theorem request_life_cycle_witness:
  "case req_run [OSetStatus 0x400100, OQueue 5, OClose, OCallback True] (Some TClientRequest_ctor) of
     (r, writes) \<Rightarrow> r = None \<and> writes = [(0x400100, 5)]"
  using request_life_cycle [of "[OSetStatus 0x400100, OQueue 5, OClose, OCallback True]"]
  by (auto simp: bad_address_def abs_address_def split: prod.splits)

text \<open>
  A request is completed at most once: whatever further completions are queued after the
  first, in any number, the callback writes only the first reason, to the address given, and the
  object is free again.
\<close>

theorem request_completes_once:
  assumes "\<not> bad_address s" "s \<noteq> 0"
  shows "\<exists>req. req_run (OSetStatus s # OQueue r # map OQueue rs @ [OCallback True]) (Some TClientRequest_ctor) =
      (Some req, [(s, r)]) \<and> req_State req = EFree"
proof -
  let ?ops = "OSetStatus s # OQueue r # map OQueue rs @ [OCallback True]"
  have q: "abs_run (map OQueue rs @ [OCallback True]) (InUse (Some s) r) = (Free, [(s, r)])"
    "run_allowed (map OQueue rs @ [OCallback True]) (InUse (Some s) r)"
    by (induction rs) simp_all
  have "run_allowed ?ops Free" "abs_run ?ops Free = (Free, [(s, r)])"
    using q assms by (simp_all add: abs_address_def)
  then have "represents (fst (req_run ?ops (Some TClientRequest_ctor))) Free"
    "snd (req_run ?ops (Some TClientRequest_ctor)) = [(s, r)]"
    using req_run_refines [OF ctor_represents, of ?ops] by simp_all
  then show ?thesis
    by (cases "fst (req_run ?ops (Some TClientRequest_ctor))"; cases "req_run ?ops (Some TClientRequest_ctor)")
      (auto simp: req_State_def GetState_def)
qed

theorem request_completes_once_witness:
  "\<exists>req. req_run [OSetStatus 0x400100, OQueue 0, OQueue (-3), OQueue (-9), OCallback True] (Some TClientRequest_ctor) =
      (Some req, [(0x400100, 0)]) \<and> req_State req = EFree"
  using request_completes_once [of "0x400100" 0 "[-3, -9]"] by (simp add: bad_address_def)

end
