(* ===== verification/Msgq.thy ===== *)
theory Msgq
  imports ClientReq
begin

text \<open>
  The kernel's message queues, \<^verbatim>\<open>kernel/eka/kernel/smqueue.cpp\<close> (class
  \<open>DMsgQueue\<close> and the exec handlers): a ring of slots in one block of memory, and the two
  notifications, each with a waiting thread and a client request. Every operation runs
  with the system locked, so each is one step of the model.
\<close>

section \<open>State\<close>

datatype TQueueState = EEmpty | EPartial | EFull

datatype TNotification = ESpaceAvailable | EDataAvailable

abbreviation (input) KMaxLength :: nat where "KMaxLength \<equiv> 256"

text \<open>
  The pool is a list of bytes and the pointers into it are offsets. Threads are numbers; a null
  pointer is \<open>None\<close>. A new object is zero-filled.
\<close>

record DMsgQueue =
  iMsgPool :: "8 word list"
  iFirstFreeSlot :: nat
  iFirstFullSlot :: nat
  iEndOfPool :: nat
  iThreadWaitingOnSpaceAvail :: "nat option"
  iThreadWaitingOnDataAvail :: "nat option"
  iDataAvailRequest :: "TClientRequest option"
  iSpaceAvailRequest :: "TClientRequest option"
  iMaxMsgLength :: nat
  iState :: TQueueState

definition blank_queue :: DMsgQueue where
  "blank_queue = \<lparr>iMsgPool = [], iFirstFreeSlot = 0, iFirstFullSlot = 0, iEndOfPool = 0,
     iThreadWaitingOnSpaceAvail = None, iThreadWaitingOnDataAvail = None,
     iDataAvailRequest = None, iSpaceAvailRequest = None, iMaxMsgLength = 0, iState = EEmpty\<rparr>"

text \<open>
  The queue with what it touches of the rest of the kernel: the access counts of the threads, which
  threads have not exited (\<open>iExitType == EExitPending\<close>), which accept user-mode callbacks, which
  user addresses can be written; the callbacks queued (thread, request, and whether it will run in
  the thread or is cancelled), the request semaphore signals and the completion codes written so
  far, and the threads deleted.
\<close>

record mq_sys =
  queue :: DMsgQueue
  access :: "nat \<Rightarrow> int"
  alive :: "nat \<Rightarrow> bool"
  accepts :: "nat \<Rightarrow> bool"
  writable :: "TUint32 \<Rightarrow> bool"
  callbacks :: "(nat \<times> TNotification \<times> bool) list"
  signals :: "nat \<Rightarrow> nat"
  written :: "(nat \<times> TUint32 \<times> int) list"
  deleted :: "nat list"

text \<open>
  How a call ends: with a value, by panicking the calling thread (the system goes on), or by the
  kernel following a null pointer or running out of a block of memory.
\<close>

datatype 'a mq_out = Ret 'a | PanicThread string | Crash

fun waiter :: "TNotification \<Rightarrow> DMsgQueue \<Rightarrow> nat option" where
  "waiter ESpaceAvailable q = iThreadWaitingOnSpaceAvail q"
| "waiter EDataAvailable q = iThreadWaitingOnDataAvail q"

fun set_waiter :: "TNotification \<Rightarrow> nat option \<Rightarrow> DMsgQueue \<Rightarrow> DMsgQueue" where
  "set_waiter ESpaceAvailable t q = q\<lparr>iThreadWaitingOnSpaceAvail := t\<rparr>"
| "set_waiter EDataAvailable t q = q\<lparr>iThreadWaitingOnDataAvail := t\<rparr>"

fun request :: "TNotification \<Rightarrow> DMsgQueue \<Rightarrow> TClientRequest option" where
  "request ESpaceAvailable q = iSpaceAvailRequest q"
| "request EDataAvailable q = iDataAvailRequest q"

fun set_request :: "TNotification \<Rightarrow> TClientRequest \<Rightarrow> DMsgQueue \<Rightarrow> DMsgQueue" where
  "set_request ESpaceAvailable r q = q\<lparr>iSpaceAvailRequest := Some r\<rparr>"
| "set_request EDataAvailable r q = q\<lparr>iDataAvailRequest := Some r\<rparr>"

section \<open>Threads and completions\<close>

text \<open>\<open>DObject::Dec\<close> leaves a count that is not positive; \<open>Close\<close> deletes at count 1.\<close>

definition dec_access :: "nat \<Rightarrow> mq_sys \<Rightarrow> mq_sys" where
  "dec_access t s = s\<lparr>access := (access s)(t := (if access s t \<ge> 1 then access s t - 1 else access s t))\<rparr>"

definition close_thread :: "nat \<Rightarrow> mq_sys \<Rightarrow> mq_sys" where
  "close_thread t s =
     (let s' = dec_access t s in if access s t = 1 then s'\<lparr>deleted := deleted s' @ [t]\<rparr> else s')"

definition QueueRequestComplete :: "TNotification \<Rightarrow> nat \<Rightarrow> TClientRequest \<Rightarrow> int \<Rightarrow> mq_sys \<Rightarrow> mq_sys" where
  "QueueRequestComplete n aThread req aReason s =
     (let (started, req') = StartComplete req aReason
      in if started
         then let (run, sig) = EndComplete req' (accepts s aThread)
              in s\<lparr>queue := set_request n req' (queue s), callbacks := callbacks s @ [(aThread, n, run)],
                   signals := (signals s)(aThread := signals s aThread + (if sig then 1 else 0))\<rparr>
         else s)"

text \<open>\<open>Kern::RequestComplete\<close> for the current thread.\<close>

definition RequestComplete :: "nat \<Rightarrow> TUint32 \<Rightarrow> int \<Rightarrow> mq_sys \<Rightarrow> mq_sys" where
  "RequestComplete cur aStatus aReason s =
     (if aStatus \<noteq> 0 \<and> writable s aStatus
      then s\<lparr>written := written s @ [(cur, aStatus, aReason)], signals := (signals s)(cur := signals s cur + 1)\<rparr>
      else s)"

definition CompleteRequestIfPending :: "TNotification \<Rightarrow> int \<Rightarrow> mq_sys \<Rightarrow> unit mq_out \<times> mq_sys" where
  "CompleteRequestIfPending n aCompletionVal s =
     (let thread = waiter n (queue s);
          s1 = s\<lparr>queue := set_waiter n None (queue s)\<rparr>
      in case request n (queue s) of
           None \<Rightarrow> (Crash, s1)
         | Some req \<Rightarrow>
             if IsReady req
             then case thread of
                    None \<Rightarrow> (Crash, s1)
                  | Some t \<Rightarrow>
                      let s2 = dec_access t s1
                      in if access s1 t = 1
                         then (Ret (), s2\<lparr>queue := set_request n (Reset req) (queue s2), deleted := deleted s2 @ [t]\<rparr>)
                         else (Ret (), QueueRequestComplete n t req aCompletionVal s2)
             else (Ret (), s1))"

section \<open>Sending and receiving\<close>

definition mq_Send :: "8 word list \<Rightarrow> int \<Rightarrow> mq_sys \<Rightarrow> int mq_out \<times> mq_sys" where
  "mq_Send aPtr aLength s =
     (let q = queue s
      in if aLength > int (iMaxMsgLength q) \<or> aLength \<le> 0 then (PanicThread ''EMsgQueueInvalidLength'', s)
         else if iState q = EFull then (Ret KErrOverflow, s)
         else
           let len = nat aLength; slot = iFirstFreeSlot q
           in if length aPtr < len \<or> length (iMsgPool q) < slot + len then (Crash, s)
              else
                let pool = take slot (iMsgPool q) @ take len aPtr @ drop (slot + len) (iMsgPool q);
                    next1 = slot + iMaxMsgLength q;
                    next2 = (if next1 = iEndOfPool q then 0 else next1);
                    q' = q\<lparr>iMsgPool := pool, iFirstFreeSlot := next2,
                           iState := (if next2 = iFirstFullSlot q then EFull else EPartial)\<rparr>
                in case CompleteRequestIfPending EDataAvailable KErrNone (s\<lparr>queue := q'\<rparr>) of
                     (Ret _, s') \<Rightarrow> (Ret KErrNone, s')
                   | (PanicThread p, s') \<Rightarrow> (PanicThread p, s')
                   | (Crash, s') \<Rightarrow> (Crash, s'))"

definition mq_Receive :: "int \<Rightarrow> mq_sys \<Rightarrow> (int \<times> 8 word list) mq_out \<times> mq_sys" where
  "mq_Receive aLength s =
     (let q = queue s
      in if aLength \<noteq> int (iMaxMsgLength q) then (PanicThread ''EMsgQueueInvalidLength'', s)
         else if iState q = EEmpty then (Ret (KErrUnderflow, []), s)
         else
           let slot = iFirstFullSlot q
           in if length (iMsgPool q) < slot + iMaxMsgLength q then (Crash, s)
              else
                let msg = take (iMaxMsgLength q) (drop slot (iMsgPool q));
                    next1 = slot + iMaxMsgLength q;
                    next2 = (if next1 = iEndOfPool q then 0 else next1);
                    q' = q\<lparr>iFirstFullSlot := next2,
                           iState := (if iFirstFreeSlot q = next2 then EEmpty else EPartial)\<rparr>
                in case CompleteRequestIfPending ESpaceAvailable KErrNone (s\<lparr>queue := q'\<rparr>) of
                     (Ret _, s') \<Rightarrow> (Ret (KErrNone, msg), s')
                   | (PanicThread p, s') \<Rightarrow> (PanicThread p, s')
                   | (Crash, s') \<Rightarrow> (Crash, s'))"

section \<open>Notifications\<close>

definition condition_holds :: "TNotification \<Rightarrow> DMsgQueue \<Rightarrow> bool" where
  "condition_holds n q \<longleftrightarrow>
     (n = ESpaceAvailable \<and> iState q \<noteq> EFull) \<or> (n = EDataAvailable \<and> iState q \<noteq> EEmpty)"

text \<open>The first part of \<open>RequestNotification\<close>: what is left over from a thread that has died.\<close>

definition take_over :: "TNotification \<Rightarrow> mq_sys \<Rightarrow> nat option mq_out \<times> mq_sys" where
  "take_over n s =
     (case request n (queue s) of
        None \<Rightarrow> (Crash, s)
      | Some req \<Rightarrow>
          if IsReady req
          then case waiter n (queue s) of
                 None \<Rightarrow> (Crash, s)
               | Some t \<Rightarrow>
                   if alive s t then (PanicThread ''EMsgQueueRequestPending'', s)
                   else (Ret (Some t), s\<lparr>queue := set_request n (Reset req) (set_waiter n None (queue s))\<rparr>)
          else (Ret None, s))"

definition RequestNotification ::
    "TNotification \<Rightarrow> TUint32 \<Rightarrow> nat \<Rightarrow> mq_sys \<Rightarrow> unit mq_out \<times> mq_sys" where
  "RequestNotification n aStatus cur s =
     (case take_over n s of
        (Crash, s1) \<Rightarrow> (Crash, s1)
      | (PanicThread p, s1) \<Rightarrow> (PanicThread p, s1)
      | (Ret previous, s1) \<Rightarrow>
          let finish = (\<lambda>s. case previous of None \<Rightarrow> s | Some t \<Rightarrow> close_thread t s)
          in if condition_holds n (queue s1) then (Ret (), finish (RequestComplete cur aStatus KErrNone s1))
             else if access s1 cur < 1 then (PanicThread ''EBadHandle'', s1)
             else
               let s2 = s1\<lparr>access := (access s1)(cur := access s1 cur + 1),
                           queue := set_waiter n (Some cur) (queue s1)\<rparr>
               in case request n (queue s2) of
                    None \<Rightarrow> (Crash, s2)
                  | Some req \<Rightarrow>
                      let (r, req') = SetStatus req aStatus;
                          s3 = finish (s2\<lparr>queue := set_request n req' (queue s2)\<rparr>)
                      in if r \<noteq> KErrNone then (PanicThread ''EMsgQueueRequestPending'', s3) else (Ret (), s3))"

definition NotifySpaceAvailable :: "TUint32 \<Rightarrow> nat \<Rightarrow> mq_sys \<Rightarrow> unit mq_out \<times> mq_sys" where
  "NotifySpaceAvailable aStatus cur s = RequestNotification ESpaceAvailable aStatus cur s"

definition NotifyDataAvailable :: "TUint32 \<Rightarrow> nat \<Rightarrow> mq_sys \<Rightarrow> unit mq_out \<times> mq_sys" where
  "NotifyDataAvailable aStatus cur s = RequestNotification EDataAvailable aStatus cur s"

definition CancelSpaceAvailable :: "mq_sys \<Rightarrow> unit mq_out \<times> mq_sys" where
  "CancelSpaceAvailable s = CompleteRequestIfPending ESpaceAvailable KErrCancel s"

definition CancelDataAvailable :: "mq_sys \<Rightarrow> unit mq_out \<times> mq_sys" where
  "CancelDataAvailable s = CompleteRequestIfPending EDataAvailable KErrCancel s"

text \<open>The \<open>k\<close>-th queued callback is run, when its thread returns to user mode (or is cleaned up).\<close>

definition run_callback :: "nat \<Rightarrow> mq_sys \<Rightarrow> mq_sys" where
  "run_callback k s =
     (if k < length (callbacks s)
      then let (t, n, run) = callbacks s ! k
           in case request n (queue s) of
                None \<Rightarrow> s
              | Some req \<Rightarrow>
                  let (w, freed, req') = CallbackFunc req run
                  in s\<lparr>queue := set_request n req' (queue s),
                       callbacks := take k (callbacks s) @ drop (Suc k) (callbacks s),
                       written := written s @ (case w of None \<Rightarrow> [] | Some (a, r) \<Rightarrow> if writable s a then [(t, a, r)] else [])\<rparr>
      else s)"

definition MessageSize :: "DMsgQueue \<Rightarrow> nat" where
  "MessageSize q = iMaxMsgLength q"

section \<open>Creation and destruction\<close>

text \<open>
  What creation depends on: the results of setting the name, of allocating the object, the two
  requests and the pool, of adding the object to its container and of making the handle.
\<close>

record mq_env =
  named :: bool
  setname_ret :: int
  alloc_object :: bool
  alloc_data :: bool
  alloc_space :: bool
  alloc_pool :: bool
  add_ret :: int
  handle_ret :: int

definition mq_Create :: "mq_env \<Rightarrow> int \<Rightarrow> int \<Rightarrow> DMsgQueue \<Rightarrow> int \<times> DMsgQueue" where
  "mq_Create env aMsgLength aSlotCount q =
     (if named env \<and> setname_ret env \<noteq> KErrNone then (setname_ret env, q)
      else if \<not> alloc_data env then (KErrNoMemory, q)
      else
        let q1 = q\<lparr>iDataAvailRequest := Some TClientRequest_ctor\<rparr>
        in if \<not> alloc_space env then (KErrNoMemory, q1)
           else
             let q2 = q1\<lparr>iSpaceAvailRequest := Some TClientRequest_ctor\<rparr>
             in if aSlotCount > (KMaxTInt div 2) div aMsgLength then (KErrNoMemory, q2)
                else if \<not> alloc_pool env then (KErrNoMemory, q2)
                else (add_ret env,
                      q2\<lparr>iMsgPool := replicate (nat (aSlotCount * aMsgLength)) 0,
                         iMaxMsgLength := nat aMsgLength, iFirstFreeSlot := 0, iFirstFullSlot := 0,
                         iEndOfPool := nat (aMsgLength * aSlotCount)\<rparr>))"

text \<open>The destructor: the waiting threads are completed with \<open>KErrCancel\<close>, the requests closed.\<close>

definition cancel_waiter :: "TNotification \<Rightarrow> mq_sys \<Rightarrow> unit mq_out \<times> mq_sys" where
  "cancel_waiter n s =
     (case request n (queue s) of
        None \<Rightarrow> (Crash, s)
      | Some req \<Rightarrow>
          if IsReady req
          then case waiter n (queue s) of
                 None \<Rightarrow> (Crash, s)
               | Some t \<Rightarrow> (Ret (), close_thread t (QueueRequestComplete n t req KErrCancel s))
          else (Ret (), s))"

definition close_request :: "TNotification \<Rightarrow> mq_sys \<Rightarrow> mq_sys" where
  "close_request n s =
     (case request n (queue s) of
        None \<Rightarrow> s
      | Some req \<Rightarrow> s\<lparr>queue := set_request n (snd (req_Close req)) (queue s)\<rparr>)"

definition mq_Destroy :: "mq_sys \<Rightarrow> unit mq_out \<times> mq_sys" where
  "mq_Destroy s =
     (case cancel_waiter EDataAvailable s of
        (Ret _, s1) \<Rightarrow>
          (case cancel_waiter ESpaceAvailable s1 of
             (Ret _, s2) \<Rightarrow> (Ret (), close_request ESpaceAvailable (close_request EDataAvailable
                              (s2\<lparr>queue := (queue s2)\<lparr>iMsgPool := []\<rparr>\<rparr>)))
           | r \<Rightarrow> r)
      | r \<Rightarrow> r)"

text \<open>
  The exec handler: validates, creates, makes the handle, and closes the object again when that
  fails, which runs the destructor.
\<close>

definition MsgQueueCreate :: "mq_env \<Rightarrow> int \<Rightarrow> int \<Rightarrow> mq_sys \<Rightarrow> int mq_out \<times> mq_sys" where
  "MsgQueueCreate env aSize aLength s =
     (if aLength AND 3 \<noteq> 0 \<or> aLength > int KMaxLength \<or> aLength < 4 then (PanicThread ''EMsgQueueInvalidLength'', s)
      else if aSize \<le> 0 then (PanicThread ''EMsgQueueInvalidSlots'', s)
      else if \<not> alloc_object env then (Ret KErrNoMemory, s)
      else
        let (r, q) = mq_Create env aLength aSize blank_queue;
            ret = (if r = KErrNone then handle_ret env else r);
            s' = s\<lparr>queue := q\<rparr>
        in if ret < KErrNone
           then (case mq_Destroy s' of
                   (Ret _, s2) \<Rightarrow> (Ret ret, s2)
                 | (PanicThread p, s2) \<Rightarrow> (PanicThread p, s2)
                 | (Crash, s2) \<Rightarrow> (Crash, s2))
           else (Ret ret, s'))"

text \<open>
  The other handlers copy the message between user memory and a buffer of \<open>KMaxLength\<close> bytes,
  whose contents before are \<open>sbuf\<close>.
\<close>

definition MsgQueueSend :: "8 word list \<Rightarrow> 8 word list \<Rightarrow> int \<Rightarrow> mq_sys \<Rightarrow> int mq_out \<times> mq_sys" where
  "MsgQueueSend sbuf user aLength s =
     (let buf = (if to_TUint aLength \<le> int KMaxLength then take (nat aLength) user @ drop (nat aLength) sbuf else sbuf)
      in mq_Send buf aLength s)"

definition MsgQueueReceive :: "int \<Rightarrow> mq_sys \<Rightarrow> (int \<times> 8 word list) mq_out \<times> mq_sys" where
  "MsgQueueReceive aLength s =
     (case mq_Receive aLength s of
        (Ret (r, msg), s') \<Rightarrow> (Ret (r, if r = KErrNone then take (nat aLength) msg else []), s')
      | out \<Rightarrow> out)"

end
