(* ===== verification/Msgq_Spec.thy ===== *)
theory Msgq_Spec
  imports Msgq
begin

text \<open>
  What the message queue promises: its ring of slots is a bounded first-in first-out queue of
  messages (\<open>contents\<close>), and its two requests follow the state of the ring (\<open>req_ok\<close>).
  The lemmas show that each operation keeps both and what it does to the contents.
\<close>

section \<open>The ring\<close>

definition slots :: "DMsgQueue \<Rightarrow> nat" where
  "slots q = iEndOfPool q div iMaxMsgLength q"

definition slot_bytes :: "DMsgQueue \<Rightarrow> nat \<Rightarrow> 8 word list" where
  "slot_bytes q i = take (iMaxMsgLength q) (drop (iMaxMsgLength q * i) (iMsgPool q))"

definition used :: "DMsgQueue \<Rightarrow> nat" where
  "used q = (case iState q of
     EEmpty \<Rightarrow> 0
   | EFull \<Rightarrow> slots q
   | EPartial \<Rightarrow> (slots q + iFirstFreeSlot q div iMaxMsgLength q - iFirstFullSlot q div iMaxMsgLength q) mod slots q)"

definition contents :: "DMsgQueue \<Rightarrow> 8 word list list" where
  "contents q = map (\<lambda>k. slot_bytes q ((iFirstFullSlot q div iMaxMsgLength q + k) mod slots q)) [0..<used q]"

text \<open>The ring has \<open>N\<close> slots, of which \<open>n\<close> are full, the first of them slot \<open>u\<close>.\<close>

definition ring :: "DMsgQueue \<Rightarrow> nat \<Rightarrow> nat \<Rightarrow> nat \<Rightarrow> bool" where
  "ring q N u n \<longleftrightarrow>
     iMaxMsgLength q > 0 \<and> iEndOfPool q = iMaxMsgLength q * N \<and> length (iMsgPool q) = iMaxMsgLength q * N \<and>
     u < N \<and> n \<le> N \<and> iFirstFullSlot q = iMaxMsgLength q * u \<and>
     iFirstFreeSlot q = iMaxMsgLength q * ((u + n) mod N) \<and>
     iState q = (if n = 0 then EEmpty else if n = N then EFull else EPartial)"

definition same_ring :: "DMsgQueue \<Rightarrow> DMsgQueue \<Rightarrow> bool" where
  "same_ring q q' \<longleftrightarrow>
     iMsgPool q' = iMsgPool q \<and> iFirstFreeSlot q' = iFirstFreeSlot q \<and> iFirstFullSlot q' = iFirstFullSlot q \<and>
     iEndOfPool q' = iEndOfPool q \<and> iMaxMsgLength q' = iMaxMsgLength q \<and> iState q' = iState q"

lemma same_ring_refl [simp]: "same_ring q q"
  by (simp add: same_ring_def)

lemma same_ring_trans: "same_ring q q' \<Longrightarrow> same_ring q' q'' \<Longrightarrow> same_ring q q''"
  by (simp add: same_ring_def)

lemma same_ring_ring: "same_ring q q' \<Longrightarrow> ring q' N u n \<longleftrightarrow> ring q N u n"
  by (simp add: same_ring_def ring_def)

lemma same_ring_contents: "same_ring q q' \<Longrightarrow> contents q' = contents q \<and> slots q' = slots q \<and> used q' = used q"
  by (simp add: same_ring_def contents_def slots_def used_def slot_bytes_def cong: TQueueState.case_cong)

lemma same_ring_condition: "same_ring q q' \<Longrightarrow> condition_holds n q' \<longleftrightarrow> condition_holds n q"
  by (simp add: same_ring_def condition_holds_def)

lemma same_ring_set [simp]: "same_ring q (set_waiter n t q)" "same_ring q (set_request n r q)"
  by (cases n; simp add: same_ring_def)+

lemma request_set [simp]:
  "request n (set_request n r q) = Some r" "request m (set_waiter n t q) = request m q"
  "waiter n (set_waiter n t q) = t" "waiter m (set_request n r q) = waiter m q"
  by (cases n; cases m; simp)+

lemma request_set_other [simp]:
  "m \<noteq> n \<Longrightarrow> request m (set_request n r q) = request m q" "m \<noteq> n \<Longrightarrow> waiter m (set_waiter n t q) = waiter m q"
  by (cases n; cases m; simp)+

lemma ring_slots: "ring q N u n \<Longrightarrow> slots q = N"
  by (simp add: ring_def slots_def)

lemma mod_next: "i < N \<Longrightarrow> (if Suc i = N then 0 else Suc i) = Suc i mod (N :: nat)"
  by auto

lemma ring_used: assumes "ring q N u n" shows "used q = n"
proof -
  have N: "slots q = N" using assms by (rule ring_slots)
  have "(N + (u + n) mod N - u) mod N = n" if "0 < n" "n < N"
  proof (cases "u + n < N")
    case False
    moreover have "u + n - N < N"
    proof -
      have "u < N" using assms by (simp add: ring_def)
      then show ?thesis using that False by linarith
    qed
    ultimately have "(u + n) mod N = u + n - N" by (simp add: mod_if)
    then show ?thesis using False that assms by (simp add: ring_def)
  qed (use that assms in simp)
  then show ?thesis using assms N by (auto simp: used_def ring_def)
qed

lemma ring_contents:
  assumes "ring q N u n"
  shows "contents q = map (\<lambda>k. slot_bytes q ((u + k) mod N)) [0..<n]"
  using assms ring_used [OF assms] ring_slots [OF assms] by (simp add: contents_def ring_def)

lemma ring_used_slots: "ring q N u n \<Longrightarrow> length (contents q) = n"
  by (simp add: ring_contents)

lemma ring_state:
  assumes "ring q N u n"
  shows "iState q = EFull \<longleftrightarrow> n = N" "iState q = EEmpty \<longleftrightarrow> n = 0" "0 < N"
  using assms by (auto simp: ring_def)

lemma slot_inside: "i < N \<Longrightarrow> M * i + M \<le> M * (N :: nat)"
  by (metis Suc_leI mult_Suc_right mult_le_mono2 add.commute)

lemma slot_end: "0 < M \<Longrightarrow> M * i + M = M * N \<longleftrightarrow> Suc i = (N :: nat)"
  by (metis add.commute mult_Suc_right mult_cancel1 not_less_zero)

lemma slot_length: "ring q N u n \<Longrightarrow> i < N \<Longrightarrow> length (slot_bytes q i) = iMaxMsgLength q"
  using slot_inside [of i N "iMaxMsgLength q"] by (simp add: slot_bytes_def ring_def)

text \<open>Writing the start of one slot.\<close>

definition put_bytes :: "nat \<Rightarrow> 8 word list \<Rightarrow> 8 word list \<Rightarrow> 8 word list" where
  "put_bytes at bs pool = take at pool @ bs @ drop (at + length bs) pool"

lemma put_bytes_length: "at + length bs \<le> length pool \<Longrightarrow> length (put_bytes at bs pool) = length pool"
  by (simp add: put_bytes_def)

lemma put_bytes_nth:
  "at + length bs \<le> length pool \<Longrightarrow> i < length pool \<Longrightarrow>
   put_bytes at bs pool ! i = (if at \<le> i \<and> i < at + length bs then bs ! (i - at) else pool ! i)"
  by (auto simp: put_bytes_def nth_append)

lemma slots_apart:
  assumes "i \<noteq> j" "x < M"
  shows "M * i + x < M * j \<or> M * j + M \<le> M * i + (x :: nat)"
proof (cases "i < j")
  case True
  then show ?thesis using slot_inside [of i j M] assms(2) by linarith
next
  case False
  then have "j < i" using assms(1) by simp
  then show ?thesis using slot_inside [of j i M] by linarith
qed

lemma put_bytes_other:
  assumes "i < N" "j < N" "i \<noteq> j" "length bs \<le> M" "length pool = M * N"
  shows "take M (drop (M * i) (put_bytes (M * j) bs pool)) = take M (drop (M * i) pool)"
proof (rule nth_equalityI)
  have len: "M * j + length bs \<le> length pool" "M * i + M \<le> length pool"
    using slot_inside [of j N M] slot_inside [of i N M] assms by linarith+
  then show "length (take M (drop (M * i) (put_bytes (M * j) bs pool))) = length (take M (drop (M * i) pool))"
    by (simp add: put_bytes_length)
  fix x assume "x < length (take M (drop (M * i) (put_bytes (M * j) bs pool)))"
  then have x: "x < M" by simp
  then show "take M (drop (M * i) (put_bytes (M * j) bs pool)) ! x = take M (drop (M * i) pool) ! x"
    using len slots_apart [OF assms(3) x] assms(4) by (auto simp: put_bytes_nth put_bytes_length)
qed

lemma put_bytes_same:
  assumes "at + M \<le> length pool" "length bs \<le> M"
  shows "take M (drop at (put_bytes at bs pool)) = bs @ drop (length bs) (take M (drop at pool))"
  using assms by (simp add: put_bytes_def drop_take add.commute)

section \<open>Requests\<close>

text \<open>
  A request that is ready has a waiting thread, and what it waits for is not there.
\<close>

definition req_ok :: "TNotification \<Rightarrow> DMsgQueue \<Rightarrow> bool" where
  "req_ok n q \<longleftrightarrow>
     (\<exists>r. request n q = Some r \<and> (IsReady r \<longrightarrow> waiter n q \<noteq> None \<and> \<not> condition_holds n q))"

definition waiting :: "TNotification \<Rightarrow> DMsgQueue \<Rightarrow> bool" where
  "waiting n q \<longleftrightarrow> (case request n q of None \<Rightarrow> False | Some r \<Rightarrow> IsReady r)"

definition mq_ok :: "mq_sys \<Rightarrow> bool" where
  "mq_ok s \<longleftrightarrow> (\<exists>N u n. ring (queue s) N u n) \<and> req_ok ESpaceAvailable (queue s) \<and> req_ok EDataAvailable (queue s)"

lemma mq_okI: "ring (queue s) N u n \<Longrightarrow> (\<And>m. req_ok m (queue s)) \<Longrightarrow> mq_ok s"
  by (auto simp: mq_ok_def)

lemma mq_okE:
  assumes "mq_ok s"
  obtains N u n where "ring (queue s) N u n" "\<forall>m. req_ok m (queue s)"
proof -
  have reqs: "\<forall>m. req_ok m (queue s)" using assms by (auto simp: mq_ok_def intro: TNotification.induct)
  obtain N u n where "ring (queue s) N u n" using assms unfolding mq_ok_def by blast
  then show ?thesis using reqs by (rule that)
qed

lemma req_ok_not_waiting: "request n q = Some r \<Longrightarrow> \<not> IsReady r \<Longrightarrow> req_ok n q"
  by (simp add: req_ok_def)

lemma dec_access_queue [simp]: "queue (dec_access t s) = queue s" "queue (close_thread t s) = queue s"
  by (simp_all add: dec_access_def close_thread_def Let_def)

lemma QueueRequestComplete_ready:
  assumes "IsReady r" "request n (queue s) = Some r"
  shows "queue (QueueRequestComplete n t r v s) = set_request n (snd (StartComplete r v)) (queue s)"
  using StartComplete_ready [OF assms(1), of v]
  by (simp add: QueueRequestComplete_def Let_def split_beta)

text \<open>What completing a request does: nothing to the ring, and the request is not ready any more.\<close>

lemma CompleteRequestIfPending_spec:
  assumes "request n (queue s) = Some r" "IsReady r \<longrightarrow> waiter n (queue s) \<noteq> None"
  obtains s' r' where "CompleteRequestIfPending n v s = (Ret (), s')" "same_ring (queue s) (queue s')"
    "request n (queue s') = Some r'" "\<not> IsReady r'"
    "\<And>m. m \<noteq> n \<Longrightarrow> request m (queue s') = request m (queue s) \<and> waiter m (queue s') = waiter m (queue s)"
proof (cases "IsReady r")
  case False
  then show ?thesis
    using that [of "s\<lparr>queue := set_waiter n None (queue s)\<rparr>" r] assms
    by (simp add: CompleteRequestIfPending_def)
next
  case True
  then obtain t where t: "waiter n (queue s) = Some t" using assms(2) by auto
  let ?s1 = "s\<lparr>queue := set_waiter n None (queue s)\<rparr>"
  let ?s2 = "dec_access t ?s1"
  have r2: "request n (queue ?s2) = Some r" using assms(1) by simp
  show ?thesis
  proof (cases "access s t = 1")
    case dying: True
    show ?thesis
    proof (rule that)
      show "CompleteRequestIfPending n v s =
          (Ret (), ?s2\<lparr>queue := set_request n (Reset r) (queue ?s2), deleted := deleted ?s2 @ [t]\<rparr>)"
        using dying True t assms(1) by (simp add: CompleteRequestIfPending_def Let_def)
    qed (auto intro: same_ring_trans [OF same_ring_set(1) same_ring_set(2)])
  next
    case False
    show ?thesis
    proof (rule that)
      show "CompleteRequestIfPending n v s = (Ret (), QueueRequestComplete n t r v ?s2)"
        using False True t assms(1) by (simp add: CompleteRequestIfPending_def Let_def)
    qed (use StartComplete_ready [OF True] in
        \<open>auto simp: QueueRequestComplete_ready [OF True r2] intro: same_ring_trans [OF same_ring_set(1) same_ring_set(2)]\<close>)
  qed
qed

lemma CompleteRequestIfPending_ok:
  assumes "mq_ok s"
  obtains s' where "CompleteRequestIfPending n v s = (Ret (), s')" "mq_ok s'"
    "same_ring (queue s) (queue s')" "\<not> waiting n (queue s')"
proof -
  obtain N u k where ring: "ring (queue s) N u k" and reqs: "\<forall>m. req_ok m (queue s)"
    using assms by (rule mq_okE)
  then obtain r where r: "request n (queue s) = Some r" "IsReady r \<longrightarrow> waiter n (queue s) \<noteq> None"
    unfolding req_ok_def by blast
  obtain s' r' where s': "CompleteRequestIfPending n v s = (Ret (), s')" "same_ring (queue s) (queue s')"
    "request n (queue s') = Some r'" "\<not> IsReady r'"
    "\<And>m. m \<noteq> n \<Longrightarrow> request m (queue s') = request m (queue s) \<and> waiter m (queue s') = waiter m (queue s)"
    using r by (rule CompleteRequestIfPending_spec) auto
  have "req_ok m (queue s')" for m
    using s' reqs [rule_format, of m] same_ring_condition [OF s'(2)] by (cases "m = n") (auto simp: req_ok_def)
  then have "mq_ok s'" using ring same_ring_ring [OF s'(2)] by (auto intro: mq_okI)
  then show ?thesis using that s' by (simp add: waiting_def)
qed

section \<open>Sending and receiving\<close>

lemma Send_ring:
  assumes "ring q N u n" "n < N" "length bs \<le> iMaxMsgLength q"
  defines "next \<equiv> iFirstFreeSlot q + iMaxMsgLength q"
  defines "next' \<equiv> (if next = iEndOfPool q then 0 else next)"
  defines "q' \<equiv> q\<lparr>iMsgPool := put_bytes (iFirstFreeSlot q) bs (iMsgPool q), iFirstFreeSlot := next',
    iState := (if next' = iFirstFullSlot q then EFull else EPartial)\<rparr>"
  shows "ring q' N u (Suc n)"
    "\<exists>pad. length bs + length pad = iMaxMsgLength q \<and> contents q' = contents q @ [bs @ pad]"
proof -
  let ?M = "iMaxMsgLength q" and ?f = "(u + n) mod N"
  have q: "?M > 0" "iEndOfPool q = ?M * N" "length (iMsgPool q) = ?M * N" "u < N"
    "iFirstFullSlot q = ?M * u" "iFirstFreeSlot q = ?M * ?f"
    using assms(1) by (simp_all add: ring_def)
  have f: "?f < N" using q(4) by simp
  have "next' = ?M * (if Suc ?f = N then 0 else Suc ?f)"
    using slot_end [OF q(1), of ?f N] q(2,6) by (simp add: next'_def next_def)
  also have "(if Suc ?f = N then 0 else Suc ?f) = (u + Suc n) mod N" using mod_next [OF f] by (simp add: mod_Suc_eq)
  finally have next': "next' = ?M * ((u + Suc n) mod N)" .
  have full: "(u + Suc n) mod N = u \<longleftrightarrow> Suc n = N"
  proof (cases "Suc n = N")
    case False
    then have lt: "Suc n < N" using assms(2) by simp
    have "(u + Suc n) mod N \<noteq> u"
      using lt q(4) by (cases "u + Suc n < N") (auto simp: mod_if)
    then show ?thesis using False by simp
  qed (use q(4) in simp)
  have inside: "?M * ?f + ?M \<le> length (iMsgPool q)" using slot_inside [OF f, of ?M] q by simp
  show r': "ring q' N u (Suc n)"
    unfolding ring_def q'_def using q next' full assms(2,3) inside by (auto simp: put_bytes_length)
  have other: "slot_bytes q' ((u + k) mod N) = slot_bytes q ((u + k) mod N)" if "k < n" for k
  proof -
    have "(u + k) mod N \<noteq> ?f"
      using that assms(2) q(4) by (cases "u + k < N"; cases "u + n < N") (auto simp: mod_if)
    then show ?thesis
      using put_bytes_other [of "(u + k) mod N" N ?f bs ?M "iMsgPool q"] q assms(3)
      by (simp add: slot_bytes_def q'_def)
  qed
  have "slot_bytes q' ?f = bs @ drop (length bs) (slot_bytes q ?f)"
    using put_bytes_same [OF inside assms(3)] q by (simp add: slot_bytes_def q'_def)
  then have "contents q' = contents q @ [bs @ drop (length bs) (slot_bytes q ?f)]"
    using other by (simp add: ring_contents [OF r'] ring_contents [OF assms(1)])
  moreover have "length bs + length (drop (length bs) (slot_bytes q ?f)) = ?M"
    using slot_length [OF assms(1) f] assms(3) by simp
  ultimately show "\<exists>pad. length bs + length pad = ?M \<and> contents q' = contents q @ [bs @ pad]" by blast
qed

lemma Receive_ring:
  assumes "ring q N u n" "0 < n"
  defines "next \<equiv> iFirstFullSlot q + iMaxMsgLength q"
  defines "next' \<equiv> (if next = iEndOfPool q then 0 else next)"
  defines "q' \<equiv> q\<lparr>iFirstFullSlot := next', iState := (if iFirstFreeSlot q = next' then EEmpty else EPartial)\<rparr>"
  shows "ring q' N ((u + 1) mod N) (n - 1)"
    "contents q = take (iMaxMsgLength q) (drop (iFirstFullSlot q) (iMsgPool q)) # contents q'"
proof -
  let ?M = "iMaxMsgLength q" and ?v = "(u + 1) mod N"
  have q: "?M > 0" "iEndOfPool q = ?M * N" "length (iMsgPool q) = ?M * N" "u < N" "n \<le> N"
    "iFirstFullSlot q = ?M * u" "iFirstFreeSlot q = ?M * ((u + n) mod N)"
    using assms(1) by (simp_all add: ring_def)
  have "next' = ?M * (if Suc u = N then 0 else Suc u)"
    using slot_end [OF q(1), of u N] q(2,6) by (simp add: next'_def next_def)
  then have next': "next' = ?M * ?v" using mod_next [OF q(4)] by simp
  have free: "(?v + (n - 1)) mod N = (u + n) mod N" using assms(2) by (cases n) (simp_all add: mod_simps)
  have empty: "(u + n) mod N = ?v \<longleftrightarrow> n = 1"
  proof (cases "n = 1")
    case False
    then have "1 < n" using assms(2) by simp
    then have "(u + n) mod N \<noteq> ?v"
      using q(4,5) by (cases "u + n < N"; cases "u + 1 < N") (auto simp: mod_if)
    then show ?thesis using False by simp
  qed simp
  show r': "ring q' N ?v (n - 1)"
    unfolding ring_def q'_def using q next' free empty assms(2) by auto
  have "(?v + k) mod N = (u + Suc k) mod N" for k by (simp add: mod_simps)
  moreover have "slot_bytes q' i = slot_bytes q i" for i by (simp add: slot_bytes_def q'_def)
  ultimately have "contents q' = map (\<lambda>k. slot_bytes q ((u + Suc k) mod N)) [0..<n - 1]"
    unfolding ring_contents [OF r'] by simp
  moreover have "[0..<n] = 0 # map Suc [0..<n - 1]"
    using assms(2) by (simp add: map_Suc_upt upt_conv_Cons)
  ultimately show "contents q = take ?M (drop (iFirstFullSlot q) (iMsgPool q)) # contents q'"
    using q by (simp add: ring_contents [OF assms(1)] slot_bytes_def comp_def)
qed

end
