(* ===== verification/Msgq_Ops.thy ===== *)
theory Msgq_Ops
  imports Msgq_Spec
begin

text \<open>
  Every operation of a message queue on its invariant: none of them reaches a null pointer or the end
  of the pool, each keeps the invariant, and the contents change only by a message accepted or
  a message delivered. The interface of a bounded queue is the locale \<open>bounded_fifo\<close>, whose
  history lemma is proved once and interpreted on \<open>Send\<close> and \<open>Receive\<close>.
\<close>

section \<open>A bounded first-in first-out queue\<close>

locale bounded_fifo =
  fixes ok :: "'s \<Rightarrow> bool"
    and content :: "'s \<Rightarrow> 'm list"
    and capacity :: "'s \<Rightarrow> nat"
    and fits :: "'s \<Rightarrow> 'a \<Rightarrow> bool"
    and stored :: "'a \<Rightarrow> 'm \<Rightarrow> bool"
    and put :: "'a \<Rightarrow> 's \<Rightarrow> bool \<times> 's"
    and get :: "'s \<Rightarrow> 'm option \<times> 's"
  assumes put_ok: "ok s \<Longrightarrow> fits s a \<Longrightarrow> put a s = (b, s') \<Longrightarrow>
      ok s' \<and> capacity s' = capacity s \<and> (\<forall>x. fits s' x = fits s x) \<and> b = (length (content s) < capacity s) \<and>
      (if b then \<exists>m. stored a m \<and> content s' = content s @ [m] else content s' = content s)"
    and get_ok: "ok s \<Longrightarrow> get s = (r, s') \<Longrightarrow>
      ok s' \<and> capacity s' = capacity s \<and> (\<forall>x. fits s' x = fits s x) \<and>
      (case r of None \<Rightarrow> content s = [] \<and> content s' = [] | Some m \<Rightarrow> content s = m # content s')"
begin

text \<open>
  A history of operations: \<open>Inl a\<close> puts \<open>a\<close>, \<open>Inr ()\<close> gets; the result is the final
  state, what was accepted and what was received, in order.
\<close>

fun history :: "('a + unit) list \<Rightarrow> 's \<Rightarrow> 's \<times> 'a list \<times> 'm list" where
  "history [] s = (s, [], [])"
| "history (Inl a # ops) s =
     (let (b, s') = put a s; (t, ps, gs) = history ops s' in (t, if b then a # ps else ps, gs))"
| "history (Inr u # ops) s =
     (let (r, s') = get s; (t, ps, gs) = history ops s' in (t, ps, case r of None \<Rightarrow> gs | Some m \<Rightarrow> m # gs))"

lemma history_fifo:
  assumes "ok s" "\<forall>a. Inl a \<in> set ops \<longrightarrow> fits s a" "history ops s = (t, ps, gs)"
  shows "ok t \<and> capacity t = capacity s \<and>
    (\<exists>ms. list_all2 stored ps ms \<and> content s @ ms = gs @ content t)"
  using assms
proof (induction ops arbitrary: s t ps gs)
  case (Cons x ops)
  obtain t' ps' gs' where rest: "history ops (snd (case x of Inl a \<Rightarrow> map_prod (\<lambda>_. ()) id (put a s)
      | Inr u \<Rightarrow> map_prod (\<lambda>_. ()) id (get s))) = (t', ps', gs')" by (metis prod_cases3)
  show ?case
  proof (cases x)
    case (Inl a)
    obtain b s' where put: "put a s = (b, s')" by fastforce
    note ok = put_ok [OF Cons.prems(1) _ put]
    have fits: "fits s a" using Cons.prems(2) Inl by simp
    have h: "history ops s' = (t', ps', gs')" using rest Inl put by simp
    have ih: "ok t' \<and> capacity t' = capacity s' \<and>
        (\<exists>ms. list_all2 stored ps' ms \<and> content s' @ ms = gs' @ content t')"
      using ok [OF fits] Cons.prems(2) by (intro Cons.IH h) auto
    then obtain ms where ms: "list_all2 stored ps' ms" "content s' @ ms = gs' @ content t'" by blast
    have e: "t = t'" "gs = gs'" "ps = (if b then a # ps' else ps')"
      using Cons.prems(3) Inl put h by auto
    show ?thesis
    proof (cases b)
      case True
      then obtain m where m: "stored a m" "content s' = content s @ [m]" using ok [OF fits] by auto
      then have "list_all2 stored ps (m # ms) \<and> content s @ m # ms = gs @ content t"
        using ms e True by simp
      then have "\<exists>ms. list_all2 stored ps ms \<and> content s @ ms = gs @ content t" by blast
      then show ?thesis using ih e(1) ok [OF fits] by simp
    qed (use ih e ok [OF fits] in auto)
  next
    case (Inr u)
    obtain r s' where get: "get s = (r, s')" by fastforce
    note ok = get_ok [OF Cons.prems(1) get]
    have h: "history ops s' = (t', ps', gs')" using rest Inr get by simp
    have ih: "ok t' \<and> capacity t' = capacity s' \<and>
        (\<exists>ms. list_all2 stored ps' ms \<and> content s' @ ms = gs' @ content t')"
      using ok Cons.prems(2) by (intro Cons.IH h) auto
    have e: "t = t'" "ps = ps'" "gs = (case r of None \<Rightarrow> gs' | Some m \<Rightarrow> m # gs')"
      using Cons.prems(3) Inr get h by auto
    then show ?thesis using ih ok by (cases r) auto
  qed
qed simp

end

section \<open>Send and receive\<close>

lemma mq_Send_full:
  assumes "ring (queue s) N u N" "0 < aLength" "aLength \<le> int (iMaxMsgLength (queue s))"
  shows "mq_Send p aLength s = (Ret KErrOverflow, s)"
  using assms by (simp add: mq_Send_def Let_def ring_def)

lemma mq_Send_ok:
  assumes "ring (queue s) N u n" "\<forall>m. req_ok m (queue s)" "n < N"
    and "0 < aLength" "aLength \<le> int (iMaxMsgLength (queue s))" "nat aLength \<le> length p"
  obtains s' s1 pad where "mq_Send p aLength s = (Ret KErrNone, s')" "ring (queue s') N u (Suc n)"
    "\<forall>m. req_ok m (queue s')" "\<not> waiting EDataAvailable (queue s')"
    "contents (queue s') = contents (queue s) @ [take (nat aLength) p @ pad]"
    "nat aLength + length pad = iMaxMsgLength (queue s)" "iMaxMsgLength (queue s') = iMaxMsgLength (queue s)"
    "CompleteRequestIfPending EDataAvailable KErrNone s1 = (Ret (), s')"
    "\<exists>q. s1 = s\<lparr>queue := q\<rparr> \<and> (\<forall>m. request m q = request m (queue s) \<and> waiter m q = waiter m (queue s))"
proof -
  let ?q = "queue s" and ?bs = "take (nat aLength) p"
  let ?next = "if iFirstFreeSlot ?q + iMaxMsgLength ?q = iEndOfPool ?q then 0 else iFirstFreeSlot ?q + iMaxMsgLength ?q"
  let ?q' = "?q\<lparr>iMsgPool := put_bytes (iFirstFreeSlot ?q) ?bs (iMsgPool ?q), iFirstFreeSlot := ?next,
    iState := (if ?next = iFirstFullSlot ?q then EFull else EPartial)\<rparr>"
  let ?s1 = "s\<lparr>queue := ?q'\<rparr>"
  have len: "length ?bs = nat aLength" "nat aLength \<le> iMaxMsgLength ?q" using assms by simp_all
  have r': "ring ?q' N u (Suc n)"
    and c': "\<exists>pad. length ?bs + length pad = iMaxMsgLength ?q \<and> contents ?q' = contents ?q @ [?bs @ pad]"
    using Send_ring [OF assms(1,3), of ?bs] len by simp_all
  obtain pad where pad: "nat aLength + length pad = iMaxMsgLength ?q" "contents ?q' = contents ?q @ [?bs @ pad]"
    using c' len by auto
  have req1: "request m ?q' = request m ?q" "waiter m ?q' = waiter m ?q" for m by (cases m; simp)+
  obtain r where r: "request EDataAvailable (queue ?s1) = Some r" "IsReady r \<longrightarrow> waiter EDataAvailable (queue ?s1) \<noteq> None"
    using assms(2) [unfolded req_ok_def, rule_format, of EDataAvailable] req1 by auto
  obtain s' r' where s': "CompleteRequestIfPending EDataAvailable KErrNone ?s1 = (Ret (), s')"
    "same_ring (queue ?s1) (queue s')" "request EDataAvailable (queue s') = Some r'" "\<not> IsReady r'"
    "\<And>m. m \<noteq> EDataAvailable \<Longrightarrow> request m (queue s') = request m (queue ?s1) \<and> waiter m (queue s') = waiter m (queue ?s1)"
    using r by (rule CompleteRequestIfPending_spec) auto
  have notfull: "iState ?q \<noteq> EFull" using ring_state [OF assms(1)] assms(3) by simp
  have "iFirstFreeSlot ?q + iMaxMsgLength ?q \<le> length (iMsgPool ?q)"
    using slot_inside [of "(u + n) mod N" N "iMaxMsgLength ?q"] assms(1) by (simp add: ring_def)
  then have inside: "\<not> (length p < nat aLength \<or> length (iMsgPool ?q) < iFirstFreeSlot ?q + nat aLength)"
    using len assms(6) by simp
  have pool: "take (iFirstFreeSlot ?q) (iMsgPool ?q) @ ?bs @ drop (iFirstFreeSlot ?q + nat aLength) (iMsgPool ?q) =
      put_bytes (iFirstFreeSlot ?q) ?bs (iMsgPool ?q)"
    using len by (simp add: put_bytes_def)
  have send: "mq_Send p aLength s = (Ret KErrNone, s')"
    using assms(4,5) notfull inside s'(1) unfolding mq_Send_def Let_def pool by simp
  have "\<not> IsReady rs" if "request ESpaceAvailable ?q = Some rs" for rs
    using assms(2) [unfolded req_ok_def, rule_format, of ESpaceAvailable] that notfull by (auto simp: condition_holds_def)
  then have "req_ok ESpaceAvailable (queue s')"
    using s'(5) [of ESpaceAvailable] assms(2) [unfolded req_ok_def, rule_format, of ESpaceAvailable]
    by (auto simp: req_ok_def)
  moreover have "req_ok EDataAvailable (queue s')" using s'(3,4) by (simp add: req_ok_def)
  ultimately have "req_ok m (queue s')" for m by (cases m) simp_all
  then have reqs: "\<forall>m. req_ok m (queue s')" by blast
  have same: "ring (queue s') N u (Suc n)" "contents (queue s') = contents ?q @ [?bs @ pad]"
    "iMaxMsgLength (queue s') = iMaxMsgLength ?q"
    using same_ring_ring [OF s'(2)] same_ring_contents [OF s'(2)] r' pad(2) s'(2) by (simp_all add: same_ring_def)
  have only: "\<exists>q. ?s1 = s\<lparr>queue := q\<rparr> \<and> (\<forall>m. request m q = request m ?q \<and> waiter m q = waiter m ?q)"
    by (rule exI [of _ ?q']) (simp add: req1)
  have "\<not> waiting EDataAvailable (queue s')" using s'(3,4) by (simp add: waiting_def)
  then show ?thesis by (rule that [OF send same(1) reqs _ same(2) pad(1) same(3) s'(1) only])
qed

lemma mq_Receive_empty:
  assumes "ring (queue s) N u 0" "aLength = int (iMaxMsgLength (queue s))"
  shows "mq_Receive aLength s = (Ret (KErrUnderflow, []), s)"
  using assms by (simp add: mq_Receive_def Let_def ring_def)

lemma mq_Receive_ok:
  assumes "ring (queue s) N u n" "\<forall>m. req_ok m (queue s)" "0 < n"
    and "aLength = int (iMaxMsgLength (queue s))"
  obtains s' s1 msg where "mq_Receive aLength s = (Ret (KErrNone, msg), s')" "ring (queue s') N ((u + 1) mod N) (n - 1)"
    "\<forall>m. req_ok m (queue s')" "\<not> waiting ESpaceAvailable (queue s')"
    "contents (queue s) = msg # contents (queue s')" "iMaxMsgLength (queue s') = iMaxMsgLength (queue s)"
    "CompleteRequestIfPending ESpaceAvailable KErrNone s1 = (Ret (), s')"
    "\<exists>q. s1 = s\<lparr>queue := q\<rparr> \<and> (\<forall>m. request m q = request m (queue s) \<and> waiter m q = waiter m (queue s))"
proof -
  let ?q = "queue s"
  let ?msg = "take (iMaxMsgLength ?q) (drop (iFirstFullSlot ?q) (iMsgPool ?q))"
  let ?next = "if iFirstFullSlot ?q + iMaxMsgLength ?q = iEndOfPool ?q then 0 else iFirstFullSlot ?q + iMaxMsgLength ?q"
  let ?q' = "?q\<lparr>iFirstFullSlot := ?next, iState := (if iFirstFreeSlot ?q = ?next then EEmpty else EPartial)\<rparr>"
  let ?s1 = "s\<lparr>queue := ?q'\<rparr>"
  note r' = Receive_ring [OF assms(1,3)]
  have req1: "request m ?q' = request m ?q" "waiter m ?q' = waiter m ?q" for m by (cases m; simp)+
  obtain r where r: "request ESpaceAvailable (queue ?s1) = Some r" "IsReady r \<longrightarrow> waiter ESpaceAvailable (queue ?s1) \<noteq> None"
    using assms(2) [unfolded req_ok_def, rule_format, of ESpaceAvailable] req1 by auto
  obtain s' r' where s': "CompleteRequestIfPending ESpaceAvailable KErrNone ?s1 = (Ret (), s')"
    "same_ring (queue ?s1) (queue s')" "request ESpaceAvailable (queue s') = Some r'" "\<not> IsReady r'"
    "\<And>m. m \<noteq> ESpaceAvailable \<Longrightarrow> request m (queue s') = request m (queue ?s1) \<and> waiter m (queue s') = waiter m (queue ?s1)"
    using r by (rule CompleteRequestIfPending_spec) auto
  have state: "iState ?q \<noteq> EEmpty" using ring_state [OF assms(1)] assms(3) by simp
  have "\<not> length (iMsgPool ?q) < iFirstFullSlot ?q + iMaxMsgLength ?q"
    using slot_inside [of u N "iMaxMsgLength ?q"] assms(1) by (simp add: ring_def)
  then have recv: "mq_Receive aLength s = (Ret (KErrNone, ?msg), s')"
    using assms(4) state s'(1) unfolding mq_Receive_def Let_def by simp
  have "\<not> IsReady rs" if "request EDataAvailable ?q = Some rs" for rs
    using assms(2) [unfolded req_ok_def, rule_format, of EDataAvailable] that state by (auto simp: condition_holds_def)
  then have "req_ok EDataAvailable (queue s')"
    using s'(5) [of EDataAvailable] assms(2) [unfolded req_ok_def, rule_format, of EDataAvailable]
    by (auto simp: req_ok_def)
  moreover have "req_ok ESpaceAvailable (queue s')" using s'(3,4) by (simp add: req_ok_def)
  ultimately have "req_ok m (queue s')" for m by (cases m) simp_all
  then have reqs: "\<forall>m. req_ok m (queue s')" by blast
  have same: "ring (queue s') N ((u + 1) mod N) (n - 1)" "contents ?q = ?msg # contents (queue s')"
    "iMaxMsgLength (queue s') = iMaxMsgLength ?q"
    using same_ring_ring [OF s'(2)] same_ring_contents [OF s'(2)] r' s'(2) by (simp_all add: same_ring_def)
  have only: "\<exists>q. ?s1 = s\<lparr>queue := q\<rparr> \<and> (\<forall>m. request m q = request m ?q \<and> waiter m q = waiter m ?q)"
    by (rule exI [of _ ?q']) (simp add: req1)
  have "\<not> waiting ESpaceAvailable (queue s')" using s'(3,4) by (simp add: waiting_def)
  then show ?thesis by (rule that [OF recv same(1) reqs _ same(2,3) s'(1) only])
qed

section \<open>The interface\<close>

definition can_send :: "mq_sys \<Rightarrow> 8 word list \<Rightarrow> bool" where
  "can_send s p \<longleftrightarrow> 0 < length p \<and> length p \<le> iMaxMsgLength (queue s)"

text \<open>A stored message starts with the bytes sent; the rest of the slot is what was there before.\<close>

definition starts_with :: "8 word list \<Rightarrow> 8 word list \<Rightarrow> bool" where
  "starts_with p m \<longleftrightarrow> (\<exists>pad. m = p @ pad)"

definition put_message :: "8 word list \<Rightarrow> mq_sys \<Rightarrow> bool \<times> mq_sys" where
  "put_message p s = (let (r, s') = mq_Send p (int (length p)) s in (r = Ret KErrNone, s'))"

definition get_message :: "mq_sys \<Rightarrow> 8 word list option \<times> mq_sys" where
  "get_message s =
     (let (r, s') = mq_Receive (int (MessageSize (queue s))) s
      in (case r of Ret (c, m) \<Rightarrow> if c = KErrNone then Some m else None | _ \<Rightarrow> None, s'))"

lemma put_message_law:
  assumes "mq_ok s" "can_send s p" "put_message p s = (b, s')"
  shows "mq_ok s' \<and> slots (queue s') = slots (queue s) \<and> (\<forall>x. can_send s' x = can_send s x) \<and>
     b = (length (contents (queue s)) < slots (queue s)) \<and>
     (if b then \<exists>m. starts_with p m \<and> contents (queue s') = contents (queue s) @ [m]
      else contents (queue s') = contents (queue s))"
proof -
  obtain N u n where r: "ring (queue s) N u n" "\<forall>m. req_ok m (queue s)" using assms(1) by (rule mq_okE)
  note used = ring_used_slots [OF r(1)] ring_slots [OF r(1)]
  show ?thesis
  proof (cases "n = N")
    case True
    then show ?thesis
      using mq_Send_full [of s N u "int (length p)" p] r assms used by (simp add: put_message_def can_send_def)
  next
    case False
    then have n: "n < N" using r(1) by (simp add: ring_def)
    have len: "0 < int (length p)" "int (length p) \<le> int (iMaxMsgLength (queue s))" "nat (int (length p)) \<le> length p"
      using assms(2) by (simp_all add: can_send_def)
    have "\<exists>s1 pad. mq_Send p (int (length p)) s = (Ret KErrNone, s1) \<and> ring (queue s1) N u (Suc n) \<and>
        (\<forall>m. req_ok m (queue s1)) \<and> contents (queue s1) = contents (queue s) @ [p @ pad] \<and>
        iMaxMsgLength (queue s1) = iMaxMsgLength (queue s)"
      by (rule mq_Send_ok [OF r n len]) auto
    then obtain s1 pad where s1: "mq_Send p (int (length p)) s = (Ret KErrNone, s1)" "ring (queue s1) N u (Suc n)"
      "\<forall>m. req_ok m (queue s1)" "contents (queue s1) = contents (queue s) @ [p @ pad]"
      "iMaxMsgLength (queue s1) = iMaxMsgLength (queue s)" by blast
    then show ?thesis
      using assms(3) used n ring_slots [OF s1(2)] mq_okI [OF s1(2)]
      by (auto simp: put_message_def can_send_def starts_with_def)
  qed
qed

lemma get_message_law:
  assumes "mq_ok s" "get_message s = (r, s')"
  shows "mq_ok s' \<and> slots (queue s') = slots (queue s) \<and> (\<forall>x. can_send s' x = can_send s x) \<and>
     (case r of None \<Rightarrow> contents (queue s) = [] \<and> contents (queue s') = []
      | Some m \<Rightarrow> contents (queue s) = m # contents (queue s'))"
proof -
  obtain N u n where ring: "ring (queue s) N u n" "\<forall>m. req_ok m (queue s)" using assms(1) by (rule mq_okE)
  note used = ring_used_slots [OF ring(1)] ring_slots [OF ring(1)]
  show ?thesis
  proof (cases "n = 0")
    case True
    then show ?thesis
      using mq_Receive_empty [of s N u] ring assms used by (auto simp: get_message_def MessageSize_def)
  next
    case False
    then have n: "0 < n" by simp
    have "\<exists>s1 m. mq_Receive (int (iMaxMsgLength (queue s))) s = (Ret (KErrNone, m), s1) \<and>
        ring (queue s1) N ((u + 1) mod N) (n - 1) \<and> (\<forall>m. req_ok m (queue s1)) \<and>
        contents (queue s) = m # contents (queue s1) \<and> iMaxMsgLength (queue s1) = iMaxMsgLength (queue s)"
      by (rule mq_Receive_ok [OF ring n refl]) auto
    then obtain s1 m where s1: "mq_Receive (int (iMaxMsgLength (queue s))) s = (Ret (KErrNone, m), s1)"
      "ring (queue s1) N ((u + 1) mod N) (n - 1)" "\<forall>m. req_ok m (queue s1)"
      "contents (queue s) = m # contents (queue s1)" "iMaxMsgLength (queue s1) = iMaxMsgLength (queue s)" by blast
    then show ?thesis
      using assms(2) used ring_slots [OF s1(2)] mq_okI [OF s1(2)]
      by (auto simp: get_message_def MessageSize_def can_send_def)
  qed
qed

interpretation mq: bounded_fifo mq_ok "\<lambda>s. contents (queue s)" "\<lambda>s. slots (queue s)" can_send starts_with
    put_message get_message
  by unfold_locales (use put_message_law get_message_law in \<open>blast+\<close>)

end
