(* ===== verification/Msgq_Reach.thy ===== *)
theory Msgq_Reach
  imports Msgq_Ops
begin

text \<open>
  The life of a message queue: the calls threads make on it, the completions running in the client
  threads, and threads exiting, in any order. The invariant \<open>mq_ok\<close> holds in every state
  reached, and the references the queue holds on waiting threads are accounted for.
\<close>

section \<open>Notification requests keep the invariant\<close>

lemma mq_ok_queue: "queue s' = queue s \<Longrightarrow> mq_ok s' \<longleftrightarrow> mq_ok s"
  by (simp add: mq_ok_def)

lemma finish_queue [simp]: "queue (case p of None \<Rightarrow> s | Some t \<Rightarrow> close_thread t s) = queue s"
  by (simp split: option.split)

lemma RequestComplete_queue [simp]: "queue (RequestComplete cur a r s) = queue s"
  by (simp add: RequestComplete_def)

lemma mq_ok_update:
  assumes "mq_ok s" "same_ring (queue s) (queue s')" "req_ok n (queue s')"
    "\<And>m. m \<noteq> n \<Longrightarrow> request m (queue s') = request m (queue s) \<and> waiter m (queue s') = waiter m (queue s)"
  shows "mq_ok s'"
proof -
  obtain N u k where r: "ring (queue s) N u k" "\<forall>m. req_ok m (queue s)" using assms(1) by (rule mq_okE)
  have "req_ok m (queue s')" for m
    using assms(3,4) r(2) same_ring_condition [OF assms(2)] by (cases "m = n") (auto simp: req_ok_def)
  then show ?thesis using r(1) same_ring_ring [OF assms(2)] by (auto intro: mq_okI)
qed

lemma mq_ok_request:
  assumes "mq_ok s"
  obtains r where "request n (queue s) = Some r" "IsReady r \<longrightarrow> waiter n (queue s) \<noteq> None \<and> \<not> condition_holds n (queue s)"
  using assms by (elim mq_okE) (unfold req_ok_def, blast)

lemma take_over_ok:
  assumes "mq_ok s" "take_over n s = (out, s')"
  shows "mq_ok s'" "out \<noteq> Crash" "same_ring (queue s) (queue s')"
    "out = Ret p \<Longrightarrow> \<not> waiting n (queue s')"
proof -
  obtain r where r: "request n (queue s) = Some r" "IsReady r \<longrightarrow> waiter n (queue s) \<noteq> None"
    using assms(1) by (rule mq_ok_request [of s n]) auto
  let ?taken = "s\<lparr>queue := set_request n (Reset r) (set_waiter n None (queue s))\<rparr>"
  have "mq_ok ?taken"
    by (rule mq_ok_update [OF assms(1), of _ n])
      (auto simp: req_ok_def intro: same_ring_trans [OF same_ring_set(1) same_ring_set(2)])
  moreover have "same_ring (queue s) (queue ?taken)"
    by (auto intro: same_ring_trans [OF same_ring_set(1) same_ring_set(2)])
  ultimately show "mq_ok s'" "out \<noteq> Crash" "same_ring (queue s) (queue s')" "out = Ret p \<Longrightarrow> \<not> waiting n (queue s')"
    using assms r by (auto simp: take_over_def waiting_def split: if_splits)
qed

text \<open>The call, once the request left by a dead thread is out of the way.\<close>

lemma RequestNotification_after:
  fixes cur :: nat
  assumes "take_over n s = (Ret p, s1)" "request n (queue s1) = Some r" "SetStatus r a = (c, r')"
  defines "finish \<equiv> (\<lambda>s. case p of None \<Rightarrow> s | Some t \<Rightarrow> close_thread t s)"
  defines "s2 \<equiv> s1\<lparr>access := (access s1)(cur := access s1 cur + 1), queue := set_waiter n (Some cur) (queue s1)\<rparr>"
  defines "s3 \<equiv> s2\<lparr>queue := set_request n r' (queue s2)\<rparr>"
  shows "RequestNotification n a cur s =
    (if condition_holds n (queue s1) then (Ret (), finish (RequestComplete cur a KErrNone s1))
     else if access s1 cur < 1 then (PanicThread ''EBadHandle'', s1)
     else if c \<noteq> KErrNone then (PanicThread ''EMsgQueueRequestPending'', finish s3)
     else (Ret (), finish s3))"
  using assms(2,3) by (cases p) (simp_all add: RequestNotification_def Let_def assms(1) finish_def s2_def s3_def)

lemma RequestNotification_ok:
  assumes "mq_ok s" "RequestNotification n a cur s = (out, s')"
  shows "mq_ok s' \<and> out \<noteq> Crash \<and> same_ring (queue s) (queue s')"
proof -
  obtain o1 s1 where t: "take_over n s = (o1, s1)" by fastforce
  note ok = take_over_ok [OF assms(1) t]
  show ?thesis
  proof (cases o1)
    case (Ret p)
    obtain r where r: "request n (queue s1) = Some r" using mq_ok_request [OF ok(1)] by blast
    have nr: "\<not> IsReady r" using ok(4) Ret r by (simp add: waiting_def)
    let ?s2 = "s1\<lparr>access := (access s1)(cur := access s1 cur + 1), queue := set_waiter n (Some cur) (queue s1)\<rparr>"
    obtain c r' where st: "SetStatus r a = (c, r')" by fastforce
    have r': "c \<noteq> KErrNone \<Longrightarrow> \<not> IsReady r'" using SetStatus_failed [OF st] nr by auto
    let ?s3 = "?s2\<lparr>queue := set_request n r' (queue ?s2)\<rparr>"
    have ring3: "same_ring (queue s1) (queue ?s3)"
      by (auto intro: same_ring_trans [OF same_ring_set(1) same_ring_set(2)])
    have "mq_ok ?s3" if "\<not> condition_holds n (queue s1)"
    proof (rule mq_ok_update [OF ok(1) ring3, of n])
      show "req_ok n (queue ?s3)" using that same_ring_condition [OF ring3] by (simp add: req_ok_def)
    qed simp
    moreover note same_ring_trans [OF ok(3) ring3]
    moreover have "(out, s') = RequestNotification n a cur s" using assms(2) by simp
    moreover note RequestNotification_after [OF t [unfolded Ret] r st, of cur]
    ultimately show ?thesis
      using ok mq_ok_queue [OF finish_queue [where p = p]] mq_ok_queue [OF RequestComplete_queue] by (simp split: if_splits)
  qed (use assms(2) t ok in \<open>auto simp: RequestNotification_def\<close>)
qed

lemma run_callback_ok:
  assumes "mq_ok s"
  shows "mq_ok (run_callback k s)" "same_ring (queue s) (queue (run_callback k s))"
proof -
  have "mq_ok (run_callback k s) \<and> same_ring (queue s) (queue (run_callback k s))"
  proof (cases "k < length (callbacks s)")
    case True
    obtain t n run where c: "callbacks s ! k = (t, n, run)" by (metis prod_cases3)
    obtain r where r: "request n (queue s) = Some r" using mq_ok_request [OF assms] by blast
    obtain w freed r' where f: "CallbackFunc r run = (w, freed, r')" by (metis prod_cases3)
    have "r' = snd (snd (MakeFree r))" using f by (auto simp: CallbackFunc_def Let_def split: prod.splits)
    then have nr: "\<not> IsReady r'" using MakeFree_not_ready by simp
    have q: "queue (run_callback k s) = set_request n r' (queue s)"
      using True c r f by (simp add: run_callback_def)
    have "mq_ok (run_callback k s)"
      by (rule mq_ok_update [OF assms, of _ n]) (use nr in \<open>simp_all add: q req_ok_def\<close>)
    then show ?thesis by (simp add: q)
  qed (simp add: run_callback_def assms)
  then show "mq_ok (run_callback k s)" "same_ring (queue s) (queue (run_callback k s))" by simp_all
qed

section \<open>Creation\<close>

lemma fresh_request [simp]: "\<not> IsReady TClientRequest_ctor"
  by (simp add: IsReady_def TClientRequest_ctor_def)

lemma MsgQueueCreate_ok:
  assumes "MsgQueueCreate env aSize aLength s = (Ret r, s')" "r \<ge> 0" "add_ret env \<le> 0" "setname_ret env \<le> 0"
  shows "mq_ok s' \<and> slots (queue s') = nat aSize \<and> contents (queue s') = [] \<and>
    iMaxMsgLength (queue s') = nat aLength \<and> 4 \<le> aLength \<and> aLength \<le> int KMaxLength \<and> aLength mod 4 = 0"
proof -
  have valid: "aLength AND 3 = 0" "4 \<le> aLength" "aLength \<le> 256" "0 < aSize" "alloc_object env"
    using assms(1,2) by (auto simp: MsgQueueCreate_def split: if_splits)
  have four: "aLength mod 4 = 0" using valid(1) take_bit_eq_mask [of 2 aLength]
    by (simp add: take_bit_eq_mod mask_eq_exp_minus_1)
  obtain c q where c: "mq_Create env aLength aSize blank_queue = (c, q)" by fastforce
  have "\<not> (if c = KErrNone then handle_ret env else c) < 0"
    using assms(1,2) valid c by (auto simp: MsgQueueCreate_def Let_def split: if_splits prod.splits mq_out.splits)
  then have c0: "c = KErrNone" "s' = s\<lparr>queue := q\<rparr>"
    using assms(1,3,4) valid c
    by (auto simp: MsgQueueCreate_def mq_Create_def Let_def split: if_splits)
  have q: "iMsgPool q = replicate (nat (aSize * aLength)) 0" "iMaxMsgLength q = nat aLength"
    "iFirstFreeSlot q = 0" "iFirstFullSlot q = 0" "iEndOfPool q = nat (aLength * aSize)" "iState q = EEmpty"
    "iDataAvailRequest q = Some TClientRequest_ctor" "iSpaceAvailRequest q = Some TClientRequest_ctor"
    using c c0 assms(3,4) by (auto simp: mq_Create_def Let_def blank_queue_def split: if_splits)
  have ring: "ring q (nat aSize) 0 0"
    using q valid by (simp add: ring_def nat_mult_distrib mult.commute)
  have "mq_ok s'" unfolding mq_ok_def using ring q c0 by (auto simp: req_ok_def)
  then show ?thesis using ring_slots [OF ring] ring_contents [OF ring] q c0 valid four by simp
qed

section \<open>Reachable states\<close>

datatype mq_event =
    ESend "8 word list" "8 word list" int
  | EReceive int
  | ENotify TNotification TUint32 nat
  | ECancel TNotification
  | ECallback nat
  | EThreadExit nat
  | EAccess nat int

text \<open>The outcome of a call, without its value.\<close>

fun outcome :: "'a mq_out \<Rightarrow> unit mq_out" where
  "outcome (Ret v) = Ret ()"
| "outcome (PanicThread p) = PanicThread p"
| "outcome Crash = Crash"

fun mq_exec :: "mq_event \<Rightarrow> mq_sys \<Rightarrow> unit mq_out \<times> mq_sys" where
  "mq_exec (ESend sbuf user len) s = map_prod outcome id (MsgQueueSend sbuf user len s)"
| "mq_exec (EReceive len) s = map_prod outcome id (MsgQueueReceive len s)"
| "mq_exec (ENotify ESpaceAvailable st cur) s = NotifySpaceAvailable st cur s"
| "mq_exec (ENotify EDataAvailable st cur) s = NotifyDataAvailable st cur s"
| "mq_exec (ECancel ESpaceAvailable) s = CancelSpaceAvailable s"
| "mq_exec (ECancel EDataAvailable) s = CancelDataAvailable s"
| "mq_exec (ECallback k) s = (Ret (), run_callback k s)"
| "mq_exec (EThreadExit t) s = (Ret (), s\<lparr>alive := (alive s)(t := False), accepts := (accepts s)(t := False)\<rparr>)"
| "mq_exec (EAccess t c) s = (Ret (), s\<lparr>access := (access s)(t := c)\<rparr>)"

text \<open>The buffers of the handlers: \<open>KMaxLength\<close> bytes on the stack, and the user's memory.\<close>

fun valid_event :: "mq_event \<Rightarrow> bool" where
  "valid_event (ESend sbuf user len) \<longleftrightarrow> is_TInt len \<and> length sbuf = KMaxLength \<and> nat len \<le> length user"
| "valid_event e \<longleftrightarrow> True"

inductive mq_reach :: "mq_sys \<Rightarrow> bool" where
  create: "MsgQueueCreate env aSize aLength s = (Ret r, s') \<Longrightarrow> r \<ge> 0 \<Longrightarrow> add_ret env \<le> 0 \<Longrightarrow>
    setname_ret env \<le> 0 \<Longrightarrow> mq_reach s'"
| event: "mq_reach s \<Longrightarrow> valid_event e \<Longrightarrow> mq_exec e s = (out, s') \<Longrightarrow> mq_reach s'"

definition mq_inv :: "mq_sys \<Rightarrow> bool" where
  "mq_inv s \<longleftrightarrow> mq_ok s \<and> iMaxMsgLength (queue s) \<le> KMaxLength"

lemma same_ring_inv: "mq_ok s' \<Longrightarrow> same_ring (queue s) (queue s') \<Longrightarrow> mq_inv s \<Longrightarrow> mq_inv s'"
  by (simp add: mq_inv_def same_ring_def)

lemma mq_Send_inv:
  assumes "mq_inv s" "int (length p) \<ge> int KMaxLength" "mq_Send p len s = (out, s')"
  shows "mq_inv s'" "out \<noteq> Crash"
proof -
  obtain N u n where r: "ring (queue s) N u n" "\<forall>m. req_ok m (queue s)"
    using assms(1) mq_okE unfolding mq_inv_def by blast
  have "mq_inv s' \<and> out \<noteq> Crash"
  proof (cases "len > int (iMaxMsgLength (queue s)) \<or> len \<le> 0")
    case True
    then have "mq_Send p len s = (PanicThread ''EMsgQueueInvalidLength'', s)" by (simp add: mq_Send_def Let_def)
    then show ?thesis using assms by simp
  next
    case False
    then have len: "0 < len" "len \<le> int (iMaxMsgLength (queue s))" by simp_all
    then have "nat len \<le> length p" using assms(1,2) unfolding mq_inv_def by linarith
    show ?thesis
    proof (cases "n = N")
      case True
      then show ?thesis using mq_Send_full [of s N u len p] r len assms by simp
    next
      case False
      then have "n < N" using r(1) by (simp add: ring_def)
      from mq_Send_ok [OF r this len \<open>nat len \<le> length p\<close>]
      have "\<exists>s1. mq_Send p len s = (Ret KErrNone, s1) \<and> mq_ok s1 \<and> iMaxMsgLength (queue s1) = iMaxMsgLength (queue s)"
        using mq_okI by metis
      then show ?thesis using assms by (auto simp: mq_inv_def)
    qed
  qed
  then show "mq_inv s'" "out \<noteq> Crash" by simp_all
qed

lemma mq_Receive_inv:
  assumes "mq_inv s" "mq_Receive len s = (out, s')"
  shows "mq_inv s'" "out \<noteq> Crash"
proof -
  obtain N u n where r: "ring (queue s) N u n" "\<forall>m. req_ok m (queue s)"
    using assms(1) mq_okE unfolding mq_inv_def by blast
  have "mq_inv s' \<and> out \<noteq> Crash"
  proof (cases "len = int (iMaxMsgLength (queue s))")
    case False
    then show ?thesis using assms by (auto simp: mq_Receive_def Let_def)
  next
    case True
    show ?thesis
    proof (cases "n = 0")
      case empty: True
      then show ?thesis using mq_Receive_empty [of s N u len] r(1) True assms by auto
    next
      case False
      then have "0 < n" by simp
      from mq_Receive_ok [OF r this True]
      have "\<exists>s1 m. mq_Receive len s = (Ret (KErrNone, m), s1) \<and> mq_ok s1 \<and> iMaxMsgLength (queue s1) = iMaxMsgLength (queue s)"
        using mq_okI by metis
      then show ?thesis using assms by (auto simp: mq_inv_def)
    qed
  qed
  then show "mq_inv s'" "out \<noteq> Crash" by simp_all
qed

lemma handler_buffer:
  assumes "is_TInt len" "length sbuf = KMaxLength" "nat len \<le> length user"
  shows "length (if to_TUint len \<le> int KMaxLength then take (nat len) user @ drop (nat len) sbuf else sbuf) = KMaxLength"
proof (cases "to_TUint len \<le> int KMaxLength")
  case True
  then have "0 \<le> len \<and> len \<le> int KMaxLength"
    using assms(1) mod_pos_pos_trivial [of "len + 4294967296" 4294967296] mod_pos_pos_trivial [of len 4294967296]
    by (cases "0 \<le> len") (simp_all add: is_TInt_def to_TUint_def)
  then show ?thesis using True assms by auto
qed (use assms in simp)

lemma mq_exec_inv:
  assumes "mq_inv s" "valid_event e" "mq_exec e s = (out, s')"
  shows "mq_inv s' \<and> out \<noteq> Crash"
proof (cases e)
  case (ESend sbuf user len)
  let ?buf = "if to_TUint len \<le> int KMaxLength then take (nat len) user @ drop (nat len) sbuf else sbuf"
  obtain o1 s1 where send: "mq_Send ?buf len s = (o1, s1)" by fastforce
  have "length ?buf = KMaxLength" using handler_buffer [of len sbuf user] ESend assms(2) by simp
  then have "int KMaxLength \<le> int (length ?buf)" by simp
  note inv = mq_Send_inv [OF assms(1) this send]
  have "MsgQueueSend sbuf user len s = (o1, s1)" using send by (simp add: MsgQueueSend_def Let_def)
  then show ?thesis using inv assms(3) ESend by (cases o1) auto
next
  case (EReceive len)
  obtain o1 s1 where recv: "mq_Receive len s = (o1, s1)" by fastforce
  note inv = mq_Receive_inv [OF assms(1) recv]
  have "fst (MsgQueueReceive len s) \<noteq> Crash" "snd (MsgQueueReceive len s) = s1"
    using recv inv by (cases o1; auto simp: MsgQueueReceive_def split: prod.splits)+
  then show ?thesis using inv assms(3) EReceive
    by (cases "fst (MsgQueueReceive len s)") (auto simp: map_prod_def split: prod.splits)
next
  case (ENotify n st cur)
  then have "RequestNotification n st cur s = (out, s')"
    using assms(3) by (cases n) (simp_all add: NotifySpaceAvailable_def NotifyDataAvailable_def)
  then show ?thesis using RequestNotification_ok assms(1) same_ring_inv unfolding mq_inv_def by blast
next
  case (ECancel n)
  then have c: "CompleteRequestIfPending n KErrCancel s = (out, s')"
    using assms(3) by (cases n) (simp_all add: CancelSpaceAvailable_def CancelDataAvailable_def)
  have "mq_ok s" using assms(1) by (simp add: mq_inv_def)
  then obtain s1 where "CompleteRequestIfPending n KErrCancel s = (Ret (), s1)" "mq_ok s1" "same_ring (queue s) (queue s1)"
    by (rule CompleteRequestIfPending_ok)
  then show ?thesis using c same_ring_inv assms(1) by auto
next
  case (ECallback k)
  have "mq_ok s" using assms(1) by (simp add: mq_inv_def)
  then show ?thesis using run_callback_ok [of s k] same_ring_inv [of "run_callback k s" s] assms(1,3) ECallback by auto
next
  case (EThreadExit t)
  then have "queue s' = queue s" "out = Ret ()" using assms(3) by auto
  then show ?thesis using assms(1) by (simp add: mq_inv_def mq_ok_def)
next
  case (EAccess t c)
  then have "queue s' = queue s" "out = Ret ()" using assms(3) by auto
  then show ?thesis using assms(1) by (simp add: mq_inv_def mq_ok_def)
qed

lemma mq_reach_inv: "mq_reach s \<Longrightarrow> mq_inv s"
proof (induction rule: mq_reach.induct)
  case (create env aSize aLength s r s')
  then show ?case using MsgQueueCreate_ok [of env aSize aLength s r s'] by (auto simp: mq_inv_def)
next
  case (event s e out s')
  then show ?case using mq_exec_inv by blast
qed

section \<open>References on threads\<close>

text \<open>
  The references the queue holds on a thread: one for each request that waits for it. The others
  are the references of the rest of the kernel.
\<close>

definition held1 :: "TNotification \<Rightarrow> nat \<Rightarrow> DMsgQueue \<Rightarrow> int" where
  "held1 n t q = (if waiting n q \<and> waiter n q = Some t then 1 else 0)"

definition held :: "nat \<Rightarrow> DMsgQueue \<Rightarrow> int" where
  "held t q = held1 ESpaceAvailable t q + held1 EDataAvailable t q"

definition others :: "mq_sys \<Rightarrow> nat \<Rightarrow> int" where
  "others s t = access s t - held t (queue s)"

lemma held_bounds: "0 \<le> held1 n t q" "held1 n t q \<le> held t q"
  by (cases n; simp add: held1_def held_def)+

lemma held_other:
  assumes "\<And>m. m \<noteq> n \<Longrightarrow> request m q' = request m q \<and> waiter m q' = waiter m q"
  shows "held t q' - held1 n t q' = held t q - held1 n t q"
proof -
  have "held1 m t q' = held1 m t q" if "m \<noteq> n" for m using assms [OF that] by (simp add: held1_def waiting_def)
  then show ?thesis by (cases n) (simp_all add: held_def)
qed

lemma StartComplete_callbacks:
  "IsReady r \<Longrightarrow> access (QueueRequestComplete n t r v s) = access s \<and> deleted (QueueRequestComplete n t r v s) = deleted s"
  by (simp add: QueueRequestComplete_def split: prod.splits)

text \<open>
  Completing a request gives back the reference it held, and deletes the thread when that was the
  last one.
\<close>

lemma CompleteRequestIfPending_refs:
  assumes r: "request n (queue s) = Some r" and r1: "IsReady r \<longrightarrow> waiter n (queue s) \<noteq> None"
    and oth: "\<forall>t. others s t \<ge> 0" and c: "CompleteRequestIfPending n v s = (out, s')"
  shows "others s' = others s \<and> (\<exists>d. deleted s' = deleted s @ d \<and> (\<forall>t\<in>set d. access s' t = 0))"
proof -
  obtain s1 r' where s': "CompleteRequestIfPending n v s = (Ret (), s1)" "same_ring (queue s) (queue s1)"
    "request n (queue s1) = Some r'" "\<not> IsReady r'"
    "\<And>m. m \<noteq> n \<Longrightarrow> request m (queue s1) = request m (queue s) \<and> waiter m (queue s1) = waiter m (queue s)"
    using r r1 by (rule CompleteRequestIfPending_spec) auto
  have s1: "s1 = s'" using s'(1) c by simp
  have after: "held1 n t (queue s') = 0" for t using s' s1 by (simp add: held1_def waiting_def)
  have h: "held t (queue s') = held t (queue s) - held1 n t (queue s)" for t
    using held_other [of n "queue s'" "queue s" t] s'(5) s1 after by simp
  have acc: "access s' t = access s t - held1 n t (queue s)" for t
  proof (cases "IsReady r")
    case False
    then show ?thesis using r c by (auto simp: CompleteRequestIfPending_def held1_def waiting_def)
  next
    case True
    then obtain w where w: "waiter n (queue s) = Some w" using r1 by auto
    have "held1 n w (queue s) = 1" using True r w by (simp add: held1_def waiting_def)
    then have "access s w \<ge> 1" using held_bounds(2) [of n w "queue s"] oth [rule_format, of w] by (simp add: others_def)
    then show ?thesis
      using True r w c StartComplete_callbacks [OF True]
      by (auto simp: CompleteRequestIfPending_def Let_def held1_def waiting_def dec_access_def split: if_splits)
  qed
  have "others s' = others s" using h acc by (simp add: others_def fun_eq_iff)
  have "deleted s' = deleted s \<or> (\<exists>w. deleted s' = deleted s @ [w] \<and> access s w = 1 \<and> held1 n w (queue s) = 1)"
    using r r1 c StartComplete_callbacks
    by (auto simp: CompleteRequestIfPending_def Let_def held1_def waiting_def dec_access_def split: if_splits option.splits)
  then have "\<exists>d. deleted s' = deleted s @ d \<and> (\<forall>t\<in>set d. access s' t = 0)" using acc by auto
  then show ?thesis using \<open>others s' = others s\<close> by simp
qed

definition refs_kept :: "mq_sys \<Rightarrow> mq_sys \<Rightarrow> bool" where
  "refs_kept s s' \<longleftrightarrow>
     others s' = others s \<and> (\<exists>d. deleted s' = deleted s @ d \<and> (\<forall>t\<in>set d. access s' t = 0))"

lemma refs_kept_refl [simp]: "refs_kept s s"
  by (simp add: refs_kept_def)

lemma Complete_after_refs:
  assumes "mq_ok s" "\<forall>t. others s t \<ge> 0" "CompleteRequestIfPending n v s1 = (out, s')"
    "\<exists>q. s1 = s\<lparr>queue := q\<rparr> \<and> (\<forall>m. request m q = request m (queue s) \<and> waiter m q = waiter m (queue s))"
  shows "refs_kept s s'"
proof -
  obtain q where q: "s1 = s\<lparr>queue := q\<rparr>" "\<And>m. request m q = request m (queue s)" "\<And>m. waiter m q = waiter m (queue s)"
    using assms(4) by blast
  have oth: "others s1 = others s" using q by (simp add: others_def held_def held1_def waiting_def fun_eq_iff)
  obtain r where r: "request n (queue s) = Some r" "IsReady r \<longrightarrow> waiter n (queue s) \<noteq> None \<and> \<not> condition_holds n (queue s)"
    using assms(1) by (rule mq_ok_request)
  have "others s' = others s1 \<and> (\<exists>d. deleted s' = deleted s1 @ d \<and> (\<forall>t\<in>set d. access s' t = 0))"
    by (rule CompleteRequestIfPending_refs [of n s1 r]) (use r q assms(2,3) oth in auto)
  then show ?thesis using oth q by (simp add: refs_kept_def)
qed

lemma mq_Send_refs:
  assumes "mq_ok s" "\<forall>t. others s t \<ge> 0" "mq_Send p len s = (out, s')" "iMaxMsgLength (queue s) \<le> length p"
  shows "refs_kept s s'"
proof (cases "len > int (iMaxMsgLength (queue s)) \<or> len \<le> 0")
  case True
  then show ?thesis using assms(3) by (auto simp: mq_Send_def Let_def)
next
  case False
  then have len: "0 < len" "len \<le> int (iMaxMsgLength (queue s))" by simp_all
  obtain N u n where r: "ring (queue s) N u n" "\<forall>m. req_ok m (queue s)" using assms(1) by (rule mq_okE)
  have nlen: "nat len \<le> length p" using len(2) assms(4) by linarith
  show ?thesis
  proof (cases "n = N")
    case True
    then show ?thesis using mq_Send_full [of s N u len p] r len assms(3) by auto
  next
    case False
    then have "n < N" using r(1) by (simp add: ring_def)
    then show ?thesis
    proof (rule mq_Send_ok [OF r _ len nlen])
      fix s1 s2 assume "mq_Send p len s = (Ret KErrNone, s1)"
        "CompleteRequestIfPending EDataAvailable KErrNone s2 = (Ret (), s1)"
        "\<exists>q. s2 = s\<lparr>queue := q\<rparr> \<and> (\<forall>m. request m q = request m (queue s) \<and> waiter m q = waiter m (queue s))"
      then show "refs_kept s s'" using Complete_after_refs [OF assms(1,2)] assms(3) by auto
    qed
  qed
qed

lemma mq_Receive_refs:
  assumes "mq_ok s" "\<forall>t. others s t \<ge> 0" "mq_Receive len s = (out, s')"
  shows "refs_kept s s'"
proof (cases "len = int (iMaxMsgLength (queue s))")
  case False
  then show ?thesis using assms(3) by (auto simp: mq_Receive_def Let_def)
next
  case True
  obtain N u n where r: "ring (queue s) N u n" "\<forall>m. req_ok m (queue s)" using assms(1) by (rule mq_okE)
  show ?thesis
  proof (cases "n = 0")
    case empty: True
    then show ?thesis using mq_Receive_empty [of s N u len] r(1) True assms(3) by auto
  next
    case False
    then have "0 < n" by simp
    then show ?thesis
    proof (rule mq_Receive_ok [OF r _ True])
      fix s1 s2 msg assume "mq_Receive len s = (Ret (KErrNone, msg), s1)"
        "CompleteRequestIfPending ESpaceAvailable KErrNone s2 = (Ret (), s1)"
        "\<exists>q. s2 = s\<lparr>queue := q\<rparr> \<and> (\<forall>m. request m q = request m (queue s) \<and> waiter m q = waiter m (queue s))"
      then show "refs_kept s s'" using Complete_after_refs [OF assms(1,2)] assms(3) by auto
    qed
  qed
qed

lemma RequestComplete_refs [simp]:
  "access (RequestComplete cur a r s) = access s" "deleted (RequestComplete cur a r s) = deleted s"
  "others (RequestComplete cur a r s) = others s"
  by (simp_all add: RequestComplete_def others_def fun_eq_iff)

text \<open>Taking over from a dead thread leaves its reference to be closed at the end of the call.\<close>

lemma take_over_refs:
  assumes "mq_ok s" "take_over n s = (Ret p, s1)"
  shows "access s1 = access s" "deleted s1 = deleted s"
    "others s1 t = others s t + (if p = Some t then 1 else 0)"
proof -
  obtain r where r: "request n (queue s) = Some r" "IsReady r \<longrightarrow> waiter n (queue s) \<noteq> None \<and> \<not> condition_holds n (queue s)"
    using assms(1) by (rule mq_ok_request)
  show "access s1 = access s" "deleted s1 = deleted s"
    using assms(2) r by (auto simp: take_over_def split: if_splits option.splits)
  show "others s1 t = others s t + (if p = Some t then 1 else 0)"
  proof (cases "IsReady r")
    case False
    then show ?thesis using assms(2) r by (auto simp: take_over_def)
  next
    case True
    then obtain w where w: "waiter n (queue s) = Some w" using r(2) by auto
    have s1: "p = Some w" "s1 = s\<lparr>queue := set_request n (Reset r) (set_waiter n None (queue s))\<rparr>"
      using assms(2) r(1) True w by (auto simp: take_over_def split: if_splits)
    have "held t (queue s1) - held1 n t (queue s1) = held t (queue s) - held1 n t (queue s)"
      by (rule held_other) (simp add: s1)
    moreover have "held1 n t (queue s1) = 0" by (simp add: s1 held1_def)
    ultimately show ?thesis using s1 r(1) True w by (auto simp: others_def held1_def waiting_def)
  qed
qed

lemma close_thread_refs:
  assumes "others s t \<ge> 1"
  shows "others (close_thread t s) = (others s)(t := others s t - 1)"
    "\<exists>d. deleted (close_thread t s) = deleted s @ d \<and> (\<forall>x\<in>set d. access (close_thread t s) x = 0)"
proof -
  have "access s t \<ge> 1" using assms held_bounds [of ESpaceAvailable t "queue s"] by (simp add: others_def)
  then show "others (close_thread t s) = (others s)(t := others s t - 1)"
    "\<exists>d. deleted (close_thread t s) = deleted s @ d \<and> (\<forall>x\<in>set d. access (close_thread t s) x = 0)"
    by (auto simp: close_thread_def dec_access_def Let_def others_def fun_eq_iff)
qed

lemma finish_refs:
  assumes "\<forall>t. others s t \<ge> (if p = Some t then 1 else 0)"
  defines "s' \<equiv> (case p of None \<Rightarrow> s | Some t \<Rightarrow> close_thread t s)"
  shows "others s' t = others s t - (if p = Some t then 1 else 0)"
    "\<exists>d. deleted s' = deleted s @ d \<and> (\<forall>x\<in>set d. access s' x = 0)"
proof -
  have "others s w \<ge> 1" if "p = Some w" for w using assms(1) that by (metis (full_types))
  then show "others s' t = others s t - (if p = Some t then 1 else 0)"
    "\<exists>d. deleted s' = deleted s @ d \<and> (\<forall>x\<in>set d. access s' x = 0)"
    using close_thread_refs by (cases p; auto simp: s'_def)+
qed

lemma set_waiting_refs:
  fixes s1 :: mq_sys and cur :: nat
  assumes "\<not> waiting n (queue s1)" "request n (queue s1) = Some r" "SetStatus r a = (c, r')"
  defines "s2 \<equiv> s1\<lparr>access := (access s1)(cur := access s1 cur + 1), queue := set_waiter n (Some cur) (queue s1)\<rparr>"
  defines "s3 \<equiv> s2\<lparr>queue := set_request n r' (queue s2)\<rparr>"
  shows "others s3 t = others s1 t + (if t = cur \<and> c \<noteq> KErrNone then 1 else 0)" "deleted s3 = deleted s1"
proof -
  have "held t (queue s3) - held1 n t (queue s3) = held t (queue s1) - held1 n t (queue s1)"
    by (rule held_other) (simp add: s3_def s2_def)
  moreover have "held1 n t (queue s1) = 0" using assms(1) by (simp add: held1_def)
  moreover have "held1 n t (queue s3) = (if t = cur \<and> IsReady r' then 1 else 0)"
    by (simp add: held1_def waiting_def s3_def s2_def)
  moreover have "IsReady r' \<longleftrightarrow> c = KErrNone"
    using SetStatus_ready [of r a r'] SetStatus_failed [OF assms(3)] assms(1-3) by (auto simp: waiting_def)
  ultimately show "others s3 t = others s1 t + (if t = cur \<and> c \<noteq> KErrNone then 1 else 0)" "deleted s3 = deleted s1"
    by (auto simp: others_def s3_def s2_def)
qed

lemma RequestNotification_refs:
  assumes "mq_ok s" "\<forall>t. others s t \<ge> 0" "RequestNotification n a cur s = (Ret u, s')"
  shows "refs_kept s s'"
proof -
  obtain o1 s1 where t: "take_over n s = (o1, s1)" by fastforce
  then obtain p where p: "o1 = Ret p" using assms(3) by (cases o1) (auto simp: RequestNotification_def)
  note ok = take_over_ok [OF assms(1) t] and refs = take_over_refs [OF assms(1) t [unfolded p]]
  obtain r where r: "request n (queue s1) = Some r" using mq_ok_request [OF ok(1)] by blast
  obtain c r' where st: "SetStatus r a = (c, r')" by fastforce
  note after = RequestNotification_after [OF t [unfolded p] r st, of cur]
  let ?f = "\<lambda>s. case p of None \<Rightarrow> s | Some t \<Rightarrow> close_thread t s"
  let ?s2 = "s1\<lparr>access := (access s1)(cur := access s1 cur + 1), queue := set_waiter n (Some cur) (queue s1)\<rparr>"
  let ?s3 = "?s2\<lparr>queue := set_request n r' (queue ?s2)\<rparr>"
  have "\<exists>s4. s' = ?f s4 \<and> others s4 = others s1 \<and> deleted s4 = deleted s1"
  proof (cases "condition_holds n (queue s1)")
    case True
    then show ?thesis using after assms(3) by (intro exI [of _ "RequestComplete cur a KErrNone s1"]) simp
  next
    case False
    then have "c = KErrNone" "s' = ?f ?s3" using after assms(3) by (simp_all split: if_splits)
    moreover have "\<not> waiting n (queue s1)" using ok(4) p by simp
    ultimately show ?thesis using set_waiting_refs [OF _ r st] by (intro exI [of _ ?s3]) (simp add: fun_eq_iff)
  qed
  then obtain s4 where s4: "s' = ?f s4" "others s4 = others s1" "deleted s4 = deleted s1" by blast
  have pos: "\<forall>t. others s4 t \<ge> (if p = Some t then 1 else 0)" using refs(3) s4(2) assms(2) by simp
  show ?thesis
    using finish_refs [OF pos] refs s4 by (simp add: refs_kept_def fun_eq_iff)
qed

end
