(* ===== verification/Msgq_Props.thy ===== *)
theory Msgq_Props
  imports Msgq_Reach
begin

text \<open>
  The properties of the message queue: first-in first-out delivery, the limits and their errors,
  no fault of the kernel in any reachable state, no lost wake-up, the wake-up of a
  waiting thread, the accounting of thread references, and the two failure paths that go wrong.
\<close>

section \<open>Lemmas\<close>

lemma reach_ring:
  assumes "mq_reach s"
  obtains N u n where "ring (queue s) N u n" "\<forall>m. req_ok m (queue s)" "iMaxMsgLength (queue s) \<le> KMaxLength"
  using mq_reach_inv [OF assms] mq_okE unfolding mq_inv_def by metis

lemma contents_bound: "mq_ok s \<Longrightarrow> length (contents (queue s)) \<le> slots (queue s)"
  by (elim mq_okE) (auto simp: ring_used_slots ring_slots, simp add: ring_def)

lemma MsgQueueSend_small:
  assumes "0 \<le> len" "len \<le> int KMaxLength"
  shows "MsgQueueSend sbuf user len s = mq_Send (take (nat len) user @ drop (nat len) sbuf) len s"
  using assms by (simp add: MsgQueueSend_def Let_def to_TUint_def)

lemma in_use_bits:
  assumes "IsReady r"
  shows "(iStatus r OR 2) AND NOT 2 = iStatus r" "(iStatus r OR 2) AND NOT 3 = iStatus r"
    "(iStatus r OR 2) AND 1 = 0"
proof -
  have w: "iStatus r AND 3 = 0" using assms by (simp add: IsReady_def)
  note f = flag_bits [OF w]
  show "(iStatus r OR 2) AND NOT 3 = iStatus r" "(iStatus r OR 2) AND 1 = 0" using f by simp_all
  have "iStatus r = (iStatus r AND 2) OR (iStatus r AND NOT 2)" by (simp add: bit.conj_disj_distrib [symmetric])
  then have "iStatus r AND NOT 2 = iStatus r" using f(9) by simp
  then show "(iStatus r OR 2) AND NOT 2 = iStatus r" by (simp add: bit.conj_disj_distrib2)
qed

text \<open>Completing the request of a thread that lives on, and then running the callback.\<close>

lemma Complete_wakes:
  assumes r: "request n (queue s) = Some r" "IsReady r" "waiter n (queue s) = Some t"
    and t: "access s t \<noteq> 1" "accepts s t" "iStatus r \<noteq> KClientRequestNullStatus"
    and c: "CompleteRequestIfPending n v s = (out, s')"
  shows "callbacks s' = callbacks s @ [(t, n, True)]" "signals s' t = signals s t + 1"
    "writable s (iStatus r) \<Longrightarrow>
      written (run_callback (length (callbacks s)) s') = written s @ [(t, iStatus r, v)]"
proof -
  note bits = in_use_bits [OF r(2)]
  let ?r' = "r\<lparr>iStatus := iStatus r OR 2, iResult := v\<rparr>"
  have start: "StartComplete r v = (True, ?r')"
    using r(2) by (auto simp: StartComplete_def IsReady_def Let_def)
  have e: "EndComplete ?r' True = (True, True)" using bits t(3) by (simp add: EndComplete_def)
  have s': "s' = dec_access t (s\<lparr>queue := set_waiter n None (queue s)\<rparr>)
      \<lparr>queue := set_request n ?r' (set_waiter n None (queue s)), callbacks := callbacks s @ [(t, n, True)],
       signals := (signals s)(t := signals s t + 1)\<rparr>"
    using c r t start e
    by (simp add: CompleteRequestIfPending_def Let_def QueueRequestComplete_def dec_access_def)
  then show "callbacks s' = callbacks s @ [(t, n, True)]" "signals s' t = signals s t + 1" by simp_all
  assume w: "writable s (iStatus r)"
  have f: "CallbackFunc ?r' True = (Some (iStatus r, v), False, snd (snd (MakeFree ?r')))"
    using bits t(3) by (simp add: CallbackFunc_def MakeFree_def Let_def)
  have "callbacks s' ! length (callbacks s) = (t, n, True)" "length (callbacks s) < length (callbacks s')"
    "request n (queue s') = Some ?r'" "written s' = written s" "writable s' = writable s"
    using s' by (simp_all add: dec_access_def)
  then show "written (run_callback (length (callbacks s)) s') = written s @ [(t, iStatus r, v)]"
    using f w by (simp add: run_callback_def)
qed

section \<open>A queue to try the properties on\<close>

definition ex_env :: mq_env where
  "ex_env = \<lparr>named = False, setname_ret = 0, alloc_object = True, alloc_data = True, alloc_space = True,
     alloc_pool = True, add_ret = 0, handle_ret = 1\<rparr>"

definition ex_sys :: mq_sys where
  "ex_sys = \<lparr>queue = blank_queue, access = (\<lambda>_. 2), alive = (\<lambda>_. True), accepts = (\<lambda>_. True),
     writable = (\<lambda>_. True), callbacks = [], signals = (\<lambda>_. 0), written = [], deleted = []\<rparr>"

text \<open>Two slots of four bytes; then with thread 7 waiting for data.\<close>

definition ex_new :: mq_sys where
  "ex_new = snd (MsgQueueCreate ex_env 2 4 ex_sys)"

definition ex_waiting :: mq_sys where
  "ex_waiting = snd (NotifyDataAvailable 0x400100 7 ex_new)"

lemmas ex_defs = ex_new_def ex_sys_def ex_env_def MsgQueueCreate_def mq_Create_def blank_queue_def Let_def
  TClientRequest_ctor_def

lemma ex_create: "MsgQueueCreate ex_env 2 4 ex_sys = (Ret 1, ex_new)"
  by (simp add: ex_defs)

lemma ex_new_queue: "queue ex_new = \<lparr>iMsgPool = replicate 8 0, iFirstFreeSlot = 0, iFirstFullSlot = 0,
   iEndOfPool = 8, iThreadWaitingOnSpaceAvail = None, iThreadWaitingOnDataAvail = None,
   iDataAvailRequest = Some TClientRequest_ctor, iSpaceAvailRequest = Some TClientRequest_ctor,
   iMaxMsgLength = 4, iState = EEmpty\<rparr>"
  by (simp add: ex_defs)

lemma ex_new_sys: "access ex_new = (\<lambda>_. 2)" "alive ex_new = (\<lambda>_. True)" "accepts ex_new = (\<lambda>_. True)"
  "writable ex_new = (\<lambda>_. True)" "callbacks ex_new = []" "signals ex_new = (\<lambda>_. 0)" "written ex_new = []"
  "deleted ex_new = []"
  by (simp_all add: ex_defs)

lemma ex_reach: "mq_reach ex_new"
  by (rule mq_reach.create [OF ex_create]) (simp_all add: ex_env_def)

lemma ex_notify:
  "NotifyDataAvailable 0x400100 7 ex_new =
     (Ret (), ex_new\<lparr>access := (\<lambda>_. 2)(7 := 3),
        queue := (queue ex_new)\<lparr>iThreadWaitingOnDataAvail := Some 7,
          iDataAvailRequest := Some (TClientRequest_ctor\<lparr>iStatus := 0x400100\<rparr>)\<rparr>\<rparr>)"
  by (simp add: NotifyDataAvailable_def RequestNotification_def take_over_def ex_new_queue ex_new_sys Let_def
      condition_holds_def SetStatus_def) (simp add: TClientRequest_ctor_def)

lemma ex_waiting_eq:
  "ex_waiting = ex_new\<lparr>access := (\<lambda>_. 2)(7 := 3),
        queue := (queue ex_new)\<lparr>iThreadWaitingOnDataAvail := Some 7,
          iDataAvailRequest := Some (TClientRequest_ctor\<lparr>iStatus := 0x400100\<rparr>)\<rparr>\<rparr>"
  by (simp add: ex_waiting_def ex_notify)

lemma ex_waiting_reach: "mq_reach ex_waiting"
  by (rule mq_reach.event [OF ex_reach, of "ENotify EDataAvailable 0x400100 7" "Ret ()"])
    (simp_all add: ex_notify ex_waiting_eq)

lemma ex_ready: "IsReady (TClientRequest_ctor\<lparr>iStatus := 0x400100\<rparr>)"
  by (simp add: IsReady_def)

section \<open>Properties\<close>

text \<open>
  C12. Messages are delivered in order, each once: after any sequence of sends and receives on a new
  queue of N slots, the messages accepted are those received followed by those in the queue,
  each beginning with the bytes that were sent, and the queue holds at most N.
\<close>

theorem message_queue_fifo:
  assumes "MsgQueueCreate env aSize aLength s = (Ret r, s0)" "r \<ge> 0" "add_ret env \<le> 0" "setname_ret env \<le> 0"
    and "\<forall>a. Inl a \<in> set ops \<longrightarrow> 0 < length a \<and> length a \<le> nat aLength"
    and "mq.history ops s0 = (t, sent, received)"
  shows "\<exists>ms. list_all2 starts_with sent ms \<and> ms = received @ contents (queue t) \<and>
    length (contents (queue t)) \<le> nat aSize"
proof -
  note new = MsgQueueCreate_ok [OF assms(1-4)]
  have "\<forall>a. Inl a \<in> set ops \<longrightarrow> can_send s0 a" using assms(5) new by (simp add: can_send_def)
  then show ?thesis
    using mq.history_fifo [OF _ _ assms(6)] new contents_bound [of t] by auto
qed

theorem message_queue_fifo_witness:
  "\<exists>t sent received. mq.history [Inl [1,2,3,4], Inl [5,6], Inl [7], Inr (), Inl [8]] ex_new = (t, sent, received) \<and>
    (\<exists>ms. list_all2 starts_with sent ms \<and> ms = received @ contents (queue t) \<and>
      length (contents (queue t)) \<le> nat 2)"
proof -
  obtain t sent received where h:
    "mq.history [Inl [1,2,3,4], Inl [5,6], Inl [7], Inr (), Inl [8]] ex_new = (t, sent, received)"
    by (rule prod_cases3)
  show ?thesis
    using message_queue_fifo [OF ex_create _ _ _ _ h] h by (auto simp: ex_env_def)
qed

text \<open>
  C13. The errors of sending and receiving: a message that does not fit panics the caller, a full
  queue gives \<open>KErrOverflow\<close> and an empty one \<open>KErrUnderflow\<close>, and in each of
  these cases nothing changes; otherwise the call succeeds.
\<close>

theorem message_queue_errors:
  assumes "mq_reach s" "is_TInt len" "length sbuf = KMaxLength" "nat len \<le> length user"
  shows "(len > int (iMaxMsgLength (queue s)) \<or> len \<le> 0 \<longrightarrow>
      MsgQueueSend sbuf user len s = (PanicThread ''EMsgQueueInvalidLength'', s)) \<and>
    (0 < len \<and> len \<le> int (iMaxMsgLength (queue s)) \<longrightarrow>
      (if length (contents (queue s)) = slots (queue s) then MsgQueueSend sbuf user len s = (Ret KErrOverflow, s)
       else fst (MsgQueueSend sbuf user len s) = Ret KErrNone)) \<and>
    (len \<noteq> int (iMaxMsgLength (queue s)) \<longrightarrow>
      MsgQueueReceive len s = (PanicThread ''EMsgQueueInvalidLength'', s)) \<and>
    (len = int (iMaxMsgLength (queue s)) \<longrightarrow>
      (if contents (queue s) = [] then MsgQueueReceive len s = (Ret (KErrUnderflow, []), s)
       else fst (MsgQueueReceive len s) = Ret (KErrNone, hd (contents (queue s)))))"
proof -
  obtain N u n where r: "ring (queue s) N u n" "\<forall>m. req_ok m (queue s)" "iMaxMsgLength (queue s) \<le> KMaxLength"
    using assms(1) by (rule reach_ring)
  note used = ring_used_slots [OF r(1)] ring_slots [OF r(1)]
  have "n \<le> N" using r(1) by (simp add: ring_def)
  have bad: "MsgQueueSend sbuf user len s = (PanicThread ''EMsgQueueInvalidLength'', s)"
    if "len > int (iMaxMsgLength (queue s)) \<or> len \<le> 0"
    using that by (simp add: MsgQueueSend_def mq_Send_def Let_def)
  have send: "if n = N then MsgQueueSend sbuf user len s = (Ret KErrOverflow, s)
      else fst (MsgQueueSend sbuf user len s) = Ret KErrNone"
    if len: "0 < len" "len \<le> int (iMaxMsgLength (queue s))"
  proof -
    let ?buf = "take (nat len) user @ drop (nat len) sbuf"
    have eq: "MsgQueueSend sbuf user len s = mq_Send ?buf len s" using len r(3) by (intro MsgQueueSend_small) auto
    have nlen: "nat len \<le> length ?buf" using assms(4) by simp
    show ?thesis
    proof (cases "n = N")
      case False
      then have "n < N" using \<open>n \<le> N\<close> by simp
      from mq_Send_ok [OF r(1,2) this len nlen] have "\<exists>s'. mq_Send ?buf len s = (Ret KErrNone, s')" by blast
      then show ?thesis using False eq by auto
    qed (use mq_Send_full [of s N u len ?buf] r(1) len eq in simp)
  qed
  have recv: "if n = 0 then MsgQueueReceive len s = (Ret (KErrUnderflow, []), s)
      else fst (MsgQueueReceive len s) = Ret (KErrNone, hd (contents (queue s)))"
    if len: "len = int (iMaxMsgLength (queue s))"
  proof (cases "n = 0")
    case True
    then show ?thesis using mq_Receive_empty [of s N u len] r(1) len by (simp add: MsgQueueReceive_def)
  next
    case False
    then have "0 < n" by simp
    have ex: "\<exists>s' m. mq_Receive len s = (Ret (KErrNone, m), s') \<and> contents (queue s) = m # contents (queue s')"
      by (rule mq_Receive_ok [OF r(1,2) \<open>0 < n\<close> len]) auto
    then obtain s' m where m: "mq_Receive len s = (Ret (KErrNone, m), s')" "contents (queue s) = m # contents (queue s')"
      by blast
    have "0 < N" using r(1) by (simp add: ring_def)
    then have "length m = iMaxMsgLength (queue s)"
      using m(2) ring_contents [OF r(1)] slot_length [OF r(1), of "u mod N"] \<open>0 < n\<close> by (auto simp: upt_conv_Cons)
    then show ?thesis using m len False by (simp add: MsgQueueReceive_def)
  qed
  have empty: "contents (queue s) = [] \<longleftrightarrow> n = 0" using used(1) by auto
  have badr: "MsgQueueReceive len s = (PanicThread ''EMsgQueueInvalidLength'', s)"
    if "len \<noteq> int (iMaxMsgLength (queue s))" using that by (simp add: MsgQueueReceive_def mq_Receive_def Let_def)
  show ?thesis
    unfolding used empty using bad badr send recv by blast
qed

theorem message_queue_errors_witness:
  "MsgQueueSend (replicate 256 0) (replicate 5 1) 5 ex_new = (PanicThread ''EMsgQueueInvalidLength'', ex_new) \<and>
   MsgQueueReceive 4 ex_new = (Ret (KErrUnderflow, []), ex_new)"
  using message_queue_errors [OF ex_reach, of 5 "replicate 256 0" "replicate 5 1"]
    message_queue_errors [OF ex_reach, of 4 "replicate 256 0" "replicate 4 1"]
  by (simp add: is_TInt_def ex_new_queue contents_def used_def)

text \<open>
  C14. In no reachable state does a call on the queue, with any arguments, follow a null pointer
  or leave the message pool.
\<close>

theorem message_queue_no_fault:
  assumes "mq_reach s" "valid_event e"
  shows "fst (mq_exec e s) \<noteq> Crash"
  using mq_exec_inv [OF mq_reach_inv [OF assms(1)] assms(2)] by (cases "mq_exec e s") auto

theorem message_queue_no_fault_witness:
  "fst (mq_exec (ENotify EDataAvailable 0x400100 9) ex_waiting) \<noteq> Crash"
  using message_queue_no_fault [OF ex_waiting_reach, of "ENotify EDataAvailable 0x400100 9"] by simp

text \<open>
  C15. No wake-up is lost: in every reachable state a thread that waits for data waits on an
  empty queue, a thread that waits for space waits on a full one, and there is a thread recorded
  to complete.
\<close>

theorem message_queue_no_lost_wakeup:
  assumes "mq_reach s"
  shows "(waiting EDataAvailable (queue s) \<longrightarrow> contents (queue s) = [] \<and> iThreadWaitingOnDataAvail (queue s) \<noteq> None) \<and>
    (waiting ESpaceAvailable (queue s) \<longrightarrow>
      length (contents (queue s)) = slots (queue s) \<and> iThreadWaitingOnSpaceAvail (queue s) \<noteq> None)"
proof -
  obtain N u n where r: "ring (queue s) N u n" "\<forall>m. req_ok m (queue s)" using assms by (rule reach_ring)
  note used = ring_used_slots [OF r(1)] ring_slots [OF r(1)] ring_state [OF r(1)]
  have "waiting m (queue s) \<Longrightarrow> \<not> condition_holds m (queue s) \<and> waiter m (queue s) \<noteq> None" for m
    using r(2) [rule_format, of m] by (auto simp: waiting_def req_ok_def)
  from this [of EDataAvailable] this [of ESpaceAvailable] show ?thesis
    using used by (auto simp: condition_holds_def)
qed

theorem message_queue_no_lost_wakeup_witness:
  "waiting EDataAvailable (queue ex_waiting) \<and> contents (queue ex_waiting) = []"
  using message_queue_no_lost_wakeup [OF ex_waiting_reach] ex_ready
  by (simp add: ex_waiting_eq waiting_def)

text \<open>
  A message wakes the thread that waits for data: the send queues the completion on it and
  signals its request semaphore, and the callback writes \<open>KErrNone\<close> to its request status.
\<close>

theorem message_wakes_waiting_thread:
  assumes "mq_reach s" "waiting EDataAvailable (queue s)"
    and "iThreadWaitingOnDataAvail (queue s) = Some t" "iDataAvailRequest (queue s) = Some r"
    and "access s t > 1" "accepts s t" "writable s (iStatus r)" "iStatus r \<noteq> KClientRequestNullStatus"
    and "0 < len" "len \<le> int (iMaxMsgLength (queue s))" "nat len \<le> length user"
  shows "\<exists>s'. MsgQueueSend sbuf user len s = (Ret KErrNone, s') \<and>
    callbacks s' = callbacks s @ [(t, EDataAvailable, True)] \<and> signals s' t = signals s t + 1 \<and>
    written (run_callback (length (callbacks s)) s') = written s @ [(t, iStatus r, KErrNone)]"
proof -
  obtain N u n where ring: "ring (queue s) N u n" "\<forall>m. req_ok m (queue s)" "iMaxMsgLength (queue s) \<le> KMaxLength"
    using assms(1) by (rule reach_ring)
  have ready: "IsReady r" using assms(2,4) by (simp add: waiting_def)
  have "iState (queue s) = EEmpty"
    using ring(2) [rule_format, of EDataAvailable] ready assms(4) by (auto simp: req_ok_def condition_holds_def)
  then have n: "n < N" using ring_state [OF ring(1)] by simp
  let ?buf = "take (nat len) user @ drop (nat len) sbuf"
  have nlen: "nat len \<le> length ?buf" using assms(11) by simp
  show ?thesis
  proof (rule mq_Send_ok [OF ring(1,2) n assms(9,10) nlen])
    fix s' s1
    assume send: "mq_Send ?buf len s = (Ret KErrNone, s')"
      and c: "CompleteRequestIfPending EDataAvailable KErrNone s1 = (Ret (), s')"
      and "\<exists>q. s1 = s\<lparr>queue := q\<rparr> \<and> (\<forall>m. request m q = request m (queue s) \<and> waiter m q = waiter m (queue s))"
    then obtain q where q0: "s1 = s\<lparr>queue := q\<rparr>"
      "\<forall>m. request m q = request m (queue s) \<and> waiter m q = waiter m (queue s)" by blast
    have q: "s1 = s\<lparr>queue := q\<rparr>" "request EDataAvailable q = Some r" "waiter EDataAvailable q = Some t"
      using q0(1) q0(2) [rule_format, of EDataAvailable] assms(3,4) by simp_all
    have "request EDataAvailable (queue s1) = Some r" "waiter EDataAvailable (queue s1) = Some t"
      "access s1 t \<noteq> 1" "accepts s1 t" using q assms(5,6) by simp_all
    note w = Complete_wakes [OF this(1) ready this(2-4) assms(8) c]
    have "MsgQueueSend sbuf user len s = (Ret KErrNone, s')"
      using MsgQueueSend_small [of len sbuf user s] assms(9,10) ring(3) send by simp
    then show ?thesis using w q(1) assms(7) by simp
  qed
qed

theorem message_wakes_waiting_thread_witness:
  "\<exists>s'. MsgQueueSend (replicate 256 0) [1, 2, 3] 3 ex_waiting = (Ret KErrNone, s') \<and>
    written (run_callback 0 s') = [(7, 0x400100, KErrNone)]"
  using message_wakes_waiting_thread [OF ex_waiting_reach, of 7 "TClientRequest_ctor\<lparr>iStatus := 0x400100\<rparr>" 3
      "[1, 2, 3]" "replicate 256 0"] ex_ready
  by (auto simp: ex_waiting_eq ex_new_queue ex_new_sys waiting_def)

text \<open>
  References on threads are accounted for: a call on the queue that returns leaves the
  references of the rest of the kernel unchanged, so that the queue closes a thread exactly as
  often as it opened it, and a thread is deleted only when no reference is left.
\<close>

theorem message_queue_references:
  assumes "mq_reach s" "\<forall>t. others s t \<ge> 0" "valid_event e" "mq_exec e s = (Ret u, s')"
    and "(\<exists>sbuf user len. e = ESend sbuf user len) \<or> (\<exists>len. e = EReceive len) \<or>
      (\<exists>n st cur. e = ENotify n st cur) \<or> (\<exists>n. e = ECancel n)"
  shows "others s' = others s \<and> (\<exists>d. deleted s' = deleted s @ d \<and> (\<forall>t\<in>set d. access s' t = 0))"
proof -
  have ok: "mq_ok s" "iMaxMsgLength (queue s) \<le> KMaxLength" using mq_reach_inv [OF assms(1)] by (simp_all add: mq_inv_def)
  have "refs_kept s s'"
    using assms(5)
  proof (elim disjE exE)
    fix sbuf user len assume e: "e = ESend sbuf user len"
    let ?buf = "if to_TUint len \<le> int KMaxLength then take (nat len) user @ drop (nat len) sbuf else sbuf"
    have "iMaxMsgLength (queue s) \<le> length ?buf"
      using handler_buffer [of len sbuf user] assms(3) ok(2) e by simp
    moreover obtain o1 where "mq_Send ?buf len s = (o1, s')"
      using assms(4) e by (auto simp: MsgQueueSend_def Let_def map_prod_def split: prod.splits)
    ultimately show ?thesis using mq_Send_refs [OF ok(1) assms(2)] by blast
  next
    fix len assume e: "e = EReceive len"
    obtain o1 s1 where r: "mq_Receive len s = (o1, s1)" by fastforce
    have "s' = s1" using assms(4) e r
      by (cases o1) (auto simp: MsgQueueReceive_def map_prod_def split: prod.splits)
    then show ?thesis using mq_Receive_refs [OF ok(1) assms(2) r] by simp
  next
    fix n st cur assume e: "e = ENotify n st cur"
    then have "RequestNotification n st cur s = (Ret u, s')"
      using assms(4) by (cases n) (simp_all add: NotifySpaceAvailable_def NotifyDataAvailable_def)
    then show ?thesis using RequestNotification_refs ok(1) assms(2) by blast
  next
    fix n assume e: "e = ECancel n"
    then have "CompleteRequestIfPending n KErrCancel s = (Ret u, s')"
      using assms(4) by (cases n) (simp_all add: CancelSpaceAvailable_def CancelDataAvailable_def)
    then show ?thesis by (rule Complete_after_refs [OF ok(1) assms(2)]) (intro exI [of _ "queue s"]; simp)
  qed
  then show ?thesis by (simp add: refs_kept_def)
qed

theorem message_queue_references_witness:
  "others ex_waiting = others ex_new \<and> access ex_waiting 7 = access ex_new 7 + 1"
proof -
  have "\<forall>t. others ex_new t \<ge> 0" by (simp add: others_def held_def held1_def ex_new_sys)
  moreover have "mq_exec (ENotify EDataAvailable 0x400100 7) ex_new = (Ret (), ex_waiting)"
    by (simp add: ex_notify ex_waiting_eq)
  ultimately have "others ex_waiting = others ex_new"
    using message_queue_references [OF ex_reach, of "ENotify EDataAvailable 0x400100 7" "()" ex_waiting] by simp
  then show ?thesis by (simp add: ex_waiting_eq ex_new_sys)
qed

text \<open>
  C16. A notification request whose status address the request object refuses leaks a reference: the
  caller is panicked with a reference on it that no request holds.
\<close>

theorem refused_notification_leaks_reference:
  assumes "mq_reach s" "\<not> waiting n (queue s)" "\<not> condition_holds n (queue s)"
    and "request n (queue s) = Some r" "fst (SetStatus r aStatus) \<noteq> KErrNone" "access s cur \<ge> 1"
  shows "\<exists>s'. RequestNotification n aStatus cur s = (PanicThread ''EMsgQueueRequestPending'', s') \<and>
    others s' cur = others s cur + 1"
proof -
  obtain c r' where st: "SetStatus r aStatus = (c, r')" by fastforce
  have "take_over n s = (Ret None, s)" using assms(2,4) by (simp add: take_over_def waiting_def)
  note RequestNotification_after [OF this assms(4) st, of cur]
  then show ?thesis
    using set_waiting_refs(1) [OF assms(2,4) st, of cur cur] assms(3,5,6) st by simp
qed

theorem refused_notification_leaks_reference_witness:
  "\<exists>s'. RequestNotification EDataAvailable 0x400101 7 ex_new = (PanicThread ''EMsgQueueRequestPending'', s') \<and>
    others s' 7 = others ex_new 7 + 1"
  using refused_notification_leaks_reference [OF ex_reach, of EDataAvailable TClientRequest_ctor "0x400101" 7]
  by (simp add: ex_new_queue ex_new_sys waiting_def condition_holds_def SetStatus_def)

text \<open>
  C17. A creation that fails before both requests exist faults the kernel: the destructor that
  cleans up tests the readiness of a request that was never allocated.
\<close>

theorem failed_creation_faults:
  assumes "aLength AND 3 = 0" "4 \<le> aLength" "aLength \<le> int KMaxLength" "0 < aSize" "alloc_object env"
    and "setname_ret env \<le> 0" "named env \<and> setname_ret env \<noteq> KErrNone \<or> \<not> alloc_data env \<or> \<not> alloc_space env"
  shows "fst (MsgQueueCreate env aSize aLength s) = Crash"
  using assms
  by (auto simp: MsgQueueCreate_def mq_Create_def mq_Destroy_def cancel_waiter_def blank_queue_def Let_def)

theorem failed_creation_faults_witness:
  "fst (MsgQueueCreate (ex_env\<lparr>alloc_data := False\<rparr>) 2 4 ex_sys) = Crash"
  using failed_creation_faults [of 4 2 "ex_env\<lparr>alloc_data := False\<rparr>" ex_sys] by (simp add: ex_env_def)

end
