(* ===== verification/Htab.thy ===== *)
theory Htab
  imports Prelude
begin

text \<open>
  The hash table of the user library, \<^verbatim>\<open>kernel/eka/euser/us_htab.cpp\<close> (class
  \<open>RHashTableBase\<close> and its iterator): open addressing with a second hash for the step, deleted
  markers, and a rehash in place that uses a generation bit to tell the entries already moved. The
  keys, their hash function and their identity relation are the client's. Loops that the code leaves
  only by \<open>break\<close> or \<open>return\<close> are partial functions: \<open>None\<close> means that
  they never end.
\<close>

section \<open>Elements\<close>

text \<open>
  An element holds the hash word, whose two low bits are the state, and the key and value; the
  payload of cleared memory is \<open>None\<close>.
\<close>

record ('k, 'v) SElement =
  iHash :: TUint32
  iData :: "('k \<times> 'v) option"

abbreviation (input) EEmpty :: TUint32 where "EEmpty \<equiv> 0"
abbreviation (input) EDeleted :: TUint32 where "EDeleted \<equiv> 1"
abbreviation (input) EGen0 :: TUint32 where "EGen0 \<equiv> 2"
abbreviation (input) EGen1 :: TUint32 where "EGen1 \<equiv> 3"
abbreviation (input) EStateMask :: TUint32 where "EStateMask \<equiv> 3"
abbreviation (input) EOccupiedMask :: TUint32 where "EOccupiedMask \<equiv> 2"

definition blank :: "('k, 'v) SElement" where
  "blank = \<lparr>iHash = 0, iData = None\<rparr>"

definition SetEmpty :: "('k, 'v) SElement \<Rightarrow> ('k, 'v) SElement" where
  "SetEmpty e = e\<lparr>iHash := EEmpty\<rparr>"

definition SetDeleted :: "('k, 'v) SElement \<Rightarrow> ('k, 'v) SElement" where
  "SetDeleted e = e\<lparr>iHash := EDeleted\<rparr>"

definition IsEmpty :: "('k, 'v) SElement \<Rightarrow> bool" where
  "IsEmpty e \<longleftrightarrow> iHash e AND EStateMask = EEmpty"

definition IsDeleted :: "('k, 'v) SElement \<Rightarrow> bool" where
  "IsDeleted e \<longleftrightarrow> iHash e AND EStateMask = EDeleted"

definition IsEmptyOrDeleted :: "('k, 'v) SElement \<Rightarrow> bool" where
  "IsEmptyOrDeleted e \<longleftrightarrow> iHash e AND EOccupiedMask = 0"

section \<open>The table\<close>

record ('k, 'v) RHashTableBase =
  iHashFunc :: "'k \<Rightarrow> TUint32"
  iIdFunc :: "'k \<Rightarrow> 'k \<Rightarrow> bool"
  iIndexBits :: nat
  iGeneration :: TUint32
  iElements :: "('k, 'v) SElement list option"
  iCount :: nat
  iEmptyCount :: nat
  iLowerThreshold :: nat
  iUpperThreshold :: nat
  iCleanThreshold :: nat
  iElementSize :: nat

abbreviation (input) KDefaultIndexBits :: nat where "KDefaultIndexBits \<equiv> 4"
abbreviation (input) KMaxIndexBits :: nat where "KMaxIndexBits \<equiv> 28"
abbreviation (input) KMaxTUint :: nat where "KMaxTUint \<equiv> 0xffffffff"

definition SetThresholds :: "('k, 'v) RHashTableBase \<Rightarrow> ('k, 'v) RHashTableBase" where
  "SetThresholds t =
     (let mx = 2 ^ iIndexBits t
      in t\<lparr>iUpperThreshold := (if iIndexBits t = KMaxIndexBits then KMaxTUint else mx div 2 + mx div 4),
           iLowerThreshold := (if iIndexBits t = KDefaultIndexBits then 0 else mx div 4),
           iCleanThreshold := mx div 8\<rparr>)"

text \<open>The constructor, past its assertions.\<close>

definition RHashTableBase_ctor ::
    "('k \<Rightarrow> TUint32) \<Rightarrow> ('k \<Rightarrow> 'k \<Rightarrow> bool) \<Rightarrow> nat \<Rightarrow> ('k, 'v) RHashTableBase" where
  "RHashTableBase_ctor aHash aId aElementSize =
     SetThresholds \<lparr>iHashFunc = aHash, iIdFunc = aId, iIndexBits = KDefaultIndexBits, iGeneration = EGen0,
       iElements = None, iCount = 0, iEmptyCount = 0, iLowerThreshold = 0, iUpperThreshold = 0,
       iCleanThreshold = 0, iElementSize = aElementSize\<rparr>"

definition ht_Close :: "('k, 'v) RHashTableBase \<Rightarrow> ('k, 'v) RHashTableBase" where
  "ht_Close t = RHashTableBase_ctor (iHashFunc t) (iIdFunc t) (iElementSize t)"

text \<open>
  Memory: a request of a number of bytes, a 32-bit number, gives the elements that fit in it. A
  request of \<open>KMaxTInt/2\<close> bytes or more panics, as \<open>User::AllocZ\<close> and
  \<open>User::ReAlloc\<close> document; which of the others succeed is a parameter \<open>heap\<close>.
  Giving memory back by reallocating to a smaller size always succeeds.
\<close>

definition byte_size :: "nat \<Rightarrow> ('k, 'v) RHashTableBase \<Rightarrow> nat" where
  "byte_size n t = (n * iElementSize t) mod 2 ^ 32"

definition elements_of :: "nat \<Rightarrow> ('k, 'v) RHashTableBase \<Rightarrow> nat" where
  "elements_of n t = byte_size n t div iElementSize t"

definition request :: "(nat \<Rightarrow> bool) \<Rightarrow> nat \<Rightarrow> fault + bool" where
  "request heap n = (if n < 0x3fffffff then Inr (heap n) else Inl (Panic ''ETHeapBadAllocatedCellSize''))"

section \<open>Probing\<close>

definition key_matches :: "('k \<Rightarrow> 'k \<Rightarrow> bool) \<Rightarrow> 'k \<Rightarrow> ('k, 'v) SElement \<Rightarrow> bool" where
  "key_matches idf aKey e = (case iData e of None \<Rightarrow> False | Some (k, v) \<Rightarrow> idf aKey k)"

definition index_mask :: "nat \<Rightarrow> TUint32" where
  "index_mask bits = push_bit bits 1 - 1"

definition home :: "nat \<Rightarrow> TUint32 \<Rightarrow> TUint32" where
  "home bits hash = drop_bit (32 - bits) hash"

definition probe_step :: "nat \<Rightarrow> TUint32 \<Rightarrow> TUint32" where
  "probe_step bits hash = drop_bit 1 hash AND index_mask bits"

definition with_state :: "TUint32 \<Rightarrow> TUint32 \<Rightarrow> TUint32" where
  "with_state hash gen = (hash AND NOT EStateMask) OR gen"

partial_function (option) find_loop ::
    "('k, 'v) SElement list \<Rightarrow> ('k \<Rightarrow> 'k \<Rightarrow> bool) \<Rightarrow> 'k \<Rightarrow> TUint32 \<Rightarrow> TUint32 \<Rightarrow> TUint32 \<Rightarrow> TUint32 \<Rightarrow>
     (fault + nat option) option" where
  "find_loop es idf aKey hash step msk ix =
     (if length es \<le> unat ix then Some (Inl BadMemory)
      else if iHash (es ! unat ix) = hash \<and> key_matches idf aKey (es ! unat ix) then Some (Inr (Some (unat ix)))
      else if IsEmpty (es ! unat ix) then Some (Inr None)
      else find_loop es idf aKey hash step msk ((ix + step) AND msk))"

text \<open>The element found, as an index; \<open>Find\<close> returns a pointer into it.\<close>

definition ht_Find :: "('k, 'v) RHashTableBase \<Rightarrow> 'k \<Rightarrow> (fault + nat option) option" where
  "ht_Find t aKey =
     (case iElements t of
        None \<Rightarrow> Some (Inr None)
      | Some es \<Rightarrow>
          let h = iHashFunc t aKey; hash = with_state h (iGeneration t)
          in find_loop es (iIdFunc t) aKey hash (probe_step (iIndexBits t) hash) (index_mask (iIndexBits t))
               (home (iIndexBits t) h))"

text \<open>The search of \<open>Insert\<close>: an element with the key, or the slot to use.\<close>

datatype slot = Duplicate nat | Reuse nat | Fresh nat

partial_function (option) insert_loop ::
    "('k, 'v) SElement list \<Rightarrow> ('k \<Rightarrow> 'k \<Rightarrow> bool) \<Rightarrow> 'k \<Rightarrow> TUint32 \<Rightarrow> TUint32 \<Rightarrow> TUint32 \<Rightarrow> nat option \<Rightarrow> TUint32 \<Rightarrow>
     (fault + slot) option" where
  "insert_loop es idf aKey hash step msk d ix =
     (if length es \<le> unat ix then Some (Inl BadMemory)
      else if IsEmpty (es ! unat ix) then Some (Inr (case d of None \<Rightarrow> Fresh (unat ix) | Some i \<Rightarrow> Reuse i))
      else if IsDeleted (es ! unat ix)
      then insert_loop es idf aKey hash step msk (case d of None \<Rightarrow> Some (unat ix) | Some i \<Rightarrow> Some i) ((ix + step) AND msk)
      else if iHash (es ! unat ix) = hash \<and> key_matches idf aKey (es ! unat ix) then Some (Inr (Duplicate (unat ix)))
      else insert_loop es idf aKey hash step msk d ((ix + step) AND msk))"

section \<open>Rehashing in place\<close>

text \<open>
  One entry at index \<open>ix\<close> finds its place, from position \<open>pos\<close> on: the new elements,
  and whether the entry now at \<open>ix\<close> is to be processed again (\<open>--ix\<close>).
\<close>

partial_function (option) reform_probe ::
    "nat \<Rightarrow> TUint32 \<Rightarrow> TUint32 \<Rightarrow> nat \<Rightarrow> ('k, 'v) SElement list \<Rightarrow> TUint32 \<Rightarrow>
     (fault + ('k, 'v) SElement list \<times> bool) option" where
  "reform_probe bits gen step ix es pos =
     (if length es \<le> unat pos then Some (Inl BadMemory)
      else
        let e = es ! ix; d = es ! unat pos; next = (pos + step) AND index_mask bits
        in if IsEmptyOrDeleted d
           then Some (Inr (es[unat pos := e\<lparr>iHash := with_state (iHash e) gen\<rparr>, ix := SetEmpty e], False))
           else if iHash d AND EStateMask \<noteq> gen
           then if unat pos = ix then Some (Inr (es[ix := e\<lparr>iHash := iHash e XOR 1\<rparr>], False))
                else if home bits (iHash d) = pos
                then reform_probe bits gen step ix (es[unat pos := d\<lparr>iHash := iHash d XOR 1\<rparr>]) next
                else Some (Inr (es[unat pos := e\<lparr>iHash := iHash e XOR 1\<rparr>, ix := d], True))
           else reform_probe bits gen step ix es next)"

definition reform_entry ::
    "nat \<Rightarrow> TUint32 \<Rightarrow> nat \<Rightarrow> ('k, 'v) SElement list \<Rightarrow> (fault + ('k, 'v) SElement list \<times> bool) option" where
  "reform_entry bits gen ix es =
     (if length es \<le> ix then Some (Inl BadMemory)
      else
        let e = es ! ix
        in if IsEmpty e then Some (Inr (es, False))
           else if IsDeleted e then Some (Inr (es[ix := SetEmpty e], False))
           else if iHash e AND EStateMask = gen then Some (Inr (es, False))
           else if unat (home bits (iHash e)) = ix then Some (Inr (es[ix := e\<lparr>iHash := iHash e XOR 1\<rparr>], False))
           else reform_probe bits gen (probe_step bits (iHash e)) ix es (home bits (iHash e)))"

partial_function (option) reform_loop ::
    "nat \<Rightarrow> TUint32 \<Rightarrow> nat \<Rightarrow> ('k, 'v) SElement list \<Rightarrow> nat \<Rightarrow> (fault + ('k, 'v) SElement list) option" where
  "reform_loop bits gen mx es ix =
     (if ix < mx
      then Option.bind (reform_entry bits gen ix es) (\<lambda>r. case r of
             Inl f \<Rightarrow> Some (Inl f)
           | Inr (es', again) \<Rightarrow> reform_loop bits gen mx es' (if again then ix else Suc ix))
      else Some (Inr es))"

definition ReformTable :: "nat \<Rightarrow> ('k, 'v) RHashTableBase \<Rightarrow> (fault + ('k, 'v) RHashTableBase) option" where
  "ReformTable aNewIndexBits t =
     (case iElements t of
        None \<Rightarrow> Some (Inr t)
      | Some es \<Rightarrow>
          let gen = iGeneration t XOR 1
          in map_option (map_sum id (\<lambda>es'.
               SetThresholds (t\<lparr>iGeneration := gen, iElements := Some es', iIndexBits := aNewIndexBits,
                 iEmptyCount := 2 ^ aNewIndexBits - iCount t\<rparr>)))
             (reform_loop aNewIndexBits gen (2 ^ iIndexBits t) es 0))"

definition ShrinkTable :: "('k, 'v) RHashTableBase \<Rightarrow> (fault + ('k, 'v) RHashTableBase) option" where
  "ShrinkTable t =
     map_option (map_sum id (\<lambda>t'. t'\<lparr>iElements := map_option (take (elements_of (2 ^ iIndexBits t') t')) (iElements t')\<rparr>))
       (ReformTable (iIndexBits t - 1) t)"

definition ExpandTable ::
    "(nat \<Rightarrow> bool) \<Rightarrow> nat \<Rightarrow> ('k, 'v) RHashTableBase \<Rightarrow> (fault + int \<times> ('k, 'v) RHashTableBase) option" where
  "ExpandTable heap aNewIndexBits t =
     (let newmax = 2 ^ aNewIndexBits
      in case request heap (byte_size newmax t) of
           Inl f \<Rightarrow> Some (Inl f)
         | Inr False \<Rightarrow> Some (Inr (KErrNoMemory, t))
         | Inr True \<Rightarrow>
             (case iElements t of
                None \<Rightarrow>
                  Some (Inr (KErrNone, SetThresholds (t\<lparr>iElements := Some (replicate (elements_of newmax t) blank),
                    iIndexBits := aNewIndexBits, iEmptyCount := newmax\<rparr>)))
              | Some es \<Rightarrow>
                  map_option (map_sum id (Pair KErrNone)) (ReformTable aNewIndexBits
                    (t\<lparr>iElements := Some (es @ replicate (elements_of newmax t - length es) blank)\<rparr>))))"

section \<open>Operations\<close>

text \<open>\<open>Insert\<close> makes room first: the error code kept in \<open>r\<close>, and the table.\<close>

definition make_room :: "(nat \<Rightarrow> bool) \<Rightarrow> ('k, 'v) RHashTableBase \<Rightarrow> (fault + int \<times> ('k, 'v) RHashTableBase) option" where
  "make_room heap t =
     (if iCount t > iUpperThreshold t
      then map_option (map_sum id (\<lambda>(r, t'). (if iEmptyCount t' > 1 then KErrNone else r, t')))
             (ExpandTable heap (iIndexBits t + 1) t)
      else if iEmptyCount t < iCleanThreshold t
      then map_option (map_sum id (Pair KErrNone)) (ReformTable (iIndexBits t) t)
      else Some (Inr (KErrNone, t)))"

text \<open>The rest of \<open>Insert\<close>: the error code, the index of the element, and the table.\<close>

definition insert_at ::
    "int \<Rightarrow> 'k \<Rightarrow> ('k, 'v) RHashTableBase \<Rightarrow> (fault + int \<times> nat option \<times> ('k, 'v) RHashTableBase) option" where
  "insert_at r aKey t =
     (case iElements t of
        None \<Rightarrow> Some (Inl BadMemory)
      | Some es \<Rightarrow>
          let h = iHashFunc t aKey; hash = with_state h (iGeneration t);
              use = (\<lambda>i. iElements_update (\<lambda>_. Some (es[i := (es ! i)\<lparr>iHash := hash\<rparr>])))
          in map_option (map_sum id (\<lambda>s. case s of
                 Duplicate i \<Rightarrow> (KErrNone, Some i, t)
               | Reuse i \<Rightarrow> (KErrNone, Some i, use i (t\<lparr>iCount := iCount t + 1\<rparr>))
               | Fresh i \<Rightarrow>
                   if r \<noteq> KErrNone then (r, None, t)
                   else (KErrNone, Some i, use i (t\<lparr>iCount := iCount t + 1, iEmptyCount := iEmptyCount t - 1\<rparr>))))
             (insert_loop es (iIdFunc t) aKey hash (probe_step (iIndexBits t) hash) (index_mask (iIndexBits t)) None
               (home (iIndexBits t) h)))"

definition ht_Insert ::
    "(nat \<Rightarrow> bool) \<Rightarrow> 'k \<Rightarrow> ('k, 'v) RHashTableBase \<Rightarrow> (fault + int \<times> nat option \<times> ('k, 'v) RHashTableBase) option" where
  "ht_Insert heap aKey t =
     (case iElements t of
        None \<Rightarrow>
          let mx = 2 ^ iIndexBits t
          in (case request heap (byte_size mx t) of
                Inl f \<Rightarrow> Some (Inl f)
              | Inr False \<Rightarrow> Some (Inr (KErrNoMemory, None, t))
              | Inr True \<Rightarrow>
                  insert_at KErrNone aKey (t\<lparr>iElements := Some (replicate (elements_of mx t) blank), iEmptyCount := mx\<rparr>))
      | Some es \<Rightarrow>
          Option.bind (make_room heap t) (\<lambda>x. case x of
            Inl f \<Rightarrow> Some (Inl f)
          | Inr (r, t') \<Rightarrow> insert_at r aKey t'))"

text \<open>\<open>PtrInsert\<close> and \<open>ValueInsert\<close> then store the key and the value.\<close>

definition store_data :: "nat \<Rightarrow> 'k \<Rightarrow> 'v \<Rightarrow> ('k, 'v) RHashTableBase \<Rightarrow> ('k, 'v) RHashTableBase" where
  "store_data i aKey aValue t =
     t\<lparr>iElements := map_option (\<lambda>es. es[i := (es ! i)\<lparr>iData := Some (aKey, aValue)\<rparr>]) (iElements t)\<rparr>"

definition ht_PtrInsert ::
    "(nat \<Rightarrow> bool) \<Rightarrow> 'k \<Rightarrow> 'v \<Rightarrow> ('k, 'v) RHashTableBase \<Rightarrow> (fault + int \<times> ('k, 'v) RHashTableBase) option" where
  "ht_PtrInsert heap aKey aValue t =
     map_option (map_sum id (\<lambda>(r, i, t'). (r, case i of None \<Rightarrow> t' | Some i \<Rightarrow> store_data i aKey aValue t')))
       (ht_Insert heap aKey t)"

definition ht_ValueInsert ::
    "(nat \<Rightarrow> bool) \<Rightarrow> 'k \<Rightarrow> 'v \<Rightarrow> ('k, 'v) RHashTableBase \<Rightarrow> (fault + int \<times> ('k, 'v) RHashTableBase) option" where
  "ht_ValueInsert heap aKey aValue t = ht_PtrInsert heap aKey aValue t"

definition ht_Remove :: "'k \<Rightarrow> ('k, 'v) RHashTableBase \<Rightarrow> (fault + int \<times> ('k, 'v) RHashTableBase) option" where
  "ht_Remove aKey t =
     Option.bind (ht_Find t aKey) (\<lambda>x. case x of
       Inl f \<Rightarrow> Some (Inl f)
     | Inr None \<Rightarrow> Some (Inr (KErrNotFound, t))
     | Inr (Some i) \<Rightarrow>
         let t1 = t\<lparr>iElements := map_option (\<lambda>es. es[i := SetDeleted (es ! i)]) (iElements t), iCount := iCount t - 1\<rparr>
         in if iCount t1 = 0 then Some (Inr (KErrNone, ht_Close t1))
            else if iCount t1 < iLowerThreshold t1
            then map_option (map_sum id (Pair KErrNone)) (ShrinkTable t1)
            else Some (Inr (KErrNone, t1)))"

definition ht_Count :: "('k, 'v) RHashTableBase \<Rightarrow> nat" where
  "ht_Count t = iCount t"

function reserve_bits :: "nat \<Rightarrow> nat \<Rightarrow> nat \<Rightarrow> nat" where
  "reserve_bits aCount grow_threshold bits =
     (if 0 < grow_threshold \<and> grow_threshold < aCount
      then reserve_bits aCount (2 * grow_threshold) (Suc bits) else bits)"
  by auto
termination by (relation "measure (\<lambda>(c, g, b). c - g)") auto

declare reserve_bits.simps [simp del]

definition ht_Reserve ::
    "(nat \<Rightarrow> bool) \<Rightarrow> nat \<Rightarrow> ('k, 'v) RHashTableBase \<Rightarrow> (fault + int \<times> ('k, 'v) RHashTableBase) option" where
  "ht_Reserve heap aCount t =
     (if aCount \<ge> 0x40000000 then Some (Inl (Panic ''EHashTableBadReserveCount''))
      else
        let new_ixb = reserve_bits aCount (iUpperThreshold t) (iIndexBits t)
        in if new_ixb > iIndexBits t \<or> iElements t = None then ExpandTable heap new_ixb t
           else Some (Inr (KErrNone, t)))"

section \<open>Iteration\<close>

text \<open>
  The iterator is its index, -1 before the first element. \<open>Next\<close> returns the index of the next
  occupied element.
\<close>

function next_from :: "('k, 'v) SElement list \<Rightarrow> nat \<Rightarrow> nat \<Rightarrow> nat" where
  "next_from es mx i = (if i < mx \<and> IsEmptyOrDeleted (es ! i) then next_from es mx (Suc i) else i)"
  by auto
termination by (relation "measure (\<lambda>(es, mx, i). mx - i)") auto

declare next_from.simps [simp del]

definition iter_Next :: "('k, 'v) RHashTableBase \<Rightarrow> int \<Rightarrow> nat option \<times> int" where
  "iter_Next t iIndex =
     (case iElements t of
        None \<Rightarrow> (None, iIndex)
      | Some es \<Rightarrow>
          let mx = 2 ^ iIndexBits t; i = (if iIndex < int mx then iIndex + 1 else iIndex);
              j = next_from es mx (nat i)
          in (if j < mx then Some j else None, int j))"

definition iter_Current :: "('k, 'v) RHashTableBase \<Rightarrow> int \<Rightarrow> nat option" where
  "iter_Current t iIndex =
     (if iElements t = None \<or> iIndex < 0 \<or> iIndex \<ge> 2 ^ iIndexBits t then None else Some (nat iIndex))"

definition iter_RemoveCurrent :: "('k, 'v) RHashTableBase \<Rightarrow> int \<Rightarrow> ('k, 'v) RHashTableBase" where
  "iter_RemoveCurrent t iIndex =
     (case iElements t of
        None \<Rightarrow> t
      | Some es \<Rightarrow>
          if iIndex < 0 \<or> iIndex \<ge> 2 ^ iIndexBits t then t
          else
            let i = nat iIndex; t1 = t\<lparr>iElements := Some (es[i := SetDeleted (es ! i)]), iCount := iCount t - 1\<rparr>
            in if iCount t1 = 0
               then t1\<lparr>iElements := Some (replicate (2 ^ iIndexBits t) blank), iEmptyCount := 2 ^ iIndexBits t,
                      iGeneration := EGen0\<rparr>
               else t1)"

end
