(* ===== verification/Htab_Probe.thy ===== *)
theory Htab_Probe
  imports Htab
begin

text \<open>
  The probe sequences of the hash table: the home position and the step are those of the upper 30
  bits of the hash, the step is odd, and so a sequence visits every slot of the table once before it
  repeats.
\<close>

section \<open>States\<close>

lemma low_bits_cases:
  fixes w :: TUint32
  obtains "w AND 3 = 0" "w AND 2 = 0" | "w AND 3 = 1" "w AND 2 = 0" | "w AND 3 = 2" "w AND 2 = 2" | "w AND 3 = 3" "w AND 2 = 2"
proof -
  have two: "w AND 2 = (w AND 3) AND 2" by (simp add: and.assoc)
  have "w AND 3 = take_bit 2 w" by (simp add: take_bit_eq_mask mask_eq_exp_minus_1)
  then have "unat (w AND 3) < 4" using unsigned_take_bit_eq [of 2 w, where 'a = nat] by (simp add: take_bit_eq_mod)
  then have "unat (w AND 3) \<in> {0, 1, 2, 3}" by auto
  then have "w AND 3 \<in> {0, 1, 2, 3}" by (auto simp: word_unat_eq_iff)
  then show ?thesis using that two by auto
qed

definition occupied :: "('k, 'v) SElement \<Rightarrow> bool" where
  "occupied e \<longleftrightarrow> iHash e AND 2 \<noteq> 0"

definition is_gen :: "TUint32 \<Rightarrow> bool" where
  "is_gen g \<longleftrightarrow> g = EGen0 \<or> g = EGen1"

lemma states:
  "IsEmptyOrDeleted e \<longleftrightarrow> \<not> occupied e"
  "IsEmpty e \<Longrightarrow> \<not> occupied e" "IsDeleted e \<Longrightarrow> \<not> occupied e" "\<not> (IsEmpty e \<and> IsDeleted e)"
  "\<not> occupied e \<Longrightarrow> IsEmpty e \<or> IsDeleted e"
  "occupied e \<longleftrightarrow> iHash e AND 3 = EGen0 \<or> iHash e AND 3 = EGen1"
  by (cases "iHash e" rule: low_bits_cases; simp add: IsEmptyOrDeleted_def IsEmpty_def IsDeleted_def occupied_def)+

lemma state_of_gen: "is_gen g \<Longrightarrow> iHash e AND 3 = g \<Longrightarrow> occupied e"
  using states(6) [of e] by (auto simp: is_gen_def)

lemma other_gen: "is_gen g \<Longrightarrow> is_gen (g XOR 1)" "is_gen g \<Longrightarrow> g XOR 1 \<noteq> g"
  by (auto simp: is_gen_def)

lemma occupied_gens: "is_gen g \<Longrightarrow> occupied e \<Longrightarrow> iHash e AND 3 \<noteq> g \<Longrightarrow> iHash e AND 3 = g XOR 1"
  using states(6) [of e] by (auto simp: is_gen_def)

lemma set_states [simp]:
  "IsEmpty (SetEmpty e)" "\<not> occupied (SetEmpty e)" "\<not> occupied (SetDeleted e)" "IsDeleted (SetDeleted e)"
  "\<not> IsEmpty (SetDeleted e)" "IsEmpty blank" "\<not> occupied blank"
  by (simp_all add: SetEmpty_def SetDeleted_def IsEmpty_def IsDeleted_def occupied_def blank_def)

text \<open>The hash without its state, and with one.\<close>

definition canon :: "TUint32 \<Rightarrow> TUint32" where
  "canon w = w AND NOT 3"

lemma with_state_facts:
  assumes "is_gen g"
  shows "with_state w g AND 3 = g" "canon (with_state w g) = canon w" "with_state w g AND 2 \<noteq> 0"
proof -
  have g: "g AND 3 = g" "g AND NOT 3 = 0" "g AND 2 = 2" using assms by (auto simp: is_gen_def)
  have z: "(w AND NOT 3) AND 3 = 0" "(w AND NOT 3) AND 2 = 0" by (simp_all add: and.assoc)
  show "with_state w g AND 3 = g" using g z by (simp add: with_state_def bit.conj_disj_distrib2)
  show "canon (with_state w g) = canon w" using g by (simp add: with_state_def canon_def bit.conj_disj_distrib2 and.assoc)
  show "with_state w g AND 2 \<noteq> 0" using g z by (simp add: with_state_def bit.conj_disj_distrib2)
qed

lemma split_state: "w = canon w OR (w AND 3)" for w :: TUint32
  by (simp add: canon_def bit.conj_disj_distrib [symmetric] or.commute)

lemma with_state_canon: "with_state w g = canon w OR g"
  by (simp add: with_state_def canon_def)

lemma toggle:
  assumes "is_gen g" "w AND 3 = g XOR 1"
  shows "w XOR 1 = with_state w g"
proof (rule bit_word_eqI)
  fix n assume "n < LENGTH(32)"
  have b: "bit w n = bit (canon w OR (g XOR 1)) n" using split_state [of w] assms(2) by simp
  have c: "n < 2 \<Longrightarrow> \<not> bit (canon w) n" by (cases "n = 0"; cases "n = 1") (auto simp: canon_def bit_simps)
  have g: "g = 2 \<or> g = 3" using assms(1) by (simp add: is_gen_def)
  show "bit (w XOR 1) n \<longleftrightarrow> bit (with_state w g) n"
    using b c g by (cases "n = 0"; cases "n = 1") (auto simp: with_state_canon bit_simps)
qed

lemma same_gen_with_state: "w AND 3 = g \<Longrightarrow> with_state w g = w"
  using split_state [of w] by (simp add: with_state_canon)

section \<open>Probe sequences\<close>

definition nstep :: "nat \<Rightarrow> TUint32 \<Rightarrow> nat" where
  "nstep b w = unat (probe_step b w)"

definition probe :: "nat \<Rightarrow> TUint32 \<Rightarrow> nat \<Rightarrow> nat" where
  "probe b w k = (unat (home b w) + k * nstep b w) mod 2 ^ b"

lemma index_mask_eq: "index_mask b = mask b"
  by (simp add: index_mask_def mask_eq_exp_minus_1 push_bit_eq_mult)

lemma unat_and_mask:
  assumes "b \<le> 32"
  shows "unat ((w :: TUint32) AND index_mask b) = unat w mod 2 ^ b"
  using unsigned_take_bit_eq [of b w, where 'a = nat] by (simp add: index_mask_eq take_bit_eq_mask [symmetric] take_bit_eq_mod)

lemma home_bound:
  assumes "b \<le> 32"
  shows "unat (home b w) < 2 ^ b"
proof -
  have "unat (home b w) = unat w div 2 ^ (32 - b)" 
    unfolding home_def unat_drop_bit_eq by (rule drop_bit_eq_div)
  moreover have "unat w < 2 ^ b * 2 ^ (32 - b)"
    using unsigned_less [of w, where 'a = nat] assms by (simp add: power_add [symmetric])
  ultimately show ?thesis by (simp add: less_mult_imp_div_less)
qed

lemma probe_0: "b \<le> 32 \<Longrightarrow> probe b w 0 = unat (home b w)"
  using home_bound by (simp add: probe_def)

lemma probe_bound [simp]: "probe b w k < 2 ^ b"
  by (simp add: probe_def)

lemma probe_Suc:
  assumes "b \<le> 32" "unat ix = probe b w k"
  shows "unat ((ix + probe_step b w) AND index_mask b) = probe b w (Suc k)"
proof -
  have "unat (ix + probe_step b w) mod 2 ^ b = (unat ix + nstep b w) mod 2 ^ b"
  proof -
    have "(2 :: nat) ^ b dvd 2 ^ 32" using assms(1) by (rule le_imp_power_dvd)
    then show ?thesis by (simp add: unat_word_ariths nstep_def mod_mod_cancel)
  qed
  also have "\<dots> = probe b w (Suc k)" using assms(2) by (simp add: probe_def mod_simps ac_simps)
  finally show ?thesis using unat_and_mask [OF assms(1)] by simp
qed

text \<open>The state does not matter for the sequence, once the entry is occupied.\<close>

lemma bit_canon: "bit (canon w) n \<longleftrightarrow> bit w n \<and> 2 \<le> n" for w :: TUint32
proof (cases "n < 2")
  case True
  then have "n = 0 \<or> n = 1" by auto
  then show ?thesis by (auto simp: canon_def bit_simps)
next
  case False
  have "\<not> bit (3 :: TUint32) n"
  proof
    assume "bit (3 :: TUint32) n"
    then have "bit (mask 2 :: TUint32) n" by (simp add: mask_eq_exp_minus_1)
    then show False using False by (simp add: bit_mask_iff)
  qed
  then show ?thesis using False bit_imp_le_length [of w n] by (auto simp: canon_def bit_simps)
qed

lemma occupied_bit: "w AND 2 \<noteq> 0 \<longleftrightarrow> bit (w :: TUint32) 1"
proof -
  have "w AND 2 = w AND push_bit 1 1" by simp
  also have "\<dots> \<noteq> 0 \<longleftrightarrow> bit w 1" by (simp add: bit_iff_and_push_bit_not_eq_0)
  finally show ?thesis .
qed

lemma canon_eq_bits: "canon w = canon w' \<Longrightarrow> 2 \<le> n \<Longrightarrow> bit w n = bit w' n"
  using bit_canon [of w n] bit_canon [of w' n] by simp

lemma home_canon:
  assumes "canon w = canon w'" "b \<le> 28"
  shows "home b w = home b w'"
  by (rule bit_word_eqI) (use assms canon_eq_bits [OF assms(1)] in \<open>simp add: home_def bit_simps\<close>)

lemma step_canon:
  assumes "canon w = canon w'" "w AND 2 \<noteq> 0" "w' AND 2 \<noteq> 0"
  shows "probe_step b w = probe_step b w'"
proof -
  have "bit w (Suc n) = bit w' (Suc n)" for n
    using assms canon_eq_bits [OF assms(1), of "Suc n"] by (cases n) (simp_all add: occupied_bit)
  then have "drop_bit 1 w = drop_bit 1 w'" by (intro bit_word_eqI) (simp add: bit_simps)
  then show ?thesis by (simp add: probe_step_def)
qed

lemma probe_canon:
  assumes "canon w = canon w'" "w AND 2 \<noteq> 0" "w' AND 2 \<noteq> 0" "b \<le> 28"
  shows "probe b w k = probe b w' k"
  using home_canon [OF assms(1,4)] step_canon [OF assms(1-3)] by (simp add: probe_def nstep_def)

text \<open>The step is odd, and so the first \<open>2 ^ b\<close> positions are all different.\<close>

lemma nstep_odd:
  assumes "w AND 2 \<noteq> 0" "1 \<le> b" "b \<le> 32"
  shows "odd (nstep b w)"
proof -
  have "bit (probe_step b w) 0"
    using assms by (simp add: probe_step_def index_mask_eq bit_simps occupied_bit)
  then show ?thesis by (simp add: nstep_def bit_0 [symmetric] bit_unsigned_iff)
qed

lemma probe_inj:
  assumes "w AND 2 \<noteq> 0" "1 \<le> b" "b \<le> 32" "j < 2 ^ b" "k < 2 ^ b" "probe b w j = probe b w k"
  shows "j = k"
  using assms(4-6)
proof (induction j k rule: linorder_wlog)
  case (le j k)
  let ?h = "unat (home b w)" and ?s = "nstep b w"
  have "(?h + k * ?s) mod 2 ^ b = (?h + j * ?s) mod 2 ^ b" using le by (simp add: probe_def)
  then have "2 ^ b dvd (?h + k * ?s) - (?h + j * ?s)"
    using le(1) by (metis mod_eq_dvd_iff_nat add_le_cancel_left mult_le_mono1)
  then have "2 ^ b dvd (k - j) * ?s" by (simp add: diff_mult_distrib)
  moreover have "coprime (2 ^ b) ?s" using nstep_odd [OF assms(1-3)] by simp
  ultimately have "2 ^ b dvd k - j" by (metis coprime_dvd_mult_left_iff)
  moreover have "k - j < 2 ^ b" using le by simp
  ultimately have "k - j = 0" using nat_dvd_not_less by (metis gr0I)
  then show ?case using le by simp
next
  case (sym j k)
  then show ?case by simp
qed

lemma probe_covers:
  assumes "w AND 2 \<noteq> 0" "1 \<le> b" "b \<le> 32" "i < 2 ^ b"
  shows "\<exists>k<2 ^ b. probe b w k = i"
proof -
  have "inj_on (probe b w) {..<2 ^ b}" using probe_inj [OF assms(1-3)] by (auto simp: inj_on_def)
  then have "probe b w ` {..<2 ^ b} = {..<2 ^ b}" by (intro endo_inj_surj) auto
  then have "i \<in> probe b w ` {..<2 ^ b}" using assms(4) by simp
  then show ?thesis by auto
qed

end
