(* ===== verification/Htab_Reform.thy ===== *)
theory Htab_Reform
  imports Htab_Probe "HOL-Library.Multiset"
begin

text \<open>
  Rehashing in place: \<open>ReformTable\<close> ends, keeps every entry, and leaves each of them where its
  probe sequence finds it, with no deleted marker in the way, whether the table grows, shrinks or keeps
  its size.
\<close>

section \<open>Entries\<close>

definition ent :: "('k, 'v) SElement \<Rightarrow> (TUint32 \<times> ('k \<times> 'v) option) multiset" where
  "ent e = (if occupied e then {#(canon (iHash e), iData e)#} else {#})"

fun entries :: "('k, 'v) SElement list \<Rightarrow> (TUint32 \<times> ('k \<times> 'v) option) multiset" where
  "entries [] = {#}"
| "entries (e # es) = ent e + entries es"

lemma entries_append [simp]: "entries (es @ es') = entries es + entries es'"
  by (induction es) (simp_all add: ac_simps)

lemma entries_unoccupied: "\<forall>e \<in> set es. \<not> occupied e \<Longrightarrow> entries es = {#}"
  by (induction es) (simp_all add: ent_def)

lemma entries_update: "i < length es \<Longrightarrow> entries (es[i := v]) + ent (es ! i) = entries es + ent v"
  by (induction es arbitrary: i) (auto simp: nth_Cons ac_simps split: nat.split)

lemma size_entries: "size (entries es) = card {i. i < length es \<and> occupied (es ! i)}"
proof -
  have "size (entries es) = length (filter occupied es)" by (induction es) (auto simp: ent_def)
  then show ?thesis by (simp add: length_filter_conv_card)
qed

definition processed :: "TUint32 \<Rightarrow> ('k, 'v) SElement \<Rightarrow> bool" where
  "processed g e \<longleftrightarrow> iHash e AND 3 = g"

definition pending :: "TUint32 \<Rightarrow> ('k, 'v) SElement \<Rightarrow> bool" where
  "pending g e \<longleftrightarrow> occupied e \<and> \<not> processed g e"

definition npending :: "TUint32 \<Rightarrow> ('k, 'v) SElement list \<Rightarrow> nat" where
  "npending g es = length (filter (pending g) es)"

lemma npending_update:
  "i < length es \<Longrightarrow> npending g (es[i := v]) + (if pending g (es ! i) then 1 else 0) =
    npending g es + (if pending g v then 1 else 0)"
proof (induction es arbitrary: i)
  case (Cons e es)
  show ?case using Cons.IH [of "i - 1"] Cons.prems by (cases i) (simp_all add: npending_def)
qed simp

text \<open>Marking a pending entry as processed.\<close>

lemma mark:
  assumes "is_gen g" "pending g e"
  defines "e' \<equiv> e\<lparr>iHash := with_state (iHash e) g\<rparr>"
  shows "e\<lparr>iHash := iHash e XOR 1\<rparr> = e'" "processed g e'" "occupied e'" "ent e' = ent e"
    "b \<le> 28 \<Longrightarrow> probe b (iHash e') = probe b (iHash e)" "\<not> pending g e'"
proof -
  have low: "iHash e AND 3 = g XOR 1" using assms occupied_gens [of g e] by (auto simp: pending_def processed_def)
  note w = with_state_facts [OF assms(1), of "iHash e"]
  show "e\<lparr>iHash := iHash e XOR 1\<rparr> = e'" using toggle [OF assms(1) low] by (simp add: e'_def)
  show "processed g e'" "occupied e'" "ent e' = ent e" "\<not> pending g e'"
    using w assms(2) by (simp_all add: e'_def processed_def occupied_def ent_def pending_def)
  show "probe b (iHash e') = probe b (iHash e)" if "b \<le> 28"
  proof
    fix k
    show "probe b (iHash e') k = probe b (iHash e) k"
      using w assms(2) that probe_canon [of "iHash e'" "iHash e" b k] by (simp add: e'_def pending_def occupied_def)
  qed
qed

section \<open>The invariant of the rehash\<close>

definition settled :: "nat \<Rightarrow> TUint32 \<Rightarrow> ('k, 'v) SElement list \<Rightarrow> nat \<Rightarrow> bool" where
  "settled b g es i \<longleftrightarrow> i < 2 ^ b \<and>
     (\<exists>k. probe b (iHash (es ! i)) k = i \<and> (\<forall>j<k. processed g (es ! probe b (iHash (es ! i)) j)))"

definition reform_inv :: "nat \<Rightarrow> TUint32 \<Rightarrow> nat \<Rightarrow> nat \<Rightarrow> ('k, 'v) SElement list \<Rightarrow> bool" where
  "reform_inv b g mx ix es \<longleftrightarrow>
     2 ^ b \<le> length es \<and>
     (\<forall>i<length es. processed g (es ! i) \<longrightarrow> settled b g es i) \<and>
     (\<forall>i<length es. i < ix \<or> mx \<le> i \<longrightarrow> IsEmpty (es ! i) \<or> processed g (es ! i))"

lemma settled_mono:
  assumes "settled b g es i" "processed g (es ! i)" "2 ^ b \<le> length es"
    "\<And>j. j < length es \<Longrightarrow> processed g (es ! j) \<Longrightarrow> es' ! j = es ! j"
  shows "settled b g es' i"
proof -
  obtain k where k: "i < 2 ^ b" "probe b (iHash (es ! i)) k = i" "\<forall>j<k. processed g (es ! probe b (iHash (es ! i)) j)"
    using assms(1) by (auto simp: settled_def)
  have same: "es' ! i = es ! i" using assms k(1) by simp
  have "processed g (es' ! probe b (iHash (es ! i)) j)" if "j < k" for j
  proof -
    have "probe b (iHash (es ! i)) j < length es" using probe_bound [of b _ j] assms(3) by (meson less_le_trans)
    then show ?thesis using k(3) that assms(4) by auto
  qed
  then show ?thesis using k same by (auto simp: settled_def)
qed

text \<open>
  A step that changes the entries at two positions at most keeps the invariant when what it
  processes is settled.
\<close>

lemma reform_inv_step:
  assumes inv: "reform_inv b g mx ix es" and len: "length es' = length es"
    and keep: "\<And>j. j < length es \<Longrightarrow> processed g (es ! j) \<Longrightarrow> es' ! j = es ! j"
    and new: "\<And>j. j < length es \<Longrightarrow> processed g (es' ! j) \<Longrightarrow> \<not> processed g (es ! j) \<Longrightarrow> settled b g es' j"
    and done': "\<And>j. j < length es \<Longrightarrow> j < ix' \<or> mx \<le> j \<Longrightarrow> \<not> processed g (es ! j) \<Longrightarrow> IsEmpty (es' ! j) \<or> processed g (es' ! j)"
  shows "reform_inv b g mx ix' es'"
  unfolding reform_inv_def
proof (intro conjI allI impI)
  show "2 ^ b \<le> length es'" using inv len by (simp add: reform_inv_def)
next
  fix i assume i: "i < length es'" "processed g (es' ! i)"
  show "settled b g es' i"
  proof (cases "processed g (es ! i)")
    case True
    then have "settled b g es i" using inv i len by (simp add: reform_inv_def)
    then show ?thesis by (rule settled_mono) (use True inv keep in \<open>auto simp: reform_inv_def\<close>)
  qed (use new i len in simp)
next
  fix i assume "i < length es'" "i < ix' \<or> mx \<le> i"
  then show "IsEmpty (es' ! i) \<or> processed g (es' ! i)" using done' keep len by (cases "processed g (es ! i)") auto
qed

definition reform_post ::
    "nat \<Rightarrow> TUint32 \<Rightarrow> nat \<Rightarrow> nat \<Rightarrow> ('k, 'v) SElement list \<Rightarrow> ('k, 'v) SElement list \<Rightarrow> bool \<Rightarrow> bool" where
  "reform_post b g mx ix es es' again \<longleftrightarrow>
     length es' = length es \<and> entries es' = entries es \<and>
     reform_inv b g mx (if again then ix else Suc ix) es' \<and>
     npending g es' + (if again then 1 else 0) \<le> npending g es"

section \<open>One entry\<close>

lemma free_position:
  assumes "\<forall>j\<le>k. processed g (es ! probe b w j)" "w AND 2 \<noteq> 0" "1 \<le> b" "b \<le> 32" "is_gen g"
    "ix < length es" "pending g (es ! ix)" "2 ^ b \<le> length es" "size (entries es) \<le> 2 ^ b"
  shows "Suc k < 2 ^ b"
proof (rule ccontr)
  assume "\<not> Suc k < 2 ^ b"
  have all: "processed g (es ! i)" if i: "i < 2 ^ b" for i
  proof -
    obtain j where "j < 2 ^ b" "probe b w j = i" using probe_covers [OF assms(2-4) i] by blast
    then show ?thesis using assms(1) \<open>\<not> Suc k < 2 ^ b\<close> by auto
  qed
  let ?S = "{i. i < length es \<and> occupied (es ! i)}"
  have "ix \<notin> {..<2 ^ b}" using all assms(7) by (auto simp: pending_def)
  moreover have "{..<2 ^ b} \<subseteq> ?S" using all assms(5,8) state_of_gen by (fastforce simp: processed_def)
  moreover have "ix \<in> ?S" using assms(6,7) by (simp add: pending_def)
  ultimately have "insert ix {..<2 ^ b} \<subseteq> ?S" "card (insert ix {..<(2::nat) ^ b}) = Suc (2 ^ b)" by auto
  then have "Suc (2 ^ b) \<le> card ?S" by (metis card_mono finite_Collect_conjI finite_Collect_less_nat)
  then show False using assms(9) by (simp add: size_entries)
qed

definition marked :: "TUint32 \<Rightarrow> ('k, 'v) SElement \<Rightarrow> ('k, 'v) SElement" where
  "marked g e = e\<lparr>iHash := with_state (iHash e) g\<rparr>"

lemma marked:
  assumes "is_gen g" "pending g e"
  shows "e\<lparr>iHash := iHash e XOR 1\<rparr> = marked g e" "processed g (marked g e)" "ent (marked g e) = ent e"
    "b \<le> 28 \<Longrightarrow> probe b (iHash (marked g e)) = probe b (iHash e)" "\<not> pending g (marked g e)"
  using mark [OF assms] by (simp_all add: marked_def)

text \<open>An entry put at the end of a run of processed positions is settled.\<close>

lemma settled_here:
  assumes "is_gen g" "pending g e" "b \<le> 28" "es' ! p = marked g e" "probe b (iHash e) k = p"
    "\<forall>j<k. processed g (es ! probe b (iHash e) j)" "2 ^ b \<le> length es"
    and keep: "\<And>j. j < length es \<Longrightarrow> processed g (es ! j) \<Longrightarrow> es' ! j = es ! j"
  shows "settled b g es' p"
proof -
  have e: "probe b (iHash (es' ! p)) = probe b (iHash e)" using assms(4) marked(4) [OF assms(1,2,3)] by simp
  have "processed g (es' ! probe b (iHash e) j)" if "j < k" for j
  proof -
    have "probe b (iHash e) j < length es" using probe_bound [of b "iHash e" j] assms(7) by linarith
    then show ?thesis using assms(6) that keep by simp
  qed
  then show ?thesis using assms(5) by (auto simp: settled_def e)
qed

text \<open>Marking the pending entry at \<open>p\<close> where it is.\<close>

lemma mark_in_place:
  assumes gen: "is_gen g" and bits: "b \<le> 28" and p: "p < length es" "pending g (es ! p)"
    and inv: "reform_inv b g mx ix es"
    and home: "probe b (iHash (es ! p)) k = p" "\<forall>j<k. processed g (es ! probe b (iHash (es ! p)) j)"
  defines "es' \<equiv> es[p := marked g (es ! p)]"
  shows "length es' = length es" "entries es' = entries es"
    "reform_inv b g mx (if p = ix then Suc ix else ix) es'" "npending g es' + 1 = npending g es"
proof -
  have keep: "j < length es \<Longrightarrow> processed g (es ! j) \<Longrightarrow> es' ! j = es ! j" for j
    using p(2) by (cases "j = p") (auto simp: es'_def pending_def)
  show "length es' = length es" "entries es' = entries es" "npending g es' + 1 = npending g es"
    using entries_update [OF p(1), of "marked g (es ! p)"] npending_update [OF p(1), of g "marked g (es ! p)"]
      marked [OF gen p(2)] p(2) by (simp_all add: es'_def)
  show "reform_inv b g mx (if p = ix then Suc ix else ix) es'"
  proof (rule reform_inv_step [OF inv])
    fix j assume j: "j < length es" "processed g (es' ! j)" "\<not> processed g (es ! j)"
    have "j = p"
    proof (rule ccontr)
      assume "j \<noteq> p"
      then have "es' ! j = es ! j" by (simp add: es'_def)
      then show False using j by simp
    qed
    moreover have "settled b g es' p"
      by (rule settled_here [OF gen p(2) bits _ home]) (use p inv keep in \<open>auto simp: es'_def reform_inv_def\<close>)
    ultimately show "settled b g es' j" by simp
  next
    fix j assume "j < length es" "j < (if p = ix then Suc ix else ix) \<or> mx \<le> j" "\<not> processed g (es ! j)"
    then show "IsEmpty (es' ! j) \<or> processed g (es' ! j)"
      using inv p marked(2) [OF gen p(2)] by (auto simp: es'_def nth_list_update reform_inv_def less_Suc_eq split: if_splits)
  qed (use keep in \<open>auto simp: es'_def\<close>)
qed

text \<open>Moving the pending entry at \<open>ix\<close> to \<open>p\<close>, where nothing is settled.\<close>

lemma move_entry:
  assumes gen: "is_gen g" and bits: "b \<le> 28" and ix: "ix < length es" "ix < mx"
    and inv: "reform_inv b g mx ix es" and pend: "pending g (es ! ix)"
    and p: "probe b (iHash (es ! ix)) k = p" "\<forall>j<k. processed g (es ! probe b (iHash (es ! ix)) j)"
    and x: "p \<noteq> ix" "\<not> occupied (es ! p) \<and> x = SetEmpty (es ! ix) \<and> \<not> again \<or> pending g (es ! p) \<and> x = es ! p \<and> again"
  defines "es' \<equiv> es[p := marked g (es ! ix), ix := x]"
  shows "reform_post b g mx ix es es' again"
proof -
  have len: "2 ^ b \<le> length es" using inv by (simp add: reform_inv_def)
  have pl: "p < length es" using p(1) len probe_bound [of b "iHash (es ! ix)" k] by linarith
  have np: "\<not> processed g (es ! p)" using x(2) state_of_gen [OF gen] by (auto simp: pending_def processed_def)
  have nx: "\<not> processed g x" using x(2) state_of_gen [OF gen, of x] by (auto simp: pending_def processed_def)
  have at: "es' ! p = marked g (es ! ix)" "es' ! ix = x" "j \<noteq> p \<Longrightarrow> j \<noteq> ix \<Longrightarrow> es' ! j = es ! j" for j
    using pl ix(1) x(1) by (simp_all add: es'_def nth_list_update)
  have keep: "j < length es \<Longrightarrow> processed g (es ! j) \<Longrightarrow> es' ! j = es ! j" for j
    using at(3) np pend by (cases "j = p"; cases "j = ix") (auto simp: pending_def)
  note m = marked [OF gen pend]
  have "entries es' = entries es"
    using entries_update [OF pl, of "marked g (es ! ix)"] entries_update [of ix "es[p := marked g (es ! ix)]" x]
      pl ix(1) x m(3) by (auto simp: es'_def ent_def split: if_splits)
  moreover have "npending g es' + (if again then 1 else 0) \<le> npending g es"
    using npending_update [OF pl, of g "marked g (es ! ix)"] npending_update [of ix "es[p := marked g (es ! ix)]" g x]
      pl ix(1) x m(5) pend by (auto simp: es'_def pending_def split: if_splits)
  moreover have "reform_inv b g mx (if again then ix else Suc ix) es'"
  proof (rule reform_inv_step [OF inv])
    fix j assume "j < length es" "processed g (es' ! j)" "\<not> processed g (es ! j)"
    then have "j = p" using at(2,3) nx by metis
    moreover have "settled b g es' p" by (rule settled_here [OF gen pend bits at(1) p len keep])
    ultimately show "settled b g es' j" by simp
  next
    fix j assume j: "j < length es" "j < (if again then ix else Suc ix) \<or> mx \<le> j" "\<not> processed g (es ! j)"
    then have ixj: "j = ix \<Longrightarrow> \<not> again" using ix(2) by auto
    consider "j = p" | "j = ix" | "j \<noteq> p" "j \<noteq> ix" by blast
    then show "IsEmpty (es' ! j) \<or> processed g (es' ! j)"
    proof cases
      case 2
      then show ?thesis using ixj at(2) x(2) by auto
    next
      case 3
      then have "j < ix \<or> mx \<le> j" using j(2) by (auto simp: less_Suc_eq split: if_splits)
      then show ?thesis using j(1,3) inv at(3) [OF 3] by (auto simp: reform_inv_def)
    qed (use at m in simp)
  qed (use keep in \<open>auto simp: es'_def\<close>)
  ultimately show ?thesis by (simp add: reform_post_def es'_def)
qed

lemma reform_post_trans:
  assumes "length es1 = length es" "entries es1 = entries es" "npending g es1 \<le> npending g es"
    "reform_post b g mx ix es1 es' again"
  shows "reform_post b g mx ix es es' again"
  using assms by (auto simp: reform_post_def)

lemma reform_probe_ok:
  fixes es :: "('k, 'v) SElement list"
  assumes gen: "is_gen g" and bits: "1 \<le> b" "b \<le> 28" and ix: "ix < length es" "ix < mx"
    and inv: "reform_inv b g mx ix es" and pend: "pending g (es ! ix)" and w: "iHash (es ! ix) = w"
    and pos: "k < 2 ^ b" "unat pos = probe b w k" and before: "\<forall>j<k. processed g (es ! probe b w j)"
    and room: "size (entries es) \<le> 2 ^ b"
  shows "\<exists>es' again. reform_probe b g (probe_step b w) ix es pos = Some (Inr (es', again)) \<and>
    reform_post b g mx ix es es' again"
  using ix(1) inv pend w pos before room
proof (induction "2 ^ b - k" arbitrary: k pos es rule: less_induct)
  case less
  let ?p = "unat pos" and ?next = "(pos + probe_step b w) AND index_mask b"
  let ?e = "es ! ix" and ?d = "es ! ?p"
  have b32: "b \<le> 32" using bits by simp
  have len: "2 ^ b \<le> length es" using less.prems(2) by (simp add: reform_inv_def)
  have p: "?p < length es" using less.prems(6) len probe_bound [of b w k] by linarith
  have occ: "w AND 2 \<noteq> 0" using less.prems(3,4) by (auto simp: pending_def occupied_def)
  have place: "probe b (iHash ?e) k = ?p" "\<forall>j<k. processed g (es ! probe b (iHash ?e) j)"
    using less.prems(4,6,7) by simp_all
  have next': "unat ?next = probe b w (Suc k)" by (rule probe_Suc [OF b32 less.prems(6)])
  have ongoing: "Suc k < 2 ^ b" if "\<forall>j\<le>k. processed g (es1 ! probe b w j)" "length es1 = length es"
    "pending g (es1 ! ix)" "size (entries es1) \<le> 2 ^ b" for es1 :: "('k, 'v) SElement list"
    using free_position [OF that(1) occ bits(1) b32 gen _ that(3) _ that(4)] less.prems(1) len that(2) by simp
  show ?case
  proof (cases "occupied ?d")
    case False
    then have "?p \<noteq> ix" using less.prems(3) by (auto simp: pending_def)
    then have "reform_post b g mx ix es (es[?p := marked g ?e, ix := SetEmpty ?e]) False"
      using False by (intro move_entry [OF gen bits(2) less.prems(1) ix(2) less.prems(2,3) place]) simp_all
    moreover have "reform_probe b g (probe_step b w) ix es pos = Some (Inr (es[?p := marked g ?e, ix := SetEmpty ?e], False))"
      using False p by (subst reform_probe.simps) (simp add: Let_def states(1) marked_def)
    ultimately show ?thesis by blast
  next
    case occd: True
    show ?thesis
    proof (cases "processed g ?d")
      case True
      have pr: "\<forall>j\<le>k. processed g (es ! probe b w j)" using less.prems(6,7) True by (auto simp: le_less)
      have k: "Suc k < 2 ^ b" by (rule ongoing [OF pr _ less.prems(3,8)]) simp
      have "\<exists>es' again. reform_probe b g (probe_step b w) ix es ?next = Some (Inr (es', again)) \<and> reform_post b g mx ix es es' again"
        by (rule less.hyps [OF _ less.prems(1-4) k next' _ less.prems(8)]) (use k pr in auto)
      then show ?thesis
        using occd p True by (subst reform_probe.simps) (simp add: Let_def states(1) processed_def)
    next
      case False
      then have pd: "pending g ?d" using occd by (simp add: pending_def)
      consider "?p = ix" | "?p \<noteq> ix" "home b (iHash ?d) = pos" | "?p \<noteq> ix" "home b (iHash ?d) \<noteq> pos" by blast
      then show ?thesis
      proof cases
        case 1
        have "reform_post b g mx ix es (es[ix := marked g ?e]) False"
          using mark_in_place [OF gen bits(2) p pd less.prems(2), of k] place 1 by (simp add: reform_post_def)
        moreover have "reform_probe b g (probe_step b w) ix es pos = Some (Inr (es[ix := marked g ?e], False))"
          using occd False p 1 marked(1) [OF gen less.prems(3)]
          by (subst reform_probe.simps) (simp add: Let_def states(1) processed_def)
        ultimately show ?thesis by blast
      next
        case 2
        let ?es = "es[?p := marked g ?d]"
        have "probe b (iHash ?d) 0 = ?p" using probe_0 [OF b32] 2(2) by simp
        note mk = mark_in_place [OF gen bits(2) p pd less.prems(2) this]
        have e: "?es ! ix = ?e" using 2(1) by simp
        have pr: "\<forall>j\<le>k. processed g (?es ! probe b w j)"
          using less.prems(6,7) marked(2) [OF gen pd] p by (auto simp: nth_list_update le_less)
        have sz: "size (entries ?es) \<le> 2 ^ b" using mk(2) less.prems(8) by simp
        have k: "Suc k < 2 ^ b" by (rule ongoing [OF pr _ _ sz]) (use less.prems(3) e in simp_all)
        have "\<exists>es' again. reform_probe b g (probe_step b w) ix ?es ?next = Some (Inr (es', again)) \<and> reform_post b g mx ix ?es es' again"
          by (rule less.hyps [OF _ _ _ _ _ k next' _ sz]) (use k pr less.prems(1,3,4) mk(3) 2(1) e in auto)
        then obtain es' again where r: "reform_probe b g (probe_step b w) ix ?es ?next = Some (Inr (es', again))"
          "reform_post b g mx ix ?es es' again" by blast
        have "reform_post b g mx ix es es' again" by (rule reform_post_trans [OF _ _ _ r(2)]) (use mk in simp_all)
        moreover have "reform_probe b g (probe_step b w) ix es pos = Some (Inr (es', again))"
          using occd False p 2 r(1) marked(1) [OF gen pd]
          by (subst reform_probe.simps) (simp add: Let_def states(1) processed_def)
        ultimately show ?thesis by blast
      next
        case 3
        have "reform_post b g mx ix es (es[?p := marked g ?e, ix := ?d]) True"
          using 3 pd by (intro move_entry [OF gen bits(2) less.prems(1) ix(2) less.prems(2,3) place]) simp_all
        moreover have "reform_probe b g (probe_step b w) ix es pos = Some (Inr (es[?p := marked g ?e, ix := ?d], True))"
          using occd False p 3 marked(1) [OF gen less.prems(3)]
          by (subst reform_probe.simps) (simp add: Let_def states(1) processed_def)
        ultimately show ?thesis by blast
      qed
    qed
  qed
qed

lemma reform_inv_skip:
  "reform_inv b g mx ix es \<Longrightarrow> IsEmpty (es ! ix) \<or> processed g (es ! ix) \<Longrightarrow> reform_inv b g mx (Suc ix) es"
  by (auto simp: reform_inv_def less_Suc_eq)

lemma reform_entry_ok:
  assumes gen: "is_gen g" and bits: "1 \<le> b" "b \<le> 28" and ix: "ix < length es" "ix < mx"
    and inv: "reform_inv b g mx ix es" and room: "size (entries es) \<le> 2 ^ b"
  shows "\<exists>es' again. reform_entry b g ix es = Some (Inr (es', again)) \<and> reform_post b g mx ix es es' again"
proof -
  let ?e = "es ! ix"
  consider "IsEmpty ?e \<or> processed g ?e" | "IsDeleted ?e" "\<not> processed g ?e" | "pending g ?e"
    using states(5) [of ?e] by (auto simp: pending_def)
  then show ?thesis
  proof cases
    case 1
    have "\<not> IsDeleted ?e" using 1 states(3,4) state_of_gen [OF gen] by (auto simp: processed_def)
    then have "reform_entry b g ix es = Some (Inr (es, False))" using 1 ix(1) by (auto simp: reform_entry_def Let_def processed_def)
    moreover have "reform_post b g mx ix es es False" using reform_inv_skip [OF inv 1] by (simp add: reform_post_def)
    ultimately show ?thesis by blast
  next
    case 2
    let ?es = "es[ix := SetEmpty ?e]"
    have ne: "\<not> occupied ?e" "\<not> IsEmpty ?e" using 2 states(3,4) by blast+
    have keep: "j < length es \<Longrightarrow> processed g (es ! j) \<Longrightarrow> ?es ! j = es ! j" for j using 2 by (cases "j = ix") auto
    have "reform_inv b g mx (Suc ix) ?es"
    proof (rule reform_inv_step [OF inv])
      fix j assume "j < length es" "processed g (?es ! j)" "\<not> processed g (es ! j)"
      then show "settled b g ?es j" using ix(1) state_of_gen [OF gen, of "SetEmpty ?e"]
        by (cases "j = ix") (auto simp: processed_def)
    next
      fix j assume "j < length es" "j < Suc ix \<or> mx \<le> j" "\<not> processed g (es ! j)"
      then show "IsEmpty (?es ! j) \<or> processed g (?es ! j)"
        using inv ix(1) by (cases "j = ix") (auto simp: reform_inv_def less_Suc_eq)
    qed (use keep in auto)
    moreover have "entries ?es = entries es" "npending g ?es \<le> npending g es"
      using entries_update [OF ix(1), of "SetEmpty ?e"] npending_update [OF ix(1), of g "SetEmpty ?e"] ne
      by (simp_all add: ent_def pending_def)
    moreover have "reform_entry b g ix es = Some (Inr (?es, False))"
      using 2 ne ix(1) by (simp add: reform_entry_def Let_def)
    ultimately have "reform_post b g mx ix es ?es False" "reform_entry b g ix es = Some (Inr (?es, False))"
      by (simp_all add: reform_post_def)
    then show ?thesis by blast
  next
    case 3
    have occ: "occupied ?e" "\<not> IsEmpty ?e" "\<not> IsDeleted ?e" "iHash ?e AND 3 \<noteq> g"
      using 3 states(2,3) by (auto simp: pending_def processed_def)
    show ?thesis
    proof (cases "unat (home b (iHash ?e)) = ix")
      case True
      then have "probe b (iHash ?e) 0 = ix" using probe_0 bits by simp
      then have "reform_post b g mx ix es (es[ix := marked g ?e]) False"
        using mark_in_place [OF gen bits(2) ix(1) 3 inv, of 0] by (simp add: reform_post_def)
      moreover have "reform_entry b g ix es = Some (Inr (es[ix := marked g ?e], False))"
        using occ ix(1) True marked(1) [OF gen 3] by (simp add: reform_entry_def Let_def)
      ultimately show ?thesis by blast
    next
      case False
      have "reform_entry b g ix es = reform_probe b g (probe_step b (iHash ?e)) ix es (home b (iHash ?e))"
        using occ ix(1) False by (simp add: reform_entry_def Let_def)
      moreover have "unat (home b (iHash ?e)) = probe b (iHash ?e) 0" using probe_0 [of b "iHash ?e"] bits by simp
      ultimately show ?thesis using reform_probe_ok [OF gen bits ix inv 3 refl, of 0] room by simp
    qed
  qed
qed

section \<open>The whole table\<close>

lemma reform_loop_ok:
  assumes gen: "is_gen g" and bits: "1 \<le> b" "b \<le> 28"
  shows "mx \<le> length es \<Longrightarrow> ix \<le> mx \<Longrightarrow> reform_inv b g mx ix es \<Longrightarrow> size (entries es) \<le> 2 ^ b \<Longrightarrow>
    \<exists>es'. reform_loop b g mx es ix = Some (Inr es') \<and> length es' = length es \<and> entries es' = entries es \<and>
      reform_inv b g mx mx es'"
proof (induction "npending g es + (mx - ix)" arbitrary: es ix rule: less_induct)
  case less
  show ?case
  proof (cases "ix < mx")
    case False
    then show ?thesis using less.prems by (subst reform_loop.simps) simp
  next
    case True
    then obtain es1 again where r: "reform_entry b g ix es = Some (Inr (es1, again))" "reform_post b g mx ix es es1 again"
      using reform_entry_ok [OF gen bits _ True less.prems(3,4)] less.prems(1) by auto
    let ?ix = "if again then ix else Suc ix"
    have "\<exists>es'. reform_loop b g mx es1 ?ix = Some (Inr es') \<and> length es' = length es1 \<and> entries es' = entries es1 \<and>
        reform_inv b g mx mx es'"
      using r(2) True less.prems by (intro less.hyps) (auto simp: reform_post_def)
    then show ?thesis
      using r True by (subst reform_loop.simps) (simp add: reform_post_def)
  qed
qed

text \<open>
  The outcome for a table whose occupied entries all have the old generation: everything occupied is
  settled in the new one, and nothing is marked deleted.
\<close>

lemma reform_loop_table:
  assumes gen: "is_gen g" and bits: "1 \<le> b" "b \<le> 28" and len: "mx \<le> length es" "2 ^ b \<le> length es"
    and old: "\<forall>e \<in> set es. \<not> processed g e" and beyond: "\<forall>i<length es. mx \<le> i \<longrightarrow> IsEmpty (es ! i)"
    and room: "size (entries es) \<le> 2 ^ b"
  shows "\<exists>es'. reform_loop b g mx es 0 = Some (Inr es') \<and> length es' = length es \<and> entries es' = entries es \<and>
    (\<forall>i<length es'. IsEmpty (es' ! i) \<or> processed g (es' ! i) \<and> settled b g es' i)"
proof -
  have "reform_inv b g mx 0 es" using len(2) old beyond by (auto simp: reform_inv_def)
  then obtain es' where es': "reform_loop b g mx es 0 = Some (Inr es')" "length es' = length es" "entries es' = entries es"
    "reform_inv b g mx mx es'"
    using reform_loop_ok [OF gen bits len(1) _ _ room] by auto
  have "IsEmpty (es' ! i) \<or> processed g (es' ! i) \<and> settled b g es' i" if "i < length es'" for i
    using es'(4) that by (cases "i < mx") (auto simp: reform_inv_def)
  then show ?thesis using es'(1-3) by blast
qed

end
