(* ===== verification/Htab_Spec.thy ===== *)
theory Htab_Spec
  imports Htab_Reform
begin

text \<open>
  The invariant of a hash table, and what finding a key, or a slot for it, means under the invariant:
  the searches end, stay inside the table and are right.
\<close>

section \<open>The invariant\<close>

text \<open>What the client promises of its keys: the identity relation is one, and the hash respects it.\<close>

definition good_keys :: "('k \<Rightarrow> TUint32) \<Rightarrow> ('k \<Rightarrow> 'k \<Rightarrow> bool) \<Rightarrow> bool" where
  "good_keys h idf \<longleftrightarrow> equivp idf \<and> (\<forall>x y. idf x y \<longrightarrow> h x = h y)"

definition entry_matches :: "('k \<Rightarrow> 'k \<Rightarrow> bool) \<Rightarrow> 'k \<Rightarrow> TUint32 \<times> ('k \<times> 'v) option \<Rightarrow> bool" where
  "entry_matches idf key x = (case snd x of None \<Rightarrow> False | Some (k, v) \<Rightarrow> idf key k)"

definition good_entries ::
    "('k \<Rightarrow> TUint32) \<Rightarrow> ('k \<Rightarrow> 'k \<Rightarrow> bool) \<Rightarrow> (TUint32 \<times> ('k \<times> 'v) option) multiset \<Rightarrow> bool" where
  "good_entries h idf E \<longleftrightarrow>
     (\<forall>x \<in># E. \<exists>k v. x = (canon (h k), Some (k, v))) \<and>
     (\<forall>key. size (filter_mset (entry_matches idf key) E) \<le> 1)"

text \<open>The slots before an entry in its probe sequence are not empty.\<close>

definition reachable_slot :: "nat \<Rightarrow> ('k, 'v) SElement list \<Rightarrow> nat \<Rightarrow> bool" where
  "reachable_slot b es i \<longleftrightarrow>
     (\<exists>n. probe b (iHash (es ! i)) n = i \<and> (\<forall>j<n. \<not> IsEmpty (es ! probe b (iHash (es ! i)) j)))"

definition empties :: "('k, 'v) SElement list \<Rightarrow> nat" where
  "empties es = length (filter IsEmpty es)"

definition slots_ok :: "nat \<Rightarrow> TUint32 \<Rightarrow> ('k, 'v) SElement list \<Rightarrow> bool" where
  "slots_ok b g es \<longleftrightarrow> length es = 2 ^ b \<and>
     (\<forall>i<length es. occupied (es ! i) \<longrightarrow> processed g (es ! i) \<and> reachable_slot b es i)"

definition table_ok :: "('k, 'v) RHashTableBase \<Rightarrow> bool" where
  "table_ok t \<longleftrightarrow>
     good_keys (iHashFunc t) (iIdFunc t) \<and> is_gen (iGeneration t) \<and> 4 \<le> iIndexBits t \<and>
     SetThresholds t = t \<and> 8 \<le> iElementSize t \<and> 2 ^ iIndexBits t * iElementSize t < 0x3fffffff \<and>
     (case iElements t of
        None \<Rightarrow> iCount t = 0
      | Some es \<Rightarrow> slots_ok (iIndexBits t) (iGeneration t) es \<and> good_entries (iHashFunc t) (iIdFunc t) (entries es) \<and>
          iCount t = size (entries es) \<and> iEmptyCount t = empties es \<and> 1 \<le> iEmptyCount t)"

definition lookup_in :: "('k \<Rightarrow> 'k \<Rightarrow> bool) \<Rightarrow> ('k, 'v) SElement list \<Rightarrow> 'k \<Rightarrow> 'v option" where
  "lookup_in idf es key =
     (case find (\<lambda>e. occupied e \<and> key_matches idf key e) es of
        None \<Rightarrow> None
      | Some e \<Rightarrow> map_option snd (iData e))"

text \<open>The finite map a table stands for.\<close>

definition ht_map :: "('k, 'v) RHashTableBase \<Rightarrow> 'k \<Rightarrow> 'v option" where
  "ht_map t key = (case iElements t of None \<Rightarrow> None | Some es \<Rightarrow> lookup_in (iIdFunc t) es key)"

section \<open>The map is that of the entries\<close>

lemma entries_mem: "x \<in># entries es \<longleftrightarrow> (\<exists>i<length es. occupied (es ! i) \<and> x = (canon (iHash (es ! i)), iData (es ! i)))"
proof (induction es)
  case (Cons e es)
  show ?case by (simp add: Cons.IH ent_def Ex_less_Suc2)
qed simp

lemma key_matches_entry: "key_matches idf key e = entry_matches idf key (canon (iHash e), iData e)"
  by (simp add: key_matches_def entry_matches_def)

lemma lookup_in_Some:
  "lookup_in idf es key = Some v \<Longrightarrow> \<exists>c k. (c, Some (k, v)) \<in># entries es \<and> idf key k"
proof -
  assume l: "lookup_in idf es key = Some v"
  then obtain e where e: "find (\<lambda>e. occupied e \<and> key_matches idf key e) es = Some e" "map_option snd (iData e) = Some v"
    by (auto simp: lookup_in_def split: option.splits)
  then obtain i where i: "i < length es" "e = es ! i" "occupied e" "key_matches idf key e"
    by (auto simp: find_Some_iff)
  then have m: "(canon (iHash e), iData e) \<in># entries es" by (auto simp: entries_mem)
  obtain k where k: "iData e = Some (k, v)" using e(2) by auto
  then have "idf key k" using i(4) by (simp add: key_matches_def)
  then show ?thesis using m k by auto
qed

lemma single_match:
  assumes "\<forall>key. size (filter_mset (entry_matches idf key) E) \<le> 1"
    "x \<in># E" "entry_matches idf key x" "y \<in># E" "entry_matches idf key y"
  shows "x = y"
proof (rule ccontr)
  assume "x \<noteq> y"
  let ?F = "filter_mset (entry_matches idf key) E"
  have "{#x, y#} \<subseteq># ?F"
    using assms(2-5) \<open>x \<noteq> y\<close> by (simp add: insert_subset_eq_iff in_diff_count)
  then have "size {#x, y#} \<le> size ?F" by (rule size_mset_mono)
  then show False using assms(1) by simp (metis Suc_n_not_le_n le_trans)
qed

lemma lookup_in_iff:
  assumes "good_entries h idf (entries es)"
  shows "lookup_in idf es key = Some v \<longleftrightarrow> (\<exists>c k. (c, Some (k, v)) \<in># entries es \<and> idf key k)"
proof
  assume "\<exists>c k. (c, Some (k, v)) \<in># entries es \<and> idf key k"
  then obtain c k where m: "(c, Some (k, v)) \<in># entries es" "idf key k" by blast
  then obtain i where i: "i < length es" "occupied (es ! i)" "iData (es ! i) = Some (k, v)" by (auto simp: entries_mem)
  have "find (\<lambda>e. occupied e \<and> key_matches idf key e) es \<noteq> None"
    using i m(2) nth_mem [OF i(1)] by (auto simp: find_None_iff key_matches_def)
  then obtain e where e: "find (\<lambda>e. occupied e \<and> key_matches idf key e) es = Some e" by auto
  then obtain j where j: "j < length es" "e = es ! j" "occupied e" "key_matches idf key e"
    by (auto simp: find_Some_iff)
  then have "(canon (iHash e), iData e) \<in># entries es" "entry_matches idf key (canon (iHash e), iData e)"
    by (auto simp: entries_mem key_matches_entry)
  moreover have "entry_matches idf key (c, Some (k, v))" using m(2) by (simp add: entry_matches_def)
  ultimately have "(canon (iHash e), iData e) = (c, Some (k, v))"
    using single_match [of idf "entries es"] assms m(1) by (auto simp: good_entries_def)
  then show "lookup_in idf es key = Some v" using e by (simp add: lookup_in_def)
qed (rule lookup_in_Some)

lemma lookup_in_entries:
  assumes "good_entries h idf (entries es)" "entries es' = entries es"
  shows "lookup_in idf es' = lookup_in idf es"
proof
  fix key
  have "lookup_in idf es' key = Some v \<longleftrightarrow> lookup_in idf es key = Some v" for v
    using lookup_in_iff [OF assms(1)] lookup_in_iff [of h idf es'] assms by simp
  then show "lookup_in idf es' key = lookup_in idf es key" by (metis not_None_eq)
qed

section \<open>Searching\<close>

lemma same_key_hash:
  assumes "good_keys h idf" "good_entries h idf (entries es)" "slots_ok b g es" "is_gen g"
    "i < length es" "occupied (es ! i)" "key_matches idf key (es ! i)"
  shows "iHash (es ! i) = with_state (h key) g"
proof -
  have "(canon (iHash (es ! i)), iData (es ! i)) \<in># entries es" using assms(5,6) by (auto simp: entries_mem)
  then obtain k v where k: "canon (iHash (es ! i)) = canon (h k)" "iData (es ! i) = Some (k, v)"
    using assms(2) unfolding good_entries_def by blast
  then have "h k = h key" using assms(1,7) by (simp add: good_keys_def key_matches_def)
  moreover have "iHash (es ! i) AND 3 = g" using assms(3,5,6) by (simp add: slots_ok_def processed_def)
  ultimately show ?thesis using split_state [of "iHash (es ! i)"] k(1) by (simp add: with_state_canon)
qed

lemma home_with_state: "is_gen g \<Longrightarrow> b \<le> 28 \<Longrightarrow> home b (with_state w g) = home b w"
  by (rule home_canon) (simp_all add: with_state_facts)

lemma empty_exists:
  assumes "1 \<le> empties es" "length es = 2 ^ b" "w AND 2 \<noteq> 0" "1 \<le> b" "b \<le> 28"
  obtains n where "n < 2 ^ b" "IsEmpty (es ! probe b w n)"
proof -
  have "filter IsEmpty es \<noteq> []" using assms(1) by (auto simp: empties_def)
  then obtain i where "i < length es" "IsEmpty (es ! i)" by (auto simp: filter_empty_conv in_set_conv_nth)
  then show ?thesis using probe_covers [OF assms(3,4), of i] assms(2,5) that by auto
qed

lemma find_loop_steps:
  assumes "unat ix < length es"
  defines "e \<equiv> es ! unat ix"
  shows "iHash e = w \<and> key_matches idf key e \<Longrightarrow> find_loop es idf key w st msk ix = Some (Inr (Some (unat ix)))"
    "\<not> (iHash e = w \<and> key_matches idf key e) \<Longrightarrow> IsEmpty e \<Longrightarrow> find_loop es idf key w st msk ix = Some (Inr None)"
    "\<not> (iHash e = w \<and> key_matches idf key e) \<Longrightarrow> \<not> IsEmpty e \<Longrightarrow>
      find_loop es idf key w st msk ix = find_loop es idf key w st msk ((ix + st) AND msk)"
  using assms by (auto simp: find_loop.simps [of es idf key w st msk ix])

lemma insert_loop_steps:
  assumes "unat ix < length es"
  defines "e \<equiv> es ! unat ix"
  shows "IsEmpty e \<Longrightarrow> insert_loop es idf key w st msk d ix = Some (Inr (case d of None \<Rightarrow> Fresh (unat ix) | Some i \<Rightarrow> Reuse i))"
    "\<not> IsEmpty e \<Longrightarrow> IsDeleted e \<Longrightarrow> insert_loop es idf key w st msk d ix =
      insert_loop es idf key w st msk (case d of None \<Rightarrow> Some (unat ix) | Some i \<Rightarrow> Some i) ((ix + st) AND msk)"
    "\<not> IsEmpty e \<Longrightarrow> \<not> IsDeleted e \<Longrightarrow> iHash e = w \<and> key_matches idf key e \<Longrightarrow>
      insert_loop es idf key w st msk d ix = Some (Inr (Duplicate (unat ix)))"
    "\<not> IsEmpty e \<Longrightarrow> \<not> IsDeleted e \<Longrightarrow> \<not> (iHash e = w \<and> key_matches idf key e) \<Longrightarrow>
      insert_loop es idf key w st msk d ix = insert_loop es idf key w st msk d ((ix + st) AND msk)"
  using assms by (auto simp: insert_loop.simps [of es idf key w st msk d ix])

text \<open>The search along the probe sequence of a key ends at the first empty slot at the latest.\<close>

lemma find_loop_ok:
  fixes es :: "('k, 'v) SElement list"
  assumes keys: "good_keys h idf" "good_entries h idf (entries es)" and tab: "slots_ok b g es" "is_gen g" "1 \<le> b" "b \<le> 28"
    and w: "w = with_state (h key) g" and hole: "IsEmpty (es ! probe b w m)"
  shows "n \<le> m \<Longrightarrow> unat ix = probe b w n \<Longrightarrow>
      \<forall>j<n. \<not> IsEmpty (es ! probe b w j) \<and> \<not> (occupied (es ! probe b w j) \<and> key_matches idf key (es ! probe b w j)) \<Longrightarrow>
    \<exists>r. find_loop es idf key w (probe_step b w) (index_mask b) ix = Some (Inr r) \<and>
      (case r of None \<Rightarrow> \<forall>i<length es. \<not> (occupied (es ! i) \<and> key_matches idf key (es ! i))
       | Some i \<Rightarrow> i < length es \<and> occupied (es ! i) \<and> key_matches idf key (es ! i))"
proof (induction "m - n" arbitrary: n ix rule: less_induct)
  case less
  let ?e = "es ! unat ix"
  have len: "unat ix < length es" using less.prems(2) tab(1) by (simp add: slots_ok_def)
  have match: "iHash ?e = w \<Longrightarrow> occupied ?e" using with_state_facts(3) [OF tab(2)] w by (simp add: occupied_def)
  have match': "occupied ?e \<Longrightarrow> key_matches idf key ?e \<Longrightarrow> iHash ?e = w"
    using same_key_hash [OF keys tab(1,2) len] w by simp
  have w2: "w AND 2 \<noteq> 0" using with_state_facts(3) [OF tab(2)] w by simp
  consider "iHash ?e = w \<and> key_matches idf key ?e" | "\<not> (iHash ?e = w \<and> key_matches idf key ?e)" "IsEmpty ?e"
    | "\<not> (iHash ?e = w \<and> key_matches idf key ?e)" "\<not> IsEmpty ?e" by blast
  then show ?case
  proof cases
    case 1
    then show ?thesis using find_loop_steps(1) [OF len 1] len match by simp
  next
    case 2
    have "\<not> (occupied (es ! i) \<and> key_matches idf key (es ! i))" if "i < length es" for i
    proof
      assume occ: "occupied (es ! i) \<and> key_matches idf key (es ! i)"
      then have hw: "iHash (es ! i) = w" using same_key_hash [OF keys tab(1,2) that] w by simp
      have "reachable_slot b es i" using tab(1) that occ by (simp add: slots_ok_def)
      then obtain n' where n': "probe b w n' = i" "\<forall>j<n'. \<not> IsEmpty (es ! probe b w j)"
        unfolding reachable_slot_def hw by blast
      consider "n' < n" | "n' = n" | "n < n'" by linarith
      then show False
        using n' occ less.prems(2,3) 2(2) states(2) [of ?e] by cases auto
    qed
    then show ?thesis using find_loop_steps(2) [OF len 2] by simp
  next
    case 3
    have "n \<noteq> m" using 3(2) hole less.prems(2) by auto
    then have lt: "m - Suc n < m - n" "Suc n \<le> m" using less.prems(1) by simp_all
    have next': "unat ((ix + probe_step b w) AND index_mask b) = probe b w (Suc n)"
      by (rule probe_Suc) (use tab less.prems(2) in simp_all)
    have "\<not> (occupied ?e \<and> key_matches idf key ?e)" using match' 3(1) by blast
    then have "\<forall>j<Suc n. \<not> IsEmpty (es ! probe b w j) \<and> \<not> (occupied (es ! probe b w j) \<and> key_matches idf key (es ! probe b w j))"
      using less.prems(2,3) 3(2) by (simp add: less_Suc_eq)
    from less.hyps [OF lt next' this] show ?thesis
          by (subst find_loop_steps(3) [OF len 3])
  qed
qed

text \<open>The slot \<open>Insert\<close> uses for a key: one with the key if there is any, otherwise a free one it can be found from.\<close>

fun slot_right :: "('k, 'v) SElement list \<Rightarrow> ('k \<Rightarrow> 'k \<Rightarrow> bool) \<Rightarrow> 'k \<Rightarrow> nat \<Rightarrow> TUint32 \<Rightarrow> slot \<Rightarrow> bool" where
  "slot_right es idf key b w (Duplicate i) \<longleftrightarrow> i < length es \<and> occupied (es ! i) \<and> key_matches idf key (es ! i)"
| "slot_right es idf key b w (Reuse i) \<longleftrightarrow> i < length es \<and> IsDeleted (es ! i) \<and>
     (\<exists>n. probe b w n = i \<and> (\<forall>j<n. \<not> IsEmpty (es ! probe b w j))) \<and>
     (\<forall>j<length es. \<not> (occupied (es ! j) \<and> key_matches idf key (es ! j)))"
| "slot_right es idf key b w (Fresh i) \<longleftrightarrow> i < length es \<and> IsEmpty (es ! i) \<and>
     (\<exists>n. probe b w n = i \<and> (\<forall>j<n. \<not> IsEmpty (es ! probe b w j))) \<and>
     (\<forall>j<length es. \<not> (occupied (es ! j) \<and> key_matches idf key (es ! j)))"

definition seen_deleted :: "('k, 'v) SElement list \<Rightarrow> nat \<Rightarrow> TUint32 \<Rightarrow> nat \<Rightarrow> nat option \<Rightarrow> bool" where
  "seen_deleted es b w n d \<longleftrightarrow>
     (case d of None \<Rightarrow> True | Some i \<Rightarrow> IsDeleted (es ! i) \<and> (\<exists>m<n. probe b w m = i))"

lemma insert_loop_ok:
  fixes es :: "('k, 'v) SElement list"
  assumes keys: "good_keys h idf" "good_entries h idf (entries es)" and tab: "slots_ok b g es" "is_gen g" "1 \<le> b" "b \<le> 28"
    and w: "w = with_state (h key) g" and hole: "IsEmpty (es ! probe b w m)"
  shows "n \<le> m \<Longrightarrow> unat ix = probe b w n \<Longrightarrow> seen_deleted es b w n d \<Longrightarrow>
      \<forall>j<n. \<not> IsEmpty (es ! probe b w j) \<and> \<not> (occupied (es ! probe b w j) \<and> key_matches idf key (es ! probe b w j)) \<Longrightarrow>
    \<exists>r. insert_loop es idf key w (probe_step b w) (index_mask b) d ix = Some (Inr r) \<and> slot_right es idf key b w r"
proof (induction "m - n" arbitrary: n ix d rule: less_induct)
  case less
  let ?e = "es ! unat ix"
  have lenes: "length es = 2 ^ b" using tab(1) by (simp add: slots_ok_def)
  have len: "unat ix < length es" using less.prems(2) lenes by simp
  have match: "iHash ?e = w \<Longrightarrow> occupied ?e" using with_state_facts(3) [OF tab(2)] w by (simp add: occupied_def)
  have match': "occupied ?e \<Longrightarrow> key_matches idf key ?e \<Longrightarrow> iHash ?e = w"
    using same_key_hash [OF keys tab(1,2) len] w by simp
  show ?case
  proof (cases "IsEmpty ?e")
    case True
    have none: "\<not> (occupied (es ! i) \<and> key_matches idf key (es ! i))" if "i < length es" for i
    proof
      assume occ: "occupied (es ! i) \<and> key_matches idf key (es ! i)"
      then have hw: "iHash (es ! i) = w" using same_key_hash [OF keys tab(1,2) that] w by simp
      have "reachable_slot b es i" using tab(1) that occ by (simp add: slots_ok_def)
      then obtain n' where n': "probe b w n' = i" "\<forall>j<n'. \<not> IsEmpty (es ! probe b w j)"
        unfolding reachable_slot_def hw by blast
      consider "n' < n" | "n' = n" | "n < n'" by linarith
      then show False
        using n' occ less.prems(2,4) True states(2) [of ?e] by cases auto
    qed
    have "slot_right es idf key b w (case d of None \<Rightarrow> Fresh (unat ix) | Some i \<Rightarrow> Reuse i)"
    proof (cases d)
      case None
      then show ?thesis using len True none less.prems(2,4) by auto
    next
      case (Some i)
      then obtain k where k: "k < n" "probe b w k = i" "IsDeleted (es ! i)" using less.prems(3) by (auto simp: seen_deleted_def)
      have "i < length es" using k(2) lenes probe_bound [of b w k] by simp
      moreover have "\<exists>n. probe b w n = i \<and> (\<forall>j<n. \<not> IsEmpty (es ! probe b w j))"
        using k less.prems(4) by (intro exI [of _ k]) auto
      ultimately show ?thesis using Some k(3) none by simp
    qed
    then show ?thesis using insert_loop_steps(1) [OF len True] by simp
  next
    case False
    have "n \<noteq> m" using False hole less.prems(2) by auto
    then have lt: "m - Suc n < m - n" "Suc n \<le> m" using less.prems(1) by simp_all
    have next': "unat ((ix + probe_step b w) AND index_mask b) = probe b w (Suc n)"
      by (rule probe_Suc) (use tab less.prems(2) in simp_all)
    show ?thesis
    proof (cases "iHash ?e = w \<and> key_matches idf key ?e")
      case True
      then have "\<not> IsDeleted ?e" using match states(3) by blast
      then show ?thesis using insert_loop_steps(3) [OF len False _ True] len True match by simp
    next
      case nomatch: False
      then have seen: "\<forall>j<Suc n. \<not> IsEmpty (es ! probe b w j) \<and> \<not> (occupied (es ! probe b w j) \<and> key_matches idf key (es ! probe b w j))"
        by (metis less.prems(2,4) False match' less_SucE)
      show ?thesis
      proof (cases "IsDeleted ?e")
        case True
        have "seen_deleted es b w (Suc n) (case d of None \<Rightarrow> Some (unat ix) | Some i \<Rightarrow> Some i)"
          using less.prems(2,3) True by (auto simp: seen_deleted_def less_Suc_eq split: option.splits)
        note F = less.hyps [OF lt next' this seen]
        have eq: "insert_loop es idf key w (probe_step b w) (index_mask b) d ix =
          insert_loop es idf key w (probe_step b w) (index_mask b) (case d of None \<Rightarrow> Some (unat ix) | Some i \<Rightarrow> Some i) ((ix + probe_step b w) AND index_mask b)"
          by (rule insert_loop_steps(2) [OF len False True])
        show ?thesis unfolding eq by (rule F)
      next
        case nodel: False
        have "seen_deleted es b w (Suc n) d"
          using less.prems(3) by (auto simp: seen_deleted_def less_Suc_eq split: option.splits)
        note F = less.hyps [OF lt next' this seen]
        have eq: "insert_loop es idf key w (probe_step b w) (index_mask b) d ix =
          insert_loop es idf key w (probe_step b w) (index_mask b) d ((ix + probe_step b w) AND index_mask b)"
          by (rule insert_loop_steps(4) [OF len False nodel nomatch])
        show ?thesis unfolding eq by (rule F)
      qed
    qed
  qed
qed

end
