(* ===== verification/Htab_Ops.thy ===== *)
theory Htab_Ops
  imports Htab_Spec
begin

text \<open>
  The operations of the hash table keep its invariant and do to its finite map what they say, with
  every loop ending inside the table: rehashing, shrinking and growing, insertion, removal.
\<close>

section \<open>Counting\<close>

lemma empties_update:
  "i < length es \<Longrightarrow> empties (es[i := v]) + (if IsEmpty (es ! i) then 1 else 0) = empties es + (if IsEmpty v then 1 else 0)"
proof (induction es arbitrary: i)
  case (Cons e es)
  show ?case using Cons.IH [of "i - 1"] Cons.prems by (cases i) (simp_all add: empties_def)
qed simp

lemma no_deleted_count:
  "\<forall>e \<in> set es. IsEmpty e \<or> occupied e \<Longrightarrow> empties es + size (entries es) = length es"
proof (induction es)
  case (Cons e es)
  then show ?case using states(2) [of e] by (auto simp: empties_def ent_def)
qed (simp add: empties_def)

lemma empties_replicate [simp]: "empties (replicate n blank) = n"
  by (simp add: empties_def)

lemma entries_replicate [simp]: "entries (replicate n blank) = {#}"
  by (induction n) (simp_all add: ent_def)

lemma lookup_in_replicate [simp]: "lookup_in idf (replicate n blank) key = None"
  by (induction n) (simp_all add: lookup_in_def)

lemma slots_ok_blank: "slots_ok b g (replicate (2 ^ b) blank)"
  by (simp add: slots_ok_def)

lemma good_entries_empty [simp]: "good_entries h idf {#}"
  by (simp add: good_entries_def)

lemma entries_some_empty: "1 \<le> empties es \<Longrightarrow> size (entries es) < length es"
proof -
  assume "1 \<le> empties es"
  then have "filter IsEmpty es \<noteq> []" by (auto simp: empties_def)
  then obtain i where i: "i < length es" "IsEmpty (es ! i)" by (auto simp: filter_empty_conv in_set_conv_nth)
  have "{j. j < length es \<and> occupied (es ! j)} \<subset> {..<length es}" using i states(2) by blast
  from psubset_card_mono [OF _ this] show ?thesis by (simp add: size_entries)
qed

section \<open>Thresholds\<close>

lemma SetThresholds_simps [simp]:
  "iHashFunc (SetThresholds t) = iHashFunc t" "iIdFunc (SetThresholds t) = iIdFunc t"
  "iIndexBits (SetThresholds t) = iIndexBits t" "iGeneration (SetThresholds t) = iGeneration t"
  "iElements (SetThresholds t) = iElements t" "iCount (SetThresholds t) = iCount t"
  "iEmptyCount (SetThresholds t) = iEmptyCount t" "iElementSize (SetThresholds t) = iElementSize t"
  "SetThresholds (SetThresholds t) = SetThresholds t"
  by (simp_all add: SetThresholds_def Let_def)

lemma thresholds:
  assumes "SetThresholds t = t"
  shows "iUpperThreshold t = (if iIndexBits t = 28 then 0xffffffff else 2 ^ iIndexBits t div 2 + 2 ^ iIndexBits t div 4)"
    "iLowerThreshold t = (if iIndexBits t = 4 then 0 else 2 ^ iIndexBits t div 4)"
    "iCleanThreshold t = 2 ^ iIndexBits t div 8"
  using arg_cong [OF assms, of iUpperThreshold] arg_cong [OF assms, of iLowerThreshold] arg_cong [OF assms, of iCleanThreshold]
  by (simp_all add: SetThresholds_def Let_def split: if_splits)

lemma thresholds_keep [simp]:
  "SetThresholds (t\<lparr>iElements := x\<rparr>) = (SetThresholds t)\<lparr>iElements := x\<rparr>"
  "SetThresholds (t\<lparr>iCount := n\<rparr>) = (SetThresholds t)\<lparr>iCount := n\<rparr>"
  "SetThresholds (t\<lparr>iEmptyCount := n\<rparr>) = (SetThresholds t)\<lparr>iEmptyCount := n\<rparr>"
  "SetThresholds (t\<lparr>iGeneration := g\<rparr>) = (SetThresholds t)\<lparr>iGeneration := g\<rparr>"
  by (simp_all add: SetThresholds_def Let_def)

section \<open>Rehashing\<close>

text \<open>The list the rehash leaves, in its first \<open>2 ^ nb\<close> slots.\<close>

lemma reform_list:
  assumes ok: "slots_ok ob g es0" "is_gen g" and nb: "1 \<le> nb" "nb \<le> 28" and room: "size (entries es0) < 2 ^ nb"
    and es: "es = es0 @ replicate n blank" "2 ^ nb \<le> length es"
  shows "\<exists>es'. reform_loop nb (g XOR 1) (2 ^ ob) es 0 = Some (Inr es') \<and> length es' = length es \<and>
    slots_ok nb (g XOR 1) (take (2 ^ nb) es') \<and> entries (take (2 ^ nb) es') = entries es0 \<and>
    empties (take (2 ^ nb) es') = 2 ^ nb - size (entries es0)"
proof -
  let ?g = "g XOR 1"
  have len0: "length es0 = 2 ^ ob" using ok by (simp add: slots_ok_def)
  have gen: "is_gen ?g" "?g \<noteq> g" using other_gen [OF ok(2)] by auto
  have old: "\<forall>e \<in> set es. \<not> processed ?g e"
  proof
    fix e assume "e \<in> set es"
    then consider "e = blank" | i where "i < length es0" "e = es0 ! i" unfolding es(1) by (auto simp: in_set_conv_nth)
    then show "\<not> processed ?g e"
    proof cases
      case 1
      then show ?thesis using state_of_gen [OF gen(1), of e] by (auto simp: processed_def)
    next
      case 2
      have "occupied e \<Longrightarrow> processed g e" using ok(1) 2 by (simp add: slots_ok_def)
      then show ?thesis using state_of_gen [OF gen(1), of e] gen(2) by (auto simp: processed_def)
    qed
  qed
  have beyond: "\<forall>i<length es. 2 ^ ob \<le> i \<longrightarrow> IsEmpty (es ! i)" using len0 by (simp add: es(1) nth_append)
  have ents: "entries es = entries es0" by (simp add: es(1))
  obtain es' where es': "reform_loop nb ?g (2 ^ ob) es 0 = Some (Inr es')" "length es' = length es" "entries es' = entries es"
    "\<forall>i<length es'. IsEmpty (es' ! i) \<or> processed ?g (es' ! i) \<and> settled nb ?g es' i"
    using reform_loop_table [OF gen(1) nb _ es(2) old beyond] room len0 es(1) ents by auto
  let ?ts = "take (2 ^ nb) es'"
  have lent: "length ?ts = 2 ^ nb" using es' es(2) by simp
  have tail: "\<forall>e \<in> set (drop (2 ^ nb) es'). IsEmpty e"
  proof
    fix e assume "e \<in> set (drop (2 ^ nb) es')"
    then obtain i where "i < length (drop (2 ^ nb) es')" "e = drop (2 ^ nb) es' ! i" by (metis in_set_conv_nth)
    then have "2 ^ nb + i < length es'" "e = es' ! (2 ^ nb + i)" by auto
    then show "IsEmpty e" using es'(4) by (metis settled_def not_add_less1)
  qed
  have "entries es' = entries ?ts + entries (drop (2 ^ nb) es')" by (metis append_take_drop_id entries_append)
  moreover have "entries (drop (2 ^ nb) es') = {#}" by (rule entries_unoccupied) (use tail states(2) in blast)
  ultimately have e1: "entries ?ts = entries es0" using es'(3) ents by simp
  have all: "IsEmpty (?ts ! i) \<or> occupied (?ts ! i)" if "i < 2 ^ nb" for i
  proof -
    have "IsEmpty (es' ! i) \<or> processed ?g (es' ! i)" using es'(4) less_le_trans [OF that es(2)] es'(2) by (metis)
    then show ?thesis using that state_of_gen [OF gen(1), of "es' ! i"] by (auto simp: processed_def)
  qed
  have "\<forall>e \<in> set ?ts. IsEmpty e \<or> occupied e"
  proof
    fix e assume "e \<in> set ?ts"
    then obtain i where "i < length ?ts" "e = ?ts ! i" by (metis in_set_conv_nth)
    then show "IsEmpty e \<or> occupied e" using all [of i] unfolding lent by simp
  qed
  from no_deleted_count [OF this] have e2: "empties ?ts = 2 ^ nb - size (entries es0)" using e1 lent by simp
  have "slots_ok nb ?g ?ts" unfolding slots_ok_def
  proof (intro conjI [OF lent] allI impI)
    fix i assume i: "i < length ?ts" "occupied (?ts ! i)"
    then have i2: "i < 2 ^ nb" "i < length es'" "?ts ! i = es' ! i" "occupied (es' ! i)" using lent by auto
    then have p: "processed ?g (es' ! i)" "settled nb ?g es' i" using es'(4) states(2) by blast+
    then obtain k where k: "probe nb (iHash (es' ! i)) k = i" "\<forall>j<k. processed ?g (es' ! probe nb (iHash (es' ! i)) j)"
      by (auto simp: settled_def)
    then have "\<forall>j<k. \<not> IsEmpty (?ts ! probe nb (iHash (es' ! i)) j)"
      using states(2) state_of_gen [OF gen(1)] by (auto simp: processed_def)
    then show "processed ?g (?ts ! i) \<and> reachable_slot nb ?ts i" using p k i2(3) by (auto simp: reachable_slot_def)
  qed
  then show ?thesis using es'(1,2) e1 e2 by blast
qed

text \<open>What the operations keep: the client's functions, the element size, and the invariant.\<close>

definition same_params :: "('k, 'v) RHashTableBase \<Rightarrow> ('k, 'v) RHashTableBase \<Rightarrow> bool" where
  "same_params t t' \<longleftrightarrow> iHashFunc t' = iHashFunc t \<and> iIdFunc t' = iIdFunc t \<and> iElementSize t' = iElementSize t"

definition same_contents :: "('k, 'v) RHashTableBase \<Rightarrow> ('k, 'v) RHashTableBase \<Rightarrow> bool" where
  "same_contents t t' \<longleftrightarrow> same_params t t' \<and> ht_map t' = ht_map t \<and> iCount t' = iCount t"

lemma same_contents_refl [simp]: "same_contents t t"
  by (simp add: same_contents_def same_params_def)

lemma same_params_trans: "same_params t t' \<Longrightarrow> same_params t' t'' \<Longrightarrow> same_params t t''"
  by (simp add: same_params_def)

lemma small_exp: "(2 :: nat) ^ n < 2 ^ m \<Longrightarrow> n < m"
  by (rule power_less_imp_less_exp [of 2]) simp_all

lemma bits_bound:
  assumes "table_ok t"
  shows "iIndexBits t \<le> 27" "4 \<le> iIndexBits t"
proof -
  have "2 ^ iIndexBits t * 8 \<le> 2 ^ iIndexBits t * iElementSize t" using assms by (simp add: table_ok_def)
  also have "\<dots> < 2 ^ 27 * 8" using assms by (simp add: table_ok_def)
  finally have "(2 :: nat) ^ iIndexBits t < 2 ^ 27" by simp
  from small_exp [OF this] show "iIndexBits t \<le> 27" by simp
  show "4 \<le> iIndexBits t" using assms by (simp add: table_ok_def)
qed

lemma elements_of_small: "0 < iElementSize t \<Longrightarrow> n * iElementSize t < 0x3fffffff \<Longrightarrow>
    elements_of n t = n \<and> byte_size n t = n * iElementSize t"
  by (simp add: elements_of_def byte_size_def)

lemma table_ok_some:
  assumes "table_ok t" "iElements t = Some es"
  shows "slots_ok (iIndexBits t) (iGeneration t) es" "good_entries (iHashFunc t) (iIdFunc t) (entries es)"
    "iCount t = size (entries es)" "iEmptyCount t = empties es" "1 \<le> iEmptyCount t" "length es = 2 ^ iIndexBits t"
    "is_gen (iGeneration t)" "good_keys (iHashFunc t) (iIdFunc t)" "iCount t < 2 ^ iIndexBits t"
proof -
  show l: "length es = 2 ^ iIndexBits t" using assms by (simp add: table_ok_def slots_ok_def)
  show "iCount t < 2 ^ iIndexBits t" using assms l entries_some_empty [of es] by (simp add: table_ok_def)
qed (use assms in \<open>simp_all add: table_ok_def\<close>)

text \<open>Rehashing to \<open>nb\<close> bits, after growing the memory by \<open>n\<close> slots.\<close>

lemma ReformTable_ok:
  fixes t :: "('k, 'v) RHashTableBase"
  assumes ok: "table_ok t" "iElements t = Some es0" and nb: "4 \<le> nb" "2 ^ nb * iElementSize t < 0x3fffffff"
    and room: "iCount t < 2 ^ nb" and grow: "2 ^ nb \<le> 2 ^ iIndexBits t + n"
  defines "t0 \<equiv> t\<lparr>iElements := Some (es0 @ replicate n blank)\<rparr>"
  shows "\<exists>t' es'. ReformTable nb t0 = Some (Inr t') \<and> iElements t' = Some es' \<and> length es' = 2 ^ iIndexBits t + n \<and>
    table_ok (t'\<lparr>iElements := Some (take (2 ^ nb) es')\<rparr>) \<and> same_contents t (t'\<lparr>iElements := Some (take (2 ^ nb) es')\<rparr>) \<and>
    iIndexBits t' = nb \<and> iEmptyCount t' = 2 ^ nb - iCount t \<and> iElementSize t' = iElementSize t"
proof -
  note t = table_ok_some [OF ok]
  have "2 ^ nb * 8 \<le> 2 ^ nb * iElementSize t" using ok(1) by (simp add: table_ok_def)
  also have "\<dots> < 2 ^ 27 * 8" using nb(2) by simp
  finally have "(2 :: nat) ^ nb < 2 ^ 27" by simp
  from small_exp [OF this] have b: "1 \<le> nb" "nb \<le> 28" using nb(1) by simp_all
  obtain es' where es': "reform_loop nb (iGeneration t XOR 1) (2 ^ iIndexBits t) (es0 @ replicate n blank) 0 = Some (Inr es')"
    "length es' = length (es0 @ replicate n blank)" "slots_ok nb (iGeneration t XOR 1) (take (2 ^ nb) es')"
    "entries (take (2 ^ nb) es') = entries es0" "empties (take (2 ^ nb) es') = 2 ^ nb - size (entries es0)"
    using reform_list [OF t(1) t(7) b _ refl] room grow t(3,6) by auto
  define t' where "t' = SetThresholds (t0\<lparr>iGeneration := iGeneration t0 XOR 1, iElements := Some es', iIndexBits := nb,
      iEmptyCount := 2 ^ nb - iCount t0\<rparr>)"
  have r: "ReformTable nb t0 = Some (Inr t')"
    by (simp add: ReformTable_def t0_def es'(1) t'_def Let_def)
  have f: "iElements t' = Some es'" "iIndexBits t' = nb" "iEmptyCount t' = 2 ^ nb - iCount t" "iElementSize t' = iElementSize t"
    "iGeneration t' = iGeneration t XOR 1" "iHashFunc t' = iHashFunc t" "iIdFunc t' = iIdFunc t" "iCount t' = iCount t"
    "SetThresholds t' = t'"
    by (simp_all add: t'_def t0_def)
  let ?u = "t'\<lparr>iElements := Some (take (2 ^ nb) es')\<rparr>"
  have "table_ok ?u"
    using f es' t nb room ok(1) other_gen(1) [OF t(7)] by (simp add: table_ok_def)
  moreover have "same_contents t ?u"
    using f es'(4) lookup_in_entries [OF t(2) es'(4)] ok(2) by (simp add: same_contents_def same_params_def ht_map_def ext)
  ultimately show ?thesis using r f es'(2) t(6) by auto
qed

lemma reform_here:
  assumes "table_ok t"
  shows "\<exists>t'. ReformTable (iIndexBits t) t = Some (Inr t') \<and> table_ok t' \<and> same_contents t t' \<and>
    (iElements t \<noteq> None \<longrightarrow> iElements t' \<noteq> None \<and> iEmptyCount t' = 2 ^ iIndexBits t - iCount t) \<and> iIndexBits t' = iIndexBits t"
proof (cases "iElements t")
  case None
  then show ?thesis using assms by (simp add: ReformTable_def)
next
  case (Some es0)
  note t = table_ok_some [OF assms Some]
  have size: "2 ^ iIndexBits t * iElementSize t < 0x3fffffff" using assms by (simp add: table_ok_def)
  have "t\<lparr>iElements := Some es0\<rparr> = t" using Some by simp
  then obtain t' es' where t': "ReformTable (iIndexBits t) t = Some (Inr t')" "iElements t' = Some es'" "length es' = 2 ^ iIndexBits t"
    "table_ok (t'\<lparr>iElements := Some (take (2 ^ iIndexBits t) es')\<rparr>)"
    "same_contents t (t'\<lparr>iElements := Some (take (2 ^ iIndexBits t) es')\<rparr>)"
    "iEmptyCount t' = 2 ^ iIndexBits t - iCount t" "iIndexBits t' = iIndexBits t"
    using ReformTable_ok [OF assms Some bits_bound(2) [OF assms] size t(9), of 0] by auto
  have eq: "t'\<lparr>iElements := Some (take (2 ^ iIndexBits t) es')\<rparr> = t'" using t'(2,3) by simp
  show ?thesis using t'(1,2,6,7) t'(4,5) [unfolded eq] by blast
qed

lemma ShrinkTable_ok:
  assumes "table_ok t" "iElements t = Some es" "iCount t < iLowerThreshold t"
  shows "\<exists>t'. ShrinkTable t = Some (Inr t') \<and> table_ok t' \<and> same_contents t t' \<and> iElements t' \<noteq> None"
proof -
  have th: "iIndexBits t \<noteq> 4" "iCount t < 2 ^ iIndexBits t div 4"
    using assms(1,3) thresholds(2) [of t] by (auto simp: table_ok_def split: if_splits)
  then have "4 < iIndexBits t" using bits_bound [OF assms(1)] by simp
  then obtain m where m: "iIndexBits t = Suc m" "4 \<le> m" by (cases "iIndexBits t") auto
  have size: "2 ^ m * iElementSize t < 0x3fffffff" using assms(1) m by (simp add: table_ok_def)
  have c: "iCount t < 2 ^ m" using th(2) m(1) by simp
  have "t\<lparr>iElements := Some es\<rparr> = t" using assms(2) by simp
  then obtain t' es' where t': "ReformTable m t = Some (Inr t')" "iElements t' = Some es'"
    "table_ok (t'\<lparr>iElements := Some (take (2 ^ m) es')\<rparr>)" "same_contents t (t'\<lparr>iElements := Some (take (2 ^ m) es')\<rparr>)"
    "iIndexBits t' = m" "iElementSize t' = iElementSize t"
    using ReformTable_ok [OF assms(1,2) m(2) size c, of 0] m by auto
  have "elements_of (2 ^ m) t' = 2 ^ m"
    using elements_of_small [of t' "2 ^ m"] size t'(6) assms(1) by (simp add: table_ok_def)
  then have "ShrinkTable t = Some (Inr (t'\<lparr>iElements := Some (take (2 ^ m) es')\<rparr>))"
    using t'(1,2,5) m(1) by (simp add: ShrinkTable_def)
  then show ?thesis using t'(3,4) by simp
qed

lemma ExpandTable_ok:
  assumes ok: "table_ok t" and nb: "iIndexBits t \<le> nb" "2 ^ nb * iElementSize t < 0x3fffffff"
  shows "ExpandTable heap nb t = Some (Inr (KErrNoMemory, t)) \<or>
    (\<exists>t'. ExpandTable heap nb t = Some (Inr (KErrNone, t')) \<and> table_ok t' \<and> same_contents t t' \<and> iIndexBits t' = nb \<and>
      iEmptyCount t' = 2 ^ nb - iCount t \<and> iElements t' \<noteq> None \<and> heap (2 ^ nb * iElementSize t))"
proof (cases "heap (2 ^ nb * iElementSize t)")
  case False
  then show ?thesis using nb elements_of_small [of t "2 ^ nb"] ok by (simp add: ExpandTable_def request_def table_ok_def)
next
  case True
  have sz: "elements_of (2 ^ nb) t = 2 ^ nb" "request heap (byte_size (2 ^ nb) t) = Inr True"
    using nb elements_of_small [of t "2 ^ nb"] ok True by (simp_all add: request_def table_ok_def)
  show ?thesis
  proof (cases "iElements t")
    case None
    have nb4: "4 \<le> nb" using nb bits_bound(2) [OF ok] by simp
    let ?t = "SetThresholds (t\<lparr>iElements := Some (replicate (2 ^ nb) blank), iIndexBits := nb, iEmptyCount := 2 ^ nb\<rparr>)"
    have "ExpandTable heap nb t = Some (Inr (KErrNone, ?t))" using sz None by (simp add: ExpandTable_def Let_def)
    moreover have "table_ok ?t" using ok None nb4 nb(2) slots_ok_blank [of nb] by (simp add: table_ok_def)
    moreover have "same_contents t ?t"
      using None by (simp add: same_contents_def same_params_def ht_map_def fun_eq_iff)
    ultimately show ?thesis using True None ok by (simp add: table_ok_def)
  next
    case (Some es0)
    note t = table_ok_some [OF ok Some]
    have le: "(2 :: nat) ^ iIndexBits t \<le> 2 ^ nb" using nb(1) by simp
    have nb4: "4 \<le> nb" and c: "iCount t < 2 ^ nb" using nb(1) bits_bound(2) [OF ok] less_le_trans [OF t(9) le] by simp_all
    have n: "(2 :: nat) ^ iIndexBits t + (2 ^ nb - 2 ^ iIndexBits t) = 2 ^ nb" using le by simp
    obtain t' es' where t': "ReformTable nb (t\<lparr>iElements := Some (es0 @ replicate (2 ^ nb - 2 ^ iIndexBits t) blank)\<rparr>) = Some (Inr t')"
      "iElements t' = Some es'" "length es' = 2 ^ nb"
      "table_ok (t'\<lparr>iElements := Some (take (2 ^ nb) es')\<rparr>)"
      "same_contents t (t'\<lparr>iElements := Some (take (2 ^ nb) es')\<rparr>)" "iIndexBits t' = nb"
      "iEmptyCount t' = 2 ^ nb - iCount t"
      using ReformTable_ok [OF ok Some nb4 nb(2) c, of "2 ^ nb - 2 ^ iIndexBits t", unfolded n, OF order_refl] by blast
    have eq: "t'\<lparr>iElements := Some (take (2 ^ nb) es')\<rparr> = t'" using t'(2,3) by simp
    have "ExpandTable heap nb t = Some (Inr (KErrNone, t'))"
      using t'(1) sz Some t(6) by (simp add: ExpandTable_def Let_def)
    then show ?thesis using t'(2,6,7) t'(4,5) [unfolded eq] True by blast
  qed
qed

end
