(* ===== verification/Htab_Insert.thy ===== *)
theory Htab_Insert
  imports Htab_Ops
begin

text \<open>
  Finding, inserting and removing in a hash table: what they return, and what they do to its finite
  map.
\<close>

section \<open>Changing one entry\<close>

lemma slots_ok_put:
  assumes ok: "slots_ok b g es" and i: "i < length es" and e: "\<not> IsEmpty e"
    and occ: "occupied e \<Longrightarrow> processed g e \<and> (\<exists>n. probe b (iHash e) n = i \<and> (\<forall>j<n. \<not> IsEmpty (es ! probe b (iHash e) j)))"
  shows "slots_ok b g (es[i := e])"
proof -
  have len: "length es = 2 ^ b" using ok by (simp add: slots_ok_def)
  have mono: "\<not> IsEmpty (es ! j) \<Longrightarrow> \<not> IsEmpty (es[i := e] ! j)" for j
    using e i by (cases "j = i") simp_all
  have "processed g (es[i := e] ! j) \<and> reachable_slot b (es[i := e]) j" if j: "j < length es" "occupied (es[i := e] ! j)" for j
  proof (cases "j = i")
    case True
    then show ?thesis using occ j i mono by (auto simp: reachable_slot_def)
  next
    case False
    then have "processed g (es ! j)" "reachable_slot b es j" using ok j by (auto simp: slots_ok_def)
    then show ?thesis using False mono by (auto simp: reachable_slot_def)
  qed
  then show ?thesis using len by (simp add: slots_ok_def)
qed

text \<open>
  The entries that match a key are replaced, by an entry for it or by none; nothing else changes.
\<close>

lemma good_entries_swap:
  assumes keys: "good_keys h idf" and old: "good_entries h idf (R + D)" and rest: "\<forall>x \<in># R. \<not> entry_matches idf key x"
    and N: "N = {#} \<or> N = {#(canon (h key), Some (key, v))#}"
  shows "good_entries h idf (R + N)"
proof -
  have eqv: "equivp idf" using keys by (simp add: good_keys_def)
  have "size (filter_mset (entry_matches idf k) (R + N)) \<le> 1" for k
  proof (cases "idf k key")
    case True
    have same: "idf k = idf key" using eqv True by (simp add: equivp_def)
    have "entry_matches idf k = (entry_matches idf key :: TUint32 \<times> ('a \<times> 'b) option \<Rightarrow> bool)"
      by (rule ext) (unfold entry_matches_def same, rule refl)
    then have none: "filter_mset (entry_matches idf k) R = {#}" using rest by simp
    show ?thesis unfolding filter_union_mset none using N by auto
  next
    case False
    then have none: "filter_mset (entry_matches idf k) N = {#}" using N by (auto simp: entry_matches_def)
    have "size (filter_mset (entry_matches idf k) R) \<le> size (filter_mset (entry_matches idf k) (R + D))" by simp
    moreover have "size (filter_mset (entry_matches idf k) (R + D)) \<le> 1" using old unfolding good_entries_def by blast
    ultimately show ?thesis unfolding filter_union_mset none add_0_right by linarith
  qed
  then show ?thesis using old N by (auto simp: good_entries_def)
qed

lemma lookup_in_swap:
  assumes keys: "good_keys h idf" and old: "good_entries h idf (entries es)" "entries es = R + D"
    and rest: "\<forall>x \<in># R. \<not> entry_matches idf key x" and gone: "\<forall>x \<in># D. entry_matches idf key x"
    and new: "entries es' = R + N" "N = {#} \<or> N = {#(canon (h key), Some (key, v))#}"
  shows "lookup_in idf es' k = (if idf key k then if N = {#} then None else Some v else lookup_in idf es k)"
proof -
  have eqv: "equivp idf" using keys by (simp add: good_keys_def)
  have new_ok: "good_entries h idf (entries es')" using good_entries_swap [OF keys _ rest new(2)] old new(1) by metis
  note iffs = lookup_in_iff [OF new_ok, of k] lookup_in_iff [OF old(1), of k]
  show ?thesis
  proof (cases "idf key k")
    case True
    then have sym: "idf k key" using equivp_symp [OF eqv] by blast
    have R: "\<not> idf k k'" if "(c, Some (k', u)) \<in># R" for c k' and u :: 'b
    proof
      assume "idf k k'"
      then have "idf key k'" using equivp_transp [OF eqv True] by blast
      then show False using rest that by (fastforce simp: entry_matches_def)
    qed
    show ?thesis
    proof (cases "N = {#}")
      case empty: True
      then have "lookup_in idf es' k \<noteq> Some u" for u using iffs(1) [of u] R new(1) by auto
      then show ?thesis using True empty by auto
    next
      case False
      then have "(canon (h key), Some (key, v)) \<in># entries es'" using new by auto
      then show ?thesis using iffs(1) [of v] sym True False by auto
    qed
  next
    case False
    have "lookup_in idf es' k = Some u \<longleftrightarrow> lookup_in idf es k = Some u" for u
    proof -
      have nsym: "\<not> idf k key" using False equivp_symp [OF eqv] by blast
      have D: "\<not> idf k k'" if "(c, Some (k', u)) \<in># D" for c k'
      proof
        assume "idf k k'"
        moreover have "idf key k'" using gone that by (fastforce simp: entry_matches_def)
        ultimately show False using nsym equivp_symp [OF eqv] equivp_transp [OF eqv] by blast
      qed
      show ?thesis unfolding iffs using D nsym new old(2) by auto
    qed
    then have "lookup_in idf es' k = lookup_in idf es k" by (metis not_None_eq)
    then show ?thesis using False by simp
  qed
qed

text \<open>The two ways a table changes at one slot.\<close>

lemma split_entries:
  assumes "i < length es"
  obtains R where "entries es = R + ent (es ! i)" "\<And>e. entries (es[i := e]) = R + ent e"
proof -
  have "entries (es[i := e]) + ent (es ! i) = entries es + ent e" for e by (rule entries_update [OF assms])
  from this [of blank] have R: "entries es = entries (es[i := blank]) + ent (es ! i)" by (simp add: ent_def)
  moreover have "entries (es[i := e]) = entries (es[i := blank]) + ent e" for e
  proof -
    have "entries (es[i := e]) + ent (es ! i) = entries (es[i := blank]) + ent e + ent (es ! i)"
      using entries_update [OF assms, of e] R by (simp add: ac_simps)
    then show ?thesis by simp
  qed
  ultimately show ?thesis using that by blast
qed

lemma rest_no_match:
  assumes "good_entries h idf (R + {#x#})" "entry_matches idf key x"
  shows "\<forall>y \<in># R. \<not> entry_matches idf key y"
proof
  fix y assume "y \<in># R"
  show "\<not> entry_matches idf key y"
  proof
    assume m: "entry_matches idf key y"
    have "{#y#} \<subseteq># filter_mset (entry_matches idf key) R" using \<open>y \<in># R\<close> m by simp
    from size_mset_mono [OF this] have "1 \<le> size (filter_mset (entry_matches idf key) R)" by simp
    moreover have "size (filter_mset (entry_matches idf key) (R + {#x#})) \<le> 1"
      using assms(1) unfolding good_entries_def by blast
    moreover have "size (filter_mset (entry_matches idf key) (R + {#x#})) = size (filter_mset (entry_matches idf key) R) + 1"
      using assms(2) by simp
    ultimately show False by linarith
  qed
qed

section \<open>Find\<close>

lemma no_match_lookup:
  assumes "\<forall>j<length es. \<not> (occupied (es ! j) \<and> key_matches idf key (es ! j))"
  shows "lookup_in idf es key = None"
proof -
  have "find (\<lambda>e. occupied e \<and> key_matches idf key e) es = None"
    using assms by (auto simp: find_None_iff in_set_conv_nth)
  then show ?thesis by (simp add: lookup_in_def)
qed

lemma ht_Find_ok:
  assumes ok: "table_ok t"
  shows "\<exists>r. ht_Find t key = Some (Inr r) \<and>
    (case r of None \<Rightarrow> ht_map t key = None
     | Some i \<Rightarrow> \<exists>es k v. iElements t = Some es \<and> i < length es \<and> occupied (es ! i) \<and> iData (es ! i) = Some (k, v) \<and>
         iIdFunc t key k \<and> ht_map t key = Some v)"
proof (cases "iElements t")
  case None
  then show ?thesis by (simp add: ht_Find_def ht_map_def)
next
  case (Some es)
  note t = table_ok_some [OF ok Some]
  note b = bits_bound [OF ok]
  let ?b = "iIndexBits t" and ?g = "iGeneration t" and ?w = "with_state (iHashFunc t key) (iGeneration t)"
  obtain m where m: "IsEmpty (es ! probe ?b ?w m)"
    by (rule empty_exists [of es ?b ?w]) (use t b with_state_facts(3) [OF t(7)] in auto)
  have ix: "unat (home ?b (iHashFunc t key)) = probe ?b ?w 0"
    using home_with_state [OF t(7), of ?b] b probe_0 [of ?b] by simp
  obtain r where r: "find_loop es (iIdFunc t) key ?w (probe_step ?b ?w) (index_mask ?b) (home ?b (iHashFunc t key)) = Some (Inr r)"
    "case r of None \<Rightarrow> \<forall>i<length es. \<not> (occupied (es ! i) \<and> key_matches (iIdFunc t) key (es ! i))
       | Some i \<Rightarrow> i < length es \<and> occupied (es ! i) \<and> key_matches (iIdFunc t) key (es ! i)"
    using find_loop_ok [OF t(8,2,1,7) _ _ refl m _ ix] b by auto
  have find: "ht_Find t key = Some (Inr r)" using r(1) Some by (simp add: ht_Find_def Let_def)
  show ?thesis
  proof (cases r)
    case None
    then have "lookup_in (iIdFunc t) es key = None" using r(2) by (intro no_match_lookup) simp
    then show ?thesis using find None Some by (simp add: ht_map_def)
  next
    case (Some i)
    then have i: "i < length es" "occupied (es ! i)" "key_matches (iIdFunc t) key (es ! i)" using r(2) by auto
    then obtain k v where k: "iData (es ! i) = Some (k, v)" "iIdFunc t key k"
      by (auto simp: key_matches_def split: option.splits)
    have "(canon (iHash (es ! i)), Some (k, v)) \<in># entries es" using i k by (auto simp: entries_mem)
    then have "lookup_in (iIdFunc t) es key = Some v" using lookup_in_iff [OF t(2)] k(2) by blast
    then show ?thesis using find Some i k \<open>iElements t = Some es\<close> by (auto simp: ht_map_def)
  qed
qed

section \<open>Insert\<close>

text \<open>Storing a key at a slot that has it, or at a free one when nothing has it.\<close>

lemma put_ok:
  fixes t :: "('k, 'v) RHashTableBase" and key :: 'k and v :: 'v
  assumes ok: "table_ok t" "iElements t = Some es" and i: "i < length es"
    and reach: "\<exists>n. probe (iIndexBits t) (with_state (iHashFunc t key) (iGeneration t)) n = i \<and>
      (\<forall>j<n. \<not> IsEmpty (es ! probe (iIndexBits t) (with_state (iHashFunc t key) (iGeneration t)) j))"
    and use: "occupied (es ! i) \<and> key_matches (iIdFunc t) key (es ! i) \<or>
      \<not> occupied (es ! i) \<and> (\<forall>j<length es. \<not> (occupied (es ! j) \<and> key_matches (iIdFunc t) key (es ! j)))"
    and left: "1 \<le> empties es - (if IsEmpty (es ! i) then 1 else 0)"
  defines "e \<equiv> \<lparr>iHash = with_state (iHashFunc t key) (iGeneration t), iData = Some (key, v)\<rparr>"
  defines "t' \<equiv> t\<lparr>iElements := Some (es[i := e]), iCount := iCount t + (if occupied (es ! i) then 0 else 1),
      iEmptyCount := iEmptyCount t - (if IsEmpty (es ! i) then 1 else 0)\<rparr>"
  shows "table_ok t'" "ht_map t' = (\<lambda>k. if iIdFunc t key k then Some v else ht_map t k)"
    "occupied (es ! i) \<longleftrightarrow> ht_map t key \<noteq> None"
proof -
  note t = table_ok_some [OF ok]
  let ?g = "iGeneration t" and ?idf = "iIdFunc t" and ?h = "iHashFunc t"
  have eqv: "equivp ?idf" using t(8) by (simp add: good_keys_def)
  note w = with_state_facts [OF t(7), of "?h key"]
  have e: "occupied e" "processed ?g e" "\<not> IsEmpty e" "ent e = {#(canon (?h key), Some (key, v))#}"
    using w states(2) [of e] by (auto simp: e_def occupied_def processed_def ent_def)
  have sl: "slots_ok (iIndexBits t) ?g (es[i := e])"
    by (rule slots_ok_put [OF t(1) i e(3)]) (use e(2) reach in \<open>simp add: e_def\<close>)
  obtain R where R: "entries es = R + ent (es ! i)" "entries (es[i := e]) = R + ent e"
    using split_entries [OF i] by metis
  have gone: "\<forall>x \<in># ent (es ! i). entry_matches ?idf key x"
    using use by (auto simp: ent_def key_matches_entry)
  have rest: "\<forall>x \<in># R. \<not> entry_matches ?idf key x"
  proof (cases "occupied (es ! i)")
    case True
    then show ?thesis using rest_no_match [of ?h ?idf R] t(2) R(1) gone by (simp add: ent_def)
  next
    case False
    then have "\<forall>x \<in># entries es. \<not> entry_matches ?idf key x"
      using use by (auto simp: entries_mem key_matches_entry)
    then show ?thesis using R(1) by simp
  qed
  have good: "good_entries ?h ?idf (entries (es[i := e]))"
    unfolding R(2) by (rule good_entries_swap [OF t(8) _ rest, of "ent (es ! i)"]) (use t(2) R(1) e(4) in simp_all)
  have size: "size (entries (es[i := e])) = iCount t + (if occupied (es ! i) then 0 else 1)"
    using R e(4) t(3) by (simp add: ent_def)
  have "empties (es[i := e]) = iEmptyCount t - (if IsEmpty (es ! i) then 1 else 0)"
    using empties_update [OF i, of e] e(3) t(4) by (auto split: if_splits)
  then show "table_ok t'"
    using ok(1) sl good size left t(4) by (auto simp: t'_def table_ok_def)
  have swap: "lookup_in ?idf (es[i := e]) k = (if ?idf key k then Some v else lookup_in ?idf es k)" for k
    using lookup_in_swap [OF t(8,2) R(1) rest gone R(2), of v k] e(4) by simp
  then show "ht_map t' = (\<lambda>k. if ?idf key k then Some v else ht_map t k)"
    using ok(2) by (simp add: t'_def ht_map_def fun_eq_iff)
  show "occupied (es ! i) \<longleftrightarrow> ht_map t key \<noteq> None"
  proof -
    have none: "ht_map t key = None" if no: "\<forall>j<length es. \<not> (occupied (es ! j) \<and> key_matches ?idf key (es ! j))"
      using no_match_lookup [OF no] ok(2) by (simp add: ht_map_def)
    have some: "ht_map t key \<noteq> None" if occ: "occupied (es ! i)" "key_matches ?idf key (es ! i)"
    proof -
      obtain k u where k: "iData (es ! i) = Some (k, u)" "?idf key k"
        using occ(2) by (auto simp: key_matches_def split: option.splits)
      then have "(canon (iHash (es ! i)), Some (k, u)) \<in># entries es" using i occ by (auto simp: entries_mem)
      then show ?thesis using lookup_in_iff [OF t(2), of key u] k(2) ok(2) by (auto simp: ht_map_def)
    qed
    from use show ?thesis
    proof
      assume "occupied (es ! i) \<and> key_matches ?idf key (es ! i)"
      then show ?thesis using some by simp
    next
      assume "\<not> occupied (es ! i) \<and> (\<forall>j<length es. \<not> (occupied (es ! j) \<and> key_matches ?idf key (es ! j)))"
      then show ?thesis using none by simp
    qed
  qed
qed

text \<open>What an insertion does: it fails, and then nothing had the key, or the map has the new pair.\<close>

definition inserted ::
    "'k \<Rightarrow> 'v \<Rightarrow> ('k, 'v) RHashTableBase \<Rightarrow> int \<Rightarrow> ('k, 'v) RHashTableBase \<Rightarrow> bool" where
  "inserted key v t r t' \<longleftrightarrow> table_ok t' \<and> same_params t t' \<and>
     (r = KErrNone \<and> ht_map t' = (\<lambda>k. if iIdFunc t key k then Some v else ht_map t k) \<and>
        iCount t' = iCount t + (if ht_map t key = None then 1 else 0) \<or>
      r = KErrNoMemory \<and> ht_map t key = None \<and> ht_map t' = ht_map t \<and> iCount t' = iCount t)"

definition finish_insert ::
    "'k \<Rightarrow> 'v \<Rightarrow> int \<times> nat option \<times> ('k, 'v) RHashTableBase \<Rightarrow> int \<times> ('k, 'v) RHashTableBase" where
  "finish_insert key v = (\<lambda>(r, i, t'). (r, case i of None \<Rightarrow> t' | Some i \<Rightarrow> store_data i key v t'))"

lemma ht_PtrInsert_alt: "ht_PtrInsert heap key v t = map_option (map_sum id (finish_insert key v)) (ht_Insert heap key t)"
  by (simp add: ht_PtrInsert_def finish_insert_def)

lemma update_order:
  "t\<lparr>iCount := c, iElements := x\<rparr> = t\<lparr>iElements := x, iCount := c\<rparr>"
  "t\<lparr>iCount := c, iEmptyCount := d, iElements := x\<rparr> = t\<lparr>iElements := x, iCount := c, iEmptyCount := d\<rparr>"
  by (cases t; simp)+

lemma insert_at_ok:
  fixes t :: "('k, 'v) RHashTableBase"
  assumes ok: "table_ok t" "iElements t = Some es" and room: "r = KErrNone \<Longrightarrow> 2 \<le> iEmptyCount t"
    and err: "r = KErrNone \<or> r = KErrNoMemory"
  shows "\<exists>x t'. insert_at r key t = Some (Inr x) \<and> (finish_insert key v x = (KErrNone, t') \<or> finish_insert key v x = (KErrNoMemory, t')) \<and>
    inserted key v t (fst x) t' \<and> iIndexBits t' = iIndexBits t \<and> iElements t' \<noteq> None \<and> (r = KErrNone \<longrightarrow> fst x = KErrNone)"
proof -
  note t = table_ok_some [OF ok]
  note b = bits_bound [OF ok(1)]
  let ?b = "iIndexBits t" and ?g = "iGeneration t" and ?w = "with_state (iHashFunc t key) (iGeneration t)" and ?idf = "iIdFunc t"
  note w = with_state_facts [OF t(7), of "iHashFunc t key"]
  obtain m where m: "IsEmpty (es ! probe ?b ?w m)"
    by (rule empty_exists [of es ?b ?w]) (use t b w(3) in auto)
  have ix: "unat (home ?b (iHashFunc t key)) = probe ?b ?w 0"
    using home_with_state [OF t(7), of ?b] b probe_0 [of ?b] by simp
  obtain s where s: "insert_loop es ?idf key ?w (probe_step ?b ?w) (index_mask ?b) None (home ?b (iHashFunc t key)) = Some (Inr s)"
    "slot_right es ?idf key ?b ?w s"
    using insert_loop_ok [OF t(8,2,1,7) _ _ refl m _ ix, where d = None] b by (auto simp: seen_deleted_def)
  let ?use = "\<lambda>i. iElements_update (\<lambda>_. Some (es[i := (es ! i)\<lparr>iHash := ?w\<rparr>]))"
  define e where "e = \<lparr>iHash = ?w, iData = Some (key, v)\<rparr>"
  have stored:
    "store_data i key v (t\<lparr>iElements := Some (es[i := (es ! i)\<lparr>iHash := ?w\<rparr>]), iCount := c\<rparr>) =
      t\<lparr>iElements := Some (es[i := e]), iCount := c\<rparr>"
    "store_data i key v (t\<lparr>iElements := Some (es[i := (es ! i)\<lparr>iHash := ?w\<rparr>]), iCount := c, iEmptyCount := d\<rparr>) =
      t\<lparr>iElements := Some (es[i := e]), iCount := c, iEmptyCount := d\<rparr>" if "i < length es" for i c d
    using that by (cases "es ! i"; cases t; simp add: store_data_def e_def)+
  have res: "insert_at r key t = Some (Inr (case s of
                 Duplicate i \<Rightarrow> (KErrNone, Some i, t)
               | Reuse i \<Rightarrow> (KErrNone, Some i, ?use i (t\<lparr>iCount := iCount t + 1\<rparr>))
               | Fresh i \<Rightarrow>
                   if r \<noteq> KErrNone then (r, None, t)
                   else (KErrNone, Some i, ?use i (t\<lparr>iCount := iCount t + 1, iEmptyCount := iEmptyCount t - 1\<rparr>))))"
    using s(1) ok(2) by (simp add: insert_at_def Let_def split: slot.split)
  show ?thesis
  proof (cases s)
    case (Duplicate i)
    then have i: "i < length es" "occupied (es ! i)" "key_matches ?idf key (es ! i)" using s(2) by auto
    have hw: "iHash (es ! i) = ?w" by (rule same_key_hash [OF t(8,2,1,7) i])
    have "reachable_slot ?b es i" using t(1) i by (simp add: slots_ok_def)
    then have reach: "\<exists>n. probe ?b ?w n = i \<and> (\<forall>j<n. \<not> IsEmpty (es ! probe ?b ?w j))" by (simp add: reachable_slot_def hw)
    have "\<not> IsEmpty (es ! i)" using i states(2) by blast
    note put = put_ok(1,2) [OF ok i(1) reach, of v] put_ok(3) [OF ok i(1) reach]
    have left: "1 \<le> empties es" using t(4,5) by simp
    have "store_data i key v t = t\<lparr>iElements := Some (es[i := e])\<rparr>"
      using i ok(2) hw by (cases "es ! i") (simp add: store_data_def e_def)
    then show ?thesis
      using res Duplicate put i \<open>\<not> IsEmpty (es ! i)\<close> left
      by (simp add: finish_insert_def inserted_def same_params_def e_def)
  next
    case (Reuse i)
    then have i: "i < length es" "IsDeleted (es ! i)" "\<exists>n. probe ?b ?w n = i \<and> (\<forall>j<n. \<not> IsEmpty (es ! probe ?b ?w j))"
      "\<forall>j<length es. \<not> (occupied (es ! j) \<and> key_matches ?idf key (es ! j))" using s(2) by auto
    have left: "1 \<le> empties es" using t(4,5) by simp
    have "\<not> occupied (es ! i)" "\<not> IsEmpty (es ! i)" using i(2) states(3,4) by blast+
    then show ?thesis
      using res Reuse put_ok(1,2) [OF ok i(1,3), of v] put_ok(3) [OF ok i(1,3)] i(4) left stored [OF i(1)]
      by (simp add: update_order finish_insert_def inserted_def same_params_def e_def)
  next
    case (Fresh i)
    then have i: "i < length es" "IsEmpty (es ! i)" "\<exists>n. probe ?b ?w n = i \<and> (\<forall>j<n. \<not> IsEmpty (es ! probe ?b ?w j))"
      "\<forall>j<length es. \<not> (occupied (es ! j) \<and> key_matches ?idf key (es ! j))" using s(2) by auto
    have free: "\<not> occupied (es ! i)" using i(2) states(2) by blast
    have new: "ht_map t key = None"
      using no_match_lookup [OF i(4)] ok(2) by (simp add: ht_map_def)
    show ?thesis
    proof (cases "r = KErrNone")
      case True
      then show ?thesis
        using res Fresh put_ok(1,2) [OF ok i(1,3), of v] put_ok(3) [OF ok i(1,3)] i(2,4) free room t(4) stored [OF i(1)]
        by (simp add: update_order finish_insert_def inserted_def same_params_def e_def)
    next
      case False
      then show ?thesis
        using res Fresh err ok new by (simp add: finish_insert_def inserted_def same_params_def)
    qed
  qed
qed

lemma insert_at_PtrInsert:
  assumes "table_ok t" "iElements t = Some es" "r = KErrNone \<Longrightarrow> 2 \<le> iEmptyCount t" "r = KErrNone \<or> r = KErrNoMemory"
  shows "\<exists>r' t'. map_option (map_sum id (finish_insert key v)) (insert_at r key t) = Some (Inr (r', t')) \<and> inserted key v t r' t' \<and>
    iIndexBits t' = iIndexBits t \<and> iElements t' \<noteq> None \<and> (r = KErrNone \<longrightarrow> r' = KErrNone)"
proof -
  obtain x t' where x: "insert_at r key t = Some (Inr x)" "inserted key v t (fst x) t'"
    "finish_insert key v x = (KErrNone, t') \<or> finish_insert key v x = (KErrNoMemory, t')"
    "iIndexBits t' = iIndexBits t" "iElements t' \<noteq> None" "r = KErrNone \<longrightarrow> fst x = KErrNone"
    using insert_at_ok [OF assms, of key v] by blast
  have "fst (finish_insert key v x) = fst x" by (simp add: finish_insert_def split: prod.split)
  then have "finish_insert key v x = (fst x, t')" using x(3) by auto
  then show ?thesis using x(1,2,4-6) by simp
qed

text \<open>
  Making room never panics while the entries take less than 2 to the 28 bytes, and leaves two empty
  slots or reports that memory ran out.
\<close>

lemma make_room_ok:
  assumes ok: "table_ok t" "iElements t = Some es" and few: "iCount t * iElementSize t < 2 ^ 28"
  shows "\<exists>r t'. make_room heap t = Some (Inr (r, t')) \<and> table_ok t' \<and> same_contents t t' \<and> iElements t' \<noteq> None \<and>
    (r = KErrNone \<and> 2 \<le> iEmptyCount t' \<or> r = KErrNoMemory)"
proof -
  note t = table_ok_some [OF ok] and b = bits_bound [OF ok(1)]
  obtain m where m: "iIndexBits t = 4 + m" using b(2) le_Suc_ex by blast
  have pow: "(2 :: nat) ^ iIndexBits t = 16 * 2 ^ m" by (simp add: m power_add)
  have th: "iUpperThreshold t = 12 * 2 ^ m" "iCleanThreshold t = 2 * 2 ^ m"
    using thresholds(1,3) [of t] ok(1) b(1) pow by (simp_all add: table_ok_def)
  consider "iCount t > iUpperThreshold t" | "\<not> iCount t > iUpperThreshold t" "iEmptyCount t < iCleanThreshold t"
    | "\<not> iCount t > iUpperThreshold t" "\<not> iEmptyCount t < iCleanThreshold t" by blast
  then show ?thesis
  proof cases
    case 1
    have "12 * 2 ^ m * iElementSize t \<le> iCount t * iElementSize t" using 1 th by (intro mult_le_mono1) simp
    moreover have "iCount t * iElementSize t < 268435456" using few by simp
    ultimately have "32 * (2 ^ m * iElementSize t) < 1073741823" unfolding mult.assoc by linarith
    then have size: "2 ^ (iIndexBits t + 1) * iElementSize t < 0x3fffffff" using pow by simp
    have more: "2 ^ (iIndexBits t + 1) - iCount t \<ge> 2" using t(9) pow by simp
    from ExpandTable_ok [OF ok(1) le_add1 size, of heap] show ?thesis
    proof (elim disjE exE conjE)
      assume "ExpandTable heap (iIndexBits t + 1) t = Some (Inr (KErrNoMemory, t))"
      then show ?thesis using 1 ok t(5) by (auto simp: make_room_def)
    next
      fix t' assume "ExpandTable heap (iIndexBits t + 1) t = Some (Inr (KErrNone, t'))" "table_ok t'" "same_contents t t'"
        "iEmptyCount t' = 2 ^ (iIndexBits t + 1) - iCount t" "iElements t' \<noteq> None"
      then show ?thesis using 1 more by (simp add: make_room_def)
    qed
  next
    case 2
    obtain t' where t': "ReformTable (iIndexBits t) t = Some (Inr t')" "table_ok t'" "same_contents t t'"
      "iEmptyCount t' = 2 ^ iIndexBits t - iCount t" "iElements t' \<noteq> None"
      using reform_here [OF ok(1)] ok(2) by auto
    moreover have "1 \<le> (2 :: nat) ^ m" by simp
    ultimately show ?thesis using 2 t' th pow by (auto simp: make_room_def)
  next
    case 3
    have "1 \<le> (2 :: nat) ^ m" by simp
    then have "2 \<le> iEmptyCount t" using 3(2) th(2) by linarith
    then show ?thesis using ok 3 by (auto simp: make_room_def)
  qed
qed

lemma inserted_after:
  "same_contents t t' \<Longrightarrow> inserted key v t' r t'' \<Longrightarrow> inserted key v t r t''"
  by (auto simp: same_contents_def inserted_def same_params_def)

lemma ht_PtrInsert_ok:
  assumes ok: "table_ok t" and few: "iCount t * iElementSize t < 2 ^ 28"
  shows "\<exists>r t'. ht_PtrInsert heap key v t = Some (Inr (r, t')) \<and> inserted key v t r t'"
proof (cases "iElements t")
  case None
  have sz: "elements_of (2 ^ iIndexBits t) t = 2 ^ iIndexBits t"
    "request heap (byte_size (2 ^ iIndexBits t) t) = Inr (heap (2 ^ iIndexBits t * iElementSize t))"
    using elements_of_small [of t "2 ^ iIndexBits t"] ok by (simp_all add: request_def table_ok_def)
  show ?thesis
  proof (cases "heap (2 ^ iIndexBits t * iElementSize t)")
    case True
    let ?t = "t\<lparr>iElements := Some (replicate (2 ^ iIndexBits t) blank), iEmptyCount := 2 ^ iIndexBits t\<rparr>"
    have ok': "table_ok ?t" using ok None slots_ok_blank by (simp add: table_ok_def)
    have same: "same_contents t ?t" using None by (simp add: same_contents_def same_params_def ht_map_def fun_eq_iff)
    have two: "2 \<le> iEmptyCount ?t"
      using bits_bound(2) [OF ok] power_increasing [of 1 "iIndexBits t" "2 :: nat"] by simp
    have "ht_PtrInsert heap key v t = map_option (map_sum id (finish_insert key v)) (insert_at KErrNone key ?t)"
      using None True sz by (simp add: ht_PtrInsert_alt ht_Insert_def Let_def)
    then show ?thesis
      using insert_at_PtrInsert [OF ok' _ two, of "replicate (2 ^ iIndexBits t) blank" KErrNone key v] inserted_after [OF same] by auto
  next
    case False
    then have "ht_PtrInsert heap key v t = Some (Inr (KErrNoMemory, t))"
      using None sz by (simp add: ht_PtrInsert_alt ht_Insert_def Let_def finish_insert_def)
    then show ?thesis using ok None by (simp add: inserted_def same_params_def ht_map_def)
  qed
next
  case (Some es)
  obtain r t' where r: "make_room heap t = Some (Inr (r, t'))" "table_ok t'" "same_contents t t'" "iElements t' \<noteq> None"
    "r = KErrNone \<and> 2 \<le> iEmptyCount t' \<or> r = KErrNoMemory"
    using make_room_ok [OF ok Some few, of heap] by blast
  then obtain es' where es': "iElements t' = Some es'" by blast
  have "ht_PtrInsert heap key v t = map_option (map_sum id (finish_insert key v)) (insert_at r key t')"
    using Some r(1) by (simp add: ht_PtrInsert_alt ht_Insert_def)
  then show ?thesis
    using insert_at_PtrInsert [OF r(2) es', of r key v] r(5) inserted_after [OF r(3)] by auto
qed

text \<open>Below the upper threshold an insertion asks for no memory, and leaves the size alone.\<close>

lemma ht_PtrInsert_roomy:
  assumes ok: "table_ok t" "iElements t \<noteq> None" and few: "iCount t \<le> iUpperThreshold t"
  shows "\<exists>t'. ht_PtrInsert heap key v t = Some (Inr (KErrNone, t')) \<and> inserted key v t KErrNone t' \<and>
    iIndexBits t' = iIndexBits t \<and> iElements t' \<noteq> None"
proof -
  obtain es where es: "iElements t = Some es" using ok(2) by blast
  obtain m where m: "iIndexBits t = 4 + m" using bits_bound(2) [OF ok(1)] le_Suc_ex by blast
  have pow: "(2 :: nat) ^ iIndexBits t = 16 * 2 ^ m" by (simp add: m power_add)
  have th: "iUpperThreshold t = 12 * 2 ^ m" "iCleanThreshold t = 2 * 2 ^ m"
    using thresholds(1,3) [of t] ok(1) bits_bound(1) [OF ok(1)] pow by (simp_all add: table_ok_def)
  have one: "1 \<le> (2 :: nat) ^ m" by simp
  have "\<exists>t'. make_room heap t = Some (Inr (KErrNone, t')) \<and> table_ok t' \<and> same_contents t t' \<and> iElements t' \<noteq> None \<and>
    iIndexBits t' = iIndexBits t \<and> 2 \<le> iEmptyCount t'"
  proof (cases "iEmptyCount t < iCleanThreshold t")
    case True
    obtain t' where t': "ReformTable (iIndexBits t) t = Some (Inr t')" "table_ok t'" "same_contents t t'" "iElements t' \<noteq> None"
      "iEmptyCount t' = 2 ^ iIndexBits t - iCount t" "iIndexBits t' = iIndexBits t"
      using reform_here [OF ok(1)] ok(2) by auto
    have "2 \<le> iEmptyCount t'" using t'(5) few th(1) pow one by linarith
    then show ?thesis using t' True few by (simp add: make_room_def)
  next
    case False
    then have "2 \<le> iEmptyCount t" using th(2) one by linarith
    then show ?thesis using False few ok by (simp add: make_room_def)
  qed
  then obtain t' where t': "make_room heap t = Some (Inr (KErrNone, t'))" "table_ok t'" "same_contents t t'" "iElements t' \<noteq> None"
    "iIndexBits t' = iIndexBits t" "2 \<le> iEmptyCount t'" by blast
  then obtain es' where es': "iElements t' = Some es'" by blast
  have "ht_PtrInsert heap key v t = map_option (map_sum id (finish_insert key v)) (insert_at KErrNone key t')"
    using es t'(1) by (simp add: ht_PtrInsert_alt ht_Insert_def)
  then show ?thesis
    using insert_at_PtrInsert [OF t'(2) es', of KErrNone key v] t'(5,6) inserted_after [OF t'(3)] by auto
qed

text \<open>Reserving room.\<close>

lemma reserve_bits_ok:
  "0 < g \<Longrightarrow> b \<le> reserve_bits c g b \<and> c \<le> g * 2 ^ (reserve_bits c g b - b) \<and>
    (b < reserve_bits c g b \<longrightarrow> g * 2 ^ (reserve_bits c g b - b) < 2 * c)"
proof (induction c g b rule: reserve_bits.induct)
  case (1 c g b)
  show ?case
  proof (cases "g < c")
    case True
    let ?r = "reserve_bits c (2 * g) (Suc b)"
    have step: "reserve_bits c g b = ?r" using 1(2) True by (subst reserve_bits.simps) simp
    have IH: "Suc b \<le> ?r" "c \<le> 2 * g * 2 ^ (?r - Suc b)" "Suc b < ?r \<longrightarrow> 2 * g * 2 ^ (?r - Suc b) < 2 * c"
      using 1 True by auto
    have "?r - b = Suc (?r - Suc b)" using IH(1) by simp
    then have E: "2 * g * 2 ^ (?r - Suc b) = g * 2 ^ (?r - b)" by simp
    have L: "2 * g * 2 ^ (?r - Suc b) < 2 * c" using IH(1,3) True by (cases "Suc b = ?r") auto
    show ?thesis unfolding step using IH(1) IH(2) [unfolded E] L [unfolded E] by simp
  next
    case False
    then have "reserve_bits c g b = b" by (subst reserve_bits.simps) simp
    then show ?thesis using False by simp
  qed
qed

lemma ht_Reserve_ok:
  assumes ok: "table_ok t" and few: "n * iElementSize t < 2 ^ 28"
  shows "ht_Reserve heap n t = Some (Inr (KErrNoMemory, t)) \<or>
    (\<exists>t'. ht_Reserve heap n t = Some (Inr (KErrNone, t')) \<and> table_ok t' \<and> same_contents t t' \<and> iElements t' \<noteq> None \<and>
      n \<le> iUpperThreshold t')"
proof -
  note b = bits_bound [OF ok]
  obtain m where m: "iIndexBits t = 4 + m" using b(2) le_Suc_ex by blast
  have up: "iUpperThreshold t = 12 * 2 ^ m"
    using thresholds(1) [of t] ok b(1) m by (simp add: table_ok_def power_add)
  let ?r = "reserve_bits n (iUpperThreshold t) (iIndexBits t)"
  have r: "iIndexBits t \<le> ?r" "n \<le> iUpperThreshold t * 2 ^ (?r - iIndexBits t)"
    "iIndexBits t < ?r \<Longrightarrow> iUpperThreshold t * 2 ^ (?r - iIndexBits t) < 2 * n"
    using reserve_bits_ok [of "iUpperThreshold t" "iIndexBits t" n] up by auto
  have es: "8 \<le> iElementSize t" using ok by (simp add: table_ok_def)
  have "n * 8 \<le> n * iElementSize t" using es by simp
  moreover have "n * iElementSize t < 268435456" using few by simp
  ultimately have small: "n < 0x40000000" by linarith
  show ?thesis
  proof (cases "?r > iIndexBits t \<or> iElements t = None")
    case True
    have size: "2 ^ ?r * iElementSize t < 0x3fffffff"
    proof (cases "?r = iIndexBits t")
      case True
      then show ?thesis using ok by (simp add: table_ok_def)
    next
      case False
      obtain d where d: "?r = iIndexBits t + d" using r(1) le_Suc_ex by blast
      have "12 * 2 ^ m * 2 ^ d < 2 * n" using r(1,3) False up d by (simp add: ac_simps)
      then have "12 * 2 ^ m * 2 ^ d * iElementSize t \<le> 2 * n * iElementSize t" by (intro mult_le_mono1) simp
      then have "12 * (2 ^ m * 2 ^ d * iElementSize t) \<le> 2 * (n * iElementSize t)" by (simp only: mult.assoc)
      moreover have "n * iElementSize t < 268435456" using few by simp
      ultimately have "16 * (2 ^ m * 2 ^ d * iElementSize t) < 1073741823" by linarith
      then show ?thesis unfolding d unfolding m by (simp add: power_add mult.assoc)
    qed
    have run: "ht_Reserve heap n t = ExpandTable heap ?r t" using True small by (simp add: ht_Reserve_def Let_def)
    from ExpandTable_ok [OF ok r(1) size, of heap] show ?thesis
    proof (elim disjE exE conjE)
      assume "ExpandTable heap ?r t = Some (Inr (KErrNoMemory, t))"
      then show ?thesis using run by simp
    next
      fix t' assume t': "ExpandTable heap ?r t = Some (Inr (KErrNone, t'))" "table_ok t'" "same_contents t t'"
        "iIndexBits t' = ?r" "iElements t' \<noteq> None"
      have "iUpperThreshold t' = 2 ^ ?r div 2 + 2 ^ ?r div 4"
        using thresholds(1) [of t'] t'(2,4) bits_bound(1) [OF t'(2)] by (simp add: table_ok_def)
      moreover obtain d where d: "?r = iIndexBits t + d" using r(1) le_Suc_ex by blast
      ultimately have "iUpperThreshold t' = iUpperThreshold t * 2 ^ (?r - iIndexBits t)"
        unfolding d unfolding up m by (simp add: power_add)
      then show ?thesis using run t' r(2) by auto
    qed
  next
    case False
    then have "?r = iIndexBits t" using r(1) by simp
    then have "n \<le> iUpperThreshold t" using r(2) by simp
    moreover have "ht_Reserve heap n t = Some (Inr (KErrNone, t))" using False small by (auto simp: ht_Reserve_def Let_def)
    ultimately show ?thesis using False ok by auto
  qed
qed

section \<open>Remove\<close>

definition removed :: "'k \<Rightarrow> ('k, 'v) RHashTableBase \<Rightarrow> int \<Rightarrow> ('k, 'v) RHashTableBase \<Rightarrow> bool" where
  "removed key t r t' \<longleftrightarrow> table_ok t' \<and> same_params t t' \<and> ht_map t' = (\<lambda>k. if iIdFunc t key k then None else ht_map t k) \<and>
     (if ht_map t key = None then r = KErrNotFound \<and> t' = t else r = KErrNone \<and> iCount t' + 1 = iCount t)"

lemma ht_map_cong:
  assumes "table_ok t" "iIdFunc t key k"
  shows "ht_map t k = ht_map t key"
proof (cases "iElements t")
  case None
  then show ?thesis by (simp add: ht_map_def)
next
  case (Some es)
  note t = table_ok_some [OF assms(1) Some]
  have same: "iIdFunc t key = iIdFunc t k" using t(8) assms(2) by (simp add: good_keys_def equivp_def)
  have "lookup_in (iIdFunc t) es k = Some v \<longleftrightarrow> lookup_in (iIdFunc t) es key = Some v" for v
    unfolding lookup_in_iff [OF t(2)] same ..
  then have "lookup_in (iIdFunc t) es k = lookup_in (iIdFunc t) es key" by (metis not_None_eq)
  then show ?thesis using Some by (simp add: ht_map_def)
qed

lemma Close_ok:
  assumes "table_ok t"
  shows "table_ok (ht_Close t)" "same_params t (ht_Close t)" "ht_map (ht_Close t) = (\<lambda>_. None)" "iCount (ht_Close t) = 0"
proof -
  have "(2 :: nat) ^ 4 \<le> 2 ^ iIndexBits t" by (rule power_increasing [OF bits_bound(2) [OF assms]]) simp
  then have "16 * iElementSize t \<le> 2 ^ iIndexBits t * iElementSize t" by (intro mult_le_mono1) simp
  also have "\<dots> < 0x3fffffff" using assms by (simp add: table_ok_def)
  finally show "table_ok (ht_Close t)"
    using assms by (simp add: table_ok_def ht_Close_def RHashTableBase_ctor_def is_gen_def)
qed (simp_all add: same_params_def ht_Close_def RHashTableBase_ctor_def ht_map_def fun_eq_iff)

text \<open>The slot of an entry is marked deleted: the table without it, before it shrinks or closes.\<close>

lemma delete_slot:
  assumes ok: "table_ok t" "iElements t = Some es" and i: "i < length es" "occupied (es ! i)"
    and k: "iData (es ! i) = Some (k0, v)" "iIdFunc t key k0"
  defines "t1 \<equiv> t\<lparr>iElements := Some (es[i := SetDeleted (es ! i)]), iCount := iCount t - 1\<rparr>"
  shows "table_ok t1" "ht_map t1 = (\<lambda>k. if iIdFunc t key k then None else ht_map t k)" "iCount t1 + 1 = iCount t"
    "same_params t t1"
proof -
  note t = table_ok_some [OF ok]
  let ?e = "SetDeleted (es ! i)"
  have sl: "slots_ok (iIndexBits t) (iGeneration t) (es[i := ?e])"
    by (rule slots_ok_put [OF t(1) i(1)]) simp_all
  obtain R where R: "entries es = R + ent (es ! i)" "entries (es[i := ?e]) = R + ent ?e"
    using split_entries [OF i(1)] by metis
  have e: "ent ?e = {#}" "ent (es ! i) = {#(canon (iHash (es ! i)), Some (k0, v))#}" using i k by (simp_all add: ent_def)
  have match: "entry_matches (iIdFunc t) key (canon (iHash (es ! i)), Some (k0, v))" using k(2) by (simp add: entry_matches_def)
  have rest: "\<forall>x \<in># R. \<not> entry_matches (iIdFunc t) key x"
    by (rule rest_no_match [of "iHashFunc t", OF _ match]) (use t(2) R(1) e(2) in simp)
  have good: "good_entries (iHashFunc t) (iIdFunc t) (entries (es[i := ?e]))"
    unfolding R(2) by (rule good_entries_swap [OF t(8) _ rest, of "ent (es ! i)"]) (use t(2) R(1) e(1) in simp_all)
  have size: "size (entries (es[i := ?e])) + 1 = iCount t" using R e t(3) by simp
  have "\<not> IsEmpty (es ! i)" using i(2) states(2) by blast
  then have "empties (es[i := ?e]) = iEmptyCount t" using empties_update [OF i(1), of ?e] t(4) by simp
  then show "table_ok t1" using ok(1) sl good size t(5) by (auto simp: t1_def table_ok_def)
  have "lookup_in (iIdFunc t) (es[i := ?e]) k = (if iIdFunc t key k then None else lookup_in (iIdFunc t) es k)" for k
    using lookup_in_swap [OF t(8,2) R(1) rest _ R(2), of v k] e match by simp
  then show "ht_map t1 = (\<lambda>k. if iIdFunc t key k then None else ht_map t k)" using ok(2) by (simp add: t1_def ht_map_def fun_eq_iff)
  show "iCount t1 + 1 = iCount t" "same_params t t1" using size by (simp_all add: t1_def same_params_def)
qed

lemma empty_map:
  assumes "table_ok t" "iCount t = 0"
  shows "ht_map t = (\<lambda>_. None)"
proof (cases "iElements t")
  case (Some es)
  note t = table_ok_some [OF assms(1) Some]
  have "lookup_in (iIdFunc t) es k = None" for k
    using lookup_in_iff [OF t(2), of k] t(3) assms(2) by (cases "lookup_in (iIdFunc t) es k") auto
  then show ?thesis using Some by (simp add: ht_map_def fun_eq_iff)
qed (simp add: ht_map_def fun_eq_iff)

lemma ht_Remove_ok:
  assumes ok: "table_ok t"
  shows "\<exists>r t'. ht_Remove key t = Some (Inr (r, t')) \<and> removed key t r t'"
proof -
  obtain r where r: "ht_Find t key = Some (Inr r)"
    "case r of None \<Rightarrow> ht_map t key = None
     | Some i \<Rightarrow> \<exists>es k v. iElements t = Some es \<and> i < length es \<and> occupied (es ! i) \<and> iData (es ! i) = Some (k, v) \<and>
         iIdFunc t key k \<and> ht_map t key = Some v"
    using ht_Find_ok [OF ok] by blast
  show ?thesis
  proof (cases r)
    case None
    then have none: "ht_map t key = None" using r(2) by simp
    then have "ht_map t = (\<lambda>k. if iIdFunc t key k then None else ht_map t k)" using ht_map_cong [OF ok] by auto
    then show ?thesis using None none r(1) ok by (auto simp: ht_Remove_def removed_def same_params_def)
  next
    case (Some i)
    then obtain es k v where e: "iElements t = Some es" "i < length es" "occupied (es ! i)" "iData (es ! i) = Some (k, v)"
      "iIdFunc t key k" "ht_map t key = Some v" using r(2) by auto
    define t1 where "t1 = t\<lparr>iElements := Some (es[i := SetDeleted (es ! i)]), iCount := iCount t - 1\<rparr>"
    note d = delete_slot [OF ok e(1-5), folded t1_def]
    have run: "ht_Remove key t = (if iCount t1 = 0 then Some (Inr (KErrNone, ht_Close t1))
            else if iCount t1 < iLowerThreshold t1
            then map_option (map_sum id (Pair KErrNone)) (ShrinkTable t1)
            else Some (Inr (KErrNone, t1)))"
      using r(1) Some e(1) by (simp add: ht_Remove_def t1_def Let_def)
    consider "iCount t1 = 0" | "iCount t1 \<noteq> 0" "iCount t1 < iLowerThreshold t1" | "iCount t1 \<noteq> 0" "\<not> iCount t1 < iLowerThreshold t1"
      by blast
    then show ?thesis
    proof cases
      case 1
      then show ?thesis
        using run Close_ok [OF d(1)] empty_map [OF d(1)] d same_params_trans [OF d(4)] e(6) by (simp add: removed_def)
    next
      case 2
      obtain t' where t': "ShrinkTable t1 = Some (Inr t')" "table_ok t'" "same_contents t1 t'"
        using ShrinkTable_ok [OF d(1) _ 2(2)] by (auto simp: t1_def)
      then show ?thesis using run 2 d e(6) by (auto simp: removed_def same_contents_def same_params_def)
    next
      case 3
      then show ?thesis using run d e(6) by (simp add: removed_def)
    qed
  qed
qed

section \<open>Want of memory\<close>

text \<open>An operation reports that there is no memory only when its heap refuses some request.\<close>

lemma map_sum_eq_Inr: "map_sum f g x = Inr y \<longleftrightarrow> (\<exists>z. x = Inr z \<and> y = g z)"
  by (cases x) auto

lemma ExpandTable_memory: "ExpandTable heap nb t = Some (Inr (r, t')) \<Longrightarrow> r \<noteq> KErrNone \<Longrightarrow> \<exists>n. \<not> heap n"
  by (cases "heap (byte_size (2 ^ nb) t)")
    (auto simp: ExpandTable_def request_def Let_def map_sum_eq_Inr split: if_splits option.splits)

lemma make_room_memory: "make_room heap t = Some (Inr (r, t')) \<Longrightarrow> r \<noteq> KErrNone \<Longrightarrow> \<exists>n. \<not> heap n"
  by (auto simp: make_room_def map_sum_eq_Inr split: if_splits dest: ExpandTable_memory)

lemma insert_at_error: "insert_at r key t = Some (Inr (r', i, t')) \<Longrightarrow> r' = KErrNone \<or> r' = r"
  apply (auto simp: insert_at_def Let_def map_sum_eq_Inr split: option.splits)
  subgoal for es s by (cases s) (auto split: if_splits)
  done

lemma ht_Insert_memory:
  assumes "ht_Insert heap key t = Some (Inr (r, i, t'))" "r \<noteq> KErrNone"
  shows "\<exists>n. \<not> heap n"
proof (cases "iElements t")
  case None
  note I = assms(1) [unfolded ht_Insert_def None option.case Let_def]
  show ?thesis
  proof (cases "request heap (byte_size (2 ^ iIndexBits t) t)")
    case (Inl f)
    then show ?thesis using I by simp
  next
    case (Inr b)
    show ?thesis
    proof (cases b)
      case True
      then have "b = True" by simp
      from insert_at_error [OF I [unfolded Inr this sum.case bool.case]] show ?thesis using assms(2) by blast
    next
      case False
      then show ?thesis using Inr by (auto simp: request_def split: if_splits)
    qed
  qed
next
  case (Some es)
  obtain x where x: "make_room heap t = Some x" "(case x of Inl f \<Rightarrow> Some (Inl f) | Inr (r, t') \<Rightarrow> insert_at r key t') = Some (Inr (r, i, t'))"
    using assms(1) [unfolded ht_Insert_def Some option.case bind_eq_Some_conv] by blast
  obtain r1 t1 where "x = Inr (r1, t1)" using x(2) by (cases x) auto
  then have m: "make_room heap t = Some (Inr (r1, t1))" "insert_at r1 key t1 = Some (Inr (r, i, t'))" using x by simp_all
  have "r1 = r" using insert_at_error [OF m(2)] assms(2) by blast
  then show ?thesis using make_room_memory m(1) assms(2) by blast
qed

lemma ht_ValueInsert_memory: "ht_ValueInsert heap key v t = Some (Inr (r, t')) \<Longrightarrow> r \<noteq> KErrNone \<Longrightarrow> \<exists>n. \<not> heap n"
  by (auto simp: ht_ValueInsert_def ht_PtrInsert_def map_sum_eq_Inr dest: ht_Insert_memory)

lemma ht_Reserve_memory: "ht_Reserve heap n t = Some (Inr (r, t')) \<Longrightarrow> r \<noteq> KErrNone \<Longrightarrow> \<exists>n. \<not> heap n"
  by (auto simp: ht_Reserve_def Let_def split: if_splits dest: ExpandTable_memory)

end
