(* ===== verification/Htab_Props.thy ===== *)
theory Htab_Props
  imports Htab_Insert
begin

text \<open>
  What the hash table promises its clients: a finite map over any history of insertions and
  removals, whatever memory does; the rehash as an invisible step; the room \<open>Reserve\<close> makes; and
  an iterator that visits every entry once.
\<close>

section \<open>The interface of a map\<close>

text \<open>An insertion meets a heap of its own: which requests for memory would succeed at that moment.\<close>

datatype ('k, 'v) map_op = MInsert "nat \<Rightarrow> bool" 'k 'v | MRemove 'k

fun run_ops ::
    "((nat \<Rightarrow> bool) \<Rightarrow> 'k \<Rightarrow> 'v \<Rightarrow> 't \<Rightarrow> (fault + int \<times> 't) option) \<Rightarrow> ('k \<Rightarrow> 't \<Rightarrow> (fault + int \<times> 't) option) \<Rightarrow>
     ('k, 'v) map_op list \<Rightarrow> 't \<Rightarrow> (fault + int list \<times> 't) option" where
  "run_ops ins rem [] t = Some (Inr ([], t))"
| "run_ops ins rem (oper # ops) t =
     Option.bind (case oper of MInsert heap k v \<Rightarrow> ins heap k v t | MRemove k \<Rightarrow> rem k t) (\<lambda>x. case x of
       Inl f \<Rightarrow> Some (Inl f)
     | Inr (r, t') \<Rightarrow> map_option (map_sum id (\<lambda>(rs, t''). (r # rs, t''))) (run_ops ins rem ops t'))"

text \<open>
  The finite map after a history with the given results, and whether the results are the right ones:
  an insertion fails only when its heap refuses a request, and then only for a new key; a removal fails when nothing
  has the key.
\<close>

fun map_history ::
    "('k \<Rightarrow> 'k \<Rightarrow> bool) \<Rightarrow> ('k \<Rightarrow> 'v option) \<Rightarrow> ('k, 'v) map_op list \<Rightarrow> int list \<Rightarrow> ('k \<Rightarrow> 'v option) \<Rightarrow> bool" where
  "map_history same m [] [] m' \<longleftrightarrow> m' = m"
| "map_history same m (MInsert heap k v # ops) (r # rs) m' \<longleftrightarrow>
     r = KErrNone \<and> map_history same (\<lambda>k'. if same k k' then Some v else m k') ops rs m' \<or>
     r = KErrNoMemory \<and> (\<exists>n. \<not> heap n) \<and> m k = None \<and> map_history same m ops rs m'"
| "map_history same m (MRemove k # ops) (r # rs) m' \<longleftrightarrow>
     r = (if m k = None then KErrNotFound else KErrNone) \<and>
     map_history same (\<lambda>k'. if same k k' then None else m k') ops rs m'"
| "map_history same m _ _ m' \<longleftrightarrow> False"

locale hash_map =
  fixes ok :: "'t \<Rightarrow> bool" and same :: "'t \<Rightarrow> 'k \<Rightarrow> 'k \<Rightarrow> bool" and lookup :: "'t \<Rightarrow> 'k \<Rightarrow> 'v option"
    and entries_of :: "'t \<Rightarrow> nat" and limit :: "'t \<Rightarrow> nat"
    and ins :: "(nat \<Rightarrow> bool) \<Rightarrow> 'k \<Rightarrow> 'v \<Rightarrow> 't \<Rightarrow> (fault + int \<times> 't) option" and rem :: "'k \<Rightarrow> 't \<Rightarrow> (fault + int \<times> 't) option"
  assumes ins_law: "ok t \<Longrightarrow> entries_of t < limit t \<Longrightarrow> \<exists>r t'. ins heap k v t = Some (Inr (r, t')) \<and> ok t' \<and> same t' = same t \<and>
      limit t' = limit t \<and> entries_of t' \<le> Suc (entries_of t) \<and>
      (r = KErrNone \<and> lookup t' = (\<lambda>k'. if same t k k' then Some v else lookup t k') \<or>
       r = KErrNoMemory \<and> (\<exists>n. \<not> heap n) \<and> lookup t k = None \<and> lookup t' = lookup t)"
    and rem_law: "ok t \<Longrightarrow> \<exists>r t'. rem k t = Some (Inr (r, t')) \<and> ok t' \<and> same t' = same t \<and>
      limit t' = limit t \<and> entries_of t' \<le> entries_of t \<and>
      r = (if lookup t k = None then KErrNotFound else KErrNone) \<and>
      lookup t' = (\<lambda>k'. if same t k k' then None else lookup t k')"
begin

lemma history:
  "ok t \<Longrightarrow> entries_of t + length ops \<le> limit t \<Longrightarrow>
    \<exists>rs t'. run_ops ins rem ops t = Some (Inr (rs, t')) \<and> ok t' \<and> same t' = same t \<and> limit t' = limit t \<and>
      map_history (same t) (lookup t) ops rs (lookup t')"
proof (induction ops arbitrary: t)
  case Nil
  then show ?case by simp
next
  case (Cons oper ops)
  note room = Cons.prems(2)
  show ?case
  proof (cases oper)
    case (MInsert heap k v)
    obtain r t1 where t1: "ins heap k v t = Some (Inr (r, t1))" "ok t1" "same t1 = same t" "limit t1 = limit t"
      "entries_of t1 \<le> Suc (entries_of t)"
      "r = KErrNone \<and> lookup t1 = (\<lambda>k'. if same t k k' then Some v else lookup t k') \<or>
       r = KErrNoMemory \<and> (\<exists>n. \<not> heap n) \<and> lookup t k = None \<and> lookup t1 = lookup t"
      using ins_law [OF Cons.prems(1), of heap k v] room by auto
    obtain rs t' where "run_ops ins rem ops t1 = Some (Inr (rs, t'))" "ok t'" "same t' = same t1" "limit t' = limit t1"
      "map_history (same t1) (lookup t1) ops rs (lookup t')"
      using Cons.IH [OF t1(2)] room t1(4,5) by auto
    then show ?thesis using MInsert t1 by auto
  next
    case (MRemove k)
    obtain r t1 where t1: "rem k t = Some (Inr (r, t1))" "ok t1" "same t1 = same t" "limit t1 = limit t"
      "entries_of t1 \<le> entries_of t" "r = (if lookup t k = None then KErrNotFound else KErrNone)"
      "lookup t1 = (\<lambda>k'. if same t k k' then None else lookup t k')"
      using rem_law [OF Cons.prems(1), of k] by blast
    obtain rs t' where "run_ops ins rem ops t1 = Some (Inr (rs, t'))" "ok t'" "same t' = same t1" "limit t' = limit t1"
      "map_history (same t1) (lookup t1) ops rs (lookup t')"
      using Cons.IH [OF t1(2)] room t1(4,5) by auto
    then show ?thesis using MRemove t1 by auto
  qed
qed

end

text \<open>The entries a table may hold before growing it would ask for more than a heap cell may have.\<close>

definition ht_limit :: "('k, 'v) RHashTableBase \<Rightarrow> nat" where
  "ht_limit t = (2 ^ 28 - 1) div iElementSize t + 1"

lemma ht_limit: "table_ok t \<Longrightarrow> n < ht_limit t \<longleftrightarrow> n * iElementSize t < 2 ^ 28"
  by (auto simp: ht_limit_def table_ok_def less_Suc_eq_le less_eq_div_iff_mult_less_eq)

interpretation ht: hash_map table_ok iIdFunc ht_map iCount ht_limit ht_ValueInsert ht_Remove
proof unfold_locales
  fix t :: "('k, 'v) RHashTableBase" and heap k v
  assume "table_ok t" "iCount t < ht_limit t"
  then obtain r t' where "ht_ValueInsert heap k v t = Some (Inr (r, t'))" "inserted k v t r t'"
    using ht_PtrInsert_ok [of t heap k v] ht_limit [of t "iCount t"] by (auto simp: ht_ValueInsert_def)
  moreover from this have "r = KErrNoMemory \<Longrightarrow> \<exists>n. \<not> heap n" using ht_ValueInsert_memory [of heap k v t r t'] by simp
  ultimately show "\<exists>r t'. ht_ValueInsert heap k v t = Some (Inr (r, t')) \<and> table_ok t' \<and> iIdFunc t' = iIdFunc t \<and>
      ht_limit t' = ht_limit t \<and> iCount t' \<le> Suc (iCount t) \<and>
      (r = KErrNone \<and> ht_map t' = (\<lambda>k'. if iIdFunc t k k' then Some v else ht_map t k') \<or>
       r = KErrNoMemory \<and> (\<exists>n. \<not> heap n) \<and> ht_map t k = None \<and> ht_map t' = ht_map t)"
    by (auto simp: inserted_def same_params_def ht_limit_def split: if_splits)
next
  fix t :: "('k, 'v) RHashTableBase" and k
  assume "table_ok t"
  then obtain r t' where "ht_Remove k t = Some (Inr (r, t'))" "removed k t r t'" using ht_Remove_ok [of t k] by blast
  then show "\<exists>r t'. ht_Remove k t = Some (Inr (r, t')) \<and> table_ok t' \<and> iIdFunc t' = iIdFunc t \<and>
      ht_limit t' = ht_limit t \<and> iCount t' \<le> iCount t \<and>
      r = (if ht_map t k = None then KErrNotFound else KErrNone) \<and>
      ht_map t' = (\<lambda>k'. if iIdFunc t k k' then None else ht_map t k')"
    by (auto simp: removed_def same_params_def ht_limit_def split: if_splits)
qed

lemma ctor_ok:
  assumes "good_keys h idf" "8 \<le> n" "n < 2 ^ 26 - 1"
  shows "table_ok (RHashTableBase_ctor h idf n)" "iCount (RHashTableBase_ctor h idf n) = 0"
    "ht_map (RHashTableBase_ctor h idf n) = (\<lambda>_. None)" "iIdFunc (RHashTableBase_ctor h idf n) = idf"
    "iElementSize (RHashTableBase_ctor h idf n) = n"
  using assms by (simp_all add: RHashTableBase_ctor_def table_ok_def is_gen_def ht_map_def fun_eq_iff)

section \<open>Properties\<close>

text \<open>The value \<open>Find\<close> leads to.\<close>

definition ht_value :: "('k, 'v) RHashTableBase \<Rightarrow> nat \<Rightarrow> 'v option" where
  "ht_value t i = Option.bind (iElements t) (\<lambda>es. map_option snd (iData (es ! i)))"

abbreviation ht_history ::
    "('k, 'v) map_op list \<Rightarrow> ('k, 'v) RHashTableBase \<Rightarrow> (fault + int list \<times> ('k, 'v) RHashTableBase) option" where
  "ht_history \<equiv> run_ops ht_ValueInsert ht_Remove"

lemma find_value:
  assumes "table_ok t"
  shows "\<exists>r. ht_Find t key = Some (Inr r) \<and> Option.bind r (ht_value t) = ht_map t key"
proof -
  obtain r where r: "ht_Find t key = Some (Inr r)"
    "case r of None \<Rightarrow> ht_map t key = None
     | Some i \<Rightarrow> \<exists>es k v. iElements t = Some es \<and> i < length es \<and> occupied (es ! i) \<and> iData (es ! i) = Some (k, v) \<and>
         iIdFunc t key k \<and> ht_map t key = Some v"
    using ht_Find_ok [OF assms] by blast
  then show ?thesis by (cases r) (auto simp: ht_value_def)
qed

text \<open>
  C18. The hash table is a finite map. Starting from a new table, with any hash function that respects the
  identity relation of the keys, any element size and a heap of its own for each insertion, a history of
  insertions and removals that could hold less than 256 MB of entries runs to its end: no search or
  rehash loops for ever, leaves the table or panics, however the table grows, shrinks and rehashes on
  the way. Its results are those of a finite map (an insertion fails only when its heap refuses a request
  and the key is new, and changes nothing then; a removal fails only when nothing has the key), and every later
  \<open>Find\<close> ends and gives the value of the map.
\<close>

theorem hash_table_is_a_map:
  fixes ops :: "('k, 'v) map_op list"
  assumes "good_keys h idf" "8 \<le> n" "n < 2 ^ 26 - 1" "length ops * n < 2 ^ 28"
  shows "\<exists>rs t. ht_history ops (RHashTableBase_ctor h idf n) = Some (Inr (rs, t)) \<and>
    map_history idf (\<lambda>_. None) ops rs (ht_map t) \<and>
    (\<forall>key. \<exists>r. ht_Find t key = Some (Inr r) \<and> Option.bind r (ht_value t) = ht_map t key)"
proof -
  let ?t = "RHashTableBase_ctor h idf n :: ('k, 'v) RHashTableBase"
  have c: "table_ok ?t" "iCount ?t = 0" "ht_map ?t = (\<lambda>_. None)" "iIdFunc ?t = idf" "iElementSize ?t = n"
    by (rule ctor_ok [OF assms(1-3)])+
  have "length ops < ht_limit ?t" using ht_limit [OF c(1), of "length ops"] c(5) assms(4) by simp
  then obtain rs t where "ht_history ops ?t = Some (Inr (rs, t))" "table_ok t" "map_history idf (\<lambda>_. None) ops rs (ht_map t)"
    using ht.history [OF c(1), of ops] c by auto
  then show ?thesis using find_value [of t] by blast
qed

theorem hash_table_is_a_map_witness:
  "\<exists>rs t. ht_history [MInsert (\<lambda>_. False) 1 True, MInsert (\<lambda>n. n < 200) 1 True, MInsert (\<lambda>_. True) 17 False, MRemove 1] (RHashTableBase_ctor of_nat (=) 12) = Some (Inr (rs, t)) \<and>
    map_history (=) (\<lambda>_. None) [MInsert (\<lambda>_. False) (1 :: nat) True, MInsert (\<lambda>n. n < 200) 1 True, MInsert (\<lambda>_. True) 17 False, MRemove 1] rs (ht_map t)"
proof -
  have "good_keys (of_nat :: nat \<Rightarrow> TUint32) (=)" by (simp add: good_keys_def identity_equivp)
  from hash_table_is_a_map [OF this, of 12 "[MInsert (\<lambda>_. False) 1 True, MInsert (\<lambda>n. n < 200) 1 True, MInsert (\<lambda>_. True) 17 False, MRemove 1]"]
  show ?thesis by auto
qed

text \<open>A table with one entry, for concrete instances.\<close>

definition sample_table :: "(nat, bool) RHashTableBase" where
  "sample_table = (RHashTableBase_ctor of_nat (=) 8)\<lparr>
     iElements := Some (\<lparr>iHash = 2, iData = Some (0, True)\<rparr> # replicate 15 blank), iCount := 1, iEmptyCount := 15\<rparr>"

lemma sample_ok: "table_ok sample_table"
proof -
  let ?h = "of_nat :: nat \<Rightarrow> TUint32"
  let ?t = "(RHashTableBase_ctor ?h (=) 8 :: (nat, bool) RHashTableBase)\<lparr>iElements := Some (replicate 16 blank), iEmptyCount := 16\<rparr>"
  have "good_keys ?h (=)" by (simp add: good_keys_def identity_equivp)
  from ctor_ok(1) [OF this, of 8] have ok: "table_ok ?t"
    using slots_ok_blank [of 4 EGen0] by (simp add: table_ok_def RHashTableBase_ctor_def)
  have w: "with_state (iHashFunc ?t 0) (iGeneration ?t) = 2" "iIndexBits ?t = 4"
    by (simp_all add: RHashTableBase_ctor_def with_state_def)
  have "probe 4 2 0 = 0" by (simp add: probe_def home_def drop_bit_eq_div)
  then have reach: "\<exists>n. probe (iIndexBits ?t) (with_state (iHashFunc ?t 0) (iGeneration ?t)) n = 0 \<and>
      (\<forall>j<n. \<not> IsEmpty (replicate 16 blank ! probe (iIndexBits ?t) (with_state (iHashFunc ?t 0) (iGeneration ?t)) j))"
    unfolding w by (intro exI [of _ 0]) simp
  have upd: "(replicate 16 blank)[0 := e] = e # replicate 15 blank" for e :: "(nat, bool) SElement"
    by (simp add: numeral_eq_Suc)
  have "table_ok (?t\<lparr>iElements := Some ((replicate 16 blank)[0 := \<lparr>iHash = 2, iData = Some (0, True)\<rparr>]), iCount := 1, iEmptyCount := 15\<rparr>)"
    using put_ok(1) [OF ok _ _ reach, of True] unfolding w by (simp add: RHashTableBase_ctor_def)
  then show ?thesis unfolding upd by (simp add: sample_table_def)
qed

text \<open>
  C19. Rehashing in place is invisible. To any number of bits that leaves a slot empty, after growing the
  memory or before giving some of it back, \<open>ReformTable\<close> ends without reading outside the
  table, and the table it leaves satisfies the invariant (every entry can be found from its home
  position), stands for the same map, has the same count, and has no deleted marker left.
\<close>

theorem ReformTable_invisible:
  assumes "table_ok t" "iElements t = Some es" "4 \<le> nb" "2 ^ nb * iElementSize t < 0x3fffffff" "iCount t < 2 ^ nb"
    "2 ^ nb \<le> 2 ^ iIndexBits t + n"
  shows "\<exists>t' es'. ReformTable nb (t\<lparr>iElements := Some (es @ replicate n blank)\<rparr>) = Some (Inr t') \<and>
    iElements t' = Some es' \<and> iIndexBits t' = nb \<and>
    table_ok (t'\<lparr>iElements := Some (take (2 ^ nb) es')\<rparr>) \<and>
    ht_map (t'\<lparr>iElements := Some (take (2 ^ nb) es')\<rparr>) = ht_map t \<and>
    iCount t' = iCount t \<and> iEmptyCount t' + iCount t' = 2 ^ nb"
  using ReformTable_ok [OF assms] assms(5) by (fastforce simp: same_contents_def)


theorem ReformTable_invisible_witness:
  "\<exists>t' es'. ReformTable 5 (sample_table\<lparr>iElements := Some (the (iElements sample_table) @ replicate 16 blank)\<rparr>) = Some (Inr t') \<and>
    iElements t' = Some es' \<and> table_ok (t'\<lparr>iElements := Some (take 32 es')\<rparr>) \<and> iEmptyCount t' + iCount t' = 32"
proof -
  obtain es where es: "iElements sample_table = Some es" by (simp add: sample_table_def)
  have "2 ^ 5 * iElementSize sample_table < 0x3fffffff" "iCount sample_table < 2 ^ 5" "2 ^ 5 \<le> 2 ^ iIndexBits sample_table + (16 :: nat)"
    by (simp_all add: sample_table_def RHashTableBase_ctor_def)
  from ReformTable_invisible [OF sample_ok es _ this] show ?thesis using es by auto
qed



section \<open>Iteration\<close>

text \<open>The indices a client sees that calls \<open>Next\<close> until it returns nothing, \<open>n\<close> times at most.\<close>

fun iter_visits :: "nat \<Rightarrow> ('k, 'v) RHashTableBase \<Rightarrow> int \<Rightarrow> nat list" where
  "iter_visits 0 t iIndex = []"
| "iter_visits (Suc n) t iIndex =
     (case iter_Next t iIndex of (None, _) \<Rightarrow> [] | (Some j, iIndex') \<Rightarrow> j # iter_visits n t iIndex')"

definition iter_all :: "('k, 'v) RHashTableBase \<Rightarrow> nat list" where
  "iter_all t = iter_visits (2 ^ iIndexBits t + 1) t (-1)"

lemma next_from_ok:
  "i \<le> mx \<Longrightarrow> i \<le> next_from es mx i \<and> next_from es mx i \<le> mx \<and> (\<forall>j. i \<le> j \<and> j < next_from es mx i \<longrightarrow> IsEmptyOrDeleted (es ! j)) \<and>
    (next_from es mx i < mx \<longrightarrow> \<not> IsEmptyOrDeleted (es ! next_from es mx i))"
proof (induction es mx i rule: next_from.induct)
  case (1 es mx i)
  show ?case
  proof (cases "i < mx \<and> IsEmptyOrDeleted (es ! i)")
    case True
    then have eq: "next_from es mx i = next_from es mx (Suc i)" by (subst next_from.simps) simp
    note IH = 1(1) [OF True]
    have "Suc i \<le> mx" using True by simp
    from IH [OF this] show ?thesis unfolding eq using True by (metis Suc_le_eq le_neq_implies_less Suc_leD)
  next
    case False
    then have "next_from es mx i = i" by (subst next_from.simps) (simp only: if_False)
    then show ?thesis using False 1(2) by auto
  qed
qed

lemma filter_next_from:
  assumes "i \<le> mx"
  shows "filter (\<lambda>j. \<not> IsEmptyOrDeleted (es ! j)) [i..<mx] =
    (if next_from es mx i < mx
     then next_from es mx i # filter (\<lambda>j. \<not> IsEmptyOrDeleted (es ! j)) [Suc (next_from es mx i)..<mx] else [])"
proof -
  let ?j = "next_from es mx i"
  note j = next_from_ok [OF assms, of es]
  have "[i..<mx] = [i..<?j] @ [?j..<mx]" using j upt_add_eq_append [of i ?j "mx - ?j"] by simp
  moreover have "filter (\<lambda>j. \<not> IsEmptyOrDeleted (es ! j)) [i..<?j] = []" using j by (auto simp: filter_empty_conv)
  ultimately show ?thesis using j by (simp add: upt_conv_Cons)
qed

lemma iter_visits_from:
  assumes "iElements t = Some es" "i \<le> 2 ^ iIndexBits t" "2 ^ iIndexBits t - i < n"
  shows "iter_visits n t (int i - 1) = filter (\<lambda>j. \<not> IsEmptyOrDeleted (es ! j)) [i..<2 ^ iIndexBits t]"
  using assms(2,3)
proof (induction n arbitrary: i)
  case (Suc n)
  let ?mx = "2 ^ iIndexBits t :: nat" and ?j = "next_from es (2 ^ iIndexBits t) i"
  note j = next_from_ok [OF Suc.prems(1), of es]
  have "int i - 1 < int ?mx" using Suc.prems(1) by linarith
  then have step: "iter_Next t (int i - 1) = (if ?j < ?mx then Some ?j else None, int ?j)"
    using assms(1) by (simp add: iter_Next_def Let_def)
  show ?case
  proof (cases "?j < ?mx")
    case True
    have "iter_visits n t (int (Suc ?j) - 1) = filter (\<lambda>j. \<not> IsEmptyOrDeleted (es ! j)) [Suc ?j..<?mx]"
      by (rule Suc.IH) (use True j Suc.prems in linarith)+
    then show ?thesis using step True filter_next_from [OF Suc.prems(1), of es] by simp
  next
    case False
    then show ?thesis using step filter_next_from [OF Suc.prems(1), of es] by simp
  qed
qed simp

text \<open>
  A client that calls \<open>Next\<close> until it returns nothing visits every entry of the table exactly
  once: the indices are distinct, as many as \<open>Count\<close> says, and the entries at them are the map.
\<close>

theorem iterator_visits_all:
  assumes "table_ok t" "iElements t = Some es"
  shows "distinct (iter_all t) \<and> length (iter_all t) = ht_Count t \<and>
    (ht_map t key = Some v \<longleftrightarrow> (\<exists>j k. j \<in> set (iter_all t) \<and> iData (es ! j) = Some (k, v) \<and> iIdFunc t key k))"
proof -
  note t = table_ok_some [OF assms(1,2)]
  let ?vs = "iter_all t"
  have vs: "?vs = filter (\<lambda>j. occupied (es ! j)) [0..<2 ^ iIndexBits t]"
    using iter_visits_from [OF assms(2), of 0 "2 ^ iIndexBits t + 1"] by (simp add: iter_all_def states(1))
  have "set ?vs = {j. j < length es \<and> occupied (es ! j)}" using t(6) by (auto simp: vs)
  then have "length ?vs = card {j. j < length es \<and> occupied (es ! j)}" using distinct_card [of ?vs] by (simp add: vs)
  then have "length ?vs = ht_Count t" using size_entries [of es] t(3) by (simp add: ht_Count_def)
  moreover have "ht_map t key = Some v \<longleftrightarrow> (\<exists>j k. j \<in> set ?vs \<and> iData (es ! j) = Some (k, v) \<and> iIdFunc t key k)"
    unfolding ht_map_def assms(2) option.case lookup_in_iff [OF t(2)] entries_mem vs using t(6) by auto metis+
  ultimately show ?thesis by (simp add: vs)
qed

theorem iterator_visits_all_witness:
  "length (iter_all sample_table) = 1 \<and> ht_map sample_table 0 = Some True"
proof -
  obtain es where es: "iElements sample_table = Some es" by (simp add: sample_table_def)
  have data: "es ! 0 = \<lparr>iHash = 2, iData = Some (0, True)\<rparr>" using es by (auto simp: sample_table_def)
  have two: "iter_all sample_table = iter_visits (Suc (Suc 15)) sample_table (-1)"
    by (simp add: iter_all_def sample_table_def RHashTableBase_ctor_def)
  have "iter_visits (Suc (Suc n)) sample_table (-1) = [0]" for n
    by (simp add: sample_table_def RHashTableBase_ctor_def iter_Next_def Let_def next_from.simps IsEmptyOrDeleted_def blank_def)
  then have all: "iter_all sample_table = [0]" unfolding two .
  show ?thesis using iterator_visits_all [OF sample_ok es, of 0 True] all data by (simp add: sample_table_def ht_Count_def RHashTableBase_ctor_def)
qed

section \<open>Room beyond 32 bits\<close>

text \<open>
  C21. \<open>Reserve\<close> accepts counts up to 2 to the 30, but the number of bytes it asks for is a 32-bit
  product, and the number of index bits is not held to \<open>KMaxIndexBits\<close>. For 201326593 entries of
  eight bytes it asks for no memory at all, and returns with \<open>KErrNone\<close> and a table of 29 bits with
  no elements; looking up any key then reads outside it.
\<close>

theorem Reserve_wraps:
  fixes h :: "'k \<Rightarrow> TUint32" and key :: 'k
  shows "\<exists>t :: ('k, 'v) RHashTableBase. ht_Reserve (\<lambda>n. n = 0) 201326593 (RHashTableBase_ctor h idf 8) = Some (Inr (KErrNone, t)) \<and>
    iIndexBits t = 29 \<and> iElements t = Some [] \<and> ht_Find t key = Some (Inl BadMemory)"
proof -
  let ?t = "RHashTableBase_ctor h idf 8 :: ('k, 'v) RHashTableBase"
  have u: "iUpperThreshold ?t = 12" "iIndexBits ?t = 4" "iElements ?t = None" "iElementSize ?t = 8"
    by (simp_all add: RHashTableBase_ctor_def SetThresholds_def)
  have r: "reserve_bits 201326593 12 4 = 29" by (simp add: reserve_bits.simps)
  have b: "byte_size (2 ^ 29) ?t = 0" "elements_of (2 ^ 29) ?t = 0" using u(4) by (simp_all add: byte_size_def elements_of_def)
  let ?t' = "SetThresholds (?t\<lparr>iElements := Some [], iIndexBits := 29, iEmptyCount := 2 ^ 29\<rparr>)"
  have "ht_Reserve (\<lambda>n. n = 0) 201326593 ?t = Some (Inr (KErrNone, ?t'))"
    using u r b by (simp add: ht_Reserve_def ExpandTable_def request_def Let_def)
  moreover have "ht_Find ?t' key = Some (Inl BadMemory)"
    by (simp add: ht_Find_def Let_def find_loop.simps)
  ultimately show ?thesis by auto
qed

end
