(* ===== verification/Objix.thy ===== *)
theory Objix
  imports Prelude
begin

text \<open>
  The kernel's object index, \<^verbatim>\<open>kernel/eka/kernel/objectix.cpp\<close> (class \<open>RObjectIx\<close> of
  \<^verbatim>\<open>include/kernel/kern_priv.h\<close>): the table behind the handles of a process or thread. A handle
  names a slot and an instance of its use. Slots can be reserved, so that adding a handle needs no
  memory. The table grows, is tidied and shrinks while other threads add and remove handles.
\<close>

section \<open>Handles\<close>

abbreviation (input) KErrBadHandle :: int where "KErrBadHandle \<equiv> -8"
abbreviation (input) KErrDied :: int where "KErrDied \<equiv> -13"

definition to_TInt16 :: "int \<Rightarrow> int" where
  "to_TInt16 x = (x + 0x8000) mod 0x10000 - 0x8000"

definition HandleIndex :: "int \<Rightarrow> int" where
  "HandleIndex aHandle = aHandle AND 0x7FFF"

definition HandleInstance :: "int \<Rightarrow> TUint32" where
  "HandleInstance aHandle = word_of_int (drop_bit 16 (aHandle AND 0x3FFF0000))"

definition MakeHandle :: "int \<Rightarrow> TUint32 \<Rightarrow> int" where
  "MakeHandle aIndex aInstance = push_bit 16 (uint (aInstance AND 0x3FFF)) OR (aIndex AND 0x7FFF)"

section \<open>The table\<close>

text \<open>
  A slot is a union: free, it has links and \<open>iRsvd\<close>; used, \<open>iAttr\<close> in the place of the links
  and \<open>iObjR\<close> in the place of \<open>iRsvd\<close>. The model keeps both pairs; the second one is read as
  \<open>iObjR\<close> throughout, as the code does to tell the cases apart.
\<close>

record SSlotQLink =
  iNext :: int
  iPrev :: int

record SSlot = SSlotQLink +
  iObjR :: TUint32
  iAttr :: TUint32

datatype ix_state = ENormal | ETidying | EFindingLast | ECounting | ESearching | ETerminated

text \<open>
  \<open>iIndex\<close>, \<open>iBitMap\<close> and the monitor (\<open>iObj\<close>, \<open>iBoundary\<close>, \<open>iResult\<close>) are a union in
  the code, used in different states. \<open>NextInstance\<close> is a static of the class, the same for every index.
\<close>

record RObjectIx =
  iAllocated :: int
  iCount :: int
  iActiveCount :: int
  iReservedFree :: int
  iReservedTotal :: int
  iReservedFreeHWM :: int
  iFreeQ :: "SSlotQLink list"
  iSlots :: "SSlot list"
  iAmortize :: int
  iState :: ix_state
  iModCount :: int
  iModListShift :: nat
  iIndex :: "int list"
  iBitMap :: "TUint32 list"
  iObj :: TUint32
  iBoundary :: int
  iResult :: int
  NextInstance :: TUint32

abbreviation (input) EReserved :: TUint32 where "EReserved \<equiv> 0x80000000"
abbreviation (input) EMinSlots :: int where "EMinSlots \<equiv> 8"
abbreviation (input) EMaxSlots :: int where "EMaxSlots \<equiv> 32768"
abbreviation (input) EModCount :: int where "EModCount \<equiv> 4"
abbreviation (input) EBitMapSize :: int where "EBitMapSize \<equiv> 128"
abbreviation (input) EMaxLockedIter :: int where "EMaxLockedIter \<equiv> 8"

abbreviation (input) EQFree :: int where "EQFree \<equiv> -6"
abbreviation (input) EQAltFree :: int where "EQAltFree \<equiv> -5"
abbreviation (input) EQTempFree :: int where "EQTempFree \<equiv> -4"
abbreviation (input) EQRsvd :: int where "EQRsvd \<equiv> -3"
abbreviation (input) EQAltRsvd :: int where "EQAltRsvd \<equiv> -2"
abbreviation (input) EQTempRsvd :: int where "EQTempRsvd \<equiv> -1"

abbreviation (input) EObjROccupied :: TUint32 where "EObjROccupied \<equiv> 4"
abbreviation (input) EObjRObjMask :: TUint32 where "EObjRObjMask \<equiv> 0xfffffffc"
abbreviation (input) EObjRRsvd :: TUint32 where "EObjRRsvd \<equiv> 1"

definition Occupant :: "SSlot \<Rightarrow> TUint32" where
  "Occupant aS = iObjR aS AND EObjRObjMask"

definition IsReserved :: "SSlot \<Rightarrow> bool" where
  "IsReserved aS \<longleftrightarrow> iObjR aS AND EObjRRsvd \<noteq> 0"

definition IsFreeReserved :: "SSlot \<Rightarrow> bool" where
  "IsFreeReserved aS \<longleftrightarrow> iObjR aS AND EObjRRsvd \<noteq> 0 \<and> iObjR aS < EObjROccupied"

text \<open>\<open>Link\<close>: a negative index is a queue, the others are slots.\<close>

definition link_next :: "RObjectIx \<Rightarrow> int \<Rightarrow> int" where
  "link_next ix i = (if i < 0 then iNext (iFreeQ ix ! nat (6 + i)) else iNext (iSlots ix ! nat i))"

definition link_prev :: "RObjectIx \<Rightarrow> int \<Rightarrow> int" where
  "link_prev ix i = (if i < 0 then iPrev (iFreeQ ix ! nat (6 + i)) else iPrev (iSlots ix ! nat i))"

definition set_next :: "int \<Rightarrow> int \<Rightarrow> RObjectIx \<Rightarrow> RObjectIx" where
  "set_next i v ix =
     (if i < 0 then ix\<lparr>iFreeQ := (iFreeQ ix)[nat (6 + i) := (iFreeQ ix ! nat (6 + i))\<lparr>iNext := to_TInt16 v\<rparr>]\<rparr>
      else ix\<lparr>iSlots := (iSlots ix)[nat i := (iSlots ix ! nat i)\<lparr>iNext := to_TInt16 v\<rparr>]\<rparr>)"

definition set_prev :: "int \<Rightarrow> int \<Rightarrow> RObjectIx \<Rightarrow> RObjectIx" where
  "set_prev i v ix =
     (if i < 0 then ix\<lparr>iFreeQ := (iFreeQ ix)[nat (6 + i) := (iFreeQ ix ! nat (6 + i))\<lparr>iPrev := to_TInt16 v\<rparr>]\<rparr>
      else ix\<lparr>iSlots := (iSlots ix)[nat i := (iSlots ix ! nat i)\<lparr>iPrev := to_TInt16 v\<rparr>]\<rparr>)"

definition set_objr :: "int \<Rightarrow> TUint32 \<Rightarrow> RObjectIx \<Rightarrow> RObjectIx" where
  "set_objr i v ix = ix\<lparr>iSlots := (iSlots ix)[nat i := (iSlots ix ! nat i)\<lparr>iObjR := v\<rparr>]\<rparr>"

definition Empty :: "int \<Rightarrow> RObjectIx \<Rightarrow> RObjectIx" where
  "Empty aQueue ix = set_prev aQueue aQueue (set_next aQueue aQueue ix)"

definition clear_mod_list :: "RObjectIx \<Rightarrow> RObjectIx" where
  "clear_mod_list ix = ix\<lparr>iIndex := replicate 4 0, iBitMap := replicate 4 0, iObj := 0, iBoundary := 0, iResult := 0\<rparr>"

definition RObjectIx_ctor :: "TUint32 \<Rightarrow> RObjectIx" where
  "RObjectIx_ctor next =
     fold Empty [EQFree, EQAltFree, EQTempFree, EQRsvd, EQAltRsvd, EQTempRsvd]
       \<lparr>iAllocated = 0, iCount = 0, iActiveCount = 0, iReservedFree = 0, iReservedTotal = 0, iReservedFreeHWM = 0,
        iFreeQ = replicate 6 \<lparr>iNext = 0, iPrev = 0\<rparr>, iSlots = [], iAmortize = 0, iState = ENormal, iModCount = 255,
        iModListShift = 0, iIndex = replicate 4 0, iBitMap = replicate 4 0, iObj = 0, iBoundary = 0, iResult = 0,
        NextInstance = next\<rparr>"

section \<open>Lookup\<close>

definition at_slot :: "int \<Rightarrow> TUint32 \<Rightarrow> RObjectIx \<Rightarrow> SSlot option" where
  "at_slot aHandle aUniqueID ix =
     (let i = HandleIndex aHandle; inst = HandleInstance aHandle
      in if i < iCount ix
         then
           let slot = iSlots ix ! nat i; attr = iAttr slot; objr = iObjR slot
           in if objr \<ge> EObjROccupied \<and> attr AND 0x3FFF = inst
              then if aUniqueID = 0 \<or> drop_bit 14 attr AND 0x3F = aUniqueID then Some slot else None
              else None
         else None)"

definition slot_attr :: "SSlot \<Rightarrow> TUint32" where
  "slot_attr slot = push_bit 31 (iObjR slot) OR drop_bit 20 (iAttr slot)"

text \<open>The object or 0, with the attributes of the handle, or with the attributes it must have.\<close>

definition At_attr :: "int \<Rightarrow> TUint32 \<Rightarrow> RObjectIx \<Rightarrow> TUint32 \<times> TUint32" where
  "At_attr aHandle aUniqueID ix =
     (case at_slot aHandle aUniqueID ix of
        None \<Rightarrow> (0, 0)
      | Some slot \<Rightarrow> (iObjR slot AND EObjRObjMask, slot_attr slot))"

definition At_required :: "int \<Rightarrow> TUint32 \<Rightarrow> TUint32 \<Rightarrow> RObjectIx \<Rightarrow> TUint32" where
  "At_required aHandle aUniqueID aRequiredAttr ix =
     (case at_slot aHandle aUniqueID ix of
        None \<Rightarrow> 0
      | Some slot \<Rightarrow> if aRequiredAttr AND NOT (slot_attr slot) = 0 then iObjR slot AND EObjRObjMask else 0)"

definition At_unique :: "int \<Rightarrow> TUint32 \<Rightarrow> RObjectIx \<Rightarrow> TUint32" where
  "At_unique aHandle aUniqueID ix = At_required aHandle aUniqueID 0 ix"

definition At_handle :: "int \<Rightarrow> RObjectIx \<Rightarrow> TUint32" where
  "At_handle aHandle ix = At_required aHandle 0 0 ix"

definition ix_at :: "int \<Rightarrow> RObjectIx \<Rightarrow> fault + TUint32" where
  "ix_at aIndex ix =
     (if to_TUint aIndex < iCount ix then Inr (Occupant (iSlots ix ! nat aIndex)) else Inl (Panic ''crash''))"

section \<open>Queues of free slots\<close>

text \<open>
  \<open>MarkModified\<close> records the slots that change while the table is copied to a larger one: the first
  four by index, then as bits for groups of slots.
\<close>

definition mark_bit :: "int \<Rightarrow> RObjectIx \<Rightarrow> RObjectIx" where
  "mark_bit i ix =
     (let k = drop_bit (iModListShift ix) i
      in ix\<lparr>iBitMap := (iBitMap ix)[nat (drop_bit 5 k) := iBitMap ix ! nat (drop_bit 5 k) OR push_bit (nat (k AND 31)) 1]\<rparr>)"

definition MarkModified :: "int \<Rightarrow> RObjectIx \<Rightarrow> RObjectIx" where
  "MarkModified aSlotIndex ix =
     (if iModCount ix < EModCount
      then ix\<lparr>iIndex := (iIndex ix)[nat (iModCount ix) := to_TInt16 aSlotIndex], iModCount := iModCount ix + 1\<rparr>
      else
        mark_bit aSlotIndex
          (if iModCount ix = EModCount
           then (fold mark_bit (iIndex ix) (clear_mod_list ix))\<lparr>iModCount := EModCount + 1\<rparr>
           else ix))"

definition mark_if :: "int \<Rightarrow> RObjectIx \<Rightarrow> RObjectIx" where
  "mark_if i ix = (if iModCount ix < 255 \<and> i \<ge> 0 then MarkModified i ix else ix)"

definition Dequeue :: "int \<Rightarrow> RObjectIx \<Rightarrow> RObjectIx" where
  "Dequeue aSlotIndex ix =
     (let p = link_prev ix aSlotIndex; n = link_next ix aSlotIndex
      in mark_if n (mark_if p (mark_if aSlotIndex (set_prev n p (set_next p n ix)))))"

definition AddBefore :: "int \<Rightarrow> int \<Rightarrow> RObjectIx \<Rightarrow> RObjectIx" where
  "AddBefore aBase aSlotIndex ix =
     (let prevIndex = link_prev ix aBase
      in mark_if prevIndex (mark_if aSlotIndex (mark_if aBase
           (set_prev aBase aSlotIndex (set_next prevIndex aSlotIndex
             (set_prev aSlotIndex prevIndex (set_next aSlotIndex aBase ix)))))))"

definition AddAfter :: "int \<Rightarrow> int \<Rightarrow> RObjectIx \<Rightarrow> RObjectIx" where
  "AddAfter aBase aSlotIndex ix =
     (let nextIndex = link_next ix aBase
      in mark_if nextIndex (mark_if aSlotIndex (mark_if aBase
           (set_next aBase aSlotIndex (set_prev nextIndex aSlotIndex
             (set_prev aSlotIndex aBase (set_next aSlotIndex nextIndex ix)))))))"

definition AddHead :: "int \<Rightarrow> int \<Rightarrow> RObjectIx \<Rightarrow> RObjectIx" where
  "AddHead aQueue aSlotIndex ix = AddAfter aQueue aSlotIndex ix"

definition AddTail :: "int \<Rightarrow> int \<Rightarrow> RObjectIx \<Rightarrow> RObjectIx" where
  "AddTail aQueue aSlotIndex ix = AddBefore aQueue aSlotIndex ix"

definition AppendList :: "int \<Rightarrow> int \<Rightarrow> RObjectIx \<Rightarrow> RObjectIx" where
  "AppendList aSrcQ aDestQ ix =
     (let firstNew = link_next ix aSrcQ; newLast = link_prev ix aSrcQ; oldLast = link_prev ix aDestQ
      in if firstNew \<ge> 0
         then set_prev aSrcQ aSrcQ (set_next aSrcQ aSrcQ (set_next newLast aDestQ (set_prev aDestQ newLast
                (set_prev firstNew oldLast (set_next oldLast firstNew ix)))))
         else ix)"

definition PrependList :: "int \<Rightarrow> int \<Rightarrow> RObjectIx \<Rightarrow> RObjectIx" where
  "PrependList aSrcQ aDestQ ix =
     (let newFirst = link_next ix aSrcQ; lastNew = link_prev ix aSrcQ; oldFirst = link_next ix aDestQ
      in if newFirst \<ge> 0
         then set_prev aSrcQ aSrcQ (set_next aSrcQ aSrcQ (set_prev newFirst aDestQ (set_next aDestQ newFirst
                (set_next lastNew oldFirst (set_prev oldFirst lastNew ix)))))
         else ix)"

end
