(* ===== verification/Objix_Run.thy ===== *)
theory Objix_Run
  imports Objix
begin

text \<open>
  The operations of the object index. Adding and removing a handle run under the write lock, in one step.
  The others also hold the handle mutex, which keeps them apart from each other, but they give up the
  write lock in their loops: what other threads add and remove there is an argument, one list of actions
  for each time the lock is free (nothing, when the argument is used up).
\<close>

section \<open>Adding and removing a handle\<close>

definition GetNextInstanceValue :: "TUint32 \<Rightarrow> TUint32 \<times> TUint32" where
  "GetNextInstanceValue x =
     (let y0 = drop_bit 1 x;
          y1 = y0 XOR drop_bit 11 x;
          y2 = y1 XOR drop_bit 12 x;
          y3 = y2 XOR drop_bit 13 x;
          y4 = y3 AND 0x00040000;
          y = y4 OR push_bit 1 x
      in ((drop_bit 18 y * 10133) AND 0x3FFF, y))"

text \<open>\<open>UniqueID\<close> gives the type of an object.\<close>

definition used_attr :: "(TUint32 \<Rightarrow> TUint32) \<Rightarrow> TUint32 \<Rightarrow> TUint32 \<Rightarrow> TUint32 \<Rightarrow> TUint32" where
  "used_attr UniqueID aObj aAttr inst = inst OR push_bit 14 (UniqueID aObj AND 0x3F) OR push_bit 20 aAttr"

definition used_objr :: "TUint32 \<Rightarrow> TUint32 \<Rightarrow> TUint32" where
  "used_objr aObj aAttr = aObj OR drop_bit 31 aAttr"

definition first_free :: "TUint32 \<Rightarrow> RObjectIx \<Rightarrow> int" where
  "first_free aAttr ix =
     (let fqn = (if aAttr AND EReserved \<noteq> 0 then EQRsvd else EQFree); firstfree = link_next ix fqn
      in if firstfree < 0 then link_next ix (fqn + 1) else firstfree)"

text \<open>Help for a thread that is going through the table.\<close>

definition monitor_add :: "TUint32 \<Rightarrow> int \<Rightarrow> RObjectIx \<Rightarrow> RObjectIx" where
  "monitor_add aObj firstfree ix =
     (if (iState ix = ETidying \<or> iState ix = EFindingLast) \<and> firstfree \<ge> iBoundary ix then ix\<lparr>iBoundary := firstfree\<rparr>
      else if iState ix = ECounting \<and> aObj = iObj ix \<and> firstfree < iBoundary ix then ix\<lparr>iResult := iResult ix + 1\<rparr>
      else if iState ix = ESearching \<and> aObj = iObj ix \<and> firstfree < iBoundary ix then ix\<lparr>iBoundary := firstfree\<rparr>
      else ix)"

definition fill_slot :: "int \<Rightarrow> TUint32 \<Rightarrow> TUint32 \<Rightarrow> RObjectIx \<Rightarrow> RObjectIx" where
  "fill_slot i attr objr ix = ix\<lparr>iSlots := (iSlots ix)[nat i := (iSlots ix ! nat i)\<lparr>iAttr := attr, iObjR := objr\<rparr>]\<rparr>"

definition claim_slot :: "TUint32 \<Rightarrow> TUint32 \<Rightarrow> int \<Rightarrow> RObjectIx \<Rightarrow> RObjectIx" where
  "claim_slot aObj aAttr firstfree ix =
     (let ix1 = Dequeue firstfree ix;
          ix2 = (if firstfree \<ge> iCount ix1 then ix1\<lparr>iCount := firstfree + 1\<rparr> else ix1);
          ix3 = monitor_add aObj firstfree ix2;
          ix4 = ix3\<lparr>iActiveCount := iActiveCount ix3 + 1\<rparr>
      in if aAttr AND EReserved \<noteq> 0 then ix4\<lparr>iReservedFree := iReservedFree ix4 - 1\<rparr> else ix4)"

text \<open>The result, and the contents of the slot for \<open>aSlot\<close> when none was free.\<close>

definition DoAdd :: "(TUint32 \<Rightarrow> TUint32) \<Rightarrow> TUint32 \<Rightarrow> TUint32 \<Rightarrow> RObjectIx \<Rightarrow> int \<times> (TUint32 \<times> TUint32) \<times> RObjectIx" where
  "DoAdd UniqueID aObj aAttr ix0 =
     (case GetNextInstanceValue (NextInstance ix0) of
        (inst, next) \<Rightarrow>
          let ix = ix0\<lparr>NextInstance := next\<rparr>;
              attr = used_attr UniqueID aObj aAttr inst; objr = used_objr aObj aAttr
          in if iState ix = ETerminated then (KErrDied, (0, 0), ix)
             else
               let firstfree = first_free aAttr ix
               in if firstfree \<ge> 0
                  then (MakeHandle firstfree inst, (attr, objr), fill_slot firstfree attr objr (claim_slot aObj aAttr firstfree ix))
                  else (KErrNoMemory, (attr, objr), ix))"

definition monitor_remove :: "TUint32 \<Rightarrow> int \<Rightarrow> RObjectIx \<Rightarrow> RObjectIx" where
  "monitor_remove aObj i ix =
     (if iState ix = ECounting \<and> aObj = iObj ix \<and> i < iBoundary ix then ix\<lparr>iResult := iResult ix - 1\<rparr> else ix)"

text \<open>The slot goes back to the queue of free slots; the first result is 1 when it is time to tidy the table.\<close>

definition free_reserved :: "int \<Rightarrow> RObjectIx \<Rightarrow> RObjectIx" where
  "free_reserved i ix =
     (let ix1 = ix\<lparr>iReservedFree := iReservedFree ix + 1\<rparr>;
          ix2 = (if (iState ix1 \<noteq> ETidying \<or> i < iResult ix1) \<and> i \<ge> iReservedFreeHWM ix1 then ix1\<lparr>iReservedFreeHWM := i + 1\<rparr> else ix1)
      in AddHead EQRsvd i ix2)"

definition free_normal :: "int \<Rightarrow> RObjectIx \<Rightarrow> int \<times> RObjectIx" where
  "free_normal i ix =
     (let ix1 = AddHead EQFree i ix
      in if iAmortize ix1 > 0
         then
           let ix2 = (if iAmortize ix1 > 1 then ix1\<lparr>iAmortize := iAmortize ix1 - 1\<rparr> else ix1)
           in (if iAmortize ix2 = 0 \<or> iActiveCount ix2 = 0 \<and> iReservedTotal ix2 = 0 then 1 else 0, ix2)
         else (0, ix1))"

text \<open>The result, the object and its attributes.\<close>

definition DoRemove :: "int \<Rightarrow> RObjectIx \<Rightarrow> int \<times> TUint32 \<times> TUint32 \<times> RObjectIx" where
  "DoRemove aHandle ix =
     (let i = HandleIndex aHandle; inst = HandleInstance aHandle
      in if iState ix = ETerminated then (KErrDied, 0, 0, ix)
         else
           let attr = (if i < iCount ix then iAttr (iSlots ix ! nat i) else 0);
               objr = (if i < iCount ix then iObjR (iSlots ix ! nat i) else 0)
           in if objr < EObjROccupied \<or> attr AND 0x3FFF \<noteq> inst then (KErrBadHandle, 0, 0, ix)
              else
                let aObj = objr AND EObjRObjMask;
                    xattr = push_bit 31 objr OR drop_bit 20 attr;
                    ix1 = set_objr i (objr AND EObjRRsvd) ix;
                    ix2 = monitor_remove aObj i (ix1\<lparr>iActiveCount := iActiveCount ix1 - 1\<rparr>)
                in if xattr AND EReserved \<noteq> 0 then (KErrNone, aObj, xattr, free_reserved i ix2)
                   else case free_normal i ix2 of (r, ix3) \<Rightarrow> (r, aObj, xattr, ix3))"

section \<open>Other threads\<close>

datatype ix_act = ActAdd TUint32 TUint32 | ActRemove int

fun run_act :: "(TUint32 \<Rightarrow> TUint32) \<Rightarrow> ix_act \<Rightarrow> RObjectIx \<Rightarrow> RObjectIx" where
  "run_act UniqueID (ActAdd aObj aAttr) ix = snd (snd (DoAdd UniqueID aObj aAttr ix))"
| "run_act UniqueID (ActRemove aHandle) ix = snd (snd (snd (DoRemove aHandle ix)))"

text \<open>What runs while the write lock is free, and what is left of the argument.\<close>

definition others :: "(TUint32 \<Rightarrow> TUint32) \<Rightarrow> ix_act list list \<Rightarrow> RObjectIx \<Rightarrow> RObjectIx" where
  "others UniqueID envs ix = (case envs of [] \<Rightarrow> ix | e # _ \<Rightarrow> fold (run_act UniqueID) e ix)"

section \<open>Growing\<close>

definition round_up_pow2 :: "int \<Rightarrow> int" where
  "round_up_pow2 n =
     (let a = n - 1;
          b = a OR drop_bit 1 a;
          c = b OR drop_bit 2 b;
          d = c OR drop_bit 4 c;
          e = d OR drop_bit 8 d
      in e + 1)"

text \<open>New slots from \<open>first\<close> to \<open>last\<close>, linked to each other and to their queue.\<close>

definition new_slot :: "TUint32 \<Rightarrow> int \<Rightarrow> SSlot" where
  "new_slot rsvd i = \<lparr>iNext = to_TInt16 (i + 1), iPrev = to_TInt16 (i - 1), iObjR = rsvd, iAttr = 0\<rparr>"

definition new_slots :: "TUint32 \<Rightarrow> int \<Rightarrow> int \<Rightarrow> int \<Rightarrow> SSlot list" where
  "new_slots rsvd aQueue first lastIx =
     (let slots = map (new_slot rsvd) [first..lastIx];
          slots1 = slots[0 := (slots ! 0)\<lparr>iPrev := to_TInt16 aQueue\<rparr>]
      in slots1[length slots - 1 := (slots1 ! (length slots - 1))\<lparr>iNext := to_TInt16 aQueue\<rparr>])"

definition set_queue :: "int \<Rightarrow> int \<Rightarrow> int \<Rightarrow> RObjectIx \<Rightarrow> RObjectIx" where
  "set_queue aQueue first lastIx ix = (if first \<le> lastIx then set_prev aQueue lastIx (set_next aQueue first ix) else ix)"

text \<open>
  Slots are copied to the new table while the write lock is free. An interval is what other threads do
  in that time, and when each slot is read: after the first \<open>t i\<close> of the actions.
\<close>

type_synonym interval = "ix_act list \<times> (nat \<Rightarrow> nat)"

definition slots_seen :: "(TUint32 \<Rightarrow> TUint32) \<Rightarrow> interval \<Rightarrow> RObjectIx \<Rightarrow> SSlot list" where
  "slots_seen UniqueID e ix =
     map (\<lambda>i. iSlots (fold (run_act UniqueID) (take (snd e i) (fst e)) ix) ! i) [0..<length (iSlots ix)]"

text \<open>Copying what was modified: the listed slots, or the groups of slots whose bit is set.\<close>

definition copy_slot :: "SSlot list \<Rightarrow> int \<Rightarrow> SSlot list \<Rightarrow> SSlot list" where
  "copy_slot slots i newSlots = newSlots[nat i := slots ! nat i]"

definition copy_group :: "SSlot list \<Rightarrow> nat \<Rightarrow> nat \<Rightarrow> SSlot list \<Rightarrow> SSlot list" where
  "copy_group slots shift k newSlots =
     fold (\<lambda>j. copy_slot slots (int (k * 2 ^ shift + j))) [0..<2 ^ shift] newSlots"

definition copy_modified :: "RObjectIx \<Rightarrow> SSlot list \<Rightarrow> SSlot list \<Rightarrow> SSlot list" where
  "copy_modified ix slots newSlots =
     (if iModCount ix \<le> EModCount
      then fold (copy_slot slots) (take (nat (iModCount ix)) (iIndex ix)) newSlots
      else fold (copy_group slots (iModListShift ix))
             (filter (\<lambda>k. bit (iBitMap ix ! (k div 32)) (k mod 32)) [0..<128]) newSlots)"

definition reset_mod_list :: "RObjectIx \<Rightarrow> RObjectIx" where
  "reset_mod_list ix = (clear_mod_list ix)\<lparr>iModCount := 0\<rparr>"

fun copy_loop :: "(TUint32 \<Rightarrow> TUint32) \<Rightarrow> interval list \<Rightarrow> SSlot list \<Rightarrow> RObjectIx \<Rightarrow> SSlot list \<times> RObjectIx" where
  "copy_loop UniqueID [] newSlots ix =
     (if iModCount ix = 0 then (newSlots, ix) else (copy_modified ix (iSlots ix) newSlots, reset_mod_list ix))"
| "copy_loop UniqueID (e # envs) newSlots ix =
     (if iModCount ix = 0 then (newSlots, ix)
      else
        let ix1 = reset_mod_list ix
        in copy_loop UniqueID envs (copy_modified ix (slots_seen UniqueID e ix1) newSlots) (fold (run_act UniqueID) (fst e) ix1))"

text \<open>The whole copy: of all slots first, and then of what was modified meanwhile.\<close>

definition copy_slots :: "(TUint32 \<Rightarrow> TUint32) \<Rightarrow> interval list \<Rightarrow> RObjectIx \<Rightarrow> SSlot list \<times> RObjectIx" where
  "copy_slots UniqueID envs ix =
     (if iAllocated ix = 0 then ([], ix)
      else
        let ix1 = (reset_mod_list ix)\<lparr>iState := ENormal\<rparr>
        in case envs of
             [] \<Rightarrow> copy_loop UniqueID [] (iSlots ix1) ix1
           | e # rest \<Rightarrow> copy_loop UniqueID rest (slots_seen UniqueID e ix1) (fold (run_act UniqueID) (fst e) ix1))"

definition mod_list_shift :: "int \<Rightarrow> nat" where
  "mod_list_shift newAlloc = (if newAlloc > EBitMapSize then nat (find_ms1_32 (word_of_int (newAlloc div EBitMapSize))) else 0)"

text \<open>
  The new slots: reserved ones, the one of the new handle, free ones. They are in two temporary queues
  until the table is complete.
\<close>

definition grow_queues :: "int \<Rightarrow> int \<Rightarrow> int \<Rightarrow> RObjectIx \<Rightarrow> RObjectIx" where
  "grow_queues aReserve normal newAlloc ix =
     (let ix1 = Empty EQTempRsvd (Empty EQTempFree ix); first = iAllocated ix;
          ix2 = (if aReserve > 0 then set_queue EQTempRsvd first (first + aReserve - 1) ix1 else ix1)
      in set_queue EQTempFree (first + max aReserve 0 + normal) (newAlloc - 1) ix2)"

definition grow_slots :: "int \<Rightarrow> int \<Rightarrow> (TUint32 \<times> TUint32) list \<Rightarrow> int \<Rightarrow> SSlot list" where
  "grow_slots old aReserve used newAlloc =
     (let pos = old + max aReserve 0 + int (length used)
      in (if aReserve > 0 then new_slots EObjRRsvd EQTempRsvd old (old + aReserve - 1) else []) @
         map (\<lambda>(attr, objr). \<lparr>iNext = 0, iPrev = 0, iObjR = objr, iAttr = attr\<rparr>) used @
         (if pos \<le> newAlloc - 1 then new_slots 0 EQTempFree pos (newAlloc - 1) else []))"

text \<open>The end, under the write lock: the new table is put in place.\<close>

definition grown :: "int \<Rightarrow> int \<Rightarrow> int \<Rightarrow> SSlot list \<Rightarrow> RObjectIx \<Rightarrow> RObjectIx" where
  "grown aReserve normal newAlloc newSlots ix =
     ix\<lparr>iSlots := newSlots, iCount := iAllocated ix + aReserve + normal, iActiveCount := iActiveCount ix + normal,
        iReservedFree := iReservedFree ix + aReserve, iReservedTotal := iReservedTotal ix + aReserve,
        iReservedFreeHWM := (if aReserve > 0 then iAllocated ix + aReserve else iReservedFreeHWM ix),
        iAllocated := newAlloc, iModListShift := mod_list_shift newAlloc, iState := ENormal, iModCount := 255\<rparr>"

text \<open>
  The result is the new handle, or no error. What other threads do before the copy begins is \<open>wait\<close>.
\<close>

definition Grow ::
    "(TUint32 \<Rightarrow> TUint32) \<Rightarrow> bool \<Rightarrow> ix_act list \<Rightarrow> interval list \<Rightarrow> int \<Rightarrow> (TUint32 \<times> TUint32) list \<Rightarrow> RObjectIx \<Rightarrow>
      int \<times> RObjectIx" where
  "Grow UniqueID heap wait envs aReserve aSlotData ix0 =
     (let normal = int (length aSlotData);
          wanted = iAllocated ix0 + aReserve + normal;
          newAlloc = round_up_pow2 (max wanted EMinSlots)
      in if iAllocated ix0 = EMaxSlots \<or> wanted > EMaxSlots \<or> \<not> heap then (KErrNoMemory, ix0)
         else
           let r = (case aSlotData of [] \<Rightarrow> KErrNone | (attr, objr) # _ \<Rightarrow> MakeHandle (iAllocated ix0 + max aReserve 0) attr)
           in case copy_slots UniqueID envs (fold (run_act UniqueID) wait (grow_queues aReserve normal newAlloc ix0)) of
                (copied, ix1) \<Rightarrow>
                  let ix2 = grown aReserve normal newAlloc (copied @ grow_slots (iAllocated ix0) aReserve aSlotData newAlloc) ix1;
                      ix3 = AppendList EQTempFree EQFree (AppendList EQTempRsvd EQRsvd ix2)
                  in (r, if iAmortize ix3 = 0 then ix3\<lparr>iAmortize := iAllocated ix3 div 2\<rparr> else ix3))"

definition ix_Add ::
    "(TUint32 \<Rightarrow> TUint32) \<Rightarrow> bool \<Rightarrow> ix_act list \<Rightarrow> ix_act list \<Rightarrow> interval list \<Rightarrow> TUint32 \<Rightarrow> TUint32 \<Rightarrow> RObjectIx \<Rightarrow> int \<times> RObjectIx" where
  "ix_Add UniqueID heap between wait envs aObj aAttr ix =
     (case DoAdd UniqueID aObj aAttr ix of
        (r, data, ix1) \<Rightarrow>
          if r \<ge> 0 \<or> r = KErrDied \<or> aAttr AND EReserved \<noteq> 0 then (r, ix1)
          else
            case DoAdd UniqueID aObj aAttr (fold (run_act UniqueID) between ix1) of
              (r, data, ix2) \<Rightarrow>
                if r = KErrNoMemory then Grow UniqueID heap wait envs 0 [data] ix2 else (r, ix2))"

section \<open>Reserving\<close>

definition reserve_slot :: "int \<Rightarrow> RObjectIx \<Rightarrow> RObjectIx" where
  "reserve_slot firstfree ix =
     (let ix1 = AddHead EQRsvd firstfree (set_objr firstfree EObjRRsvd (Dequeue firstfree ix));
          ix2 = (if firstfree \<ge> iCount ix1 then ix1\<lparr>iCount := firstfree + 1\<rparr> else ix1);
          ix3 = (if firstfree \<ge> iReservedFreeHWM ix2 then ix2\<lparr>iReservedFreeHWM := firstfree + 1\<rparr> else ix2)
      in ix3\<lparr>iReservedFree := iReservedFree ix3 + 1, iReservedTotal := iReservedTotal ix3 + 1\<rparr>)"

text \<open>How many slots are missing in the end.\<close>

fun reserve_loop :: "(TUint32 \<Rightarrow> TUint32) \<Rightarrow> ix_act list list \<Rightarrow> nat \<Rightarrow> RObjectIx \<Rightarrow> nat \<times> RObjectIx" where
  "reserve_loop UniqueID envs 0 ix = (0, ix)"
| "reserve_loop UniqueID envs (Suc remain) ix =
     (let f = link_next ix EQFree; firstfree = (if f < 0 then link_next ix EQAltFree else f)
      in if firstfree \<ge> 0 then reserve_loop UniqueID (tl envs) remain (others UniqueID envs (reserve_slot firstfree ix))
         else (Suc remain, ix))"

text \<open>The last free reserved slot from \<open>pos - 1\<close> down to \<open>limit\<close>.\<close>

fun unreserve_scan :: "SSlot list \<Rightarrow> nat \<Rightarrow> nat \<Rightarrow> nat option" where
  "unreserve_scan slots limit 0 = None"
| "unreserve_scan slots limit (Suc pos) =
     (if pos \<ge> limit then if IsFreeReserved (slots ! pos) then Some pos else unreserve_scan slots limit pos else None)"

lemma unreserve_scan_le: "unreserve_scan slots limit pos = Some k \<Longrightarrow> limit \<le> k \<and> k < pos"
  by (induction slots limit pos rule: unreserve_scan.induct) (auto split: if_splits)

definition unreserve_slot :: "nat \<Rightarrow> RObjectIx \<Rightarrow> RObjectIx" where
  "unreserve_slot pos ix =
     (let ix1 = set_objr (int pos) 0 ix;
          ix2 = ix1\<lparr>iReservedFree := iReservedFree ix1 - 1, iReservedTotal := iReservedTotal ix1 - 1\<rparr>
      in (AddHead EQAltFree (int pos) (Dequeue (int pos) ix2))\<lparr>iReservedFreeHWM := int pos\<rparr>)"

function unreserve_loop :: "(TUint32 \<Rightarrow> TUint32) \<Rightarrow> ix_act list list \<Rightarrow> nat \<Rightarrow> RObjectIx \<Rightarrow> fault + RObjectIx" where
  "unreserve_loop UniqueID envs remain ix =
     (if remain = 0 then Inr ix
      else if \<not> (iReservedFreeHWM ix > 0 \<and> iReservedFreeHWM ix \<le> iCount ix) then Inl (Panic ''crash'')
      else
        let limit = (if iReservedFreeHWM ix < EMaxLockedIter then 0 else iReservedFreeHWM ix - EMaxLockedIter)
        in case unreserve_scan (iSlots ix) (nat limit) (nat (iReservedFreeHWM ix)) of
             Some pos \<Rightarrow> unreserve_loop UniqueID (tl envs) (remain - 1) (others UniqueID envs (unreserve_slot pos ix))
           | None \<Rightarrow> unreserve_loop UniqueID (tl envs) remain (others UniqueID envs (ix\<lparr>iReservedFreeHWM := limit\<rparr>)))"
  by pat_completeness auto
termination
proof (relation "measures [\<lambda>(u, envs, remain, ix). length envs, \<lambda>(u, envs, remain, ix). nat (iReservedFreeHWM ix)]", goal_cases)
  case (2 UniqueID envs remain ix limit)
  then show ?case by (cases envs) (auto simp: others_def)
next
  case (3 UniqueID envs remain ix limit pos)
  then have "pos < nat (iReservedFreeHWM ix)" using unreserve_scan_le by blast
  moreover have "iReservedFreeHWM (unreserve_slot pos ix) = int pos" by (simp add: unreserve_slot_def Let_def)
  ultimately show ?case by (cases envs) (auto simp: others_def)
qed simp

declare unreserve_loop.simps [simp del]

definition UnReserveSlots :: "(TUint32 \<Rightarrow> TUint32) \<Rightarrow> ix_act list list \<Rightarrow> nat \<Rightarrow> bool \<Rightarrow> RObjectIx \<Rightarrow> fault + int \<times> RObjectIx" where
  "UnReserveSlots UniqueID envs aCount aAmortize ix =
     ebind (unreserve_loop UniqueID envs aCount ix) (\<lambda>ix1.
       let (ix2, r) =
             (if aAmortize \<and> iAmortize ix1 > 0
              then if iAmortize ix1 \<le> int aCount then (ix1\<lparr>iAmortize := 0\<rparr>, 1) else (ix1\<lparr>iAmortize := iAmortize ix1 - int aCount\<rparr>, 0)
              else (ix1, 0))
       in Inr (r, PrependList EQAltFree EQFree ix2))"

text \<open>
  What other threads do is given for the loop over the free slots, for the time before the table is
  copied, for the copy, and for giving the slots back when there is no memory. When the sum that \<open>Grow\<close>
  takes of its numbers wraps round at 32 bits it is negative, the smallest table is allocated and the
  first new slot is written behind it.
\<close>

definition ReserveSlots ::
    "(TUint32 \<Rightarrow> TUint32) \<Rightarrow> bool \<Rightarrow> ix_act list list \<Rightarrow> ix_act list \<Rightarrow> interval list \<Rightarrow> ix_act list list \<Rightarrow> nat \<Rightarrow> RObjectIx \<Rightarrow>
      fault + int \<times> RObjectIx" where
  "ReserveSlots UniqueID heap envs wait copying envs' aCount ix =
     (case reserve_loop UniqueID envs aCount ix of
        (remain, ix1) \<Rightarrow>
          if remain = 0 then Inr (KErrNone, ix1)
          else if heap \<and> iAllocated ix1 \<noteq> EMaxSlots \<and> iAllocated ix1 + int remain > 0x7FFFFFFF then Inl BadMemory
          else
            case Grow UniqueID heap wait copying (int remain) [] ix1 of
              (r, ix2) \<Rightarrow>
                if r \<noteq> KErrNone \<and> aCount > remain
                then ebind (UnReserveSlots UniqueID envs' (aCount - remain) False ix2) (\<lambda>(_, ix3). Inr (r, ix3))
                else Inr (r, ix2))"

end
