(* ===== verification/Objix_Tidy.thy ===== *)
theory Objix_Tidy
  imports Objix_Run
begin

text \<open>
  Tidying and shrinking the table, the operations that use it, and the searches through the whole table.
  All of them give up the write lock every eight slots.
\<close>

section \<open>Tidying\<close>

lemma Dequeue_iCount [simp]: "iCount (set_next i v ix) = iCount ix" "iCount (set_prev i v ix) = iCount ix" "iCount (set_objr i o1 ix) = iCount ix"
  by (simp_all add: set_next_def set_prev_def set_objr_def)

lemma mark_iCount [simp]: "iCount (mark_if i ix) = iCount ix"
proof -
  have bit: "iCount (mark_bit j ix) = iCount ix" for j ix by (simp add: mark_bit_def Let_def)
  have "iCount (fold mark_bit js ix) = iCount ix" for js ix by (induction js arbitrary: ix) (simp_all add: bit)
  then show ?thesis by (simp add: mark_if_def MarkModified_def bit clear_mod_list_def)
qed

lemma queue_iCount [simp]: "iCount (Dequeue i ix) = iCount ix" "iCount (AddHead q i ix) = iCount ix" "iCount (AddTail q i ix) = iCount ix"
  by (simp_all add: Dequeue_def AddHead_def AddTail_def AddAfter_def AddBefore_def Let_def)

text \<open>What the scan carries along: the last slot that stays, the end of the free reserved ones, and how many reserved slots are left.\<close>

record tidy_scan =
  pos :: int
  hwm :: int
  rfhwm :: int
  rsvd_remain :: int

text \<open>Occupied slots are skipped, up to \<open>limit\<close>.\<close>

function skip_used :: "SSlot list \<Rightarrow> int \<Rightarrow> tidy_scan \<Rightarrow> tidy_scan" where
  "skip_used slots limit s =
     (if pos s < limit \<and> Occupant (slots ! nat (pos s)) \<noteq> 0
      then skip_used slots limit (s\<lparr>pos := pos s + 1, hwm := pos s,
             rsvd_remain := rsvd_remain s - (if IsReserved (slots ! nat (pos s)) then 1 else 0)\<rparr>)
      else s)"
  by pat_completeness auto
termination by (relation "measure (\<lambda>(slots, limit, s). nat (limit - pos s))") auto

declare skip_used.simps [simp del]

text \<open>A free slot moves to an alternate queue; a reserved one changes places with the lowest free slot passed before.\<close>

definition tidy_free :: "tidy_scan \<Rightarrow> RObjectIx \<Rightarrow> tidy_scan \<times> RObjectIx" where
  "tidy_free s ix =
     (if IsReserved (iSlots ix ! nat (pos s))
      then
        let ix1 = Dequeue (pos s) ix;
            substitute = link_next ix1 EQAltFree;
            rsvpos = (if substitute \<ge> 0 then substitute else pos s);
            ix2 = (if substitute \<ge> 0
                   then AddTail EQAltFree (pos s) (set_objr (pos s) 0
                          (AddTail EQAltRsvd substitute (set_objr substitute EObjRRsvd (Dequeue substitute ix1))))
                   else AddTail EQAltRsvd (pos s) ix1)
        in (s\<lparr>rfhwm := (if rsvpos \<ge> rfhwm s then rsvpos + 1 else rfhwm s), hwm := (if rsvpos > hwm s then rsvpos else hwm s),
              rsvd_remain := rsvd_remain s - 1, pos := pos s + 1\<rparr>, ix2)
      else (s\<lparr>pos := pos s + 1\<rparr>, AddTail EQAltFree (pos s) (Dequeue (pos s) ix)))"

lemma tidy_free_step: "pos (fst (tidy_free s ix)) = pos s + 1" "iCount (snd (tidy_free s ix)) = iCount ix"
  by (simp_all add: tidy_free_def Let_def)

lemma skip_used_pos: "pos s \<le> pos (skip_used slots limit s) \<and> (pos s \<le> limit \<longrightarrow> pos (skip_used slots limit s) \<le> limit)"
proof (induction slots limit s rule: skip_used.induct)
  case (1 slots limit s)
  show ?case
  proof (cases "pos s < limit \<and> Occupant (slots ! nat (pos s)) \<noteq> 0")
    case True
    from 1 [OF this] show ?thesis using True by (simp add: skip_used.simps [of slots limit s])
  next
    case False
    then have "skip_used slots limit s = s" unfolding skip_used.simps [of slots limit s] by (rule if_not_P)
    then show ?thesis by simp
  qed
qed

function tidy_loop :: "(TUint32 \<Rightarrow> TUint32) \<Rightarrow> ix_act list list \<Rightarrow> tidy_scan \<Rightarrow> RObjectIx \<Rightarrow> tidy_scan \<times> RObjectIx" where
  "tidy_loop UniqueID envs s ix =
     (let limit = min (pos s + EMaxLockedIter) (iCount ix);
          s1 = skip_used (iSlots ix) limit s
      in if pos s1 \<ge> iCount ix then (s1, ix)
         else
           case (if pos s1 < limit then tidy_free s1 ix else (s1, ix)) of
             (s2, ix1) \<Rightarrow> tidy_loop UniqueID (tl envs) s2 (others UniqueID envs (ix1\<lparr>iResult := pos s2\<rparr>)))"
  by pat_completeness auto
termination
proof (relation "measures [\<lambda>(u, envs, s, ix). length envs, \<lambda>(u, envs, s, ix). nat (iCount ix - pos s)]", goal_cases)
  case (2 UniqueID envs s ix limit s1 s2 ix1)
  have t: "(if pos s1 < limit then tidy_free s1 ix else (s1, ix)) = (s2, ix1)" using 2 by simp
  have step: "pos s < pos s2 \<and> iCount ix1 = iCount ix"
  proof (cases "pos s1 < limit")
    case True
    then have "tidy_free s1 ix = (s2, ix1)" using t by simp
    then show ?thesis using 2(2) tidy_free_step [of s1 ix] skip_used_pos [of s "iSlots ix" limit] by simp
  next
    case False
    have "pos s < limit" using 2 skip_used_pos [of s "iSlots ix" limit] by auto
    then show ?thesis using t False skip_used_pos [of s "iSlots ix" limit] 2(2) by auto
  qed
  then show ?case using 2 skip_used_pos [of s "iSlots ix" limit] by (cases envs) (auto simp: others_def)
qed simp

declare tidy_loop.simps [simp del]

definition reset_index :: "RObjectIx \<Rightarrow> RObjectIx" where
  "reset_index ix =
     fold Empty [EQFree, EQAltFree, EQTempFree, EQRsvd, EQAltRsvd, EQTempRsvd]
       (clear_mod_list (ix\<lparr>iAllocated := 0, iCount := 0, iReservedFree := 0, iReservedFreeHWM := 0, iSlots := [], iAmortize := 0,
          iState := ENormal, iModCount := 255, iModListShift := 0\<rparr>))"

text \<open>The free slots that were in use go between the ones freed during the scan and the ones never used.\<close>

definition merge_free :: "int \<Rightarrow> RObjectIx \<Rightarrow> RObjectIx" where
  "merge_free split ix =
     (if split < iAllocated ix
      then
        let lastUsed = link_prev ix split
        in if lastUsed \<noteq> EQFree
           then
             let lastUnused = link_prev ix EQFree;
                 ix1 = set_next lastUsed EQFree (set_prev EQFree lastUsed ix);
                 ix2 = AppendList EQAltFree EQFree ix1;
                 end1 = link_prev ix2 EQFree
             in set_prev EQFree lastUnused (set_prev split end1 (set_next end1 split ix2))
           else PrependList EQAltFree EQFree ix
      else AppendList EQAltFree EQFree ix)"

definition shrink_slots :: "RObjectIx \<Rightarrow> RObjectIx" where
  "shrink_slots ix =
     (let newAlloc = round_up_pow2 (max (iCount ix) EMinSlots)
      in if newAlloc < iAllocated ix
         then
           let last1 = link_prev ix newAlloc;
               ix1 = (if last1 \<noteq> EQFree then set_next last1 EQFree (set_prev EQFree last1 ix)
                      else set_prev EQFree EQFree (set_next EQFree EQFree ix))
           in ix1\<lparr>iAllocated := newAlloc, iModListShift := mod_list_shift newAlloc, iSlots := take (nat newAlloc) (iSlots ix1)\<rparr>
         else ix)"

definition asserta :: "bool \<Rightarrow> (fault + 'a) \<Rightarrow> fault + 'a" where
  "asserta c r = (if c then r else Inl (Panic ''crash''))"

definition TidyAndCompact :: "(TUint32 \<Rightarrow> TUint32) \<Rightarrow> ix_act list list \<Rightarrow> RObjectIx \<Rightarrow> fault + RObjectIx" where
  "TidyAndCompact UniqueID envs ix =
     (if iAllocated ix = 0 \<or> iState ix = ETerminated then Inr ix
      else
        asserta (link_next ix EQAltFree = EQAltFree \<and> link_prev ix EQAltFree = EQAltFree \<and>
                 link_next ix EQAltRsvd = EQAltRsvd \<and> link_prev ix EQAltRsvd = EQAltRsvd)
          (if iActiveCount ix = 0 \<and> iReservedTotal ix = 0 then Inr (reset_index ix)
           else
             let ix1 = ix\<lparr>iAmortize := -1, iBoundary := -1, iResult := 0, iModCount := 255, iState := ETidying, iReservedFreeHWM := 0\<rparr>
             in case tidy_loop UniqueID (tl envs) \<lparr>pos = 0, hwm = -1, rfhwm = 0, rsvd_remain = iReservedTotal ix1\<rparr> (others UniqueID envs ix1) of
                  (s, ix2) \<Rightarrow>
                    asserta (rsvd_remain s = 0)
                      (let oldCount = iCount ix2;
                           ix3 = ix2\<lparr>iCount := max (hwm s) (iBoundary ix2) + 1\<rparr>
                       in asserta (iCount ix3 \<le> oldCount)
                            (let ix4 = (if rfhwm s > iReservedFreeHWM ix3 then ix3\<lparr>iReservedFreeHWM := rfhwm s\<rparr> else ix3)
                             in asserta (iReservedFreeHWM ix4 \<le> iCount ix4)
                                  (let ix5 = PrependList EQAltRsvd EQRsvd ix4;
                                       ix6 = merge_free (max oldCount (iBoundary ix5 + 1)) ix5;
                                       ix7 = shrink_slots ix6
                                   in Inr (ix7\<lparr>iAmortize := iAllocated ix7 div 2, iState := ENormal\<rparr>))))))"

definition ix_Remove ::
    "(TUint32 \<Rightarrow> TUint32) \<Rightarrow> ix_act list \<Rightarrow> ix_act list list \<Rightarrow> int \<Rightarrow> RObjectIx \<Rightarrow> fault + int \<times> TUint32 \<times> TUint32 \<times> RObjectIx" where
  "ix_Remove UniqueID between envs aHandle ix =
     (case DoRemove aHandle ix of
        (r, aObj, aAttr, ix1) \<Rightarrow>
          if r \<le> 0 then Inr (r, aObj, aAttr, ix1)
          else
            let ix2 = fold (run_act UniqueID) between ix1
            in if iState ix2 = ETerminated then Inr (KErrDied, aObj, aAttr, ix2)
               else ebind (TidyAndCompact UniqueID envs ix2) (\<lambda>ix3. Inr (KErrNone, aObj, aAttr, ix3)))"

definition ix_Reserve ::
    "(TUint32 \<Rightarrow> TUint32) \<Rightarrow> bool \<Rightarrow> ix_act list list \<Rightarrow> ix_act list \<Rightarrow> interval list \<Rightarrow> ix_act list list \<Rightarrow> int \<Rightarrow> RObjectIx \<Rightarrow>
      fault + int \<times> RObjectIx" where
  "ix_Reserve UniqueID heap envs wait copying envs' aCount ix =
     (if aCount = 0 then Inr (KErrNone, ix)
      else if iState ix = ETerminated then Inr (KErrDied, ix)
      else if aCount > 0 then ReserveSlots UniqueID heap envs wait copying envs' (nat aCount) ix
      else
        ebind (UnReserveSlots UniqueID envs (nat (- aCount)) True ix) (\<lambda>(r, ix1).
          if r \<noteq> 0 then ebind (TidyAndCompact UniqueID envs' (fold (run_act UniqueID) wait ix1)) (\<lambda>ix2. Inr (KErrNone, ix2))
          else Inr (KErrNone, ix1)))"

text \<open>The objects that \<open>Close\<close> closes, in order, and the index.\<close>

definition ix_Close :: "RObjectIx \<Rightarrow> TUint32 list \<times> RObjectIx" where
  "ix_Close ix =
     (filter (\<lambda>p. p \<noteq> 0) (map Occupant (take (nat (iCount ix)) (iSlots ix))),
      ix\<lparr>iSlots := [], iCount := 0, iState := ETerminated, iAllocated := 0, iModCount := 255\<rparr>)"

section \<open>Going through the table\<close>

function count_loop :: "(TUint32 \<Rightarrow> TUint32) \<Rightarrow> ix_act list list \<Rightarrow> int \<Rightarrow> RObjectIx \<Rightarrow> RObjectIx" where
  "count_loop UniqueID envs p ix =
     (if p < iCount ix \<and> iActiveCount ix \<noteq> 0
      then
        let limit = min (p + EMaxLockedIter) (iCount ix);
            found = length (filter (\<lambda>i. Occupant (iSlots ix ! nat i) = iObj ix) [p..limit - 1]);
            ix1 = ix\<lparr>iResult := iResult ix + int found, iBoundary := limit\<rparr>
        in count_loop UniqueID (tl envs) limit (others UniqueID envs ix1)
      else ix)"
  by pat_completeness auto
termination
proof (relation "measures [\<lambda>(u, envs, p, ix). length envs, \<lambda>(u, envs, p, ix). nat (iCount ix - p)]", goal_cases)
  case (2 UniqueID envs p ix limit found ix1)
  then show ?case by (cases envs) (auto simp: others_def)
qed simp

declare count_loop.simps [simp del]

definition ix_Count :: "(TUint32 \<Rightarrow> TUint32) \<Rightarrow> ix_act list list \<Rightarrow> TUint32 \<Rightarrow> RObjectIx \<Rightarrow> int \<times> RObjectIx" where
  "ix_Count UniqueID envs aObject ix =
     (if iState ix = ETerminated then (0, ix)
      else
        let ix1 = count_loop UniqueID envs 0 (ix\<lparr>iBoundary := 0, iObj := aObject, iResult := 0, iState := ECounting\<rparr>)
        in (if iActiveCount ix1 \<noteq> 0 then iResult ix1 else 0, ix1\<lparr>iState := ENormal\<rparr>))"

function find_loop :: "(TUint32 \<Rightarrow> TUint32) \<Rightarrow> ix_act list list \<Rightarrow> int \<Rightarrow> RObjectIx \<Rightarrow> int \<times> RObjectIx" where
  "find_loop UniqueID envs p ix =
     (if p < iCount ix \<and> iActiveCount ix \<noteq> 0
      then
        let limit = min (p + EMaxLockedIter) (iCount ix)
        in case filter (\<lambda>i. Occupant (iSlots ix ! nat i) = iObj ix) [p..limit - 1] of
             i # _ \<Rightarrow> (MakeHandle i (iAttr (iSlots ix ! nat i)), ix)
           | [] \<Rightarrow>
               let ix2 = others UniqueID envs (ix\<lparr>iBoundary := limit\<rparr>)
               in find_loop UniqueID (tl envs) (iBoundary ix2) ix2
      else (KErrNotFound, ix))"
  by pat_completeness auto
termination
proof (relation "measures [\<lambda>(u, envs, p, ix). length envs, \<lambda>(u, envs, p, ix). nat (iCount ix - p)]", goal_cases)
  case (2 UniqueID envs p ix limit ix2)
  then show ?case by (cases envs) (auto simp: others_def)
qed simp

declare find_loop.simps [simp del]

definition ix_At_object :: "(TUint32 \<Rightarrow> TUint32) \<Rightarrow> ix_act list list \<Rightarrow> TUint32 \<Rightarrow> RObjectIx \<Rightarrow> int \<times> RObjectIx" where
  "ix_At_object UniqueID envs aObj ix =
     (if iState ix = ETerminated then (KErrNotFound, ix)
      else
        case find_loop UniqueID envs 0 (ix\<lparr>iState := ESearching, iObj := aObj, iBoundary := 0\<rparr>) of
          (h, ix1) \<Rightarrow> (h, ix1\<lparr>iState := ENormal\<rparr>))"

function last_loop :: "(TUint32 \<Rightarrow> TUint32) \<Rightarrow> ix_act list list \<Rightarrow> int \<Rightarrow> RObjectIx \<Rightarrow> int \<times> RObjectIx" where
  "last_loop UniqueID envs p ix =
     (if p \<ge> 0 \<and> iActiveCount ix \<noteq> 0
      then
        let limit = max (p - EMaxLockedIter) 0
        in case filter (\<lambda>i. Occupant (iSlots ix ! nat i) \<noteq> 0) (rev [limit..p - 1]) of
             i # _ \<Rightarrow> (MakeHandle i (iAttr (iSlots ix ! nat i)), ix)
           | [] \<Rightarrow>
               let p1 = limit - 1;
                   ix2 = others UniqueID envs (ix\<lparr>iBoundary := p1 - 1\<rparr>)
               in last_loop UniqueID (tl envs) (iBoundary ix2 + 1) ix2
      else (0, ix))"
  by pat_completeness auto
termination
proof (relation "measures [\<lambda>(u, envs, p, ix). length envs, \<lambda>(u, envs, p, ix). nat (p + 1)]", goal_cases)
  case (2 UniqueID envs p ix limit p1 ix2)
  then show ?case by (cases envs) (auto simp: others_def)
qed simp

declare last_loop.simps [simp del]

definition LastHandle :: "(TUint32 \<Rightarrow> TUint32) \<Rightarrow> ix_act list list \<Rightarrow> RObjectIx \<Rightarrow> int \<times> RObjectIx" where
  "LastHandle UniqueID envs ix =
     (if iState ix = ETerminated then (0, ix)
      else
        case last_loop UniqueID envs (iCount ix) (ix\<lparr>iState := EFindingLast, iBoundary := iCount ix - 1\<rparr>) of
          (h, ix1) \<Rightarrow> (h, ix1\<lparr>iState := ENormal\<rparr>))"

end
