(* ===== verification/Dlring.thy ===== *)
theory Dlring
  imports Prelude
begin

text \<open>
  Doubly linked circular lists: nodes with a next and a previous link, given as functions, and a head.
  The list that a ring stands for, and what the link updates of the usual operations do to it.
\<close>

definition dlring :: "('a \<Rightarrow> 'a) \<Rightarrow> ('a \<Rightarrow> 'a) \<Rightarrow> 'a \<Rightarrow> 'a list \<Rightarrow> bool" where
  "dlring nx pv h L \<longleftrightarrow> map nx (h # L) = L @ [h] \<and> map pv (L @ [h]) = h # L \<and> distinct (h # L)"

lemma dlring_empty: "dlring nx pv h [] \<longleftrightarrow> nx h = h \<and> pv h = h"
  by (auto simp: dlring_def)

lemma dlring_distinct: "dlring nx pv h L \<Longrightarrow> distinct (h # L)"
  by (simp add: dlring_def)

lemma dlring_cong:
  "(\<And>x. x \<in> set (h # L) \<Longrightarrow> nx' x = nx x) \<Longrightarrow> (\<And>x. x \<in> set (h # L) \<Longrightarrow> pv' x = pv x) \<Longrightarrow> dlring nx' pv' h L = dlring nx pv h L"
  by (simp add: dlring_def cong: map_cong)

lemma dlring_first: "dlring nx pv h L \<Longrightarrow> nx h = (case L of [] \<Rightarrow> h | x # _ \<Rightarrow> x)"
  by (cases L) (auto simp: dlring_def)

lemma dlring_last: "dlring nx pv h L \<Longrightarrow> pv h = (if L = [] then h else last L)"
  by (cases L rule: rev_cases) (auto simp: dlring_def)

lemma dlring_unique: "dlring nx pv h L \<Longrightarrow> dlring nx pv h L' \<Longrightarrow> L = L'"
proof -
  have "dlring nx pv h L \<Longrightarrow> dlring nx pv h L' \<Longrightarrow> length L \<le> length L' \<Longrightarrow> L = L'" for L L'
  proof -
    assume r: "dlring nx pv h L" "dlring nx pv h L'" and len: "length L \<le> length L'"
    have walk: "(L @ [h]) ! i = (nx ^^ Suc i) h" if "dlring nx pv h L" "i \<le> length L" for i L
      using that(2)
    proof (induction i)
      case 0
      then show ?case using that(1) by (cases L) (auto simp: dlring_def)
    next
      case (Suc i)
      have "map nx (h # L) ! Suc i = (L @ [h]) ! Suc i" using that(1) by (simp add: dlring_def)
      then have "(L @ [h]) ! Suc i = nx (L ! i)" using Suc.prems by (simp add: nth_append split: if_splits)
      moreover have "L ! i = (L @ [h]) ! i" using Suc.prems by (simp add: nth_append)
      ultimately show ?case using Suc by simp
    qed
    have "length L = length L'"
    proof (rule ccontr)
      assume "length L \<noteq> length L'"
      then have lt: "length L < length L'" using len by simp
      have "L' ! length L = h" using walk [OF r(1), of "length L"] walk [OF r(2), of "length L"] lt by (simp add: nth_append)
      moreover have "L' ! length L \<in> set L'" using lt by simp
      ultimately show False using dlring_distinct [OF r(2)] by simp
    qed
    then show "L = L'"
    proof (rule nth_equalityI)
      show "L ! i = L' ! i" if "i < length L" for i
        using walk [OF r(1), of i] walk [OF r(2), of i] that \<open>length L = length L'\<close> by (simp add: nth_append)
    qed
  qed
  then show "dlring nx pv h L \<Longrightarrow> dlring nx pv h L' \<Longrightarrow> L = L'" by (metis nat_le_linear)
qed

section \<open>Updates\<close>

lemma dlring_update_other:
  "a \<notin> set (h # L) \<Longrightarrow> dlring (nx(a := v)) pv h L = dlring nx pv h L"
  "a \<notin> set (h # L) \<Longrightarrow> dlring nx (pv(a := v)) h L = dlring nx pv h L"
  by (auto intro!: dlring_cong)

text \<open>Insertion after the head, and before it.\<close>

lemma dlring_insert_first:
  assumes "dlring nx pv h L" "x \<notin> set (h # L)"
  shows "dlring (nx(x := nx h, h := x)) (pv(x := h, nx h := x)) h (x # L)"
proof (cases L)
  case Nil
  then show ?thesis using assms by (auto simp: dlring_def)
next
  case (Cons n R)
  have r: "nx h = n" "map nx L = R @ [h]" "map pv (R @ [h]) = L" "distinct (h # L)" using assms Cons by (auto simp: dlring_def)
  have "n \<noteq> h" "n \<notin> set R" "x \<noteq> n" "x \<noteq> h" "x \<notin> set R" "h \<notin> set R" using r(4) assms(2) Cons by auto
  then show ?thesis using r Cons by (simp add: dlring_def)
qed

lemma dlring_insert_last:
  assumes "dlring nx pv h L" "x \<notin> set (h # L)"
  shows "dlring (nx(x := h, pv h := x)) (pv(x := pv h, h := x)) h (L @ [x])"
proof (cases L rule: rev_cases)
  case Nil
  then show ?thesis using assms by (auto simp: dlring_def)
next
  case (snoc R n)
  have r: "pv h = n" "map nx (h # R) = L" "map pv L = h # R" "distinct (h # L)" using assms snoc by (auto simp: dlring_def)
  have "n \<noteq> h" "n \<notin> set R" "x \<noteq> n" "x \<noteq> h" "x \<notin> set R" "h \<notin> set R" using r(4) assms(2) snoc by auto
  then show ?thesis using r snoc by (simp add: dlring_def)
qed

text \<open>Removal of a node.\<close>

lemma dlring_remove:
  assumes "dlring nx pv h (A @ x # B)"
  shows "dlring (nx(pv x := nx x)) (pv(nx x := pv x)) h (A @ B)"
proof -
  obtain A' p where p: "h # A = A' @ [p]" by (cases "h # A" rule: rev_cases) auto
  obtain n B' where n: "B @ [h] = n # B'" by (cases "B @ [h]") auto
  have "map nx ((h # A) @ x # B) = A @ x # B @ [h]" "map pv (A @ x # B @ [h]) = (h # A) @ x # B"
    and d: "distinct (h # A @ x # B)" using assms by (auto simp: dlring_def)
  then have m: "map nx (A' @ p # x # B) = A @ x # n # B'" "map pv (A @ x # n # B') = A' @ p # x # B" unfolding p n by simp_all
  have len: "length A' = length A" using p by (metis length_append_singleton length_Cons nat.inject)
  have lenB: "length B' = length B" using n by (metis length_append_singleton length_Cons nat.inject)
  have nx: "map nx A' = A" "nx p = x" "nx x = n" "map nx B = B'" using m(1) len by auto
  have pv: "map pv A = A'" "pv x = p" "pv n = x" "map pv B' = B" using m(2) len by auto
  have "distinct ((h # A) @ x # B)" using d by simp
  then have pB: "p \<notin> set B" "p \<notin> set A'" unfolding p by simp_all
  have "distinct (A @ x # B @ [h])" using d by auto
  then have nA: "n \<notin> set A" "n \<notin> set B'" unfolding n by simp_all
  have "map (nx(p := n)) ((h # A) @ B) = A @ B @ [h]" unfolding p n using nx pB by simp
  moreover have "map (pv(n := p)) (A @ B @ [h]) = (h # A) @ B" unfolding p n using pv nA by simp
  ultimately show ?thesis using d nx(3) pv(2) by (simp add: dlring_def)
qed

text \<open>One ring put at the end, or at the beginning, of another.\<close>

lemma dlring_append:
  assumes "dlring nx pv h D" "dlring nx pv t S" "S \<noteq> []" "set (h # D) \<inter> set (t # S) = {}"
  shows "dlring (nx(pv h := nx t, pv t := h, t := t)) (pv(nx t := pv h, h := pv t, t := t)) h (D @ S)"
proof -
  obtain D' b where D: "h # D = D' @ [b]" by (cases "h # D" rule: rev_cases) auto
  obtain a S' where S: "S = a # S'" using assms(3) by (cases S) auto
  obtain S'' z where S2: "S = S'' @ [z]" using assms(3) by (cases S rule: rev_cases) auto
  have len: "length D' = length D" using arg_cong [OF D, of length] by simp
  have len2: "length S'' = length S'" using arg_cong [OF S, of length] arg_cong [OF S2, of length] by simp
  have "map nx (D' @ [b]) = D @ [h]" "map pv (D @ [h]) = D' @ [b]" using assms(1) D by (auto simp: dlring_def)
  then have d: "map nx D' = D" "nx b = h" "pv h = b" "map pv D = D'" using len by auto
  have s1: "map nx (t # S) = S @ [t]" "map pv (S @ [t]) = t # S" using assms(2) by (auto simp: dlring_def)
  have s: "nx t = a" "pv a = t" using s1 S by auto
  have "map nx (S'' @ [z]) = S' @ [t]" "map pv (S' @ [t]) = S'' @ [z]" using s1 unfolding S2 [symmetric] using S by auto
  then have m: "map nx S'' = S'" "nx z = t" "pv t = z" "map pv S' = S''" using len2 by auto
  have dist: "distinct (D' @ b # S'' @ [z])" "distinct (D @ a # S' @ [h])" "t \<notin> set (D' @ b # S'' @ [z])" "t \<notin> set (D @ a # S' @ [h])"
  proof -
    have all: "distinct ((h # D) @ S)" "t \<notin> set ((h # D) @ S)"
      using assms(4) dlring_distinct [OF assms(1)] dlring_distinct [OF assms(2)] by auto
    show "distinct (D' @ b # S'' @ [z])" "t \<notin> set (D' @ b # S'' @ [z])" using all unfolding D S2 by simp_all
    show "distinct (D @ a # S' @ [h])" "t \<notin> set (D @ a # S' @ [h])" using all unfolding S by auto
  qed
  have "map (nx(b := a, z := h, t := t)) (D' @ b # S'' @ [z]) = D @ a # S' @ [h]" using d m dist by auto
  moreover have "map (pv(a := b, h := z, t := t)) (D @ a # S' @ [h]) = D' @ b # S'' @ [z]" using d m dist by auto
  moreover have "h # D @ S = D' @ b # S'' @ [z]" using D S2 by (metis append_Cons append_assoc append.left_neutral)
  moreover have "(D @ S) @ [h] = D @ a # S' @ [h]" using S by simp
  ultimately show ?thesis using dist(1) unfolding dlring_def d m s by (simp only: list.map append_assoc)
qed

lemma dlring_prepend:
  assumes "dlring nx pv h D" "dlring nx pv t S" "S \<noteq> []" "set (h # D) \<inter> set (t # S) = {}"
  shows "dlring (nx(pv t := nx h, h := nx t, t := t)) (pv(nx h := pv t, nx t := h, t := t)) h (S @ D)"
proof -
  obtain n D' where D: "D @ [h] = n # D'" by (cases "D @ [h]") auto
  obtain a S' where S: "S = a # S'" using assms(3) by (cases S) auto
  obtain S'' z where S2: "S = S'' @ [z]" using assms(3) by (cases S rule: rev_cases) auto
  have len2: "length S'' = length S'" using arg_cong [OF S, of length] arg_cong [OF S2, of length] by simp
  have "map nx (h # D) = n # D'" "map pv (n # D') = h # D" using assms(1) D by (auto simp: dlring_def)
  then have d: "nx h = n" "map nx D = D'" "pv n = h" "map pv D' = D" by auto
  have s1: "map nx (t # S) = S @ [t]" "map pv (S @ [t]) = t # S" using assms(2) by (auto simp: dlring_def)
  have s: "nx t = a" "pv a = t" using s1 S by auto
  have "map nx (S'' @ [z]) = S' @ [t]" "map pv (S' @ [t]) = S'' @ [z]" using s1 unfolding S2 [symmetric] using S by auto
  then have m: "map nx S'' = S'" "nx z = t" "pv t = z" "map pv S' = S''" using len2 by auto
  have dist: "distinct (h # S'' @ z # D)" "distinct (a # S' @ n # D')" "t \<notin> set (h # S'' @ z # D)" "t \<notin> set (a # S' @ n # D')"
  proof -
    have all: "distinct (h # S @ D)" "t \<notin> set (h # S @ D)" "distinct (S @ D @ [h])" "t \<notin> set (S @ D @ [h])"
      using assms(4) dlring_distinct [OF assms(1)] dlring_distinct [OF assms(2)] by auto
    show "distinct (h # S'' @ z # D)" "t \<notin> set (h # S'' @ z # D)" using all(1,2) unfolding S2 by simp_all
    show "distinct (a # S' @ n # D')" "t \<notin> set (a # S' @ n # D')" using all(3,4) unfolding S D by simp_all
  qed
  have "map (nx(z := n, h := a, t := t)) (h # S'' @ z # D) = a # S' @ n # D'" using d m dist by auto
  moreover have "map (pv(n := z, a := h, t := t)) (a # S' @ n # D') = h # S'' @ z # D" using d m dist by auto
  moreover have "h # S @ D = h # S'' @ z # D" using S2 by simp
  moreover have "(S @ D) @ [h] = a # S' @ n # D'" using S D by simp
  ultimately show ?thesis using dist(1) unfolding dlring_def d m s by (simp only: list.map append_assoc)
qed

text \<open>
  Cutting the end of a ring off, and joining it to a ring again. The part cut off keeps the links
  between its own nodes.
\<close>

definition chain :: "('a \<Rightarrow> 'a) \<Rightarrow> ('a \<Rightarrow> 'a) \<Rightarrow> 'a \<Rightarrow> 'a list \<Rightarrow> bool" where
  "chain nx pv h V \<longleftrightarrow> map nx V = tl V @ [h] \<and> map pv (tl V) = butlast V \<and> distinct V"

lemma chain_cong: "(\<And>x. x \<in> set V \<Longrightarrow> nx' x = nx x) \<Longrightarrow> (\<And>x. x \<in> set (tl V) \<Longrightarrow> pv' x = pv x) \<Longrightarrow> chain nx' pv' h V = chain nx pv h V"
  by (simp add: chain_def cong: map_cong)

lemma dlring_cut:
  assumes "dlring nx pv h (U @ V)" "U \<noteq> []" "V \<noteq> []"
  shows "dlring (nx(last U := h)) (pv(h := last U)) h U" "chain nx pv h V" "pv (hd V) = last U" "pv h = last V"
proof -
  obtain U' u where U: "U = U' @ [u]" using assms(2) by (cases U rule: rev_cases) auto
  obtain v V' where V: "V = v # V'" using assms(3) by (cases V) auto
  have r: "map nx (h # U' @ [u] @ v # V') = (U' @ [u] @ v # V') @ [h]" "map pv ((U' @ [u] @ v # V') @ [h]) = h # U' @ [u] @ v # V'"
    "distinct (h # U' @ [u] @ v # V')" using assms(1) by (simp_all add: dlring_def U V)
  have "map nx ((h # U') @ u # v # V') = (U' @ [u]) @ (v # V') @ [h]" using r(1) by simp
  then have n: "map nx (h # U') = U' @ [u]" "map nx (u # v # V') = (v # V') @ [h]"
    using append_eq_append_conv [of "map nx (h # U')" "U' @ [u]"] by (simp_all del: map_map)
  have "map pv (U' @ [u]) @ map pv (v # V' @ [h]) = (h # U') @ u # v # V'" using r(2) by simp
  moreover have "length (map pv (U' @ [u])) = length (h # U')" by simp
  ultimately have p: "map pv (U' @ [u]) = h # U'" "map pv (v # V' @ [h]) = u # v # V'"
    using append_eq_append_conv [of "map pv (U' @ [u])" "h # U'"] by blast+
  have d: "u \<notin> set (h # U')" "h \<notin> set (U' @ [u])" "distinct (h # U' @ [u])" "distinct (v # V')" using r(3) by auto
  have "map (nx(u := h)) (h # U' @ [u]) = (U' @ [u]) @ [h]" using n(1) d(1) by (auto simp: map_idI)
  moreover have "map (pv(h := u)) ((U' @ [u]) @ [h]) = h # U' @ [u]" using p(1) d(2) by (auto simp: map_fun_upd)
  ultimately show "dlring (nx(last U := h)) (pv(h := last U)) h U" using d(3) by (simp add: dlring_def U)
  have "map pv V' = butlast (v # V')" "pv h = last (v # V')" "pv v = u"
  proof -
    have e: "map pv V' @ [pv h] = v # V'" and u: "pv v = u" using p(2) by simp_all
    show "map pv V' = butlast (v # V')" using arg_cong [OF e, of butlast] by (simp only: butlast_snoc)
    show "pv h = last (v # V')" using arg_cong [OF e, of last] by (simp only: last_snoc)
    show "pv v = u" by (rule u)
  qed
  then show "chain nx pv h V" "pv (hd V) = last U" "pv h = last V" using n(2) d(4) by (simp_all add: chain_def U V)
qed

lemma dlring_join:
  assumes "dlring nx pv h W" "W \<noteq> []" "chain nx pv h V" "V \<noteq> []" "set V \<inter> set (h # W) = {}"
  shows "dlring (nx(last W := hd V)) (pv(hd V := last W, h := last V)) h (W @ V)"
proof -
  obtain W' w where W: "W = W' @ [w]" using assms(2) by (cases W rule: rev_cases) auto
  obtain v V' where V: "V = v # V'" using assms(4) by (cases V) auto
  have r: "map nx (h # W') = W' @ [w]" "map pv (W' @ [w]) = h # W'" "distinct (h # W' @ [w])"
    using assms(1) by (auto simp: dlring_def W append_eq_append_conv)
  have c: "map nx (v # V') = V' @ [h]" "map pv V' = butlast (v # V')" "distinct (v # V')" using assms(3) by (simp_all add: chain_def V)
  have n: "w \<notin> set (h # W')" "w \<notin> set (v # V')" "v \<notin> set (h # W' @ [w])" "h \<notin> set (W' @ [w] @ v # V')" "v \<notin> set V'" using r(3) c(3) assms(5) by (auto simp: W V)
  have "map (nx(w := v)) (h # W' @ [w] @ v # V') = (W' @ [w] @ v # V') @ [h]"
  proof -
    have "map (nx(w := v)) (h # W') = map nx (h # W')" "map (nx(w := v)) (v # V') = map nx (v # V')" using n(1,2) by auto
    moreover have "map f (h # W' @ [w] @ v # V') = map f (h # W') @ [f w] @ map f (v # V')" for f :: "'a \<Rightarrow> 'a" by simp
    ultimately show ?thesis using r(1) c(1) by (simp only: fun_upd_same) simp
  qed
  moreover have "map (pv(v := w, h := last (v # V'))) ((W' @ [w] @ v # V') @ [h]) = h # W' @ [w] @ v # V'"
  proof -
    have "map (pv(v := w, h := last (v # V'))) (W' @ [w]) = map pv (W' @ [w])" "map (pv(v := w, h := last (v # V'))) V' = map pv V'"
      using n(3-5) by auto
    moreover have "map f ((W' @ [w] @ v # V') @ [h]) = map f (W' @ [w]) @ f v # map f V' @ [f h]" for f :: "'a \<Rightarrow> 'a" by simp
    moreover have "(pv(v := w, h := last (v # V'))) v = w" "(pv(v := w, h := last (v # V'))) h = last (v # V')" using n(4) by auto
    moreover have "butlast (v # V') @ [last (v # V')] = v # V'" by (rule append_butlast_last_id) simp
    ultimately show ?thesis using r(2) c(2) by (simp only: append_Cons append_Nil append_assoc)
  qed
  moreover have "distinct (h # W' @ [w] @ v # V')" using r(3) c(3) assms(5) by (auto simp: W V)
  ultimately show ?thesis by (simp add: dlring_def W V)
qed

end
