(* ===== verification/Objix_Queue.thy ===== *)
theory Objix_Queue
  imports Objix_Tidy Dlring
begin

text \<open>
  The queues of free slots as lists, and what the link operations do to them. The operations on the
  links leave everything else as it is.
\<close>

section \<open>Links as functions\<close>

definition node :: "RObjectIx \<Rightarrow> int \<Rightarrow> bool" where
  "node ix i \<longleftrightarrow> - 6 \<le> i \<and> i < int (length (iSlots ix))"

definition linked :: "RObjectIx \<Rightarrow> bool" where
  "linked ix \<longleftrightarrow> length (iFreeQ ix) = 6 \<and> length (iSlots ix) \<le> 32768"

definition nxt :: "RObjectIx \<Rightarrow> int \<Rightarrow> int" where
  "nxt ix i = (if node ix i then link_next ix i else i)"

definition prv :: "RObjectIx \<Rightarrow> int \<Rightarrow> int" where
  "prv ix i = (if node ix i then link_prev ix i else i)"

abbreviation objr :: "RObjectIx \<Rightarrow> int \<Rightarrow> TUint32" where "objr ix i \<equiv> iObjR (iSlots ix ! nat i)"
abbreviation attr :: "RObjectIx \<Rightarrow> int \<Rightarrow> TUint32" where "attr ix i \<equiv> iAttr (iSlots ix ! nat i)"

lemma to_TInt16_id: "- 0x8000 \<le> x \<Longrightarrow> x < 0x8000 \<Longrightarrow> to_TInt16 x = x"
  by (simp add: to_TInt16_def)

lemma node_TInt16: "linked ix \<Longrightarrow> node ix i \<Longrightarrow> to_TInt16 i = i"
  by (rule to_TInt16_id) (auto simp: node_def linked_def)

text \<open>The two states differ at most in their links.\<close>

definition relinked :: "RObjectIx \<Rightarrow> RObjectIx \<Rightarrow> bool" where
  "relinked ix ix' \<longleftrightarrow> ix'\<lparr>iFreeQ := [], iSlots := []\<rparr> = ix\<lparr>iFreeQ := [], iSlots := []\<rparr> \<and> length (iFreeQ ix') = length (iFreeQ ix) \<and>
     map iObjR (iSlots ix') = map iObjR (iSlots ix) \<and> map iAttr (iSlots ix') = map iAttr (iSlots ix)"

lemma relinked_refl [simp]: "relinked ix ix"
  by (simp add: relinked_def)

lemma relinked_trans: "relinked ix ix' \<Longrightarrow> relinked ix' ix'' \<Longrightarrow> relinked ix ix''"
  by (simp add: relinked_def)

lemma relinkedD:
  assumes "relinked ix ix'"
  shows "iAllocated ix' = iAllocated ix" "iCount ix' = iCount ix" "iActiveCount ix' = iActiveCount ix" "iReservedFree ix' = iReservedFree ix"
    "iReservedTotal ix' = iReservedTotal ix" "iReservedFreeHWM ix' = iReservedFreeHWM ix" "iAmortize ix' = iAmortize ix"
    "iState ix' = iState ix" "iModCount ix' = iModCount ix" "iModListShift ix' = iModListShift ix" "iBoundary ix' = iBoundary ix"
    "iResult ix' = iResult ix" "iObj ix' = iObj ix" "NextInstance ix' = NextInstance ix" "iIndex ix' = iIndex ix" "iBitMap ix' = iBitMap ix"
    "length (iSlots ix') = length (iSlots ix)" "length (iFreeQ ix') = length (iFreeQ ix)"
    "linked ix' = linked ix" "node ix' = node ix"
proof -
  have e: "ix'\<lparr>iFreeQ := [], iSlots := []\<rparr> = ix\<lparr>iFreeQ := [], iSlots := []\<rparr>" and "map iObjR (iSlots ix') = map iObjR (iSlots ix)"
    and q: "length (iFreeQ ix') = length (iFreeQ ix)" using assms by (simp_all add: relinked_def)
  then show len: "length (iSlots ix') = length (iSlots ix)" using map_eq_imp_length_eq by blast
  show "length (iFreeQ ix') = length (iFreeQ ix)" by (rule q)
  show "linked ix' = linked ix" "node ix' = node ix" using q len by (simp_all add: linked_def node_def fun_eq_iff)
  show "iAllocated ix' = iAllocated ix" "iCount ix' = iCount ix" "iActiveCount ix' = iActiveCount ix" "iReservedFree ix' = iReservedFree ix"
    "iReservedTotal ix' = iReservedTotal ix" "iReservedFreeHWM ix' = iReservedFreeHWM ix" "iAmortize ix' = iAmortize ix"
    "iState ix' = iState ix" "iModCount ix' = iModCount ix" "iModListShift ix' = iModListShift ix" "iBoundary ix' = iBoundary ix"
    "iResult ix' = iResult ix" "iObj ix' = iObj ix" "NextInstance ix' = NextInstance ix" "iIndex ix' = iIndex ix" "iBitMap ix' = iBitMap ix"
    using e by (cases ix; cases ix'; simp)+
qed

lemma relinked_slots:
  assumes "relinked ix ix'" "0 \<le> i" "i < int (length (iSlots ix))"
  shows "objr ix' i = objr ix i" "attr ix' i = attr ix i"
proof -
  have s: "map iObjR (iSlots ix') = map iObjR (iSlots ix)" "map iAttr (iSlots ix') = map iAttr (iSlots ix)"
    using assms(1) by (simp_all add: relinked_def)
  have "length (iSlots ix') = length (iSlots ix)" using s(1) by (rule map_eq_imp_length_eq)
  then have n: "nat i < length (iSlots ix')" "nat i < length (iSlots ix)" using assms(2,3) by linarith+
  show "objr ix' i = objr ix i" using arg_cong [OF s(1), of "\<lambda>l. l ! nat i"] n by simp
  show "attr ix' i = attr ix i" using arg_cong [OF s(2), of "\<lambda>l. l ! nat i"] n by simp
qed

lemma map_update_same: "f v = f (xs ! n) \<Longrightarrow> map f (xs[n := v]) = map f xs"
  by (cases "n < length xs") (simp_all add: map_update list_update_same_conv list_update_beyond)

lemma set_links [simp]: "relinked ix (set_next i v ix)" "relinked ix (set_prev i v ix)"
  by (simp_all add: relinked_def set_next_def set_prev_def map_update_same)

lemma nxt_set:
  assumes "linked ix" "node ix i" "node ix v"
  shows "nxt (set_next i v ix) = (nxt ix)(i := v)" "prv (set_next i v ix) = prv ix"
    "prv (set_prev i v ix) = (prv ix)(i := v)" "nxt (set_prev i v ix) = nxt ix"
proof -
  note same = relinkedD(20) [OF set_links(1) [of ix i v]] relinkedD(20) [OF set_links(2) [of ix i v]]
  have v: "to_TInt16 v = v" using node_TInt16 assms by blast
  have len: "length (iFreeQ ix) = 6" using assms(1) by (simp add: linked_def)
  have other: "nat (6 + j) = nat (6 + i) \<longleftrightarrow> j = i" if "j < 0" "i < 0" "node ix j" for j
    using that assms(2) by (auto simp: node_def)
  have slot: "nat j = nat i \<longleftrightarrow> j = i" if "\<not> j < 0" "\<not> i < 0" for j using that by auto
  have bound: "i < 0 \<Longrightarrow> nat (6 + i) < 6" "\<not> i < 0 \<Longrightarrow> nat i < length (iSlots ix)" using assms(2) by (auto simp: node_def)
  show "nxt (set_next i v ix) = (nxt ix)(i := v)"
    using other slot bound len assms(2) unfolding nxt_def same
    by (auto simp: fun_eq_iff link_next_def set_next_def v nth_list_update)
  show "prv (set_next i v ix) = prv ix"
    using other slot bound len assms(2) unfolding prv_def same
    by (auto simp: fun_eq_iff link_prev_def set_next_def v nth_list_update)
  show "prv (set_prev i v ix) = (prv ix)(i := v)"
    using other slot bound len assms(2) unfolding prv_def same
    by (auto simp: fun_eq_iff link_prev_def set_prev_def v nth_list_update)
  show "nxt (set_prev i v ix) = nxt ix"
    using other slot bound len assms(2) unfolding nxt_def same
    by (auto simp: fun_eq_iff link_next_def set_prev_def v nth_list_update)
qed

section \<open>Queues\<close>

definition queue :: "RObjectIx \<Rightarrow> int \<Rightarrow> int list \<Rightarrow> bool" where
  "queue ix q L \<longleftrightarrow> dlring (nxt ix) (prv ix) q L \<and> (\<forall>i \<in> set L. 0 \<le> i \<and> i < int (length (iSlots ix))) \<and> - 6 \<le> q \<and> q < 0"

lemma queue_nodes:
  assumes "queue ix q L"
  shows "node ix q" "i \<in> set L \<Longrightarrow> node ix i" "node ix (nxt ix q)" "node ix (prv ix q)" "distinct L" "q \<notin> set L"
proof -
  have r: "dlring (nxt ix) (prv ix) q L" "\<forall>i \<in> set L. 0 \<le> i \<and> i < int (length (iSlots ix))" "- 6 \<le> q" "q < 0"
    using assms by (auto simp: queue_def)
  show q: "node ix q" using r by (auto simp: node_def)
  have l: "node ix i" if "i \<in> set L" for i using r(2) that by (auto simp: node_def)
  show "i \<in> set L \<Longrightarrow> node ix i" by (rule l)
  show "node ix (nxt ix q)" using dlring_first [OF r(1)] q l by (auto split: list.splits)
  show "node ix (prv ix q)" using dlring_last [OF r(1)] q l by (auto split: if_splits)
  show "distinct L" "q \<notin> set L" using dlring_distinct [OF r(1)] by simp_all
qed

lemma queue_inner_nodes:
  assumes "queue ix q L" "i \<in> set L"
  shows "nxt ix i \<in> set (q # L)" "prv ix i \<in> set (q # L)"
proof -
  have "map (nxt ix) (q # L) = L @ [q]" "map (prv ix) (L @ [q]) = q # L" using assms(1) by (auto simp: queue_def dlring_def)
  then have n: "nxt ix ` set (q # L) = set (L @ [q])" and p: "prv ix ` set (L @ [q]) = set (q # L)" by (metis set_map)+
  show "nxt ix i \<in> set (q # L)" using n assms(2) by (metis Un_iff imageI list.set(1) list.set(2) list.set_intros(2) set_append sup_commute insert_is_Un)
  show "prv ix i \<in> set (q # L)" using p assms(2) by (metis Un_iff imageI set_append)
qed

text \<open>Another state with the same links has the same queues.\<close>

lemma queue_cong:
  assumes "length (iSlots ix') = length (iSlots ix)" "\<And>i. i \<in> set (q # L) \<Longrightarrow> nxt ix' i = nxt ix i" "\<And>i. i \<in> set (q # L) \<Longrightarrow> prv ix' i = prv ix i"
  shows "queue ix' q L = queue ix q L"
  unfolding queue_def assms(1) using dlring_cong [of q L "nxt ix'" "nxt ix" "prv ix'" "prv ix"] assms(2,3) by simp

lemma link_nxt: "node ix i \<Longrightarrow> link_next ix i = nxt ix i" "node ix i \<Longrightarrow> link_prev ix i = prv ix i"
  by (simp_all add: nxt_def prv_def)

lemma no_marks: "iModCount ix = 255 \<Longrightarrow> mark_if i ix = ix"
  by (simp add: mark_if_def)

lemma Dequeue_links:
  assumes "linked ix" "iModCount ix = 255" "node ix i" "node ix (nxt ix i)" "node ix (prv ix i)"
  shows "relinked ix (Dequeue i ix)" "nxt (Dequeue i ix) = (nxt ix)(prv ix i := nxt ix i)" "prv (Dequeue i ix) = (prv ix)(nxt ix i := prv ix i)"
proof -
  let ?p = "prv ix i" and ?n = "nxt ix i"
  let ?a = "set_next ?p ?n ix"
  let ?b = "set_prev ?n ?p ?a"
  have a: "relinked ix ?a" "linked ?a" "node ?a ?n" "node ?a ?p" using relinkedD(19,20) [OF set_links(1) [of ix ?p ?n]] assms by simp_all
  have b: "relinked ix ?b" by (rule relinked_trans [OF a(1)]) simp
  have "iModCount ?b = 255" using relinkedD(9) [OF b] assms(2) by simp
  then have eq: "Dequeue i ix = ?b" using assms(3) by (simp add: Dequeue_def Let_def link_nxt no_marks)
  show "relinked ix (Dequeue i ix)" using b eq by simp
  show "nxt (Dequeue i ix) = (nxt ix)(?p := ?n)" "prv (Dequeue i ix) = (prv ix)(?n := ?p)"
    unfolding eq using nxt_set(1,2) [OF assms(1,5,4)] nxt_set(3,4) [OF a(2,3,4)] by simp_all
qed

lemma AddAfter_links:
  assumes "linked ix" "iModCount ix = 255" "node ix q" "node ix i" "node ix (nxt ix q)"
  shows "relinked ix (AddAfter q i ix)" "nxt (AddAfter q i ix) = (nxt ix)(i := nxt ix q, q := i)" "prv (AddAfter q i ix) = (prv ix)(i := q, nxt ix q := i)"
proof -
  let ?n = "nxt ix q"
  let ?a = "set_next i ?n ix" let ?b = "set_prev i q ?a" let ?c = "set_prev ?n i ?b" let ?d = "set_next q i ?c"
  have a: "relinked ix ?a" by simp
  have b: "relinked ix ?b" by (rule relinked_trans [OF a]) simp
  have c: "relinked ix ?c" by (rule relinked_trans [OF b]) simp
  have d: "relinked ix ?d" by (rule relinked_trans [OF c]) simp
  have "iModCount ?d = 255" using relinkedD(9) [OF d] assms(2) by simp
  then have eq: "AddAfter q i ix = ?d" using assms(3) by (simp add: AddAfter_def Let_def link_nxt no_marks)
  show "relinked ix (AddAfter q i ix)" using d eq by simp
  note lk = relinkedD(19) [OF a] relinkedD(19) [OF b] relinkedD(19) [OF c]
  note nd = relinkedD(20) [OF a] relinkedD(20) [OF b] relinkedD(20) [OF c]
  show "nxt (AddAfter q i ix) = (nxt ix)(i := nxt ix q, q := i)" "prv (AddAfter q i ix) = (prv ix)(i := q, nxt ix q := i)"
    unfolding eq by (simp_all add: nxt_set lk nd assms)
qed

lemma AddBefore_links:
  assumes "linked ix" "iModCount ix = 255" "node ix q" "node ix i" "node ix (prv ix q)"
  shows "relinked ix (AddBefore q i ix)" "nxt (AddBefore q i ix) = (nxt ix)(i := q, prv ix q := i)" "prv (AddBefore q i ix) = (prv ix)(i := prv ix q, q := i)"
proof -
  let ?p = "prv ix q"
  let ?a = "set_next i q ix" let ?b = "set_prev i ?p ?a" let ?c = "set_next ?p i ?b" let ?d = "set_prev q i ?c"
  have a: "relinked ix ?a" by simp
  have b: "relinked ix ?b" by (rule relinked_trans [OF a]) simp
  have c: "relinked ix ?c" by (rule relinked_trans [OF b]) simp
  have d: "relinked ix ?d" by (rule relinked_trans [OF c]) simp
  have "iModCount ?d = 255" using relinkedD(9) [OF d] assms(2) by simp
  then have eq: "AddBefore q i ix = ?d" using assms(3) by (simp add: AddBefore_def Let_def link_nxt no_marks)
  show "relinked ix (AddBefore q i ix)" using d eq by simp
  note lk = relinkedD(19) [OF a] relinkedD(19) [OF b] relinkedD(19) [OF c]
  note nd = relinkedD(20) [OF a] relinkedD(20) [OF b] relinkedD(20) [OF c]
  show "nxt (AddBefore q i ix) = (nxt ix)(i := q, prv ix q := i)" "prv (AddBefore q i ix) = (prv ix)(i := prv ix q, q := i)"
    unfolding eq by (simp_all add: nxt_set lk nd assms)
qed

text \<open>Queues that share nothing stay apart.\<close>

definition away :: "int list \<Rightarrow> int list \<Rightarrow> bool" where
  "away P Q \<longleftrightarrow> set P \<inter> set Q = {}"

lemma queue_relinked: "relinked ix ix' \<Longrightarrow> (\<forall>i \<in> set (q # L). nxt ix' i = nxt ix i \<and> prv ix' i = prv ix i) \<Longrightarrow> queue ix q L \<Longrightarrow> queue ix' q L"
  using queue_cong [of ix' ix q L] relinkedD(17) [of ix ix'] by auto

lemma Dequeue_queue:
  assumes "linked ix" "iModCount ix = 255" "queue ix q (A @ i # B)"
  shows "relinked ix (Dequeue i ix)" "queue (Dequeue i ix) q (A @ B)"
    "queue ix q' L \<Longrightarrow> away (q' # L) (q # A @ i # B) \<Longrightarrow> queue (Dequeue i ix) q' L"
proof -
  have i: "i \<in> set (A @ i # B)" by simp
  note inner = queue_inner_nodes [OF assms(3) i] and nodes = queue_nodes [OF assms(3)]
  have n: "node ix (nxt ix i)" "node ix (prv ix i)" "node ix i" using inner nodes(1,2) i by auto
  note l = Dequeue_links [OF assms(1,2) n(3,1,2)]
  show "relinked ix (Dequeue i ix)" by (rule l(1))
  show "queue (Dequeue i ix) q (A @ B)"
    using dlring_remove [of "nxt ix" "prv ix" q A i B] assms(3) relinkedD(17) [OF l(1)] unfolding queue_def l(2,3) by auto
  show "queue (Dequeue i ix) q' L" if "queue ix q' L" "away (q' # L) (q # A @ i # B)"
    by (rule queue_relinked [OF l(1) _ that(1)]) (use that(2) inner in \<open>auto simp: l away_def\<close>)
qed

lemma AddHead_queue:
  assumes "linked ix" "iModCount ix = 255" "queue ix q L" "0 \<le> i" "i < int (length (iSlots ix))" "i \<notin> set L"
  shows "relinked ix (AddHead q i ix)" "queue (AddHead q i ix) q (i # L)"
    "queue ix q' L' \<Longrightarrow> away (q' # L') (q # i # L) \<Longrightarrow> queue (AddHead q i ix) q' L'"
proof -
  note nodes = queue_nodes [OF assms(3)]
  have i: "node ix i" "i \<notin> set (q # L)" using assms(3-6) by (auto simp: node_def queue_def)
  note l = AddAfter_links [OF assms(1,2) nodes(1) i(1) nodes(3), folded AddHead_def]
  show "relinked ix (AddHead q i ix)" by (rule l(1))
  show "queue (AddHead q i ix) q (i # L)"
    using dlring_insert_first [of "nxt ix" "prv ix" q L i] assms(3-6) i relinkedD(17) [OF l(1)] unfolding queue_def l(2,3) by auto
  have first: "nxt ix q \<in> set (q # L)" using dlring_first [of "nxt ix" "prv ix" q L] assms(3) by (auto simp: queue_def split: list.splits)
  show "queue (AddHead q i ix) q' L'" if "queue ix q' L'" "away (q' # L') (q # i # L)"
    by (rule queue_relinked [OF l(1) _ that(1)]) (use that(2) first in \<open>auto simp: l away_def\<close>)
qed

lemma AddTail_queue:
  assumes "linked ix" "iModCount ix = 255" "queue ix q L" "0 \<le> i" "i < int (length (iSlots ix))" "i \<notin> set L"
  shows "relinked ix (AddTail q i ix)" "queue (AddTail q i ix) q (L @ [i])"
    "queue ix q' L' \<Longrightarrow> away (q' # L') (q # i # L) \<Longrightarrow> queue (AddTail q i ix) q' L'"
proof -
  note nodes = queue_nodes [OF assms(3)]
  have i: "node ix i" "i \<notin> set (q # L)" using assms(3-6) by (auto simp: node_def queue_def)
  note l = AddBefore_links [OF assms(1,2) nodes(1) i(1) nodes(4), folded AddTail_def]
  show "relinked ix (AddTail q i ix)" by (rule l(1))
  show "queue (AddTail q i ix) q (L @ [i])"
    using dlring_insert_last [of "nxt ix" "prv ix" q L i] assms(3-6) i relinkedD(17) [OF l(1)] unfolding queue_def l(2,3) by auto
  have lst: "prv ix q \<in> set (q # L)" using dlring_last [of "nxt ix" "prv ix" q L] assms(3) by (auto simp: queue_def split: if_splits)
  show "queue (AddTail q i ix) q' L'" if "queue ix q' L'" "away (q' # L') (q # i # L)"
    by (rule queue_relinked [OF l(1) _ that(1)]) (use that(2) lst in \<open>auto simp: l away_def\<close>)
qed

lemma AppendList_queue:
  assumes "linked ix" "queue ix d D" "queue ix t S" "away (d # D) (t # S)"
  shows "relinked ix (AppendList t d ix)" "queue (AppendList t d ix) d (D @ S)" "queue (AppendList t d ix) t []"
    "queue ix q L \<Longrightarrow> away (q # L) (d # t # D @ S) \<Longrightarrow> queue (AppendList t d ix) q L"
    "i \<notin> set (d # t # D @ S) \<Longrightarrow> nxt (AppendList t d ix) i = nxt ix i \<and> prv (AppendList t d ix) i = prv ix i"
proof -
  note dn = queue_nodes [OF assms(2)] and tn = queue_nodes [OF assms(3)]
  have rings: "dlring (nxt ix) (prv ix) d D" "dlring (nxt ix) (prv ix) t S" "d < 0" "t < 0" using assms(2,3) by (simp_all add: queue_def)
  let ?f = "nxt ix t" and ?l = "prv ix t" and ?o = "prv ix d"
  let ?a = "set_next ?o ?f ix" let ?b = "set_prev ?f ?o ?a" let ?c = "set_prev d ?l ?b" let ?d = "set_next ?l d ?c" let ?e = "set_next t t ?d" let ?g = "set_prev t t ?e"
  have "relinked ix (AppendList t d ix) \<and> queue (AppendList t d ix) d (D @ S) \<and> queue (AppendList t d ix) t [] \<and>
      (queue ix q L \<longrightarrow> away (q # L) (d # t # D @ S) \<longrightarrow> queue (AppendList t d ix) q L) \<and>
      (i \<notin> set (d # t # D @ S) \<longrightarrow> nxt (AppendList t d ix) i = nxt ix i \<and> prv (AppendList t d ix) i = prv ix i)"
  proof (cases "S = []")
    case True
    then have "?f = t" using dlring_first [OF rings(2)] by simp
    then have "AppendList t d ix = ix" using tn(1) rings(4) by (simp add: AppendList_def Let_def link_nxt)
    then show ?thesis using assms(2,3) True by simp
  next
    case False
    have f: "?f \<in> set S" "?l \<in> set S" "?f \<ge> 0"
      using dlring_first [OF rings(2)] dlring_last [OF rings(2)] False assms(3) by (auto simp: queue_def split: list.splits)
    have o: "prv ix d \<in> set (d # D)" using dlring_last [of "nxt ix" "prv ix" d D] rings(1) by (auto split: if_splits)
    have eq: "AppendList t d ix = ?g" using tn(1) dn(1) f(3) by (simp add: AppendList_def Let_def link_nxt)
    have a: "relinked ix ?a" by simp
    have b: "relinked ix ?b" by (rule relinked_trans [OF a]) simp
    have c: "relinked ix ?c" by (rule relinked_trans [OF b]) simp
    have d: "relinked ix ?d" by (rule relinked_trans [OF c]) simp
    have e: "relinked ix ?e" by (rule relinked_trans [OF d]) simp
    have g: "relinked ix ?g" by (rule relinked_trans [OF e]) simp
    note lk = relinkedD(19) [OF a] relinkedD(19) [OF b] relinkedD(19) [OF c] relinkedD(19) [OF d] relinkedD(19) [OF e]
    note nd = relinkedD(20) [OF a] relinkedD(20) [OF b] relinkedD(20) [OF c] relinkedD(20) [OF d] relinkedD(20) [OF e]
    have links: "nxt ?g = (nxt ix)(?o := ?f, ?l := d, t := t)" "prv ?g = (prv ix)(?f := ?o, d := ?l, t := t)"
      by (simp_all add: nxt_set lk nd assms(1) dn tn)
    have ring: "dlring (nxt ?g) (prv ?g) d (D @ S)"
      unfolding links by (rule dlring_append [OF rings(1,2) False]) (use assms(4) in \<open>simp add: away_def\<close>)
    have none: "dlring (nxt ?g) (prv ?g) t []" unfolding links dlring_empty by simp
    have frame: "nxt ?g i = nxt ix i \<and> prv ?g i = prv ix i" if "i \<notin> set (d # t # D @ S)" for i
    proof -
      have "i \<noteq> ?o" "i \<noteq> ?f" "i \<noteq> ?l" "i \<noteq> d" "i \<noteq> t" using f(1,2) o that by auto
      then show ?thesis unfolding links by simp
    qed
    have others: "queue ?g q L" if "queue ix q L" "away (q # L) (d # t # D @ S)"
    proof (rule queue_relinked [OF g _ that(1)], rule ballI)
      fix i
      assume "i \<in> set (q # L)"
      then have "i \<notin> set (d # t # D @ S)" using that(2) unfolding away_def by blast
      then show "nxt ?g i = nxt ix i \<and> prv ?g i = prv ix i" by (rule frame)
    qed
    have "queue ?g d (D @ S)" "queue ?g t []" using ring none assms(2,3) relinkedD(17) [OF g] by (auto simp: queue_def)
    then show ?thesis using g frame others unfolding eq by blast
  qed
  then show "relinked ix (AppendList t d ix)" "queue (AppendList t d ix) d (D @ S)" "queue (AppendList t d ix) t []"
    "queue ix q L \<Longrightarrow> away (q # L) (d # t # D @ S) \<Longrightarrow> queue (AppendList t d ix) q L"
    "i \<notin> set (d # t # D @ S) \<Longrightarrow> nxt (AppendList t d ix) i = nxt ix i \<and> prv (AppendList t d ix) i = prv ix i" by blast+
qed

lemma PrependList_queue:
  assumes "linked ix" "queue ix d D" "queue ix t S" "away (d # D) (t # S)"
  shows "relinked ix (PrependList t d ix)" "queue (PrependList t d ix) d (S @ D)" "queue (PrependList t d ix) t []"
    "queue ix q L \<Longrightarrow> away (q # L) (d # t # D @ S) \<Longrightarrow> queue (PrependList t d ix) q L"
    "i \<notin> set (d # t # D @ S) \<Longrightarrow> nxt (PrependList t d ix) i = nxt ix i \<and> prv (PrependList t d ix) i = prv ix i"
proof -
  note dn = queue_nodes [OF assms(2)] and tn = queue_nodes [OF assms(3)]
  have rings: "dlring (nxt ix) (prv ix) d D" "dlring (nxt ix) (prv ix) t S" "d < 0" "t < 0" using assms(2,3) by (simp_all add: queue_def)
  let ?f = "nxt ix t" and ?l = "prv ix t" and ?o = "nxt ix d"
  let ?a = "set_prev ?o ?l ix" let ?b = "set_next ?l ?o ?a" let ?c = "set_next d ?f ?b" let ?d = "set_prev ?f d ?c" let ?e = "set_next t t ?d" let ?g = "set_prev t t ?e"
  have "relinked ix (PrependList t d ix) \<and> queue (PrependList t d ix) d (S @ D) \<and> queue (PrependList t d ix) t [] \<and>
      (queue ix q L \<longrightarrow> away (q # L) (d # t # D @ S) \<longrightarrow> queue (PrependList t d ix) q L) \<and>
      (i \<notin> set (d # t # D @ S) \<longrightarrow> nxt (PrependList t d ix) i = nxt ix i \<and> prv (PrependList t d ix) i = prv ix i)"
  proof (cases "S = []")
    case True
    then have "?f = t" using dlring_first [OF rings(2)] by simp
    then have "PrependList t d ix = ix" using tn(1) rings(4) by (simp add: PrependList_def Let_def link_nxt)
    then show ?thesis using assms(2,3) True by simp
  next
    case False
    have f: "?f \<in> set S" "?l \<in> set S" "?f \<ge> 0"
      using dlring_first [OF rings(2)] dlring_last [OF rings(2)] False assms(3) by (auto simp: queue_def split: list.splits)
    have o: "nxt ix d \<in> set (d # D)" using dlring_first [of "nxt ix" "prv ix" d D] rings(1) by (auto split: list.splits)
    have eq: "PrependList t d ix = ?g" using tn(1) dn(1) f(3) by (simp add: PrependList_def Let_def link_nxt)
    have a: "relinked ix ?a" by simp
    have b: "relinked ix ?b" by (rule relinked_trans [OF a]) simp
    have c: "relinked ix ?c" by (rule relinked_trans [OF b]) simp
    have d: "relinked ix ?d" by (rule relinked_trans [OF c]) simp
    have e: "relinked ix ?e" by (rule relinked_trans [OF d]) simp
    have g: "relinked ix ?g" by (rule relinked_trans [OF e]) simp
    note lk = relinkedD(19) [OF a] relinkedD(19) [OF b] relinkedD(19) [OF c] relinkedD(19) [OF d] relinkedD(19) [OF e]
    note nd = relinkedD(20) [OF a] relinkedD(20) [OF b] relinkedD(20) [OF c] relinkedD(20) [OF d] relinkedD(20) [OF e]
    have links: "nxt ?g = (nxt ix)(?l := ?o, d := ?f, t := t)" "prv ?g = (prv ix)(?o := ?l, ?f := d, t := t)"
      by (simp_all add: nxt_set lk nd assms(1) dn tn)
    have ring: "dlring (nxt ?g) (prv ?g) d (S @ D)"
      unfolding links by (rule dlring_prepend [OF rings(1,2) False]) (use assms(4) in \<open>simp add: away_def\<close>)
    have none: "dlring (nxt ?g) (prv ?g) t []" unfolding links dlring_empty by simp
    have frame: "nxt ?g i = nxt ix i \<and> prv ?g i = prv ix i" if "i \<notin> set (d # t # D @ S)" for i
    proof -
      have "i \<noteq> ?o" "i \<noteq> ?f" "i \<noteq> ?l" "i \<noteq> d" "i \<noteq> t" using f(1,2) o that by auto
      then show ?thesis unfolding links by simp
    qed
    have others: "queue ?g q L" if "queue ix q L" "away (q # L) (d # t # D @ S)"
    proof (rule queue_relinked [OF g _ that(1)], rule ballI)
      fix i
      assume "i \<in> set (q # L)"
      then have "i \<notin> set (d # t # D @ S)" using that(2) unfolding away_def by blast
      then show "nxt ?g i = nxt ix i \<and> prv ?g i = prv ix i" by (rule frame)
    qed
    have "queue ?g d (S @ D)" "queue ?g t []" using ring none assms(2,3) relinkedD(17) [OF g] by (auto simp: queue_def)
    then show ?thesis using g frame others unfolding eq by blast
  qed
  then show "relinked ix (PrependList t d ix)" "queue (PrependList t d ix) d (S @ D)" "queue (PrependList t d ix) t []"
    "queue ix q L \<Longrightarrow> away (q # L) (d # t # D @ S) \<Longrightarrow> queue (PrependList t d ix) q L"
    "i \<notin> set (d # t # D @ S) \<Longrightarrow> nxt (PrependList t d ix) i = nxt ix i \<and> prv (PrependList t d ix) i = prv ix i" by blast+
qed

lemma Empty_links:
  assumes "linked ix" "- 6 \<le> q" "q < 0"
  shows "relinked ix (Empty q ix)" "queue (Empty q ix) q []" "queue ix q' L \<Longrightarrow> q' \<noteq> q \<Longrightarrow> queue (Empty q ix) q' L"
proof -
  let ?a = "set_next q q ix"
  have n: "node ix q" using assms by (auto simp: node_def)
  have a: "relinked ix ?a" by simp
  have b: "relinked ix (Empty q ix)" unfolding Empty_def by (rule relinked_trans [OF a]) simp
  have links: "nxt (Empty q ix) = (nxt ix)(q := q)" "prv (Empty q ix) = (prv ix)(q := q)"
    unfolding Empty_def by (simp_all add: nxt_set relinkedD(19,20) [OF a] assms n)
  show "relinked ix (Empty q ix)" by (rule b)
  show "queue (Empty q ix) q []" unfolding queue_def links dlring_empty using assms by simp
  show "queue (Empty q ix) q' L" if "queue ix q' L" "q' \<noteq> q"
    by (rule queue_relinked [OF b _ that(1)]) (use that assms in \<open>auto simp: links queue_def\<close>)
qed

lemma queue_first: "queue ix q L \<Longrightarrow> link_next ix q = (case L of [] \<Rightarrow> q | i # _ \<Rightarrow> i)"
  using dlring_first [of "nxt ix" "prv ix" q L] queue_nodes(1) [of ix q L] by (auto simp: queue_def link_nxt)

lemma queue_last: "queue ix q L \<Longrightarrow> link_prev ix q = (if L = [] then q else last L)"
  using dlring_last [of "nxt ix" "prv ix" q L] queue_nodes(1) [of ix q L] by (auto simp: queue_def link_nxt)

text \<open>Changes outside the links.\<close>

lemma set_objr_simps [simp]:
  "length (iSlots (set_objr i v ix)) = length (iSlots ix)" "iFreeQ (set_objr i v ix) = iFreeQ ix" "linked (set_objr i v ix) = linked ix"
  by (simp_all add: set_objr_def linked_def)

lemma set_objr_links [simp]: "nxt (set_objr i v ix) = nxt ix" "prv (set_objr i v ix) = prv ix" "queue (set_objr i v ix) = queue ix"
proof -
  have slot: "iNext ((iSlots ix)[nat i := (iSlots ix ! nat i)\<lparr>iObjR := v\<rparr>] ! k) = iNext (iSlots ix ! k)"
    "iPrev ((iSlots ix)[nat i := (iSlots ix ! nat i)\<lparr>iObjR := v\<rparr>] ! k) = iPrev (iSlots ix ! k)" for k
    by (cases "nat i < length (iSlots ix)"; cases "k = nat i"; simp add: list_update_beyond)+
  show n: "nxt (set_objr i v ix) = nxt ix" and p: "prv (set_objr i v ix) = prv ix"
    using slot by (auto simp: fun_eq_iff nxt_def prv_def node_def link_next_def link_prev_def set_objr_def)
  show "queue (set_objr i v ix) = queue ix" unfolding queue_def [abs_def] n p by simp
qed

end
