(* ===== verification/Objix_Rings.thy ===== *)
theory Objix_Rings
  imports Objix_Queue
begin

text \<open>
  The six queues of an object index taken together, whether the slots that change are being recorded or
  not: every operation on the links changes one or two of the lists, keeps the others, and keeps all
  fields but the record of the changes.
\<close>

section \<open>The record of modified slots does not matter to the queues\<close>

definition unmark :: "RObjectIx \<Rightarrow> RObjectIx" where
  "unmark ix = ix\<lparr>iModCount := 255, iIndex := [], iBitMap := [], iObj := 0, iBoundary := 0, iResult := 0\<rparr>"

lemma unmark_simps [simp]:
  "iAllocated (unmark ix) = iAllocated ix" "iCount (unmark ix) = iCount ix" "iActiveCount (unmark ix) = iActiveCount ix"
  "iReservedFree (unmark ix) = iReservedFree ix" "iReservedTotal (unmark ix) = iReservedTotal ix"
  "iReservedFreeHWM (unmark ix) = iReservedFreeHWM ix" "iAmortize (unmark ix) = iAmortize ix" "iState (unmark ix) = iState ix"
  "iModListShift (unmark ix) = iModListShift ix" "NextInstance (unmark ix) = NextInstance ix" "iSlots (unmark ix) = iSlots ix"
  "iFreeQ (unmark ix) = iFreeQ ix" "iModCount (unmark ix) = 255" "linked (unmark ix) = linked ix" "node (unmark ix) = node ix"
  "link_next (unmark ix) = link_next ix" "link_prev (unmark ix) = link_prev ix" "unmark (unmark ix) = unmark ix"
  by (simp_all add: unmark_def linked_def node_def fun_eq_iff link_next_def link_prev_def)

lemma unmark_links [simp]: "nxt (unmark ix) = nxt ix" "prv (unmark ix) = prv ix" "queue (unmark ix) = queue ix"
proof -
  show l: "nxt (unmark ix) = nxt ix" "prv (unmark ix) = prv ix" by (simp_all add: nxt_def prv_def fun_eq_iff)
  show "queue (unmark ix) = queue ix" unfolding queue_def [abs_def] l by simp
qed

lemma unmark_mark_bit [simp]: "unmark (mark_bit i ix) = unmark ix"
  by (simp add: unmark_def mark_bit_def Let_def)

lemma unmark_fold_mark_bit [simp]: "unmark (fold mark_bit is ix) = unmark ix"
  by (induction "is" arbitrary: ix) simp_all

lemma unmark_MarkModified [simp]: "unmark (MarkModified i ix) = unmark ix"
proof -
  have "unmark ((fold mark_bit (iIndex ix) (clear_mod_list ix))\<lparr>iModCount := EModCount + 1\<rparr>) =
      unmark (fold mark_bit (iIndex ix) (clear_mod_list ix))"
    by (simp add: unmark_def)
  also have "\<dots> = unmark ix" by simp (simp add: unmark_def clear_mod_list_def)
  finally have "unmark ((fold mark_bit (iIndex ix) (clear_mod_list ix))\<lparr>iModCount := EModCount + 1\<rparr>) = unmark ix" .
  moreover have "unmark (ix\<lparr>iIndex := is, iModCount := k\<rparr>) = unmark ix" for "is" k by (simp add: unmark_def)
  ultimately show ?thesis by (simp add: MarkModified_def)
qed

lemma unmark_mark_if [simp]: "unmark (mark_if i ix) = unmark ix" "mark_if i (unmark ix) = unmark ix"
  by (simp_all add: mark_if_def)

lemma unmark_set [simp]: "unmark (set_next i v ix) = set_next i v (unmark ix)" "unmark (set_prev i v ix) = set_prev i v (unmark ix)"
  "unmark (set_objr i w ix) = set_objr i w (unmark ix)"
  by (simp_all add: unmark_def set_next_def set_prev_def set_objr_def)

lemma modcount_set [simp]: "iModCount (set_next i v ix) = iModCount ix" "iModCount (set_prev i v ix) = iModCount ix"
  "iModCount (set_objr i w ix) = iModCount ix"
  by (simp_all add: set_next_def set_prev_def set_objr_def)

lemma unmark_ops:
  "unmark (Dequeue i ix) = Dequeue i (unmark ix)" "unmark (AddHead q i ix) = AddHead q i (unmark ix)"
  "unmark (AddTail q i ix) = AddTail q i (unmark ix)" "unmark (AppendList t d ix) = AppendList t d (unmark ix)"
  "unmark (PrependList t d ix) = PrependList t d (unmark ix)" "unmark (Empty q ix) = Empty q (unmark ix)"
  by (simp_all add: Dequeue_def AddHead_def AddAfter_def AddTail_def AddBefore_def AppendList_def PrependList_def Empty_def Let_def no_marks)

text \<open>The two states differ at most in their links and in the record of modified slots.\<close>

definition keeps :: "RObjectIx \<Rightarrow> RObjectIx \<Rightarrow> bool" where
  "keeps ix ix' \<longleftrightarrow> relinked (unmark ix) (unmark ix') \<and> (iModCount ix = 255 \<longrightarrow> relinked ix ix')"

lemma keeps_refl [simp]: "keeps ix ix"
  by (simp add: keeps_def)

lemma keeps_trans: "keeps ix ix' \<Longrightarrow> keeps ix' ix'' \<Longrightarrow> keeps ix ix''"
  unfolding keeps_def using relinked_trans relinkedD(9) by metis

lemma keepsD:
  assumes "keeps ix ix'"
  shows "iAllocated ix' = iAllocated ix" "iCount ix' = iCount ix" "iActiveCount ix' = iActiveCount ix" "iReservedFree ix' = iReservedFree ix"
    "iReservedTotal ix' = iReservedTotal ix" "iReservedFreeHWM ix' = iReservedFreeHWM ix" "iAmortize ix' = iAmortize ix"
    "iState ix' = iState ix" "iModListShift ix' = iModListShift ix" "NextInstance ix' = NextInstance ix"
    "length (iSlots ix') = length (iSlots ix)" "linked ix' = linked ix" "node ix' = node ix"
    "iModCount ix = 255 \<Longrightarrow> iModCount ix' = 255" "iModCount ix = 255 \<Longrightarrow> iBoundary ix' = iBoundary ix"
    "iModCount ix = 255 \<Longrightarrow> iResult ix' = iResult ix" "iModCount ix = 255 \<Longrightarrow> iObj ix' = iObj ix"
  using relinkedD [of "unmark ix" "unmark ix'"] relinkedD [of ix ix'] assms unfolding keeps_def by simp_all

lemma keeps_maps:
  assumes "keeps ix ix'"
  shows "map iObjR (iSlots ix') = map iObjR (iSlots ix)" "map iAttr (iSlots ix') = map iAttr (iSlots ix)"
proof -
  have "relinked (unmark ix) (unmark ix')" using assms by (simp only: keeps_def)
  then have "map iObjR (iSlots (unmark ix')) = map iObjR (iSlots (unmark ix))" "map iAttr (iSlots (unmark ix')) = map iAttr (iSlots (unmark ix))"
    by (simp_all only: relinked_def)
  then show "map iObjR (iSlots ix') = map iObjR (iSlots ix)" "map iAttr (iSlots ix') = map iAttr (iSlots ix)" by simp_all
qed

lemma keeps_slots:
  assumes "keeps ix ix'" "0 \<le> i" "i < int (length (iSlots ix))"
  shows "objr ix' i = objr ix i" "attr ix' i = attr ix i"
  using relinked_slots [of "unmark ix" "unmark ix'"] assms unfolding keeps_def by simp_all

section \<open>All queues together\<close>

text \<open>The queues of \<open>S\<close>; while the table grows, the two temporary ones hold slots of the new table.\<close>

definition rings :: "int set \<Rightarrow> RObjectIx \<Rightarrow> (int \<Rightarrow> int list) \<Rightarrow> bool" where
  "rings S ix Q \<longleftrightarrow> linked ix \<and> S \<subseteq> {-6..-1} \<and> (\<forall>q. q \<in> S \<longrightarrow> queue ix q (Q q)) \<and>
     (\<forall>q q'. q \<in> S \<longrightarrow> q' \<in> S \<longrightarrow> q \<noteq> q' \<longrightarrow> set (Q q) \<inter> set (Q q') = {})"

lemma rings_unmark [simp]: "rings S (unmark ix) Q = rings S ix Q"
  by (simp add: rings_def)

lemma ringsD:
  assumes "rings S ix Q" "q \<in> S"
  shows "linked ix" "queue ix q (Q q)" "distinct (Q q)" "i \<in> set (Q q) \<Longrightarrow> 0 \<le> i \<and> i < int (length (iSlots ix))"
    "q' \<in> S \<Longrightarrow> q \<noteq> q' \<Longrightarrow> i \<in> set (Q q) \<Longrightarrow> i \<notin> set (Q q')"
    "- 6 \<le> q \<and> q < 0"
proof -
  show "- 6 \<le> q \<and> q < 0" using assms by (force simp: rings_def)
  show "linked ix" and q: "queue ix q (Q q)" using assms by (auto simp: rings_def)
  show "distinct (Q q)" using queue_nodes(5) [OF q] .
  show "i \<in> set (Q q) \<Longrightarrow> 0 \<le> i \<and> i < int (length (iSlots ix))" using q by (simp add: queue_def)
  show "q' \<in> S \<Longrightarrow> q \<noteq> q' \<Longrightarrow> i \<in> set (Q q) \<Longrightarrow> i \<notin> set (Q q')" using assms unfolding rings_def by blast
qed

lemma rings_next: "rings S ix Q \<Longrightarrow> q \<in> S \<Longrightarrow> link_next ix q = (case Q q of [] \<Rightarrow> q | i # _ \<Rightarrow> i)"
  by (rule queue_first) (rule ringsD)

lemma rings_prev: "rings S ix Q \<Longrightarrow> q \<in> S \<Longrightarrow> link_prev ix q = (if Q q = [] then q else last (Q q))"
  by (rule queue_last) (rule ringsD)

lemma rings_away:
  assumes "rings S ix Q" "q \<in> S" "q' \<in> S" "q \<noteq> q'"
  shows "away (q # Q q) (q' # Q q')"
proof -
  have "set (Q q) \<inter> set (Q q') = {}" using assms unfolding rings_def by blast
  moreover have "q' \<notin> set (Q q)" "q \<notin> set (Q q')" using ringsD(4,6) [OF assms(1,2)] ringsD(4,6) [OF assms(1,3)] by force+
  ultimately show ?thesis using assms(4) unfolding away_def by auto
qed

text \<open>An operation on the unmarked state that has the right effect on the lists has it in every state.\<close>

lemma rings_step:
  assumes "rings S ix Q" "unmark ix' = u" "relinked (unmark ix) u" "iModCount ix = 255 \<Longrightarrow> relinked ix ix'"
    "\<And>q. q \<in> S \<Longrightarrow> queue u q (Q' q)"
    "\<And>q q'. q \<in> S \<Longrightarrow> q' \<in> S \<Longrightarrow> q \<noteq> q' \<Longrightarrow> set (Q' q) \<inter> set (Q' q') = {}"
  shows "rings S ix' Q' \<and> keeps ix ix'"
proof -
  have u: "linked u = linked ix'" "queue u = queue ix'" unfolding assms(2) [symmetric] by simp_all
  have "linked ix'" using relinkedD(19) [OF assms(3)] assms(1) u(1) by (simp add: rings_def)
  moreover have "S \<subseteq> {-6..-1}" using assms(1) by (simp add: rings_def)
  ultimately show ?thesis using assms(3-6) unfolding rings_def keeps_def assms(2) u(2) by blast
qed

lemma Dequeue_rings:
  assumes "rings S ix Q" "q \<in> S" "Q q = A @ i # B"
  shows "rings S (Dequeue i ix) (Q(q := A @ B)) \<and> keeps ix (Dequeue i ix)"
proof (rule rings_step [OF assms(1) unmark_ops(1)])
  have q: "queue ix q (A @ i # B)" "linked ix" using ringsD [OF assms(1,2)] assms(3) by simp_all
  then have uq: "queue (unmark ix) q (A @ i # B)" "linked (unmark ix)" "iModCount (unmark ix) = 255" by simp_all
  note d = Dequeue_queue [OF uq(2,3,1)]
  show "relinked (unmark ix) (Dequeue i (unmark ix))" by (rule d(1))
  show "relinked ix (Dequeue i ix)" if "iModCount ix = 255" by (rule Dequeue_queue(1) [OF q(2) that q(1)])
  show "queue (Dequeue i (unmark ix)) q' ((Q(q := A @ B)) q')" if "q' \<in> S" for q'
  proof (cases "q' = q")
    case False
    then show ?thesis using d(3) [of q' "Q q'"] rings_away [OF assms(1) that assms(2)] ringsD(2) [OF assms(1) that] assms(3) by simp
  qed (use d(2) in simp)
  have sub: "set ((Q(q := A @ B)) p) \<subseteq> set (Q p)" for p using assms(3) by auto
  show "set ((Q(q := A @ B)) p) \<inter> set ((Q(q := A @ B)) p') = {}" if "p \<in> S" "p' \<in> S" "p \<noteq> p'" for p p'
    using sub [of p] sub [of p'] that assms(1) unfolding rings_def by blast
qed

lemma fresh_away:
  assumes "rings S ix Q" "q \<in> S" "q' \<in> S" "q' \<noteq> q" "0 \<le> i" "\<And>p. p \<in> S \<Longrightarrow> i \<notin> set (Q p)"
  shows "away (q' # Q q') (q # i # Q q)"
  using rings_away [OF assms(1,3,2,4)] ringsD(6) [OF assms(1,3)] assms(5) assms(6) [OF assms(3)] by (auto simp: away_def)

lemma AddHead_rings:
  assumes "rings S ix Q" "q \<in> S" "0 \<le> i" "i < int (length (iSlots ix))" "\<And>p. p \<in> S \<Longrightarrow> i \<notin> set (Q p)"
  shows "rings S (AddHead q i ix) (Q(q := i # Q q)) \<and> keeps ix (AddHead q i ix)"
proof (rule rings_step [OF assms(1) unmark_ops(2)])
  have q: "queue ix q (Q q)" "linked ix" using ringsD [OF assms(1,2)] by simp_all
  then have uq: "queue (unmark ix) q (Q q)" "linked (unmark ix)" "iModCount (unmark ix) = 255" "i < int (length (iSlots (unmark ix)))"
    using assms(4) by simp_all
  note d = AddHead_queue [OF uq(2,3,1) assms(3) uq(4) assms(5) [OF assms(2)]]
  show "relinked (unmark ix) (AddHead q i (unmark ix))" by (rule d(1))
  show "relinked ix (AddHead q i ix)" if "iModCount ix = 255" by (rule AddHead_queue(1) [OF q(2) that q(1) assms(3,4) assms(5) [OF assms(2)]])
  show "queue (AddHead q i (unmark ix)) q' ((Q(q := i # Q q)) q')" if "q' \<in> S" for q'
  proof (cases "q' = q")
    case False
    then show ?thesis using d(3) [of q' "Q q'"] fresh_away [OF assms(1,2) that False assms(3,5)] ringsD(2) [OF assms(1) that] by simp
  qed (use d(2) in simp)
  show "set ((Q(q := i # Q q)) p) \<inter> set ((Q(q := i # Q q)) p') = {}" if "p \<in> S" "p' \<in> S" "p \<noteq> p'" for p p'
    using that assms(5) [OF that(1)] assms(5) [OF that(2)] ringsD(5) [OF assms(1) that(1,2)] by (auto split: if_splits)
qed

lemma AddTail_rings:
  assumes "rings S ix Q" "q \<in> S" "0 \<le> i" "i < int (length (iSlots ix))" "\<And>p. p \<in> S \<Longrightarrow> i \<notin> set (Q p)"
  shows "rings S (AddTail q i ix) (Q(q := Q q @ [i])) \<and> keeps ix (AddTail q i ix)"
proof (rule rings_step [OF assms(1) unmark_ops(3)])
  have q: "queue ix q (Q q)" "linked ix" using ringsD [OF assms(1,2)] by simp_all
  then have uq: "queue (unmark ix) q (Q q)" "linked (unmark ix)" "iModCount (unmark ix) = 255" "i < int (length (iSlots (unmark ix)))"
    using assms(4) by simp_all
  note d = AddTail_queue [OF uq(2,3,1) assms(3) uq(4) assms(5) [OF assms(2)]]
  show "relinked (unmark ix) (AddTail q i (unmark ix))" by (rule d(1))
  show "relinked ix (AddTail q i ix)" if "iModCount ix = 255" by (rule AddTail_queue(1) [OF q(2) that q(1) assms(3,4) assms(5) [OF assms(2)]])
  show "queue (AddTail q i (unmark ix)) q' ((Q(q := Q q @ [i])) q')" if "q' \<in> S" for q'
  proof (cases "q' = q")
    case False
    then show ?thesis using d(3) [of q' "Q q'"] fresh_away [OF assms(1,2) that False assms(3,5)] ringsD(2) [OF assms(1) that] by simp
  qed (use d(2) in simp)
  show "set ((Q(q := Q q @ [i])) p) \<inter> set ((Q(q := Q q @ [i])) p') = {}" if "p \<in> S" "p' \<in> S" "p \<noteq> p'" for p p'
    using that assms(5) [OF that(1)] assms(5) [OF that(2)] ringsD(5) [OF assms(1) that(1,2)] by (auto split: if_splits)
qed

text \<open>Joining two queues.\<close>

definition moved :: "(int \<Rightarrow> int list) \<Rightarrow> int \<Rightarrow> int \<Rightarrow> int list \<Rightarrow> int \<Rightarrow> int list" where
  "moved Q t d L = Q(d := L, t := [])"

lemma join_away:
  assumes "rings S ix Q" "t \<in> S" "d \<in> S" "q \<in> S" "t \<noteq> d" "q \<noteq> t" "q \<noteq> d"
  shows "away (q # Q q) (d # t # Q d @ Q t)"
  using rings_away [OF assms(1,4,2,6)] rings_away [OF assms(1,4,3,7)] assms(6,7) by (auto simp: away_def)

lemma moved_apart:
  assumes "rings S ix Q" "t \<in> S" "d \<in> S" "t \<noteq> d" "set L = set (Q d) \<union> set (Q t)" "p \<in> S" "p' \<in> S" "p \<noteq> p'"
  shows "set (moved Q t d L p) \<inter> set (moved Q t d L p') = {}"
proof -
  have apart: "set (Q a) \<inter> set (Q b) = {}" if "a \<in> S" "b \<in> S" "a \<noteq> b" for a b using that assms(1) unfolding rings_def by blast
  have "set (Q a) \<inter> (set (Q d) \<union> set (Q t)) = {}" if "a \<in> S" "a \<noteq> d" "a \<noteq> t" for a
    using apart [OF that(1) assms(2) that(3)] apart [OF that(1) assms(3) that(2)] by blast
  then show ?thesis using assms(4-8) apart [OF assms(6-8)] by (cases "p = d"; cases "p' = d") (auto simp: moved_def)
qed

lemma AppendList_rings:
  assumes "rings S ix Q" "t \<in> S" "d \<in> S" "t \<noteq> d"
  shows "rings S (AppendList t d ix) (Q(d := Q d @ Q t, t := [])) \<and> keeps ix (AppendList t d ix)"
proof (rule rings_step [OF assms(1) unmark_ops(4)])
  have q: "queue ix d (Q d)" "queue ix t (Q t)" "linked ix" "away (d # Q d) (t # Q t)"
    using ringsD [OF assms(1,2)] ringsD [OF assms(1,3)] rings_away [OF assms(1,3,2)] assms(4) by auto
  have uq: "queue (unmark ix) d (Q d)" "queue (unmark ix) t (Q t)" "linked (unmark ix)" using q by simp_all
  note r = AppendList_queue [OF uq(3,1,2) q(4)]
  show "relinked (unmark ix) (AppendList t d (unmark ix))" by (rule r(1))
  show "relinked ix (AppendList t d ix)" by (rule AppendList_queue(1) [OF q(3,1,2,4)])
  show "queue (AppendList t d (unmark ix)) p ((Q(d := Q d @ Q t, t := [])) p)" if "p \<in> S" for p
    using r(2,3) r(4) [of p "Q p"] join_away [OF assms(1-3) that assms(4)] ringsD(2) [OF assms(1) that] assms(4)
    by (cases "p = t"; cases "p = d") simp_all
qed (use moved_apart [OF assms(1-4), of "Q d @ Q t"] in \<open>simp add: moved_def\<close>)

lemma PrependList_rings:
  assumes "rings S ix Q" "t \<in> S" "d \<in> S" "t \<noteq> d"
  shows "rings S (PrependList t d ix) (Q(d := Q t @ Q d, t := [])) \<and> keeps ix (PrependList t d ix)"
proof (rule rings_step [OF assms(1) unmark_ops(5)])
  have q: "queue ix d (Q d)" "queue ix t (Q t)" "linked ix" "away (d # Q d) (t # Q t)"
    using ringsD [OF assms(1,2)] ringsD [OF assms(1,3)] rings_away [OF assms(1,3,2)] assms(4) by auto
  have uq: "queue (unmark ix) d (Q d)" "queue (unmark ix) t (Q t)" "linked (unmark ix)" using q by simp_all
  note r = PrependList_queue [OF uq(3,1,2) q(4)]
  show "relinked (unmark ix) (PrependList t d (unmark ix))" by (rule r(1))
  show "relinked ix (PrependList t d ix)" by (rule PrependList_queue(1) [OF q(3,1,2,4)])
  show "queue (PrependList t d (unmark ix)) p ((Q(d := Q t @ Q d, t := [])) p)" if "p \<in> S" for p
    using r(2,3) r(4) [of p "Q p"] join_away [OF assms(1-3) that assms(4)] ringsD(2) [OF assms(1) that] assms(4)
    by (cases "p = t"; cases "p = d") simp_all
qed (use moved_apart [OF assms(1-4), of "Q t @ Q d"] in \<open>simp add: moved_def sup_commute\<close>)

text \<open>Fields outside the links.\<close>

lemma rings_cong: "iSlots ix' = iSlots ix \<Longrightarrow> iFreeQ ix' = iFreeQ ix \<Longrightarrow> rings S ix' Q = rings S ix Q"
proof -
  assume e: "iSlots ix' = iSlots ix" "iFreeQ ix' = iFreeQ ix"
  then have l: "nxt ix' = nxt ix" "prv ix' = prv ix" "linked ix' = linked ix"
    by (simp_all add: fun_eq_iff nxt_def prv_def node_def link_next_def link_prev_def linked_def)
  show ?thesis unfolding rings_def queue_def l e ..
qed

lemma rings_set_objr [simp]: "rings S (set_objr i v ix) = rings S ix"
  by (simp add: rings_def [abs_def])

end
