(* ===== verification/Objix_Spec.thy ===== *)
theory Objix_Spec
  imports Objix_Rings
begin

text \<open>
  The invariant of an object index, its handles as a map, and what adding and removing a handle do to
  both, in every state in which they can run.
\<close>

section \<open>Instance values and handles\<close>

lemma bit_and_7fff: "bit (0x7FFF :: int) n \<longleftrightarrow> n < 15"
proof -
  have "(0x7FFF :: int) = mask 15" by (simp add: mask_eq_exp_minus_1)
  then show ?thesis by (simp only: bit_mask_iff) simp
qed

lemma and_7fff: "(i :: int) AND 0x7FFF = i mod 32768"
proof -
  have "(0x7FFF :: int) = mask 15" by (simp add: mask_eq_exp_minus_1)
  then have "i AND 0x7FFF = take_bit 15 i" by (simp only: take_bit_eq_mask)
  then show ?thesis by (simp add: take_bit_eq_mod)
qed

lemma and_3fff: "(w :: TUint32) AND 0x3FFF = take_bit 14 w"
proof -
  have "(0x3FFF :: TUint32) = mask 14" by (simp add: mask_eq_exp_minus_1)
  then show ?thesis by (simp only: take_bit_eq_mask)
qed

lemma uint_3fff: "uint ((w :: TUint32) AND 0x3FFF) = uint w mod 16384"
  unfolding and_3fff by (simp only: unsigned_take_bit_eq) (simp add: take_bit_eq_mod)

lemma MakeHandle_eq: "0 \<le> i \<Longrightarrow> i < 32768 \<Longrightarrow> MakeHandle i w = uint (w AND 0x3FFF) * 65536 + i"
proof -
  assume i: "0 \<le> i" "i < 32768"
  have "push_bit 16 (uint (w AND 0x3FFF)) AND (i AND 0x7FFF) = 0"
    by (rule bit_eqI) (auto simp: bit_simps bit_and_7fff)
  then have "MakeHandle i w = push_bit 16 (uint (w AND 0x3FFF)) + (i AND 0x7FFF)"
    unfolding MakeHandle_def using plus_and_or [of "push_bit 16 (uint (w AND 0x3FFF))" "i AND 0x7FFF"] by simp
  then show ?thesis using i by (simp add: and_7fff push_bit_eq_mult)
qed

lemma HandleIndex_Make:
  assumes "0 \<le> i" "i < 32768"
  shows "HandleIndex (MakeHandle i w) = i"
proof -
  have "(x * 65536 + i) mod 32768 = i" for x :: int
  proof -
    have "x * 65536 + i = i + (2 * x) * 32768" by simp
    then show ?thesis using assms by (simp only: mod_mult_self1) simp
  qed
  then show ?thesis using assms by (simp add: HandleIndex_def and_7fff MakeHandle_eq)
qed

lemma HandleInstance_eq: "HandleInstance h = word_of_int (h div 65536 mod 16384)"
proof -
  have m: "(0x3FFF0000 :: int) = push_bit 16 (mask 14)" by (simp add: mask_eq_exp_minus_1 push_bit_eq_mult)
  have "drop_bit 16 (h AND 0x3FFF0000) = take_bit 14 (drop_bit 16 h)"
    unfolding m by (rule bit_eqI) (auto simp: bit_simps)
  then show ?thesis by (simp add: HandleInstance_def take_bit_eq_mod drop_bit_eq_div)
qed

lemma HandleInstance_Make:
  assumes "0 \<le> i" "i < 32768"
  shows "HandleInstance (MakeHandle i w) = w AND 0x3FFF"
proof -
  have "MakeHandle i w div 65536 = uint (w AND 0x3FFF)" using assms by (simp add: MakeHandle_eq)
  moreover have "uint (w AND 0x3FFF) mod 16384 = uint (w AND 0x3FFF)" by (simp add: uint_3fff)
  ultimately show ?thesis by (simp add: HandleInstance_eq word_of_int_uint)
qed

lemma HandleIndex_bounds: "0 \<le> HandleIndex h" "HandleIndex h < 32768"
  by (simp_all add: HandleIndex_def and_7fff)

text \<open>The generator of instance values: its state is never 0 from bit 18 upwards, and neither is the value.\<close>

definition gen_ok :: "TUint32 \<Rightarrow> bool" where
  "gen_ok x \<longleftrightarrow> drop_bit 18 x \<noteq> 0"

lemma gen_step:
  assumes "gen_ok x"
  shows "gen_ok (snd (GetNextInstanceValue x))"
proof (rule ccontr)
  let ?y = "snd (GetNextInstanceValue x)"
  define f where "f = drop_bit 1 x XOR drop_bit 11 x XOR drop_bit 12 x XOR drop_bit 13 x"
  have y: "?y = (f AND 0x00040000) OR push_bit 1 x" by (simp add: GetNextInstanceValue_def Let_def f_def ac_simps)
  have exp: "(0x00040000 :: TUint32) = push_bit 18 1" by (simp add: push_bit_eq_mult)
  have mask18: "bit (0x00040000 :: TUint32) n \<longleftrightarrow> n = 18" for n
    by (simp only: exp bit_push_bit_iff bit_1_iff possible_bit_word) auto
  assume "\<not> gen_ok ?y"
  then have "\<not> bit (drop_bit 18 ?y) n" for n by (simp add: gen_ok_def)
  then have none: "\<not> bit ?y (18 + n)" for n by (simp add: bit_drop_bit_eq)
  have low: "\<not> bit x (18 + n)" if "18 + n < 31" for n
    using none [of "Suc n"] that by (simp only: y bit_or_iff bit_push_bit_iff possible_bit_word) simp
  have "\<not> bit f 18" using none [of 0] unfolding y by (simp add: bit_or_iff bit_and_iff mask18)
  then have "\<not> bit x 31" using low [of 1] low [of 11] low [of 12] by (simp add: f_def bit_simps)
  then have "\<not> bit x (18 + n)" for n
    using low [of n] bit_imp_le_length [of x "18 + n"] by (cases "18 + n < 31"; cases "18 + n = 31") auto
  then have "drop_bit 18 x = 0" by (intro bit_word_eqI) (simp add: bit_drop_bit_eq)
  then show False using assms by (simp add: gen_ok_def)
qed

lemma GetNextInstanceValue_ok:
  assumes "gen_ok x" "GetNextInstanceValue x = (v, y)"
  shows "gen_ok y" "v AND 0x3FFF = v" "v \<noteq> 0"
proof -
  show ok: "gen_ok y" using gen_step [OF assms(1)] assms(2) by simp
  have v: "v = (drop_bit 18 y * 10133) AND 0x3FFF" using assms(2) by (auto simp: GetNextInstanceValue_def Let_def)
  show "v AND 0x3FFF = v" unfolding v by (simp add: and.assoc)
  let ?z = "uint (drop_bit 18 y)"
  have "uint y < 2 ^ LENGTH(32)" by (rule unsigned_less)
  then have "?z < 16384" by (simp only: unsigned_drop_bit_eq) (simp add: drop_bit_eq_div take_bit_eq_mod)
  moreover have "?z \<noteq> 0" using ok by (simp only: gen_ok_def unsigned_eq_0_iff not_False_eq_True)
  moreover have "0 \<le> ?z" by simp
  ultimately have z: "0 < ?z" "?z < 16384" by linarith+
  show "v \<noteq> 0"
  proof
    assume "v = 0"
    then have "uint ((drop_bit 18 y * 10133) AND 0x3FFF) = 0" using v by simp
    then have "uint (drop_bit 18 y * 10133) mod 16384 = 0" by (simp only: uint_3fff)
    then have "(?z * 10133) mod 2 ^ 32 mod 16384 = 0" by (simp add: uint_word_ariths)
    then have "(?z * 10133) mod 16384 = 0" by (simp add: mod_mod_cancel)
    then have "16384 dvd ?z * 10133" by (simp add: mod_eq_0_iff_dvd)
    moreover have "coprime (16384 :: int) 10133" by (simp add: coprime_iff_gcd_eq_1 gcd_non_0_int)
    ultimately have "16384 dvd ?z" using coprime_dvd_mult_left_iff by blast
    then show False using z zdvd_imp_le by fastforce
  qed
qed

section \<open>The invariant\<close>

abbreviation (input) main :: "int set" where "main \<equiv> {EQFree, EQAltFree, EQRsvd, EQAltRsvd}"

definition slots_with :: "(TUint32 \<Rightarrow> bool) \<Rightarrow> RObjectIx \<Rightarrow> int" where
  "slots_with P ix = int (length (filter P (map iObjR (iSlots ix))))"

text \<open>
  A slot is free (0), free and reserved (1) or used (the object, and 1 when it is reserved). The free slots
  are in the queues, each in one of them; the slots that were never used end the queue of free ones.
\<close>

definition queued :: "RObjectIx \<Rightarrow> (int \<Rightarrow> int list) \<Rightarrow> bool" where
  "queued ix Q \<longleftrightarrow> (\<forall>i. 0 \<le> i \<and> i < iAllocated ix \<longrightarrow>
     (objr ix i = 0 \<longleftrightarrow> i \<in> set (Q EQFree) \<union> set (Q EQAltFree)) \<and>
     (objr ix i = 1 \<longleftrightarrow> i \<in> set (Q EQRsvd) \<union> set (Q EQAltRsvd)) \<and> (objr ix i < 4 \<longrightarrow> objr ix i = 0 \<or> objr ix i = 1))"

definition unused_last :: "RObjectIx \<Rightarrow> (int \<Rightarrow> int list) \<Rightarrow> bool" where
  "unused_last ix Q \<longleftrightarrow> (\<exists>U. Q EQFree = U @ [iCount ix..iAllocated ix - 1] \<and>
     (\<forall>i \<in> set U \<union> set (Q EQAltFree) \<union> set (Q EQRsvd) \<union> set (Q EQAltRsvd). i < iCount ix))"

definition counted :: "RObjectIx \<Rightarrow> (int \<Rightarrow> int list) \<Rightarrow> bool" where
  "counted ix Q \<longleftrightarrow> iActiveCount ix = slots_with (\<lambda>v. v \<ge> 4) ix \<and> iReservedTotal ix = slots_with (\<lambda>v. v AND 1 \<noteq> 0) ix \<and>
     iReservedFree ix = int (length (Q EQRsvd) + length (Q EQAltRsvd))"

text \<open>The instance value of a handle is never 0.\<close>

definition instanced :: "RObjectIx \<Rightarrow> bool" where
  "instanced ix \<longleftrightarrow> (\<forall>i. 0 \<le> i \<and> i < iAllocated ix \<and> objr ix i \<ge> 4 \<longrightarrow> attr ix i AND 0x3FFF \<noteq> 0)"

definition table :: "RObjectIx \<Rightarrow> (int \<Rightarrow> int list) \<Rightarrow> bool" where
  "table ix Q \<longleftrightarrow> rings main ix Q \<and> int (length (iSlots ix)) = iAllocated ix \<and> 0 \<le> iCount ix \<and> iCount ix \<le> iAllocated ix \<and>
     queued ix Q \<and> unused_last ix Q \<and> counted ix Q \<and> instanced ix \<and> gen_ok (NextInstance ix)"

section \<open>The handles of an index\<close>

text \<open>A handle is its index and its instance value; it leads to an object and the attributes kept.\<close>

type_synonym handles = "int \<times> TUint32 \<rightharpoonup> TUint32 \<times> TUint32"

definition key :: "int \<Rightarrow> int \<times> TUint32" where
  "key h = (HandleIndex h, HandleInstance h)"

definition hmap :: "RObjectIx \<Rightarrow> handles" where
  "hmap ix = (\<lambda>(i, w). if 0 \<le> i \<and> i < iCount ix \<and> objr ix i \<ge> 4 \<and> attr ix i AND 0x3FFF = w
     then Some (objr ix i AND 0xfffffffc, push_bit 31 (objr ix i) OR drop_bit 20 (attr ix i)) else None)"

lemma at_slot_hmap: "At_attr h 0 ix = (case hmap ix (key h) of None \<Rightarrow> (0, 0) | Some p \<Rightarrow> p)"
  using HandleIndex_bounds [of h] by (auto simp: At_attr_def at_slot_def hmap_def key_def Let_def slot_attr_def)

lemma table_cong:
  assumes "iSlots ix' = iSlots ix" "iFreeQ ix' = iFreeQ ix" "iAllocated ix' = iAllocated ix" "iCount ix' = iCount ix"
    "iActiveCount ix' = iActiveCount ix" "iReservedFree ix' = iReservedFree ix" "iReservedTotal ix' = iReservedTotal ix"
    "gen_ok (NextInstance ix) \<Longrightarrow> gen_ok (NextInstance ix')" "table ix Q"
  shows "table ix' Q"
  using assms(8,9) unfolding table_def queued_def unused_last_def counted_def instanced_def slots_with_def assms(1-7) rings_cong [OF assms(1,2)] by blast

lemma hmap_cong: "iSlots ix' = iSlots ix \<Longrightarrow> iCount ix' = iCount ix \<Longrightarrow> hmap ix' = hmap ix"
  by (simp only: hmap_def)

lemma tableD:
  assumes "table ix Q"
  shows "rings main ix Q" "int (length (iSlots ix)) = iAllocated ix" "0 \<le> iCount ix" "iCount ix \<le> iAllocated ix" "iAllocated ix \<le> 32768"
    "queued ix Q" "unused_last ix Q" "counted ix Q" "gen_ok (NextInstance ix)" "instanced ix"
  using assms ringsD(1) [of main ix Q EQFree] by (auto simp: table_def linked_def)

lemma table_queue:
  assumes "table ix Q" "q \<in> main" "i \<in> set (Q q)"
  shows "0 \<le> i" "i < iAllocated ix" "objr ix i = (if q = EQFree \<or> q = EQAltFree then 0 else 1)" "q \<noteq> EQFree \<Longrightarrow> i < iCount ix"
proof -
  show b: "0 \<le> i" "i < iAllocated ix" using ringsD(4) [OF tableD(1) [OF assms(1)] assms(2,3)] tableD(2) [OF assms(1)] by auto
  show "objr ix i = (if q = EQFree \<or> q = EQAltFree then 0 else 1)"
    using tableD(6) [OF assms(1)] b assms(2,3) unfolding queued_def by auto
  show "q \<noteq> EQFree \<Longrightarrow> i < iCount ix" using tableD(7) [OF assms(1)] assms(2,3) unfolding unused_last_def by auto
qed

lemma table_unused: "table ix Q \<Longrightarrow> iCount ix \<le> i \<Longrightarrow> i < iAllocated ix \<Longrightarrow> objr ix i = 0"
  using table_queue(3) [of ix Q EQFree i] tableD(7) [of ix Q] unfolding unused_last_def by auto

lemma hmap_alloc:
  assumes "table ix Q"
  shows "hmap ix = (\<lambda>(i, w). if 0 \<le> i \<and> i < iAllocated ix \<and> objr ix i \<ge> 4 \<and> attr ix i AND 0x3FFF = w
     then Some (objr ix i AND 0xfffffffc, push_bit 31 (objr ix i) OR drop_bit 20 (attr ix i)) else None)"
  using table_unused [OF assms] tableD(4) [OF assms] by (force simp: hmap_def fun_eq_iff)

lemma slots_with_update:
  assumes "map iObjR (iSlots ix') = (map iObjR (iSlots ix))[nat i := v]" "0 \<le> i" "i < int (length (iSlots ix))"
  shows "slots_with P ix' = slots_with P ix - of_bool (P (objr ix i)) + of_bool (P v)"
proof -
  have upd: "n < length xs \<Longrightarrow> int (length (filter P (xs[n := v]))) = int (length (filter P xs)) - of_bool (P (xs ! n)) + of_bool (P v)" for n xs
  proof (induction xs arbitrary: n)
    case (Cons x xs)
    then show ?case using Cons.IH [of "n - 1"] by (cases n) auto
  qed simp
  show ?thesis using upd [of "nat i" "map iObjR (iSlots ix)"] assms by (simp add: slots_with_def)
qed

section \<open>Objects and attributes in a slot\<close>

text \<open>Objects are aligned.\<close>

definition is_object :: "TUint32 \<Rightarrow> bool" where
  "is_object p \<longleftrightarrow> p \<noteq> 0 \<and> p AND 3 = 0"

lemma free_values [simp]: "\<not> (4 :: TUint32) \<le> 1" "\<not> (4 :: TUint32) \<le> 0" "(1 :: TUint32) < 4"
  by (simp_all add: word_le_nat_alt word_less_nat_alt)

lemma and_low_high: "((w :: TUint32) AND 0xfffffffc) OR (w AND 3) = w"
proof -
  have "(0xfffffffc :: TUint32) OR 3 = mask 32" by (simp add: mask_eq_exp_minus_1)
  then have "w AND (0xfffffffc OR 3) = take_bit 32 w" by (simp only: take_bit_eq_mask)
  then have "w AND (0xfffffffc OR 3) = w" by (simp add: take_bit_word_eq_self)
  then show ?thesis by (simp only: bit.conj_disj_distrib)
qed

lemma occupied_iff: "(w :: TUint32) \<ge> 4 \<longleftrightarrow> w AND 0xfffffffc \<noteq> 0"
proof
  assume "w AND 0xfffffffc \<noteq> 0"
  moreover have "w = 0 \<or> w = 1 \<or> w = 2 \<or> w = 3" if "w < 4"
  proof -
    have "unat w < 4" using that by (simp add: word_less_nat_alt)
    then have "unat w \<in> {0, 1, 2, 3}" by auto
    then show ?thesis by (auto simp: word_unat_eq_iff)
  qed
  ultimately show "w \<ge> 4" by (force simp: not_le [symmetric])
next
  assume "w \<ge> 4"
  have "(w AND 0xfffffffc) OR (w AND 3) = w" by (rule and_low_high)
  moreover have "w AND 3 < 4" by (rule le_less_trans [OF word_and_le1]) simp
  ultimately show "w AND 0xfffffffc \<noteq> 0" using \<open>w \<ge> 4\<close> by (auto simp: not_le [symmetric])
qed

lemma top_bit: "drop_bit 31 (a :: TUint32) = (if bit a 31 then 1 else 0)"
proof (rule bit_word_eqI)
  fix n
  have "\<not> bit a (31 + n)" if "n > 0" using bit_imp_le_length [of a "31 + n"] that by auto
  then show "bit (drop_bit 31 a) n = bit (if bit a 31 then 1 else 0 :: TUint32) n"
    by (cases "n = 0") (auto simp: bit_drop_bit_eq bit_1_iff)
qed

lemma reserved_iff: "(a :: TUint32) AND 0x80000000 \<noteq> 0 \<longleftrightarrow> bit a 31"
proof -
  have e: "(0x80000000 :: TUint32) = push_bit 31 1" by (simp add: push_bit_eq_mult)
  have b: "bit (a AND 0x80000000) n \<longleftrightarrow> bit a 31 \<and> n = 31" for n
    by (simp only: e bit_and_iff bit_push_bit_iff bit_1_iff possible_bit_word) auto
  show ?thesis
  proof
    assume "a AND 0x80000000 \<noteq> 0"
    then show "bit a 31" using b by (metis bit_0_eq bit_eqI bot_apply bot_bool_def)
  qed (use b [of 31] in auto)
qed

lemma used_objr:
  assumes "is_object p"
  shows "used_objr p a \<ge> 4" "used_objr p a AND 0xfffffffc = p" "used_objr p a AND 1 \<noteq> 0 \<longleftrightarrow> bit a 31"
    "push_bit 31 (used_objr p a) = a AND 0x80000000" "used_objr p a AND 1 = (if bit a 31 then 1 else 0)"
proof -
  have p: "p AND 3 = 0" using assms by (simp add: is_object_def)
  have "p AND 1 = (p AND 3) AND 1" by (simp add: and.assoc)
  then have p1: "p AND 1 = 0" using p by simp
  have "(p AND 0xfffffffc) OR (p AND 3) = p" by (rule and_low_high)
  then have pm: "p AND 0xfffffffc = p" using p by simp
  have b: "(if bit a 31 then 1 else 0 :: TUint32) AND 0xfffffffc = 0" "(if bit a 31 then 1 else 0 :: TUint32) AND 1 = (if bit a 31 then 1 else 0)" by simp_all
  show m: "used_objr p a AND 0xfffffffc = p"
    unfolding used_objr_def top_bit by (simp only: bit.conj_disj_distrib2 b pm) simp
  show "used_objr p a \<ge> 4" unfolding occupied_iff m using assms by (simp add: is_object_def)
  show one: "used_objr p a AND 1 = (if bit a 31 then 1 else 0)"
    unfolding used_objr_def top_bit by (simp only: bit.conj_disj_distrib2 b p1) simp
  show "used_objr p a AND 1 \<noteq> 0 \<longleftrightarrow> bit a 31" unfolding one by simp
  have e: "(0x80000000 :: TUint32) = push_bit 31 1" by (simp add: push_bit_eq_mult)
  have "bit (used_objr p a) 0 \<longleftrightarrow> bit a 31" using one by (metis and_one_eq bit_0 even_iff_mod_2_eq_zero of_bool_def odd_one zero_neq_one)
  then show "push_bit 31 (used_objr p a) = a AND 0x80000000"
  proof (intro bit_word_eqI)
    fix n
    assume "n < LENGTH(32)"
    then have "31 \<le> n \<longleftrightarrow> n = 31" by auto
    then show "bit (push_bit 31 (used_objr p a)) n = bit (a AND 0x80000000) n"
      using \<open>bit (used_objr p a) 0 \<longleftrightarrow> bit a 31\<close>
      by (simp only: e bit_and_iff bit_push_bit_iff bit_1_iff possible_bit_word) auto
  qed
qed

lemma used_attr:
  assumes "inst AND 0x3FFF = inst"
  shows "used_attr U p a inst AND 0x3FFF = inst" "drop_bit 20 (used_attr U p a inst) = a AND 0xFFF"
proof -
  have m14: "(0x3FFF :: TUint32) = mask 14" and m6: "(0x3F :: TUint32) = mask 6" and m12: "(0xFFF :: TUint32) = mask 12"
    by (simp_all add: mask_eq_exp_minus_1)
  have i: "\<not> bit inst n" if "n \<ge> 14" for n
    using arg_cong [OF assms, of "\<lambda>w. bit w n"] that unfolding m14 by (simp add: bit_simps)
  show "used_attr U p a inst AND 0x3FFF = inst"
    using i by (intro bit_word_eqI) (auto simp: used_attr_def m14 bit_simps, meson leI)
  show "drop_bit 20 (used_attr U p a inst) = a AND 0xFFF"
    using i by (intro bit_word_eqI) (auto simp: used_attr_def m6 m12 bit_simps)
qed

end
