(* ===== verification/Objix_Step.thy ===== *)
theory Objix_Step
  imports Objix_Spec
begin

text \<open>
  What adding and removing a handle do to an object index: the invariant holds in the new state, and
  its handles are the old ones with the new one, or without the old one.
\<close>

section \<open>A slot gets new contents\<close>

definition slot_put :: "RObjectIx \<Rightarrow> int \<Rightarrow> TUint32 \<Rightarrow> TUint32 \<Rightarrow> RObjectIx \<Rightarrow> bool" where
  "slot_put ix i a v ix' \<longleftrightarrow> map iObjR (iSlots ix') = (map iObjR (iSlots ix))[nat i := v] \<and>
     map iAttr (iSlots ix') = (map iAttr (iSlots ix))[nat i := a] \<and> iAllocated ix' = iAllocated ix"

lemma slot_putD:
  assumes "slot_put ix i a v ix'" "0 \<le> i" "i < int (length (iSlots ix))"
  shows "length (iSlots ix') = length (iSlots ix)" "iAllocated ix' = iAllocated ix"
    "0 \<le> j \<Longrightarrow> j < int (length (iSlots ix)) \<Longrightarrow> objr ix' j = (if j = i then v else objr ix j)"
    "0 \<le> j \<Longrightarrow> j < int (length (iSlots ix)) \<Longrightarrow> attr ix' j = (if j = i then a else attr ix j)"
proof -
  have e: "map iObjR (iSlots ix') = (map iObjR (iSlots ix))[nat i := v]" "map iAttr (iSlots ix') = (map iAttr (iSlots ix))[nat i := a]"
    using assms(1) by (simp_all add: slot_put_def)
  show len: "length (iSlots ix') = length (iSlots ix)" using arg_cong [OF e(1), of length] by simp
  show "iAllocated ix' = iAllocated ix" using assms(1) by (simp add: slot_put_def)
  assume j: "0 \<le> j" "j < int (length (iSlots ix))"
  then have n: "nat j < length (iSlots ix')" "nat i = nat j \<longleftrightarrow> j = i" using len assms(2) by auto
  show "objr ix' j = (if j = i then v else objr ix j)" using arg_cong [OF e(1), of "\<lambda>l. l ! nat j"] n len by (auto simp: nth_list_update)
  show "attr ix' j = (if j = i then a else attr ix j)" using arg_cong [OF e(2), of "\<lambda>l. l ! nat j"] n len by (auto simp: nth_list_update)
qed

lemma fill_slot_put:
  assumes "iSlots ix1 = iSlots ix0" "keeps ix ix0" "0 \<le> i" "i < int (length (iSlots ix))" "iAllocated ix1 = iAllocated ix0"
  shows "slot_put ix i a v (fill_slot i a v ix1)" "slot_put ix i (attr ix i) v (set_objr i v ix1)"
proof -
  have m: "map iObjR (iSlots ix0) = map iObjR (iSlots ix)" "map iAttr (iSlots ix0) = map iAttr (iSlots ix)"
    using assms(2) by (simp_all add: keeps_def relinked_def)
  have same: "(map iAttr (iSlots ix))[nat i := attr ix i] = map iAttr (iSlots ix)"
    using assms(3,4) by (metis list_update_id map_update)
  show "slot_put ix i a v (fill_slot i a v ix1)" "slot_put ix i (attr ix i) v (set_objr i v ix1)"
    using m keepsD(1) [OF assms(2)] keeps_slots(2) [OF assms(2-4)] assms(1,5) same
    by (simp_all add: slot_put_def fill_slot_def set_objr_def map_update)
qed

lemma table_put:
  assumes "table ix Q" "slot_put ix i a v ix'" "0 \<le> i" "i < iAllocated ix" "rings main ix' Q'" "gen_ok (NextInstance ix')"
    "\<And>j. j \<noteq> i \<Longrightarrow> j \<in> set (Q' EQFree) \<union> set (Q' EQAltFree) \<longleftrightarrow> j \<in> set (Q EQFree) \<union> set (Q EQAltFree)"
    "\<And>j. j \<noteq> i \<Longrightarrow> j \<in> set (Q' EQRsvd) \<union> set (Q' EQAltRsvd) \<longleftrightarrow> j \<in> set (Q EQRsvd) \<union> set (Q EQAltRsvd)"
    "v = 0 \<longleftrightarrow> i \<in> set (Q' EQFree) \<union> set (Q' EQAltFree)" "v = 1 \<longleftrightarrow> i \<in> set (Q' EQRsvd) \<union> set (Q' EQAltRsvd)" "v < 4 \<Longrightarrow> v = 0 \<or> v = 1"
    "iActiveCount ix' = iActiveCount ix - of_bool (objr ix i \<ge> 4) + of_bool (v \<ge> 4)"
    "iReservedTotal ix' = iReservedTotal ix - of_bool (objr ix i AND 1 \<noteq> 0) + of_bool (v AND 1 \<noteq> 0)"
    "iReservedFree ix' = int (length (Q' EQRsvd) + length (Q' EQAltRsvd))"
    "unused_last ix' Q'" "0 \<le> iCount ix'" "iCount ix' \<le> iAllocated ix" "v \<ge> 4 \<Longrightarrow> a AND 0x3FFF \<noteq> 0"
  shows "table ix' Q'"
proof -
  have len: "int (length (iSlots ix)) = iAllocated ix" by (rule tableD(2) [OF assms(1)])
  then have i: "i < int (length (iSlots ix))" using assms(4) by simp
  note d = slot_putD [OF assms(2,3) i]
  have "queued ix' Q'" unfolding queued_def d(2)
  proof (intro allI impI)
    fix j
    assume j: "0 \<le> j \<and> j < iAllocated ix"
    then have "objr ix' j = (if j = i then v else objr ix j)" using d(3) [of j] len by simp
    moreover have "(objr ix j = 0 \<longleftrightarrow> j \<in> set (Q EQFree) \<union> set (Q EQAltFree)) \<and>
      (objr ix j = 1 \<longleftrightarrow> j \<in> set (Q EQRsvd) \<union> set (Q EQAltRsvd)) \<and> (objr ix j < 4 \<longrightarrow> objr ix j = 0 \<or> objr ix j = 1)"
      using tableD(6) [OF assms(1)] j unfolding queued_def by blast
    ultimately show "(objr ix' j = 0 \<longleftrightarrow> j \<in> set (Q' EQFree) \<union> set (Q' EQAltFree)) \<and>
      (objr ix' j = 1 \<longleftrightarrow> j \<in> set (Q' EQRsvd) \<union> set (Q' EQAltRsvd)) \<and> (objr ix' j < 4 \<longrightarrow> objr ix' j = 0 \<or> objr ix' j = 1)"
      using assms(7) [of j] assms(8) [of j] assms(9-11) by (cases "j = i") (simp_all, blast)
  qed
  moreover have "slots_with P ix' = slots_with P ix - of_bool (P (objr ix i)) + of_bool (P v)" for P
    by (rule slots_with_update [OF _ assms(3) i]) (use assms(2) in \<open>simp add: slot_put_def\<close>)
  then have "counted ix' Q'" using tableD(8) [OF assms(1)] assms(12-14) unfolding counted_def by simp
  moreover have "instanced ix'" unfolding instanced_def d(2)
  proof (intro allI impI)
    fix j
    assume j: "0 \<le> j \<and> j < iAllocated ix \<and> objr ix' j \<ge> 4"
    then show "attr ix' j AND 0x3FFF \<noteq> 0"
      using d(3) [of j] d(4) [of j] len assms(18) tableD(10) [OF assms(1)] unfolding instanced_def by (cases "j = i") auto
  qed
  ultimately show ?thesis using assms(5,6,15-17) d(1,2) len by (simp add: table_def)
qed

text \<open>The handles of the new state.\<close>

lemma hmap_put:
  assumes "table ix Q" "table ix' Q'" "slot_put ix i a v ix'" "0 \<le> i" "i < iAllocated ix"
  shows "hmap ix' (j, w) = (if j = i then if v \<ge> 4 \<and> a AND 0x3FFF = w then Some (v AND 0xfffffffc, push_bit 31 v OR drop_bit 20 a) else None
      else hmap ix (j, w))"
proof -
  have len: "int (length (iSlots ix)) = iAllocated ix" by (rule tableD(2) [OF assms(1)])
  then have i: "i < int (length (iSlots ix))" using assms(5) by simp
  note d = slot_putD [OF assms(3,4) i]
  show ?thesis
  proof (cases "0 \<le> j \<and> j < iAllocated ix")
    case True
    then have "objr ix' j = (if j = i then v else objr ix j)" "attr ix' j = (if j = i then a else attr ix j)" using d(3,4) [of j] len by simp_all
    then show ?thesis using True by (cases "j = i") (simp_all add: hmap_alloc [OF assms(1)] hmap_alloc [OF assms(2)] d(2))
  next
    case False
    then show ?thesis using assms(4,5) by (auto simp: hmap_alloc [OF assms(1)] hmap_alloc [OF assms(2)] d(2))
  qed
qed

section \<open>Adding a handle\<close>

text \<open>The queues without the slot that a new handle takes.\<close>

definition taken :: "(int \<Rightarrow> int list) \<Rightarrow> int \<Rightarrow> int \<Rightarrow> int list" where
  "taken Q q = (if Q q \<noteq> [] then Q(q := tl (Q q)) else Q(q + 1 := tl (Q (q + 1))))"

definition slot_queue :: "TUint32 \<Rightarrow> int" where
  "slot_queue aAttr = (if aAttr AND EReserved \<noteq> 0 then EQRsvd else EQFree)"

lemma slot_queue_main: "slot_queue a \<in> main" "slot_queue a + 1 \<in> main" "slot_queue a < 0"
  by (simp_all add: slot_queue_def)

lemma slot_queue_free: "a AND EReserved = 0 \<Longrightarrow> slot_queue a = EQFree"
  by (simp add: slot_queue_def)

lemma first_free_head:
  assumes "rings main ix Q"
  shows "first_free a ix = (case Q (slot_queue a) @ Q (slot_queue a + 1) of [] \<Rightarrow> slot_queue a + 1 | i # _ \<Rightarrow> i)"
proof -
  define q where "q = slot_queue a"
  have q: "q \<in> main" "q + 1 \<in> main" "q < 0" unfolding q_def by (rule slot_queue_main)+
  have f: "first_free a ix = (if link_next ix q < 0 then link_next ix (q + 1) else link_next ix q)" by (simp add: first_free_def q_def slot_queue_def)
  have "0 \<le> i" if "Q q = i # L" for i L using ringsD(4) [OF assms q(1), of i] that by simp
  then have "first_free a ix = (case Q q @ Q (q + 1) of [] \<Rightarrow> q + 1 | i # _ \<Rightarrow> i)"
    unfolding f rings_next [OF assms q(1)] rings_next [OF assms q(2)] using q(3)
    by (cases "Q q"; cases "Q (q + 1)") (simp_all add: not_less)
  then show ?thesis unfolding q_def .
qed

lemma monitor_add_simps [simp]:
  "iAllocated (monitor_add p i ix) = iAllocated ix" "iCount (monitor_add p i ix) = iCount ix" "iActiveCount (monitor_add p i ix) = iActiveCount ix"
  "iReservedFree (monitor_add p i ix) = iReservedFree ix" "iReservedTotal (monitor_add p i ix) = iReservedTotal ix"
  "iReservedFreeHWM (monitor_add p i ix) = iReservedFreeHWM ix" "iAmortize (monitor_add p i ix) = iAmortize ix"
  "iState (monitor_add p i ix) = iState ix" "iModListShift (monitor_add p i ix) = iModListShift ix"
  "NextInstance (monitor_add p i ix) = NextInstance ix" "iSlots (monitor_add p i ix) = iSlots ix" "iFreeQ (monitor_add p i ix) = iFreeQ ix"
  "iModCount (monitor_add p i ix) = iModCount ix" "iObj (monitor_add p i ix) = iObj ix"
  by (simp_all add: monitor_add_def)

lemma fill_slot_simps [simp]:
  "iAllocated (fill_slot i a v ix) = iAllocated ix" "iCount (fill_slot i a v ix) = iCount ix" "iActiveCount (fill_slot i a v ix) = iActiveCount ix"
  "iReservedFree (fill_slot i a v ix) = iReservedFree ix" "iReservedTotal (fill_slot i a v ix) = iReservedTotal ix"
  "iReservedFreeHWM (fill_slot i a v ix) = iReservedFreeHWM ix" "iAmortize (fill_slot i a v ix) = iAmortize ix"
  "iState (fill_slot i a v ix) = iState ix" "iModListShift (fill_slot i a v ix) = iModListShift ix"
  "NextInstance (fill_slot i a v ix) = NextInstance ix" "iFreeQ (fill_slot i a v ix) = iFreeQ ix" "iModCount (fill_slot i a v ix) = iModCount ix"
  "iObj (fill_slot i a v ix) = iObj ix" "iBoundary (fill_slot i a v ix) = iBoundary ix" "iResult (fill_slot i a v ix) = iResult ix"
  by (simp_all add: fill_slot_def)

lemma rings_fill_slot [simp]: "rings S (fill_slot i a v ix) Q = rings S ix Q"
proof -
  have "rings S (fill_slot i a v ix) Q = rings S (set_objr i v ix) Q"
  proof -
    have slot: "iNext ((iSlots ix)[nat i := s\<lparr>iAttr := a, iObjR := v\<rparr>] ! k) = iNext ((iSlots ix)[nat i := s\<lparr>iObjR := v\<rparr>] ! k)"
      "iPrev ((iSlots ix)[nat i := s\<lparr>iAttr := a, iObjR := v\<rparr>] ! k) = iPrev ((iSlots ix)[nat i := s\<lparr>iObjR := v\<rparr>] ! k)" for k s
      by (cases "nat i < length (iSlots ix)"; cases "k = nat i"; simp add: list_update_beyond)+
    have len: "length (iSlots (fill_slot i a v ix)) = length (iSlots (set_objr i v ix))" by (simp add: fill_slot_def)
    have l: "nxt (fill_slot i a v ix) = nxt (set_objr i v ix)" "prv (fill_slot i a v ix) = prv (set_objr i v ix)"
      "linked (fill_slot i a v ix) = linked (set_objr i v ix)"
      using slot by (simp_all only: fun_eq_iff nxt_def prv_def node_def link_next_def link_prev_def linked_def len)
        (simp_all add: fill_slot_def set_objr_def)
    show ?thesis unfolding rings_def queue_def l len ..
  qed
  then show ?thesis by simp
qed

lemma taken_at:
  assumes "Q (slot_queue a) @ Q (slot_queue a + 1) = i # rest"
  obtains q L where "q \<in> main" "Q q = i # L" "taken Q (slot_queue a) = Q(q := L)"
    "a AND EReserved \<noteq> 0 \<longleftrightarrow> q = EQRsvd \<or> q = EQAltRsvd"
proof -
  define q0 where "q0 = slot_queue a"
  have q0: "q0 \<in> main" "q0 + 1 \<in> main" "a AND EReserved \<noteq> 0 \<longleftrightarrow> q0 = EQRsvd \<or> q0 = EQAltRsvd"
    "a AND EReserved \<noteq> 0 \<longleftrightarrow> q0 + 1 = EQRsvd \<or> q0 + 1 = EQAltRsvd" unfolding q0_def slot_queue_def by auto
  show ?thesis
  proof (cases "Q q0")
    case Nil
    then have "Q (q0 + 1) = i # rest" using assms unfolding q0_def by simp
    then show ?thesis using that [of "q0 + 1" rest] Nil q0(2,4) unfolding q0_def by (simp add: taken_def)
  next
    case (Cons k ks)
    then have "k = i" using assms unfolding q0_def [symmetric] by simp
    then show ?thesis using that [of q0 ks] Cons q0(1,3) unfolding q0_def by (simp add: taken_def)
  qed
qed

lemma taken_members:
  assumes "rings main ix Q" "Q (slot_queue a) @ Q (slot_queue a + 1) = i # rest"
  shows "j \<noteq> i \<Longrightarrow> j \<in> set (taken Q (slot_queue a) EQFree) \<union> set (taken Q (slot_queue a) EQAltFree) \<longleftrightarrow> j \<in> set (Q EQFree) \<union> set (Q EQAltFree)"
    "j \<noteq> i \<Longrightarrow> j \<in> set (taken Q (slot_queue a) EQRsvd) \<union> set (taken Q (slot_queue a) EQAltRsvd) \<longleftrightarrow> j \<in> set (Q EQRsvd) \<union> set (Q EQAltRsvd)"
    "q \<in> main \<Longrightarrow> i \<notin> set (taken Q (slot_queue a) q)"
    "length (taken Q (slot_queue a) EQRsvd) + length (taken Q (slot_queue a) EQAltRsvd) + of_bool (a AND EReserved \<noteq> 0) =
      length (Q EQRsvd) + length (Q EQAltRsvd)"
proof -
  obtain qi L where qi: "qi \<in> main" "Q qi = i # L" and T: "taken Q (slot_queue a) = Q(qi := L)"
    and r: "a AND EReserved \<noteq> 0 \<longleftrightarrow> qi = EQRsvd \<or> qi = EQAltRsvd" by (rule taken_at [OF assms(2)])
  have mem: "j \<in> set (taken Q (slot_queue a) q) \<longleftrightarrow> j \<in> set (Q q)" if "j \<noteq> i" for q j
    unfolding T using that qi(2) by (cases "q = qi") auto
  show "j \<noteq> i \<Longrightarrow> j \<in> set (taken Q (slot_queue a) EQFree) \<union> set (taken Q (slot_queue a) EQAltFree) \<longleftrightarrow> j \<in> set (Q EQFree) \<union> set (Q EQAltFree)"
    "j \<noteq> i \<Longrightarrow> j \<in> set (taken Q (slot_queue a) EQRsvd) \<union> set (taken Q (slot_queue a) EQAltRsvd) \<longleftrightarrow> j \<in> set (Q EQRsvd) \<union> set (Q EQAltRsvd)"
    using mem by blast+
  show "i \<notin> set (taken Q (slot_queue a) q)" if q: "q \<in> main" unfolding T
    using ringsD(3) [OF assms(1) qi(1)] ringsD(5) [OF assms(1) qi(1) q, of i] qi(2) by (cases "q = qi") auto
  show "length (taken Q (slot_queue a) EQRsvd) + length (taken Q (slot_queue a) EQAltRsvd) + of_bool (a AND EReserved \<noteq> 0) =
      length (Q EQRsvd) + length (Q EQAltRsvd)"
    unfolding T r using qi(2) by (cases "qi = EQRsvd"; cases "qi = EQAltRsvd") simp_all
qed

lemma taken_rings:
  assumes "rings main ix Q" "Q (slot_queue a) @ Q (slot_queue a + 1) = i # rest"
  shows "rings main (Dequeue i ix) (taken Q (slot_queue a))" "keeps ix (Dequeue i ix)"
proof -
  obtain qi L where qi: "qi \<in> main" "Q qi = i # L" "taken Q (slot_queue a) = Q(qi := L)" by (rule taken_at [OF assms(2)])
  then show "rings main (Dequeue i ix) (taken Q (slot_queue a))" "keeps ix (Dequeue i ix)"
    using Dequeue_rings [OF assms(1) qi(1), of "[]" i L] by simp_all
qed

lemma taken_unused:
  assumes "table ix Q" "Q (slot_queue a) @ Q (slot_queue a + 1) = i # rest" "iCount ix' = max (iCount ix) (i + 1)" "iAllocated ix' = iAllocated ix"
  shows "unused_last ix' (taken Q (slot_queue a))"
proof -
  obtain U where U: "Q EQFree = U @ [iCount ix..iAllocated ix - 1]"
    "\<forall>j \<in> set U \<union> set (Q EQAltFree) \<union> set (Q EQRsvd) \<union> set (Q EQAltRsvd). j < iCount ix"
    using tableD(7) [OF assms(1)] unfolding unused_last_def by blast
  consider (rsvd) "a AND EReserved \<noteq> 0" | (used) "a AND EReserved = 0" "U \<noteq> []" | (alt) "a AND EReserved = 0" "U = []" "Q EQFree = []"
    | (new) "a AND EReserved = 0" "U = []" "Q EQFree = i # [iCount ix + 1..iAllocated ix - 1]" "i = iCount ix"
  proof -
    have "Q EQFree = i # [iCount ix + 1..iAllocated ix - 1] \<and> i = iCount ix" if "a AND EReserved = 0" "U = []" "Q EQFree \<noteq> []"
    proof -
      have "[iCount ix..iAllocated ix - 1] \<noteq> []" using that U(1) by simp
      then have "[iCount ix..iAllocated ix - 1] = iCount ix # [iCount ix + 1..iAllocated ix - 1]" by (simp add: upto_rec1)
      then show ?thesis using that U(1) assms(2) by (simp add: slot_queue_free)
    qed
    then show ?thesis using that by blast
  qed
  then show ?thesis
  proof cases
    case rsvd
    obtain qi L where qi: "Q qi = i # L" "taken Q (slot_queue a) = Q(qi := L)" "qi = EQRsvd \<or> qi = EQAltRsvd"
      using taken_at [OF assms(2)] rsvd by metis
    have "iCount ix' = iCount ix" using U(2) qi(1,3) assms(3) by auto
    moreover have "\<forall>q. set (taken Q (slot_queue a) q) \<subseteq> set (Q q)" unfolding qi(2) using qi(1) by auto
    moreover have "taken Q (slot_queue a) EQFree = Q EQFree" using qi(2,3) by auto
    ultimately show ?thesis using U assms(4) unfolding unused_last_def by (intro exI [of _ U]) force
  next
    case used
    then obtain U' where U': "U = i # U'" using U(1) assms(2) by (cases U) (auto simp: slot_queue_free)
    then have "taken Q (slot_queue a) = Q(EQFree := U' @ [iCount ix..iAllocated ix - 1])" using U(1) used by (simp add: taken_def slot_queue_free)
    moreover have "i < iCount ix" using U(2) U' by simp
    ultimately show ?thesis using U U' assms(3,4) unfolding unused_last_def by (intro exI [of _ U']) auto
  next
    case alt
    then have "Q EQAltFree = i # rest" "iCount ix = iAllocated ix" using U(1) assms(2) tableD(4) [OF assms(1)] by (auto simp: slot_queue_free)
    then show ?thesis using U alt assms(3,4) unfolding unused_last_def by (intro exI [of _ "[]"]) (auto simp: taken_def slot_queue_free)
  next
    case new
    then have "taken Q (slot_queue a) = Q(EQFree := [iCount ix + 1..iAllocated ix - 1])" by (simp add: taken_def slot_queue_free)
    moreover have "iCount ix < iCount ix'" using new(4) assms(3) by simp
    have "\<forall>j \<in> set (Q EQAltFree) \<union> set (Q EQRsvd) \<union> set (Q EQAltRsvd). j < iCount ix'"
    proof
      fix j
      assume "j \<in> set (Q EQAltFree) \<union> set (Q EQRsvd) \<union> set (Q EQAltRsvd)"
      then have "j < iCount ix" using U(2) by blast
      then show "j < iCount ix'" using \<open>iCount ix < iCount ix'\<close> by simp
    qed
    ultimately show ?thesis using new assms(3,4) unfolding unused_last_def by (intro exI [of _ "[]"]) simp
  qed
qed

text \<open>With a free slot \<open>i\<close>.\<close>

lemma DoAdd_slot:
  assumes "table ix Q" "iState ix \<noteq> ETerminated" "is_object p" "Q (slot_queue a) @ Q (slot_queue a + 1) = i # rest"
    "GetNextInstanceValue (NextInstance ix) = (inst, next)" "iModCount ix = 255 \<or> iState ix = ENormal"
  obtains ix' where "DoAdd U p a ix = (MakeHandle i inst, (used_attr U p a inst, used_objr p a), ix')" "table ix' (taken Q (slot_queue a))"
    "slot_put ix i (used_attr U p a inst) (used_objr p a) ix'" "0 \<le> i" "i < iAllocated ix" "objr ix i < 4"
    "iCount ix' = max (iCount ix) (i + 1)" "iState ix' = iState ix" "iReservedFreeHWM ix' = iReservedFreeHWM ix" "iAmortize ix' = iAmortize ix"
    "iModListShift ix' = iModListShift ix" "iActiveCount ix' = iActiveCount ix + 1" "iReservedTotal ix' = iReservedTotal ix"
    "iReservedFree ix' = iReservedFree ix - of_bool (bit a 31)" "NextInstance ix' = next"
    "iModCount ix = 255 \<longrightarrow> iModCount ix' = 255 \<and> iBoundary ix' = iBoundary (monitor_add p i ix) \<and>
       iResult ix' = iResult (monitor_add p i ix) \<and> iObj ix' = iObj ix"
    "objr ix i AND 1 \<noteq> 0 \<longleftrightarrow> bit a 31"
proof -
  let ?ix = "ix\<lparr>NextInstance := next\<rparr>" and ?at = "used_attr U p a inst" and ?ob = "used_objr p a"
  have r: "rings main ?ix Q" using tableD(1) [OF assms(1)] rings_cong [of ?ix ix main Q] by simp
  note d = taken_rings [OF r assms(4)] and m = taken_members [OF r assms(4)]
  have i: "0 \<le> i" "i < iAllocated ix" and free: "objr ix i = 0 \<or> objr ix i = 1" and fq: "i \<in> set (Q (slot_queue a)) \<union> set (Q (slot_queue a + 1))"
  proof -
    show "i \<in> set (Q (slot_queue a)) \<union> set (Q (slot_queue a + 1))" using assms(4) by (metis list.set_intros(1) set_append)
    then obtain q where q: "q \<in> main" "i \<in> set (Q q)" using slot_queue_main by blast
    show "0 \<le> i" "i < iAllocated ix" "objr ix i = 0 \<or> objr ix i = 1" using table_queue(1-3) [OF assms(1) q] by (simp_all split: if_splits)
  qed
  have len: "i < int (length (iSlots ?ix))" using i(2) tableD(2) [OF assms(1)] by simp
  have ff: "first_free a ?ix = i" using first_free_head [OF r, of a] assms(4) by simp
  define c where "c = claim_slot p a i ?ix"
  let ?d = "Dequeue i ?ix"
  let ?r = "fill_slot i ?at ?ob c"
  have res: "DoAdd U p a ix = (MakeHandle i inst, (?at, ?ob), ?r)"
    using assms(2,5) ff i(1) by (simp add: DoAdd_def Let_def c_def)
  note k = keepsD [OF d(2)]
  have rsv: "(a AND EReserved \<noteq> 0) = bit a 31" by (rule reserved_iff)
  have fc: "iState c = iState ix" "iReservedFreeHWM c = iReservedFreeHWM ix" "iAmortize c = iAmortize ix" "iModListShift c = iModListShift ix"
    "iActiveCount c = iActiveCount ix + 1" "iReservedTotal c = iReservedTotal ix" "NextInstance c = next"
    "iReservedFree c = iReservedFree ix - of_bool (bit a 31)" "iAllocated c = iAllocated ix" "iCount c = max (iCount ix) (i + 1)"
    "iSlots c = iSlots ?d" "iFreeQ c = iFreeQ ?d"
    using k rsv by (simp_all add: c_def claim_slot_def Let_def)
  have mc: "iModCount c = 255 \<and> iBoundary c = iBoundary (monitor_add p i ix) \<and> iResult c = iResult (monitor_add p i ix) \<and> iObj c = iObj ix"
    if "iModCount ix = 255"
    using k(8,14-17) that by (simp add: c_def claim_slot_def Let_def monitor_add_def)
  have "iAllocated c = iAllocated ?d" using k(1) fc(9) by simp
  then have put: "slot_put ix i ?at ?ob ?r" using fill_slot_put(1) [OF fc(11) d(2) i(1) len, of ?at ?ob] by (simp add: slot_put_def)
  have rs: "rings main ?r (taken Q (slot_queue a))" using d(1) rings_cong [OF fc(11,12)] by simp
  have fld: "iState ?r = iState ix" "iReservedFreeHWM ?r = iReservedFreeHWM ix" "iAmortize ?r = iAmortize ix" "iModListShift ?r = iModListShift ix"
    "iActiveCount ?r = iActiveCount ix + 1" "iReservedTotal ?r = iReservedTotal ix" "NextInstance ?r = next"
    "iReservedFree ?r = iReservedFree ix - of_bool (bit a 31)" "iAllocated ?r = iAllocated ix"
    by (simp_all add: fc)
  have cnt: "iCount ?r = max (iCount ix) (i + 1)" by (simp add: fc)
  note ob = used_objr [OF assms(3), of a]
  have lt: "objr ix i < 4" using free by auto
  have one: "(1 :: TUint32) AND 1 \<noteq> 0" by simp
  have ro: "objr ix i AND 1 \<noteq> 0 \<longleftrightarrow> bit a 31"
  proof -
    have "objr ix i = (if a AND EReserved \<noteq> 0 then 1 else 0)"
      using fq table_queue(3) [OF assms(1), of EQFree i] table_queue(3) [OF assms(1), of EQAltFree i]
        table_queue(3) [OF assms(1), of EQRsvd i] table_queue(3) [OF assms(1), of EQAltRsvd i] by (auto simp: slot_queue_def)
    then show ?thesis using rsv by (auto split: if_splits)
  qed
  have ne: "?ob \<noteq> 0" "?ob \<noteq> 1" "\<not> ?ob < 4"
  proof -
    show "?ob \<noteq> 0" "?ob \<noteq> 1" using ob(1) free_values(1,2) by metis+
    show "\<not> ?ob < 4" using ob(1) by (simp only: not_less)
  qed
  have unused: "unused_last ?r (taken Q (slot_queue a))" by (rule taken_unused [OF assms(1,4) cnt fld(9)])
  have tab: "table ?r (taken Q (slot_queue a))"
  proof (rule table_put [OF assms(1) put i rs])
    show "gen_ok (NextInstance ?r)" unfolding fld(7) using GetNextInstanceValue_ok(1) [OF tableD(9) [OF assms(1)] assms(5)] .
    show "?ob = 0 \<longleftrightarrow> i \<in> set (taken Q (slot_queue a) EQFree) \<union> set (taken Q (slot_queue a) EQAltFree)"
      "?ob = 1 \<longleftrightarrow> i \<in> set (taken Q (slot_queue a) EQRsvd) \<union> set (taken Q (slot_queue a) EQAltRsvd)" "?ob < 4 \<Longrightarrow> ?ob = 0 \<or> ?ob = 1"
      using m(3) [of EQFree] m(3) [of EQAltFree] m(3) [of EQRsvd] m(3) [of EQAltRsvd] ne by simp_all
    show "iActiveCount ?r = iActiveCount ix - of_bool (objr ix i \<ge> 4) + of_bool (?ob \<ge> 4)" unfolding fld using ob(1) lt by (simp add: not_le)
    show "iReservedTotal ?r = iReservedTotal ix - of_bool (objr ix i AND 1 \<noteq> 0) + of_bool (?ob AND 1 \<noteq> 0)" unfolding fld ob(3) ro by simp
    show "iReservedFree ?r = int (length (taken Q (slot_queue a) EQRsvd) + length (taken Q (slot_queue a) EQAltRsvd))"
      unfolding fld using arg_cong [OF m(4), of int] tableD(8) [OF assms(1)] rsv unfolding counted_def by simp
    show "0 \<le> iCount ?r" "iCount ?r \<le> iAllocated ix" unfolding cnt using i tableD(3,4) [OF assms(1)] by auto
    show "?at AND 0x3FFF \<noteq> 0"
      using used_attr(1) GetNextInstanceValue_ok(2,3) [OF tableD(9) [OF assms(1)] assms(5)] by metis
  qed (use m(1,2) unused in blast)+
  have mon: "iModCount ?r = 255 \<and> iBoundary ?r = iBoundary (monitor_add p i ix) \<and> iResult ?r = iResult (monitor_add p i ix) \<and> iObj ?r = iObj ix"
    if "iModCount ix = 255"
    using mc [OF that] by simp
  then have mon: "iModCount ix = 255 \<longrightarrow> iModCount ?r = 255 \<and> iBoundary ?r = iBoundary (monitor_add p i ix) \<and>
      iResult ?r = iResult (monitor_add p i ix) \<and> iObj ?r = iObj ix" by blast
  show ?thesis by (rule that [OF res tab put i lt cnt fld(1-6,8,7) mon ro])
qed

text \<open>With none.\<close>

lemma DoAdd_none:
  assumes "table ix Q" "iState ix \<noteq> ETerminated" "Q (slot_queue a) @ Q (slot_queue a + 1) = []"
    "GetNextInstanceValue (NextInstance ix) = (inst, next)"
  shows "DoAdd U p a ix = (KErrNoMemory, (used_attr U p a inst, used_objr p a), ix\<lparr>NextInstance := next\<rparr>)"
    "table (ix\<lparr>NextInstance := next\<rparr>) Q"
proof -
  let ?ix = "ix\<lparr>NextInstance := next\<rparr>"
  have r: "rings main ?ix Q" using tableD(1) [OF assms(1)] rings_cong [of ?ix ix main Q] by simp
  have "first_free a ?ix = slot_queue a + 1" using first_free_head [OF r, of a] assms(3) by simp
  moreover have "slot_queue a + 1 < 0" by (simp add: slot_queue_def)
  ultimately show "DoAdd U p a ix = (KErrNoMemory, (used_attr U p a inst, used_objr p a), ?ix)"
    using assms(2,4) by (simp add: DoAdd_def Let_def)
  show "table ?ix Q"
    by (rule table_cong [OF _ _ _ _ _ _ _ _ assms(1)]) (use GetNextInstanceValue_ok(1) [OF tableD(9) [OF assms(1)] assms(4)] in simp_all)
qed

section \<open>Removing a handle\<close>

lemma slot_put_keeps: "slot_put ix i a v ix1 \<Longrightarrow> keeps ix1 ix2 \<Longrightarrow> slot_put ix i a v ix2"
  by (simp only: slot_put_def keeps_maps keepsD(1))

lemma kept_reserved: "bit (push_bit 31 (v :: TUint32) OR drop_bit 20 a) 31 \<longleftrightarrow> v AND 1 \<noteq> 0"
proof -
  have "\<not> bit a 51" using bit_imp_le_length [of a 51] by auto
  then have "bit (push_bit 31 v OR drop_bit 20 a) 31 \<longleftrightarrow> bit v 0" by (simp add: bit_simps)
  also have "\<dots> \<longleftrightarrow> v AND 1 \<noteq> 0" by (simp add: and_one_eq mod2_eq_if bit_0)
  finally show ?thesis .
qed

lemma table_off_queue:
  assumes "table ix Q" "0 \<le> i" "i < iAllocated ix" "objr ix i \<ge> 4" "q \<in> main"
  shows "i \<notin> set (Q q)"
proof
  assume "i \<in> set (Q q)"
  then have "objr ix i = 0 \<or> objr ix i = 1" using table_queue(3) [OF assms(1,5)] by (simp split: if_splits)
  then show False using assms(4) by auto
qed

definition given_back :: "(int \<Rightarrow> int list) \<Rightarrow> bool \<Rightarrow> int \<Rightarrow> int \<Rightarrow> int list" where
  "given_back Q rsvd i = (let q = (if rsvd then EQRsvd else EQFree) in Q(q := i # Q q))"

lemma given_back_rings:
  assumes "rings main ix Q" "0 \<le> i" "i < int (length (iSlots ix))" "\<And>q. q \<in> main \<Longrightarrow> i \<notin> set (Q q)"
  shows "rings main (AddHead (if rsvd then EQRsvd else EQFree) i ix) (given_back Q rsvd i)"
    "keeps ix (AddHead (if rsvd then EQRsvd else EQFree) i ix)"
  using AddHead_rings [OF assms(1) _ assms(2,3,4), of "if rsvd then EQRsvd else EQFree"] by (simp_all add: given_back_def Let_def split: if_splits)

lemma given_back_unused:
  assumes "unused_last ix Q" "i < iCount ix" "iCount ix' = iCount ix" "iAllocated ix' = iAllocated ix"
  shows "unused_last ix' (given_back Q rsvd i)"
proof -
  obtain U where U: "Q EQFree = U @ [iCount ix..iAllocated ix - 1]"
    "\<forall>j \<in> set U \<union> set (Q EQAltFree) \<union> set (Q EQRsvd) \<union> set (Q EQAltRsvd). j < iCount ix"
    using assms(1) unfolding unused_last_def by blast
  show ?thesis
  proof (cases rsvd)
    case True
    then show ?thesis unfolding unused_last_def assms(3,4) using U assms(2) by (intro exI [of _ U]) (auto simp: given_back_def)
  next
    case False
    then show ?thesis unfolding unused_last_def assms(3,4) using U assms(2) by (intro exI [of _ "i # U"]) (auto simp: given_back_def)
  qed
qed

lemma monitor_remove_simps [simp]:
  "iAllocated (monitor_remove p i ix) = iAllocated ix" "iCount (monitor_remove p i ix) = iCount ix" "iActiveCount (monitor_remove p i ix) = iActiveCount ix"
  "iReservedFree (monitor_remove p i ix) = iReservedFree ix" "iReservedTotal (monitor_remove p i ix) = iReservedTotal ix"
  "iReservedFreeHWM (monitor_remove p i ix) = iReservedFreeHWM ix" "iAmortize (monitor_remove p i ix) = iAmortize ix"
  "iState (monitor_remove p i ix) = iState ix" "iModListShift (monitor_remove p i ix) = iModListShift ix"
  "NextInstance (monitor_remove p i ix) = NextInstance ix" "iSlots (monitor_remove p i ix) = iSlots ix" "iFreeQ (monitor_remove p i ix) = iFreeQ ix"
  "iModCount (monitor_remove p i ix) = iModCount ix" "iObj (monitor_remove p i ix) = iObj ix" "iBoundary (monitor_remove p i ix) = iBoundary ix"
  "iResult (monitor_remove p i ix) = iResult ix - of_bool (iState ix = ECounting \<and> p = iObj ix \<and> i < iBoundary ix)"
  by (simp_all add: monitor_remove_def)

text \<open>The slot of the handle is marked free first.\<close>

lemma free_slot:
  assumes "rings main ix Q" "0 \<le> i" "i < int (length (iSlots ix))" "\<And>q. q \<in> main \<Longrightarrow> i \<notin> set (Q q)"
  shows "keeps (ix\<lparr>iReservedFree := iReservedFree ix + 1,
      iReservedFreeHWM := (if (iState ix \<noteq> ETidying \<or> i < iResult ix) \<and> i \<ge> iReservedFreeHWM ix then i + 1 else iReservedFreeHWM ix)\<rparr>) (free_reserved i ix)"
    "rings main (free_reserved i ix) (given_back Q True i)"
    "keeps (ix\<lparr>iAmortize := (if iAmortize ix > 1 then iAmortize ix - 1 else iAmortize ix)\<rparr>) (snd (free_normal i ix))"
    "rings main (snd (free_normal i ix)) (given_back Q False i)"
    "fst (free_normal i ix) = (if iAmortize ix > 0 \<and> iActiveCount ix = 0 \<and> iReservedTotal ix = 0 then 1 else 0)"
proof -
  let ?a = "ix\<lparr>iReservedFree := iReservedFree ix + 1,
      iReservedFreeHWM := (if (iState ix \<noteq> ETidying \<or> i < iResult ix) \<and> i \<ge> iReservedFreeHWM ix then i + 1 else iReservedFreeHWM ix)\<rparr>"
  have ra: "rings main ?a Q" using assms(1) rings_cong [of ?a ix] by simp
  have e: "free_reserved i ix = AddHead EQRsvd i ?a" by (simp add: free_reserved_def Let_def)
  show "keeps ?a (free_reserved i ix)" "rings main (free_reserved i ix) (given_back Q True i)"
    unfolding e using given_back_rings [OF ra assms(2) _ assms(4), of True] assms(3) by simp_all
  let ?b = "AddHead EQFree i ix"
  have b: "rings main ?b (given_back Q False i)" "keeps ix ?b" using given_back_rings [OF assms(1-4), of False] by simp_all
  note k = keepsD [OF b(2)]
  let ?c = "?b\<lparr>iAmortize := (if iAmortize ix > 1 then iAmortize ix - 1 else iAmortize ix)\<rparr>"
  have same: "?b\<lparr>iAmortize := iAmortize ix\<rparr> = ?b" using k(7) by simp
  have n: "snd (free_normal i ix) = ?c" using k(7) same by (simp add: free_normal_def Let_def)
  have "relinked (ix\<lparr>iAmortize := v\<rparr>) (y\<lparr>iAmortize := v\<rparr>)" if "relinked ix y" for ix y v
  proof -
    have c: "z\<lparr>iAmortize := v\<rparr>\<lparr>iFreeQ := [], iSlots := []\<rparr> = z\<lparr>iFreeQ := [], iSlots := []\<rparr>\<lparr>iAmortize := v\<rparr>" for z :: RObjectIx by simp
    have "y\<lparr>iFreeQ := [], iSlots := []\<rparr> = ix\<lparr>iFreeQ := [], iSlots := []\<rparr>" using that by (simp only: relinked_def)
    then show ?thesis using that unfolding relinked_def c by simp
  qed
  moreover have "unmark (y\<lparr>iAmortize := v\<rparr>) = (unmark y)\<lparr>iAmortize := v\<rparr>" for y v by (simp add: unmark_def)
  ultimately show "keeps (ix\<lparr>iAmortize := (if iAmortize ix > 1 then iAmortize ix - 1 else iAmortize ix)\<rparr>) (snd (free_normal i ix))"
    unfolding n using b(2) by (simp add: keeps_def)
  show "rings main (snd (free_normal i ix)) (given_back Q False i)" unfolding n using b(1) rings_cong [of ?c ?b] by simp
  show "fst (free_normal i ix) = (if iAmortize ix > 0 \<and> iActiveCount ix = 0 \<and> iReservedTotal ix = 0 then 1 else 0)"
    using k by (simp add: free_normal_def Let_def)
qed

lemma DoRemove_used:
  assumes "table ix Q" "iState ix \<noteq> ETerminated" "hmap ix (key h) = Some (p, x)"
  defines "i \<equiv> HandleIndex h"
  obtains ix' r where "DoRemove h ix = (r, p, x, ix')" "table ix' (given_back Q (bit x 31) i)" "slot_put ix i (attr ix i) (objr ix i AND 1) ix'"
    "0 \<le> i" "i < iCount ix" "objr ix i \<ge> 4" "p = objr ix i AND 0xfffffffc" "objr ix i AND 1 \<noteq> 0 \<longleftrightarrow> bit x 31"
    "iCount ix' = iCount ix" "iState ix' = iState ix"
    "iReservedFreeHWM ix' = (if bit x 31 \<and> (iState ix \<noteq> ETidying \<or> i < iResult ix) then max (iReservedFreeHWM ix) (i + 1) else iReservedFreeHWM ix)"
    "iAmortize ix' = (if \<not> bit x 31 \<and> iAmortize ix > 1 then iAmortize ix - 1 else iAmortize ix)"
    "iModListShift ix' = iModListShift ix" "iActiveCount ix' = iActiveCount ix - 1" "iReservedTotal ix' = iReservedTotal ix"
    "iReservedFree ix' = iReservedFree ix + of_bool (bit x 31)" "NextInstance ix' = NextInstance ix"
    "iModCount ix = 255 \<longrightarrow> iModCount ix' = 255 \<and> iBoundary ix' = iBoundary ix \<and> iObj ix' = iObj ix \<and>
       iResult ix' = iResult ix - of_bool (iState ix = ECounting \<and> p = iObj ix \<and> i < iBoundary ix)"
    "r = (if \<not> bit x 31 \<and> iAmortize ix > 0 \<and> iActiveCount ix = 1 \<and> iReservedTotal ix = 0 then 1 else 0)"
proof -
  have hm: "0 \<le> i" "i < iCount ix" "objr ix i \<ge> 4" "attr ix i AND 0x3FFF = HandleInstance h" "p = objr ix i AND 0xfffffffc"
    "x = push_bit 31 (objr ix i) OR drop_bit 20 (attr ix i)"
    using assms(3) unfolding hmap_def key_def i_def by (auto split: if_splits)
  have rs: "objr ix i AND 1 \<noteq> 0 \<longleftrightarrow> bit x 31" unfolding hm(6) kept_reserved ..
  have xr: "(x AND EReserved \<noteq> 0) = bit x 31" by (rule reserved_iff)
  have al: "i < iAllocated ix" using hm(2) tableD(4) [OF assms(1)] by simp
  then have len: "i < int (length (iSlots ix))" using tableD(2) [OF assms(1)] by simp
  have off: "i \<notin> set (Q q)" if "q \<in> main" for q by (rule table_off_queue [OF assms(1) hm(1) al hm(3) that])
  let ?v = "objr ix i AND 1"
  define ix1 where "ix1 = set_objr i ?v ix"
  define a where "a = monitor_remove p i (ix1\<lparr>iActiveCount := iActiveCount ix1 - 1\<rparr>)"
  define b where "b = (if bit x 31 then free_reserved i a else snd (free_normal i a))"
  define r where "r = (if bit x 31 then 0 else fst (free_normal i a))"
  have v4: "\<not> objr ix i < 4" using hm(3) by simp
  have res: "DoRemove h ix = (r, p, x, b)"
  proof -
    have "DoRemove h ix = (if x AND EReserved \<noteq> 0 then (KErrNone, p, x, free_reserved i a)
        else case free_normal i a of (r, ix3) \<Rightarrow> (r, p, x, ix3))"
      unfolding DoRemove_def Let_def i_def [symmetric] using assms(2) hm(2) hm(4) [symmetric] v4
      by (simp add: hm(5,6) a_def ix1_def)
    then show ?thesis by (simp add: r_def b_def xr split: prod.split)
  qed
  have fa: "iAllocated a = iAllocated ix" "iCount a = iCount ix" "iState a = iState ix" "iReservedFreeHWM a = iReservedFreeHWM ix"
    "iAmortize a = iAmortize ix" "iModListShift a = iModListShift ix" "iActiveCount a = iActiveCount ix - 1" "iReservedTotal a = iReservedTotal ix"
    "iReservedFree a = iReservedFree ix" "NextInstance a = NextInstance ix"
    "iResult a = iResult ix - of_bool (iState ix = ECounting \<and> p = iObj ix \<and> i < iBoundary ix)" "iBoundary a = iBoundary ix"
    "iObj a = iObj ix" "iModCount a = iModCount ix" "iSlots a = iSlots ix1" "iFreeQ a = iFreeQ ix1"
    by (simp_all add: a_def ix1_def set_objr_def)
  have ra: "rings main a Q" using tableD(1) [OF assms(1)] rings_cong [OF fa(15,16)] by (simp add: ix1_def)
  have la: "i < int (length (iSlots a))" using len by (simp add: fa ix1_def)
  note f = free_slot [OF ra hm(1) la off]
  define c where "c = (if bit x 31 then a\<lparr>iReservedFree := iReservedFree a + 1,
      iReservedFreeHWM := (if (iState a \<noteq> ETidying \<or> i < iResult a) \<and> i \<ge> iReservedFreeHWM a then i + 1 else iReservedFreeHWM a)\<rparr>
      else a\<lparr>iAmortize := (if iAmortize a > 1 then iAmortize a - 1 else iAmortize a)\<rparr>)"
  have kb: "keeps c b" and rb: "rings main b (given_back Q (bit x 31) i)" using f by (simp_all add: b_def c_def)
  note k = keepsD [OF kb]
  have fc: "iAllocated c = iAllocated ix" "iCount c = iCount ix" "iState c = iState ix" "iModListShift c = iModListShift ix"
    "iActiveCount c = iActiveCount ix - 1" "iReservedTotal c = iReservedTotal ix" "iReservedFree c = iReservedFree ix + of_bool (bit x 31)"
    "NextInstance c = NextInstance ix" "iBoundary c = iBoundary ix" "iObj c = iObj ix" "iModCount c = iModCount ix" "iResult c = iResult a"
    "iAmortize c = (if \<not> bit x 31 \<and> iAmortize ix > 1 then iAmortize ix - 1 else iAmortize ix)" "iSlots c = iSlots ix1"
    by (simp_all add: c_def fa)
  have hwm: "iReservedFreeHWM b = (if bit x 31 \<and> (iState ix \<noteq> ETidying \<or> i < iResult ix) then max (iReservedFreeHWM ix) (i + 1) else iReservedFreeHWM ix)"
    unfolding k by (cases "iState ix") (auto simp: c_def fa)
  have "slot_put ix i (attr ix i) ?v ix1" unfolding ix1_def by (rule fill_slot_put(2) [OF refl keeps_refl hm(1) len refl])
  then have "slot_put ix i (attr ix i) ?v c" by (simp add: slot_put_def fc)
  then have put: "slot_put ix i (attr ix i) ?v b" by (rule slot_put_keeps [OF _ kb])
  have fld: "iCount b = iCount ix" "iState b = iState ix" "iModListShift b = iModListShift ix" "iActiveCount b = iActiveCount ix - 1"
    "iReservedTotal b = iReservedTotal ix" "iReservedFree b = iReservedFree ix + of_bool (bit x 31)" "NextInstance b = NextInstance ix"
    "iAllocated b = iAllocated ix"
    by (simp_all only: k fc)
  have am: "iAmortize b = (if \<not> bit x 31 \<and> iAmortize ix > 1 then iAmortize ix - 1 else iAmortize ix)" by (simp only: k fc)
  have rv: "r = (if \<not> bit x 31 \<and> iAmortize ix > 0 \<and> iActiveCount ix = 1 \<and> iReservedTotal ix = 0 then 1 else 0)"
    using f(5) by (simp add: r_def fa)
  have mon: "iModCount b = 255 \<and> iBoundary b = iBoundary ix \<and> iObj b = iObj ix \<and>
      iResult b = iResult ix - of_bool (iState ix = ECounting \<and> p = iObj ix \<and> i < iBoundary ix)" if "iModCount ix = 255"
    using that k(14-17) fc fa(11) by simp
  then have mon: "iModCount ix = 255 \<longrightarrow> iModCount b = 255 \<and> iBoundary b = iBoundary ix \<and> iObj b = iObj ix \<and>
      iResult b = iResult ix - of_bool (iState ix = ECounting \<and> p = iObj ix \<and> i < iBoundary ix)" by blast
  let ?Q = "given_back Q (bit x 31) i"
  have one: "?v = (if bit x 31 then 1 else 0)" unfolding rs [symmetric] by (simp add: and_one_eq mod2_eq_if)
  have tab: "table b ?Q"
  proof (rule table_put [OF assms(1) put hm(1) al rb])
    show "gen_ok (NextInstance b)" unfolding fld by (rule tableD(9) [OF assms(1)])
    show "?v = 0 \<longleftrightarrow> i \<in> set (?Q EQFree) \<union> set (?Q EQAltFree)" "?v = 1 \<longleftrightarrow> i \<in> set (?Q EQRsvd) \<union> set (?Q EQAltRsvd)" "?v < 4 \<Longrightarrow> ?v = 0 \<or> ?v = 1"
      unfolding one using off by (auto simp: given_back_def Let_def)
    show "iActiveCount b = iActiveCount ix - of_bool (objr ix i \<ge> 4) + of_bool (?v \<ge> 4)" unfolding fld one using hm(3) by simp
    show "iReservedTotal b = iReservedTotal ix - of_bool (objr ix i AND 1 \<noteq> 0) + of_bool (?v AND 1 \<noteq> 0)" unfolding fld by (simp add: and.assoc)
    show "iReservedFree b = int (length (?Q EQRsvd) + length (?Q EQAltRsvd))"
      unfolding fld using tableD(8) [OF assms(1)] unfolding counted_def by (simp add: given_back_def Let_def)
    show "unused_last b ?Q" by (rule given_back_unused [OF tableD(7) [OF assms(1)] hm(2) fld(1,8)])
    show "0 \<le> iCount b" "iCount b \<le> iAllocated ix" unfolding fld using tableD(3,4) [OF assms(1)] by auto
    show "?v \<ge> 4 \<Longrightarrow> attr ix i AND 0x3FFF \<noteq> 0" unfolding one by (simp split: if_splits)
  qed (auto simp: given_back_def Let_def)
  show ?thesis by (rule that [OF res tab put hm(1-3,5) rs fld(1,2) hwm am fld(3-7) mon rv])
qed

text \<open>A handle that leads to nothing.\<close>

lemma DoRemove_bad:
  assumes "iState ix \<noteq> ETerminated" "hmap ix (key h) = None"
  shows "DoRemove h ix = (KErrBadHandle, 0, 0, ix)"
  using assms HandleIndex_bounds(1) [of h] by (auto simp: DoRemove_def hmap_def key_def Let_def split: if_splits)

end
