(* ===== verification/Objix_Hist.thy ===== *)
theory Objix_Hist
  imports Objix_Step
begin

text \<open>
  The abstract object index: a map of handles and the number of handles that can still be added to
  reserved slots. Adding and removing are its steps, also in the middle of the operations that let
  other threads in.
\<close>

section \<open>The abstract steps\<close>

type_synonym ix_abs = "handles \<times> int"

definition abs_ix :: "RObjectIx \<Rightarrow> ix_abs" where
  "abs_ix ix = (hmap ix, iReservedFree ix)"

text \<open>The action, its result and what it does. A new handle has an index that no other handle has.\<close>

inductive served :: "ix_act \<Rightarrow> int \<Rightarrow> ix_abs \<Rightarrow> ix_abs \<Rightarrow> bool" where
  added: "\<lbrakk>h > 0; \<And>w. m (fst (key h), w) = None; bit a 31 \<Longrightarrow> k > 0\<rbrakk> \<Longrightarrow>
    served (ActAdd p a) h (m, k) (m(key h \<mapsto> (p, a AND 0x80000FFF)), k - of_bool (bit a 31))"
| no_slot: "\<lbrakk>bit a 31 \<Longrightarrow> k = 0\<rbrakk> \<Longrightarrow> served (ActAdd p a) KErrNoMemory (m, k) (m, k)"
| removed: "\<lbrakk>m (key h) = Some (p, x); r = 0 \<or> r = 1\<rbrakk> \<Longrightarrow>
    served (ActRemove h) r (m, k) (m(key h := None), k + of_bool (bit x 31))"
| bad_handle: "m (key h) = None \<Longrightarrow> served (ActRemove h) KErrBadHandle (m, k) (m, k)"

inductive_cases served_addE: "served (ActAdd p a) r s s'"
inductive_cases served_removeE: "served (ActRemove h) r s s'"

inductive served_all :: "ix_act list \<Rightarrow> ix_abs \<Rightarrow> ix_abs \<Rightarrow> bool" where
  served_none: "served_all [] s s"
| served_next: "served act r s s1 \<Longrightarrow> served_all acts s1 s' \<Longrightarrow> served_all (act # acts) s s'"

inductive_simps served_all_simps [simp]: "served_all [] s s'" "served_all (act # acts) s s'"

lemma served_all_append: "served_all (as @ bs) s s' \<longleftrightarrow> (\<exists>s1. served_all as s s1 \<and> served_all bs s1 s')"
  by (induction as arbitrary: s) (auto, blast+)

section \<open>One action\<close>

fun ok_act :: "ix_act \<Rightarrow> bool" where
  "ok_act (ActAdd p a) = is_object p"
| "ok_act (ActRemove h) = True"

text \<open>Everything that an action of another thread leaves as it is.\<close>

definition same_phase :: "RObjectIx \<Rightarrow> RObjectIx \<Rightarrow> bool" where
  "same_phase ix ix' \<longleftrightarrow> iAllocated ix' = iAllocated ix \<and> iState ix' = iState ix \<and> iModListShift ix' = iModListShift ix \<and>
     iReservedTotal ix' = iReservedTotal ix \<and> (iModCount ix = 255 \<longrightarrow> iModCount ix' = 255 \<and> iObj ix' = iObj ix) \<and> iCount ix \<le> iCount ix' \<and>
     iReservedFreeHWM ix \<le> iReservedFreeHWM ix'"

lemma same_phase_refl [simp]: "same_phase ix ix"
  by (simp add: same_phase_def)

lemma same_phase_trans: "same_phase ix ix' \<Longrightarrow> same_phase ix' ix'' \<Longrightarrow> same_phase ix ix''"
  by (auto simp: same_phase_def)

text \<open>The states in which other threads run: not closed, and the slots that change are recorded in the normal state only.\<close>

definition open_ix :: "RObjectIx \<Rightarrow> bool" where
  "open_ix ix \<longleftrightarrow> iState ix \<noteq> ETerminated \<and> (iModCount ix = 255 \<or> iState ix = ENormal)"

lemma key_Make:
  assumes "0 \<le> i" "i < 32768" "w AND 0x3FFF = w" "w \<noteq> 0"
  shows "key (MakeHandle i w) = (i, w)" "MakeHandle i w > 0"
proof -
  show "key (MakeHandle i w) = (i, w)" using HandleIndex_Make HandleInstance_Make assms by (simp add: key_def)
  have "uint w \<noteq> 0" using assms(4) by (simp only: unsigned_eq_0_iff not_False_eq_True)
  then have "uint w > 0" using uint_range_size [of w] by linarith
  then show "MakeHandle i w > 0" using assms by (simp add: MakeHandle_eq)
qed

lemma hmap_free: "table ix Q \<Longrightarrow> 0 \<le> i \<Longrightarrow> i < iAllocated ix \<Longrightarrow> objr ix i < 4 \<Longrightarrow> hmap ix (i, w) = None"
  by (auto simp: hmap_def)

lemma kept_attr: "is_object p \<Longrightarrow> inst AND 0x3FFF = inst \<Longrightarrow>
    push_bit 31 (used_objr p a) OR drop_bit 20 (used_attr U p a inst) = a AND 0x80000FFF"
proof -
  assume o: "is_object p" "inst AND 0x3FFF = inst"
  have "a AND (0x80000000 OR 0xFFF) = (a AND 0x80000000) OR (a AND 0xFFF)" by (simp only: bit.conj_disj_distrib)
  then show ?thesis using used_objr(4) [OF o(1)] used_attr(2) [OF o(2)] by simp
qed

lemma DoAdd_served:
  assumes "table ix Q" "open_ix ix" "is_object p"
  obtains Q' ix' r d where "DoAdd U p a ix = (r, d, ix')" "table ix' Q'" "served (ActAdd p a) r (abs_ix ix) (abs_ix ix')" "same_phase ix ix'"
    "r > 0 \<or> r = KErrNoMemory \<and> Q (slot_queue a) @ Q (slot_queue a + 1) = [] \<and> Q' = Q"
proof -
  obtain inst nx where g: "GetNextInstanceValue (NextInstance ix) = (inst, nx)" by fastforce
  note inst = GetNextInstanceValue_ok [OF tableD(9) [OF assms(1)] g]
  have st: "iState ix \<noteq> ETerminated" "iModCount ix = 255 \<or> iState ix = ENormal" using assms(2) by (auto simp: open_ix_def)
  show ?thesis
  proof (cases "Q (slot_queue a) @ Q (slot_queue a + 1)")
    case Nil
    note n = DoAdd_none(1) [OF assms(1) st(1) Nil g, of U p] DoAdd_none(2) [OF assms(1) st(1) Nil g]
    let ?ix' = "ix\<lparr>NextInstance := nx\<rparr>"
    have "iReservedFree ix = 0" if "bit a 31"
      using that Nil tableD(8) [OF assms(1)] reserved_iff [of a] by (auto simp: slot_queue_def counted_def)
    then have "served (ActAdd p a) KErrNoMemory (abs_ix ix) (abs_ix ?ix')" using hmap_cong [of ?ix' ix] by (simp add: abs_ix_def no_slot)
    moreover have "same_phase ix ?ix'" by (simp add: same_phase_def)
    ultimately show ?thesis using that n Nil by blast
  next
    case (Cons i rest)
    obtain ix' where s: "DoAdd U p a ix = (MakeHandle i inst, (used_attr U p a inst, used_objr p a), ix')"
      "table ix' (taken Q (slot_queue a))" "slot_put ix i (used_attr U p a inst) (used_objr p a) ix'" "0 \<le> i" "i < iAllocated ix" "objr ix i < 4"
      "iCount ix' = max (iCount ix) (i + 1)" "iState ix' = iState ix" "iReservedFreeHWM ix' = iReservedFreeHWM ix" "iAmortize ix' = iAmortize ix"
      "iModListShift ix' = iModListShift ix" "iActiveCount ix' = iActiveCount ix + 1" "iReservedTotal ix' = iReservedTotal ix"
      "iReservedFree ix' = iReservedFree ix - of_bool (bit a 31)" "NextInstance ix' = nx"
      "iModCount ix = 255 \<longrightarrow> iModCount ix' = 255 \<and> iBoundary ix' = iBoundary (monitor_add p i ix) \<and>
       iResult ix' = iResult (monitor_add p i ix) \<and> iObj ix' = iObj ix" "objr ix i AND 1 \<noteq> 0 \<longleftrightarrow> bit a 31"
      by (rule DoAdd_slot [OF assms(1) st(1) assms(3) Cons g st(2)])
    have i: "i < 32768" using s(5) tableD(5) [OF assms(1)] by simp
    note k = key_Make [OF s(4) i inst(2,3)]
    have hm: "hmap ix' = (hmap ix)(key (MakeHandle i inst) \<mapsto> (p, a AND 0x80000FFF))"
    proof (rule ext, clarify)
      fix j w
      show "hmap ix' (j, w) = ((hmap ix)(key (MakeHandle i inst) \<mapsto> (p, a AND 0x80000FFF))) (j, w)"
        using hmap_put [OF assms(1) s(2,3,4,5), of j w] hmap_free [OF assms(1) s(4,5,6), of w] used_objr(1,2) [OF assms(3)]
          used_attr(1) [OF inst(2)] kept_attr [OF assms(3) inst(2)] unfolding k(1) by simp
    qed
    have "iReservedFree ix > 0" if "bit a 31"
      using that arg_cong [OF Cons, of length] tableD(8) [OF assms(1)] reserved_iff [of a] by (simp add: slot_queue_def counted_def)
    then have "served (ActAdd p a) (MakeHandle i inst) (abs_ix ix) (abs_ix ix')"
      unfolding abs_ix_def hm s(14) using hmap_free [OF assms(1) s(4,5,6)] k by (intro added) simp_all
    moreover have "same_phase ix ix'" using s slot_putD(2) [OF s(3,4)] tableD(2) [OF assms(1)] by (simp add: same_phase_def)
    ultimately show ?thesis using that s(1,2) k(2) by blast
  qed
qed

lemma DoRemove_served:
  assumes "table ix Q" "open_ix ix"
  obtains Q' ix' r p x where "DoRemove h ix = (r, p, x, ix')" "table ix' Q'" "served (ActRemove h) r (abs_ix ix) (abs_ix ix')" "same_phase ix ix'"
    "hmap ix (key h) = Some (p, x) \<and> (r = 0 \<or> r = 1) \<or> hmap ix (key h) = None \<and> r = KErrBadHandle \<and> p = 0 \<and> x = 0 \<and> ix' = ix"
proof -
  have st: "iState ix \<noteq> ETerminated" using assms(2) by (auto simp: open_ix_def)
  show ?thesis
  proof (cases "hmap ix (key h)")
    case None
    then have "served (ActRemove h) KErrBadHandle (abs_ix ix) (abs_ix ix)" by (simp add: abs_ix_def bad_handle)
    then show ?thesis using that [OF DoRemove_bad [OF st None] assms(1)] None by simp
  next
    case (Some px)
    obtain p x where px: "hmap ix (key h) = Some (p, x)" using Some by (cases px) simp
    let ?i = "HandleIndex h"
    obtain ix' r where s: "DoRemove h ix = (r, p, x, ix')" "table ix' (given_back Q (bit x 31) ?i)" "slot_put ix ?i (attr ix ?i) (objr ix ?i AND 1) ix'"
      "0 \<le> ?i" "?i < iCount ix" "objr ix ?i \<ge> 4" "p = objr ix ?i AND 0xfffffffc" "objr ix ?i AND 1 \<noteq> 0 \<longleftrightarrow> bit x 31"
      "iCount ix' = iCount ix" "iState ix' = iState ix"
      "iReservedFreeHWM ix' = (if bit x 31 \<and> (iState ix \<noteq> ETidying \<or> ?i < iResult ix) then max (iReservedFreeHWM ix) (?i + 1) else iReservedFreeHWM ix)"
      "iAmortize ix' = (if \<not> bit x 31 \<and> iAmortize ix > 1 then iAmortize ix - 1 else iAmortize ix)"
      "iModListShift ix' = iModListShift ix" "iActiveCount ix' = iActiveCount ix - 1" "iReservedTotal ix' = iReservedTotal ix"
      "iReservedFree ix' = iReservedFree ix + of_bool (bit x 31)" "NextInstance ix' = NextInstance ix"
      "iModCount ix = 255 \<longrightarrow> iModCount ix' = 255 \<and> iBoundary ix' = iBoundary ix \<and> iObj ix' = iObj ix \<and>
         iResult ix' = iResult ix - of_bool (iState ix = ECounting \<and> p = iObj ix \<and> ?i < iBoundary ix)"
      "r = (if \<not> bit x 31 \<and> iAmortize ix > 0 \<and> iActiveCount ix = 1 \<and> iReservedTotal ix = 0 then 1 else 0)"
      by (rule DoRemove_used [OF assms(1) st px])
    have al: "?i < iAllocated ix" using s(5) tableD(4) [OF assms(1)] by simp
    have "objr ix ?i AND 1 < 4" by (rule le_less_trans [OF word_and_le1]) simp
    then have v: "\<not> (objr ix ?i AND 1 \<ge> 4)" by (simp only: not_le)
    have hm: "hmap ix' = (hmap ix)(key h := None)"
    proof (rule ext, clarify)
      fix j w
      have "hmap ix (?i, w) = None" if "(?i, w) \<noteq> key h"
        using that px unfolding hmap_alloc [OF assms(1)] key_def by (auto split: if_splits)
      then show "hmap ix' (j, w) = ((hmap ix)(key h := None)) (j, w)"
        using hmap_put [OF assms(1) s(2,3,4) al, of j w] v by (auto simp: key_def)
    qed
    have "served (ActRemove h) r (abs_ix ix) (abs_ix ix')"
      unfolding abs_ix_def hm s(16) using px s(19) by (intro removed) (auto split: if_splits)
    moreover have "same_phase ix ix'" using s(9-18) slot_putD(2) [OF s(3,4)] tableD(2) [OF assms(1)] al by (simp add: same_phase_def)
    ultimately show ?thesis using that s(1,2,19) px by (auto split: if_splits)
  qed
qed

text \<open>The actions of other threads.\<close>

lemma run_act_served:
  assumes "table ix Q" "open_ix ix" "ok_act act"
  obtains Q' r where "table (run_act U act ix) Q'" "served act r (abs_ix ix) (abs_ix (run_act U act ix))" "same_phase ix (run_act U act ix)"
    "open_ix (run_act U act ix)"
proof (cases act)
  case (ActAdd p a)
  have p: "is_object p" using assms(3) ActAdd by simp
  obtain Q' ix' r d where s: "DoAdd U p a ix = (r, d, ix')" "table ix' Q'" "served (ActAdd p a) r (abs_ix ix) (abs_ix ix')" "same_phase ix ix'"
    by (rule DoAdd_served [OF assms(1,2) p])
  then show ?thesis using that [of Q' r] ActAdd assms(2) by (auto simp: open_ix_def same_phase_def)
next
  case (ActRemove h)
  obtain Q' ix' r p x where s: "DoRemove h ix = (r, p, x, ix')" "table ix' Q'" "served (ActRemove h) r (abs_ix ix) (abs_ix ix')" "same_phase ix ix'"
    by (rule DoRemove_served [OF assms(1,2)])
  then show ?thesis using that [of Q' r] ActRemove assms(2) by (auto simp: open_ix_def same_phase_def)
qed

lemma run_acts_served:
  assumes "table ix Q" "open_ix ix" "list_all ok_act acts"
  obtains Q' where "table (fold (run_act U) acts ix) Q'" "served_all acts (abs_ix ix) (abs_ix (fold (run_act U) acts ix))"
    "same_phase ix (fold (run_act U) acts ix)" "open_ix (fold (run_act U) acts ix)"
  using assms
proof (induction acts arbitrary: ix Q thesis)
  case Nil
  then show ?case by simp
next
  case (Cons act acts)
  obtain Q1 r where s: "table (run_act U act ix) Q1" "served act r (abs_ix ix) (abs_ix (run_act U act ix))" "same_phase ix (run_act U act ix)"
    "open_ix (run_act U act ix)"
    using run_act_served [OF Cons.prems(2,3)] Cons.prems(4) by (metis list.pred_inject(2))
  obtain Q' where t: "table (fold (run_act U) acts (run_act U act ix)) Q'"
    "served_all acts (abs_ix (run_act U act ix)) (abs_ix (fold (run_act U) acts (run_act U act ix)))"
    "same_phase (run_act U act ix) (fold (run_act U) acts (run_act U act ix))" "open_ix (fold (run_act U) acts (run_act U act ix))"
    using Cons.IH [OF _ s(1,4)] Cons.prems(4) by auto
  show ?case
  proof (rule Cons.prems(1))
    show "served_all (act # acts) (abs_ix ix) (abs_ix (fold (run_act U) (act # acts) ix))" using served_next [OF s(2) t(2)] by simp
  qed (use t same_phase_trans [OF s(3) t(3)] in simp_all)
qed

end
