(* ===== verification/Objix_Scan.thy ===== *)
theory Objix_Scan
  imports Objix_Hist
begin

text \<open>
  Counting the handles of an object and looking for one, while other threads add and remove handles
  between the groups of eight slots: the answers are exact for the moment the operation ends.
\<close>

section \<open>What other threads leave true\<close>

text \<open>
  The contract between an operation that lets other threads in and their actions: a condition that
  every permitted action keeps.
\<close>

locale guarded =
  fixes run :: "'act \<Rightarrow> 's \<Rightarrow> 's" and ok :: "'act \<Rightarrow> bool" and I :: "'s \<Rightarrow> bool"
  assumes keep: "ok act \<Longrightarrow> I s \<Longrightarrow> I (run act s)"
begin

lemma keep_all: "list_all ok acts \<Longrightarrow> I s \<Longrightarrow> I (fold run acts s)"
  by (induction acts arbitrary: s) (simp_all add: keep)

end

text \<open>A second condition can lean on the first.\<close>

locale guarded_more = guarded +
  fixes J :: "'s \<Rightarrow> bool"
  assumes keep_more: "ok act \<Longrightarrow> I s \<Longrightarrow> J s \<Longrightarrow> J (run act s)"

sublocale guarded_more \<subseteq> both: guarded run ok "\<lambda>s. I s \<and> J s"
  by unfold_locales (simp_all add: keep keep_more)

definition first_env :: "'a list list \<Rightarrow> 'a list" where
  "first_env envs = (case envs of [] \<Rightarrow> [] | e # _ \<Rightarrow> e)"

lemma others_first: "others U envs ix = fold (run_act U) (first_env envs) ix"
  by (simp add: others_def first_env_def split: list.split)

lemma first_env_take: "first_env envs @ concat (take k (tl envs)) = concat (take (Suc k) envs)"
  by (cases envs) (simp_all add: first_env_def)

abbreviation (input) ok_envs :: "ix_act list list \<Rightarrow> bool" where "ok_envs envs \<equiv> list_all (list_all ok_act) envs"

lemma ok_first: "ok_envs envs \<Longrightarrow> list_all ok_act (first_env envs) \<and> ok_envs (tl envs)"
  by (cases envs) (simp_all add: first_env_def)

text \<open>The invariant with the lists of the free slots left open.\<close>

definition ready :: "RObjectIx \<Rightarrow> bool" where
  "ready ix \<longleftrightarrow> (\<exists>Q. table ix Q) \<and> open_ix ix"

lemma ready_act: "ok_act act \<Longrightarrow> ready ix \<Longrightarrow> ready (run_act U act ix)"
  unfolding ready_def by (metis run_act_served)

interpretation acts: guarded "run_act U" ok_act ready for U
  by unfold_locales (rule ready_act)

lemma ready_fold:
  assumes "ready ix" "list_all ok_act acts"
  shows "ready (fold (run_act U) acts ix)" "served_all acts (abs_ix ix) (abs_ix (fold (run_act U) acts ix))"
    "same_phase ix (fold (run_act U) acts ix)"
proof -
  obtain Q where "table ix Q" "open_ix ix" using assms(1) by (auto simp: ready_def)
  then show "ready (fold (run_act U) acts ix)" "served_all acts (abs_ix ix) (abs_ix (fold (run_act U) acts ix))"
    "same_phase ix (fold (run_act U) acts ix)"
    using acts.keep_all [OF assms(2,1)] run_acts_served [OF _ _ assms(2), of ix Q U] by blast+
qed

text \<open>
  A scan is a series of steps, each followed by actions of other threads: \<open>scanned envs ix ix'\<close>
  says that the handles changed from \<open>ix\<close> to \<open>ix'\<close> as by some of the actions in \<open>envs\<close>, the first ones, in turn.
\<close>

definition scanned :: "ix_act list list \<Rightarrow> RObjectIx \<Rightarrow> RObjectIx \<Rightarrow> bool" where
  "scanned envs ix ix' \<longleftrightarrow> (\<exists>k. served_all (concat (take k envs)) (abs_ix ix) (abs_ix ix'))"

lemma scanned_refl: "abs_ix ix' = abs_ix ix \<Longrightarrow> scanned envs ix ix'"
  unfolding scanned_def by (rule exI [of _ 0]) simp

lemma scanned_step:
  assumes "abs_ix ix1 = abs_ix ix" "ready ix1" "ok_envs envs" "scanned (tl envs) (others U envs ix1) ix'"
  shows "scanned envs ix ix'"
proof -
  obtain k where "served_all (concat (take k (tl envs))) (abs_ix (others U envs ix1)) (abs_ix ix')" using assms(4) by (auto simp: scanned_def)
  moreover have "served_all (first_env envs) (abs_ix ix) (abs_ix (others U envs ix1))"
    using ready_fold(2) [OF assms(2), of "first_env envs" U] ok_first [OF assms(3)] assms(1) by (simp add: others_first)
  ultimately have "served_all (first_env envs @ concat (take k (tl envs))) (abs_ix ix) (abs_ix ix')" unfolding served_all_append by blast
  then show ?thesis unfolding first_env_take scanned_def by blast
qed

section \<open>Slots that hold an object\<close>

definition found :: "RObjectIx \<Rightarrow> TUint32 \<Rightarrow> int \<Rightarrow> int" where
  "found ix p n = int (length (filter (\<lambda>i. objr ix i AND 0xfffffffc = p) [0..n - 1]))"

lemma found_extend:
  assumes "0 \<le> n" "n \<le> m"
  shows "found ix p m = found ix p n + int (length (filter (\<lambda>i. Occupant (iSlots ix ! nat i) = p) [n..m - 1]))"
proof -
  have "[0..m - 1] = [0..n - 1] @ [n..m - 1]"
  proof (cases "n = m")
    case False
    then show ?thesis by (intro upto_split1) (use assms in auto)
  qed simp
  then show ?thesis by (simp add: found_def Occupant_def)
qed

lemma found_zero: "found ix p n = 0 \<longleftrightarrow> (\<forall>i. 0 \<le> i \<and> i < n \<longrightarrow> objr ix i AND 0xfffffffc \<noteq> p)"
  by (auto simp: found_def filter_empty_conv)

lemma found_put:
  assumes "slot_put ix i a v ix'" "0 \<le> i" "i < int (length (iSlots ix))" "n \<le> int (length (iSlots ix))"
  shows "found ix' p n = found ix p n - of_bool (i < n \<and> objr ix i AND 0xfffffffc = p) + of_bool (i < n \<and> v AND 0xfffffffc = p)"
proof -
  note d = slot_putD [OF assms(1-3)]
  have same: "filter (\<lambda>j. objr ix' j AND 0xfffffffc = p) L = filter (\<lambda>j. objr ix j AND 0xfffffffc = p) L"
    if "\<forall>j \<in> set L. 0 \<le> j \<and> j < n \<and> j \<noteq> i" for L
    by (rule filter_cong) (use that d(3) assms(4) in auto)
  show ?thesis
  proof (cases "i < n")
    case True
    then have s: "[0..n - 1] = [0..i - 1] @ i # [i + 1..n - 1]" using upto_split3 [of 0 i "n - 1"] assms(2) by simp
    show ?thesis unfolding found_def s using same [of "[0..i - 1]"] same [of "[i + 1..n - 1]"] True d(3) [OF assms(2,3)] assms(2) by simp
  next
    case False
    then show ?thesis using same [of "[0..n - 1]"] by (simp add: found_def)
  qed
qed

text \<open>The number of handles that lead to an object.\<close>

definition handles_of :: "TUint32 \<Rightarrow> handles \<Rightarrow> nat" where
  "handles_of p m = card {k. \<exists>x. m k = Some (p, x)}"

lemma handles_found:
  assumes "is_object p"
  shows "found ix p (iCount ix) = int (handles_of p (hmap ix))"
proof -
  let ?S = "{i \<in> {0..iCount ix - 1}. objr ix i AND 0xfffffffc = p}" and ?f = "\<lambda>i. (i, attr ix i AND 0x3FFF)"
  have p: "objr ix i AND 0xfffffffc = p \<Longrightarrow> objr ix i \<ge> 4" for i using assms unfolding occupied_iff is_object_def by auto
  have "length (filter (\<lambda>i. objr ix i AND 0xfffffffc = p) [0..iCount ix - 1]) = card ?S"
    by (subst distinct_card [symmetric]) (simp_all add: Int_def conj_commute)
  also have "\<dots> = card (?f ` ?S)" by (rule card_image [symmetric]) (simp add: inj_on_def)
  also have "?f ` ?S = {k. \<exists>x. hmap ix k = Some (p, x)}" using p by (force simp: hmap_def split: if_splits)
  finally show ?thesis by (simp add: found_def handles_of_def)
qed

section \<open>Counting\<close>

text \<open>While the slots below \<open>iBoundary\<close> have been looked at, \<open>iResult\<close> is the number of those that hold the object.\<close>

definition counting :: "TUint32 \<Rightarrow> int \<Rightarrow> RObjectIx \<Rightarrow> bool" where
  "counting p n ix \<longleftrightarrow> is_object p \<and> iState ix = ECounting \<and> iModCount ix = 255 \<and> iObj ix = p \<and>
     iBoundary ix = n \<and> 0 \<le> n \<and> n \<le> iCount ix \<and> iResult ix = found ix p n"

definition searching :: "TUint32 \<Rightarrow> RObjectIx \<Rightarrow> bool" where
  "searching p ix \<longleftrightarrow> is_object p \<and> iState ix = ESearching \<and> iModCount ix = 255 \<and> iObj ix = p \<and>
     0 \<le> iBoundary ix \<and> iBoundary ix \<le> iCount ix \<and> found ix p (iBoundary ix) = 0"

lemma free_not_object: "objr ix i < 4 \<Longrightarrow> is_object p \<Longrightarrow> objr ix i AND 0xfffffffc \<noteq> p"
  using occupied_iff [of "objr ix i"] by (auto simp: is_object_def not_le [symmetric])

lemma monitored_add:
  assumes "ready ix" "is_object p'"
  shows "counting p n ix \<Longrightarrow> counting p n (snd (snd (DoAdd U p' a ix)))" "searching p ix \<Longrightarrow> searching p (snd (snd (DoAdd U p' a ix)))"
proof -
  obtain Q where t: "table ix Q" and st: "iState ix \<noteq> ETerminated" "iModCount ix = 255 \<or> iState ix = ENormal"
    using assms(1) by (auto simp: ready_def open_ix_def)
  obtain inst nx where g: "GetNextInstanceValue (NextInstance ix) = (inst, nx)" by fastforce
  have "(counting p n ix \<longrightarrow> counting p n (snd (snd (DoAdd U p' a ix)))) \<and> (searching p ix \<longrightarrow> searching p (snd (snd (DoAdd U p' a ix))))"
  proof (cases "Q (slot_queue a) @ Q (slot_queue a + 1)")
    case Nil
    have "found (ix\<lparr>NextInstance := nx\<rparr>) p n = found ix p n" for n by (simp add: found_def)
    then show ?thesis using DoAdd_none(1) [OF t st(1) Nil g, of U p'] by (simp add: counting_def searching_def)
  next
    case (Cons i rest)
    obtain ix' where s: "DoAdd U p' a ix = (MakeHandle i inst, (used_attr U p' a inst, used_objr p' a), ix')"
      "slot_put ix i (used_attr U p' a inst) (used_objr p' a) ix'" "0 \<le> i" "i < iAllocated ix" "objr ix i < 4"
      "iCount ix' = max (iCount ix) (i + 1)" "iState ix' = iState ix"
      "iModCount ix = 255 \<longrightarrow> iModCount ix' = 255 \<and> iBoundary ix' = iBoundary (monitor_add p' i ix) \<and>
       iResult ix' = iResult (monitor_add p' i ix) \<and> iObj ix' = iObj ix"
      using DoAdd_slot [OF t st(1) assms(2) Cons g st(2), of U thesis] by blast
    have len: "int (length (iSlots ix)) = iAllocated ix" and cnt: "iCount ix \<le> iAllocated ix" using tableD(2,4) [OF t] by simp_all
    have f: "found ix' p n = found ix p n + of_bool (i < n \<and> p' = p)" if "n \<le> iCount ix" "is_object p" for n
      using found_put [OF s(2,3), of n p] s(4) len cnt that free_not_object [OF s(5) that(2)] used_objr(2) [OF assms(2)] by simp
    have less: "found ix p m = 0" if "found ix p n = 0" "m \<le> n" for m n using that by (auto simp: found_zero)
    have "counting p n ix \<Longrightarrow> counting p n ix'" using s(6-8) f [of n] by (auto simp: counting_def monitor_add_def)
    moreover have "searching p ix'" if "searching p ix"
    proof -
      have c: "is_object p" "iState ix = ESearching" "iModCount ix = 255" "iObj ix = p" "0 \<le> iBoundary ix" "iBoundary ix \<le> iCount ix"
        "found ix p (iBoundary ix) = 0" using that by (auto simp: searching_def)
      have m: "iBoundary ix' = (if p' = p \<and> i < iBoundary ix then i else iBoundary ix)" using s(8) c(2-4) by (simp add: monitor_add_def)
      have "found ix' p (iBoundary ix') = 0"
      proof (cases "p' = p \<and> i < iBoundary ix")
        case True
        then show ?thesis unfolding m using f [of i] c(1,6) less [OF c(7), of i] by simp
      next
        case False
        then show ?thesis unfolding m using f [of "iBoundary ix"] c(1,6,7) by auto
      qed
      moreover have "0 \<le> iBoundary ix' \<and> iBoundary ix' \<le> iCount ix'" unfolding m s(6) using s(3) c(5,6) by auto
      moreover have "iModCount ix' = 255" "iObj ix' = p" using s(8) c(3,4) by simp_all
      ultimately show ?thesis using c(1,2) s(7) by (simp add: searching_def)
    qed
    ultimately show ?thesis using s(1) by simp
  qed
  then show "counting p n ix \<Longrightarrow> counting p n (snd (snd (DoAdd U p' a ix)))" "searching p ix \<Longrightarrow> searching p (snd (snd (DoAdd U p' a ix)))" by blast+
qed

lemma monitored_remove:
  assumes "ready ix"
  shows "counting p n ix \<Longrightarrow> counting p n (snd (snd (snd (DoRemove h ix))))" "searching p ix \<Longrightarrow> searching p (snd (snd (snd (DoRemove h ix))))"
proof -
  obtain Q where t: "table ix Q" and st: "iState ix \<noteq> ETerminated" using assms(1) by (auto simp: ready_def open_ix_def)
  have "(counting p n ix \<longrightarrow> counting p n (snd (snd (snd (DoRemove h ix))))) \<and> (searching p ix \<longrightarrow> searching p (snd (snd (snd (DoRemove h ix)))))"
  proof (cases "hmap ix (key h)")
    case None
    then show ?thesis using DoRemove_bad [OF st None] by simp
  next
    case (Some px)
    obtain p' x where px: "hmap ix (key h) = Some (p', x)" using Some by (cases px) simp
    let ?i = "HandleIndex h"
    obtain ix' r where s: "DoRemove h ix = (r, p', x, ix')" "slot_put ix ?i (attr ix ?i) (objr ix ?i AND 1) ix'"
      "0 \<le> ?i" "?i < iCount ix" "p' = objr ix ?i AND 0xfffffffc" "iCount ix' = iCount ix" "iState ix' = iState ix"
      "iModCount ix = 255 \<longrightarrow> iModCount ix' = 255 \<and> iBoundary ix' = iBoundary ix \<and> iObj ix' = iObj ix \<and>
         iResult ix' = iResult ix - of_bool (iState ix = ECounting \<and> p' = iObj ix \<and> ?i < iBoundary ix)"
      using DoRemove_used [OF t st px, of thesis] by blast
    have len: "int (length (iSlots ix)) = iAllocated ix" and cnt: "iCount ix \<le> iAllocated ix" using tableD(2,4) [OF t] by simp_all
    have z: "(objr ix ?i AND 1) AND 0xfffffffc = 0" by (simp add: and.assoc)
    have f: "found ix' p n = found ix p n - of_bool (?i < n \<and> p' = p)" if "n \<le> iCount ix" "is_object p" for n
      using found_put [OF s(2,3), of n p] s(4,5) len cnt that z by (auto simp: is_object_def)
    have "found ix p n \<ge> 0" "found ix' p n \<ge> 0" for n by (simp_all add: found_def)
    then have "searching p ix \<Longrightarrow> searching p ix'" using s(6-8) f [of "iBoundary ix"]
      by (auto simp: searching_def) (smt (verit) of_bool_eq(2))+
    moreover have "counting p n ix \<Longrightarrow> counting p n ix'" using s(6-8) f [of n] by (auto simp: counting_def)
    ultimately show ?thesis using s(1) by simp
  qed
  then show "counting p n ix \<Longrightarrow> counting p n (snd (snd (snd (DoRemove h ix))))" "searching p ix \<Longrightarrow> searching p (snd (snd (snd (DoRemove h ix))))"
    by blast+
qed

interpretation counted_acts: guarded_more "run_act U" ok_act ready "counting p n" for U p n
proof
  show "ok_act act \<Longrightarrow> ready s \<Longrightarrow> counting p n s \<Longrightarrow> counting p n (run_act U act s)" for act s
    using monitored_add(1) monitored_remove(1) by (cases act) simp_all
qed

interpretation searched_acts: guarded_more "run_act U" ok_act ready "searching p" for U p
proof
  show "ok_act act \<Longrightarrow> ready s \<Longrightarrow> searching p s \<Longrightarrow> searching p (run_act U act s)" for act s
    using monitored_add(2) monitored_remove(2) by (cases act) simp_all
qed

lemma found_cong: "iSlots ix' = iSlots ix \<Longrightarrow> found ix' = found ix"
  by (auto simp only: found_def fun_eq_iff)

lemma ready_cong:
  assumes "ready ix" "iSlots ix' = iSlots ix" "iFreeQ ix' = iFreeQ ix" "iAllocated ix' = iAllocated ix" "iCount ix' = iCount ix"
    "iActiveCount ix' = iActiveCount ix" "iReservedFree ix' = iReservedFree ix" "iReservedTotal ix' = iReservedTotal ix"
    "NextInstance ix' = NextInstance ix" "open_ix ix'"
  shows "ready ix'"
  using assms(1,10) table_cong [OF assms(2-8)] assms(9) unfolding ready_def by auto

lemma count_loop_ok:
  assumes "ready ix" "counting p n ix" "ok_envs envs"
  shows "\<exists>n'. ready (count_loop U envs n ix) \<and> counting p n' (count_loop U envs n ix) \<and> scanned envs ix (count_loop U envs n ix) \<and>
    (n' = iCount (count_loop U envs n ix) \<or> iActiveCount (count_loop U envs n ix) = 0)"
  using assms
proof (induction U envs n ix rule: count_loop.induct)
  case (1 U envs n ix)
  let ?limit = "min (n + EMaxLockedIter) (iCount ix)"
  let ?k = "length (filter (\<lambda>i. Occupant (iSlots ix ! nat i) = iObj ix) [n..?limit - 1])"
  define ix1 where "ix1 = ix\<lparr>iResult := iResult ix + int ?k, iBoundary := ?limit\<rparr>"
  show ?case
  proof (cases "n < iCount ix \<and> iActiveCount ix \<noteq> 0")
    case True
    then have eq: "count_loop U envs n ix = count_loop U (tl envs) ?limit (others U envs ix1)"
      by (simp add: count_loop.simps [of U envs n ix] Let_def ix1_def)
    have n: "0 \<le> n" "n \<le> ?limit" using "1.prems"(2) True by (auto simp: counting_def)
    have r1: "ready ix1" using "1.prems"(1) by (rule ready_cong) (use "1.prems"(1) in \<open>simp_all add: ix1_def ready_def open_ix_def\<close>)
    have same: "found ix1 = found ix" by (rule found_cong) (simp add: ix1_def)
    have c1: "counting p ?limit ix1"
      using "1.prems"(2) found_extend [OF n, of ix p] n unfolding counting_def same by (simp add: ix1_def)
    have first: "list_all ok_act (first_env envs)" "ok_envs (tl envs)" using ok_first [OF "1.prems"(3)] by simp_all
    have "ready (others U envs ix1) \<and> counting p ?limit (others U envs ix1)" unfolding others_first
      by (rule counted_acts.both.keep_all [OF first(1)]) (use r1 c1 in blast)
    then obtain n' where IH: "ready (count_loop U envs n ix)" "counting p n' (count_loop U envs n ix)"
      "scanned (tl envs) (others U envs ix1) (count_loop U envs n ix)"
      "n' = iCount (count_loop U envs n ix) \<or> iActiveCount (count_loop U envs n ix) = 0"
      using "1.IH" [OF True refl refl refl, folded ix1_def] first(2) unfolding eq by blast
    have "hmap ix1 = hmap ix" by (rule hmap_cong) (simp_all add: ix1_def)
    then have "abs_ix ix1 = abs_ix ix" by (simp add: abs_ix_def ix1_def)
    then have "scanned envs ix (count_loop U envs n ix)" by (rule scanned_step [OF _ r1 "1.prems"(3) IH(3)])
    then show ?thesis using IH by blast
  next
    case False
    then have "count_loop U envs n ix = ix" unfolding count_loop.simps [of U envs n ix] by (rule if_not_P)
    then show ?thesis using False "1.prems" scanned_refl [of ix ix envs] by (auto simp: counting_def intro!: exI [of _ n])
  qed
qed

text \<open>The answer is the number of handles of the object when the count ends.\<close>

lemma none_active:
  assumes "ready ix" "iActiveCount ix = 0" "is_object p"
  shows "handles_of p (hmap ix) = 0"
proof -
  obtain Q where t: "table ix Q" using assms(1) by (auto simp: ready_def)
  have "filter (\<lambda>v. v \<ge> 4) (map iObjR (iSlots ix)) = []" using tableD(8) [OF t] assms(2) by (simp add: counted_def slots_with_def filter_map)
  then have "\<not> v \<ge> 4" if "v \<in> set (map iObjR (iSlots ix))" for v using that by (auto simp: filter_empty_conv)
  then have free: "\<not> objr ix i \<ge> 4" if "0 \<le> i" "i < iCount ix" for i
  proof -
    have "nat i < length (iSlots ix)" using that tableD(2,4) [OF t] by linarith
    then have "iSlots ix ! nat i \<in> set (iSlots ix)" by (rule nth_mem)
    then show ?thesis using \<open>\<And>v. v \<in> set (map iObjR (iSlots ix)) \<Longrightarrow> \<not> v \<ge> 4\<close> by simp
  qed
  then have "found ix p (iCount ix) = 0" using free_not_object [OF _ assms(3)] by (auto simp: found_zero not_le)
  then show ?thesis using handles_found [OF assms(3), of ix] by simp
qed

lemma start_monitor:
  assumes "ready ix" "iModCount ix = 255" "s \<noteq> ETerminated"
  shows "ready (ix\<lparr>iState := s, iObj := p, iBoundary := b, iResult := r\<rparr>)"
    "abs_ix (ix\<lparr>iState := s, iObj := p, iBoundary := b, iResult := r\<rparr>) = abs_ix ix"
proof -
  let ?ix = "ix\<lparr>iState := s, iObj := p, iBoundary := b, iResult := r\<rparr>"
  show "ready ?ix" by (rule ready_cong [OF assms(1)]) (use assms in \<open>simp_all add: open_ix_def\<close>)
  have "hmap ?ix = hmap ix" by (rule hmap_cong) simp_all
  then show "abs_ix ?ix = abs_ix ix" by (simp add: abs_ix_def)
qed

lemma end_monitor:
  assumes "ready ix" "iModCount ix = 255"
  shows "ready (ix\<lparr>iState := ENormal\<rparr>)" "abs_ix (ix\<lparr>iState := ENormal\<rparr>) = abs_ix ix"
proof -
  show "ready (ix\<lparr>iState := ENormal\<rparr>)" by (rule ready_cong [OF assms(1)]) (use assms in \<open>simp_all add: open_ix_def\<close>)
  have "hmap (ix\<lparr>iState := ENormal\<rparr>) = hmap ix" by (rule hmap_cong) simp_all
  then show "abs_ix (ix\<lparr>iState := ENormal\<rparr>) = abs_ix ix" by (simp add: abs_ix_def)
qed

lemma scanned_abs: "scanned envs ix ix' \<Longrightarrow> abs_ix ix0 = abs_ix ix \<Longrightarrow> abs_ix ix1 = abs_ix ix' \<Longrightarrow> scanned envs ix0 ix1"
  by (simp add: scanned_def)

lemma ix_Count_exact:
  assumes "ready ix" "iState ix = ENormal" "iModCount ix = 255" "is_object p" "ok_envs envs"
  shows "fst (ix_Count U envs p ix) = int (handles_of p (hmap (snd (ix_Count U envs p ix))))" "scanned envs ix (snd (ix_Count U envs p ix))"
    "ready (snd (ix_Count U envs p ix))" "iState (snd (ix_Count U envs p ix)) = ENormal" "iModCount (snd (ix_Count U envs p ix)) = 255"
proof -
  let ?ix0 = "ix\<lparr>iState := ECounting, iObj := p, iBoundary := 0, iResult := 0\<rparr>"
  have e: "ix\<lparr>iBoundary := 0, iObj := p, iResult := 0, iState := ECounting\<rparr> = ?ix0" by simp
  define ix1 where "ix1 = count_loop U envs 0 ?ix0"
  have eq: "ix_Count U envs p ix = (if iActiveCount ix1 \<noteq> 0 then iResult ix1 else 0, ix1\<lparr>iState := ENormal\<rparr>)"
    unfolding ix_Count_def Let_def e ix1_def using assms(2) by simp
  note st = start_monitor [OF assms(1,3), where s = ECounting and p = p and b = 0 and r = 0]
  obtain Q where "table ix Q" using assms(1) by (auto simp: ready_def)
  then have "counting p 0 ?ix0" using assms(3,4) tableD(3) [of ix Q] by (simp add: counting_def found_def)
  then obtain n where n: "ready ix1" "counting p n ix1" "scanned envs ?ix0 ix1" "n = iCount ix1 \<or> iActiveCount ix1 = 0"
    using count_loop_ok [OF st(1) _ assms(5), where U = U and p = p and n = 0] unfolding ix1_def by auto
  have mc: "iModCount ix1 = 255" using n(2) by (simp add: counting_def)
  note en = end_monitor [OF n(1) mc]
  have hm: "hmap (ix1\<lparr>iState := ENormal\<rparr>) = hmap ix1" using en(2) by (simp add: abs_ix_def)
  show "scanned envs ix (snd (ix_Count U envs p ix))" unfolding eq using scanned_abs [OF n(3), of ix] st(2) en(2) by simp
  show "ready (snd (ix_Count U envs p ix))" "iState (snd (ix_Count U envs p ix)) = ENormal" "iModCount (snd (ix_Count U envs p ix)) = 255"
    unfolding eq using en(1) mc by simp_all
  show "fst (ix_Count U envs p ix) = int (handles_of p (hmap (snd (ix_Count U envs p ix))))"
    unfolding eq using n(2,4) handles_found [OF assms(4), of ix1] none_active [OF n(1) _ assms(4)] hm by (auto simp: counting_def)
qed

section \<open>Looking for an object\<close>

lemma object_found_loop:
  assumes "ready ix" "searching p ix" "iBoundary ix = n" "ok_envs envs" "find_loop U envs n ix = (h, ix')"
  shows "ready ix' \<and> iModCount ix' = 255 \<and> scanned envs ix ix' \<and>
    (h = KErrNotFound \<and> handles_of p (hmap ix') = 0 \<or> h > 0 \<and> (\<exists>x. hmap ix' (key h) = Some (p, x)))"
  using assms
proof (induction U envs n ix rule: find_loop.induct)
  case (1 U envs n ix)
  let ?limit = "min (n + EMaxLockedIter) (iCount ix)"
  let ?hits = "filter (\<lambda>i. Occupant (iSlots ix ! nat i) = iObj ix) [n..?limit - 1]"
  define ix1 where "ix1 = ix\<lparr>iBoundary := ?limit\<rparr>"
  have s: "is_object p" "iState ix = ESearching" "iModCount ix = 255" "iObj ix = p" "0 \<le> n" "n \<le> iCount ix" "found ix p n = 0"
    using "1.prems"(2,3) by (auto simp: searching_def)
  obtain Q where t: "table ix Q" using "1.prems"(1) by (auto simp: ready_def)
  show ?case
  proof (cases "n < iCount ix \<and> iActiveCount ix \<noteq> 0")
    case True
    show ?thesis
    proof (cases ?hits)
      case Nil
      then have eq: "find_loop U envs n ix = find_loop U (tl envs) (iBoundary (others U envs ix1)) (others U envs ix1)"
        using True by (simp add: find_loop.simps [of U envs n ix] Let_def ix1_def)
      have n: "0 \<le> n" "n \<le> ?limit" using s(5) True by auto
      have r1: "ready ix1" using "1.prems"(1) by (rule ready_cong) (use "1.prems"(1) in \<open>simp_all add: ix1_def ready_def open_ix_def\<close>)
      have same: "found ix1 = found ix" by (rule found_cong) (simp add: ix1_def)
      have "found ix p ?limit = 0" using found_extend [OF n, of ix p] s(4,7) Nil by simp
      then have c1: "searching p ix1" using s n unfolding searching_def same by (simp add: ix1_def)
      have first: "list_all ok_act (first_env envs)" "ok_envs (tl envs)" using ok_first [OF "1.prems"(4)] by simp_all
      have g: "ready (others U envs ix1)" "searching p (others U envs ix1)"
        using searched_acts.both.keep_all [OF first(1), of ix1 p U] r1 c1 by (simp_all add: others_first)
      have IH: "ready ix' \<and> iModCount ix' = 255 \<and> scanned (tl envs) (others U envs ix1) ix' \<and>
        (h = KErrNotFound \<and> handles_of p (hmap ix') = 0 \<or> h > 0 \<and> (\<exists>x. hmap ix' (key h) = Some (p, x)))"
        by (rule "1.IH" [OF True refl Nil refl, folded ix1_def, OF g refl first(2)]) (use "1.prems"(5) eq in simp)
      have "hmap ix1 = hmap ix" by (rule hmap_cong) (simp_all add: ix1_def)
      then have "abs_ix ix1 = abs_ix ix" by (simp add: abs_ix_def ix1_def)
      then have "scanned envs ix ix'" by (rule scanned_step [OF _ r1 "1.prems"(4)]) (use IH in blast)
      then show ?thesis using IH by blast
    next
      case (Cons i rest)
      then have "i \<in> set ?hits" by simp
      then have i: "0 \<le> i" "i < iCount ix" "objr ix i AND 0xfffffffc = p" using s(4,5) by (auto simp: Occupant_def)
      have eq: "ix' = ix" "h = MakeHandle i (attr ix i)"
        using True Cons "1.prems"(5) by (auto simp: find_loop.simps [of U envs n ix] Let_def)
      have occ: "objr ix i \<ge> 4" unfolding occupied_iff using i(3) s(1) by (simp add: is_object_def)
      have al: "i < iAllocated ix" "i < 32768" using i(2) tableD(4,5) [OF t] by simp_all
      have inst: "attr ix i AND 0x3FFF \<noteq> 0" using tableD(10) [OF t] i(1) al(1) occ by (simp add: instanced_def)
      have "MakeHandle i (attr ix i) = MakeHandle i (attr ix i AND 0x3FFF)" by (simp add: MakeHandle_def and.assoc)
      then have k: "key h = (i, attr ix i AND 0x3FFF)" "h > 0"
        using key_Make [OF i(1) al(2) _ inst] unfolding eq(2) by (simp_all add: and.assoc)
      have "hmap ix (key h) = Some (p, push_bit 31 (objr ix i) OR drop_bit 20 (attr ix i))" unfolding k(1) hmap_def using i occ by simp
      then show ?thesis using k(2) eq(1) "1.prems"(1) s(3) scanned_refl [of ix ix envs] by auto
    qed
  next
    case False
    then have "find_loop U envs n ix = (KErrNotFound, ix)" unfolding find_loop.simps [of U envs n ix] by (rule if_not_P)
    moreover have "handles_of p (hmap ix) = 0"
      using False none_active [OF "1.prems"(1) _ s(1)] handles_found [OF s(1), of ix] s(6,7) by (cases "n = iCount ix") auto
    ultimately show ?thesis using "1.prems"(1,5) s(3) scanned_refl [of ix ix envs] by auto
  qed
qed

text \<open>The handle found leads to the object, and none is found only when there is none.\<close>

lemma ix_At_object_exact:
  assumes "ready ix" "iState ix = ENormal" "iModCount ix = 255" "is_object p" "ok_envs envs" "ix_At_object U envs p ix = (h, ix')"
  shows "h = KErrNotFound \<and> handles_of p (hmap ix') = 0 \<or> h > 0 \<and> (\<exists>x. hmap ix' (key h) = Some (p, x))"
    "scanned envs ix ix'" "ready ix'" "iState ix' = ENormal" "iModCount ix' = 255"
proof -
  let ?ix0 = "ix\<lparr>iState := ESearching, iObj := p, iBoundary := 0\<rparr>"
  have e: "?ix0 = ix\<lparr>iState := ESearching, iObj := p, iBoundary := 0, iResult := iResult ix\<rparr>" by simp
  obtain h1 ix1 where l: "find_loop U envs 0 ?ix0 = (h1, ix1)" by (cases "find_loop U envs 0 ?ix0")
  have eq: "h = h1" "ix' = ix1\<lparr>iState := ENormal\<rparr>" using assms(2,6) l by (simp_all add: ix_At_object_def)
  note st = start_monitor [OF assms(1,3), where s = ESearching and p = p and b = 0 and r = "iResult ix", folded e]
  obtain Q where "table ix Q" using assms(1) by (auto simp: ready_def)
  then have "searching p ?ix0" using assms(3,4) tableD(3) [of ix Q] by (simp add: searching_def found_def)
  then have n: "ready ix1" "iModCount ix1 = 255" "scanned envs ?ix0 ix1"
    "h1 = KErrNotFound \<and> handles_of p (hmap ix1) = 0 \<or> h1 > 0 \<and> (\<exists>x. hmap ix1 (key h1) = Some (p, x))"
    using object_found_loop [OF st(1) _ _ assms(5) l, of p] by auto
  note en = end_monitor [OF n(1,2)]
  have hm: "hmap ix' = hmap ix1" using en(2) eq by (simp add: abs_ix_def)
  show "scanned envs ix ix'" unfolding eq using scanned_abs [OF n(3), of ix] st(2) en(2) by simp
  show "ready ix'" "iState ix' = ENormal" "iModCount ix' = 255" unfolding eq using en(1) n(2) by simp_all
  show "h = KErrNotFound \<and> handles_of p (hmap ix') = 0 \<or> h > 0 \<and> (\<exists>x. hmap ix' (key h) = Some (p, x))"
    unfolding hm unfolding eq using n(4) by blast
qed

end
