(* ===== verification/Objix_Sweep.thy ===== *)
theory Objix_Sweep
  imports Objix_Scan
begin

text \<open>
  The scan of \<open>TidyAndCompact\<close>: what one step does to the queues, and what stays true over the
  whole scan, whatever other threads do between the steps.
\<close>

section \<open>Moving free slots between queues\<close>

lemma table_regroup:
  assumes "table ix Q" "rings main ix' Q'" "length (iSlots ix') = length (iSlots ix)" "iAllocated ix' = iAllocated ix" "iCount ix' = iCount ix"
    "iActiveCount ix' = iActiveCount ix" "iReservedTotal ix' = iReservedTotal ix" "iReservedFree ix' = iReservedFree ix"
    "NextInstance ix' = NextInstance ix" "\<And>i. 0 \<le> i \<Longrightarrow> i < iAllocated ix \<Longrightarrow> attr ix' i = attr ix i"
    "\<And>i. 0 \<le> i \<Longrightarrow> i < iAllocated ix \<Longrightarrow> objr ix i \<ge> 4 \<or> objr ix' i \<ge> 4 \<Longrightarrow> objr ix' i = objr ix i"
    "slots_with (\<lambda>v. v \<ge> 4) ix' = slots_with (\<lambda>v. v \<ge> 4) ix" "slots_with (\<lambda>v. v AND 1 \<noteq> 0) ix' = slots_with (\<lambda>v. v AND 1 \<noteq> 0) ix"
    "queued ix' Q'" "unused_last ix' Q'" "length (Q' EQRsvd) + length (Q' EQAltRsvd) = length (Q EQRsvd) + length (Q EQAltRsvd)"
  shows "table ix' Q'" "hmap ix' = hmap ix"
proof -
  have "counted ix' Q'" using tableD(8) [OF assms(1)] arg_cong [OF assms(16), of int] unfolding counted_def assms(6-8,12,13) by simp
  moreover have "instanced ix'" using tableD(10) [OF assms(1)] assms(10,11) unfolding instanced_def assms(4) by metis
  ultimately show "table ix' Q'" using assms(1-5,9,14,15) by (simp add: table_def)
  show "hmap ix' = hmap ix"
  proof (rule ext, clarify)
    fix i w
    have "objr ix' i \<ge> 4 \<longleftrightarrow> objr ix i \<ge> 4" "objr ix i \<ge> 4 \<Longrightarrow> objr ix' i = objr ix i" "attr ix' i = attr ix i" if "0 \<le> i" "i < iCount ix"
      using assms(10,11) [of i] that tableD(4) [OF assms(1)] by auto
    then show "hmap ix' (i, w) = hmap ix (i, w)" by (auto simp: hmap_def assms(5))
  qed
qed

lemma keeps_regroup:
  assumes "table ix Q" "keeps ix ix'" "rings main ix' Q'" "unused_last ix' Q'"
    "set (Q' EQFree) \<union> set (Q' EQAltFree) = set (Q EQFree) \<union> set (Q EQAltFree)"
    "set (Q' EQRsvd) \<union> set (Q' EQAltRsvd) = set (Q EQRsvd) \<union> set (Q EQAltRsvd)"
    "length (Q' EQRsvd) + length (Q' EQAltRsvd) = length (Q EQRsvd) + length (Q EQAltRsvd)"
  shows "table ix' Q'" "hmap ix' = hmap ix"
proof -
  note k = keepsD [OF assms(2)]
  have s: "objr ix' i = objr ix i" "attr ix' i = attr ix i" if "0 \<le> i" "i < iAllocated ix" for i
    using keeps_slots [OF assms(2), of i] that tableD(2) [OF assms(1)] by simp_all
  have "queued ix' Q'" unfolding queued_def k(1) assms(5,6)
  proof (intro allI impI)
    fix i
    assume i: "0 \<le> i \<and> i < iAllocated ix"
    then have e: "objr ix' i = objr ix i" using s(1) by blast
    show "(objr ix' i = 0 \<longleftrightarrow> i \<in> set (Q EQFree) \<union> set (Q EQAltFree)) \<and>
      (objr ix' i = 1 \<longleftrightarrow> i \<in> set (Q EQRsvd) \<union> set (Q EQAltRsvd)) \<and> (objr ix' i < 4 \<longrightarrow> objr ix' i = 0 \<or> objr ix' i = 1)"
      unfolding e using tableD(6) [OF assms(1)] i unfolding queued_def by blast
  qed
  moreover have "slots_with P ix' = slots_with P ix" for P by (simp only: slots_with_def keeps_maps(1) [OF assms(2)])
  ultimately show "table ix' Q'" "hmap ix' = hmap ix"
    using table_regroup [OF assms(1,3) k(11,1,2,3,5,4,10) s(2)] s(1) assms(4,7) by blast+
qed

lemma unused_moved:
  assumes "unused_last ix Q" "i < iCount ix" "Q EQFree = X @ i # Y" "iCount ix' = iCount ix" "iAllocated ix' = iAllocated ix"
    "Q' EQFree = X @ Y" "set (Q' EQAltFree) \<union> set (Q' EQRsvd) \<union> set (Q' EQAltRsvd) \<subseteq> {i} \<union> set (Q EQAltFree) \<union> set (Q EQRsvd) \<union> set (Q EQAltRsvd)"
  shows "unused_last ix' Q'"
proof -
  obtain U where U: "Q EQFree = U @ [iCount ix..iAllocated ix - 1]"
    "\<forall>j \<in> set U \<union> set (Q EQAltFree) \<union> set (Q EQRsvd) \<union> set (Q EQAltRsvd). j < iCount ix"
    using assms(1) unfolding unused_last_def by blast
  have "i \<in> set U" using U(1) assms(2,3) by (metis atLeastAtMost_iff in_set_conv_decomp not_le set_append Un_iff set_upto)
  have "\<exists>V. Y = V @ [iCount ix..iAllocated ix - 1] \<and> U = X @ i # V"
  proof -
    have e: "X @ i # Y = U @ [iCount ix..iAllocated ix - 1]" using assms(3) U(1) by simp
    then consider V where "U = X @ V" "i # Y = V @ [iCount ix..iAllocated ix - 1]" | V where "X = U @ V" "V @ i # Y = [iCount ix..iAllocated ix - 1]"
      by (auto simp: append_eq_append_conv2)
    then show ?thesis
    proof cases
      case 1
      show ?thesis
      proof (cases V)
        case Nil
        then have "i \<in> set [iCount ix..iAllocated ix - 1]" using 1(2) by (metis append_Nil list.set_intros(1))
        then show ?thesis using assms(2) by simp
      next
        case (Cons v V')
        then show ?thesis using 1 by auto
      qed
    next
      case 2
      then have "i \<in> set [iCount ix..iAllocated ix - 1]" by (metis in_set_conv_decomp)
      then show ?thesis using assms(2) by simp
    qed
  qed
  then obtain V where V: "Y = V @ [iCount ix..iAllocated ix - 1]" "U = X @ i # V" by blast
  have "\<forall>j \<in> set (X @ V) \<union> set (Q' EQAltFree) \<union> set (Q' EQRsvd) \<union> set (Q' EQAltRsvd). j < iCount ix"
  proof
    fix j
    assume "j \<in> set (X @ V) \<union> set (Q' EQAltFree) \<union> set (Q' EQRsvd) \<union> set (Q' EQAltRsvd)"
    then have "j \<in> set U \<union> set (Q EQAltFree) \<union> set (Q EQRsvd) \<union> set (Q EQAltRsvd) \<or> j = i" using assms(7) V(2) by auto
    then show "j < iCount ix" using U(2) assms(2) by blast
  qed
  moreover have "Q' EQFree = (X @ V) @ [iCount ix..iAllocated ix - 1]" using assms(6) V(1) by simp
  ultimately show ?thesis unfolding unused_last_def assms(4,5) by blast
qed

lemma unused_same:
  assumes "unused_last ix Q" "iCount ix' = iCount ix" "iAllocated ix' = iAllocated ix" "Q' EQFree = Q EQFree"
    "set (Q' EQAltFree) \<union> set (Q' EQRsvd) \<union> set (Q' EQAltRsvd) \<subseteq> set (Q EQAltFree) \<union> set (Q EQRsvd) \<union> set (Q EQAltRsvd)"
  shows "unused_last ix' Q'"
proof -
  obtain U where U: "Q EQFree = U @ [iCount ix..iAllocated ix - 1]"
    "\<forall>j \<in> set U \<union> set (Q EQAltFree) \<union> set (Q EQRsvd) \<union> set (Q EQAltRsvd). j < iCount ix"
    using assms(1) unfolding unused_last_def by blast
  then have "\<forall>j \<in> set U \<union> set (Q' EQAltFree) \<union> set (Q' EQRsvd) \<union> set (Q' EQAltRsvd). j < iCount ix" using assms(5) by blast
  then show ?thesis using U(1) unfolding unused_last_def assms(2-4) by blast
qed

text \<open>The two states have the same fields apart from the table and the queues.\<close>

definition same_fields :: "RObjectIx \<Rightarrow> RObjectIx \<Rightarrow> bool" where
  "same_fields ix ix' \<longleftrightarrow> ix'\<lparr>iFreeQ := [], iSlots := []\<rparr> = ix\<lparr>iFreeQ := [], iSlots := []\<rparr>"

lemma relinked_fields: "relinked ix ix' \<Longrightarrow> same_fields ix ix'"
  by (simp only: relinked_def same_fields_def)

lemma set_objr_fields: "same_fields ix (set_objr i v ix)"
  by (simp add: same_fields_def set_objr_def)

lemma fields_trans: "same_fields ix ix' \<Longrightarrow> same_fields ix' ix'' \<Longrightarrow> same_fields ix ix''"
  by (simp add: same_fields_def)

lemma fieldsD:
  assumes "same_fields ix ix'"
  shows "iAllocated ix' = iAllocated ix" "iCount ix' = iCount ix" "iActiveCount ix' = iActiveCount ix" "iReservedFree ix' = iReservedFree ix"
    "iReservedTotal ix' = iReservedTotal ix" "iReservedFreeHWM ix' = iReservedFreeHWM ix" "iAmortize ix' = iAmortize ix"
    "iState ix' = iState ix" "iModCount ix' = iModCount ix" "iModListShift ix' = iModListShift ix" "iBoundary ix' = iBoundary ix"
    "iResult ix' = iResult ix" "iObj ix' = iObj ix" "NextInstance ix' = NextInstance ix"
  using assms unfolding same_fields_def by (cases ix; cases ix'; simp)+

section \<open>One slot of the scan\<close>

text \<open>A free slot that is not reserved moves to the alternate queue.\<close>

lemma tidy_free_normal:
  assumes "table ix Q" "0 \<le> pos s" "pos s < iCount ix" "objr ix (pos s) = 0" "pos s \<notin> set (Q EQAltFree)" "iModCount ix = 255"
  obtains X Y ix' where "tidy_free s ix = (s\<lparr>pos := pos s + 1\<rparr>, ix')" "Q EQFree = X @ pos s # Y"
    "table ix' (Q(EQFree := X @ Y, EQAltFree := Q EQAltFree @ [pos s]))" "hmap ix' = hmap ix" "same_fields ix ix'" "\<forall>j. 0 \<le> j \<and> j < iAllocated ix \<longrightarrow> objr ix' j = objr ix j"
proof -
  let ?i = "pos s"
  have r: "rings main ix Q" by (rule tableD(1) [OF assms(1)])
  have al: "?i < iAllocated ix" using assms(3) tableD(4) [OF assms(1)] by simp
  then have "?i \<in> set (Q EQFree)" using tableD(6) [OF assms(1)] assms(2,4,5) unfolding queued_def by auto
  then obtain X Y where XY: "Q EQFree = X @ ?i # Y" by (meson split_list)
  have m: "EQFree \<in> main" "EQAltFree \<in> main" by simp_all
  let ?d = "Dequeue ?i ix" and ?Q1 = "Q(EQFree := X @ Y)"
  have d: "rings main ?d ?Q1" "keeps ix ?d" using Dequeue_rings [OF r m(1) XY] by simp_all
  have off: "?i \<notin> set (?Q1 q)" if "q \<in> main" for q
    using ringsD(3) [OF r m(1)] ringsD(5) [OF r m(1) that, of ?i] XY by (cases "q = EQFree") auto
  have len: "?i < int (length (iSlots ?d))" using al tableD(2) [OF assms(1)] keepsD(11) [OF d(2)] by simp
  let ?t = "AddTail EQAltFree ?i ?d" and ?Q' = "Q(EQFree := X @ Y, EQAltFree := Q EQAltFree @ [?i])"
  have t: "rings main ?t ?Q'" "keeps ?d ?t" using AddTail_rings [where Q = ?Q1, OF d(1) m(2) assms(2) len off] by simp_all
  have k: "keeps ix ?t" by (rule keeps_trans [OF d(2) t(2)])
  have u: "unused_last ?t ?Q'"
    by (rule unused_moved [OF tableD(7) [OF assms(1)] assms(3) XY keepsD(2,1) [OF k]]) auto
  have "\<not> IsReserved (iSlots ix ! nat ?i)" using assms(4) by (simp add: IsReserved_def)
  then have "tidy_free s ix = (s\<lparr>pos := ?i + 1\<rparr>, ?t)" by (simp add: tidy_free_def)
  moreover have "table ?t ?Q'" "hmap ?t = hmap ix"
    using keeps_regroup [OF assms(1) k t(1) u] XY by auto
  moreover have "same_fields ix ?t" using k assms(6) by (simp add: keeps_def relinked_fields)
  moreover have "objr ?t j = objr ix j" if "0 \<le> j" "j < iAllocated ix" for j
    using keeps_slots(1) [OF k that(1)] that(2) tableD(2) [OF assms(1)] by simp
  ultimately show ?thesis using that XY by blast
qed

text \<open>A free reserved slot moves to its alternate queue, when no free slot was passed before.\<close>

lemma tidy_free_reserved:
  assumes "table ix Q" "0 \<le> pos s" "pos s < iCount ix" "objr ix (pos s) = 1" "pos s \<notin> set (Q EQAltRsvd)" "iModCount ix = 255" "Q EQAltFree = []"
  obtains X Y ix' where "tidy_free s ix = (s\<lparr>rfhwm := max (rfhwm s) (pos s + 1), hwm := max (hwm s) (pos s),
      rsvd_remain := rsvd_remain s - 1, pos := pos s + 1\<rparr>, ix')" "Q EQRsvd = X @ pos s # Y"
    "table ix' (Q(EQRsvd := X @ Y, EQAltRsvd := Q EQAltRsvd @ [pos s]))" "hmap ix' = hmap ix" "same_fields ix ix'" "\<forall>j. 0 \<le> j \<and> j < iAllocated ix \<longrightarrow> objr ix' j = objr ix j"
proof -
  let ?i = "pos s"
  have r: "rings main ix Q" by (rule tableD(1) [OF assms(1)])
  have al: "?i < iAllocated ix" using assms(3) tableD(4) [OF assms(1)] by simp
  then have "?i \<in> set (Q EQRsvd)" using tableD(6) [OF assms(1)] assms(2,4,5) unfolding queued_def by auto
  then obtain X Y where XY: "Q EQRsvd = X @ ?i # Y" by (meson split_list)
  have m: "EQRsvd \<in> main" "EQAltRsvd \<in> main" "EQAltFree \<in> main" by simp_all
  let ?d = "Dequeue ?i ix" and ?Q1 = "Q(EQRsvd := X @ Y)"
  have d: "rings main ?d ?Q1" "keeps ix ?d" using Dequeue_rings [OF r m(1) XY] by simp_all
  have off: "?i \<notin> set (?Q1 q)" if "q \<in> main" for q
    using ringsD(3) [OF r m(1)] ringsD(5) [OF r m(1) that, of ?i] XY by (cases "q = EQRsvd") auto
  have len: "?i < int (length (iSlots ?d))" using al tableD(2) [OF assms(1)] keepsD(11) [OF d(2)] by simp
  let ?t = "AddTail EQAltRsvd ?i ?d" and ?Q' = "Q(EQRsvd := X @ Y, EQAltRsvd := Q EQAltRsvd @ [?i])"
  have t: "rings main ?t ?Q'" "keeps ?d ?t" using AddTail_rings [where Q = ?Q1, OF d(1) m(2) assms(2) len off] by simp_all
  have k: "keeps ix ?t" by (rule keeps_trans [OF d(2) t(2)])
  have u: "unused_last ?t ?Q'"
    by (rule unused_same [OF tableD(7) [OF assms(1)] keepsD(2,1) [OF k]]) (use XY in auto)
  have "IsReserved (iSlots ix ! nat ?i)" using assms(4) by (simp add: IsReserved_def)
  moreover have "link_next ?d EQAltFree = EQAltFree" using rings_next [OF d(1) m(3)] assms(7) by simp
  ultimately have "tidy_free s ix = (s\<lparr>rfhwm := max (rfhwm s) (?i + 1), hwm := max (hwm s) ?i,
      rsvd_remain := rsvd_remain s - 1, pos := ?i + 1\<rparr>, ?t)"
    by (auto simp: tidy_free_def Let_def)
  moreover have "table ?t ?Q'" "hmap ?t = hmap ix"
    using keeps_regroup [OF assms(1) k t(1) u] XY by auto
  moreover have "same_fields ix ?t" using k assms(6) by (simp add: keeps_def relinked_fields)
  moreover have "objr ?t j = objr ix j" if "0 \<le> j" "j < iAllocated ix" for j
    using keeps_slots(1) [OF k that(1)] that(2) tableD(2) [OF assms(1)] by simp
  ultimately show ?thesis using that XY by blast
qed

text \<open>A free reserved slot changes places with the first free slot passed before.\<close>

lemma tidy_free_substitute:
  assumes "table ix Q" "0 \<le> pos s" "pos s < iCount ix" "objr ix (pos s) = 1" "pos s \<notin> set (Q EQAltRsvd)" "iModCount ix = 255" "Q EQAltFree = a # A"
  obtains X Y ix' where "tidy_free s ix = (s\<lparr>rfhwm := max (rfhwm s) (a + 1), hwm := max (hwm s) a,
      rsvd_remain := rsvd_remain s - 1, pos := pos s + 1\<rparr>, ix')" "Q EQRsvd = X @ pos s # Y"
    "table ix' (Q(EQRsvd := X @ Y, EQAltRsvd := Q EQAltRsvd @ [a], EQAltFree := A @ [pos s]))" "hmap ix' = hmap ix" "same_fields ix ix'"
    "\<forall>j. 0 \<le> j \<and> j < iAllocated ix \<longrightarrow> objr ix' j = (if j = pos s then 0 else if j = a then 1 else objr ix j)"
proof -
  let ?i = "pos s"
  have r: "rings main ix Q" by (rule tableD(1) [OF assms(1)])
  have al: "?i < iAllocated ix" using assms(3) tableD(4) [OF assms(1)] by simp
  then have "?i \<in> set (Q EQRsvd)" using tableD(6) [OF assms(1)] assms(2,4,5) unfolding queued_def by auto
  then obtain X Y where XY: "Q EQRsvd = X @ ?i # Y" by (meson split_list)
  have m: "EQRsvd \<in> main" "EQAltRsvd \<in> main" "EQAltFree \<in> main" by simp_all
  have aQ: "a \<in> set (Q EQAltFree)" using assms(7) by simp
  have a: "0 \<le> a" "a < iAllocated ix" "objr ix a = 0" "a < iCount ix" using table_queue [OF assms(1) m(3) aQ] by simp_all
  have ne: "a \<noteq> ?i" using a(3) assms(4) by auto
  let ?Q1 = "Q(EQRsvd := X @ Y)" and ?Q2 = "Q(EQRsvd := X @ Y, EQAltFree := A)"
  let ?Q3 = "Q(EQRsvd := X @ Y, EQAltFree := A, EQAltRsvd := Q EQAltRsvd @ [a])"
  let ?Q4 = "Q(EQRsvd := X @ Y, EQAltRsvd := Q EQAltRsvd @ [a], EQAltFree := A @ [?i])"
  define d1 where "d1 = Dequeue ?i ix"
  have r1: "rings main d1 ?Q1" "keeps ix d1" using Dequeue_rings [OF r m(1) XY] by (simp_all add: d1_def)
  have sub: "link_next d1 EQAltFree = a" using rings_next [OF r1(1) m(3)] assms(7) by simp
  define d2 where "d2 = Dequeue a d1"
  have Q1A: "?Q1 EQAltFree = [] @ a # A" using assms(7) by simp
  have r2: "rings main d2 ?Q2" "keeps d1 d2" using Dequeue_rings [where Q = ?Q1, OF r1(1) m(3) Q1A] by (simp_all add: d2_def)
  have k2: "keeps ix d2" by (rule keeps_trans [OF r1(2) r2(2)])
  have len: "length (iSlots d2) = length (iSlots ix)" by (rule keepsD(11) [OF k2])
  have il: "?i < int (length (iSlots ix))" "a < int (length (iSlots ix))" using al a(2) tableD(2) [OF assms(1)] by simp_all
  have off2: "a \<notin> set (?Q2 q)" "?i \<notin> set (?Q2 q)" if "q \<in> main" for q
  proof -
    show "a \<notin> set (?Q2 q)"
      using ringsD(3) [OF r m(3)] ringsD(5) [OF r m(3) that, of a] ringsD(5) [OF r m(3,1), of a] assms(7) XY by (cases "q = EQAltFree"; cases "q = EQRsvd") auto
    show "?i \<notin> set (?Q2 q)"
      using ringsD(3) [OF r m(1)] ringsD(5) [OF r m(1) that, of ?i] ringsD(5) [OF r m(1,3), of ?i] assms(7) XY by (cases "q = EQAltFree"; cases "q = EQRsvd") auto
  qed
  define d3 where "d3 = set_objr a 1 d2"
  have r3: "rings main d3 ?Q2" using r2(1) by (simp add: d3_def)
  have p3: "slot_put ix a (attr ix a) 1 d3" unfolding d3_def by (rule fill_slot_put(2) [OF refl k2 a(1) il(2) refl])
  define d4 where "d4 = AddTail EQAltRsvd a d3"
  have l3: "a < int (length (iSlots d3))" using il(2) len by (simp add: d3_def)
  have r4: "rings main d4 ?Q3" "keeps d3 d4"
    using AddTail_rings [where Q = ?Q2, OF r3 m(2) a(1) l3 off2(1)] by (simp_all add: d4_def)
  have p4: "slot_put ix a (attr ix a) 1 d4" by (rule slot_put_keeps [OF p3 r4(2)])
  note s4 = slot_putD [OF p4 a(1) il(2)]
  define d5 where "d5 = set_objr ?i 0 d4"
  have r5: "rings main d5 ?Q3" using r4(1) by (simp add: d5_def)
  have l4: "?i < int (length (iSlots d4))" using il(1) s4(1) by simp
  have p5: "slot_put d4 ?i (attr d4 ?i) 0 d5" unfolding d5_def by (rule fill_slot_put(2) [OF refl keeps_refl assms(2) l4 refl])
  define d6 where "d6 = AddTail EQAltFree ?i d5"
  have l5: "?i < int (length (iSlots d5))" using l4 by (simp add: d5_def)
  have off3: "?i \<notin> set (?Q3 q)" if "q \<in> main" for q using off2(2) [OF that] off2(2) [OF m(2)] ne by (cases "q = EQAltRsvd") auto
  have r6: "rings main d6 (?Q3(EQAltFree := ?Q3 EQAltFree @ [?i]))" "keeps d5 d6"
    using AddTail_rings [where Q = ?Q3, OF r5 m(3) assms(2) l5 off3] by (simp_all add: d6_def)
  have Q4: "?Q3(EQAltFree := ?Q3 EQAltFree @ [?i]) = ?Q4" by (auto simp: fun_eq_iff)
  have p6: "slot_put d4 ?i (attr d4 ?i) 0 d6" by (rule slot_put_keeps [OF p5 r6(2)])
  note s6 = slot_putD [OF p6 assms(2) l4]
  have at: "attr d6 j = attr ix j" if "0 \<le> j" "j < iAllocated ix" for j
    using s6(4) [of j] s4(4) [of j] s4(1) that tableD(2) [OF assms(1)] by auto
  have ob: "objr d6 j = (if j = ?i then 0 else if j = a then 1 else objr ix j)" if "0 \<le> j" "j < iAllocated ix" for j
    using s6(3) [of j] s4(3) [of j] s4(1) that tableD(2) [OF assms(1)] by auto
  have o4: "objr d4 ?i = 1" using s4(3) [OF assms(2) il(1)] ne assms(4) by simp
  have sw: "slots_with P d6 = slots_with P ix - of_bool (P (objr ix a)) + of_bool (P 0)" for P
    using slots_with_update [of d4 ix a 1 P] slots_with_update [of d6 d4 ?i 0 P] p4 p6 a(1) il(2) assms(2) l4 o4 by (simp add: slot_put_def)
  have f2: "same_fields ix d2" using k2 assms(6) by (simp add: keeps_def relinked_fields)
  have f3: "same_fields ix d3" unfolding d3_def by (rule fields_trans [OF f2 set_objr_fields])
  have f4: "same_fields ix d4"
    by (rule fields_trans [OF f3 relinked_fields]) (use r4(2) fieldsD(9) [OF f3] assms(6) in \<open>simp add: keeps_def\<close>)
  have f5: "same_fields ix d5" unfolding d5_def by (rule fields_trans [OF f4 set_objr_fields])
  have f6: "same_fields ix d6"
    by (rule fields_trans [OF f5 relinked_fields]) (use r6(2) fieldsD(9) [OF f5] assms(6) in \<open>simp add: keeps_def\<close>)
  note f = fieldsD [OF f6]
  have "IsReserved (iSlots ix ! nat ?i)" using assms(4) by (simp add: IsReserved_def)
  then have "tidy_free s ix = (s\<lparr>rfhwm := max (rfhwm s) (a + 1), hwm := max (hwm s) a, rsvd_remain := rsvd_remain s - 1, pos := ?i + 1\<rparr>, d6)"
    using sub a(1) by (auto simp: tidy_free_def Let_def d1_def [symmetric] d2_def [symmetric] d3_def [symmetric] d4_def [symmetric] d5_def [symmetric] d6_def [symmetric])
  moreover have "table d6 ?Q4" "hmap d6 = hmap ix"
  proof -
    have u: "unused_last d6 ?Q4"
      by (rule unused_same [OF tableD(7) [OF assms(1)] f(2,1)]) (use XY assms(7) in auto)
    have q: "queued d6 ?Q4" unfolding queued_def f(1)
    proof (intro allI impI)
      fix j
      assume j: "0 \<le> j \<and> j < iAllocated ix"
      have old: "(objr ix j = 0 \<longleftrightarrow> j \<in> set (Q EQFree) \<union> set (Q EQAltFree)) \<and>
        (objr ix j = 1 \<longleftrightarrow> j \<in> set (Q EQRsvd) \<union> set (Q EQAltRsvd)) \<and> (objr ix j < 4 \<longrightarrow> objr ix j = 0 \<or> objr ix j = 1)"
        using tableD(6) [OF assms(1)] j unfolding queued_def by blast
      have n: "a \<notin> set (Q EQFree)" "?i \<notin> set (Q EQAltRsvd)" "?i \<notin> set X" "?i \<notin> set Y" "a \<notin> set A" "?i \<notin> set (Q EQFree)" "?i \<notin> set A"
        using off2(1) [of EQFree] off2(1) [of EQAltFree] off2(2) [of EQAltRsvd] off2(2) [of EQRsvd] off2(2) [of EQFree] off2(2) [of EQAltFree] by simp_all
      have n2: "a \<notin> set X" "a \<notin> set Y" "a \<notin> set (Q EQAltRsvd)" using off2(1) [of EQRsvd] off2(1) [of EQAltRsvd] by simp_all
      show "(objr d6 j = 0 \<longleftrightarrow> j \<in> set (?Q4 EQFree) \<union> set (?Q4 EQAltFree)) \<and>
        (objr d6 j = 1 \<longleftrightarrow> j \<in> set (?Q4 EQRsvd) \<union> set (?Q4 EQAltRsvd)) \<and> (objr d6 j < 4 \<longrightarrow> objr d6 j = 0 \<or> objr d6 j = 1)"
      proof (cases "j = ?i \<or> j = a")
        case True
        then show ?thesis using ob [of j] j n n2 ne by auto
      next
        case False
        then have e: "objr d6 j = objr ix j" using ob [of j] j by simp
        have mem: "j \<in> set (?Q4 EQFree) \<union> set (?Q4 EQAltFree) \<longleftrightarrow> j \<in> set (Q EQFree) \<union> set (Q EQAltFree)"
          "j \<in> set (?Q4 EQRsvd) \<union> set (?Q4 EQAltRsvd) \<longleftrightarrow> j \<in> set (Q EQRsvd) \<union> set (Q EQAltRsvd)" using False XY assms(7) by auto
        show ?thesis unfolding e mem by (rule old)
      qed
    qed
    have len6: "length (iSlots d6) = length (iSlots ix)" using s6(1) s4(1) by simp
    have occ: "objr d6 j = objr ix j" if "0 \<le> j" "j < iAllocated ix" "objr ix j \<ge> 4 \<or> objr d6 j \<ge> 4" for j
      using ob [OF that(1,2)] that(3) a(3) assms(4) by (auto split: if_splits)
    show "table d6 ?Q4" "hmap d6 = hmap ix"
      using table_regroup [OF assms(1) r6(1) [unfolded Q4] len6 f(1,2,3,5,4,14) at occ _ _ q u] sw a(3) XY by auto
  qed
  ultimately show ?thesis using that XY f6 ob by blast
qed

section \<open>What stays true during the scan\<close>

definition reserved_from :: "RObjectIx \<Rightarrow> int \<Rightarrow> int" where
  "reserved_from ix n = int (length (filter (\<lambda>i. objr ix i AND 1 \<noteq> 0) [n..iAllocated ix - 1]))"

lemma reserved_from_step:
  assumes "n < iAllocated ix"
  shows "reserved_from ix n = reserved_from ix (n + 1) + of_bool (objr ix n AND 1 \<noteq> 0)"
  using assms by (simp add: reserved_from_def upto_rec1)

lemma reserved_from_cong:
  assumes "iAllocated ix' = iAllocated ix" "\<And>i. 0 \<le> i \<Longrightarrow> i < iAllocated ix \<Longrightarrow> n \<le> i \<Longrightarrow> objr ix' i AND 1 \<noteq> 0 \<longleftrightarrow> objr ix i AND 1 \<noteq> 0" "0 \<le> n"
  shows "reserved_from ix' n = reserved_from ix n"
proof -
  have "filter (\<lambda>i. objr ix' i AND 1 \<noteq> 0) [n..iAllocated ix - 1] = filter (\<lambda>i. objr ix i AND 1 \<noteq> 0) [n..iAllocated ix - 1]"
    by (rule filter_cong [OF refl]) (use assms(2,3) in auto)
  then show ?thesis by (simp only: reserved_from_def assms(1))
qed

text \<open>
  The slots below \<open>pos\<close> are scanned. Those in the alternate queue of free slots are in order; all others
  of them lie below the mark that becomes the new \<open>iCount\<close>; the free reserved ones lie below the mark of
  those. When nothing else runs, the two alternate queues hold the free slots, the lowest reserved.
\<close>

definition marks :: "tidy_scan \<Rightarrow> (int \<Rightarrow> int list) \<Rightarrow> RObjectIx \<Rightarrow> bool" where
  "marks s Q ix \<longleftrightarrow> (\<forall>i. 0 \<le> i \<and> i < pos s \<and> i \<notin> set (Q EQAltFree) \<longrightarrow> i \<le> max (hwm s) (iBoundary ix)) \<and>
     max (rfhwm s) (iReservedFreeHWM ix) \<le> max (hwm s) (iBoundary ix) + 1 \<and>
     (\<forall>i. 0 \<le> i \<and> i < pos s \<and> objr ix i = 1 \<longrightarrow> i < max (rfhwm s) (iReservedFreeHWM ix))"

definition tidying :: "bool \<Rightarrow> tidy_scan \<Rightarrow> (int \<Rightarrow> int list) \<Rightarrow> RObjectIx \<Rightarrow> bool" where
  "tidying alone s Q ix \<longleftrightarrow> iState ix = ETidying \<and> iModCount ix = 255 \<and> 0 \<le> pos s \<and> pos s \<le> iCount ix \<and>
     - 1 \<le> iBoundary ix \<and> iBoundary ix < iCount ix \<and> - 1 \<le> hwm s \<and> hwm s < pos s \<and> 0 \<le> rfhwm s \<and> 0 \<le> iReservedFreeHWM ix \<and>
     sorted (Q EQAltFree) \<and> (\<forall>i \<in> set (Q EQAltFree) \<union> set (Q EQAltRsvd). i < pos s) \<and>
     rsvd_remain s = reserved_from ix (pos s) \<and> marks s Q ix \<and>
     (alone \<longrightarrow> Q EQAltRsvd @ Q EQAltFree = filter (\<lambda>i. objr ix i < 4) [0..pos s - 1])"

lemma tidyingD:
  assumes "tidying alone s Q ix"
  shows "iState ix = ETidying" "iModCount ix = 255" "0 \<le> pos s" "pos s \<le> iCount ix" "- 1 \<le> iBoundary ix" "iBoundary ix < iCount ix"
    "- 1 \<le> hwm s" "hwm s < pos s" "0 \<le> rfhwm s" "0 \<le> iReservedFreeHWM ix" "sorted (Q EQAltFree)"
    "i \<in> set (Q EQAltFree) \<union> set (Q EQAltRsvd) \<Longrightarrow> i < pos s" "rsvd_remain s = reserved_from ix (pos s)" "marks s Q ix"
    "alone \<Longrightarrow> Q EQAltRsvd @ Q EQAltFree = filter (\<lambda>i. objr ix i < 4) [0..pos s - 1]"
  using assms by (auto simp: tidying_def)

lemma marksD:
  assumes "marks s Q ix"
  shows "0 \<le> i \<Longrightarrow> i < pos s \<Longrightarrow> i \<notin> set (Q EQAltFree) \<Longrightarrow> i \<le> max (hwm s) (iBoundary ix)"
    "max (rfhwm s) (iReservedFreeHWM ix) \<le> max (hwm s) (iBoundary ix) + 1"
    "0 \<le> i \<Longrightarrow> i < pos s \<Longrightarrow> objr ix i = 1 \<Longrightarrow> i < max (rfhwm s) (iReservedFreeHWM ix)"
  using assms unfolding marks_def by blast+

text \<open>Other threads.\<close>

definition tidy_open :: "tidy_scan \<Rightarrow> RObjectIx \<Rightarrow> bool" where
  "tidy_open s ix \<longleftrightarrow> (\<exists>Q. table ix Q \<and> tidying False s Q ix) \<and> iResult ix = pos s"

lemma tidy_add:
  assumes "tidy_open s ix" "is_object p"
  shows "tidy_open s (snd (snd (DoAdd U p a ix)))"
proof -
  obtain Q where t: "table ix Q" "tidying False s Q ix" and res: "iResult ix = pos s" using assms(1) by (auto simp: tidy_open_def)
  note T = tidyingD [OF t(2)]
  have st: "iState ix \<noteq> ETerminated" "iModCount ix = 255 \<or> iState ix = ENormal" using T(1,2) by simp_all
  obtain inst nx where g: "GetNextInstanceValue (NextInstance ix) = (inst, nx)" by fastforce
  show ?thesis
  proof (cases "Q (slot_queue a) @ Q (slot_queue a + 1)")
    case Nil
    have "reserved_from (ix\<lparr>NextInstance := nx\<rparr>) n = reserved_from ix n" for n by (simp add: reserved_from_def)
    then have "tidying False s Q (ix\<lparr>NextInstance := nx\<rparr>)" using t(2) by (simp add: tidying_def marks_def)
    then show ?thesis using DoAdd_none [OF t(1) st(1) Nil g] res unfolding tidy_open_def by auto
  next
    case (Cons i rest)
    obtain ix' where s: "DoAdd U p a ix = (MakeHandle i inst, (used_attr U p a inst, used_objr p a), ix')" "table ix' (taken Q (slot_queue a))"
      "slot_put ix i (used_attr U p a inst) (used_objr p a) ix'" "0 \<le> i" "i < iAllocated ix"
      "iCount ix' = max (iCount ix) (i + 1)" "iState ix' = iState ix" "iReservedFreeHWM ix' = iReservedFreeHWM ix"
      "iModCount ix = 255 \<longrightarrow> iModCount ix' = 255 \<and> iBoundary ix' = iBoundary (monitor_add p i ix) \<and>
       iResult ix' = iResult (monitor_add p i ix) \<and> iObj ix' = iObj ix" "objr ix i AND 1 \<noteq> 0 \<longleftrightarrow> bit a 31"
      using DoAdd_slot [OF t(1) st(1) assms(2) Cons g st(2), of U thesis] by blast
    have b: "iBoundary ix' = max (iBoundary ix) i" "iResult ix' = iResult ix" "iModCount ix' = 255"
      using s(9) T(1,2) by (simp_all add: monitor_add_def)
    have len: "int (length (iSlots ix)) = iAllocated ix" by (rule tableD(2) [OF t(1)])
    have il: "i < int (length (iSlots ix))" using s(5) len by simp
    note d = slot_putD [OF s(3,4) il]
    obtain q L where q: "Q q = i # L" "taken Q (slot_queue a) = Q(q := L)" by (rule taken_at [OF Cons])
    have A: "sorted (taken Q (slot_queue a) EQAltFree)" using T(11) q by (cases "q = EQAltFree") auto
    have sub: "set (taken Q (slot_queue a) p) \<subseteq> set (Q p)" for p using q by auto
    have keep: "j \<notin> set (taken Q (slot_queue a) EQAltFree) \<Longrightarrow> j \<notin> set (Q EQAltFree) \<or> j = i" for j using q by (cases "q = EQAltFree") auto
    have o1: "j \<noteq> i \<and> objr ix j = 1" if "objr ix' j = 1" "0 \<le> j" "j < iAllocated ix" for j
      using that d(3) [of j] len used_objr(1) [OF assms(2), of a] by (auto split: if_splits)
    have rf: "reserved_from ix' (pos s) = reserved_from ix (pos s)"
      by (rule reserved_from_cong [OF d(2)]) (use d(3) len s(10) used_objr(3) [OF assms(2)] T(3) in auto)
    have "marks s (taken Q (slot_queue a)) ix'"
      unfolding marks_def b s(8)
    proof (intro conjI allI impI)
      fix j
      assume "0 \<le> j \<and> j < pos s \<and> j \<notin> set (taken Q (slot_queue a) EQAltFree)"
      then show "j \<le> max (hwm s) (max (iBoundary ix) i)" using keep [of j] marksD(1) [OF T(14), of j] by auto
    next
      fix j
      assume "0 \<le> j \<and> j < pos s \<and> objr ix' j = 1"
      then show "j < max (rfhwm s) (iReservedFreeHWM ix)" using o1 [of j] marksD(3) [OF T(14), of j] T(4) tableD(4) [OF t(1)] by auto
    qed (use marksD(2) [OF T(14)] in auto)
    moreover have "\<forall>j \<in> set (taken Q (slot_queue a) EQAltFree) \<union> set (taken Q (slot_queue a) EQAltRsvd). j < pos s"
      using sub T(12) by blast
    ultimately have "tidying False s (taken Q (slot_queue a)) ix'"
      using T(1-10,13) A unfolding tidying_def b s(6-8) rf by auto
    then show ?thesis using s(1,2) b(2) res unfolding tidy_open_def by auto
  qed
qed

lemma tidy_remove:
  assumes "tidy_open s ix"
  shows "tidy_open s (snd (snd (snd (DoRemove h ix))))"
proof -
  obtain Q where t: "table ix Q" "tidying False s Q ix" and res: "iResult ix = pos s" using assms(1) by (auto simp: tidy_open_def)
  note T = tidyingD [OF t(2)]
  have st: "iState ix \<noteq> ETerminated" using T(1) by simp
  show ?thesis
  proof (cases "hmap ix (key h)")
    case None
    then show ?thesis using DoRemove_bad [OF st None] assms by simp
  next
    case (Some px)
    obtain p x where px: "hmap ix (key h) = Some (p, x)" using Some by (cases px) simp
    let ?i = "HandleIndex h" and ?Q = "given_back Q (bit x 31) (HandleIndex h)"
    obtain ix' r where s: "DoRemove h ix = (r, p, x, ix')" "table ix' ?Q" "slot_put ix ?i (attr ix ?i) (objr ix ?i AND 1) ix'"
      "0 \<le> ?i" "?i < iCount ix" "objr ix ?i \<ge> 4" "objr ix ?i AND 1 \<noteq> 0 \<longleftrightarrow> bit x 31" "iCount ix' = iCount ix" "iState ix' = iState ix"
      "iReservedFreeHWM ix' = (if bit x 31 \<and> (iState ix \<noteq> ETidying \<or> ?i < iResult ix) then max (iReservedFreeHWM ix) (?i + 1) else iReservedFreeHWM ix)"
      "iModCount ix = 255 \<longrightarrow> iModCount ix' = 255 \<and> iBoundary ix' = iBoundary ix \<and> iObj ix' = iObj ix \<and>
         iResult ix' = iResult ix - of_bool (iState ix = ECounting \<and> p = iObj ix \<and> ?i < iBoundary ix)"
      using DoRemove_used [OF t(1) st px, of thesis] by blast
    have b: "iBoundary ix' = iBoundary ix" "iResult ix' = iResult ix" "iModCount ix' = 255" using s(11) T(1,2) by simp_all
    have hw: "iReservedFreeHWM ix' = (if bit x 31 \<and> ?i < pos s then max (iReservedFreeHWM ix) (?i + 1) else iReservedFreeHWM ix)"
      using s(10) T(1) res by simp
    have len: "int (length (iSlots ix)) = iAllocated ix" by (rule tableD(2) [OF t(1)])
    have al: "?i < iAllocated ix" "?i < int (length (iSlots ix))" using s(5) tableD(4) [OF t(1)] len by simp_all
    note d = slot_putD [OF s(3,4) al(2)]
    have same: "?Q EQAltFree = Q EQAltFree" "?Q EQAltRsvd = Q EQAltRsvd" by (simp_all add: given_back_def Let_def)
    have off: "?i \<notin> set (Q EQAltFree)" by (rule table_off_queue [OF t(1) s(4) al(1) s(6)]) simp
    have one: "objr ix ?i AND 1 = (if bit x 31 then 1 else 0)" unfolding s(7) [symmetric] by (simp add: and_one_eq mod2_eq_if)
    have rf: "reserved_from ix' (pos s) = reserved_from ix (pos s)"
      by (rule reserved_from_cong [OF d(2)]) (use d(3) len T(3) in \<open>auto simp: and.assoc\<close>)
    have low: "?i \<le> max (hwm s) (iBoundary ix)" if "?i < pos s" using marksD(1) [OF T(14) s(4) that off] .
    have "marks s ?Q ix'"
      unfolding marks_def b same
    proof (intro conjI allI impI)
      fix j
      assume "0 \<le> j \<and> j < pos s \<and> j \<notin> set (Q EQAltFree)"
      then show "j \<le> max (hwm s) (iBoundary ix)" using marksD(1) [OF T(14), of j] by blast
    next
      fix j
      assume j: "0 \<le> j \<and> j < pos s \<and> objr ix' j = 1"
      show "j < max (rfhwm s) (iReservedFreeHWM ix')"
      proof (cases "j = ?i")
        case True
        then have "bit x 31" using j d(3) [of j] al one by (auto split: if_splits)
        then show ?thesis using True j hw by auto
      next
        case False
        then have "objr ix j = 1" using j d(3) [of j] T(4) tableD(4) [OF t(1)] len by auto
        then show ?thesis using marksD(3) [OF T(14), of j] j hw by auto
      qed
    next
      show "max (rfhwm s) (iReservedFreeHWM ix') \<le> max (hwm s) (iBoundary ix) + 1" using marksD(2) [OF T(14)] low unfolding hw by auto
    qed
    then have "tidying False s ?Q ix'"
      using T(1-11,13) T(12) unfolding tidying_def b s(8,9) same rf hw by auto
    then show ?thesis using s(1,2) b(2) res unfolding tidy_open_def by auto
  qed
qed

interpretation tidy_acts: guarded "run_act U" ok_act "tidy_open s" for U s
proof
  show "ok_act act \<Longrightarrow> tidy_open s ix \<Longrightarrow> tidy_open s (run_act U act ix)" for act ix
    using tidy_add tidy_remove by (cases act) simp_all
qed

end
