(* ===== verification/Objix_Loop.thy ===== *)
theory Objix_Loop
  imports Objix_Sweep
begin

text \<open>The loop of \<open>TidyAndCompact\<close> keeps the invariant of the scan up to its end.\<close>

lemma Occupant_iff: "Occupant (iSlots ix ! nat i) \<noteq> 0 \<longleftrightarrow> objr ix i \<ge> 4"
  by (simp only: Occupant_def occupied_iff)

lemma filter_upto_snoc: "0 \<le> n \<Longrightarrow> filter P [0..n] = filter P [0..n - 1] @ (if P n then [n] else [])"
  by (simp add: upto_rec2)

text \<open>An occupied slot.\<close>

lemma tidying_used:
  assumes "table ix Q" "tidying alone s Q ix" "pos s < iCount ix" "objr ix (pos s) \<ge> 4"
  shows "tidying alone (s\<lparr>pos := pos s + 1, hwm := pos s, rsvd_remain := rsvd_remain s - (if IsReserved (iSlots ix ! nat (pos s)) then 1 else 0)\<rparr>) Q ix"
    (is "tidying alone ?s Q ix")
proof -
  note T = tidyingD [OF assms(2)]
  have al: "pos s < iAllocated ix" using assms(3) tableD(4) [OF assms(1)] by simp
  have ne: "objr ix (pos s) \<noteq> 1" "\<not> objr ix (pos s) < 4" using assms(4) free_values(1) by (metis, simp add: not_less)
  have "marks ?s Q ix"
    unfolding marks_def
  proof (intro conjI allI impI)
    fix i
    assume "0 \<le> i \<and> i < pos ?s \<and> i \<notin> set (Q EQAltFree)"
    then show "i \<le> max (hwm ?s) (iBoundary ix)" by auto
  next
    show "max (rfhwm ?s) (iReservedFreeHWM ix) \<le> max (hwm ?s) (iBoundary ix) + 1" using marksD(2) [OF T(14)] T(8) by auto
  next
    fix i
    assume i: "0 \<le> i \<and> i < pos ?s \<and> objr ix i = 1"
    then have "i < pos s" using ne(1) by (cases "i = pos s") auto
    then show "i < max (rfhwm ?s) (iReservedFreeHWM ix)" using marksD(3) [OF T(14), of i] i by simp
  qed
  moreover have "rsvd_remain ?s = reserved_from ix (pos ?s)"
    using T(13) reserved_from_step [OF al] by (simp add: IsReserved_def)
  moreover have "alone \<Longrightarrow> Q EQAltRsvd @ Q EQAltFree = filter (\<lambda>i. objr ix i < 4) [0..pos ?s - 1]"
    using T(15) filter_upto_snoc [OF T(3), of "\<lambda>i. objr ix i < 4"] ne(2) by simp
  moreover have "\<forall>i \<in> set (Q EQAltFree) \<union> set (Q EQAltRsvd). i < pos ?s" using T(12) by fastforce
  ultimately show ?thesis using T(1-11) assms(3) unfolding tidying_def by simp
qed

lemma skip_used_ok:
  assumes "table ix Q" "tidying alone s Q ix" "limit \<le> iCount ix"
  shows "tidying alone (skip_used (iSlots ix) limit s) Q ix \<and>
    (pos (skip_used (iSlots ix) limit s) < limit \<longrightarrow> objr ix (pos (skip_used (iSlots ix) limit s)) < 4)"
  using assms(2,3)
proof (induction "iSlots ix" limit s rule: skip_used.induct)
  case (1 lim s)
  let ?c = "pos s < lim \<and> Occupant (iSlots ix ! nat (pos s)) \<noteq> 0"
  let ?s = "s\<lparr>pos := pos s + 1, hwm := pos s, rsvd_remain := rsvd_remain s - (if IsReserved (iSlots ix ! nat (pos s)) then 1 else 0)\<rparr>"
  show ?case
  proof (cases ?c)
    case True
    then have "tidying alone ?s Q ix" using tidying_used [OF assms(1) 1(2)] 1(3) Occupant_iff by simp
    moreover have "skip_used (iSlots ix) lim s = skip_used (iSlots ix) lim ?s" unfolding skip_used.simps [of "iSlots ix" lim s] by (rule if_P [OF True])
    ultimately show ?thesis using 1(1) [OF True _ 1(3)] by simp
  next
    case False
    then have "skip_used (iSlots ix) lim s = s" unfolding skip_used.simps [of "iSlots ix" lim s] by (rule if_not_P)
    then show ?thesis using False 1(2) Occupant_iff [of ix "pos s"] by (auto simp: not_le)
  qed
qed

text \<open>A free slot.\<close>

lemma tidying_free:
  assumes "table ix Q" "tidying alone s Q ix" "pos s < iCount ix" "objr ix (pos s) < 4"
  obtains Q' s' ix' where "tidy_free s ix = (s', ix')" "table ix' Q'" "tidying alone s' Q' ix'" "hmap ix' = hmap ix" "same_fields ix ix'"
proof -
  note T = tidyingD [OF assms(2)]
  let ?i = "pos s"
  have al: "?i < iAllocated ix" using assms(3) tableD(4) [OF assms(1)] by simp
  have off: "?i \<notin> set (Q EQAltFree)" "?i \<notin> set (Q EQAltRsvd)" using T(12) [of ?i] by auto
  have low: "i < ?i" if "i \<in> set (Q EQAltFree)" for i using T(12) [of i] that by simp
  have "objr ix ?i = 0 \<or> objr ix ?i = 1" using tableD(6) [OF assms(1)] T(3) al assms(4) unfolding queued_def by blast
  then consider (normal) "objr ix ?i = 0" | (keep) "objr ix ?i = 1" "Q EQAltFree = []" | (subst) a A where "objr ix ?i = 1" "Q EQAltFree = a # A"
    by (cases "Q EQAltFree") auto
  then show ?thesis
  proof cases
    case normal
    obtain X Y ix' where s: "tidy_free s ix = (s\<lparr>pos := ?i + 1\<rparr>, ix')" "Q EQFree = X @ ?i # Y"
      "table ix' (Q(EQFree := X @ Y, EQAltFree := Q EQAltFree @ [?i]))" "hmap ix' = hmap ix" "same_fields ix ix'"
      "\<forall>j. 0 \<le> j \<and> j < iAllocated ix \<longrightarrow> objr ix' j = objr ix j"
      by (rule tidy_free_normal [OF assms(1) T(3) assms(3) normal off(1) T(2)])
    let ?s = "s\<lparr>pos := ?i + 1\<rparr>" and ?Q = "Q(EQFree := X @ Y, EQAltFree := Q EQAltFree @ [?i])"
    note f = fieldsD [OF s(5)]
    have "reserved_from ix' (?i + 1) = reserved_from ix (?i + 1)"
      by (rule reserved_from_cong [OF f(1)]) (use s(6) T(3) in auto)
    then have rr: "rsvd_remain ?s = reserved_from ix' (pos ?s)" using T(13) reserved_from_step [OF al] normal by simp
    have "marks ?s ?Q ix'"
      unfolding marks_def f
    proof (intro conjI allI impI)
      fix i
      assume "0 \<le> i \<and> i < pos ?s \<and> i \<notin> set (?Q EQAltFree)"
      then show "i \<le> max (hwm ?s) (iBoundary ix)" using marksD(1) [OF T(14), of i] by auto
    next
      show "max (rfhwm ?s) (iReservedFreeHWM ix) \<le> max (hwm ?s) (iBoundary ix) + 1" using marksD(2) [OF T(14)] by simp
    next
      fix i
      assume i: "0 \<le> i \<and> i < pos ?s \<and> objr ix' i = 1"
      then have "objr ix i = 1" using s(6) [rule_format, of i] al by auto
      then show "i < max (rfhwm ?s) (iReservedFreeHWM ix)" using marksD(3) [OF T(14), of i] i normal by (cases "i = ?i") auto
    qed
    moreover have "alone \<Longrightarrow> ?Q EQAltRsvd @ ?Q EQAltFree = filter (\<lambda>i. objr ix' i < 4) [0..pos ?s - 1]"
    proof -
      assume alone
      have e: "filter (\<lambda>i. objr ix' i < 4) [0..?i - 1] = filter (\<lambda>i. objr ix i < 4) [0..?i - 1]" by (rule filter_cong [OF refl]) (use s(6) al in auto)
      show "?Q EQAltRsvd @ ?Q EQAltFree = filter (\<lambda>i. objr ix' i < 4) [0..pos ?s - 1]"
        using T(15) [OF \<open>alone\<close>] filter_upto_snoc [OF T(3), of "\<lambda>i. objr ix' i < 4"] e s(6) [rule_format, OF conjI [OF T(3) al]] assms(4) by simp
    qed
    moreover have "sorted (?Q EQAltFree)" using T(11) low by (auto simp: sorted_append less_imp_le)
    moreover have "\<forall>i \<in> set (?Q EQAltFree) \<union> set (?Q EQAltRsvd). i < pos ?s" using T(12) by fastforce
    ultimately have "tidying alone ?s ?Q ix'" using T(1-10) assms(3) rr unfolding tidying_def f by auto
    then show ?thesis using that s(1,3,4,5) by blast
  next
    case keep
    obtain X Y ix' where s: "tidy_free s ix = (s\<lparr>rfhwm := max (rfhwm s) (?i + 1), hwm := max (hwm s) ?i,
        rsvd_remain := rsvd_remain s - 1, pos := ?i + 1\<rparr>, ix')" "Q EQRsvd = X @ ?i # Y"
      "table ix' (Q(EQRsvd := X @ Y, EQAltRsvd := Q EQAltRsvd @ [?i]))" "hmap ix' = hmap ix" "same_fields ix ix'"
      "\<forall>j. 0 \<le> j \<and> j < iAllocated ix \<longrightarrow> objr ix' j = objr ix j"
      by (rule tidy_free_reserved [OF assms(1) T(3) assms(3) keep(1) off(2) T(2) keep(2)])
    let ?s = "s\<lparr>rfhwm := max (rfhwm s) (?i + 1), hwm := max (hwm s) ?i, rsvd_remain := rsvd_remain s - 1, pos := ?i + 1\<rparr>"
      and ?Q = "Q(EQRsvd := X @ Y, EQAltRsvd := Q EQAltRsvd @ [?i])"
    note f = fieldsD [OF s(5)]
    have "reserved_from ix' (?i + 1) = reserved_from ix (?i + 1)"
      by (rule reserved_from_cong [OF f(1)]) (use s(6) T(3) in auto)
    then have rr: "rsvd_remain ?s = reserved_from ix' (pos ?s)" using T(13) reserved_from_step [OF al] keep(1) by simp
    have "marks ?s ?Q ix'"
      unfolding marks_def f
    proof (intro conjI allI impI)
      fix i
      assume "0 \<le> i \<and> i < pos ?s \<and> i \<notin> set (?Q EQAltFree)"
      then show "i \<le> max (hwm ?s) (iBoundary ix)" by auto
    next
      show "max (rfhwm ?s) (iReservedFreeHWM ix) \<le> max (hwm ?s) (iBoundary ix) + 1" using marksD(2) [OF T(14)] by auto
    next
      fix i
      assume i: "0 \<le> i \<and> i < pos ?s \<and> objr ix' i = 1"
      then show "i < max (rfhwm ?s) (iReservedFreeHWM ix)" by auto
    qed
    moreover have "alone \<Longrightarrow> ?Q EQAltRsvd @ ?Q EQAltFree = filter (\<lambda>i. objr ix' i < 4) [0..pos ?s - 1]"
    proof -
      assume alone
      have e: "filter (\<lambda>i. objr ix' i < 4) [0..?i - 1] = filter (\<lambda>i. objr ix i < 4) [0..?i - 1]" by (rule filter_cong [OF refl]) (use s(6) al in auto)
      show "?Q EQAltRsvd @ ?Q EQAltFree = filter (\<lambda>i. objr ix' i < 4) [0..pos ?s - 1]"
        using T(15) [OF \<open>alone\<close>] filter_upto_snoc [OF T(3), of "\<lambda>i. objr ix' i < 4"] e s(6) [rule_format, OF conjI [OF T(3) al]] assms(4) keep(2) by simp
    qed
    moreover have "\<forall>i \<in> set (?Q EQAltFree) \<union> set (?Q EQAltRsvd). i < pos ?s" using T(12) by fastforce
    ultimately have "tidying alone ?s ?Q ix'" using T(1-11) assms(3) rr unfolding tidying_def f by auto
    then show ?thesis using that s(1,3,4,5) by blast
  next
    case subst
    have aQ: "a \<in> set (Q EQAltFree)" using subst(2) by simp
    have a: "0 \<le> a" "a < ?i" using table_queue(1) [OF assms(1) _ aQ] low [OF aQ] by simp_all
    have oa: "objr ix a = 0" using table_queue(3) [OF assms(1) _ aQ] by simp
    obtain X Y ix' where s: "tidy_free s ix = (s\<lparr>rfhwm := max (rfhwm s) (a + 1), hwm := max (hwm s) a,
        rsvd_remain := rsvd_remain s - 1, pos := ?i + 1\<rparr>, ix')" "Q EQRsvd = X @ ?i # Y"
      "table ix' (Q(EQRsvd := X @ Y, EQAltRsvd := Q EQAltRsvd @ [a], EQAltFree := A @ [?i]))" "hmap ix' = hmap ix" "same_fields ix ix'"
      "\<forall>j. 0 \<le> j \<and> j < iAllocated ix \<longrightarrow> objr ix' j = (if j = ?i then 0 else if j = a then 1 else objr ix j)"
      by (rule tidy_free_substitute [OF assms(1) T(3) assms(3) subst(1) off(2) T(2) subst(2)])
    let ?s = "s\<lparr>rfhwm := max (rfhwm s) (a + 1), hwm := max (hwm s) a, rsvd_remain := rsvd_remain s - 1, pos := ?i + 1\<rparr>"
      and ?Q = "Q(EQRsvd := X @ Y, EQAltRsvd := Q EQAltRsvd @ [a], EQAltFree := A @ [?i])"
    note f = fieldsD [OF s(5)]
    have "reserved_from ix' (?i + 1) = reserved_from ix (?i + 1)"
      by (rule reserved_from_cong [OF f(1)]) (use s(6) T(3) a in auto)
    then have rr: "rsvd_remain ?s = reserved_from ix' (pos ?s)" using T(13) reserved_from_step [OF al] subst(1) by simp
    have "marks ?s ?Q ix'"
      unfolding marks_def f
    proof (intro conjI allI impI)
      fix i
      assume "0 \<le> i \<and> i < pos ?s \<and> i \<notin> set (?Q EQAltFree)"
      then show "i \<le> max (hwm ?s) (iBoundary ix)" using marksD(1) [OF T(14), of i] subst(2) by (cases "i = a") auto
    next
      show "max (rfhwm ?s) (iReservedFreeHWM ix) \<le> max (hwm ?s) (iBoundary ix) + 1" using marksD(2) [OF T(14)] by auto
    next
      fix i
      assume i: "0 \<le> i \<and> i < pos ?s \<and> objr ix' i = 1"
      then show "i < max (rfhwm ?s) (iReservedFreeHWM ix)"
        using s(6) [rule_format, of i] al marksD(3) [OF T(14), of i] by (cases "i = ?i"; cases "i = a") auto
    qed
    moreover have "alone \<Longrightarrow> ?Q EQAltRsvd @ ?Q EQAltFree = filter (\<lambda>i. objr ix' i < 4) [0..pos ?s - 1]"
    proof -
      assume alone
      have e: "filter (\<lambda>i. objr ix' i < 4) [0..?i - 1] = filter (\<lambda>i. objr ix i < 4) [0..?i - 1]"
        by (rule filter_cong [OF refl]) (use s(6) al a oa in auto)
      show "?Q EQAltRsvd @ ?Q EQAltFree = filter (\<lambda>i. objr ix' i < 4) [0..pos ?s - 1]"
        using T(15) [OF \<open>alone\<close>] filter_upto_snoc [OF T(3), of "\<lambda>i. objr ix' i < 4"] e s(6) [rule_format, OF conjI [OF T(3) al]] subst(2) by simp
    qed
    moreover have "sorted (?Q EQAltFree)" using T(11) low subst(2) by (auto simp: sorted_append less_imp_le)
    moreover have "\<forall>i \<in> set (?Q EQAltFree) \<union> set (?Q EQAltRsvd). i < pos ?s" using T(12) a subst(2) by fastforce
    ultimately have "tidying alone ?s ?Q ix'" using T(1-10) assms(3) rr a unfolding tidying_def f by auto
    then show ?thesis using that s(1,3,4,5) by blast
  qed
qed

text \<open>The whole scan.\<close>

lemma tidying_ready: "table ix Q \<Longrightarrow> tidying alone s Q ix \<Longrightarrow> ready ix"
  by (auto simp: ready_def open_ix_def tidying_def)

lemma tidying_others:
  assumes "table ix Q" "tidying alone s Q ix" "ok_envs envs" "alone \<longrightarrow> concat envs = []"
  obtains Q' where "table (others U envs (ix\<lparr>iResult := pos s\<rparr>)) Q'" "tidying alone s Q' (others U envs (ix\<lparr>iResult := pos s\<rparr>))"
    "iAllocated (others U envs (ix\<lparr>iResult := pos s\<rparr>)) = iAllocated ix"
    "iModListShift (others U envs (ix\<lparr>iResult := pos s\<rparr>)) = iModListShift ix"
proof -
  let ?ix = "ix\<lparr>iResult := pos s\<rparr>"
  have t: "table ?ix Q" by (rule table_cong [OF _ _ _ _ _ _ _ _ assms(1)]) simp_all
  have "reserved_from ?ix n = reserved_from ix n" for n by (simp add: reserved_from_def)
  then have y: "tidying b s Q ?ix" if "tidying b s Q ix" for b using that by (simp add: tidying_def marks_def)
  show ?thesis
  proof (cases alone)
    case True
    then have "others U envs ?ix = ?ix" using assms(4) by (cases envs) (simp_all add: others_def)
    then show ?thesis using that [of Q] t y [OF assms(2)] by simp
  next
    case False
    have "tidy_open s ?ix" using t y [OF assms(2)] False unfolding tidy_open_def by auto
    then have "tidy_open s (others U envs ?ix)"
      unfolding others_first by (intro tidy_acts.keep_all) (use ok_first [OF assms(3)] in blast)+
    moreover have "iAllocated (others U envs ?ix) = iAllocated ?ix" "iModListShift (others U envs ?ix) = iModListShift ?ix"
      unfolding others_first using ready_fold(3) [OF tidying_ready [OF t y [OF assms(2)]], of "first_env envs" U] ok_first [OF assms(3)]
      by (simp_all add: same_phase_def)
    ultimately show ?thesis using that False by (auto simp: tidy_open_def)
  qed
qed

lemma sweep_loop_ok:
  assumes "table ix Q" "tidying alone s Q ix" "ok_envs envs" "alone \<longrightarrow> concat envs = []" "tidy_loop U envs s ix = (s', ix')"
  shows "\<exists>Q'. table ix' Q' \<and> tidying alone s' Q' ix' \<and> pos s' = iCount ix' \<and> scanned envs ix ix' \<and> iAllocated ix' = iAllocated ix \<and>
    iModListShift ix' = iModListShift ix"
  using assms
proof (induction U envs s ix arbitrary: Q rule: tidy_loop.induct)
  case (1 U envs s ix)
  let ?limit = "min (pos s + EMaxLockedIter) (iCount ix)"
  let ?s1 = "skip_used (iSlots ix) ?limit s"
  have s1: "tidying alone ?s1 Q ix" "pos ?s1 < ?limit \<longrightarrow> objr ix (pos ?s1) < 4"
    using skip_used_ok [OF "1.prems"(1,2), of ?limit] by simp_all
  show ?case
  proof (cases "pos ?s1 \<ge> iCount ix")
    case True
    then have "tidy_loop U envs s ix = (?s1, ix)" by (simp add: tidy_loop.simps [of U envs s ix] Let_def)
    then have "s' = ?s1" "ix' = ix" using "1.prems"(5) by simp_all
    then show ?thesis using "1.prems"(1) s1(1) tidyingD(4) [OF s1(1)] True scanned_refl [of ix ix envs] by auto
  next
    case False
    obtain s2 ix1 where t2: "(if pos ?s1 < ?limit then tidy_free ?s1 ix else (?s1, ix)) = (s2, ix1)" by (cases "if pos ?s1 < ?limit then tidy_free ?s1 ix else (?s1, ix)")
    obtain Q1 where q1: "table ix1 Q1" "tidying alone s2 Q1 ix1" "hmap ix1 = hmap ix" "iReservedFree ix1 = iReservedFree ix" "iAllocated ix1 = iAllocated ix"
      "iModListShift ix1 = iModListShift ix"
    proof (cases "pos ?s1 < ?limit")
      case True
      obtain Q' s'' ix'' where "tidy_free ?s1 ix = (s'', ix'')" "table ix'' Q'" "tidying alone s'' Q' ix''" "hmap ix'' = hmap ix" "same_fields ix ix''"
        using tidying_free [OF "1.prems"(1) s1(1)] False s1(2) True by (metis not_le)
      moreover have "tidy_free ?s1 ix = (s2, ix1)" using t2 True by (simp only: if_True)
      ultimately show ?thesis using that [of Q'] fieldsD(1,4,10) [of ix ix''] by simp
    next
      case False
      then have "(?s1, ix) = (s2, ix1)" using t2 by (simp only: if_False)
      then have e: "s2 = ?s1" "ix1 = ix" by blast+
      show ?thesis by (rule that [of Q]) (unfold e, rule "1.prems"(1), rule s1(1), (rule refl)+)
    qed
    let ?ix2 = "ix1\<lparr>iResult := pos s2\<rparr>"
    obtain Q2 where q2: "table (others U envs ?ix2) Q2" "tidying alone s2 Q2 (others U envs ?ix2)" "iAllocated (others U envs ?ix2) = iAllocated ix1"
      "iModListShift (others U envs ?ix2) = iModListShift ix1"
      by (rule tidying_others [OF q1(1,2) "1.prems"(3,4)])
    have tl: "ok_envs (tl envs)" "alone \<longrightarrow> concat (tl envs) = []" using ok_first [OF "1.prems"(3)] "1.prems"(4) by (cases envs; simp)+
    have eq: "tidy_loop U envs s ix = tidy_loop U (tl envs) s2 (others U envs ?ix2)"
      using False t2 by (simp add: tidy_loop.simps [of U envs s ix] Let_def)
    obtain Q' where IH: "table ix' Q'" "tidying alone s' Q' ix'" "pos s' = iCount ix'" "scanned (tl envs) (others U envs ?ix2) ix'"
      "iAllocated ix' = iAllocated (others U envs ?ix2)" "iModListShift ix' = iModListShift (others U envs ?ix2)"
      using "1.IH" [OF refl refl False t2 [symmetric] q2(1,2) tl] "1.prems"(5) eq by auto
    have "table ?ix2 Q1" by (rule table_cong [OF _ _ _ _ _ _ _ _ q1(1)]) simp_all
    then have r: "ready ?ix2" using tidyingD(1,2) [OF q1(2)] by (auto simp: ready_def open_ix_def)
    have "hmap ?ix2 = hmap ix1" by (rule hmap_cong) simp_all
    then have "abs_ix ?ix2 = abs_ix ix" using q1(3,4) by (simp add: abs_ix_def)
    then have "scanned envs ix ix'" by (rule scanned_step [OF _ r "1.prems"(3) IH(4)])
    then show ?thesis using IH q1(5,6) q2(3,4) by auto
  qed
qed

end
