(* ===== verification/Objix_Compact.thy ===== *)
theory Objix_Compact
  imports Objix_Loop
begin

text \<open>
  The end of \<open>TidyAndCompact\<close>: the free slots go back to their queues, and the table shrinks to the
  next power of two above the last slot in use.
\<close>

section \<open>Powers of two\<close>

definition spread :: "int \<Rightarrow> nat \<Rightarrow> int \<Rightarrow> bool" where
  "spread a n x \<longleftrightarrow> (\<forall>j. bit x j \<longleftrightarrow> (\<exists>d<n. bit a (j + d)))"

lemma spread_double: "spread a n x \<Longrightarrow> spread a (n + n) (x OR drop_bit n x)"
  unfolding spread_def
proof
  fix j
  assume s: "\<forall>j. bit x j \<longleftrightarrow> (\<exists>d<n. bit a (j + d))"
  have "bit (x OR drop_bit n x) j \<longleftrightarrow> (\<exists>d<n. bit a (j + d)) \<or> (\<exists>d<n. bit a (n + j + d))" using s by (simp add: bit_or_iff bit_drop_bit_eq)
  also have "\<dots> \<longleftrightarrow> (\<exists>d<n + n. bit a (j + d))"
  proof
    assume "\<exists>d<n + n. bit a (j + d)"
    then obtain d where d: "d < n + n" "bit a (j + d)" by blast
    show "(\<exists>d<n. bit a (j + d)) \<or> (\<exists>d<n. bit a (n + j + d))"
    proof (cases "d < n")
      case False
      then have "d - n < n" "n + j + (d - n) = j + d" using d(1) by simp_all
      then show ?thesis using d(2) by metis
    qed (use d in blast)
  next
    assume "(\<exists>d<n. bit a (j + d)) \<or> (\<exists>d<n. bit a (n + j + d))"
    then show "\<exists>d<n + n. bit a (j + d)"
    proof
      assume "\<exists>d<n. bit a (n + j + d)"
      then obtain d where "d < n" "bit a (n + j + d)" by blast
      then have "n + d < n + n" "bit a (j + (n + d))" by (simp_all add: ac_simps)
      then show ?thesis by blast
    qed (metis add_lessD1 trans_less_add1)
  qed
  finally show "bit (x OR drop_bit n x) j \<longleftrightarrow> (\<exists>d<n + n. bit a (j + d))" .
qed

lemma round_up_pow2:
  assumes "0 < n" "n \<le> 32768"
  obtains k where "round_up_pow2 n = 2 ^ k" "n \<le> 2 ^ k" "2 ^ k < 2 * n" "k \<le> 15"
proof -
  define a where "a = n - 1"
  define b where "b = a OR drop_bit 1 a"
  define c where "c = b OR drop_bit 2 b"
  define d where "d = c OR drop_bit 4 c"
  define e where "e = d OR drop_bit 8 d"
  have r: "round_up_pow2 n = e + 1" by (simp add: round_up_pow2_def Let_def a_def b_def c_def d_def e_def)
  have a: "0 \<le> a" "a < 2 ^ 15" using assms by (simp_all add: a_def)
  have "spread a 1 a" by (simp add: spread_def)
  then have "spread a (1 + 1) b" unfolding b_def by (rule spread_double)
  then have "spread a (2 + 2) c" unfolding c_def by (intro spread_double) (simp add: numeral_2_eq_2)
  then have "spread a (4 + 4) d" unfolding d_def by (intro spread_double) simp
  then have "spread a (8 + 8) e" unfolding e_def by (intro spread_double) simp
  then have be: "bit e j \<longleftrightarrow> (\<exists>d<16. bit a (j + d))" for j by (simp add: spread_def)
  define k where "k = (LEAST k. a < 2 ^ k)"
  have k: "a < 2 ^ k" unfolding k_def by (rule LeastI [of _ 15]) (use a in simp)
  have least: "2 ^ m \<le> a" if "m < k" for m using not_less_Least [of m "\<lambda>k. a < 2 ^ k"] that by (simp add: k_def)
  have k15: "k \<le> 15" unfolding k_def by (rule Least_le) (use a in simp)
  have high: "\<not> bit a j" if "k \<le> j" for j
  proof -
    have "(2 :: int) ^ k \<le> 2 ^ j" using that by simp
    then have "a div 2 ^ j = 0" using k a(1) by (intro div_pos_pos_trivial) linarith+
    then show ?thesis by (simp add: bit_iff_odd)
  qed
  have top: "bit a (k - 1)" if "0 < k"
  proof -
    have "2 ^ (k - 1) \<le> a" "a < 2 * 2 ^ (k - 1)" using least [of "k - 1"] k that by (simp_all flip: power_Suc)
    then have "a div 2 ^ (k - 1) = 1" by (intro int_div_pos_eq [of _ _ _ "a - 2 ^ (k - 1)"]) simp_all
    then show ?thesis by (simp add: bit_iff_odd)
  qed
  have "e = mask k"
  proof (rule bit_eqI)
    fix j
    show "bit e j \<longleftrightarrow> bit (mask k :: int) j"
    proof (cases "j < k")
      case True
      then have "j + (k - 1 - j) = k - 1" "k - 1 - j < 16" using k15 by auto
      then show ?thesis using True top be [of j] by (auto simp: bit_mask_iff intro!: exI [of _ "k - 1 - j"])
    next
      case False
      then show ?thesis using be [of j] high by (auto simp: bit_mask_iff)
    qed
  qed
  then have "round_up_pow2 n = 2 ^ k" using r by (simp add: mask_eq_exp_minus_1)
  moreover have "n \<le> 2 ^ k" using k by (simp add: a_def)
  moreover have "2 ^ k < 2 * n"
  proof (cases "k = 0")
    case False
    then have "2 * 2 ^ (k - 1) \<le> 2 * a" using least [of "k - 1"] by simp
    then show ?thesis using False by (simp add: a_def flip: power_Suc)
  qed (use assms in simp)
  ultimately show ?thesis using that k15 by blast
qed

section \<open>The free slots go back\<close>

lemma relinked_keeps: "relinked ix ix' \<Longrightarrow> keeps ix ix'"
proof -
  assume r: "relinked ix ix'"
  have c: "(unmark z)\<lparr>iFreeQ := [], iSlots := []\<rparr> = unmark (z\<lparr>iFreeQ := [], iSlots := []\<rparr>)" for z by (simp add: unmark_def)
  have "ix'\<lparr>iFreeQ := [], iSlots := []\<rparr> = ix\<lparr>iFreeQ := [], iSlots := []\<rparr>" using r by (simp only: relinked_def)
  then have "relinked (unmark ix) (unmark ix')" using r unfolding relinked_def c by simp
  then show ?thesis using r by (simp add: keeps_def)
qed

lemma dlring_prev_first: "dlring nx pv h (x # L) \<Longrightarrow> pv x = h"
  by (simp add: dlring_def)

text \<open>The end of the queue of free slots is cut off; its slots keep their links.\<close>

definition cut_free :: "int \<Rightarrow> RObjectIx \<Rightarrow> RObjectIx" where
  "cut_free i ix = set_next i EQFree (set_prev EQFree i ix)"

lemma cut_rings:
  assumes "rings main ix Q" "Q EQFree = U @ V" "U \<noteq> []" "V \<noteq> []"
  shows "rings main (cut_free (last U) ix) (Q(EQFree := U))" "relinked ix (cut_free (last U) ix)"
    "link_prev ix (hd V) = last U" "link_prev ix EQFree = last V" "chain (nxt (cut_free (last U) ix)) (prv (cut_free (last U) ix)) EQFree V"
proof -
  let ?a = "cut_free (last U) ix"
  note r = assms(1)
  have m: "EQFree \<in> main" by simp
  have q: "queue ix EQFree (U @ V)" "linked ix" using ringsD(1,2) [OF r m] assms(2) by simp_all
  have ring: "dlring (nxt ix) (prv ix) EQFree (U @ V)" using q(1) by (simp add: queue_def)
  note cut = dlring_cut [OF ring assms(3,4)]
  note nodes = queue_nodes [OF q(1)]
  have mem: "last U \<in> set (U @ V)" "hd V \<in> set (U @ V)" using assms(3,4) by simp_all
  have nd: "node ix EQFree" "node ix (last U)" "node ix (hd V)" using nodes(1) nodes(2) [OF mem(1)] nodes(2) [OF mem(2)] by simp_all
  show "link_prev ix (hd V) = last U" "link_prev ix EQFree = last V" using cut(3,4) link_nxt(2) [OF nd(3)] link_nxt(2) [OF nd(1)] by simp_all
  have a0: "relinked ix (set_prev EQFree (last U) ix)" by simp
  show ra: "relinked ix ?a" unfolding cut_free_def by (rule relinked_trans [OF a0]) simp
  have la: "nxt ?a = (nxt ix)(last U := EQFree)" "prv ?a = (prv ix)(EQFree := last U)"
    unfolding cut_free_def by (simp_all add: nxt_set relinkedD(19,20) [OF a0] q(2) nd)
  have range: "0 \<le> i \<and> i < int (length (iSlots ix))" if "i \<in> set (U @ V)" for i using q(1) that by (simp add: queue_def)
  have "set U \<inter> set V = {}" and dF: "EQFree \<notin> set V" using dlring_distinct [OF ring] by auto
  then have dis: "last U \<notin> set V" using last_in_set [OF assms(3)] by blast
  show "chain (nxt ?a) (prv ?a) EQFree V"
    using chain_cong [of V "nxt ?a" "nxt ix" "prv ?a" "prv ix"] cut(2) dis dF list.set_sel(2) [OF assms(4)] unfolding la by fastforce
  have qF: "queue ?a EQFree U" using cut(1) range relinkedD(17) [OF ra] unfolding queue_def la by auto
  have qO: "queue ?a p (Q p)" if p: "p \<in> main" "p \<noteq> EQFree" for p
  proof (rule queue_relinked [OF ra _ ringsD(2) [OF r p(1)]], rule ballI)
    fix i
    assume i: "i \<in> set (p # Q p)"
    have "last U \<noteq> p" using range [OF mem(1)] ringsD(6) [OF r p(1)] by auto
    moreover have "last U \<notin> set (Q p)" using ringsD(5) [OF r m p(1)] p(2) mem(1) assms(2) by auto
    ultimately have "i \<noteq> last U" "i \<noteq> EQFree" using i p(2) ringsD(4) [OF r p(1), of EQFree] by auto
    then show "nxt ?a i = nxt ix i \<and> prv ?a i = prv ix i" unfolding la by simp
  qed
  have "queue ?a p ((Q(EQFree := U)) p)" if "p \<in> main" for p using qF qO [OF that] by (cases "p = EQFree") simp_all
  moreover have "linked ?a" using relinkedD(19) [OF ra] q(2) by simp
  moreover have "set ((Q(EQFree := U)) p) \<inter> set ((Q(EQFree := U)) p') = {}" if "p \<in> main" "p' \<in> main" "p \<noteq> p'" for p p'
  proof -
    have "set ((Q(EQFree := U)) x) \<subseteq> set (Q x)" for x using assms(2) by auto
    then show ?thesis using ringsD(5) [OF r that(1,2,3)] by blast
  qed
  ultimately show "rings main ?a (Q(EQFree := U))" unfolding rings_def by simp
qed

text \<open>A chain of slots that are in no queue is joined to the end of the queue again.\<close>

definition join_free :: "int \<Rightarrow> int \<Rightarrow> int \<Rightarrow> RObjectIx \<Rightarrow> RObjectIx" where
  "join_free i n l ix = set_prev EQFree l (set_prev n i (set_next i n ix))"

lemma join_rings:
  assumes "rings main ix Q" "Q EQFree \<noteq> []" "V \<noteq> []" "chain (nxt ix) (prv ix) EQFree V"
    "\<And>i. i \<in> set V \<Longrightarrow> 0 \<le> i \<and> i < int (length (iSlots ix))" "\<And>i q. i \<in> set V \<Longrightarrow> q \<in> main \<Longrightarrow> i \<notin> set (Q q)"
  shows "rings main (join_free (last (Q EQFree)) (hd V) (last V) ix) (Q(EQFree := Q EQFree @ V))"
    "relinked ix (join_free (last (Q EQFree)) (hd V) (last V) ix)"
proof -
  let ?W = "Q EQFree"
  let ?f = "join_free (last ?W) (hd V) (last V) ix"
  note r = assms(1)
  have m: "EQFree \<in> main" by simp
  have q: "queue ix EQFree ?W" "linked ix" using ringsD(1,2) [OF r m] by simp_all
  have ring: "dlring (nxt ix) (prv ix) EQFree ?W" using q(1) by (simp add: queue_def)
  have "set V \<inter> set (EQFree # ?W) = {}" using assms(5,6) m by force
  note join = dlring_join [OF ring assms(2,4,3) this]
  have mem: "last ?W \<in> set ?W" "hd V \<in> set V" "last V \<in> set V" using assms(2,3) by simp_all
  have nV: "node ix i" if "i \<in> set V" for i using assms(5) [OF that] by (simp add: node_def)
  have nd: "node ix EQFree" "node ix (last ?W)" "node ix (hd V)" "node ix (last V)"
    using queue_nodes(1) [OF q(1)] queue_nodes(2) [OF q(1) mem(1)] nV mem by simp_all
  have d: "relinked ix (set_next (last ?W) (hd V) ix)" by simp
  have e: "relinked ix (set_prev (hd V) (last ?W) (set_next (last ?W) (hd V) ix))" by (rule relinked_trans [OF d]) simp
  show rf: "relinked ix ?f" unfolding join_free_def by (rule relinked_trans [OF e]) simp
  have lf: "nxt ?f = (nxt ix)(last ?W := hd V)" "prv ?f = (prv ix)(hd V := last ?W, EQFree := last V)"
    unfolding join_free_def by (simp_all add: nxt_set relinkedD(19,20) [OF d] relinkedD(19,20) [OF e] q(2) nd)
  have qF: "queue ?f EQFree (?W @ V)"
    using join q(1) assms(5) relinkedD(17) [OF rf] unfolding queue_def lf by auto
  have qO: "queue ?f p (Q p)" if p: "p \<in> main" "p \<noteq> EQFree" for p
  proof (rule queue_relinked [OF rf _ ringsD(2) [OF r p(1)]], rule ballI)
    fix i
    assume i: "i \<in> set (p # Q p)"
    have c: "i = p \<and> i < 0 \<or> i \<in> set (Q p)" using i ringsD(6) [OF r p(1)] by auto
    have "0 \<le> last ?W" "last ?W \<notin> set (Q p)" using ringsD(4) [OF r m mem(1)] ringsD(5) [OF r m p(1) p(2) [symmetric] mem(1)] by simp_all
    then have "i \<noteq> last ?W" using c by auto
    moreover have "0 \<le> hd V" "hd V \<notin> set (Q p)" using assms(5) [OF mem(2)] assms(6) [OF mem(2) p(1)] by simp_all
    then have "i \<noteq> hd V" using c by auto
    moreover have "i \<noteq> EQFree" using i p(2) ringsD(4) [OF r p(1), of EQFree] by auto
    ultimately show "nxt ?f i = nxt ix i \<and> prv ?f i = prv ix i" unfolding lf by simp
  qed
  have "queue ?f p ((Q(EQFree := ?W @ V)) p)" if "p \<in> main" for p using qF qO [OF that] by (cases "p = EQFree") simp_all
  moreover have "linked ?f" using relinkedD(19) [OF rf] q(2) by simp
  moreover have "set ((Q(EQFree := ?W @ V)) p) \<inter> set ((Q(EQFree := ?W @ V)) p') = {}" if "p \<in> main" "p' \<in> main" "p \<noteq> p'" for p p'
  proof -
    have "set (Q p) \<inter> set (Q p') = {}" using r that unfolding rings_def by blast
    moreover have "set V \<inter> set (Q p) = {}" "set V \<inter> set (Q p') = {}" using assms(6) that by blast+
    ultimately show ?thesis using that(3) by (cases "p = EQFree"; cases "p' = EQFree") auto
  qed
  ultimately show "rings main ?f (Q(EQFree := ?W @ V))" unfolding rings_def by simp
qed

lemma merge_free_rings:
  assumes "rings main ix Q" "Q EQFree = U @ [n..iAllocated ix - 1]" "n \<le> iAllocated ix"
  shows "rings main (merge_free n ix) (Q(EQFree := U @ Q EQAltFree @ [n..iAllocated ix - 1], EQAltFree := []))" "keeps ix (merge_free n ix)"
proof -
  note r = assms(1)
  have m: "EQFree \<in> main" "EQAltFree \<in> main" "EQAltFree \<noteq> EQFree" by simp_all
  let ?V = "[n..iAllocated ix - 1]"
  have "rings main (merge_free n ix) (Q(EQFree := U @ Q EQAltFree @ ?V, EQAltFree := [])) \<and> keeps ix (merge_free n ix)"
  proof (cases "n < iAllocated ix")
    case False
    then have "merge_free n ix = AppendList EQAltFree EQFree ix" by (simp add: merge_free_def)
    then show ?thesis using AppendList_rings [OF r m(2,1,3)] assms(2) False by simp
  next
    case True
    then have V: "?V \<noteq> []" "hd ?V = n" by (simp_all add: upto_rec1)
    show ?thesis
    proof (cases "U = []")
      case True
      have "queue ix EQFree (n # tl ?V)" using ringsD(2) [OF r m(1)] assms(2) True V by (metis append_Nil list.collapse)
      then have "prv ix n = EQFree" "node ix n" using dlring_prev_first [of "nxt ix" "prv ix" EQFree n "tl ?V"] by (auto simp: queue_def node_def)
      then have "merge_free n ix = PrependList EQAltFree EQFree ix" using \<open>n < iAllocated ix\<close> link_nxt(2) [of ix n] by (simp add: merge_free_def)
      then show ?thesis using PrependList_rings [OF r m(2,1,3)] assms(2) True by simp
    next
      case False
      note cut = cut_rings [OF r assms(2) False V(1)]
      let ?a = "cut_free (last U) ix"
      let ?c = "AppendList EQAltFree EQFree ?a"
      have lu: "last U \<noteq> EQFree" using ringsD(4) [OF r m(1), of "last U"] assms(2) False by auto
      note app = AppendList_rings [OF cut(1) m(2,1,3)]
      have Q1: "(Q(EQFree := U))(EQFree := (Q(EQFree := U)) EQFree @ (Q(EQFree := U)) EQAltFree, EQAltFree := []) = Q(EQFree := U @ Q EQAltFree, EQAltFree := [])"
        by (auto simp: fun_eq_iff)
      have rc: "rings main ?c (Q(EQFree := U @ Q EQAltFree, EQAltFree := []))" "keeps ?a ?c" using app unfolding Q1 by blast+
      have end1: "link_prev ?c EQFree = last (U @ Q EQAltFree)" using rings_prev [OF rc(1) m(1)] False by simp
      have eq: "merge_free n ix = join_free (last (U @ Q EQAltFree)) n (last ?V) ?c"
        using True lu cut(3,4) V(2) end1 unfolding merge_free_def join_free_def cut_free_def Let_def by simp
      have off: "i \<notin> set (EQFree # EQAltFree # U @ Q EQAltFree)" "p \<in> main \<Longrightarrow> i \<notin> set ((Q(EQFree := U @ Q EQAltFree, EQAltFree := [])) p)"
        if i: "i \<in> set ?V" for i p
      proof -
        have iF: "i \<in> set (Q EQFree)" using i assms(2) by simp
        have "distinct (U @ ?V)" using ringsD(3) [OF r m(1)] assms(2) by simp
        then have "i \<notin> set U" using i by auto
        moreover have no: "i \<notin> set (Q p)" if "p \<in> main" "p \<noteq> EQFree" for p using ringsD(5) [OF r m(1) that(1) _ iF] that(2) by auto
        ultimately show "p \<in> main \<Longrightarrow> i \<notin> set ((Q(EQFree := U @ Q EQAltFree, EQAltFree := [])) p)"
          using m(2,3) by (cases "p = EQFree"; cases "p = EQAltFree") auto
        show "i \<notin> set (EQFree # EQAltFree # U @ Q EQAltFree)" using \<open>i \<notin> set U\<close> no [OF m(2,3)] ringsD(4) [OF r m(1) iF] by auto
      qed
      have lk: "linked ?a" "queue ?a EQFree U" "queue ?a EQAltFree (Q EQAltFree)" using ringsD(1,2) [OF cut(1) m(1)] ringsD(2) [OF cut(1) m(2)] by simp_all
      have aw: "away (EQFree # U) (EQAltFree # Q EQAltFree)" using rings_away [OF cut(1) m(1,2)] by simp
      have "nxt ?c x = nxt ?a x \<and> prv ?c x = prv ?a x" if "x \<in> set ?V" for x
        by (rule AppendList_queue(5) [OF lk aw off(1) [OF that]])
      then have ch: "chain (nxt ?c) (prv ?c) EQFree ?V"
        using chain_cong [of ?V "nxt ?c" "nxt ?a" "prv ?c" "prv ?a"] cut(5) list.set_sel(2) [OF V(1)] by blast
      have ka: "keeps ix ?c" by (rule keeps_trans [OF relinked_keeps [OF cut(2)] rc(2)])
      have range: "0 \<le> i \<and> i < int (length (iSlots ?c))" if "i \<in> set ?V" for i
        using ringsD(4) [OF r m(1), of i] that assms(2) keepsD(11) [OF ka] by auto
      define Qc where "Qc = Q(EQFree := U @ Q EQAltFree, EQAltFree := [])"
      have W: "Qc EQFree = U @ Q EQAltFree" "Qc EQFree \<noteq> []" using False by (simp_all add: Qc_def)
      have j: "rings main (join_free (last (Qc EQFree)) (hd ?V) (last ?V) ?c) (Qc(EQFree := Qc EQFree @ ?V))"
        "relinked ?c (join_free (last (Qc EQFree)) (hd ?V) (last ?V) ?c)"
        using join_rings [OF rc(1) [folded Qc_def] W(2) V(1) ch range] off(2) [folded Qc_def] by blast+
      have e2: "merge_free n ix = join_free (last (Qc EQFree)) (hd ?V) (last ?V) ?c" unfolding W(1) V(2) by (rule eq)
      have Q2: "Qc(EQFree := Qc EQFree @ ?V) = Q(EQFree := U @ Q EQAltFree @ ?V, EQAltFree := [])"
        unfolding W(1) by (auto simp: fun_eq_iff Qc_def)
      show ?thesis using j keeps_trans [OF ka relinked_keeps [OF j(2)]] unfolding e2 Q2 by blast
    qed
  qed
  then show "rings main (merge_free n ix) (Q(EQFree := U @ Q EQAltFree @ ?V, EQAltFree := []))" "keeps ix (merge_free n ix)" by blast+
qed

section \<open>Shrinking\<close>

definition truncate :: "int \<Rightarrow> RObjectIx \<Rightarrow> RObjectIx" where
  "truncate n ix = ix\<lparr>iAllocated := n, iModListShift := mod_list_shift n, iSlots := take (nat n) (iSlots ix)\<rparr>"

lemma truncate_rings:
  assumes "rings main ix Q" "0 \<le> n" "\<And>q i. q \<in> main \<Longrightarrow> i \<in> set (Q q) \<Longrightarrow> i < n"
  shows "rings main (truncate n ix) Q"
proof -
  let ?t = "truncate n ix"
  have len: "int (length (iSlots ?t)) = min n (int (length (iSlots ix)))" using assms(2) by (simp add: truncate_def)
  have links: "nxt ?t i = nxt ix i \<and> prv ?t i = prv ix i" if "i < n" for i
    using that assms(2) unfolding nxt_def prv_def node_def len
    by (auto simp: link_next_def link_prev_def truncate_def nth_take_lemma nat_less_iff)
  have "queue ?t q (Q q)" if q: "q \<in> main" for q
  proof -
    have o: "queue ix q (Q q)" by (rule ringsD(2) [OF assms(1) q])
    have "q < n" using ringsD(6) [OF assms(1) q] assms(2) by simp
    then have "dlring (nxt ?t) (prv ?t) q (Q q) = dlring (nxt ix) (prv ix) q (Q q)"
      using links assms(3) [OF q] by (intro dlring_cong) auto
    then show ?thesis using o assms(3) [OF q] unfolding queue_def len by auto
  qed
  moreover have "linked ?t" using ringsD(1) [OF assms(1), of EQFree] by (auto simp add: linked_def truncate_def)
  ultimately show ?thesis using assms(1) unfolding rings_def by blast
qed

lemma Empty_rings:
  assumes "rings main ix Q"
  shows "rings main (Empty EQFree ix) (Q(EQFree := []))" "relinked ix (Empty EQFree ix)"
proof -
  have lk: "linked ix" using ringsD(1) [OF assms, of EQFree] by simp
  have rg: "- 6 \<le> EQFree" "EQFree < 0" by simp_all
  note e = Empty_links [OF lk rg]
  have "queue (Empty EQFree ix) q ((Q(EQFree := [])) q)" if "q \<in> main" for q
    using e(2) e(3) [OF ringsD(2) [OF assms that]] by (cases "q = EQFree") simp_all
  moreover have "linked (Empty EQFree ix)" using relinkedD(19) [OF e(1)] lk by simp
  moreover have "set ((Q(EQFree := [])) p) \<inter> set ((Q(EQFree := [])) p') = {}" if "p \<in> main" "p' \<in> main" "p \<noteq> p'" for p p'
  proof -
    have "set ((Q(EQFree := [])) x) \<subseteq> set (Q x)" for x by simp
    then show ?thesis using ringsD(5) [OF assms that] by blast
  qed
  ultimately show "rings main (Empty EQFree ix) (Q(EQFree := []))" unfolding rings_def by simp
  show "relinked ix (Empty EQFree ix)" by (rule e(1))
qed

lemma table_truncate:
  assumes "table ix Q" "Q EQFree = U @ [n..iAllocated ix - 1]" "iCount ix \<le> n" "n \<le> iAllocated ix" "rings main ix' (Q(EQFree := U))" "keeps ix ix'"
  shows "table (truncate n ix') (Q(EQFree := U))" "hmap (truncate n ix') = hmap ix"
proof -
  let ?t = "truncate n ix'" and ?Q = "Q(EQFree := U)"
  note k = keepsD [OF assms(6)]
  have n: "0 \<le> n" using tableD(3) [OF assms(1)] assms(3) by simp
  have len: "int (length (iSlots ix')) = iAllocated ix" using k(11) tableD(2) [OF assms(1)] by simp
  have dF: "distinct (U @ [n..iAllocated ix - 1])" using ringsD(3) [OF tableD(1) [OF assms(1)], of EQFree] assms(2) by simp
  have U: "i < n" if "i \<in> set U" for i
  proof (rule ccontr)
    assume "\<not> i < n"
    moreover have "i < iAllocated ix" using table_queue(2) [OF assms(1), of EQFree i] assms(2) that by simp
    ultimately have "i \<in> set [n..iAllocated ix - 1]" by simp
    then show False using that dF by auto
  qed
  have bound: "i < n" if "q \<in> main" "i \<in> set (?Q q)" for q i
  proof (cases "q = EQFree")
    case True
    then show ?thesis using U that(2) by simp
  next
    case False
    then have "i \<in> set (Q q)" using that(2) by simp
    from table_queue(4) [OF assms(1) that(1) this False] show ?thesis using assms(3) by simp
  qed
  have rt: "rings main ?t ?Q" by (rule truncate_rings [OF assms(5) n bound])
  have sl: "objr ?t i = objr ix i" "attr ?t i = attr ix i" if "0 \<le> i" "i < n" for i
    using keeps_slots [OF assms(6), of i] that assms(4) tableD(2) [OF assms(1)] by (simp_all add: truncate_def nat_less_iff)
  have gone: "objr ix i = 0" if "n \<le> i" "i < iAllocated ix" for i
    using table_unused [OF assms(1)] that assms(3) by simp
  have sw: "slots_with P ?t = slots_with P ix" if "\<not> P 0" for P
  proof -
    let ?m = "map iObjR (iSlots ix)"
    have "filter P (drop (nat n) ?m) = []"
    proof -
      have "?m ! j = 0" if "nat n \<le> j" "j < length ?m" for j
      proof -
        have "objr ix (int j) = 0" using gone [of "int j"] that n tableD(2) [OF assms(1)] by auto
        then show ?thesis using that(2) by simp
      qed
      then show ?thesis using \<open>\<not> P 0\<close> by (auto simp: filter_empty_conv in_set_conv_nth)
    qed
    then have "filter P (take (nat n) ?m) = filter P ?m" by (metis append.right_neutral append_take_drop_id filter_append)
    moreover have "map iObjR (iSlots ?t) = take (nat n) ?m" using keeps_maps(1) [OF assms(6)] by (simp add: truncate_def take_map [symmetric])
    ultimately show ?thesis by (simp only: slots_with_def)
  qed
  have q: "queued ?t ?Q" unfolding queued_def
  proof (intro allI impI)
    fix i
    assume "0 \<le> i \<and> i < iAllocated ?t"
    then have i: "0 \<le> i" "i < n" by (simp_all add: truncate_def)
    have "i \<in> set (Q EQFree) \<longleftrightarrow> i \<in> set U" using assms(2) i(2) by auto
    then have e: "i \<in> set (?Q EQFree) \<union> set (?Q EQAltFree) \<longleftrightarrow> i \<in> set (Q EQFree) \<union> set (Q EQAltFree)"
      "i \<in> set (?Q EQRsvd) \<union> set (?Q EQAltRsvd) \<longleftrightarrow> i \<in> set (Q EQRsvd) \<union> set (Q EQAltRsvd)" by simp_all
    have "i < iAllocated ix" using i assms(4) by simp
    then show "(objr ?t i = 0 \<longleftrightarrow> i \<in> set (?Q EQFree) \<union> set (?Q EQAltFree)) \<and>
      (objr ?t i = 1 \<longleftrightarrow> i \<in> set (?Q EQRsvd) \<union> set (?Q EQAltRsvd)) \<and> (objr ?t i < 4 \<longrightarrow> objr ?t i = 0 \<or> objr ?t i = 1)"
      unfolding e sl(1) [OF i] using tableD(6) [OF assms(1)] i(1) unfolding queued_def by blast
  qed
  obtain U0 where U0: "Q EQFree = U0 @ [iCount ix..iAllocated ix - 1]"
    "\<forall>j \<in> set U0 \<union> set (Q EQAltFree) \<union> set (Q EQRsvd) \<union> set (Q EQAltRsvd). j < iCount ix"
    using tableD(7) [OF assms(1)] unfolding unused_last_def by blast
  have "[iCount ix..iAllocated ix - 1] = [iCount ix..n - 1] @ [n..iAllocated ix - 1]"
    using assms(3,4) by (cases "n = iAllocated ix") (simp_all add: upto_split1)
  then have Ue: "U = U0 @ [iCount ix..n - 1]" using U0(1) assms(2) by simp
  have cnt: "iCount ?t = iCount ix" "iAllocated ?t = n" "iActiveCount ?t = iActiveCount ix" "iReservedTotal ?t = iReservedTotal ix"
    "iReservedFree ?t = iReservedFree ix" "NextInstance ?t = NextInstance ix" using k by (simp_all add: truncate_def)
  have u: "unused_last ?t ?Q" unfolding unused_last_def cnt using U0(2) Ue by (intro exI [of _ U0]) simp
  have c: "counted ?t ?Q" using tableD(8) [OF assms(1)] sw [of "\<lambda>v. v \<ge> 4"] sw [of "\<lambda>v. v AND 1 \<noteq> 0"] unfolding counted_def cnt by simp
  have ins: "instanced ?t" using tableD(10) [OF assms(1)] sl assms(4) unfolding instanced_def cnt by auto
  have "int (length (iSlots ?t)) = n" using len assms(4) n by (simp add: truncate_def)
  then show "table ?t ?Q" using rt q u c ins tableD(3,9) [OF assms(1)] assms(3) unfolding table_def cnt by simp
  show "hmap ?t = hmap ix"
  proof (rule ext, clarify)
    fix i w
    show "hmap ?t (i, w) = hmap ix (i, w)" using sl [of i] assms(3) by (auto simp: hmap_def cnt)
  qed
qed

text \<open>The table shrinks to a power of two that has room for all slots in use.\<close>

lemma shrink_ok:
  assumes "table ix Q"
  obtains Q' where "table (shrink_slots ix) Q'" "hmap (shrink_slots ix) = hmap ix" "\<And>q. q \<noteq> EQFree \<Longrightarrow> Q' q = Q q"
    "iCount (shrink_slots ix) = iCount ix" "iReservedFree (shrink_slots ix) = iReservedFree ix"
    "iReservedFreeHWM (shrink_slots ix) = iReservedFreeHWM ix" "iModCount ix = 255 \<Longrightarrow> iModCount (shrink_slots ix) = 255"
    "iAllocated (shrink_slots ix) = min (iAllocated ix) (round_up_pow2 (max (iCount ix) EMinSlots))"
    "\<And>i. 0 \<le> i \<Longrightarrow> i < iCount ix \<Longrightarrow> objr (shrink_slots ix) i = objr ix i"
    "set (Q' EQFree) \<subseteq> set (Q EQFree)" "sorted (Q EQFree) \<Longrightarrow> sorted (Q' EQFree)"
proof -
  let ?n = "round_up_pow2 (max (iCount ix) EMinSlots)"
  obtain m where m: "?n = 2 ^ m" "max (iCount ix) EMinSlots \<le> 2 ^ m"
  proof -
    have b: "0 < max (iCount ix) EMinSlots" "max (iCount ix) EMinSlots \<le> 32768" using tableD(4,5) [OF assms] by simp_all
    show ?thesis using round_up_pow2 [OF b] that by metis
  qed
  show ?thesis
  proof (cases "?n < iAllocated ix")
    case False
    then have "shrink_slots ix = ix" by (simp add: shrink_slots_def)
    then show ?thesis using that [of Q] assms False by simp
  next
    case True
    have cn: "iCount ix \<le> ?n" "0 \<le> ?n" using m by simp_all
    obtain U0 where U0: "Q EQFree = U0 @ [iCount ix..iAllocated ix - 1]" using tableD(7) [OF assms] unfolding unused_last_def by blast
    let ?U = "U0 @ [iCount ix..?n - 1]" and ?V = "[?n..iAllocated ix - 1]"
    have "[iCount ix..iAllocated ix - 1] = [iCount ix..?n - 1] @ ?V" by (rule upto_split1) (use cn True in simp_all)
    then have F: "Q EQFree = ?U @ ?V" using U0 by simp
    have V: "?V \<noteq> []" "hd ?V = ?n" using True by (simp_all add: upto_rec1)
    have r: "rings main ix Q" by (rule tableD(1) [OF assms])
    define ix1 where "ix1 = (if ?U \<noteq> [] then cut_free (last ?U) ix else Empty EQFree ix)"
    have i1: "rings main ix1 (Q(EQFree := ?U))" "relinked ix ix1" "shrink_slots ix = truncate ?n ix1"
    proof -
      have "rings main ix1 (Q(EQFree := ?U)) \<and> relinked ix ix1 \<and> shrink_slots ix = truncate ?n ix1"
      proof (cases "?U = []")
        case True
        have "queue ix EQFree (?n # tl ?V)" using ringsD(2) [OF r, of EQFree] F True V by (metis append_Nil insertI1 list.collapse)
        then have "prv ix ?n = EQFree" "node ix ?n" using dlring_prev_first [of "nxt ix" "prv ix" EQFree ?n "tl ?V"] by (auto simp: queue_def node_def)
        then have "link_prev ix ?n = EQFree" using link_nxt(2) [of ix ?n] by simp
        then show ?thesis using Empty_rings [OF r] True \<open>?n < iAllocated ix\<close> unfolding ix1_def shrink_slots_def Let_def truncate_def Empty_def by simp
      next
        case False
        note cut = cut_rings [OF r F False V(1)]
        have "last ?U \<in> set (Q EQFree)" unfolding F using last_in_set [OF False] by (metis UnI1 set_append)
        then have "last ?U \<noteq> EQFree" using ringsD(4) [OF r, of EQFree "last ?U"] by auto
        then have "shrink_slots ix = truncate ?n (cut_free (last ?U) ix)"
          using cut(3) V(2) True unfolding shrink_slots_def Let_def truncate_def cut_free_def by simp
        then show ?thesis using cut(1,2) False unfolding ix1_def by simp
      qed
      then show "rings main ix1 (Q(EQFree := ?U))" "relinked ix ix1" "shrink_slots ix = truncate ?n ix1" by blast+
    qed
    have kp: "keeps ix ix1" by (rule relinked_keeps [OF i1(2)])
    note tt = table_truncate [OF assms F cn(1) _ i1(1) kp]
    note f = relinkedD [OF i1(2)]
    have ob: "objr (truncate ?n ix1) i = objr ix i" if "0 \<le> i" "i < iCount ix" for i
      using keeps_slots(1) [OF kp, of i] that cn(1) tableD(2,4) [OF assms] by (simp add: truncate_def nat_less_iff)
    show ?thesis
      by (rule that [of "Q(EQFree := ?U)"]) (use tt True F f ob in \<open>auto simp: i1(3) truncate_def sorted_append\<close>)
  qed
qed

end
