(* ===== verification/Objix_End.thy ===== *)
theory Objix_End
  imports Objix_Compact
begin

text \<open>
  The state of an object index between its operations, and \<open>TidyAndCompact\<close> as a whole: none of its
  assertions fails, the handles stay what the other threads make of them, and the table is in its
  normal state again, no larger than before.
\<close>

section \<open>The normal state\<close>

definition size_ok :: "int \<Rightarrow> bool" where
  "size_ok n \<longleftrightarrow> n = 0 \<or> (\<exists>k. 3 \<le> k \<and> k \<le> 15 \<and> n = 2 ^ k)"

definition sized :: "RObjectIx \<Rightarrow> bool" where
  "sized ix \<longleftrightarrow> size_ok (iAllocated ix) \<and> iAllocated ix \<le> EBitMapSize * 2 ^ iModListShift ix"

lemma sized_cong: "iAllocated ix' = iAllocated ix \<Longrightarrow> iModListShift ix' = iModListShift ix \<Longrightarrow> sized ix' = sized ix"
  by (simp add: sized_def)

definition normal :: "RObjectIx \<Rightarrow> (int \<Rightarrow> int list) \<Rightarrow> bool" where
  "normal ix Q \<longleftrightarrow> table ix Q \<and> Q EQAltFree = [] \<and> Q EQAltRsvd = [] \<and> iState ix = ENormal \<and> iModCount ix = 255 \<and>
     0 \<le> iReservedFreeHWM ix \<and> iReservedFreeHWM ix \<le> iCount ix \<and>
     (\<forall>i. 0 \<le> i \<and> i < iAllocated ix \<and> objr ix i = 1 \<longrightarrow> i < iReservedFreeHWM ix) \<and> sized ix"

definition normal_ix :: "RObjectIx \<Rightarrow> bool" where
  "normal_ix ix \<longleftrightarrow> (\<exists>Q. normal ix Q)"

lemma normalD:
  assumes "normal ix Q"
  shows "table ix Q" "Q EQAltFree = []" "Q EQAltRsvd = []" "iState ix = ENormal" "iModCount ix = 255" "0 \<le> iReservedFreeHWM ix"
    "iReservedFreeHWM ix \<le> iCount ix" "0 \<le> i \<Longrightarrow> i < iAllocated ix \<Longrightarrow> objr ix i = 1 \<Longrightarrow> i < iReservedFreeHWM ix" "sized ix"
  using assms by (auto simp: normal_def)

lemma normal_ready: "normal ix Q \<Longrightarrow> ready ix"
  by (auto simp: normal_def ready_def open_ix_def)

lemma reserved_from_all:
  assumes "table ix Q"
  shows "reserved_from ix 0 = iReservedTotal ix"
proof -
  have "map iObjR (iSlots ix) = map (objr ix) [0..iAllocated ix - 1]"
    using tableD(2) [OF assms] by (intro nth_equalityI) auto
  then have "length (filter (\<lambda>v. v AND 1 \<noteq> 0) (map iObjR (iSlots ix))) = length (filter (\<lambda>i. objr ix i AND 1 \<noteq> 0) [0..iAllocated ix - 1])"
    by (simp only: filter_map length_map o_def)
  then show ?thesis using tableD(8) [OF assms] by (simp add: counted_def slots_with_def reserved_from_def)
qed

section \<open>The index without slots\<close>

lemma fold_Empty:
  "iAllocated (fold Empty qs ix) = iAllocated ix" "iCount (fold Empty qs ix) = iCount ix" "iActiveCount (fold Empty qs ix) = iActiveCount ix"
  "iReservedFree (fold Empty qs ix) = iReservedFree ix" "iReservedTotal (fold Empty qs ix) = iReservedTotal ix"
  "iReservedFreeHWM (fold Empty qs ix) = iReservedFreeHWM ix" "iState (fold Empty qs ix) = iState ix" "iModCount (fold Empty qs ix) = iModCount ix"
  "NextInstance (fold Empty qs ix) = NextInstance ix"
  by (induction qs arbitrary: ix) (simp_all add: Empty_def set_next_def set_prev_def)

lemma Empty_slots: "q < 0 \<Longrightarrow> iSlots (Empty q ix) = iSlots ix" "q < 0 \<Longrightarrow> length (iFreeQ (Empty q ix)) = length (iFreeQ ix)"
  by (simp_all add: Empty_def set_next_def set_prev_def)

lemma fold_Empty_queues:
  assumes "linked ix" "distinct qs" "\<And>q. q \<in> set qs \<Longrightarrow> - 6 \<le> q \<and> q < 0"
  shows "linked (fold Empty qs ix) \<and> iSlots (fold Empty qs ix) = iSlots ix \<and> (\<forall>q \<in> set qs. queue (fold Empty qs ix) q []) \<and>
    (\<forall>q L. queue ix q L \<longrightarrow> q \<notin> set qs \<longrightarrow> queue (fold Empty qs ix) q L)"
  using assms
proof (induction qs arbitrary: ix)
  case (Cons q qs)
  have rg: "- 6 \<le> q" "q < 0" using Cons.prems(3) [of q] by simp_all
  note e = Empty_links [OF Cons.prems(1) rg]
  have lk: "linked (Empty q ix)" using relinkedD(19) [OF e(1)] Cons.prems(1) by simp
  note IH = Cons.IH [OF lk]
  have IH': "linked (fold Empty qs (Empty q ix)) \<and> iSlots (fold Empty qs (Empty q ix)) = iSlots (Empty q ix) \<and>
      (\<forall>p \<in> set qs. queue (fold Empty qs (Empty q ix)) p []) \<and>
      (\<forall>p L. queue (Empty q ix) p L \<longrightarrow> p \<notin> set qs \<longrightarrow> queue (fold Empty qs (Empty q ix)) p L)"
    by (rule IH) (use Cons.prems(2,3) in auto)
  have s: "iSlots (Empty q ix) = iSlots ix" by (rule Empty_slots(1) [OF rg(2)])
  show ?case using IH' e(2,3) Cons.prems(2) s by auto
qed simp

lemma no_slots_normal:
  assumes "iSlots ix = []" "length (iFreeQ ix) = 6" "iAllocated ix = 0" "iCount ix = 0" "iActiveCount ix = 0" "iReservedFree ix = 0"
    "iReservedTotal ix = 0" "iReservedFreeHWM ix = 0" "iState ix = ENormal" "iModCount ix = 255" "gen_ok (NextInstance ix)"
  shows "normal (fold Empty [EQFree, EQAltFree, EQTempFree, EQRsvd, EQAltRsvd, EQTempRsvd] ix) (\<lambda>q. [])"
    "hmap (fold Empty [EQFree, EQAltFree, EQTempFree, EQRsvd, EQAltRsvd, EQTempRsvd] ix) = Map.empty"
proof -
  let ?qs = "[EQFree, EQAltFree, EQTempFree, EQRsvd, EQAltRsvd, EQTempRsvd]"
  define ix' where "ix' = fold Empty ?qs ix"
  have lk: "linked ix" using assms(1,2) by (simp add: linked_def)
  have f: "linked ix' \<and> iSlots ix' = iSlots ix \<and> (\<forall>q \<in> set ?qs. queue ix' q [])"
    unfolding ix'_def using fold_Empty_queues [OF lk, of ?qs] by force
  have "rings main ix' (\<lambda>q. [])" using f by (simp add: rings_def)
  moreover note g = fold_Empty [of ?qs ix, folded ix'_def]
  ultimately have "table ix' (\<lambda>q. [])" using f assms
    by (auto simp: table_def queued_def unused_last_def counted_def instanced_def slots_with_def)
  then show "normal (fold Empty ?qs ix) (\<lambda>q. [])" using g assms unfolding ix'_def [symmetric] by (simp add: normal_def size_ok_def sized_def)
  show "hmap (fold Empty ?qs ix) = Map.empty" using g(2) assms(4) unfolding ix'_def [symmetric] by (auto simp: hmap_def)
qed

lemma ctor_normal:
  assumes "gen_ok first"
  shows "normal (RObjectIx_ctor first) (\<lambda>q. [])" "abs_ix (RObjectIx_ctor first) = (Map.empty, 0)"
proof -
  let ?ix = "\<lparr>iAllocated = 0, iCount = 0, iActiveCount = 0, iReservedFree = 0, iReservedTotal = 0, iReservedFreeHWM = 0,
        iFreeQ = replicate 6 \<lparr>iNext = 0, iPrev = 0\<rparr>, iSlots = [], iAmortize = 0, iState = ENormal, iModCount = 255,
        iModListShift = 0, iIndex = replicate 4 0, iBitMap = replicate 4 0, iObj = 0, iBoundary = 0, iResult = 0,
        NextInstance = first\<rparr>"
  note n = no_slots_normal [of ?ix, folded RObjectIx_ctor_def]
  show "normal (RObjectIx_ctor first) (\<lambda>q. [])" by (rule n(1)) (use assms in simp_all)
  have "hmap (RObjectIx_ctor first) = Map.empty" by (rule n(2)) (use assms in simp_all)
  moreover have "iReservedFree (RObjectIx_ctor first) = 0" unfolding RObjectIx_ctor_def fold_Empty by simp
  ultimately show "abs_ix (RObjectIx_ctor first) = (Map.empty, 0)" by (simp add: abs_ix_def)
qed

lemma reset_normal:
  assumes "table ix Q" "iActiveCount ix = 0" "iReservedTotal ix = 0"
  shows "normal (reset_index ix) (\<lambda>q. [])" "abs_ix (reset_index ix) = abs_ix ix"
proof -
  let ?ix = "clear_mod_list (ix\<lparr>iAllocated := 0, iCount := 0, iReservedFree := 0, iReservedFreeHWM := 0, iSlots := [], iAmortize := 0,
          iState := ENormal, iModCount := 255, iModListShift := 0\<rparr>)"
  have "length (iFreeQ ix) = 6" using ringsD(1) [OF tableD(1) [OF assms(1)], of EQFree] by (simp add: linked_def)
  then have pre: "iSlots ?ix = []" "length (iFreeQ ?ix) = 6" "iAllocated ?ix = 0" "iCount ?ix = 0" "iActiveCount ?ix = 0" "iReservedFree ?ix = 0"
    "iReservedTotal ?ix = 0" "iReservedFreeHWM ?ix = 0" "iState ?ix = ENormal" "iModCount ?ix = 255" "gen_ok (NextInstance ?ix)"
    using assms(2,3) tableD(9) [OF assms(1)] by (simp_all add: clear_mod_list_def)
  note n = no_slots_normal [OF pre, folded reset_index_def]
  show "normal (reset_index ix) (\<lambda>q. [])" by (rule n(1))
  have z: "filter P (map iObjR (iSlots ix)) = []" if "slots_with P ix = 0" for P using that by (simp add: slots_with_def filter_map)
  have free: "\<not> objr ix i \<ge> 4" "\<not> objr ix i AND 1 \<noteq> 0" if "0 \<le> i" "i < iAllocated ix" for i
  proof -
    have "nat i < length (iSlots ix)" using that tableD(2) [OF assms(1)] by linarith
    then have "objr ix i \<in> set (map iObjR (iSlots ix))" by simp
    then show "\<not> objr ix i \<ge> 4" "\<not> objr ix i AND 1 \<noteq> 0"
      using z [of "\<lambda>v. v \<ge> 4"] z [of "\<lambda>v. v AND 1 \<noteq> 0"] tableD(8) [OF assms(1)] assms(2,3) unfolding counted_def filter_empty_conv by auto
  qed
  have "Q EQRsvd = []" "Q EQAltRsvd = []"
  proof -
    have "i \<notin> set (Q q)" if "q = EQRsvd \<or> q = EQAltRsvd" for i q
    proof
      assume i: "i \<in> set (Q q)"
      have "q \<in> main" using that by auto
      from table_queue [OF assms(1) this i] show False using free(2) [of i] that by auto
    qed
    then show "Q EQRsvd = []" "Q EQAltRsvd = []" by (metis list.set_intros(1) neq_Nil_conv)+
  qed
  then have "iReservedFree ix = 0" using tableD(8) [OF assms(1)] by (simp add: counted_def)
  moreover have "hmap ix = Map.empty" unfolding hmap_alloc [OF assms(1)] using free(1) by (auto simp: fun_eq_iff)
  moreover have "iReservedFree (reset_index ix) = 0" unfolding reset_index_def fold_Empty using pre by simp
  ultimately show "abs_ix (reset_index ix) = abs_ix ix" using n(2) by (simp add: abs_ix_def)
qed

section \<open>After the scan\<close>

lemma sorted_split:
  assumes "sorted A" "distinct A" "{c..n - 1} \<subseteq> set A" "\<And>i. i \<in> set A \<Longrightarrow> i < n" "c \<le> n"
  shows "A = filter (\<lambda>i. i < c) A @ [c..n - (1 :: int)]"
proof (rule sorted_distinct_set_unique)
  show "sorted (filter (\<lambda>i. i < c) A @ [c..n - 1])" using assms(1) by (auto simp: sorted_append sorted_wrt_filter)
  show "distinct (filter (\<lambda>i. i < c) A @ [c..n - 1])" using assms(2) by auto
  show "set A = set (filter (\<lambda>i. i < c) A @ [c..n - 1])" using assms(3,4) by force
qed (use assms in simp_all)

text \<open>The last statements of \<open>TidyAndCompact\<close>, from the state at the end of the scan.\<close>

definition tidy_end :: "tidy_scan \<Rightarrow> RObjectIx \<Rightarrow> RObjectIx" where
  "tidy_end s ix2 =
     (let ix3 = ix2\<lparr>iCount := max (hwm s) (iBoundary ix2) + 1\<rparr>;
          ix4 = (if rfhwm s > iReservedFreeHWM ix3 then ix3\<lparr>iReservedFreeHWM := rfhwm s\<rparr> else ix3);
          ix5 = PrependList EQAltRsvd EQRsvd ix4;
          ix6 = merge_free (max (iCount ix2) (iBoundary ix5 + 1)) ix5;
          ix7 = shrink_slots ix6
      in ix7\<lparr>iAmortize := iAllocated ix7 div 2, iState := ENormal\<rparr>)"

text \<open>Up to the shrinking.\<close>

lemma tidy_merge_ok:
  assumes "table ix Q" "tidying alone s Q ix" "pos s = iCount ix"
  defines "c \<equiv> max (hwm s) (iBoundary ix) + 1" and "n \<equiv> iCount ix"
  defines "ix4 \<equiv> ix\<lparr>iCount := c, iReservedFreeHWM := max (rfhwm s) (iReservedFreeHWM ix)\<rparr>"
  defines "ix6 \<equiv> merge_free n (PrependList EQAltRsvd EQRsvd ix4)"
  obtains Q' where "table ix6 Q'" "hmap ix6 = hmap ix" "keeps ix4 ix6" "Q' EQAltFree = []" "Q' EQAltRsvd = []"
    "alone \<longrightarrow> sorted (Q' EQRsvd @ Q' EQFree)"
proof -
  note T = tidyingD [OF assms(2)] and r = tableD(1) [OF assms(1)]
  have m: "EQFree \<in> main" "EQAltFree \<in> main" "EQRsvd \<in> main" "EQAltRsvd \<in> main" "EQAltRsvd \<noteq> EQRsvd" by simp_all
  have c: "0 \<le> c" "c \<le> n" using T(5-8) assms(3) by (auto simp: c_def n_def)
  have nal: "n \<le> iAllocated ix" using tableD(4) [OF assms(1)] by (simp add: n_def)
  obtain U where U: "Q EQFree = U @ [n..iAllocated ix - 1]"
    "\<forall>j \<in> set U \<union> set (Q EQAltFree) \<union> set (Q EQRsvd) \<union> set (Q EQAltRsvd). j < n"
    using tableD(7) [OF assms(1)] unfolding unused_last_def n_def by blast
  have low: "i < c" if "i \<in> set (Q q)" "q \<in> main" "i < n" "i \<notin> set (Q EQAltFree)" for i q
    using marksD(1) [OF T(14), of i] that table_queue(1) [OF assms(1) that(2,1)] assms(3) unfolding c_def n_def by simp
  have apart: "i \<notin> set (Q EQAltFree)" if "i \<in> set (Q q)" "q \<in> main" "q \<noteq> EQAltFree" for i q
    using ringsD(5) [OF r that(2) m(2) that(3,1)] .
  have lowU: "i < c" if "i \<in> set U" for i
    using low [of i EQFree] apart [of i EQFree] U that by auto
  have lowR: "i < c" if "i \<in> set (Q EQRsvd) \<union> set (Q EQAltRsvd)" for i
    using that low [of i EQRsvd] low [of i EQAltRsvd] apart [of i EQRsvd] apart [of i EQAltRsvd] U(2) by auto
  have A: "Q EQAltFree = filter (\<lambda>i. i < c) (Q EQAltFree) @ [c..n - 1]"
  proof (rule sorted_split)
    show "sorted (Q EQAltFree)" by (rule T(11))
    show "distinct (Q EQAltFree)" by (rule ringsD(3) [OF r m(2)])
    show "{c..n - 1} \<subseteq> set (Q EQAltFree)"
    proof
      fix i
      assume "i \<in> {c..n - 1}"
      then show "i \<in> set (Q EQAltFree)" using marksD(1) [OF T(14), of i] c assms(3) unfolding c_def n_def by force
    qed
    show "\<And>i. i \<in> set (Q EQAltFree) \<Longrightarrow> i < n" using U(2) by blast
  qed (rule c(2))
  have r4: "rings main ix4 Q" using r rings_cong [of ix4 ix main Q] by (simp add: ix4_def)
  let ?ix5 = "PrependList EQAltRsvd EQRsvd ix4"
  let ?Q5 = "Q(EQRsvd := Q EQAltRsvd @ Q EQRsvd, EQAltRsvd := [])"
  have r5: "rings main ?ix5 ?Q5" "keeps ix4 ?ix5" using PrependList_rings [OF r4 m(4,3,5)] by simp_all
  have al5: "iAllocated ?ix5 = iAllocated ix" using keepsD(1) [OF r5(2)] by (simp add: ix4_def)
  have F5: "?Q5 EQFree = U @ [n..iAllocated ?ix5 - 1]" using U(1) al5 by simp
  have n5: "n \<le> iAllocated ?ix5" using nal al5 by simp
  define Q6 where "Q6 = ?Q5(EQFree := U @ Q EQAltFree @ [n..iAllocated ix - 1], EQAltFree := [])"
  have r6: "rings main ix6 Q6" "keeps ?ix5 ix6"
    using merge_free_rings [where Q = ?Q5, OF r5(1) F5 n5] unfolding ix6_def Q6_def al5 by simp_all
  have k6: "keeps ix4 ix6" by (rule keeps_trans [OF r5(2) r6(2)])
  note k = keepsD [OF k6]
  have len4: "int (length (iSlots ix4)) = iAllocated ix" using tableD(2) [OF assms(1)] by (simp add: ix4_def)
  have sl: "objr ix6 i = objr ix i" "attr ix6 i = attr ix i" if "0 \<le> i" "i < iAllocated ix" for i
    using keeps_slots [OF k6, of i] that len4 by (simp_all add: ix4_def)
  have fld: "iAllocated ix6 = iAllocated ix" "iCount ix6 = c" "iActiveCount ix6 = iActiveCount ix" "iReservedTotal ix6 = iReservedTotal ix"
    "iReservedFree ix6 = iReservedFree ix" "NextInstance ix6 = NextInstance ix" using k by (simp_all add: ix4_def)
  have sets: "set (Q6 EQFree) \<union> set (Q6 EQAltFree) = set (Q EQFree) \<union> set (Q EQAltFree)"
    "set (Q6 EQRsvd) \<union> set (Q6 EQAltRsvd) = set (Q EQRsvd) \<union> set (Q EQAltRsvd)" using U(1) by (auto simp: Q6_def)
  have q6: "queued ix6 Q6" unfolding queued_def fld sets
  proof (intro allI impI)
    fix i
    assume i: "0 \<le> i \<and> i < iAllocated ix"
    then have e: "objr ix6 i = objr ix i" using sl(1) by blast
    show "(objr ix6 i = 0 \<longleftrightarrow> i \<in> set (Q EQFree) \<union> set (Q EQAltFree)) \<and>
      (objr ix6 i = 1 \<longleftrightarrow> i \<in> set (Q EQRsvd) \<union> set (Q EQAltRsvd)) \<and> (objr ix6 i < 4 \<longrightarrow> objr ix6 i = 0 \<or> objr ix6 i = 1)"
      unfolding e using tableD(6) [OF assms(1)] i unfolding queued_def by blast
  qed
  have Fc: "Q6 EQFree = (U @ filter (\<lambda>i. i < c) (Q EQAltFree)) @ [c..iAllocated ix - 1]"
  proof -
    have "[c..iAllocated ix - 1] = [c..n - 1] @ [n..iAllocated ix - 1]"
      using c nal by (cases "n = iAllocated ix") (simp_all add: upto_split1)
    then show ?thesis using arg_cong [OF A, of "\<lambda>l. U @ l @ [n..iAllocated ix - 1]"] by (simp add: Q6_def)
  qed
  have u6: "unused_last ix6 Q6" unfolding unused_last_def fld
    by (rule exI [of _ "U @ filter (\<lambda>i. i < c) (Q EQAltFree)"]) (use Fc lowU lowR in \<open>auto simp: Q6_def\<close>)
  have sw: "slots_with P ix6 = slots_with P ix" for P using keeps_maps(1) [OF k6] by (simp only: slots_with_def) (simp add: ix4_def)
  have "counted ix6 Q6" using tableD(8) [OF assms(1)] unfolding counted_def fld sw by (simp add: Q6_def)
  moreover have "instanced ix6" using tableD(10) [OF assms(1)] sl unfolding instanced_def fld by auto
  moreover have "int (length (iSlots ix6)) = iAllocated ix" using k(11) len4 by simp
  ultimately have t6: "table ix6 Q6" using r6(1) q6 u6 tableD(9) [OF assms(1)] c nal unfolding table_def fld by simp
  have h6: "hmap ix6 = hmap ix"
  proof (rule ext, clarify)
    fix i w
    show "hmap ix6 (i, w) = hmap ix (i, w)" unfolding hmap_alloc [OF t6] hmap_alloc [OF assms(1)] fld using sl [of i] by auto
  qed
  have "sorted (Q6 EQRsvd @ Q6 EQFree)" if alone
  proof -
    have f: "Q EQAltRsvd @ Q EQAltFree = filter (\<lambda>i. objr ix i < 4) [0..n - 1]" using T(15) [OF that] assms(3) by (simp add: n_def)
    have none: "i \<in> set (Q EQAltRsvd @ Q EQAltFree)" if "i \<in> set (Q q)" "q \<in> main" "i < n" for i q
    proof -
      have "0 \<le> i" "objr ix i < 4" using table_queue(1,3) [OF assms(1) that(2,1)] by (simp_all split: if_splits)
      then show ?thesis unfolding f using that(3) by simp
    qed
    have "Q EQRsvd = []"
    proof (rule ccontr)
      assume "Q EQRsvd \<noteq> []"
      then have h: "hd (Q EQRsvd) \<in> set (Q EQRsvd)" by simp
      then show False using none [OF h m(3)] U(2) ringsD(5) [OF r m(3,4) _ h] ringsD(5) [OF r m(3,2) _ h] by auto
    qed
    moreover have "U = []"
    proof (rule ccontr)
      assume "U \<noteq> []"
      then have h: "hd U \<in> set (Q EQFree)" "hd U \<in> set U" using U(1) by simp_all
      then show False using none [OF h(1) m(1)] U(2) ringsD(5) [OF r m(1,4) _ h(1)] ringsD(5) [OF r m(1,2) _ h(1)] by auto
    qed
    ultimately have "Q6 EQRsvd @ Q6 EQFree = filter (\<lambda>i. objr ix i < 4) [0..n - 1] @ [n..iAllocated ix - 1]"
      using f by (simp add: Q6_def)
    then show ?thesis by (auto simp: sorted_append sorted_wrt_filter)
  qed
  then show ?thesis using that [OF t6 h6 k6] by (simp add: Q6_def)
qed

lemma mod_list_shift_fits:
  assumes "3 \<le> m" "m \<le> 15"
  shows "2 ^ m \<le> EBitMapSize * 2 ^ mod_list_shift (2 ^ m)"
proof -
  have "m \<in> {3, 4, 5, 6, 7, 8, 9, 10, 11, 12, 13, 14, 15}" using assms by (simp only: insert_iff empty_iff) presburger
  moreover have "map find_ms1_32 [2, 4, 8, 16, 32, 64, 128, 256] = [1, 2, 3, 4, 5, 6, 7, 8]" by code_simp
  ultimately show ?thesis by (elim insertE emptyE) (simp_all add: mod_list_shift_def)
qed

lemma shrink_shift:
  assumes "round_up_pow2 (max (iCount ix) EMinSlots) = 2 ^ m" "3 \<le> m" "m \<le> 15" "iAllocated ix \<le> EBitMapSize * 2 ^ iModListShift ix"
  shows "iAllocated (shrink_slots ix) \<le> EBitMapSize * 2 ^ iModListShift (shrink_slots ix)"
  using assms mod_list_shift_fits [OF assms(2,3)] by (auto simp: shrink_slots_def Let_def set_next_def set_prev_def)

lemma tidy_end_ok:
  assumes "table ix Q" "tidying alone s Q ix" "pos s = iCount ix" "sized ix" "iAllocated ix \<noteq> 0"
  obtains Q' where "normal (tidy_end s ix) Q'" "abs_ix (tidy_end s ix) = abs_ix ix" "iAllocated (tidy_end s ix) \<le> iAllocated ix"
    "iAllocated (tidy_end s ix) = 8 \<or> iAllocated (tidy_end s ix) < 2 * iCount (tidy_end s ix)" "alone \<longrightarrow> sorted (Q' EQRsvd @ Q' EQFree)"
proof -
  note T = tidyingD [OF assms(2)]
  let ?c = "max (hwm s) (iBoundary ix) + 1" and ?n = "iCount ix"
  define ix4 where "ix4 = ix\<lparr>iCount := ?c, iReservedFreeHWM := max (rfhwm s) (iReservedFreeHWM ix)\<rparr>"
  define ix6 where "ix6 = merge_free ?n (PrependList EQAltRsvd EQRsvd ix4)"
  obtain Q6 where t6: "table ix6 Q6" "hmap ix6 = hmap ix" "keeps ix4 ix6" "Q6 EQAltFree = []" "Q6 EQAltRsvd = []"
    "alone \<longrightarrow> sorted (Q6 EQRsvd @ Q6 EQFree)"
    using tidy_merge_ok [OF assms(1-3)] unfolding ix6_def ix4_def by blast
  note k = keepsD [OF t6(3)]
  define ix7 where "ix7 = shrink_slots ix6"
  let ?ix' = "ix7\<lparr>iAmortize := iAllocated ix7 div 2, iState := ENormal\<rparr>"
  have eq: "tidy_end s ix = ?ix'"
  proof -
    have four: "(if rfhwm s > iReservedFreeHWM (ix\<lparr>iCount := ?c\<rparr>) then (ix\<lparr>iCount := ?c\<rparr>)\<lparr>iReservedFreeHWM := rfhwm s\<rparr> else ix\<lparr>iCount := ?c\<rparr>) = ix4"
      by (auto simp: ix4_def max_def)
    have "iModCount ix4 = 255" using T(2) by (simp add: ix4_def)
    moreover have "keeps ix4 (PrependList EQAltRsvd EQRsvd ix4)"
    proof -
      have "rings main ix4 Q" using tableD(1) [OF assms(1)] rings_cong [of ix4 ix main Q] by (simp add: ix4_def)
      then show ?thesis using PrependList_rings [of main ix4 Q EQAltRsvd EQRsvd] by simp
    qed
    ultimately have "iBoundary (PrependList EQAltRsvd EQRsvd ix4) = iBoundary ix" using keepsD(15) by (simp add: ix4_def)
    then have "max ?n (iBoundary (PrependList EQAltRsvd EQRsvd ix4) + 1) = ?n" using T(6) by simp
    then show ?thesis unfolding tidy_end_def Let_def four ix7_def ix6_def by simp
  qed
  have fld: "iCount ix6 = ?c" "iReservedFree ix6 = iReservedFree ix" "iAllocated ix6 = iAllocated ix"
    "iReservedFreeHWM ix6 = max (rfhwm s) (iReservedFreeHWM ix)" using k by (simp_all add: ix4_def)
  have mc6: "iModCount ix6 = 255" using k(14) T(2) by (simp add: ix4_def)
  obtain Q7 where t7: "table ix7 Q7" "hmap ix7 = hmap ix6" "\<And>q. q \<noteq> EQFree \<Longrightarrow> Q7 q = Q6 q"
    "iCount ix7 = iCount ix6" "iReservedFree ix7 = iReservedFree ix6" "iReservedFreeHWM ix7 = iReservedFreeHWM ix6" "iModCount ix7 = 255"
    "iAllocated ix7 = min (iAllocated ix6) (round_up_pow2 (max (iCount ix6) EMinSlots))"
    "\<And>i. 0 \<le> i \<Longrightarrow> i < iCount ix6 \<Longrightarrow> objr ix7 i = objr ix6 i" "set (Q7 EQFree) \<subseteq> set (Q6 EQFree)" "sorted (Q6 EQFree) \<Longrightarrow> sorted (Q7 EQFree)"
    by (rule shrink_ok [OF t6(1), folded ix7_def]) (rule that; simp add: mc6)
  have c15: "?c \<le> 32768" using tableD(4,5) [OF t6(1)] fld(1) by linarith
  have b: "0 < max ?c EMinSlots" "max ?c EMinSlots \<le> 32768" using max.boundedI [OF c15, of EMinSlots] by simp_all
  obtain m where m: "round_up_pow2 (max ?c EMinSlots) = 2 ^ m" "max ?c EMinSlots \<le> 2 ^ m" "2 ^ m < 2 * max ?c EMinSlots" "m \<le> 15"
    by (rule round_up_pow2 [OF b])
  have m3: "3 \<le> m"
  proof (rule ccontr)
    assume "\<not> 3 \<le> m"
    then have "(2 :: int) ^ m \<le> 2 ^ 2" by (intro power_increasing) simp_all
    then show False using m(2) by simp
  qed
  obtain l where l: "iAllocated ix = 2 ^ l" "3 \<le> l" "l \<le> 15" using assms(4,5) by (auto simp: size_ok_def sized_def)
  have al: "iAllocated ix7 = min (2 ^ l) (2 ^ m)" using t7(8) fld(1,3) m(1) l(1) by simp
  then have al2: "\<exists>j. 3 \<le> j \<and> j \<le> 15 \<and> iAllocated ix7 = 2 ^ j" using l m(4) m3 by (auto simp: min_def)
  have t': "table ?ix' Q7" by (rule table_cong [OF _ _ _ _ _ _ _ _ t7(1)]) simp_all
  have res: "i < iReservedFreeHWM ix7" if "0 \<le> i" "i < iAllocated ix7" "objr ix7 i = 1" for i
  proof -
    have ic: "i < ?c" using table_unused [OF t7(1), of i] that t7(4) fld(1) by (cases "i < ?c") auto
    moreover have "?c \<le> ?n" using T(5-8) assms(3) by auto
    ultimately have "i < iAllocated ix" using tableD(4) [OF assms(1)] by simp
    then have "objr ix i = objr ix6 i" using keeps_slots(1) [OF t6(3), of i] that(1) tableD(2) [OF assms(1)] by (simp add: ix4_def)
    then have "objr ix i = 1" using t7(9) [OF that(1)] ic that(3) fld(1) by simp
    then show ?thesis using marksD(3) [OF T(14) that(1)] ic \<open>?c \<le> ?n\<close> assms(3) t7(6) fld(4) by simp
  qed
  have norm: "normal ?ix' Q7"
    unfolding normal_def
  proof (intro conjI)
    show "iReservedFreeHWM ?ix' \<le> iCount ?ix'" using t7(4,6) fld(1,4) marksD(2) [OF T(14)] by simp
    show "\<forall>i. 0 \<le> i \<and> i < iAllocated ?ix' \<and> objr ?ix' i = 1 \<longrightarrow> i < iReservedFreeHWM ?ix'" using res by simp
    have "iModListShift ix6 = iModListShift ix" using k(9) by (simp add: ix4_def)
    then have "iAllocated ix7 \<le> EBitMapSize * 2 ^ iModListShift ix7"
      using shrink_shift [of ix6 m] m(1,4) m3 fld(1,3) assms(4) unfolding ix7_def sized_def by simp
    then show "sized ?ix'" using al2 by (simp add: size_ok_def sized_def)
    show "0 \<le> iReservedFreeHWM ?ix'" using t7(6) fld(4) T(9) by simp
  qed (use t' t6(4,5) t7(3,7) in simp_all)
  have "hmap ?ix' = hmap ix7" by (rule hmap_cong) simp_all
  then have ab: "abs_ix ?ix' = abs_ix ix" using t6(2) t7(2,5) fld(2) by (simp add: abs_ix_def)
  have "iAllocated ?ix' = 8 \<or> iAllocated ?ix' < 2 * iCount ?ix'"
  proof (cases "?c < 8")
    case True
    then have "iAllocated ix7 < 16" using al m(3) by simp
    moreover obtain j where j: "3 \<le> j" "iAllocated ix7 = 2 ^ j" using al2 by blast
    have "j = 3"
    proof (rule ccontr)
      assume "j \<noteq> 3"
      then have "(2 :: int) ^ 4 \<le> 2 ^ j" using j(1) by (intro power_increasing) simp_all
      then show False using j(2) \<open>iAllocated ix7 < 16\<close> by simp
    qed
    then show ?thesis using j(2) by simp
  next
    case False
    then have "8 \<le> ?c" by linarith
    then have "2 ^ m < 2 * ?c" using m(3) by (simp only: max.absorb1)
    moreover have "iAllocated ix7 \<le> 2 ^ m" using al by simp
    moreover have "iCount ix7 = ?c" by (rule trans [OF t7(4) fld(1)])
    ultimately have "iAllocated ix7 < 2 * iCount ix7" by (simp only: le_less_trans)
    then show ?thesis by simp
  qed
  moreover have "sorted (Q7 EQRsvd @ Q7 EQFree)" if alone
    using t6(6) that t7(3) [of EQRsvd] t7(10,11) by (auto simp: sorted_append)
  ultimately show ?thesis using that [of Q7] norm ab al l(1) unfolding eq by simp
qed
section \<open>Tidying and compacting\<close>

text \<open>The handles after a compaction that starts alone, or with others, in a table in its normal state.\<close>

definition compacted :: "bool \<Rightarrow> RObjectIx \<Rightarrow> bool" where
  "compacted alone ix \<longleftrightarrow> (\<exists>Q. normal ix Q \<and> (iAllocated ix < 16 \<or> iAllocated ix < 2 * iCount ix) \<and> (alone \<longrightarrow> sorted (Q EQRsvd @ Q EQFree)))"

lemma TidyAndCompact_run:
  assumes "normal ix Q" "iAllocated ix \<noteq> 0" "\<not> (iActiveCount ix = 0 \<and> iReservedTotal ix = 0)"
    "tidy_loop U (tl envs) \<lparr>pos = 0, hwm = -1, rfhwm = 0, rsvd_remain = iReservedTotal ix\<rparr>
       (others U envs (ix\<lparr>iAmortize := -1, iBoundary := -1, iResult := 0, iModCount := 255, iState := ETidying, iReservedFreeHWM := 0\<rparr>)) = (s, ix2)"
    "tidying alone s Q2 ix2" "table ix2 Q2" "pos s = iCount ix2"
  shows "TidyAndCompact U envs ix = Inr (tidy_end s ix2)"
proof -
  note N = normalD [OF assms(1)] and T = tidyingD [OF assms(5)]
  have m: "EQAltFree \<in> main" "EQAltRsvd \<in> main" by simp_all
  note r = tableD(1) [OF N(1)]
  have alt: "link_next ix EQAltFree = EQAltFree \<and> link_prev ix EQAltFree = EQAltFree \<and>
      link_next ix EQAltRsvd = EQAltRsvd \<and> link_prev ix EQAltRsvd = EQAltRsvd"
    using rings_next [OF r m(1)] rings_prev [OF r m(1)] rings_next [OF r m(2)] rings_prev [OF r m(2)] N(2,3) by simp
  have st: "\<not> (iAllocated ix = 0 \<or> iState ix = ETerminated)" using assms(2) N(4) by simp
  have a1: "rsvd_remain s = 0"
    using T(13) assms(7) table_unused [OF assms(6)] by (auto simp: reserved_from_def filter_empty_conv)
  have a2: "max (hwm s) (iBoundary ix2) + 1 \<le> iCount ix2" using T(5-8) assms(7) by auto
  have a3: "max (rfhwm s) (iReservedFreeHWM ix2) \<le> max (hwm s) (iBoundary ix2) + 1" using marksD(2) [OF T(14)] .
  show ?thesis
    unfolding TidyAndCompact_def Let_def if_not_P [OF st] asserta_def if_P [OF alt] if_not_P [OF assms(3)] tidy_end_def
    using assms(4) a1 a2 a3 by (simp add: max_def split: if_splits)
qed

lemma reset_compacted: "normal ix (\<lambda>q. []) \<Longrightarrow> iAllocated ix = 0 \<Longrightarrow> compacted alone ix"
  unfolding compacted_def by (rule exI [of _ "\<lambda>q. []"]) simp

lemma TidyAndCompact_ok:
  assumes "normal_ix ix" "ok_envs envs" "alone \<longrightarrow> concat envs = []"
  obtains ix' where "TidyAndCompact U envs ix = Inr ix'" "compacted alone ix'" "scanned envs ix ix'" "iAllocated ix' \<le> iAllocated ix"
proof -
  obtain Q where N: "normal ix Q" using assms(1) by (auto simp: normal_ix_def)
  note n = normalD [OF N]
  note al0 = tableD(4) [OF n(1)] and len = tableD(2) [OF n(1)]
  consider (none) "iAllocated ix = 0" | (reset) "iAllocated ix \<noteq> 0" "iActiveCount ix = 0" "iReservedTotal ix = 0"
    | (scan) "iAllocated ix \<noteq> 0" "\<not> (iActiveCount ix = 0 \<and> iReservedTotal ix = 0)" by blast
  then show ?thesis
  proof cases
    case none
    have "i \<notin> set (Q q)" if "q \<in> main" for q i using table_queue(1,2) [OF n(1) that, of i] none by linarith
    then have "Q EQRsvd = []" "Q EQFree = []" by (metis insertCI last_in_set)+
    then have "compacted alone ix" unfolding compacted_def using N none by (intro exI [of _ Q]) simp
    then show ?thesis using that none scanned_refl [OF refl] by (simp add: TidyAndCompact_def)
  next
    case reset
    have m: "EQAltFree \<in> main" "EQAltRsvd \<in> main" by simp_all
    note r = tableD(1) [OF n(1)]
    have alt: "link_next ix EQAltFree = EQAltFree \<and> link_prev ix EQAltFree = EQAltFree \<and>
        link_next ix EQAltRsvd = EQAltRsvd \<and> link_prev ix EQAltRsvd = EQAltRsvd"
      using rings_next [OF r m(1)] rings_prev [OF r m(1)] rings_next [OF r m(2)] rings_prev [OF r m(2)] n(2,3) by simp
    have e: "TidyAndCompact U envs ix = Inr (reset_index ix)"
      unfolding TidyAndCompact_def asserta_def if_P [OF alt] using reset n(4) by simp
    note rn = reset_normal [OF n(1) reset(2,3)]
    have a: "iAllocated (reset_index ix) = 0" unfolding reset_index_def fold_Empty by (simp add: clear_mod_list_def)
    show ?thesis using that e reset_compacted [OF rn(1) a] scanned_refl [OF rn(2)] a len by simp
  next
    case scan
    define ix1 where "ix1 = ix\<lparr>iAmortize := -1, iBoundary := -1, iResult := 0, iModCount := 255, iState := ETidying, iReservedFreeHWM := 0\<rparr>"
    let ?s = "\<lparr>pos = 0, hwm = -1, rfhwm = 0, rsvd_remain = iReservedTotal ix\<rparr>"
    have t1: "table ix1 Q" by (rule table_cong [OF _ _ _ _ _ _ _ _ n(1)]) (simp_all add: ix1_def)
    have "reserved_from ix1 0 = iReservedTotal ix" using reserved_from_all [OF n(1)] by (simp add: reserved_from_def ix1_def)
    moreover have "0 \<le> iCount ix" using tableD(3) [OF n(1)] by simp
    ultimately have y1: "tidying alone ?s Q ix1" unfolding tidying_def marks_def using n(2,3) by (simp add: ix1_def)
    have same: "ix1\<lparr>iResult := pos ?s\<rparr> = ix1" by (simp add: ix1_def)
    have f1: "iAllocated ix1 = iAllocated ix" "iModListShift ix1 = iModListShift ix" by (simp_all add: ix1_def)
    obtain Q1 where q1: "table (others U envs ix1) Q1" "tidying alone ?s Q1 (others U envs ix1)"
      "iAllocated (others U envs ix1) = iAllocated ix1" "iModListShift (others U envs ix1) = iModListShift ix1"
      by (rule tidying_others [OF t1 y1 assms(2,3), where U = U, unfolded same])
    have tl: "ok_envs (tl envs)" "alone \<longrightarrow> concat (tl envs) = []" using ok_first [OF assms(2)] assms(3) by (cases envs; simp)+
    obtain s ix2 where run: "tidy_loop U (tl envs) ?s (others U envs ix1) = (s, ix2)"
      by (cases "tidy_loop U (tl envs) ?s (others U envs ix1)")
    obtain Q2 where q2: "table ix2 Q2" "tidying alone s Q2 ix2" "pos s = iCount ix2" "scanned (tl envs) (others U envs ix1) ix2"
      "iAllocated ix2 = iAllocated ix" "iModListShift ix2 = iModListShift ix"
      using sweep_loop_ok [OF q1(1,2) tl run] q1(3,4) f1 by auto
    have r1: "ready ix1" using t1 by (auto simp: ready_def open_ix_def ix1_def)
    have "hmap ix1 = hmap ix" by (rule hmap_cong) (simp_all add: ix1_def)
    then have ab: "abs_ix ix1 = abs_ix ix" by (simp add: abs_ix_def ix1_def)
    have sc: "scanned envs ix ix2" by (rule scanned_step [OF ab r1 assms(2) q2(4)])
    obtain Q' where Q': "normal (tidy_end s ix2) Q'" "abs_ix (tidy_end s ix2) = abs_ix ix2" "iAllocated (tidy_end s ix2) \<le> iAllocated ix2"
      "iAllocated (tidy_end s ix2) = 8 \<or> iAllocated (tidy_end s ix2) < 2 * iCount (tidy_end s ix2)" "alone \<longrightarrow> sorted (Q' EQRsvd @ Q' EQFree)"
      by (rule tidy_end_ok [OF q2(1,2,3)]) (use q2(5,6) n(9) scan(1) in \<open>auto simp: sized_def\<close>)
    have "TidyAndCompact U envs ix = Inr (tidy_end s ix2)" by (rule TidyAndCompact_run [OF N scan run [unfolded ix1_def] q2(2,1,3)])
    moreover have "compacted alone (tidy_end s ix2)" unfolding compacted_def using Q' by (intro exI [of _ Q']) auto
    moreover have "scanned envs ix (tidy_end s ix2)" using scanned_abs [OF sc refl Q'(2)] .
    ultimately show ?thesis using that Q'(3) q2(5) by simp
  qed
qed

lemma compacted_normal: "compacted alone ix \<Longrightarrow> normal_ix ix"
  by (auto simp: compacted_def normal_ix_def)

end
