(* ===== verification/Objix_Reserve.thy ===== *)
theory Objix_Reserve
  imports Objix_End
begin

text \<open>
  Reserving slots and giving them back, one slot at a time, while other threads add and remove handles
  between any two of them.
\<close>

section \<open>Histories with reservations\<close>

text \<open>The actions served, in turn, and the slots that were reserved between them, less those given back.\<close>

inductive changed :: "ix_act list \<Rightarrow> int \<Rightarrow> ix_abs \<Rightarrow> ix_abs \<Rightarrow> bool" where
  unchanged: "changed [] 0 s s"
| act_served: "\<lbrakk>served act r s s1; changed acts d s1 s'\<rbrakk> \<Longrightarrow> changed (act # acts) d s s'"
| reserves: "\<lbrakk>0 \<le> k + e; changed acts d (m, k + e) s'\<rbrakk> \<Longrightarrow> changed acts (d + e) (m, k) s'"

lemma changed_append: "changed as d s s1 \<Longrightarrow> changed bs e s1 s' \<Longrightarrow> changed (as @ bs) (d + e) s s'"
proof (induction rule: changed.induct)
  case (reserves k f acts d m s1)
  then have "changed (acts @ bs) (d + e + f) (m, k) s'" using changed.reserves [of k f "acts @ bs" "d + e" m s'] reserves by simp
  then show ?case by (simp add: ac_simps)
qed (simp_all add: act_served)

lemma served_changed: "served_all acts s s' \<Longrightarrow> changed acts 0 s s'"
  by (induction rule: served_all.induct) (simp_all add: unchanged act_served)

definition moved_on :: "ix_act list list \<Rightarrow> int \<Rightarrow> RObjectIx \<Rightarrow> RObjectIx \<Rightarrow> bool" where
  "moved_on envs d ix ix' \<longleftrightarrow> (\<exists>k. changed (concat (take k envs)) d (abs_ix ix) (abs_ix ix'))"

lemma moved_on_refl: "abs_ix ix' = abs_ix ix \<Longrightarrow> moved_on envs 0 ix ix'"
  unfolding moved_on_def by (rule exI [of _ 0]) (simp add: unchanged)

lemma moved_on_cong: "moved_on envs d ix ix' \<Longrightarrow> abs_ix ix0 = abs_ix ix \<Longrightarrow> abs_ix ix1 = abs_ix ix' \<Longrightarrow> moved_on envs d ix0 ix1"
  by (simp add: moved_on_def)

lemma scanned_moved_on: "scanned envs ix ix' \<Longrightarrow> moved_on envs 0 ix ix'"
  unfolding scanned_def moved_on_def using served_changed by blast

text \<open>A change of the reservations, then the others, then the rest.\<close>

lemma moved_on_step:
  assumes "hmap ix1 = hmap ix" "iReservedFree ix1 = iReservedFree ix + e" "0 \<le> iReservedFree ix1" "ready ix1" "ok_envs envs"
    "moved_on (tl envs) d (others U envs ix1) ix'"
  shows "moved_on envs (d + e) ix ix'"
proof -
  obtain k where "changed (concat (take k (tl envs))) d (abs_ix (others U envs ix1)) (abs_ix ix')" using assms(6) by (auto simp: moved_on_def)
  moreover have "served_all (first_env envs) (abs_ix ix1) (abs_ix (others U envs ix1))"
    using ready_fold(2) [OF assms(4), of "first_env envs" U] ok_first [OF assms(5)] by (simp add: others_first)
  ultimately have "changed (first_env envs @ concat (take k (tl envs))) (0 + d) (abs_ix ix1) (abs_ix ix')"
    by (intro changed_append served_changed) simp_all
  then have "changed (concat (take (Suc k) envs)) d (hmap ix, iReservedFree ix + e) (abs_ix ix')"
    unfolding first_env_take by (simp add: abs_ix_def assms(1,2))
  then have "changed (concat (take (Suc k) envs)) (d + e) (abs_ix ix) (abs_ix ix')"
    unfolding abs_ix_def using assms(2,3) by (intro reserves) simp_all
  then show ?thesis unfolding moved_on_def by blast
qed

section \<open>Other threads in the normal state\<close>

text \<open>The normal state while slots are given back, or the table is copied.\<close>

definition steady :: "RObjectIx \<Rightarrow> (int \<Rightarrow> int list) \<Rightarrow> bool" where
  "steady ix Q \<longleftrightarrow> table ix Q \<and> Q EQAltRsvd = [] \<and> iState ix = ENormal \<and> 0 \<le> iReservedFreeHWM ix \<and> iReservedFreeHWM ix \<le> iCount ix \<and>
     (\<forall>i. 0 \<le> i \<and> i < iAllocated ix \<and> objr ix i = 1 \<longrightarrow> i < iReservedFreeHWM ix) \<and> sized ix"

lemma steadyD:
  assumes "steady ix Q"
  shows "table ix Q" "Q EQAltRsvd = []" "iState ix = ENormal" "0 \<le> iReservedFreeHWM ix" "iReservedFreeHWM ix \<le> iCount ix"
    "0 \<le> i \<Longrightarrow> i < iAllocated ix \<Longrightarrow> objr ix i = 1 \<Longrightarrow> i < iReservedFreeHWM ix" "sized ix"
  using assms by (auto simp: steady_def)

lemma normal_steady: "normal ix Q \<longleftrightarrow> steady ix Q \<and> Q EQAltFree = [] \<and> iModCount ix = 255"
  by (auto simp: normal_def steady_def)

lemma steady_add:
  assumes "steady ix Q" "is_object p"
  shows "\<exists>Q'. steady (run_act U (ActAdd p a) ix) Q' \<and> (Q EQAltFree = [] \<longrightarrow> Q' EQAltFree = [])"
proof -
  note S = steadyD [OF assms(1)]
  have st: "iState ix \<noteq> ETerminated" "iModCount ix = 255 \<or> iState ix = ENormal" using S(3) by simp_all
  obtain inst nx where g: "GetNextInstanceValue (NextInstance ix) = (inst, nx)" by fastforce
  show ?thesis
  proof (cases "Q (slot_queue a) @ Q (slot_queue a + 1)")
    case Nil
    have "steady (ix\<lparr>NextInstance := nx\<rparr>) Q" using DoAdd_none(2) [OF S(1) st(1) Nil g] S(2-5,7) S(6) unfolding steady_def by (simp add: sized_def)
    then show ?thesis using DoAdd_none(1) [OF S(1) st(1) Nil g, of U p] by auto
  next
    case (Cons i rest)
    obtain ix' where s: "DoAdd U p a ix = (MakeHandle i inst, (used_attr U p a inst, used_objr p a), ix')" "table ix' (taken Q (slot_queue a))"
      "slot_put ix i (used_attr U p a inst) (used_objr p a) ix'" "0 \<le> i" "i < iAllocated ix" "iCount ix' = max (iCount ix) (i + 1)"
      "iState ix' = iState ix" "iReservedFreeHWM ix' = iReservedFreeHWM ix" "iModListShift ix' = iModListShift ix"
      using DoAdd_slot [OF S(1) st(1) assms(2) Cons g st(2), of U thesis] by blast
    note d = slot_putD [OF s(3,4)]
    have len: "int (length (iSlots ix)) = iAllocated ix" by (rule tableD(2) [OF S(1)])
    have al: "iAllocated ix' = iAllocated ix" using s(3) by (simp add: slot_put_def)
    have ne: "used_objr p a \<noteq> 1" using used_objr(1) [OF assms(2), of a] free_values(1) by metis
    have "j < iReservedFreeHWM ix'" if "0 \<le> j" "j < iAllocated ix'" "objr ix' j = 1" for j
      using d(3) [of j] that s(5,8) len al ne S(6) [of j] by (cases "j = i") auto
    moreover have "taken Q (slot_queue a) EQAltRsvd = []" "Q EQAltFree = [] \<longrightarrow> taken Q (slot_queue a) EQAltFree = []"
      using S(2) by (auto simp: taken_def slot_queue_def)
    ultimately have "steady ix' (taken Q (slot_queue a))" using s(2,6-8) S(3-5,7) al sized_cong [OF al s(9)] unfolding steady_def by auto
    then show ?thesis using s(1) \<open>Q EQAltFree = [] \<longrightarrow> taken Q (slot_queue a) EQAltFree = []\<close> by auto
  qed
qed

lemma steady_remove:
  assumes "steady ix Q"
  shows "\<exists>Q'. steady (run_act U (ActRemove h) ix) Q' \<and> (Q EQAltFree = [] \<longrightarrow> Q' EQAltFree = [])"
proof -
  note S = steadyD [OF assms]
  have st: "iState ix \<noteq> ETerminated" using S(3) by simp
  show ?thesis
  proof (cases "hmap ix (key h)")
    case None
    then show ?thesis using DoRemove_bad [OF st None] assms by auto
  next
    case (Some px)
    obtain p x where px: "hmap ix (key h) = Some (p, x)" using Some by (cases px) simp
    let ?i = "HandleIndex h"
    obtain ix' r where s: "DoRemove h ix = (r, p, x, ix')" "table ix' (given_back Q (bit x 31) ?i)" "slot_put ix ?i (attr ix ?i) (objr ix ?i AND 1) ix'"
      "0 \<le> ?i" "?i < iCount ix" "objr ix ?i AND 1 \<noteq> 0 \<longleftrightarrow> bit x 31" "iCount ix' = iCount ix" "iState ix' = iState ix"
      "iReservedFreeHWM ix' = (if bit x 31 \<and> (iState ix \<noteq> ETidying \<or> ?i < iResult ix) then max (iReservedFreeHWM ix) (?i + 1) else iReservedFreeHWM ix)"
      "iModListShift ix' = iModListShift ix"
      using DoRemove_used [OF S(1) st px, of thesis] by blast
    note d = slot_putD [OF s(3,4)]
    have len: "int (length (iSlots ix)) = iAllocated ix" by (rule tableD(2) [OF S(1)])
    have ia: "?i < iAllocated ix" using s(5) tableD(4) [OF S(1)] by simp
    have al: "iAllocated ix' = iAllocated ix" using s(3) by (simp add: slot_put_def)
    have hw: "iReservedFreeHWM ix' = (if bit x 31 then max (iReservedFreeHWM ix) (?i + 1) else iReservedFreeHWM ix)"
      using s(9) S(3) by simp
    have "j < iReservedFreeHWM ix'" if "0 \<le> j" "j < iAllocated ix'" "objr ix' j = 1" for j
      using d(3) [of j] that ia len al S(6) [of j] s(6) hw by (cases "j = ?i") auto
    moreover have "given_back Q (bit x 31) ?i EQAltRsvd = []" "given_back Q (bit x 31) ?i EQAltFree = Q EQAltFree"
      using S(2) by (auto simp: given_back_def Let_def)
    ultimately have "steady ix' (given_back Q (bit x 31) ?i)" using s(2,4,5,7,8) hw S(3-5,7) al sized_cong [OF al s(10)] unfolding steady_def by auto
    then show ?thesis using s(1) \<open>given_back Q (bit x 31) ?i EQAltFree = Q EQAltFree\<close> by auto
  qed
qed

definition steady_ix :: "RObjectIx \<Rightarrow> bool" where
  "steady_ix ix \<longleftrightarrow> (\<exists>Q. steady ix Q)"

interpretation steady_acts: guarded "run_act U" ok_act steady_ix for U
proof
  show "ok_act act \<Longrightarrow> steady_ix ix \<Longrightarrow> steady_ix (run_act U act ix)" for act ix
    unfolding steady_ix_def using steady_add steady_remove by (cases act) (metis ok_act.simps(1))+
qed

lemma normal_act:
  assumes "ok_act act" "normal_ix ix"
  shows "normal_ix (run_act U act ix)"
proof -
  obtain Q where Q: "steady ix Q" "Q EQAltFree = []" "iModCount ix = 255" using assms(2) by (auto simp: normal_ix_def normal_steady)
  have "\<exists>Q'. steady (run_act U act ix) Q' \<and> Q' EQAltFree = []"
    using steady_add [OF Q(1)] steady_remove [OF Q(1)] Q(2) assms(1) by (cases act) (metis ok_act.simps(1))+
  moreover have "ready ix" using assms(2) normal_ready by (auto simp: normal_ix_def)
  then have "iModCount (run_act U act ix) = 255"
    using ready_fold(3) [of ix "[act]" U] Q(3) assms(1) by (simp add: same_phase_def)
  ultimately show ?thesis unfolding normal_ix_def normal_steady by blast
qed

interpretation normal_acts: guarded "run_act U" ok_act normal_ix for U
  by unfold_locales (rule normal_act)

lemma normal_others: "normal_ix ix \<Longrightarrow> ok_envs envs \<Longrightarrow> normal_ix (others U envs ix) \<and> iAllocated (others U envs ix) = iAllocated ix"
proof -
  assume a: "normal_ix ix" "ok_envs envs"
  have "ready ix" using a(1) normal_ready by (auto simp: normal_ix_def)
  then have "same_phase ix (others U envs ix)" unfolding others_first using ready_fold(3) ok_first [OF a(2)] by blast
  then show ?thesis using normal_acts.keep_all [of "first_env envs" ix U] a ok_first [OF a(2)] by (simp add: others_first same_phase_def)
qed

section \<open>Reserving\<close>

lemma reserve_slot_ok:
  assumes "normal ix Q" "Q EQFree = i # F"
  shows "normal (reserve_slot i ix) (Q(EQFree := F, EQRsvd := i # Q EQRsvd))" "hmap (reserve_slot i ix) = hmap ix"
    "iReservedFree (reserve_slot i ix) = iReservedFree ix + 1" "iAllocated (reserve_slot i ix) = iAllocated ix"
proof -
  note N = normalD [OF assms(1)]
  have m: "EQFree \<in> main" "EQRsvd \<in> main" by simp_all
  have r: "rings main ix Q" by (rule tableD(1) [OF N(1)])
  have iQ: "i \<in> set (Q EQFree)" using assms(2) by simp
  have i: "0 \<le> i" "i < iAllocated ix" and o0: "objr ix i = 0" using table_queue [OF N(1) m(1) iQ] by simp_all
  have len: "i < int (length (iSlots ix))" using i(2) tableD(2) [OF N(1)] by simp
  have q0: "Q (slot_queue 0) @ Q (slot_queue 0 + 1) = i # F" using assms(2) N(2) by (simp add: slot_queue_def)
  have T: "taken Q (slot_queue 0) = Q(EQFree := F)" using assms(2) by (simp add: taken_def slot_queue_def)
  note d = taken_rings [OF r q0, unfolded T] and mem = taken_members [OF r q0, unfolded T]
  define d2 where "d2 = set_objr i 1 (Dequeue i ix)"
  have al: "iAllocated d2 = iAllocated ix" using keepsD(1) [OF d(2)] by (simp add: d2_def set_objr_def)
  have put2: "slot_put ix i (attr ix i) 1 d2"
    unfolding d2_def by (rule fill_slot_put(2) [OF refl d(2) i(1) len refl])
  have r2: "rings main d2 (Q(EQFree := F))" using d(1) by (simp add: d2_def)
  have len2: "i < int (length (iSlots d2))" using slot_putD(1) [OF put2 i(1) len] len by simp
  define d3 where "d3 = AddHead EQRsvd i d2"
  let ?Q = "Q(EQFree := F, EQRsvd := i # Q EQRsvd)"
  have r3: "rings main d3 ?Q" "keeps d2 d3"
    using AddHead_rings [where Q = "Q(EQFree := F)", OF r2 m(2) i(1) len2 mem(3)] by (simp_all add: d3_def)
  have put3: "slot_put ix i (attr ix i) 1 d3" by (rule slot_put_keeps [OF put2 r3(2)])
  have k: "iCount d3 = iCount ix" "iReservedFreeHWM d3 = iReservedFreeHWM ix" "iActiveCount d3 = iActiveCount ix" "iReservedFree d3 = iReservedFree ix"
    "iReservedTotal d3 = iReservedTotal ix" "iState d3 = iState ix" "iModCount d3 = 255" "NextInstance d3 = NextInstance ix" "iAllocated d3 = iAllocated ix"
    "iModListShift d3 = iModListShift ix"
    using keepsD [OF d(2)] keepsD [OF r3(2)] fieldsD [OF set_objr_fields [of "Dequeue i ix" i 1]] N(5) by (simp_all add: d2_def)
  let ?ix = "reserve_slot i ix"
  have e: "?ix = d3\<lparr>iCount := max (iCount ix) (i + 1), iReservedFreeHWM := max (iReservedFreeHWM ix) (i + 1),
      iReservedFree := iReservedFree ix + 1, iReservedTotal := iReservedTotal ix + 1\<rparr>"
    using k(1-5) by (cases d3) (simp add: reserve_slot_def Let_def d3_def [unfolded d2_def, symmetric] max_def)
  have put: "slot_put ix i (attr ix i) 1 ?ix" using put3 unfolding e by (simp add: slot_put_def)
  have "rings main ?ix ?Q" using r3(1) rings_cong [of ?ix d3 main ?Q] by (simp add: e)
  have u: "unused_last ?ix ?Q"
  proof -
    have "unused_last ?ix (Q(EQFree := F))"
      using taken_unused [OF N(1) q0, of ?ix] k(9) unfolding T e by simp
    then obtain V where V: "F = V @ [iCount ?ix..iAllocated ?ix - 1]"
      "\<forall>j \<in> set V \<union> set (Q EQAltFree) \<union> set (Q EQRsvd) \<union> set (Q EQAltRsvd). j < iCount ?ix"
      unfolding unused_last_def by auto
    have "i < iCount ?ix" unfolding e by simp
    then show ?thesis using V unfolding unused_last_def by (intro exI [of _ V]) auto
  qed
  have t: "table ?ix ?Q"
  proof (rule table_put [OF N(1) put i \<open>rings main ?ix ?Q\<close>])
    show "gen_ok (NextInstance ?ix)" using tableD(9) [OF N(1)] k(8) by (simp add: e)
    show "(1 :: TUint32) = 0 \<longleftrightarrow> i \<in> set (?Q EQFree) \<union> set (?Q EQAltFree)" using mem(3) [OF m(1)] N(2) by simp
    show "(1 :: TUint32) = 1 \<longleftrightarrow> i \<in> set (?Q EQRsvd) \<union> set (?Q EQAltRsvd)" by simp
    show "iReservedFree ?ix = int (length (?Q EQRsvd) + length (?Q EQAltRsvd))" using tableD(8) [OF N(1)] by (simp add: e counted_def)
    show "iActiveCount ?ix = iActiveCount ix - of_bool (objr ix i \<ge> 4) + of_bool ((1 :: TUint32) \<ge> 4)" using k(3) o0 by (simp add: e)
    show "iReservedTotal ?ix = iReservedTotal ix - of_bool (objr ix i AND 1 \<noteq> 0) + of_bool ((1 :: TUint32) AND 1 \<noteq> 0)" using o0 by (simp add: e)
    show "0 \<le> iCount ?ix" "iCount ?ix \<le> iAllocated ix" using tableD(3,4) [OF N(1)] i by (simp_all add: e)
  qed (use mem(1,2) u assms(2) N(2) in auto)
  have "j < max (iReservedFreeHWM ix) (i + 1)" if "0 \<le> j" "j < iAllocated ix" "objr ?ix j = 1" for j
    using slot_putD(3) [OF put i(1) len, of j] that tableD(2) [OF N(1)] N(8) [of j] by (cases "j = i") auto
  then show "normal ?ix ?Q" unfolding normal_def using t N k(6,7,9) i sized_cong [of d3 ix] k(10) by (auto simp: e sized_def)
  show "hmap ?ix = hmap ix"
  proof (rule ext, clarify)
    fix j w
    show "hmap ?ix (j, w) = hmap ix (j, w)"
      using hmap_put [OF N(1) t put i, of j w] o0 by (cases "j = i") (simp_all add: hmap_alloc [OF N(1)])
  qed
  show "iReservedFree ?ix = iReservedFree ix + 1" "iAllocated ?ix = iAllocated ix" using k(9) by (simp_all add: e)
qed

lemma reserve_loop_ok:
  assumes "normal_ix ix" "ok_envs envs" "reserve_loop U envs n ix = (m, ix')"
  shows "normal_ix ix' \<and> iAllocated ix' = iAllocated ix \<and> m \<le> n \<and> moved_on envs (int (n - m)) ix ix' \<and> (m > 0 \<longrightarrow> iCount ix' = iAllocated ix')"
  using assms
proof (induction U envs n ix rule: reserve_loop.induct)
  case (1 U envs ix)
  then show ?case using moved_on_refl [OF refl] by simp
next
  case (2 U envs n ix)
  obtain Q where N: "normal ix Q" using "2.prems"(1) by (auto simp: normal_ix_def)
  note r = tableD(1) [OF normalD(1) [OF N]]
  have m: "EQFree \<in> main" "EQAltFree \<in> main" by simp_all
  have alt: "link_next ix EQAltFree = EQAltFree" using rings_next [OF r m(2)] normalD(2) [OF N] by simp
  show ?case
  proof (cases "Q EQFree")
    case Nil
    have "link_next ix EQFree = EQFree" using rings_next [OF r m(1)] Nil by simp
    then have "reserve_loop U envs (Suc n) ix = (Suc n, ix)" using alt by simp
    then have e: "m = Suc n" "ix' = ix" using "2.prems"(3) by simp_all
    have "iCount ix = iAllocated ix"
      using tableD(4,7) [OF normalD(1) [OF N]] Nil unfolding unused_last_def by auto
    then show ?thesis using e "2.prems"(1) moved_on_refl [OF refl] by simp
  next
    case (Cons i F)
    have i: "link_next ix EQFree = i" "0 \<le> i"
      using rings_next [OF r m(1)] Cons table_queue(1) [OF normalD(1) [OF N] m(1), of i] by simp_all
    note s = reserve_slot_ok [OF N Cons]
    have rec: "reserve_loop U envs (Suc n) ix = reserve_loop U (tl envs) n (others U envs (reserve_slot i ix))"
      using i by simp
    have nx: "normal_ix (reserve_slot i ix)" using s(1) by (auto simp: normal_ix_def)
    note o = normal_others [OF nx "2.prems"(2), of U]
    have tl: "ok_envs (tl envs)" using ok_first [OF "2.prems"(2)] by simp
    have IH: "normal_ix ix' \<and> iAllocated ix' = iAllocated (others U envs (reserve_slot i ix)) \<and> m \<le> n \<and>
        moved_on (tl envs) (int (n - m)) (others U envs (reserve_slot i ix)) ix' \<and> (m > 0 \<longrightarrow> iCount ix' = iAllocated ix')"
      using "2.IH" [OF refl refl] "2.prems"(3) rec i o tl by (auto simp: of_nat_diff)
    have "0 \<le> iReservedFree (reserve_slot i ix)" using tableD(8) [OF normalD(1) [OF s(1)]] by (simp add: counted_def)
    then have "moved_on envs (int (n - m) + 1) ix ix'"
      using moved_on_step [OF s(2,3) _ normal_ready [OF s(1)] "2.prems"(2)] IH by blast
    moreover have "int (n - m) + 1 = int (Suc n - m)" using IH by simp
    ultimately have mo: "moved_on envs (int (Suc n - m)) ix ix'" by (simp only:)
    show ?thesis by (intro conjI mo) (use IH s(4) o in simp_all)
  qed
qed

section \<open>Giving reserved slots back\<close>

lemma unreserve_scan_some: "unreserve_scan slots limit n = Some k \<Longrightarrow>
    limit \<le> k \<and> k < n \<and> IsFreeReserved (slots ! k) \<and> (\<forall>j. k < j \<and> j < n \<longrightarrow> \<not> IsFreeReserved (slots ! j))"
  by (induction slots limit n rule: unreserve_scan.induct) (auto split: if_splits simp: less_Suc_eq)

lemma unreserve_scan_none: "unreserve_scan slots limit n = None \<Longrightarrow> limit \<le> j \<Longrightarrow> j < n \<Longrightarrow> \<not> IsFreeReserved (slots ! j)"
  by (induction slots limit n rule: unreserve_scan.induct) (auto split: if_splits simp: less_Suc_eq)

lemma free_reserved_iff:
  assumes "table ix Q" "0 \<le> i" "i < iAllocated ix"
  shows "IsFreeReserved (iSlots ix ! nat i) \<longleftrightarrow> objr ix i = 1"
proof -
  have "objr ix i < 4 \<longrightarrow> objr ix i = 0 \<or> objr ix i = 1" using tableD(6) [OF assms(1)] assms(2,3) unfolding queued_def by blast
  then show ?thesis by (auto simp: IsFreeReserved_def)
qed

lemma steady_cong:
  assumes "iSlots ix' = iSlots ix" "iFreeQ ix' = iFreeQ ix" "iAllocated ix' = iAllocated ix" "iCount ix' = iCount ix"
    "iActiveCount ix' = iActiveCount ix" "iReservedFree ix' = iReservedFree ix" "iReservedTotal ix' = iReservedTotal ix"
    "NextInstance ix' = NextInstance ix" "iState ix' = iState ix" "0 \<le> iReservedFreeHWM ix'" "iReservedFreeHWM ix' \<le> iCount ix" "iModListShift ix' = iModListShift ix"
    "\<And>i. 0 \<le> i \<Longrightarrow> i < iAllocated ix \<Longrightarrow> objr ix i = 1 \<Longrightarrow> i < iReservedFreeHWM ix'" "steady ix Q"
  shows "steady ix' Q"
proof -
  note S = steadyD [OF assms(14)]
  have "table ix' Q" by (rule table_cong [OF assms(1-7) _ S(1)]) (simp add: assms(8))
  then show ?thesis using S(2,3,7) assms(10,11,13) sized_cong [OF assms(3,12)] unfolding steady_def assms(1,3,4,9) by blast
qed

lemma unreserve_slot_ok:
  assumes "steady ix Q" "iModCount ix = 255" "objr ix (int n) = 1" "int n < iAllocated ix"
    "\<And>j. int n < j \<Longrightarrow> j < iAllocated ix \<Longrightarrow> objr ix j \<noteq> 1"
  shows "\<exists>Q'. steady (unreserve_slot n ix) Q'" "hmap (unreserve_slot n ix) = hmap ix" "iReservedFree (unreserve_slot n ix) = iReservedFree ix - 1"
    "iAllocated (unreserve_slot n ix) = iAllocated ix" "iModCount (unreserve_slot n ix) = 255" "iAmortize (unreserve_slot n ix) = iAmortize ix"
proof -
  let ?i = "int n"
  note S = steadyD [OF assms(1)]
  have m: "EQRsvd \<in> main" "EQAltFree \<in> main" "EQFree \<in> main" by simp_all
  have r: "rings main ix Q" by (rule tableD(1) [OF S(1)])
  have i: "0 \<le> ?i" by simp
  have "objr ix ?i = 1 \<longleftrightarrow> ?i \<in> set (Q EQRsvd) \<union> set (Q EQAltRsvd)" using tableD(6) [OF S(1)] i assms(4) unfolding queued_def by blast
  then have "?i \<in> set (Q EQRsvd)" using assms(3) S(2) by simp
  then obtain X Y where XY: "Q EQRsvd = X @ ?i # Y" by (meson split_list)
  have len: "?i < int (length (iSlots ix))" using assms(4) tableD(2) [OF S(1)] by simp
  have ic: "?i < iCount ix" using table_queue(4) [OF S(1) m(1) \<open>?i \<in> set (Q EQRsvd)\<close>] by simp
  define d1 where "d1 = (set_objr ?i 0 ix)\<lparr>iReservedFree := iReservedFree ix - 1, iReservedTotal := iReservedTotal ix - 1\<rparr>"
  have f0: "iSlots d1 = iSlots (set_objr ?i 0 ix)" "iFreeQ d1 = iFreeQ (set_objr ?i 0 ix)" by (simp_all add: d1_def)
  have r1: "rings main d1 Q" using r rings_cong [OF f0] by simp
  note g = fieldsD [OF set_objr_fields [of ix ?i 0]]
  have put1: "slot_put ix ?i (attr ix ?i) 0 d1"
    using fill_slot_put(2) [OF refl keeps_refl i len refl, of 0] g(1) by (simp add: slot_put_def d1_def)
  define d2 where "d2 = Dequeue ?i d1"
  let ?Q2 = "Q(EQRsvd := X @ Y)"
  have r2: "rings main d2 ?Q2" "keeps d1 d2" using Dequeue_rings [OF r1 m(1) XY] by (simp_all add: d2_def)
  have off: "?i \<notin> set (?Q2 q)" if "q \<in> main" for q
    using ringsD(3) [OF r m(1)] ringsD(5) [OF r m(1) that, of ?i] XY by (cases "q = EQRsvd") auto
  have put2: "slot_put ix ?i (attr ix ?i) 0 d2" by (rule slot_put_keeps [OF put1 r2(2)])
  have len2: "?i < int (length (iSlots d2))" using slot_putD(1) [OF put2 i len] len by simp
  define d3 where "d3 = AddHead EQAltFree ?i d2"
  let ?Q = "Q(EQRsvd := X @ Y, EQAltFree := ?i # Q EQAltFree)"
  have r3: "rings main d3 ?Q" "keeps d2 d3"
    using AddHead_rings [where Q = ?Q2, OF r2(1) m(2) i len2 off] by (simp_all add: d3_def)
  have put3: "slot_put ix ?i (attr ix ?i) 0 d3" by (rule slot_put_keeps [OF put2 r3(2)])
  have k: "iCount d3 = iCount ix" "iActiveCount d3 = iActiveCount ix" "iReservedFree d3 = iReservedFree ix - 1" "iAmortize d3 = iAmortize ix"
    "iReservedTotal d3 = iReservedTotal ix - 1" "iState d3 = iState ix" "iModCount d3 = 255" "NextInstance d3 = NextInstance ix" "iAllocated d3 = iAllocated ix"
    "iModListShift d3 = iModListShift ix"
    using keepsD [OF r2(2)] keepsD [OF r3(2)] g assms(2) by (simp_all add: d1_def)
  let ?ix = "unreserve_slot n ix"
  have "(set_objr ?i 0 ix)\<lparr>iReservedFree := iReservedFree (set_objr ?i 0 ix) - 1, iReservedTotal := iReservedTotal (set_objr ?i 0 ix) - 1\<rparr> = d1"
    by (simp only: d1_def g)
  then have e: "?ix = d3\<lparr>iReservedFreeHWM := ?i\<rparr>" unfolding unreserve_slot_def Let_def d3_def d2_def by (simp only:)
  have put: "slot_put ix ?i (attr ix ?i) 0 ?ix" using put3 unfolding e by (simp add: slot_put_def)
  have ro: "rings main ?ix ?Q" using r3(1) rings_cong [of ?ix d3 main ?Q] by (simp add: e)
  have u: "unused_last ?ix ?Q"
    by (rule unused_same [OF tableD(7) [OF S(1)]]) (use XY k(1,9) in \<open>auto simp: e\<close>)
  have t: "table ?ix ?Q"
  proof (rule table_put [OF S(1) put i assms(4) ro])
    show "gen_ok (NextInstance ?ix)" using tableD(9) [OF S(1)] k(8) by (simp add: e)
    show "(0 :: TUint32) = 0 \<longleftrightarrow> ?i \<in> set (?Q EQFree) \<union> set (?Q EQAltFree)" by simp
    show "(0 :: TUint32) = 1 \<longleftrightarrow> ?i \<in> set (?Q EQRsvd) \<union> set (?Q EQAltRsvd)" using off [OF m(1)] S(2) by simp
    show "iReservedFree ?ix = int (length (?Q EQRsvd) + length (?Q EQAltRsvd))" using tableD(8) [OF S(1)] XY k(3) by (simp add: e counted_def)
    show "iActiveCount ?ix = iActiveCount ix - of_bool (objr ix ?i \<ge> 4) + of_bool ((0 :: TUint32) \<ge> 4)" using k(2) assms(3) by (simp add: e)
    show "iReservedTotal ?ix = iReservedTotal ix - of_bool (objr ix ?i AND 1 \<noteq> 0) + of_bool ((0 :: TUint32) AND 1 \<noteq> 0)" using k(5) assms(3) by (simp add: e)
    show "0 \<le> iCount ?ix" "iCount ?ix \<le> iAllocated ix" using tableD(3,4) [OF S(1)] k(1) by (simp_all add: e)
  qed (use u XY S(2) in auto)
  have "j < ?i" if "0 \<le> j" "j < iAllocated ix" "objr ?ix j = 1" for j
    using slot_putD(3) [OF put i len, of j] that tableD(2) [OF S(1)]  assms(5) [of j] by (cases "j = ?i"; cases "?i < j") auto
  then have "steady ?ix ?Q" unfolding steady_def using t S(2,3,7) k(1,6,9,10) ic by (simp add: e sized_def)
  then show "\<exists>Q'. steady ?ix Q'" by blast
  show "hmap ?ix = hmap ix"
  proof (rule ext, clarify)
    fix j w
    show "hmap ?ix (j, w) = hmap ix (j, w)"
      using hmap_put [OF S(1) t put i assms(4), of j w] assms(3) by (cases "j = ?i") (simp_all add: hmap_alloc [OF S(1)])
  qed
  show "iReservedFree ?ix = iReservedFree ix - 1" "iAllocated ?ix = iAllocated ix" "iModCount ?ix = 255" "iAmortize ?ix = iAmortize ix"
    using k by (simp_all add: e)
qed

text \<open>The actions that can take reserved slots away.\<close>

fun takes_reserved :: "ix_act \<Rightarrow> bool" where
  "takes_reserved (ActAdd p a) = bit a 31"
| "takes_reserved (ActRemove h) = False"

abbreviation (input) takers :: "ix_act list \<Rightarrow> int" where "takers acts \<equiv> int (length (filter takes_reserved acts))"

lemma served_takers: "served act r s s' \<Longrightarrow> snd s - of_bool (takes_reserved act) \<le> snd s'"
  by (cases rule: served.cases) auto

lemma served_all_takers: "served_all acts s s' \<Longrightarrow> snd s - takers acts \<le> snd s'"
  by (induction rule: served_all.induct) (auto dest!: served_takers)

lemma first_env_concat: "concat envs = first_env envs @ concat (tl envs)"
  by (cases envs) (simp_all add: first_env_def)

lemma steady_ready: "steady ix Q \<Longrightarrow> ready ix"
  by (auto simp: steady_def ready_def open_ix_def)

lemma steady_others:
  assumes "steady ix Q" "iModCount ix = 255" "ok_envs envs"
  shows "steady_ix (others U envs ix)" "iModCount (others U envs ix) = 255" "iAllocated (others U envs ix) = iAllocated ix"
    "iReservedFree ix - takers (first_env envs) \<le> iReservedFree (others U envs ix)"
proof -
  have s: "steady_ix ix" using assms(1) by (auto simp: steady_ix_def)
  note f = ready_fold [OF steady_ready [OF assms(1)], of "first_env envs" U] and o = ok_first [OF assms(3)]
  show "steady_ix (others U envs ix)" unfolding others_first using steady_acts.keep_all s o by blast
  show "iModCount (others U envs ix) = 255" "iAllocated (others U envs ix) = iAllocated ix"
    unfolding others_first using f(3) o assms(2) by (simp_all add: same_phase_def)
  show "iReservedFree ix - takers (first_env envs) \<le> iReservedFree (others U envs ix)"
    unfolding others_first using served_all_takers [OF f(2)] o by (simp add: abs_ix_def)
qed

text \<open>
  One round of the loop: a slot is given back, or the mark of the reserved slots goes down. The mark is
  above the first slot as long as a reserved slot is free.
\<close>

lemma unreserve_mark:
  assumes "steady ix Q" "0 < iReservedFree ix"
  shows "iReservedFreeHWM ix > 0 \<and> iReservedFreeHWM ix \<le> iCount ix"
proof -
  note S = steadyD [OF assms(1)]
  have "Q EQRsvd \<noteq> []" using tableD(8) [OF S(1)] assms(2) S(2) by (auto simp: counted_def)
  then obtain i where i: "i \<in> set (Q EQRsvd)" by (metis last_in_set)
  have "EQRsvd \<in> main" by simp
  note q = table_queue [OF S(1) this i]
  show ?thesis using S(5) S(6) [of i] q(1-3) by simp
qed

lemma unreserve_round:
  assumes "steady ix Q" "iModCount ix = 255" "iReservedFreeHWM ix > 0 \<and> iReservedFreeHWM ix \<le> iCount ix"
  defines "limit \<equiv> if iReservedFreeHWM ix < EMaxLockedIter then 0 else iReservedFreeHWM ix - EMaxLockedIter"
  shows "unreserve_scan (iSlots ix) (nat limit) (nat (iReservedFreeHWM ix)) = Some n \<Longrightarrow> objr ix (int n) = 1 \<and> int n < iAllocated ix \<and>
       (\<forall>j. int n < j \<and> j < iAllocated ix \<longrightarrow> objr ix j \<noteq> 1)"
    "unreserve_scan (iSlots ix) (nat limit) (nat (iReservedFreeHWM ix)) = None \<Longrightarrow> steady (ix\<lparr>iReservedFreeHWM := limit\<rparr>) Q"
proof -
  note S = steadyD [OF assms(1)] and hw = assms(3)
  note al = tableD(4) [OF S(1)]
  have lim: "0 \<le> limit" "limit \<le> iReservedFreeHWM ix" unfolding limit_def using hw by auto
  have fr: "IsFreeReserved (iSlots ix ! j) \<longleftrightarrow> objr ix (int j) = 1" if "int j < iAllocated ix" for j
    using free_reserved_iff [OF S(1), of "int j"] that by simp
  {
    assume "unreserve_scan (iSlots ix) (nat limit) (nat (iReservedFreeHWM ix)) = Some n"
    from unreserve_scan_some [OF this] have n: "n < nat (iReservedFreeHWM ix)" "IsFreeReserved (iSlots ix ! n)"
      "\<And>j. n < j \<Longrightarrow> j < nat (iReservedFreeHWM ix) \<Longrightarrow> \<not> IsFreeReserved (iSlots ix ! j)" by blast+
    have a: "int n < iAllocated ix" using n(1) hw al by linarith
    moreover have "objr ix j \<noteq> 1" if "int n < j" "j < iAllocated ix" for j
    proof
      assume o: "objr ix j = 1"
      then have "j < iReservedFreeHWM ix" using S(6) [of j] that by simp
      moreover have "n < nat j" using that(1) by linarith
      ultimately show False using n(3) [of "nat j"] fr [of "nat j"] that o by auto
    qed
    ultimately show "objr ix (int n) = 1 \<and> int n < iAllocated ix \<and> (\<forall>j. int n < j \<and> j < iAllocated ix \<longrightarrow> objr ix j \<noteq> 1)"
      using fr [OF a] n(2) by blast
  next
    assume none: "unreserve_scan (iSlots ix) (nat limit) (nat (iReservedFreeHWM ix)) = None"
    have "i < limit" if "0 \<le> i" "i < iAllocated ix" "objr ix i = 1" for i
    proof (rule ccontr)
      assume "\<not> i < limit"
      then have "nat limit \<le> nat i" "nat i < nat (iReservedFreeHWM ix)" using S(6) [OF that] that(1) lim by auto
      then show False using unreserve_scan_none [OF none] fr [of "nat i"] that by auto
    qed
    then show "steady (ix\<lparr>iReservedFreeHWM := limit\<rparr>) Q" using lim hw by (intro steady_cong [OF _ _ _ _ _ _ _ _ _ _ _ _ _ assms(1)]) simp_all
  }
qed

text \<open>
  Whatever the others take, the loop returns with as many slots given back as it was asked for, or its
  assertion fails, which it does only when the others take some of the slots that were free before.
\<close>

lemma unreserve_loop_cases:
  assumes "steady_ix ix" "iModCount ix = 255" "ok_envs envs"
  shows "(\<exists>ix'. unreserve_loop U envs n ix = Inr ix' \<and> steady_ix ix' \<and> iModCount ix' = 255 \<and> iAllocated ix' = iAllocated ix \<and>
      moved_on envs (- int n) ix ix') \<or>
    unreserve_loop U envs n ix = Inl (Panic ''crash'') \<and> iReservedFree ix < int n + takers (concat envs)"
  using assms
proof (induction U envs n ix rule: unreserve_loop.induct)
  case (1 U envs n ix)
  obtain Q where S: "steady ix Q" using "1.prems"(1) by (auto simp: steady_ix_def)
  have tl: "ok_envs (tl envs)" using ok_first [OF "1.prems"(3)] by simp
  have tk: "takers (concat envs) = takers (first_env envs) + takers (concat (tl envs))" by (simp add: first_env_concat [of envs])
  have free0: "0 \<le> iReservedFree ix" using tableD(8) [OF steadyD(1) [OF S]] by (simp add: counted_def)
  consider (done0) "n = 0" | (stop) "n \<noteq> 0" "\<not> (iReservedFreeHWM ix > 0 \<and> iReservedFreeHWM ix \<le> iCount ix)"
    | (round) "n \<noteq> 0" "iReservedFreeHWM ix > 0 \<and> iReservedFreeHWM ix \<le> iCount ix" by blast
  then show ?case
  proof cases
    case done0
    then have "unreserve_loop U envs n ix = Inr ix" by (subst unreserve_loop.simps) simp
    then show ?thesis using "1.prems"(1,2) moved_on_refl [OF refl] done0 by auto
  next
    case stop
    then have "unreserve_loop U envs n ix = Inl (Panic ''crash'')" by (subst unreserve_loop.simps) simp
    moreover have "\<not> 0 < iReservedFree ix" using unreserve_mark [OF S] stop(2) by blast
    ultimately show ?thesis using stop(1) by simp
  next
    case round
    let ?limit = "if iReservedFreeHWM ix < EMaxLockedIter then 0 else iReservedFreeHWM ix - EMaxLockedIter"
    let ?scan = "unreserve_scan (iSlots ix) (nat ?limit) (nat (iReservedFreeHWM ix))"
    note R = unreserve_round [OF S "1.prems"(2) round(2)]
    have nn: "\<not> \<not> (iReservedFreeHWM ix > 0 \<and> iReservedFreeHWM ix \<le> iCount ix)" using round(2) by blast
    show ?thesis
    proof (cases ?scan)
      case None
      define ix1 where "ix1 = ix\<lparr>iReservedFreeHWM := ?limit\<rparr>"
      have s1: "steady ix1 Q" using R(2) [OF None] by (simp add: ix1_def)
      have f1: "iModCount ix1 = 255" "iReservedFree ix1 = iReservedFree ix" "iAllocated ix1 = iAllocated ix" using "1.prems"(2) by (simp_all add: ix1_def)
      note o = steady_others [OF s1 f1(1) "1.prems"(3), of U]
      have eq: "unreserve_loop U envs n ix = unreserve_loop U (tl envs) n (others U envs ix1)"
        using round None by (simp add: unreserve_loop.simps [of U envs n ix] Let_def ix1_def)
      have "hmap ix1 = hmap ix" by (rule hmap_cong) (simp_all add: ix1_def)
      then have st: "moved_on envs (- int n) ix ix'" if "moved_on (tl envs) (- int n) (others U envs ix1) ix'" for ix'
        using moved_on_step [OF _ _ _ steady_ready [OF s1] "1.prems"(3) that, of ix 0] f1(2) free0 by simp
      from "1.IH"(1) [OF round(1) nn refl None, folded ix1_def, OF o(1,2) tl]
      show ?thesis unfolding eq using st o(3,4) f1(2,3) tk by auto
    next
      case (Some k)
      define ix1 where "ix1 = unreserve_slot k ix"
      have k: "objr ix (int k) = 1" "int k < iAllocated ix" "\<And>j. int k < j \<Longrightarrow> j < iAllocated ix \<Longrightarrow> objr ix j \<noteq> 1" using R(1) [OF Some] by blast+
      note u = unreserve_slot_ok [OF S "1.prems"(2) k, folded ix1_def]
      obtain Q1 where s1: "steady ix1 Q1" using u(1) by blast
      have free1: "0 \<le> iReservedFree ix1" using tableD(8) [OF steadyD(1) [OF s1]] by (simp add: counted_def)
      note o = steady_others [OF s1 u(5) "1.prems"(3), of U]
      have eq: "unreserve_loop U envs n ix = unreserve_loop U (tl envs) (n - 1) (others U envs ix1)"
        using round Some by (simp add: unreserve_loop.simps [of U envs n ix] Let_def ix1_def)
      have n1: "- int (n - 1) + - 1 = - int n" "int (n - 1) = int n - 1" using round(1) by simp_all
      have st: "moved_on envs (- int n) ix ix'" if "moved_on (tl envs) (- int (n - 1)) (others U envs ix1) ix'" for ix'
        using moved_on_step [OF u(2) _ free1 steady_ready [OF s1] "1.prems"(3) that, of "- 1"] u(3) unfolding n1(1) by simp
      have less: "iReservedFree ix < int n + takers (concat envs)" if "iReservedFree (others U envs ix1) < int (n - 1) + takers (concat (tl envs))"
        using that o(4) u(3) tk unfolding n1(2) by linarith
      have o1: "steady_ix (others U envs ix1)" "iModCount (others U envs ix1) = 255" using o(1,2) by blast+
      have al: "iAllocated (others U envs ix1) = iAllocated ix" using o(3) u(4) by simp
      from "1.IH"(2) [OF round(1) nn refl Some, folded ix1_def, OF o1 tl]
      show ?thesis unfolding eq al by (elim disjE exE conjE) (use st less in simp_all)
    qed
  qed
qed

lemma unreserve_loop_ok:
  assumes "steady_ix ix" "iModCount ix = 255" "ok_envs envs" "int n + takers (concat envs) \<le> iReservedFree ix"
  shows "\<exists>ix'. unreserve_loop U envs n ix = Inr ix' \<and> steady_ix ix' \<and> iModCount ix' = 255 \<and> iAllocated ix' = iAllocated ix \<and>
    moved_on envs (- int n) ix ix'"
  using unreserve_loop_cases [OF assms(1-3), of U n] assms(4) by (meson linorder_not_le)

text \<open>Alone, more than there are free ones is an assertion that fails.\<close>

lemma changed_alone: "changed acts d s s' \<Longrightarrow> acts = [] \<Longrightarrow> snd s' = snd s + d"
  by (induction rule: changed.induct) simp_all

lemma unreserve_loop_too_many:
  assumes "steady_ix ix" "iModCount ix = 255" "iReservedFree ix < int n"
  shows "unreserve_loop U [] n ix = Inl (Panic ''crash'')"
proof -
  have "0 \<le> iReservedFree ix'" if "steady_ix ix'" for ix'
    using that tableD(8) [OF steadyD(1)] by (auto simp: steady_ix_def counted_def)
  moreover have "iReservedFree ix' = iReservedFree ix - int n" if "moved_on [] (- int n) ix ix'" for ix'
    using that changed_alone by (force simp: moved_on_def abs_ix_def)
  ultimately show ?thesis using unreserve_loop_cases [OF assms(1,2), of "[]" U n] assms(3) by fastforce
qed

lemma unreserved_join:
  assumes "steady ix Q" "iModCount ix = 255"
  shows "normal_ix (PrependList EQAltFree EQFree ix)" "abs_ix (PrependList EQAltFree EQFree ix) = abs_ix ix"
    "iAllocated (PrependList EQAltFree EQFree ix) = iAllocated ix"
proof -
  note S = steadyD [OF assms(1)]
  have m: "EQAltFree \<in> main" "EQFree \<in> main" "EQAltFree \<noteq> EQFree" by simp_all
  let ?ix = "PrependList EQAltFree EQFree ix" and ?Q = "Q(EQFree := Q EQAltFree @ Q EQFree, EQAltFree := [])"
  have p: "rings main ?ix ?Q" "keeps ix ?ix" using PrependList_rings [OF tableD(1) [OF S(1)] m] by simp_all
  note k = keepsD [OF p(2)]
  obtain U where "Q EQFree = U @ [iCount ix..iAllocated ix - 1]" "\<forall>j \<in> set U \<union> set (Q EQAltFree) \<union> set (Q EQRsvd) \<union> set (Q EQAltRsvd). j < iCount ix"
    using tableD(7) [OF S(1)] unfolding unused_last_def by blast
  then have "unused_last ?ix ?Q" unfolding unused_last_def k(1,2) by (intro exI [of _ "Q EQAltFree @ U"]) auto
  then have t: "table ?ix ?Q" "hmap ?ix = hmap ix" using keeps_regroup [OF S(1) p(2,1)] by auto
  have "objr ?ix i = objr ix i" if "0 \<le> i" "i < iAllocated ix" for i using keeps_slots(1) [OF p(2) that(1)] that(2) tableD(2) [OF S(1)] by simp
  then have "normal ?ix ?Q" unfolding normal_def using t(1) S(2-5,7) S(6) k(1,2,6,8) k(14) [OF assms(2)] sized_cong [OF k(1,9)] by auto
  then show "normal_ix ?ix" unfolding normal_ix_def by blast
  show "abs_ix ?ix = abs_ix ix" "iAllocated ?ix = iAllocated ix" using t(2) k(1,4) by (simp_all add: abs_ix_def)
qed

lemma normal_ixD:
  assumes "normal_ix ix"
  shows "steady_ix ix" "iModCount ix = 255" "ready ix" "iState ix = ENormal" "0 \<le> iReservedFree ix"
proof -
  obtain Q where N: "normal ix Q" using assms by (auto simp: normal_ix_def)
  then show "steady_ix ix" "iModCount ix = 255" "iState ix = ENormal" by (auto simp: normal_steady steady_ix_def dest: steadyD(3))
  show "ready ix" by (rule normal_ready [OF N])
  show "0 \<le> iReservedFree ix" using tableD(8) [OF normalD(1) [OF N]] by (simp add: counted_def)
qed

lemma UnReserveSlots_cases:
  assumes "normal_ix ix" "ok_envs envs"
  shows "(\<exists>r ix'. UnReserveSlots U envs n b ix = Inr (r, ix') \<and> normal_ix ix' \<and> iAllocated ix' = iAllocated ix \<and> moved_on envs (- int n) ix ix' \<and>
      (r = 0 \<or> r = 1)) \<or>
    UnReserveSlots U envs n b ix = Inl (Panic ''crash'') \<and> iReservedFree ix < int n + takers (concat envs)"
  using unreserve_loop_cases [OF normal_ixD(1,2) [OF assms(1)] assms(2), of U n]
proof (elim disjE exE conjE)
  fix ix1 assume l: "unreserve_loop U envs n ix = Inr ix1" "steady_ix ix1" "iModCount ix1 = 255" "iAllocated ix1 = iAllocated ix"
    "moved_on envs (- int n) ix ix1"
  obtain Q where Q: "steady ix1 Q" using l(2) by (auto simp: steady_ix_def)
  let ?a = "if b \<and> iAmortize ix1 > 0 then if iAmortize ix1 \<le> int n then 0 else iAmortize ix1 - int n else iAmortize ix1"
  let ?ix2 = "ix1\<lparr>iAmortize := ?a\<rparr>" and ?r = "if b \<and> iAmortize ix1 > 0 \<and> iAmortize ix1 \<le> int n then 1 else 0 :: int"
  have "ix1\<lparr>iAmortize := iAmortize ix1\<rparr> = ix1" by simp
  then have e: "UnReserveSlots U envs n b ix = Inr (?r, PrependList EQAltFree EQFree ?ix2)"
    using l(1) by (simp add: UnReserveSlots_def Let_def)
  have s2: "steady ?ix2 Q" by (rule steady_cong [OF _ _ _ _ _ _ _ _ _ _ _ _ _ Q]) (use steadyD(4,5,6) [OF Q] in simp_all)
  have "hmap ?ix2 = hmap ix1" by (rule hmap_cong) simp_all
  then have "abs_ix ?ix2 = abs_ix ix1" by (simp add: abs_ix_def)
  then show ?thesis using e unreserved_join [OF s2] l(3,4) moved_on_cong [OF l(5) refl] by auto
qed (simp add: UnReserveSlots_def)

lemma UnReserveSlots_ok:
  assumes "normal_ix ix" "ok_envs envs" "int n + takers (concat envs) \<le> iReservedFree ix"
  obtains r ix' where "UnReserveSlots U envs n b ix = Inr (r, ix')" "normal_ix ix'" "iAllocated ix' = iAllocated ix" "moved_on envs (- int n) ix ix'"
    "r = 0 \<or> r = 1"
proof -
  have "\<not> iReservedFree ix < int n + takers (concat envs)" using assms(3) by linarith
  then show ?thesis using UnReserveSlots_cases [OF assms(1,2), of U n b] that by blast
qed

lemma UnReserveSlots_too_many:
  assumes "normal_ix ix" "iReservedFree ix < int n"
  shows "UnReserveSlots U [] n b ix = Inl (Panic ''crash'')"
  using unreserve_loop_too_many [OF normal_ixD(1,2) [OF assms(1)] assms(2)] by (simp add: UnReserveSlots_def)

end
