(* ===== verification/Objix_Track.thy ===== *)
theory Objix_Track
  imports Objix_Reserve
begin

text \<open>
  The record of the slots that change while the table is copied: every slot that adding or removing a
  handle changes is in it, as one of the first four or as a member of a group of slots.
\<close>

section \<open>Marked slots\<close>

definition group :: "RObjectIx \<Rightarrow> int \<Rightarrow> nat" where
  "group ix i = nat i div 2 ^ iModListShift ix"

definition group_bit :: "RObjectIx \<Rightarrow> nat \<Rightarrow> bool" where
  "group_bit ix g \<longleftrightarrow> bit (iBitMap ix ! (g div 32)) (g mod 32)"

definition marked :: "RObjectIx \<Rightarrow> int \<Rightarrow> bool" where
  "marked ix i \<longleftrightarrow> (if iModCount ix \<le> EModCount then i \<in> set (take (nat (iModCount ix)) (iIndex ix)) else group_bit ix (group ix i))"

definition slot_index :: "RObjectIx \<Rightarrow> int \<Rightarrow> bool" where
  "slot_index ix i \<longleftrightarrow> 0 \<le> i \<and> i < int (length (iSlots ix))"

definition recording :: "RObjectIx \<Rightarrow> bool" where
  "recording ix \<longleftrightarrow> 0 \<le> iModCount ix \<and> iModCount ix \<le> 5 \<and> length (iIndex ix) = 4 \<and> length (iBitMap ix) = 4 \<and> linked ix \<and>
     (\<forall>i \<in> set (iIndex ix). slot_index ix i) \<and> length (iSlots ix) \<le> 128 * 2 ^ iModListShift ix"

lemma group_less: "length (iSlots ix) \<le> 128 * 2 ^ iModListShift ix \<Longrightarrow> slot_index ix i \<Longrightarrow> group ix i < 128"
proof -
  assume a: "length (iSlots ix) \<le> 128 * 2 ^ iModListShift ix" "slot_index ix i"
  then have "nat i < 128 * 2 ^ iModListShift ix" unfolding slot_index_def by linarith
  then show ?thesis unfolding group_def by (simp add: less_mult_imp_div_less)
qed

lemma mark_bit_fields:
  "iModListShift (mark_bit i ix) = iModListShift ix" "iModCount (mark_bit i ix) = iModCount ix" "iSlots (mark_bit i ix) = iSlots ix"
  "iFreeQ (mark_bit i ix) = iFreeQ ix" "iIndex (mark_bit i ix) = iIndex ix" "length (iBitMap (mark_bit i ix)) = length (iBitMap ix)"
  "group (mark_bit i ix) = group ix" "slot_index (mark_bit i ix) = slot_index ix"
  by (simp_all add: mark_bit_def Let_def group_def [abs_def] slot_index_def [abs_def])

lemma mark_bit_sets:
  assumes "length (iBitMap ix) = 4" "0 \<le> i" "group ix i < 128" "g < 128"
  shows "group_bit (mark_bit i ix) g \<longleftrightarrow> group_bit ix g \<or> g = group ix i"
proof -
  let ?k = "drop_bit (iModListShift ix) i" and ?g = "group ix i"
  have k: "?k = int ?g" using assms(2) by (simp add: group_def drop_bit_eq_div zdiv_int nat_div_distrib nat_power_eq)
  have d: "nat (drop_bit 5 ?k) = ?g div 32" unfolding k by (simp add: drop_bit_eq_div nat_div_distrib)
  have m31: "(31 :: int) = mask 5" by (simp add: mask_eq_exp_minus_1)
  have m: "nat (?k AND 31) = ?g mod 32" unfolding k m31 by (simp only: take_bit_eq_mask [symmetric] take_bit_eq_mod) (simp add: nat_mod_distrib)
  have l: "?g div 32 < length (iBitMap ix)" using assms(1,3) by (simp add: less_mult_imp_div_less)
  have e: "iBitMap (mark_bit i ix) = (iBitMap ix)[?g div 32 := iBitMap ix ! (?g div 32) OR push_bit (?g mod 32) 1]"
    unfolding mark_bit_def Let_def d m by simp
  show ?thesis
  proof (cases "g div 32 = ?g div 32")
    case True
    have "g mod 32 < 32" by simp
    then have "bit (push_bit (?g mod 32) 1 :: TUint32) (g mod 32) \<longleftrightarrow> g mod 32 = ?g mod 32"
      by (simp only: bit_push_bit_iff bit_1_iff possible_bit_word) auto
    moreover have "g = ?g \<longleftrightarrow> g mod 32 = ?g mod 32" using True by (metis div_mult_mod_eq)
    ultimately show ?thesis unfolding group_bit_def e using True l by (simp add: bit_or_iff)
  next
    case False
    then show ?thesis unfolding group_bit_def e by auto
  qed
qed

lemma fold_mark_bit:
  assumes "length (iBitMap ix) = 4" "\<And>i. i \<in> set js \<Longrightarrow> 0 \<le> i \<and> group ix i < 128"
  shows "(\<forall>g < 128. group_bit (fold mark_bit js ix) g \<longleftrightarrow> group_bit ix g \<or> g \<in> group ix ` set js) \<and>
    iModListShift (fold mark_bit js ix) = iModListShift ix \<and> iModCount (fold mark_bit js ix) = iModCount ix \<and>
    iSlots (fold mark_bit js ix) = iSlots ix \<and> iFreeQ (fold mark_bit js ix) = iFreeQ ix \<and> iIndex (fold mark_bit js ix) = iIndex ix \<and>
    length (iBitMap (fold mark_bit js ix)) = 4"
  using assms
proof (induction js arbitrary: ix)
  case (Cons i js)
  have b: "length (iBitMap (mark_bit i ix)) = 4" "\<And>j. j \<in> set js \<Longrightarrow> 0 \<le> j \<and> group (mark_bit i ix) j < 128"
    using Cons.prems(1,2) by (simp_all add: mark_bit_fields)
  note IH = Cons.IH [OF b]
  have i: "0 \<le> i" "group ix i < 128" using Cons.prems(2) [of i] by simp_all
  have "group_bit (fold mark_bit (i # js) ix) g \<longleftrightarrow> group_bit ix g \<or> g \<in> group ix ` set (i # js)" if "g < 128" for g
    using IH that mark_bit_sets [OF Cons.prems(1) i that] by (auto simp: mark_bit_fields)
  then show ?case using IH by (simp add: mark_bit_fields)
qed simp_all

text \<open>Everything that \<open>MarkModified\<close> does.\<close>

lemma MarkModified_ok:
  assumes "recording ix" "slot_index ix i"
  shows "recording (MarkModified i ix)" "iSlots (MarkModified i ix) = iSlots ix" "iFreeQ (MarkModified i ix) = iFreeQ ix"
    "iModListShift (MarkModified i ix) = iModListShift ix" "slot_index ix j \<Longrightarrow> marked ix j \<or> j = i \<Longrightarrow> marked (MarkModified i ix) j"
proof -
  have R: "0 \<le> iModCount ix" "iModCount ix \<le> 5" "length (iIndex ix) = 4" "length (iBitMap ix) = 4" "linked ix"
    "\<And>i. i \<in> set (iIndex ix) \<Longrightarrow> slot_index ix i" and sh: "length (iSlots ix) \<le> 128 * 2 ^ iModListShift ix"
    using assms(1) by (auto simp: recording_def)
  have i16: "to_TInt16 i = i" using assms(2) R(5) by (intro to_TInt16_id) (auto simp: slot_index_def linked_def)
  consider (list) "iModCount ix < 4" | (switch) "iModCount ix = 4" | (bits) "iModCount ix = 5" using R(2) by linarith
  then have "recording (MarkModified i ix) \<and> iSlots (MarkModified i ix) = iSlots ix \<and> iFreeQ (MarkModified i ix) = iFreeQ ix \<and>
      iModListShift (MarkModified i ix) = iModListShift ix \<and> (slot_index ix j \<longrightarrow> marked ix j \<or> j = i \<longrightarrow> marked (MarkModified i ix) j)"
  proof cases
    case list
    let ?n = "nat (iModCount ix)"
    let ?ix = "ix\<lparr>iIndex := (iIndex ix)[?n := i], iModCount := iModCount ix + 1\<rparr>"
    have e: "MarkModified i ix = ?ix" using list i16 by (simp add: MarkModified_def)
    have n: "?n < 4" using list R(1) by simp
    have "take (nat (iModCount ix + 1)) ((iIndex ix)[?n := i]) = take ?n (iIndex ix) @ [i]"
      using R(1,3) n by (simp add: nat_add_distrib take_Suc_conv_app_nth)
    then have "marked ?ix j \<longleftrightarrow> marked ix j \<or> j = i" using list by (auto simp: marked_def)
    moreover have "\<forall>k \<in> set ((iIndex ix)[?n := i]). slot_index ix k" using R(6) assms(2) set_update_subset_insert [of "iIndex ix" ?n i] by blast
    then have "recording ?ix" using R sh list by (simp add: recording_def linked_def slot_index_def)
    ultimately show ?thesis unfolding e by simp
  next
    case switch
    let ?c = "clear_mod_list ix"
    have c: "length (iBitMap ?c) = 4" "group ?c = group ix" "iSlots ?c = iSlots ix" "iModListShift ?c = iModListShift ix" "iFreeQ ?c = iFreeQ ix"
      "iIndex ?c = replicate 4 0"
      by (simp_all add: clear_mod_list_def group_def fun_eq_iff)
    have gl: "0 \<le> k \<and> group ?c k < 128" if "k \<in> set (iIndex ix)" for k
      using group_less [OF sh R(6) [OF that]] R(6) [OF that] c(2) by (simp add: slot_index_def)
    have zero: "(0 :: int) < 128" by simp
    note F0 = fold_mark_bit [OF c(1) gl]
    then have F: "\<And>g. g < 128 \<Longrightarrow> group_bit (fold mark_bit (iIndex ix) ?c) g \<longleftrightarrow> group_bit ?c g \<or> g \<in> group ?c ` set (iIndex ix)" by blast
    let ?f = "(fold mark_bit (iIndex ix) ?c)\<lparr>iModCount := EModCount + 1\<rparr>"
    have f: "iSlots ?f = iSlots ix" "iModListShift ?f = iModListShift ix" "iFreeQ ?f = iFreeQ ix" "iIndex ?f = replicate 4 0"
      "length (iBitMap ?f) = 4" "group ?f = group ix"
      using F0 c by (simp_all add: group_def fun_eq_iff)
    have fb: "group_bit ?f g \<longleftrightarrow> g \<in> group ix ` set (iIndex ix)" if "g < 128" for g
    proof -
      have "\<not> group_bit ?c g" using that by (simp add: group_bit_def clear_mod_list_def less_mult_imp_div_less)
      moreover have "group_bit ?f g = group_bit (fold mark_bit (iIndex ix) ?c) g" by (simp add: group_bit_def)
      ultimately show ?thesis using F [OF that] c(2) by simp
    qed
    have gi: "group ?f i < 128" using group_less [OF sh assms(2)] f(6) by simp
    have i0: "0 \<le> i" using assms(2) by (simp add: slot_index_def)
    have e: "MarkModified i ix = mark_bit i ?f" using switch by (simp add: MarkModified_def)
    note mf = mark_bit_fields [of i ?f]
    have "length (iSlots ix) \<noteq> 0" using assms(2) by (auto simp: slot_index_def)
    then have z: "slot_index (mark_bit i ?f) 0" unfolding mf(8) slot_index_def f(1) by simp
    have "iModCount ?f = 5" by simp
    moreover have "linked (mark_bit i ?f)" unfolding linked_def mf(3,4) f(1,3) using R(5) by (simp add: linked_def)
    ultimately have "recording (mark_bit i ?f)" using z sh unfolding recording_def mf f(1,2,4,5) by simp
    moreover have "marked (mark_bit i ?f) j" if j: "slot_index ix j" and m: "marked ix j \<or> j = i"
    proof -
      have "group ix j < 128" by (rule group_less [OF sh j])
      moreover have "j \<in> set (iIndex ix) \<or> j = i" using m switch R(3) by (simp add: marked_def)
      ultimately have "group_bit (mark_bit i ?f) (group ix j)"
        unfolding mark_bit_sets [OF f(5) i0 gi \<open>group ix j < 128\<close>] fb [OF \<open>group ix j < 128\<close>] f(6) by blast
      then show ?thesis unfolding marked_def mf(2,7) f(6) by simp
    qed
    ultimately show ?thesis unfolding e using mf f by simp
  next
    case bits
    have e: "MarkModified i ix = mark_bit i ix" using bits by (simp add: MarkModified_def)
    note mf = mark_bit_fields [of i ix]
    have gi: "group ix i < 128" by (rule group_less [OF sh assms(2)])
    have i0: "0 \<le> i" using assms(2) by (simp add: slot_index_def)
    have "recording (mark_bit i ix)" using R sh unfolding recording_def mf linked_def by simp
    moreover have "marked (mark_bit i ix) j" if j: "slot_index ix j" and m: "marked ix j \<or> j = i"
    proof -
      have g: "group ix j < 128" by (rule group_less [OF sh j])
      show ?thesis using m bits unfolding marked_def mf(2,7) mark_bit_sets [OF R(4) i0 gi g] by auto
    qed
    ultimately show ?thesis unfolding e using mf by simp
  qed
  then show "recording (MarkModified i ix)" "iSlots (MarkModified i ix) = iSlots ix" "iFreeQ (MarkModified i ix) = iFreeQ ix"
    "iModListShift (MarkModified i ix) = iModListShift ix" "slot_index ix j \<Longrightarrow> marked ix j \<or> j = i \<Longrightarrow> marked (MarkModified i ix) j" by blast+
qed

section \<open>Every change is recorded\<close>

definition anchor :: "RObjectIx \<Rightarrow> int \<Rightarrow> SSlotQLink" where
  "anchor ix t = iFreeQ ix ! nat (6 + t)"

definition tracks :: "RObjectIx \<Rightarrow> RObjectIx \<Rightarrow> bool" where
  "tracks ix ix' \<longleftrightarrow> recording ix' \<and> length (iSlots ix') = length (iSlots ix) \<and> iModListShift ix' = iModListShift ix \<and>
     (\<forall>i. slot_index ix i \<longrightarrow> marked ix i \<longrightarrow> marked ix' i) \<and>
     (\<forall>i. slot_index ix i \<longrightarrow> iSlots ix' ! nat i \<noteq> iSlots ix ! nat i \<longrightarrow> marked ix' i)"

lemma tracksD:
  assumes "tracks ix ix'"
  shows "recording ix'" "length (iSlots ix') = length (iSlots ix)" "slot_index ix' = slot_index ix"
    "slot_index ix i \<Longrightarrow> marked ix i \<Longrightarrow> marked ix' i" "slot_index ix i \<Longrightarrow> iSlots ix' ! nat i = iSlots ix ! nat i \<or> marked ix' i"
  using assms unfolding tracks_def by (auto simp: slot_index_def [abs_def])

lemma tracks_refl: "recording ix \<Longrightarrow> tracks ix ix"
  by (simp add: tracks_def)

lemma tracks_trans:
  assumes "tracks ix ix1" "tracks ix1 ix2"
  shows "tracks ix ix2"
proof -
  have si: "slot_index ix1 = slot_index ix" by (rule tracksD(3) [OF assms(1)])
  show ?thesis using assms unfolding tracks_def si by metis
qed

text \<open>A change of slots that are marked, or that is marked afterwards.\<close>

lemma tracks_more:
  assumes "tracks ix s" "iModCount s' = iModCount s" "iIndex s' = iIndex s" "iBitMap s' = iBitMap s" "iModListShift s' = iModListShift s"
    "length (iSlots s') = length (iSlots s)" "iFreeQ s' = iFreeQ s"
    "\<And>i. slot_index s i \<Longrightarrow> iSlots s' ! nat i \<noteq> iSlots s ! nat i \<Longrightarrow> marked s i"
  shows "tracks ix s'"
proof -
  have m: "marked s' = marked s" "slot_index s' = slot_index s" "recording s' = recording s"
    unfolding fun_eq_iff marked_def group_bit_def group_def slot_index_def recording_def linked_def assms(2-7) by simp_all
  note d = tracksD [OF assms(1)]
  show ?thesis using assms(1,8) unfolding tracks_def m assms(5,6) d(3) by metis
qed

lemma mark_if_tracks:
  assumes "recording ix" "i < 0 \<or> slot_index ix i"
  shows "tracks ix (mark_if i ix)" "iSlots (mark_if i ix) = iSlots ix" "iFreeQ (mark_if i ix) = iFreeQ ix" "slot_index ix i \<Longrightarrow> marked (mark_if i ix) i"
proof -
  have lt: "iModCount ix < 255" using assms(1) by (simp add: recording_def)
  have "tracks ix (mark_if i ix) \<and> iSlots (mark_if i ix) = iSlots ix \<and> iFreeQ (mark_if i ix) = iFreeQ ix \<and>
      (slot_index ix i \<longrightarrow> marked (mark_if i ix) i)"
  proof (cases "i < 0")
    case True
    then have "\<not> slot_index ix i" by (simp add: slot_index_def)
    then show ?thesis using True tracks_refl [OF assms(1)] by (simp add: mark_if_def)
  next
    case False
    then have i: "slot_index ix i" using assms(2) by blast
    note m = MarkModified_ok [OF assms(1) i]
    have "mark_if i ix = MarkModified i ix" using lt False by (simp add: mark_if_def)
    then show ?thesis using m(1-4) m(5) [OF i] m(5) unfolding tracks_def by simp
  qed
  then show "tracks ix (mark_if i ix)" "iSlots (mark_if i ix) = iSlots ix" "iFreeQ (mark_if i ix) = iFreeQ ix"
    "slot_index ix i \<Longrightarrow> marked (mark_if i ix) i" by blast+
qed

lemma fold_mark_if:
  assumes "recording ix" "\<forall>i \<in> set js. i < 0 \<or> slot_index ix i"
  shows "tracks ix (fold mark_if js ix) \<and> iSlots (fold mark_if js ix) = iSlots ix \<and> iFreeQ (fold mark_if js ix) = iFreeQ ix \<and>
    (\<forall>i \<in> set js. slot_index ix i \<longrightarrow> marked (fold mark_if js ix) i)"
  using assms
proof (induction js arbitrary: ix)
  case Nil
  then show ?case using tracks_refl by simp
next
  case (Cons i js)
  have i: "i < 0 \<or> slot_index ix i" using Cons.prems(2) by simp
  note m = mark_if_tracks [OF Cons.prems(1) i]
  note d = tracksD [OF m(1)]
  have IH: "tracks (mark_if i ix) (fold mark_if js (mark_if i ix)) \<and> iSlots (fold mark_if js (mark_if i ix)) = iSlots (mark_if i ix) \<and>
      iFreeQ (fold mark_if js (mark_if i ix)) = iFreeQ (mark_if i ix) \<and>
      (\<forall>j \<in> set js. slot_index (mark_if i ix) j \<longrightarrow> marked (fold mark_if js (mark_if i ix)) j)"
    by (rule Cons.IH [OF d(1)]) (use Cons.prems(2) d(3) in simp)
  have "marked (fold mark_if js (mark_if i ix)) i" if "slot_index ix i"
    using tracksD(4) [OF conjunct1 [OF IH]] m(4) [OF that] that d(3) by simp
  then show ?case using IH m(2,3) d(3) tracks_trans [OF m(1) conjunct1 [OF IH]] by simp
qed

text \<open>The states differ only in slots and anchors of \<open>I\<close>.\<close>

definition within :: "int set \<Rightarrow> RObjectIx \<Rightarrow> RObjectIx \<Rightarrow> bool" where
  "within I ix ix' \<longleftrightarrow> ix'\<lparr>iSlots := [], iFreeQ := []\<rparr> = ix\<lparr>iSlots := [], iFreeQ := []\<rparr> \<and> length (iSlots ix') = length (iSlots ix) \<and>
     length (iFreeQ ix') = length (iFreeQ ix) \<and> (\<forall>i. 0 \<le> i \<and> i \<notin> I \<longrightarrow> iSlots ix' ! nat i = iSlots ix ! nat i) \<and>
     (\<forall>t. - 6 \<le> t \<and> t < 0 \<and> t \<notin> I \<longrightarrow> anchor ix' t = anchor ix t)"

lemma within_links_trans: "within I ix ix1 \<Longrightarrow> within I ix1 ix2 \<Longrightarrow> within I ix ix2"
  by (simp add: within_def)

lemma within_set:
  assumes "i \<in> I" "- 6 \<le> i"
  shows "within I ix (set_next i v ix)" "within I ix (set_prev i v ix)" "0 \<le> i \<Longrightarrow> within I ix (set_objr i w ix)"
proof -
  have a: "nat (6 + i) \<noteq> nat (6 + t)" if "t \<notin> I" "- 6 \<le> t" for t
  proof
    assume "nat (6 + i) = nat (6 + t)"
    then have "i = t" using that(2) assms(2) by linarith
    then show False using that(1) assms(1) by simp
  qed
  have b: "nat i \<noteq> nat j" if "j \<notin> I" "0 \<le> j" "\<not> i < 0" for j
  proof
    assume "nat i = nat j"
    then have "i = j" using that by linarith
    then show False using that(1) assms(1) by simp
  qed
  show "within I ix (set_next i v ix)" "within I ix (set_prev i v ix)" "0 \<le> i \<Longrightarrow> within I ix (set_objr i w ix)"
    using a b by (auto simp: within_def set_next_def set_prev_def set_objr_def anchor_def)
qed

definition linkable :: "RObjectIx \<Rightarrow> int \<Rightarrow> bool" where
  "linkable ix i \<longleftrightarrow> i \<in> main \<or> slot_index ix i"

lemma linkable_low: "linkable ix i \<Longrightarrow> - 6 \<le> i"
  by (auto simp: linkable_def slot_index_def)

lemma within_tracks:
  assumes "recording ix" "within (set js) ix s" "\<forall>i \<in> set js. linkable ix i"
  shows "tracks ix (fold mark_if js s)" "\<And>i. i \<in> set js \<Longrightarrow> slot_index ix i \<Longrightarrow> marked (fold mark_if js s) i"
proof -
  have e: "s\<lparr>iSlots := [], iFreeQ := []\<rparr> = ix\<lparr>iSlots := [], iFreeQ := []\<rparr>" and len: "length (iSlots s) = length (iSlots ix)"
    "length (iFreeQ s) = length (iFreeQ ix)"
    and sl: "\<And>i. 0 \<le> i \<Longrightarrow> i \<notin> set js \<Longrightarrow> iSlots s ! nat i = iSlots ix ! nat i"
    using assms(2) unfolding within_def by blast+
  have f: "iModCount s = iModCount ix" "iIndex s = iIndex ix" "iBitMap s = iBitMap ix" "iModListShift s = iModListShift ix"
    using e by (cases s; cases ix; simp)+
  have m: "marked s = marked ix" "slot_index s = slot_index ix" "recording s = recording ix"
    unfolding fun_eq_iff marked_def group_bit_def group_def slot_index_def recording_def linked_def f len by simp_all
  have js: "\<forall>i \<in> set js. i < 0 \<or> slot_index s i"
  proof
    fix i
    assume "i \<in> set js"
    then have "i \<in> main \<or> slot_index s i" using assms(3) m(2) by (simp add: linkable_def)
    then show "i < 0 \<or> slot_index s i" by (elim disjE) auto
  qed
  have rs: "recording s" using assms(1) m(3) by simp
  let ?f = "fold mark_if js s"
  have F: "tracks s ?f" "iSlots ?f = iSlots s" "iFreeQ ?f = iFreeQ s" "\<And>i. i \<in> set js \<Longrightarrow> slot_index s i \<Longrightarrow> marked ?f i"
    using fold_mark_if [OF rs js] by blast+
  show mk: "\<And>i. i \<in> set js \<Longrightarrow> slot_index ix i \<Longrightarrow> marked ?f i" using F(4) m(2) by simp
  have "marked ?f i" if "slot_index ix i" "iSlots ?f ! nat i \<noteq> iSlots ix ! nat i" for i
    using mk [OF _ that(1)] sl [of i] that F(2) by (cases "i \<in> set js") (auto simp: slot_index_def)
  then show "tracks ix ?f"
    using tracksD [OF F(1)] F(1) m len f(4) unfolding tracks_def by simp
qed

section \<open>Adding and removing handles\<close>

lemma queue_link:
  assumes "rings main ix Q" "q \<in> main" "i = q \<or> i \<in> set (Q q)"
  shows "linkable ix (link_next ix i)" "linkable ix (link_prev ix i)"
proof -
  note R = ringsD [OF assms(1,2)]
  have mem: "linkable ix j" if "j \<in> set (q # Q q)" for j
    unfolding linkable_def slot_index_def using that R(4) [of j] assms(2) by (metis set_ConsD)
  have nd: "node ix i" using assms(3) queue_nodes(1,2) [OF R(2)] by blast
  have "nxt ix i \<in> set (q # Q q) \<and> prv ix i \<in> set (q # Q q)"
  proof (cases "i = q")
    case True
    have "dlring (nxt ix) (prv ix) q (Q q)" using R(2) by (simp add: queue_def)
    from dlring_first [OF this] dlring_last [OF this] show ?thesis using True by (auto split: list.splits if_splits)
  next
    case False
    then show ?thesis using queue_inner_nodes [OF R(2), of i] assms(3) by blast
  qed
  then show "linkable ix (link_next ix i)" "linkable ix (link_prev ix i)"
    unfolding link_nxt(1) [OF nd] link_nxt(2) [OF nd] using mem by blast+
qed

lemma Dequeue_tracks:
  assumes "recording ix" "rings main ix Q" "q \<in> main" "i \<in> set (Q q)"
  shows "tracks ix (Dequeue i ix)" "marked (Dequeue i ix) i" "slot_index ix i"
proof -
  let ?p = "link_prev ix i" and ?n = "link_next ix i"
  note l = queue_link [OF assms(2,3) disjI2 [OF assms(4)]]
  show i: "slot_index ix i" using ringsD(4) [OF assms(2,3,4)] by (simp add: slot_index_def)
  define s where "s = set_prev ?n ?p (set_next ?p ?n ix)"
  have r: "- 6 \<le> ?p" "- 6 \<le> ?n" using l linkable_low by blast+
  have w: "within (set [i, ?p, ?n]) ix s" unfolding s_def by (rule within_links_trans [OF within_set(1) within_set(2)]) (use r in simp_all)
  have "linkable ix i" using i by (simp add: linkable_def)
  then have "\<forall>j \<in> set [i, ?p, ?n]. linkable ix j" using l by simp
  note t = within_tracks [OF assms(1) w this]
  have e: "Dequeue i ix = fold mark_if [i, ?p, ?n] s" by (simp add: Dequeue_def Let_def s_def)
  show "tracks ix (Dequeue i ix)" unfolding e by (rule t(1))
  show "marked (Dequeue i ix) i" unfolding e by (rule t(2) [OF _ i]) simp
qed

lemma tracks_fields:
  assumes "recording ix" "iModCount ix' = iModCount ix" "iIndex ix' = iIndex ix" "iBitMap ix' = iBitMap ix" "iModListShift ix' = iModListShift ix"
    "iSlots ix' = iSlots ix" "iFreeQ ix' = iFreeQ ix"
  shows "tracks ix ix'"
  by (rule tracks_more [OF tracks_refl [OF assms(1)] assms(2-5) _ assms(7)]) (simp_all add: assms(6))

lemma AddHead_tracks:
  assumes "recording ix" "iModCount y = iModCount ix" "iIndex y = iIndex ix" "iBitMap y = iBitMap ix" "iModListShift y = iModListShift ix"
    "iSlots y = iSlots (set_objr i v ix)" "iFreeQ y = iFreeQ ix" "rings main y Q" "q \<in> main" "slot_index ix i"
  shows "tracks ix (AddHead q i y)"
proof -
  define x where "x = y\<lparr>iSlots := iSlots ix\<rparr>"
  have x: "tracks ix x" by (rule tracks_fields [OF assms(1)]) (simp_all add: x_def assms)
  have y: "y = set_objr i v x" using assms(6) by (cases y) (simp add: x_def set_objr_def)
  let ?n = "link_next y q"
  have si: "slot_index x = slot_index ix" "slot_index y = slot_index ix" using assms(6) by (simp_all add: slot_index_def fun_eq_iff x_def set_objr_def)
  have l: "linkable x ?n" "linkable x q" "linkable x i"
    using queue_link(1) [OF assms(8,9), of q] si assms(9,10) by (simp_all add: linkable_def)
  have "0 \<le> i" using assms(10) by (simp add: slot_index_def)
  then have r: "0 \<le> i" "- 6 \<le> i" "- 6 \<le> q" "- 6 \<le> ?n" using linkable_low [OF l(1)] linkable_low [OF l(2)] by simp_all
  let ?I = "set [q, i, ?n]"
  define s where "s = set_next q i (set_prev ?n i (set_prev i q (set_next i ?n y)))"
  have "within ?I x y" unfolding y by (rule within_set(3)) (use r y in simp_all)
  moreover have "within ?I y (set_next i ?n y)" by (rule within_set(1)) (use r in simp_all)
  moreover have "within ?I (set_next i ?n y) (set_prev i q (set_next i ?n y))" by (rule within_set(2)) (use r in simp_all)
  moreover have "within ?I (set_prev i q (set_next i ?n y)) (set_prev ?n i (set_prev i q (set_next i ?n y)))" by (rule within_set(2)) (use r in simp_all)
  moreover have "within ?I (set_prev ?n i (set_prev i q (set_next i ?n y))) s" unfolding s_def by (rule within_set(1)) (use r in simp_all)
  ultimately have w: "within ?I x s" using within_links_trans by blast
  have "\<forall>j \<in> ?I. linkable x j" using l by simp
  moreover have "AddHead q i y = fold mark_if [q, i, ?n] s" by (simp add: AddHead_def AddAfter_def Let_def s_def)
  ultimately have "tracks x (AddHead q i y)" using within_tracks(1) [OF tracksD(1) [OF x] w] by simp
  then show ?thesis by (rule tracks_trans [OF x])
qed

lemma DoAdd_tracks:
  assumes "table ix Q" "iState ix = ENormal" "recording ix"
  shows "tracks ix (run_act U (ActAdd p a) ix)"
proof -
  obtain inst nx where g: "GetNextInstanceValue (NextInstance ix) = (inst, nx)" by fastforce
  let ?ix = "ix\<lparr>NextInstance := nx\<rparr>"
  have t0: "tracks ix ?ix" by (rule tracks_fields [OF assms(3)]) simp_all
  show ?thesis
  proof (cases "Q (slot_queue a) @ Q (slot_queue a + 1)")
    case Nil
    then show ?thesis using DoAdd_none(1) [OF assms(1) _ Nil g, of U p] assms(2) t0 by simp
  next
    case (Cons i rest)
    have r: "rings main ?ix Q" using tableD(1) [OF assms(1)] rings_cong [of ?ix ix main Q] by simp
    obtain q L where q: "q \<in> main" "Q q = i # L" by (rule taken_at [OF Cons])
    then have iq: "i \<in> set (Q q)" by simp
    note d = Dequeue_tracks [OF tracksD(1) [OF t0] r q(1) iq]
    have i0: "0 \<le> i" using d(3) by (simp add: slot_index_def)
    have ff: "first_free a ?ix = i" using first_free_head [OF r, of a] Cons by simp
    let ?d = "Dequeue i ?ix"
    define c where "c = claim_slot p a i ?ix"
    have st: "iState ?d = ENormal" using keepsD(8) [OF taken_rings(2) [OF r Cons]] assms(2) by simp
    have fc: "iModCount c = iModCount ?d" "iIndex c = iIndex ?d" "iBitMap c = iBitMap ?d" "iModListShift c = iModListShift ?d"
      "iSlots c = iSlots ?d" "iFreeQ c = iFreeQ ?d"
      using st by (simp_all add: c_def claim_slot_def Let_def monitor_add_def)
    have e: "run_act U (ActAdd p a) ix = fill_slot i (used_attr U p a inst) (used_objr p a) c"
      using assms(2) g ff i0 by (simp add: DoAdd_def Let_def c_def)
    have "tracks ?ix (fill_slot i (used_attr U p a inst) (used_objr p a) c)"
    proof (rule tracks_more [OF d(1)])
      fix j
      assume j: "slot_index ?d j" "iSlots (fill_slot i (used_attr U p a inst) (used_objr p a) c) ! nat j \<noteq> iSlots ?d ! nat j"
      have "j = i"
      proof (rule ccontr)
        assume "j \<noteq> i"
        then have "nat i \<noteq> nat j" using i0 j(1) unfolding slot_index_def by linarith
        then show False using j(2) by (simp add: fill_slot_def fc(5))
      qed
      then show "marked ?d j" using d(2) by simp
    qed (simp_all add: fill_slot_def fc)
    then show ?thesis unfolding e by (rule tracks_trans [OF t0])
  qed
qed

lemma DoRemove_tracks:
  assumes "table ix Q" "iState ix = ENormal" "recording ix"
  shows "tracks ix (run_act U (ActRemove h) ix)"
proof (cases "hmap ix (key h)")
  case None
  then show ?thesis using DoRemove_bad [OF _ None] assms(2,3) tracks_refl by simp
next
  case (Some px)
  let ?i = "HandleIndex h"
  have hm: "0 \<le> ?i" "?i < iCount ix" "objr ix ?i \<ge> 4" "attr ix ?i AND 0x3FFF = HandleInstance h"
    using Some unfolding hmap_def key_def by (auto split: if_splits)
  have si: "slot_index ix ?i" using hm(1,2) tableD(2,4) [OF assms(1)] by (simp add: slot_index_def)
  define a where "a = (set_objr ?i (objr ix ?i AND 1) ix)\<lparr>iActiveCount := iActiveCount (set_objr ?i (objr ix ?i AND 1) ix) - 1\<rparr>"
  have fa: "iState a = ENormal" "iModCount a = iModCount ix" "iIndex a = iIndex ix" "iBitMap a = iBitMap ix" "iModListShift a = iModListShift ix"
    "iSlots a = iSlots (set_objr ?i (objr ix ?i AND 1) ix)" "iFreeQ a = iFreeQ ix"
    using assms(2) by (simp_all add: a_def set_objr_def)
  have mon: "monitor_remove p ?i a = a" for p using fa(1) by (simp add: monitor_remove_def)
  have "iFreeQ a = iFreeQ (set_objr ?i (objr ix ?i AND 1) ix)" by (simp add: a_def set_objr_def)
  then have ra: "rings main a Q" using tableD(1) [OF assms(1)] rings_cong [OF fa(6)] by simp
  have res: "run_act U (ActRemove h) ix = free_reserved ?i a \<or> run_act U (ActRemove h) ix = snd (free_normal ?i a)"
  proof -
    have v4: "\<not> objr ix ?i < 4" using hm(3) by simp
    show ?thesis unfolding run_act.simps DoRemove_def Let_def using assms(2) hm(2) hm(4) [symmetric] v4
      by (simp add: a_def [symmetric] mon split: prod.splits)
  qed
  define y where "y = a\<lparr>iReservedFree := iReservedFree a + 1,
      iReservedFreeHWM := (if ?i \<ge> iReservedFreeHWM a then ?i + 1 else iReservedFreeHWM a)\<rparr>"
  have fy: "iModCount y = iModCount ix" "iIndex y = iIndex ix" "iBitMap y = iBitMap ix" "iModListShift y = iModListShift ix"
    "iSlots y = iSlots (set_objr ?i (objr ix ?i AND 1) ix)" "iFreeQ y = iFreeQ ix" by (simp_all add: y_def fa)
  have ry: "rings main y Q" using ra rings_cong [of y a main Q] by (simp add: y_def)
  have "free_reserved ?i a = AddHead EQRsvd ?i y" using fa(1) by (simp add: free_reserved_def Let_def y_def)
  then have t1: "tracks ix (free_reserved ?i a)" using AddHead_tracks [OF assms(3) fy ry _ si, of EQRsvd] by simp
  let ?b = "AddHead EQFree ?i a"
  have t2: "tracks ix ?b" using AddHead_tracks [OF assms(3) fa(2-7) ra _ si, of EQFree] by simp
  have "\<exists>k. snd (free_normal ?i a) = ?b\<lparr>iAmortize := k\<rparr>"
  proof (cases "iAmortize ?b > 1")
    case True
    then have "snd (free_normal ?i a) = ?b\<lparr>iAmortize := iAmortize ?b - 1\<rparr>" by (simp add: free_normal_def Let_def)
    then show ?thesis ..
  next
    case False
    then have "snd (free_normal ?i a) = ?b\<lparr>iAmortize := iAmortize ?b\<rparr>" by (simp add: free_normal_def Let_def)
    then show ?thesis ..
  qed
  then obtain k where k: "snd (free_normal ?i a) = ?b\<lparr>iAmortize := k\<rparr>" ..
  have "tracks ?b (?b\<lparr>iAmortize := k\<rparr>)" by (rule tracks_fields [OF tracksD(1) [OF t2]]) simp_all
  then have "tracks ix (snd (free_normal ?i a))" unfolding k by (rule tracks_trans [OF t2])
  then show ?thesis using res t1 by auto
qed

lemma acts_track:
  assumes "steady_ix ix" "recording ix" "list_all ok_act acts"
  shows "tracks ix (fold (run_act U) acts ix)"
  using assms
proof (induction acts arbitrary: ix)
  case Nil
  then show ?case using tracks_refl by simp
next
  case (Cons act acts)
  obtain Q where Q: "steady ix Q" using Cons.prems(1) by (auto simp: steady_ix_def)
  have t: "tracks ix (run_act U act ix)"
    using DoAdd_tracks DoRemove_tracks steadyD(1,3) [OF Q] Cons.prems(2) by (cases act) blast+
  have "steady_ix (run_act U act ix)" using steady_acts.keep Cons.prems by simp
  then have "tracks (run_act U act ix) (fold (run_act U) acts (run_act U act ix))"
    using Cons.IH tracksD(1) [OF t] Cons.prems(3) by simp
  then show ?case using tracks_trans [OF t] by simp
qed

section \<open>The anchors of the temporary queues\<close>

text \<open>They are not touched, whether changes are recorded or not.\<close>

definition anchored :: "RObjectIx \<Rightarrow> RObjectIx \<Rightarrow> bool" where
  "anchored ix ix' \<longleftrightarrow> anchor ix' EQTempFree = anchor ix EQTempFree \<and> anchor ix' EQTempRsvd = anchor ix EQTempRsvd"

lemma anchored_fields: "iFreeQ ix' = iFreeQ ix \<Longrightarrow> anchored ix ix'"
  by (simp add: anchored_def anchor_def)

lemma anchored_trans: "anchored ix ix1 \<Longrightarrow> anchored ix1 ix2 \<Longrightarrow> anchored ix ix2"
  by (simp add: anchored_def)

lemma mark_if_freeQ: "iFreeQ (mark_if i ix) = iFreeQ ix"
proof -
  have f: "iFreeQ (fold mark_bit js ix) = iFreeQ ix" for js ix by (induction js arbitrary: ix) (simp_all add: mark_bit_fields)
  show ?thesis by (simp add: mark_if_def MarkModified_def mark_bit_fields f) (simp add: clear_mod_list_def)
qed

lemma within_anchored:
  assumes "within (set js) ix s" "\<forall>i \<in> set js. linkable ix i"
  shows "anchored ix (fold mark_if js s)"
proof -
  have f: "iFreeQ (fold mark_if js s) = iFreeQ s" for js s by (induction js arbitrary: s) (simp_all add: mark_if_freeQ)
  have "\<not> linkable ix EQTempFree" "\<not> linkable ix EQTempRsvd" by (auto simp: linkable_def slot_index_def)
  then have "EQTempFree \<notin> set js" "EQTempRsvd \<notin> set js" using assms(2) by blast+
  then have "anchor s EQTempFree = anchor ix EQTempFree" "anchor s EQTempRsvd = anchor ix EQTempRsvd" using assms(1) unfolding within_def by simp_all
  then show ?thesis by (simp add: anchored_def anchor_def f)
qed

lemma Dequeue_anchored:
  assumes "rings main ix Q" "q \<in> main" "i \<in> set (Q q)"
  shows "anchored ix (Dequeue i ix)"
proof -
  let ?p = "link_prev ix i" and ?n = "link_next ix i"
  note l = queue_link [OF assms(1,2) disjI2 [OF assms(3)]]
  have i: "linkable ix i" using ringsD(4) [OF assms] by (simp add: slot_index_def linkable_def)
  define s where "s = set_prev ?n ?p (set_next ?p ?n ix)"
  have r: "- 6 \<le> ?p" "- 6 \<le> ?n" using l linkable_low by blast+
  have w: "within (set [i, ?p, ?n]) ix s" unfolding s_def by (rule within_links_trans [OF within_set(1) within_set(2)]) (use r in simp_all)
  have "\<forall>j \<in> set [i, ?p, ?n]. linkable ix j" using l i by simp
  from within_anchored [OF w this] show ?thesis by (simp add: Dequeue_def Let_def s_def)
qed

lemma AddHead_anchored:
  assumes "rings main ix Q" "q \<in> main" "slot_index ix i"
  shows "anchored ix (AddHead q i ix)"
proof -
  let ?n = "link_next ix q" and ?I = "set [q, i, link_next ix q]"
  have l: "linkable ix ?n" "linkable ix q" "linkable ix i"
    using queue_link(1) [OF assms(1,2), of q] assms(2,3) by (simp_all add: linkable_def)
  note r = linkable_low [OF l(1)] linkable_low [OF l(2)] linkable_low [OF l(3)]
  define s where "s = set_next q i (set_prev ?n i (set_prev i q (set_next i ?n ix)))"
  have "within ?I ix (set_next i ?n ix)" by (rule within_set(1)) (use r in simp_all)
  moreover have "within ?I (set_next i ?n ix) (set_prev i q (set_next i ?n ix))" by (rule within_set(2)) (use r in simp_all)
  moreover have "within ?I (set_prev i q (set_next i ?n ix)) (set_prev ?n i (set_prev i q (set_next i ?n ix)))" by (rule within_set(2)) (use r in simp_all)
  moreover have "within ?I (set_prev ?n i (set_prev i q (set_next i ?n ix))) s" unfolding s_def by (rule within_set(1)) (use r in simp_all)
  ultimately have w: "within ?I ix s" using within_links_trans by blast
  have "\<forall>j \<in> ?I. linkable ix j" using l by simp
  from within_anchored [OF w this] show ?thesis by (simp add: AddHead_def AddAfter_def Let_def s_def)
qed

lemma DoAdd_anchored:
  assumes "table ix Q" "iState ix \<noteq> ETerminated"
  shows "anchored ix (run_act U (ActAdd p a) ix)"
proof -
  obtain inst nx where g: "GetNextInstanceValue (NextInstance ix) = (inst, nx)" by fastforce
  let ?ix = "ix\<lparr>NextInstance := nx\<rparr>"
  have t0: "anchored ix ?ix" by (rule anchored_fields) simp
  show ?thesis
  proof (cases "Q (slot_queue a) @ Q (slot_queue a + 1)")
    case Nil
    then show ?thesis using DoAdd_none(1) [OF assms Nil g, of U p] t0 by simp
  next
    case (Cons i rest)
    have r: "rings main ?ix Q" using tableD(1) [OF assms(1)] rings_cong [of ?ix ix main Q] by simp
    obtain q L where q: "q \<in> main" "Q q = i # L" by (rule taken_at [OF Cons])
    then have iq: "i \<in> set (Q q)" by simp
    have i0: "0 \<le> i" using ringsD(4) [OF r q(1) iq] by simp
    have ff: "first_free a ?ix = i" using first_free_head [OF r, of a] Cons by simp
    have e: "run_act U (ActAdd p a) ix = fill_slot i (used_attr U p a inst) (used_objr p a) (claim_slot p a i ?ix)"
      using assms(2) g ff i0 by (simp add: DoAdd_def Let_def)
    have "iFreeQ (run_act U (ActAdd p a) ix) = iFreeQ (Dequeue i ?ix)" unfolding e by (simp add: claim_slot_def Let_def)
    then show ?thesis using anchored_trans [OF t0 anchored_trans [OF Dequeue_anchored [OF r q(1) iq] anchored_fields]] by blast
  qed
qed

lemma DoRemove_anchored:
  assumes "table ix Q" "iState ix \<noteq> ETerminated"
  shows "anchored ix (run_act U (ActRemove h) ix)"
proof (cases "hmap ix (key h)")
  case None
  then show ?thesis using DoRemove_bad [OF assms(2) None] by (simp add: anchored_def)
next
  case (Some px)
  let ?i = "HandleIndex h" and ?p = "objr ix (HandleIndex h) AND 0xfffffffc"
  have hm: "0 \<le> ?i" "?i < iCount ix" "objr ix ?i \<ge> 4" "attr ix ?i AND 0x3FFF = HandleInstance h"
    using Some unfolding hmap_def key_def by (auto split: if_splits)
  define a where "a = monitor_remove ?p ?i
      ((set_objr ?i (objr ix ?i AND 1) ix)\<lparr>iActiveCount := iActiveCount (set_objr ?i (objr ix ?i AND 1) ix) - 1\<rparr>)"
  have fa: "iSlots a = iSlots (set_objr ?i (objr ix ?i AND 1) ix)" "iFreeQ a = iFreeQ ix" by (simp_all add: a_def set_objr_def)
  have "iFreeQ a = iFreeQ (set_objr ?i (objr ix ?i AND 1) ix)" by (simp add: a_def set_objr_def)
  then have ra: "rings main a Q" using tableD(1) [OF assms(1)] rings_cong [OF fa(1)] by simp
  have si: "slot_index y ?i" if "iSlots y = iSlots a" for y
    using hm(1,2) tableD(2,4) [OF assms(1)] by (simp add: slot_index_def that fa(1) set_objr_def)
  have res: "run_act U (ActRemove h) ix = free_reserved ?i a \<or> run_act U (ActRemove h) ix = snd (free_normal ?i a)"
  proof -
    have v4: "\<not> objr ix ?i < 4" using hm(3) by simp
    show ?thesis unfolding run_act.simps DoRemove_def Let_def using assms(2) hm(2) hm(4) [symmetric] v4
      by (simp add: a_def [symmetric] split: prod.splits)
  qed
  define y where "y = a\<lparr>iReservedFree := iReservedFree a + 1,
      iReservedFreeHWM := (if (iState a \<noteq> ETidying \<or> ?i < iResult a) \<and> ?i \<ge> iReservedFreeHWM a then ?i + 1 else iReservedFreeHWM a)\<rparr>"
  have ry: "rings main y Q" using ra rings_cong [of y a main Q] by (simp add: y_def)
  have t0: "anchored ix a" "anchored ix y" by (rule anchored_fields; simp add: y_def fa)+
  have "free_reserved ?i a = AddHead EQRsvd ?i y" by (simp add: free_reserved_def Let_def y_def)
  then have "anchored ix (free_reserved ?i a)" using anchored_trans [OF t0(2) AddHead_anchored [OF ry _ si, of EQRsvd]] by (simp add: y_def)
  moreover have "iFreeQ (snd (free_normal ?i a)) = iFreeQ (AddHead EQFree ?i a)" by (simp add: free_normal_def Let_def)
  then have "anchored ix (snd (free_normal ?i a))"
    using anchored_trans [OF anchored_trans [OF t0(1) AddHead_anchored [OF ra _ si, of EQFree]] anchored_fields] by simp
  ultimately show ?thesis using res by auto
qed

lemma acts_anchored:
  assumes "steady_ix ix" "list_all ok_act acts"
  shows "anchored ix (fold (run_act U) acts ix)"
  using assms
proof (induction acts arbitrary: ix)
  case Nil
  then show ?case by (simp add: anchored_def)
next
  case (Cons act acts)
  obtain Q where Q: "steady ix Q" using Cons.prems(1) by (auto simp: steady_ix_def)
  have "iState ix \<noteq> ETerminated" using steadyD(3) [OF Q] by simp
  then have t: "anchored ix (run_act U act ix)"
    using DoAdd_anchored DoRemove_anchored steadyD(1) [OF Q] by (cases act) blast+
  have "steady_ix (run_act U act ix)" using steady_acts.keep Cons.prems by simp
  then show ?case using Cons.IH Cons.prems(2) anchored_trans [OF t] by simp
qed

end
