(* ===== verification/Objix_Copy.thy ===== *)
theory Objix_Copy
  imports Objix_Track
begin

text \<open>
  Copying the table while other threads change it: when no change is left to copy, the new table has
  what the old one has.
\<close>

section \<open>Copying slots\<close>

lemma fold_copy_slot:
  assumes "\<And>j. j \<in> set js \<Longrightarrow> 0 \<le> j"
  shows "length (fold (copy_slot slots) js ns) = length ns \<and>
    (\<forall>k < length ns. fold (copy_slot slots) js ns ! k = (if int k \<in> set js then slots ! k else ns ! k))"
  using assms
proof (induction js arbitrary: ns)
  case (Cons j js)
  have l: "length (copy_slot slots j ns) = length ns" by (simp add: copy_slot_def)
  have IH: "length (fold (copy_slot slots) js (copy_slot slots j ns)) = length ns \<and>
      (\<forall>k < length ns. fold (copy_slot slots) js (copy_slot slots j ns) ! k = (if int k \<in> set js then slots ! k else copy_slot slots j ns ! k))"
    using Cons.IH [of "copy_slot slots j ns"] Cons.prems l by simp
  have "copy_slot slots j ns ! k = (if int k = j then slots ! k else ns ! k)" if "k < length ns" for k
    using that Cons.prems [of j] by (auto simp: copy_slot_def nth_list_update)
  then show ?case using IH by auto
qed simp

lemma copy_group_slots: "copy_group slots s k = fold (copy_slot slots) (map (\<lambda>j. int (k * 2 ^ s + j)) [0..<2 ^ s])"
  by (simp add: copy_group_def fold_map o_def fun_eq_iff)

lemma fold_copy_group:
  "length (fold (copy_group slots s) ks ns) = length ns \<and>
   (\<forall>k < length ns. fold (copy_group slots s) ks ns ! k = (if k div 2 ^ s \<in> set ks then slots ! k else ns ! k))"
proof (induction ks arbitrary: ns)
  case (Cons g ks)
  let ?js = "map (\<lambda>j. int (g * 2 ^ s + j)) [0..<2 ^ s]"
  have c: "length (copy_group slots s g ns) = length ns \<and>
      (\<forall>k < length ns. copy_group slots s g ns ! k = (if int k \<in> set ?js then slots ! k else ns ! k))"
    unfolding copy_group_slots by (rule fold_copy_slot) auto
  have "int k \<in> set ?js \<longleftrightarrow> k div 2 ^ s = g" for k
  proof
    assume "int k \<in> set ?js"
    then obtain j where j: "j < 2 ^ s" "int k = int (g * 2 ^ s + j)" by (auto simp del: of_nat_add of_nat_mult)
    then have "k = g * 2 ^ s + j" by (simp only: of_nat_eq_iff)
    then show "k div 2 ^ s = g" using j(1) by simp
  next
    assume "k div 2 ^ s = g"
    then have "k = g * 2 ^ s + k mod 2 ^ s" by (metis div_mult_mod_eq)
    moreover have "k mod 2 ^ s < 2 ^ s" by simp
    ultimately show "int k \<in> set ?js" unfolding set_map set_upt by (metis (no_types, lifting) atLeastLessThan_iff image_eqI le0)
  qed
  then show ?case using Cons.IH [of "copy_group slots s g ns"] c by auto
qed simp

text \<open>Every entry is copied, or it was not marked.\<close>

lemma copy_modified_ok:
  assumes "recording ix" "length ns = length (iSlots ix)"
  shows "length (copy_modified ix slots ns) = length ns"
    "slot_index ix i \<Longrightarrow> copy_modified ix slots ns ! nat i = slots ! nat i \<or> \<not> marked ix i \<and> copy_modified ix slots ns ! nat i = ns ! nat i"
proof -
  have "length (copy_modified ix slots ns) = length ns \<and> (slot_index ix i \<longrightarrow> copy_modified ix slots ns ! nat i = slots ! nat i \<or>
      \<not> marked ix i \<and> copy_modified ix slots ns ! nat i = ns ! nat i)"
  proof (cases "iModCount ix \<le> EModCount")
    case True
    let ?js = "take (nat (iModCount ix)) (iIndex ix)"
    have e: "copy_modified ix slots ns = fold (copy_slot slots) ?js ns" using True by (simp add: copy_modified_def)
    have "0 \<le> j" if "j \<in> set ?js" for j using that assms(1) set_take_subset by (fastforce simp: recording_def slot_index_def)
    from fold_copy_slot [OF this] show ?thesis unfolding e using assms(2) True by (auto simp: marked_def slot_index_def)
  next
    case False
    let ?ks = "filter (\<lambda>k. bit (iBitMap ix ! (k div 32)) (k mod 32)) [0..<128]"
    have e: "copy_modified ix slots ns = fold (copy_group slots (iModListShift ix)) ?ks ns" using False by (simp add: copy_modified_def)
    note F = fold_copy_group [of slots "iModListShift ix" ?ks ns]
    show ?thesis
    proof (intro conjI impI)
      show "length (copy_modified ix slots ns) = length ns" unfolding e using F by blast
      assume i: "slot_index ix i"
      have g: "group ix i < 128" by (rule group_less [OF _ i]) (use assms(1) in \<open>simp add: recording_def\<close>)
      have "nat i < length ns" using i assms(2) unfolding slot_index_def by linarith
      then have v: "copy_modified ix slots ns ! nat i = (if group ix i \<in> set ?ks then slots ! nat i else ns ! nat i)"
        unfolding e group_def using F by blast
      have "group ix i \<in> set ?ks \<longleftrightarrow> marked ix i" using g False by (simp add: marked_def group_bit_def)
      then show "copy_modified ix slots ns ! nat i = slots ! nat i \<or> \<not> marked ix i \<and> copy_modified ix slots ns ! nat i = ns ! nat i"
        using v by simp
    qed
  qed
  then show "length (copy_modified ix slots ns) = length ns"
    "slot_index ix i \<Longrightarrow> copy_modified ix slots ns ! nat i = slots ! nat i \<or> \<not> marked ix i \<and> copy_modified ix slots ns ! nat i = ns ! nat i"
    by blast+
qed

section \<open>The table between operations, whether it is recorded or not\<close>

definition settled :: "RObjectIx \<Rightarrow> bool" where
  "settled ix \<longleftrightarrow> (\<exists>Q. steady ix Q \<and> Q EQAltFree = [])"

interpretation settled_acts: guarded "run_act U" ok_act settled for U
proof
  show "ok_act act \<Longrightarrow> settled ix \<Longrightarrow> settled (run_act U act ix)" for act ix
    unfolding settled_def using steady_add steady_remove by (cases act) (metis ok_act.simps(1))+
qed

lemma settled_steady: "settled ix \<Longrightarrow> steady_ix ix"
  by (auto simp: settled_def steady_ix_def)

lemma settled_ready: "settled ix \<Longrightarrow> ready ix"
  using steady_ready by (auto simp: settled_def)

lemma settled_cong:
  assumes "settled ix" "iSlots ix' = iSlots ix" "iFreeQ ix' = iFreeQ ix" "iAllocated ix' = iAllocated ix" "iCount ix' = iCount ix"
    "iActiveCount ix' = iActiveCount ix" "iReservedFree ix' = iReservedFree ix" "iReservedTotal ix' = iReservedTotal ix"
    "NextInstance ix' = NextInstance ix" "iState ix' = iState ix" "iReservedFreeHWM ix' = iReservedFreeHWM ix" "iModListShift ix' = iModListShift ix"
  shows "settled ix'"
proof -
  obtain Q where Q: "steady ix Q" "Q EQAltFree = []" using assms(1) by (auto simp: settled_def)
  have "steady ix' Q"
    by (rule steady_cong [OF assms(2-10) _ _ assms(12) _ Q(1)]) (use steadyD(4,5,6) [OF Q(1)] assms(11) in simp_all)
  then show ?thesis using Q(2) by (auto simp: settled_def)
qed

lemma settledD:
  assumes "settled ix"
  shows "iState ix = ENormal" "sized ix" "int (length (iSlots ix)) = iAllocated ix" "linked ix"
proof -
  obtain Q where Q: "steady ix Q" using assms by (auto simp: settled_def)
  show "iState ix = ENormal" "sized ix" "int (length (iSlots ix)) = iAllocated ix"
    using steadyD [OF Q] tableD(2) [of ix Q] by simp_all
  show "linked ix" using ringsD(1) [OF tableD(1) [OF steadyD(1) [OF Q]], of EQFree] by simp
qed

lemma reset_recording:
  assumes "settled ix" "iAllocated ix \<noteq> 0"
  shows "recording (reset_mod_list ix)" "settled (reset_mod_list ix)" "\<not> marked (reset_mod_list ix) i"
proof -
  note d = settledD [OF assms(1)]
  have "int (length (iSlots ix)) \<le> int (128 * 2 ^ iModListShift ix)" using d(2,3) by (simp add: sized_def)
  then have "length (iSlots ix) \<le> 128 * 2 ^ iModListShift ix" by (simp only: of_nat_le_iff)
  then show "recording (reset_mod_list ix)"
    using assms(2) d(3,4) by (auto simp: recording_def reset_mod_list_def clear_mod_list_def linked_def slot_index_def)
  show "settled (reset_mod_list ix)" by (rule settled_cong [OF assms(1)]) (simp_all add: reset_mod_list_def clear_mod_list_def)
  show "\<not> marked (reset_mod_list ix) i" by (simp add: marked_def reset_mod_list_def)
qed

lemma recording_slots: "recording ix \<Longrightarrow> settled ix \<Longrightarrow> iAllocated ix \<noteq> 0"
proof -
  assume a: "recording ix" "settled ix"
  then have "iIndex ix ! 0 \<in> set (iIndex ix)" "\<forall>i \<in> set (iIndex ix). slot_index ix i" unfolding recording_def by simp_all
  then have "slot_index ix (iIndex ix ! 0)" by blast
  then show ?thesis using settledD(3) [OF a(2)] by (auto simp: slot_index_def)
qed

section \<open>The copy loop\<close>

definition copied :: "SSlot list \<Rightarrow> RObjectIx \<Rightarrow> bool" where
  "copied ns ix \<longleftrightarrow> length ns = length (iSlots ix) \<and>
     (\<forall>i. slot_index ix i \<longrightarrow> ns ! nat i = iSlots ix ! nat i \<or> marked ix i)"

text \<open>What the others do while one pass reads the slots: each read is the last contents, or it is marked.\<close>

lemma slots_seen_ok:
  assumes "settled ix" "recording ix" "list_all ok_act (fst e)" "slot_index ix i"
  shows "slots_seen U e ix ! nat i = iSlots (fold (run_act U) (fst e) ix) ! nat i \<or> marked (fold (run_act U) (fst e) ix) i"
proof -
  let ?k = "snd e (nat i)"
  let ?m = "fold (run_act U) (take ?k (fst e)) ix"
  have f: "fold (run_act U) (fst e) ix = fold (run_act U) (drop ?k (fst e)) ?m" by (metis append_take_drop_id fold_append comp_apply)
  have ok: "list_all ok_act (take ?k (fst e))" "list_all ok_act (drop ?k (fst e))"
    using assms(3) by (metis append_take_drop_id list_all_append)+
  have t: "tracks ix ?m" by (rule acts_track [OF settled_steady [OF assms(1)] assms(2) ok(1)])
  have "settled ?m" by (rule settled_acts.keep_all [OF ok(1) assms(1)])
  then have t2: "tracks ?m (fold (run_act U) (drop ?k (fst e)) ?m)" using acts_track [OF settled_steady tracksD(1) [OF t] ok(2)] by blast
  have "nat i < length (iSlots ix)" using assms(4) unfolding slot_index_def by linarith
  then have "slots_seen U e ix ! nat i = iSlots ?m ! nat i" by (simp add: slots_seen_def)
  then show ?thesis unfolding f using tracksD(5) [OF t2, of i] tracksD(3) [OF t] assms(4) by metis
qed

definition same_frame :: "RObjectIx \<Rightarrow> RObjectIx \<Rightarrow> bool" where
  "same_frame ix ix' \<longleftrightarrow> iAllocated ix' = iAllocated ix \<and> iCount ix \<le> iCount ix' \<and> anchored ix ix'"

lemma same_frame_trans: "same_frame ix ix1 \<Longrightarrow> same_frame ix1 ix2 \<Longrightarrow> same_frame ix ix2"
  by (auto simp: same_frame_def anchored_def)

lemma reset_frame: "same_frame ix (reset_mod_list ix)" "abs_ix (reset_mod_list ix) = abs_ix ix" "iSlots (reset_mod_list ix) = iSlots ix"
proof -
  show "same_frame ix (reset_mod_list ix)" by (simp add: same_frame_def reset_mod_list_def clear_mod_list_def anchored_fields)
  have "hmap (reset_mod_list ix) = hmap ix" by (rule hmap_cong) (simp_all add: reset_mod_list_def clear_mod_list_def)
  then show "abs_ix (reset_mod_list ix) = abs_ix ix" by (simp add: abs_ix_def reset_mod_list_def clear_mod_list_def)
  show "iSlots (reset_mod_list ix) = iSlots ix" by (simp add: reset_mod_list_def clear_mod_list_def)
qed

lemma acts_frame:
  assumes "settled ix" "list_all ok_act acts"
  shows "same_frame ix (fold (run_act U) acts ix)"
  using acts_anchored [OF settled_steady [OF assms(1)] assms(2)] ready_fold(3) [OF settled_ready [OF assms(1)] assms(2), of U]
  by (simp add: same_frame_def same_phase_def)

text \<open>One pass over a table in which nothing is marked.\<close>

lemma copy_pass:
  assumes "settled ix" "recording ix" "list_all ok_act (fst e)" "length ns = length (iSlots ix)"
    "\<And>i. slot_index ix i \<Longrightarrow> ns ! nat i = slots_seen U e ix ! nat i \<or> ns ! nat i = iSlots ix ! nat i"
  shows "copied ns (fold (run_act U) (fst e) ix)"
proof -
  note t = tracksD [OF acts_track [OF settled_steady [OF assms(1)] assms(2,3)]]
  show ?thesis unfolding copied_def
  proof (intro conjI allI impI)
    show "length ns = length (iSlots (fold (run_act U) (fst e) ix))" using assms(4) t(2) by simp
    fix i
    assume "slot_index (fold (run_act U) (fst e) ix) i"
    then have i: "slot_index ix i" using t(3) by simp
    show "ns ! nat i = iSlots (fold (run_act U) (fst e) ix) ! nat i \<or> marked (fold (run_act U) (fst e) ix) i"
      using assms(5) [OF i] slots_seen_ok [OF assms(1-3) i, of U] t(5) [OF i, of U] by auto
  qed
qed

abbreviation (input) ok_intervals :: "interval list \<Rightarrow> bool" where "ok_intervals envs \<equiv> list_all (\<lambda>e. list_all ok_act (fst e)) envs"

lemma copy_loop_ok:
  assumes "settled ix" "recording ix" "copied ns ix" "ok_intervals envs" "copy_loop U envs ns ix = (c, ix')"
  shows "c = iSlots ix' \<and> settled ix' \<and> same_frame ix ix' \<and> scanned (map fst envs) ix ix'"
  using assms
proof (induction U envs ns ix rule: copy_loop.induct)
  case (1 U ns ix)
  have whole: "ns = iSlots ix" if "iModCount ix = 0"
  proof (rule nth_equalityI)
    fix k
    assume "k < length ns"
    then have "slot_index ix (int k)" using "1.prems"(3) by (simp add: slot_index_def copied_def)
    then show "ns ! k = iSlots ix ! k" using "1.prems"(3) that unfolding copied_def by (force simp: marked_def)
  qed (use "1.prems"(3) in \<open>simp add: copied_def\<close>)
  have all: "copy_modified ix (iSlots ix) ns = iSlots ix"
  proof (rule nth_equalityI)
    have len: "length ns = length (iSlots ix)" using "1.prems"(3) by (simp add: copied_def)
    note cm = copy_modified_ok [OF "1.prems"(2) len, where slots = "iSlots ix"]
    show "length (copy_modified ix (iSlots ix) ns) = length (iSlots ix)" using cm(1) len by simp
    fix k
    assume "k < length (copy_modified ix (iSlots ix) ns)"
    then have "slot_index ix (int k)" using cm(1) len by (simp add: slot_index_def)
    then show "copy_modified ix (iSlots ix) ns ! k = iSlots ix ! k" using cm(2) [of "int k"] "1.prems"(3) unfolding copied_def by force
  qed
  have ne: "iAllocated ix \<noteq> 0" by (rule recording_slots [OF "1.prems"(2,1)])
  show ?case
  proof (cases "iModCount ix = 0")
    case True
    then have e: "c = ns" "ix' = ix" using "1.prems"(5) by simp_all
    show ?thesis unfolding e using whole [OF True] "1.prems"(1) scanned_refl [OF refl] by (simp add: same_frame_def anchored_def)
  next
    case False
    then have e: "c = iSlots ix" "ix' = reset_mod_list ix" using "1.prems"(5) all by simp_all
    show ?thesis unfolding e using reset_frame reset_recording(2) [OF "1.prems"(1)] ne False scanned_refl [OF reset_frame(2)] by simp
  qed
next
  case (2 U e envs ns ix)
  show ?case
  proof (cases "iModCount ix = 0")
    case True
    have e: "c = ns" "ix' = ix" using "2.prems"(5) True by simp_all
    have "ns = iSlots ix"
    proof (rule nth_equalityI)
      fix k
      assume "k < length ns"
      then have "slot_index ix (int k)" using "2.prems"(3) by (simp add: slot_index_def copied_def)
      then show "ns ! k = iSlots ix ! k" using "2.prems"(3) True unfolding copied_def by (force simp: marked_def)
    qed (use "2.prems"(3) in \<open>simp add: copied_def\<close>)
    then show ?thesis unfolding e using "2.prems"(1) scanned_refl [OF refl] by (simp add: same_frame_def anchored_def)
  next
    case False
    have z: "iAllocated ix \<noteq> 0" by (rule recording_slots [OF "2.prems"(2,1)])
    define ix1 where "ix1 = reset_mod_list ix"
    note r = reset_recording [OF "2.prems"(1) z, folded ix1_def] and fr = reset_frame [of ix, folded ix1_def]
    have ok: "list_all ok_act (fst e)" "ok_intervals envs" using "2.prems"(4) by simp_all
    let ?ns = "copy_modified ix (slots_seen U e ix1) ns" and ?ix2 = "fold (run_act U) (fst e) ix1"
    have len: "length ns = length (iSlots ix)" using "2.prems"(3) by (simp add: copied_def)
    note cm = copy_modified_ok [OF "2.prems"(2) len, where slots = "slots_seen U e ix1"]
    have si: "slot_index ix1 = slot_index ix" by (simp add: fun_eq_iff slot_index_def fr(3))
    have c2: "copied ?ns ?ix2"
    proof (rule copy_pass [OF r(2,1) ok(1)])
      show "length ?ns = length (iSlots ix1)" using cm(1) len fr(3) by simp
      fix i
      assume "slot_index ix1 i"
      then have i: "slot_index ix i" using si by simp
      show "?ns ! nat i = slots_seen U e ix1 ! nat i \<or> ?ns ! nat i = iSlots ix1 ! nat i"
        using cm(2) [OF i] i "2.prems"(3) unfolding copied_def fr(3) by force
    qed
    have s2: "settled ?ix2" by (rule settled_acts.keep_all [OF ok(1) r(2)])
    have rc2: "recording ?ix2" by (rule tracksD(1) [OF acts_track [OF settled_steady [OF r(2)] r(1) ok(1)]])
    have IH: "c = iSlots ix' \<and> settled ix' \<and> same_frame ?ix2 ix' \<and> scanned (map fst envs) ?ix2 ix'"
      using "2.IH" [OF False ix1_def s2 rc2 c2 ok(2)] "2.prems"(5) False by (simp add: ix1_def Let_def)
    have o: "?ix2 = others U (map fst (e # envs)) ix1" by (simp add: others_def)
    have "scanned (map fst (e # envs)) ix ix'"
      by (rule scanned_step [where U = U, OF fr(2) settled_ready [OF r(2)]]) (use IH ok o in \<open>simp_all add: list_all_iff\<close>)
    moreover have "same_frame ix ix'"
      using same_frame_trans [OF fr(1)] same_frame_trans [OF acts_frame [OF r(2) ok(1)]] IH by blast
    ultimately show ?thesis using IH by blast
  qed
qed

text \<open>The whole copy.\<close>

lemma copy_slots_ok:
  assumes "settled ix" "ok_intervals envs" "copy_slots U envs ix = (c, ix')"
  shows "c = iSlots ix'" "settled ix'" "same_frame ix ix'" "scanned (map fst envs) ix ix'"
proof -
  have "c = iSlots ix' \<and> settled ix' \<and> same_frame ix ix' \<and> scanned (map fst envs) ix ix'"
  proof (cases "iAllocated ix = 0")
    case True
    then show ?thesis using assms settledD(3) [OF assms(1)] scanned_refl [OF refl] by (auto simp: copy_slots_def same_frame_def anchored_def)
  next
    case False
    have same: "(reset_mod_list ix)\<lparr>iState := ENormal\<rparr> = reset_mod_list ix"
      using settledD(1) [OF assms(1)] by (simp add: reset_mod_list_def clear_mod_list_def)
    define ix1 where "ix1 = reset_mod_list ix"
    note r = reset_recording [OF assms(1) False, folded ix1_def] and fr = reset_frame [of ix, folded ix1_def]
    show ?thesis
    proof (cases envs)
      case Nil
      have "copied (iSlots ix1) ix1" by (simp add: copied_def)
      moreover have "copy_loop U [] (iSlots ix1) ix1 = (c, ix')"
        using assms(3) False unfolding Nil by (simp only: copy_slots_def Let_def same ix1_def if_False list.case)
      ultimately have "c = iSlots ix' \<and> settled ix' \<and> same_frame ix1 ix' \<and> scanned (map fst []) ix1 ix'"
        using copy_loop_ok [OF r(2,1), of "iSlots ix1" "[]" U c ix'] by simp
      then show ?thesis using same_frame_trans [OF fr(1)] Nil fr(2) by (simp add: scanned_def)
    next
      case (Cons e rest)
      have ok: "list_all ok_act (fst e)" "ok_intervals rest" using assms(2) Cons by simp_all
      let ?ix2 = "fold (run_act U) (fst e) ix1"
      have c2: "copied (slots_seen U e ix1) ?ix2"
        by (rule copy_pass [OF r(2,1) ok(1)]) (simp_all add: slots_seen_def)
      have s2: "settled ?ix2" by (rule settled_acts.keep_all [OF ok(1) r(2)])
      have rc2: "recording ?ix2" by (rule tracksD(1) [OF acts_track [OF settled_steady [OF r(2)] r(1) ok(1)]])
      have "copy_loop U rest (slots_seen U e ix1) ?ix2 = (c, ix')"
        using assms(3) False unfolding Cons by (simp only: copy_slots_def Let_def same ix1_def if_False list.case)
      from copy_loop_ok [OF s2 rc2 c2 ok(2) this]
      have L: "c = iSlots ix'" "settled ix'" "same_frame ?ix2 ix'" "scanned (map fst rest) ?ix2 ix'" by blast+
      have o: "?ix2 = others U (map fst envs) ix1" by (simp add: others_def Cons)
      have "scanned (map fst envs) ix ix'"
        by (rule scanned_step [where U = U, OF fr(2) settled_ready [OF r(2)]]) (use L ok o Cons in \<open>simp_all add: list_all_iff\<close>)
      moreover have "same_frame ix ix'" using same_frame_trans [OF fr(1)] same_frame_trans [OF acts_frame [OF r(2) ok(1)]] L(3) by blast
      ultimately show ?thesis using L by blast
    qed
  qed
  then show "c = iSlots ix'" "settled ix'" "same_frame ix ix'" "scanned (map fst envs) ix ix'" by blast+
qed

end
