(* ===== verification/Objix_Grow.thy ===== *)
theory Objix_Grow
  imports Objix_Copy
begin

text \<open>
  A larger table: the slots of the old one with their queues, new reserved slots, a slot for the handle to
  be added, and new free slots.
\<close>

section \<open>Queues in a longer table\<close>

lemma queue_extend:
  assumes "queue ix q L" "\<exists>X. iSlots ix' = iSlots ix @ X" "anchor ix' q = anchor ix q"
  shows "queue ix' q L"
proof -
  obtain X where X: "iSlots ix' = iSlots ix @ X" using assms(2) by blast
  note n = queue_nodes [OF assms(1)]
  have rg: "- 6 \<le> q" "q < 0" and L: "\<And>i. i \<in> set L \<Longrightarrow> 0 \<le> i \<and> i < int (length (iSlots ix))" using assms(1) by (auto simp: queue_def)
  have e: "nxt ix' i = nxt ix i \<and> prv ix' i = prv ix i" if "i \<in> set (q # L)" for i
  proof (cases "i = q")
    case True
    then show ?thesis using rg assms(3) X by (simp add: nxt_def prv_def node_def link_next_def link_prev_def anchor_def)
  next
    case False
    then have i: "0 \<le> i" "nat i < length (iSlots ix)" "i < int (length (iSlots ix))" using that L [of i] by auto
    then show ?thesis using X by (simp add: nxt_def prv_def node_def link_next_def link_prev_def nth_append)
  qed
  have "dlring (nxt ix') (prv ix') q L = dlring (nxt ix) (prv ix) q L" by (rule dlring_cong) (use e in auto)
  then show ?thesis using assms(1) X unfolding queue_def by fastforce
qed

lemma new_slots_nth:
  assumes "first \<le> lastIx"
  shows "length (new_slots r q first lastIx) = nat (lastIx - first + 1)"
    "first \<le> i \<Longrightarrow> i \<le> lastIx \<Longrightarrow> new_slots r q first lastIx ! nat (i - first) =
       \<lparr>iNext = to_TInt16 (if i = lastIx then q else i + 1), iPrev = to_TInt16 (if i = first then q else i - 1), iObjR = r, iAttr = 0\<rparr>"
proof -
  let ?s = "map (new_slot r) [first..lastIx]"
  have len: "length ?s = nat (lastIx - first + 1)" by simp
  show "length (new_slots r q first lastIx) = nat (lastIx - first + 1)" by (simp add: new_slots_def Let_def)
  assume i: "first \<le> i" "i \<le> lastIx"
  have a: "?s ! nat (j - first) = new_slot r j" if "first \<le> j" "j \<le> lastIx" for j using that by simp
  have k: "nat (i - first) < length ?s" "nat (i - first) = 0 \<longleftrightarrow> i = first" "nat (i - first) = length ?s - 1 \<longleftrightarrow> i = lastIx"
    using i len by auto
  have "new_slots r q first lastIx = (?s[0 := (?s ! 0)\<lparr>iPrev := to_TInt16 q\<rparr>])[length ?s - 1 :=
      (?s[0 := (?s ! 0)\<lparr>iPrev := to_TInt16 q\<rparr>] ! (length ?s - 1))\<lparr>iNext := to_TInt16 q\<rparr>]"
    by (simp only: new_slots_def Let_def)
  moreover have "?s[0 := (?s ! 0)\<lparr>iPrev := to_TInt16 q\<rparr>] ! nat (i - first) =
      (if i = first then (new_slot r i)\<lparr>iPrev := to_TInt16 q\<rparr> else new_slot r i)"
    using k a [OF i] by (auto simp: nth_list_update)
  ultimately show "new_slots r q first lastIx ! nat (i - first) =
      \<lparr>iNext = to_TInt16 (if i = lastIx then q else i + 1), iPrev = to_TInt16 (if i = first then q else i - 1), iObjR = r, iAttr = 0\<rparr>"
    using k by (auto simp: nth_list_update new_slot_def)
qed

lemma new_slots_values:
  assumes "first \<le> lastIx"
  shows "map iObjR (new_slots r q first lastIx) = replicate (nat (lastIx - first + 1)) r"
    "map iAttr (new_slots r q first lastIx) = replicate (nat (lastIx - first + 1)) 0"
proof -
  note l = new_slots_nth(1) [OF assms]
  have "new_slots r q first lastIx ! k = \<lparr>iNext = to_TInt16 (if first + int k = lastIx then q else first + int k + 1),
      iPrev = to_TInt16 (if first + int k = first then q else first + int k - 1), iObjR = r, iAttr = 0\<rparr>"
    if "k < nat (lastIx - first + 1)" for k
    using new_slots_nth(2) [OF assms, of "first + int k" r q] that by simp
  then show "map iObjR (new_slots r q first lastIx) = replicate (nat (lastIx - first + 1)) r"
    "map iAttr (new_slots r q first lastIx) = replicate (nat (lastIx - first + 1)) 0"
    using l by (auto intro!: nth_equalityI)
qed

lemma map_next_upto: "a \<le> b \<Longrightarrow> (\<And>i. a \<le> i \<Longrightarrow> i < b \<Longrightarrow> f i = i + 1) \<Longrightarrow> map f [a..b] = [a + 1..b] @ [f b]" for a b :: int
proof -
  assume a: "a \<le> b" "\<And>i. a \<le> i \<Longrightarrow> i < b \<Longrightarrow> f i = i + 1"
  have "map f [a..b - 1] = map (\<lambda>i. i + 1) [a..b - 1]" using a(2) by auto
  also have "\<dots> = [a + 1..b]" by (rule nth_equalityI) simp_all
  finally show ?thesis using a(1) by (simp add: upto_rec2)
qed

lemma map_prev_upto: "a \<le> b \<Longrightarrow> (\<And>i. a < i \<Longrightarrow> i \<le> b \<Longrightarrow> f i = i - 1) \<Longrightarrow> map f [a..b] = f a # [a..b - 1]" for a b :: int
proof -
  assume a: "a \<le> b" "\<And>i. a < i \<Longrightarrow> i \<le> b \<Longrightarrow> f i = i - 1"
  have "map f [a + 1..b] = map (\<lambda>i. i - 1) [a + 1..b]" using a(2) by auto
  also have "\<dots> = [a..b - 1]" by (rule nth_equalityI) simp_all
  finally show ?thesis using a(1) by (simp add: upto_rec1)
qed

text \<open>The queue of new slots in the new table.\<close>

lemma new_queue:
  assumes "iSlots ix = A @ new_slots r q first lastIx @ B" "int (length A) = first" "first \<le> lastIx" "anchor ix q = \<lparr>iNext = first, iPrev = lastIx\<rparr>"
    "- 6 \<le> q" "q < 0" "length (iSlots ix) \<le> 32768"
  shows "queue ix q [first..lastIx]"
proof -
  note l = new_slots_nth(1) [OF assms(3)]
  have f0: "0 \<le> first" using assms(2) by simp
  have len: "lastIx < int (length (iSlots ix))" using assms(1-3) l by simp
  have slot: "iSlots ix ! nat i = \<lparr>iNext = to_TInt16 (if i = lastIx then q else i + 1), iPrev = to_TInt16 (if i = first then q else i - 1), iObjR = r, iAttr = 0\<rparr>"
    if "first \<le> i" "i \<le> lastIx" for i
  proof -
    have "nat i = length A + nat (i - first)" "nat (i - first) < length (new_slots r q first lastIx)" using that assms(2) f0 l by auto
    then show ?thesis unfolding new_slots_nth(2) [OF assms(3) that, symmetric] assms(1) by (simp add: nth_append)
  qed
  have t: "to_TInt16 j = j" if "- 6 \<le> j" "j \<le> lastIx" for j using that len assms(7) by (intro to_TInt16_id) auto
  have nx: "nxt ix i = (if i = lastIx then q else i + 1)" "prv ix i = (if i = first then q else i - 1)" if "first \<le> i" "i \<le> lastIx" for i
    using slot [OF that] that f0 len t assms(5,6) by (auto simp: nxt_def prv_def node_def link_next_def link_prev_def)
  have q: "nxt ix q = first" "prv ix q = lastIx"
    using assms(4-6) by (simp_all add: nxt_def prv_def node_def link_next_def link_prev_def anchor_def)
  have "map (nxt ix) (q # [first..lastIx]) = [first..lastIx] @ [q]"
    using map_next_upto [OF assms(3), of "nxt ix"] nx(1) q(1) assms(3) by (simp add: upto_rec1)
  moreover have "map (prv ix) ([first..lastIx] @ [q]) = q # [first..lastIx]"
    using map_prev_upto [OF assms(3), of "prv ix"] nx(2) q(2) assms(3) upto_rec2 [OF assms(3)] by simp
  moreover have "q \<notin> set [first..lastIx]" using f0 assms(6) by simp
  ultimately have "dlring (nxt ix) (prv ix) q [first..lastIx]" by (simp add: dlring_def)
  then show ?thesis using f0 len assms(5,6) by (auto simp: queue_def)
qed

lemma empty_queue: "anchor ix q = \<lparr>iNext = q, iPrev = q\<rparr> \<Longrightarrow> - 6 \<le> q \<Longrightarrow> q < 0 \<Longrightarrow> queue ix q []"
  by (simp add: queue_def dlring_def nxt_def prv_def node_def link_next_def link_prev_def anchor_def)

lemma rings_sub: "rings S ix Q \<Longrightarrow> T \<subseteq> S \<Longrightarrow> rings T ix Q"
  unfolding rings_def by blast

section \<open>The invariant in the larger table\<close>

lemma table_append:
  assumes "table s Q" "iCount s = iAllocated s" "Q EQAltFree = []" "Q EQAltRsvd = []"
    "map iObjR (iSlots ix) = map iObjR (iSlots s) @ replicate n 1 @ us @ replicate m 0" "map iAttr (iSlots ix) = map iAttr (iSlots s) @ Y"
    "us = [] \<or> us = [v] \<and> v \<ge> 4 \<and> v AND 1 = 0 \<and> Y ! n AND 0x3FFF \<noteq> 0"
    "Q' = Q(EQRsvd := Q EQRsvd @ [iAllocated s..iAllocated s + int n - 1],
       EQFree := Q EQFree @ [iAllocated s + int n + int (length us)..iAllocated ix - 1])"
    "rings main ix Q'" "iAllocated ix = iAllocated s + int n + int (length us) + int m" "iCount ix = iAllocated s + int n + int (length us)"
    "iActiveCount ix = iActiveCount s + int (length us)" "iReservedTotal ix = iReservedTotal s + int n" "iReservedFree ix = iReservedFree s + int n"
    "NextInstance ix = NextInstance s"
  shows "table ix Q'" "hmap ix = (if us = [] then hmap s else (hmap s)((iAllocated s + int n, Y ! n AND 0x3FFF) \<mapsto> (v AND 0xfffffffc, push_bit 31 v OR drop_bit 20 (Y ! n))))"
proof -
  let ?o = "iAllocated s"
  have len: "int (length (iSlots s)) = ?o" by (rule tableD(2) [OF assms(1)])
  have len': "length (iSlots ix) = length (iSlots s) + n + length us + m" using arg_cong [OF assms(5), of length] by simp
  have o0: "0 \<le> ?o" using len by linarith
  have low: "objr ix i = objr s i" "attr ix i = attr s i" if "0 \<le> i" "i < ?o" for i
  proof -
    have k: "nat i < length (iSlots s)" using that len by linarith
    then have k': "nat i < length (iSlots ix)" using len' by simp
    show "objr ix i = objr s i" using arg_cong [OF assms(5), of "\<lambda>l. l ! nat i"] k k' by (simp add: nth_append)
    show "attr ix i = attr s i" using arg_cong [OF assms(6), of "\<lambda>l. l ! nat i"] k k' by (simp add: nth_append)
  qed
  have high: "objr ix i = (if i < ?o + int n then 1 else if i < ?o + int n + int (length us) then v else 0)" if "?o \<le> i" "i < iAllocated ix" for i
  proof -
    define k where "k = nat (i - ?o)"
    have k: "nat i = length (iSlots s) + k" "int k = i - ?o" using that len o0 by (auto simp: k_def)
    have k': "nat i < length (iSlots ix)" using k that(2) len len' assms(10) by linarith
    have "objr ix i = (replicate n 1 @ us @ replicate m 0) ! k"
      using arg_cong [OF assms(5), of "\<lambda>l. l ! nat i"] k k' by (simp add: nth_append)
    also have "\<dots> = (if k < n then 1 else if k < n + length us then v else 0)"
      using assms(7) k' k(1) len' by (auto simp: nth_append nth_Cons')
    finally show ?thesis using k(2) by auto
  qed
  have at: "attr ix (?o + int n) = Y ! n" if "us \<noteq> []"
  proof -
    have "nat (?o + int n) = length (iSlots s) + n" using len by linarith
    moreover have "length (iSlots s) + n < length (iSlots ix)" using len' that by simp
    ultimately show ?thesis using arg_cong [OF assms(6), of "\<lambda>l. l ! (length (iSlots s) + n)"] by (simp add: nth_append)
  qed
  have rng: "0 \<le> i \<and> i < ?o" if "i \<in> set (Q q)" "q \<in> main" for i q using table_queue(1,2) [OF assms(1) that(2,1)] by simp
  have sets: "i \<in> set (Q' EQFree) \<union> set (Q' EQAltFree) \<longleftrightarrow> i \<in> set (Q EQFree) \<or> ?o + int n + int (length us) \<le> i \<and> i < iAllocated ix"
    "i \<in> set (Q' EQRsvd) \<union> set (Q' EQAltRsvd) \<longleftrightarrow> i \<in> set (Q EQRsvd) \<or> ?o \<le> i \<and> i < ?o + int n" for i
    using assms(3,4) by (auto simp: assms(8))
  have m: "EQFree \<in> main" "EQRsvd \<in> main" by simp_all
  have "queued ix Q'" unfolding queued_def sets
  proof (intro allI impI)
    fix i
    assume i: "0 \<le> i \<and> i < iAllocated ix"
    show "(objr ix i = 0 \<longleftrightarrow> i \<in> set (Q EQFree) \<or> ?o + int n + int (length us) \<le> i \<and> i < iAllocated ix) \<and>
      (objr ix i = 1 \<longleftrightarrow> i \<in> set (Q EQRsvd) \<or> ?o \<le> i \<and> i < ?o + int n) \<and> (objr ix i < 4 \<longrightarrow> objr ix i = 0 \<or> objr ix i = 1)"
    proof (cases "i < ?o")
      case True
      then have "objr ix i = objr s i" using low(1) i by blast
      moreover have "(objr s i = 0 \<longleftrightarrow> i \<in> set (Q EQFree) \<union> set (Q EQAltFree)) \<and> (objr s i = 1 \<longleftrightarrow> i \<in> set (Q EQRsvd) \<union> set (Q EQAltRsvd)) \<and>
        (objr s i < 4 \<longrightarrow> objr s i = 0 \<or> objr s i = 1)" using tableD(6) [OF assms(1)] True i unfolding queued_def by blast
      ultimately show ?thesis using True assms(3,4) by auto
    next
      case False
      then have e: "objr ix i = (if i < ?o + int n then 1 else if i < ?o + int n + int (length us) then v else 0)" using high i by simp
      have out: "i \<notin> set (Q EQFree)" "i \<notin> set (Q EQRsvd)" using rng [OF _ m(1)] rng [OF _ m(2)] False by auto
      have v: "us \<noteq> [] \<Longrightarrow> v \<noteq> 0 \<and> v \<noteq> 1 \<and> \<not> v < 4" using assms(7) free_values by (auto simp: not_less)
      show ?thesis unfolding e using out False i v by (cases "us = []") auto
    qed
  qed
  moreover have "unused_last ix Q'"
  proof -
    have "\<forall>j \<in> set (Q EQFree) \<union> set (Q' EQAltFree) \<union> set (Q' EQRsvd) \<union> set (Q' EQAltRsvd). j < iCount ix"
      using rng [OF _ m(1)] rng [OF _ m(2)] assms(3,4) by (force simp: assms(8,11))
    then show ?thesis unfolding unused_last_def assms(11) by (intro exI [of _ "Q EQFree"]) (simp add: assms(8,10))
  qed
  moreover have sw: "slots_with P ix = slots_with P s + (if P 1 then int n else 0) + int (length (filter P us)) + (if P 0 then int m else 0)" for P
    unfolding slots_with_def assms(5) by (simp add: filter_replicate)
  have "counted ix Q'"
  proof -
    have "length (filter (\<lambda>v. v \<ge> 4) us) = length us" "filter (\<lambda>v. v AND 1 \<noteq> 0) us = []" using assms(7) by auto
    then show ?thesis using tableD(8) [OF assms(1)] unfolding counted_def sw using assms(3,4) by (simp add: assms(8,12-14))
  qed
  moreover have "instanced ix" unfolding instanced_def
  proof (intro allI impI)
    fix i
    assume i: "0 \<le> i \<and> i < iAllocated ix \<and> objr ix i \<ge> 4"
    show "attr ix i AND 0x3FFF \<noteq> 0"
    proof (cases "i < ?o")
      case True
      then show ?thesis using low [of i] i tableD(10) [OF assms(1)] unfolding instanced_def by auto
    next
      case False
      have "us \<noteq> [] \<and> i = ?o + int n"
      proof (rule ccontr)
        assume no: "\<not> (us \<noteq> [] \<and> i = ?o + int n)"
        have "length us \<le> 1" using assms(7) by auto
        then have "objr ix i = 1 \<or> objr ix i = 0" using high [of i] i False no by (auto split: if_splits)
        then show False using i free_values(1,2) by metis
      qed
      then show ?thesis using at assms(7) by auto
    qed
  qed
  ultimately show t: "table ix Q'" using assms(9,10,11,15) tableD(9) [OF assms(1)] len len' o0 unfolding table_def by simp
  show "hmap ix = (if us = [] then hmap s else (hmap s)((?o + int n, Y ! n AND 0x3FFF) \<mapsto> (v AND 0xfffffffc, push_bit 31 v OR drop_bit 20 (Y ! n))))"
  proof (rule ext, clarify)
    fix i w
    let ?r = "(if us = [] then hmap s else (hmap s)((?o + int n, Y ! n AND 0x3FFF) \<mapsto> (v AND 0xfffffffc, push_bit 31 v OR drop_bit 20 (Y ! n))))"
    consider (out) "i < 0 \<or> i \<ge> iAllocated ix" | (old) "0 \<le> i" "i < ?o" | (new) "?o \<le> i" "i < iAllocated ix" by linarith
    then show "hmap ix (i, w) = ?r (i, w)"
    proof cases
      case out
      have "hmap ix (i, w) = None" "hmap s (i, w) = None" using out o0 assms(10) by (auto simp: hmap_alloc [OF t] hmap_alloc [OF assms(1)])
      moreover have "us = [] \<or> i \<noteq> ?o + int n" using out o0 assms(10) by (cases us) auto
      ultimately show ?thesis by auto
    next
      case old
      then show ?thesis using assms(10) by (auto simp: hmap_alloc [OF t] hmap_alloc [OF assms(1)] low)
    next
      case new
      show ?thesis
      proof (cases "us \<noteq> [] \<and> i = ?o + int n")
        case True
        then have "us = [v]" "v \<ge> 4" using assms(7) by auto
        then show ?thesis using True new at o0 high [of i]
          by (auto simp: hmap_alloc [OF t] hmap_alloc [OF assms(1)])
      next
        case False
        have "length us \<le> 1" using assms(7) by auto
        then have "\<not> objr ix i \<ge> 4" using False new high [of i] by auto
        then show ?thesis using False new by (auto simp: hmap_alloc [OF t] hmap_alloc [OF assms(1)])
      qed
    qed
  qed
qed

section \<open>Growing\<close>

lemma anchor_set:
  assumes "length (iFreeQ ix) = 6" "- 6 \<le> q" "q < 0" "- 6 \<le> t" "t < 0"
  shows "anchor (set_next q v ix) t = (if t = q then (anchor ix q)\<lparr>iNext := to_TInt16 v\<rparr> else anchor ix t)"
    "anchor (set_prev q v ix) t = (if t = q then (anchor ix q)\<lparr>iPrev := to_TInt16 v\<rparr> else anchor ix t)"
proof -
  have "nat (6 + q) = nat (6 + t) \<longleftrightarrow> t = q" "nat (6 + q) < 6" using assms by auto
  then show "anchor (set_next q v ix) t = (if t = q then (anchor ix q)\<lparr>iNext := to_TInt16 v\<rparr> else anchor ix t)"
    "anchor (set_prev q v ix) t = (if t = q then (anchor ix q)\<lparr>iPrev := to_TInt16 v\<rparr> else anchor ix t)"
    using assms by (auto simp: anchor_def set_next_def set_prev_def nth_list_update)
qed

lemma grow_queues_fields:
  "\<exists>F. grow_queues n k N ix = ix\<lparr>iFreeQ := F\<rparr> \<and> length F = length (iFreeQ ix)"
proof -
  have two: "\<exists>F. set_prev q w (set_next q v (ix\<lparr>iFreeQ := G\<rparr>)) = ix\<lparr>iFreeQ := F\<rparr> \<and> length F = length G" if "q < 0" for q v w G
    by (rule exI [of _ "iFreeQ (set_prev q w (set_next q v (ix\<lparr>iFreeQ := G\<rparr>)))"]) (use that in \<open>simp add: set_next_def set_prev_def\<close>)
  have same: "ix = ix\<lparr>iFreeQ := iFreeQ ix\<rparr>" by simp
  obtain F1 where F1: "Empty EQTempFree ix = ix\<lparr>iFreeQ := F1\<rparr>" "length F1 = length (iFreeQ ix)"
    using two [of EQTempFree EQTempFree EQTempFree "iFreeQ ix"] by (auto simp: Empty_def)
  obtain F2 where F2: "Empty EQTempRsvd (ix\<lparr>iFreeQ := F1\<rparr>) = ix\<lparr>iFreeQ := F2\<rparr>" "length F2 = length F1"
    using two [of EQTempRsvd EQTempRsvd EQTempRsvd F1] by (auto simp: Empty_def)
  have sq: "\<exists>F. set_queue q f l (ix\<lparr>iFreeQ := G\<rparr>) = ix\<lparr>iFreeQ := F\<rparr> \<and> length F = length G" if "q < 0" for q f l G
    using two [OF that, of l f G] by (auto simp: set_queue_def)
  obtain F3 where F3: "(if n > 0 then set_queue EQTempRsvd (iAllocated ix) (iAllocated ix + n - 1) (ix\<lparr>iFreeQ := F2\<rparr>) else ix\<lparr>iFreeQ := F2\<rparr>) = ix\<lparr>iFreeQ := F3\<rparr>"
    "length F3 = length F2"
    using sq [of EQTempRsvd "iAllocated ix" "iAllocated ix + n - 1" F2] by (cases "n > 0") auto
  obtain F4 where "set_queue EQTempFree (iAllocated ix + max n 0 + k) (N - 1) (ix\<lparr>iFreeQ := F3\<rparr>) = ix\<lparr>iFreeQ := F4\<rparr>" "length F4 = length F3"
    using sq [of EQTempFree "iAllocated ix + max n 0 + k" "N - 1" F3] by auto
  then show ?thesis unfolding grow_queues_def Let_def F1(1) F2(1) F3(1) using F1(2) F2(2) F3(2) by auto
qed

lemma grow_queues_anchors:
  assumes "length (iFreeQ ix) = 6" "0 \<le> iAllocated ix" "0 \<le> n" "0 \<le> k" "iAllocated ix + n + k \<le> N" "N \<le> 32768"
  shows "t \<in> main \<Longrightarrow> anchor (grow_queues n k N ix) t = anchor ix t"
    "anchor (grow_queues n k N ix) EQTempRsvd = (if n > 0 then \<lparr>iNext = iAllocated ix, iPrev = iAllocated ix + n - 1\<rparr> else \<lparr>iNext = EQTempRsvd, iPrev = EQTempRsvd\<rparr>)"
    "anchor (grow_queues n k N ix) EQTempFree = (if iAllocated ix + n + k < N then \<lparr>iNext = iAllocated ix + n + k, iPrev = N - 1\<rparr>
       else \<lparr>iNext = EQTempFree, iPrev = EQTempFree\<rparr>)"
proof -
  have l: "length (iFreeQ (set_next q v y)) = length (iFreeQ y)" "length (iFreeQ (set_prev q v y)) = length (iFreeQ y)" for q v y
    by (simp_all add: set_next_def set_prev_def)
  have t: "to_TInt16 x = x" if "- 6 \<le> x" "x < 32768" for x using that by (intro to_TInt16_id) simp_all
  have node_eqI: "a = \<lparr>iNext = x, iPrev = y\<rparr>" if "iNext a = x" "iPrev a = y" for a :: SSlotQLink and x y using that by (cases a) simp
  show "t \<in> main \<Longrightarrow> anchor (grow_queues n k N ix) t = anchor ix t"
    using assms(1) by (auto simp: grow_queues_def Let_def set_queue_def Empty_def anchor_set l)
  show "anchor (grow_queues n k N ix) EQTempRsvd = (if n > 0 then \<lparr>iNext = iAllocated ix, iPrev = iAllocated ix + n - 1\<rparr> else \<lparr>iNext = EQTempRsvd, iPrev = EQTempRsvd\<rparr>)"
    using assms by (auto simp: grow_queues_def Let_def set_queue_def Empty_def anchor_set l t intro!: node_eqI)
  show "anchor (grow_queues n k N ix) EQTempFree = (if iAllocated ix + n + k < N then \<lparr>iNext = iAllocated ix + n + k, iPrev = N - 1\<rparr>
       else \<lparr>iNext = EQTempFree, iPrev = EQTempFree\<rparr>)"
    using assms by (auto simp: grow_queues_def Let_def set_queue_def Empty_def anchor_set l t intro!: node_eqI)
qed

lemma rings_anchors:
  assumes "rings S ix Q" "iSlots ix' = iSlots ix" "length (iFreeQ ix') = length (iFreeQ ix)" "\<And>q. q \<in> S \<Longrightarrow> anchor ix' q = anchor ix q"
  shows "rings S ix' Q"
proof -
  have "queue ix' q (Q q)" if "q \<in> S" for q using queue_extend [OF ringsD(2) [OF assms(1) that]] assms(2,4) that by fastforce
  moreover have "linked ix' = linked ix" using assms(2,3) by (simp add: linked_def)
  ultimately show ?thesis using assms(1) unfolding rings_def by blast
qed

lemma grow_queues_settled:
  assumes "settled ix" "0 \<le> n" "0 \<le> k" "iAllocated ix + n + k \<le> N" "N \<le> 32768"
  shows "settled (grow_queues n k N ix)" "abs_ix (grow_queues n k N ix) = abs_ix ix"
proof -
  obtain Q where Q: "steady ix Q" "Q EQAltFree = []" using assms(1) by (auto simp: settled_def)
  note S = steadyD [OF Q(1)]
  obtain F where F: "grow_queues n k N ix = ix\<lparr>iFreeQ := F\<rparr>" "length F = length (iFreeQ ix)" using grow_queues_fields by blast
  have l6: "length (iFreeQ ix) = 6" using settledD(4) [OF assms(1)] by (simp add: linked_def)
  have al0: "0 \<le> iAllocated ix" using tableD(3,4) [OF S(1)] by simp
  note a = grow_queues_anchors [OF l6 al0 assms(2-5)]
  have "rings main (grow_queues n k N ix) Q" by (rule rings_anchors [OF tableD(1) [OF S(1)] _ _ a(1)]) (simp_all add: F)
  moreover have "queued (ix\<lparr>iFreeQ := F\<rparr>) Q = queued ix Q" "unused_last (ix\<lparr>iFreeQ := F\<rparr>) Q = unused_last ix Q"
    "counted (ix\<lparr>iFreeQ := F\<rparr>) Q = counted ix Q" "instanced (ix\<lparr>iFreeQ := F\<rparr>) = instanced ix"
    unfolding queued_def unused_last_def counted_def instanced_def slots_with_def by simp_all
  ultimately have "table (grow_queues n k N ix) Q" using S(1) unfolding F(1) table_def by simp
  then have "steady (grow_queues n k N ix) Q" using Q(1) unfolding F(1) steady_def by (simp add: sized_def)
  then show "settled (grow_queues n k N ix)" using Q(2) by (auto simp: settled_def)
  have "hmap (grow_queues n k N ix) = hmap ix" by (rule hmap_cong) (simp_all add: F(1))
  then show "abs_ix (grow_queues n k N ix) = abs_ix ix" by (simp add: abs_ix_def F(1))
qed

text \<open>The end of \<open>Grow\<close>, from the state after the copy.\<close>

lemma grown_ok:
  assumes "steady s Q" "Q EQAltFree = []" "iCount s = iAllocated s" "us = [] \<or> us = [(at, v)] \<and> v \<ge> 4 \<and> v AND 1 = 0 \<and> at AND 0x3FFF \<noteq> 0"
    "N = 2 ^ e" "3 \<le> e" "e \<le> 15" "iAllocated s + int n + int (length us) \<le> N"
    "anchor s EQTempRsvd = (if n > 0 then \<lparr>iNext = iAllocated s, iPrev = iAllocated s + int n - 1\<rparr> else \<lparr>iNext = EQTempRsvd, iPrev = EQTempRsvd\<rparr>)"
    "anchor s EQTempFree = (if iAllocated s + int n + int (length us) < N then \<lparr>iNext = iAllocated s + int n + int (length us), iPrev = N - 1\<rparr>
       else \<lparr>iNext = EQTempFree, iPrev = EQTempFree\<rparr>)"
    "added = (if n > 0 then new_slots EObjRRsvd EQTempRsvd (iAllocated s) (iAllocated s + int n - 1) else []) @
       map (\<lambda>(at, v). \<lparr>iNext = 0, iPrev = 0, iObjR = v, iAttr = at\<rparr>) us @
       (if iAllocated s + int n + int (length us) \<le> N - 1 then new_slots 0 EQTempFree (iAllocated s + int n + int (length us)) (N - 1) else [])"
  defines "g \<equiv> AppendList EQTempFree EQFree (AppendList EQTempRsvd EQRsvd (grown (int n) (int (length us)) N (iSlots s @ added) s))"
  shows "normal_ix (if iAmortize g = 0 then g\<lparr>iAmortize := iAllocated g div 2\<rparr> else g)"
    "hmap (if iAmortize g = 0 then g\<lparr>iAmortize := iAllocated g div 2\<rparr> else g) = (if us = [] then hmap s else
       (hmap s)((iAllocated s + int n, at AND 0x3FFF) \<mapsto> (v AND 0xfffffffc, push_bit 31 v OR drop_bit 20 at)))"
    "iReservedFree g = iReservedFree s + int n" "iAllocated g = N"
proof -
  note S = steadyD [OF assms(1)]
  let ?o = "iAllocated s" and ?k = "int (length us)"
  let ?m = "?o + int n + ?k"
  have len: "int (length (iSlots s)) = ?o" by (rule tableD(2) [OF S(1)])
  have o0: "0 \<le> ?o" using len by linarith
  have N: "N \<le> 32768"
  proof -
    have "N \<le> 2 ^ 15" unfolding assms(5) using assms(7) by (intro power_increasing) simp_all
    then show ?thesis by simp
  qed
  let ?A = "if n > 0 then new_slots EObjRRsvd EQTempRsvd ?o (?o + int n - 1) else []"
  let ?B = "map (\<lambda>(at, v). \<lparr>iNext = 0, iPrev = 0, iObjR = v, iAttr = at\<rparr>) us :: SSlot list"
  let ?C = "if ?m \<le> N - 1 then new_slots 0 EQTempFree ?m (N - 1) else []"
  have A: "length ?A = n" "map iObjR ?A = replicate n 1"
    using new_slots_nth(1) [of ?o "?o + int n - 1" EObjRRsvd EQTempRsvd] new_slots_values(1) [of ?o "?o + int n - 1" EObjRRsvd EQTempRsvd] by auto
  have C: "length ?C = nat (N - ?m)" "map iObjR ?C = replicate (nat (N - ?m)) 0"
    using new_slots_nth(1) [of ?m "N - 1" 0 EQTempFree] new_slots_values(1) [of ?m "N - 1" 0 EQTempFree] by auto
  have B: "map iObjR ?B = map snd us" "map iAttr ?B = map fst us" by (auto simp: comp_def split: prod.splits)
  define g7 where "g7 = grown (int n) ?k N (iSlots s @ added) s"
  have sl: "iSlots g7 = iSlots s @ ?A @ ?B @ ?C" by (simp add: g7_def grown_def assms(11))
  have fq: "iFreeQ g7 = iFreeQ s" by (simp add: g7_def grown_def)
  have an: "anchor g7 = anchor s" by (simp add: anchor_def fun_eq_iff fq)
  have lg: "int (length (iSlots g7)) = N" unfolding sl using A(1) C(1) len assms(8) by simp
  have lk: "linked g7" using ringsD(1) [OF tableD(1) [OF S(1)], of EQFree] lg N fq by (simp add: linked_def)
  let ?R = "[?o..?o + int n - 1]" and ?F = "[?m..N - 1]"
  let ?Q7 = "Q(EQTempRsvd := ?R, EQTempFree := ?F)"
  have qr: "queue g7 EQTempRsvd ?R"
  proof (cases "n > 0")
    case True
    show ?thesis by (rule new_queue [of g7 "iSlots s" EObjRRsvd EQTempRsvd ?o _ "?B @ ?C"]) (use True sl len an assms(9) lg N in simp_all)
  next
    case False
    then show ?thesis using empty_queue [of g7 EQTempRsvd] an assms(9) by simp
  qed
  have qf: "queue g7 EQTempFree ?F"
  proof (cases "?m < N")
    case True
    show ?thesis
      by (rule new_queue [of g7 "iSlots s @ ?A @ ?B" 0 EQTempFree ?m _ "[]"]) (use True sl len an assms(10) lg N A(1) in simp_all)
  next
    case False
    then show ?thesis using empty_queue [of g7 EQTempFree] an assms(10) by simp
  qed
  have qm: "queue g7 q (Q q)" if "q \<in> main" for q
    by (rule queue_extend [OF ringsD(2) [OF tableD(1) [OF S(1)] that]]) (use sl an in auto)
  have rng: "i < ?o" if "i \<in> set (Q q)" "q \<in> main" for i q using table_queue(2) [OF S(1) that(2,1)] .
  let ?six = "insert EQTempFree (insert EQTempRsvd main)"
  have tn: "EQTempFree \<notin> main" "EQTempRsvd \<notin> main" by simp_all
  have "rings ?six g7 ?Q7"
  proof -
    have "queue g7 q (?Q7 q)" if "q \<in> ?six" for q
      using that qr qf qm tn by (cases "q = EQTempFree"; cases "q = EQTempRsvd") auto
    moreover have "set (?Q7 q) \<inter> set (?Q7 q') = {}" if "q \<in> ?six" "q' \<in> ?six" "q \<noteq> q'" for q q'
    proof -
      have lo: "set (?Q7 p) \<subseteq> {..<?o}" if "p \<in> main" for p using rng [OF _ that] tn that by auto
      have hi: "set (?Q7 EQTempRsvd) \<subseteq> {?o..<?o + int n}" "set (?Q7 EQTempFree) \<subseteq> {?m..}" by auto
      have apart: "set (Q a) \<inter> set (Q b) = {}" if "a \<in> main" "b \<in> main" "a \<noteq> b" for a b
        using ringsD(5) [OF tableD(1) [OF S(1)] that] by blast
      have e: "?Q7 p = Q p" if "p \<in> main" for p using that tn by auto
      have mr: "set (?Q7 p) \<inter> set (?Q7 EQTempRsvd) = {}" "set (?Q7 p) \<inter> set (?Q7 EQTempFree) = {}" if "p \<in> main" for p
        using lo [OF that] hi by fastforce+
      have rf: "set (?Q7 EQTempRsvd) \<inter> set (?Q7 EQTempFree) = {}" using hi by fastforce
      note q6 = that(1,2)
      have two: "p \<in> main \<or> p \<in> {EQTempFree, EQTempRsvd}" if "p \<in> ?six" for p using that by auto
      consider "q \<in> main" "q' \<in> main" | "q \<in> main" "q' \<in> {EQTempFree, EQTempRsvd}" | "q' \<in> main" "q \<in> {EQTempFree, EQTempRsvd}"
        | "q \<in> {EQTempFree, EQTempRsvd}" "q' \<in> {EQTempFree, EQTempRsvd}" using two [OF q6(1)] two [OF q6(2)] by argo
      then show ?thesis
      proof cases
        case 1
        show ?thesis unfolding e [OF 1(1)] e [OF 1(2)] by (rule apart [OF 1 that(3)])
      next
        case 2
        then show ?thesis using mr [OF 2(1)] by blast
      next
        case 3
        then show ?thesis using mr [OF 3(1)] by blast
      next
        case 4
        then show ?thesis using rf that(3) by blast
      qed
    qed
    moreover have "?six \<subseteq> {-6..-1}" by auto
    ultimately show ?thesis unfolding rings_def using lk by blast
  qed
  note r7 = this
  have six: "EQTempRsvd \<in> ?six" "EQRsvd \<in> ?six" "EQTempRsvd \<noteq> EQRsvd" "EQTempFree \<in> ?six" "EQFree \<in> ?six" "EQTempFree \<noteq> EQFree" by simp_all
  define g8 where "g8 = AppendList EQTempRsvd EQRsvd g7"
  have r8: "rings ?six g8 (?Q7(EQRsvd := ?Q7 EQRsvd @ ?Q7 EQTempRsvd, EQTempRsvd := []))" "keeps g7 g8"
    using AppendList_rings [OF r7 six(1-3)] by (simp_all only: g8_def)
  let ?Q8 = "?Q7(EQRsvd := ?Q7 EQRsvd @ ?Q7 EQTempRsvd, EQTempRsvd := [])"
  have gg: "g = AppendList EQTempFree EQFree g8" by (simp only: g_def g8_def g7_def)
  have r9: "rings ?six g (?Q8(EQFree := ?Q8 EQFree @ ?Q8 EQTempFree, EQTempFree := []))" "keeps g8 g"
    using AppendList_rings [where Q = ?Q8, OF r8(1) six(4-6)] by (simp_all only: gg)
  note k = keepsD [OF keeps_trans [OF r8(2) r9(2)]] and km = keeps_maps [OF keeps_trans [OF r8(2) r9(2)]]
  define Q' where "Q' = Q(EQRsvd := Q EQRsvd @ ?R, EQFree := Q EQFree @ [?m..iAllocated g - 1])"
  have ag: "iAllocated g = N" using k(1) by (simp add: g7_def grown_def)
  let ?g = "if iAmortize g = 0 then g\<lparr>iAmortize := iAllocated g div 2\<rparr> else g"
  have "rings main g (?Q8(EQFree := ?Q8 EQFree @ ?Q8 EQTempFree, EQTempFree := []))" by (rule rings_sub [OF r9(1)]) auto
  moreover have "(?Q8(EQFree := ?Q8 EQFree @ ?Q8 EQTempFree, EQTempFree := [])) q = Q' q" if "q \<in> main" for q
    using that tn by (auto simp: Q'_def ag)
  ultimately have rg: "rings main g Q'" unfolding rings_def by (metis (no_types, lifting))
  let ?vs = "map snd us" and ?Y = "map iAttr ?A @ map fst us @ map iAttr ?C"
  have mo: "map iObjR (iSlots g) = map iObjR (iSlots s) @ replicate n 1 @ ?vs @ replicate (nat (N - ?m)) 0"
    unfolding km(1) sl using A(2) B(1) C(2) by simp
  have ma: "map iAttr (iSlots g) = map iAttr (iSlots s) @ ?Y" unfolding km(2) sl using B(2) by simp
  have Yn: "?Y ! n = at" if "us \<noteq> []" using that assms(4) A(1) by (auto simp: nth_append)
  have us: "?vs = [] \<or> ?vs = [v] \<and> v \<ge> 4 \<and> v AND 1 = 0 \<and> ?Y ! n AND 0x3FFF \<noteq> 0" using assms(4) Yn by (cases us) auto
  have Q'e: "Q' = Q(EQRsvd := Q EQRsvd @ ?R, EQFree := Q EQFree @ [?o + int n + int (length ?vs)..iAllocated g - 1])" by (simp add: Q'_def)
  have t: "table g Q'" "hmap g = (if ?vs = [] then hmap s else (hmap s)((?o + int n, ?Y ! n AND 0x3FFF) \<mapsto> (v AND 0xfffffffc, push_bit 31 v OR drop_bit 20 (?Y ! n))))"
    by (rule table_append [OF S(1) assms(3,2) S(2) mo ma us Q'e rg]; use k ag assms(8) in \<open>simp add: g7_def grown_def\<close>)+
  show rf: "iReservedFree g = iReservedFree s + int n" and "iAllocated g = N" using k(4) ag by (simp_all add: g7_def grown_def)
  have tg: "table ?g Q'" by (rule table_cong [OF _ _ _ _ _ _ _ _ t(1)]) simp_all
  have hg: "hmap ?g = hmap g" by (rule hmap_cong) simp_all
  show "hmap ?g = (if us = [] then hmap s else (hmap s)((?o + int n, at AND 0x3FFF) \<mapsto> (v AND 0xfffffffc, push_bit 31 v OR drop_bit 20 at)))"
    unfolding hg t(2) using Yn by simp
  have hw: "iReservedFreeHWM g = (if n > 0 then ?o + int n else iReservedFreeHWM s)" "iCount g = ?m" "iState g = ENormal" "iModCount g = 255"
    "iModListShift g = mod_list_shift N"
    using k(2,6,8,9,14) by (simp_all add: g7_def grown_def)
  have "i < iReservedFreeHWM g" if i: "0 \<le> i" "i < N" "objr g i = 1" for i
  proof -
    have "i \<in> set (Q' EQRsvd) \<union> set (Q' EQAltRsvd)" using tableD(6) [OF t(1)] i ag unfolding queued_def by blast
    then have "i \<in> set (Q EQRsvd) \<or> ?o \<le> i \<and> i < ?o + int n" using S(2) by (auto simp: Q'_def)
    then show ?thesis
    proof
      assume iq: "i \<in> set (Q EQRsvd)"
      have "EQRsvd \<in> main" by simp
      note q = table_queue [OF S(1) this iq]
      show ?thesis using S(6) [OF q(1,2)] q(1-3) hw(1) by simp
    qed (simp add: hw(1))
  qed
  moreover have "iReservedFreeHWM g \<le> iCount g" "0 \<le> iReservedFreeHWM g" using hw S(4,5) assms(3) o0 by auto
  moreover have "sized g" using mod_list_shift_fits [OF assms(6,7)] assms(5-7) unfolding sized_def size_ok_def hw(5) ag by blast
  moreover have "Q' EQAltFree = []" "Q' EQAltRsvd = []" using assms(2) S(2) by (simp_all add: Q'_def)
  ultimately have "normal ?g Q'" using tg hw ag unfolding normal_def by (simp add: sized_def)
  then show "normal_ix ?g" unfolding normal_ix_def by blast
qed

section \<open>The whole operation\<close>

lemma Grow_refused:
  "iAllocated ix = EMaxSlots \<or> iAllocated ix + n + int (length d) > EMaxSlots \<or> \<not> heap \<Longrightarrow>
    Grow U heap wait envs n d ix = (KErrNoMemory, ix)"
  unfolding Grow_def Let_def by (rule if_P)

text \<open>The state \<open>s\<close> is the one in which the copy is complete.\<close>

lemma Grow_ok:
  assumes "normal_ix ix" "iCount ix = iAllocated ix" "list_all ok_act wait" "ok_intervals envs" "0 < n + length us"
    "iAllocated ix + int n + int (length us) \<le> EMaxSlots" "us = [] \<or> us = [(at, v)] \<and> v \<ge> 4 \<and> v AND 1 = 0 \<and> at AND 0x3FFF \<noteq> 0"
  obtains s ix' where
    "Grow U True wait envs (int n) us ix = (case us of [] \<Rightarrow> KErrNone | (at, v) # _ \<Rightarrow> MakeHandle (iAllocated ix + int n) at, ix')"
    "normal_ix ix'" "settled s" "scanned (wait # map fst envs) ix s" "iAllocated s = iAllocated ix" "iAllocated ix + int n + int (length us) \<le> iAllocated ix'"
    "hmap ix' = (if us = [] then hmap s else (hmap s)((iAllocated ix + int n, at AND 0x3FFF) \<mapsto> (v AND 0xfffffffc, push_bit 31 v OR drop_bit 20 at)))"
    "iReservedFree ix' = iReservedFree s + int n"
proof -
  let ?k = "int (length us)"
  let ?w = "iAllocated ix + int n + ?k"
  obtain Q where N: "normal ix Q" using assms(1) by (auto simp: normal_ix_def)
  note n = normalD [OF N]
  have al0: "0 \<le> iAllocated ix" using tableD(3,4) [OF n(1)] by simp
  have b: "0 < max ?w EMinSlots" "max ?w EMinSlots \<le> 32768" using assms(6) by simp_all
  obtain e where e: "round_up_pow2 (max ?w EMinSlots) = 2 ^ e" "max ?w EMinSlots \<le> 2 ^ e" "2 ^ e < 2 * max ?w EMinSlots" "e \<le> 15"
    by (rule round_up_pow2 [OF b])
  have e3: "3 \<le> e"
  proof (rule ccontr)
    assume "\<not> 3 \<le> e"
    then have "(2 :: int) ^ e \<le> 2 ^ 2" by (intro power_increasing) simp_all
    then show False using e(2) by simp
  qed
  define M where "M = round_up_pow2 (max ?w EMinSlots)"
  have M: "M = 2 ^ e" "?w \<le> M" using e(1,2) by (simp_all add: M_def)
  have M15: "M \<le> 32768"
  proof -
    have "M \<le> 2 ^ 15" unfolding M(1) using e(4) by (intro power_increasing) simp_all
    then show ?thesis by simp
  qed
  have st: "settled ix" using N by (auto simp: settled_def normal_steady)
  define q where "q = grow_queues (int n) ?k M ix"
  have k0: "0 \<le> int n" "0 \<le> ?k" by simp_all
  note gq = grow_queues_settled [OF st k0 M(2) M15, folded q_def]
  have l6: "length (iFreeQ ix) = 6" using settledD(4) [OF st] by (simp add: linked_def)
  note an = grow_queues_anchors(2,3) [OF l6 al0 k0 M(2) M15, folded q_def]
  obtain F where F: "q = ix\<lparr>iFreeQ := F\<rparr>" using grow_queues_fields [of "int n" ?k M ix] by (auto simp: q_def)
  let ?w1 = "fold (run_act U) wait q"
  have s1: "settled ?w1" "same_frame q ?w1" using settled_acts.keep_all [OF assms(3) gq(1)] acts_frame [OF gq(1) assms(3)] by blast+
  obtain c s where cp: "copy_slots U envs ?w1 = (c, s)" by (cases "copy_slots U envs ?w1")
  note C = copy_slots_ok [OF s1(1) assms(4) cp]
  have fr: "same_frame q s" by (rule same_frame_trans [OF s1(2) C(3)])
  have os: "iAllocated s = iAllocated ix" "iCount ix \<le> iCount s" "anchor s EQTempRsvd = anchor q EQTempRsvd" "anchor s EQTempFree = anchor q EQTempFree"
    using fr F by (simp_all add: same_frame_def anchored_def)
  obtain Qs where Qs: "steady s Qs" "Qs EQAltFree = []" using C(2) by (auto simp: settled_def)
  have cs: "iCount s = iAllocated s" using os(1,2) assms(2) tableD(4) [OF steadyD(1) [OF Qs(1)]] by simp
  have o: "?w1 = others U (wait # map fst envs) q" by (simp add: others_def)
  have sc: "scanned (wait # map fst envs) ix s"
    by (rule scanned_step [where U = U, OF gq(2) settled_ready [OF gq(1)]]) (use C(4) o assms(3,4) in \<open>simp_all add: list_all_iff\<close>)
  define added where "added = grow_slots (iAllocated ix) (int n) us M"
  define g where "g = AppendList EQTempFree EQFree (AppendList EQTempRsvd EQRsvd (grown (int n) ?k M (iSlots s @ added) s))"
  have len: "iAllocated s + int n + ?k \<le> M" using M(2) os(1) by simp
  have ar: "anchor s EQTempRsvd = (if n > 0 then \<lparr>iNext = iAllocated s, iPrev = iAllocated s + int n - 1\<rparr> else \<lparr>iNext = EQTempRsvd, iPrev = EQTempRsvd\<rparr>)"
    unfolding os an by simp
  have af: "anchor s EQTempFree = (if iAllocated s + int n + ?k < M then \<lparr>iNext = iAllocated s + int n + ?k, iPrev = M - 1\<rparr>
       else \<lparr>iNext = EQTempFree, iPrev = EQTempFree\<rparr>)" unfolding os an by simp
  have ad: "added = (if n > 0 then new_slots EObjRRsvd EQTempRsvd (iAllocated s) (iAllocated s + int n - 1) else []) @
       map (\<lambda>(at, v). \<lparr>iNext = 0, iPrev = 0, iObjR = v, iAttr = at\<rparr>) us @
       (if iAllocated s + int n + ?k \<le> M - 1 then new_slots 0 EQTempFree (iAllocated s + int n + ?k) (M - 1) else [])"
    unfolding added_def grow_slots_def Let_def os(1) by simp
  note G = grown_ok [OF Qs cs assms(7) M(1) e3 e(4) len ar af ad, folded g_def]
  let ?ix' = "if iAmortize g = 0 then g\<lparr>iAmortize := iAllocated g div 2\<rparr> else g"
  have no: "\<not> (iAllocated ix = EMaxSlots \<or> ?w > EMaxSlots \<or> \<not> True)"
  proof -
    have "0 < int n + ?k" using assms(5) by linarith
    then show ?thesis using assms(6) by simp
  qed
  have r: "(case us of [] \<Rightarrow> KErrNone | (at, v) # _ \<Rightarrow> MakeHandle (iAllocated ix + max (int n) 0) at) =
      (case us of [] \<Rightarrow> KErrNone | (at, v) # _ \<Rightarrow> MakeHandle (iAllocated ix + int n) at)" by (cases us) simp_all
  have "Grow U True wait envs (int n) us ix = (case us of [] \<Rightarrow> KErrNone | (at, v) # _ \<Rightarrow> MakeHandle (iAllocated ix + int n) at, ?ix')"
    unfolding Grow_def Let_def if_not_P [OF no] r M_def [symmetric] q_def [symmetric] cp C(1) added_def [symmetric] by (simp only: prod.case g_def)
  moreover have "iReservedFree ?ix' = iReservedFree s + int n" "iAllocated ?ix' = M" using G(3,4) by simp_all
  ultimately show ?thesis using that [of ?ix' s] G(1,2) C(2) sc os(1) M(2) by simp
qed

end
