(* ===== verification/Objix_Ops.thy ===== *)
theory Objix_Ops
  imports Objix_Grow "HOL-Library.Sublist"
begin

text \<open>
  The operations of an object index as a whole: what each does to the handles and the reserved slots,
  with everything that other threads do meanwhile, and the states that can be reached.
\<close>

section \<open>Adding\<close>

lemma DoAdd_normal:
  assumes "normal_ix ix" "is_object p" "DoAdd U p a ix = (r, d, ix')"
  shows "normal_ix ix'" "served (ActAdd p a) r (abs_ix ix) (abs_ix ix')" "r > 0 \<or> r = KErrNoMemory" "iAllocated ix' = iAllocated ix"
    "r = KErrNoMemory \<Longrightarrow> a AND EReserved = 0 \<Longrightarrow> iCount ix' = iAllocated ix' \<and>
      (\<exists>inst. d = (used_attr U p a inst, used_objr p a) \<and> inst AND 0x3FFF = inst \<and> inst \<noteq> 0)"
proof -
  obtain Q where N: "normal ix Q" using assms(1) by (auto simp: normal_ix_def)
  have op: "open_ix ix" using normalD(4) [OF N] by (simp add: open_ix_def)
  obtain Q' ix2 r2 d2 where s: "DoAdd U p a ix = (r2, d2, ix2)" "table ix2 Q'" "served (ActAdd p a) r2 (abs_ix ix) (abs_ix ix2)" "same_phase ix ix2"
    "r2 > 0 \<or> r2 = KErrNoMemory \<and> Q (slot_queue a) @ Q (slot_queue a + 1) = [] \<and> Q' = Q"
    by (rule DoAdd_served [OF normalD(1) [OF N] op assms(2)])
  have e: "r2 = r" "d2 = d" "ix2 = ix'" using s(1) assms(3) by simp_all
  show "served (ActAdd p a) r (abs_ix ix) (abs_ix ix')" "r > 0 \<or> r = KErrNoMemory" "iAllocated ix' = iAllocated ix"
    using s(3-5) e by (auto simp: same_phase_def)
  show "normal_ix ix'" using normal_act [of "ActAdd p a" ix U] assms by simp
  assume no: "r = KErrNoMemory" "a AND EReserved = 0"
  obtain inst nx where g: "GetNextInstanceValue (NextInstance ix) = (inst, nx)" by fastforce
  have st: "iState ix \<noteq> ETerminated" using normalD(4) [OF N] by simp
  have nil: "Q (slot_queue a) @ Q (slot_queue a + 1) = []" using s(5) e no by simp
  then have "Q EQFree = []" using no(2) by (simp add: slot_queue_def)
  then have "iCount ix = iAllocated ix" using tableD(4,7) [OF normalD(1) [OF N]] unfolding unused_last_def by auto
  moreover note DoAdd_none(1) [OF normalD(1) [OF N] st nil g, of U p] GetNextInstanceValue_ok(2,3) [OF tableD(9) [OF normalD(1) [OF N]] g]
  ultimately show "iCount ix' = iAllocated ix' \<and> (\<exists>inst. d = (used_attr U p a inst, used_objr p a) \<and> inst AND 0x3FFF = inst \<and> inst \<noteq> 0)"
    using assms(3) by auto
qed

text \<open>
  The object is added after some of the others' actions, the first ones. When the table has to grow, that
  fails only for want of memory or of numbers.
\<close>

lemma ix_Add_ok:
  assumes "normal_ix ix" "is_object p" "list_all ok_act between" "list_all ok_act wait" "ok_intervals envs"
    "ix_Add U heap between wait envs p a ix = (r, ix')"
  shows "normal_ix ix'" "\<exists>acts s. prefix acts (between @ wait @ concat (map fst envs)) \<and> served_all acts (abs_ix ix) s \<and> served (ActAdd p a) r s (abs_ix ix')"
    "r > 0 \<or> r = KErrNoMemory \<and> (a AND EReserved \<noteq> 0 \<or> \<not> heap \<or> iAllocated ix = EMaxSlots)"
proof -
  obtain r1 d1 ix1 where a1: "DoAdd U p a ix = (r1, d1, ix1)" by (cases "DoAdd U p a ix")
  note A1 = DoAdd_normal [OF assms(1,2) a1]
  have "normal_ix ix' \<and> (\<exists>acts s. prefix acts (between @ wait @ concat (map fst envs)) \<and> served_all acts (abs_ix ix) s \<and> served (ActAdd p a) r s (abs_ix ix')) \<and>
      (r > 0 \<or> r = KErrNoMemory \<and> (a AND EReserved \<noteq> 0 \<or> \<not> heap \<or> iAllocated ix = EMaxSlots))"
  proof (cases "r1 \<ge> 0 \<or> r1 = KErrDied \<or> a AND EReserved \<noteq> 0")
    case True
    then have e: "r = r1" "ix' = ix1" using assms(6) a1 by (auto simp: ix_Add_def)
    have "prefix [] (between @ wait @ concat (map fst envs)) \<and> served_all [] (abs_ix ix) (abs_ix ix) \<and> served (ActAdd p a) r (abs_ix ix) (abs_ix ix')"
      using A1(2) e by simp
    moreover have "r > 0 \<or> r = KErrNoMemory \<and> a AND EReserved \<noteq> 0" using A1(3) e True by auto
    ultimately show ?thesis using A1(1) e by blast
  next
    case False
    let ?ix1 = "fold (run_act U) between ix1"
    have r1: "r1 = KErrNoMemory" and nr: "a AND EReserved = 0" using False A1(3) by auto
    have same: "abs_ix ix1 = abs_ix ix" using A1(2) r1 by (auto elim: served_addE)
    have n1: "normal_ix ?ix1" by (rule normal_acts.keep_all [OF assms(3) A1(1)])
    note f1 = ready_fold [OF normal_ixD(3) [OF A1(1)] assms(3), of U]
    obtain r2 d2 ix2 where a2: "DoAdd U p a ?ix1 = (r2, d2, ix2)" by (cases "DoAdd U p a ?ix1")
    note A2 = DoAdd_normal [OF n1 assms(2) a2]
    have s1: "served_all between (abs_ix ix) (abs_ix ?ix1)" using f1(2) same by simp
    have al: "iAllocated ix2 = iAllocated ix" using A2(4) A1(4) f1(3) by (simp add: same_phase_def)
    have e: "(r, ix') = (if r2 = KErrNoMemory then Grow U heap wait envs 0 [d2] ix2 else (r2, ix2))"
      using assms(6) a1 a2 False by (simp add: ix_Add_def)
    show ?thesis
    proof (cases "r2 = KErrNoMemory")
      case False
      then have "r = r2" "ix' = ix2" using e by simp_all
      moreover have "prefix between (between @ wait @ concat (map fst envs))" by simp
      ultimately show ?thesis using A2(1-3) s1 False by blast
    next
      case True
      obtain inst where d2: "d2 = (used_attr U p a inst, used_objr p a)" "inst AND 0x3FFF = inst" "inst \<noteq> 0" and ic: "iCount ix2 = iAllocated ix2"
        using A2(5) [OF True nr] by blast
      have g: "Grow U heap wait envs 0 [d2] ix2 = (r, ix')" using e True by simp
      have s2: "abs_ix ix2 = abs_ix ?ix1" using A2(2) True by (auto elim: served_addE)
      show ?thesis
      proof (cases "heap \<and> iAllocated ix2 \<noteq> EMaxSlots")
        case False
        then have "Grow U heap wait envs 0 [d2] ix2 = (KErrNoMemory, ix2)" by (intro Grow_refused) auto
        then have e2: "r = KErrNoMemory" "ix' = ix2" using g by simp_all
        have "served (ActAdd p a) r (abs_ix ?ix1) (abs_ix ix')" using A2(2) True e2 by simp
        then have "\<exists>acts s. prefix acts (between @ wait @ concat (map fst envs)) \<and> served_all acts (abs_ix ix) s \<and> served (ActAdd p a) r s (abs_ix ix')"
          using s1 by (intro exI [of _ between] exI [of _ "abs_ix ?ix1"]) simp
        then show ?thesis using A2(1) e2 False al by simp
      next
        case True
        obtain Q2 where "normal ix2 Q2" using A2(1) by (auto simp: normal_ix_def)
        then have lim: "iAllocated ix2 < EMaxSlots" using tableD(5) [OF normalD(1)] True by force
        note u = used_objr [OF assms(2), of a] and ua = used_attr [OF d2(2), of U p a]
        have nb: "\<not> bit a 31" using nr reserved_iff [of a] by simp
        have v: "[d2] = [] \<or> [d2] = [(used_attr U p a inst, used_objr p a)] \<and> used_objr p a \<ge> 4 \<and> used_objr p a AND 1 = 0 \<and> used_attr U p a inst AND 0x3FFF \<noteq> 0"
          using d2 u(1,5) nb ua(1) by simp
        have w: "iAllocated ix2 + int 0 + int (length [d2]) \<le> EMaxSlots" using lim by simp
        obtain s ix3 where G: "Grow U True wait envs (int 0) [d2] ix2 = (case [d2] of [] \<Rightarrow> KErrNone | (at, v) # _ \<Rightarrow> MakeHandle (iAllocated ix2 + int 0) at, ix3)"
          "normal_ix ix3" "settled s" "scanned (wait # map fst envs) ix2 s" "iAllocated s = iAllocated ix2"
          "iAllocated ix2 + int 0 + int (length [d2]) \<le> iAllocated ix3"
          "hmap ix3 = (if [d2] = [] then hmap s else (hmap s)((iAllocated ix2 + int 0, used_attr U p a inst AND 0x3FFF) \<mapsto>
             (used_objr p a AND 0xfffffffc, push_bit 31 (used_objr p a) OR drop_bit 20 (used_attr U p a inst))))"
          "iReservedFree ix3 = iReservedFree s + int 0"
          by (rule Grow_ok [where U = U and n = 0, OF A2(1) ic assms(4,5) _ w v]) simp
        let ?o = "iAllocated ix2"
        have "heap" using True by blast
        then have e3: "r = MakeHandle ?o (used_attr U p a inst)" "ix' = ix3" using g G(1) d2(1) by simp_all
        obtain Q where Q: "steady s Q" using G(3) by (auto simp: settled_def)
        have o: "0 \<le> ?o" "?o < 32768" using lim tableD(3,4) [OF normalD(1)] \<open>normal ix2 Q2\<close> by force+
        have mk: "MakeHandle ?o (used_attr U p a inst) = MakeHandle ?o inst" using ua(1) d2(2) by (simp add: MakeHandle_def)
        note k = key_Make [OF o d2(2,3)]
        have fresh: "hmap s (fst (key (MakeHandle ?o inst)), w) = None" for w
          using G(5) by (simp add: k(1) hmap_alloc [OF steadyD(1) [OF Q]])
        have "hmap ix3 = (hmap s)(key (MakeHandle ?o inst) \<mapsto> (p, a AND 0x80000FFF))"
          using G(7) ua(1) u(2) kept_attr [OF assms(2) d2(2)] k(1) by simp
        then have "served (ActAdd p a) (MakeHandle ?o inst) (abs_ix s) (abs_ix ix3)"
          using added [of "MakeHandle ?o inst" "hmap s" a "iReservedFree s" p] fresh k(2) nb G(8) by (simp add: abs_ix_def)
        moreover obtain j where "served_all (concat (take j (wait # map fst envs))) (abs_ix ix2) (abs_ix s)" using G(4) by (auto simp: scanned_def)
        then have "served_all (between @ concat (take j (wait # map fst envs))) (abs_ix ix) (abs_ix s)"
          unfolding served_all_append using s1 s2 by metis
        moreover have "prefix (between @ concat (take j (wait # map fst envs))) (between @ wait @ concat (map fst envs))"
        proof -
          have "concat (wait # map fst envs) = concat (take j (wait # map fst envs)) @ concat (drop j (wait # map fst envs))"
            by (metis append_take_drop_id concat_append)
          then show ?thesis by (simp add: prefix_def)
        qed
        ultimately have "\<exists>acts s. prefix acts (between @ wait @ concat (map fst envs)) \<and> served_all acts (abs_ix ix) s \<and> served (ActAdd p a) r s (abs_ix ix')"
          using e3 mk by metis
        then show ?thesis using G(2) e3 mk k(2) by simp
      qed
    qed
  qed
  then show "normal_ix ix'" "\<exists>acts s. prefix acts (between @ wait @ concat (map fst envs)) \<and> served_all acts (abs_ix ix) s \<and> served (ActAdd p a) r s (abs_ix ix')"
    "r > 0 \<or> r = KErrNoMemory \<and> (a AND EReserved \<noteq> 0 \<or> \<not> heap \<or> iAllocated ix = EMaxSlots)" by blast+
qed

section \<open>Removing\<close>

lemma DoRemove_normal:
  assumes "normal_ix ix" "DoRemove h ix = (r, p, x, ix')"
  shows "normal_ix ix'" "served (ActRemove h) r (abs_ix ix) (abs_ix ix')" "iAllocated ix' = iAllocated ix"
    "hmap ix (key h) = Some (p, x) \<and> (r = 0 \<or> r = 1) \<or> hmap ix (key h) = None \<and> r = KErrBadHandle \<and> p = 0 \<and> x = 0 \<and> ix' = ix"
    "r = 1 \<Longrightarrow> iActiveCount ix = 1 \<and> iReservedTotal ix = 0"
proof -
  obtain Q where N: "normal ix Q" using assms(1) by (auto simp: normal_ix_def)
  have op: "open_ix ix" and st: "iState ix \<noteq> ETerminated" using normalD(4) [OF N] by (simp_all add: open_ix_def)
  obtain Q' ix2 r2 p2 x2 where s: "DoRemove h ix = (r2, p2, x2, ix2)" "table ix2 Q'" "served (ActRemove h) r2 (abs_ix ix) (abs_ix ix2)" "same_phase ix ix2"
    "hmap ix (key h) = Some (p2, x2) \<and> (r2 = 0 \<or> r2 = 1) \<or> hmap ix (key h) = None \<and> r2 = KErrBadHandle \<and> p2 = 0 \<and> x2 = 0 \<and> ix2 = ix"
    by (rule DoRemove_served [OF normalD(1) [OF N] op])
  have e: "r2 = r" "p2 = p" "x2 = x" "ix2 = ix'" using s(1) assms(2) by simp_all
  show "served (ActRemove h) r (abs_ix ix) (abs_ix ix')" "iAllocated ix' = iAllocated ix"
    "hmap ix (key h) = Some (p, x) \<and> (r = 0 \<or> r = 1) \<or> hmap ix (key h) = None \<and> r = KErrBadHandle \<and> p = 0 \<and> x = 0 \<and> ix' = ix"
    using s(3-5) e by (simp_all add: same_phase_def)
  show "normal_ix ix'" using normal_act [of "ActRemove h" ix] assms by simp
  assume r: "r = 1"
  then have px: "hmap ix (key h) = Some (p, x)" using s(5) e by auto
  have "r = (if \<not> bit x 31 \<and> iAmortize ix > 0 \<and> iActiveCount ix = 1 \<and> iReservedTotal ix = 0 then 1 else 0)"
    using DoRemove_used [OF normalD(1) [OF N] st px, of "r = (if \<not> bit x 31 \<and> iAmortize ix > 0 \<and> iActiveCount ix = 1 \<and> iReservedTotal ix = 0 then 1 else 0)"]
      assms(2) by simp
  then show "iActiveCount ix = 1 \<and> iReservedTotal ix = 0" using r by (simp split: if_splits)
qed

lemma normal_acts_scanned:
  assumes "normal_ix ix" "list_all ok_act acts"
  shows "normal_ix (fold (run_act U) acts ix)" "served_all acts (abs_ix ix) (abs_ix (fold (run_act U) acts ix))"
    "iAllocated (fold (run_act U) acts ix) = iAllocated ix"
  using normal_acts.keep_all [OF assms(2,1)] ready_fold(2,3) [OF normal_ixD(3) [OF assms(1)] assms(2), of U] by (simp_all add: same_phase_def)

lemma take_prefix: "prefix (concat (take k envs)) (concat envs)"
  by (metis append_take_drop_id concat_append prefixI)

text \<open>The handle is removed first; the compaction that may follow changes no handle and never fails.\<close>

lemma ix_Remove_ok:
  assumes "normal_ix ix" "list_all ok_act between" "ok_envs envs"
  obtains r p x ix' where "ix_Remove U between envs h ix = Inr (r, p, x, ix')" "normal_ix ix'"
    "hmap ix (key h) = Some (p, x) \<and> r = KErrNone \<or> hmap ix (key h) = None \<and> r = KErrBadHandle \<and> ix' = ix"
    "\<exists>acts s. prefix acts (between @ concat envs) \<and> served (ActRemove h) r (abs_ix ix) s \<and> served_all acts s (abs_ix ix')"
proof -
  obtain r p x ix1 where d: "DoRemove h ix = (r, p, x, ix1)" by (cases "DoRemove h ix")
  note D = DoRemove_normal [OF assms(1) d]
  show ?thesis
  proof (cases "r \<le> 0")
    case True
    then have e: "ix_Remove U between envs h ix = Inr (r, p, x, ix1)" using d by (simp add: ix_Remove_def)
    have "prefix [] (between @ concat envs) \<and> served (ActRemove h) r (abs_ix ix) (abs_ix ix1) \<and> served_all [] (abs_ix ix1) (abs_ix ix1)" using D(2) by simp
    then have x: "\<exists>acts s. prefix acts (between @ concat envs) \<and> served (ActRemove h) r (abs_ix ix) s \<and> served_all acts s (abs_ix ix1)" by blast
    have "hmap ix (key h) = Some (p, x) \<and> r = KErrNone \<or> hmap ix (key h) = None \<and> r = KErrBadHandle \<and> ix1 = ix"
      using D(4) True by auto
    then show ?thesis by (rule that [OF e D(1) _ x])
  next
    case False
    then have r: "r = 1" "hmap ix (key h) = Some (p, x)" using D(4) by auto
    note B = normal_acts_scanned [OF D(1) assms(2), of U]
    obtain ix2 where T: "TidyAndCompact U envs (fold (run_act U) between ix1) = Inr ix2" "compacted False ix2"
      "scanned envs (fold (run_act U) between ix1) ix2"
      using TidyAndCompact_ok [OF B(1) assms(3), of False] by blast
    have "iState (fold (run_act U) between ix1) \<noteq> ETerminated" using normal_ixD(4) [OF B(1)] by simp
    then have e: "ix_Remove U between envs h ix = Inr (KErrNone, p, x, ix2)" using d False T(1) by (simp add: ix_Remove_def)
    obtain k where "served_all (concat (take k envs)) (abs_ix (fold (run_act U) between ix1)) (abs_ix ix2)" using T(3) by (auto simp: scanned_def)
    then have "served_all (between @ concat (take k envs)) (abs_ix ix1) (abs_ix ix2)"
      unfolding served_all_append using B(2) by (intro exI [of _ "abs_ix (fold (run_act U) between ix1)"]) simp
    moreover have "served (ActRemove h) KErrNone (abs_ix ix) (abs_ix ix1)"
    proof -
      have "\<exists>x. abs_ix ix1 = ((hmap ix)(key h := None), iReservedFree ix + of_bool (bit x 31)) \<and> hmap ix (key h) = Some (p, x)"
        using D(2) r by (auto elim!: served_removeE simp: abs_ix_def)
      then show ?thesis using removed [where m = "hmap ix" and k = "iReservedFree ix" and r = 0] by (metis abs_ix_def)
    qed
    moreover have "prefix (between @ concat (take k envs)) (between @ concat envs)" using take_prefix by simp
    ultimately have "\<exists>acts s. prefix acts (between @ concat envs) \<and> served (ActRemove h) KErrNone (abs_ix ix) s \<and> served_all acts s (abs_ix ix2)" by blast
    then show ?thesis using that [OF e compacted_normal [OF T(2)]] r(2) by simp
  qed
qed

section \<open>Reserving\<close>

lemma changed_takers: "changed acts d s s' \<Longrightarrow> snd s + d - takers acts \<le> snd s'"
  by (induction rule: changed.induct) (auto dest!: served_takers)

lemma takers_take: "takers (concat (take k envs)) \<le> takers (concat envs)"
  by (metis append_take_drop_id concat_append filter_append length_append of_nat_le_iff le_add1)

text \<open>
  Reserving succeeds, or there is no memory and nothing has changed in the end. The others must not
  take more reserved slots than were free before: the slots reserved so far are given back.
\<close>

lemma ReserveSlots_ok:
  assumes "normal_ix ix" "ok_envs envs" "list_all ok_act wait" "ok_intervals copying" "ok_envs envs'" "n > 0"
    "takers (concat envs) + takers (concat envs') \<le> iReservedFree ix" "iAllocated ix + int n \<le> 0x7FFFFFFF"
  obtains r ix' acts where "ReserveSlots U heap envs wait copying envs' n ix = Inr (r, ix')" "normal_ix ix'"
    "r = KErrNone \<and> changed acts (int n) (abs_ix ix) (abs_ix ix') \<or>
     r = KErrNoMemory \<and> changed acts 0 (abs_ix ix) (abs_ix ix') \<and> (\<not> heap \<or> EMaxSlots < iAllocated ix + int n)"
    "set acts \<subseteq> set (concat envs @ wait @ concat (map fst copying) @ concat envs')"
proof -
  obtain m ix1 where l: "reserve_loop U envs n ix = (m, ix1)" by (cases "reserve_loop U envs n ix")
  have L: "normal_ix ix1" "iAllocated ix1 = iAllocated ix" "m \<le> n" "moved_on envs (int (n - m)) ix ix1" "m > 0 \<longrightarrow> iCount ix1 = iAllocated ix1"
    using reserve_loop_ok [OF assms(1,2) l] by blast+
  obtain k where ch: "changed (concat (take k envs)) (int (n - m)) (abs_ix ix) (abs_ix ix1)" using L(4) by (auto simp: moved_on_def)
  have sub: "set (concat (take k xs)) \<subseteq> set (concat xs)" for xs :: "ix_act list list" and k using set_mono_prefix [OF take_prefix] .
  have nw: "\<not> (heap \<and> iAllocated ix1 \<noteq> EMaxSlots \<and> iAllocated ix1 + int m > 0x7FFFFFFF)" using L(2,3) assms(8) by simp
  let ?X = "concat envs @ wait @ concat (map fst copying) @ concat envs'"
  have S: "set (concat (take k envs)) \<subseteq> set ?X" "set (concat (take j envs')) \<subseteq> set ?X" "set (concat (take j (wait # map fst copying))) \<subseteq> set ?X" for j
  proof -
    show "set (concat (take k envs)) \<subseteq> set ?X" by (rule subset_trans [OF sub]) simp
    show "set (concat (take j envs')) \<subseteq> set ?X" by (rule subset_trans [OF sub]) auto
    show "set (concat (take j (wait # map fst copying))) \<subseteq> set ?X" by (rule subset_trans [OF sub]) auto
  qed
  show ?thesis
  proof (cases "m = 0")
    case True
    then have "ReserveSlots U heap envs wait copying envs' n ix = Inr (KErrNone, ix1)" using l by (simp add: ReserveSlots_def)
    moreover have "changed (concat (take k envs)) (int n) (abs_ix ix) (abs_ix ix1)" using ch True by simp
    ultimately show ?thesis using that L(1) S(1) by blast
  next
    case False
    show ?thesis
    proof (cases "heap \<and> iAllocated ix1 + int m \<le> EMaxSlots")
      case True
      have ic: "iCount ix1 = iAllocated ix1" using L(5) False by simp
      have "0 < m + length ([] :: (TUint32 \<times> TUint32) list)" "iAllocated ix1 + int m + int (length ([] :: (TUint32 \<times> TUint32) list)) \<le> EMaxSlots"
        using False True by simp_all
      then obtain s ix2 where G: "Grow U True wait copying (int m) [] ix1 = (KErrNone, ix2)" "normal_ix ix2" "settled s" "scanned (wait # map fst copying) ix1 s"
        "hmap ix2 = hmap s" "iReservedFree ix2 = iReservedFree s + int m"
        using Grow_ok [where us = "[]" and n = m and U = U, OF L(1) ic assms(3,4)] by (metis (no_types, lifting) list.simps(4))
      have "ReserveSlots U heap envs wait copying envs' n ix = Inr (KErrNone, ix2)" using l G(1) True False nw by (simp add: ReserveSlots_def)
      moreover obtain j where j: "served_all (concat (take j (wait # map fst copying))) (abs_ix ix1) (abs_ix s)" using G(4) by (auto simp: scanned_def)
      have "0 \<le> iReservedFree ix2" by (rule normal_ixD(5) [OF G(2)])
      then have "changed [] (0 + int m) (abs_ix s) (abs_ix ix2)"
        unfolding abs_ix_def G(5,6) by (intro reserves) (simp_all add: unchanged)
      then have "changed (concat (take j (wait # map fst copying)) @ []) (0 + (0 + int m)) (abs_ix ix1) (abs_ix ix2)"
        by (rule changed_append [OF served_changed [OF j]])
      then have "changed (concat (take k envs) @ concat (take j (wait # map fst copying)) @ []) (int (n - m) + (0 + (0 + int m))) (abs_ix ix) (abs_ix ix2)"
        by (rule changed_append [OF ch])
      moreover have "int (n - m) + (0 + (0 + int m)) = int n" using L(3) by simp
      ultimately have c: "changed (concat (take k envs) @ concat (take j (wait # map fst copying)) @ []) (int n) (abs_ix ix) (abs_ix ix2)" by (simp only:)
      have "set (concat (take k envs) @ concat (take j (wait # map fst copying)) @ []) \<subseteq> set ?X" unfolding set_append [of "concat (take k envs)"] using S(1) S(3) [of j] by simp
      then show ?thesis using that [OF \<open>ReserveSlots U heap envs wait copying envs' n ix = Inr (KErrNone, ix2)\<close> G(2)] c by blast
    next
      case False
      have g: "Grow U heap wait copying (int m) [] ix1 = (KErrNoMemory, ix1)" by (rule Grow_refused) (use False in auto)
      have lim: "\<not> heap \<or> EMaxSlots < iAllocated ix + int n" using False L(2,3) by auto
      show ?thesis
      proof (cases "m = n")
        case True
        then have "ReserveSlots U heap envs wait copying envs' n ix = Inr (KErrNoMemory, ix1)" using l g \<open>m \<noteq> 0\<close> nw by (simp add: ReserveSlots_def)
        moreover have "changed (concat (take k envs)) 0 (abs_ix ix) (abs_ix ix1)" using ch True by simp
        ultimately show ?thesis using that L(1) S(1) lim by blast
      next
        case False
        have "int (n - m) + takers (concat envs') \<le> iReservedFree ix1"
          using changed_takers [OF ch] takers_take [of k envs] assms(7) by (simp add: abs_ix_def)
        then obtain r ix2 where R: "UnReserveSlots U envs' (n - m) False ix1 = Inr (r, ix2)" "normal_ix ix2" "moved_on envs' (- int (n - m)) ix1 ix2"
          using UnReserveSlots_ok [OF L(1) assms(5), where n = "n - m" and U = U and b = False] by blast
        obtain j where j: "changed (concat (take j envs')) (- int (n - m)) (abs_ix ix1) (abs_ix ix2)" using R(3) by (auto simp: moved_on_def)
        have "changed (concat (take k envs) @ concat (take j envs')) (int (n - m) + - int (n - m)) (abs_ix ix) (abs_ix ix2)"
          by (rule changed_append [OF ch j])
        then have c0: "changed (concat (take k envs) @ concat (take j envs')) 0 (abs_ix ix) (abs_ix ix2)" by simp
        have "n > m" using False L(3) by simp
        then have "ReserveSlots U heap envs wait copying envs' n ix = Inr (KErrNoMemory, ix2)" using l g \<open>m \<noteq> 0\<close> R(1) nw by (simp add: ReserveSlots_def)
        moreover have "set (concat (take k envs) @ concat (take j envs')) \<subseteq> set ?X" unfolding set_append [of "concat (take k envs)"] using S(1) S(2) [of j] by blast
        ultimately show ?thesis using that [OF _ R(2)] c0 lim by blast
      qed
    qed
  qed
qed

text \<open>
  Whatever the others take, and however large the request, an index that reserving returns is normal. It
  does not return in two cases only: a size that wraps round writes outside its memory, and giving back
  more than the others leave fails an assertion.
\<close>

lemma ReserveSlots_cases:
  assumes "normal_ix ix" "ok_envs envs" "list_all ok_act wait" "ok_intervals copying" "ok_envs envs'"
  shows "(\<exists>r ix'. ReserveSlots U heap envs wait copying envs' n ix = Inr (r, ix') \<and> normal_ix ix') \<or>
    ReserveSlots U heap envs wait copying envs' n ix = Inl BadMemory \<and> heap \<and> 0x7FFFFFFF < iAllocated ix + int n \<or>
    ReserveSlots U heap envs wait copying envs' n ix = Inl (Panic ''crash'') \<and>
      iReservedFree ix < takers (concat envs) + takers (concat envs')"
proof -
  obtain m ix1 where l: "reserve_loop U envs n ix = (m, ix1)" by (cases "reserve_loop U envs n ix")
  have L: "normal_ix ix1" "iAllocated ix1 = iAllocated ix" "m \<le> n" "moved_on envs (int (n - m)) ix ix1" "m > 0 \<longrightarrow> iCount ix1 = iAllocated ix1"
    using reserve_loop_ok [OF assms(1,2) l] by blast+
  obtain k where ch: "changed (concat (take k envs)) (int (n - m)) (abs_ix ix) (abs_ix ix1)" using L(4) by (auto simp: moved_on_def)
  have t: "iReservedFree ix + int (n - m) - takers (concat envs) \<le> iReservedFree ix1"
    using changed_takers [OF ch] takers_take [of k envs] by (simp add: abs_ix_def)
  note R = ReserveSlots_def [of U heap envs wait copying envs' n ix, unfolded l prod.case]
  consider (all) "m = 0" | (wrap) "m > 0" "heap \<and> iAllocated ix1 \<noteq> EMaxSlots \<and> iAllocated ix1 + int m > 0x7FFFFFFF"
    | (grown) "m > 0" "heap \<and> iAllocated ix1 + int m \<le> EMaxSlots"
    | (refused) "m > 0" "\<not> (heap \<and> iAllocated ix1 \<noteq> EMaxSlots \<and> iAllocated ix1 + int m > 0x7FFFFFFF)"
        "\<not> (heap \<and> iAllocated ix1 + int m \<le> EMaxSlots)" by blast
  then show ?thesis
  proof cases
    case all
    then show ?thesis using R L(1) by simp
  next
    case wrap
    then show ?thesis using R L(2,3) by simp
  next
    case grown
    have "0 < m + length ([] :: (TUint32 \<times> TUint32) list)" "iAllocated ix1 + int m + int (length ([] :: (TUint32 \<times> TUint32) list)) \<le> EMaxSlots"
      using grown by simp_all
    then obtain ix2 where "Grow U True wait copying (int m) [] ix1 = (KErrNone, ix2)" "normal_ix ix2"
      using Grow_ok [where us = "[]" and n = m and U = U, OF L(1) _ assms(3,4)] L(5) grown(1) by (metis (no_types, lifting) list.simps(4))
    then show ?thesis using R grown by simp
  next
    case refused
    have g: "Grow U heap wait copying (int m) [] ix1 = (KErrNoMemory, ix1)" by (rule Grow_refused) (use refused(3) in auto)
    have m0: "m \<noteq> 0" using refused(1) by simp
    have R: "ReserveSlots U heap envs wait copying envs' n ix =
        (if n > m then ebind (UnReserveSlots U envs' (n - m) False ix1) (\<lambda>(_, ix3). Inr (KErrNoMemory, ix3)) else Inr (KErrNoMemory, ix1))"
      unfolding R if_not_P [OF m0] if_not_P [OF refused(2)] g by simp
    show ?thesis
    proof (cases "n > m")
      case True
      show ?thesis unfolding R if_P [OF True]
        using UnReserveSlots_cases [OF L(1) assms(5), of U "n - m" False] t by (elim disjE exE conjE) simp_all
    next
      case False
      show ?thesis unfolding R if_not_P [OF False] using L(1) by simp
    qed
  qed
qed

end
