(* ===== verification/Objix_Reach.thy ===== *)
theory Objix_Reach
  imports Objix_Ops
begin

text \<open>
  The states of an object index that the operations can reach: all of them are normal, whatever other
  threads do while an operation goes through the table.
\<close>

section \<open>Reserving\<close>

lemma ix_Reserve_ok:
  assumes "normal_ix ix" "ok_envs envs" "list_all ok_act wait" "ok_intervals copying" "ok_envs envs'"
    "takers (concat envs) + takers (concat envs') + (if n < 0 then - n else 0) \<le> iReservedFree ix" "iAllocated ix + n \<le> 0x7FFFFFFF"
  obtains r ix' acts where "ix_Reserve U heap envs wait copying envs' n ix = Inr (r, ix')" "normal_ix ix'"
    "r = KErrNone \<and> changed acts n (abs_ix ix) (abs_ix ix') \<or>
     r = KErrNoMemory \<and> changed acts 0 (abs_ix ix) (abs_ix ix') \<and> 0 < n \<and> (\<not> heap \<or> EMaxSlots < iAllocated ix + n)"
    "set acts \<subseteq> set (concat envs @ wait @ concat (map fst copying) @ concat envs')"
proof -
  have st: "iState ix \<noteq> ETerminated" using normal_ixD(4) [OF assms(1)] by simp
  consider (zero) "n = 0" | (pos) "n > 0" | (neg) "n < 0" by linarith
  then show ?thesis
  proof cases
    case zero
    then have "ix_Reserve U heap envs wait copying envs' n ix = Inr (KErrNone, ix)" by (simp add: ix_Reserve_def)
    moreover have "changed [] n (abs_ix ix) (abs_ix ix)" using zero by (simp add: unchanged)
    ultimately show ?thesis by (intro that [OF _ assms(1), of KErrNone "[]"]) simp_all
  next
    case pos
    have t: "takers (concat envs) + takers (concat envs') \<le> iReservedFree ix" using assms(6) pos by simp
    have n: "nat n > 0" "int (nat n) = n" using pos by simp_all
    have w: "iAllocated ix + int (nat n) \<le> 0x7FFFFFFF" using assms(7) n(2) by simp
    obtain r ix' acts where R: "ReserveSlots U heap envs wait copying envs' (nat n) ix = Inr (r, ix')" "normal_ix ix'"
      "r = KErrNone \<and> changed acts (int (nat n)) (abs_ix ix) (abs_ix ix') \<or>
       r = KErrNoMemory \<and> changed acts 0 (abs_ix ix) (abs_ix ix') \<and> (\<not> heap \<or> EMaxSlots < iAllocated ix + int (nat n))"
      "set acts \<subseteq> set (concat envs @ wait @ concat (map fst copying) @ concat envs')"
      by (rule ReserveSlots_ok [OF assms(1-5) n(1) t w, where U = U and heap = heap])
    have "ix_Reserve U heap envs wait copying envs' n ix = Inr (r, ix')" using R(1) pos st by (simp add: ix_Reserve_def)
    then show ?thesis by (rule that [OF _ R(2) _ R(4)]) (use R(3) pos in \<open>unfold n(2), blast\<close>)
  next
    case neg
    have t: "int (nat (- n)) + takers (concat envs) \<le> iReservedFree ix" using assms(6) neg by simp
    have n: "- int (nat (- n)) = n" using neg by simp
    obtain r ix1 where R: "UnReserveSlots U envs (nat (- n)) True ix = Inr (r, ix1)" "normal_ix ix1" "moved_on envs n ix ix1"
      using UnReserveSlots_ok [OF assms(1,2) t, where U = U and b = True] unfolding n by blast
    obtain k where k: "changed (concat (take k envs)) n (abs_ix ix) (abs_ix ix1)" using R(3) by (auto simp: moved_on_def)
    let ?X = "concat envs @ wait @ concat (map fst copying) @ concat envs'"
    have sub: "set (concat (take k xs)) \<subseteq> set (concat xs)" for xs :: "ix_act list list" and k using set_mono_prefix [OF take_prefix] .
    have S: "set (concat (take k envs)) \<subseteq> set ?X" "set (concat (take j envs')) \<subseteq> set ?X" "set wait \<subseteq> set ?X" for j
    proof -
      show "set (concat (take k envs)) \<subseteq> set ?X" by (rule subset_trans [OF sub]) simp
      show "set (concat (take j envs')) \<subseteq> set ?X" by (rule subset_trans [OF sub]) auto
      show "set wait \<subseteq> set ?X" by auto
    qed
    show ?thesis
    proof (cases "r = 0")
      case True
      then have "ix_Reserve U heap envs wait copying envs' n ix = Inr (KErrNone, ix1)" using R(1) neg st by (simp add: ix_Reserve_def)
      then show ?thesis by (rule that [OF _ R(2) _ S(1)]) (use k in blast)
    next
      case False
      note B = normal_acts_scanned [OF R(2) assms(3), of U]
      obtain ix2 where T: "TidyAndCompact U envs' (fold (run_act U) wait ix1) = Inr ix2" "compacted False ix2"
        "scanned envs' (fold (run_act U) wait ix1) ix2"
        using TidyAndCompact_ok [OF B(1) assms(5), of False] by blast
      have e: "ix_Reserve U heap envs wait copying envs' n ix = Inr (KErrNone, ix2)" using R(1) neg st False T(1) by (simp add: ix_Reserve_def)
      obtain j where "served_all (concat (take j envs')) (abs_ix (fold (run_act U) wait ix1)) (abs_ix ix2)" using T(3) by (auto simp: scanned_def)
      then have "served_all (wait @ concat (take j envs')) (abs_ix ix1) (abs_ix ix2)" unfolding served_all_append using B(2) by metis
      then have "changed (concat (take k envs) @ wait @ concat (take j envs')) (n + 0) (abs_ix ix) (abs_ix ix2)"
        by (rule changed_append [OF k served_changed])
      then have "changed (concat (take k envs) @ wait @ concat (take j envs')) n (abs_ix ix) (abs_ix ix2)" by simp
      moreover have "set (concat (take k envs) @ wait @ concat (take j envs')) \<subseteq> set ?X"
        unfolding set_append [of "concat (take k envs)"] set_append [of wait "concat (take j envs')"] using S(1,3) S(2) [of j] by blast
      ultimately show ?thesis using that [OF e compacted_normal [OF T(2)]] by blast
    qed
  qed
qed

text \<open>Whatever the others take, and however large the request.\<close>

lemma ix_Reserve_cases:
  assumes "normal_ix ix" "ok_envs envs" "list_all ok_act wait" "ok_intervals copying" "ok_envs envs'"
  shows "(\<exists>r ix'. ix_Reserve U heap envs wait copying envs' n ix = Inr (r, ix') \<and> normal_ix ix') \<or>
    ix_Reserve U heap envs wait copying envs' n ix = Inl BadMemory \<and> heap \<and> 0x7FFFFFFF < iAllocated ix + n \<or>
    ix_Reserve U heap envs wait copying envs' n ix = Inl (Panic ''crash'') \<and>
      iReservedFree ix < takers (concat envs) + takers (concat envs') + (if n < 0 then - n else 0)"
proof -
  have st: "iState ix \<noteq> ETerminated" using normal_ixD(4) [OF assms(1)] by simp
  consider (zero) "n = 0" | (pos) "n > 0" | (neg) "n < 0" by linarith
  then show ?thesis
  proof cases
    case zero
    then show ?thesis using assms(1) by (simp add: ix_Reserve_def)
  next
    case pos
    then show ?thesis using ReserveSlots_cases [OF assms, of U heap "nat n"] st by (simp add: ix_Reserve_def)
  next
    case neg
    have e: "ix_Reserve U heap envs wait copying envs' n ix =
        ebind (UnReserveSlots U envs (nat (- n)) True ix) (\<lambda>(r, ix1).
          if r \<noteq> 0 then ebind (TidyAndCompact U envs' (fold (run_act U) wait ix1)) (\<lambda>ix2. Inr (KErrNone, ix2)) else Inr (KErrNone, ix1))"
      using neg st by (simp add: ix_Reserve_def)
    from UnReserveSlots_cases [OF assms(1,2), of U "nat (- n)" True] consider
        (returns) r ix1 where "UnReserveSlots U envs (nat (- n)) True ix = Inr (r, ix1)" "normal_ix ix1"
      | (fails) "UnReserveSlots U envs (nat (- n)) True ix = Inl (Panic ''crash'')" "iReservedFree ix < int (nat (- n)) + takers (concat envs)"
      by blast
    then show ?thesis
    proof cases
      case (returns r ix1)
      obtain ix2 where "TidyAndCompact U envs' (fold (run_act U) wait ix1) = Inr ix2" "compacted False ix2"
        using TidyAndCompact_ok [OF normal_acts_scanned(1) [OF returns(2) assms(3)] assms(5), of False] by blast
      then show ?thesis unfolding e using returns compacted_normal by (cases "r = 0") auto
    next
      case fails
      then show ?thesis unfolding e using neg by simp
    qed
  qed
qed

section \<open>While the table is gone through\<close>

text \<open>The index without what a thread that goes through it keeps there.\<close>

definition plain :: "RObjectIx \<Rightarrow> RObjectIx" where
  "plain ix = ix\<lparr>iState := ENormal, iObj := 0, iBoundary := 0, iResult := 0\<rparr>"

definition going_through :: "RObjectIx \<Rightarrow> bool" where
  "going_through ix \<longleftrightarrow> normal_ix (plain ix) \<and> iState ix \<in> {ECounting, ESearching, EFindingLast}"

lemma plain_fields:
  "iSlots (plain ix) = iSlots ix" "iFreeQ (plain ix) = iFreeQ ix" "iAllocated (plain ix) = iAllocated ix" "iCount (plain ix) = iCount ix"
  "iActiveCount (plain ix) = iActiveCount ix" "iReservedFree (plain ix) = iReservedFree ix" "iReservedTotal (plain ix) = iReservedTotal ix"
  "iReservedFreeHWM (plain ix) = iReservedFreeHWM ix" "iModCount (plain ix) = iModCount ix" "iAmortize (plain ix) = iAmortize ix"
  "NextInstance (plain ix) = NextInstance ix" "iState (plain ix) = ENormal"
  by (simp_all add: plain_def)

lemma plain_links:
  "link_next (plain ix) i = link_next ix i" "link_prev (plain ix) i = link_prev ix i"
  "plain (set_next i v ix) = set_next i v (plain ix)" "plain (set_prev i v ix) = set_prev i v (plain ix)"
  "plain (set_objr i w ix) = set_objr i w (plain ix)" "plain (fill_slot i w w' ix) = fill_slot i w w' (plain ix)"
  by (simp_all add: link_next_def link_prev_def set_next_def set_prev_def set_objr_def fill_slot_def plain_def)

lemma unmarked: "iModCount ix = 255 \<Longrightarrow> mark_if i ix = ix"
  by (simp add: mark_if_def)

lemma link_fields:
  "iModCount (set_next i v ix) = iModCount ix" "iModCount (set_prev i v ix) = iModCount ix" "iModCount (set_objr i w ix) = iModCount ix"
  "iState (set_next i v ix) = iState ix" "iState (set_prev i v ix) = iState ix" "iState (set_objr i w ix) = iState ix"
  "iModCount (fill_slot i w w' ix) = iModCount ix" "iState (fill_slot i w w' ix) = iState ix"
  by (simp_all add: set_next_def set_prev_def set_objr_def fill_slot_def)

lemma link_counts: "iCount (set_next i v ix) = iCount ix" "iCount (set_prev i v ix) = iCount ix"
  by (simp_all add: set_next_def set_prev_def)

lemma plain_queues:
  assumes "iModCount ix = 255"
  shows "plain (Dequeue i ix) = Dequeue i (plain ix)" "plain (AddHead q i ix) = AddHead q i (plain ix)"
    "iModCount (Dequeue i ix) = 255" "iModCount (AddHead q i ix) = 255" "iState (Dequeue i ix) = iState ix" "iState (AddHead q i ix) = iState ix"
  using assms by (simp_all add: Dequeue_def AddHead_def AddAfter_def Let_def unmarked link_fields plain_fields plain_links)

lemma plain_updates:
  "plain (ix\<lparr>iCount := n\<rparr>) = (plain ix)\<lparr>iCount := n\<rparr>" "plain (ix\<lparr>iActiveCount := n\<rparr>) = (plain ix)\<lparr>iActiveCount := n\<rparr>"
  "plain (ix\<lparr>iReservedFree := n\<rparr>) = (plain ix)\<lparr>iReservedFree := n\<rparr>" "plain (ix\<lparr>iReservedFreeHWM := n\<rparr>) = (plain ix)\<lparr>iReservedFreeHWM := n\<rparr>"
  "plain (ix\<lparr>iAmortize := n\<rparr>) = (plain ix)\<lparr>iAmortize := n\<rparr>" "plain (ix\<lparr>NextInstance := w\<rparr>) = (plain ix)\<lparr>NextInstance := w\<rparr>"
  by (simp_all add: plain_def)

lemma plain_monitor:
  "plain (monitor_add p i ix) = plain ix" "plain (monitor_remove p i ix) = plain ix"
  "monitor_add p i (plain ix) = plain ix" "monitor_remove p i (plain ix) = plain ix"
  "iState (monitor_add p i ix) = iState ix" "iState (monitor_remove p i ix) = iState ix"
  "iModCount (monitor_add p i ix) = iModCount ix" "iModCount (monitor_remove p i ix) = iModCount ix"
  by (simp_all add: monitor_add_def monitor_remove_def plain_def)

lemma plain_monitored_fields:
  "iActiveCount (monitor_add p i ix) = iActiveCount ix" "iReservedFree (monitor_add p i ix) = iReservedFree ix"
  "iReservedFree (monitor_remove p i ix) = iReservedFree ix"
  by (simp_all add: monitor_add_def monitor_remove_def)

lemma plain_claim:
  assumes "iModCount ix = 255"
  shows "plain (claim_slot p a i ix) = claim_slot p a i (plain ix)" "iState (claim_slot p a i ix) = iState ix"
proof -
  have dequeue_count: "iCount (Dequeue i ix) = iCount ix" using assms by (simp add: Dequeue_def Let_def unmarked link_fields link_counts)
  have d: "iCount (Dequeue i (plain ix)) = iCount (Dequeue i ix)" "iActiveCount (Dequeue i (plain ix)) = iActiveCount (Dequeue i ix)"
    "iReservedFree (Dequeue i (plain ix)) = iReservedFree (Dequeue i ix)"
    using plain_queues(1) [OF assms, of i] plain_fields [of "Dequeue i ix"] by simp_all
  have m: "monitor_add p i (Dequeue i (plain ix)) = Dequeue i (plain ix)"
      "monitor_add p i ((Dequeue i (plain ix))\<lparr>iCount := i + 1\<rparr>) = (Dequeue i (plain ix))\<lparr>iCount := i + 1\<rparr>"
    using plain_monitor(3) [of p i "Dequeue i ix"] plain_monitor(3) [of p i "(Dequeue i ix)\<lparr>iCount := i + 1\<rparr>"]
    by (simp_all add: plain_updates plain_queues(1) [OF assms])
  show "plain (claim_slot p a i ix) = claim_slot p a i (plain ix)"
    by (simp add: claim_slot_def Let_def plain_updates plain_monitor plain_queues [OF assms] d(1,2,3) m plain_monitored_fields plain_fields dequeue_count)
  show "iState (claim_slot p a i ix) = iState ix"
    by (simp add: claim_slot_def Let_def plain_monitor plain_queues [OF assms])
qed

lemma plain_add:
  assumes "iModCount ix = 255" "iState ix \<in> {ECounting, ESearching, EFindingLast}"
  shows "plain (run_act U (ActAdd p a) ix) = run_act U (ActAdd p a) (plain ix)" "iState (run_act U (ActAdd p a) ix) = iState ix"
proof -
  obtain inst nx where g: "GetNextInstanceValue (NextInstance ix) = (inst, nx)" by fastforce
  let ?ix = "ix\<lparr>NextInstance := nx\<rparr>"
  have f: "first_free a ((plain ix)\<lparr>NextInstance := nx\<rparr>) = first_free a ?ix"
    using plain_links(1) [of ?ix] by (simp add: first_free_def Let_def plain_updates)
  have m: "iModCount ?ix = 255" using assms(1) by simp
  have st: "iState ix \<noteq> ETerminated" using assms(2) by auto
  show "plain (run_act U (ActAdd p a) ix) = run_act U (ActAdd p a) (plain ix)" "iState (run_act U (ActAdd p a) ix) = iState ix"
    using st plain_claim [OF m, of p a "first_free a ?ix"]
    by (simp_all add: DoAdd_def Let_def g f plain_fields plain_links plain_updates link_fields)
qed

lemma plain_remove:
  assumes "iModCount ix = 255" "iState ix \<in> {ECounting, ESearching, EFindingLast}"
  shows "plain (run_act U (ActRemove h) ix) = run_act U (ActRemove h) (plain ix)" "iState (run_act U (ActRemove h) ix) = iState ix"
proof -
  have st: "iState ix \<noteq> ETerminated" "iState ix \<noteq> ETidying" using assms(2) by auto
  let ?i = "HandleIndex h"
  let ?attr = "if ?i < iCount ix then iAttr (iSlots ix ! nat ?i) else 0" and ?objr = "if ?i < iCount ix then iObjR (iSlots ix ! nat ?i) else 0"
  let ?p = "?objr AND EObjRObjMask" and ?x = "push_bit 31 ?objr OR drop_bit 20 ?attr"
  define ix1 where "ix1 = set_objr ?i (?objr AND EObjRRsvd) ix"
  define ix2 where "ix2 = monitor_remove ?p ?i (ix1\<lparr>iActiveCount := iActiveCount ix1 - 1\<rparr>)"
  have m1: "iModCount ix1 = 255" "iState ix1 = iState ix" using assms(1) by (simp_all add: ix1_def link_fields)
  then have m2: "iModCount ix2 = 255" "iState ix2 = iState ix" by (simp_all add: ix2_def plain_monitor)
  have m3: "iModCount (ix2\<lparr>iReservedFree := n\<rparr>) = 255" "iModCount (ix2\<lparr>iReservedFree := n, iReservedFreeHWM := k\<rparr>) = 255" for n k using m2 by simp_all
  have p1: "plain ix1 = set_objr ?i (?objr AND EObjRRsvd) (plain ix)" by (simp add: ix1_def plain_links)
  have p2: "plain ix2 = (plain ix1)\<lparr>iActiveCount := iActiveCount ix1 - 1\<rparr>" by (simp add: ix2_def plain_monitor plain_updates)
  have p3: "monitor_remove ?p ?i (plain ix2) = plain ix2" by (rule plain_monitor)
  have a: "plain (free_reserved ?i ix2) = free_reserved ?i (plain ix2)" "iState (free_reserved ?i ix2) = iState ix"
    using plain_queues [OF m3(1)] plain_queues [OF m3(2)] m2 st by (simp_all add: free_reserved_def Let_def plain_fields plain_updates)
  have "iAmortize (AddHead EQFree ?i (plain ix2)) = iAmortize (AddHead EQFree ?i ix2)" using plain_queues(2) [OF m2(1)] plain_fields by metis
  then have b: "plain (snd (free_normal ?i ix2)) = snd (free_normal ?i (plain ix2))" "iState (snd (free_normal ?i ix2)) = iState ix"
    using plain_queues [OF m2(1)] m2 by (simp_all add: free_normal_def Let_def plain_updates)
  show "plain (run_act U (ActRemove h) ix) = run_act U (ActRemove h) (plain ix)"
  proof (cases "?objr < EObjROccupied \<or> ?attr AND 0x3FFF \<noteq> HandleInstance h")
    case True
    have "ENormal \<noteq> ETerminated" by simp
    then show ?thesis unfolding run_act.simps DoRemove_def Let_def plain_fields if_not_P [OF st(1)] if_P [OF True] by (simp only: if_False snd_conv simp_thms)
  next
    case False
    have l: "run_act U (ActRemove h) ix = (if ?x AND EReserved \<noteq> 0 then free_reserved ?i ix2 else snd (free_normal ?i ix2))"
      unfolding run_act.simps DoRemove_def Let_def ix2_def ix1_def using st(1) False by (simp split: prod.splits)
    have e: "(plain ix1)\<lparr>iActiveCount := iActiveCount (plain ix1) - 1\<rparr> = plain ix2" by (simp add: p2 plain_fields)
    have "run_act U (ActRemove h) (plain ix) =
        (let z = monitor_remove ?p ?i ((plain ix1)\<lparr>iActiveCount := iActiveCount (plain ix1) - 1\<rparr>)
         in if ?x AND EReserved \<noteq> 0 then free_reserved ?i z else snd (free_normal ?i z))"
      unfolding run_act.simps DoRemove_def Let_def plain_fields p1 [symmetric] using False by (simp split: prod.splits)
    then show ?thesis unfolding e p3 Let_def l using a(1) b(1) by simp
  qed
  show "iState (run_act U (ActRemove h) ix) = iState ix"
  proof (cases "?objr < EObjROccupied \<or> ?attr AND 0x3FFF \<noteq> HandleInstance h")
    case True
    then show ?thesis unfolding run_act.simps DoRemove_def Let_def if_not_P [OF st(1)] if_P [OF True] by (simp only: snd_conv)
  next
    case False
    have "run_act U (ActRemove h) ix = (if ?x AND EReserved \<noteq> 0 then free_reserved ?i ix2 else snd (free_normal ?i ix2))"
      unfolding run_act.simps DoRemove_def Let_def ix2_def ix1_def using st(1) False by (simp split: prod.splits)
    then show ?thesis using a(2) b(2) by simp
  qed
qed

lemma going_act: "ok_act act \<Longrightarrow> going_through ix \<Longrightarrow> going_through (run_act U act ix)"
proof (cases act)
  case (ActAdd p a)
  assume "ok_act act" "going_through ix"
  then show ?thesis using plain_add [of ix U p a] normal_act [of act "plain ix" U] normal_ixD(2) [of "plain ix"] ActAdd
    by (simp add: going_through_def plain_fields)
next
  case (ActRemove h)
  assume "ok_act act" "going_through ix"
  then show ?thesis using plain_remove [of ix U h] normal_act [of act "plain ix" U] normal_ixD(2) [of "plain ix"] ActRemove
    by (simp add: going_through_def plain_fields)
qed

interpretation going_acts: guarded "run_act U" ok_act going_through for U
  by unfold_locales (rule going_act)

lemma going_others: "ok_envs envs \<Longrightarrow> going_through ix \<Longrightarrow> going_through (others U envs ix) \<and> ok_envs (tl envs)"
  unfolding others_first using going_acts.keep_all ok_first by blast

lemma going_cong: "going_through ix \<Longrightarrow> plain ix' = plain ix \<Longrightarrow> iState ix' = iState ix \<Longrightarrow> going_through ix'"
  by (simp add: going_through_def)

lemma count_loop_going: "ok_envs envs \<Longrightarrow> going_through ix \<Longrightarrow> going_through (count_loop U envs p ix)"
proof (induction U envs p ix rule: count_loop.induct)
  case (1 U envs p ix)
  show ?case
  proof (cases "p < iCount ix \<and> iActiveCount ix \<noteq> 0")
    case True
    show ?thesis unfolding count_loop.simps [of U envs p ix] if_P [OF True] Let_def
      by (rule "1.IH" [OF True refl refl refl]) (use going_others [OF "1.prems"(1)] "1.prems"(2) in \<open>simp_all add: going_through_def plain_def\<close>)
  next
    case False
    show ?thesis unfolding count_loop.simps [of U envs p ix] if_not_P [OF False] by (rule "1.prems")
  qed
qed

lemma find_loop_going: "ok_envs envs \<Longrightarrow> going_through ix \<Longrightarrow> going_through (snd (find_loop U envs p ix))"
proof (induction U envs p ix rule: find_loop.induct)
  case (1 U envs p ix)
  let ?limit = "min (p + EMaxLockedIter) (iCount ix)"
  let ?hits = "filter (\<lambda>i. Occupant (iSlots ix ! nat i) = iObj ix) [p..?limit - 1]"
  show ?case
  proof (cases "p < iCount ix \<and> iActiveCount ix \<noteq> 0")
    case True
    show ?thesis
    proof (cases ?hits)
      case Nil
      have "going_through (snd (find_loop U (tl envs) (iBoundary (others U envs (ix\<lparr>iBoundary := ?limit\<rparr>))) (others U envs (ix\<lparr>iBoundary := ?limit\<rparr>))))"
        by (rule "1.IH" [OF True refl Nil refl]) (use going_others [OF "1.prems"(1)] "1.prems"(2) in \<open>simp_all add: going_through_def plain_def\<close>)
      then show ?thesis unfolding find_loop.simps [of U envs p ix] if_P [OF True] Let_def Nil list.case by assumption
    next
      case (Cons i rest)
      show ?thesis unfolding find_loop.simps [of U envs p ix] if_P [OF True] Let_def Cons list.case snd_conv by (rule "1.prems")
    qed
  next
    case False
    show ?thesis unfolding find_loop.simps [of U envs p ix] if_not_P [OF False] snd_conv by (rule "1.prems")
  qed
qed

lemma last_loop_going: "ok_envs envs \<Longrightarrow> going_through ix \<Longrightarrow> going_through (snd (last_loop U envs p ix))"
proof (induction U envs p ix rule: last_loop.induct)
  case (1 U envs p ix)
  let ?limit = "max (p - EMaxLockedIter) 0"
  let ?hits = "filter (\<lambda>i. Occupant (iSlots ix ! nat i) \<noteq> 0) (rev [?limit..p - 1])"
  show ?case
  proof (cases "p \<ge> 0 \<and> iActiveCount ix \<noteq> 0")
    case True
    show ?thesis
    proof (cases ?hits)
      case Nil
      have "going_through (snd (last_loop U (tl envs) (iBoundary (others U envs (ix\<lparr>iBoundary := ?limit - 1 - 1\<rparr>)) + 1) (others U envs (ix\<lparr>iBoundary := ?limit - 1 - 1\<rparr>))))"
        by (rule "1.IH" [OF True refl Nil refl refl]) (use going_others [OF "1.prems"(1)] "1.prems"(2) in \<open>simp_all add: going_through_def plain_def\<close>)
      then show ?thesis unfolding last_loop.simps [of U envs p ix] if_P [OF True] Let_def Nil list.case by assumption
    next
      case (Cons i rest)
      show ?thesis unfolding last_loop.simps [of U envs p ix] if_P [OF True] Let_def Cons list.case snd_conv by (rule "1.prems")
    qed
  next
    case False
    show ?thesis unfolding last_loop.simps [of U envs p ix] if_not_P [OF False] snd_conv by (rule "1.prems")
  qed
qed

lemma normal_cong:
  assumes "iState ix' = ENormal" "iState ix = ENormal" "plain ix' = plain ix" "normal_ix ix"
  shows "normal_ix ix'"
proof -
  obtain Q where Q: "steady ix Q" "Q EQAltFree = []" "iModCount ix = 255" using assms(4) by (auto simp: normal_ix_def normal_steady)
  have f: "iSlots ix' = iSlots ix" "iFreeQ ix' = iFreeQ ix" "iAllocated ix' = iAllocated ix" "iCount ix' = iCount ix"
    "iActiveCount ix' = iActiveCount ix" "iReservedFree ix' = iReservedFree ix" "iReservedTotal ix' = iReservedTotal ix"
    "NextInstance ix' = NextInstance ix" "iState ix' = iState ix" "iReservedFreeHWM ix' = iReservedFreeHWM ix" "iModCount ix' = iModCount ix"
    using plain_fields [of ix] plain_fields [of ix'] assms(1-3) by simp_all
  have "iModListShift ix' = iModListShift ix" using arg_cong [OF assms(3), of iModListShift] by (simp add: plain_def)
  then have "steady ix' Q" using steadyD(4-6) [OF Q(1)] by (intro steady_cong [OF f(1-9) _ _ _ _ Q(1)]) (simp_all add: f)
  then show ?thesis using Q(2,3) f(11) by (auto simp: normal_ix_def normal_steady)
qed

lemma plain_idem [simp]: "plain (plain ix) = plain ix"
  by (simp add: plain_def)

lemma start_going:
  assumes "normal_ix ix" "iState ix' \<in> {ECounting, ESearching, EFindingLast}" "plain ix' = plain ix"
  shows "going_through ix'"
proof -
  have "normal_ix (plain ix)" by (rule normal_cong [OF _ normal_ixD(4) [OF assms(1)] _ assms(1)]) (simp_all add: plain_fields)
  then show ?thesis using assms(2,3) by (simp add: going_through_def)
qed

lemma end_going: "going_through ix \<Longrightarrow> normal_ix (ix\<lparr>iState := ENormal\<rparr>)"
  by (rule normal_cong [where ix = "plain ix"]) (simp_all add: going_through_def plain_def)

lemma ix_Count_normal:
  assumes "normal_ix ix" "ok_envs envs"
  shows "normal_ix (snd (ix_Count U envs p ix))"
proof -
  let ?ix = "ix\<lparr>iBoundary := 0, iObj := p, iResult := 0, iState := ECounting\<rparr>"
  have "going_through ?ix" by (rule start_going [OF assms(1)]) (simp_all add: plain_def)
  then have "normal_ix ((count_loop U envs 0 ?ix)\<lparr>iState := ENormal\<rparr>)" by (rule end_going [OF count_loop_going [OF assms(2)]])
  then show ?thesis using normal_ixD(4) [OF assms(1)] by (simp add: ix_Count_def Let_def)
qed

lemma ix_At_object_normal:
  assumes "normal_ix ix" "ok_envs envs"
  shows "normal_ix (snd (ix_At_object U envs p ix))"
proof -
  let ?ix = "ix\<lparr>iState := ESearching, iObj := p, iBoundary := 0\<rparr>"
  have "going_through ?ix" by (rule start_going [OF assms(1)]) (simp_all add: plain_def)
  then have "normal_ix ((snd (find_loop U envs 0 ?ix))\<lparr>iState := ENormal\<rparr>)" by (rule end_going [OF find_loop_going [OF assms(2)]])
  then show ?thesis using normal_ixD(4) [OF assms(1)] by (simp add: ix_At_object_def case_prod_beta)
qed

lemma LastHandle_normal:
  assumes "normal_ix ix" "ok_envs envs"
  shows "normal_ix (snd (LastHandle U envs ix))"
proof -
  let ?ix = "ix\<lparr>iState := EFindingLast, iBoundary := iCount ix - 1\<rparr>"
  have "going_through ?ix" by (rule start_going [OF assms(1)]) (simp_all add: plain_def)
  then have "normal_ix ((snd (last_loop U envs (iCount ix) ?ix))\<lparr>iState := ENormal\<rparr>)" by (rule end_going [OF last_loop_going [OF assms(2)]])
  then show ?thesis using normal_ixD(4) [OF assms(1)] by (simp add: LastHandle_def case_prod_beta)
qed

section \<open>The last handle\<close>

lemma last_loop_scan:
  assumes "p \<ge> 0" "iActiveCount ix \<noteq> 0" "\<And>i. max (p - EMaxLockedIter) 0 \<le> i \<Longrightarrow> i < p \<Longrightarrow> Occupant (iSlots ix ! nat i) = 0"
  shows "last_loop U [] p ix = last_loop U [] (max (p - EMaxLockedIter) 0 - 1) (ix\<lparr>iBoundary := max (p - EMaxLockedIter) 0 - 2\<rparr>)"
proof -
  have n: "filter (\<lambda>i. Occupant (iSlots ix ! nat i) \<noteq> 0) (rev [max (p - EMaxLockedIter) 0..p - 1]) = []"
    using assms(3) by (auto simp: filter_empty_conv)
  have c: "p \<ge> 0 \<and> iActiveCount ix \<noteq> 0" using assms by simp
  show ?thesis unfolding last_loop.simps [of U "[]" p ix] if_P [OF c] Let_def n list.case by (simp add: others_def)
qed

text \<open>After a chunk without a handle the loop goes on below the slot that comes next, which it never looks at.\<close>

lemma LastHandle_skips:
  assumes "iState ix \<noteq> ETerminated" "9 \<le> iCount ix" "iCount ix \<le> 17"
    "\<And>i. 0 \<le> i \<Longrightarrow> i < iCount ix \<Longrightarrow> i \<noteq> iCount ix - 9 \<Longrightarrow> Occupant (iSlots ix ! nat i) = 0"
  shows "fst (LastHandle U [] ix) = 0"
proof -
  let ?n = "iCount ix"
  let ?ix = "ix\<lparr>iState := EFindingLast, iBoundary := ?n - 1\<rparr>"
  have "fst (last_loop U [] ?n ?ix) = 0"
  proof (cases "iActiveCount ix = 0")
    case True
    then show ?thesis by (simp add: last_loop.simps [of U "[]" ?n ?ix])
  next
    case False
    let ?ix2 = "?ix\<lparr>iBoundary := ?n - 10\<rparr>"
    have l: "max (?n - 8) 0 = ?n - 8" using assms(2) by simp
    have a: "last_loop U [] ?n ?ix = last_loop U [] (?n - 9) ?ix2"
      using last_loop_scan [of ?n ?ix U] assms(2,4) False by (simp add: l)
    have l2: "max (?n - 17) 0 = 0" using assms(3) by simp
    have b: "last_loop U [] (?n - 9) ?ix2 = last_loop U [] (- 1) (?ix2\<lparr>iBoundary := - 2\<rparr>)"
      using last_loop_scan [of "?n - 9" ?ix2 U] assms(2,4) False by (simp add: l2)
    show ?thesis unfolding a b by (simp add: last_loop.simps [of U "[]" "- 1"])
  qed
  then show ?thesis using assms(1) by (simp add: LastHandle_def case_prod_beta)
qed

section \<open>Reachable indexes\<close>

text \<open>
  The indexes that the operations leave when they return, whatever other threads do between the locked
  parts of each, whatever is asked for and whether or not there is memory.
\<close>

inductive reachable :: "(TUint32 \<Rightarrow> TUint32) \<Rightarrow> RObjectIx \<Rightarrow> bool" for U :: "TUint32 \<Rightarrow> TUint32" where
  made: "gen_ok first \<Longrightarrow> reachable U (RObjectIx_ctor first)"
| adds: "\<lbrakk>reachable U ix; is_object p; list_all ok_act between; list_all ok_act wait; ok_intervals envs;
    ix_Add U heap between wait envs p a ix = (r, ix')\<rbrakk> \<Longrightarrow> reachable U ix'"
| removes: "\<lbrakk>reachable U ix; list_all ok_act between; ok_envs envs; ix_Remove U between envs h ix = Inr (r, p, x, ix')\<rbrakk> \<Longrightarrow> reachable U ix'"
| makes_reserve: "\<lbrakk>reachable U ix; ok_envs envs; list_all ok_act wait; ok_intervals copying; ok_envs envs';
    ix_Reserve U heap envs wait copying envs' n ix = Inr (r, ix')\<rbrakk> \<Longrightarrow> reachable U ix'"
| counts: "\<lbrakk>reachable U ix; ok_envs envs\<rbrakk> \<Longrightarrow> reachable U (snd (ix_Count U envs p ix))"
| finds: "\<lbrakk>reachable U ix; ok_envs envs\<rbrakk> \<Longrightarrow> reachable U (snd (ix_At_object U envs p ix))"
| finds_last: "\<lbrakk>reachable U ix; ok_envs envs\<rbrakk> \<Longrightarrow> reachable U (snd (LastHandle U envs ix))"

lemma reachable_normal: "reachable U ix \<Longrightarrow> normal_ix ix"
proof (induction rule: reachable.induct)
  case (made first)
  then show ?case using ctor_normal(1) by (auto simp: normal_ix_def)
next
  case (adds ix p between wait envs heap a r ix')
  show ?case by (rule ix_Add_ok(1) [OF adds.IH adds.hyps(2-6)])
next
  case (removes ix between envs h r p x ix')
  show ?case by (rule ix_Remove_ok [OF removes.IH removes.hyps(2,3), of U h]) (use removes.hyps(4) in simp)
next
  case (makes_reserve ix envs wait copying envs' heap n r ix')
  show ?case using ix_Reserve_cases [OF makes_reserve.IH makes_reserve.hyps(2-5), where U = U and heap = heap and n = n] makes_reserve.hyps(6) by auto
next
  case (counts ix envs p)
  show ?case by (rule ix_Count_normal [OF counts.IH counts.hyps(2)])
next
  case (finds ix envs p)
  show ?case by (rule ix_At_object_normal [OF finds.IH finds.hyps(2)])
next
  case (finds_last ix envs)
  show ?case by (rule LastHandle_normal [OF finds_last.IH finds_last.hyps(2)])
qed

end
