(* ===== verification/Objix_Props.thy ===== *)
theory Objix_Props
  imports Objix_Reach
begin

text \<open>
  The properties of the object index. \<open>one_handle\<close> is a new index after one object has been added,
  \<open>eight_reserved\<close> is the same index after eight slots have been reserved; the witnesses apply the
  properties to these two.
\<close>

section \<open>Two indexes\<close>

definition one_handle :: RObjectIx where
  "one_handle = \<lparr>iAllocated = 8, iCount = 1, iActiveCount = 1, iReservedFree = 0, iReservedTotal = 0, iReservedFreeHWM = 0,
    iFreeQ = [\<lparr>iNext = 1, iPrev = 7\<rparr>, \<lparr>iNext = -5, iPrev = -5\<rparr>, \<lparr>iNext = -4, iPrev = -4\<rparr>, \<lparr>iNext = -3, iPrev = -3\<rparr>, \<lparr>iNext = -2, iPrev = -2\<rparr>, \<lparr>iNext = -1, iPrev = -1\<rparr>],
    iSlots = [\<lparr>iNext = 0, iPrev = 0, iObjR = 4096, iAttr = 1513\<rparr>,
    \<lparr>iNext = 2, iPrev = -6, iObjR = 0, iAttr = 0\<rparr>,
    \<lparr>iNext = 3, iPrev = 1, iObjR = 0, iAttr = 0\<rparr>,
    \<lparr>iNext = 4, iPrev = 2, iObjR = 0, iAttr = 0\<rparr>,
    \<lparr>iNext = 5, iPrev = 3, iObjR = 0, iAttr = 0\<rparr>,
    \<lparr>iNext = 6, iPrev = 4, iObjR = 0, iAttr = 0\<rparr>,
    \<lparr>iNext = 7, iPrev = 5, iObjR = 0, iAttr = 0\<rparr>,
    \<lparr>iNext = -6, iPrev = 6, iObjR = 0, iAttr = 0\<rparr>],
    iAmortize = 4, iState = ENormal, iModCount = 255, iModListShift = 0, iIndex = [0, 0, 0, 0], iBitMap = [0, 0, 0, 0],
    iObj = 0, iBoundary = 0, iResult = 0, NextInstance = 1310720\<rparr>"

definition eight_reserved :: RObjectIx where
  "eight_reserved = \<lparr>iAllocated = 16, iCount = 9, iActiveCount = 1, iReservedFree = 8, iReservedTotal = 8, iReservedFreeHWM = 9,
    iFreeQ = [\<lparr>iNext = 9, iPrev = 15\<rparr>, \<lparr>iNext = -5, iPrev = -5\<rparr>, \<lparr>iNext = -4, iPrev = -4\<rparr>, \<lparr>iNext = 7, iPrev = 8\<rparr>, \<lparr>iNext = -2, iPrev = -2\<rparr>, \<lparr>iNext = -1, iPrev = -1\<rparr>],
    iSlots = [\<lparr>iNext = 0, iPrev = 0, iObjR = 4096, iAttr = 1513\<rparr>,
    \<lparr>iNext = 8, iPrev = 2, iObjR = 1, iAttr = 0\<rparr>,
    \<lparr>iNext = 1, iPrev = 3, iObjR = 1, iAttr = 0\<rparr>,
    \<lparr>iNext = 2, iPrev = 4, iObjR = 1, iAttr = 0\<rparr>,
    \<lparr>iNext = 3, iPrev = 5, iObjR = 1, iAttr = 0\<rparr>,
    \<lparr>iNext = 4, iPrev = 6, iObjR = 1, iAttr = 0\<rparr>,
    \<lparr>iNext = 5, iPrev = 7, iObjR = 1, iAttr = 0\<rparr>,
    \<lparr>iNext = 6, iPrev = -3, iObjR = 1, iAttr = 0\<rparr>,
    \<lparr>iNext = -3, iPrev = 1, iObjR = 1, iAttr = 0\<rparr>,
    \<lparr>iNext = 10, iPrev = -6, iObjR = 0, iAttr = 0\<rparr>,
    \<lparr>iNext = 11, iPrev = 9, iObjR = 0, iAttr = 0\<rparr>,
    \<lparr>iNext = 12, iPrev = 10, iObjR = 0, iAttr = 0\<rparr>,
    \<lparr>iNext = 13, iPrev = 11, iObjR = 0, iAttr = 0\<rparr>,
    \<lparr>iNext = 14, iPrev = 12, iObjR = 0, iAttr = 0\<rparr>,
    \<lparr>iNext = 15, iPrev = 13, iObjR = 0, iAttr = 0\<rparr>,
    \<lparr>iNext = -6, iPrev = 14, iObjR = 0, iAttr = 0\<rparr>],
    iAmortize = 4, iState = ENormal, iModCount = 255, iModListShift = 0, iIndex = [0, 0, 0, 0], iBitMap = [0, 0, 0, 0],
    iObj = 0, iBoundary = 0, iResult = 0, NextInstance = 1310720\<rparr>"

abbreviation (input) no_type :: "TUint32 \<Rightarrow> TUint32" where "no_type \<equiv> \<lambda>_. 0"

lemma one_handle_added: "ix_Add no_type True [] [] [] 0x1000 0 (RObjectIx_ctor 0x40000) = (99155968, one_handle)"
  by code_simp

lemma eight_slots_reserved: "ix_Reserve no_type True [] [] [] [] 8 one_handle = Inr (KErrNone, eight_reserved)"
  by code_simp

lemma is_object_1000: "is_object 0x1000" "is_object 0x2000"
  by code_simp+

lemma gen_ok_first: "gen_ok 0x40000"
  by code_simp

lemma one_handle_reachable: "reachable no_type one_handle"
  by (rule adds [OF made [OF gen_ok_first] is_object_1000(1) _ _ _ one_handle_added]) simp_all

lemma eight_reserved_reachable: "reachable no_type eight_reserved"
  by (rule makes_reserve [OF one_handle_reachable _ _ _ _ eight_slots_reserved]) simp_all

section \<open>Handles\<close>

text \<open>
  A handle gives back the index and the fourteen bits of instance value it was made from.
\<close>

theorem handle_round_trip: "0 \<le> i \<Longrightarrow> i < 32768 \<Longrightarrow> HandleIndex (MakeHandle i w) = i \<and> HandleInstance (MakeHandle i w) = w AND 0x3FFF"
  by (simp add: HandleIndex_Make HandleInstance_Make)

theorem handle_round_trip_witness: "HandleIndex (MakeHandle 5 0x12345) = 5 \<and> HandleInstance (MakeHandle 5 0x12345) = 0x2345"
  using handle_round_trip [of 5 "0x12345"] by simp

section \<open>Invariant and history\<close>

text \<open>
  C22. Every index that operations which return can leave, with any interleaving of other threads, is
  sound: the slots and the six queues form well-linked rings, each free slot is in exactly the queue of its
  kind, the counters are the numbers of slots, the unused slots come last, no reserved free slot lies beyond
  its high-water mark, and no scan or copy is pending. A Reserve on it returns such an index too, except
  that a size which wraps round at 32 bits writes outside its memory, and that giving back more reserved
  slots than the other threads leave fails an assertion.
\<close>

theorem index_reachable_sound:
  "reachable U ix \<Longrightarrow>
   (\<exists>Q. normal ix Q) \<and>
   (\<forall>heap envs wait copying envs' n. ok_envs envs \<and> list_all ok_act wait \<and> ok_intervals copying \<and> ok_envs envs' \<longrightarrow>
     (case ix_Reserve U heap envs wait copying envs' n ix of
        Inr (r, ix') \<Rightarrow> \<exists>Q. normal ix' Q
      | Inl e \<Rightarrow> e = BadMemory \<and> heap \<and> 0x7FFFFFFF < iAllocated ix + n \<or>
          e = Panic ''crash'' \<and> iReservedFree ix < takers (concat envs) + takers (concat envs') + (if n < 0 then - n else 0)))"
proof (intro conjI allI impI; (elim conjE)?)
  assume r: "reachable U ix"
  show "\<exists>Q. normal ix Q" using reachable_normal [OF r] by (simp add: normal_ix_def)
  fix heap envs wait copying envs' n
  assume "ok_envs envs" "list_all ok_act wait" "ok_intervals copying" "ok_envs envs'"
  from ix_Reserve_cases [OF reachable_normal [OF r] this, where U = U and heap = heap and n = n]
  show "case ix_Reserve U heap envs wait copying envs' n ix of
        Inr (r, ix') \<Rightarrow> \<exists>Q. normal ix' Q
      | Inl e \<Rightarrow> e = BadMemory \<and> heap \<and> 0x7FFFFFFF < iAllocated ix + n \<or>
          e = Panic ''crash'' \<and> iReservedFree ix < takers (concat envs) + takers (concat envs') + (if n < 0 then - n else 0)"
    by (elim disjE exE conjE) (simp_all add: normal_ix_def)
qed

theorem index_reachable_sound_witness:
  "(\<exists>Q. normal eight_reserved Q) \<and> iReservedFree eight_reserved = 8 \<and>
   (\<exists>r ix' Q. ix_Reserve no_type True [[ActAdd 0x2000 EReserved]] [] [] [] 3 eight_reserved = Inr (r, ix') \<and> normal ix' Q)"
proof -
  note A = index_reachable_sound [OF eight_reserved_reachable]
  have o: "ok_envs [[ActAdd 0x2000 EReserved]]" using is_object_1000 by simp
  show ?thesis
    using A [THEN conjunct1] A [THEN conjunct2, rule_format, of "[[ActAdd 0x2000 EReserved]]" "[]" "[]" "[]" True 3] o
    by (auto simp: eight_reserved_def split: sum.splits prod.splits)
qed

text \<open>
  C23. Any sequence of additions and removals by running threads is served one by one as a table from
  handles to objects with a stock of reserved slots serves them: a new handle is positive and its index is
  that of no other handle, a removed handle is gone, a bad handle changes nothing, and a failed addition
  changes nothing and, when it was for a reserved handle, means that no reserved slot was free. A look-up finds what that table holds.
\<close>

theorem index_handles_history:
  "reachable U ix \<Longrightarrow> list_all ok_act acts \<Longrightarrow>
    served_all acts (abs_ix ix) (abs_ix (fold (run_act U) acts ix)) \<and>
    (\<forall>h. At_attr h 0 (fold (run_act U) acts ix) = (case fst (abs_ix (fold (run_act U) acts ix)) (key h) of None \<Rightarrow> (0, 0) | Some e \<Rightarrow> e))"
  using normal_acts_scanned(2) [OF reachable_normal] by (simp add: abs_ix_def at_slot_hmap)

theorem index_handles_history_witness:
  "served_all [ActAdd 0x2000 0, ActRemove 99155968] (abs_ix one_handle) (abs_ix (fold (run_act no_type) [ActAdd 0x2000 0, ActRemove 99155968] one_handle))"
  using index_handles_history [OF one_handle_reachable, of "[ActAdd 0x2000 0, ActRemove 99155968]"] is_object_1000 by simp

section \<open>Whole operations\<close>

text \<open>
  C24. Add, the table grown and copied if need be while other threads add and remove handles between the
  locked parts of the copy, adds the object after some first part of their actions, loses none of them,
  and fails only for a reserved handle without a reserved slot, for want of memory or at the maximum size.
\<close>

theorem index_Add_while_growing:
  "reachable U ix \<Longrightarrow> is_object p \<Longrightarrow> list_all ok_act between \<Longrightarrow> list_all ok_act wait \<Longrightarrow> ok_intervals envs \<Longrightarrow>
   ix_Add U heap between wait envs p a ix = (r, ix') \<Longrightarrow>
   (\<exists>acts s. prefix acts (between @ wait @ concat (map fst envs)) \<and> served_all acts (abs_ix ix) s \<and> served (ActAdd p a) r s (abs_ix ix')) \<and>
   (r > 0 \<or> r = KErrNoMemory \<and> (a AND EReserved \<noteq> 0 \<or> \<not> heap \<or> iAllocated ix = EMaxSlots))"
  using ix_Add_ok(2,3) [OF reachable_normal, of U ix p between wait envs U heap a r ix'] by blast

theorem index_Add_while_growing_witness:
  "\<exists>acts s. prefix acts [] \<and> served_all acts (abs_ix (RObjectIx_ctor 0x40000)) s \<and> served (ActAdd 0x1000 0) 99155968 s (abs_ix one_handle)"
  using index_Add_while_growing [OF made [OF gen_ok_first] is_object_1000(1) _ _ _ one_handle_added] by simp

text \<open>
  C26. Remove never faults: it takes the handle out, or refuses a bad one and changes nothing; the compaction
  that may follow serves the other threads' actions and leaves every other handle.
\<close>

theorem index_Remove_removes:
  "reachable U ix \<Longrightarrow> list_all ok_act between \<Longrightarrow> ok_envs envs \<Longrightarrow>
   \<exists>r p x ix'. ix_Remove U between envs h ix = Inr (r, p, x, ix') \<and> normal_ix ix' \<and>
    (hmap ix (key h) = Some (p, x) \<and> r = KErrNone \<or> hmap ix (key h) = None \<and> r = KErrBadHandle \<and> ix' = ix) \<and>
    (\<exists>acts s. prefix acts (between @ concat envs) \<and> served (ActRemove h) r (abs_ix ix) s \<and> served_all acts s (abs_ix ix'))"
  by (rule ix_Remove_ok [OF reachable_normal, of U ix between envs U h]) auto

theorem index_Remove_removes_witness:
  "\<exists>r p x ix'. ix_Remove no_type [ActAdd 0x2000 0] [[]] 99155968 one_handle = Inr (r, p, x, ix') \<and> normal_ix ix'"
  using index_Remove_removes [OF one_handle_reachable, of "[ActAdd 0x2000 0]" "[[]]" 99155968] is_object_1000(2) by (auto simp: list_all_iff)

text \<open>
  C27. Reserve changes the stock of reserved slots by exactly the number asked for, or there is no memory and
  it is as before, whatever other threads do meanwhile, as long as they do not use up the slots that were
  free before and the number does not wrap the size round; it never faults then.
\<close>

theorem index_Reserve_all_or_nothing:
  "reachable U ix \<Longrightarrow> ok_envs envs \<Longrightarrow> list_all ok_act wait \<Longrightarrow> ok_intervals copying \<Longrightarrow> ok_envs envs' \<Longrightarrow>
   takers (concat envs) + takers (concat envs') + (if n < 0 then - n else 0) \<le> iReservedFree ix \<Longrightarrow> iAllocated ix + n \<le> 0x7FFFFFFF \<Longrightarrow>
   \<exists>r ix' acts. ix_Reserve U heap envs wait copying envs' n ix = Inr (r, ix') \<and> normal_ix ix' \<and>
    (r = KErrNone \<and> changed acts n (abs_ix ix) (abs_ix ix') \<or>
     r = KErrNoMemory \<and> changed acts 0 (abs_ix ix) (abs_ix ix') \<and> 0 < n \<and> (\<not> heap \<or> EMaxSlots < iAllocated ix + n)) \<and>
    set acts \<subseteq> set (concat envs @ wait @ concat (map fst copying) @ concat envs')"
  by (rule ix_Reserve_ok [OF reachable_normal, of U ix envs wait copying envs' n U heap]) auto

theorem index_Reserve_all_or_nothing_witness:
  "\<exists>ix'. ix_Reserve no_type True [] [] [] [] (- 3) eight_reserved = Inr (KErrNone, ix') \<and> changed [] (- 3) (abs_ix eight_reserved) (abs_ix ix')"
proof -
  have "iReservedFree eight_reserved = 8" "iAllocated eight_reserved = 16" by (simp_all add: eight_reserved_def)
  then obtain r ix' acts where "ix_Reserve no_type True [] [] [] [] (- 3) eight_reserved = Inr (r, ix')"
      "r = KErrNone \<and> changed acts (- 3) (abs_ix eight_reserved) (abs_ix ix')" "set acts \<subseteq> set []"
    using index_Reserve_all_or_nothing [OF eight_reserved_reachable, where envs = "[]" and wait = "[]" and copying = "[]" and envs' = "[]" and n = "- 3" and heap = True]
    by auto
  then show ?thesis by simp
qed

text \<open>
  C28. A handle with the reserved attribute can always be added while a reserved slot is free, without any
  memory and in one locked step.
\<close>

theorem reserved_handle_added:
  "reachable U ix \<Longrightarrow> is_object p \<Longrightarrow> 0 < iReservedFree ix \<Longrightarrow> a AND EReserved \<noteq> 0 \<Longrightarrow>
   fst (ix_Add U False between wait envs p a ix) > 0 \<and> iReservedFree (snd (ix_Add U False between wait envs p a ix)) = iReservedFree ix - 1"
proof -
  assume a: "reachable U ix" "is_object p" "0 < iReservedFree ix" "a AND EReserved \<noteq> 0"
  obtain r d ix1 where d: "DoAdd U p a ix = (r, d, ix1)" by (cases "DoAdd U p a ix")
  have "served (ActAdd p a) r (abs_ix ix) (abs_ix ix1)" by (rule DoAdd_normal(2) [OF reachable_normal [OF a(1)] a(2) d])
  then have "r > 0 \<and> iReservedFree ix1 = iReservedFree ix - 1"
    using a(3,4) reserved_iff [of a] by (auto elim!: served_addE simp: abs_ix_def)
  then show ?thesis using d a(4) by (simp add: ix_Add_def)
qed

theorem reserved_handle_added_witness: "fst (ix_Add no_type False [] [] [] 0x2000 0x80000000 eight_reserved) > 0"
  using reserved_handle_added [OF eight_reserved_reachable is_object_1000(2), of "0x80000000" "[]" "[]" "[]"] by (simp add: eight_reserved_def)

text \<open>
  Giving back more reserved slots than are free stops the kernel: the loop goes below the first slot and
  its assertion fails.
\<close>

theorem unreserving_too_many_faults:
  "reachable U ix \<Longrightarrow> n < 0 \<Longrightarrow> iReservedFree ix < - n \<Longrightarrow> ix_Reserve U heap [] wait copying envs' n ix = Inl (Panic ''crash'')"
  using UnReserveSlots_too_many [OF reachable_normal, of U ix "nat (- n)" U True] normal_ixD(4) [OF reachable_normal, of U ix]
  by (simp add: ix_Reserve_def)

theorem unreserving_too_many_faults_witness: "ix_Reserve no_type True [] [] [] [] (- 9) eight_reserved = Inl (Panic ''crash'')"
  using unreserving_too_many_faults [OF eight_reserved_reachable, of "- 9"] by (simp add: eight_reserved_def)

text \<open>
  C25. TidyAndCompact never faults and always ends; it serves the other threads' actions and changes no
  handle, leaves a sound index whose table is less than half unused unless it has fewer than sixteen slots,
  and, when nothing runs meanwhile, both queues of free slots in ascending order.
\<close>

theorem TidyAndCompact_tidies:
  "reachable U ix \<Longrightarrow> ok_envs envs \<Longrightarrow> alone \<longrightarrow> concat envs = [] \<Longrightarrow>
   \<exists>ix'. TidyAndCompact U envs ix = Inr ix' \<and> compacted alone ix' \<and> iAllocated ix' \<le> iAllocated ix \<and>
     (\<exists>k. served_all (concat (take k envs)) (abs_ix ix) (abs_ix ix'))"
  by (rule TidyAndCompact_ok [OF reachable_normal, of U ix envs alone U]) (auto simp: scanned_def)

theorem TidyAndCompact_tidies_witness: "\<exists>ix'. TidyAndCompact no_type [[]] eight_reserved = Inr ix' \<and> compacted True ix'"
  using TidyAndCompact_tidies [OF eight_reserved_reachable, of "[[]]" True] by (auto simp: list_all_iff)

text \<open>
  C32. The first result of DoRemove, which is to ask for a compaction when the amortising count comes down to
  zero, is 1 only when the removal leaves an index without handles and reserved slots: the count stops at 1.
\<close>

theorem compaction_only_when_empty:
  "reachable U ix \<Longrightarrow> DoRemove h ix = (1, p, x, ix') \<Longrightarrow> iActiveCount ix = 1 \<and> iReservedTotal ix = 0 \<and> hmap ix (key h) = Some (p, x)"
  using DoRemove_normal(4,5) [OF reachable_normal] by fastforce

theorem compaction_only_when_empty_witness:
  "\<exists>p x ix'. DoRemove 99155968 one_handle = (1, p, x, ix') \<and> iActiveCount one_handle = 1"
proof -
  have d: "DoRemove 99155968 one_handle = (1, 0x1000, 0, snd (snd (snd (DoRemove 99155968 one_handle))))" by code_simp
  show ?thesis using compaction_only_when_empty [OF one_handle_reachable d] d by blast
qed

section \<open>Going through the table\<close>

text \<open>
  C29. Count is exact under any additions and removals between its locked chunks: the result is the number of
  handles of the object at the moment the count ends.
\<close>

theorem index_Count_exact:
  "reachable U ix \<Longrightarrow> is_object p \<Longrightarrow> ok_envs envs \<Longrightarrow> ix_Count U envs p ix = (n, ix') \<Longrightarrow>
   n = int (handles_of p (hmap ix')) \<and> (\<exists>k. served_all (concat (take k envs)) (abs_ix ix) (abs_ix ix')) \<and> normal_ix ix'"
  using ix_Count_exact(1,2) [where U = U and ix = ix and p = p and envs = envs] ix_Count_normal [where U = U and ix = ix and p = p and envs = envs]
    normal_ixD(2-4) [OF reachable_normal, of U ix] reachable_normal [of U ix] by (simp add: scanned_def)

theorem index_Count_exact_witness: "fst (ix_Count no_type [[ActAdd 0x1000 0]] 0x1000 one_handle) =
    int (handles_of 0x1000 (hmap (snd (ix_Count no_type [[ActAdd 0x1000 0]] 0x1000 one_handle))))"
  using index_Count_exact [OF one_handle_reachable is_object_1000(1), of "[[ActAdd 0x1000 0]]"] is_object_1000(1)
  by (cases "ix_Count no_type [[ActAdd 0x1000 0]] 0x1000 one_handle") simp

text \<open>
  C30. At with an object finds a live handle of it if there is one when the search ends, also one added behind
  the search while it ran, and otherwise reports KErrNotFound.
\<close>

theorem index_At_finds:
  "reachable U ix \<Longrightarrow> is_object p \<Longrightarrow> ok_envs envs \<Longrightarrow> ix_At_object U envs p ix = (h, ix') \<Longrightarrow>
   h = KErrNotFound \<and> handles_of p (hmap ix') = 0 \<or> h > 0 \<and> (\<exists>x. hmap ix' (key h) = Some (p, x))"
  using ix_At_object_exact(1) [OF normal_ixD(3,4,2) [OF reachable_normal [of U ix]], of p envs U h ix'] by blast

theorem index_At_finds_witness:
  "fst (ix_At_object no_type [] 0x1000 one_handle) = 99155968 \<and> (\<exists>x. hmap (snd (ix_At_object no_type [] 0x1000 one_handle)) (key 99155968) = Some (0x1000, x))"
proof -
  have e: "ix_At_object no_type [] 0x1000 one_handle = (99155968, snd (ix_At_object no_type [] 0x1000 one_handle))" by code_simp
  have f: "fst (ix_At_object no_type [] 0x1000 one_handle) = 99155968" by (subst e) simp
  then show ?thesis using index_At_finds [OF one_handle_reachable is_object_1000(1) _ e] by simp
qed

text \<open>
  C31. LastHandle misses handles: after each chunk of eight slots without one it goes on below the slot that
  comes next. An index whose only handle is in the ninth slot from its end has, for LastHandle, none.
\<close>

theorem LastHandle_misses:
  "reachable U ix \<Longrightarrow> 9 \<le> iCount ix \<Longrightarrow> iCount ix \<le> 17 \<Longrightarrow>
   (\<And>i. 0 \<le> i \<Longrightarrow> i < iCount ix \<Longrightarrow> i \<noteq> iCount ix - 9 \<Longrightarrow> Occupant (iSlots ix ! nat i) = 0) \<Longrightarrow> fst (LastHandle U [] ix) = 0"
  using normal_ixD(4) [OF reachable_normal, of U ix] by (intro LastHandle_skips) simp_all

theorem LastHandle_misses_witness: "At_attr 99155968 0 eight_reserved = (0x1000, 0) \<and> fst (LastHandle no_type [] eight_reserved) = 0"
proof
  show "At_attr 99155968 0 eight_reserved = (0x1000, 0)" by code_simp
  have c: "iCount eight_reserved = 9" by (simp add: eight_reserved_def)
  have "list_all (\<lambda>k. Occupant (iSlots eight_reserved ! k) = 0) [1..<9]" by code_simp
  then have "Occupant (iSlots eight_reserved ! nat i) = 0" if "0 \<le> i" "i < 9" "i \<noteq> 0" for i
  proof -
    have "nat i \<in> set [1..<9]" using that by (simp add: nat_less_iff)
    then show ?thesis using \<open>list_all _ _\<close> by (simp add: list_all_iff)
  qed
  then show "fst (LastHandle no_type [] eight_reserved) = 0" using LastHandle_misses [OF eight_reserved_reachable] c by simp
qed

end
