(* ===== verification/Regn.thy ===== *)
theory Regn
  imports Prelude
begin

text \<open>
  The regions of the user library, \<^verbatim>\<open>kernel/eka/euser/us_regn.cpp\<close> (classes \<open>TRegion\<close>,
  \<open>RRegion\<close>, \<open>RRegionBuf\<close> and \<open>TRegionFix\<close>), and the operations on rectangles they use
  (\<^verbatim>\<open>us_graph.cpp\<close>). A region is an area of the plane, kept as a list of rectangles, in memory that
  is fixed, a buffer that may move to the heap, or on the heap.
\<close>

section \<open>Points and rectangles\<close>

record TPoint =
  iX :: int
  iY :: int

record TRect =
  iTl :: TPoint
  iBr :: TPoint

definition mk_rect :: "int \<Rightarrow> int \<Rightarrow> int \<Rightarrow> int \<Rightarrow> TRect" where
  "mk_rect aAx aAy aBx aBy = \<lparr>iTl = \<lparr>iX = aAx, iY = aAy\<rparr>, iBr = \<lparr>iX = aBx, iY = aBy\<rparr>\<rparr>"

definition rect_IsEmpty :: "TRect \<Rightarrow> bool" where
  "rect_IsEmpty r \<longleftrightarrow> iX (iTl r) \<ge> iX (iBr r) \<or> iY (iTl r) \<ge> iY (iBr r)"

definition rect_Intersection :: "TRect \<Rightarrow> TRect \<Rightarrow> TRect" where
  "rect_Intersection r aRect = mk_rect
     (if iX (iTl r) < iX (iTl aRect) then iX (iTl aRect) else iX (iTl r))
     (if iY (iTl r) < iY (iTl aRect) then iY (iTl aRect) else iY (iTl r))
     (if iX (iBr r) > iX (iBr aRect) then iX (iBr aRect) else iX (iBr r))
     (if iY (iBr r) > iY (iBr aRect) then iY (iBr aRect) else iY (iBr r))"

definition rect_Intersects :: "TRect \<Rightarrow> TRect \<Rightarrow> bool" where
  "rect_Intersects r aRect \<longleftrightarrow>
     \<not> (rect_IsEmpty r \<or> rect_IsEmpty aRect \<or> iX (iBr r) \<le> iX (iTl aRect) \<or> iY (iBr r) \<le> iY (iTl aRect) \<or>
        iX (iTl r) \<ge> iX (iBr aRect) \<or> iY (iTl r) \<ge> iY (iBr aRect))"

definition rect_Contains :: "TRect \<Rightarrow> TPoint \<Rightarrow> bool" where
  "rect_Contains r aPoint \<longleftrightarrow>
     \<not> (iX aPoint < iX (iTl r) \<or> iX aPoint \<ge> iX (iBr r) \<or> iY aPoint < iY (iTl r) \<or> iY aPoint \<ge> iY (iBr r))"

definition point_add :: "TPoint \<Rightarrow> TPoint \<Rightarrow> TPoint" where
  "point_add p q = \<lparr>iX = to_TInt (iX p + iX q), iY = to_TInt (iY p + iY q)\<rparr>"

definition rect_Move :: "TPoint \<Rightarrow> TRect \<Rightarrow> TRect" where
  "rect_Move aOffset r = \<lparr>iTl = point_add (iTl r) aOffset, iBr = point_add (iBr r) aOffset\<rparr>"

section \<open>Regions\<close>

text \<open>
  \<open>iRects\<close> are the first \<open>iCount\<close> rectangles of the list, wherever it is.
  \<open>iAllocedRects\<close> is the number of rectangles the list on the heap has room for; negative, it is
  minus the room of a fixed region, and with \<open>ERRegionBuf\<close> clear minus the room of a buffer.
\<close>

record TRegion =
  iRects :: "TRect list"
  iError :: bool
  iAllocedRects :: int
  iGranularity :: int

abbreviation iCount :: "TRegion \<Rightarrow> int" where "iCount g \<equiv> int (length (iRects g))"

abbreviation (input) ERRegionBuf :: int where "ERRegionBuf \<equiv> 0x40000000"
abbreviation (input) EDefaultGranularity :: int where "EDefaultGranularity \<equiv> 5"
abbreviation (input) ERegionBufSize :: int where "ERegionBufSize \<equiv> 8"

definition TRegion_ctor :: "int \<Rightarrow> int \<Rightarrow> TRegion" where
  "TRegion_ctor aAllocedRects aGran = \<lparr>iRects = [], iError = False, iAllocedRects = aAllocedRects, iGranularity = aGran\<rparr>"

definition RRegion_ctor :: "int \<Rightarrow> TRegion" where
  "RRegion_ctor aGran = TRegion_ctor 0 aGran"

definition TRegionFix_ctor :: "int \<Rightarrow> TRegion" where
  "TRegionFix_ctor S = TRegion_ctor (- S) 0"

definition RRegionBuf_ctor :: "int \<Rightarrow> TRegion" where
  "RRegionBuf_ctor S = TRegion_ctor (- S AND NOT ERRegionBuf) S"

definition region_IsEmpty :: "TRegion \<Rightarrow> bool" where
  "region_IsEmpty g \<longleftrightarrow> iCount g = 0 \<and> \<not> iError g"

definition BoundingRect :: "TRegion \<Rightarrow> TRect" where
  "BoundingRect g =
     (case iRects g of
        [] \<Rightarrow> mk_rect 0 0 0 0
      | r # rs \<Rightarrow> fold (\<lambda>p b. mk_rect
            (if iX (iTl p) < iX (iTl b) then iX (iTl p) else iX (iTl b))
            (if iY (iTl p) < iY (iTl b) then iY (iTl p) else iY (iTl b))
            (if iX (iBr p) > iX (iBr b) then iX (iBr p) else iX (iBr b))
            (if iY (iBr p) > iY (iBr b) then iY (iBr p) else iY (iBr b))) rs r)"

definition region_at :: "TRegion \<Rightarrow> int \<Rightarrow> fault + TRect" where
  "region_at g aIndex =
     (if to_TUint aIndex < iCount g then Inr (iRects g ! nat aIndex) else Inl (Panic ''ETRegionOutOfRange''))"

fun contained_loop :: "TRect \<Rightarrow> TRect list \<Rightarrow> bool" where
  "contained_loop aRect [] = True"
| "contained_loop aRect (p # ps) =
     (if iX (iTl p) < iX (iTl aRect) \<or> iX (iBr p) > iX (iBr aRect) \<or> iY (iTl p) < iY (iTl aRect) \<or> iY (iBr p) > iY (iBr aRect)
      then False else contained_loop aRect ps)"

definition IsContainedBy :: "TRegion \<Rightarrow> TRect \<Rightarrow> bool" where
  "IsContainedBy g aRect = contained_loop aRect (iRects g)"

definition region_Intersects :: "TRegion \<Rightarrow> TRect \<Rightarrow> bool" where
  "region_Intersects g aRect = list_ex (rect_Intersects aRect) (iRects g)"

definition region_Contains :: "TRegion \<Rightarrow> TPoint \<Rightarrow> bool" where
  "region_Contains g aPoint = list_ex (\<lambda>r. rect_Contains r aPoint) (iRects g)"

definition region_Offset :: "TPoint \<Rightarrow> TRegion \<Rightarrow> TRegion" where
  "region_Offset aOffset g = g\<lparr>iRects := map (rect_Move aOffset) (iRects g)\<rparr>"

section \<open>Memory\<close>

text \<open>
  \<open>heap n\<close> says whether a request for the memory of \<open>n\<close> rectangles succeeds.
\<close>

definition region_Clear :: "TRegion \<Rightarrow> TRegion" where
  "region_Clear g =
     g\<lparr>iAllocedRects := (if iAllocedRects g \<ge> 0 then 0 else iAllocedRects g), iRects := [], iError := False\<rparr>"

definition ForceError :: "TRegion \<Rightarrow> TRegion" where
  "ForceError g = (region_Clear g)\<lparr>iError := True\<rparr>"

definition SetListSize :: "(nat \<Rightarrow> bool) \<Rightarrow> int \<Rightarrow> TRegion \<Rightarrow> bool \<times> TRegion" where
  "SetListSize heap aCount g =
     (let alloc = (\<lambda>newAlloc.
            if newAlloc > 0
            then if heap (nat newAlloc) then (True, g\<lparr>iAllocedRects := newAlloc\<rparr>) else (False, ForceError g)
            else (True, g))
      in if iAllocedRects g < 0
         then if aCount > - (iAllocedRects g OR ERRegionBuf)
              then if iAllocedRects g AND ERRegionBuf \<noteq> 0 then (False, ForceError g)
                   else alloc (max aCount (iGranularity g))
              else alloc 0
         else if aCount > iAllocedRects g then alloc (max aCount (iAllocedRects g + iGranularity g))
         else alloc 0)"

definition ExpandRegion :: "(nat \<Rightarrow> bool) \<Rightarrow> int \<Rightarrow> TRegion \<Rightarrow> bool \<times> TRegion" where
  "ExpandRegion heap aCount g =
     (if iError g then (False, g)
      else if iAllocedRects g AND ERRegionBuf \<noteq> 0
      then if aCount > - iAllocedRects g then (False, ForceError g) else (True, g)
      else if iAllocedRects g < 0
      then if aCount > - (iAllocedRects g OR ERRegionBuf)
           then let newCount = max aCount (iCount g + iGranularity g)
                in if heap (nat newCount) then (True, g\<lparr>iAllocedRects := newCount\<rparr>) else (False, ForceError g)
           else (True, g)
      else if iAllocedRects g < aCount
      then let newCount = max aCount (iAllocedRects g + iGranularity g)
           in if heap (nat newCount) then (True, g\<lparr>iAllocedRects := newCount\<rparr>) else (False, ForceError g)
      else (True, g))"

definition ShrinkRegion :: "(nat \<Rightarrow> bool) \<Rightarrow> TRegion \<Rightarrow> TRegion" where
  "ShrinkRegion heap g =
     (if iAllocedRects g \<ge> iCount g + iGranularity g
      then if iCount g = 0 then g\<lparr>iAllocedRects := 0\<rparr>
           else if heap (length (iRects g)) then g\<lparr>iAllocedRects := iCount g\<rparr> else ForceError g
      else g)"

text \<open>The end of several operations: give back what is no longer needed.\<close>

definition release_spare :: "(nat \<Rightarrow> bool) \<Rightarrow> TRegion \<Rightarrow> TRegion" where
  "release_spare heap g = (if \<not> iError g \<and> iAllocedRects g > iCount g then ShrinkRegion heap g else g)"

definition AppendRect :: "(nat \<Rightarrow> bool) \<Rightarrow> TRect \<Rightarrow> TRegion \<Rightarrow> TRegion" where
  "AppendRect heap aRect g =
     (case ExpandRegion heap (iCount g + 1) g of
        (True, g') \<Rightarrow> g'\<lparr>iRects := iRects g' @ [aRect]\<rparr>
      | (False, g') \<Rightarrow> g')"

definition RRegion_rect_ctor :: "(nat \<Rightarrow> bool) \<Rightarrow> TRect \<Rightarrow> int \<Rightarrow> TRegion" where
  "RRegion_rect_ctor heap aRect aGran =
     (let g = RRegion_ctor aGran in if \<not> rect_IsEmpty aRect then AppendRect heap aRect g else g)"

definition DeleteRect :: "nat \<Rightarrow> TRegion \<Rightarrow> TRegion" where
  "DeleteRect i g = g\<lparr>iRects := take i (iRects g) @ drop (Suc i) (iRects g)\<rparr>"

definition region_Copy :: "(nat \<Rightarrow> bool) \<Rightarrow> TRegion \<Rightarrow> TRegion \<Rightarrow> TRegion" where
  "region_Copy heap aRegion g =
     (if iError aRegion then ForceError g
      else if iCount aRegion = 0 then region_Clear g
      else
        let g1 = (if iError g then region_Clear g else g)
        in case SetListSize heap (iCount aRegion) g1 of
             (True, g2) \<Rightarrow> g2\<lparr>iRects := iRects aRegion\<rparr>
           | (False, g2) \<Rightarrow> g2)"

section \<open>Adding and removing rectangles\<close>

text \<open>The test that two rectangles have points in common, when neither is empty.\<close>

definition overlaps :: "TRect \<Rightarrow> TRect \<Rightarrow> bool" where
  "overlaps p aRect \<longleftrightarrow>
     iX (iBr p) > iX (iTl aRect) \<and> iY (iBr p) > iY (iTl aRect) \<and> iX (iTl p) < iX (iBr aRect) \<and> iY (iTl p) < iY (iBr aRect)"

text \<open>What is left of \<open>rect\<close> around \<open>sect\<close>, in the order it is appended.\<close>

definition cut_pieces :: "TRect \<Rightarrow> TRect \<Rightarrow> TRect list" where
  "cut_pieces rect sect =
     (if iY (iBr sect) \<noteq> iY (iBr rect) then [mk_rect (iX (iTl rect)) (iY (iBr sect)) (iX (iBr rect)) (iY (iBr rect))] else []) @
     (if iY (iTl sect) \<noteq> iY (iTl rect) then [mk_rect (iX (iTl rect)) (iY (iTl rect)) (iX (iBr rect)) (iY (iTl sect))] else []) @
     (if iX (iBr sect) \<noteq> iX (iBr rect) then [mk_rect (iX (iBr sect)) (iY (iTl sect)) (iX (iBr rect)) (iY (iBr sect))] else []) @
     (if iX (iTl sect) \<noteq> iX (iTl rect) then [mk_rect (iX (iTl rect)) (iY (iTl sect)) (iX (iTl sect)) (iY (iBr sect))] else [])"

text \<open>
  The loop shared by \<open>SubRect\<close> and \<open>MergeRect\<close>: every rectangle from \<open>index\<close> up to
  \<open>limit\<close> that overlaps \<open>aRect\<close> is replaced by what is left of it. \<open>SubRect\<close> hands the
  part removed to another region, if there is one, with \<open>add\<close>.
\<close>

function cut_loop ::
    "(TRect \<Rightarrow> TRegion \<Rightarrow> TRegion) \<Rightarrow> (nat \<Rightarrow> bool) \<Rightarrow> TRect \<Rightarrow> nat \<Rightarrow> nat \<Rightarrow> TRegion \<Rightarrow> TRegion option \<Rightarrow> TRegion \<times> TRegion option" where
  "cut_loop add heap aRect index limit g sub =
     (if index < limit
      then
        let rect = iRects g ! index
        in if overlaps rect aRect
           then
             let sect = rect_Intersection aRect rect;
                 g1 = fold (AppendRect heap) (cut_pieces rect sect) (DeleteRect index g)
             in if iError g1 then (g1, sub)
                else cut_loop add heap aRect index (limit - 1) g1 (map_option (add sect) sub)
           else cut_loop add heap aRect (Suc index) limit g sub
      else (g, sub))"
  by pat_completeness auto
termination by (relation "measure (\<lambda>(add, heap, a, index, limit, g, sub). limit - index)") auto

declare cut_loop.simps [simp del]

function covered_loop :: "TRect \<Rightarrow> TRect list \<Rightarrow> nat \<Rightarrow> nat \<Rightarrow> bool \<times> nat" where
  "covered_loop aRect rs index limit =
     (if index < limit
      then
        let p = rs ! index
        in if \<not> overlaps p aRect then covered_loop aRect rs (Suc index) limit
           else (iX (iBr p) \<ge> iX (iBr aRect) \<and> iY (iBr p) \<ge> iY (iBr aRect) \<and> iX (iTl p) \<le> iX (iTl aRect) \<and> iY (iTl p) \<le> iY (iTl aRect), index)
      else (False, index))"
  by pat_completeness auto
termination by (relation "measure (\<lambda>(a, rs, index, limit). limit - index)") auto

declare covered_loop.simps [simp del]

definition MergeRect :: "(nat \<Rightarrow> bool) \<Rightarrow> TRect \<Rightarrow> bool \<Rightarrow> TRegion \<Rightarrow> TRegion" where
  "MergeRect heap aRect aCovered g =
     (let limit = length (iRects g);
          (found, index) = (if aCovered then covered_loop aRect (iRects g) 0 limit else (False, 0))
      in if found then g
         else
           let g1 = fst (cut_loop (\<lambda>_ s. s) heap aRect index limit g None)
           in if iError g1 then g1 else AppendRect heap aRect g1)"

definition AddRect :: "(nat \<Rightarrow> bool) \<Rightarrow> TRect \<Rightarrow> TRegion \<Rightarrow> TRegion" where
  "AddRect heap aRect g =
     (if \<not> rect_IsEmpty aRect \<and> \<not> iError g
      then release_spare heap
        (if iCount g > 0
         then
           let regRect = BoundingRect g; sect = rect_Intersection aRect regRect
           in if \<not> rect_IsEmpty sect
              then if sect = regRect then AppendRect heap aRect (g\<lparr>iRects := []\<rparr>)
                   else MergeRect heap aRect (sect = aRect) g
              else AppendRect heap aRect g
         else AppendRect heap aRect g)
      else g)"

definition SubRect :: "(nat \<Rightarrow> bool) \<Rightarrow> TRect \<Rightarrow> TRegion \<Rightarrow> TRegion option \<Rightarrow> TRegion \<times> TRegion option" where
  "SubRect heap aRect g sub =
     (if rect_IsEmpty aRect then (g, sub)
      else cut_loop (AddRect heap) heap aRect 0 (length (iRects g)) g sub)"

section \<open>Regions with regions\<close>

fun subtract_loop :: "(nat \<Rightarrow> bool) \<Rightarrow> TRect list \<Rightarrow> TRegion \<Rightarrow> TRegion option \<Rightarrow> TRegion \<times> TRegion option" where
  "subtract_loop heap [] g sub = (g, sub)"
| "subtract_loop heap (p # ps) g sub =
     (if \<not> iError g then case SubRect heap p g sub of (g', sub') \<Rightarrow> subtract_loop heap ps g' sub' else (g, sub))"

definition SubtractRegion :: "(nat \<Rightarrow> bool) \<Rightarrow> TRegion \<Rightarrow> TRegion \<Rightarrow> TRegion option \<Rightarrow> TRegion \<times> TRegion option" where
  "SubtractRegion heap aRegion g sub =
     (if \<not> iError g
      then if iError aRegion then (ForceError g, sub)
           else if iCount g \<noteq> 0
           then case subtract_loop heap (iRects aRegion) g sub of
                  (g', sub') \<Rightarrow> (g', if iError g' then map_option ForceError sub' else sub')
           else (g, sub)
      else (g, sub))"

definition SubRegion :: "(nat \<Rightarrow> bool) \<Rightarrow> TRegion \<Rightarrow> TRegion \<Rightarrow> TRegion option \<Rightarrow> TRegion \<times> TRegion option" where
  "SubRegion heap aRegion g sub =
     (case SubtractRegion heap aRegion g sub of (g', sub') \<Rightarrow> (release_spare heap g', sub'))"

text \<open>\<open>AppendRegion\<close> changes both regions: this one and the argument.\<close>

definition AppendRegion :: "(nat \<Rightarrow> bool) \<Rightarrow> TRegion \<Rightarrow> TRegion \<Rightarrow> TRegion \<times> TRegion" where
  "AppendRegion heap aRegion g =
     (let a = fst (SubtractRegion heap g aRegion None)
      in if iError a then (ForceError g, a)
         else if iCount a > 0
         then case ExpandRegion heap (iCount g + iCount a) g of
                (True, g') \<Rightarrow> (g'\<lparr>iRects := iRects g' @ iRects a\<rparr>, a)
              | (False, g') \<Rightarrow> (g', a)
         else (g, a))"

definition region_Union :: "(nat \<Rightarrow> bool) \<Rightarrow> TRegion \<Rightarrow> TRegion \<Rightarrow> TRegion" where
  "region_Union heap aRegion g =
     (if iError aRegion then ForceError g
      else if \<not> iError g \<and> iCount aRegion \<noteq> 0
      then if iCount g = 0 then region_Copy heap aRegion g
           else
             let temp = region_Copy heap aRegion (RRegionBuf_ctor ERegionBufSize)
             in if iCount temp > iCount g then region_Copy heap (fst (AppendRegion heap g temp)) (snd (AppendRegion heap g temp))
                else fst (AppendRegion heap temp g)
      else g)"

definition region_Intersection :: "(nat \<Rightarrow> bool) \<Rightarrow> TRegion \<Rightarrow> TRegion \<Rightarrow> TRegion \<Rightarrow> TRegion" where
  "region_Intersection heap aRegion1 aRegion2 g =
     (if iError aRegion1 \<or> iError aRegion2 then ForceError g
      else fold (\<lambda>p1. fold (\<lambda>p2 g. if overlaps p1 p2 then AppendRect heap (rect_Intersection p2 p1) g else g) (iRects aRegion2))
             (iRects aRegion1) (g\<lparr>iRects := []\<rparr>))"

definition region_Intersect :: "(nat \<Rightarrow> bool) \<Rightarrow> TRegion \<Rightarrow> TRegion \<Rightarrow> TRegion" where
  "region_Intersect heap aRegion g =
     (if iError aRegion then ForceError g
      else if \<not> iError g \<and> iCount g \<noteq> 0
      then if iCount aRegion = 0 then region_Clear g
           else region_Intersection heap (region_Copy heap g (RRegionBuf_ctor ERegionBufSize)) aRegion g
      else g)"

fun clip_loop :: "TRect \<Rightarrow> TRect list \<Rightarrow> TRect list" where
  "clip_loop aRect [] = []"
| "clip_loop aRect (r # rs) =
     (let r2 = rect_Intersection r aRect in if rect_IsEmpty r2 then clip_loop aRect rs else r2 # clip_loop aRect rs)"

definition ClipRect :: "TRect \<Rightarrow> TRegion \<Rightarrow> TRegion" where
  "ClipRect aRect g = g\<lparr>iRects := clip_loop aRect (iRects g)\<rparr>"

end
