(* ===== verification/Regn_Spec.thy ===== *)
theory Regn_Spec
  imports Regn
begin

text \<open>
  What a region stands for: the set of points in its rectangles, which are not empty and have no point
  in common; the invariant of its memory; and what one rectangle cut by another leaves.
\<close>

section \<open>Points\<close>

definition points :: "TRect \<Rightarrow> TPoint set" where
  "points r = {p. rect_Contains r p}"

definition area :: "TRect list \<Rightarrow> TPoint set" where
  "area rs = (\<Union>r \<in> set rs. points r)"

lemma points_iff: "p \<in> points r \<longleftrightarrow> iX (iTl r) \<le> iX p \<and> iX p < iX (iBr r) \<and> iY (iTl r) \<le> iY p \<and> iY p < iY (iBr r)"
  by (auto simp: points_def rect_Contains_def)

lemma mk_rect_simps [simp]:
  "iX (iTl (mk_rect a b c d)) = a" "iY (iTl (mk_rect a b c d)) = b" "iX (iBr (mk_rect a b c d)) = c" "iY (iBr (mk_rect a b c d)) = d"
  by (simp_all add: mk_rect_def)

lemma rect_eqI:
  "iX (iTl r) = iX (iTl s) \<Longrightarrow> iY (iTl r) = iY (iTl s) \<Longrightarrow> iX (iBr r) = iX (iBr s) \<Longrightarrow> iY (iBr r) = iY (iBr s) \<Longrightarrow> r = (s :: TRect)"
  by (cases r; cases s; cases "iTl r"; cases "iTl s"; cases "iBr r"; cases "iBr s") simp

lemma empty_points: "rect_IsEmpty r \<longleftrightarrow> points r = {}"
proof
  assume "points r = {}"
  then have "iTl r \<notin> points r" by simp
  then show "rect_IsEmpty r" by (auto simp: points_iff rect_IsEmpty_def)
qed (auto simp: points_iff rect_IsEmpty_def)

lemma area_simps [simp]: "area [] = {}" "area (r # rs) = points r \<union> area rs" "area (rs @ rs') = area rs \<union> area rs'"
  by (auto simp: area_def)

lemma points_Intersection [simp]: "points (rect_Intersection r s) = points r \<inter> points s"
  by (auto simp: points_iff rect_Intersection_def split: if_splits)

lemma overlaps_points:
  "\<not> rect_IsEmpty p \<Longrightarrow> \<not> rect_IsEmpty a \<Longrightarrow> overlaps p a \<longleftrightarrow> points p \<inter> points a \<noteq> {}"
  unfolding points_Intersection [symmetric] empty_points [symmetric]
  by (auto simp: overlaps_def rect_IsEmpty_def rect_Intersection_def)

text \<open>Rectangles side by side: not empty, and with no point in common.\<close>

definition apart :: "TRect \<Rightarrow> TRect \<Rightarrow> bool" where
  "apart r s \<longleftrightarrow> points r \<inter> points s = {}"

definition tiled :: "TRect list \<Rightarrow> bool" where
  "tiled rs \<longleftrightarrow> (\<forall>r \<in> set rs. \<not> rect_IsEmpty r) \<and> sorted_wrt apart rs"

lemma apart_sym: "apart r s \<longleftrightarrow> apart s r"
  by (auto simp: apart_def)

lemma tiled_simps [simp]: "tiled []" "tiled [r] \<longleftrightarrow> \<not> rect_IsEmpty r"
  by (simp_all add: tiled_def)

lemma tiled_append:
  "tiled (rs @ rs') \<longleftrightarrow> tiled rs \<and> tiled rs' \<and> area rs \<inter> area rs' = {}"
  by (auto simp: tiled_def sorted_wrt_append apart_def area_def)

lemma tiled_Cons: "tiled (r # rs) \<longleftrightarrow> \<not> rect_IsEmpty r \<and> tiled rs \<and> points r \<inter> area rs = {}"
  using tiled_append [of "[r]" rs] by simp

section \<open>Cutting\<close>

lemma cut_pieces_ok:
  assumes "\<not> rect_IsEmpty rect" "\<not> rect_IsEmpty a" "overlaps rect a"
  defines "ps \<equiv> cut_pieces rect (rect_Intersection a rect)"
  shows "area ps = points rect - points a" "tiled ps" "length ps \<le> 4"
proof -
  let ?s = "rect_Intersection a rect"
  have s: "iX (iTl ?s) < iX (iBr ?s)" "iY (iTl ?s) < iY (iBr ?s)" "iX (iTl rect) \<le> iX (iTl ?s)" "iX (iBr ?s) \<le> iX (iBr rect)"
    "iY (iTl rect) \<le> iY (iTl ?s)" "iY (iBr ?s) \<le> iY (iBr rect)"
    using assms by (auto simp: rect_Intersection_def overlaps_def rect_IsEmpty_def)
  have diff: "points rect - points a = points rect - points ?s" by auto
  define A where "A = (if iY (iBr ?s) \<noteq> iY (iBr rect) then [mk_rect (iX (iTl rect)) (iY (iBr ?s)) (iX (iBr rect)) (iY (iBr rect))] else [])"
  define B where "B = (if iY (iTl ?s) \<noteq> iY (iTl rect) then [mk_rect (iX (iTl rect)) (iY (iTl rect)) (iX (iBr rect)) (iY (iTl ?s))] else [])"
  define C where "C = (if iX (iBr ?s) \<noteq> iX (iBr rect) then [mk_rect (iX (iBr ?s)) (iY (iTl ?s)) (iX (iBr rect)) (iY (iBr ?s))] else [])"
  define D where "D = (if iX (iTl ?s) \<noteq> iX (iTl rect) then [mk_rect (iX (iTl rect)) (iY (iTl ?s)) (iX (iTl ?s)) (iY (iBr ?s))] else [])"
  have ABCD: "ps = A @ B @ C @ D" by (simp add: ps_def cut_pieces_def A_def B_def C_def D_def)
  have each: "tiled A" "tiled B" "tiled C" "tiled D"
    using s by (simp_all add: A_def B_def C_def D_def rect_IsEmpty_def)
  have area_a: "area A = {p \<in> points rect. iY (iBr ?s) \<le> iY p}"
    using s by (cases "iY (iBr ?s) = iY (iBr rect)") (auto simp: A_def points_iff)
  have area_b: "area B = {p \<in> points rect. iY p < iY (iTl ?s)}"
    using s by (cases "iY (iTl ?s) = iY (iTl rect)") (auto simp: B_def points_iff)
  have area_c: "area C = {p \<in> points rect. iX (iBr ?s) \<le> iX p \<and> iY (iTl ?s) \<le> iY p \<and> iY p < iY (iBr ?s)}"
    using s by (cases "iX (iBr ?s) = iX (iBr rect)") (auto simp: C_def points_iff)
  have area_d: "area D = {p \<in> points rect. iX p < iX (iTl ?s) \<and> iY (iTl ?s) \<le> iY p \<and> iY p < iY (iBr ?s)}"
    using s by (cases "iX (iTl ?s) = iX (iTl rect)") (auto simp: D_def points_iff)
  note areas = area_a area_b area_c area_d
  show "area ps = points rect - points a"
  proof (rule set_eqI)
    fix p
    have "p \<in> points ?s \<longleftrightarrow> iX (iTl ?s) \<le> iX p \<and> iX p < iX (iBr ?s) \<and> iY (iTl ?s) \<le> iY p \<and> iY p < iY (iBr ?s)"
      by (rule points_iff)
    then have "p \<in> points rect - points ?s \<longleftrightarrow> p \<in> points rect \<and>
        (iX p < iX (iTl ?s) \<or> iX (iBr ?s) \<le> iX p \<or> iY p < iY (iTl ?s) \<or> iY (iBr ?s) \<le> iY p)"
      by (simp only: Diff_iff) linarith
    moreover have "p \<in> area ps \<longleftrightarrow> p \<in> points rect \<and>
        (iX p < iX (iTl ?s) \<or> iX (iBr ?s) \<le> iX p \<or> iY p < iY (iTl ?s) \<or> iY (iBr ?s) \<le> iY p)"
      unfolding ABCD area_simps areas by (simp only: Un_iff mem_Collect_eq) linarith
    ultimately show "p \<in> area ps \<longleftrightarrow> p \<in> points rect - points a" unfolding diff by blast
  qed
  show "tiled ps"
    unfolding ABCD tiled_append area_simps areas using s(1,2) each by auto
  show "length ps \<le> 4" by (simp add: ps_def cut_pieces_def)
qed

section \<open>Memory\<close>

text \<open>The room of the list, and the three kinds of region.\<close>

definition is_fixed :: "TRegion \<Rightarrow> bool" where
  "is_fixed g \<longleftrightarrow> iAllocedRects g < 0 \<and> iAllocedRects g AND ERRegionBuf \<noteq> 0"

definition room :: "TRegion \<Rightarrow> int" where
  "room g = (if iAllocedRects g \<ge> 0 then iAllocedRects g else - (iAllocedRects g OR ERRegionBuf))"

definition mem_ok :: "TRegion \<Rightarrow> bool" where
  "mem_ok g \<longleftrightarrow> - 0x80000000 \<le> iAllocedRects g \<and> iAllocedRects g < 0x40000000 \<and> 0 \<le> iGranularity g \<and> iGranularity g < 0x40000000 \<and> iCount g \<le> room g \<and>
     (iError g \<longrightarrow> iRects g = [])"

definition region_ok :: "TRegion \<Rightarrow> bool" where
  "region_ok g \<longleftrightarrow> mem_ok g \<and> tiled (iRects g)"

text \<open>The points of a region, or nothing when its error flag is set.\<close>

definition region_area :: "TRegion \<Rightarrow> TPoint set option" where
  "region_area g = (if iError g then None else Some (area (iRects g)))"

text \<open>A cell has fewer than \<open>KMaxTInt/2\<close> bytes, and so less than 2 to the 26 rectangles of sixteen.\<close>

definition heap_bounded :: "(nat \<Rightarrow> bool) \<Rightarrow> bool" where
  "heap_bounded heap \<longleftrightarrow> (\<forall>n. heap n \<longrightarrow> n < 2 ^ 26)"

text \<open>Bit 30, by arithmetic.\<close>

lemma and_exp: "x AND 2 ^ n = (if bit x n then 2 ^ n else 0)" for x :: int
  by (rule bit_eqI) (auto simp: bit_simps)

lemma bit30_and: "x AND 0x40000000 = (if (x div 0x40000000) mod 2 = 1 then 0x40000000 else 0)" for x :: int
  using and_exp [of x 30] by (simp add: bit_iff_odd odd_iff_mod_2_eq_one)

lemma bit30_or: "x OR 0x40000000 = (if (x div 0x40000000) mod 2 = 1 then x else x + 0x40000000)" for x :: int
proof -
  have "(x AND 0x40000000) + (x OR 0x40000000) = x + 0x40000000" by (rule plus_and_or)
  then show ?thesis using bit30_and [of x] by (simp split: if_splits)
qed

end
