(* ===== verification/Regn_Ops.thy ===== *)
theory Regn_Ops
  imports Regn_Spec
begin

text \<open>
  The operations on regions and rectangles as operations on sets of points, or a region with its error
  flag set when memory ran out; the invariant of the memory.
\<close>

section \<open>Kinds of memory\<close>

lemma div30:
  fixes x :: int
  shows "- 0x80000000 \<le> x \<Longrightarrow> x < - 0x40000000 \<Longrightarrow> x div 0x40000000 = -2"
    "- 0x40000000 \<le> x \<Longrightarrow> x < 0 \<Longrightarrow> x div 0x40000000 = -1"
    "0 \<le> x \<Longrightarrow> x < 0x40000000 \<Longrightarrow> x div 0x40000000 = 0"
  by (linarith, linarith, simp)

text \<open>The three kinds, by the value of \<open>iAllocedRects\<close>.\<close>

lemma kinds:
  assumes "mem_ok g"
  shows "is_fixed g \<longleftrightarrow> - 0x40000000 \<le> iAllocedRects g \<and> iAllocedRects g < 0"
    "iAllocedRects g AND ERRegionBuf \<noteq> 0 \<longleftrightarrow> is_fixed g"
    "room g = (if 0 \<le> iAllocedRects g then iAllocedRects g else if is_fixed g then - iAllocedRects g else - (iAllocedRects g + 0x40000000))"
    "- (iAllocedRects g OR ERRegionBuf) = (if is_fixed g then - iAllocedRects g else - (iAllocedRects g + 0x40000000))"
proof -
  have r: "- 0x80000000 \<le> iAllocedRects g" "iAllocedRects g < 0x40000000" using assms by (auto simp: mem_ok_def)
  consider "iAllocedRects g < - 0x40000000" | "- 0x40000000 \<le> iAllocedRects g" "iAllocedRects g < 0" | "0 \<le> iAllocedRects g"
    by linarith
  then show "is_fixed g \<longleftrightarrow> - 0x40000000 \<le> iAllocedRects g \<and> iAllocedRects g < 0"
    "iAllocedRects g AND ERRegionBuf \<noteq> 0 \<longleftrightarrow> is_fixed g"
    "room g = (if 0 \<le> iAllocedRects g then iAllocedRects g else if is_fixed g then - iAllocedRects g else - (iAllocedRects g + 0x40000000))"
    "- (iAllocedRects g OR ERRegionBuf) = (if is_fixed g then - iAllocedRects g else - (iAllocedRects g + 0x40000000))"
    using r div30 [of "iAllocedRects g"] by (cases; simp add: is_fixed_def room_def bit30_and bit30_or)+
qed

lemma clear_simps [simp]:
  "iRects (region_Clear g) = []" "\<not> iError (region_Clear g)" "iGranularity (region_Clear g) = iGranularity g"
  "is_fixed (region_Clear g) = is_fixed g" "iRects (ForceError g) = []" "iError (ForceError g)"
  "iGranularity (ForceError g) = iGranularity g" "is_fixed (ForceError g) = is_fixed g"
  by (simp_all add: region_Clear_def ForceError_def is_fixed_def)

lemma room_nonneg: "mem_ok g \<Longrightarrow> 0 \<le> room g"
  by (auto simp: mem_ok_def)

lemma clear_ok [simp]: "mem_ok g \<Longrightarrow> mem_ok (region_Clear g)" "mem_ok g \<Longrightarrow> mem_ok (ForceError g)"
  using room_nonneg [of g] by (auto simp: mem_ok_def region_Clear_def ForceError_def room_def)

section \<open>What an operation leaves\<close>

text \<open>
  The list \<open>rs\<close>, or a region with its error flag set; the latter only when a request for at most
  \<open>N\<close> rectangles and the granularity was refused, or the region is fixed.
\<close>

definition starved :: "(nat \<Rightarrow> bool) \<Rightarrow> nat \<Rightarrow> TRegion \<Rightarrow> bool" where
  "starved heap N g \<longleftrightarrow> is_fixed g \<or> (\<exists>m. \<not> heap m \<and> m \<le> N + nat (iGranularity g))"

definition outcome :: "(nat \<Rightarrow> bool) \<Rightarrow> nat \<Rightarrow> TRegion \<Rightarrow> TRect list \<Rightarrow> TRegion \<Rightarrow> bool" where
  "outcome heap N g rs g' \<longleftrightarrow> mem_ok g' \<and> iGranularity g' = iGranularity g \<and> is_fixed g' = is_fixed g \<and>
     (if iError g' then starved heap N g else iRects g' = rs)"

lemma starved_mono: "starved heap N g \<Longrightarrow> N \<le> N' \<Longrightarrow> starved heap N' g"
  by (auto simp: starved_def intro: le_trans)

lemma starved_cong: "iGranularity g' = iGranularity g \<Longrightarrow> is_fixed g' = is_fixed g \<Longrightarrow> starved heap N g' = starved heap N g"
  by (simp add: starved_def)

lemma outcome_mono: "outcome heap N g rs g' \<Longrightarrow> N \<le> N' \<Longrightarrow> outcome heap N' g rs g'"
  by (auto simp: outcome_def intro: starved_mono)

lemma outcome_same: "mem_ok g \<Longrightarrow> \<not> iError g \<Longrightarrow> outcome heap N g (iRects g) g"
  by (simp add: outcome_def)

lemma outcome_trans:
  assumes "outcome heap N g rs g'" "\<not> iError g' \<Longrightarrow> outcome heap N g' rs' g''" "iError g' \<Longrightarrow> g'' = g'"
  shows "outcome heap N g rs' g''"
  using assms by (cases "iError g'") (auto simp: outcome_def starved_cong [of g' g] split: if_splits)

lemma outcome_from:
  "outcome heap N g0 rs g' \<Longrightarrow> iGranularity g0 = iGranularity g \<Longrightarrow> is_fixed g0 = is_fixed g \<Longrightarrow> outcome heap N g rs g'"
  by (simp add: outcome_def starved_def split: if_splits)

section \<open>Appending and releasing\<close>

lemma ExpandRegion_ok:
  assumes ok: "mem_ok g" "\<not> iError g" and hb: "heap_bounded heap" and n: "length (iRects g) < n"
  shows "\<exists>a. ExpandRegion heap (int n) g = (True, g\<lparr>iAllocedRects := a\<rparr>) \<and> mem_ok (g\<lparr>iAllocedRects := a\<rparr>) \<and>
      int n \<le> room (g\<lparr>iAllocedRects := a\<rparr>) \<and> is_fixed (g\<lparr>iAllocedRects := a\<rparr>) = is_fixed g \<or>
    ExpandRegion heap (int n) g = (False, ForceError g) \<and> starved heap n g"
proof -
  have gran: "0 \<le> iGranularity g" using ok by (simp add: mem_ok_def)
  have same: "g\<lparr>iAllocedRects := iAllocedRects g\<rparr> = g" by simp
  have grow: "mem_ok (g\<lparr>iAllocedRects := c\<rparr>) \<and> int n \<le> room (g\<lparr>iAllocedRects := c\<rparr>) \<and> \<not> is_fixed (g\<lparr>iAllocedRects := c\<rparr>)"
    if "heap (nat c)" "int n \<le> c" for c
  proof -
    have "nat c < 2 ^ 26" using hb that(1) by (simp add: heap_bounded_def)
    then show ?thesis using ok that(2) n by (simp add: mem_ok_def room_def is_fixed_def)
  qed
  consider (f) "is_fixed g" | (b) "\<not> is_fixed g" "iAllocedRects g < 0" | (h) "\<not> is_fixed g" "0 \<le> iAllocedRects g"
    using kinds(1) [OF ok(1)] by linarith
  then show ?thesis
  proof cases
    case f
    then have neg: "iAllocedRects g < 0" using kinds(1) [OF ok(1)] by simp
    show ?thesis
    proof (cases "int n > - iAllocedRects g")
      case True
      then show ?thesis using f ok kinds(2) [OF ok(1)] by (simp add: ExpandRegion_def starved_def)
    next
      case False
      then have "ExpandRegion heap (int n) g = (True, g\<lparr>iAllocedRects := iAllocedRects g\<rparr>)" "int n \<le> room g"
        using f neg ok kinds(2,3) [OF ok(1)] by (simp_all add: ExpandRegion_def)
      then show ?thesis using ok same by metis
    qed
  next
    case b
    let ?c = "max (int n) (iCount g + iGranularity g)"
    have kind: "\<not> iAllocedRects g AND ERRegionBuf \<noteq> 0" "iAllocedRects g < 0" using b kinds(2) [OF ok(1)] by simp_all
    show ?thesis
    proof (cases "int n > - (iAllocedRects g OR ERRegionBuf)")
      case True
      then have run: "ExpandRegion heap (int n) g = (if heap (nat ?c) then (True, g\<lparr>iAllocedRects := ?c\<rparr>) else (False, ForceError g))"
        using kind ok by (simp add: ExpandRegion_def Let_def)
      show ?thesis
      proof (cases "heap (nat ?c)")
        case True
        then show ?thesis using run grow [of ?c] b by auto
      next
        case False
        have "nat ?c \<le> n + nat (iGranularity g)" using n gran by simp
        then show ?thesis using run False by (auto simp: starved_def)
      qed
    next
      case False
      then have "ExpandRegion heap (int n) g = (True, g\<lparr>iAllocedRects := iAllocedRects g\<rparr>)" "int n \<le> room g"
        using kind b ok kinds(3,4) [OF ok(1)] by (simp_all add: ExpandRegion_def)
      then show ?thesis using ok same by metis
    qed
  next
    case h
    let ?c = "max (int n) (iAllocedRects g + iGranularity g)"
    have kind: "\<not> iAllocedRects g AND ERRegionBuf \<noteq> 0" "\<not> iAllocedRects g < 0" using h kinds(2) [OF ok(1)] by simp_all
    show ?thesis
    proof (cases "iAllocedRects g < int n")
      case True
      then have run: "ExpandRegion heap (int n) g = (if heap (nat ?c) then (True, g\<lparr>iAllocedRects := ?c\<rparr>) else (False, ForceError g))"
        using kind ok by (simp add: ExpandRegion_def Let_def)
      show ?thesis
      proof (cases "heap (nat ?c)")
        case True
        then show ?thesis using run grow [of ?c] h by auto
      next
        case False
        have "nat ?c \<le> n + nat (iGranularity g)" using \<open>iAllocedRects g < int n\<close> gran by simp
        then show ?thesis using run False by (auto simp: starved_def)
      qed
    next
      case False
      then have "ExpandRegion heap (int n) g = (True, g\<lparr>iAllocedRects := iAllocedRects g\<rparr>)" "int n \<le> room g"
        using kind h ok kinds(3) [OF ok(1)] by (simp_all add: ExpandRegion_def)
      then show ?thesis using ok same by metis
    qed
  qed
qed

lemma AppendRect_ok:
  assumes ok: "mem_ok g" "\<not> iError g" and hb: "heap_bounded heap"
  shows "outcome heap (length (iRects g) + 1) g (iRects g @ [r]) (AppendRect heap r g)"
proof -
  have n: "iCount g + 1 = int (length (iRects g) + 1)" by simp
  have "length (iRects g) < length (iRects g) + 1" by simp
  from ExpandRegion_ok [OF ok hb this] show ?thesis
  proof (elim disjE exE conjE)
    fix a assume a: "ExpandRegion heap (int (length (iRects g) + 1)) g = (True, g\<lparr>iAllocedRects := a\<rparr>)" "mem_ok (g\<lparr>iAllocedRects := a\<rparr>)"
      "int (length (iRects g) + 1) \<le> room (g\<lparr>iAllocedRects := a\<rparr>)" "is_fixed (g\<lparr>iAllocedRects := a\<rparr>) = is_fixed g"
    then have "AppendRect heap r g = g\<lparr>iAllocedRects := a, iRects := iRects g @ [r]\<rparr>" unfolding AppendRect_def n by simp
    then show ?thesis using a(2-4) ok(2) by (auto simp: outcome_def mem_ok_def room_def is_fixed_def split: if_splits)
  next
    fix a assume a: "ExpandRegion heap (int (length (iRects g) + 1)) g = (False, ForceError g)" "starved heap (length (iRects g) + 1) g"
    then have "AppendRect heap r g = ForceError g" unfolding AppendRect_def n by simp
    then show ?thesis using a(2) ok(1) by (simp add: outcome_def)
  qed
qed

lemma AppendRect_error: "iError g \<Longrightarrow> AppendRect heap r g = g"
  by (simp add: AppendRect_def ExpandRegion_def)

lemma append_all_error: "iError g \<Longrightarrow> fold (AppendRect heap) ps g = g"
  by (induction ps) (simp_all add: AppendRect_error)

lemma append_all_ok:
  "mem_ok g \<Longrightarrow> \<not> iError g \<Longrightarrow> heap_bounded heap \<Longrightarrow>
    outcome heap (length (iRects g) + length ps) g (iRects g @ ps) (fold (AppendRect heap) ps g)"
proof (induction ps arbitrary: g)
  case Nil
  then show ?case by (simp add: outcome_same)
next
  case (Cons p ps)
  let ?g = "AppendRect heap p g" and ?N = "length (iRects g) + length (p # ps)"
  have 1: "outcome heap ?N g (iRects g @ [p]) ?g"
    by (rule outcome_mono [OF AppendRect_ok [OF Cons.prems]]) simp
  have "outcome heap ?N ?g (iRects g @ p # ps) (fold (AppendRect heap) ps ?g)" if "\<not> iError ?g"
  proof -
    have g: "mem_ok ?g" "iRects ?g = iRects g @ [p]" using 1 that by (simp_all add: outcome_def)
    then show ?thesis using Cons.IH [OF g(1) that Cons.prems(3)] by simp
  qed
  then show ?case using outcome_trans [OF 1] append_all_error [of ?g] by simp
qed

lemma release_spare_ok:
  assumes "mem_ok g" "\<not> iError g"
  shows "outcome heap (length (iRects g)) g (iRects g) (release_spare heap g)"
proof (cases "iAllocedRects g > iCount g \<and> iAllocedRects g \<ge> iCount g + iGranularity g")
  case True
  then have "0 \<le> iAllocedRects g" by linarith
  then show ?thesis using True assms
    by (auto simp: release_spare_def ShrinkRegion_def outcome_def mem_ok_def room_def is_fixed_def starved_def ForceError_def region_Clear_def)
next
  case False
  then have "release_spare heap g = g" by (auto simp: release_spare_def ShrinkRegion_def)
  then show ?thesis using assms by (simp add: outcome_same)
qed

lemma DeleteRect_ok:
  assumes "mem_ok g" "\<not> iError g" "iRects g = A @ r # B"
  shows "iRects (DeleteRect (length A) g) = A @ B" "mem_ok (DeleteRect (length A) g)" "\<not> iError (DeleteRect (length A) g)"
    "iGranularity (DeleteRect (length A) g) = iGranularity g" "is_fixed (DeleteRect (length A) g) = is_fixed g"
  using assms by (auto simp: DeleteRect_def mem_ok_def room_def is_fixed_def split: if_splits)

section \<open>Results\<close>

text \<open>The points \<open>P\<close>, in at most \<open>N\<close> rectangles, or a region with its error flag set.\<close>

definition yields :: "(nat \<Rightarrow> bool) \<Rightarrow> nat \<Rightarrow> TRegion \<Rightarrow> TPoint set \<Rightarrow> TRegion \<Rightarrow> bool" where
  "yields heap N g P g' \<longleftrightarrow> mem_ok g' \<and> iGranularity g' = iGranularity g \<and> is_fixed g' = is_fixed g \<and>
     (if iError g' then starved heap N g
      else tiled (iRects g') \<and> area (iRects g') = P \<and> length (iRects g') \<le> N)"

lemma yieldsI: "outcome heap N g rs g' \<Longrightarrow> tiled rs \<Longrightarrow> area rs = P \<Longrightarrow> length rs \<le> N \<Longrightarrow> yields heap N g P g'"
  by (auto simp: yields_def outcome_def split: if_splits)

lemma yields_mono: "yields heap N g P g' \<Longrightarrow> N \<le> N' \<Longrightarrow> yields heap N' g P g'"
  by (auto simp: yields_def intro: starved_mono split: if_splits)

lemma yields_from:
  "yields heap N g0 P g' \<Longrightarrow> iGranularity g0 = iGranularity g \<Longrightarrow> is_fixed g0 = is_fixed g \<Longrightarrow> yields heap N g P g'"
  by (auto simp: yields_def starved_def split: if_splits)

lemma yields_ok: "yields heap N g P g' \<Longrightarrow> region_ok g'"
  by (auto simp: yields_def region_ok_def mem_ok_def split: if_splits)

lemma yields_area: "yields heap N g P g' \<Longrightarrow> region_area g' \<in> {None, Some P}"
  by (auto simp: yields_def region_area_def split: if_splits)

lemma yields_same: "region_ok g \<Longrightarrow> \<not> iError g \<Longrightarrow> length (iRects g) \<le> N \<Longrightarrow> yields heap N g (area (iRects g)) g"
  by (simp add: yields_def region_ok_def)

lemma yields_release:
  assumes "yields heap N g P g'"
  shows "yields heap N g P (release_spare heap g')"
proof (cases "iError g'")
  case True
  then show ?thesis using assms by (simp add: release_spare_def)
next
  case False
  then have g': "mem_ok g'" "iGranularity g' = iGranularity g" "is_fixed g' = is_fixed g" "tiled (iRects g')" "area (iRects g') = P"
    "length (iRects g') \<le> N" using assms by (simp_all add: yields_def)
  show ?thesis
    by (rule yieldsI [OF outcome_from [OF outcome_mono [OF release_spare_ok [OF g'(1) False] g'(6)] g'(2,3)] g'(4-6)])
qed

section \<open>The cutting loop\<close>

text \<open>
  What \<open>cut_loop\<close> asks of the operation it hands the removed parts to, and what becomes of the
  region they go to.
\<close>

definition adds :: "(TRect \<Rightarrow> TRegion \<Rightarrow> TRegion) \<Rightarrow> bool" where
  "adds add \<longleftrightarrow> (\<forall>r s. region_ok s \<longrightarrow> \<not> rect_IsEmpty r \<longrightarrow>
     region_ok (add r s) \<and> region_area (add r s) \<in> {None, map_option (\<lambda>A. A \<union> points r) (region_area s)})"

text \<open>The region \<open>sub'\<close> is \<open>sub\<close> with some more points, or has its error flag set.\<close>

definition gains :: "TPoint set \<Rightarrow> TRegion option \<Rightarrow> TRegion option \<Rightarrow> bool" where
  "gains P sub sub' \<longleftrightarrow>
     (case (sub, sub') of
        (None, None) \<Rightarrow> True
      | (Some s, Some s') \<Rightarrow> region_ok s' \<and> region_area s' \<in> {None, map_option (\<lambda>A. A \<union> P) (region_area s)}
      | _ \<Rightarrow> False)"

definition sub_ok :: "TRegion option \<Rightarrow> bool" where
  "sub_ok sub \<longleftrightarrow> (case sub of None \<Rightarrow> True | Some s \<Rightarrow> region_ok s)"

lemma gains_refl: "sub_ok sub \<Longrightarrow> gains {} sub sub"
  by (auto simp: gains_def sub_ok_def option.map_ident split: option.split)

lemma gains_add:
  assumes "adds add" "sub_ok sub" "\<not> rect_IsEmpty r"
  shows "gains (points r) sub (map_option (add r) sub)" "sub_ok (map_option (add r) sub)"
proof -
  have *: "region_ok (add r s) \<and> region_area (add r s) \<in> {None, map_option (\<lambda>A. A \<union> points r) (region_area s)}"
    if "region_ok s" for s using assms(1,3) that unfolding adds_def by blast
  show "gains (points r) sub (map_option (add r) sub)" "sub_ok (map_option (add r) sub)"
    using assms(2) * by (cases sub; simp add: gains_def sub_ok_def)+
qed

lemma gains_trans:
  assumes "gains P sub sub1" "gains Q sub1 sub2"
  shows "gains (P \<union> Q) sub sub2"
  using assms by (cases sub; cases sub1; cases sub2) (auto simp: gains_def Un_assoc region_area_def split: if_splits)

text \<open>
  After the loop: nothing of \<open>a\<close> is left, what was outside it still is there, and the part removed
  has gone to \<open>sub\<close>.
\<close>

definition cut_post ::
    "(nat \<Rightarrow> bool) \<Rightarrow> nat \<Rightarrow> TRect \<Rightarrow> TRegion \<Rightarrow> TRegion option \<Rightarrow> TRegion \<times> TRegion option \<Rightarrow> bool" where
  "cut_post heap N a g sub res \<longleftrightarrow>
     yields heap N g (area (iRects g) - points a) (fst res) \<and>
     (if iError (fst res) then sub_ok (snd res) \<and> (sub = None \<longleftrightarrow> snd res = None)
      else gains (area (iRects g) \<inter> points a) sub (snd res))"

lemma cut_loop_ok:
  assumes hb: "heap_bounded heap" and add: "sub = None \<or> adds add" and a: "\<not> rect_IsEmpty a"
  shows "mem_ok g \<Longrightarrow> \<not> iError g \<Longrightarrow> tiled (iRects g) \<Longrightarrow> sub_ok sub \<Longrightarrow> iRects g = A @ B @ C \<Longrightarrow>
    index = length A \<Longrightarrow> limit = length (A @ B) \<Longrightarrow> area (A @ C) \<inter> points a = {} \<Longrightarrow>
    cut_post heap (length (iRects g) + 3 * length B) a g sub (cut_loop add heap a index limit g sub)"
  using add
proof (induction "length B" arbitrary: A B C index limit g sub rule: less_induct)
  case less
  note prems = less.prems
  show ?case
  proof (cases B)
    case Nil
    then have "cut_loop add heap a index limit g sub = (g, sub)" using prems(6,7) by (subst cut_loop.simps) simp
    moreover have "area (iRects g) \<inter> points a = {}" using prems(5,8) Nil by auto
    ultimately show ?thesis
      using prems(1-4) yields_same [of g "length (iRects g)" heap] gains_refl [OF prems(4)]
      by (simp add: cut_post_def region_ok_def Nil Diff_triv)
  next
    case (Cons r B')
    have at: "iRects g ! index = r" "index < limit" using prems(5-7) Cons by (simp_all add: nth_append)
    have til: "tiled A" "tiled B'" "tiled C" "\<not> rect_IsEmpty r" "points r \<inter> area (B' @ C) = {}" "area A \<inter> area (r # B' @ C) = {}"
      "tiled (B' @ C)" using prems(3,5) Cons by (auto simp: tiled_append tiled_Cons)
    show ?thesis
    proof (cases "overlaps r a")
      case False
      then have missed: "points r \<inter> points a = {}" using overlaps_points [OF til(4) a] by blast
      have step: "cut_loop add heap a index limit g sub = cut_loop add heap a (Suc index) limit g sub"
        using at False by (subst cut_loop.simps) simp
      have clear: "area ((A @ [r]) @ C) \<inter> points a = {}" using prems(8) missed by auto
      have "cut_post heap (length (iRects g) + 3 * length B') a g sub (cut_loop add heap a (Suc index) limit g sub)"
        by (rule less.hyps [of B' g sub "A @ [r]" C])
          (use prems(1-7,9) Cons clear in simp_all)
      then show ?thesis unfolding step
        by (auto simp: cut_post_def Cons intro: yields_mono)
    next
      case True
      let ?s = "rect_Intersection a r" and ?g0 = "DeleteRect (length A) g"
      let ?ps = "cut_pieces r ?s"
      let ?g1 = "fold (AppendRect heap) ?ps ?g0"
      let ?N = "length (iRects g) + 3 * length B"
      note cut = cut_pieces_ok [OF til(4) a True]
      have sne: "\<not> rect_IsEmpty ?s" using overlaps_points [OF til(4) a] True by (auto simp: empty_points)
      have g: "iRects g = A @ r # (B' @ C)" using prems(5) Cons by simp
      note del = DeleteRect_ok [OF prems(1,2) g]
      have "outcome heap (length (iRects ?g0) + length ?ps) ?g0 (iRects ?g0 @ ?ps) ?g1"
        by (rule append_all_ok [OF del(2,3) hb])
      then have out1: "outcome heap (length (iRects g) + 3) g (A @ B' @ C @ ?ps) ?g1"
        using outcome_from [OF _ del(4,5)] outcome_mono cut(3) by (fastforce simp: del(1) g)
      have til1: "tiled (A @ B' @ C @ ?ps)"
        using til cut(1,2) by (auto simp: tiled_append)
      have area1: "area (A @ B' @ C @ ?ps) = area (iRects g) - (points r \<inter> points a)"
        using til(5,6) by (auto simp: g cut(1))
      show ?thesis
      proof (cases "iError ?g1")
        case err: True
        then have run: "cut_loop add heap a index limit g sub = (?g1, sub)"
          using at True prems(6) by (subst cut_loop.simps) (simp add: Let_def)
        have "outcome heap ?N g rs ?g1" for rs
          using out1 err Cons by (auto simp: outcome_def intro: starved_mono)
        then have "yields heap ?N g P ?g1" for P
          using err by (simp add: yields_def outcome_def)
        then show ?thesis using err prems(4) by (simp add: cut_post_def run)
      next
        case fine: False
        let ?sub = "map_option (add ?s) sub"
        have sub: "gains (points ?s) sub ?sub" "sub_ok ?sub" "?sub = None \<or> adds add"
          using prems(4,9) gains_add [OF _ prems(4) sne] by (cases sub; auto simp: gains_def sub_ok_def)+
        have run: "cut_loop add heap a index limit g sub = cut_loop add heap a index (limit - 1) ?g1 ?sub"
          using at True fine prems(6) by (subst cut_loop.simps) (simp add: Let_def)
        have g1: "mem_ok ?g1" "iRects ?g1 = A @ B' @ (C @ ?ps)" "iGranularity ?g1 = iGranularity g" "is_fixed ?g1 = is_fixed g"
          using out1 fine by (simp_all add: outcome_def)
        have clear: "area (A @ C @ ?ps) \<inter> points a = {}" using prems(8) cut(1) by auto
        have IH: "cut_post heap (length (iRects ?g1) + 3 * length B') a ?g1 ?sub (cut_loop add heap a index (limit - 1) ?g1 ?sub)"
          by (rule less.hyps [of B' ?g1 ?sub A "C @ ?ps"])
            (use prems Cons g1 fine til1 sub clear in simp_all)
        have "length (iRects ?g1) + 3 * length B' \<le> ?N" using cut(3) by (simp add: g1(2) g Cons)
        then have y: "yields heap ?N g (area (iRects ?g1) - points a) (fst (cut_loop add heap a index (limit - 1) ?g1 ?sub))"
          using IH yields_mono yields_from [OF _ g1(3,4)] by (auto simp: cut_post_def)
        have eq1: "area (iRects ?g1) - points a = area (iRects g) - points a"
          using area1 by (auto simp: g1(2))
        have eq2: "points ?s \<union> (area (iRects ?g1) \<inter> points a) = area (iRects g) \<inter> points a"
          using area1 by (auto simp: g1(2) g)
        let ?res = "cut_loop add heap a index (limit - 1) ?g1 ?sub"
        show ?thesis
        proof (cases "iError (fst ?res)")
          case True
          then show ?thesis using IH y unfolding run cut_post_def eq1 by simp
        next
          case False
          then have "gains (area (iRects ?g1) \<inter> points a) ?sub (snd ?res)" using IH by (simp add: cut_post_def)
          from gains_trans [OF sub(1) this] show ?thesis using False y unfolding run cut_post_def eq1 eq2 by simp
        qed
      qed
    qed
  qed
qed

end
