(* ===== verification/Regn_Area.thy ===== *)
theory Regn_Area
  imports Regn_Ops
begin

text \<open>
  Adding and removing rectangles and regions, intersecting and clipping: the set of points they leave.
\<close>

section \<open>Bounding rectangle\<close>

definition widen :: "TRect \<Rightarrow> TRect \<Rightarrow> TRect" where
  "widen p b = mk_rect
            (if iX (iTl p) < iX (iTl b) then iX (iTl p) else iX (iTl b))
            (if iY (iTl p) < iY (iTl b) then iY (iTl p) else iY (iTl b))
            (if iX (iBr p) > iX (iBr b) then iX (iBr p) else iX (iBr b))
            (if iY (iBr p) > iY (iBr b) then iY (iBr p) else iY (iBr b))"

text \<open>The rectangle \<open>r\<close> lies within \<open>s\<close>, sides included.\<close>

definition within :: "TRect \<Rightarrow> TRect \<Rightarrow> bool" where
  "within r s \<longleftrightarrow> iX (iTl s) \<le> iX (iTl r) \<and> iX (iBr r) \<le> iX (iBr s) \<and> iY (iTl s) \<le> iY (iTl r) \<and> iY (iBr r) \<le> iY (iBr s)"

lemma within_widen: "within p (widen p b)" "within b (widen p b)" "within p c \<Longrightarrow> within b c \<Longrightarrow> within (widen p b) c"
  by (auto simp: within_def widen_def)

lemma within_refl [simp]: "within r r"
  by (simp add: within_def)

lemma within_trans: "within r s \<Longrightarrow> within s t \<Longrightarrow> within r t"
  by (auto simp: within_def)

lemma within_points: "within r s \<Longrightarrow> points r \<subseteq> points s"
  by (auto simp: within_def points_iff)

lemma fold_widen:
  "within b (fold widen rs b)" "r \<in> set rs \<Longrightarrow> within r (fold widen rs b)"
  "within b c \<Longrightarrow> \<forall>r \<in> set rs. within r c \<Longrightarrow> within (fold widen rs b) c"
proof (induction rs arbitrary: b)
  case (Cons p rs)
  {
    case 1
    show ?case using within_trans [OF within_widen(2) Cons.IH(1)] by simp
  next
    case 2
    then show ?case using within_trans [OF within_widen(1) Cons.IH(1)] Cons.IH(2) by auto
  next
    case 3
    then show ?case using within_widen(3) Cons.IH(3) by simp
  }
qed simp_all

lemma BoundingRect_alt: "iRects g = r # rs \<Longrightarrow> BoundingRect g = fold widen rs r"
  unfolding BoundingRect_def widen_def [abs_def] by simp

lemma BoundingRect_bounds:
  "r \<in> set (iRects g) \<Longrightarrow> within r (BoundingRect g)"
  "iRects g \<noteq> [] \<Longrightarrow> \<forall>r \<in> set (iRects g). within r c \<Longrightarrow> within (BoundingRect g) c"
  by (cases "iRects g"; auto simp: BoundingRect_alt fold_widen)+

section \<open>Merging\<close>

lemma covered_loop_ok:
  "n \<le> length rs \<Longrightarrow> covered_loop a rs i n = (f, j) \<Longrightarrow>
    (f \<longrightarrow> (\<exists>p \<in> set rs. within a p)) \<and> (\<not> f \<longrightarrow> i \<le> n \<longrightarrow> j \<le> n \<and> (\<forall>k<j. i \<le> k \<longrightarrow> \<not> overlaps (rs ! k) a) \<and> i \<le> j)"
proof (induction a rs i n rule: covered_loop.induct)
  case (1 a rs i n)
  show ?case
  proof (cases "i < n")
    case False
    then show ?thesis using 1(3) by (subst (asm) covered_loop.simps) auto
  next
    case True
    show ?thesis
    proof (cases "overlaps (rs ! i) a")
      case False
      then have "covered_loop a rs (Suc i) n = (f, j)"
        using 1(3) True by (subst (asm) covered_loop.simps) simp
      from 1(1) [OF True refl _ 1(2) this] False True show ?thesis by (metis Suc_leI le_antisym not_less_eq_eq Suc_leD)
    next
      case ov: True
      have "rs ! i \<in> set rs" using True 1(2) by simp
      moreover have "f = within a (rs ! i)" "j = i"
        using 1(3) True ov by (auto simp: covered_loop.simps [of a rs i n] Let_def within_def)
      ultimately show ?thesis using True by auto
    qed
  qed
qed

lemma region_okD:
  assumes "region_ok g" shows "mem_ok g" "tiled (iRects g)"
  using assms by (simp_all add: region_ok_def)

lemma AppendRect_yields:
  assumes "region_ok g" "\<not> iError g" "heap_bounded heap" "\<not> rect_IsEmpty a" "area (iRects g) \<inter> points a = {}"
  shows "yields heap (length (iRects g) + 1) g (area (iRects g) \<union> points a) (AppendRect heap a g)"
  by (rule yieldsI [OF AppendRect_ok]) (use assms in \<open>simp_all add: region_ok_def tiled_append\<close>)

lemma yields_trans:
  assumes "yields heap N g P g'" "\<not> iError g' \<Longrightarrow> yields heap N' g' Q g''" "iError g' \<Longrightarrow> g'' = g'" "N \<le> N'"
  shows "yields heap N' g Q g''"
proof (cases "iError g'")
  case True
  then have "starved heap N' g" using assms(1,4) by (auto simp: yields_def intro: starved_mono)
  then show ?thesis using assms(1,3) True by (simp add: yields_def)
next
  case False
  then have "iGranularity g' = iGranularity g" "is_fixed g' = is_fixed g" using assms(1) by (simp_all add: yields_def)
  then show ?thesis using yields_from assms(2) False by blast
qed

lemma MergeRect_ok:
  assumes ok: "region_ok g" "\<not> iError g" and hb: "heap_bounded heap" and a: "\<not> rect_IsEmpty a"
  shows "yields heap (4 * length (iRects g) + 1) g (area (iRects g) \<union> points a) (MergeRect heap a cov g)"
proof -
  let ?n = "length (iRects g)"
  obtain f j where fj: "(if cov then covered_loop a (iRects g) 0 ?n else (False, 0)) = (f, j)" by (cases "if cov then covered_loop a (iRects g) 0 ?n else (False, 0)")
  have cl: "f \<longrightarrow> (\<exists>p \<in> set (iRects g). within a p)" "\<not> f \<longrightarrow> j \<le> ?n \<and> (\<forall>k<j. \<not> overlaps (iRects g ! k) a)"
    using fj covered_loop_ok [of ?n "iRects g" a 0 f j] by (auto split: if_splits)
  show ?thesis
  proof (cases f)
    case True
    then have run: "MergeRect heap a cov g = g" using fj by (simp add: MergeRect_def)
    have "points a \<subseteq> area (iRects g)" using cl(1) True within_points by (auto simp: area_def)
    then show ?thesis using yields_same [OF ok, of "4 * ?n + 1" heap] by (simp add: run Un_absorb2)
  next
    case False
    let ?r = "cut_loop (\<lambda>_ s. s) heap a j ?n g None"
    have run: "MergeRect heap a cov g = (if iError (fst ?r) then fst ?r else AppendRect heap a (fst ?r))"
      using fj False by (simp add: MergeRect_def Let_def)
    have "area (take j (iRects g)) \<inter> points a = {}"
    proof -
      have "points r \<inter> points a = {}" if r: "r \<in> set (take j (iRects g))" for r
      proof -
        obtain k where "k < j" "r = iRects g ! k" using r cl(2) False by (auto simp: in_set_conv_nth)
        moreover have "\<not> rect_IsEmpty r" using ok r by (auto simp: region_ok_def tiled_def dest: in_set_takeD)
        ultimately show ?thesis using cl(2) False overlaps_points [OF _ a] by blast
      qed
      then show ?thesis by (auto simp: area_def)
    qed
    then have "cut_post heap (?n + 3 * length (drop j (iRects g))) a g None ?r"
      using cl(2) False by (intro cut_loop_ok [OF hb _ a region_okD(1) [OF ok(1)] ok(2) region_okD(2) [OF ok(1)], where A = "take j (iRects g)" and C = "[]"])
        (auto simp: sub_ok_def)
    then have y: "yields heap (?n + 3 * length (drop j (iRects g))) g (area (iRects g) - points a) (fst ?r)"
      by (simp add: cut_post_def)
    then have y4: "yields heap (4 * ?n) g (area (iRects g) - points a) (fst ?r)" by (rule yields_mono) simp
    show ?thesis
    proof (rule yields_trans [OF y4])
      assume ne: "\<not> iError (fst ?r)"
      then have l: "length (iRects (fst ?r)) \<le> 4 * ?n" "area (iRects (fst ?r)) = area (iRects g) - points a"
        using y4 by (simp_all add: yields_def)
      have "yields heap (length (iRects (fst ?r)) + 1) (fst ?r) (area (iRects (fst ?r)) \<union> points a) (AppendRect heap a (fst ?r))"
        by (rule AppendRect_yields [OF yields_ok [OF y] ne hb a]) (use l in auto)
      from yields_mono [OF this, of "4 * ?n + 1"]
      show "yields heap (4 * ?n + 1) (fst ?r) (area (iRects g) \<union> points a) (MergeRect heap a cov g)"
        using ne l by (simp add: run Un_commute)
    qed (simp_all add: run)
  qed
qed

lemma AddRect_ok:
  assumes ok: "region_ok g" "\<not> iError g" and hb: "heap_bounded heap"
  shows "yields heap (4 * length (iRects g) + 1) g (area (iRects g) \<union> points a) (AddRect heap a g)"
proof (cases "rect_IsEmpty a")
  case True
  then show ?thesis using yields_same [OF ok, of "4 * length (iRects g) + 1" heap] by (simp add: AddRect_def empty_points)
next
  case a: False
  let ?N = "4 * length (iRects g) + 1" and ?reg = "BoundingRect g"
  let ?s = "rect_Intersection a ?reg"
  have in_reg: "area (iRects g) \<subseteq> points ?reg" using BoundingRect_bounds(1) within_points by (fastforce simp: area_def)
  have app: "yields heap ?N g (area (iRects g) \<union> points a) (AppendRect heap a g)" if "area (iRects g) \<inter> points a = {}"
    by (rule yields_mono [OF AppendRect_yields [OF ok hb a that]]) simp
  let ?g1 = "if iCount g > 0
         then if \<not> rect_IsEmpty ?s
              then if ?s = ?reg then AppendRect heap a (g\<lparr>iRects := []\<rparr>) else MergeRect heap a (?s = a) g
              else AppendRect heap a g
         else AppendRect heap a g"
  have "yields heap ?N g (area (iRects g) \<union> points a) ?g1"
  proof (cases "iCount g > 0 \<and> \<not> rect_IsEmpty ?s")
    case False
    then have "area (iRects g) \<inter> points a = {}" using in_reg by (auto simp: empty_points)
    then show ?thesis using False app by auto
  next
    case True
    show ?thesis
    proof (cases "?s = ?reg")
      case covers: True
      then have "points ?reg \<subseteq> points a" using points_Intersection [of a ?reg] by auto
      then have un: "area (iRects g) \<union> points a = points a" using in_reg by auto
      let ?g0 = "g\<lparr>iRects := []\<rparr>"
      have ok0: "region_ok ?g0" "\<not> iError ?g0" using ok room_nonneg [of g] by (auto simp: region_ok_def mem_ok_def room_def)
      from AppendRect_yields [OF ok0 hb a] have "yields heap 1 ?g0 (points a) (AppendRect heap a ?g0)" by simp
      then have "yields heap 1 g (points a) (AppendRect heap a ?g0)" by (rule yields_from) (simp_all add: is_fixed_def)
      from yields_mono [OF this, of ?N] show ?thesis using True covers un by simp
    next
      case False
      then show ?thesis using True MergeRect_ok [OF ok hb a] by simp
    qed
  qed
  moreover have "AddRect heap a g = release_spare heap ?g1"
    using a ok(2) unfolding AddRect_def Let_def by (simp only: simp_thms if_True)
  ultimately show ?thesis using yields_release by metis
qed

lemma AddRect_error: "iError g \<Longrightarrow> AddRect heap a g = g"
  by (simp add: AddRect_def)

lemma AddRect_adds: "heap_bounded heap \<Longrightarrow> adds (AddRect heap)"
proof (unfold adds_def, intro allI impI conjI)
  fix r s assume hb: "heap_bounded heap" and s: "region_ok s"
  show "region_ok (AddRect heap r s)" "region_area (AddRect heap r s) \<in> {None, map_option (\<lambda>A. A \<union> points r) (region_area s)}"
    using AddRect_ok [OF s _ hb, of r] yields_ok yields_area s AddRect_error
    by (cases "iError s"; fastforce simp: region_area_def)+
qed

section \<open>Removing\<close>

lemma SubRect_ok:
  assumes ok: "region_ok g" "\<not> iError g" "sub_ok sub" and hb: "heap_bounded heap"
  shows "cut_post heap (4 * length (iRects g)) a g sub (SubRect heap a g sub)"
proof (cases "rect_IsEmpty a")
  case True
  then have "points a = {}" by (simp add: empty_points)
  then show ?thesis using True yields_same [OF ok(1,2), of "4 * length (iRects g)" heap] gains_refl [OF ok(3)] ok(2)
    by (simp add: SubRect_def cut_post_def)
next
  case False
  have "cut_post heap (length (iRects g) + 3 * length (iRects g)) a g sub (cut_loop (AddRect heap) heap a 0 (length (iRects g)) g sub)"
    by (rule cut_loop_ok [OF hb _ False region_okD(1) [OF ok(1)] ok(2) region_okD(2) [OF ok(1)] ok(3), where A = "[]" and C = "[]"])
      (simp_all add: AddRect_adds [OF hb])
  then show ?thesis using False by (simp add: SubRect_def)
qed

lemma subtract_loop_error: "iError g \<Longrightarrow> subtract_loop heap ps g sub = (g, sub)"
  by (cases ps) simp_all

text \<open>Removing one rectangle after the other; each can make four of one.\<close>

lemma subtract_loop_ok:
  "region_ok g \<Longrightarrow> \<not> iError g \<Longrightarrow> sub_ok sub \<Longrightarrow> heap_bounded heap \<Longrightarrow> length (iRects g) \<le> N \<Longrightarrow>
    yields heap (4 ^ length ps * N) g (area (iRects g) - area ps) (fst (subtract_loop heap ps g sub)) \<and>
    (if iError (fst (subtract_loop heap ps g sub)) then sub_ok (snd (subtract_loop heap ps g sub))
     else gains (area (iRects g) \<inter> area ps) sub (snd (subtract_loop heap ps g sub)))"
proof (induction ps arbitrary: g sub N)
  case Nil
  then show ?case using yields_same [of g N heap] gains_refl [of sub] by simp
next
  case (Cons p ps)
  obtain g1 sub1 where s: "SubRect heap p g sub = (g1, sub1)" by (cases "SubRect heap p g sub")
  have "cut_post heap (4 * length (iRects g)) p g sub (g1, sub1)"
    using SubRect_ok [OF Cons.prems(1-4), of p] s by simp
  then have y: "yields heap (4 * length (iRects g)) g (area (iRects g) - points p) g1"
    and sub1: "if iError g1 then sub_ok sub1 else gains (area (iRects g) \<inter> points p) sub sub1"
    by (auto simp: cut_post_def split: if_splits)
  have y4: "yields heap (4 * N) g (area (iRects g) - points p) g1" by (rule yields_mono [OF y]) (use Cons.prems(5) in simp)
  have run: "subtract_loop heap (p # ps) g sub = subtract_loop heap ps g1 sub1" using Cons.prems(2) s by simp
  have ge: "4 * N \<le> 4 ^ length (p # ps) * N" by simp
  show ?case
  proof (cases "iError g1")
    case True
    then have "yields heap (4 ^ length (p # ps) * N) g (area (iRects g) - area (p # ps)) g1"
      using y4 ge by (auto simp: yields_def intro: starved_mono)
    then show ?thesis using True sub1 unfolding run by (simp add: subtract_loop_error)
  next
    case False
    then have l: "length (iRects g1) \<le> 4 * N" "area (iRects g1) = area (iRects g) - points p" using y4 by (simp_all add: yields_def)
    have g1: "gains (area (iRects g) \<inter> points p) sub sub1" using sub1 False by simp
    then have ok1: "sub_ok sub1" by (cases sub; cases sub1) (auto simp: gains_def sub_ok_def)
    let ?r = "subtract_loop heap ps g1 sub1"
    have IH: "yields heap (4 ^ length ps * (4 * N)) g1 (area (iRects g1) - area ps) (fst ?r)"
      "if iError (fst ?r) then sub_ok (snd ?r) else gains (area (iRects g1) \<inter> area ps) sub1 (snd ?r)"
      using Cons.IH [OF yields_ok [OF y] False ok1 Cons.prems(4) l(1)] by auto
    have "4 ^ length ps * (4 * N) = 4 ^ length (p # ps) * N" by simp
    moreover have "area (iRects g1) - area ps = area (iRects g) - area (p # ps)" using l(2) by auto
    ultimately have y2: "yields heap (4 ^ length (p # ps) * N) g (area (iRects g) - area (p # ps)) (fst ?r)"
      using yields_trans [OF y4 _ _ ge] IH(1) False by metis
    have un: "area (iRects g) \<inter> points p \<union> (area (iRects g1) \<inter> area ps) = area (iRects g) \<inter> area (p # ps)" using l(2) by auto
    show ?thesis
    proof (cases "iError (fst ?r)")
      case True
      then show ?thesis using y2 IH(2) unfolding run by simp
    next
      case False
      then have "gains (area (iRects g1) \<inter> area ps) sub1 (snd ?r)" using IH(2) by simp
      from gains_trans [OF g1 this] show ?thesis using y2 False unfolding run un by simp
    qed
  qed
qed

lemma gains_none [simp]: "gains P None x \<longleftrightarrow> x = None"
  by (cases x) (simp_all add: gains_def)

definition sub_bound :: "TRegion \<Rightarrow> TRegion \<Rightarrow> nat" where
  "sub_bound a g = 4 ^ length (iRects a) * length (iRects g)"

lemma SubtractRegion_ok:
  assumes ok: "region_ok g" "\<not> iError g" "sub_ok sub" and a: "\<not> iError a" and hb: "heap_bounded heap"
  defines "res \<equiv> SubtractRegion heap a g sub"
  shows "yields heap (sub_bound a g) g (area (iRects g) - area (iRects a)) (fst res)"
    "if iError (fst res) then snd res = None \<or> (\<exists>s. snd res = Some s \<and> iError s \<and> region_ok s)
     else gains (area (iRects g) \<inter> area (iRects a)) sub (snd res)"
proof -
  have N: "length (iRects g) \<le> length (iRects g)" by simp
  note l = subtract_loop_ok [OF ok hb N, of "iRects a"]
  have run: "res = (if iCount g \<noteq> 0 then
      (fst (subtract_loop heap (iRects a) g sub),
       if iError (fst (subtract_loop heap (iRects a) g sub)) then map_option ForceError (snd (subtract_loop heap (iRects a) g sub))
       else snd (subtract_loop heap (iRects a) g sub)) else (g, sub))"
    using ok(2) a by (simp add: res_def SubtractRegion_def split: prod.split)
  show "yields heap (sub_bound a g) g (area (iRects g) - area (iRects a)) (fst res)"
    using l yields_same [OF ok(1,2), of 0 heap] unfolding run by (auto simp: sub_bound_def)
  show "if iError (fst res) then snd res = None \<or> (\<exists>s. snd res = Some s \<and> iError s \<and> region_ok s)
     else gains (area (iRects g) \<inter> area (iRects a)) sub (snd res)"
  proof (cases "iCount g \<noteq> 0 \<and> iError (fst (subtract_loop heap (iRects a) g sub))")
    case True
    then have "sub_ok (snd (subtract_loop heap (iRects a) g sub))" using l by simp
    then have "\<forall>s. snd (subtract_loop heap (iRects a) g sub) = Some s \<longrightarrow> region_ok (ForceError s)"
      by (auto simp: sub_ok_def region_ok_def)
    then show ?thesis using True unfolding run by (cases "snd (subtract_loop heap (iRects a) g sub)") auto
  next
    case False
    then show ?thesis using l gains_refl [OF ok(3)] ok(2) unfolding run by (auto split: if_splits)
  qed
qed

text \<open>Without a second region.\<close>

lemma SubtractRegion_None:
  assumes "region_ok g" "\<not> iError g" "\<not> iError a" "heap_bounded heap"
  shows "yields heap (sub_bound a g) g (area (iRects g) - area (iRects a)) (fst (SubtractRegion heap a g None))"
  using SubtractRegion_ok(1) [OF assms(1,2) _ assms(3,4), of None] by (simp add: sub_ok_def)

section \<open>Copying and appending\<close>

lemma SetListSize_ok:
  assumes ok: "mem_ok g" and hb: "heap_bounded heap" and n: "0 < n"
  shows "(\<exists>a. SetListSize heap (int n) g = (True, g\<lparr>iAllocedRects := a\<rparr>) \<and>
      - 0x80000000 \<le> a \<and> a < 0x40000000 \<and> int n \<le> room (g\<lparr>iAllocedRects := a\<rparr>) \<and> is_fixed (g\<lparr>iAllocedRects := a\<rparr>) = is_fixed g) \<or>
    SetListSize heap (int n) g = (False, ForceError g) \<and> starved heap n g"
proof -
  have gran: "0 \<le> iGranularity g" and rng: "- 0x80000000 \<le> iAllocedRects g" "iAllocedRects g < 0x40000000"
    using ok by (simp_all add: mem_ok_def)
  have same: "g\<lparr>iAllocedRects := iAllocedRects g\<rparr> = g" by simp
  have grow: "- 0x80000000 \<le> c \<and> c < 0x40000000 \<and> int n \<le> room (g\<lparr>iAllocedRects := c\<rparr>) \<and> \<not> is_fixed (g\<lparr>iAllocedRects := c\<rparr>)"
    if "heap (nat c)" "int n \<le> c" for c
  proof -
    have "nat c < 2 ^ 26" using hb that(1) by (simp add: heap_bounded_def)
    then show ?thesis using that(2) n by (simp add: room_def is_fixed_def)
  qed
  have enough: ?thesis if "SetListSize heap (int n) g = (True, g)" "int n \<le> room g"
    using that same rng by metis
  have asked: ?thesis if run: "SetListSize heap (int n) g = (if heap (nat c) then (True, g\<lparr>iAllocedRects := c\<rparr>) else (False, ForceError g))"
    and c: "int n \<le> c" "c \<le> int n + iGranularity g" and nf: "\<not> is_fixed g" for c
  proof (cases "heap (nat c)")
    case True
    then show ?thesis using run grow [OF True c(1)] nf by auto
  next
    case False
    have "nat c \<le> n + nat (iGranularity g)" using c(2) gran by simp
    then show ?thesis using run False by (auto simp: starved_def)
  qed
  consider (f) "is_fixed g" | (b) "\<not> is_fixed g" "iAllocedRects g < 0" | (h) "\<not> is_fixed g" "0 \<le> iAllocedRects g" by linarith
  then show ?thesis
  proof cases
    case f
    then have neg: "iAllocedRects g < 0" using kinds(1) [OF ok] by simp
    show ?thesis
    proof (cases "int n > - iAllocedRects g")
      case True
      then show ?thesis using f neg kinds(2,4) [OF ok] by (simp add: SetListSize_def starved_def)
    next
      case False
      then show ?thesis using f neg kinds(3,4) [OF ok] by (intro enough) (simp_all add: SetListSize_def Let_def)
    qed
  next
    case b
    have kind: "\<not> iAllocedRects g AND ERRegionBuf \<noteq> 0" using b kinds(2) [OF ok] by simp
    show ?thesis
    proof (cases "int n > - (iAllocedRects g OR ERRegionBuf)")
      case True
      then show ?thesis
        by (intro asked [of "max (int n) (iGranularity g)"]) (use kind b n gran less_max_iff_disj [of 0 "int n"] in \<open>simp_all add: SetListSize_def Let_def\<close>)
    next
      case False
      then show ?thesis using kind b kinds(3,4) [OF ok] by (intro enough) (simp_all add: SetListSize_def Let_def)
    qed
  next
    case h
    show ?thesis
    proof (cases "iAllocedRects g < int n")
      case True
      then show ?thesis
        by (intro asked [of "max (int n) (iAllocedRects g + iGranularity g)"]) (use h n gran less_max_iff_disj [of 0 "int n"] in \<open>simp_all add: SetListSize_def Let_def\<close>)
    next
      case False
      then show ?thesis using h by (intro enough) (simp_all add: SetListSize_def Let_def room_def)
    qed
  qed
qed

lemma Copy_ok:
  assumes ok: "mem_ok g" and a: "region_ok a" "\<not> iError a" and hb: "heap_bounded heap"
  shows "yields heap (length (iRects a)) g (area (iRects a)) (region_Copy heap a g)"
proof (cases "iCount a = 0")
  case True
  then have "region_Copy heap a g = region_Clear g" using a by (simp add: region_Copy_def)
  then show ?thesis using True ok by (simp add: yields_def)
next
  case False
  let ?g1 = "if iError g then region_Clear g else g"
  have g1: "mem_ok ?g1" "iGranularity ?g1 = iGranularity g" "is_fixed ?g1 = is_fixed g" "\<not> iError ?g1" using ok by simp_all
  have n: "0 < length (iRects a)" using False by simp
  have run: "region_Copy heap a g = (case SetListSize heap (iCount a) ?g1 of
             (True, g2) \<Rightarrow> g2\<lparr>iRects := iRects a\<rparr> | (False, g2) \<Rightarrow> g2)"
    using a False by (simp add: region_Copy_def Let_def)
  from SetListSize_ok [OF g1(1) hb n] have "yields heap (length (iRects a)) ?g1 (area (iRects a)) (region_Copy heap a g)"
  proof (elim disjE exE conjE)
    fix c assume c: "SetListSize heap (iCount a) ?g1 = (True, ?g1\<lparr>iAllocedRects := c\<rparr>)" "- 0x80000000 \<le> c" "c < 0x40000000"
      "iCount a \<le> room (?g1\<lparr>iAllocedRects := c\<rparr>)" "is_fixed (?g1\<lparr>iAllocedRects := c\<rparr>) = is_fixed ?g1"
    then show ?thesis using a g1 unfolding run
      by (auto simp: yields_def mem_ok_def room_def is_fixed_def region_ok_def split: if_splits)
  next
    assume c: "SetListSize heap (iCount a) ?g1 = (False, ForceError ?g1)" "starved heap (length (iRects a)) ?g1"
    then show ?thesis using g1 unfolding run by (simp add: yields_def)
  qed
  then show ?thesis by (rule yields_from) (rule g1)+
qed

text \<open>
  Appending a region: what of it is not covered yet is added, and if either region runs out of memory
  this one has its error flag set.
\<close>

lemma AppendRegion_ok:
  assumes g: "region_ok g" "\<not> iError g" and a: "region_ok a" "\<not> iError a" "iRects a \<noteq> []" and hb: "heap_bounded heap"
  defines "N \<equiv> length (iRects g) + sub_bound g a"
  shows "mem_ok (fst (AppendRegion heap a g)) \<and> iGranularity (fst (AppendRegion heap a g)) = iGranularity g \<and>
      is_fixed (fst (AppendRegion heap a g)) = is_fixed g \<and>
      (if iError (fst (AppendRegion heap a g)) then starved heap N g \<or> starved heap N a
       else tiled (iRects (fst (AppendRegion heap a g))) \<and>
         area (iRects (fst (AppendRegion heap a g))) = area (iRects g) \<union> area (iRects a) \<and>
         length (iRects (fst (AppendRegion heap a g))) \<le> N)"
    and "mem_ok (snd (AppendRegion heap a g)) \<and> iGranularity (snd (AppendRegion heap a g)) = iGranularity a \<and>
      is_fixed (snd (AppendRegion heap a g)) = is_fixed a"
proof -
  let ?a = "fst (SubtractRegion heap g a None)"
  have y: "yields heap (sub_bound g a) a (area (iRects a) - area (iRects g)) ?a"
    by (rule SubtractRegion_None [OF a(1,2) g(2) hb])
  have snd: "snd (AppendRegion heap a g) = ?a" by (simp add: AppendRegion_def Let_def split: prod.split bool.split)
  show "mem_ok (snd (AppendRegion heap a g)) \<and> iGranularity (snd (AppendRegion heap a g)) = iGranularity a \<and>
      is_fixed (snd (AppendRegion heap a g)) = is_fixed a"
    unfolding snd using y by (simp add: yields_def)
  have mg: "mem_ok g" "tiled (iRects g)" using g by (simp_all add: region_ok_def)
  show "mem_ok (fst (AppendRegion heap a g)) \<and> iGranularity (fst (AppendRegion heap a g)) = iGranularity g \<and>
      is_fixed (fst (AppendRegion heap a g)) = is_fixed g \<and>
      (if iError (fst (AppendRegion heap a g)) then starved heap N g \<or> starved heap N a
       else tiled (iRects (fst (AppendRegion heap a g))) \<and>
         area (iRects (fst (AppendRegion heap a g))) = area (iRects g) \<union> area (iRects a) \<and>
         length (iRects (fst (AppendRegion heap a g))) \<le> N)"
  proof (cases "iError ?a")
    case True
    then have "fst (AppendRegion heap a g) = ForceError g" by (simp add: AppendRegion_def Let_def)
    moreover have "starved heap N a" using y True by (auto simp: yields_def N_def intro: starved_mono)
    ultimately show ?thesis using mg by simp
  next
    case False
    then have ya: "tiled (iRects ?a)" "area (iRects ?a) = area (iRects a) - area (iRects g)" "length (iRects ?a) \<le> sub_bound g a"
      using y by (simp_all add: yields_def)
    have til: "tiled (iRects g @ iRects ?a)" using mg(2) ya(1,2) by (auto simp: tiled_append)
    have ar: "area (iRects g @ iRects ?a) = area (iRects g) \<union> area (iRects a)" using ya(2) by auto
    have len: "length (iRects g @ iRects ?a) \<le> N" using ya(3) by (simp add: N_def)
    show ?thesis
    proof (cases "iRects ?a = []")
      case True
      then have "fst (AppendRegion heap a g) = g" using False by (simp add: AppendRegion_def Let_def)
      then show ?thesis using mg g(2) ar True til len by simp
    next
      case ne: False
      have n: "iCount g + iCount ?a = int (length (iRects g @ iRects ?a))" by simp
      have run: "fst (AppendRegion heap a g) = (case ExpandRegion heap (int (length (iRects g @ iRects ?a))) g of
          (True, g') \<Rightarrow> g'\<lparr>iRects := iRects g' @ iRects ?a\<rparr> | (False, g') \<Rightarrow> g')"
        using False ne unfolding AppendRegion_def Let_def n by (auto split: prod.split bool.split)
      have lt: "length (iRects g) < length (iRects g @ iRects ?a)" using ne by simp
      from ExpandRegion_ok [OF mg(1) g(2) hb lt] show ?thesis
      proof (elim exE disjE conjE)
        fix c assume c: "ExpandRegion heap (int (length (iRects g @ iRects ?a))) g = (True, g\<lparr>iAllocedRects := c\<rparr>)"
          "mem_ok (g\<lparr>iAllocedRects := c\<rparr>)" "int (length (iRects g @ iRects ?a)) \<le> room (g\<lparr>iAllocedRects := c\<rparr>)"
          "is_fixed (g\<lparr>iAllocedRects := c\<rparr>) = is_fixed g"
        then have f: "fst (AppendRegion heap a g) = g\<lparr>iAllocedRects := c, iRects := iRects g @ iRects ?a\<rparr>" unfolding run by simp
        have "mem_ok (g\<lparr>iAllocedRects := c, iRects := iRects g @ iRects ?a\<rparr>)"
          using c(2,3) g(2) by (auto simp: mem_ok_def room_def split: if_splits)
        moreover have "is_fixed (g\<lparr>iAllocedRects := c, iRects := iRects g @ iRects ?a\<rparr>) = is_fixed g"
          using c(4) by (simp add: is_fixed_def)
        ultimately show ?thesis unfolding f using til ar len g(2) by simp
      next
        fix c assume c: "ExpandRegion heap (int (length (iRects g @ iRects ?a))) g = (False, ForceError g)"
          "starved heap (length (iRects g @ iRects ?a)) g"
        then show ?thesis unfolding run using mg(1) starved_mono [OF c(2) len] by simp
      qed
    qed
  qed
qed

text \<open>The buffer on the stack of \<open>Union\<close> and \<open>Intersect\<close>.\<close>

lemma temp_ok: "mem_ok (RRegionBuf_ctor 8)" "iGranularity (RRegionBuf_ctor 8) = 8" "\<not> is_fixed (RRegionBuf_ctor 8)"
proof -
  have a: "iAllocedRects (RRegionBuf_ctor 8) = -8 - 0x40000000"
    by (simp add: RRegionBuf_ctor_def TRegion_ctor_def)
  show "\<not> is_fixed (RRegionBuf_ctor 8)" by (simp add: is_fixed_def a bit30_and)
  have "room (RRegionBuf_ctor 8) = 8" by (simp add: room_def a bit30_or)
  then show "mem_ok (RRegionBuf_ctor 8)" "iGranularity (RRegionBuf_ctor 8) = 8"
    using a by (simp_all add: mem_ok_def RRegionBuf_ctor_def TRegion_ctor_def)
qed

definition union_bound :: "TRegion \<Rightarrow> TRegion \<Rightarrow> nat" where
  "union_bound a g = 8 + length (iRects a) + length (iRects g) + sub_bound g a + sub_bound a g"

lemma starved_temp:
  "starved heap N t \<Longrightarrow> iGranularity t = 8 \<Longrightarrow> \<not> is_fixed t \<Longrightarrow> N + 8 \<le> M \<Longrightarrow> starved heap M g"
  by (auto simp: starved_def intro: le_trans)

lemma Union_ok:
  assumes g: "region_ok g" "\<not> iError g" and a: "region_ok a" "\<not> iError a" and hb: "heap_bounded heap"
  shows "yields heap (union_bound a g) g (area (iRects g) \<union> area (iRects a)) (region_Union heap a g)"
proof -
  have mg: "mem_ok g" using g by (simp add: region_ok_def)
  let ?temp = "region_Copy heap a (RRegionBuf_ctor ERegionBufSize)"
  consider "iCount a = 0" | "iCount a \<noteq> 0" "iCount g = 0" | "iCount a \<noteq> 0" "iCount g \<noteq> 0" by blast
  then show ?thesis
  proof cases
    case 1
    then have "region_Union heap a g = g" using g a by (simp add: region_Union_def)
    then show ?thesis using 1 yields_same [OF g, of "union_bound a g" heap] by (simp add: union_bound_def)
  next
    case 2
    then have "region_Union heap a g = region_Copy heap a g" using g a by (simp add: region_Union_def)
    then show ?thesis using 2 yields_mono [OF Copy_ok [OF mg a hb], of "union_bound a g"] by (simp add: union_bound_def)
  next
    case 3
    have t: "yields heap (length (iRects a)) (RRegionBuf_ctor 8) (area (iRects a)) ?temp" by (rule Copy_ok [OF temp_ok(1) a hb])
    then have tm: "mem_ok ?temp" "iGranularity ?temp = 8" "\<not> is_fixed ?temp" using temp_ok by (simp_all add: yields_def)
    have run: "region_Union heap a g =
        (if iCount ?temp > iCount g then region_Copy heap (fst (AppendRegion heap g ?temp)) (snd (AppendRegion heap g ?temp))
         else fst (AppendRegion heap ?temp g))"
      using 3 g a by (simp add: region_Union_def Let_def)
    show ?thesis
    proof (cases "iError ?temp")
      case True
      then have e: "iRects ?temp = []" using tm(1) by (simp add: mem_ok_def)
      have st: "starved heap (length (iRects a)) (RRegionBuf_ctor 8)" using t True by (simp add: yields_def)
      have "starved heap (union_bound a g) g"
        by (rule starved_temp [OF st temp_ok(2,3)]) (simp add: union_bound_def)
      moreover have "fst (SubtractRegion heap g ?temp None) = ?temp" using True by (simp add: SubtractRegion_def)
      then have "fst (AppendRegion heap ?temp g) = ForceError g" using True by (simp add: AppendRegion_def Let_def)
      ultimately show ?thesis using run e mg by (simp add: yields_def)
    next
      case False
      then have tr: "tiled (iRects ?temp)" "area (iRects ?temp) = area (iRects a)" "length (iRects ?temp) \<le> length (iRects a)"
        using t by (simp_all add: yields_def)
      have tok: "region_ok ?temp" by (rule yields_ok [OF t])
      have b1: "sub_bound g ?temp \<le> sub_bound g a" using tr(3) by (simp add: sub_bound_def)
      have b2: "sub_bound ?temp g \<le> sub_bound a g" using tr(3) by (simp add: sub_bound_def)
      have ne: "iRects g \<noteq> []" using 3 by simp
      show ?thesis
      proof (cases "iCount ?temp > iCount g")
        case big: True
        let ?t = "fst (AppendRegion heap g ?temp)" and ?g = "snd (AppendRegion heap g ?temp)"
        let ?N = "length (iRects ?temp) + sub_bound ?temp g"
        note ap = AppendRegion_ok [OF tok False g ne hb]
        have gg: "mem_ok ?g" "iGranularity ?g = iGranularity g" "is_fixed ?g = is_fixed g" using ap(2) by auto
        have un: "?N \<le> union_bound a g" "?N + 8 \<le> union_bound a g" using tr(3) b2 by (simp_all add: union_bound_def)
        show ?thesis
        proof (cases "iError ?t")
          case True
          then have "starved heap ?N ?temp \<or> starved heap ?N g" using ap(1) by simp
          then have "starved heap (union_bound a g) g"
            using starved_temp [OF _ tm(2,3) un(2)] starved_mono [OF _ un(1)] by blast
          then show ?thesis using run big True gg by (simp add: yields_def region_Copy_def)
        next
          case noerr: False
          then have tt: "region_ok ?t" "area (iRects ?t) = area (iRects ?temp) \<union> area (iRects g)" "length (iRects ?t) \<le> ?N"
            using ap(1) by (simp_all add: region_ok_def)
          from yields_from [OF Copy_ok [OF gg(1) tt(1) noerr hb] gg(2,3)]
          have "yields heap (length (iRects ?t)) g (area (iRects ?t)) (region_Copy heap ?t ?g)" .
          then have "yields heap (union_bound a g) g (area (iRects ?t)) (region_Copy heap ?t ?g)"
            by (rule yields_mono) (use tt(3) un(1) in linarith)
          then show ?thesis using run big tt(2) tr(2) by (simp add: Un_commute)
        qed
      next
        case small: False
        show ?thesis
        proof (cases "iRects ?temp = []")
          case True
          then have "fst (SubtractRegion heap g ?temp None) = ?temp" using False g(2) by (simp add: SubtractRegion_def)
          then have "fst (AppendRegion heap ?temp g) = g" using False True by (simp add: AppendRegion_def Let_def)
          moreover have "area (iRects a) = {}" using tr(2) True by simp
          ultimately show ?thesis using run small yields_same [OF g, of "union_bound a g" heap] by (simp add: union_bound_def)
        next
          case ne': False
          let ?N = "length (iRects g) + sub_bound g ?temp"
          note ap = AppendRegion_ok [OF g tok False ne' hb]
          have un: "?N \<le> union_bound a g" "?N + 8 \<le> union_bound a g" using b1 by (simp_all add: union_bound_def)
          have "starved heap ?N g \<or> starved heap ?N ?temp \<Longrightarrow> starved heap (union_bound a g) g"
            using starved_temp [OF _ tm(2,3) un(2)] starved_mono [OF _ un(1)] by blast
          then show ?thesis using run small ap(1) un(1) tr(2) by (auto simp: yields_def split: if_splits)
        qed
      qed
    qed
  qed
qed

section \<open>Intersecting and clipping\<close>

lemma fold_append_filter:
  "fold (\<lambda>p2 g. if overlaps p1 p2 then AppendRect heap (rect_Intersection p2 p1) g else g) rs g =
   fold (AppendRect heap) (map (\<lambda>p2. rect_Intersection p2 p1) (filter (overlaps p1) rs)) g"
  by (induction rs arbitrary: g) simp_all

definition meets :: "TRect list \<Rightarrow> TRect list \<Rightarrow> TRect list" where
  "meets rs1 rs2 = concat (map (\<lambda>p1. map (\<lambda>p2. rect_Intersection p2 p1) (filter (overlaps p1) rs2)) rs1)"

lemma fold_append_meets:
  "fold (\<lambda>p1. fold (\<lambda>p2 g. if overlaps p1 p2 then AppendRect heap (rect_Intersection p2 p1) g else g) rs2) rs1 g =
   fold (AppendRect heap) (meets rs1 rs2) g"
  by (induction rs1 arbitrary: g) (simp_all add: meets_def fold_append_filter [abs_def])

lemma meets_one:
  assumes "tiled rs" "\<not> rect_IsEmpty p"
  defines "ms \<equiv> map (\<lambda>p2. rect_Intersection p2 p) (filter (overlaps p) rs)"
  shows "tiled ms \<and> area ms = area rs \<inter> points p"
  using assms(1) unfolding ms_def
proof (induction rs)
  case (Cons r rs)
  have r: "\<not> rect_IsEmpty r" "tiled rs" "points r \<inter> area rs = {}" using Cons.prems by (simp_all add: tiled_Cons)
  show ?case using Cons.IH [OF r(2)] r overlaps_points [OF assms(2) r(1)] by (auto simp: tiled_Cons empty_points)
qed simp

lemma meets_ok:
  assumes "tiled rs1" "tiled rs2"
  shows "tiled (meets rs1 rs2)" "area (meets rs1 rs2) = area rs1 \<inter> area rs2" "length (meets rs1 rs2) \<le> length rs1 * length rs2"
proof -
  have "tiled (meets rs1 rs2) \<and> area (meets rs1 rs2) = area rs1 \<inter> area rs2 \<and> length (meets rs1 rs2) \<le> length rs1 * length rs2"
    using assms(1)
  proof (induction rs1)
    case (Cons p rs1)
    have p: "\<not> rect_IsEmpty p" "tiled rs1" "points p \<inter> area rs1 = {}" using Cons.prems by (simp_all add: tiled_Cons)
    have "meets (p # rs1) rs2 = map (\<lambda>p2. rect_Intersection p2 p) (filter (overlaps p) rs2) @ meets rs1 rs2"
      by (simp add: meets_def)
    moreover have "length (filter (overlaps p) rs2) + length (meets rs1 rs2) \<le> length (p # rs1) * length rs2"
      using add_mono [OF length_filter_le [of "overlaps p" rs2], of "length (meets rs1 rs2)"] Cons.IH [OF p(2)] by simp
    ultimately show ?case using Cons.IH [OF p(2)] meets_one [OF assms(2) p(1)] p(3) by (auto simp: tiled_append)
  qed (simp add: meets_def)
  then show "tiled (meets rs1 rs2)" "area (meets rs1 rs2) = area rs1 \<inter> area rs2" "length (meets rs1 rs2) \<le> length rs1 * length rs2"
    by blast+
qed

lemma Intersection_ok:
  assumes g: "region_ok g" "\<not> iError g" and a: "region_ok a" "\<not> iError a" and b: "region_ok b" "\<not> iError b" and hb: "heap_bounded heap"
  shows "yields heap (length (iRects a) * length (iRects b)) g (area (iRects a) \<inter> area (iRects b)) (region_Intersection heap a b g)"
proof -
  let ?g = "g\<lparr>iRects := []\<rparr>" and ?ps = "meets (iRects a) (iRects b)"
  note m = meets_ok [OF region_okD(2) [OF a(1)] region_okD(2) [OF b(1)]]
  have g0: "mem_ok ?g" "\<not> iError ?g" using g room_nonneg [of g] by (auto simp: region_ok_def mem_ok_def room_def)
  have "outcome heap (length (iRects ?g) + length ?ps) ?g (iRects ?g @ ?ps) (fold (AppendRect heap) ?ps ?g)"
    by (rule append_all_ok [OF g0 hb])
  then have "outcome heap (length (iRects a) * length (iRects b)) ?g ?ps (fold (AppendRect heap) ?ps ?g)"
    using m(3) by (auto intro: outcome_mono)
  then have "outcome heap (length (iRects a) * length (iRects b)) g ?ps (fold (AppendRect heap) ?ps ?g)"
    by (rule outcome_from) (simp_all add: is_fixed_def)
  then show ?thesis using a(2) b(2) m by (auto simp: region_Intersection_def fold_append_meets intro: yieldsI)
qed

definition intersect_bound :: "TRegion \<Rightarrow> TRegion \<Rightarrow> nat" where
  "intersect_bound a g = 8 + length (iRects g) + length (iRects g) * length (iRects a)"

lemma Intersect_ok:
  assumes g: "region_ok g" "\<not> iError g" and a: "region_ok a" "\<not> iError a" and hb: "heap_bounded heap"
  shows "yields heap (intersect_bound a g) g (area (iRects g) \<inter> area (iRects a)) (region_Intersect heap a g)"
proof -
  have mg: "mem_ok g" using g by (simp add: region_ok_def)
  let ?temp = "region_Copy heap g (RRegionBuf_ctor 8)"
  consider "iCount g = 0" | "iCount g \<noteq> 0" "iCount a = 0" | "iCount g \<noteq> 0" "iCount a \<noteq> 0" by blast
  then show ?thesis
  proof cases
    case 1
    then have "region_Intersect heap a g = g" using g a by (simp add: region_Intersect_def)
    then show ?thesis using 1 yields_same [OF g, of "intersect_bound a g" heap] by (simp add: intersect_bound_def)
  next
    case 2
    then have "region_Intersect heap a g = region_Clear g" using g a by (simp add: region_Intersect_def)
    then show ?thesis using 2 mg by (simp add: yields_def)
  next
    case 3
    have t: "yields heap (length (iRects g)) (RRegionBuf_ctor 8) (area (iRects g)) ?temp" by (rule Copy_ok [OF temp_ok(1) g hb])
    have run: "region_Intersect heap a g = region_Intersection heap ?temp a g" using 3 g a by (simp add: region_Intersect_def)
    show ?thesis
    proof (cases "iError ?temp")
      case True
      then have st: "starved heap (length (iRects g)) (RRegionBuf_ctor 8)" using t by (simp add: yields_def)
      have "starved heap (intersect_bound a g) g"
        by (rule starved_temp [OF st temp_ok(2,3)]) (simp add: intersect_bound_def)
      then show ?thesis using True mg unfolding run by (simp add: region_Intersection_def yields_def)
    next
      case False
      then have tr: "area (iRects ?temp) = area (iRects g)" "length (iRects ?temp) \<le> length (iRects g)" using t by (simp_all add: yields_def)
      have "length (iRects ?temp) * length (iRects a) \<le> intersect_bound a g"
        using mult_le_mono1 [OF tr(2), of "length (iRects a)"] unfolding intersect_bound_def by linarith
      then show ?thesis
        using yields_mono [OF Intersection_ok [OF g yields_ok [OF t] False a hb]] tr(1) unfolding run by simp
    qed
  qed
qed

lemma clip_loop_ok:
  "tiled rs \<Longrightarrow> tiled (clip_loop a rs) \<and> area (clip_loop a rs) = area rs \<inter> points a \<and> length (clip_loop a rs) \<le> length rs"
proof (induction rs)
  case (Cons r rs)
  have r: "\<not> rect_IsEmpty r" "tiled rs" "points r \<inter> area rs = {}" using Cons.prems by (simp_all add: tiled_Cons)
  show ?case using Cons.IH [OF r(2)] r(3) by (auto simp: Let_def tiled_Cons empty_points)
qed simp

lemma ClipRect_ok:
  assumes "region_ok g"
  shows "region_ok (ClipRect a g)" "region_area (ClipRect a g) = map_option (\<lambda>A. A \<inter> points a) (region_area g)"
    "iGranularity (ClipRect a g) = iGranularity g" "is_fixed (ClipRect a g) = is_fixed g"
  using assms clip_loop_ok [of "iRects g" a]
  by (auto simp: ClipRect_def region_ok_def mem_ok_def room_def is_fixed_def region_area_def split: if_splits)

lemma SubRegion_ok:
  assumes ok: "region_ok g" "\<not> iError g" "sub_ok sub" and a: "\<not> iError a" and hb: "heap_bounded heap"
  shows "yields heap (sub_bound a g) g (area (iRects g) - area (iRects a)) (fst (SubRegion heap a g sub))"
proof -
  have "fst (SubRegion heap a g sub) = release_spare heap (fst (SubtractRegion heap a g sub))"
    by (simp add: SubRegion_def split: prod.split)
  then show ?thesis using yields_release [OF SubtractRegion_ok(1) [OF ok a hb]] by simp
qed

end
