(* ===== verification/Regn_Tidy.thy ===== *)
theory Regn_Tidy
  imports Regn_Area "HOL-Library.Multiset"
begin

text \<open>
  \<open>TRegion::Tidy\<close>: the passes that join rectangles into rows and columns, the proof that each pass keeps
  the points of the region and leaves no two rectangles to join, and the loop that alternates them.
\<close>

section \<open>Tidying\<close>

text \<open>
  Two rectangles that share a side become one: in a row, with the same top and bottom, or in a column.
  The result takes the place of the second.
\<close>

definition join_row :: "TRect \<Rightarrow> TRect \<Rightarrow> TRect option" where
  "join_row r1 r2 =
     (if iY (iTl r1) = iY (iTl r2) \<and> iY (iBr r1) = iY (iBr r2)
      then if iX (iBr r1) = iX (iTl r2) then Some (mk_rect (iX (iTl r1)) (iY (iTl r2)) (iX (iBr r2)) (iY (iBr r2)))
           else if iX (iTl r1) = iX (iBr r2) then Some (mk_rect (iX (iTl r2)) (iY (iTl r2)) (iX (iBr r1)) (iY (iBr r2)))
           else None
      else None)"

definition join_column :: "TRect \<Rightarrow> TRect \<Rightarrow> TRect option" where
  "join_column r1 r2 =
     (if iX (iTl r1) = iX (iTl r2) \<and> iX (iBr r1) = iX (iBr r2)
      then if iY (iBr r1) = iY (iTl r2) then Some (mk_rect (iX (iTl r2)) (iY (iTl r1)) (iX (iBr r2)) (iY (iBr r2)))
           else if iY (iTl r1) = iY (iBr r2) then Some (mk_rect (iX (iTl r2)) (iY (iTl r2)) (iX (iBr r2)) (iY (iBr r1)))
           else None
      else None)"

text \<open>
  The inner loop of \<open>Tidy\<close>, downwards from \<open>pRect1-1\<close>; the removal of \<open>pRect1\<close>, whose place the last
  rectangle takes; and the outer loop, with the flag that a rectangle was merged.
\<close>

fun join_scan :: "(TRect \<Rightarrow> TRect \<Rightarrow> TRect option) \<Rightarrow> TRect \<Rightarrow> TRect list \<Rightarrow> nat \<Rightarrow> (nat \<times> TRect) option" where
  "join_scan join r1 rs 0 = None"
| "join_scan join r1 rs (Suc j) = (case join r1 (rs ! j) of Some r \<Rightarrow> Some (j, r) | None \<Rightarrow> join_scan join r1 rs j)"

definition drop_merged :: "TRect list \<Rightarrow> nat \<Rightarrow> TRect list" where
  "drop_merged rs p =
     (let last = length rs - 1 in take last (if p \<noteq> last then rs[p := rs ! last] else rs))"

fun join_pass :: "(TRect \<Rightarrow> TRect \<Rightarrow> TRect option) \<Rightarrow> TRect list \<Rightarrow> bool \<Rightarrow> nat \<Rightarrow> TRect list \<times> bool" where
  "join_pass join rs merged 0 = (rs, merged)"
| "join_pass join rs merged (Suc p) =
     (case join_scan join (rs ! Suc p) rs (Suc p) of
        None \<Rightarrow> join_pass join rs merged p
      | Some (j, r) \<Rightarrow> join_pass join (drop_merged (rs[j := r]) (Suc p)) True p)"

lemma length_drop_merged [simp]: "length (drop_merged rs p) = length rs - 1"
  by (simp add: drop_merged_def Let_def)

lemma join_pass_length:
  "p < length rs \<Longrightarrow> length (fst (join_pass join rs m p)) \<le> length rs \<and>
    (snd (join_pass join rs m p) \<longrightarrow> m \<or> length (fst (join_pass join rs m p)) < length rs)"
proof (induction join rs m p rule: join_pass.induct)
  case (2 join rs m p)
  show ?case
  proof (cases "join_scan join (rs ! Suc p) rs (Suc p)")
    case None
    then show ?thesis using 2(1) 2(3) by auto
  next
    case (Some x)
    obtain j r where x: "x = (j, r)" by (cases x)
    let ?rs = "drop_merged (rs[j := r]) (Suc p)"
    have "p < length ?rs" using 2(3) by simp
    from 2(2) [OF Some x [symmetric] this] show ?thesis
      using Some x 2(3) by simp linarith
  qed
qed simp

lemma join_pass_shrinks:
  assumes "join_pass join rs False (length rs - 1) = (rs', m)" "rs \<noteq> []"
  shows "length rs' \<le> length rs" "m \<Longrightarrow> length rs' < length rs"
  using join_pass_length [of "length rs - 1" rs join False] assms by auto

function tidy_loop :: "nat \<Rightarrow> TRect list \<Rightarrow> TRect list" where
  "tidy_loop doMore rs =
     (if length rs > 1 \<and> doMore > 0
      then
        let (rs1, m1) = join_pass join_row rs False (length rs - 1);
            doMore1 = (if m1 then 1 else doMore - 1)
        in if doMore1 > 0
           then
             let (rs2, m2) = join_pass join_column rs1 False (length rs1 - 1)
             in tidy_loop (if m2 then 1 else doMore1 - 1) rs2
           else tidy_loop doMore1 rs1
      else rs)"
  by pat_completeness auto

termination
proof (relation "measures [\<lambda>(d, rs). length rs, fst]", goal_cases)
  case (2 doMore rs x rs1 m1 doMore1 y rs2 m2)
  then have rs: "rs \<noteq> []" by auto
  have one: "length rs1 \<le> length rs" "m1 \<Longrightarrow> length rs1 < length rs"
    using join_pass_shrinks [of join_row rs rs1 m1] 2 rs by auto
  show ?case
  proof (cases "rs1 = []")
    case True
    then show ?thesis using 2 rs by auto
  next
    case False
    then have "length rs2 \<le> length rs1" "m2 \<Longrightarrow> length rs2 < length rs1"
      using join_pass_shrinks [of join_column rs1 rs2 m2] 2 by auto
    then show ?thesis using 2 one by (cases m1; cases m2) auto
  qed
next
  case (3 doMore rs x rs1 m1 doMore1)
  then have rs: "rs \<noteq> []" by auto
  have "length rs1 \<le> length rs" using join_pass_shrinks [of join_row rs rs1 m1] 3 rs by auto
  then show ?case using 3 by (cases m1) auto
qed simp

declare tidy_loop.simps [simp del]

definition region_Tidy :: "(nat \<Rightarrow> bool) \<Rightarrow> TRegion \<Rightarrow> TRegion" where
  "region_Tidy heap g =
     (let g1 = g\<lparr>iRects := tidy_loop 2 (iRects g)\<rparr>
      in if iAllocedRects g1 > iCount g1 then ShrinkRegion heap g1 else g1)"

section \<open>The order of the list does not matter\<close>

lemma mset_drop_merged:
  assumes "p < length rs"
  shows "mset (drop_merged rs p) = mset rs - {#rs ! p#}"
proof -
  have "rs \<noteq> []" using assms by auto
  then have last: "mset (butlast xs) = mset xs - {#last xs#}" if "length xs = length rs" for xs :: "TRect list"
    using that by (cases xs rule: rev_cases) auto
  have take: "take (length rs - 1) xs = butlast xs" if "length xs = length rs" for xs :: "TRect list"
    using that by (simp add: butlast_conv_take)
  show ?thesis
  proof (cases "p = length rs - 1")
    case True
    then show ?thesis
      using \<open>rs \<noteq> []\<close> last [of rs] take [of rs] by (simp add: drop_merged_def last_conv_nth)
  next
    case False
    let ?xs = "rs[p := rs ! (length rs - 1)]"
    have "last ?xs = rs ! (length rs - 1)" using False \<open>rs \<noteq> []\<close> assms by (simp add: last_conv_nth nth_list_update)
    moreover have "mset ?xs = add_mset (rs ! (length rs - 1)) (mset rs - {#rs ! p#})"
      using assms by (simp add: mset_update)
    ultimately show ?thesis
      using False last [of ?xs] take [of ?xs] by (simp add: drop_merged_def)
  qed
qed

lemma sorted_wrt_symmetric:
  assumes sym: "\<And>x y. R x y \<Longrightarrow> R y x" and "\<forall>x \<in> set xs. \<not> R x x"
  shows "sorted_wrt R xs \<longleftrightarrow> distinct xs \<and> (\<forall>x \<in> set xs. \<forall>y \<in> set xs. x \<noteq> y \<longrightarrow> R x y)"
  using assms(2)
proof (induction xs)
  case (Cons a xs)
  have "(\<forall>y \<in> set xs. R a y) \<longleftrightarrow> a \<notin> set xs \<and> (\<forall>y \<in> set xs. a \<noteq> y \<longrightarrow> R a y) \<and> (\<forall>y \<in> set xs. y \<noteq> a \<longrightarrow> R y a)"
    using Cons(2) sym by (metis list.set_intros(1))
  with Cons show ?case by auto
qed simp

lemma tiled_alt: "tiled rs \<longleftrightarrow> (\<forall>r \<in> set rs. \<not> rect_IsEmpty r) \<and> distinct rs \<and> (\<forall>r \<in> set rs. \<forall>s \<in> set rs. r \<noteq> s \<longrightarrow> apart r s)"
proof (cases "\<forall>r \<in> set rs. \<not> rect_IsEmpty r")
  case True
  then have "\<forall>r \<in> set rs. \<not> apart r r" by (simp add: apart_def empty_points)
  with sorted_wrt_symmetric [of apart rs] True show ?thesis
    by (metis tiled_def apart_sym)
qed (auto simp: tiled_def)

lemma mset_tiled:
  assumes "mset rs = mset rs'"
  shows "tiled rs = tiled rs'" "area rs = area rs'"
proof -
  have "set rs = set rs'" "distinct rs = distinct rs'"
    using assms by (rule mset_eq_setD, rule mset_eq_imp_distinct_iff)
  then show "tiled rs = tiled rs'" "area rs = area rs'" by (simp_all only: tiled_alt area_def)
qed

section \<open>Joining along an edge\<close>

text \<open>
  What the two joins have in common: they succeed for the rectangles that share an edge, the result has
  the points of both, and its edges are edges they had.
\<close>

locale edge_join =
  fixes join :: "TRect \<Rightarrow> TRect \<Rightarrow> TRect option" and adj :: "TRect \<Rightarrow> TRect \<Rightarrow> bool"
  assumes joins: "join r s = None \<longleftrightarrow> \<not> adj r s"
    and adj_sym: "adj r s \<Longrightarrow> adj s r"
    and adj_irrefl: "\<not> rect_IsEmpty r \<Longrightarrow> \<not> adj r r"
    and joined: "join r s = Some t \<Longrightarrow> \<not> rect_IsEmpty r \<Longrightarrow> \<not> rect_IsEmpty s \<Longrightarrow> points t = points r \<union> points s"
    and edges: "join r s = Some t \<Longrightarrow> adj x t \<Longrightarrow> adj x r \<or> adj x s"
begin

definition settled :: "TRect list \<Rightarrow> bool" where
  "settled rs \<longleftrightarrow> (\<forall>r \<in> set rs. \<forall>s \<in> set rs. \<not> adj r s)"

lemma scan_None: "join_scan join r rs k = None \<Longrightarrow> i < k \<Longrightarrow> \<not> adj r (rs ! i)"
  by (induction k) (auto simp: joins less_Suc_eq split: option.splits)

lemma scan_Some: "join_scan join r rs k = Some (j, t) \<Longrightarrow> j < k \<and> join r (rs ! j) = Some t"
  by (induction k) (auto split: option.splits)

lemma merge_ok:
  assumes "tiled rs" "p < length rs" "j < p" "join (rs ! p) (rs ! j) = Some t"
  defines "rs' \<equiv> drop_merged (rs[j := t]) p"
  shows "tiled rs'" "area rs' = area rs" "set rs' \<subseteq> insert t (set rs)"
proof -
  have "distinct rs" using assms by (simp add: tiled_alt)
  then have "rs ! p \<noteq> rs ! j" using assms by (simp add: nth_eq_iff_index_eq)
  then have "rs ! p \<in># mset rs - {#rs ! j#}" using assms by (simp add: in_diff_count)
  then have m: "mset rs - {#rs ! j#} = add_mset (rs ! p) (mset rs - {#rs ! j#} - {#rs ! p#})" by (rule insert_DiffM [symmetric])
  obtain xs where xs: "mset xs = mset rs - {#rs ! j#} - {#rs ! p#}" using ex_mset by blast
  have "rs ! j \<in># mset rs" using assms by simp
  then have "mset rs = add_mset (rs ! j) (mset rs - {#rs ! j#})" by simp
  with m xs have old: "mset rs = mset (rs ! p # rs ! j # xs)" by (metis add_mset_commute mset.simps(2))
  have new: "mset rs' = mset (t # xs)"
  proof -
    have "rs[j := t] ! p = rs ! p" using assms by simp
    then have "mset rs' = mset (rs[j := t]) - {#rs ! p#}" using assms by (simp add: mset_drop_merged)
    also have "\<dots> = add_mset t (mset rs - {#rs ! j#}) - {#rs ! p#}" using assms by (simp add: mset_update)
    also have "\<dots> = mset (t # xs)" using old by simp
    finally show ?thesis .
  qed
  have "\<not> rect_IsEmpty (rs ! p)" "\<not> rect_IsEmpty (rs ! j)" using assms by (simp_all add: tiled_alt)
  with joined [OF assms(4)] have t: "points t = points (rs ! p) \<union> points (rs ! j)" by blast
  have "tiled (rs ! p # rs ! j # xs)" using mset_tiled(1) [OF old] assms by simp
  then have "tiled (t # xs)" using t by (auto simp: tiled_Cons empty_points)
  then show "tiled rs'" using mset_tiled(1) [OF new] by simp
  show "area rs' = area rs" unfolding mset_tiled(2) [OF new] mset_tiled(2) [OF old] by (auto simp: t)
  show "set rs' \<subseteq> insert t (set rs)" using mset_eq_setD [OF new] mset_eq_setD [OF old] by auto
qed

lemma drop_merged_rest:
  assumes "j < p" "p < length rs" "p \<le> i" "i < length rs - 1"
  shows "\<exists>k. p < k \<and> k < length rs \<and> drop_merged (rs[j := t]) p ! i = rs ! k"
proof (cases "i = p")
  case False
  then show ?thesis using assms by (intro exI [of _ i]) (auto simp: drop_merged_def Let_def nth_list_update)
qed (use assms in \<open>auto simp: drop_merged_def Let_def nth_list_update\<close>)

lemma pass_ok:
  assumes "tiled rs" "p < length rs" "\<And>i s. p < i \<Longrightarrow> i < length rs \<Longrightarrow> s \<in> set rs \<Longrightarrow> \<not> adj (rs ! i) s"
    "join_pass join rs m p = (rs', m')"
  shows "tiled rs' \<and> area rs' = area rs \<and> settled rs' \<and> (m \<longrightarrow> m') \<and> (\<not> m' \<longrightarrow> rs' = rs)"
  using assms
proof (induction p arbitrary: rs m)
  case 0
  have "\<not> adj r s" if rs: "r \<in> set rs" "s \<in> set rs" for r s
  proof (rule notI)
    assume adj: "adj r s"
    obtain i k where ik: "i < length rs" "r = rs ! i" "k < length rs" "s = rs ! k" using rs by (metis in_set_conv_nth)
    have "i = 0" using 0(3) [of i s] adj ik rs by blast
    moreover have "k = 0" using 0(3) [of k r] adj_sym [OF adj] ik rs by blast
    ultimately have "adj r r" using adj ik by simp
    moreover have "\<not> rect_IsEmpty r" using 0(1) rs by (simp add: tiled_alt)
    ultimately show False using adj_irrefl by blast
  qed
  then show ?case using 0 by (simp add: settled_def)
next
  case (Suc p)
  show ?case
  proof (cases "join_scan join (rs ! Suc p) rs (Suc p)")
    case None
    have far: "\<not> adj (rs ! i) s" if i: "p < i" "i < length rs" "s \<in> set rs" for i s
    proof (cases "i = Suc p")
      case True
      obtain k where k: "k < length rs" "s = rs ! k" using i(3) by (metis in_set_conv_nth)
      show ?thesis
      proof (rule notI)
        assume adj: "adj (rs ! i) s"
        have "\<not> k < Suc p" using scan_None [OF None] adj True k by blast
        moreover have "k \<noteq> Suc p" using adj_irrefl [of s] adj k True Suc(2) i by (auto simp: tiled_alt)
        ultimately have "Suc p < k" by simp
        then have "\<not> adj s (rs ! i)" using Suc(4) k i nth_mem by blast
        then show False using adj_sym adj by blast
      qed
    next
      case False
      with i have "Suc p < i" by simp
      then show ?thesis using Suc(4) i by blast
    qed
    show ?thesis using Suc(1) [OF Suc(2) _ far, of m] Suc(3,5) None by simp
  next
    case (Some x)
    obtain j t where x: "x = (j, t)" by (cases x)
    then have j: "j < Suc p" "join (rs ! Suc p) (rs ! j) = Some t" using scan_Some Some by blast+
    let ?rs = "drop_merged (rs[j := t]) (Suc p)"
    note merged = merge_ok [OF Suc(2) Suc(3) j]
    have far: "\<not> adj (?rs ! i) s" if i: "p < i" "i < length ?rs" "s \<in> set ?rs" for i s
    proof -
      obtain k where k: "Suc p < k" "k < length rs" "?rs ! i = rs ! k"
        using drop_merged_rest [OF j(1) Suc(3), of i t] i by auto
      have old: "\<not> adj (rs ! k) u" if "u \<in> set rs" for u using Suc(4) k that by blast
      have "\<not> adj (rs ! k) t" using edges [OF j(2)] old Suc(3) j(1) by (meson Suc_lessD less_trans nth_mem)
      then show ?thesis using old merged(3) i k by auto
    qed
    have "p < length ?rs" using Suc(3) by simp
    from Suc(1) [OF merged(1) this far] show ?thesis
      using Suc(5) Some x merged(2) by auto
  qed
qed

end

section \<open>Rows and columns\<close>

definition row_adj :: "TRect \<Rightarrow> TRect \<Rightarrow> bool" where
  "row_adj r s \<longleftrightarrow> iY (iTl r) = iY (iTl s) \<and> iY (iBr r) = iY (iBr s) \<and> (iX (iBr r) = iX (iTl s) \<or> iX (iTl r) = iX (iBr s))"

definition column_adj :: "TRect \<Rightarrow> TRect \<Rightarrow> bool" where
  "column_adj r s \<longleftrightarrow> iX (iTl r) = iX (iTl s) \<and> iX (iBr r) = iX (iBr s) \<and> (iY (iBr r) = iY (iTl s) \<or> iY (iTl r) = iY (iBr s))"

interpretation rows: edge_join join_row row_adj
  by unfold_locales
    (auto simp: join_row_def row_adj_def rect_IsEmpty_def points_iff split: if_splits)

interpretation columns: edge_join join_column column_adj
  by unfold_locales
    (auto simp: join_column_def column_adj_def rect_IsEmpty_def points_iff split: if_splits)

lemma row_pass:
  assumes "tiled rs" "rs \<noteq> []" "join_pass join_row rs False (length rs - 1) = (rs', m)"
  shows "tiled rs'" "area rs' = area rs" "rows.settled rs'" "\<not> m \<Longrightarrow> rs' = rs"
  using rows.pass_ok [OF assms(1) _ _ assms(3)] assms(2) by auto

lemma column_pass:
  assumes "tiled rs" "rs \<noteq> []" "join_pass join_column rs False (length rs - 1) = (rs', m)"
  shows "tiled rs'" "area rs' = area rs" "columns.settled rs'" "\<not> m \<Longrightarrow> rs' = rs"
  using columns.pass_ok [OF assms(1) _ _ assms(3)] assms(2) by auto

lemma settled_single:
  assumes "tiled rs" "\<not> 1 < length rs"
  shows "rows.settled rs" "columns.settled rs"
proof -
  have "rs = [] \<or> (\<exists>r. rs = [r])" using assms(2) by (cases rs) auto
  then show "rows.settled rs" "columns.settled rs"
    using assms(1) rows.adj_irrefl columns.adj_irrefl by (auto simp: rows.settled_def columns.settled_def)
qed

lemma area_nonempty: "tiled rs \<Longrightarrow> area rs = {} \<longleftrightarrow> rs = []"
  by (cases rs) (auto simp: tiled_Cons empty_points)

lemma tidy_loop_ok:
  assumes "tiled rs" "d < 2 \<Longrightarrow> columns.settled rs" "d = 0 \<Longrightarrow> rows.settled rs"
  shows "tiled (tidy_loop d rs) \<and> area (tidy_loop d rs) = area rs \<and> length (tidy_loop d rs) \<le> length rs \<and>
    rows.settled (tidy_loop d rs) \<and> columns.settled (tidy_loop d rs)"
  using assms
proof (induction d rs rule: tidy_loop.induct)
  case (1 d rs)
  show ?case
  proof (cases "length rs > 1 \<and> d > 0")
    case False
    then show ?thesis using 1(3-5) settled_single [OF 1(3)] by (auto simp: tidy_loop.simps [of d rs])
  next
    case True
    then have ne: "rs \<noteq> []" by auto
    obtain rs1 m1 where p1: "join_pass join_row rs False (length rs - 1) = (rs1, m1)" by fastforce
    define d1 where "d1 = (if m1 then 1 else d - 1)"
    note r1 = row_pass [OF 1(3) ne p1] and s1 = join_pass_shrinks [OF p1 ne]
    have ne1: "rs1 \<noteq> []" using r1(1,2) 1(3) ne area_nonempty by metis
    show ?thesis
    proof (cases "d1 > 0")
      case False
      then have d: "d = 1" "\<not> m1" using True by (auto simp: d1_def split: if_splits)
      have "tidy_loop d rs = tidy_loop d1 rs1" using True False p1 by (subst tidy_loop.simps) (simp add: d1_def [symmetric])
      moreover have "d1 = 0" "rs1 = rs" using False r1(4) d by auto
      moreover have "tidy_loop 0 rs = rs" by (simp add: tidy_loop.simps)
      ultimately show ?thesis using 1(3,4) r1 d by simp
    next
      case pos: True
      obtain rs2 m2 where p2: "join_pass join_column rs1 False (length rs1 - 1) = (rs2, m2)" by fastforce
      define d2 where "d2 = (if m2 then 1 else d1 - 1)"
      note r2 = column_pass [OF r1(1) ne1 p2] and s2 = join_pass_shrinks [OF p2 ne1]
      have eq: "tidy_loop d rs = tidy_loop d2 rs2"
        using True pos p1 p2 by (subst tidy_loop.simps) (simp add: d1_def [symmetric] d2_def [symmetric])
      have zero: "rows.settled rs2" if "d2 = 0" using that r1(3) r2(4) by (auto simp: d2_def split: if_splits)
      from 1(1) [OF True p1 [symmetric] refl d1_def pos p2 [symmetric] refl, folded d2_def, OF r2(1) r2(3) zero]
      show ?thesis unfolding eq using r2(2) r1(2) s1(1) s2(1) by simp
    qed
  qed
qed

lemma Tidy_ok:
  assumes ok: "region_ok g" "\<not> iError g"
  shows "yields heap (length (iRects g)) g (area (iRects g)) (region_Tidy heap g)"
    "rows.settled (iRects (region_Tidy heap g))" "columns.settled (iRects (region_Tidy heap g))"
proof -
  let ?rs = "tidy_loop 2 (iRects g)" and ?g = "g\<lparr>iRects := tidy_loop 2 (iRects g)\<rparr>"
  have t: "tiled ?rs" "area ?rs = area (iRects g)" "length ?rs \<le> length (iRects g)" "rows.settled ?rs" "columns.settled ?rs"
    using tidy_loop_ok [of "iRects g" 2] assms by (auto simp: region_ok_def)
  have tidied: "region_Tidy heap g = release_spare heap ?g"
    using ok(2) by (simp add: region_Tidy_def release_spare_def Let_def)
  have "region_ok ?g" using ok t by (auto simp: region_ok_def mem_ok_def room_def split: if_splits)
  then have "yields heap (length (iRects g)) ?g (area (iRects g)) ?g"
    using yields_same [of ?g "length (iRects g)" heap] ok(2) t by simp
  from yields_from [OF yields_release [OF this]]
  show "yields heap (length (iRects g)) g (area (iRects g)) (region_Tidy heap g)"
    unfolding tidied by (simp add: is_fixed_def)
  have "iRects (release_spare heap ?g) = ?rs \<or> iRects (release_spare heap ?g) = []"
    by (simp add: release_spare_def ShrinkRegion_def ForceError_def)
  then show "rows.settled (iRects (region_Tidy heap g))" "columns.settled (iRects (region_Tidy heap g))"
    unfolding tidied using t(4,5) by (auto simp: rows.settled_def columns.settled_def)
qed

lemma Tidy_error:
  assumes "region_ok g" "iError g"
  shows "region_ok (region_Tidy heap g)" "iError (region_Tidy heap g)" "iGranularity (region_Tidy heap g) = iGranularity g"
    "is_fixed (region_Tidy heap g) = is_fixed g"
  using assms
  by (auto simp: region_Tidy_def Let_def ShrinkRegion_def region_ok_def mem_ok_def room_def tidy_loop.simps is_fixed_def split: if_splits)

end
