(* ===== verification/Regn_Props.thy ===== *)
theory Regn_Props
  imports Regn_Tidy
begin

text \<open>
  What the operations of a region do to its points, one operation at a time and over any history, and
  what its queries answer.
\<close>

section \<open>One operation at a time\<close>

datatype region_cmd =
    RAddRect TRect
  | RSubRect TRect
  | RUnion TRegion
  | RIntersect TRegion
  | RIntersection TRegion TRegion
  | RSubRegion TRegion
  | RClipRect TRect
  | RCopy TRegion
  | RTidy
  | RClear
  | RForceError

fun region_step :: "(nat \<Rightarrow> bool) \<Rightarrow> region_cmd \<Rightarrow> TRegion \<Rightarrow> TRegion" where
  "region_step heap (RAddRect a) g = AddRect heap a g"
| "region_step heap (RSubRect a) g = fst (SubRect heap a g None)"
| "region_step heap (RUnion a) g = region_Union heap a g"
| "region_step heap (RIntersect a) g = region_Intersect heap a g"
| "region_step heap (RIntersection a b) g = region_Intersection heap a b g"
| "region_step heap (RSubRegion a) g = fst (SubRegion heap a g None)"
| "region_step heap (RClipRect a) g = ClipRect a g"
| "region_step heap (RCopy a) g = region_Copy heap a g"
| "region_step heap RTidy g = region_Tidy heap g"
| "region_step heap RClear g = region_Clear g"
| "region_step heap RForceError g = ForceError g"

text \<open>The same operations on a set of points, or on \<open>None\<close>, which stands for the error flag.\<close>

definition both :: "('a \<Rightarrow> 'a \<Rightarrow> 'a) \<Rightarrow> 'a option \<Rightarrow> 'a option \<Rightarrow> 'a option" where
  "both f x y = (case (x, y) of (Some a, Some b) \<Rightarrow> Some (f a b) | _ \<Rightarrow> None)"

fun area_step :: "region_cmd \<Rightarrow> TPoint set option \<Rightarrow> TPoint set option" where
  "area_step (RAddRect a) A = map_option (\<lambda>A. A \<union> points a) A"
| "area_step (RSubRect a) A = map_option (\<lambda>A. A - points a) A"
| "area_step (RUnion a) A = both (\<union>) A (region_area a)"
| "area_step (RIntersect a) A = both (\<inter>) A (region_area a)"
| "area_step (RIntersection a b) A = both (\<lambda>_ B. B) A (both (\<inter>) (region_area a) (region_area b))"
| "area_step (RSubRegion a) A = both (-) A (region_area a)"
| "area_step (RClipRect a) A = map_option (\<lambda>A. A \<inter> points a) A"
| "area_step (RCopy a) A = region_area a"
| "area_step RTidy A = A"
| "area_step RClear A = Some {}"
| "area_step RForceError A = None"

text \<open>The rectangles an operation may need at once, and the regions it reads.\<close>

fun step_bound :: "region_cmd \<Rightarrow> TRegion \<Rightarrow> nat" where
  "step_bound (RAddRect a) g = 4 * length (iRects g) + 1"
| "step_bound (RSubRect a) g = 4 * length (iRects g)"
| "step_bound (RUnion a) g = union_bound a g"
| "step_bound (RIntersect a) g = intersect_bound a g"
| "step_bound (RIntersection a b) g = length (iRects a) * length (iRects b)"
| "step_bound (RSubRegion a) g = sub_bound a g"
| "step_bound (RCopy a) g = length (iRects a)"
| "step_bound _ g = length (iRects g)"

fun reads_ok :: "region_cmd \<Rightarrow> bool" where
  "reads_ok (RUnion a) = region_ok a"
| "reads_ok (RIntersect a) = region_ok a"
| "reads_ok (RIntersection a b) = (region_ok a \<and> region_ok b)"
| "reads_ok (RSubRegion a) = region_ok a"
| "reads_ok (RCopy a) = region_ok a"
| "reads_ok _ = True"

text \<open>
  The result of a step: a sound region with the points \<open>A\<close>, or one with its error flag set where
  \<open>A\<close> does not ask for it because memory was short.
\<close>

definition step_post :: "(nat \<Rightarrow> bool) \<Rightarrow> nat \<Rightarrow> TRegion \<Rightarrow> TPoint set option \<Rightarrow> TRegion \<Rightarrow> bool" where
  "step_post heap N g A g' \<longleftrightarrow> region_ok g' \<and> iGranularity g' = iGranularity g \<and> is_fixed g' = is_fixed g \<and>
     (region_area g' = A \<or> iError g' \<and> starved heap N g)"

lemma yields_post: "yields heap N g P g' \<Longrightarrow> step_post heap N g (Some P) g'"
  using yields_ok [of heap N g P g'] by (auto simp: yields_def step_post_def region_area_def split: if_splits)

lemma error_area: "iError g \<Longrightarrow> region_area g = None" "\<not> iError g \<Longrightarrow> region_area g = Some (area (iRects g))"
  by (simp_all add: region_area_def)

lemma both_simps [simp]: "both f None y = None" "both f x None = None" "both f (Some a) (Some b) = Some (f a b)"
  by (simp_all add: both_def split: option.split)

lemma clear_post:
  assumes "region_ok g"
  shows "step_post heap N g (Some {}) (region_Clear g)" "step_post heap N g None (ForceError g)"
  using assms by (simp_all add: step_post_def region_ok_def region_area_def)

lemma same_post: "region_ok g \<Longrightarrow> region_area g = A \<Longrightarrow> step_post heap N g A g"
  by (simp add: step_post_def)

lemma error_rects: "region_ok g \<Longrightarrow> iError g \<Longrightarrow> iRects g = [] \<and> g\<lparr>iRects := []\<rparr> = g"
  by (cases g) (simp add: region_ok_def mem_ok_def)

text \<open>A region with its error flag set stays as it is, or is set again.\<close>

lemma step_error:
  assumes "region_ok g" "iError g"
  shows "AddRect heap a g = g" "fst (SubRect heap a g None) = g"
    "region_Union heap r g \<in> {g, ForceError g}" "region_Intersect heap r g \<in> {g, ForceError g}"
    "region_Intersection heap r s g \<in> {g, ForceError g}" "fst (SubRegion heap r g None) = g" "ClipRect a g = g"
proof -
  note g = error_rects [OF assms]
  have inner: "fold (\<lambda>p2 g. if overlaps p p2 then AppendRect heap (rect_Intersection p2 p) g else g) ps g = g" for p ps
    by (induction ps) (simp_all add: AppendRect_error assms(2))
  have outer: "fold (\<lambda>p. fold (\<lambda>p2 g. if overlaps p p2 then AppendRect heap (rect_Intersection p2 p) g else g) qs) ps g = g" for ps qs
    by (induction ps) (simp_all add: inner)
  show "region_Intersection heap r s g \<in> {g, ForceError g}" using g by (simp add: region_Intersection_def outer)
  show "AddRect heap a g = g" "fst (SubRect heap a g None) = g" "fst (SubRegion heap r g None) = g" "ClipRect a g = g"
    using g assms(2)
    by (simp_all add: AddRect_def SubRect_def cut_loop.simps SubRegion_def SubtractRegion_def release_spare_def ClipRect_def)
  show "region_Union heap r g \<in> {g, ForceError g}" "region_Intersect heap r g \<in> {g, ForceError g}"
    using assms(2) by (simp_all add: region_Union_def region_Intersect_def)
qed

lemma step_of_error:
  assumes "region_ok g" "iError g" "reads_ok c" "heap_bounded heap"
  shows "step_post heap (step_bound c g) g (area_step c (region_area g)) (region_step heap c g)"
proof -
  have keep: "step_post heap N g None g'" if "g' \<in> {g, ForceError g}" for N g'
    using that clear_post(2) [OF assms(1)] same_post [OF assms(1)] error_area(1) [OF assms(2)] by auto
  show ?thesis
  proof (cases c)
    case (RCopy a)
    show ?thesis
    proof (cases "iError a")
      case True
      then show ?thesis using RCopy keep by (simp add: region_Copy_def error_area)
    next
      case False
      have "mem_ok g" using assms(1) by (simp add: region_ok_def)
      from yields_post [OF Copy_ok [OF this _ False assms(4)]] show ?thesis using RCopy assms(3) error_area(2) [OF False] by simp
    qed
  next
    case RTidy
    have "step_post heap N g None (region_Tidy heap g)" for N
      using Tidy_error [OF assms(1,2), of heap] by (simp add: step_post_def region_area_def)
    then show ?thesis using RTidy error_area(1) [OF assms(2)] by simp
  qed (use keep step_error [OF assms(1,2)] error_area(1) [OF assms(2)] clear_post [OF assms(1)] in \<open>simp_all\<close>)
qed

lemma step_of_sound:
  assumes ok: "region_ok g" "\<not> iError g" and c: "reads_ok c" and hb: "heap_bounded heap"
  shows "step_post heap (step_bound c g) g (area_step c (region_area g)) (region_step heap c g)"
proof -
  have force: "step_post heap N g None (ForceError g)" for N by (rule clear_post(2) [OF ok(1)])
  have sub: "sub_ok None" by (simp add: sub_ok_def)
  have mem: "mem_ok g" using ok(1) by (simp add: region_ok_def)
  note g = error_area(2) [OF ok(2)]
  show ?thesis
  proof (cases c)
    case (RAddRect a)
    then show ?thesis using yields_post [OF AddRect_ok [OF ok hb, of a]] g by simp
  next
    case (RSubRect a)
    then show ?thesis using SubRect_ok [OF ok sub hb, of a] yields_post g by (simp add: cut_post_def)
  next
    case (RUnion a)
    then show ?thesis
      using yields_post [OF Union_ok [OF ok _ _ hb, of a]] c g force
      by (cases "iError a") (simp_all add: error_area region_Union_def)
  next
    case (RIntersect a)
    then show ?thesis
      using yields_post [OF Intersect_ok [OF ok _ _ hb, of a]] c g force
      by (cases "iError a") (simp_all add: error_area region_Intersect_def)
  next
    case (RIntersection a b)
    then show ?thesis
      using yields_post [OF Intersection_ok [OF ok _ _ _ _ hb, of a b]] c g force
      by (cases "iError a"; cases "iError b") (simp_all add: error_area region_Intersection_def)
  next
    case (RSubRegion a)
    have "release_spare heap (ForceError g) = ForceError g" by (simp add: release_spare_def ForceError_def)
    then show ?thesis
      using yields_post [OF SubRegion_ok [OF ok sub _ hb, of a]] RSubRegion c g force ok(2)
      by (cases "iError a") (simp_all add: error_area SubRegion_def SubtractRegion_def)
  next
    case (RClipRect a)
    then show ?thesis using ClipRect_ok [OF ok(1), of a] by (simp add: step_post_def)
  next
    case (RCopy a)
    then show ?thesis
      using yields_post [OF Copy_ok [OF mem _ _ hb, of a]] c force
      by (cases "iError a") (simp_all add: error_area region_Copy_def)
  next
    case RTidy
    then show ?thesis using yields_post [OF Tidy_ok(1) [OF ok]] g by simp
  qed (simp_all add: clear_post [OF ok(1)])
qed

text \<open>
  C33. Every operation of a region does to its points what it is named for (a union, a difference, an
  intersection, a copy, nothing at all for \<open>Tidy\<close>), and keeps its rectangles not empty and without a
  point in common and its count within its memory. It can only fail by setting the error flag, and when the
  operation does not ask for that, either the region is fixed or a request was refused for at most
  the given number of rectangles and the granularity.
\<close>

theorem region_step_refines:
  assumes "region_ok g" "reads_ok c" "heap_bounded heap"
  shows "step_post heap (step_bound c g) g (area_step c (region_area g)) (region_step heap c g)"
  using step_of_error [OF assms(1) _ assms(2,3)] step_of_sound [OF assms(1) _ assms(2,3)] by blast

section \<open>Histories\<close>

text \<open>
  A component that may lose its value on any step and then says so: its histories agree with those of
  the specification, or the value is lost. A step of the specification does not get a lost value back,
  unless it does not depend on the value at all.
\<close>

locale lossy_refinement =
  fixes inv :: "'s \<Rightarrow> bool" and abs :: "'s \<Rightarrow> 'a option" and ok :: "'c \<Rightarrow> bool"
    and step :: "'c \<Rightarrow> 's \<Rightarrow> 's" and spec :: "'c \<Rightarrow> 'a option \<Rightarrow> 'a option"
  assumes step_inv: "inv s \<Longrightarrow> ok c \<Longrightarrow> inv (step c s)"
    and step_abs: "inv s \<Longrightarrow> ok c \<Longrightarrow> abs (step c s) = None \<or> abs (step c s) = spec c (abs s)"
    and lost: "spec c None = None \<or> spec c None = spec c x"
begin

lemma history_inv: "inv s \<Longrightarrow> list_all ok cs \<Longrightarrow> inv (fold step cs s)"
  by (induction cs arbitrary: s) (auto simp: step_inv)

lemma history_abs: "inv s \<Longrightarrow> list_all ok cs \<Longrightarrow> abs s = None \<or> abs s = a \<Longrightarrow>
    abs (fold step cs s) = None \<or> abs (fold step cs s) = fold spec cs a"
proof (induction cs arbitrary: s a)
  case (Cons c cs)
  have "abs (step c s) = None \<or> abs (step c s) = spec c a"
    using step_abs [of s c] lost [of c a] Cons.prems by auto
  then show ?case using Cons.IH [of "step c s" "spec c a"] step_inv Cons.prems by simp
qed simp

end

text \<open>A command comes with what the heap answers while it runs.\<close>

definition cmd_ok :: "(nat \<Rightarrow> bool) \<times> region_cmd \<Rightarrow> bool" where
  "cmd_ok c \<longleftrightarrow> heap_bounded (fst c) \<and> reads_ok (snd c)"

interpretation point_region: lossy_refinement region_ok region_area cmd_ok "\<lambda>c. region_step (fst c) (snd c)" "\<lambda>c. area_step (snd c)"
proof
  fix g and c :: "(nat \<Rightarrow> bool) \<times> region_cmd"
  assume "region_ok g" "cmd_ok c"
  then have "step_post (fst c) (step_bound (snd c) g) g (area_step (snd c) (region_area g)) (region_step (fst c) (snd c) g)"
    using step_of_error [of g "snd c" "fst c"] step_of_sound [of g "snd c" "fst c"] by (auto simp: cmd_ok_def)
  then show "region_ok (region_step (fst c) (snd c) g)"
    "region_area (region_step (fst c) (snd c) g) = None \<or> region_area (region_step (fst c) (snd c) g) = area_step (snd c) (region_area g)"
    by (auto simp: step_post_def error_area)
next
  fix c :: "(nat \<Rightarrow> bool) \<times> region_cmd" and x
  show "area_step (snd c) None = None \<or> area_step (snd c) None = area_step (snd c) x" by (cases "snd c") simp_all
qed

text \<open>
  C34. After any sequence of operations, each with its own answers from the heap, the region either has
  exactly the points the sequence gives on sets of points, or its error flag is set; and it is sound.
  A region that lost its area reports it until a \<open>Clear\<close> or a \<open>Copy\<close> gives it a new one.
\<close>

theorem region_history:
  assumes "region_ok g" "list_all cmd_ok cs"
  defines "g' \<equiv> fold (\<lambda>c. region_step (fst c) (snd c)) cs g"
  shows "region_ok g' \<and> (iError g' \<or> region_area g' = fold (\<lambda>c. area_step (snd c)) cs (region_area g))"
  using point_region.history_inv [OF assms(1,2)] point_region.history_abs [OF assms(1,2), of "region_area g"]
  unfolding g'_def by (auto simp: region_area_def split: if_splits)

abbreviation (input) small_heap :: "nat \<Rightarrow> bool" where "small_heap \<equiv> \<lambda>n. n < 100"

lemma small_heap_bounded: "heap_bounded small_heap"
  by (simp add: heap_bounded_def)

lemma new_region_ok: "region_ok (RRegion_ctor 5)" "region_area (RRegion_ctor 5) = Some {}" "\<not> is_fixed (RRegion_ctor 5)"
  by (simp_all add: RRegion_ctor_def TRegion_ctor_def region_ok_def mem_ok_def room_def region_area_def is_fixed_def)

theorem region_step_refines_witness:
  "step_post small_heap 1 (RRegion_ctor 5) (Some (points (mk_rect 0 0 10 10))) (AddRect small_heap (mk_rect 0 0 10 10) (RRegion_ctor 5))"
  using region_step_refines [of "RRegion_ctor 5" "RAddRect (mk_rect 0 0 10 10)" small_heap] new_region_ok(1,2) small_heap_bounded
  by (simp add: RRegion_ctor_def TRegion_ctor_def)

text \<open>A square with a hole.\<close>

lemma hole_history:
  "fold (\<lambda>c. region_step (fst c) (snd c)) [(small_heap, RAddRect (mk_rect 0 0 10 10)), (small_heap, RSubRect (mk_rect 3 3 6 6))] (RRegion_ctor 5) =
   \<lparr>iRects = [mk_rect 0 6 10 10, mk_rect 0 0 10 3, mk_rect 6 3 10 6, mk_rect 0 3 3 6], iError = False, iAllocedRects = 5, iGranularity = 5\<rparr>"
  by (simp add: RRegion_ctor_def TRegion_ctor_def AddRect_def rect_IsEmpty_def AppendRect_def ExpandRegion_def release_spare_def
      ShrinkRegion_def SubRect_def cut_loop.simps overlaps_def rect_Intersection_def DeleteRect_def cut_pieces_def)

theorem region_history_witness:
  "region_area \<lparr>iRects = [mk_rect 0 6 10 10, mk_rect 0 0 10 3, mk_rect 6 3 10 6, mk_rect 0 3 3 6], iError = False,
     iAllocedRects = 5, iGranularity = 5\<rparr> = Some (points (mk_rect 0 0 10 10) - points (mk_rect 3 3 6 6))"
  using region_history [of "RRegion_ctor 5" "[(small_heap, RAddRect (mk_rect 0 0 10 10)), (small_heap, RSubRect (mk_rect 3 3 6 6))]"]
    new_region_ok(1,2) small_heap_bounded
  unfolding hole_history by (simp add: cmd_ok_def)

section \<open>Tidying\<close>

text \<open>
  C35. \<open>Tidy\<close> keeps the points of a region, never adds a rectangle, and leaves no two rectangles that
  share a whole edge.
\<close>

theorem Tidy_complete:
  assumes "region_ok g" "\<not> iError g"
  shows "yields heap (length (iRects g)) g (area (iRects g)) (region_Tidy heap g) \<and>
    (\<forall>r \<in> set (iRects (region_Tidy heap g)). \<forall>s \<in> set (iRects (region_Tidy heap g)). \<not> row_adj r s \<and> \<not> column_adj r s)"
  using Tidy_ok [OF assms] by (simp add: rows.settled_def columns.settled_def)

lemma four_squares_ok:
  "region_ok \<lparr>iRects = [mk_rect 0 0 1 1, mk_rect 1 1 2 2, mk_rect 0 1 1 2, mk_rect 1 0 2 1], iError = False, iAllocedRects = 4, iGranularity = 1\<rparr>"
  by (auto simp: region_ok_def mem_ok_def room_def tiled_Cons rect_IsEmpty_def points_iff)

theorem Tidy_complete_witness:
  "points (mk_rect 0 0 2 2) = area [mk_rect 0 0 1 1, mk_rect 1 1 2 2, mk_rect 0 1 1 2, mk_rect 1 0 2 1]"
proof -
  have "tidy_loop 2 [mk_rect 0 0 1 1, mk_rect 1 1 2 2, mk_rect 0 1 1 2, mk_rect 1 0 2 1] = [mk_rect 0 0 2 2]"
    by (simp add: tidy_loop.simps numeral_eq_Suc join_row_def join_column_def drop_merged_def mk_rect_def)
  then show ?thesis
    using Tidy_complete [OF four_squares_ok, of small_heap]
    by (simp add: yields_def region_Tidy_def ShrinkRegion_def)
qed

section \<open>The points that are removed\<close>

lemma cut_loop_some: "snd (cut_loop add heap a index limit g sub) = None \<longleftrightarrow> sub = None"
proof (induction add heap a index limit g sub rule: cut_loop.induct)
  case (1 add heap a index limit g sub)
  then show ?case by (subst cut_loop.simps) (auto simp: Let_def)
qed

lemma SubRect_some: "SubRect heap a g sub = (g', sub') \<Longrightarrow> sub' = None \<longleftrightarrow> sub = None"
  using cut_loop_some [of "AddRect heap" heap a 0 "length (iRects g)" g sub] by (auto simp: SubRect_def split: if_splits)

lemma subtract_loop_some: "snd (subtract_loop heap ps g sub) = None \<longleftrightarrow> sub = None"
  by (induction heap ps g sub rule: subtract_loop.induct) (auto split: prod.split dest: SubRect_some)

text \<open>
  A second region given to \<open>SubRegion\<close> gains exactly the points this one had in common with the
  argument, also when this one runs out of memory; or else its error flag is set.
\<close>

theorem SubRegion_moves:
  assumes "region_ok g" "\<not> iError g" "region_ok s" "\<not> iError s" "\<not> iError a" "heap_bounded heap"
  shows "\<exists>g' s'. SubRegion heap a g (Some s) = (g', Some s') \<and>
    region_ok g' \<and> (iError g' \<or> area (iRects g') = area (iRects g) - area (iRects a)) \<and>
    region_ok s' \<and> (iError s' \<or> area (iRects s') = area (iRects s) \<union> (area (iRects g) \<inter> area (iRects a)))"
proof -
  have s: "sub_ok (Some s)" using assms(3) by (simp add: sub_ok_def)
  obtain g1 sub where r: "SubtractRegion heap a g (Some s) = (g1, sub)" by fastforce
  note sub = SubtractRegion_ok [OF assms(1,2) s assms(5,6), unfolded r fst_conv snd_conv]
  have "sub \<noteq> None"
    using r assms(2,5) subtract_loop_some [of heap "iRects a" g "Some s"]
    by (auto simp: SubtractRegion_def split: if_splits prod.splits)
  then obtain s' where s': "sub = Some s'" by blast
  have y: "yields heap (sub_bound a g) g (area (iRects g) - area (iRects a)) (release_spare heap g1)"
    by (rule yields_release [OF sub(1)])
  have "region_ok s' \<and> (iError s' \<or> area (iRects s') = area (iRects s) \<union> (area (iRects g) \<inter> area (iRects a)))"
    using sub(2) s' assms(4) by (auto simp: gains_def region_area_def split: if_splits)
  moreover have "SubRegion heap a g (Some s) = (release_spare heap g1, Some s')" using r s' by (simp add: SubRegion_def)
  ultimately show ?thesis using yields_ok [OF y] y by (auto simp: yields_def split: if_splits)
qed

theorem SubRegion_moves_witness:
  "area [mk_rect 3 3 6 6] = points (mk_rect 0 0 10 10) \<inter> points (mk_rect 3 3 6 6)"
proof -
  let ?g = "\<lparr>iRects = [mk_rect 0 0 10 10], iError = False, iAllocedRects = 5, iGranularity = 5\<rparr>"
  let ?a = "\<lparr>iRects = [mk_rect 3 3 6 6], iError = False, iAllocedRects = 5, iGranularity = 5\<rparr>"
  have g: "region_ok ?g" by (simp add: region_ok_def mem_ok_def room_def rect_IsEmpty_def)
  have "snd (SubRegion small_heap ?a ?g (Some (RRegion_ctor 5))) = Some ?a"
    by (simp add: SubRegion_def SubtractRegion_def RRegion_ctor_def TRegion_ctor_def AddRect_def rect_IsEmpty_def AppendRect_def
        ExpandRegion_def release_spare_def ShrinkRegion_def SubRect_def cut_loop.simps overlaps_def rect_Intersection_def
        DeleteRect_def cut_pieces_def mk_rect_def)
  moreover obtain g' s' where "SubRegion small_heap ?a ?g (Some (RRegion_ctor 5)) = (g', Some s')"
    "iError s' \<or> area (iRects s') = area (iRects (RRegion_ctor 5)) \<union> (area (iRects ?g) \<inter> area (iRects ?a))"
    using SubRegion_moves [OF g _ new_region_ok(1), of ?a small_heap] small_heap_bounded
    by (force simp: RRegion_ctor_def TRegion_ctor_def)
  ultimately have "iError ?a \<or> area (iRects ?a) = area (iRects (RRegion_ctor 5)) \<union> (area (iRects ?g) \<inter> area (iRects ?a))"
    by simp
  then show ?thesis by (simp add: RRegion_ctor_def TRegion_ctor_def)
qed

section \<open>Queries\<close>

lemma apart_query: "\<not> rect_IsEmpty r \<Longrightarrow> rect_Intersects a r \<longleftrightarrow> points a \<inter> points r \<noteq> {}"
  unfolding points_Intersection [symmetric] empty_points [symmetric]
  by (auto simp: rect_Intersects_def rect_IsEmpty_def rect_Intersection_def)

lemma within_iff:
  assumes "\<not> rect_IsEmpty r"
  shows "within r c \<longleftrightarrow> points r \<subseteq> points c"
proof
  assume sub: "points r \<subseteq> points c"
  have "iTl r \<in> points r" "\<lparr>iX = iX (iBr r) - 1, iY = iY (iBr r) - 1\<rparr> \<in> points r"
    using assms by (auto simp: points_iff rect_IsEmpty_def)
  then have "iTl r \<in> points c" "\<lparr>iX = iX (iBr r) - 1, iY = iY (iBr r) - 1\<rparr> \<in> points c" using sub by blast+
  then show "within r c" by (simp add: points_iff within_def)
qed (rule within_points)

lemma contained_loop_iff: "contained_loop a rs \<longleftrightarrow> (\<forall>r \<in> set rs. within r a)"
  by (induction rs) (auto simp: within_def)

lemma bounding_area:
  assumes "region_ok g"
  shows "area (iRects g) \<subseteq> points (BoundingRect g)" "area (iRects g) \<subseteq> points a \<Longrightarrow> points (BoundingRect g) \<subseteq> points a"
proof -
  have each: "within r c \<longleftrightarrow> points r \<subseteq> points c" if "r \<in> set (iRects g)" for r c
    using assms that by (auto simp: region_ok_def tiled_alt within_iff)
  show "area (iRects g) \<subseteq> points (BoundingRect g)"
    using BoundingRect_bounds(1) within_points by (fastforce simp: area_def)
  show "points (BoundingRect g) \<subseteq> points a" if "area (iRects g) \<subseteq> points a"
  proof (cases "iRects g = []")
    case True
    then show ?thesis by (simp add: BoundingRect_def points_iff subset_iff)
  next
    case False
    have "\<forall>r \<in> set (iRects g). within r a" using that each by (auto simp: area_def)
    from within_points [OF BoundingRect_bounds(2) [OF False this]] show ?thesis .
  qed
qed

text \<open>
  The queries answer for the points of the region: whether it has none, whether it has a given
  one, meets a rectangle or lies in it; and \<open>BoundingRect\<close> is the least rectangle with all of them.
\<close>

theorem region_queries:
  assumes "region_ok g" "\<not> iError g"
  shows "(region_IsEmpty g \<longleftrightarrow> region_area g = Some {}) \<and> (region_Contains g p \<longleftrightarrow> p \<in> area (iRects g)) \<and>
    (region_Intersects g a \<longleftrightarrow> area (iRects g) \<inter> points a \<noteq> {}) \<and> (IsContainedBy g a \<longleftrightarrow> area (iRects g) \<subseteq> points a) \<and>
    area (iRects g) \<subseteq> points (BoundingRect g) \<and> (area (iRects g) \<subseteq> points a \<longrightarrow> points (BoundingRect g) \<subseteq> points a)"
proof (intro conjI impI)
  have tiled: "tiled (iRects g)" using assms(1) by (simp add: region_ok_def)
  then have each: "\<not> rect_IsEmpty r" if "r \<in> set (iRects g)" for r using that by (simp add: tiled_alt)
  show "region_IsEmpty g \<longleftrightarrow> region_area g = Some {}"
    using assms(2) area_nonempty [OF tiled] by (simp add: region_IsEmpty_def region_area_def)
  show "region_Contains g p \<longleftrightarrow> p \<in> area (iRects g)"
    by (auto simp: region_Contains_def list_ex_iff area_def points_def)
  have "region_Intersects g a \<longleftrightarrow> (\<exists>r \<in> set (iRects g). points a \<inter> points r \<noteq> {})"
    using apart_query [OF each] by (auto simp: region_Intersects_def list_ex_iff)
  also have "\<dots> \<longleftrightarrow> area (iRects g) \<inter> points a \<noteq> {}" by (auto simp: area_def)
  finally show "region_Intersects g a \<longleftrightarrow> area (iRects g) \<inter> points a \<noteq> {}" .
  show "IsContainedBy g a \<longleftrightarrow> area (iRects g) \<subseteq> points a"
    using within_iff [OF each] by (auto simp: IsContainedBy_def contained_loop_iff area_def)
qed (use bounding_area [OF assms(1)] in \<open>blast+\<close>)

theorem region_queries_witness:
  "\<lparr>iX = 1, iY = 1\<rparr> \<in> area [mk_rect 0 0 1 1, mk_rect 1 1 2 2, mk_rect 0 1 1 2, mk_rect 1 0 2 1]"
  using region_queries [OF four_squares_ok, of "\<lparr>iX = 1, iY = 1\<rparr>"] by (simp add: region_Contains_def rect_Contains_def)

end
