(* ===== verification/Qsort.thy ===== *)
theory Qsort
  imports Prelude "HOL-Library.Multiset"
begin

text \<open>
  \<open>User::QuickSort\<close> (\<^verbatim>\<open>kernel/eka/euser/us_func.cpp\<close>), the sort of the user library's arrays and
  of regions. It sees the records only through a key, which compares two positions, and a swap. It keeps
  the partitions that are left in a table of its own.
\<close>

section \<open>The code\<close>

text \<open>
  \<open>key xs i j\<close> is \<open>aKey.Compare(i,j)\<close> when the records are \<open>xs\<close>; \<open>swap_at\<close> is \<open>aSwap.Swap\<close>.
\<close>

type_synonym 'a key = "'a list \<Rightarrow> nat \<Rightarrow> nat \<Rightarrow> int"

definition swap_at :: "'a list \<Rightarrow> nat \<Rightarrow> nat \<Rightarrow> 'a list" where
  "swap_at xs i j = (xs[i := xs ! j])[j := xs ! i]"

text \<open>
  The two inner loops of \<open>partit\<close>. The first one is stopped by the pivot, unless the key puts a record
  before itself: then it runs out of the partition, which is \<open>None\<close>.
\<close>

function scan_up :: "'a key \<Rightarrow> 'a list \<Rightarrow> nat \<Rightarrow> nat \<Rightarrow> nat option" where
  "scan_up key xs pivlin i =
     (if i \<le> pivlin then if key xs i pivlin < 0 then scan_up key xs pivlin (i + 1) else Some i else None)"
  by pat_completeness auto
termination by (relation "measure (\<lambda>(key, xs, p, i). Suc p - i)") auto

declare scan_up.simps [simp del]

fun scan_down :: "'a key \<Rightarrow> 'a list \<Rightarrow> nat \<Rightarrow> nat \<Rightarrow> nat \<Rightarrow> nat" where
  "scan_down key xs pivlin i j =
     (if j > i then if key xs j pivlin \<le> 0 then j else scan_down key xs pivlin i (j - 1) else j)"

declare scan_down.simps [simp del]

text \<open>
  The loop of \<open>partit\<close>; \<open>i\<close> is one more than the code's, which starts below the partition.
\<close>

lemma scan_down_le: "scan_down key xs p i j \<le> j"
proof (induction key xs p i j rule: scan_down.induct)
  case (1 key xs p i j)
  then show ?case by (subst scan_down.simps) (auto intro: le_trans)
qed

lemma scan_up_range: "scan_up key xs p i = Some k \<Longrightarrow> i \<le> k \<and> k \<le> p"
proof (induction key xs p i rule: scan_up.induct)
  case (1 key xs p i)
  then show ?case by (subst (asm) (2) scan_up.simps) (auto split: if_splits)
qed

function partit_loop :: "'a key \<Rightarrow> 'a list \<Rightarrow> nat \<Rightarrow> nat \<Rightarrow> nat \<Rightarrow> (nat \<times> 'a list) option" where
  "partit_loop key xs pivlin i j =
     (case scan_up key xs pivlin i of
        None \<Rightarrow> None
      | Some i1 \<Rightarrow>
          let j1 = scan_down key xs pivlin i1 (j - 1)
          in if i1 < j1 then partit_loop key (swap_at xs i1 j1) pivlin (i1 + 1) j1
             else Some (i1, xs))"
  by pat_completeness auto
termination
proof (relation "measure (\<lambda>(key, xs, p, i, j). j - i)", goal_cases)
  case (2 key xs p i j i1 j1)
  then show ?case using scan_up_range [OF 2(1)] scan_down_le [of key xs p i1 "j - 1"] by auto
qed simp

declare partit_loop.simps [simp del]

text \<open>
  The pivot is the record in the middle. The sum \<open>j+m\<close> is taken in 32 bits: when it wraps the swap is
  asked for a record with a negative number, which is \<open>None\<close> too.
\<close>

definition partit :: "'a key \<Rightarrow> nat \<Rightarrow> nat \<Rightarrow> 'a list \<Rightarrow> (nat \<times> 'a list) option" where
  "partit key n m xs =
     (let j = m + n - 1; mid = to_TInt (int (j + m)) div 2
      in if mid < 0 then None
         else case partit_loop key (swap_at xs (nat mid) j) j m j of
                None \<Rightarrow> None
              | Some (i, ys) \<Rightarrow> Some (i, swap_at ys i (m + n - 1)))"

lemma partit_exact:
  assumes "2 * m + n \<le> 0x80000000"
  shows "partit key n m xs =
    (case partit_loop key (swap_at xs ((m + n - 1 + m) div 2) (m + n - 1)) (m + n - 1) m (m + n - 1) of
       None \<Rightarrow> None
     | Some (i, ys) \<Rightarrow> Some (i, swap_at ys i (m + n - 1)))"
proof -
  have "is_TInt (int (m + n - 1 + m))" using assms by (simp add: is_TInt_def)
  then have "to_TInt (int (m + n - 1 + m)) div 2 = int ((m + n - 1 + m) div 2)" by (simp add: zdiv_int)
  then show ?thesis unfolding partit_def Let_def by simp
qed

lemma partit_loop_range: "partit_loop key xs p i j = Some (d, ys) \<Longrightarrow> i \<le> d \<and> d \<le> p"
proof (induction key xs p i j rule: partit_loop.induct)
  case (1 key xs p i j)
  from 1(2) obtain k where k: "scan_up key xs p i = Some k" by (auto simp: partit_loop.simps [of key xs p i j] split: option.splits)
  note scan_up_range [OF k]
  with 1(2) 1(1) [OF k refl] k show ?case
    by (auto simp: partit_loop.simps [of key xs p i j] Let_def split: if_splits)
qed

lemma partit_range: "partit key n m xs = Some (d, ys) \<Longrightarrow> n > 0 \<Longrightarrow> m \<le> d \<and> d < m + n"
  by (auto simp: partit_def Let_def dest!: partit_loop_range split: option.splits if_splits)

text \<open>
  The table holds pairs of the number of records of a partition and its first record, here with the
  last one stored in front. \<open>KQDepth\<close> is 150, which is 75 pairs. When the table is empty one more pair is
  read all the same, from the two words below the table, and not used, before the loop ends: the second
  result says whether that has happened.
\<close>

function quick_loop :: "'a key \<Rightarrow> 'a list \<Rightarrow> nat \<Rightarrow> nat \<Rightarrow> (nat \<times> nat) list \<Rightarrow> (int \<times> bool \<times> 'a list) option" where
  "quick_loop key xs n m parts_todo =
     (if n > 1 \<and> length parts_todo < 74
      then
        case partit key n m xs of
          None \<Rightarrow> None
        | Some (division_point, ys) \<Rightarrow>
            let d1 = division_point - m; d2 = m + n - division_point - 1
            in if d1 < d2 then quick_loop key ys d1 m ((d2, division_point + 1) # parts_todo)
               else quick_loop key ys d2 (division_point + 1) ((d1, m) # parts_todo)
      else if length parts_todo \<ge> 74 then Some (KErrGeneral, False, xs)
      else
        case parts_todo of
          [] \<Rightarrow> Some (KErrNone, True, xs)
        | (n', m') # rest \<Rightarrow> quick_loop key xs n' m' rest)"
  by pat_completeness auto
termination
  by (relation "measures [\<lambda>(key, xs, n, m, st). n + sum_list (map fst st), \<lambda>(key, xs, n, m, st). length st]")
    (auto dest!: partit_range)

declare quick_loop.simps [simp del]

definition QuickSort :: "'a key \<Rightarrow> 'a list \<Rightarrow> (int \<times> bool \<times> 'a list) option" where
  "QuickSort key xs = (if length xs \<le> 1 then Some (KErrNone, False, xs) else quick_loop key xs (length xs) 0 [])"

section \<open>Rearranging\<close>

text \<open>The records from \<open>m\<close> up to \<open>e\<close> are in another order, the others where they were.\<close>

definition rearranged :: "nat \<Rightarrow> nat \<Rightarrow> 'a list \<Rightarrow> 'a list \<Rightarrow> bool" where
  "rearranged m e xs ys \<longleftrightarrow> length ys = length xs \<and> mset ys = mset xs \<and> (\<forall>k. k < m \<or> e \<le> k \<longrightarrow> ys ! k = xs ! k) \<and>
     (\<forall>k. m \<le> k \<longrightarrow> k < e \<longrightarrow> (\<exists>k'. m \<le> k' \<and> k' < e \<and> ys ! k = xs ! k'))"

lemma rearranged_refl: "rearranged m e xs xs"
  by (auto simp: rearranged_def)

lemma rearranged_trans: "rearranged m e xs ys \<Longrightarrow> rearranged m e ys zs \<Longrightarrow> rearranged m e xs zs"
  unfolding rearranged_def by metis

lemma rearranged_wider: "rearranged m e xs ys \<Longrightarrow> m' \<le> m \<Longrightarrow> e \<le> e' \<Longrightarrow> rearranged m' e' xs ys"
  unfolding rearranged_def by (metis le_less_trans less_le_trans not_le order_trans)

lemma length_swap_at [simp]: "length (swap_at xs i j) = length xs"
  by (simp add: swap_at_def)

lemma nth_swap_at: "i < length xs \<Longrightarrow> j < length xs \<Longrightarrow> swap_at xs i j ! k = (if k = j then xs ! i else if k = i then xs ! j else xs ! k)"
  by (auto simp: swap_at_def nth_list_update)

lemma swap_rearranged:
  assumes "m \<le> i" "i < e" "m \<le> j" "j < e" "e \<le> length xs"
  shows "rearranged m e xs (swap_at xs i j)"
proof -
  have ij: "i < length xs" "j < length xs" using assms by linarith+
  have "mset (swap_at xs i j) = mset xs" using mset_swap [OF ij(2,1)] by (simp add: swap_at_def)
  moreover have "\<exists>k'. m \<le> k' \<and> k' < e \<and> swap_at xs i j ! k = xs ! k'" if "m \<le> k" "k < e" for k
    using assms that by (auto simp: nth_swap_at [OF ij])
  ultimately show ?thesis using assms by (auto simp: rearranged_def nth_swap_at [OF ij])
qed

section \<open>Partitioning\<close>

text \<open>
  Without an order: if the key does not put a record before itself, \<open>partit\<close> succeeds and rearranges.
\<close>

definition key_refl :: "'a key \<Rightarrow> bool" where
  "key_refl key \<longleftrightarrow> (\<forall>xs i. key xs i i \<ge> 0)"

lemma scan_up_Some:
  assumes "key_refl key" "i \<le> p"
  shows "\<exists>k. scan_up key xs p i = Some k \<and> i \<le> k \<and> k \<le> p \<and> key xs k p \<ge> 0 \<and> (\<forall>l. i \<le> l \<longrightarrow> l < k \<longrightarrow> key xs l p < 0)"
  using assms(2)
proof (induction "p - i" arbitrary: i)
  case 0
  have "0 \<le> key xs p p" using assms(1) by (simp add: key_refl_def)
  then show ?case using 0 by (auto simp: scan_up.simps)
next
  case (Suc d)
  show ?case
  proof (cases "key xs i p < 0")
    case True
    obtain k where k: "scan_up key xs p (i + 1) = Some k" "i + 1 \<le> k" "k \<le> p" "key xs k p \<ge> 0" "\<forall>l. i + 1 \<le> l \<longrightarrow> l < k \<longrightarrow> key xs l p < 0"
      using Suc(1) [of "i + 1"] Suc(2,3) by fastforce
    moreover have "\<forall>l. i \<le> l \<longrightarrow> l < k \<longrightarrow> key xs l p < 0" using k(5) True by (metis Suc_eq_plus1 le_antisym not_less_eq_eq)
    ultimately show ?thesis using Suc(3) True by (auto simp: scan_up.simps [of key xs p i])
  next
    case False
    then show ?thesis using Suc(3) by (auto simp: scan_up.simps)
  qed
qed

lemma scan_down_post:
  "i < scan_down key xs p i j \<Longrightarrow> key xs (scan_down key xs p i j) p \<le> 0"
  "i < k \<Longrightarrow> scan_down key xs p i j < k \<Longrightarrow> k \<le> j \<Longrightarrow> key xs k p > 0"
proof (induction key xs p i j rule: scan_down.induct)
  case (1 key xs p i j)
  {
    case 1
    then show ?case using "1.IH"(1) by (auto simp: scan_down.simps [of key xs p i j] split: if_splits)
  next
    case 2
    show ?case
    proof (cases "k = j")
      case True
      then show ?thesis using 2 by (auto simp: scan_down.simps [of key xs p i j] split: if_splits)
    next
      case False
      then show ?thesis using "1.IH"(2) 2 by (auto simp: scan_down.simps [of key xs p i j] split: if_splits)
    qed
  }
qed

text \<open>With an order of the records, which the key decides.\<close>

definition key_order :: "'a multiset \<Rightarrow> 'a key \<Rightarrow> ('a \<Rightarrow> 'a \<Rightarrow> bool) \<Rightarrow> bool" where
  "key_order M key lt \<longleftrightarrow>
     (\<forall>xs i j. mset xs = M \<longrightarrow> i < length xs \<longrightarrow> j < length xs \<longrightarrow>
        (key xs i j < 0 \<longrightarrow> lt (xs ! i) (xs ! j)) \<and> (key xs i j > 0 \<longrightarrow> lt (xs ! j) (xs ! i)) \<and>
        (key xs i j = 0 \<longrightarrow> \<not> lt (xs ! i) (xs ! j) \<and> \<not> lt (xs ! j) (xs ! i))) \<and>
     (\<forall>x \<in># M. \<forall>y \<in># M. lt x y \<longrightarrow> \<not> lt y x) \<and>
     (\<forall>x \<in># M. \<forall>y \<in># M. \<forall>z \<in># M. lt x y \<longrightarrow> lt x z \<or> lt z y)"

lemma key_orderD:
  assumes "key_order (mset xs) key lt" "i < length xs" "j < length xs"
  shows "key xs i j \<ge> 0 \<Longrightarrow> \<not> lt (xs ! i) (xs ! j)" "key xs i j \<le> 0 \<Longrightarrow> \<not> lt (xs ! j) (xs ! i)"
proof -
  have "xs ! i \<in> set xs" "xs ! j \<in> set xs" using assms by simp_all
  moreover have "(key xs i j < 0 \<longrightarrow> lt (xs ! i) (xs ! j)) \<and> (key xs i j > 0 \<longrightarrow> lt (xs ! j) (xs ! i)) \<and>
        (key xs i j = 0 \<longrightarrow> \<not> lt (xs ! i) (xs ! j) \<and> \<not> lt (xs ! j) (xs ! i))"
    using assms unfolding key_order_def by blast
  moreover have "\<forall>x \<in> set xs. \<forall>y \<in> set xs. lt x y \<longrightarrow> \<not> lt y x" using assms(1) unfolding key_order_def by simp
  ultimately show "key xs i j \<ge> 0 \<Longrightarrow> \<not> lt (xs ! i) (xs ! j)" "key xs i j \<le> 0 \<Longrightarrow> \<not> lt (xs ! j) (xs ! i)"
    by (metis linorder_less_linear not_le)+
qed

text \<open>Records before \<open>i\<close> that are not after the record \<open>v\<close>, and from \<open>j\<close> on not before it.\<close>

definition split_at :: "('a \<Rightarrow> 'a \<Rightarrow> bool) \<Rightarrow> 'a \<Rightarrow> nat \<Rightarrow> nat \<Rightarrow> nat \<Rightarrow> nat \<Rightarrow> 'a list \<Rightarrow> bool" where
  "split_at lt v m i j e xs \<longleftrightarrow> (\<forall>k. m \<le> k \<longrightarrow> k < i \<longrightarrow> \<not> lt v (xs ! k)) \<and> (\<forall>k. j \<le> k \<longrightarrow> k < e \<longrightarrow> \<not> lt (xs ! k) v)"

lemma partit_loop_ok:
  assumes "key_refl key" "m \<le> i" "i \<le> j" "j \<le> p" "p < length xs"
  shows "\<exists>d ys. partit_loop key xs p i j = Some (d, ys) \<and> m \<le> d \<and> d \<le> p \<and> rearranged m p xs ys \<and>
    (key_order (mset xs) key lt \<longrightarrow> split_at lt (xs ! p) m i j p xs \<longrightarrow> split_at lt (xs ! p) m d d p ys)"
  using assms
proof (induction key xs p i j rule: partit_loop.induct)
  case (1 key xs p i j)
  obtain a where "scan_up key xs p i = Some a \<and> i \<le> a \<and> a \<le> p \<and> key xs a p \<ge> 0 \<and> (\<forall>l. i \<le> l \<longrightarrow> l < a \<longrightarrow> key xs l p < 0)"
    using scan_up_Some [OF 1(2) le_trans [OF 1(4,5)], of xs] ..
  then have a: "scan_up key xs p i = Some a" "i \<le> a" "a \<le> p" "key xs a p \<ge> 0" "\<And>l. i \<le> l \<Longrightarrow> l < a \<Longrightarrow> key xs l p < 0"
    by simp_all
  define b where "b = scan_down key xs p a (j - 1)"
  have b: "b \<le> j - 1" "a < b \<Longrightarrow> key xs b p \<le> 0" "\<And>k. a < k \<Longrightarrow> b < k \<Longrightarrow> k < j \<Longrightarrow> key xs k p > 0"
    using scan_down_le [of key xs p a "j - 1"] scan_down_post(1) [of a key xs p "j - 1"] scan_down_post(2) [of a _ key xs p "j - 1"] by (auto simp: b_def)
  have low: "\<not> lt (xs ! p) (xs ! k)" if "key_order (mset xs) key lt" "split_at lt (xs ! p) m i j p xs" "m \<le> k" "k < a" for k
  proof (cases "k < i")
    case True
    then show ?thesis using that by (simp add: split_at_def)
  next
    case False
    then have "key xs k p \<le> 0" using a(5) [of k] that by simp
    then show ?thesis using key_orderD(2) [OF that(1)] a(3) 1(6) that by simp
  qed
  have high: "\<not> lt (xs ! k) (xs ! p)" if "key_order (mset xs) key lt" "split_at lt (xs ! p) m i j p xs" "a < k" "b < k" "k < p" for k
  proof (cases "j \<le> k")
    case True
    then show ?thesis using that by (simp add: split_at_def)
  next
    case False
    then have "key xs k p \<ge> 0" using b(3) [of k] that by simp
    then show ?thesis using key_orderD(1) [OF that(1)] 1(6) that by simp
  qed
  show ?case
  proof (cases "a < b")
    case True
    let ?ys = "swap_at xs a b"
    have ab: "a < length xs" "b < length xs" "b < p" "a + 1 \<le> b" "b \<le> p" using True b(1) 1(4-6) by linarith+
    have sw: "rearranged m p xs ?ys" by (rule swap_rearranged) (use ab a 1(3,6) in linarith)+
    have same: "?ys ! p = xs ! p" "length ?ys = length xs" "mset ?ys = mset xs"
      using ab sw by (auto simp: nth_swap_at rearranged_def)
    have split: "split_at lt (xs ! p) m (a + 1) b p ?ys" if "key_order (mset xs) key lt" "split_at lt (xs ! p) m i j p xs"
    proof -
      have "\<not> lt (xs ! p) (xs ! b)" using key_orderD(2) [OF that(1) ab(2) 1(6)] b(2) True by simp
      moreover have "\<not> lt (xs ! a) (xs ! p)" using key_orderD(1) [OF that(1) ab(1) 1(6)] a(4) by simp
      ultimately show ?thesis
        using low [OF that] high [OF that] True unfolding split_at_def nth_swap_at [OF ab(1,2)] by auto
    qed
    obtain d ys where ys: "partit_loop key ?ys p (a + 1) b = Some (d, ys)" "m \<le> d" "d \<le> p" "rearranged m p ?ys ys"
      "key_order (mset xs) key lt \<longrightarrow> split_at lt (xs ! p) m (a + 1) b p ?ys \<longrightarrow> split_at lt (xs ! p) m d d p ys"
      using 1(1) [OF a(1) b_def True 1(2) _ ab(4,5)] a(2) 1(3,6) unfolding same by auto
    have "partit_loop key xs p i j = Some (d, ys)"
      using a(1) True ys(1) unfolding b_def by (simp add: partit_loop.simps [of key xs p i j] Let_def)
    then show ?thesis using ys split rearranged_trans [OF sw ys(4)] by blast
  next
    case False
    have "partit_loop key xs p i j = Some (a, xs)"
      using a(1) False unfolding b_def by (simp add: partit_loop.simps [of key xs p i j] Let_def)
    moreover have "split_at lt (xs ! p) m a a p xs" if "key_order (mset xs) key lt" "split_at lt (xs ! p) m i j p xs"
    proof -
      have "\<not> lt (xs ! a) (xs ! p)" using key_orderD(1) [OF that(1) _ 1(6)] a(3,4) 1(6) by simp
      then show ?thesis
        using low [OF that] high [OF that] False unfolding split_at_def by (metis le_less_linear le_neq_implies_less le_trans)
    qed
    ultimately show ?thesis using a(2,3) 1(3) rearranged_refl by fastforce
  qed
qed

text \<open>The pivot goes to where the loop ended.\<close>

lemma partit_ok:
  assumes "key_refl key" "n > 0" "m + n \<le> length xs" "length xs \<le> 2 ^ 30"
  shows "\<exists>d ys. partit key n m xs = Some (d, ys) \<and> m \<le> d \<and> d < m + n \<and> rearranged m (m + n) xs ys \<and>
    (key_order (mset xs) key lt \<longrightarrow> split_at lt (ys ! d) m d d (m + n) ys)"
proof -
  let ?j = "m + n - 1"
  let ?xs = "swap_at xs ((?j + m) div 2) ?j"
  have j: "m \<le> ?j" "?j < length xs" "m \<le> (?j + m) div 2" "(?j + m) div 2 \<le> ?j" "(?j + m) div 2 < m + n" "?j < m + n" using assms by auto
  have sw: "rearranged m (m + n) xs ?xs" by (rule swap_rearranged) (use j assms in linarith)+
  then have same: "length ?xs = length xs" "mset ?xs = mset xs" by (auto simp: rearranged_def)
  obtain d ys where ys: "partit_loop key ?xs ?j m ?j = Some (d, ys)" "m \<le> d" "d \<le> ?j" "rearranged m ?j ?xs ys"
    "key_order (mset xs) key lt \<longrightarrow> split_at lt (?xs ! ?j) m m ?j ?j ?xs \<longrightarrow> split_at lt (?xs ! ?j) m d d ?j ys"
    using partit_loop_ok [OF assms(1), of m m ?j ?j ?xs lt] j unfolding same by auto
  let ?zs = "swap_at ys d ?j"
  have len: "length ys = length xs" using ys(4) same by (simp add: rearranged_def)
  have sw2: "rearranged m (m + n) ys ?zs" by (rule swap_rearranged) (use ys(2,3) j assms len in linarith)+
  have mid: "rearranged m (m + n) ?xs ys" by (rule rearranged_wider [OF ys(4)]) simp_all
  have r: "rearranged m (m + n) xs ?zs" by (rule rearranged_trans [OF rearranged_trans [OF sw mid] sw2])
  have pivot: "ys ! ?j = ?xs ! ?j" using ys(4) by (simp add: rearranged_def)
  have dj: "d < length ys" "?j < length ys" using ys(3) j len by linarith+
  have "split_at lt (?zs ! d) m d d (m + n) ?zs" if o: "key_order (mset xs) key lt"
  proof -
    have "split_at lt (?xs ! ?j) m m ?j ?j ?xs" by (auto simp: split_at_def)
    then have s: "split_at lt (ys ! ?j) m d d ?j ys" using ys(5) o pivot by simp
    have "ys ! ?j \<in># mset xs" using dj mid same by (metis nth_mem_mset rearranged_def)
    then have irrefl: "\<not> lt (ys ! ?j) (ys ! ?j)" using o by (auto simp: key_order_def)
    show ?thesis
      unfolding split_at_def nth_swap_at [OF dj]
      using s irrefl ys(3) by (auto simp: split_at_def)
  qed
  moreover have "partit key n m xs = Some (d, ?zs)" using ys(1) partit_exact [of m n key xs] assms(3,4) by simp
  moreover have "d < m + n" using ys(3) j by linarith
  ultimately show ?thesis using r ys(2) by blast
qed

section \<open>The partitions that are left\<close>

text \<open>
  Two records in the wrong order are in one of the partitions \<open>P\<close>; these are disjoint.
\<close>

definition pending :: "(nat \<times> nat) list \<Rightarrow> nat \<Rightarrow> nat \<Rightarrow> bool" where
  "pending P i j \<longleftrightarrow> (\<exists>(n, m) \<in> set P. m \<le> i \<and> j < m + n)"

definition sorted_but :: "('a \<Rightarrow> 'a \<Rightarrow> bool) \<Rightarrow> (nat \<times> nat) list \<Rightarrow> 'a list \<Rightarrow> bool" where
  "sorted_but lt P xs \<longleftrightarrow> (\<forall>i j. i < j \<longrightarrow> j < length xs \<longrightarrow> pending P i j \<or> \<not> lt (xs ! j) (xs ! i))"

definition spread :: "(nat \<times> nat) list \<Rightarrow> nat \<Rightarrow> bool" where
  "spread P len \<longleftrightarrow> (\<forall>(n, m) \<in> set P. m + n \<le> len) \<and>
     sorted_wrt (\<lambda>(n, m) (n', m'). m + n \<le> m' \<or> m' + n' \<le> m) P"

lemma pending_Cons: "pending ((n, m) # P) i j \<longleftrightarrow> m \<le> i \<and> j < m + n \<or> pending P i j"
  by (simp add: pending_def)

lemma spread_Cons: "spread ((n, m) # P) len \<longleftrightarrow> m + n \<le> len \<and> (\<forall>(n', m') \<in> set P. m + n \<le> m' \<or> m' + n' \<le> m) \<and> spread P len"
  by (auto simp: spread_def)

lemma spread_not_pending: "spread ((n, m) # P) len \<Longrightarrow> m \<le> k \<Longrightarrow> k < m + n \<Longrightarrow> i \<le> k \<Longrightarrow> k \<le> j \<Longrightarrow> \<not> pending P i j"
  by (fastforce simp: spread_Cons pending_def)

lemma spread_split:
  "spread ((n, m) # P) len \<Longrightarrow> m \<le> d \<Longrightarrow> d < m + n \<Longrightarrow>
    spread ((d - m, m) # (m + n - d - 1, d + 1) # P) len \<and> spread ((m + n - d - 1, d + 1) # (d - m, m) # P) len"
  by (fastforce simp: spread_Cons)

lemma sorted_but_swap: "sorted_but lt (p # q # P) xs \<longleftrightarrow> sorted_but lt (q # p # P) xs"
  by (cases p; cases q) (auto simp: sorted_but_def pending_Cons)

lemma sorted_but_split:
  assumes "sorted_but lt ((n, m) # P) xs" "spread ((n, m) # P) (length xs)" "rearranged m (m + n) xs ys"
    "split_at lt (ys ! d) m d d (m + n) ys" "m \<le> d" "d < m + n" "key_order (mset xs) key lt"
  shows "sorted_but lt ((d - m, m) # (m + n - d - 1, d + 1) # P) ys"
  unfolding sorted_but_def
proof (intro allI impI)
  fix i j
  assume ij: "i < j" "j < length ys"
  let ?in = "\<lambda>k. m \<le> k \<and> k < m + n"
  have len: "length ys = length xs" "set ys = set xs" using assms(3) mset_eq_setD by (auto simp: rearranged_def)
  have old: "\<not> lt (xs ! l) (xs ! k)" if "k < l" "l < length xs" "\<not> pending P k l" "\<not> (?in k \<and> ?in l)" for k l
  proof -
    have "\<not> (m \<le> k \<and> l < m + n)" using that(1,4) by linarith
    then show ?thesis using assms(1) that(1-3) unfolding sorted_but_def pending_Cons by blast
  qed
  have out: "ys ! k = xs ! k" if "\<not> ?in k" for k using assms(3) that by (auto simp: rearranged_def)
  have inn: "\<exists>k'. ?in k' \<and> ys ! k = xs ! k'" if "?in k" for k using assms(3) that by (auto simp: rearranged_def)
  have apart: "\<not> pending P k l" if "?in u" "k \<le> u" "u \<le> l" for u k l using spread_not_pending [OF assms(2)] that by blast
  have bound: "m + n \<le> length xs" using assms(2) by (simp add: spread_Cons)
  show "pending ((d - m, m) # (m + n - d - 1, d + 1) # P) i j \<or> \<not> lt (ys ! j) (ys ! i)"
  proof (cases "?in i \<and> ?in j")
    case True
    consider "j < d" | "d < i" | "i < d" "j = d" | "i = d" | "i < d" "d < j" by linarith
    then show ?thesis
    proof cases
      case 5
      have "\<not> lt (ys ! d) (ys ! i)" "\<not> lt (ys ! j) (ys ! d)" using assms(4) 5 True by (auto simp: split_at_def)
      moreover have "ys ! i \<in> set xs" "ys ! j \<in> set xs" "ys ! d \<in> set xs"
        using ij assms(6) bound len by (metis less_trans less_le_trans nth_mem)+
      ultimately show ?thesis using assms(7) unfolding key_order_def set_mset_mset by blast
    qed (use assms(4,5) True ij in \<open>auto simp: split_at_def pending_Cons\<close>)
  next
    case False
    show ?thesis
    proof (cases "?in i")
      case True
      then obtain k where k: "?in k" "ys ! i = xs ! k" using inn by blast
      have j: "k < j" "\<not> ?in j" using False True k ij(1) by linarith+
      show ?thesis using old [OF j(1) _ apart [OF k(1)]] j ij(2) len(1) out [OF j(2)] k(2) by simp
    next
      case i: False
      show ?thesis
      proof (cases "?in j")
        case True
        then obtain k where k: "?in k" "ys ! j = xs ! k" using inn by blast
        have j: "i < k" using i True k ij(1) by linarith
        show ?thesis using old [OF j _ apart [OF k(1)]] j i k bound out [OF i] by simp
      next
        case False
        then show ?thesis using old [OF ij(1)] i ij(2) len(1) out by (auto simp: pending_Cons)
      qed
    qed
  qed
qed

section \<open>The whole sort\<close>

text \<open>
  The smaller of two partitions is done first, so with every pair in the table the size of the
  partition at hand halves: \<open>N\<close> bounds the size times two to the number of pairs below.
\<close>

fun fits :: "nat \<Rightarrow> nat \<Rightarrow> (nat \<times> nat) list \<Rightarrow> bool" where
  "fits N n [] \<longleftrightarrow> n \<le> N"
| "fits N n ((n', m') # st) \<longleftrightarrow> n * 2 ^ Suc (length st) \<le> N \<and> fits N n' st"

lemma fits_size: "fits N n st \<Longrightarrow> n * 2 ^ length st \<le> N"
  by (cases st) auto

lemma fits_push:
  assumes "fits N n st" "2 * d \<le> n" "d' \<le> n"
  shows "fits N d ((d', m) # st)"
proof -
  have "d * 2 ^ Suc (length st) = 2 * d * 2 ^ length st" by simp
  also have "\<dots> \<le> n * 2 ^ length st" using assms(2) by (intro mult_right_mono) simp_all
  also have "\<dots> \<le> N" by (rule fits_size [OF assms(1)])
  finally have "d * 2 ^ Suc (length st) \<le> N" .
  moreover have "fits N d' st"
  proof (cases st)
    case (Cons x r)
    obtain n' m' where "x = (n', m')" by (cases x)
    then show ?thesis using assms(1,3) Cons by (auto intro: le_trans [OF mult_right_mono])
  qed (use assms in simp)
  ultimately show ?thesis by simp
qed

lemma fits_depth:
  assumes "fits N n st" "n > 1" "N < 2 ^ 31"
  shows "length st < 30"
proof -
  have "2 * 2 ^ length st \<le> n * 2 ^ length st" using assms(2) by (intro mult_right_mono) simp_all
  also have "\<dots> < 2 ^ 31" using fits_size [OF assms(1)] assms(3) by linarith
  finally have "(2::nat) ^ Suc (length st) < 2 ^ 31" by simp
  then have "Suc (length st) < 31" by (rule power_less_imp_less_exp [rotated]) simp
  then show ?thesis by simp
qed

lemma quick_loop_ok:
  assumes "key_refl key" "spread ((n, m) # st) (length xs)" "fits N n st" "N < 2 ^ 31" "length st \<le> 30" "length xs \<le> 2 ^ 30"
  shows "\<exists>ys. quick_loop key xs n m st = Some (KErrNone, True, ys) \<and> mset ys = mset xs \<and>
    (key_order (mset xs) key lt \<longrightarrow> sorted_but lt ((n, m) # st) xs \<longrightarrow> sorted_but lt [] ys)"
  using assms
proof (induction key xs n m st rule: quick_loop.induct)
  case (1 key xs n m st)
  show ?case
  proof (cases "n > 1")
    case True
    then have d30: "length st < 30" using fits_depth 1(6,7) by blast
    then have cond: "n > 1 \<and> length st < 74" using True by simp
    have bound: "m + n \<le> length xs" using 1(5) by (simp add: spread_Cons)
    obtain d ys where p: "partit key n m xs = Some (d, ys)" "m \<le> d" "d < m + n" "rearranged m (m + n) xs ys"
      "key_order (mset xs) key lt \<longrightarrow> split_at lt (ys ! d) m d d (m + n) ys"
      using partit_ok [OF 1(4) _ bound 1(9), of lt] True by auto
    have same: "length ys = length xs" "set ys = set xs" "mset ys = mset xs" using p(4) mset_eq_setD by (auto simp: rearranged_def)
    note sp = spread_split [OF 1(5) p(2,3)]
    have split: "sorted_but lt ((d - m, m) # (m + n - d - 1, d + 1) # st) ys" if "key_order (mset xs) key lt" "sorted_but lt ((n, m) # st) xs"
      using sorted_but_split [OF that(2) 1(5) p(4) _ p(2,3) that(1)] p(5) that(1) by blast
    show ?thesis
    proof (cases "d - m < m + n - d - 1")
      case less: True
      have eq: "quick_loop key xs n m st = quick_loop key ys (d - m) m ((m + n - d - 1, d + 1) # st)"
        using cond p(1) less by (simp add: quick_loop.simps [of key xs n m st] Let_def)
      have "fits N (d - m) ((m + n - d - 1, d + 1) # st)" by (rule fits_push [OF 1(6)]) (use less p in linarith)+
      then show ?thesis
        using 1(1) [OF cond p(1) refl refl refl less 1(4) _ _ 1(7)] sp d30 split 1(9) unfolding eq same by auto
    next
      case more: False
      have eq: "quick_loop key xs n m st = quick_loop key ys (m + n - d - 1) (d + 1) ((d - m, m) # st)"
        using cond p(1) more by (simp add: quick_loop.simps [of key xs n m st] Let_def)
      have "fits N (m + n - d - 1) ((d - m, m) # st)" by (rule fits_push [OF 1(6)]) (use more p in linarith)+
      then show ?thesis
        using 1(2) [OF cond p(1) refl refl refl more 1(4) _ _ 1(7)] sp d30 1(9) split [unfolded sorted_but_swap [of lt "(d - m, m)"]] unfolding eq same by auto
    qed
  next
    case False
    have skip: "sorted_but lt st xs" if "sorted_but lt ((n, m) # st) xs"
    proof -
      have "\<not> (m \<le> i \<and> j < m + n)" if "i < j" for i j using False that by linarith
      then show ?thesis using that unfolding sorted_but_def pending_Cons by blast
    qed
    show ?thesis
    proof (cases st)
      case Nil
      have "quick_loop key xs n m st = Some (KErrNone, True, xs)" using False Nil by (simp add: quick_loop.simps)
      then show ?thesis using skip Nil by auto
    next
      case (Cons x rest)
      obtain n' m' where x: "x = (n', m')" by (cases x)
      have eq: "quick_loop key xs n m st = quick_loop key xs n' m' rest"
        using False Cons x 1(8) by (simp add: quick_loop.simps [of key xs n m "(n', m') # rest"])
      have "\<not> (n > 1 \<and> length st < 74)" "\<not> length st \<ge> 74" using False 1(8) by simp_all
      from 1(3) [OF this Cons x [symmetric] 1(4) _ _ 1(7)]
      show ?thesis using 1(5,6,8,9) skip unfolding eq unfolding Cons x by (auto simp: spread_Cons)
    qed
  qed
qed

lemma QuickSort_ok:
  assumes "key_refl key" "length xs \<le> 2 ^ 30"
  shows "\<exists>ys. QuickSort key xs = Some (KErrNone, length xs > 1, ys) \<and> mset ys = mset xs \<and>
    (key_order (mset xs) key lt \<longrightarrow> sorted_wrt (\<lambda>x y. \<not> lt y x) ys)"
proof -
  have sorted: "sorted_wrt (\<lambda>x y. \<not> lt y x) ys" if "sorted_but lt [] ys" for ys
    using that by (simp add: sorted_wrt_iff_nth_less sorted_but_def pending_def)
  show ?thesis
  proof (cases "length xs \<le> 1")
    case True
    then have "sorted_wrt (\<lambda>x y. \<not> lt y x) xs" by (cases xs) auto
    then show ?thesis using True by (simp add: QuickSort_def)
  next
    case False
    have "spread [(length xs, 0)] (length xs)" by (simp add: spread_def)
    moreover have "sorted_but lt [(length xs, 0)] xs" by (simp add: sorted_but_def pending_def)
    ultimately obtain ys where "quick_loop key xs (length xs) 0 [] = Some (KErrNone, True, ys)" "mset ys = mset xs"
      "key_order (mset xs) key lt \<longrightarrow> sorted_but lt [] ys"
      using quick_loop_ok [OF assms(1), of "length xs" 0 "[]" xs "length xs" lt] assms(2) by auto
    then show ?thesis using False sorted by (simp add: QuickSort_def)
  qed
qed

text \<open>
  C36. For every key that does not put a record before itself, whether or not it is an order,
  \<open>QuickSort\<close> of up to 2 to the 30 records ends with \<open>KErrNone\<close> and a permutation of the records: it never
  leaves a partition, and the 75 pairs of its table are never used up. When the key decides an order of the
  records they end sorted. Every sort of more than one record ends with a read of the two words below its
  table, which are not used.
\<close>

theorem QuickSort_sorts:
  assumes "key_refl key" "length xs \<le> 2 ^ 30"
  shows "\<exists>ys. QuickSort key xs = Some (KErrNone, length xs > 1, ys) \<and> mset ys = mset xs \<and>
    (key_order (mset xs) key lt \<longrightarrow> sorted_wrt (\<lambda>x y. \<not> lt y x) ys)"
  by (rule QuickSort_ok [OF assms])

theorem QuickSort_sorts_witness:
  "\<exists>ys. QuickSort (\<lambda>xs i j. xs ! i - xs ! j) [3, 1, 2, 1 :: int] = Some (KErrNone, True, ys) \<and> mset ys = mset [3, 1, 2, 1] \<and> sorted ys"
proof -
  have "key_order (mset [3, 1, 2, 1 :: int]) (\<lambda>xs i j. xs ! i - xs ! j) (<)" by (auto simp: key_order_def)
  then show ?thesis
    using QuickSort_sorts [of "\<lambda>xs i j. xs ! i - xs ! j" "[3, 1, 2, 1 :: int]" "(<)"] by (auto simp: key_refl_def not_less)
qed

end
