(* ===== verification/Regn_Sort.thy ===== *)
theory Regn_Sort
  imports Regn_Props Qsort
begin

text \<open>
  \<open>TRegion::Sort\<close>, which sorts the rectangles of a region with \<open>User::QuickSort\<close>, and what its key
  orders.
\<close>

section \<open>The key\<close>

text \<open>The assertion at the end of the key, in debug builds only, holds of rectangles that do not overlap.\<close>

definition TRectKey_Compare :: "bool \<Rightarrow> bool \<Rightarrow> TRect key" where
  "TRectKey_Compare iRight iDown iRectList aLeft aRight =
     (if aLeft = aRight then 0
      else
        let r1 = iRectList ! aLeft; r2 = iRectList ! aRight
        in if iY (iBr r2) \<le> iY (iTl r1) then if iDown then - 1 else 1
           else if iY (iBr r1) \<le> iY (iTl r2) then if iDown then 1 else - 1
           else if iX (iBr r2) \<le> iX (iTl r1) then if iRight then - 1 else 1
           else if iRight then 1 else - 1)"

definition region_Sort :: "TPoint \<Rightarrow> TRegion \<Rightarrow> (int \<times> TRegion) option" where
  "region_Sort aOffset g =
     (case QuickSort (TRectKey_Compare (iX aOffset > 0) (iY aOffset > 0)) (iRects g) of
        None \<Rightarrow> None
      | Some (r, _, rs) \<Rightarrow> Some (r, g\<lparr>iRects := rs\<rparr>))"

definition region_Sort_default :: "TRegion \<Rightarrow> (int \<times> TRegion) option" where
  "region_Sort_default g = region_Sort \<lparr>iX = - 1, iY = - 1\<rparr> g"

text \<open>What the key says of two rectangles: above, below, or else to a side.\<close>

definition rect_before :: "bool \<Rightarrow> bool \<Rightarrow> TRect \<Rightarrow> TRect \<Rightarrow> bool" where
  "rect_before right down r s \<longleftrightarrow>
     (if iY (iBr r) \<le> iY (iTl s) then \<not> down
      else if iY (iBr s) \<le> iY (iTl r) then down
      else if iX (iBr r) \<le> iX (iTl s) then \<not> right
      else iX (iBr s) \<le> iX (iTl r) \<and> right)"

text \<open>Rectangles in bands: any two are in rows of the same height, or one is above the other.\<close>

definition banded :: "TRect list \<Rightarrow> bool" where
  "banded rs \<longleftrightarrow> (\<forall>r \<in> set rs. \<forall>s \<in> set rs. iY (iTl r) = iY (iTl s) \<and> iY (iBr r) = iY (iBr s) \<or>
     iY (iBr r) \<le> iY (iTl s) \<or> iY (iBr s) \<le> iY (iTl r))"

lemma apart_sides:
  assumes "\<not> rect_IsEmpty r" "\<not> rect_IsEmpty s" "apart r s"
  shows "iY (iBr r) \<le> iY (iTl s) \<or> iY (iBr s) \<le> iY (iTl r) \<or> iX (iBr r) \<le> iX (iTl s) \<or> iX (iBr s) \<le> iX (iTl r)"
  using assms overlaps_points [of r s] by (auto simp: apart_def overlaps_def)

lemma before_total:
  assumes "\<not> rect_IsEmpty r" "\<not> rect_IsEmpty s" "apart r s"
  shows "rect_before right down r s \<longleftrightarrow> \<not> rect_before right down s r"
  using apart_sides [OF assms] assms(1,2) by (auto simp: rect_before_def rect_IsEmpty_def)

lemma before_irrefl: "\<not> rect_IsEmpty r \<Longrightarrow> \<not> rect_before right down r r"
  by (auto simp: rect_before_def rect_IsEmpty_def)

lemma compare_before:
  assumes "\<not> rect_IsEmpty (rs ! i)" "\<not> rect_IsEmpty (rs ! j)" "apart (rs ! i) (rs ! j)" "i \<noteq> j"
  shows "TRectKey_Compare right down rs i j < 0 \<longleftrightarrow> rect_before right down (rs ! i) (rs ! j)"
    "TRectKey_Compare right down rs i j > 0 \<longleftrightarrow> rect_before right down (rs ! j) (rs ! i)"
    "TRectKey_Compare right down rs i j \<noteq> 0"
  using apart_sides [OF assms(1-3)] assms(1,2,4)
  by (auto simp: TRectKey_Compare_def rect_before_def rect_IsEmpty_def Let_def)

lemma compare_refl: "key_refl (TRectKey_Compare right down)"
  by (simp add: key_refl_def TRectKey_Compare_def)

lemma banded_trans:
  assumes "banded rs" "r \<in> set rs" "s \<in> set rs" "t \<in> set rs" "\<not> rect_IsEmpty r" "\<not> rect_IsEmpty s" "\<not> rect_IsEmpty t"
    "rect_before right down r s" "rect_before right down s t"
  shows "rect_before right down r t"
proof -
  have b: "iY (iTl x) = iY (iTl y) \<and> iY (iBr x) = iY (iBr y) \<or> iY (iBr x) \<le> iY (iTl y) \<or> iY (iBr y) \<le> iY (iTl x)"
    if "x \<in> set rs" "y \<in> set rs" for x y using assms(1) that by (simp add: banded_def)
  show ?thesis
    using b [OF assms(2,3)] b [OF assms(3,4)] b [OF assms(2,4)] assms(5-)
    unfolding rect_before_def rect_IsEmpty_def by (cases right; cases down) (auto split: if_splits)
qed

lemma banded_key_order:
  assumes "tiled rs" "banded rs"
  shows "key_order (mset rs) (TRectKey_Compare right down) (rect_before right down)"
proof -
  note t = assms(1) [unfolded tiled_alt]
  let ?L = "rect_before right down"
  have keys: "(TRectKey_Compare right down xs i j < 0 \<longrightarrow> ?L (xs ! i) (xs ! j)) \<and> (TRectKey_Compare right down xs i j > 0 \<longrightarrow> ?L (xs ! j) (xs ! i)) \<and>
      (TRectKey_Compare right down xs i j = 0 \<longrightarrow> \<not> ?L (xs ! i) (xs ! j) \<and> \<not> ?L (xs ! j) (xs ! i))"
    if "mset xs = mset rs" "i < length xs" "j < length xs" for xs i j
  proof -
    have "tiled xs" using mset_tiled(1) [OF that(1)] assms(1) by simp
    then have x: "\<not> rect_IsEmpty (xs ! i)" "\<not> rect_IsEmpty (xs ! j)" "i \<noteq> j \<Longrightarrow> apart (xs ! i) (xs ! j)"
      using that(2,3) by (auto simp: tiled_alt nth_eq_iff_index_eq)
    show ?thesis
    proof (cases "i = j")
      case True
      then show ?thesis using before_irrefl [OF x(1)] by (simp add: TRectKey_Compare_def)
    next
      case False
      then show ?thesis using compare_before [OF x(1,2) x(3) [OF False] False] by blast
    qed
  qed
  have asym: "\<not> ?L y x" if "x \<in> set rs" "y \<in> set rs" "?L x y" for x y
    using that t before_total [of x y] before_irrefl [of x] by metis
  have neg: "?L x z \<or> ?L z y" if "x \<in> set rs" "y \<in> set rs" "z \<in> set rs" "?L x y" for x y z
  proof (cases "x = z \<or> y = z")
    case False
    have "?L x z \<or> ?L z x" using False that t before_total [of x z] by metis
    then show ?thesis using banded_trans [OF assms(2), of z x y] that t by metis
  qed (use that in auto)
  show ?thesis unfolding key_order_def using keys asym neg by simp
qed

section \<open>Properties\<close>

text \<open>
  \<open>Sort\<close> always ends with \<open>KErrNone\<close>: the table of partitions never overflows, and the region
  keeps its rectangles and so its points. When the rectangles are in bands, as they are on a display,
  they end in the order of the key: from the top down, or from the bottom up, and each band from left
  to right or from right to left.
\<close>

theorem Sort_sorts:
  assumes "region_ok g" "length (iRects g) \<le> 2 ^ 30"
  shows "\<exists>g'. region_Sort aOffset g = Some (KErrNone, g') \<and> region_ok g' \<and> mset (iRects g') = mset (iRects g) \<and> region_area g' = region_area g \<and>
    (banded (iRects g) \<longrightarrow> sorted_wrt (rect_before (iX aOffset > 0) (iY aOffset > 0)) (iRects g'))"
proof -
  let ?r = "iX aOffset > 0" and ?d = "iY aOffset > 0"
  have t: "tiled (iRects g)" using assms(1) by (simp add: region_ok_def)
  obtain rs where rs: "QuickSort (TRectKey_Compare ?r ?d) (iRects g) = Some (KErrNone, length (iRects g) > 1, rs)" "mset rs = mset (iRects g)"
    "key_order (mset (iRects g)) (TRectKey_Compare ?r ?d) (rect_before ?r ?d) \<longrightarrow> sorted_wrt (\<lambda>x y. \<not> rect_before ?r ?d y x) rs"
    using QuickSort_ok [OF compare_refl assms(2), of ?r ?d "rect_before ?r ?d"] by blast
  have t': "tiled rs" "area rs = area (iRects g)" using mset_tiled [OF rs(2)] t by simp_all
  have len: "length rs = length (iRects g)" using rs(2) by (rule mset_eq_length)
  let ?g = "g\<lparr>iRects := rs\<rparr>"
  have "sorted_wrt (rect_before ?r ?d) rs" if "banded (iRects g)"
  proof -
    have "sorted_wrt (\<lambda>x y. \<not> rect_before ?r ?d y x) rs" using rs(3) banded_key_order [OF t that] by blast
    moreover have "sorted_wrt apart rs" "\<forall>r \<in> set rs. \<not> rect_IsEmpty r" using t' by (simp_all add: tiled_def)
    ultimately show ?thesis using before_total unfolding sorted_wrt_iff_nth_less by (metis less_trans nth_mem)
  qed
  moreover have "region_ok ?g" using assms(1) t' len by (auto simp: region_ok_def mem_ok_def room_def)
  moreover have "region_area ?g = region_area g" using t' by (simp add: region_area_def)
  ultimately show ?thesis using rs by (auto simp: region_Sort_def)
qed

theorem Sort_sorts_witness:
  "\<exists>g'. region_Sort \<lparr>iX = 0, iY = 1\<rparr> \<lparr>iRects = [mk_rect 0 0 1 1, mk_rect 1 1 2 2, mk_rect 0 1 1 2, mk_rect 1 0 2 1], iError = False,
     iAllocedRects = 4, iGranularity = 1\<rparr> = Some (KErrNone, g') \<and> sorted_wrt (rect_before False True) (iRects g')"
  using Sort_sorts [OF four_squares_ok, of "\<lparr>iX = 0, iY = 1\<rparr>"] by (auto simp: banded_def)

text \<open>
  C37. The key is not an order of every region: of three rectangles, each can come before the next in
  a circle. \<open>Sort\<close> then reports success and leaves a rectangle before one that is wholly above it.
\<close>

theorem Sort_leaves_disorder:
  "region_ok \<lparr>iRects = [mk_rect 4 0 6 2, mk_rect 2 1 3 3, mk_rect 0 2 1 4], iError = False, iAllocedRects = 3, iGranularity = 1\<rparr> \<and>
   region_Sort_default \<lparr>iRects = [mk_rect 4 0 6 2, mk_rect 2 1 3 3, mk_rect 0 2 1 4], iError = False, iAllocedRects = 3, iGranularity = 1\<rparr> =
     Some (KErrNone, \<lparr>iRects = [mk_rect 0 2 1 4, mk_rect 2 1 3 3, mk_rect 4 0 6 2], iError = False, iAllocedRects = 3, iGranularity = 1\<rparr>) \<and>
   rect_before False False (mk_rect 4 0 6 2) (mk_rect 0 2 1 4)"
proof (intro conjI)
  show "region_ok \<lparr>iRects = [mk_rect 4 0 6 2, mk_rect 2 1 3 3, mk_rect 0 2 1 4], iError = False, iAllocedRects = 3, iGranularity = 1\<rparr>"
    by (auto simp: region_ok_def mem_ok_def room_def tiled_Cons rect_IsEmpty_def points_iff)
  show "rect_before False False (mk_rect 4 0 6 2) (mk_rect 0 2 1 4)" by (simp add: rect_before_def)
  show "region_Sort_default \<lparr>iRects = [mk_rect 4 0 6 2, mk_rect 2 1 3 3, mk_rect 0 2 1 4], iError = False, iAllocedRects = 3, iGranularity = 1\<rparr> =
     Some (KErrNone, \<lparr>iRects = [mk_rect 0 2 1 4, mk_rect 2 1 3 3, mk_rect 4 0 6 2], iError = False, iAllocedRects = 3, iGranularity = 1\<rparr>)"
    by (simp add: region_Sort_default_def region_Sort_def QuickSort_def quick_loop.simps partit_exact partit_loop.simps scan_up.simps
        scan_down.simps TRectKey_Compare_def swap_at_def)
qed

end
