(* ===== verification/Calendar.thy ===== *)
theory Calendar
  imports Prelude "HOL-Library.Signed_Division"
begin

text \<open>
  Dates and times, \<^verbatim>\<open>kernel/eka/euser/us_time.cpp\<close>: the broken-down \<open>TDateTime\<close>
  with its checked setters, the 64-bit count of microseconds \<open>TTime\<close> since the start of
  year 0, the conversions between them, intervals and the calendar functions. C++ division and
  remainder of signed integers are \<open>sdiv\<close> and \<open>smod\<close> (towards zero); the 64-bit
  arithmetic wraps (\<open>to_TInt64\<close>). Months and days are numbered from 0.
\<close>

section \<open>64-bit integers\<close>

definition is_TInt64 :: "int \<Rightarrow> bool" where
  "is_TInt64 x \<longleftrightarrow> - (2 ^ 63) \<le> x \<and> x < 2 ^ 63"

definition to_TInt64 :: "int \<Rightarrow> int" where
  "to_TInt64 x = (x + 2 ^ 63) mod 2 ^ 64 - 2 ^ 63"

definition to_TUint64 :: "int \<Rightarrow> int" where
  "to_TUint64 x = x mod 2 ^ 64"

abbreviation (input) KMinTInt :: int where "KMinTInt \<equiv> - 0x80000000"

section \<open>Tables and leap years\<close>

definition KMinutesToMicroSeconds :: int where "KMinutesToMicroSeconds = 60000000"
definition KSecondsToMicroSeconds :: int where "KSecondsToMicroSeconds = 1000000"
definition KDaysToMicroSeconds :: int where "KDaysToMicroSeconds = 86400000000"
definition KHoursToMicroSeconds :: int where "KHoursToMicroSeconds = 3600000000"

definition mTab :: "int list list" where
  "mTab = [[31,28,31,30,31,30,31,31,30,31,30,31], [31,29,31,30,31,30,31,31,30,31,30,31]]"

definition cmTab :: "int list list" where
  "cmTab = [[0,31,59,90,120,151,181,212,243,273,304,334], [0,31,60,91,121,152,182,213,244,274,305,335]]"

definition IsLeapYear :: "int \<Rightarrow> bool" where
  "IsLeapYear aYear =
     (if aYear > 1600 then aYear smod 4 = 0 \<and> (aYear smod 100 \<noteq> 0 \<or> aYear smod 400 = 0)
      else aYear smod 4 = 0)"

text \<open>The result as an index into the tables, and as a number of days.\<close>

definition leap :: "int \<Rightarrow> int" where
  "leap aYear = (if IsLeapYear aYear then 1 else 0)"

definition LeapYearsUpTo :: "int \<Rightarrow> int" where
  "LeapYearsUpTo aYear =
     (if aYear \<le> 0 then aYear sdiv 4
      else if aYear \<le> 1600 then 1 + (aYear - 1) sdiv 4
      else let y = aYear - 1601; century = y sdiv 100
           in 401 + (y sdiv 4 - century + century sdiv 4))"

definition month_days :: "int \<Rightarrow> int \<Rightarrow> int" where
  "month_days aYear aMonth = mTab ! nat (leap aYear) ! nat aMonth"

definition Time_DaysInMonth :: "int \<Rightarrow> int \<Rightarrow> int" where
  "Time_DaysInMonth aYear aMonth = month_days aYear aMonth"

section \<open>TDateTime\<close>

record TDateTime =
  iYear :: int
  iMonth :: int
  iDay :: int
  iHour :: int
  iMinute :: int
  iSecond :: int
  iMicroSecond :: int

abbreviation (input) EJanuary :: int where "EJanuary \<equiv> 0"
abbreviation (input) EDecember :: int where "EDecember \<equiv> 11"

definition Set :: "int \<Rightarrow> int \<Rightarrow> int \<Rightarrow> int \<Rightarrow> int \<Rightarrow> int \<Rightarrow> int \<Rightarrow> TDateTime \<Rightarrow> int \<times> TDateTime" where
  "Set aYear aMonth aDay aHour aMinute aSecond aMicroSecond d =
     (let d = d\<lparr>iYear := aYear\<rparr> in
      if aMonth < EJanuary \<or> aMonth > EDecember then (KErrGeneral, d) else
      let d = d\<lparr>iMonth := aMonth\<rparr> in
      if aDay < 0 \<or> aDay \<ge> Time_DaysInMonth (iYear d) (iMonth d) then (KErrGeneral, d) else
      let d = d\<lparr>iDay := aDay\<rparr> in
      if aHour < 0 \<or> aHour \<ge> 24 then (KErrGeneral, d) else
      let d = d\<lparr>iHour := aHour\<rparr> in
      if aMinute < 0 \<or> aMinute \<ge> 60 then (KErrGeneral, d) else
      let d = d\<lparr>iMinute := aMinute\<rparr> in
      if aSecond < 0 \<or> aSecond \<ge> 60 then (KErrGeneral, d) else
      let d = d\<lparr>iSecond := aSecond\<rparr> in
      if aMicroSecond < 0 \<or> aMicroSecond \<ge> 1000000 then (KErrGeneral, d) else
      (KErrNone, d\<lparr>iMicroSecond := aMicroSecond\<rparr>))"

text \<open>The constructor panics when \<open>Set\<close> fails; the members before are not initialised (\<open>junk\<close>).\<close>

definition TDateTime_ctor ::
    "int \<Rightarrow> int \<Rightarrow> int \<Rightarrow> int \<Rightarrow> int \<Rightarrow> int \<Rightarrow> int \<Rightarrow> TDateTime \<Rightarrow> fault + TDateTime" where
  "TDateTime_ctor aYear aMonth aDay aHour aMinute aSecond aMicroSecond junk =
     (let (ret, d) = Set aYear aMonth aDay aHour aMinute aSecond aMicroSecond junk
      in assert_always ''ETDateTimeBadDateTime'' (ret = KErrNone) (Inr d))"

definition SetYear :: "int \<Rightarrow> TDateTime \<Rightarrow> int \<times> TDateTime" where
  "SetYear aYear d =
     (if iDay d \<ge> Time_DaysInMonth aYear (iMonth d) then (KErrGeneral, d) else (KErrNone, d\<lparr>iYear := aYear\<rparr>))"

definition SetYearLeapCheck :: "int \<Rightarrow> TDateTime \<Rightarrow> int \<times> TDateTime" where
  "SetYearLeapCheck aYear d =
     (let d' = (if iDay d \<ge> Time_DaysInMonth aYear (iMonth d) then d\<lparr>iDay := 27\<rparr> else d)
      in (KErrNone, d'\<lparr>iYear := aYear\<rparr>))"

definition SetMonth :: "int \<Rightarrow> TDateTime \<Rightarrow> int \<times> TDateTime" where
  "SetMonth aMonth d =
     (if aMonth < EJanuary \<or> aMonth > EDecember \<or> iDay d \<ge> Time_DaysInMonth (iYear d) aMonth then (KErrGeneral, d)
      else (KErrNone, d\<lparr>iMonth := aMonth\<rparr>))"

definition SetDay :: "int \<Rightarrow> TDateTime \<Rightarrow> int \<times> TDateTime" where
  "SetDay aDay d =
     (if aDay < 0 \<or> aDay \<ge> Time_DaysInMonth (iYear d) (iMonth d) then (KErrGeneral, d) else (KErrNone, d\<lparr>iDay := aDay\<rparr>))"

definition SetHour :: "int \<Rightarrow> TDateTime \<Rightarrow> int \<times> TDateTime" where
  "SetHour aHour d = (if aHour < 0 \<or> aHour \<ge> 24 then (KErrGeneral, d) else (KErrNone, d\<lparr>iHour := aHour\<rparr>))"

definition SetMinute :: "int \<Rightarrow> TDateTime \<Rightarrow> int \<times> TDateTime" where
  "SetMinute aMinute d = (if aMinute < 0 \<or> aMinute \<ge> 60 then (KErrGeneral, d) else (KErrNone, d\<lparr>iMinute := aMinute\<rparr>))"

definition SetSecond :: "int \<Rightarrow> TDateTime \<Rightarrow> int \<times> TDateTime" where
  "SetSecond aSecond d = (if aSecond < 0 \<or> aSecond \<ge> 60 then (KErrGeneral, d) else (KErrNone, d\<lparr>iSecond := aSecond\<rparr>))"

definition SetMicroSecond :: "int \<Rightarrow> TDateTime \<Rightarrow> int \<times> TDateTime" where
  "SetMicroSecond aMicroSecond d =
     (if aMicroSecond < 0 \<or> aMicroSecond \<ge> 1000000 then (KErrGeneral, d) else (KErrNone, d\<lparr>iMicroSecond := aMicroSecond\<rparr>))"

section \<open>Conversions\<close>

text \<open>A time is the value of \<open>iTime\<close>.\<close>

type_synonym TTime = int

definition Convert :: "TDateTime \<Rightarrow> TTime" where
  "Convert d =
     (let days = 365 * iYear d + LeapYearsUpTo (iYear d);
          days = days + cmTab ! nat (leap (iYear d)) ! nat (iMonth d);
          days = to_TInt (days + iDay d);
          sum = to_TUint (iMicroSecond d + iSecond d * KSecondsToMicroSeconds + iMinute d * KMinutesToMicroSeconds)
      in to_TInt64 ((push_bit 3 (to_TInt (days * 3)) + iHour d) * KHoursToMicroSeconds + sum))"

text \<open>The loop that corrects the estimated year after 1600.\<close>

function year_loop :: "int \<Rightarrow> int \<Rightarrow> int \<times> int" where
  "year_loop year daysLeft =
     (if daysLeft \<ge> 365 + leap year then year_loop (year + 1) (daysLeft - (365 + leap year))
      else (year, daysLeft))"
  by auto
termination
  by (relation "measure (\<lambda>(year, daysLeft). nat daysLeft)") (auto simp: leap_def split: if_splits)

declare year_loop.simps [simp del]

text \<open>
  The search downwards in the table of cumulative days: month \<open>m\<close> is tried first. It ends at
  the latest at the entry 0 of January, since the days left are not negative.
\<close>

fun month_search :: "int list \<Rightarrow> nat \<Rightarrow> int \<Rightarrow> nat" where
  "month_search cm 0 daysLeft = 0"
| "month_search cm (Suc m) daysLeft = (if daysLeft < cm ! Suc m then month_search cm m daysLeft else Suc m)"

definition day_and_rest :: "TTime \<Rightarrow> int \<times> int" where
  "day_and_rest iTime =
     (let rem = iTime smod KDaysToMicroSeconds; days = to_TInt (iTime sdiv KDaysToMicroSeconds)
      in if iTime < 0 \<and> rem \<noteq> 0 then (days - 1, iTime - (days - 1) * KDaysToMicroSeconds) else (days, rem))"

definition year_and_days :: "TTime \<Rightarrow> int \<Rightarrow> int \<times> int" where
  "year_and_days iTime days =
     (let year = (4 * days) sdiv (4 * 365 + 1)
      in if iTime < 0
         then let year = (if (4 * days) smod (4 * 365 + 1) \<noteq> 0 then year - 1 else year)
              in (year, days - (year * 365 + LeapYearsUpTo year))
         else year_loop year (days - (year * 365 + LeapYearsUpTo year)))"

definition blank_date :: TDateTime where
  "blank_date = \<lparr>iYear = 0, iMonth = EJanuary, iDay = 0, iHour = 0, iMinute = 0, iSecond = 0, iMicroSecond = 0\<rparr>"

definition DateTime :: "TTime \<Rightarrow> TDateTime" where
  "DateTime iTime =
     (let (days, rem) = day_and_rest iTime;
          (year, daysLeft) = year_and_days iTime days;
          d = snd (SetYear year blank_date);
          cm = cmTab ! nat (leap year);
          month = month_search cm 11 daysLeft;
          d = snd (SetMonth (int month) d);
          d = snd (SetDay (daysLeft - cm ! month) d);
          hour = (rem div 1024) sdiv 3515625;
          d = snd (SetHour hour d);
          rem32 = to_TUint (rem - hour * 3515625 * 1024);
          min = rem32 div KMinutesToMicroSeconds;
          d = snd (SetMinute min d);
          rem32 = rem32 - min * KMinutesToMicroSeconds;
          sec = rem32 div KSecondsToMicroSeconds;
          d = snd (SetSecond sec d);
          rem32 = rem32 - sec * KSecondsToMicroSeconds
      in snd (SetMicroSecond rem32 d))"

section \<open>Intervals\<close>

definition RoundUpToNextMinute :: "TTime \<Rightarrow> TTime" where
  "RoundUpToNextMinute iTime =
     (let t = (if iTime > 0 then to_TInt64 (iTime + 59999999) else iTime)
      in to_TInt64 (t - t smod 60000000))"

definition MicroSecondsFrom :: "TTime \<Rightarrow> TTime \<Rightarrow> int" where
  "MicroSecondsFrom iTime aTime = to_TInt64 (iTime - aTime)"

text \<open>The signed number of whole units between two times: the differences are taken as unsigned.\<close>

definition units_from :: "int \<Rightarrow> TTime \<Rightarrow> TTime \<Rightarrow> int" where
  "units_from u iTime aTime =
     (if iTime > aTime then to_TInt64 (to_TUint64 (iTime - aTime) div u)
      else - to_TInt64 (to_TUint64 (aTime - iTime) div u))"

definition SecondsFrom :: "TTime \<Rightarrow> TTime \<Rightarrow> int \<times> int option" where
  "SecondsFrom iTime aTime =
     (let diff = units_from KSecondsToMicroSeconds iTime aTime
      in if diff > KMaxTInt \<or> diff < KMinTInt then (KErrOverflow, None) else (KErrNone, Some diff))"

definition MinutesFrom :: "TTime \<Rightarrow> TTime \<Rightarrow> int \<times> int option" where
  "MinutesFrom iTime aTime =
     (let diff = units_from KMinutesToMicroSeconds iTime aTime
      in if diff > KMaxTInt \<or> diff < KMinTInt then (KErrOverflow, None) else (KErrNone, Some diff))"

definition HoursFrom :: "TTime \<Rightarrow> TTime \<Rightarrow> int \<times> int option" where
  "HoursFrom iTime aTime =
     (let diff = units_from KHoursToMicroSeconds iTime aTime
      in if diff > KMaxTInt \<or> diff < KMinTInt then (KErrOverflow, None) else (KErrNone, Some diff))"

definition DaysFrom :: "TTime \<Rightarrow> TTime \<Rightarrow> int" where
  "DaysFrom iTime aTime =
     (if iTime > aTime then to_TInt (to_TUint64 (iTime - aTime) div KDaysToMicroSeconds)
      else - to_TInt (to_TUint64 (aTime - iTime) div KDaysToMicroSeconds))"

definition TTime_DaysInMonth :: "TTime \<Rightarrow> int" where
  "TTime_DaysInMonth iTime = (let d = DateTime iTime in Time_DaysInMonth (iYear d) (iMonth d))"

definition MonthsFrom :: "TTime \<Rightarrow> TTime \<Rightarrow> int" where
  "MonthsFrom iTime aTime =
     (let di = DateTime iTime; da = DateTime aTime;
          n = (iYear di - iYear da) * 12 + (iMonth di - iMonth da)
      in if n > 0
         then if iDay di \<le> iDay da \<and>
                 (iTime smod KDaysToMicroSeconds < aTime smod KDaysToMicroSeconds \<or>
                  (iDay di \<noteq> iDay da \<and> iDay di \<noteq> TTime_DaysInMonth iTime - 1))
              then n - 1 else n
         else if n \<noteq> 0 \<and> iDay di \<ge> iDay da \<and>
                 (iTime smod KDaysToMicroSeconds > aTime smod KDaysToMicroSeconds \<or>
                  (iDay di \<noteq> iDay da \<and> iDay da \<noteq> TTime_DaysInMonth aTime - 1))
              then n + 1 else n)"

definition YearsFrom :: "TTime \<Rightarrow> TTime \<Rightarrow> int" where
  "YearsFrom iTime aTime = MonthsFrom iTime aTime sdiv 12"

definition plus_months :: "TTime \<Rightarrow> int \<Rightarrow> fault + TTime" where
  "plus_months iTime aMonth =
     (let d = DateTime iTime;
          month = to_TInt (iMonth d + iYear d * 12 + aMonth);
          day = iDay d;
          year = month sdiv 12;
          month = month smod 12;
          (year, month) = (if month < 0 then (year - 1, month + 12) else (year, month));
          daysInMonth = mTab ! nat (leap year) ! nat month - 1;
          day = (if day \<ge> daysInMonth then daysInMonth else day);
          (ret, d') = Set year month day (iHour d) (iMinute d) (iSecond d) (iMicroSecond d) d
      in assert_always ''ETDateTimeBadDateTime'' (ret = KErrNone) (Inr (Convert d')))"

definition plus_years :: "TTime \<Rightarrow> int \<Rightarrow> fault + TTime" where
  "plus_years iTime aYear = plus_months iTime (to_TInt (aYear * 12))"

definition minus_months :: "TTime \<Rightarrow> int \<Rightarrow> fault + TTime" where
  "minus_months iTime aMonth = plus_months iTime (to_TInt (aMonth * -1))"

definition minus_years :: "TTime \<Rightarrow> int \<Rightarrow> fault + TTime" where
  "minus_years iTime aYear = minus_months iTime (to_TInt (aYear * 12))"

text \<open>The operators on days, hours, minutes, seconds and microseconds (\<open>+\<close> and \<open>+=\<close>, \<open>-\<close> and \<open>-=\<close> agree).\<close>

definition plus_days :: "TTime \<Rightarrow> int \<Rightarrow> TTime" where
  "plus_days iTime aDay = to_TInt64 (iTime + aDay * KDaysToMicroSeconds)"
definition plus_hours :: "TTime \<Rightarrow> int \<Rightarrow> TTime" where
  "plus_hours iTime aHour = to_TInt64 (iTime + aHour * KHoursToMicroSeconds)"
definition plus_minutes :: "TTime \<Rightarrow> int \<Rightarrow> TTime" where
  "plus_minutes iTime aMinute = to_TInt64 (iTime + aMinute * KMinutesToMicroSeconds)"
definition plus_seconds :: "TTime \<Rightarrow> int \<Rightarrow> TTime" where
  "plus_seconds iTime aSecond = to_TInt64 (iTime + aSecond * KSecondsToMicroSeconds)"
definition plus_microseconds :: "TTime \<Rightarrow> int \<Rightarrow> TTime" where
  "plus_microseconds iTime aMicroSecond = to_TInt64 (iTime + aMicroSecond)"
definition minus_days :: "TTime \<Rightarrow> int \<Rightarrow> TTime" where
  "minus_days iTime aDay = to_TInt64 (iTime - aDay * KDaysToMicroSeconds)"
definition minus_hours :: "TTime \<Rightarrow> int \<Rightarrow> TTime" where
  "minus_hours iTime aHour = to_TInt64 (iTime - aHour * KHoursToMicroSeconds)"
definition minus_minutes :: "TTime \<Rightarrow> int \<Rightarrow> TTime" where
  "minus_minutes iTime aMinute = to_TInt64 (iTime - aMinute * KMinutesToMicroSeconds)"
definition minus_seconds :: "TTime \<Rightarrow> int \<Rightarrow> TTime" where
  "minus_seconds iTime aSecond = to_TInt64 (iTime - aSecond * KSecondsToMicroSeconds)"
definition minus_microseconds :: "TTime \<Rightarrow> int \<Rightarrow> TTime" where
  "minus_microseconds iTime aMicroSecond = to_TInt64 (iTime - aMicroSecond)"

section \<open>Calendar functions\<close>

definition DayNoInWeek :: "TTime \<Rightarrow> int" where
  "DayNoInWeek iTime =
     (let fullDays = iTime sdiv KDaysToMicroSeconds; day = to_TInt fullDays smod 7
      in if iTime < 0
         then if fullDays * KDaysToMicroSeconds \<noteq> iTime then day + 6
              else if day \<noteq> 0 then day + 7 else day
         else day)"

definition DayNoInMonth :: "TTime \<Rightarrow> int" where
  "DayNoInMonth iTime = iDay (DateTime iTime)"

definition DayNoInYear_from :: "TTime \<Rightarrow> TTime \<Rightarrow> fault + int" where
  "DayNoInYear_from iTime aStartDate =
     (let y = iYear (DateTime iTime); m = iMonth (DateTime aStartDate); d = iDay (DateTime aStartDate);
          d = (if d \<ge> Time_DaysInMonth y m then 27 else d)
      in ebind (TDateTime_ctor y m d 0 0 0 0 blank_date) (\<lambda>yearStart.
           let start = Convert yearStart;
               start = (if start > iTime then Convert (snd (SetYearLeapCheck (y - 1) yearStart)) else start)
           in Inr (DaysFrom iTime start + 1)))"

definition DayNoInYear :: "TTime \<Rightarrow> fault + int" where
  "DayNoInYear iTime =
     ebind (TDateTime_ctor (iYear (DateTime iTime)) EJanuary 0 0 0 0 0 blank_date)
       (\<lambda>jan1st. DayNoInYear_from iTime (Convert jan1st))"

datatype TFirstWeekRule = EFirstWeek | EFirstFourDayWeek | EFirstFullWeek

definition NullTTime :: TTime where "NullTTime = - (2 ^ 63)"
definition MaxTTime :: TTime where "MaxTTime = 2 ^ 63 - 1"
definition MinTTime :: TTime where "MinTTime = - (2 ^ 63) + 1"

end
