(* ===== verification/Calendar_Lemmas.thy ===== *)
theory Calendar_Lemmas
  imports Calendar
begin

text \<open>
  The calendar: the first day of each year (\<open>year_start\<close>), the place of a day in its year
  and month, and what the conversions compute from them.
\<close>

section \<open>Division towards zero\<close>

lemma sdiv_nonneg: "0 \<le> a \<Longrightarrow> 0 < b \<Longrightarrow> a sdiv b = a div (b :: int)"
  by (simp add: signed_divide_int_def sgn_if)

lemma sdiv_neg: "a \<le> 0 \<Longrightarrow> 0 < b \<Longrightarrow> a sdiv b = - ((- a) div (b :: int))"
  by (auto simp: signed_divide_int_def sgn_if)

lemma smod_nonneg: "0 \<le> a \<Longrightarrow> 0 < b \<Longrightarrow> a smod b = a mod (b :: int)"
  by (simp add: signed_modulo_int_def sgn_if abs_if)

lemma smod_neg: "a \<le> 0 \<Longrightarrow> 0 < b \<Longrightarrow> a smod b = - ((- a) mod (b :: int))"
  by (auto simp: signed_modulo_int_def sgn_if)

lemma smod_dvd: "0 < b \<Longrightarrow> a smod b = 0 \<longleftrightarrow> (b :: int) dvd a"
proof (cases "0 \<le> a")
  case True
  assume "0 < b"
  then show ?thesis using True by (simp add: smod_nonneg dvd_eq_mod_eq_0)
next
  case False
  assume "0 < b"
  then have "a smod b = - ((- a) mod b)" using False by (simp add: smod_neg)
  also have "\<dots> = 0 \<longleftrightarrow> b dvd - a" by (simp add: dvd_eq_mod_eq_0)
  finally show ?thesis by simp
qed

lemma div_step:
  assumes "0 < (n :: int)"
  shows "(z + 1) div n = z div n + (if n dvd z + 1 then 1 else 0)"
proof (cases "z mod n + 1 = n")
  case True
  have "z = n * (z div n) + z mod n" by simp
  then have "z + 1 = n * (z div n) + n" using True by linarith
  then have e: "z + 1 = n * (z div n + 1)" by (simp only: distrib_left mult_1_right)
  then have "n dvd z + 1" by (metis dvd_triv_left)
  moreover have "(z + 1) div n = z div n + 1" unfolding e using assms by simp
  ultimately show ?thesis by simp
next
  case False
  have r: "0 \<le> z mod n" "z mod n < n" using assms by simp_all
  have e: "z + 1 = n * (z div n) + (z mod n + 1)" by simp
  then have "(z + 1) div n = z div n" "(z + 1) mod n = z mod n + 1"
    using r False int_div_pos_eq [OF e] int_mod_pos_eq [OF e] by simp_all
  then show ?thesis using r by (simp add: dvd_eq_mod_eq_0)
qed

section \<open>Leap years\<close>

lemma IsLeapYear_dvd:
  "IsLeapYear y \<longleftrightarrow> 4 dvd y \<and> (y > 1600 \<longrightarrow> \<not> 100 dvd y \<or> 400 dvd y)"
  by (auto simp: IsLeapYear_def smod_dvd)

lemma leap_range: "leap y = 0 \<or> leap y = 1" "0 \<le> leap y" "leap y \<le> 1"
  by (simp_all add: leap_def)

text \<open>The count of leap years before a year changes by one after each leap year.\<close>

lemma LeapYears_late:
  assumes "0 \<le> z"
  shows "LeapYearsUpTo (1601 + z) = 401 + (z div 4 - z div 100 + z div 400)"
proof -
  have "z div 100 sdiv 4 = z div 400" using assms by (simp add: sdiv_nonneg pos_imp_zdiv_nonneg_iff zdiv_zmult2_eq [symmetric])
  then show ?thesis using assms by (simp add: LeapYearsUpTo_def Let_def sdiv_nonneg)
qed

lemma LeapYears_middle: "0 \<le> y \<Longrightarrow> y \<le> 1600 \<Longrightarrow> LeapYearsUpTo y = (y + 3) div 4"
proof -
  have "(y + 3) div 4 = (y - 1) div 4 + 1" by presburger
  then show "0 \<le> y \<Longrightarrow> y \<le> 1600 \<Longrightarrow> LeapYearsUpTo y = (y + 3) div 4"
    by (simp add: LeapYearsUpTo_def sdiv_nonneg)
qed

lemma LeapYears_early: "y \<le> 0 \<Longrightarrow> LeapYearsUpTo y = (y + 3) div 4"
  by (simp add: LeapYearsUpTo_def sdiv_neg)

lemma LeapYears_step: "LeapYearsUpTo (y + 1) = LeapYearsUpTo y + leap y"
proof (cases "y \<le> 1600")
  case True
  have "LeapYearsUpTo y = (y + 3) div 4" using True LeapYears_early [of y] LeapYears_middle [of y] by linarith
  moreover have "LeapYearsUpTo (y + 1) = (y + 1 + 3) div 4"
  proof (cases "y = 1600")
    case True
    then show ?thesis using LeapYears_late [of 0] by simp
  next
    case False
    then show ?thesis using \<open>y \<le> 1600\<close> LeapYears_early [of "y + 1"] LeapYears_middle [of "y + 1"] by linarith
  qed
  moreover have "(y + 1 + 3) div 4 = (y + 3) div 4 + (if 4 dvd y then 1 else 0)" by presburger
  moreover have "leap y = (if 4 dvd y then 1 else 0)" using True by (simp add: leap_def IsLeapYear_dvd)
  ultimately show ?thesis by simp
next
  case False
  define z where "z = y - 1601"
  have z: "0 \<le> z" "y = 1601 + z" using False by (simp_all add: z_def)
  have y': "y = 1600 + (z + 1)" using z(2) by simp
  have d: "4 dvd y \<longleftrightarrow> 4 dvd z + 1" "100 dvd y \<longleftrightarrow> 100 dvd z + 1" "400 dvd y \<longleftrightarrow> 400 dvd z + 1"
    unfolding y' by (rule dvd_add_right_iff; simp)+
  have dvds: "400 dvd z + 1 \<Longrightarrow> 100 dvd z + 1" "100 dvd z + 1 \<Longrightarrow> 4 dvd z + 1"
    by (rule dvd_trans [of 100 400], simp, assumption) (rule dvd_trans [of 4 100], simp, assumption)
  have flags: "(if A \<and> (\<not> B \<or> C) then 1 else 0 :: int) = (if A then 1 else 0) - (if B then 1 else 0) + (if C then 1 else 0)"
    if "C \<Longrightarrow> B" "B \<Longrightarrow> A" for A B C using that by (cases A; cases B; cases C) simp_all
  have "y > 1600" using False by simp
  then have "leap y = (if 4 dvd z + 1 \<and> (\<not> 100 dvd z + 1 \<or> 400 dvd z + 1) then 1 else 0)"
    by (simp only: leap_def IsLeapYear_dvd d simp_thms)
  then have l: "leap y = (if 4 dvd z + 1 then 1 else 0) - (if 100 dvd z + 1 then 1 else 0) + (if 400 dvd z + 1 then 1 else 0)"
    by (simp only: flags [OF dvds])
  have next_count: "LeapYearsUpTo (y + 1) = 401 + ((z + 1) div 4 - (z + 1) div 100 + (z + 1) div 400)"
  proof -
    have "y + 1 = 1601 + (z + 1)" using z(2) by simp
    then show ?thesis using LeapYears_late [of "z + 1"] z(1) by (simp only:)
  qed
  have this_count: "LeapYearsUpTo y = 401 + (z div 4 - z div 100 + z div 400)" using LeapYears_late [of z] z by simp
  have sum: "n + ((p + a) - (q + b) + (r + c)) = n + (p - q + r) + (a - b + c)" for n p q r a b c :: int by simp
  have steps: "(z + 1) div 4 = z div 4 + (if 4 dvd z + 1 then 1 else 0)" "(z + 1) div 100 = z div 100 + (if 100 dvd z + 1 then 1 else 0)"
    "(z + 1) div 400 = z div 400 + (if 400 dvd z + 1 then 1 else 0)" by (rule div_step; simp)+
  show ?thesis unfolding next_count this_count l steps by (rule sum)
qed

definition year_start :: "int \<Rightarrow> int" where
  "year_start y = 365 * y + LeapYearsUpTo y"

lemma year_start_step: "year_start (y + 1) = year_start y + 365 + leap y"
  by (simp add: year_start_def LeapYears_step)

lemma year_start_mono:
  assumes "x \<le> y"
  shows "year_start x + 365 * (y - x) \<le> year_start y"
  using assms
proof (induction y rule: int_ge_induct)
  case (step i)
  then show ?case using year_start_step [of i] leap_range(2) [of i] by simp
qed simp

text \<open>A day lies in exactly one year.\<close>

definition in_year :: "int \<Rightarrow> int \<Rightarrow> bool" where
  "in_year day y \<longleftrightarrow> year_start y \<le> day \<and> day < year_start (y + 1)"

lemma in_year_unique: "in_year d x \<Longrightarrow> in_year d y \<Longrightarrow> x = y"
proof (rule ccontr)
  assume in_years: "in_year d x" "in_year d y" and "x \<noteq> y"
  then consider "x + 1 \<le> y" | "y + 1 \<le> x" by linarith
  then show False
    using in_years year_start_mono [of "x + 1" y] year_start_mono [of "y + 1" x]
    by cases (auto simp: in_year_def)
qed

lemma year_start_upper: "year_start y * 4 \<le> 1461 * y + 3"
proof (cases "y \<le> 1600")
  case True
  have "LeapYearsUpTo y = (y + 3) div 4" using True LeapYears_early [of y] LeapYears_middle [of y] by linarith
  then show ?thesis by (simp add: year_start_def)
next
  case False
  have z: "0 \<le> y - 1601" "1601 + (y - 1601) = y" using False by simp_all
  have "(y - 1601) div 400 \<le> (y - 1601) div 100" using z(1) by (simp add: zdiv_mono2)
  then show ?thesis using LeapYears_late [OF z(1)] z by (simp add: year_start_def)
qed

lemma year_start_lower: "y \<le> 1600 \<Longrightarrow> 1461 * y \<le> year_start y * 4"
  using LeapYears_early [of y] LeapYears_middle [of y] by (cases "y \<le> 0") (auto simp: year_start_def)

lemma year_loop_spec:
  "0 \<le> d \<Longrightarrow> year_loop y d = (y', d') \<Longrightarrow> year_start y' + d' = year_start y + d \<and> 0 \<le> d' \<and> d' < 365 + leap y'"
proof (induction y d rule: year_loop.induct)
  case (1 y d)
  show ?case
  proof (cases "d \<ge> 365 + leap y")
    case True
    then have "year_loop (y + 1) (d - (365 + leap y)) = (y', d')" using 1(3) by (subst (asm) year_loop.simps) simp
    then show ?thesis using 1(1) True year_start_step [of y] by simp
  next
    case False
    then show ?thesis using 1(2,3) by (subst (asm) year_loop.simps) simp
  qed
qed

lemma floor_1461: "d < 0 \<Longrightarrow>
    (if (4 * d) smod 1461 \<noteq> 0 then (4 * d) sdiv 1461 - 1 else (4 * d) sdiv 1461) = (4 * d) div (1461 :: int)"
  by (simp add: sdiv_neg smod_neg zdiv_zminus1_eq_if [of 1461 "- (4 * d)", simplified])

lemma year_and_days_spec:
  assumes "year_and_days t d = (y, e)" "t < 0 \<longleftrightarrow> d < 0"
  shows "in_year d y" "e = d - year_start y"
proof -
  have "in_year d y \<and> e = d - year_start y"
  proof (cases "d < 0")
    case True
    have y: "y = (4 * d) div 1461" "e = d - year_start y"
      using assms True floor_1461 [OF True] by (auto simp: year_and_days_def Let_def year_start_def)
    have lower: "year_start y \<le> d" using year_start_upper [of y] y(1) by linarith
    have "y < 0" using y(1) True by (simp add: pos_imp_zdiv_neg_iff)
    then have "d < year_start (y + 1)" using year_start_lower [of "y + 1"] y(1) by simp
    then show ?thesis using lower y by (simp add: in_year_def)
  next
    case False
    let ?y0 = "(4 * d) div 1461"
    have "year_start ?y0 \<le> d" using year_start_upper [of ?y0] by linarith
    moreover have "year_loop ?y0 (d - year_start ?y0) = (y, e)"
      using assms False by (simp add: year_and_days_def Let_def year_start_def sdiv_nonneg mult.commute)
    ultimately show ?thesis using year_loop_spec [of "d - year_start ?y0" ?y0 y e] year_start_step [of y]
      by (simp add: in_year_def)
  qed
  then show "in_year d y" "e = d - year_start y" by simp_all
qed

end
