(* ===== verification/Calendar_Conv.thy ===== *)
theory Calendar_Conv
  imports Calendar_Lemmas
begin

text \<open>
  What \<open>DateTime\<close> and \<open>Convert\<close> compute: the two are inverse to each other on valid dates
  and on all 64-bit times.
\<close>

section \<open>Months\<close>

lemma month_index: "0 \<le> m \<Longrightarrow> m \<le> 11 \<Longrightarrow> m \<in> {0,1,2,3,4,5,6,7,8,9,10,11 :: int}"
  unfolding insert_iff empty_iff by presburger

lemma leap_cases:
  obtains "leap y = 0" "nat (leap y) = 0" | "leap y = 1" "nat (leap y) = Suc 0"
  using leap_range(1) [of y] by auto

lemma month_search_spec:
  assumes "0 \<le> d" "d < 365 + leap y"
  defines "m \<equiv> month_search (cmTab ! nat (leap y)) 11 d"
  shows "m \<le> 11" "0 \<le> d - cmTab ! nat (leap y) ! m" "d - cmTab ! nat (leap y) ! m < month_days y (int m)"
  using assms
  by (cases rule: leap_cases [of y]; simp add: m_def cmTab_def mTab_def month_days_def eval_nat_numeral)+

lemma month_search_unique:
  assumes "0 \<le> m" "m \<le> 11" "0 \<le> d" "d < month_days y m"
  shows "month_search (cmTab ! nat (leap y)) 11 (cmTab ! nat (leap y) ! nat m + d) = nat m"
  using month_index [OF assms(1,2)] assms(3,4)
  by (cases rule: leap_cases [of y]; elim insertE emptyE; simp add: cmTab_def mTab_def month_days_def eval_nat_numeral)

lemma month_day_bounds:
  assumes "0 \<le> m" "m \<le> 11" "0 \<le> d" "d < month_days y m"
  shows "0 \<le> cmTab ! nat (leap y) ! nat m + d" "cmTab ! nat (leap y) ! nat m + d < 365 + leap y"
  using month_index [OF assms(1,2)] assms(3,4)
  by (cases rule: leap_cases [of y]; elim insertE emptyE; simp add: cmTab_def mTab_def month_days_def)+

lemma month_days_range:
  assumes "0 \<le> m" "m \<le> 11"
  shows "28 \<le> month_days y m" "month_days y m \<le> 31"
  using month_index [OF assms(1,2)]
  by (cases rule: leap_cases [of y]; elim insertE emptyE; simp add: mTab_def month_days_def)+

section \<open>Days and times of day\<close>

lemmas units = KDaysToMicroSeconds_def KHoursToMicroSeconds_def KMinutesToMicroSeconds_def KSecondsToMicroSeconds_def

lemma to_TInt64_id [simp]: "is_TInt64 x \<Longrightarrow> to_TInt64 x = x"
  by (simp add: is_TInt64_def to_TInt64_def)

lemma div_mod_eq:
  assumes "a = n * q + r" "0 \<le> r" "r < (n :: int)"
  shows "a div n = q" "a mod n = r"
  using int_div_pos_eq [OF assms] int_mod_pos_eq [OF assms] by simp_all

lemma div_range:
  assumes "0 \<le> x" "x < n * m" "0 < (n :: int)"
  shows "0 \<le> x div n" "x div n < m"
proof -
  show "0 \<le> x div n" using assms by (simp add: pos_imp_zdiv_nonneg_iff)
  have "n * (x div n) \<le> x" using assms(3) minus_mult_div_eq_mod [of x n] pos_mod_sign [of n x] by linarith
  then have "n * (x div n) < n * m" using assms(2) by linarith
  then show "x div n < m" using assms(3) by simp
qed

lemma day_bounds:
  assumes "is_TInt64 t"
  shows "-106751992 \<le> t div KDaysToMicroSeconds" "t div KDaysToMicroSeconds \<le> 106751991"
proof -
  have t: "t < 9223372036854775808" "-9223372036854775808 \<le> t" using assms by (simp_all add: is_TInt64_def)
  have "86400000000 * (t div 86400000000) \<le> t" "t < 86400000000 * (t div 86400000000) + 86400000000"
    using minus_mult_div_eq_mod [of t 86400000000] pos_mod_sign [of 86400000000 t] pos_mod_bound [of 86400000000 t]
    by linarith+
  then show "-106751992 \<le> t div KDaysToMicroSeconds" "t div KDaysToMicroSeconds \<le> 106751991"
    unfolding units using t by linarith+
qed

lemma day_and_rest_eq:
  assumes "is_TInt64 t"
  shows "day_and_rest t = (t div KDaysToMicroSeconds, t mod KDaysToMicroSeconds)"
proof (cases "t < 0")
  case False
  have "is_TInt (t div KDaysToMicroSeconds)" using day_bounds [OF assms] by (simp add: is_TInt_def)
  then show ?thesis using False by (simp add: day_and_rest_def Let_def sdiv_nonneg smod_nonneg units)
next
  case True
  let ?K = KDaysToMicroSeconds
  have K: "0 < ?K" by (simp add: units)
  have q: "t sdiv ?K = (if t mod ?K = 0 then t div ?K else t div ?K + 1)"
    using True K zdiv_zminus1_eq_if [of ?K "- t"] zmod_zminus1_eq_if [of "- t" ?K] by (auto simp: sdiv_neg)
  have r: "t smod ?K = 0 \<longleftrightarrow> t mod ?K = 0" using smod_dvd [OF K, of t] by (simp add: dvd_eq_mod_eq_0)
  have "is_TInt (t sdiv ?K)" using day_bounds [OF assms] q by (simp add: is_TInt_def)
  then show ?thesis
    using True q r minus_mult_div_eq_mod [of t ?K]
    by (auto simp: day_and_rest_def Let_def algebra_simps)
qed

text \<open>The time of day: hours, minutes, seconds and microseconds of the rest.\<close>

lemma hour_of_rest: "0 \<le> (r :: int) \<Longrightarrow> (r div 1024) sdiv 3515625 = r div 3600000000"
  by (simp add: sdiv_nonneg pos_imp_zdiv_nonneg_iff zdiv_zmult2_eq [symmetric])

lemma rest_bounds:
  assumes "0 \<le> r" "r < KDaysToMicroSeconds"
  shows "0 \<le> r div 3600000000" "r div 3600000000 < 24"
    "to_TUint (r - r div 3600000000 * 3515625 * 1024) = r mod 3600000000"
proof -
  show "0 \<le> r div 3600000000" "r div 3600000000 < 24"
    by (rule div_range [where m = 24]; use assms in \<open>simp add: units\<close>)+
  have "r - r div 3600000000 * 3515625 * 1024 = r mod 3600000000"
    using minus_div_mult_eq_mod [of r 3600000000] by simp
  then show "to_TUint (r - r div 3600000000 * 3515625 * 1024) = r mod 3600000000"
    using pos_mod_bound [of 3600000000 r] by (simp add: to_TUint_def)
qed

lemma rest_parts:
  fixes r :: int
  defines "h \<equiv> r div 3600000000" and "mi \<equiv> r mod 3600000000 div 60000000"
    and "s \<equiv> r mod 60000000 div 1000000" and "us \<equiv> r mod 1000000"
  shows "r = h * 3600000000 + mi * 60000000 + s * 1000000 + us" "0 \<le> mi" "mi < 60" "0 \<le> s" "s < 60" "0 \<le> us" "us < 1000000"
    "r mod 3600000000 - mi * 60000000 = r mod 60000000" "r mod 60000000 - s * 1000000 = us"
proof -
  have mm: "r mod 3600000000 mod 60000000 = r mod 60000000" "r mod 60000000 mod 1000000 = r mod 1000000"
    by (simp_all add: mod_mod_cancel)
  show a: "r mod 3600000000 - mi * 60000000 = r mod 60000000" "r mod 60000000 - s * 1000000 = us"
    using mm minus_div_mult_eq_mod [of "r mod 3600000000" 60000000] minus_div_mult_eq_mod [of "r mod 60000000" 1000000]
    unfolding mi_def s_def us_def by (simp_all only:)
  show "r = h * 3600000000 + mi * 60000000 + s * 1000000 + us"
    using a minus_div_mult_eq_mod [of r 3600000000] unfolding h_def by linarith
  have "0 \<le> r mod 3600000000" "r mod 3600000000 < 60000000 * 60" "0 \<le> r mod 60000000" "r mod 60000000 < 1000000 * 60"
    by simp_all
  then show "0 \<le> mi" "mi < 60" "0 \<le> s" "s < 60"
    unfolding mi_def s_def by (rule div_range; assumption | simp)+
  show "0 \<le> us" "us < 1000000" by (simp_all add: us_def)
qed

section \<open>Dates\<close>

definition valid_date :: "TDateTime \<Rightarrow> bool" where
  "valid_date d \<longleftrightarrow>
     0 \<le> iMonth d \<and> iMonth d \<le> 11 \<and> 0 \<le> iDay d \<and> iDay d < month_days (iYear d) (iMonth d) \<and>
     0 \<le> iHour d \<and> iHour d < 24 \<and> 0 \<le> iMinute d \<and> iMinute d < 60 \<and> 0 \<le> iSecond d \<and> iSecond d < 60 \<and>
     0 \<le> iMicroSecond d \<and> iMicroSecond d < 1000000"

text \<open>The day number and the time of day a date stands for.\<close>

definition date_day :: "TDateTime \<Rightarrow> int" where
  "date_day d = year_start (iYear d) + cmTab ! nat (leap (iYear d)) ! nat (iMonth d) + iDay d"

definition date_rest :: "TDateTime \<Rightarrow> int" where
  "date_rest d = iHour d * 3600000000 + iMinute d * 60000000 + iSecond d * 1000000 + iMicroSecond d"

definition date_time :: "TDateTime \<Rightarrow> int" where
  "date_time d = date_day d * KDaysToMicroSeconds + date_rest d"

lemma date_rest_range:
  assumes "valid_date d"
  shows "0 \<le> date_rest d" "date_rest d < KDaysToMicroSeconds"
  using assms by (simp_all add: valid_date_def date_rest_def units)

lemma date_time_parts:
  assumes "valid_date d"
  shows "date_time d div KDaysToMicroSeconds = date_day d" "date_time d mod KDaysToMicroSeconds = date_rest d"
  by (rule div_mod_eq [where q = "date_day d" and r = "date_rest d"];
      use date_rest_range [OF assms] in \<open>simp add: date_time_def\<close>)+

text \<open>The date of a day \<open>D\<close> with rest \<open>r\<close>, in year \<open>y\<close>.\<close>

definition date_of :: "int \<Rightarrow> int \<Rightarrow> int \<Rightarrow> TDateTime" where
  "date_of y D r =
     (let cm = cmTab ! nat (leap y); d = D - year_start y; m = month_search cm 11 d
      in \<lparr>iYear = y, iMonth = int m, iDay = d - cm ! m, iHour = r div 3600000000,
          iMinute = r mod 3600000000 div 60000000, iSecond = r mod 60000000 div 1000000,
          iMicroSecond = r mod 1000000\<rparr>)"

lemma date_of_valid:
  assumes "in_year D y" "0 \<le> r" "r < KDaysToMicroSeconds"
  shows "valid_date (date_of y D r)" "date_day (date_of y D r) = D" "date_rest (date_of y D r) = r"
proof -
  have d: "0 \<le> D - year_start y" "D - year_start y < 365 + leap y"
    using assms(1) year_start_step [of y] by (simp_all add: in_year_def)
  note m = month_search_spec [OF d] and p = rest_parts [of r] and b = rest_bounds [OF assms(2,3)]
  show "valid_date (date_of y D r)" using m p(2-7) b(1,2) by (simp add: valid_date_def date_of_def Let_def)
  show "date_day (date_of y D r) = D" by (simp add: date_day_def date_of_def Let_def)
  show "date_rest (date_of y D r) = r" by (simp only: date_rest_def date_of_def Let_def TDateTime.simps p(1) [symmetric])
qed

lemma date_of_unique:
  assumes "valid_date d" "in_year (date_day d) y"
  shows "d = date_of y (date_day d) (date_rest d)"
proof -
  have b: "0 \<le> date_day d - year_start (iYear d)" "date_day d - year_start (iYear d) < 365 + leap (iYear d)"
    using month_day_bounds [of "iMonth d" "iDay d" "iYear d"] assms(1) by (simp_all add: valid_date_def date_day_def)
  then have "in_year (date_day d) (iYear d)" using year_start_step [of "iYear d"] by (simp add: in_year_def)
  then have y: "y = iYear d" using assms(2) in_year_unique by blast
  have m: "month_search (cmTab ! nat (leap y)) 11 (date_day d - year_start y) = nat (iMonth d)"
    using month_search_unique [of "iMonth d" "iDay d" "iYear d"] assms(1) y by (simp add: valid_date_def date_day_def)
  let ?r = "date_rest d"
  have range: "0 \<le> iMinute d" "iMinute d \<le> 59" "0 \<le> iSecond d" "iSecond d \<le> 59" "0 \<le> iMicroSecond d" "iMicroSecond d \<le> 999999"
    using assms(1) by (simp_all add: valid_date_def)
  have rest: "?r = iHour d * 3600000000 + iMinute d * 60000000 + iSecond d * 1000000 + iMicroSecond d"
    by (simp only: date_rest_def)
  have h1: "?r div 3600000000 = iHour d"
    by (rule div_mod_eq(1) [where r = "iMinute d * 60000000 + iSecond d * 1000000 + iMicroSecond d"]; use range rest in linarith)
  have h2: "?r mod 3600000000 = iMinute d * 60000000 + iSecond d * 1000000 + iMicroSecond d"
    by (rule div_mod_eq(2) [where q = "iHour d"]; use range rest in linarith)
  have h3: "(iMinute d * 60000000 + iSecond d * 1000000 + iMicroSecond d) div 60000000 = iMinute d"
    by (rule div_mod_eq(1) [where r = "iSecond d * 1000000 + iMicroSecond d"]; use range in linarith)
  have "?r mod 3600000000 mod 60000000 = iSecond d * 1000000 + iMicroSecond d"
    unfolding h2 by (rule div_mod_eq(2) [where q = "iMinute d"]; use range in linarith)
  then have h4: "?r mod 60000000 = iSecond d * 1000000 + iMicroSecond d" by (simp add: mod_mod_cancel)
  have h5: "(iSecond d * 1000000 + iMicroSecond d) div 1000000 = iSecond d"
    by (rule div_mod_eq(1) [where r = "iMicroSecond d"]; use range in linarith)
  have "?r mod 60000000 mod 1000000 = iMicroSecond d"
    unfolding h4 by (rule div_mod_eq(2) [where q = "iSecond d"]; use range in linarith)
  then have h6: "?r mod 1000000 = iMicroSecond d" by (simp add: mod_mod_cancel)
  have im: "int (nat (iMonth d)) = iMonth d" using assms(1) by (simp add: valid_date_def)
  have dd: "date_day d - year_start y - cmTab ! nat (leap y) ! nat (iMonth d) = iDay d" by (simp add: date_day_def y)
  have "date_of y (date_day d) ?r = \<lparr>iYear = iYear d, iMonth = iMonth d, iDay = iDay d, iHour = iHour d,
      iMinute = iMinute d, iSecond = iSecond d, iMicroSecond = iMicroSecond d\<rparr>"
    by (simp only: date_of_def Let_def m h1 h2 h3 h4 h5 h6 im dd) (simp only: y)
  then show ?thesis by simp
qed

lemma setters:
  "0 \<le> x \<Longrightarrow> x < 24 \<Longrightarrow> snd (SetHour x d) = d\<lparr>iHour := x\<rparr>"
  "0 \<le> x \<Longrightarrow> x < 60 \<Longrightarrow> snd (SetMinute x d) = d\<lparr>iMinute := x\<rparr>"
  "0 \<le> x \<Longrightarrow> x < 60 \<Longrightarrow> snd (SetSecond x d) = d\<lparr>iSecond := x\<rparr>"
  "0 \<le> x \<Longrightarrow> x < 1000000 \<Longrightarrow> snd (SetMicroSecond x d) = d\<lparr>iMicroSecond := x\<rparr>"
  by (simp_all add: SetHour_def SetMinute_def SetSecond_def SetMicroSecond_def)

text \<open>\<open>DateTime\<close> is the date of its day and rest.\<close>

lemma DateTime_eq:
  assumes "is_TInt64 t"
  obtains y where "in_year (t div KDaysToMicroSeconds) y"
    "DateTime t = date_of y (t div KDaysToMicroSeconds) (t mod KDaysToMicroSeconds)"
proof -
  let ?D = "t div KDaysToMicroSeconds" and ?r = "t mod KDaysToMicroSeconds"
  obtain y e where ye: "year_and_days t ?D = (y, e)" by fastforce
  have sgn: "t < 0 \<longleftrightarrow> ?D < 0" by (simp add: units pos_imp_zdiv_neg_iff)
  note yd = year_and_days_spec [OF ye sgn]
  have r: "0 \<le> ?r" "?r < KDaysToMicroSeconds" by (simp_all add: units)
  have d: "0 \<le> e" "e < 365 + leap y" using yd year_start_step [of y] by (simp_all add: in_year_def)
  note m = month_search_spec [OF d] and p = rest_parts [of ?r] and b = rest_bounds [OF r]
  have "28 \<le> month_days y 0" by (rule month_days_range) simp_all
  then have y0: "snd (SetYear y blank_date) = blank_date\<lparr>iYear := y\<rparr>"
    by (simp add: SetYear_def blank_date_def Time_DaysInMonth_def)
  have "28 \<le> month_days y (int (month_search (cmTab ! nat (leap y)) 11 e))"
    using m(1) by (intro month_days_range) simp_all
  then have m0: "snd (SetMonth (int (month_search (cmTab ! nat (leap y)) 11 e)) (blank_date\<lparr>iYear := y\<rparr>)) =
      blank_date\<lparr>iYear := y, iMonth := int (month_search (cmTab ! nat (leap y)) 11 e)\<rparr>"
    using m(1) by (simp add: SetMonth_def blank_date_def Time_DaysInMonth_def)
  have "DateTime t = date_of y ?D ?r"
    using m(2,3)
    by (simp only: DateTime_def Let_def day_and_rest_eq [OF assms] ye prod.case hour_of_rest [OF r(1)] b(3) y0 m0
        setters(1) [OF b(1,2)] setters(2) [OF p(2,3)] setters(3) [OF p(4,5)] setters(4) [OF p(6,7)]
        KMinutesToMicroSeconds_def KSecondsToMicroSeconds_def p(8,9) SetDay_def)
      (simp add: Time_DaysInMonth_def date_of_def blank_date_def Let_def yd(2) [symmetric])
  then show ?thesis using that yd(1) by blast
qed

end
