(* ===== verification/Calendar_Props.thy ===== *)
theory Calendar_Props
  imports Calendar_Conv
begin

text \<open>
  The properties of dates and times: the conversions are inverse to each other over the whole range
  of 64-bit times, the leap-year count, the setters, intervals, the arithmetic of months, and the
  day of the week.
\<close>

section \<open>Lemmas\<close>

lemma DateTime_valid:
  assumes "is_TInt64 t"
  shows "valid_date (DateTime t)" "date_time (DateTime t) = t"
proof -
  obtain y where y: "in_year (t div KDaysToMicroSeconds) y"
    "DateTime t = date_of y (t div KDaysToMicroSeconds) (t mod KDaysToMicroSeconds)"
    using assms by (rule DateTime_eq)
  have r: "0 \<le> t mod KDaysToMicroSeconds" "t mod KDaysToMicroSeconds < KDaysToMicroSeconds" by (simp_all add: units)
  note v = date_of_valid [OF y(1) r]
  show "valid_date (DateTime t)" using v(1) y(2) by simp
  show "date_time (DateTime t) = t" by (simp add: date_time_def y(2) v(2,3))
qed

lemma date_day_range:
  assumes "valid_date d" "is_TInt64 (date_time d)"
  shows "-106751992 \<le> date_day d" "date_day d \<le> 106751991"
  using day_bounds [OF assms(2)] date_time_parts(1) [OF assms(1)] by simp_all

lemma Convert_eq:
  assumes "valid_date d" "is_TInt64 (date_time d)"
  shows "Convert d = date_time d"
proof -
  have days: "365 * iYear d + LeapYearsUpTo (iYear d) + cmTab ! nat (leap (iYear d)) ! nat (iMonth d) + iDay d = date_day d"
    by (simp add: date_day_def year_start_def)
  have i: "is_TInt (date_day d)" "is_TInt (date_day d * 3)"
    using date_day_range [OF assms] by (simp_all add: is_TInt_def)
  let ?sum = "iMicroSecond d + iSecond d * 1000000 + iMinute d * 60000000"
  have range: "0 \<le> iMinute d" "iMinute d \<le> 59" "0 \<le> iSecond d" "iSecond d \<le> 59" "0 \<le> iMicroSecond d" "iMicroSecond d \<le> 999999"
    using assms(1) by (simp_all add: valid_date_def)
  then have s: "to_TUint ?sum = ?sum" by (intro to_TUint_id) linarith+
  have p: "push_bit 3 x = x * 8" for x :: int by (simp add: push_bit_eq_mult)
  have e: "(date_day d * 3 * 8 + iHour d) * 3600000000 + ?sum = date_time d"
    by (simp add: date_time_def date_rest_def units algebra_simps)
  show ?thesis
    unfolding Convert_def Let_def units days to_TInt_id [OF i(1)] to_TInt_id [OF i(2)] s p e
    by (rule to_TInt64_id) (rule assms)
qed

lemma DateTime_date_time:
  assumes "valid_date d" "is_TInt64 (date_time d)"
  shows "DateTime (date_time d) = d"
proof -
  obtain y where y: "in_year (date_day d) y" "DateTime (date_time d) = date_of y (date_day d) (date_rest d)"
    using DateTime_eq [OF assms(2)] unfolding date_time_parts [OF assms(1)] by blast
  then show ?thesis using date_of_unique [OF assms(1) y(1)] by simp
qed

section \<open>Properties\<close>

text \<open>
  C38. Every 64-bit time has a valid date, and converting the date back gives the time.
\<close>

theorem time_to_date_and_back:
  assumes "is_TInt64 t"
  shows "valid_date (DateTime t) \<and> Convert (DateTime t) = t"
  using DateTime_valid [OF assms] Convert_eq [of "DateTime t"] assms by simp

theorem time_to_date_and_back_witness:
  "valid_date (DateTime MinTTime) \<and> Convert (DateTime MinTTime) = MinTTime \<and> Convert (DateTime MaxTTime) = MaxTTime"
  using time_to_date_and_back [of MinTTime] time_to_date_and_back [of MaxTTime]
  by (simp add: is_TInt64_def MinTTime_def MaxTTime_def)

text \<open>
  Every valid date whose time fits in 64 bits is the date of its time: no two dates share a
  time, and year, month, day and time of day come back as they were given.
\<close>

theorem date_to_time_and_back:
  assumes "valid_date d" "is_TInt64 (date_time d)"
  shows "DateTime (Convert d) = d"
  using Convert_eq [OF assms] DateTime_date_time [OF assms] by simp

definition ex_date :: TDateTime where
  "ex_date = \<lparr>iYear = 2008, iMonth = 1, iDay = 28, iHour = 23, iMinute = 59, iSecond = 59, iMicroSecond = 999999\<rparr>"

lemma ex_date_facts: "valid_date ex_date" "is_TInt64 (date_time ex_date)" "leap 2008 = 1"
proof -
  show "leap 2008 = 1" by (simp add: leap_def IsLeapYear_def)
  then show "valid_date ex_date" by (simp add: valid_date_def ex_date_def month_days_def mTab_def)
  show "is_TInt64 (date_time ex_date)"
    by (simp add: is_TInt64_def date_time_def date_day_def date_rest_def year_start_def ex_date_def units cmTab_def
        \<open>leap 2008 = 1\<close> LeapYearsUpTo_def)
qed

theorem date_to_time_and_back_witness: "DateTime (Convert ex_date) = ex_date"
  by (rule date_to_time_and_back [OF ex_date_facts(1,2)])

text \<open>
  C39. \<open>LeapYearsUpTo\<close> counts the leap years from year 0 up to but not including the given
  year, and for years before 0 minus the leap years from it up to year 0. The documentation says
  that the given year is included: it is not.
\<close>

theorem LeapYearsUpTo_counts:
  "LeapYearsUpTo y = int (card {x. 0 \<le> x \<and> x < y \<and> IsLeapYear x}) - int (card {x. y \<le> x \<and> x < 0 \<and> IsLeapYear x}) \<and>
   (IsLeapYear y \<and> 0 \<le> y \<longrightarrow> LeapYearsUpTo y \<noteq> int (card {x. 0 \<le> x \<and> x \<le> y \<and> IsLeapYear x}))"
proof -
  have up: "LeapYearsUpTo (int n) = int (card {x. 0 \<le> x \<and> x < int n \<and> IsLeapYear x})" for n
  proof (induction n)
    case 0
    have "{x :: int. 0 \<le> x \<and> x < int 0 \<and> IsLeapYear x} = {}" by auto
    then show ?case by (simp only: card.empty) (simp add: LeapYearsUpTo_def)
  next
    case (Suc n)
    have lt: "x < int (Suc n) \<longleftrightarrow> x < int n \<or> x = int n" for x by linarith
    have "{x. 0 \<le> x \<and> x < int (Suc n) \<and> IsLeapYear x} =
        {x. 0 \<le> x \<and> x < int n \<and> IsLeapYear x} \<union> (if IsLeapYear (int n) then {int n} else {})"
      unfolding lt by auto
    moreover have "finite {x. 0 \<le> x \<and> x < int n \<and> IsLeapYear x}"
      by (rule finite_subset [of _ "{0..<int n}"]) auto
    ultimately show ?case using Suc LeapYears_step [of "int n"] by (simp add: leap_def add.commute)
  qed
  have down: "LeapYearsUpTo (- int n) = - int (card {x. - int n \<le> x \<and> x < 0 \<and> IsLeapYear x})" for n
  proof (induction n)
    case 0
    have "{x :: int. - int 0 \<le> x \<and> x < 0 \<and> IsLeapYear x} = {}" by auto
    then show ?case by (simp only: card.empty) (simp add: LeapYearsUpTo_def)
  next
    case (Suc n)
    have "{x. - int (Suc n) \<le> x \<and> x < 0 \<and> IsLeapYear x} =
        {x. - int n \<le> x \<and> x < 0 \<and> IsLeapYear x} \<union> (if IsLeapYear (- int (Suc n)) then {- int (Suc n)} else {})"
      by (auto simp: order_le_less)
    moreover have "finite {x. - int n \<le> x \<and> x < 0 \<and> IsLeapYear x}"
      by (rule finite_subset [of _ "{- int n..<0}"]) auto
    ultimately show ?case using Suc LeapYears_step [of "- int (Suc n)"] by (simp add: leap_def)
  qed
  have "LeapYearsUpTo y = int (card {x. 0 \<le> x \<and> x < y \<and> IsLeapYear x}) - int (card {x. y \<le> x \<and> x < 0 \<and> IsLeapYear x})"
  proof (cases "0 \<le> y")
    case True
    then have e: "{x. y \<le> x \<and> x < 0 \<and> IsLeapYear x} = {}" by auto
    show ?thesis unfolding e using up [of "nat y"] True by simp
  next
    case False
    then have e: "{x. 0 \<le> x \<and> x < y \<and> IsLeapYear x} = {}" by auto
    show ?thesis unfolding e using down [of "nat (- y)"] False by simp
  qed
  moreover have "LeapYearsUpTo y \<noteq> int (card {x. 0 \<le> x \<and> x \<le> y \<and> IsLeapYear x})" if "IsLeapYear y" "0 \<le> y"
  proof -
    have "{x. 0 \<le> x \<and> x \<le> y \<and> IsLeapYear x} = {x. 0 \<le> x \<and> x < int (Suc (nat y)) \<and> IsLeapYear x}" using that(2) by auto
    then show ?thesis using up [of "Suc (nat y)"] LeapYears_step [of y] that by (simp add: leap_def add.commute)
  qed
  ultimately show ?thesis by blast
qed

theorem LeapYearsUpTo_counts_witness:
  "LeapYearsUpTo 2000 = 497 \<and> LeapYearsUpTo 2000 \<noteq> int (card {x. 0 \<le> x \<and> x \<le> 2000 \<and> IsLeapYear x})"
proof
  show "LeapYearsUpTo 2000 = 497" by (simp add: LeapYearsUpTo_def)
  have "IsLeapYear 2000" by (simp add: IsLeapYear_def)
  then show "LeapYearsUpTo 2000 \<noteq> int (card {x. 0 \<le> x \<and> x \<le> 2000 \<and> IsLeapYear x})"
    using LeapYearsUpTo_counts [of 2000] by simp
qed

text \<open>
  Which fields of a date are in range, from the month on, and the dates that \<open>Set\<close> stores one
  after another.
\<close>

definition in_range :: "TDateTime \<Rightarrow> bool list" where
  "in_range e = [0 \<le> iMonth e \<and> iMonth e \<le> 11, 0 \<le> iDay e \<and> iDay e < month_days (iYear e) (iMonth e), 0 \<le> iHour e \<and> iHour e < 24,
     0 \<le> iMinute e \<and> iMinute e < 60, 0 \<le> iSecond e \<and> iSecond e < 60, 0 \<le> iMicroSecond e \<and> iMicroSecond e < 1000000]"

definition stages :: "TDateTime \<Rightarrow> TDateTime \<Rightarrow> TDateTime list" where
  "stages d e =
     (let d1 = d\<lparr>iYear := iYear e\<rparr>; d2 = d1\<lparr>iMonth := iMonth e\<rparr>; d3 = d2\<lparr>iDay := iDay e\<rparr>; d4 = d3\<lparr>iHour := iHour e\<rparr>;
          d5 = d4\<lparr>iMinute := iMinute e\<rparr>; d6 = d5\<lparr>iSecond := iSecond e\<rparr>
      in [d1, d2, d3, d4, d5, d6, e])"

lemma valid_in_range: "valid_date e \<longleftrightarrow> list_all id (in_range e)"
  by (auto simp: valid_date_def in_range_def)

lemma Set_result:
  "Set (iYear e) (iMonth e) (iDay e) (iHour e) (iMinute e) (iSecond e) (iMicroSecond e) d =
    (if valid_date e then KErrNone else KErrGeneral, stages d e ! length (takeWhile id (in_range e)))"
  by (cases d; cases e)
    (simp add: valid_date_def in_range_def stages_def Set_def Time_DaysInMonth_def Let_def not_le not_less linorder_not_less)

lemma valid_stage: "valid_date e \<Longrightarrow> stages d e ! length (takeWhile id (in_range e)) = e"
  by (simp add: valid_in_range in_range_def stages_def Let_def)

lemma valid_field:
  assumes "valid_date d"
  shows "valid_date (d\<lparr>iYear := x\<rparr>) \<longleftrightarrow> iDay d < month_days x (iMonth d)"
    "valid_date (d\<lparr>iMonth := x\<rparr>) \<longleftrightarrow> 0 \<le> x \<and> x \<le> 11 \<and> iDay d < month_days (iYear d) x"
    "valid_date (d\<lparr>iDay := x\<rparr>) \<longleftrightarrow> 0 \<le> x \<and> x < month_days (iYear d) (iMonth d)"
    "valid_date (d\<lparr>iHour := x\<rparr>) \<longleftrightarrow> 0 \<le> x \<and> x < 24"
    "valid_date (d\<lparr>iMinute := x\<rparr>) \<longleftrightarrow> 0 \<le> x \<and> x < 60"
    "valid_date (d\<lparr>iSecond := x\<rparr>) \<longleftrightarrow> 0 \<le> x \<and> x < 60"
    "valid_date (d\<lparr>iMicroSecond := x\<rparr>) \<longleftrightarrow> 0 \<le> x \<and> x < 1000000"
  using assms by (auto simp: valid_date_def)

text \<open>A date whose \<open>Set\<close> to 31 February is refused after the month has been written.\<close>

definition january_31 :: TDateTime where
  "january_31 = \<lparr>iYear = 2006, iMonth = 0, iDay = 30, iHour = 0, iMinute = 0, iSecond = 0, iMicroSecond = 0\<rparr>"

lemma Set_invalid: "valid_date january_31" "fst (Set 2006 1 30 0 0 0 0 january_31) = KErrGeneral" "\<not> valid_date (snd (Set 2006 1 30 0 0 0 0 january_31))"
  by (simp_all add: january_31_def valid_date_def Set_def Time_DaysInMonth_def month_days_def mTab_def leap_def IsLeapYear_def Let_def)

text \<open>
  C40. Each setter of one field stores exactly the values that keep a valid date valid, in its own field,
  with \<open>KErrNone\<close>, and refuses all others with \<open>KErrGeneral\<close> and no change. \<open>SetYearLeapCheck\<close> always
  stores the year, and puts the day to the 28th where the date would not be valid. \<open>Set\<close> succeeds exactly
  when the whole date is valid and then stores it; otherwise it has stored exactly the fields before the
  first one that is out of range, and that can leave a valid date invalid.
\<close>

theorem setters_keep_date_valid:
  assumes "valid_date d"
  shows "SetYear x d = (if valid_date (d\<lparr>iYear := x\<rparr>) then (KErrNone, d\<lparr>iYear := x\<rparr>) else (KErrGeneral, d)) \<and>
    SetMonth x d = (if valid_date (d\<lparr>iMonth := x\<rparr>) then (KErrNone, d\<lparr>iMonth := x\<rparr>) else (KErrGeneral, d)) \<and>
    SetDay x d = (if valid_date (d\<lparr>iDay := x\<rparr>) then (KErrNone, d\<lparr>iDay := x\<rparr>) else (KErrGeneral, d)) \<and>
    SetHour x d = (if valid_date (d\<lparr>iHour := x\<rparr>) then (KErrNone, d\<lparr>iHour := x\<rparr>) else (KErrGeneral, d)) \<and>
    SetMinute x d = (if valid_date (d\<lparr>iMinute := x\<rparr>) then (KErrNone, d\<lparr>iMinute := x\<rparr>) else (KErrGeneral, d)) \<and>
    SetSecond x d = (if valid_date (d\<lparr>iSecond := x\<rparr>) then (KErrNone, d\<lparr>iSecond := x\<rparr>) else (KErrGeneral, d)) \<and>
    SetMicroSecond x d = (if valid_date (d\<lparr>iMicroSecond := x\<rparr>) then (KErrNone, d\<lparr>iMicroSecond := x\<rparr>) else (KErrGeneral, d)) \<and>
    SetYearLeapCheck x d = (KErrNone, if valid_date (d\<lparr>iYear := x\<rparr>) then d\<lparr>iYear := x\<rparr> else d\<lparr>iYear := x, iDay := 27\<rparr>) \<and>
    valid_date (snd (SetYearLeapCheck x d)) \<and>
    Set (iYear e) (iMonth e) (iDay e) (iHour e) (iMinute e) (iSecond e) (iMicroSecond e) d =
      (if valid_date e then KErrNone else KErrGeneral, stages d e ! length (takeWhile id (in_range e))) \<and>
    (valid_date e \<longrightarrow> stages d e ! length (takeWhile id (in_range e)) = e) \<and>
    (\<exists>d0. valid_date d0 \<and> fst (Set 2006 1 30 0 0 0 0 d0) = KErrGeneral \<and> \<not> valid_date (snd (Set 2006 1 30 0 0 0 0 d0)))"
proof -
  note f = valid_field [OF assms, of x]
  have "28 \<le> month_days x (iMonth d)" using assms by (intro month_days_range) (simp_all add: valid_date_def)
  then have leap: "SetYearLeapCheck x d = (KErrNone, if valid_date (d\<lparr>iYear := x\<rparr>) then d\<lparr>iYear := x\<rparr> else d\<lparr>iYear := x, iDay := 27\<rparr>)"
    "valid_date (snd (SetYearLeapCheck x d))"
    using assms by (auto simp: f SetYearLeapCheck_def Time_DaysInMonth_def Let_def not_le valid_date_def)
  have one: "SetYear x d = (if valid_date (d\<lparr>iYear := x\<rparr>) then (KErrNone, d\<lparr>iYear := x\<rparr>) else (KErrGeneral, d))"
    "SetMonth x d = (if valid_date (d\<lparr>iMonth := x\<rparr>) then (KErrNone, d\<lparr>iMonth := x\<rparr>) else (KErrGeneral, d))"
    "SetDay x d = (if valid_date (d\<lparr>iDay := x\<rparr>) then (KErrNone, d\<lparr>iDay := x\<rparr>) else (KErrGeneral, d))"
    "SetHour x d = (if valid_date (d\<lparr>iHour := x\<rparr>) then (KErrNone, d\<lparr>iHour := x\<rparr>) else (KErrGeneral, d))"
    "SetMinute x d = (if valid_date (d\<lparr>iMinute := x\<rparr>) then (KErrNone, d\<lparr>iMinute := x\<rparr>) else (KErrGeneral, d))"
    "SetSecond x d = (if valid_date (d\<lparr>iSecond := x\<rparr>) then (KErrNone, d\<lparr>iSecond := x\<rparr>) else (KErrGeneral, d))"
    "SetMicroSecond x d = (if valid_date (d\<lparr>iMicroSecond := x\<rparr>) then (KErrNone, d\<lparr>iMicroSecond := x\<rparr>) else (KErrGeneral, d))"
    by (simp_all add: f SetYear_def SetMonth_def SetDay_def SetHour_def SetMinute_def SetSecond_def SetMicroSecond_def Time_DaysInMonth_def not_le)
  show ?thesis using one leap Set_result [of e d] valid_stage [of e d] Set_invalid by blast
qed

theorem setters_keep_date_valid_witness:
  "SetYearLeapCheck 2009 ex_date = (KErrNone, ex_date\<lparr>iYear := 2009, iDay := 27\<rparr>) \<and> SetYear 2009 ex_date = (KErrGeneral, ex_date) \<and>
   SetHour 7 ex_date = (KErrNone, ex_date\<lparr>iHour := 7\<rparr>)"
proof -
  have "\<not> valid_date (ex_date\<lparr>iYear := 2009\<rparr>)" "valid_date (ex_date\<lparr>iHour := 7\<rparr>)"
    by (simp_all add: valid_field [OF ex_date_facts(1)]) (simp_all add: ex_date_def month_days_def mTab_def leap_def IsLeapYear_def)
  then show ?thesis using setters_keep_date_valid [OF ex_date_facts(1), of 2009] setters_keep_date_valid [OF ex_date_facts(1), of 7] by simp
qed

text \<open>
  The intervals between two times are the exact differences in whole units towards zero, even
  where the difference of the two 64-bit counts overflows; when the result does not fit in 32 bits
  \<open>SecondsFrom\<close>, \<open>MinutesFrom\<close> and \<open>HoursFrom\<close> return
  \<open>KErrOverflow\<close>, and the number of days always fits.
\<close>

theorem intervals_exact:
  assumes "is_TInt64 t" "is_TInt64 a"
  shows "SecondsFrom t a = (if is_TInt ((t - a) sdiv 1000000) then (KErrNone, Some ((t - a) sdiv 1000000)) else (KErrOverflow, None)) \<and>
    MinutesFrom t a = (if is_TInt ((t - a) sdiv 60000000) then (KErrNone, Some ((t - a) sdiv 60000000)) else (KErrOverflow, None)) \<and>
    HoursFrom t a = (if is_TInt ((t - a) sdiv 3600000000) then (KErrNone, Some ((t - a) sdiv 3600000000)) else (KErrOverflow, None)) \<and>
    DaysFrom t a = (t - a) sdiv 86400000000"
proof -
  have r: "- (2 ^ 64) < t - a" "t - a < 2 ^ 64" using assms by (simp_all add: is_TInt64_def)
  have q: "0 \<le> x div u" "x div u * 1000000 \<le> x" if "0 \<le> x" "1000000 \<le> u" for x u :: int
  proof -
    show nn: "0 \<le> x div u" using that by (simp add: pos_imp_zdiv_nonneg_iff)
    have "x div u * 1000000 \<le> x div u * u" using nn that(2) by (intro mult_left_mono) simp_all
    also have "\<dots> \<le> x" using that(2) minus_div_mult_eq_mod [of x u] pos_mod_sign [of u x] by linarith
    finally show "x div u * 1000000 \<le> x" .
  qed
  have u: "units_from u t a = (t - a) sdiv u" if u: "1000000 \<le> u" for u
  proof (cases "t > a")
    case True
    have "is_TInt64 ((t - a) div u)" using q [of "t - a" u] True u r by (simp add: is_TInt64_def)
    moreover have "to_TUint64 (t - a) = t - a" using True r by (simp add: to_TUint64_def)
    ultimately show ?thesis using True u by (simp add: units_from_def sdiv_nonneg)
  next
    case False
    have "is_TInt64 ((a - t) div u)" using q [of "a - t" u] False u r by (simp add: is_TInt64_def)
    moreover have "to_TUint64 (a - t) = a - t" using False r by (simp add: to_TUint64_def)
    ultimately show ?thesis using False u by (simp add: units_from_def sdiv_neg)
  qed
  have days: "is_TInt (x div 86400000000)" if "0 \<le> x" "x < 2 ^ 64" for x :: int
  proof -
    have "0 \<le> x div 86400000000" "x div 86400000000 < 0x80000000"
      using that by (auto intro: div_range(1) [of x 86400000000 "0x80000000"] div_range(2))
    then show ?thesis by (simp add: is_TInt_def)
  qed
  have "DaysFrom t a = (t - a) sdiv 86400000000"
  proof (cases "t > a")
    case True
    then show ?thesis using days [of "t - a"] r by (simp add: DaysFrom_def units to_TUint64_def sdiv_nonneg)
  next
    case False
    then show ?thesis using days [of "a - t"] r by (simp add: DaysFrom_def units to_TUint64_def sdiv_neg)
  qed
  moreover have "x > KMaxTInt \<or> x < KMinTInt \<longleftrightarrow> \<not> is_TInt x" for x by (auto simp: is_TInt_def)
  ultimately show ?thesis
    using u [of 1000000] u [of 60000000] u [of 3600000000]
    by (simp add: SecondsFrom_def MinutesFrom_def HoursFrom_def Let_def units)
qed

theorem intervals_exact_witness:
  "DaysFrom MaxTTime MinTTime = 213503982 \<and> SecondsFrom MaxTTime MinTTime = (KErrOverflow, None)"
  using intervals_exact [of MaxTTime MinTTime]
  by (simp add: is_TInt64_def MinTTime_def MaxTTime_def is_TInt_def)

text \<open>
  The day of the week advances with the days since Monday, 1st January of year 0, also before
  it and at any time of the day.
\<close>

theorem DayNoInWeek_correct:
  assumes "is_TInt64 t"
  shows "DayNoInWeek t = (t div 86400000000) mod 7"
proof (cases "t < 0")
  case False
  have d: "is_TInt (t div 86400000000)" "0 \<le> t div 86400000000"
    using day_bounds [OF assms] False by (simp_all add: is_TInt_def units pos_imp_zdiv_nonneg_iff)
  then show ?thesis using False by (simp add: DayNoInWeek_def Let_def units sdiv_nonneg smod_nonneg)
next
  case True
  define D where "D = t div 86400000000"
  have q: "t sdiv 86400000000 = (if t mod 86400000000 = 0 then D else D + 1)"
    using True zdiv_zminus1_eq_if [of 86400000000 "- t"] zmod_zminus1_eq_if [of "- t" 86400000000]
    by (auto simp: sdiv_neg D_def)
  have exact: "t sdiv 86400000000 * 86400000000 = t \<longleftrightarrow> t mod 86400000000 = 0"
    using q minus_div_mult_eq_mod [of t 86400000000] by (auto simp: D_def)
  have D: "D < 0" "-106751992 \<le> D" using True day_bounds [OF assms] by (simp_all add: D_def units pos_imp_zdiv_neg_iff)
  have i: "is_TInt (t sdiv 86400000000)" using D q by (simp add: is_TInt_def)
  have s: "x smod 7 = - ((- x) mod 7)" if "x \<le> 0" for x :: int using that by (simp add: smod_neg)
  have m1: "- ((- (D + 1)) mod 7) + 6 = D mod 7" by presburger
  have m2: "(if - ((- D) mod 7) \<noteq> 0 then - ((- D) mod 7) + 7 else - ((- D) mod 7)) = D mod 7" by presburger
  show ?thesis
  proof (cases "t mod 86400000000 = 0")
    case True
    have e: "DayNoInWeek t = (if D smod 7 \<noteq> 0 then D smod 7 + 7 else D smod 7)"
      using True \<open>t < 0\<close> q exact i by (simp add: DayNoInWeek_def Let_def units)
    have "D smod 7 = - ((- D) mod 7)" using D(1) s by simp
    then show ?thesis unfolding e D_def [symmetric] using m2 by (simp only:)
  next
    case False
    then show ?thesis using \<open>t < 0\<close> q exact i D s [of "D + 1"] m1
      by (simp add: DayNoInWeek_def Let_def units flip: D_def)
  qed
qed

theorem DayNoInWeek_correct_witness: "DayNoInWeek (-1) = 6 \<and> DayNoInWeek 63380000000000000 = 6"
  using DayNoInWeek_correct [of "-1"] DayNoInWeek_correct [of 63380000000000000] by (simp add: is_TInt64_def)

lemma floor_12:
  "(if m smod 12 < 0 then (m sdiv 12 - 1, m smod 12 + 12) else (m sdiv 12, m smod 12)) = (m div 12, m mod (12 :: int))"
proof (cases "0 \<le> m")
  case True
  then show ?thesis by (simp add: sdiv_nonneg smod_nonneg)
next
  case False
  then have "m sdiv 12 = - ((- m) div 12)" "m smod 12 = - ((- m) mod 12)" by (simp_all add: sdiv_neg smod_neg)
  note s = this
  show ?thesis
  proof (cases "(- m) mod 12 = 0")
    case True
    then have "- ((- m) div 12) = m div 12" "m mod 12 = 0"
      using zdiv_zminus1_eq_if [of 12 "- m"] zmod_zminus1_eq_if [of "- m" 12] by simp_all
    then show ?thesis unfolding s using True by simp
  next
    case False
    then have "- ((- m) div 12) - 1 = m div 12" "- ((- m) mod 12) + 12 = m mod 12"
      using zdiv_zminus1_eq_if [of 12 "- m"] zmod_zminus1_eq_if [of "- m" 12] by simp_all
    moreover have "0 < (- m) mod 12" using False pos_mod_sign [of 12 "- m"] by linarith
    ultimately show ?thesis unfolding s by simp
  qed
qed

text \<open>
  Adding months, a positive or negative number, moves the date by that many months and keeps the
  day and the time of day, except that a day past the end of the new month becomes its last day;
  it never panics, and the result has the date described whenever that date fits in 64 bits.
\<close>

theorem plus_months_correct:
  fixes n :: int
  assumes "is_TInt64 t"
  defines "d \<equiv> DateTime t"
  defines "m \<equiv> to_TInt (iMonth d + iYear d * 12 + n)"
  defines "d' \<equiv> d\<lparr>iYear := m div 12, iMonth := m mod 12, iDay := min (iDay d) (month_days (m div 12) (m mod 12) - 1)\<rparr>"
  shows "valid_date d' \<and> (\<exists>r. plus_months t n = Inr r \<and> (is_TInt64 (date_time d') \<longrightarrow> r = date_time d' \<and> DateTime r = d'))"
proof -
  have v: "valid_date d" using DateTime_valid(1) [OF assms(1)] by (simp add: d_def)
  have m: "0 \<le> m mod 12" "m mod 12 \<le> 11" using pos_mod_bound [of 12 m] by simp_all
  note days = month_days_range [OF m, of "m div 12"]
  let ?day = "if iDay d \<ge> month_days (m div 12) (m mod 12) - 1 then month_days (m div 12) (m mod 12) - 1 else iDay d"
  have day: "?day = min (iDay d) (month_days (m div 12) (m mod 12) - 1)" by simp
  have v': "valid_date d'" using v m days by (simp add: valid_date_def d'_def min_def)
  have set: "Set (m div 12) (m mod 12) ?day (iHour d) (iMinute d) (iSecond d) (iMicroSecond d) d = (KErrNone, d')"
    using v m days by (auto simp: Set_def Let_def valid_date_def Time_DaysInMonth_def d'_def)
  have "plus_months t n = Inr (Convert d')"
    unfolding plus_months_def Let_def d_def [symmetric] m_def [symmetric] floor_12 prod.case
      month_days_def [symmetric] set by simp
  then show ?thesis using v' Convert_eq [OF v'] DateTime_date_time [OF v'] by simp
qed

theorem plus_months_correct_witness:
  "\<exists>r. plus_months (date_time ex_date) 12 = Inr r \<and> r = date_time (ex_date\<lparr>iYear := 2009, iDay := 27\<rparr>)"
proof -
  have l: "leap 2009 = 0" by (simp add: leap_def IsLeapYear_def)
  have m: "to_TInt (1 + 2008 * 12 + 12) = 24109" by (simp add: to_TInt_def)
  have e: "DateTime (date_time ex_date) = ex_date" by (rule DateTime_date_time [OF ex_date_facts(1,2)])
  have d': "ex_date\<lparr>iYear := 24109 div 12, iMonth := 24109 mod 12, iDay := min (iDay ex_date) (month_days (24109 div 12) (24109 mod 12) - 1)\<rparr> =
      ex_date\<lparr>iYear := 2009, iDay := 27\<rparr>"
    by (simp add: ex_date_def month_days_def mTab_def l)
  have "is_TInt64 (date_time (ex_date\<lparr>iYear := 2009, iDay := 27\<rparr>))"
    by (simp add: is_TInt64_def date_time_def date_day_def date_rest_def year_start_def ex_date_def units cmTab_def
        l LeapYearsUpTo_def)
  then show ?thesis
    using plus_months_correct [OF ex_date_facts(2), of 12] m e d' by (simp add: ex_date_def)
qed

end
