(* ===== verification/Spec2Isabelle.thy ===== *)
theory Spec2Isabelle
  imports Bma_Props Arr_Props Msgq_Props Htab_Props Objix_Props Regn_Sort Calendar_Props
begin

text \<open>
  Verification of components of the EKA2 kernel and of its user library (the repository's
  \<^verbatim>\<open>src/kernel/eka\<close>; the paths below are relative to it). The components are the ones other
  parts of the system build on: an allocator of numbers, containers, the queue that carries messages
  between threads, the table of handles of a process, and the calendar.

  \<^bold>\<open>Conventions.\<close> Machine integers are words where the code uses their bits or lets them wrap, and
  integers with the wrap-around written out elsewhere. A panic or a fault of the program, and an access
  outside the memory a structure owns, are values (type \<open>fault\<close>: \<open>Panic\<close> with its
  name, \<open>BadMemory\<close>), so that a theorem that gives a value also says that neither happens. Error
  codes are the program's. Memory allocation is a parameter: an argument says which requests
  succeed, and properties hold for every one. A loop with no bound of its own is a
  \<open>partial_function (option)\<close>, where \<open>None\<close> is not returning, or a function whose
  termination is proved; a property that a call returns is stated as such.

  \<^bold>\<open>Theories, in the order of the development.\<close>

  \<^item> \<open>Prelude\<close>, \<open>Pool\<close>: types, error codes, faults, words as bit masks, integer
  wrap-around; the interface \<open>position_pool\<close> of a set of numbered places that are taken and given back.

  \<^item> \<open>Bma\<close> \<dots> \<open>Bma_Props\<close>: the bitmap allocator \<^verbatim>\<open>klib/bma.cpp\<close>. The state is the record
  of \<^verbatim>\<open>include/kernel/kbma.h\<close>; \<open>Bma_Spec\<close> states the representation invariant and the
  set of free positions, \<open>Bma_Single\<close> the operations on one position, \<open>Bma_Range\<close> those
  on ranges, \<open>Bma_Runs\<close> and \<open>Bma_Fit\<close> the searches for runs (the fuel of the
  searches is proved to suffice), \<open>Bma_Copy\<close> copying between allocators,
  \<open>Bma_Pool\<close> the interpretation of \<open>position_pool\<close>.

  \<^item> \<open>Arr\<close> \<dots> \<open>Arr_Props\<close>: the growable arrays \<open>RPointerArrayBase\<close> and
  \<open>RArrayBase\<close> of \<^verbatim>\<open>common/array.cpp\<close>: their memory (\<open>Arr_Store\<close>), growth and
  compression, the operations as those of a list (\<open>Arr_Ops\<close>, with the interface of a list
  store), binary search (\<open>Arr_Search\<close>), heap sort (\<open>Arr_Sort\<close>), both classes over
  histories (\<open>Arr_Class\<close>).

  \<^item> \<open>ClientReq\<close>: \<open>TClientRequest\<close> of \<^verbatim>\<open>kernel/sutils.cpp\<close>, the request that a
  driver or server completes once: its word of state bits, its life cycle as an abstract automaton
  and the refinement to it.

  \<^item> \<open>Msgq\<close> \<dots> \<open>Msgq_Props\<close>: \<open>DMsgQueue\<close> of \<^verbatim>\<open>kernel/smqueue.cpp\<close>: creation, sending,
  receiving, the data and space notifications and their cancelling, destruction, over a heap of
  requests. \<open>Msgq_Spec\<close> gives the invariant of the circular buffer and its list,
  \<open>Msgq_Ops\<close> the interface of a bounded queue, \<open>Msgq_Reach\<close> the events of clients as a
  step relation and the invariant of the reachable states with the references the queue holds.

  \<^item> \<open>Htab\<close> \<dots> \<open>Htab_Props\<close>: \<open>RHashTableBase\<close> of \<^verbatim>\<open>euser/us_htab.cpp\<close>: open addressing
  with a second hash, deleted markers, the rehash in place. \<open>Htab_Probe\<close> shows that a probe
  sequence visits every slot, \<open>Htab_Reform\<close> that the rehash ends, loses nothing and leaves
  every entry where its sequence finds it, \<open>Htab_Spec\<close> gives the invariant and the searches,
  \<open>Htab_Ops\<close> and \<open>Htab_Insert\<close> the operations; the interface is \<open>hash_map\<close>. The
  bound on what a table holds (2 to the 28 bytes of entries) is what keeps its next size within the
  largest heap cell. Each insertion of a history has a heap of its own, so that a request that failed once can
  succeed later.

  \<^item> \<open>Dlring\<close>, \<open>Objix\<close> \<dots> \<open>Objix_Props\<close>: the kernel's object index \<open>RObjectIx\<close> of
  \<^verbatim>\<open>kernel/objectix.cpp\<close> (\<^verbatim>\<open>include/kernel/kern_priv.h\<close>): handles, slots and the six queues of
  free slots, linked by 16-bit indexes. \<open>Objix\<close> has the data, the look-ups and the queues,
  \<open>Objix_Run\<close> adding, removing, growing and reserving, \<open>Objix_Tidy\<close> tidying, compacting and the searches.
  Other threads add and remove handles whenever the code gives up its write lock: what they do is an
  argument of every operation that does so, a list of their actions for each time, and for the copy of the
  table also when each slot is read. \<open>Dlring\<close> and \<open>Objix_Queue\<close>, \<open>Objix_Rings\<close> show that the links are
  rings and what each queue operation does to them. \<open>Objix_Spec\<close>, \<open>Objix_Step\<close> and \<open>Objix_Hist\<close> give the
  invariant of the table and its abstraction (a map from handles to objects and the number of free reserved
  slots) and the refinement of single actions; the interface \<open>guarded\<close> of \<open>Objix_Scan\<close>, an invariant that
  all actions of others keep, carries it through loops. \<open>Objix_Scan\<close> has the exactness of the searches,
  \<open>Objix_Sweep\<close>, \<open>Objix_Loop\<close>, \<open>Objix_Compact\<close>, \<open>Objix_End\<close> the scan that tidies and the end of
  it, \<open>Objix_Reserve\<close> reserved slots, \<open>Objix_Track\<close> the record of modified slots, \<open>Objix_Copy\<close> and
  \<open>Objix_Grow\<close> the copy to a larger table, \<open>Objix_Ops\<close> and \<open>Objix_Reach\<close> whole operations and the
  reachable indexes: those left by operations that return, with anything asked for and anything done by
  other threads. \<open>Reserve\<close> alone may not return: when a size wraps round at 32 bits, or when it has to give
  back more reserved slots than other threads leave.

  \<^item> \<open>Regn\<close> \<dots> \<open>Regn_Sort\<close>: regions, areas of the plane kept as lists of rectangles, of
  \<^verbatim>\<open>euser/us_regn.cpp\<close> with the operations on rectangles of \<^verbatim>\<open>euser/us_graph.cpp\<close>.
  \<open>Regn_Spec\<close> gives the points of a region and its invariant, \<open>Regn_Ops\<close> and
  \<open>Regn_Area\<close> what each operation does to them and the memory it may need,
  \<open>Regn_Tidy\<close> the merging of rectangles along their edges (the interface is \<open>edge_join\<close>, for rows
  and for columns), \<open>Regn_Props\<close> histories (the interface is \<open>lossy_refinement\<close>: a value that can be lost,
  visibly, on any step). A request for 2 to the 26 rectangles or more is refused in the model; the heap
  panics on it.

  \<^item> \<open>Qsort\<close>: \<open>User::QuickSort\<close> of \<^verbatim>\<open>euser/us_func.cpp\<close> over an abstract key, with its
  table of partitions and the read below it that ends every sort, for up to 2 to the 30 records, above
  which the middle of a partition can overflow; \<open>Regn_Sort\<close> uses it for the order of the rectangles of a region.

  \<^item> \<open>Calendar\<close> \<dots> \<open>Calendar_Props\<close>: dates and times of \<^verbatim>\<open>euser/us_time.cpp\<close>:
  \<open>TDateTime\<close>, the conversions between 64-bit times and dates, leap years, intervals,
  arithmetic on times, the day of the week. \<open>Calendar_Lemmas\<close> and \<open>Calendar_Conv\<close> relate
  them to a count of days defined by recursion over years and months.

  The theories whose names end in \<open>Props\<close> (and \<open>ClientReq\<close>) hold the numbered properties.

  \<^bold>\<open>What is shown.\<close> For each stateful component: a representation invariant that every operation
  keeps, a refinement to an abstract state (a set of free positions, a list, a bounded queue, a finite
  map, a set of points, a map of handles) over any history of operations with errors included, and the absence of faults in every
  reachable state. For the algorithms (heap sort, quick sort, binary search, first and best fit, the rehash,
  calendar conversion): that they end and are right for every input in their domain. Where the code
  falls short of what it means to do, a property states what it does: the size assertion of
  \<open>CopyAlignedRange\<close>, the granularity assertion of \<open>RArrayBase\<close>, the words that \<open>QuickSort\<close> reads below its table, the dates that a refused
  \<open>Set\<close> leaves, a reference leaked by a
  refused notification, a queue whose creation fails half way, the size \<open>Reserve\<close> asks for, the
  key of the sort of a region, the handles that \<open>LastHandle\<close> passes over, the compaction of the handle
  table that is never asked for.

  \<^bold>\<open>Not modelled.\<close> Assembler versions of the routines, whose C++ bodies are modelled instead.
  Concurrency inside an operation, except in the object index: the operations of the message queue run
  under the kernel lock or its mutex and are single steps. In the object index a slot is copied in one
  piece, the unions of a slot and of the list of modifications are kept as separate fields (each is read
  only in the state in which it was written), and the closing of the objects of a closed index is left to
  them. The \<open>L\<close> variants that call an operation and leave with its error, the typed template wrappers,
  debug-only consistency checks and test code. The formatting and parsing of dates, which depend on locale
  tables. Outside are the kernel's object containers, which rest on strings and their matching; publish and
  subscribe, client-server sessions, threads and processes, which rest on the nanokernel's scheduler, and
  this one on assembler and the order of memory accesses; the heap, which is raw memory; the memory models
  and the drivers, which are hardware; the file server and its file systems, which rest on all of these.
\<close>

end
